(* ===== verification/Prelude.thy ===== *)
theory Prelude
  imports Complex_Main
begin

text \<open>
  Shared vocabulary of the development.

  A JavaScript number that has passed the library's own argument validation is a finite IEEE double.
  It is modelled by an exact real number (type \<open>num\<close>): \<open>Math.floor\<close>, \<open>Math.ceil\<close>, \<open>Math.min\<close> and
  \<open>Math.max\<close> are \<open>js_floor\<close>, \<open>js_ceil\<close>, \<open>min\<close> and \<open>max\<close> on the reals. Rounding of the last bit is
  not modelled; the two range effects the code guards against explicitly (overflow to \<open>Infinity\<close> and
  underflow to \<open>0\<close>) are, by \<open>js_of_real\<close>, and values that reach a validator are of the type
  \<open>js_number\<close>, which has \<open>NaN\<close> and the two infinities. A throw is the left injection of a sum.
\<close>

section \<open>Numbers\<close>

type_synonym num = real

definition js_floor :: "num \<Rightarrow> num" where
  "js_floor x = of_int \<lfloor>x\<rfloor>"

definition js_ceil :: "num \<Rightarrow> num" where
  "js_ceil x = of_int \<lceil>x\<rceil>"

text \<open>\<open>Math.round\<close>: halves go up, which is \<open>floor (x + 1/2)\<close>.\<close>

definition js_round :: "num \<Rightarrow> num" where
  "js_round x = of_int \<lfloor>x + 1/2\<rfloor>"

definition max_safe_integer :: num where
  "max_safe_integer = 9007199254740991"

datatype js_number = NaN | Infinity | NegInfinity | Num num

text \<open>
  The value of an arithmetic operation with exact result \<open>x\<close>, as far as the range of doubles is
  concerned: from \<open>2 ^ 1024 - 2 ^ 970\<close> on round-to-nearest gives \<open>Infinity\<close>, up to \<open>2 ^ -1075\<close> it
  gives zero.
\<close>

definition js_of_real :: "num \<Rightarrow> js_number" where
  "js_of_real x =
     (if x \<ge> 2 ^ 1024 - 2 ^ 970 then Infinity
      else if x \<le> - (2 ^ 1024 - 2 ^ 970) then NegInfinity
      else if \<bar>x\<bar> * 2 ^ 1075 \<le> 1 then Num 0
      else Num x)"

fun isFinite :: "js_number \<Rightarrow> bool" where
  "isFinite (Num _) = True"
| "isFinite _ = False"

section \<open>Errors as values\<close>

text \<open>A \<open>PlatformError\<close> is what a client library threw, passed on as it was.\<close>

datatype error =
    RangeError string
  | TypeError string
  | ThrottleKitError string
  | QueueFullError num
  | StoreUnavailableError string
  | NotImplementedError string
  | ConfigInvalid string
  | PlatformError string

type_synonym 'a result = "error + 'a"

definition rbind :: "'a result \<Rightarrow> ('a \<Rightarrow> 'b result) \<Rightarrow> 'b result" where
  "rbind r f = (case r of Inl e \<Rightarrow> Inl e | Inr x \<Rightarrow> f x)"

section \<open>Automation\<close>

named_theorems js_simps \<open>rounding facts used to reason about the integer fields of a decision\<close>
named_theorems result_simps \<open>facts that run or invert a computation that may throw\<close>

lemma rbind_Inl [simp]: "rbind (Inl e) f = Inl e"
  by (simp add: rbind_def)

lemma rbind_Inr [simp]: "rbind (Inr x) f = f x"
  by (simp add: rbind_def)

lemma rbind_eq_Inr [result_simps]: "rbind r f = Inr y \<longleftrightarrow> (\<exists>x. r = Inr x \<and> f x = Inr y)"
  by (cases r) auto

lemma if_Inl_eq_Inr [result_simps]: "(if b then Inl e else r) = Inr y \<longleftrightarrow> \<not> b \<and> r = Inr y"
  by auto

lemma case_js_number_eq_Inr [result_simps]:
  "(case v of NaN \<Rightarrow> Inl a | Infinity \<Rightarrow> Inl b | NegInfinity \<Rightarrow> Inl c | Num x \<Rightarrow> f x) = Inr y \<longleftrightarrow>
   (\<exists>x. v = Num x \<and> f x = Inr y)"
  by (cases v) auto

lemma js_of_real_Num:
  "js_of_real x = Num y \<Longrightarrow> y \<noteq> 0 \<Longrightarrow> y = x"
  by (auto simp: js_of_real_def split: if_splits)

lemma js_floor_le [js_simps, intro]: "js_floor x \<le> x"
  by (simp add: js_floor_def)

lemma js_floor_gt [js_simps]: "x < js_floor x + 1"
  unfolding js_floor_def by linarith

lemma js_ceil_ge [js_simps, intro]: "x \<le> js_ceil x"
  by (simp add: js_ceil_def)

lemma js_ceil_lt [js_simps]: "js_ceil x < x + 1"
  unfolding js_ceil_def by linarith

lemma js_floor_of_int [simp]: "js_floor (of_int k) = of_int k"
  by (simp add: js_floor_def)

lemma js_ceil_of_int [simp]: "js_ceil (of_int k) = of_int k"
  by (simp add: js_ceil_def)

lemma js_floor_numeral [simp]:
  "js_floor 0 = 0" "js_floor 1 = 1" "js_floor (numeral n) = numeral n"
  by (simp_all add: js_floor_def)

lemma js_ceil_numeral [simp]:
  "js_ceil 0 = 0" "js_ceil 1 = 1" "js_ceil (numeral n) = numeral n"
  by (simp_all add: js_ceil_def)

lemma js_floor_Ints [simp]: "x \<in> \<int> \<Longrightarrow> js_floor x = x"
  by (auto simp: js_floor_def elim: Ints_cases)

lemma js_ceil_Ints [simp]: "x \<in> \<int> \<Longrightarrow> js_ceil x = x"
  by (auto simp: js_ceil_def elim: Ints_cases)

lemma js_floor_in_Ints [simp, intro]: "js_floor x \<in> \<int>"
  by (simp add: js_floor_def)

lemma js_ceil_in_Ints [simp, intro]: "js_ceil x \<in> \<int>"
  by (simp add: js_ceil_def)

lemma Ints_max [simp]: "a \<in> \<int> \<Longrightarrow> b \<in> \<int> \<Longrightarrow> max a (b :: num) \<in> \<int>"
  by (simp add: max_def)

lemma Ints_min [simp]: "a \<in> \<int> \<Longrightarrow> b \<in> \<int> \<Longrightarrow> min a (b :: num) \<in> \<int>"
  by (simp add: min_def)

lemma js_floor_mono: "x \<le> y \<Longrightarrow> js_floor x \<le> js_floor y"
  by (simp add: js_floor_def floor_mono)

lemma js_ceil_mono: "x \<le> y \<Longrightarrow> js_ceil x \<le> js_ceil y"
  by (simp add: js_ceil_def ceiling_mono)

lemma js_floor_nonneg_iff [simp]: "0 \<le> js_floor x \<longleftrightarrow> 0 \<le> x"
  by (simp add: js_floor_def)

lemma js_floor_neg_iff [simp]: "js_floor x < 0 \<longleftrightarrow> x < 0"
  by (simp add: js_floor_def)

lemma js_floor_ge_1_iff [simp]: "1 \<le> js_floor x \<longleftrightarrow> 1 \<le> x"
  by (simp add: js_floor_def)

lemma js_ceil_pos_iff [simp]: "0 < js_ceil x \<longleftrightarrow> 0 < x"
  by (simp add: js_ceil_def)

lemma js_ceil_ge_1_iff [simp]: "1 \<le> js_ceil x \<longleftrightarrow> 0 < x"
  unfolding js_ceil_def by (simp add: one_le_ceiling)

lemma js_ceil_nonneg: "0 \<le> x \<Longrightarrow> 0 \<le> js_ceil x"
  using js_ceil_ge[of x] by linarith

text \<open>The clamps of the scripts and of the code, written as conditionals in the source.\<close>

lemma if_less_max: "(if x < y then y else x) = max y (x :: num)"
  by (simp add: max_def)

lemma if_greater_min: "(if x > y then y else x) = min y (x :: num)"
  by (simp add: min_def)

text \<open>The unique integer multiple below: \<open>floor(now / w) * w\<close> is where the window of \<open>now\<close> starts.\<close>

lemma window_start_le: "0 < w \<Longrightarrow> js_floor (t / w) * w \<le> t"
  using js_floor_le[of "t / w"] by (simp add: pos_le_divide_eq)

lemma window_start_gt: "0 < w \<Longrightarrow> t < js_floor (t / w) * w + w"
  using js_floor_gt[of "t / w"] by (simp add: pos_divide_less_eq distrib_right)

lemma window_start_unique:
  assumes "0 < w" "js_floor (t / w) * w + w \<le> t'"
  shows "js_floor (t / w) * w < js_floor (t' / w) * w"
  using window_start_gt[of w t'] assms by linarith

lemma window_start_mono: "0 < w \<Longrightarrow> t \<le> t' \<Longrightarrow> js_floor (t / w) * w \<le> js_floor (t' / w) * w"
  by (intro mult_right_mono js_floor_mono divide_right_mono) auto

end
