(* ===== verification/Core.thy ===== *)
theory Core
  imports Prelude
begin

text \<open>
  The domain model of \<open>src/core\<close>: the immutable \<open>Decision\<close>, the \<open>Forecast\<close>, the outcome of one
  transition, the \<open>Strategy\<close> interface (a record of pure functions), the argument validators, the
  decision algebra of \<open>combine.ts\<close>, durations, key prefixes and the manual clock.
\<close>

section \<open>Decisions and outcomes (types.ts)\<close>

record decision =
  d_allowed :: bool
  d_limit :: num
  d_remaining :: num
  d_resetAt :: num
  d_retryAfterMs :: num

record forecast =
  f_spendableNow :: num
  f_nextReplenishAt :: num
  f_fullAt :: num

record ('s, 'r) apply_outcome =
  o_state :: "'s option"
  o_result :: 'r
  o_ttlMs :: num
  o_persist :: bool

record 's strategy =
  st_name :: string
  st_limit :: num
  st_windowMs :: "num option"
  st_ttlMs :: num
  st_check :: "'s option \<Rightarrow> num \<Rightarrow> num \<Rightarrow> ('s, decision) apply_outcome"
  st_peek :: "('s option \<Rightarrow> num \<Rightarrow> decision) option"
  st_forecast :: "('s option \<Rightarrow> num \<Rightarrow> num \<Rightarrow> forecast) option"

section \<open>Validators (validate.ts)\<close>

text \<open>A validator that returns normally hands back the finite number it was given.\<close>

fun requirePositive :: "string \<Rightarrow> js_number \<Rightarrow> num result" where
  "requirePositive name (Num x) = (if x \<le> 0 then Inl (RangeError name) else Inr x)"
| "requirePositive name _ = Inl (RangeError name)"

fun requireAtLeast :: "string \<Rightarrow> js_number \<Rightarrow> num \<Rightarrow> num result" where
  "requireAtLeast name (Num x) lo = (if x < lo then Inl (RangeError name) else Inr x)"
| "requireAtLeast name _ lo = Inl (RangeError name)"

fun requireAtMost :: "string \<Rightarrow> js_number \<Rightarrow> num \<Rightarrow> num result" where
  "requireAtMost name (Num x) hi = (if x > hi then Inl (RangeError name) else Inr x)"
| "requireAtMost name _ hi = Inl (RangeError name)"

fun requireInteger :: "string \<Rightarrow> js_number \<Rightarrow> num result" where
  "requireInteger name (Num x) = (if js_floor x \<noteq> x then Inl (RangeError name) else Inr x)"
| "requireInteger name _ = Inl (RangeError name)"

fun requireFinite :: "string \<Rightarrow> js_number \<Rightarrow> num result" where
  "requireFinite name (Num x) = Inr x"
| "requireFinite name _ = Inl (RangeError name)"

text \<open>
  \<open>Math.floor(MAX_SAFE_INTEGER / span) * span\<close>: the quotient may already overflow, in which case the
  product does too.
\<close>

definition requireFiniteWindow :: "string \<Rightarrow> num \<Rightarrow> num result" where
  "requireFiniteWindow name sp =
     (if sp \<le> 0 \<or>
         (case js_of_real (max_safe_integer / sp) of
            Num q \<Rightarrow> \<not> isFinite (js_of_real (js_floor q * sp))
          | _ \<Rightarrow> True)
      then Inl (RangeError name) else Inr sp)"

definition requireCost :: "js_number \<Rightarrow> num result" where
  "requireCost cost =
     (case cost of
        Num c \<Rightarrow> if c \<le> 0 then Inl (RangeError ''cost'')
                 else if c > max_safe_integer then Inl (RangeError ''cost'')
                 else Inr c
      | _ \<Rightarrow> Inl (RangeError ''cost''))"

section \<open>The decision algebra (combine.ts)\<close>

definition ALLOW_FULL :: decision where
  "ALLOW_FULL = \<lparr>d_allowed = True, d_limit = max_safe_integer, d_remaining = max_safe_integer,
     d_resetAt = 0, d_retryAfterMs = 0\<rparr>"

definition combineDecisions :: "decision \<Rightarrow> decision \<Rightarrow> decision" where
  "combineDecisions a b =
     \<lparr>d_allowed = (d_allowed a \<and> d_allowed b),
      d_limit = min (d_limit a) (d_limit b),
      d_remaining = min (d_remaining a) (d_remaining b),
      d_resetAt = max (d_resetAt a) (d_resetAt b),
      d_retryAfterMs = max (d_retryAfterMs a) (d_retryAfterMs b)\<rparr>"

section \<open>The Lua side (lua.ts)\<close>

text \<open>
  Every script resolves \<open>now\<close> from \<open>ARGV[1]\<close>, the sentinel \<open>0\<close> meaning the server clock, which the
  \<open>TIME\<close> command returns as seconds and microseconds. A script replies with five numbers, and Redis
  truncates each to an integer.
\<close>

definition lua_now :: "num \<Rightarrow> num \<times> num \<Rightarrow> num" where
  "lua_now argv t = (if argv = 0 then fst t * 1000 + js_floor (snd t / 1000) else argv)"

definition redis_int :: "num \<Rightarrow> num" where
  "redis_int x = (if 0 \<le> x then js_floor x else js_ceil x)"

type_synonym lua_reply = "num \<times> num \<times> num \<times> num \<times> num"

definition redis_reply :: "lua_reply \<Rightarrow> lua_reply" where
  "redis_reply r =
     (case r of (a, l, m, s, w) \<Rightarrow> (redis_int a, redis_int l, redis_int m, redis_int s, redis_int w))"

definition decodeDecision :: "lua_reply \<Rightarrow> decision" where
  "decodeDecision r =
     (case r of (a, l, m, s, w) \<Rightarrow>
        \<lparr>d_allowed = (a = 1), d_limit = l, d_remaining = m, d_resetAt = s, d_retryAfterMs = w\<rparr>)"

section \<open>Error codes (errors.ts)\<close>

datatype error_code =
    throttlekit_error | store_unavailable | not_implemented | rate_limit_exceeded | queue_full | config_invalid

text \<open>The \<open>code\<close> of an error of the library; the errors of the language have none.\<close>

fun error_code_of :: "error \<Rightarrow> error_code option" where
  "error_code_of (RangeError _) = None"
| "error_code_of (TypeError _) = None"
| "error_code_of (ThrottleKitError _) = Some throttlekit_error"
| "error_code_of (QueueFullError _) = Some queue_full"
| "error_code_of (StoreUnavailableError _) = Some store_unavailable"
| "error_code_of (NotImplementedError _) = Some not_implemented"
| "error_code_of (ConfigInvalid _) = Some config_invalid"
| "error_code_of (PlatformError _) = None"

section \<open>Small helpers (math.ts, key.ts, clock.ts)\<close>

definition clamp :: "num \<Rightarrow> num \<Rightarrow> num \<Rightarrow> num" where
  "clamp value lo hi = min hi (max lo value)"

definition prefixer :: "string option \<Rightarrow> string \<Rightarrow> string" where
  "prefixer prefix key =
     (case prefix of
        Some p \<Rightarrow> if length p > 0 then p @ '':'' @ key else key
      | None \<Rightarrow> key)"

text \<open>The manual clock: its only state is the current time.\<close>

fun clock_advance :: "num \<Rightarrow> js_number \<Rightarrow> num result" where
  "clock_advance t (Num ms) = (if ms < 0 then Inl (RangeError ''ManualClock.advance'') else Inr (t + ms))"
| "clock_advance t _ = Inl (RangeError ''ManualClock.advance'')"

fun clock_set :: "num \<Rightarrow> js_number \<Rightarrow> num result" where
  "clock_set t (Num ms) = Inr ms"
| "clock_set t _ = Inl (RangeError ''ManualClock.set'')"


section \<open>Lemmas\<close>

lemma requirePositive_Inr [result_simps]:
  "requirePositive n v = Inr x \<longleftrightarrow> v = Num x \<and> 0 < x"
  by (cases v) auto

lemma requireAtLeast_Inr [result_simps]:
  "requireAtLeast n v lo = Inr x \<longleftrightarrow> v = Num x \<and> lo \<le> x"
  by (cases v) auto

lemma requireAtMost_Inr [result_simps]:
  "requireAtMost n v hi = Inr x \<longleftrightarrow> v = Num x \<and> x \<le> hi"
  by (cases v) auto

lemma requireInteger_Inr [result_simps]:
  "requireInteger n v = Inr x \<longleftrightarrow> v = Num x \<and> js_floor x = x"
  by (cases v) auto

lemma requireFinite_Inr [result_simps]:
  "requireFinite n v = Inr x \<longleftrightarrow> v = Num x"
  by (cases v) auto

lemma requireFiniteWindow_Inr:
  "requireFiniteWindow n sp = Inr x \<Longrightarrow> x = sp \<and> 0 < sp"
  by (auto simp: requireFiniteWindow_def split: if_splits)

lemma requireCost_Inr [result_simps]:
  "requireCost v = Inr c \<longleftrightarrow> v = Num c \<and> 0 < c \<and> c \<le> max_safe_integer"
  by (auto simp: requireCost_def split: js_number.splits if_splits)

lemma redis_int_Ints [simp]: "x \<in> \<int> \<Longrightarrow> redis_int x = x"
  by (simp add: redis_int_def)

lemma redis_int_numeral [simp]: "redis_int 0 = 0" "redis_int 1 = 1" "redis_int (numeral n) = numeral n"
  by (simp_all add: redis_int_def)

lemma redis_int_js [simp]: "redis_int (js_floor x) = js_floor x" "redis_int (js_ceil x) = js_ceil x"
  by simp_all

lemma redis_int_if [simp]: "redis_int (if b then x else y) = (if b then redis_int x else redis_int y)"
  by simp

lemma clamp_bounds: "lo \<le> hi \<Longrightarrow> lo \<le> clamp v lo hi \<and> clamp v lo hi \<le> hi"
  by (auto simp: clamp_def)

lemma combine_assoc:
  "combineDecisions (combineDecisions a b) c = combineDecisions a (combineDecisions b c)"
  by (simp add: combineDecisions_def min.assoc max.assoc)

lemma combine_comm: "combineDecisions a b = combineDecisions b a"
  by (auto simp: combineDecisions_def min.commute max.commute)

lemma combine_idem: "combineDecisions (d::decision) d = d"
  by (simp add: combineDecisions_def)

lemma combine_ALLOW_FULL:
  "d_limit d \<le> max_safe_integer \<Longrightarrow> d_remaining d \<le> max_safe_integer \<Longrightarrow>
   0 \<le> d_resetAt d \<Longrightarrow> 0 \<le> d_retryAfterMs d \<Longrightarrow> combineDecisions d ALLOW_FULL = (d::decision)"
  by (simp add: combineDecisions_def ALLOW_FULL_def)

lemma prefixer_inj: "prefixer p k = prefixer p k' \<longleftrightarrow> k = k'"
  by (auto simp: prefixer_def split: option.splits)

end
