(* ===== verification/Contract.thy ===== *)
theory Contract
  imports Core
begin

text \<open>
  The contract every \<open>Strategy\<close> of \<open>src/algorithms\<close> keeps, as a locale, and what a client of the
  contract may rely on. A strategy has a \<open>view\<close>: the part of a stored state that its transition can
  observe at a given instant. A state that is forgotten after its TTL is indistinguishable from one
  that is kept for ever, because the view of a persisted state equals the view of the absent state
  from its expiry on. \<open>dom p\<close> is the range of clocks the laws of \<open>p\<close> cover, closed upwards (all of them,
  but for the calendar-month quota). The client lemma of this theory turns that law into the statement that a
  store which expires entries gives the same decisions as one that never forgets.
\<close>

section \<open>Runs of a strategy\<close>

text \<open>What a store keeps after one transition: the new state when \<open>persist\<close> is set.\<close>

definition next_state :: "'s option \<Rightarrow> ('s, 'r) apply_outcome \<Rightarrow> 's option" where
  "next_state st out = (if o_persist out then o_state out else st)"

text \<open>Requests are pairs of a time and a cost.\<close>

type_synonym request = "num \<times> num"

fun run_strategy :: "'s strategy \<Rightarrow> 's option \<Rightarrow> request list \<Rightarrow> decision list" where
  "run_strategy S st [] = []"
| "run_strategy S st ((now, c) # rs) =
     (let out = st_check S st now c
      in o_result out # run_strategy S (next_state st out) rs)"

text \<open>The same run over one cell of a store that forgets a state at its expiry time.\<close>

type_synonym 's cell = "('s \<times> num) option"

definition live_cell :: "'s cell \<Rightarrow> num \<Rightarrow> 's option" where
  "live_cell cl now = (case cl of Some (s, e) \<Rightarrow> if e > now then Some s else None | None \<Rightarrow> None)"

definition next_cell :: "'s cell \<Rightarrow> num \<Rightarrow> ('s, 'r) apply_outcome \<Rightarrow> 's cell" where
  "next_cell cl now out =
     (if o_persist out
      then (case o_state out of Some s \<Rightarrow> Some (s, now + max 0 (o_ttlMs out)) | None \<Rightarrow> None)
      else (case cl of Some (s, e) \<Rightarrow> if e > now then cl else None | None \<Rightarrow> None))"

fun run_cell :: "'s strategy \<Rightarrow> 's cell \<Rightarrow> request list \<Rightarrow> decision list" where
  "run_cell S cl [] = []"
| "run_cell S cl ((now, c) # rs) =
     (let out = st_check S (live_cell cl now) now c
      in o_result out # run_cell S (next_cell cl now out) rs)"

fun monotone_from :: "num \<Rightarrow> request list \<Rightarrow> bool" where
  "monotone_from t [] = True"
| "monotone_from t ((now, c) # rs) = (t \<le> now \<and> 0 < c \<and> monotone_from now rs)"

text \<open>The total cost a run admits.\<close>

fun admitted_cost :: "request list \<Rightarrow> decision list \<Rightarrow> num" where
  "admitted_cost ((now, c) # rs) (d # ds) = (if d_allowed d then c else 0) + admitted_cost rs ds"
| "admitted_cost _ _ = 0"

text \<open>The total cost a run admits at times that satisfy \<open>P\<close>.\<close>

fun admitted_where :: "(num \<Rightarrow> bool) \<Rightarrow> request list \<Rightarrow> decision list \<Rightarrow> num" where
  "admitted_where P ((now, c) # rs) (d # ds) =
     (if d_allowed d \<and> P now then c else 0) + admitted_where P rs ds"
| "admitted_where P _ _ = 0"

lemma admitted_where_True: "admitted_where (\<lambda>_. True) rs ds = admitted_cost rs ds"
  by (induction rs ds rule: admitted_cost.induct) auto

lemma admitted_where_none:
  "\<forall>r\<in>set rs. \<not> P (fst r) \<Longrightarrow> admitted_where P rs ds = 0"
  by (induction P rs ds rule: admitted_where.induct) (auto simp: Ball_def)

lemma admitted_where_nonneg: "monotone_from t rs \<Longrightarrow> 0 \<le> admitted_where P rs ds"
  by (induction P rs ds arbitrary: t rule: admitted_where.induct) (auto intro!: add_nonneg_nonneg)

lemma admitted_where_split:
  "monotone_from t rs \<Longrightarrow> (\<And>r. r \<in> set rs \<Longrightarrow> P (fst r) \<Longrightarrow> Q (fst r) \<or> R (fst r)) \<Longrightarrow>
   admitted_where P rs ds \<le> admitted_where Q rs ds + admitted_where R rs ds"
proof (induction P rs ds arbitrary: t rule: admitted_where.induct)
  case (1 P now c rs d ds)
  then have "admitted_where P rs ds \<le> admitted_where Q rs ds + admitted_where R rs ds" by auto
  moreover have "d_allowed d \<and> P now \<longrightarrow> Q now \<or> R now" using "1.prems"(2)[of "(now, c)"] by auto
  ultimately show ?case using "1.prems"(1) by auto
qed auto

lemma monotone_from_ge: "monotone_from t rs \<Longrightarrow> r \<in> set rs \<Longrightarrow> t \<le> fst r"
  by (induction t rs rule: monotone_from.induct) (auto intro: order_trans)

definition last_time :: "num \<Rightarrow> request list \<Rightarrow> num" where
  "last_time t rs = (if rs = [] then t else fst (last rs))"

lemma last_time_simps [simp]:
  "last_time t [] = t"
  "last_time t ((now, c) # rs) = last_time now rs"
  by (auto simp: last_time_def)

lemma last_time_ge: "monotone_from t rs \<Longrightarrow> t \<le> last_time t rs"
  by (induction t rs rule: monotone_from.induct) auto

lemma admitted_cost_nonneg: "monotone_from t rs \<Longrightarrow> 0 \<le> admitted_cost rs ds"
  by (induction rs ds arbitrary: t rule: admitted_cost.induct) (auto intro!: add_nonneg_nonneg)

definition opt_inv :: "(num \<Rightarrow> 's \<Rightarrow> bool) \<Rightarrow> num \<Rightarrow> 's option \<Rightarrow> bool" where
  "opt_inv ok t st = (case st of None \<Rightarrow> True | Some s \<Rightarrow> ok t s)"

lemma opt_inv_None [simp]: "opt_inv ok t None"
  by (simp add: opt_inv_def)

lemma opt_inv_Some [simp]: "opt_inv ok t (Some s) = ok t s"
  by (simp add: opt_inv_def)

section \<open>The contract\<close>

locale strategy_contract =
  fixes mk :: "'p \<Rightarrow> 's strategy"
    and valid :: "'p \<Rightarrow> bool"
    and dom :: "'p \<Rightarrow> num \<Rightarrow> bool"
    and ok :: "'p \<Rightarrow> num \<Rightarrow> 's \<Rightarrow> bool"
    and view :: "'p \<Rightarrow> 's option \<Rightarrow> num \<Rightarrow> 'v"
  assumes check_limit: "valid p \<Longrightarrow> d_limit (o_result (st_check (mk p) st now c)) = st_limit (mk p)"
    and persist_iff: "valid p \<Longrightarrow> o_persist (st_check (mk p) st now c) = d_allowed (o_result (st_check (mk p) st now c))"
    and denied_state: "valid p \<Longrightarrow> \<not> d_allowed (o_result (st_check (mk p) st now c)) \<Longrightarrow> o_state (st_check (mk p) st now c) = st"
    and allowed_state: "valid p \<Longrightarrow> d_allowed (o_result (st_check (mk p) st now c)) \<Longrightarrow> o_state (st_check (mk p) st now c) \<noteq> None"
    and remaining_nonneg: "valid p \<Longrightarrow> 0 \<le> d_remaining (o_result (st_check (mk p) st now c))"
    and allowed_retry: "valid p \<Longrightarrow> d_allowed (o_result (st_check (mk p) st now c)) \<Longrightarrow> d_retryAfterMs (o_result (st_check (mk p) st now c)) = 0"
    and denied_retry: "valid p \<Longrightarrow> dom p now \<Longrightarrow> \<not> d_allowed (o_result (st_check (mk p) st now c)) \<Longrightarrow> 0 < d_retryAfterMs (o_result (st_check (mk p) st now c))"
    and ttl_pos: "valid p \<Longrightarrow> 0 < c \<Longrightarrow> d_allowed (o_result (st_check (mk p) st now c)) \<Longrightarrow> 0 < o_ttlMs (st_check (mk p) st now c)"
    and dom_mono: "valid p \<Longrightarrow> dom p t \<Longrightarrow> t \<le> t' \<Longrightarrow> dom p t'"
    and inv_mono: "valid p \<Longrightarrow> ok p t s \<Longrightarrow> t \<le> t' \<Longrightarrow> ok p t' s"
    and inv_check: "valid p \<Longrightarrow> dom p now \<Longrightarrow> 0 < c \<Longrightarrow> opt_inv (ok p) now st \<Longrightarrow> d_allowed (o_result (st_check (mk p) st now c)) \<Longrightarrow>
      opt_inv (ok p) now (o_state (st_check (mk p) st now c))"
    and view_result: "valid p \<Longrightarrow> view p a now = view p b now \<Longrightarrow>
      o_result (st_check (mk p) a now c) = o_result (st_check (mk p) b now c)"
    and view_state: "valid p \<Longrightarrow> 0 < c \<Longrightarrow> opt_inv (ok p) now a \<Longrightarrow> opt_inv (ok p) now b \<Longrightarrow> view p a now = view p b now \<Longrightarrow>
      d_allowed (o_result (st_check (mk p) a now c)) \<Longrightarrow> now \<le> t' \<Longrightarrow>
      view p (o_state (st_check (mk p) a now c)) t' = view p (o_state (st_check (mk p) b now c)) t'"
    and ttl_sound: "valid p \<Longrightarrow> dom p now \<Longrightarrow> 0 < c \<Longrightarrow> opt_inv (ok p) now a \<Longrightarrow> d_allowed (o_result (st_check (mk p) a now c)) \<Longrightarrow>
      now + o_ttlMs (st_check (mk p) a now c) \<le> t' \<Longrightarrow>
      view p (o_state (st_check (mk p) a now c)) t' = view p None t'"
begin

lemma next_state_denied:
  "valid p \<Longrightarrow> \<not> d_allowed (o_result (st_check (mk p) st now c)) \<Longrightarrow> next_state st (st_check (mk p) st now c) = st"
  by (simp add: next_state_def persist_iff)

lemma next_state_inv:
  "valid p \<Longrightarrow> dom p now \<Longrightarrow> 0 < c \<Longrightarrow> opt_inv (ok p) now st \<Longrightarrow> opt_inv (ok p) now (next_state st (st_check (mk p) st now c))"
  by (auto simp: next_state_def persist_iff intro: inv_check)

lemma opt_inv_mono: "valid p \<Longrightarrow> opt_inv (ok p) t st \<Longrightarrow> t \<le> t' \<Longrightarrow> opt_inv (ok p) t' st"
  by (cases st) (auto intro: inv_mono)

text \<open>A cell simulates a state from time \<open>t\<close> on when what is still alive of it has the same view.\<close>

definition simulates :: "'p \<Rightarrow> num \<Rightarrow> 's cell \<Rightarrow> 's option \<Rightarrow> bool" where
  "simulates p t cl st \<longleftrightarrow>
     opt_inv (ok p) t st \<and> opt_inv (ok p) t (map_option fst cl) \<and>
     (\<forall>t'\<ge>t. view p (live_cell cl t') t' = view p st t')"

lemma live_cell_inv: "opt_inv (ok p) t (map_option fst cl) \<Longrightarrow> opt_inv (ok p) t (live_cell cl t')"
  by (auto simp: live_cell_def split: option.splits)

lemma simulates_step:
  assumes v: "valid p" and dm: "dom p now" and sim: "simulates p t cl st" and t: "t \<le> now" and c: "0 < c"
  shows "o_result (st_check (mk p) (live_cell cl now) now c) = o_result (st_check (mk p) st now c)"
    and "simulates p now (next_cell cl now (st_check (mk p) (live_cell cl now) now c))
           (next_state st (st_check (mk p) st now c))"
proof -
  let ?l = "live_cell cl now"
  let ?o = "st_check (mk p) ?l now c" and ?p = "st_check (mk p) st now c"
  have invs: "opt_inv (ok p) now st" "opt_inv (ok p) now ?l" "opt_inv (ok p) now (map_option fst cl)"
    using v sim t by (auto simp: simulates_def intro: opt_inv_mono live_cell_inv)
  have vw: "view p ?l now = view p st now" using sim t by (simp add: simulates_def)
  then show res: "o_result ?o = o_result ?p" by (rule view_result[OF v])
  show "simulates p now (next_cell cl now ?o) (next_state st ?p)"
  proof (cases "d_allowed (o_result ?o)")
    case True
    then obtain s where s: "o_state ?o = Some s" using allowed_state[OF v] by blast
    let ?ttl = "o_ttlMs ?o"
    have ttl: "0 < ?ttl" using ttl_pos[OF v c True] .
    have cell: "next_cell cl now ?o = Some (s, now + ?ttl)"
      using True s ttl by (simp add: next_cell_def persist_iff[OF v])
    have nxt: "next_state st ?p = o_state ?p"
      using True res by (simp add: next_state_def persist_iff[OF v])
    have "view p (live_cell (Some (s, now + ?ttl)) t') t' = view p (o_state ?p) t'" if "now \<le> t'" for t'
    proof -
      have vs: "view p (Some s) t' = view p (o_state ?p) t'"
        using view_state[OF v c invs(2,1) vw True that] s by simp
      show ?thesis
      proof (cases "now + ?ttl > t'")
        case True
        then show ?thesis using vs by (simp add: live_cell_def)
      next
        case False
        then have "view p (Some s) t' = view p None t'"
          using ttl_sound[OF v dm c invs(2) \<open>d_allowed (o_result ?o)\<close>] s by simp
        then show ?thesis using vs False by (simp add: live_cell_def)
      qed
    qed
    moreover have "opt_inv (ok p) now (o_state ?p)"
      using inv_check[OF v dm c invs(1)] True res by simp
    moreover have "opt_inv (ok p) now (Some s)"
      using inv_check[OF v dm c invs(2) True] s by simp
    ultimately show ?thesis by (simp add: simulates_def cell nxt)
  next
    case False
    have nxt: "next_state st ?p = st" using False res next_state_denied[OF v] by simp
    have "live_cell (next_cell cl now ?o) t' = live_cell cl t'" if "now \<le> t'" for t'
      using False that by (auto simp: next_cell_def persist_iff[OF v] live_cell_def split: option.splits)
    moreover have "opt_inv (ok p) now (map_option fst (next_cell cl now ?o))"
      using False invs(3) by (auto simp: next_cell_def persist_iff[OF v] split: option.splits)
    ultimately show ?thesis using sim t invs by (auto simp: simulates_def nxt)
  qed
qed

lemma run_simulates:
  "valid p \<Longrightarrow> dom p t \<Longrightarrow> simulates p t cl st \<Longrightarrow> monotone_from t rs \<Longrightarrow> run_cell (mk p) cl rs = run_strategy (mk p) st rs"
proof (induction rs arbitrary: t cl st)
  case Nil
  then show ?case by simp
next
  case (Cons r rs)
  obtain now c where r: "r = (now, c)" by (cases r)
  with Cons.prems have t: "t \<le> now" "0 < c" "monotone_from now rs" by auto
  have dm: "dom p now" using dom_mono[OF Cons.prems(1,2) t(1)] .
  note step = simulates_step[OF Cons.prems(1) dm Cons.prems(3) t(1,2)]
  show ?case
    using step(1) Cons.IH[OF Cons.prems(1) dm step(2) t(3)] by (simp add: r Let_def)
qed

text \<open>Expiring the state at the TTL a strategy asks for never changes a decision.\<close>

lemma run_cell_eq_run_strategy:
  "valid p \<Longrightarrow> dom p t \<Longrightarrow> monotone_from t rs \<Longrightarrow> run_cell (mk p) None rs = run_strategy (mk p) None rs"
  by (rule run_simulates[of _ t]) (auto simp: simulates_def live_cell_def)

end

section \<open>Introspection\<close>

text \<open>
  \<open>peek\<close> never consumes: it is a function of the view. It agrees with a cost-1 \<open>check\<close>, and where
  that check would be denied it is exactly the denial the check would return.
\<close>

locale introspective_strategy = strategy_contract mk valid dom ok view
  for mk :: "'p \<Rightarrow> 's strategy" and valid dom ok and view :: "'p \<Rightarrow> 's option \<Rightarrow> num \<Rightarrow> 'v" +
  fixes peek :: "'p \<Rightarrow> 's option \<Rightarrow> num \<Rightarrow> decision"
  assumes peek_sel: "st_peek (mk p) = Some (peek p)"
    and peek_allowed: "valid p \<Longrightarrow>
      d_allowed (peek p st now) = d_allowed (o_result (st_check (mk p) st now 1))"
    and peek_denied: "valid p \<Longrightarrow> \<not> d_allowed (peek p st now) \<Longrightarrow>
      peek p st now = o_result (st_check (mk p) st now 1)"
    and peek_view: "valid p \<Longrightarrow> view p a now = view p b now \<Longrightarrow> peek p a now = peek p b now"
begin

lemma peek_live_cell:
  "valid p \<Longrightarrow> simulates p t cl st \<Longrightarrow> t \<le> now \<Longrightarrow> peek p (live_cell cl now) now = peek p st now"
  by (rule peek_view) (auto simp: simulates_def)

end

text \<open>
  \<open>forecast\<close>, where a strategy has one, is a projection of the view too.
\<close>

locale forecasting_strategy = introspective_strategy mk valid dom ok view peek
  for mk :: "'p \<Rightarrow> 's strategy" and valid dom ok and view :: "'p \<Rightarrow> 's option \<Rightarrow> num \<Rightarrow> 'v" and peek +
  assumes forecast_sel: "st_forecast (mk p) \<noteq> None"
    and forecast_view: "valid p \<Longrightarrow> st_forecast (mk p) = Some fc \<Longrightarrow> view p a now = view p b now \<Longrightarrow> fc a now c = fc b now c"
begin

lemma forecast_live_cell:
  "valid p \<Longrightarrow> simulates p t cl st \<Longrightarrow> t \<le> now \<Longrightarrow> st_forecast (mk p) = Some fc \<Longrightarrow>
   fc (live_cell cl now) now c = fc st now c"
  by (rule forecast_view) (auto simp: simulates_def)

end

end
