(* ===== verification/Gcra.thy ===== *)
theory Gcra
  imports Contract
begin

text \<open>
  \<open>src/algorithms/gcra.ts\<close>: the Generic Cell Rate Algorithm. The state is one number, the
  theoretical arrival time (TAT). The factory, its three pure functions, and the atomic Redis form.
  The lemmas: the strategy contract, the classic conformance bound on every run, exactness of
  \<open>retryAfterMs\<close>, agreement of \<open>peek\<close> and \<open>forecast\<close> with \<open>check\<close>, and bit-identity with the script.
\<close>

section \<open>The algorithm\<close>

text \<open>\<open>const tat = state ?? now; const tatEff = tat > now ? tat : now\<close>\<close>

definition tat_eff :: "num option \<Rightarrow> num \<Rightarrow> num" where
  "tat_eff st now = (let tat = (case st of None \<Rightarrow> now | Some x \<Rightarrow> x) in if tat > now then tat else now)"

definition gcra_check ::
  "num \<Rightarrow> num \<Rightarrow> num \<Rightarrow> num \<Rightarrow> num option \<Rightarrow> num \<Rightarrow> num \<Rightarrow> (num, decision) apply_outcome" where
  "gcra_check T tau burst ttlMs st now cost =
     (let inc = T * cost;
          tatEff = tat_eff st now;
          newTat = tatEff + inc;
          allowAt = newTat - tau
      in if now < allowAt then
           (let remaining = js_floor ((tau - (tatEff - now)) / T)
            in \<lparr>o_state = st,
                o_result = \<lparr>d_allowed = False, d_limit = burst,
                  d_remaining = (if remaining < 0 then 0 else remaining),
                  d_resetAt = js_ceil tatEff, d_retryAfterMs = js_ceil (allowAt - now)\<rparr>,
                o_ttlMs = ttlMs, o_persist = False\<rparr>)
         else
           (let remaining = js_floor ((tau - (newTat - now)) / T)
            in \<lparr>o_state = Some newTat,
                o_result = \<lparr>d_allowed = True, d_limit = burst,
                  d_remaining = (if remaining < 0 then 0 else remaining),
                  d_resetAt = js_ceil newTat, d_retryAfterMs = 0\<rparr>,
                o_ttlMs = max 1 (js_ceil (newTat - now)), o_persist = True\<rparr>))"

definition gcra_peek :: "num \<Rightarrow> num \<Rightarrow> num \<Rightarrow> num option \<Rightarrow> num \<Rightarrow> decision" where
  "gcra_peek T tau burst st now =
     (let tatEff = tat_eff st now;
          r = js_floor ((tau - (tatEff - now)) / T);
          remaining = (if r < 0 then 0 else r);
          ok = remaining \<ge> 1
      in \<lparr>d_allowed = ok, d_limit = burst, d_remaining = remaining, d_resetAt = js_ceil tatEff,
          d_retryAfterMs = (if ok then 0 else js_ceil (tatEff + T - tau - now))\<rparr>)"

definition gcra_forecast :: "num \<Rightarrow> num \<Rightarrow> num option \<Rightarrow> num \<Rightarrow> num \<Rightarrow> forecast" where
  "gcra_forecast T tau st now cost =
     (let tatEff = tat_eff st now;
          k = max 0 (js_floor ((tau - (tatEff - now)) / T));
          full = tatEff \<le> now
      in \<lparr>f_spendableNow = js_floor (k / cost),
          f_nextReplenishAt = (if full then now else js_ceil (tatEff - tau + (k + 1) * T)),
          f_fullAt = (if full then now else js_ceil tatEff)\<rparr>)"

record gcra_options =
  go_limit :: js_number
  go_periodMs :: js_number
  go_burst :: "js_number option"

text \<open>The strategy a validated configuration builds: \<open>T\<close> and \<open>tau\<close> are derived once.\<close>

definition gcra_strategy :: "num \<Rightarrow> num \<Rightarrow> num \<Rightarrow> num strategy" where
  "gcra_strategy limit period burst =
     (let T = period / limit; tau = T * burst; ttlMs = js_ceil tau
      in \<lparr>st_name = ''gcra'', st_limit = burst, st_windowMs = Some period, st_ttlMs = ttlMs,
          st_check = gcra_check T tau burst ttlMs,
          st_peek = Some (gcra_peek T tau burst),
          st_forecast = Some (gcra_forecast T tau)\<rparr>)"

definition gcra :: "gcra_options \<Rightarrow> num strategy result" where
  "gcra opts =
     rbind (requirePositive ''gcra.limit'' (go_limit opts)) (\<lambda>limit.
     rbind (requirePositive ''gcra.periodMs'' (go_periodMs opts)) (\<lambda>period.
     rbind (requireAtLeast ''gcra.burst''
              (case go_burst opts of Some b \<Rightarrow> b | None \<Rightarrow> go_limit opts) 1) (\<lambda>burst.
       (case js_of_real (period / limit) of
          Num T \<Rightarrow>
            if T \<le> 0 \<or> T > max_safe_integer then Inl (RangeError ''gcra: emission interval'')
            else rbind (requireFinite ''gcra: T*burst'' (js_of_real (T * burst)))
                   (\<lambda>_. Inr (gcra_strategy limit period burst))
        | _ \<Rightarrow> Inl (RangeError ''gcra: emission interval'')))))"

section \<open>The Redis form (GCRA\_LUA)\<close>

text \<open>
  The script reads the stored TAT (\<open>GET\<close>) and returns the reply and, when it admits, the value and
  the \<open>PX\<close> of its \<open>SET\<close>. The value is printed with 17 significant digits, which is exact.
\<close>

definition gcra_lua ::
  "num \<times> num \<Rightarrow> num \<Rightarrow> num \<Rightarrow> num \<Rightarrow> num \<Rightarrow> num \<Rightarrow> num option \<Rightarrow> lua_reply \<times> (num \<times> num) option" where
  "gcra_lua time argv period limit burst cost stored =
     (let now = lua_now argv time;
          T = period / limit;
          tau = T * burst;
          inc = T * cost;
          tat0 = (case stored of Some x \<Rightarrow> x | None \<Rightarrow> now);
          tat = (if tat0 < now then now else tat0);
          new_tat = tat + inc;
          allow_at = new_tat - tau
      in if now < allow_at then
           (let r = js_floor ((tau - (tat - now)) / T)
            in ((0, burst, (if r < 0 then 0 else r), js_ceil tat, js_ceil (allow_at - now)), None))
         else
           (let r = js_floor ((tau - (new_tat - now)) / T);
                px = js_ceil (new_tat - now)
            in ((1, burst, (if r < 0 then 0 else r), js_ceil new_tat, 0),
                Some (new_tat, if px < 1 then 1 else px))))"

section \<open>Lemmas\<close>

lemma tat_eff_max: "tat_eff st now = max now (case st of None \<Rightarrow> now | Some x \<Rightarrow> x)"
  by (auto simp: tat_eff_def Let_def)

lemma tat_eff_ge [simp, intro]: "now \<le> tat_eff st now"
  by (simp add: tat_eff_max)

lemma tat_eff_mono: "now \<le> now' \<Longrightarrow> tat_eff st now \<le> tat_eff st now'"
  by (auto simp: tat_eff_max split: option.splits)

text \<open>What \<open>check\<close> decides, as one inequality on the budget left at \<open>now\<close>.\<close>

lemma gcra_check_allowed:
  "d_allowed (o_result (gcra_check T tau burst ttl st now c)) \<longleftrightarrow> T * c \<le> tau - (tat_eff st now - now)"
  by (auto simp: gcra_check_def Let_def)

lemma gcra_check_state:
  "T * c \<le> tau - (tat_eff st now - now) \<Longrightarrow>
   next_state st (gcra_check T tau burst ttl st now c) = Some (tat_eff st now + T * c)"
  "\<not> T * c \<le> tau - (tat_eff st now - now) \<Longrightarrow>
   next_state st (gcra_check T tau burst ttl st now c) = st"
  by (auto simp: gcra_check_def Let_def next_state_def)

lemmas gcra_sel = gcra_check_def gcra_strategy_def Let_def

text \<open>The strategies of all valid parameters \<open>(limit, period, burst)\<close> keep the contract.\<close>

definition gcra_mk :: "num \<times> num \<times> num \<Rightarrow> num strategy" where
  "gcra_mk p = (case p of (limit, period, burst) \<Rightarrow> gcra_strategy limit period burst)"

definition gcra_valid :: "num \<times> num \<times> num \<Rightarrow> bool" where
  "gcra_valid p = (case p of (limit, period, burst) \<Rightarrow> 0 < limit \<and> 0 < period \<and> 1 \<le> burst)"

lemma gcra_ttl_sound:
  assumes "d_allowed (o_result (gcra_check T tau burst ttl a now c))"
    and "now + o_ttlMs (gcra_check T tau burst ttl a now c) \<le> t'"
  shows "tat_eff (o_state (gcra_check T tau burst ttl a now c)) t' = tat_eff None t'"
proof -
  let ?n = "tat_eff a now + T * c"
  have t: "now + max 1 (js_ceil (?n - now)) \<le> t'"
    and s: "o_state (gcra_check T tau burst ttl a now c) = Some ?n"
    using assms by (auto simp: gcra_check_def Let_def split: if_splits)
  have "?n \<le> t'" using t js_ceil_ge[of "?n - now"] by linarith
  then show ?thesis by (simp add: s tat_eff_max)
qed

definition gcra_peek_of :: "num \<times> num \<times> num \<Rightarrow> num option \<Rightarrow> num \<Rightarrow> decision" where
  "gcra_peek_of p = (case p of (limit, period, burst) \<Rightarrow>
     gcra_peek (period / limit) (period / limit * burst) burst)"

lemma gcra_peek_allowed:
  "0 < T \<Longrightarrow> d_allowed (gcra_peek T tau burst st now) \<longleftrightarrow> T \<le> tau - (tat_eff st now - now)"
  by (auto simp: gcra_peek_def Let_def if_less_max le_max_iff_disj le_divide_eq)

lemma gcra_peek_denied:
  assumes "0 < T" "\<not> d_allowed (gcra_peek T tau burst st now)"
  shows "gcra_peek T tau burst st now = o_result (gcra_check T tau burst ttl st now 1)"
proof -
  have den: "\<not> T \<le> tau - (tat_eff st now - now)" using assms gcra_peek_allowed by blast
  then have "\<not> 1 \<le> (tau - (tat_eff st now - now)) / T" using assms(1) by (simp add: le_divide_eq)
  with den show ?thesis by (auto simp: gcra_peek_def gcra_check_def Let_def)
qed

interpretation gcra_c: introspective_strategy gcra_mk gcra_valid "\<lambda>_ _. True" "\<lambda>_ _ _. True" "\<lambda>_. tat_eff" gcra_peek_of
proof
  show "tat_eff (o_state (st_check (gcra_mk p) a now c)) t' = tat_eff None t'"
    if "d_allowed (o_result (st_check (gcra_mk p) a now c))"
       "now + o_ttlMs (st_check (gcra_mk p) a now c) \<le> t'" for p a now c t'
    using that by (auto simp: gcra_mk_def gcra_strategy_def Let_def intro: gcra_ttl_sound split: prod.splits)
next
  fix p st now assume v: "gcra_valid p"
  obtain limit period burst where p: "p = (limit, period, burst)" by (cases p)
  with v have T: "0 < period / limit" by (auto simp: gcra_valid_def)
  show "d_allowed (gcra_peek_of p st now) = d_allowed (o_result (st_check (gcra_mk p) st now 1))"
    by (simp add: p gcra_peek_of_def gcra_mk_def gcra_strategy_def gcra_check_allowed
        gcra_peek_allowed[OF T] Let_def)
  show "gcra_peek_of p st now = o_result (st_check (gcra_mk p) st now 1)"
    if "\<not> d_allowed (gcra_peek_of p st now)"
    using that gcra_peek_denied[OF T] by (simp add: p gcra_peek_of_def gcra_mk_def gcra_strategy_def Let_def)
qed (auto simp: gcra_mk_def gcra_valid_def gcra_sel gcra_peek_of_def gcra_peek_def opt_inv_def
    split: option.splits if_splits prod.splits)

interpretation gcra_f: forecasting_strategy gcra_mk gcra_valid "\<lambda>_ _. True" "\<lambda>_ _ _. True" "\<lambda>_. tat_eff" gcra_peek_of
  by unfold_locales (auto simp: gcra_mk_def gcra_strategy_def gcra_forecast_def Let_def split: prod.splits)

lemma gcra_factory:
  assumes "gcra opts = Inr S"
  shows "\<exists>p. S = gcra_mk p \<and> gcra_valid p"
proof -
  obtain limit period burst where lpb: "0 < limit" "0 < period" "1 \<le> burst" "S = gcra_strategy limit period burst"
    using assms unfolding gcra_def by (auto simp: result_simps)
  then have "S = gcra_mk (limit, period, burst) \<and> gcra_valid (limit, period, burst)"
    by (simp add: gcra_mk_def gcra_valid_def)
  then show ?thesis by blast
qed

section \<open>Correctness\<close>

lemma gcra_run_bound:
  assumes T: "0 < T" and S: "st_check S = gcra_check T tau burst ttl"
  shows "monotone_from t rs \<Longrightarrow> admitted_cost rs (run_strategy S st rs) = 0 \<or>
    tat_eff st t + T * admitted_cost rs (run_strategy S st rs) \<le> last_time t rs + tau"
proof (induction rs arbitrary: t st)
  case Nil
  then show ?case by simp
next
  case (Cons r rs)
  obtain now c where r: "r = (now, c)" by (cases r)
  with Cons.prems have t: "t \<le> now" "0 < c" "monotone_from now rs" by auto
  let ?out = "gcra_check T tau burst ttl st now c"
  let ?st = "next_state st ?out"
  let ?a = "admitted_cost rs (run_strategy S ?st rs)"
  have IH: "?a = 0 \<or> tat_eff ?st now + T * ?a \<le> last_time now rs + tau"
    using Cons.IH t(3) by blast
  have mono: "tat_eff st t \<le> tat_eff st now" using t(1) by (rule tat_eff_mono)
  show ?case
  proof (cases "T * c \<le> tau - (tat_eff st now - now)")
    case True
    then have "?st = Some (tat_eff st now + T * c)" by (rule gcra_check_state)
    then have "tat_eff st now + T * c \<le> tat_eff ?st now" by (simp add: tat_eff_max)
    then show ?thesis using IH True mono last_time_ge[OF t(3)] T t(2)
      by (auto simp: r S Let_def gcra_check_allowed distrib_left)
  next
    case False
    then have "?st = st" by (rule gcra_check_state)
    then show ?thesis using IH False mono
      by (auto simp: r S Let_def gcra_check_allowed)
  qed
qed

lemma pace_bound:
  "0 < T \<Longrightarrow> x + T * a \<le> l + T * b \<Longrightarrow> t \<le> x \<Longrightarrow> a \<le> b + (l - t) / (T :: num)"
  by (simp add: field_simps)

text \<open>
  C1. The conformance bound of the Generic Cell Rate Algorithm: from any stored state, over any
  sequence of requests with non-decreasing times, the total cost that \<open>check\<close> admits is at most the
  burst plus what the sustained rate \<open>limit / period\<close> yields over the time the sequence spans.
\<close>

theorem gcra_rate_bound:
  assumes "gcra_valid (limit, period, burst)" and "monotone_from t rs"
  shows "admitted_cost rs (run_strategy (gcra_mk (limit, period, burst)) st rs)
           \<le> burst + (last_time t rs - t) * (limit / period)"
proof -
  let ?T = "period / limit"
  let ?a = "admitted_cost rs (run_strategy (gcra_mk (limit, period, burst)) st rs)"
  have pos: "0 < limit" "0 < period" "1 \<le> burst" using assms(1) by (auto simp: gcra_valid_def)
  have "?a = 0 \<or> tat_eff st t + ?T * ?a \<le> last_time t rs + ?T * burst"
    by (rule gcra_run_bound[where ttl = "js_ceil (?T * burst)" and burst = burst])
       (use assms(2) pos in \<open>auto simp: gcra_mk_def gcra_strategy_def Let_def\<close>)
  then show ?thesis
  proof
    assume "?a = 0"
    then show ?thesis using pos last_time_ge[OF assms(2)] by simp
  next
    assume "tat_eff st t + ?T * ?a \<le> last_time t rs + ?T * burst"
    then have "?a \<le> burst + (last_time t rs - t) / ?T"
      using tat_eff_ge[of t st] pos by (intro pace_bound[of ?T "tat_eff st t"]) auto
    then show ?thesis by simp
  qed
qed

theorem gcra_rate_bound_witness:
  "admitted_cost [(0, 1), (0, 1), (500, 1)]
     (run_strategy (gcra_mk (2, 1000, 1)) None [(0, 1), (0, 1), (500, 1)]) = 2 \<and>
   admitted_cost [(0, 1), (0, 1), (500, 1)]
     (run_strategy (gcra_mk (2, 1000, 1)) None [(0, 1), (0, 1), (500, 1)]) \<le> 1 + 500 * (2 / 1000)"
  using gcra_rate_bound[of 2 1000 1 0 "[(0, 1), (0, 1), (500, 1)]" None]
  by (simp add: gcra_valid_def gcra_mk_def gcra_strategy_def gcra_check_def next_state_def tat_eff_def Let_def)

text \<open>
  \<open>retryAfterMs\<close> is exact: if a request whose cost fits the burst is denied, the same request is
  denied as long as strictly less than the wait has passed (the returned figure is the wait rounded
  up to a whole millisecond) and admitted at \<open>now + retryAfterMs\<close>, the state being untouched.
\<close>

theorem gcra_retry_exact:
  assumes "0 < T" and "c \<le> burst" and "now \<le> t"
    and "\<not> d_allowed (o_result (gcra_check T (T * burst) burst ttl st now c))"
  shows "(now + d_retryAfterMs (o_result (gcra_check T (T * burst) burst ttl st now c)) \<le> t \<longrightarrow>
            d_allowed (o_result (gcra_check T (T * burst) burst ttl st t c))) \<and>
         (t \<le> now + d_retryAfterMs (o_result (gcra_check T (T * burst) burst ttl st now c)) - 1 \<longrightarrow>
            \<not> d_allowed (o_result (gcra_check T (T * burst) burst ttl st t c)))"
proof -
  let ?w = "tat_eff st now + T * c - T * burst - now"
  have den: "0 < ?w" using assms(4) by (simp add: gcra_check_allowed)
  then have retry: "d_retryAfterMs (o_result (gcra_check T (T * burst) burst ttl st now c)) = js_ceil ?w"
    by (simp add: gcra_check_def Let_def)
  have cb: "T * c \<le> T * burst" using assms(1,2) by simp
  have "\<exists>x. st = Some x \<and> tat_eff st now = x \<and> now < x"
  proof -
    have "now < tat_eff st now" using den cb by linarith
    then show ?thesis by (cases st) (auto simp: tat_eff_max max_def split: if_splits)
  qed
  then obtain x where x: "st = Some x" "tat_eff st now = x" "tat_eff st t = max t x" "now < x"
    by (auto simp: tat_eff_max)
  have "d_allowed (o_result (gcra_check T (T * burst) burst ttl st t c)) \<longleftrightarrow> now + ?w \<le> t"
    using cb x by (auto simp: gcra_check_allowed max_def)
  then show ?thesis
    unfolding retry using js_ceil_ge[of ?w] js_ceil_lt[of ?w] by auto
qed

theorem gcra_retry_exact_witness:
  "\<not> d_allowed (o_result (gcra_check 500 500 1 500 (Some 500) 100 1)) \<and>
   d_retryAfterMs (o_result (gcra_check 500 500 1 500 (Some 500) 100 1)) = 400 \<and>
   d_allowed (o_result (gcra_check 500 500 1 500 (Some 500) 500 1))"
proof -
  have d: "\<not> d_allowed (o_result (gcra_check 500 (500 * 1) 1 500 (Some 500) 100 1))"
    by (simp add: gcra_check_allowed tat_eff_def)
  show ?thesis
    using gcra_retry_exact[OF _ _ _ d, of 500] d
    by (simp add: gcra_check_def tat_eff_def Let_def)
qed

text \<open>
  C2. Bit-identity with the Redis script: whenever the burst is a whole number, the decoded reply of
  \<open>GCRA_LUA\<close> is the decision of \<open>check\<close> at the resolved time, and it writes exactly when \<open>check\<close>
  persists, the same TAT under the same TTL.
\<close>

theorem gcra_lua_equiv:
  assumes "burst \<in> \<int>"
  shows "let out = st_check (gcra_mk (limit, period, burst)) stored (lua_now argv time) cost;
             lua = gcra_lua time argv period limit burst cost stored
         in decodeDecision (redis_reply (fst lua)) = o_result out \<and>
            snd lua = (if o_persist out then Some (the (o_state out), o_ttlMs out) else None)"
proof -
  let ?now = "lua_now argv time"
  have tat: "max ?now (case stored of Some x \<Rightarrow> x | None \<Rightarrow> ?now) = tat_eff stored ?now"
    by (cases stored) (simp_all add: tat_eff_max)
  have sel: "st_check (gcra_mk (limit, period, burst)) =
      gcra_check (period / limit) (period / limit * burst) burst (js_ceil (period / limit * burst))"
    by (simp add: gcra_mk_def gcra_strategy_def Let_def)
  show ?thesis
    unfolding sel gcra_lua_def gcra_check_def Let_def if_less_max tat
    using assms by (simp add: decodeDecision_def redis_reply_def)
qed

theorem gcra_lua_equiv_witness:
  "decodeDecision (redis_reply (fst (gcra_lua (0, 0) 100 1000 2 1 1 (Some 500))))
     = o_result (st_check (gcra_mk (2, 1000, 1)) (Some 500) 100 1)"
proof -
  have b: "(1::num) \<in> \<int>" by simp
  show ?thesis using gcra_lua_equiv[OF b, where time = "(0, 0)" and argv = 100 and limit = 2
      and period = 1000 and stored = "Some 500" and cost = 1]
    by (simp add: lua_now_def Let_def)
qed

end
