(* ===== verification/TokenBucket.thy ===== *)
theory TokenBucket
  imports Contract
begin

text \<open>
  \<open>src/algorithms/token-bucket.ts\<close>: a bucket of \<open>capacity\<close> tokens, refilled lazily at
  \<open>refillPerSec\<close>. The lemmas: the strategy contract, the range invariant of the stored count,
  conservation of tokens over a run, exactness of \<open>retryAfterMs\<close> and bit-identity with the script.
\<close>

section \<open>The algorithm\<close>

record token_bucket_state =
  tb_tokens :: num
  tb_last :: num

text \<open>The lazily refilled count that \<open>check\<close>, \<open>peek\<close> and \<open>forecast\<close> all start from.\<close>

definition tb_refill :: "num \<Rightarrow> num \<Rightarrow> token_bucket_state option \<Rightarrow> num \<Rightarrow> num" where
  "tb_refill capacity refillPerMs st now =
     (let prevTokens = (case st of Some s \<Rightarrow> tb_tokens s | None \<Rightarrow> capacity);
          last = (case st of Some s \<Rightarrow> tb_last s | None \<Rightarrow> now);
          elapsed = (if now > last then now - last else 0)
      in min capacity (prevTokens + elapsed * refillPerMs))"

definition tb_check ::
  "num \<Rightarrow> num \<Rightarrow> num \<Rightarrow> token_bucket_state option \<Rightarrow> num \<Rightarrow> num \<Rightarrow>
   (token_bucket_state, decision) apply_outcome" where
  "tb_check capacity refillPerMs ttlMs st now cost =
     (let tokens = tb_refill capacity refillPerMs st now
      in if tokens \<ge> cost then
           (let newTokens = tokens - cost;
                remaining = js_floor newTokens
            in \<lparr>o_state = Some \<lparr>tb_tokens = newTokens, tb_last = now\<rparr>,
                o_result = \<lparr>d_allowed = True, d_limit = capacity,
                  d_remaining = (if remaining < 0 then 0 else remaining),
                  d_resetAt = now + js_ceil ((capacity - newTokens) / refillPerMs),
                  d_retryAfterMs = 0\<rparr>,
                o_ttlMs = ttlMs, o_persist = True\<rparr>)
         else
           (let remaining = js_floor tokens
            in \<lparr>o_state = st,
                o_result = \<lparr>d_allowed = False, d_limit = capacity,
                  d_remaining = (if remaining < 0 then 0 else remaining),
                  d_resetAt = now + js_ceil ((capacity - tokens) / refillPerMs),
                  d_retryAfterMs = js_ceil ((cost - tokens) / refillPerMs)\<rparr>,
                o_ttlMs = ttlMs, o_persist = False\<rparr>))"

definition tb_peek :: "num \<Rightarrow> num \<Rightarrow> token_bucket_state option \<Rightarrow> num \<Rightarrow> decision" where
  "tb_peek capacity refillPerMs st now =
     (let tokens = tb_refill capacity refillPerMs st now;
          remaining = max 0 (js_floor tokens);
          ok = tokens \<ge> 1
      in \<lparr>d_allowed = ok, d_limit = capacity, d_remaining = remaining,
          d_resetAt = now + js_ceil ((capacity - tokens) / refillPerMs),
          d_retryAfterMs = (if ok then 0 else js_ceil ((1 - tokens) / refillPerMs))\<rparr>)"

definition tb_forecast ::
  "num \<Rightarrow> num \<Rightarrow> token_bucket_state option \<Rightarrow> num \<Rightarrow> num \<Rightarrow> forecast" where
  "tb_forecast capacity refillPerMs st now cost =
     (let tokens = tb_refill capacity refillPerMs st now;
          full = tokens \<ge> capacity
      in \<lparr>f_spendableNow = js_floor (tokens / cost),
          f_nextReplenishAt =
            (if full then now else now + js_ceil ((js_floor tokens + 1 - tokens) / refillPerMs)),
          f_fullAt = (if full then now else now + js_ceil ((capacity - tokens) / refillPerMs))\<rparr>)"

record token_bucket_options =
  to_capacity :: js_number
  to_refillPerSec :: js_number

definition tb_ttl :: "num \<Rightarrow> num \<Rightarrow> num" where
  "tb_ttl capacity refillPerMs = max 1 (js_ceil (capacity / refillPerMs))"

definition tb_mk :: "num \<times> num \<Rightarrow> token_bucket_state strategy" where
  "tb_mk p = (case p of (capacity, refillPerSec) \<Rightarrow>
     let refillPerMs = refillPerSec / 1000; ttlMs = tb_ttl capacity refillPerMs
     in \<lparr>st_name = ''tokenBucket'', st_limit = capacity, st_windowMs = Some ttlMs, st_ttlMs = ttlMs,
         st_check = tb_check capacity refillPerMs ttlMs,
         st_peek = Some (tb_peek capacity refillPerMs),
         st_forecast = Some (tb_forecast capacity refillPerMs)\<rparr>)"

text \<open>
  The factory. A \<open>refillPerSec\<close> so small that \<open>refillPerSec / 1000\<close> underflows to zero makes the
  refill time \<open>capacity / 0 = Infinity\<close>, which the bound on \<open>ttlMs\<close> rejects.
\<close>

definition tokenBucket :: "token_bucket_options \<Rightarrow> token_bucket_state strategy result" where
  "tokenBucket opts =
     rbind (requirePositive ''tokenBucket.capacity'' (to_capacity opts)) (\<lambda>capacity.
     rbind (requirePositive ''tokenBucket.refillPerSec'' (to_refillPerSec opts)) (\<lambda>refillPerSec.
       let ttlMs = (case js_of_real (refillPerSec / 1000) of
                      Num r \<Rightarrow> if r = 0 then Infinity
                               else (case js_of_real (capacity / r) of
                                       Num q \<Rightarrow> Num (max 1 (js_ceil q)) | v \<Rightarrow> v)
                    | v \<Rightarrow> v)
       in rbind (requireAtMost ''tokenBucket: refill time'' ttlMs max_safe_integer)
            (\<lambda>_. Inr (tb_mk (capacity, refillPerSec)))))"

section \<open>The Redis form (TOKEN\_BUCKET\_LUA)\<close>

text \<open>\<open>HMGET\<close> yields the two fields separately; the script writes both and sets \<open>PEXPIRE\<close>.\<close>

definition token_bucket_lua ::
  "num \<times> num \<Rightarrow> num \<Rightarrow> num \<Rightarrow> num \<Rightarrow> num \<Rightarrow> num option \<times> num option \<Rightarrow>
   lua_reply \<times> (num \<times> num \<times> num) option" where
  "token_bucket_lua time argv capacity refill_per_sec cost h =
     (let now = lua_now argv time;
          refill_per_ms = refill_per_sec / 1000;
          tokens0 = (case fst h of None \<Rightarrow> capacity | Some x \<Rightarrow> x);
          last = (case snd h of None \<Rightarrow> now | Some x \<Rightarrow> x);
          elapsed0 = now - last;
          elapsed = (if elapsed0 < 0 then 0 else elapsed0);
          tokens1 = tokens0 + elapsed * refill_per_ms;
          tokens = (if tokens1 > capacity then capacity else tokens1);
          ttl0 = js_ceil (capacity / refill_per_ms);
          ttl = (if ttl0 < 1 then 1 else ttl0)
      in if tokens \<ge> cost then
           (let new_tokens = tokens - cost; r = js_floor new_tokens
            in ((1, capacity, (if r < 0 then 0 else r),
                 now + js_ceil ((capacity - new_tokens) / refill_per_ms), 0),
                Some (new_tokens, now, ttl)))
         else
           (let r = js_floor tokens
            in ((0, capacity, (if r < 0 then 0 else r),
                 now + js_ceil ((capacity - tokens) / refill_per_ms),
                 js_ceil ((cost - tokens) / refill_per_ms)),
                None)))"

section \<open>Lemmas\<close>

definition tb_valid :: "num \<times> num \<Rightarrow> bool" where
  "tb_valid p = (case p of (capacity, refillPerSec) \<Rightarrow> 0 < capacity \<and> 0 < refillPerSec)"

text \<open>Tokens per millisecond.\<close>

definition tb_rate :: "num \<times> num \<Rightarrow> num" where
  "tb_rate p = snd p / 1000"

lemma tb_rate_pair [simp]: "tb_rate (c, r) = r / 1000"
  by (simp add: tb_rate_def)

lemma tb_rate_pos: "tb_valid p \<Longrightarrow> 0 < tb_rate p"
  by (auto simp: tb_valid_def tb_rate_def)

text \<open>The invariant of a stored bucket at time \<open>t\<close>.\<close>

definition tb_ok :: "num \<times> num \<Rightarrow> num \<Rightarrow> token_bucket_state \<Rightarrow> bool" where
  "tb_ok p t s \<longleftrightarrow> 0 \<le> tb_tokens s \<and> tb_tokens s \<le> fst p \<and> tb_last s \<le> t"

definition tb_view :: "num \<times> num \<Rightarrow> token_bucket_state option \<Rightarrow> num \<Rightarrow> num" where
  "tb_view p = tb_refill (fst p) (tb_rate p)"

definition tb_peek_of :: "num \<times> num \<Rightarrow> token_bucket_state option \<Rightarrow> num \<Rightarrow> decision" where
  "tb_peek_of p = tb_peek (fst p) (tb_rate p)"

lemma tb_mk_sel [simp]:
  "st_check (tb_mk p) = tb_check (fst p) (tb_rate p) (tb_ttl (fst p) (tb_rate p))"
  "st_limit (tb_mk p) = fst p" "st_peek (tb_mk p) = Some (tb_peek_of p)"
  by (cases p; simp add: tb_mk_def tb_peek_of_def Let_def)+

lemma tb_refill_le: "tb_refill cap r st now \<le> cap"
  by (simp add: tb_refill_def Let_def)

lemma tb_refill_None [simp]: "tb_refill cap r None now = cap"
  by (simp add: tb_refill_def)

lemma tb_refill_Some:
  "l \<le> now \<Longrightarrow> tb_refill cap r (Some \<lparr>tb_tokens = x, tb_last = l\<rparr>) now = min cap (x + (now - l) * r)"
  by (auto simp: tb_refill_def)

lemma tb_refill_nonneg:
  assumes "0 \<le> r" "0 \<le> fst p" "opt_inv (tb_ok p) now st"
  shows "0 \<le> tb_refill (fst p) r st now"
proof (cases st)
  case (Some s)
  then show ?thesis using assms by (auto simp: tb_refill_def tb_ok_def Let_def)
qed (use assms in simp)

text \<open>Refill composes: waiting to \<open>t\<close> is waiting to \<open>now\<close> and then the rest.\<close>

lemma min_add_later: "0 \<le> b \<Longrightarrow> min c (min c (x + a) + b) = min c (x + (a + (b :: num)))"
  by (simp add: min_def)

lemma tb_refill_later:
  assumes "0 \<le> r" "opt_inv (tb_ok p) now st" "now \<le> t"
  shows "tb_refill (fst p) r st t = min (fst p) (tb_refill (fst p) r st now + (t - now) * r)"
proof (cases st)
  case None
  then show ?thesis using assms by simp
next
  case (Some s)
  have "tb_refill (fst p) r st u = min (fst p) (tb_tokens s + (u - tb_last s) * r)" if "now \<le> u" for u
    using that assms Some by (cases "u = tb_last s") (auto simp: tb_refill_def tb_ok_def Let_def)
  moreover have "(t - tb_last s) * r = (now - tb_last s) * r + (t - now) * r"
    by (simp flip: distrib_right)
  ultimately show ?thesis using assms by (simp add: min_add_later)
qed

lemma tb_check_allowed [simp]:
  "d_allowed (o_result (tb_check cap r ttl st now c)) \<longleftrightarrow> c \<le> tb_refill cap r st now"
  by (auto simp: tb_check_def Let_def)

lemma tb_check_ttl [simp]: "o_ttlMs (tb_check cap r ttl st now c) = ttl"
  by (auto simp: tb_check_def Let_def)

lemma tb_check_persist [simp]: "o_persist (tb_check cap r ttl st now c) \<longleftrightarrow> c \<le> tb_refill cap r st now"
  by (auto simp: tb_check_def Let_def)

lemma tb_check_retry:
  "\<not> c \<le> tb_refill cap r st now \<Longrightarrow>
   d_retryAfterMs (o_result (tb_check cap r ttl st now c)) = js_ceil ((c - tb_refill cap r st now) / r)"
  by (simp add: tb_check_def Let_def)

lemma tb_check_retry_allowed:
  "c \<le> tb_refill cap r st now \<Longrightarrow> d_retryAfterMs (o_result (tb_check cap r ttl st now c)) = 0"
  by (simp add: tb_check_def Let_def)

lemma tb_check_limit: "d_limit (o_result (tb_check cap r ttl st now c)) = cap"
  by (simp add: tb_check_def Let_def)

lemma tb_check_state:
  "c \<le> tb_refill cap r st now \<Longrightarrow>
   o_state (tb_check cap r ttl st now c) = Some \<lparr>tb_tokens = tb_refill cap r st now - c, tb_last = now\<rparr>"
  "\<not> c \<le> tb_refill cap r st now \<Longrightarrow> o_state (tb_check cap r ttl st now c) = st"
  by (auto simp: tb_check_def Let_def)

lemma tb_ttl_covers:
  assumes "0 < r" "now + tb_ttl cap r \<le> t"
  shows "cap \<le> (t - now) * r"
proof -
  have "cap / r \<le> t - now" using assms js_ceil_ge[of "cap / r"] by (auto simp: tb_ttl_def)
  then show ?thesis using assms(1) by (simp add: divide_le_eq)
qed

interpretation tb_c: introspective_strategy tb_mk tb_valid "\<lambda>_ _. True" tb_ok tb_view tb_peek_of
proof
  fix p :: "num \<times> num" assume v: "tb_valid p"
  then have pos: "0 < fst p" "0 < tb_rate p" by (auto simp: tb_valid_def tb_rate_pos)
  show "0 < d_retryAfterMs (o_result (st_check (tb_mk p) st now c))"
    if "\<not> d_allowed (o_result (st_check (tb_mk p) st now c))" for st now c
    using that pos by (simp add: tb_check_retry)
  show "tb_view p (o_state (st_check (tb_mk p) a now c)) t' = tb_view p None t'"
    if "0 < c" "d_allowed (o_result (st_check (tb_mk p) a now c))"
      "now + o_ttlMs (st_check (tb_mk p) a now c) \<le> t'" for a now c t'
  proof -
    have "now + tb_ttl (fst p) (tb_rate p) \<le> t'" using that(3) by simp
    moreover from this have "now \<le> t'" by (auto simp: tb_ttl_def)
    ultimately show ?thesis
      using that tb_ttl_covers[OF pos(2), of now "fst p" t'] by (simp add: tb_view_def tb_check_state tb_refill_Some)
  qed
  show "tb_peek_of p st now = o_result (st_check (tb_mk p) st now 1)"
    if "\<not> d_allowed (tb_peek_of p st now)" for st now
    using that by (simp add: tb_peek_of_def tb_peek_def tb_check_def Let_def if_less_max)
  show "opt_inv (tb_ok p) now (o_state (st_check (tb_mk p) st now c))"
    if "0 < c" "d_allowed (o_result (st_check (tb_mk p) st now c))" for st now c
    using that tb_refill_le[of "fst p" "tb_rate p" st now] by (simp add: tb_ok_def tb_check_state)
  show "0 \<le> d_remaining (o_result (st_check (tb_mk p) st now c))" for st now c
    by (simp add: tb_check_def Let_def)
  show "d_retryAfterMs (o_result (st_check (tb_mk p) st now c)) = 0"
    if "d_allowed (o_result (st_check (tb_mk p) st now c))" for st now c
    using that by (simp add: tb_check_retry_allowed)
  show "tb_view p (o_state (st_check (tb_mk p) a now c)) t = tb_view p (o_state (st_check (tb_mk p) b now c)) t"
    if "tb_view p a now = tb_view p b now" "d_allowed (o_result (st_check (tb_mk p) a now c))" for a b now c t
    using that by (simp add: tb_view_def tb_check_state)
  show "o_result (st_check (tb_mk p) a now c) = o_result (st_check (tb_mk p) b now c)"
    if "tb_view p a now = tb_view p b now" for a b now c
    using that by (simp add: tb_view_def tb_check_def Let_def)
qed (auto simp: tb_ok_def tb_view_def tb_peek_of_def tb_peek_def tb_ttl_def tb_check_state Let_def
    tb_check_limit)

interpretation tb_f: forecasting_strategy tb_mk tb_valid "\<lambda>_ _. True" tb_ok tb_view tb_peek_of
  by unfold_locales (auto simp: tb_mk_def tb_forecast_def tb_view_def Let_def split: prod.splits)

lemma tokenBucket_factory:
  assumes "tokenBucket opts = Inr S"
  shows "\<exists>p. S = tb_mk p \<and> tb_valid p"
proof -
  obtain c r where "0 < c" "0 < r" "S = tb_mk (c, r)"
    using assms unfolding tokenBucket_def by (auto simp: result_simps Let_def)
  then have "S = tb_mk (c, r) \<and> tb_valid (c, r)" by (simp add: tb_valid_def)
  then show ?thesis by blast
qed

section \<open>Correctness\<close>

text \<open>Conservation: what a run admits plus what is left never exceeds what was there plus the refill.\<close>

lemma tb_run_bound:
  assumes v: "tb_valid p"
  shows "opt_inv (tb_ok p) t st \<Longrightarrow> monotone_from t rs \<Longrightarrow>
    admitted_cost rs (run_strategy (tb_mk p) st rs)
      \<le> tb_view p st t + (last_time t rs - t) * (tb_rate p)"
proof (induction rs arbitrary: t st)
  case Nil
  have "0 \<le> tb_rate p" "0 \<le> fst p" using v by (auto simp: tb_valid_def tb_rate_def)
  from tb_refill_nonneg[OF this Nil.prems(1)] show ?case by (simp add: tb_view_def)
next
  case (Cons r rs)
  obtain now c where r: "r = (now, c)" by (cases r)
  with Cons.prems have t: "t \<le> now" "0 < c" "monotone_from now rs" by auto
  let ?r = "tb_rate p"
  let ?out = "st_check (tb_mk p) st now c"
  let ?st = "next_state st ?out"
  have rp: "0 \<le> ?r" using tb_rate_pos[OF v] by simp
  have ok: "opt_inv (tb_ok p) now st" using tb_c.opt_inv_mono[OF v Cons.prems(1) t(1)] .
  have IH: "admitted_cost rs (run_strategy (tb_mk p) ?st rs)
      \<le> tb_view p ?st now + (last_time now rs - now) * ?r"
    using Cons.IH[OF tb_c.next_state_inv[OF v TrueI t(2) ok] t(3)] .
  have grow: "tb_view p st now \<le> tb_view p st t + (now - t) * ?r"
    using tb_refill_later[OF rp Cons.prems(1) t(1)] by (simp add: tb_view_def)
  have step: "tb_view p ?st now =
      tb_view p st now - (if d_allowed (o_result ?out) then c else 0)"
  proof (cases "c \<le> tb_view p st now")
    case True
    then have "?st = Some \<lparr>tb_tokens = tb_view p st now - c, tb_last = now\<rparr>"
      by (simp add: next_state_def tb_check_state tb_view_def)
    then show ?thesis using True t(2) tb_refill_le[of "fst p" ?r st now]
      by (simp add: tb_view_def tb_refill_Some)
  next
    case False
    then show ?thesis by (simp add: next_state_def tb_view_def)
  qed
  have "(last_time now rs - t) * ?r = (now - t) * ?r + (last_time now rs - now) * ?r"
    by (simp flip: distrib_right)
  then show ?case using IH grow step by (simp add: r Let_def split: if_splits)
qed

text \<open>
  C3. Over any sequence of requests with non-decreasing times the token bucket admits at most the
  tokens it holds at the start plus the refill of the elapsed time. What it holds at the start is at most
  \<open>capacity\<close>, so a run from any well-formed bucket, a cold one included, admits at most \<open>capacity\<close> plus that refill.
\<close>

theorem token_bucket_rate_bound:
  assumes "tb_valid (capacity, refillPerSec)"
    and "opt_inv (tb_ok (capacity, refillPerSec)) t st" and "monotone_from t rs"
  shows "admitted_cost rs (run_strategy (tb_mk (capacity, refillPerSec)) st rs)
           \<le> tb_refill capacity (refillPerSec / 1000) st t + (last_time t rs - t) * (refillPerSec / 1000) \<and>
         tb_refill capacity (refillPerSec / 1000) st t \<le> capacity"
  using tb_run_bound[OF assms] tb_refill_le[of capacity "refillPerSec / 1000" st t]
  by (simp add: tb_view_def tb_rate_def)

theorem token_bucket_rate_bound_witness:
  "admitted_cost [(0, 1), (0, 2), (500, 1)]
     (run_strategy (tb_mk (2, 2)) (Some \<lparr>tb_tokens = 1, tb_last = 0\<rparr>) [(0, 1), (0, 2), (500, 1)]) \<le> 1 + 500 * (2 / 1000)"
  using token_bucket_rate_bound[of 2 2 0 "Some \<lparr>tb_tokens = 1, tb_last = 0\<rparr>" "[(0, 1), (0, 2), (500, 1)]"]
  by (simp add: tb_valid_def tb_ok_def tb_refill_def)

text \<open>
  \<open>retryAfterMs\<close> of a denied request whose cost fits the bucket is exact to the millisecond: the
  request is admitted from \<open>now + retryAfterMs\<close> on and still denied one millisecond earlier.
\<close>

theorem token_bucket_retry_exact:
  assumes "tb_valid p" and "opt_inv (tb_ok p) now st" and "c \<le> fst p" and "now \<le> t"
    and "\<not> d_allowed (o_result (st_check (tb_mk p) st now c))"
  shows "(now + d_retryAfterMs (o_result (st_check (tb_mk p) st now c)) \<le> t \<longrightarrow>
            d_allowed (o_result (st_check (tb_mk p) st t c))) \<and>
         (t \<le> now + d_retryAfterMs (o_result (st_check (tb_mk p) st now c)) - 1 \<longrightarrow>
            \<not> d_allowed (o_result (st_check (tb_mk p) st t c)))"
proof -
  let ?r = "tb_rate p" and ?x = "tb_refill (fst p) (tb_rate p) st now"
  let ?w = "(c - ?x) / ?r"
  have r: "0 < ?r" using tb_rate_pos[OF assms(1)] .
  have retry: "d_retryAfterMs (o_result (st_check (tb_mk p) st now c)) = js_ceil ?w"
    using assms(5) by (simp add: tb_check_retry)
  have "d_allowed (o_result (st_check (tb_mk p) st t c)) \<longleftrightarrow> c \<le> ?x + (t - now) * ?r"
    using tb_refill_later[of ?r p now st t] r assms(2,3,4) by simp
  also have "\<dots> \<longleftrightarrow> now + ?w \<le> t"
  proof -
    have "?w \<le> t - now \<longleftrightarrow> c - ?x \<le> (t - now) * ?r" by (rule pos_divide_le_eq[OF r])
    then show ?thesis by linarith
  qed
  finally show ?thesis
    unfolding retry using js_ceil_ge[of ?w] js_ceil_lt[of ?w] by auto
qed

theorem token_bucket_retry_exact_witness:
  "d_retryAfterMs (o_result (st_check (tb_mk (2, 2)) (Some \<lparr>tb_tokens = 0, tb_last = 0\<rparr>) 100 1)) = 400 \<and>
   d_allowed (o_result (st_check (tb_mk (2, 2)) (Some \<lparr>tb_tokens = 0, tb_last = 0\<rparr>) 500 1))"
  using token_bucket_retry_exact[of "(2, 2)" 100 "Some \<lparr>tb_tokens = 0, tb_last = 0\<rparr>" 1 500]
  by (simp add: tb_valid_def tb_ok_def tb_check_def tb_refill_def Let_def)

definition tb_hash :: "token_bucket_state option \<Rightarrow> num option \<times> num option" where
  "tb_hash st = (map_option tb_tokens st, map_option tb_last st)"

text \<open>
  Bit-identity with \<open>TOKEN_BUCKET_LUA\<close>: for a whole-number capacity and a whole-number clock, on
  a hash that is absent or holds both fields, the decoded reply is the decision of \<open>check\<close> and the
  script writes exactly when \<open>check\<close> persists, the same tokens, time and TTL.
\<close>

theorem token_bucket_lua_equiv:
  assumes "capacity \<in> \<int>" and "lua_now argv time \<in> \<int>"
  shows "let out = st_check (tb_mk (capacity, refillPerSec)) st (lua_now argv time) cost;
             lua = token_bucket_lua time argv capacity refillPerSec cost (tb_hash st)
         in decodeDecision (redis_reply (fst lua)) = o_result out \<and>
            snd lua = (if o_persist out
                       then Some (tb_tokens (the (o_state out)), tb_last (the (o_state out)), o_ttlMs out)
                       else None)"
proof -
  let ?now = "lua_now argv time"
  have neg: "(if a - b < 0 then 0 else a - b) = (if a > b then a - b else (0::num))" for a b by simp
  have tok: "min capacity ((case fst (tb_hash st) of None \<Rightarrow> capacity | Some x \<Rightarrow> x) +
       (if ?now > (case snd (tb_hash st) of None \<Rightarrow> ?now | Some x \<Rightarrow> x)
        then ?now - (case snd (tb_hash st) of None \<Rightarrow> ?now | Some x \<Rightarrow> x) else 0) * (refillPerSec / 1000))
     = tb_refill capacity (refillPerSec / 1000) st ?now"
    by (cases st) (simp_all add: tb_refill_def tb_hash_def)
  have cap: "(if x > capacity then capacity else x) = min capacity x" for x by simp
  show ?thesis
    unfolding token_bucket_lua_def Let_def neg cap tok
    unfolding if_less_max tb_mk_sel tb_check_def fst_conv tb_rate_pair Let_def
    using assms by (simp add: decodeDecision_def redis_reply_def tb_ttl_def)
qed

theorem token_bucket_lua_equiv_witness:
  "decodeDecision (redis_reply (fst (token_bucket_lua (0, 0) 100 2 2 1 (tb_hash None))))
     = o_result (st_check (tb_mk (2, 2)) None 100 1)"
  using token_bucket_lua_equiv[of 2 100 "(0, 0)" 2 None 1] by (simp add: lua_now_def Let_def)

end
