(* ===== verification/FixedWindow.thy ===== *)
theory FixedWindow
  imports Contract
begin

text \<open>
  \<open>src/algorithms/fixed-window.ts\<close>: a counter per epoch-aligned window. The lemmas: the strategy
  contract, the exact bound per window and the documented bound of twice the limit across a
  boundary (with the run that attains it), and bit-identity with the script.
\<close>

section \<open>The algorithm\<close>

record fixed_window_state =
  fw_start :: num
  fw_count :: num

text \<open>\<open>Math.floor(now / windowMs) * windowMs\<close> and the count of the state in that window.\<close>

definition window_start :: "num \<Rightarrow> num \<Rightarrow> num" where
  "window_start windowMs now = js_floor (now / windowMs) * windowMs"

definition fw_cnt :: "fixed_window_state option \<Rightarrow> num \<Rightarrow> num" where
  "fw_cnt st start = (case st of Some s \<Rightarrow> if fw_start s = start then fw_count s else 0 | None \<Rightarrow> 0)"

definition fw_check ::
  "num \<Rightarrow> num \<Rightarrow> fixed_window_state option \<Rightarrow> num \<Rightarrow> num \<Rightarrow> (fixed_window_state, decision) apply_outcome" where
  "fw_check limit windowMs st now cost =
     (let windowStart = window_start windowMs now;
          resetAt = windowStart + windowMs;
          cnt = fw_cnt st windowStart
      in if cnt + cost \<le> limit then
           (let newCount = cnt + cost
            in \<lparr>o_state = Some \<lparr>fw_start = windowStart, fw_count = newCount\<rparr>,
                o_result = \<lparr>d_allowed = True, d_limit = limit,
                  d_remaining = max 0 (js_floor (limit - newCount)),
                  d_resetAt = js_ceil resetAt, d_retryAfterMs = 0\<rparr>,
                o_ttlMs = max 1 (resetAt - now), o_persist = True\<rparr>)
         else
           \<lparr>o_state = st,
            o_result = \<lparr>d_allowed = False, d_limit = limit,
              d_remaining = max 0 (js_floor (limit - cnt)),
              d_resetAt = js_ceil resetAt, d_retryAfterMs = js_ceil (resetAt - now)\<rparr>,
            o_ttlMs = windowMs, o_persist = False\<rparr>)"

definition fw_peek :: "num \<Rightarrow> num \<Rightarrow> fixed_window_state option \<Rightarrow> num \<Rightarrow> decision" where
  "fw_peek limit windowMs st now =
     (let windowStart = window_start windowMs now;
          resetAt = windowStart + windowMs;
          cnt = fw_cnt st windowStart
      in \<lparr>d_allowed = (cnt + 1 \<le> limit), d_limit = limit,
          d_remaining = max 0 (js_floor (limit - cnt)),
          d_resetAt = js_ceil resetAt,
          d_retryAfterMs = (if cnt + 1 \<le> limit then 0 else js_ceil (resetAt - now))\<rparr>)"

definition fw_forecast :: "num \<Rightarrow> num \<Rightarrow> fixed_window_state option \<Rightarrow> num \<Rightarrow> num \<Rightarrow> forecast" where
  "fw_forecast limit windowMs st now cost =
     (let windowStart = window_start windowMs now;
          resetAt = js_ceil (windowStart + windowMs);
          cnt = fw_cnt st windowStart;
          available = max 0 (limit - cnt)
      in \<lparr>f_spendableNow = js_floor (available / cost),
          f_nextReplenishAt = resetAt, f_fullAt = resetAt\<rparr>)"

record fixed_window_options =
  fo_limit :: js_number
  fo_windowMs :: js_number

definition fw_mk :: "num \<times> num \<Rightarrow> fixed_window_state strategy" where
  "fw_mk p = (case p of (limit, windowMs) \<Rightarrow>
     \<lparr>st_name = ''fixedWindow'', st_limit = limit, st_windowMs = Some windowMs, st_ttlMs = windowMs,
      st_check = fw_check limit windowMs,
      st_peek = Some (fw_peek limit windowMs),
      st_forecast = Some (fw_forecast limit windowMs)\<rparr>)"

definition fixedWindow :: "fixed_window_options \<Rightarrow> fixed_window_state strategy result" where
  "fixedWindow opts =
     rbind (requirePositive ''fixedWindow.limit'' (fo_limit opts)) (\<lambda>limit.
     rbind (requirePositive ''fixedWindow.windowMs'' (fo_windowMs opts)) (\<lambda>windowMs.
     rbind (requireFiniteWindow ''fixedWindow.windowMs'' windowMs) (\<lambda>_.
       Inr (fw_mk (limit, windowMs)))))"

section \<open>The Redis form (FIXED\_WINDOW\_LUA)\<close>

definition fixed_window_lua ::
  "num \<times> num \<Rightarrow> num \<Rightarrow> num \<Rightarrow> num \<Rightarrow> num \<Rightarrow> num option \<times> num option \<Rightarrow>
   lua_reply \<times> (num \<times> num \<times> num) option" where
  "fixed_window_lua time argv limit window cost h =
     (let now = lua_now argv time;
          window_start = js_floor (now / window) * window;
          reset_at = window_start + window;
          cnt = (case fst h of
                   None \<Rightarrow> 0
                 | Some start \<Rightarrow> if start \<noteq> window_start then 0
                                 else (case snd h of Some c \<Rightarrow> c | None \<Rightarrow> 0))
      in if cnt + cost \<le> limit then
           (let new_count = cnt + cost;
                px = js_ceil (reset_at - now)
            in ((1, limit, limit - new_count, reset_at, 0),
                Some (window_start, new_count, if px < 1 then 1 else px)))
         else
           (let r = limit - cnt
            in ((0, limit, (if r < 0 then 0 else r), reset_at, js_ceil (reset_at - now)), None)))"

section \<open>Lemmas\<close>

definition fw_valid :: "num \<times> num \<Rightarrow> bool" where
  "fw_valid p = (case p of (limit, windowMs) \<Rightarrow> 0 < limit \<and> 0 < windowMs)"

text \<open>The invariant of a stored counter at time \<open>t\<close>: its window has begun and is not over-full.\<close>

definition fw_ok :: "num \<times> num \<Rightarrow> num \<Rightarrow> fixed_window_state \<Rightarrow> bool" where
  "fw_ok p t s \<longleftrightarrow> fw_start s \<le> window_start (snd p) t \<and> fw_count s \<le> fst p"

definition fw_view :: "num \<times> num \<Rightarrow> fixed_window_state option \<Rightarrow> num \<Rightarrow> num" where
  "fw_view p st t = fw_cnt st (window_start (snd p) t)"

definition fw_peek_of :: "num \<times> num \<Rightarrow> fixed_window_state option \<Rightarrow> num \<Rightarrow> decision" where
  "fw_peek_of p = fw_peek (fst p) (snd p)"

lemma fw_mk_sel [simp]:
  "st_check (fw_mk p) = fw_check (fst p) (snd p)"
  "st_limit (fw_mk p) = fst p" "st_peek (fw_mk p) = Some (fw_peek_of p)"
  by (cases p; simp add: fw_mk_def fw_peek_of_def)+

lemma fw_cnt_simps [simp]:
  "fw_cnt None ws = 0"
  "fw_cnt (Some \<lparr>fw_start = a, fw_count = n\<rparr>) ws = (if a = ws then n else 0)"
  by (simp_all add: fw_cnt_def)

lemma window_start_bounds:
  "0 < w \<Longrightarrow> window_start w t \<le> t" "0 < w \<Longrightarrow> t < window_start w t + w"
  by (simp_all add: window_start_def window_start_le window_start_gt)

lemma window_start_mono': "0 < w \<Longrightarrow> t \<le> t' \<Longrightarrow> window_start w t \<le> window_start w t'"
  by (simp add: window_start_def window_start_mono)

lemma window_start_next: "0 < w \<Longrightarrow> window_start w t + w \<le> t' \<Longrightarrow> window_start w t < window_start w t'"
  by (simp add: window_start_def window_start_unique)

lemma fw_check_allowed [simp]:
  "d_allowed (o_result (fw_check limit w st now c)) \<longleftrightarrow> fw_cnt st (window_start w now) + c \<le> limit"
  by (auto simp: fw_check_def Let_def)

lemma fw_check_persist [simp]:
  "o_persist (fw_check limit w st now c) \<longleftrightarrow> fw_cnt st (window_start w now) + c \<le> limit"
  by (auto simp: fw_check_def Let_def)

lemma fw_check_state:
  "fw_cnt st (window_start w now) + c \<le> limit \<Longrightarrow> o_state (fw_check limit w st now c) =
     Some \<lparr>fw_start = window_start w now, fw_count = fw_cnt st (window_start w now) + c\<rparr>"
  "\<not> fw_cnt st (window_start w now) + c \<le> limit \<Longrightarrow> o_state (fw_check limit w st now c) = st"
  by (auto simp: fw_check_def Let_def)

lemma fw_check_fields:
  "d_limit (o_result (fw_check limit w st now c)) = limit"
  "0 \<le> d_remaining (o_result (fw_check limit w st now c))"
  "fw_cnt st (window_start w now) + c \<le> limit \<Longrightarrow> d_retryAfterMs (o_result (fw_check limit w st now c)) = 0"
  "\<not> fw_cnt st (window_start w now) + c \<le> limit \<Longrightarrow>
     d_retryAfterMs (o_result (fw_check limit w st now c)) = js_ceil (window_start w now + w - now)"
  "fw_cnt st (window_start w now) + c \<le> limit \<Longrightarrow>
     o_ttlMs (fw_check limit w st now c) = max 1 (window_start w now + w - now)"
  by (auto simp: fw_check_def Let_def)

interpretation fw_c: introspective_strategy fw_mk fw_valid "\<lambda>_ _. True" fw_ok fw_view fw_peek_of
proof
  fix p :: "num \<times> num" assume v: "fw_valid p"
  then have w: "0 < snd p" by (auto simp: fw_valid_def)
  show "0 < d_retryAfterMs (o_result (st_check (fw_mk p) st now c))"
    if "\<not> d_allowed (o_result (st_check (fw_mk p) st now c))" for st now c
    using that window_start_bounds(2)[OF w, of now] by (simp add: fw_check_fields)
  show "fw_ok p t' s" if "fw_ok p t s" "t \<le> t'" for t s t'
    using that window_start_mono'[OF w that(2)] by (simp add: fw_ok_def)
  show "fw_view p (o_state (st_check (fw_mk p) a now c)) t' = fw_view p None t'"
    if "d_allowed (o_result (st_check (fw_mk p) a now c))"
      "now + o_ttlMs (st_check (fw_mk p) a now c) \<le> t'" for a now c t'
  proof -
    have "window_start (snd p) now + snd p \<le> t'" using that by (simp add: fw_check_fields)
    then show ?thesis
      using that window_start_next[OF w, of now t'] by (simp add: fw_view_def fw_check_state)
  qed
  show "o_result (st_check (fw_mk p) a now c) = o_result (st_check (fw_mk p) b now c)"
    if "fw_view p a now = fw_view p b now" for a b now c
    using that by (simp add: fw_view_def fw_check_def Let_def)
  show "fw_peek_of p st now = o_result (st_check (fw_mk p) st now 1)"
    if "\<not> d_allowed (fw_peek_of p st now)" for st now
    using that by (simp add: fw_peek_of_def fw_peek_def fw_check_def Let_def)
qed (auto simp: fw_check_fields fw_check_state fw_ok_def fw_view_def fw_peek_of_def fw_peek_def Let_def)

interpretation fw_f: forecasting_strategy fw_mk fw_valid "\<lambda>_ _. True" fw_ok fw_view fw_peek_of
  by unfold_locales (auto simp: fw_mk_def fw_forecast_def fw_view_def Let_def split: prod.splits)

lemma fixedWindow_factory:
  assumes "fixedWindow opts = Inr S"
  shows "\<exists>p. S = fw_mk p \<and> fw_valid p"
proof -
  obtain l w where "0 < l" "0 < w" "S = fw_mk (l, w)"
    using assms unfolding fixedWindow_def by (auto simp: result_simps)
  then have "S = fw_mk (l, w) \<and> fw_valid (l, w)" by (simp add: fw_valid_def)
  then show ?thesis by blast
qed

section \<open>Correctness\<close>

lemma fw_window_invariant:
  assumes v: "fw_valid p"
  shows "opt_inv (fw_ok p) t st \<Longrightarrow> monotone_from t rs \<Longrightarrow>
    admitted_where (\<lambda>x. window_start (snd p) x = W) rs (run_strategy (fw_mk p) st rs) \<le> fst p - fw_cnt st W"
proof (induction rs arbitrary: t st)
  case Nil
  then show ?case using v by (cases st) (auto simp: fw_ok_def fw_cnt_def fw_valid_def)
next
  case (Cons r rs)
  obtain now c where r: "r = (now, c)" by (cases r)
  with Cons.prems have t: "t \<le> now" "0 < c" "monotone_from now rs" by auto
  have w: "0 < snd p" "0 \<le> fst p" using v by (auto simp: fw_valid_def)
  let ?out = "st_check (fw_mk p) st now c"
  let ?st = "next_state st ?out"
  have ok: "opt_inv (fw_ok p) now st" using fw_c.opt_inv_mono[OF v Cons.prems(1) t(1)] .
  have IH: "admitted_where (\<lambda>x. window_start (snd p) x = W) rs (run_strategy (fw_mk p) ?st rs)
      \<le> fst p - fw_cnt ?st W"
    using Cons.IH[OF fw_c.next_state_inv[OF v TrueI t(2) ok] t(3)] .
  consider (past) "window_start (snd p) now < W" | (cur) "window_start (snd p) now = W"
    | (over) "W < window_start (snd p) now" by linarith
  then show ?case
  proof cases
    case past
    then have "fw_cnt st W = 0" "fw_cnt ?st W = 0"
      using ok by (auto simp: fw_cnt_def fw_ok_def next_state_def fw_check_state split: option.splits)
    then show ?thesis using IH past by (simp add: r Let_def)
  next
    case cur
    then show ?thesis using IH
      by (cases "fw_cnt st W + c \<le> fst p") (auto simp: r Let_def next_state_def fw_check_state)
  next
    case over
    have "\<forall>q\<in>set rs. window_start (snd p) (fst q) \<noteq> W"
      using monotone_from_ge[OF t(3)] window_start_mono'[OF w(1)] over by fastforce
    then have "admitted_where (\<lambda>x. window_start (snd p) x = W) rs (run_strategy (fw_mk p) ?st rs) = 0"
      by (intro admitted_where_none) auto
    moreover have "fw_cnt st W \<le> fst p" using ok w by (auto simp: fw_cnt_def fw_ok_def split: option.splits)
    ultimately show ?thesis using over by (simp add: r Let_def)
  qed
qed

text \<open>
  C4. In every epoch-aligned window the fixed-window counter admits at most \<open>limit\<close>, whatever the
  costs and the interleaving with requests of other windows, from a cold start and as long as the
  clock does not run backwards.
\<close>

theorem fixed_window_bound:
  assumes "fw_valid (limit, windowMs)" and "monotone_from t rs"
  shows "admitted_where (\<lambda>x. window_start windowMs x = W) rs
           (run_strategy (fw_mk (limit, windowMs)) None rs) \<le> limit"
  using fw_window_invariant[OF assms(1) _ assms(2), of None W] by simp

theorem fixed_window_bound_witness:
  "admitted_where (\<lambda>x. window_start 1000 x = 0) [(0, 1), (10, 1), (999, 1), (1000, 1)]
     (run_strategy (fw_mk (2, 1000)) None [(0, 1), (10, 1), (999, 1), (1000, 1)]) \<le> 2"
  using fixed_window_bound[of 2 1000 0 "[(0, 1), (10, 1), (999, 1), (1000, 1)]" 0]
  by (simp add: fw_valid_def)

text \<open>
  The documented worst case across a boundary: any stretch of time no longer than one window
  admits at most twice the limit, and the bound is attained (the second conjunct is a run of the
  code with limit 2 that admits 4 within one window length).
\<close>

theorem fixed_window_boundary:
  assumes "fw_valid (limit, windowMs)" and "monotone_from t rs"
  shows "admitted_where (\<lambda>x. a \<le> x \<and> x < a + windowMs) rs
           (run_strategy (fw_mk (limit, windowMs)) None rs) \<le> 2 * limit \<and>
         admitted_where (\<lambda>x. 999 \<le> x \<and> x < 999 + 1000) [(999, 2), (1000, 2)]
           (run_strategy (fw_mk (2, 1000)) None [(999, 2), (1000, 2)]) = 2 * 2"
proof -
  let ?ds = "run_strategy (fw_mk (limit, windowMs)) None rs"
  let ?W = "window_start windowMs a"
  have w: "0 < windowMs" using assms(1) by (simp add: fw_valid_def)
  have two: "window_start windowMs x = ?W \<or> window_start windowMs x = ?W + windowMs"
    if "a \<le> x" "x < a + windowMs" for x
  proof -
    have "\<lfloor>x / windowMs\<rfloor> = \<lfloor>a / windowMs\<rfloor> \<or> \<lfloor>x / windowMs\<rfloor> = \<lfloor>a / windowMs\<rfloor> + 1"
    proof -
      have "a / windowMs \<le> x / windowMs" "x / windowMs < a / windowMs + 1"
        using that w by (auto simp: divide_right_mono field_simps)
      then show ?thesis by linarith
    qed
    then show ?thesis by (auto simp: window_start_def js_floor_def distrib_right)
  qed
  have "admitted_where (\<lambda>x. a \<le> x \<and> x < a + windowMs) rs ?ds
      \<le> admitted_where (\<lambda>x. window_start windowMs x = ?W) rs ?ds
        + admitted_where (\<lambda>x. window_start windowMs x = ?W + windowMs) rs ?ds"
    by (rule admitted_where_split[OF assms(2)]) (use two in blast)
  then have "admitted_where (\<lambda>x. a \<le> x \<and> x < a + windowMs) rs ?ds \<le> 2 * limit"
    using fw_window_invariant[OF assms(1) _ assms(2), of None ?W]
      fw_window_invariant[OF assms(1) _ assms(2), of None "?W + windowMs"] by simp
  moreover have "window_start 1000 999 = 0" "window_start 1000 1000 = 1000"
    by (simp_all add: window_start_def js_floor_def floor_eq_iff)
  ultimately show ?thesis by (simp add: Let_def next_state_def fw_check_state)
qed

theorem fixed_window_boundary_witness:
  "admitted_where (\<lambda>x. 0 \<le> x \<and> x < 0 + 1000) [(0, 1), (10, 1)]
     (run_strategy (fw_mk (2, 1000)) None [(0, 1), (10, 1)]) \<le> 2 * 2"
  using fixed_window_boundary[of 2 1000 0 "[(0, 1), (10, 1)]" 0] by (simp add: fw_valid_def)

definition fw_hash :: "fixed_window_state option \<Rightarrow> num option \<times> num option" where
  "fw_hash st = (map_option fw_start st, map_option fw_count st)"

lemma fw_lua_count:
  "(case fst (fw_hash st) of None \<Rightarrow> 0 | Some start \<Rightarrow> if start \<noteq> ws then 0
      else (case snd (fw_hash st) of Some c \<Rightarrow> c | None \<Rightarrow> 0)) = fw_cnt st ws"
  by (cases st) (auto simp: fw_hash_def fw_cnt_def)

text \<open>
  Bit-identity with \<open>FIXED_WINDOW_LUA\<close>: for a whole-number limit, window, clock, cost and stored
  count, the decoded reply is the decision of \<open>check\<close> and the script writes exactly when \<open>check\<close>
  persists, the same window start, count and TTL.
\<close>

theorem fixed_window_lua_equiv:
  assumes "limit \<in> \<int>" "windowMs \<in> \<int>" "cost \<in> \<int>" "lua_now argv time \<in> \<int>"
    and "opt_inv (\<lambda>_ s. fw_count s \<in> \<int>) 0 st" "0 < windowMs"
  shows "let out = st_check (fw_mk (limit, windowMs)) st (lua_now argv time) cost;
             lua = fixed_window_lua time argv limit windowMs cost (fw_hash st)
         in decodeDecision (redis_reply (fst lua)) = o_result out \<and>
            snd lua = (if o_persist out
                       then Some (fw_start (the (o_state out)), fw_count (the (o_state out)), o_ttlMs out)
                       else None)"
proof -
  let ?now = "lua_now argv time"
  have ws: "window_start windowMs ?now \<in> \<int>" using assms(2) by (simp add: window_start_def)
  have cnt: "fw_cnt st (window_start windowMs ?now) \<in> \<int>"
    using assms(5) by (cases st) (auto simp: fw_cnt_def)
  have "1 \<le> window_start windowMs ?now + windowMs - ?now"
  proof -
    have "window_start windowMs ?now + windowMs - ?now \<in> \<int>" using ws assms by simp
    moreover have "0 < window_start windowMs ?now + windowMs - ?now"
      using window_start_bounds(2)[OF assms(6), of ?now] by simp
    ultimately show ?thesis by (auto elim!: Ints_cases)
  qed
  then show ?thesis
    unfolding fixed_window_lua_def Let_def window_start_def[symmetric] fw_lua_count
    unfolding if_less_max fw_mk_sel fw_check_def fst_conv snd_conv Let_def
    using assms ws cnt by (simp add: decodeDecision_def redis_reply_def)
qed

theorem fixed_window_lua_equiv_witness:
  "decodeDecision (redis_reply (fst (fixed_window_lua (0, 0) 1500 2 1000 1
      (fw_hash (Some \<lparr>fw_start = 1000, fw_count = 1\<rparr>)))))
     = o_result (st_check (fw_mk (2, 1000)) (Some \<lparr>fw_start = 1000, fw_count = 1\<rparr>) 1500 1)"
  using fixed_window_lua_equiv[of 2 1000 1 1500 "(0, 0)" "Some \<lparr>fw_start = 1000, fw_count = 1\<rparr>"]
  by (simp add: lua_now_def Let_def)

end
