(* ===== verification/SlidingLog.thy ===== *)
theory SlidingLog
  imports Contract
begin

text \<open>
  \<open>src/algorithms/sliding-window-log.ts\<close>: the exact trailing window. The state is the list of the
  time stamps of the accepted units, oldest first. The lemmas: the strategy contract, sortedness,
  exactness of the bound in every trailing window, exactness of \<open>retryAfterMs\<close> for one unit, and
  bit-identity with the script, whose sorted set holds the same stamps.
\<close>

section \<open>The algorithm\<close>

text \<open>The \<open>while\<close> loop over \<open>firstLive\<close>: how many leading stamps are stale.\<close>

fun first_live :: "num \<Rightarrow> num list \<Rightarrow> nat" where
  "first_live windowStart [] = 0"
| "first_live windowStart (x # xs) = (if x \<le> windowStart then Suc (first_live windowStart xs) else 0)"

text \<open>
  \<open>prev[firstLive + kMin - 1] ?? now\<close>: the index may be fractional when \<open>limit\<close> is; reading such an
  index, or one out of range, yields \<open>undefined\<close>.
\<close>

definition log_ref :: "num list \<Rightarrow> num \<Rightarrow> num \<Rightarrow> num" where
  "log_ref prev i now =
     (if js_floor i = i \<and> 0 \<le> i \<and> i < real (length prev) then prev ! nat \<lfloor>i\<rfloor> else now)"

definition log_retry :: "num \<Rightarrow> num \<Rightarrow> num list \<Rightarrow> nat \<Rightarrow> num \<Rightarrow> num \<Rightarrow> num" where
  "log_retry limit windowMs prev firstLive units now =
     (let cnt = real (length prev - firstLive)
      in if cnt = 0 then windowMs
         else
           (let k0 = cnt + units - limit;
                k1 = (if k0 < 1 then 1 else k0);
                kMin = (if k1 > cnt then cnt else k1);
                ref = log_ref prev (real firstLive + kMin - 1) now;
                r = js_ceil (ref + windowMs - now)
            in if r < 1 then 1 else r))"

definition log_check ::
  "num \<Rightarrow> num \<Rightarrow> num list option \<Rightarrow> num \<Rightarrow> num \<Rightarrow> (num list, decision) apply_outcome" where
  "log_check limit windowMs st now cost =
     (let windowStart = now - windowMs;
          prev = (case st of Some xs \<Rightarrow> xs | None \<Rightarrow> []);
          firstLive = first_live windowStart prev;
          cnt = real (length prev - firstLive);
          units = js_ceil cost
      in if cnt + units \<le> limit then
           (let newLog = drop firstLive prev @ replicate (nat \<lceil>cost\<rceil>) now;
                oldest = (case newLog of x # _ \<Rightarrow> x | [] \<Rightarrow> now);
                remaining = limit - (cnt + units)
            in \<lparr>o_state = Some newLog,
                o_result = \<lparr>d_allowed = True, d_limit = limit,
                  d_remaining = (if remaining < 0 then 0 else remaining),
                  d_resetAt = js_ceil (oldest + windowMs), d_retryAfterMs = 0\<rparr>,
                o_ttlMs = windowMs, o_persist = True\<rparr>)
         else
           (let oldest = (if cnt > 0 then prev ! firstLive else now);
                remaining = limit - cnt
            in \<lparr>o_state = st,
                o_result = \<lparr>d_allowed = False, d_limit = limit,
                  d_remaining = (if remaining < 0 then 0 else remaining),
                  d_resetAt = js_ceil (oldest + windowMs),
                  d_retryAfterMs = log_retry limit windowMs prev firstLive units now\<rparr>,
                o_ttlMs = windowMs, o_persist = False\<rparr>))"

definition log_peek :: "num \<Rightarrow> num \<Rightarrow> num list option \<Rightarrow> num \<Rightarrow> decision" where
  "log_peek limit windowMs st now =
     (let windowStart = now - windowMs;
          prev = (case st of Some xs \<Rightarrow> xs | None \<Rightarrow> []);
          firstLive = first_live windowStart prev;
          cnt = real (length prev - firstLive);
          oldest = (if cnt > 0 then prev ! firstLive else now);
          resetAt = js_ceil (oldest + windowMs);
          remaining = max 0 (limit - cnt)
      in if cnt + 1 \<le> limit then
           \<lparr>d_allowed = True, d_limit = limit, d_remaining = remaining, d_resetAt = resetAt,
            d_retryAfterMs = 0\<rparr>
         else
           \<lparr>d_allowed = False, d_limit = limit, d_remaining = remaining, d_resetAt = resetAt,
            d_retryAfterMs = log_retry limit windowMs prev firstLive 1 now\<rparr>)"

definition log_forecast :: "num \<Rightarrow> num \<Rightarrow> num list option \<Rightarrow> num \<Rightarrow> num \<Rightarrow> forecast" where
  "log_forecast limit windowMs st now cost =
     (let windowStart = now - windowMs;
          prev = (case st of Some xs \<Rightarrow> xs | None \<Rightarrow> []);
          firstLive = first_live windowStart prev;
          cnt = real (length prev - firstLive);
          available = max 0 (limit - cnt);
          hasLive = cnt > 0
      in \<lparr>f_spendableNow = js_floor (available / cost),
          f_nextReplenishAt = (if hasLive then js_ceil (prev ! firstLive + windowMs) else now),
          f_fullAt = (if hasLive then js_ceil (last prev + windowMs) else now)\<rparr>)"

record sliding_log_options =
  lo_limit :: js_number
  lo_windowMs :: js_number

definition log_mk :: "num \<times> num \<Rightarrow> num list strategy" where
  "log_mk p = (case p of (limit, windowMs) \<Rightarrow>
     \<lparr>st_name = ''slidingWindowLog'', st_limit = limit, st_windowMs = Some windowMs, st_ttlMs = windowMs,
      st_check = log_check limit windowMs,
      st_peek = Some (log_peek limit windowMs),
      st_forecast = Some (log_forecast limit windowMs)\<rparr>)"

definition slidingWindowLog :: "sliding_log_options \<Rightarrow> num list strategy result" where
  "slidingWindowLog opts =
     rbind (requirePositive ''slidingWindowLog.limit'' (lo_limit opts)) (\<lambda>limit.
     rbind (requirePositive ''slidingWindowLog.windowMs'' (lo_windowMs opts)) (\<lambda>windowMs.
       Inr (log_mk (limit, windowMs))))"

section \<open>The Redis form (SLIDING\_LOG\_LUA)\<close>

text \<open>
  The sorted set, as the ascending list of its scores. \<open>ZREMRANGEBYSCORE -inf windowStart\<close> removes
  every score up to \<open>windowStart\<close>; the members \<open>now-rank\<close> are distinct, so each \<open>ZADD\<close> adds one
  element with score \<open>now\<close>; \<open>ZRANGE k k WITHSCORES\<close> reads the element of rank \<open>k\<close>.
\<close>

definition zremrangebyscore :: "num \<Rightarrow> num list \<Rightarrow> num list" where
  "zremrangebyscore hi z = filter (\<lambda>x. \<not> x \<le> hi) z"

definition zadd_times :: "nat \<Rightarrow> num \<Rightarrow> num list \<Rightarrow> num list" where
  "zadd_times n now z = ((insort now) ^^ n) z"

definition zscore_at :: "num list \<Rightarrow> num \<Rightarrow> num \<Rightarrow> num" where
  "zscore_at z k now = (if 0 \<le> k \<and> k < real (length z) then z ! nat \<lfloor>k\<rfloor> else now)"

definition sliding_log_lua ::
  "num \<times> num \<Rightarrow> num \<Rightarrow> num \<Rightarrow> num \<Rightarrow> num \<Rightarrow> num list \<Rightarrow> lua_reply \<times> num list \<times> num option" where
  "sliding_log_lua time argv windowMs limit cost z0 =
     (let now = lua_now argv time;
          units = js_ceil cost;
          z = zremrangebyscore (now - windowMs) z0;
          cnt = real (length z)
      in if cnt + units \<le> limit then
           (let z' = zadd_times (nat \<lceil>cost\<rceil>) now z;
                px = js_ceil windowMs;
                r = limit - (cnt + units)
            in ((1, limit, (if r < 0 then 0 else r), js_ceil (zscore_at z' 0 now + windowMs), 0),
                z', Some (if px < 1 then 1 else px)))
         else
           (let retry =
              (if cnt = 0 then windowMs
               else
                 (let k0 = cnt + units - limit;
                      k1 = (if k0 < 1 then 1 else k0);
                      kMin = (if k1 > cnt then cnt else k1);
                      r = js_ceil (zscore_at z (kMin - 1) now + windowMs - now)
                  in if r < 1 then 1 else r));
                r = limit - cnt
            in ((0, limit, (if r < 0 then 0 else r), js_ceil (zscore_at z 0 now + windowMs), retry),
                z, None)))"

section \<open>Lemmas\<close>

definition log_valid :: "num \<times> num \<Rightarrow> bool" where
  "log_valid p = (case p of (limit, windowMs) \<Rightarrow> 0 < limit \<and> 0 < windowMs)"

text \<open>The invariant of a stored log at time \<open>t\<close>: ascending, no stamp in the future, not over-full.\<close>

definition log_ok :: "num \<times> num \<Rightarrow> num \<Rightarrow> num list \<Rightarrow> bool" where
  "log_ok p t xs \<longleftrightarrow> sorted xs \<and> (\<forall>x\<in>set xs. x \<le> t) \<and> real (length xs) \<le> fst p"

text \<open>The surviving suffix.\<close>

definition log_live :: "num \<Rightarrow> num list option \<Rightarrow> num \<Rightarrow> num list" where
  "log_live windowMs st t = dropWhile (\<lambda>x. x \<le> t - windowMs) (case st of Some xs \<Rightarrow> xs | None \<Rightarrow> [])"

definition log_view :: "num \<times> num \<Rightarrow> num list option \<Rightarrow> num \<Rightarrow> num list" where
  "log_view p = log_live (snd p)"

definition log_peek_of :: "num \<times> num \<Rightarrow> num list option \<Rightarrow> num \<Rightarrow> decision" where
  "log_peek_of p = log_peek (fst p) (snd p)"

lemma log_mk_sel [simp]:
  "st_check (log_mk p) = log_check (fst p) (snd p)"
  "st_limit (log_mk p) = fst p" "st_peek (log_mk p) = Some (log_peek_of p)"
  by (cases p; simp add: log_mk_def log_peek_of_def)+

lemma first_live_takeWhile: "first_live w xs = length (takeWhile (\<lambda>x. x \<le> w) xs)"
  by (induction xs) auto

lemma drop_first_live: "drop (first_live w xs) xs = dropWhile (\<lambda>x. x \<le> w) xs"
  by (simp add: first_live_takeWhile dropWhile_eq_drop)

lemma length_first_live: "length xs - first_live w xs = length (dropWhile (\<lambda>x. x \<le> w) xs)"
  by (simp flip: drop_first_live)

lemma nth_first_live:
  assumes "i < length xs - first_live w xs"
  shows "xs ! (first_live w xs + i) = dropWhile (\<lambda>x. x \<le> w) xs ! i"
proof -
  have "first_live w xs + i \<le> length xs" using assms by simp
  then show ?thesis by (simp flip: drop_first_live)
qed

text \<open>The reference stamp of the denial, read in the surviving suffix.\<close>

definition live_retry :: "num \<Rightarrow> num \<Rightarrow> num list \<Rightarrow> num \<Rightarrow> num \<Rightarrow> num" where
  "live_retry limit windowMs live units now =
     (let cnt = real (length live)
      in if cnt = 0 then windowMs
         else
           (let kMin = min cnt (max 1 (cnt + units - limit));
                ref = log_ref live (kMin - 1) now
            in max 1 (js_ceil (ref + windowMs - now))))"

lemma log_ref_suffix:
  assumes "0 \<le> k" "k < real (length xs - first_live w xs)"
  shows "log_ref xs (real (first_live w xs) + k) now = log_ref (dropWhile (\<lambda>x. x \<le> w) xs) k now"
proof -
  have len: "first_live w xs \<le> length xs" by (simp add: first_live_takeWhile length_takeWhile_le)
  have fl: "js_floor (real (first_live w xs) + k) = real (first_live w xs) + k \<longleftrightarrow> js_floor k = k"
    by (simp add: js_floor_def)
  have "nat \<lfloor>real (first_live w xs) + k\<rfloor> = first_live w xs + nat \<lfloor>k\<rfloor>"
    using assms(1) by (simp add: nat_add_distrib)
  moreover have "nat \<lfloor>k\<rfloor> < length xs - first_live w xs" using assms by linarith
  moreover have "real (first_live w xs) + k < real (length xs)" using assms(2) len by linarith
  ultimately show ?thesis
    using assms by (auto simp: log_ref_def fl nth_first_live length_first_live)
qed

lemma log_oldest:
  "(if real (length (dropWhile (\<lambda>x. x \<le> s) xs)) > 0 then xs ! first_live s xs else now)
     = (case dropWhile (\<lambda>x. x \<le> s) xs of x # _ \<Rightarrow> x | [] \<Rightarrow> now)"
  using nth_first_live[of 0 xs s]
  by (cases "dropWhile (\<lambda>x. x \<le> s) xs") (simp_all add: length_first_live del: dropWhile_eq_Nil_conv)

lemma log_retry_live:
  "log_retry limit w xs (first_live s xs) units now
     = live_retry limit w (dropWhile (\<lambda>x. x \<le> s) xs) units now"
proof (cases "length xs - first_live s xs = 0")
  case True
  then show ?thesis by (simp add: log_retry_def live_retry_def length_first_live)
next
  case False
  let ?n = "real (length xs - first_live s xs)"
  let ?k = "min ?n (max 1 (?n + units - limit))"
  have "1 \<le> ?n" using False by linarith
  then have "0 \<le> ?k - 1" "?k - 1 < ?n" by auto
  from log_ref_suffix[OF this, of now] show ?thesis using False
    unfolding log_retry_def live_retry_def Let_def if_less_max if_greater_min
    by (simp only: length_first_live add_diff_eq)
qed

text \<open>\<open>check\<close> and \<open>peek\<close> as functions of the surviving suffix.\<close>

lemma log_check_live:
  "log_check limit w st now cost =
     (let live = log_live w st now; cnt = real (length live); units = js_ceil cost
      in if cnt + units \<le> limit then
           \<lparr>o_state = Some (live @ replicate (nat \<lceil>cost\<rceil>) now),
            o_result = \<lparr>d_allowed = True, d_limit = limit, d_remaining = max 0 (limit - (cnt + units)),
              d_resetAt = js_ceil ((case live @ replicate (nat \<lceil>cost\<rceil>) now of x # _ \<Rightarrow> x | [] \<Rightarrow> now) + w),
              d_retryAfterMs = 0\<rparr>,
            o_ttlMs = w, o_persist = True\<rparr>
         else
           \<lparr>o_state = st,
            o_result = \<lparr>d_allowed = False, d_limit = limit, d_remaining = max 0 (limit - cnt),
              d_resetAt = js_ceil ((case live of x # _ \<Rightarrow> x | [] \<Rightarrow> now) + w),
              d_retryAfterMs = live_retry limit w live units now\<rparr>,
            o_ttlMs = w, o_persist = False\<rparr>)"
proof -
  show ?thesis
    unfolding log_check_def Let_def log_live_def length_first_live drop_first_live log_oldest log_retry_live
      if_less_max ..
qed

lemma log_peek_live:
  "log_peek limit w st now =
     (let live = log_live w st now; cnt = real (length live)
      in \<lparr>d_allowed = (cnt + 1 \<le> limit), d_limit = limit, d_remaining = max 0 (limit - cnt),
          d_resetAt = js_ceil ((case live of x # _ \<Rightarrow> x | [] \<Rightarrow> now) + w),
          d_retryAfterMs = (if cnt + 1 \<le> limit then 0 else live_retry limit w live 1 now)\<rparr>)"
proof -
  show ?thesis
    unfolding log_peek_def Let_def log_live_def length_first_live log_oldest log_retry_live by simp
qed

lemma log_check_allowed [simp]:
  "d_allowed (o_result (log_check limit w st now c)) \<longleftrightarrow> real (length (log_live w st now)) + js_ceil c \<le> limit"
  "o_persist (log_check limit w st now c) \<longleftrightarrow> real (length (log_live w st now)) + js_ceil c \<le> limit"
  by (auto simp: log_check_live Let_def)

lemma log_check_state:
  "real (length (log_live w st now)) + js_ceil c \<le> limit \<Longrightarrow>
     o_state (log_check limit w st now c) = Some (log_live w st now @ replicate (nat \<lceil>c\<rceil>) now)"
  "\<not> real (length (log_live w st now)) + js_ceil c \<le> limit \<Longrightarrow> o_state (log_check limit w st now c) = st"
  by (auto simp: log_check_live Let_def)

lemma log_check_fields:
  "d_limit (o_result (log_check limit w st now c)) = limit"
  "0 \<le> d_remaining (o_result (log_check limit w st now c))"
  "o_ttlMs (log_check limit w st now c) = w"
  "real (length (log_live w st now)) + js_ceil c \<le> limit \<Longrightarrow>
     d_retryAfterMs (o_result (log_check limit w st now c)) = 0"
  "\<not> real (length (log_live w st now)) + js_ceil c \<le> limit \<Longrightarrow>
     d_retryAfterMs (o_result (log_check limit w st now c))
       = live_retry limit w (log_live w st now) (js_ceil c) now"
  by (auto simp: log_check_live Let_def)

lemma live_retry_pos: "0 < w \<Longrightarrow> 0 < live_retry limit w live units now"
  by (simp add: live_retry_def Let_def less_max_iff_disj)

lemma log_live_None [simp]: "log_live w None t = []"
  by (simp add: log_live_def)

lemma set_log_live: "log_ok p t xs \<Longrightarrow> x \<in> set (log_live w (Some xs) now) \<Longrightarrow> x \<le> t"
  by (auto simp: log_ok_def log_live_def dest: set_dropWhileD)

lemma sorted_log_live: "opt_inv (log_ok p) t st \<Longrightarrow> sorted (log_live w st now)"
  by (cases st) (auto simp: log_ok_def log_live_def intro: sorted_dropWhile)

lemma dropWhile_dropWhile_mono:
  "a \<le> b \<Longrightarrow> dropWhile (\<lambda>x. x \<le> b) (dropWhile (\<lambda>x. x \<le> a) xs) = dropWhile (\<lambda>x. x \<le> (b :: num)) xs"
  by (induction xs) auto

lemma dropWhile_filter_sorted: "sorted xs \<Longrightarrow> dropWhile (\<lambda>x. x \<le> a) xs = filter (\<lambda>x. \<not> x \<le> (a :: num)) xs"
  by (induction xs) (auto intro!: filter_True[symmetric])

lemma log_live_filter:
  "opt_inv (log_ok p) t st \<Longrightarrow>
   log_live w st now = filter (\<lambda>x. \<not> x \<le> now - w) (case st of Some xs \<Rightarrow> xs | None \<Rightarrow> [])"
  by (cases st) (simp_all add: log_live_def log_ok_def dropWhile_filter_sorted)

lemma log_live_ok: "opt_inv (log_ok p) t st \<Longrightarrow> x \<in> set (log_live w st now) \<Longrightarrow> x \<le> t"
  by (cases st) (auto dest: set_log_live)

lemma log_live_gt: "opt_inv (log_ok p) t st \<Longrightarrow> x \<in> set (log_live w st now) \<Longrightarrow> now - w < x"
  by (simp add: log_live_filter)

lemma log_live_later:
  "t \<le> t' \<Longrightarrow> log_live w st t' = dropWhile (\<lambda>x. x \<le> t' - w) (log_live w st t)"
  by (simp add: log_live_def dropWhile_dropWhile_mono)

lemma real_nat_ceiling: "0 < c \<Longrightarrow> real (nat \<lceil>c\<rceil>) = js_ceil c"
  by (simp add: js_ceil_def)

interpretation log_c: introspective_strategy log_mk log_valid "\<lambda>_ _. True" log_ok log_view log_peek_of
proof
  fix p :: "num \<times> num" assume v: "log_valid p"
  then have w: "0 < snd p" by (auto simp: log_valid_def)
  show "0 < d_retryAfterMs (o_result (st_check (log_mk p) st now c))"
    if "\<not> d_allowed (o_result (st_check (log_mk p) st now c))" for st now c
    using that live_retry_pos[OF w] by (simp add: log_check_fields)
  show "log_ok p t' s" if "log_ok p t s" "t \<le> t'" for t s t'
    using that by (auto simp: log_ok_def)
  show "opt_inv (log_ok p) now (o_state (st_check (log_mk p) st now c))"
    if "0 < c" "opt_inv (log_ok p) now st" "d_allowed (o_result (st_check (log_mk p) st now c))" for st now c
    using that log_live_ok[OF that(2)] sorted_log_live[OF that(2)]
    by (auto simp: log_check_state log_ok_def sorted_append js_ceil_def)
  show "log_view p (o_state (st_check (log_mk p) a now c)) t' = log_view p None t'"
    if "opt_inv (log_ok p) now a" "d_allowed (o_result (st_check (log_mk p) a now c))"
      "now + o_ttlMs (st_check (log_mk p) a now c) \<le> t'" for a now c t'
  proof -
    have "x \<le> t' - snd p" if "x \<le> now" for x
      using \<open>now + o_ttlMs _ \<le> t'\<close> that by (simp add: log_check_fields)
    then show ?thesis using that log_live_ok[OF that(1)]
      by (auto simp: log_check_state log_view_def log_live_def[of "snd p" "Some _"])
  qed
  show "o_result (st_check (log_mk p) a now c) = o_result (st_check (log_mk p) b now c)"
    if "log_view p a now = log_view p b now" for a b now c
    using that by (simp add: log_view_def log_check_live Let_def)
  show "log_peek_of p st now = o_result (st_check (log_mk p) st now 1)"
    if "\<not> d_allowed (log_peek_of p st now)" for st now
    using that by (simp add: log_peek_of_def log_peek_live log_check_live Let_def)
qed (auto simp: log_check_fields log_check_state log_view_def log_peek_of_def log_peek_live Let_def log_valid_def)

lemma log_forecast_live:
  "log_forecast limit w st now c =
     (let l = log_live w st now; available = max 0 (limit - real (length l))
      in \<lparr>f_spendableNow = js_floor (available / c),
          f_nextReplenishAt = (if l \<noteq> [] then js_ceil (hd l + w) else now),
          f_fullAt = (if l \<noteq> [] then js_ceil (last l + w) else now)\<rparr>)"
proof -
  let ?xs = "case st of Some xs \<Rightarrow> xs | None \<Rightarrow> []" and ?k = "first_live (now - w) (case st of Some xs \<Rightarrow> xs | None \<Rightarrow> [])"
  have l: "log_live w st now = drop ?k ?xs" by (simp add: log_live_def drop_first_live)
  have "?xs ! ?k = hd (drop ?k ?xs)" "last ?xs = last (drop ?k ?xs)" if "?k < length ?xs"
    using that by (simp_all add: hd_drop_conv_nth)
  then show ?thesis unfolding log_forecast_def Let_def l by (cases "?k < length ?xs") auto
qed

interpretation log_f: forecasting_strategy log_mk log_valid "\<lambda>_ _. True" log_ok log_view log_peek_of
  by unfold_locales (auto simp: log_mk_def log_forecast_live log_view_def split: prod.splits)

lemma slidingWindowLog_factory:
  assumes "slidingWindowLog opts = Inr S"
  shows "\<exists>p. S = log_mk p \<and> log_valid p"
proof -
  obtain l w where "0 < l" "0 < w" "S = log_mk (l, w)"
    using assms unfolding slidingWindowLog_def by (auto simp: result_simps)
  then have "S = log_mk (l, w) \<and> log_valid (l, w)" by (simp add: log_valid_def)
  then show ?thesis by blast
qed

section \<open>Correctness\<close>

text \<open>The stamps of a state in the trailing window \<open>(a, a + w]\<close>.\<close>

definition stamps_in :: "num \<Rightarrow> num \<Rightarrow> num list option \<Rightarrow> num" where
  "stamps_in w a st =
     real (length (filter (\<lambda>x. a < x \<and> x \<le> a + w) (case st of Some xs \<Rightarrow> xs | None \<Rightarrow> [])))"

lemma stamps_in_past:
  assumes "opt_inv (log_ok p) t st" "t \<le> a"
  shows "stamps_in w a st = 0"
proof (cases st)
  case (Some xs)
  then have "\<forall>x\<in>set xs. x \<le> a" using assms by (auto simp: log_ok_def)
  then show ?thesis using Some by (auto simp: stamps_in_def intro!: filter_False)
qed (simp add: stamps_in_def)

lemma stamps_in_le: "opt_inv (log_ok p) t st \<Longrightarrow> 0 \<le> fst p \<Longrightarrow> stamps_in w a st \<le> fst p"
  by (cases st) (auto simp: stamps_in_def log_ok_def intro: order_trans[OF of_nat_mono[OF length_filter_le]])

lemma stamps_in_live:
  assumes "opt_inv (log_ok p) now st" "now \<le> a + w"
  shows "stamps_in w a (Some (log_live w st now)) = stamps_in w a st"
proof -
  have "filter (\<lambda>x. a < x \<and> x \<le> a + w) (filter (\<lambda>x. \<not> x \<le> now - w) xs)
      = filter (\<lambda>x. a < x \<and> x \<le> a + w) xs" for xs
    using assms(2) by (auto intro!: filter_cong)
  then show ?thesis by (simp add: stamps_in_def log_live_filter[OF assms(1)])
qed

lemma log_window_invariant:
  assumes v: "log_valid p"
  shows "opt_inv (log_ok p) t st \<Longrightarrow> monotone_from t rs \<Longrightarrow>
    admitted_where (\<lambda>x. a < x \<and> x \<le> a + snd p) rs (run_strategy (log_mk p) st rs)
      \<le> fst p - stamps_in (snd p) a st"
proof (induction rs arbitrary: t st)
  case Nil
  then show ?case using v stamps_in_le[OF Nil.prems(1)] by (auto simp: log_valid_def)
next
  case (Cons r rs)
  obtain now c where r: "r = (now, c)" by (cases r)
  with Cons.prems have t: "t \<le> now" "0 < c" "monotone_from now rs" by auto
  have lim: "0 \<le> fst p" using v by (auto simp: log_valid_def)
  let ?P = "\<lambda>x. a < x \<and> x \<le> a + snd p"
  let ?st = "next_state st (st_check (log_mk p) st now c)"
  have ok: "opt_inv (log_ok p) now st" using log_c.opt_inv_mono[OF v Cons.prems(1) t(1)] .
  have ok': "opt_inv (log_ok p) now ?st" using log_c.next_state_inv[OF v TrueI t(2) ok] .
  note IH = Cons.IH[OF ok' t(3)]
  consider (past) "now \<le> a" | (cur) "a < now" "now \<le> a + snd p" | (over) "a + snd p < now" by linarith
  then show ?case
  proof cases
    case past
    then show ?thesis using IH stamps_in_past[OF ok past] stamps_in_past[OF ok' past] by (simp add: r Let_def)
  next
    case cur
    have "stamps_in (snd p) a ?st = stamps_in (snd p) a st
        + (if d_allowed (o_result (st_check (log_mk p) st now c)) then js_ceil c else 0)"
      using cur stamps_in_live[OF ok cur(2)] t(2)
      by (simp add: next_state_def log_check_state) (simp add: stamps_in_def js_ceil_def)
    then show ?thesis using IH js_ceil_ge[of c] cur by (auto simp: r Let_def)
  next
    case over
    have "\<forall>q\<in>set rs. \<not> ?P (fst q)" using monotone_from_ge[OF t(3)] over by fastforce
    then have "admitted_where ?P rs (run_strategy (log_mk p) ?st rs) = 0" by (intro admitted_where_none)
    then show ?thesis using over stamps_in_le[OF ok lim] by (simp add: r Let_def)
  qed
qed

text \<open>
  C5. The log is exact: in every trailing window of length \<open>windowMs\<close>, wherever it starts, the
  accepted cost is at most \<open>limit\<close>, from a cold start and for every sequence of requests whose times
  do not decrease. (The fixed window allows twice as much.)
\<close>

theorem sliding_log_bound:
  assumes "log_valid (limit, windowMs)" and "monotone_from t rs"
  shows "admitted_where (\<lambda>x. a < x \<and> x \<le> a + windowMs) rs
           (run_strategy (log_mk (limit, windowMs)) None rs) \<le> limit"
  using log_window_invariant[OF assms(1) _ assms(2), of None a] by (simp add: stamps_in_def)

theorem sliding_log_bound_witness:
  "admitted_where (\<lambda>x. 500 < x \<and> x \<le> 500 + 1000) [(0, 1), (999, 1), (1000, 1), (1001, 1)]
     (run_strategy (log_mk (2, 1000)) None [(0, 1), (999, 1), (1000, 1), (1001, 1)]) \<le> 2"
  using sliding_log_bound[of 2 1000 0 "[(0, 1), (999, 1), (1000, 1), (1001, 1)]" 500]
  by (simp add: log_valid_def)

lemma dropWhile_length_nth:
  assumes "sorted xs" "k < length xs"
  shows "xs ! k \<le> (b :: num) \<longleftrightarrow> length (dropWhile (\<lambda>x. x \<le> b) xs) < length xs - k"
proof -
  let ?n = "length (takeWhile (\<lambda>x. x \<le> b) xs)"
  have "?n \<le> length xs" by (rule length_takeWhile_le)
  moreover have "xs ! k \<le> b" if "k < ?n"
    using that nth_mem[OF that] by (auto simp: takeWhile_nth dest: set_takeWhileD)
  moreover have "\<not> xs ! k \<le> b" if "?n \<le> k"
  proof -
    have "?n < length xs" using that assms(2) by linarith
    then have "\<not> xs ! ?n \<le> b" by (rule nth_length_takeWhile)
    moreover have "xs ! ?n \<le> xs ! k" using assms that by (auto intro: sorted_nth_mono)
    ultimately show ?thesis by linarith
  qed
  ultimately have "xs ! k \<le> b \<longleftrightarrow> k < ?n" "?n \<le> length xs" by (metis not_less)+
  then show ?thesis using assms(2) by (simp add: dropWhile_eq_drop) linarith
qed

text \<open>
  \<open>retryAfterMs\<close> of the log is exact to the millisecond for a whole-number limit: a denied
  request whose units fit the limit is admitted from \<open>now + retryAfterMs\<close> on, and denied one
  millisecond earlier, the reference stamp being the one whose expiry frees the last missing unit.
\<close>

theorem sliding_log_retry_exact:
  assumes "log_valid (limit, windowMs)" and "opt_inv (log_ok (limit, windowMs)) now st"
    and "limit \<in> \<int>" and "js_ceil c \<le> limit" and "now \<le> t"
    and "\<not> d_allowed (o_result (st_check (log_mk (limit, windowMs)) st now c))"
  shows "(now + d_retryAfterMs (o_result (st_check (log_mk (limit, windowMs)) st now c)) \<le> t \<longrightarrow>
            d_allowed (o_result (st_check (log_mk (limit, windowMs)) st t c))) \<and>
         (t \<le> now + d_retryAfterMs (o_result (st_check (log_mk (limit, windowMs)) st now c)) - 1 \<longrightarrow>
            \<not> d_allowed (o_result (st_check (log_mk (limit, windowMs)) st t c)))"
proof -
  let ?L = "log_live windowMs st now"
  obtain l where l: "limit = of_int l" using assms(3) by (rule Ints_cases)
  obtain u where u: "js_ceil c = of_int u" using js_ceil_in_Ints by (rule Ints_cases)
  define k where "k = nat (int (length ?L) + u - l - 1)"
  have den: "l < int (length ?L) + u" using assms(6) by (simp add: l u)
  have ul: "u \<le> l" using assms(4) by (simp add: l u)
  have k: "k < length ?L" using den ul by (simp add: k_def)
  have km: "min (real (length ?L)) (max 1 (real (length ?L) + js_ceil c - limit)) - 1 = real k"
    using den ul by (simp add: l u k_def of_nat_nat)
  have ref: "log_ref ?L (real k) now = ?L ! k" using k by (simp add: log_ref_def js_floor_def)
  have den': "\<not> real (length ?L) + js_ceil c \<le> limit" using assms(6) by simp
  have ret: "d_retryAfterMs (o_result (st_check (log_mk (limit, windowMs)) st now c))
      = max 1 (js_ceil (?L ! k + windowMs - now))"
    unfolding log_mk_sel fst_conv snd_conv log_check_fields(5)[OF den'] live_retry_def Let_def km ref
    using k by auto
  have "?L ! k \<in> set ?L" using k by simp
  then have "now - windowMs < ?L ! k" by (rule log_live_gt[OF assms(2)])
  then have ret': "d_retryAfterMs (o_result (st_check (log_mk (limit, windowMs)) st now c))
      = js_ceil (?L ! k + windowMs - now)"
    unfolding ret by (intro max_absorb2) simp
  have "d_allowed (o_result (st_check (log_mk (limit, windowMs)) st t c)) \<longleftrightarrow>
      length (dropWhile (\<lambda>x. x \<le> t - windowMs) ?L) < length ?L - k"
    using den ul by (simp add: l u k_def log_live_later[OF assms(5)]) linarith
  also have "\<dots> \<longleftrightarrow> now + (?L ! k + windowMs - now) \<le> t"
    using dropWhile_length_nth[OF sorted_log_live[OF assms(2)] k, of "t - windowMs"] by auto
  finally show ?thesis
    unfolding ret' using js_ceil_ge[of "?L ! k + windowMs - now"]
      js_ceil_lt[of "?L ! k + windowMs - now"] by auto
qed

theorem sliding_log_retry_exact_witness:
  "d_retryAfterMs (o_result (st_check (log_mk (2, 1000)) (Some [100, 400]) 600 1)) = 500 \<and>
   d_allowed (o_result (st_check (log_mk (2, 1000)) (Some [100, 400]) 1100 1))"
  using sliding_log_retry_exact[of 2 1000 600 "Some [100, 400]" 1 1100]
  by (simp add: log_valid_def log_ok_def log_check_fields log_live_def live_retry_def log_ref_def Let_def)

lemma insort_last: "sorted xs \<Longrightarrow> \<forall>x\<in>set xs. x \<le> now \<Longrightarrow> insort (now :: num) xs = xs @ [now]"
  by (induction xs) (auto simp: insort_is_Cons)

lemma zadd_times_append:
  "sorted xs \<Longrightarrow> \<forall>x\<in>set xs. x \<le> now \<Longrightarrow> zadd_times n now xs = xs @ replicate n now"
proof (induction n)
  case 0
  then show ?case by (simp add: zadd_times_def)
next
  case (Suc n)
  have "zadd_times (Suc n) now xs = insort now (xs @ replicate n now)"
    using Suc by (simp add: zadd_times_def)
  also have "\<dots> = xs @ replicate (Suc n) now"
    using Suc.prems by (subst insort_last) (auto simp: sorted_append replicate_append_same)
  finally show ?case .
qed

text \<open>
  Bit-identity with \<open>SLIDING_LOG_LUA\<close>: for a whole-number limit and window, on the sorted set of
  the stored stamps, the decoded reply is the decision of \<open>check\<close>; an admitted request leaves exactly
  the log \<open>check\<close> persists, under the same TTL, and a denied one only prunes stale stamps.
\<close>

theorem sliding_log_lua_equiv:
  assumes "log_valid (limit, windowMs)" "limit \<in> \<int>" "windowMs \<in> \<int>" "0 < cost"
    and "opt_inv (log_ok (limit, windowMs)) (lua_now argv time) st"
  shows "let out = st_check (log_mk (limit, windowMs)) st (lua_now argv time) cost;
             lua = sliding_log_lua time argv windowMs limit cost (case st of Some xs \<Rightarrow> xs | None \<Rightarrow> [])
         in decodeDecision (redis_reply (fst lua)) = o_result out \<and>
            snd lua = (if o_persist out then (the (o_state out), Some (o_ttlMs out))
                       else (log_live windowMs st (lua_now argv time), None))"
proof -
  let ?now = "lua_now argv time"
  let ?L = "log_live windowMs st ?now"
  have z: "zremrangebyscore (?now - windowMs) (case st of Some xs \<Rightarrow> xs | None \<Rightarrow> []) = ?L"
    by (simp add: zremrangebyscore_def log_live_filter[OF assms(5)])
  have add: "zadd_times n ?now ?L = ?L @ replicate n ?now" for n
    using sorted_log_live[OF assms(5)] log_live_ok[OF assms(5)] by (intro zadd_times_append) auto
  have zs: "zscore_at xs 0 ?now = (case xs of x # _ \<Rightarrow> x | [] \<Rightarrow> ?now)" for xs
    by (cases xs) (simp_all add: zscore_at_def)
  have w: "1 \<le> windowMs" using assms(1,3) by (auto simp: log_valid_def elim!: Ints_cases)
  have ki: "min (real (length ?L)) (max 1 (real (length ?L) + js_ceil cost - limit)) - 1 \<in> \<int>"
    using assms(2) by simp
  have ref: "zscore_at ?L k ?now = log_ref ?L k ?now" if "k \<in> \<int>" for k
    using that by (simp add: zscore_at_def log_ref_def)
  show ?thesis
    unfolding sliding_log_lua_def Let_def z add zs if_less_max if_greater_min ref[OF ki]
    unfolding log_mk_sel fst_conv snd_conv log_check_live Let_def live_retry_def
    using assms w by (simp add: decodeDecision_def redis_reply_def)
qed

theorem sliding_log_lua_equiv_witness:
  "decodeDecision (redis_reply (fst (sliding_log_lua (0, 0) 600 1000 2 1 [100, 400])))
     = o_result (st_check (log_mk (2, 1000)) (Some [100, 400]) 600 1)"
  using sliding_log_lua_equiv[of 2 1000 1 600 "(0, 0)" "Some [100, 400]"]
  by (simp add: lua_now_def log_valid_def log_ok_def Let_def)

end
