(* ===== verification/SlidingWindow.thy ===== *)
theory SlidingWindow
  imports Contract
begin

text \<open>
  \<open>src/algorithms/sliding-window.ts\<close>: the sub-bucketed sliding counter. The state is a ring of
  \<open>S + 1\<close> slots, two arrays holding for each slot the absolute tick that owns it and its count. The
  lemmas: the strategy contract, the bound per \<open>S\<close> consecutive ticks, monotone decay of the estimate
  (so a computed retry time is sufficient), and bit-identity with the script.
\<close>

section \<open>The algorithm\<close>

record window_state =
  sw_i :: "int list"
  sw_n :: "num list"

text \<open>
  \<open>ring.i[p] === idx ? (ring.n[p] ?? 0) : 0\<close>, where an index out of range reads \<open>undefined\<close>. Ticks
  below zero were never written.
\<close>

definition sw_get :: "nat \<Rightarrow> window_state \<Rightarrow> int \<Rightarrow> num" where
  "sw_get S ring idx =
     (if idx < 0 then 0
      else let q = nat (idx mod int (S + 1))
           in if q < length (sw_i ring) \<and> sw_i ring ! q = idx
              then (if q < length (sw_n ring) then sw_n ring ! q else 0) else 0)"

definition sw_empty :: "nat \<Rightarrow> window_state" where
  "sw_empty S = \<lparr>sw_i = replicate (S + 1) (- 1), sw_n = replicate (S + 1) 0\<rparr>"

text \<open>\<open>state ?? {...}\<close>\<close>

definition sw_ring :: "nat \<Rightarrow> window_state option \<Rightarrow> window_state" where
  "sw_ring S st = (case st of Some r \<Rightarrow> r | None \<Rightarrow> sw_empty S)"

text \<open>
  Bumping the slot of tick \<open>c\<close> in place. For a clock before the epoch (\<open>c < 0\<close>) \<open>c % slots\<close> is
  negative, and JavaScript writes a property that is no array element and that \<open>get\<close> never reads, so
  the elements are unchanged; unless \<open>c % slots\<close> is \<open>-0\<close>, which names element 0.
\<close>

definition sw_bump :: "nat \<Rightarrow> window_state \<Rightarrow> int \<Rightarrow> num \<Rightarrow> window_state" where
  "sw_bump S ring c cost =
     (let slot = c mod int (S + 1); q = nat slot
      in if c < 0 \<and> slot \<noteq> 0 then ring
         else (let cur = (if q < length (sw_i ring) \<and> sw_i ring ! q = c
                          then (if q < length (sw_n ring) then sw_n ring ! q else 0) else 0)
               in \<lparr>sw_i = (sw_i ring)[q := c], sw_n = (sw_n ring)[q := cur + cost]\<rparr>))"

definition sw_tick :: "num \<Rightarrow> num \<Rightarrow> int" where
  "sw_tick w now = \<lfloor>now / w\<rfloor>"

definition sw_weight :: "num \<Rightarrow> num \<Rightarrow> num" where
  "sw_weight w now =
     (let c = sw_tick w now;
          e0 = now - of_int c * w;
          elapsed = (if e0 < 0 then 0 else e0);
          w0 = (w - elapsed) / w;
          w1 = (if w0 < 0 then 0 else w0)
      in if w1 > 1 then 1 else w1)"

text \<open>The loop \<open>for (j = c - S + 1; j <= c; j++) full += get(j)\<close>, and the estimate.\<close>

definition sw_full :: "nat \<Rightarrow> window_state \<Rightarrow> int \<Rightarrow> num" where
  "sw_full S ring c = sum_list (map (sw_get S ring) [c - int S + 1..c])"

definition sw_estimate :: "nat \<Rightarrow> num \<Rightarrow> window_state \<Rightarrow> num \<Rightarrow> num" where
  "sw_estimate S w ring now =
     (let c = sw_tick w now
      in sw_full S ring c + sw_get S ring (c - int S) * sw_weight w now)"

definition sw_retry :: "num \<Rightarrow> num \<Rightarrow> num \<Rightarrow> num \<Rightarrow> int \<Rightarrow> num \<Rightarrow> num" where
  "sw_retry w D oldest weight c now =
     (let r = (if oldest > 0 \<and> D \<le> oldest * weight then js_ceil (D * w / oldest)
               else js_ceil ((of_int c + 1) * w - now))
      in if r < 1 then 1 else r)"

definition sw_check ::
  "nat \<Rightarrow> num \<Rightarrow> num \<Rightarrow> window_state option \<Rightarrow> num \<Rightarrow> num \<Rightarrow> (window_state, decision) apply_outcome" where
  "sw_check S limit windowMs st now cost =
     (let w = windowMs / real S;
          c = sw_tick w now;
          ring = sw_ring S st;
          estimate = sw_estimate S w ring now;
          projected = estimate + cost;
          resetAt = js_ceil ((of_int c + 1) * w + windowMs);
          ttl = js_ceil (windowMs + w)
      in if projected \<le> limit then
           (let remaining = js_floor (limit - projected)
            in \<lparr>o_state = Some (sw_bump S ring c cost),
                o_result = \<lparr>d_allowed = True, d_limit = limit,
                  d_remaining = (if remaining < 0 then 0 else remaining),
                  d_resetAt = resetAt, d_retryAfterMs = 0\<rparr>,
                o_ttlMs = ttl, o_persist = True\<rparr>)
         else
           (let remaining = js_floor (limit - estimate)
            in \<lparr>o_state = st,
                o_result = \<lparr>d_allowed = False, d_limit = limit,
                  d_remaining = (if remaining < 0 then 0 else remaining),
                  d_resetAt = resetAt,
                  d_retryAfterMs =
                    sw_retry w (projected - limit) (sw_get S ring (c - int S)) (sw_weight w now) c now\<rparr>,
                o_ttlMs = ttl, o_persist = False\<rparr>))"

text \<open>In \<open>peek\<close> and \<open>forecast\<close> the reader returns 0 for an absent state, as the empty ring does.\<close>

definition sw_peek :: "nat \<Rightarrow> num \<Rightarrow> num \<Rightarrow> window_state option \<Rightarrow> num \<Rightarrow> decision" where
  "sw_peek S limit windowMs st now =
     (let w = windowMs / real S;
          c = sw_tick w now;
          ring = sw_ring S st;
          estimate = sw_estimate S w ring now;
          resetAt = js_ceil ((of_int c + 1) * w + windowMs);
          remaining = max 0 (js_floor (limit - estimate))
      in if estimate + 1 \<le> limit then
           \<lparr>d_allowed = True, d_limit = limit, d_remaining = remaining, d_resetAt = resetAt,
            d_retryAfterMs = 0\<rparr>
         else
           \<lparr>d_allowed = False, d_limit = limit, d_remaining = remaining, d_resetAt = resetAt,
            d_retryAfterMs =
              sw_retry w (estimate + 1 - limit) (sw_get S ring (c - int S)) (sw_weight w now) c now\<rparr>)"

definition sw_forecast :: "nat \<Rightarrow> num \<Rightarrow> num \<Rightarrow> window_state option \<Rightarrow> num \<Rightarrow> num \<Rightarrow> forecast" where
  "sw_forecast S limit windowMs st now cost =
     (let w = windowMs / real S;
          c = sw_tick w now;
          available = max 0 (js_floor (limit - sw_estimate S w (sw_ring S st) now))
      in \<lparr>f_spendableNow = js_floor (available / cost),
          f_nextReplenishAt = js_ceil ((of_int c + 1) * w),
          f_fullAt = js_ceil ((of_int c + 1) * w + windowMs)\<rparr>)"

record sliding_window_options =
  so_limit :: js_number
  so_windowMs :: js_number
  so_buckets :: "js_number option"

definition sw_mk :: "num \<times> num \<times> nat \<Rightarrow> window_state strategy" where
  "sw_mk p = (case p of (limit, windowMs, S) \<Rightarrow>
     \<lparr>st_name = ''slidingWindow'', st_limit = limit, st_windowMs = Some windowMs,
      st_ttlMs = js_ceil (windowMs + windowMs / real S),
      st_check = sw_check S limit windowMs,
      st_peek = Some (sw_peek S limit windowMs),
      st_forecast = Some (sw_forecast S limit windowMs)\<rparr>)"

text \<open>
  The factory; \<open>requireFiniteWindow\<close> also rejects a sub-bucket width that underflows to zero.
\<close>

definition slidingWindow :: "sliding_window_options \<Rightarrow> window_state strategy result" where
  "slidingWindow opts =
     (let b = (case so_buckets opts of Some v \<Rightarrow> v | None \<Rightarrow> Num 10)
      in rbind (requirePositive ''slidingWindow.limit'' (so_limit opts)) (\<lambda>limit.
         rbind (requirePositive ''slidingWindow.windowMs'' (so_windowMs opts)) (\<lambda>windowMs.
         rbind (requireInteger ''slidingWindow.buckets'' b) (\<lambda>_.
         rbind (requireAtLeast ''slidingWindow.buckets'' b 1) (\<lambda>_.
         rbind (requireAtMost ''slidingWindow.buckets'' b 100000) (\<lambda>S.
         rbind (requireFinite ''slidingWindow.windowMs/buckets'' (js_of_real (windowMs / S))) (\<lambda>w.
         rbind (requireFiniteWindow ''slidingWindow.windowMs/buckets'' w) (\<lambda>_.
           Inr (sw_mk (limit, windowMs, nat \<lfloor>S\<rfloor>))))))))))"

section \<open>The Redis form (SLIDING\_WINDOW\_LUA)\<close>

text \<open>
  The hash: field \<open>idx % slots\<close> holds the pair that the script writes as \<open>"<idx>:<count>"\<close>.
\<close>

type_synonym sw_hash = "int \<rightharpoonup> int \<times> num"

definition sw_lua_get :: "nat \<Rightarrow> sw_hash \<Rightarrow> int \<Rightarrow> num" where
  "sw_lua_get S h idx =
     (case h (idx mod int (S + 1)) of
        None \<Rightarrow> 0
      | Some (i, n) \<Rightarrow> if i \<noteq> idx then 0 else n)"

definition sliding_window_lua ::
  "num \<times> num \<Rightarrow> num \<Rightarrow> num \<Rightarrow> num \<Rightarrow> num \<Rightarrow> nat \<Rightarrow> sw_hash \<Rightarrow> lua_reply \<times> sw_hash \<times> num option" where
  "sliding_window_lua time argv windowMs limit cost S h =
     (let now = lua_now argv time;
          w = windowMs / real S;
          c = \<lfloor>now / w\<rfloor>;
          e0 = now - of_int c * w;
          elapsed = (if e0 < 0 then 0 else e0);
          w0 = (w - elapsed) / w;
          w1 = (if w0 < 0 then 0 else w0);
          weight = (if w1 > 1 then 1 else w1);
          full = sum_list (map (sw_lua_get S h) [c - int S + 1..c]);
          oldest = sw_lua_get S h (c - int S);
          estimate = full + oldest * weight;
          projected = estimate + cost;
          resetAt = js_ceil ((of_int c + 1) * w + windowMs)
      in if projected \<le> limit then
           (let cur = sw_lua_get S h c; r = js_floor (limit - projected)
            in ((1, limit, (if r < 0 then 0 else r), resetAt, 0),
                h(c mod int (S + 1) \<mapsto> (c, cur + cost)), Some (js_ceil (windowMs + w))))
         else
           (let D = projected - limit;
                retry = (if oldest > 0 \<and> D \<le> oldest * weight then js_ceil (D * w / oldest)
                         else js_ceil ((of_int c + 1) * w - now));
                r = js_floor (limit - estimate)
            in ((0, limit, (if r < 0 then 0 else r), resetAt, (if retry < 1 then 1 else retry)), h, None)))"

section \<open>Lemmas\<close>

definition sw_valid :: "num \<times> num \<times> nat \<Rightarrow> bool" where
  "sw_valid p = (case p of (limit, windowMs, S) \<Rightarrow> 0 < limit \<and> 0 < windowMs \<and> 1 \<le> S)"

definition sw_limit :: "num \<times> num \<times> nat \<Rightarrow> num" where "sw_limit p = fst p"
definition sw_buckets :: "num \<times> num \<times> nat \<Rightarrow> nat" where "sw_buckets p = snd (snd p)"
definition sw_width :: "num \<times> num \<times> nat \<Rightarrow> num" where "sw_width p = fst (snd p) / real (snd (snd p))"

text \<open>
  The invariant of a stored ring at time \<open>t\<close>: two arrays of \<open>S + 1\<close> slots, no tick in the future,
  non-negative counts, and no \<open>S\<close> consecutive ticks over the limit.
\<close>

definition sw_ok :: "num \<times> num \<times> nat \<Rightarrow> num \<Rightarrow> window_state \<Rightarrow> bool" where
  "sw_ok p t r \<longleftrightarrow>
     length (sw_i r) = sw_buckets p + 1 \<and> length (sw_n r) = sw_buckets p + 1 \<and>
     (\<forall>i\<in>set (sw_i r). i < 0 \<or> i \<le> sw_tick (sw_width p) t) \<and> (\<forall>n\<in>set (sw_n r). 0 \<le> n) \<and>
     (\<forall>m. sw_full (sw_buckets p) r m \<le> sw_limit p)"

definition sw_view :: "num \<times> num \<times> nat \<Rightarrow> window_state option \<Rightarrow> num \<Rightarrow> num list" where
  "sw_view p st t =
     (let c = sw_tick (sw_width p) t; S = sw_buckets p
      in map (sw_get S (sw_ring S st)) [c - int S..c])"

definition sw_peek_of :: "num \<times> num \<times> nat \<Rightarrow> window_state option \<Rightarrow> num \<Rightarrow> decision" where
  "sw_peek_of p = sw_peek (snd (snd p)) (fst p) (fst (snd p))"

lemma sw_ring_Some [simp]: "sw_ring S (Some r) = r"
  by (simp add: sw_ring_def)

lemma sw_mk_sel [simp]:
  "st_check (sw_mk p) = sw_check (sw_buckets p) (sw_limit p) (fst (snd p))"
  "st_limit (sw_mk p) = sw_limit p" "st_peek (sw_mk p) = Some (sw_peek_of p)"
  by (cases p; simp add: sw_mk_def sw_peek_of_def sw_limit_def sw_buckets_def)+

lemma sw_width_pos: "sw_valid p \<Longrightarrow> 0 < sw_width p"
  by (auto simp: sw_valid_def sw_width_def)

lemma sw_width_eq [simp]: "fst (snd p) / real (sw_buckets p) = sw_width p"
  by (simp add: sw_width_def sw_buckets_def)

lemma sw_tick_mono: "0 < w \<Longrightarrow> t \<le> t' \<Longrightarrow> sw_tick w t \<le> sw_tick w t'"
  by (simp add: sw_tick_def floor_mono divide_right_mono)

lemma sw_tick_bounds:
  assumes "0 < w"
  shows "of_int (sw_tick w t) * w \<le> t" "t < (of_int (sw_tick w t) + 1) * w"
  using window_start_le[OF assms, of t] window_start_gt[OF assms, of t]
  by (simp_all add: sw_tick_def js_floor_def distrib_right)

lemma sw_weight_eq:
  assumes "0 < w"
  shows "sw_weight w now = 1 - (now - of_int (sw_tick w now) * w) / w"
proof -
  let ?e = "now - of_int (sw_tick w now) * w"
  have "0 \<le> ?e" "?e < w" using sw_tick_bounds[OF assms, of now] by (auto simp: distrib_right)
  then have "0 \<le> (w - ?e) / w" "(w - ?e) / w \<le> 1" using assms by auto
  then show ?thesis using \<open>0 \<le> ?e\<close> assms by (simp add: sw_weight_def Let_def diff_divide_distrib)
qed

lemma sw_weight_bounds: "0 < w \<Longrightarrow> 0 \<le> sw_weight w now" "0 < w \<Longrightarrow> sw_weight w now \<le> 1"
  by (simp_all add: sw_weight_def Let_def)

lemma sw_get_neg [simp]: "idx < 0 \<Longrightarrow> sw_get S r idx = 0"
  by (simp add: sw_get_def)

lemma sw_get_empty [simp]: "sw_get S (sw_empty S) idx = 0"
  by (simp add: sw_get_def sw_empty_def Let_def del: replicate_Suc)

lemma sw_get_nonneg: "\<forall>n\<in>set (sw_n r). 0 \<le> n \<Longrightarrow> 0 \<le> sw_get S r idx"
  by (auto simp: sw_get_def Let_def)

lemma sw_get_future:
  assumes "\<forall>i\<in>set (sw_i r). i < 0 \<or> i \<le> c" "c < idx"
  shows "sw_get S r idx = 0"
proof (cases "idx < 0")
  case False
  then have "idx \<notin> set (sw_i r)" using assms by auto
  then have "q < length (sw_i r) \<Longrightarrow> sw_i r ! q \<noteq> idx" for q using nth_mem by metis
  then show ?thesis by (auto simp: sw_get_def Let_def)
qed simp

text \<open>Reading after a bump: the bumped tick grows, another tick of the same slot is forgotten.\<close>

lemma sw_get_bump:
  assumes len: "length (sw_i r) = S + 1" "length (sw_n r) = S + 1"
    and fut: "\<forall>i\<in>set (sw_i r). i < 0 \<or> i \<le> c"
  shows "sw_get S (sw_bump S r c cost) idx =
    (if idx < 0 then 0 else if idx = c then sw_get S r c + cost
     else if idx mod int (S + 1) = c mod int (S + 1) then 0
     else sw_get S r idx)"
proof (cases "idx < 0")
  case idx: False
  have r: "0 \<le> c mod int (S + 1)" "c mod int (S + 1) < int (S + 1)" by auto
  have lt: "nat (c mod int (S + 1)) < S + 1" using r by linarith
  have ri: "0 \<le> idx mod int (S + 1)" by auto
  have eq: "nat (idx mod int (S + 1)) = nat (c mod int (S + 1)) \<longleftrightarrow> idx mod int (S + 1) = c mod int (S + 1)"
    using r(1) ri by (simp add: eq_nat_nat_iff)
  show ?thesis
  proof (cases "c < 0 \<and> c mod int (S + 1) \<noteq> 0")
    case True
    then have "sw_get S r idx = 0" using sw_get_future[OF fut, of idx] idx by auto
    then show ?thesis using True idx by (simp add: sw_bump_def Let_def)
  next
    case False
    then show ?thesis using idx len lt eq
      by (cases "idx = c") (auto simp: sw_bump_def sw_get_def Let_def nth_list_update)
  qed
qed simp

lemma sw_bump_shape:
  "length (sw_i (sw_bump S r c cost)) = length (sw_i r)"
  "length (sw_n (sw_bump S r c cost)) = length (sw_n r)"
  by (auto simp: sw_bump_def Let_def)

lemma sw_bump_ticks:
  "i \<in> set (sw_i (sw_bump S r c cost)) \<Longrightarrow> i = c \<or> i \<in> set (sw_i r)"
  by (auto simp: sw_bump_def Let_def split: if_splits dest!: subsetD[OF set_update_subset_insert])

lemma sw_bump_counts:
  "\<forall>n\<in>set (sw_n r). 0 \<le> n \<Longrightarrow> 0 \<le> cost \<Longrightarrow> n \<in> set (sw_n (sw_bump S r c cost)) \<Longrightarrow> 0 \<le> n"
  by (auto simp: sw_bump_def Let_def split: if_splits dest!: subsetD[OF set_update_subset_insert])

text \<open>Sums of counts over a range of ticks.\<close>

definition sw_sum :: "nat \<Rightarrow> window_state \<Rightarrow> int \<Rightarrow> int \<Rightarrow> num" where
  "sw_sum S r a b = sum_list (map (sw_get S r) [a..b])"

lemma sw_full_sum: "sw_full S r c = sw_sum S r (c - int S + 1) c"
  by (simp add: sw_full_def sw_sum_def)

lemma sw_sum_eq_sum: "sw_sum S r a b = (\<Sum>i\<in>{a..b}. sw_get S r i)"
  by (simp add: sw_sum_def sum_list_distinct_conv_sum_set)

lemma sw_sum_mono:
  "\<forall>n\<in>set (sw_n r). 0 \<le> n \<Longrightarrow> a' \<le> a \<Longrightarrow> b \<le> b' \<Longrightarrow> sw_sum S r a b \<le> sw_sum S r a' b'"
  unfolding sw_sum_eq_sum by (rule sum_mono2) (auto intro: sw_get_nonneg)

lemma sw_sum_first: "a \<le> b \<Longrightarrow> sw_sum S r a b = sw_get S r a + sw_sum S r (a + 1) b"
  by (simp add: sw_sum_def upto_rec1)

lemma sw_sum_cut:
  assumes "\<forall>i\<in>set (sw_i r). i < 0 \<or> i \<le> c" "c \<le> b"
  shows "sw_sum S r a b = sw_sum S r a c"
proof -
  have "(\<Sum>i\<in>{a..b}. sw_get S r i) = (\<Sum>i\<in>{a..c}. sw_get S r i)"
    by (rule sum.mono_neutral_right) (use assms sw_get_future in auto)
  then show ?thesis by (simp add: sw_sum_eq_sum)
qed

lemma sw_sum_bump_le:
  assumes "length (sw_i r) = S + 1" "length (sw_n r) = S + 1"
    and "\<forall>i\<in>set (sw_i r). i < 0 \<or> i \<le> c" "0 \<le> cost" "\<forall>n\<in>set (sw_n r). 0 \<le> n"
  shows "sw_sum S (sw_bump S r c cost) a b \<le> sw_sum S r a b + (if a \<le> c \<and> c \<le> b then cost else 0)"
proof -
  have "(\<Sum>i\<in>{a..b}. sw_get S (sw_bump S r c cost) i)
      \<le> (\<Sum>i\<in>{a..b}. sw_get S r i + (if i = c then cost else 0))"
    using sw_get_nonneg[OF assms(5)] assms(4) by (intro sum_mono) (simp add: sw_get_bump[OF assms(1-3)])
  also have "\<dots> = (\<Sum>i\<in>{a..b}. sw_get S r i) + (if a \<le> c \<and> c \<le> b then cost else 0)"
    by (simp add: sum.distrib)
  finally show ?thesis by (simp add: sw_sum_eq_sum)
qed

lemma sw_estimate_ge_full:
  "0 < w \<Longrightarrow> \<forall>n\<in>set (sw_n r). 0 \<le> n \<Longrightarrow> sw_full S r (sw_tick w now) \<le> sw_estimate S w r now"
  by (simp add: sw_estimate_def Let_def sw_get_nonneg sw_weight_bounds)

lemma sw_full_nonneg: "\<forall>n\<in>set (sw_n r). 0 \<le> n \<Longrightarrow> 0 \<le> sw_full S r c"
  unfolding sw_full_sum sw_sum_eq_sum by (rule sum_nonneg) (simp add: sw_get_nonneg)

lemma sw_estimate_nonneg:
  "0 < w \<Longrightarrow> \<forall>n\<in>set (sw_n r). 0 \<le> n \<Longrightarrow> 0 \<le> sw_estimate S w r now"
  using sw_estimate_ge_full sw_full_nonneg order_trans by blast

text \<open>Without new admissions the estimate only decays.\<close>

lemma sw_estimate_antitone:
  assumes w: "0 < w" and n: "\<forall>n\<in>set (sw_n r). 0 \<le> n"
    and i: "\<forall>i\<in>set (sw_i r). i < 0 \<or> i \<le> sw_tick w t" and t: "t \<le> t'"
  shows "sw_estimate S w r t' \<le> sw_estimate S w r t"
proof (cases "sw_tick w t' = sw_tick w t")
  case True
  have "sw_weight w t' \<le> sw_weight w t" using True w t by (simp add: sw_weight_eq divide_right_mono)
  then show ?thesis using True sw_get_nonneg[OF n]
    by (auto simp: sw_estimate_def Let_def intro: mult_left_mono)
next
  case False
  let ?c = "sw_tick w t" and ?d = "sw_tick w t'"
  have lt: "?c < ?d" using False sw_tick_mono[OF w t] by simp
  have "sw_estimate S w r t' \<le> sw_full S r ?d + sw_get S r (?d - int S)"
    using sw_weight_bounds(2)[OF w, of t'] sw_get_nonneg[OF n]
    by (auto simp: sw_estimate_def Let_def intro: mult_left_le)
  also have "\<dots> = sw_sum S r (?d - int S) ?d"
    using sw_sum_first[of "?d - int S" ?d S r] by (simp add: sw_full_sum)
  also have "\<dots> \<le> sw_sum S r (?c - int S + 1) ?d" using lt by (intro sw_sum_mono n) auto
  also have "\<dots> = sw_full S r ?c" using sw_sum_cut[OF i, of ?d S] lt by (simp add: sw_full_sum)
  also have "\<dots> \<le> sw_estimate S w r t" by (rule sw_estimate_ge_full[OF w n])
  finally show ?thesis .
qed

lemma sw_check_allowed [simp]:
  "d_allowed (o_result (sw_check S l W st now c)) \<longleftrightarrow> sw_estimate S (W / real S) (sw_ring S st) now + c \<le> l"
  "o_persist (sw_check S l W st now c) \<longleftrightarrow> sw_estimate S (W / real S) (sw_ring S st) now + c \<le> l"
  by (auto simp: sw_check_def Let_def)

lemma sw_check_state:
  "sw_estimate S (W / real S) (sw_ring S st) now + c \<le> l \<Longrightarrow>
     o_state (sw_check S l W st now c) = Some (sw_bump S (sw_ring S st) (sw_tick (W / real S) now) c)"
  "\<not> sw_estimate S (W / real S) (sw_ring S st) now + c \<le> l \<Longrightarrow> o_state (sw_check S l W st now c) = st"
  by (auto simp: sw_check_def Let_def)

lemma sw_check_fields:
  "d_limit (o_result (sw_check S l W st now c)) = l"
  "0 \<le> d_remaining (o_result (sw_check S l W st now c))"
  "o_ttlMs (sw_check S l W st now c) = js_ceil (W + W / real S)"
  "sw_estimate S (W / real S) (sw_ring S st) now + c \<le> l \<Longrightarrow>
     d_retryAfterMs (o_result (sw_check S l W st now c)) = 0"
  "\<not> sw_estimate S (W / real S) (sw_ring S st) now + c \<le> l \<Longrightarrow>
     d_retryAfterMs (o_result (sw_check S l W st now c)) =
       sw_retry (W / real S) (sw_estimate S (W / real S) (sw_ring S st) now + c - l)
         (sw_get S (sw_ring S st) (sw_tick (W / real S) now - int S))
         (sw_weight (W / real S) now) (sw_tick (W / real S) now) now"
  by (auto simp: sw_check_def Let_def)

lemma sw_retry_ge_1: "1 \<le> sw_retry w D old wt c now"
  by (simp add: sw_retry_def Let_def)

lemma sw_ok_ring:
  assumes "sw_valid p" "opt_inv (sw_ok p) t st"
  shows "sw_ok p t (sw_ring (sw_buckets p) st)"
proof (cases st)
  case None
  have "sw_full (sw_buckets p) (sw_empty (sw_buckets p)) m = 0" for m
    by (simp add: sw_full_sum sw_sum_eq_sum)
  moreover have "\<forall>i\<in>set (sw_i (sw_empty n)). i < 0" "\<forall>i\<in>set (sw_n (sw_empty n)). i = 0"
    "length (sw_i (sw_empty n)) = n + 1" "length (sw_n (sw_empty n)) = n + 1" for n
    by (simp_all add: sw_empty_def)
  ultimately show ?thesis using None assms(1)
    by (fastforce simp: sw_ok_def sw_ring_def sw_limit_def sw_valid_def)
qed (use assms in \<open>simp add: sw_ring_def\<close>)

lemma sw_okD:
  assumes "sw_ok p t r"
  shows "length (sw_i r) = sw_buckets p + 1" "length (sw_n r) = sw_buckets p + 1"
    "\<forall>i\<in>set (sw_i r). i < 0 \<or> i \<le> sw_tick (sw_width p) t" "\<forall>n\<in>set (sw_n r). 0 \<le> n"
    "sw_full (sw_buckets p) r m \<le> sw_limit p"
  using assms by (auto simp: sw_ok_def)

text \<open>The heart: admitting below the estimate keeps every \<open>S\<close> consecutive ticks within the limit.\<close>

lemma sw_ok_bump:
  assumes v: "sw_valid p" and ok: "sw_ok p t r" and c: "0 < cost"
    and le: "sw_estimate (sw_buckets p) (sw_width p) r t + cost \<le> sw_limit p"
  shows "sw_ok p t (sw_bump (sw_buckets p) r (sw_tick (sw_width p) t) cost)"
proof -
  let ?c = "sw_tick (sw_width p) t" and ?S = "sw_buckets p"
  note w = sw_width_pos[OF v] and ok' = sw_okD[OF ok]
  have "sw_full ?S (sw_bump ?S r ?c cost) m \<le> sw_limit p" for m
  proof (cases "m - int ?S + 1 \<le> ?c \<and> ?c \<le> m")
    case True
    have "sw_full ?S (sw_bump ?S r ?c cost) m \<le> sw_sum ?S r (m - int ?S + 1) m + cost"
      using sw_sum_bump_le[OF ok'(1-3) _ ok'(4), of cost "m - int ?S + 1" m] True c
      by (simp add: sw_full_sum)
    also have "sw_sum ?S r (m - int ?S + 1) m = sw_sum ?S r (m - int ?S + 1) ?c"
      by (rule sw_sum_cut[OF ok'(3)]) (use True in simp)
    also have "\<dots> \<le> sw_full ?S r ?c" unfolding sw_full_sum using True by (intro sw_sum_mono ok'(4)) auto
    also have "\<dots> \<le> sw_estimate ?S (sw_width p) r t" by (rule sw_estimate_ge_full[OF w ok'(4)])
    finally show ?thesis using le by simp
  next
    case False
    then have "sw_full ?S (sw_bump ?S r ?c cost) m \<le> sw_full ?S r m"
      using sw_sum_bump_le[OF ok'(1-3) less_imp_le[OF c] ok'(4), of "m - int ?S + 1" m]
      unfolding sw_full_sum if_not_P[OF False] by simp
    then show ?thesis using ok'(5)[of m] by simp
  qed
  moreover have "\<forall>i\<in>set (sw_i (sw_bump ?S r ?c cost)). i < 0 \<or> i \<le> ?c"
    using ok'(3) sw_bump_ticks[of _ ?S r ?c cost] by blast
  moreover have "\<forall>n\<in>set (sw_n (sw_bump ?S r ?c cost)). 0 \<le> n"
    using sw_bump_counts[OF ok'(4) less_imp_le[OF c]] by blast
  ultimately show ?thesis using ok'(1,2) by (simp add: sw_ok_def sw_bump_shape)
qed

text \<open>After \<open>S + 1\<close> ticks nothing that was written is read again.\<close>

lemma sw_tick_after:
  assumes "0 < w" "now + (of_nat n + 1) * w \<le> t'"
  shows "sw_tick w now + int n + 1 \<le> sw_tick w t'"
proof -
  have "now / w + (of_nat n + 1) = (now + (of_nat n + 1) * w) / w"
    using assms(1) by (simp add: add_divide_distrib)
  also have "\<dots> \<le> t' / w" using assms by (simp add: divide_right_mono)
  finally show ?thesis unfolding sw_tick_def by linarith
qed

lemma sw_view_get:
  "sw_view p a t = sw_view p b t \<longleftrightarrow>
     (\<forall>idx. sw_tick (sw_width p) t - int (sw_buckets p) \<le> idx \<and> idx \<le> sw_tick (sw_width p) t \<longrightarrow>
       sw_get (sw_buckets p) (sw_ring (sw_buckets p) a) idx = sw_get (sw_buckets p) (sw_ring (sw_buckets p) b) idx)"
  by (auto simp: sw_view_def Let_def)

lemma sw_view_estimate:
  assumes "sw_view p a t = sw_view p b t"
  shows "sw_estimate (sw_buckets p) (sw_width p) (sw_ring (sw_buckets p) a) t =
           sw_estimate (sw_buckets p) (sw_width p) (sw_ring (sw_buckets p) b) t"
    and "sw_get (sw_buckets p) (sw_ring (sw_buckets p) a) (sw_tick (sw_width p) t - int (sw_buckets p)) =
           sw_get (sw_buckets p) (sw_ring (sw_buckets p) b) (sw_tick (sw_width p) t - int (sw_buckets p))"
  using assms[unfolded sw_view_get] by (auto simp: sw_estimate_def sw_full_def Let_def intro!: arg_cong[of _ _ sum_list])

lemma sw_window_eq: "sw_valid p \<Longrightarrow> fst (snd p) = real (sw_buckets p) * sw_width p"
  by (auto simp: sw_valid_def sw_width_def sw_buckets_def)

interpretation sw_c: introspective_strategy sw_mk sw_valid "\<lambda>_ _. True" sw_ok sw_view sw_peek_of
proof
  fix p :: "num \<times> num \<times> nat" assume v: "sw_valid p"
  let ?S = "sw_buckets p" and ?w = "sw_width p"
  note w = sw_width_pos[OF v]
  show "0 < d_retryAfterMs (o_result (st_check (sw_mk p) st now c))"
    if "\<not> d_allowed (o_result (st_check (sw_mk p) st now c))" for st now c
    using that sw_retry_ge_1 by (simp add: sw_check_fields less_le_trans[OF zero_less_one])
  show "0 < o_ttlMs (st_check (sw_mk p) st now c)" for st now c
    using w v by (simp add: sw_check_fields sw_valid_def split: prod.splits)
  show "sw_ok p t' s" if "sw_ok p t s" "t \<le> t'" for t s t'
    using that sw_tick_mono[OF w that(2)] by (fastforce simp: sw_ok_def)
  show "opt_inv (sw_ok p) now (o_state (st_check (sw_mk p) st now c))"
    if "0 < c" "opt_inv (sw_ok p) now st" "d_allowed (o_result (st_check (sw_mk p) st now c))" for st now c
    using that sw_ok_bump[OF v sw_ok_ring[OF v that(2)]] by (simp add: sw_check_state)
  show "sw_view p (o_state (st_check (sw_mk p) a now c)) t' = sw_view p (o_state (st_check (sw_mk p) b now c)) t'"
    if "opt_inv (sw_ok p) now a" "opt_inv (sw_ok p) now b" "sw_view p a now = sw_view p b now"
      "d_allowed (o_result (st_check (sw_mk p) a now c))" "now \<le> t'" for a b now c t'
  proof -
    let ?a = "sw_ring ?S a" and ?b = "sw_ring ?S b" and ?c = "sw_tick ?w now"
    note ok = sw_okD[OF sw_ok_ring[OF v that(1)]] sw_okD[OF sw_ok_ring[OF v that(2)]]
    have "sw_get ?S ?a idx = sw_get ?S ?b idx" if "sw_tick ?w t' - int ?S \<le> idx" for idx
      using \<open>sw_view p a now = sw_view p b now\<close>[unfolded sw_view_get] that sw_tick_mono[OF w \<open>now \<le> t'\<close>]
        sw_get_future[OF ok(3)] sw_get_future[OF ok(8)] by (cases "idx \<le> ?c") auto
    then show ?thesis
      using that(3,4) sw_view_estimate[OF that(3)] sw_tick_mono[OF w that(5)]
      by (auto simp: sw_check_state sw_view_get sw_get_bump[OF ok(1-3)] sw_get_bump[OF ok(6-8)])
  qed
  show "sw_view p (o_state (st_check (sw_mk p) a now c)) t' = sw_view p None t'"
    if "opt_inv (sw_ok p) now a" "0 < c" "d_allowed (o_result (st_check (sw_mk p) a now c))"
      "now + o_ttlMs (st_check (sw_mk p) a now c) \<le> t'" for a now c t'
  proof -
    have "now + (real ?S + 1) * ?w \<le> t'"
      using that(4) js_ceil_ge[of "fst (snd p) + ?w"]
      by (simp add: sw_check_fields distrib_right sw_window_eq[OF v, symmetric])
    then have t': "sw_tick ?w now + int ?S + 1 \<le> sw_tick ?w t'" by (rule sw_tick_after[OF w])
    have "sw_ok p now (sw_bump ?S (sw_ring ?S a) (sw_tick ?w now) c)"
      using that(3) sw_ok_bump[OF v sw_ok_ring[OF v that(1)] that(2)] by simp
    note f = sw_get_future[OF sw_okD(3)[OF this]]
    show ?thesis using that(3) t' f by (simp add: sw_check_state sw_view_get sw_ring_def[of _ None])
  qed
  show "o_result (st_check (sw_mk p) a now c) = o_result (st_check (sw_mk p) b now c)"
    if "sw_view p a now = sw_view p b now" for a b now c
    using sw_view_estimate[OF that] by (simp add: sw_check_def Let_def)
  show "sw_peek_of p a now = sw_peek_of p b now" if "sw_view p a now = sw_view p b now" for a b now
    using sw_view_estimate[OF that] by (simp add: sw_peek_of_def sw_peek_def Let_def sw_buckets_def sw_width_def)
  show "sw_peek_of p st now = o_result (st_check (sw_mk p) st now 1)"
    if "\<not> d_allowed (sw_peek_of p st now)" for st now
    using that by (simp add: sw_peek_of_def sw_peek_def sw_check_def Let_def if_less_max sw_limit_def sw_buckets_def max.commute
        split: if_splits)
qed (auto simp: sw_check_fields sw_check_state sw_peek_of_def sw_peek_def Let_def sw_limit_def sw_buckets_def)

interpretation sw_f: forecasting_strategy sw_mk sw_valid "\<lambda>_ _. True" sw_ok sw_view sw_peek_of
proof
  fix p :: "num \<times> num \<times> nat" and fc a b now c
  assume "st_forecast (sw_mk p) = Some fc" "sw_view p a now = sw_view p b now"
  then show "fc a now c = fc b now c"
    using sw_view_estimate[of p a now b]
    by (auto simp: sw_mk_def sw_forecast_def Let_def sw_buckets_def sw_width_def split: prod.splits)
qed (auto simp: sw_mk_def split: prod.splits)

lemma slidingWindow_factory:
  assumes "slidingWindow opts = Inr S"
  shows "\<exists>p. S = sw_mk p \<and> sw_valid p"
proof -
  obtain l w b where p: "0 < l" "0 < w" "1 \<le> (b::real)" "S = sw_mk (l, w, nat \<lfloor>b\<rfloor>)"
    using assms unfolding slidingWindow_def by (auto simp: result_simps Let_def)
  then have "1 \<le> nat \<lfloor>b\<rfloor>" by linarith
  then show ?thesis using p by (auto simp: sw_valid_def)
qed

section \<open>Correctness\<close>

lemma sw_full_bump_inside:
  assumes ok: "sw_ok p t r" and m: "m - int (sw_buckets p) < sw_tick (sw_width p) t" "sw_tick (sw_width p) t \<le> m"
    and c0: "0 \<le> sw_tick (sw_width p) t"
  shows "sw_full (sw_buckets p) (sw_bump (sw_buckets p) r (sw_tick (sw_width p) t) cost) m =
    sw_full (sw_buckets p) r m + cost"
proof -
  let ?c = "sw_tick (sw_width p) t" and ?S = "sw_buckets p"
  have g: "sw_get ?S (sw_bump ?S r ?c cost) i = sw_get ?S r i + (if i = ?c then cost else 0)"
    if "i \<in> {m - int ?S + 1..m}" for i
  proof -
    have "i mod int (?S + 1) = ?c mod int (?S + 1) \<Longrightarrow> i = ?c"
    proof -
      assume "i mod int (?S + 1) = ?c mod int (?S + 1)"
      then have "int (?S + 1) dvd (i - ?c)" by (simp add: mod_eq_dvd_iff)
      moreover have "\<bar>i - ?c\<bar> < int (?S + 1)" using that m by auto
      ultimately show "i = ?c" using zdvd_imp_le[of "int (?S + 1)" "\<bar>i - ?c\<bar>"] by fastforce
    qed
    then show ?thesis using c0 by (auto simp: sw_get_bump[OF sw_okD(1-3)[OF ok]])
  qed
  have "(\<Sum>i\<in>{m - int ?S + 1..m}. sw_get ?S (sw_bump ?S r ?c cost) i)
      = (\<Sum>i\<in>{m - int ?S + 1..m}. sw_get ?S r i + (if i = ?c then cost else 0))"
    by (rule sum.cong[OF refl g])
  also have "\<dots> = sw_full ?S r m + cost" using m by (simp add: sum.distrib sw_full_sum sw_sum_eq_sum)
  finally show ?thesis by (simp add: sw_full_sum sw_sum_eq_sum)
qed

lemma sw_full_future:
  "\<forall>i\<in>set (sw_i r). i < 0 \<or> i \<le> c \<Longrightarrow> c \<le> m - int S \<Longrightarrow> sw_full S r m = 0"
  unfolding sw_full_sum sw_sum_eq_sum by (rule sum.neutral) (auto intro: sw_get_future)

text \<open>What the ticks up to \<open>m\<close> have admitted so far plus what the rest of a run admits there.\<close>

lemma sw_ticks_invariant:
  fixes m :: int
  assumes v: "sw_valid p"
  defines "P \<equiv> \<lambda>x. m - int (sw_buckets p) < sw_tick (sw_width p) x \<and> sw_tick (sw_width p) x \<le> m"
  shows "0 \<le> t \<Longrightarrow> opt_inv (sw_ok p) t st \<Longrightarrow> monotone_from t rs \<Longrightarrow>
    admitted_where P rs (run_strategy (sw_mk p) st rs)
      \<le> sw_limit p - sw_full (sw_buckets p) (sw_ring (sw_buckets p) st) m"
proof (induction rs arbitrary: t st)
  case Nil
  then show ?case using sw_okD(5)[OF sw_ok_ring[OF v Nil(2)]] by simp
next
  case (Cons r rs)
  obtain now c where r: "r = (now, c)" by (cases r)
  with Cons.prems have t: "t \<le> now" "0 < c" "monotone_from now rs" "0 \<le> now" by auto
  note w = sw_width_pos[OF v]
  let ?S = "sw_buckets p" and ?w = "sw_width p"
  let ?out = "st_check (sw_mk p) st now c"
  let ?st = "next_state st ?out"
  have inv: "opt_inv (sw_ok p) now st" using sw_c.opt_inv_mono[OF v Cons.prems(2) t(1)] .
  note ok = sw_ok_ring[OF v inv] and inv' = sw_c.next_state_inv[OF v TrueI t(2) inv]
  note ok' = sw_ok_ring[OF v inv']
  have IH: "admitted_where P rs (run_strategy (sw_mk p) ?st rs) \<le> sw_limit p - sw_full ?S (sw_ring ?S ?st) m"
    using Cons.IH[OF t(4) inv' t(3)] .
  consider (past) "sw_tick ?w now \<le> m - int ?S" | (cur) "P now" | (over) "m < sw_tick ?w now"
    unfolding P_def by linarith
  then show ?case
  proof cases
    case past
    then have "sw_full ?S (sw_ring ?S st) m = 0" "sw_full ?S (sw_ring ?S ?st) m = 0"
      using sw_full_future[OF sw_okD(3)[OF ok]] sw_full_future[OF sw_okD(3)[OF ok']] by auto
    then show ?thesis using IH past by (simp add: r P_def Let_def)
  next
    case cur
    have "0 \<le> sw_tick ?w now" unfolding sw_tick_def using t(4) w by simp
    then have "sw_full ?S (sw_bump ?S (sw_ring ?S st) (sw_tick ?w now) c) m = sw_full ?S (sw_ring ?S st) m + c"
      using sw_full_bump_inside[OF ok] cur by (simp add: P_def)
    then show ?thesis using IH cur
      by (cases "d_allowed (o_result ?out)")
         (auto simp: r Let_def next_state_def sw_check_state)
  next
    case over
    have "\<forall>q\<in>set rs. \<not> P (fst q)"
    proof
      fix q assume "q \<in> set rs"
      then have "sw_tick ?w now \<le> sw_tick ?w (fst q)" using monotone_from_ge[OF t(3)] sw_tick_mono[OF w] by blast
      then show "\<not> P (fst q)" using over by (simp add: P_def)
    qed
    then have "admitted_where P rs (run_strategy (sw_mk p) ?st rs) = 0" by (rule admitted_where_none)
    moreover have "sw_full ?S (sw_ring ?S st) m \<le> sw_limit p" by (rule sw_okD(5)[OF ok])
    ultimately show ?thesis using over by (simp add: r P_def Let_def)
  qed
qed

text \<open>Stretches of time in ticks.\<close>

lemma sw_tick_ge_iff: "0 < w \<Longrightarrow> k \<le> sw_tick w x \<longleftrightarrow> of_int k * w \<le> x"
  by (simp add: sw_tick_def le_floor_iff pos_le_divide_eq)

lemma sw_tick_less_iff: "0 < w \<Longrightarrow> sw_tick w x < k \<longleftrightarrow> x < of_int k * w"
  by (simp add: sw_tick_def floor_less_iff pos_divide_less_eq)

lemma sw_stretch:
  assumes w: "0 < w" and x: "a \<le> x" "x < a + of_nat n * w"
  shows "sw_tick w a \<le> sw_tick w x \<and> sw_tick w x \<le> sw_tick w a + int n"
proof -
  have "x < (of_int (sw_tick w a) + 1) * w + of_nat n * w" using sw_tick_bounds(2)[OF w, of a] x by simp
  then have "x < of_int (sw_tick w a + int n + 1) * w" by (simp add: algebra_simps)
  then have "sw_tick w x < sw_tick w a + int n + 1" unfolding sw_tick_less_iff[OF w] .
  then show ?thesis using sw_tick_mono[OF w x(1)] by simp
qed

lemma admitted_where_mono:
  "monotone_from t rs \<Longrightarrow> (\<And>x. P x \<Longrightarrow> Q x) \<Longrightarrow> admitted_where P rs ds \<le> admitted_where Q rs ds"
  using admitted_where_split[of t rs P Q "\<lambda>_. False" ds] admitted_where_none[of rs "\<lambda>_. False" ds] by auto

text \<open>
  C6. The sub-bucketed counter never admits more than \<open>limit\<close> in a window of \<open>windowMs\<close> that is
  aligned to its sub-buckets, nor in any stretch shorter by one sub-bucket wherever it starts; and
  any stretch of one whole window admits at most twice the limit. From a cold start, for every sequence
  of requests whose clock starts at the epoch or later and does not run backwards.
\<close>

theorem sliding_window_bound:
  assumes "sw_valid (limit, windowMs, S)" and "0 \<le> t" "monotone_from t rs"
  shows "admitted_where (\<lambda>x. of_int k * (windowMs / S) \<le> x \<and> x < of_int k * (windowMs / S) + windowMs) rs
           (run_strategy (sw_mk (limit, windowMs, S)) None rs) \<le> limit \<and>
         admitted_where (\<lambda>x. a \<le> x \<and> x < a + (windowMs - windowMs / S)) rs
           (run_strategy (sw_mk (limit, windowMs, S)) None rs) \<le> limit \<and>
         admitted_where (\<lambda>x. a \<le> x \<and> x < a + windowMs) rs
           (run_strategy (sw_mk (limit, windowMs, S)) None rs) \<le> 2 * limit"
proof -
  let ?w = "windowMs / S" and ?ds = "run_strategy (sw_mk (limit, windowMs, S)) None rs"
  let ?P = "\<lambda>m x. m - int S < sw_tick ?w x \<and> sw_tick ?w x \<le> m"
  have p: "sw_buckets (limit, windowMs, S) = S" "sw_limit (limit, windowMs, S) = limit"
    "sw_width (limit, windowMs, S) = ?w"
    by (simp_all add: sw_buckets_def sw_limit_def sw_width_def)
  have w: "0 < ?w" "1 \<le> S" and W: "windowMs = of_nat S * ?w"
    using assms(1) by (auto simp: sw_valid_def)
  have bound: "admitted_where (?P m) rs ?ds \<le> limit" for m
    using sw_ticks_invariant[OF assms(1,2) _ assms(3), of None m, unfolded p]
      sw_full_nonneg[of "sw_empty S" S m] by (simp add: sw_ring_def sw_empty_def del: replicate_Suc)
  have sub: "admitted_where Q rs ?ds \<le> limit" if "\<And>x. Q x \<Longrightarrow> ?P m x" for Q m
    using admitted_where_mono[OF assms(3), of Q "?P m" ?ds] that bound[of m] by (meson order_trans)
  have "admitted_where (\<lambda>x. of_int k * ?w \<le> x \<and> x < of_int k * ?w + windowMs) rs ?ds \<le> limit"
  proof (rule sub[of _ "k + int S - 1"])
    fix x assume x: "of_int k * ?w \<le> x \<and> x < of_int k * ?w + windowMs"
    have "of_int k * ?w + windowMs = of_int (k + int S) * ?w"
      using W by (metis distrib_right of_int_add of_int_of_nat_eq)
    then have "k \<le> sw_tick ?w x" "sw_tick ?w x < k + int S"
      unfolding sw_tick_ge_iff[OF w(1)] sw_tick_less_iff[OF w(1)] using x by auto
    then show "?P (k + int S - 1) x" by auto
  qed
  moreover have "admitted_where (\<lambda>x. a \<le> x \<and> x < a + (windowMs - ?w)) rs ?ds \<le> limit"
  proof (rule sub[of _ "sw_tick ?w a + int S - 1"])
    fix x assume x: "a \<le> x \<and> x < a + (windowMs - ?w)"
    have "of_nat (S - 1) * ?w = of_nat S * ?w - 1 * ?w"
      by (simp only: of_nat_diff[OF w(2)] of_nat_1 left_diff_distrib)
    then have "windowMs - ?w = of_nat (S - 1) * ?w" using W by linarith
    then have "sw_tick ?w a \<le> sw_tick ?w x \<and> sw_tick ?w x \<le> sw_tick ?w a + int (S - 1)"
      using sw_stretch[OF w(1), of a x "S - 1"] x by simp
    then show "?P (sw_tick ?w a + int S - 1) x" using w(2) by auto
  qed
  moreover have "admitted_where (\<lambda>x. a \<le> x \<and> x < a + windowMs) rs ?ds
      \<le> admitted_where (?P (sw_tick ?w a + int S - 1)) rs ?ds + admitted_where (?P (sw_tick ?w a + int S)) rs ?ds"
  proof (rule admitted_where_split[OF assms(3)])
    fix r assume "a \<le> fst r \<and> fst r < a + windowMs"
    then have "sw_tick ?w a \<le> sw_tick ?w (fst r) \<and> sw_tick ?w (fst r) \<le> sw_tick ?w a + int S"
      using sw_stretch[OF w(1), of a "fst r" S] W by simp
    then show "?P (sw_tick ?w a + int S - 1) (fst r) \<or> ?P (sw_tick ?w a + int S) (fst r)" using w(2) by auto
  qed
  ultimately show ?thesis using bound[of "sw_tick ?w a + int S - 1"] bound[of "sw_tick ?w a + int S"] by simp
qed

theorem sliding_window_bound_witness:
  "admitted_where (\<lambda>x. of_int 0 * (1000 / real 10) \<le> x \<and> x < of_int 0 * (1000 / real 10) + 1000)
     [(0, 1), (150, 1), (250, 1)] (run_strategy (sw_mk (2, 1000, 10)) None [(0, 1), (150, 1), (250, 1)]) \<le> 2"
  using sliding_window_bound[of 2 1000 10 0 "[(0, 1), (150, 1), (250, 1)]" 0 0] by (simp add: sw_valid_def)

text \<open>
  The retry time a denial computes from the weighted slot is sufficient: if nothing else is
  admitted meanwhile, the same request is admitted at any time from \<open>now + retryAfterMs\<close> on. (The
  other branch of the code is documented as an advisory approximation.)
\<close>

theorem sliding_window_retry_sufficient:
  assumes "sw_valid (limit, windowMs, S)" "opt_inv (sw_ok (limit, windowMs, S)) now st" "0 < cost"
    and "w = windowMs / S" "oldest = sw_get S (sw_ring S st) (sw_tick w now - int S)"
    and "D = sw_estimate S w (sw_ring S st) now + cost - limit"
    and "0 < D" "0 < oldest" "D \<le> oldest * sw_weight w now"
    and "now + d_retryAfterMs (o_result (sw_check S limit windowMs st now cost)) \<le> t'"
  shows "\<not> d_allowed (o_result (sw_check S limit windowMs st now cost)) \<and>
         d_allowed (o_result (sw_check S limit windowMs st t' cost))"
proof -
  let ?p = "(limit, windowMs, S)" and ?r = "sw_ring S st" and ?c = "sw_tick w now"
  have p: "sw_buckets ?p = S" "sw_limit ?p = limit" "sw_width ?p = w"
    by (simp_all add: sw_buckets_def sw_limit_def sw_width_def assms(4))
  have w: "0 < w" using sw_width_pos[OF assms(1)] p by simp
  note ok = sw_okD[OF sw_ok_ring[OF assms(1,2)], unfolded p]
  let ?s = "now + D * w / oldest"
  have st: "?s \<le> t'"
    using assms(6-10) js_ceil_ge[of "D * w / oldest"] by (simp add: assms(4)[symmetric] assms(5)[symmetric] sw_check_fields sw_retry_def Let_def split: if_splits)
  have elapsed: "now - of_int ?c * w = w - sw_weight w now * w"
    using w by (simp add: sw_weight_eq left_diff_distrib diff_divide_distrib)
  have est: "sw_estimate S w ?r ?s \<le> limit - cost"
  proof -
    have "D * w / oldest \<le> sw_weight w now * w"
      using assms(8,9) w by (simp add: pos_divide_le_eq mult.commute mult.left_commute)
    then have "?s \<le> (of_int ?c + 1) * w" using elapsed by (simp add: distrib_right)
    moreover have "now \<le> ?s" using assms(7,8) w by simp
    ultimately consider (same) "sw_tick w ?s = ?c" | (edge) "?s = (of_int ?c + 1) * w"
      using sw_tick_mono[OF w, of now ?s] sw_tick_less_iff[OF w, of ?s "?c + 1"] by fastforce
    then show ?thesis
    proof cases
      case same
      have "oldest * sw_weight w ?s = oldest * sw_weight w now - D"
        using same w assms(8) by (simp add: sw_weight_eq field_simps)
      then show ?thesis using same assms(5,6) by (simp add: sw_estimate_def Let_def)
    next
      case edge
      then have tick: "sw_tick w ?s = ?c + 1" using w by (simp add: sw_tick_def)
      have "D * w / oldest = sw_weight w now * w" using edge elapsed by (simp add: distrib_right)
      then have D: "D = oldest * sw_weight w now"
        using w assms(8) by (simp add: nonzero_divide_eq_eq ac_simps)
      have "sw_estimate S w ?r ?s \<le> sw_full S ?r (?c + 1) + sw_get S ?r (?c + 1 - int S)"
        using sw_weight_bounds(2)[OF w, of ?s] sw_get_nonneg[OF ok(4)]
        by (auto simp: sw_estimate_def Let_def tick intro: mult_left_le)
      also have "\<dots> = sw_sum S ?r (?c - int S + 1) (?c + 1)"
        using sw_sum_first[of "?c - int S + 1" "?c + 1" S ?r] by (simp add: sw_full_sum algebra_simps)
      also have "\<dots> = sw_full S ?r ?c" unfolding sw_full_sum by (rule sw_sum_cut[OF ok(3)]) simp
      also have "\<dots> = limit - cost" 
        using D assms(6) unfolding sw_estimate_def Let_def assms(5)[symmetric] by linarith
      finally show ?thesis .
    qed
  qed
  have "now \<le> ?s" using assms(7,8) w by simp
  then have "?c \<le> sw_tick w ?s" by (rule sw_tick_mono[OF w])
  with ok(3) have "\<forall>i\<in>set (sw_i ?r). i < 0 \<or> i \<le> sw_tick w ?s" by (meson order_trans)
  then have "sw_estimate S w ?r t' \<le> sw_estimate S w ?r ?s" by (rule sw_estimate_antitone[OF w ok(4) _ st])
  then have "sw_estimate S w ?r t' + cost \<le> limit" using est by linarith
  moreover have "\<not> sw_estimate S w ?r now + cost \<le> limit" using assms(6,7) by linarith
  ultimately show ?thesis unfolding sw_check_allowed assms(4)[symmetric] by blast
qed

theorem sliding_window_retry_sufficient_witness:
  "d_allowed (o_result (sw_check 1 2 1000 (Some \<lparr>sw_i = [0, 1], sw_n = [2, 1]\<rparr>) 2000 1))"
proof -
  let ?st = "Some \<lparr>sw_i = [0::int, 1], sw_n = [2::real, 1]\<rparr>" and ?p = "(2::real, 1000::real, 1::nat)"
  have t: "sw_tick 1000 1000 = 1" "sw_weight 1000 1000 = 1"
    by (simp_all add: sw_tick_def sw_weight_def Let_def)
  have full: "sw_full 1 \<lparr>sw_i = [0, 1], sw_n = [2, 1]\<rparr> m \<le> 2" for m
  proof -
    have "m mod 2 = 0 \<or> m mod 2 = 1" by presburger
    then have "nat (m mod 2) = 0 \<or> nat (m mod 2) = 1" by auto
    then show ?thesis by (auto simp: sw_full_def sw_get_def Let_def)
  qed
  have e: "sw_estimate 1 1000 (sw_ring 1 ?st) 1000 = 3"
    by (simp add: sw_estimate_def sw_full_def t Let_def sw_get_def)
  have g: "sw_get 1 (sw_ring 1 ?st) 0 = 2" by (simp add: sw_get_def Let_def)
  have ok: "opt_inv (sw_ok ?p) 1000 ?st"
    using full by (simp add: sw_ok_def sw_buckets_def sw_limit_def sw_width_def t)
  have "d_retryAfterMs (o_result (sw_check 1 2 1000 ?st 1000 1)) = sw_retry 1000 2 2 1 1 1000"
    by (simp add: sw_check_fields e[simplified] t g[simplified])
  also have "\<dots> = 1000" by (simp add: sw_retry_def Let_def)
  finally have ra: "d_retryAfterMs (o_result (sw_check 1 2 1000 ?st 1000 1)) = 1000" .
  show ?thesis
    using sliding_window_retry_sufficient[of 2 1000 1 1000 ?st 1 1000 2 2 2000] ok
    by (simp add: sw_valid_def t e[simplified] g[simplified] ra[simplified])
qed

definition sw_hash_of :: "nat \<Rightarrow> window_state option \<Rightarrow> sw_hash" where
  "sw_hash_of S st =
     (case st of None \<Rightarrow> Map.empty
      | Some r \<Rightarrow> (\<lambda>q. if 0 \<le> q \<and> q \<le> int S \<and> 0 \<le> sw_i r ! nat q
                     then Some (sw_i r ! nat q, sw_n r ! nat q) else None))"

lemma sw_lua_get_eq:
  assumes "opt_inv (\<lambda>_ r. length (sw_i r) = S + 1 \<and> length (sw_n r) = S + 1) 0 st"
  shows "sw_lua_get S (sw_hash_of S st) idx = sw_get S (sw_ring S st) idx"
proof (cases st)
  case None
  then show ?thesis by (simp add: sw_hash_of_def sw_lua_get_def sw_ring_def)
next
  case (Some r)
  have "nat (idx mod int (S + 1)) < S + 1" "idx mod int (S + 1) \<le> int S" "0 \<le> idx mod int (S + 1)"
    using pos_mod_bound[of "int (S + 1)" idx] pos_mod_sign[of "int (S + 1)" idx] by linarith+
  then show ?thesis using Some assms
    by (auto simp: sw_hash_of_def sw_lua_get_def sw_ring_def sw_get_def Let_def)
qed

lemma sw_lua_set_eq:
  assumes len: "opt_inv (\<lambda>_ r. length (sw_i r) = S + 1 \<and> length (sw_n r) = S + 1) 0 st" and c: "0 \<le> c"
  shows "(sw_hash_of S st)(c mod int (S + 1) \<mapsto> (c, sw_get S (sw_ring S st) c + cost)) =
    sw_hash_of S (Some (sw_bump S (sw_ring S st) c cost))"
proof
  fix q
  let ?r = "sw_ring S st" and ?b = "sw_bump S (sw_ring S st) c cost"
  have len': "length (sw_i ?r) = S + 1" "length (sw_n ?r) = S + 1"
    using len by (cases st; simp add: sw_ring_def sw_empty_def)+
  have m: "0 \<le> c mod int (S + 1)" "c mod int (S + 1) \<le> int S" "nat (c mod int (S + 1)) < S + 1"
    using pos_mod_bound[of "int (S + 1)" c] pos_mod_sign[of "int (S + 1)" c] by linarith+
  have cur: "sw_i ?b = (sw_i ?r)[nat (c mod int (S + 1)) := c]"
    "sw_n ?b = (sw_n ?r)[nat (c mod int (S + 1)) := sw_get S ?r c + cost]"
    using c by (auto simp: sw_bump_def sw_get_def Let_def)
  show "((sw_hash_of S st)(c mod int (S + 1) \<mapsto> (c, sw_get S ?r c + cost))) q =
    sw_hash_of S (Some ?b) q"
  proof (cases "q = c mod int (S + 1)")
    case True
    then show ?thesis using m c len' by (simp add: sw_hash_of_def cur)
  next
    case False
    have "sw_hash_of S st q = sw_hash_of S (Some ?r) q"
      by (cases st) (auto simp: sw_hash_of_def sw_ring_def sw_empty_def nth_Cons' simp del: replicate_Suc)
    moreover have "0 \<le> q \<Longrightarrow> nat q \<noteq> nat (c mod int (S + 1))" using False m(1) by (simp add: eq_nat_nat_iff)
    ultimately show ?thesis using False by (auto simp: sw_hash_of_def cur)
  qed
qed

text \<open>
  Equivalence with \<open>SLIDING_WINDOW_LUA\<close>: for a whole-number limit and a clock at or after the
  epoch, the decoded reply of the script is the decision of \<open>check\<close>; when \<open>check\<close> persists, the
  hash after the script is the hash form of the new ring and the TTL is the same, and a denial leaves
  the hash alone.
\<close>

theorem sliding_window_lua_equiv:
  assumes "sw_valid (limit, windowMs, S)" "limit \<in> \<int>" "0 \<le> lua_now argv time"
    and "opt_inv (\<lambda>_ r. length (sw_i r) = S + 1 \<and> length (sw_n r) = S + 1) 0 st"
  shows "let out = st_check (sw_mk (limit, windowMs, S)) st (lua_now argv time) cost;
             lua = sliding_window_lua time argv windowMs limit cost S (sw_hash_of S st)
         in decodeDecision (redis_reply (fst lua)) = o_result out \<and>
            fst (snd lua) = sw_hash_of S (o_state out) \<and>
            snd (snd lua) = (if o_persist out then Some (o_ttlMs out) else None)"
proof -
  let ?now = "lua_now argv time"
  have p: "sw_buckets (limit, windowMs, S) = S" "sw_limit (limit, windowMs, S) = limit"
    by (simp_all add: sw_buckets_def sw_limit_def)
  have w: "0 < windowMs / S" using assms(1) by (simp add: sw_valid_def)
  then have c: "0 \<le> sw_tick (windowMs / S) ?now" unfolding sw_tick_ge_iff[OF w] using assms(3) by simp
  have "sw_weight (windowMs / S) ?now = (let c = sw_tick (windowMs / S) ?now; e0 = ?now - of_int c * (windowMs / S);
      elapsed = (if e0 < 0 then 0 else e0); w0 = (windowMs / S - elapsed) / (windowMs / S);
      w1 = (if w0 < 0 then 0 else w0) in if w1 > 1 then 1 else w1)"
    by (simp only: sw_weight_def)
  note weight = this[unfolded Let_def, symmetric]
  show ?thesis
    unfolding sliding_window_lua_def Let_def sw_tick_def[symmetric] weight
      sw_lua_get_eq[OF assms(4)] sw_lua_set_eq[OF assms(4) c] sw_full_def[symmetric]
    unfolding sw_mk_sel p fst_conv snd_conv sw_check_def sw_estimate_def sw_retry_def Let_def
    using assms(2) by (simp add: decodeDecision_def redis_reply_def)
qed

theorem sliding_window_lua_equiv_witness:
  "fst (snd (sliding_window_lua (0, 0) 1500 1000 2 1 10 Map.empty))
     = sw_hash_of 10 (o_state (st_check (sw_mk (2, 1000, 10)) None 1500 1))"
  using sliding_window_lua_equiv[of 2 1000 10 1500 "(0, 0)" None 1]
  by (simp add: lua_now_def Let_def sw_valid_def sw_hash_of_def[of _ None])

end
