(* ===== verification/LeakyBucket.thy ===== *)
theory LeakyBucket
  imports Contract
begin

text \<open>
  \<open>src/algorithms/leaky-bucket.ts\<close>: the shaper. Its only state is the next-departure time of a key;
  a request is given a slot at that time, or refused when it would wait longer than \<open>maxQueueMs\<close>.
  The lemmas: the pacing of the accepted requests, the sufficiency of the retry hint, that expiring
  the state at its TTL changes nothing, the chunked sleep, and the equivalence with the script.
\<close>

section \<open>The transform\<close>

record reservation =
  r_accepted :: bool
  r_delayMs :: num

text \<open>
  \<open>makeTransform(now, cost)\<close> and the reused \<open>syncTransform\<close>, which read the pacing interval \<open>T\<close> and
  \<open>maxQueueMs\<close> of the closure.
\<close>

definition leaky_transform ::
  "num \<Rightarrow> num \<Rightarrow> num \<Rightarrow> num \<Rightarrow> num option \<Rightarrow> (num, reservation) apply_outcome" where
  "leaky_transform T maxQueueMs now cost state =
     (let inc = T * cost;
          stored = (case state of Some s \<Rightarrow> s | None \<Rightarrow> now);
          departure = (if stored > now then stored else now);
          delay = departure - now
      in if delay > maxQueueMs then
           \<lparr>o_state = state,
            o_result = \<lparr>r_accepted = False, r_delayMs = js_ceil (delay - maxQueueMs)\<rparr>,
            o_ttlMs = maxQueueMs, o_persist = False\<rparr>
         else
           (let newDeparture = departure + inc
            in \<lparr>o_state = Some newDeparture,
                o_result = \<lparr>r_accepted = True, r_delayMs = js_ceil delay\<rparr>,
                o_ttlMs = max 1 (js_ceil (newDeparture - now)), o_persist = True\<rparr>))"

record leaky_options =
  lo_ratePerSec :: js_number
  lo_maxQueueMs :: js_number

text \<open>The validated parameters \<open>(T, maxQueueMs)\<close> of \<open>leakyBucket(options)\<close>.\<close>

definition leakyBucket :: "leaky_options \<Rightarrow> (num \<times> num) result" where
  "leakyBucket opts =
     rbind (requirePositive ''leakyBucket.ratePerSec'' (lo_ratePerSec opts)) (\<lambda>rate.
     rbind (requireAtLeast ''leakyBucket.maxQueueMs'' (lo_maxQueueMs opts) 0) (\<lambda>maxQueueMs.
     rbind (requireAtMost ''leakyBucket: 1000/ratePerSec'' (js_of_real (1000 / rate)) max_safe_integer) (\<lambda>T.
       Inr (T, maxQueueMs))))"

text \<open>\<open>reserve\<close> over one cell of the store: the cost is validated, then the transform applied.\<close>

definition leaky_reserve ::
  "num \<times> num \<Rightarrow> num cell \<Rightarrow> num \<Rightarrow> js_number \<Rightarrow> (reservation \<times> num cell) result" where
  "leaky_reserve p cl now cost =
     rbind (requireCost cost) (\<lambda>c.
       let out = leaky_transform (fst p) (snd p) now c (live_cell cl now)
       in Inr (o_result out, next_cell cl now out))"

text \<open>
  \<open>schedule\<close> rejects with \<open>QueueFullError\<close> or sleeps \<open>delayMs\<close>; the value is the time it sleeps. The
  \<open>setTimeout\<close> calls of \<open>sleep\<close> are the list of the delays it arms one after the other.
\<close>

definition leaky_schedule ::
  "num \<times> num \<Rightarrow> num cell \<Rightarrow> num \<Rightarrow> js_number \<Rightarrow> num cell \<times> num result" where
  "leaky_schedule p cl now cost =
     (case leaky_reserve p cl now cost of
        Inl e \<Rightarrow> (cl, Inl e)
      | Inr (r, cl') \<Rightarrow>
          (cl', if \<not> r_accepted r then Inl (QueueFullError (r_delayMs r)) else Inr (r_delayMs r)))"

definition MAX_TIMEOUT_MS :: num where
  "MAX_TIMEOUT_MS = 2147483647"

function sleep_slices :: "num \<Rightarrow> num list" where
  "sleep_slices ms =
     (if ms \<le> 0 then []
      else if ms \<le> MAX_TIMEOUT_MS then [ms]
      else (let slice = min ms MAX_TIMEOUT_MS; remaining = ms - slice
            in slice # sleep_slices remaining))"
  by pat_completeness auto
termination
proof (relation "measure (\<lambda>ms. nat \<lceil>ms / MAX_TIMEOUT_MS\<rceil>)")
  fix ms slice remaining :: num
  assume "\<not> ms \<le> MAX_TIMEOUT_MS" "slice = min ms MAX_TIMEOUT_MS" "remaining = ms - slice"
  then have "remaining / MAX_TIMEOUT_MS = ms / MAX_TIMEOUT_MS - 1" "1 < ms / MAX_TIMEOUT_MS"
    by (simp_all add: MAX_TIMEOUT_MS_def diff_divide_distrib)
  then have "\<lceil>remaining / MAX_TIMEOUT_MS\<rceil> = \<lceil>ms / MAX_TIMEOUT_MS\<rceil> - 1" "1 < \<lceil>ms / MAX_TIMEOUT_MS\<rceil>"
    by linarith+
  then show "(remaining, ms) \<in> measure (\<lambda>ms. nat \<lceil>ms / MAX_TIMEOUT_MS\<rceil>)" by simp
qed simp

declare sleep_slices.simps [simp del]

section \<open>The Redis form (LEAKY\_LUA)\<close>

definition leaky_lua ::
  "num \<times> num \<Rightarrow> num \<Rightarrow> num \<Rightarrow> num \<Rightarrow> num \<Rightarrow> num option \<Rightarrow> (num \<times> num) \<times> (num \<times> num) option" where
  "leaky_lua time argv ratePerSec maxQueueMs cost stored =
     (let now = lua_now argv time;
          T = 1000 / ratePerSec;
          inc = T * cost;
          d0 = (case stored of Some d \<Rightarrow> d | None \<Rightarrow> now);
          departure = (if d0 < now then now else d0);
          delay = departure - now
      in if delay > maxQueueMs then ((0, js_ceil (delay - maxQueueMs)), None)
         else
           (let new_departure = departure + inc;
                px = js_ceil (new_departure - now)
            in ((1, js_ceil delay), Some (new_departure, if px < 1 then 1 else px))))"

definition decodeReservation :: "num \<times> num \<Rightarrow> reservation" where
  "decodeReservation a = \<lparr>r_accepted = (fst a = 1), r_delayMs = snd a\<rparr>"

section \<open>Lemmas\<close>

text \<open>The departure a request would get.\<close>

definition leaky_departure :: "num option \<Rightarrow> num \<Rightarrow> num" where
  "leaky_departure st now = (case st of Some s \<Rightarrow> max s now | None \<Rightarrow> now)"

lemma leaky_departure_simps [simp]:
  "leaky_departure None now = now" "leaky_departure (Some s) now = max s now"
  by (simp_all add: leaky_departure_def)

lemma leaky_transform_eq:
  "leaky_transform T q now c st =
     (let d = leaky_departure st now
      in if d - now > q then
           \<lparr>o_state = st, o_result = \<lparr>r_accepted = False, r_delayMs = js_ceil (d - now - q)\<rparr>,
            o_ttlMs = q, o_persist = False\<rparr>
         else \<lparr>o_state = Some (d + T * c), o_result = \<lparr>r_accepted = True, r_delayMs = js_ceil (d - now)\<rparr>,
            o_ttlMs = max 1 (js_ceil (d + T * c - now)), o_persist = True\<rparr>)"
  by (cases st) (auto simp: leaky_transform_def Let_def max_def)

lemma leaky_accepted [simp]:
  "r_accepted (o_result (leaky_transform T q now c st)) \<longleftrightarrow> leaky_departure st now - now \<le> q"
  "o_persist (leaky_transform T q now c st) \<longleftrightarrow> leaky_departure st now - now \<le> q"
  by (auto simp: leaky_transform_eq Let_def)

lemma leaky_state [simp]:
  "leaky_departure st now - now \<le> q \<Longrightarrow>
     o_state (leaky_transform T q now c st) = Some (leaky_departure st now + T * c)"
  "leaky_departure st now - now \<le> q \<Longrightarrow>
     r_delayMs (o_result (leaky_transform T q now c st)) = js_ceil (leaky_departure st now - now)"
  "leaky_departure st now - now \<le> q \<Longrightarrow>
     o_ttlMs (leaky_transform T q now c st) = max 1 (js_ceil (leaky_departure st now + T * c - now))"
  "\<not> leaky_departure st now - now \<le> q \<Longrightarrow>
     r_delayMs (o_result (leaky_transform T q now c st)) = js_ceil (leaky_departure st now - now - q)"
  by (auto simp: leaky_transform_eq Let_def)

lemma leaky_departure_ge: "now \<le> leaky_departure st now"
  by (cases st) auto

lemma leaky_departure_cong:
  "(\<And>t'. t \<le> t' \<Longrightarrow> leaky_departure a t' = leaky_departure b t') \<Longrightarrow> t \<le> now \<Longrightarrow>
   o_result (leaky_transform T q now c a) = o_result (leaky_transform T q now c b)"
  by (simp add: leaky_transform_eq Let_def)

text \<open>A run over one cell: the slots it grants, as pairs of the start time and the cost.\<close>

fun leaky_run :: "num \<times> num \<Rightarrow> num cell \<Rightarrow> request list \<Rightarrow> (num \<times> num) list" where
  "leaky_run p cl [] = []"
| "leaky_run p cl ((now, c) # rs) =
     (let out = leaky_transform (fst p) (snd p) now c (live_cell cl now);
          rest = leaky_run p (next_cell cl now out) rs
      in if r_accepted (o_result out) then (now + r_delayMs (o_result out), c) # rest else rest)"

lemma leaky_live:
  assumes "\<forall>s e. cl = Some (s, e) \<longrightarrow> s \<le> e" "t \<le> t'"
  shows "leaky_departure (live_cell cl t') t' = leaky_departure (map_option fst cl) t'"
  using assms by (cases cl) (auto simp: live_cell_def)

text \<open>A cell holds a departure that lapses with it; what a run grants starts at or after it.\<close>

lemma leaky_next_cell:
  assumes "\<forall>s e. cl = Some (s, e) \<longrightarrow> s \<le> e"
    and "cl' = next_cell cl now (leaky_transform T q now c (live_cell cl now))"
  shows "\<forall>s e. cl' = Some (s, e) \<longrightarrow> s \<le> e"
    and "now \<le> t' \<Longrightarrow> leaky_departure (map_option fst cl') t' =
      (if leaky_departure (map_option fst cl) now - now \<le> q
       then max (leaky_departure (map_option fst cl) now + T * c) t'
       else leaky_departure (map_option fst cl) t')"
proof -
  let ?d = "leaky_departure (map_option fst cl) now"
  have d: "leaky_departure (live_cell cl now) now = ?d" using leaky_live[OF assms(1), of now now] by simp
  show "\<forall>s e. cl' = Some (s, e) \<longrightarrow> s \<le> e"
    using assms(1) js_ceil_ge[of "?d + T * c - now"] unfolding assms(2)
    by (cases "?d - now \<le> q") (auto simp: next_cell_def d split: option.splits)
  show "now \<le> t' \<Longrightarrow> leaky_departure (map_option fst cl') t' =
      (if ?d - now \<le> q then max (?d + T * c) t' else leaky_departure (map_option fst cl) t')"
    using assms(1) unfolding assms(2) by (cases "?d - now \<le> q") (auto simp: next_cell_def d split: option.splits)
qed

lemma leaky_run_paced:
  assumes T: "0 \<le> T" and q: "0 \<le> q"
  shows "\<forall>s e. cl = Some (s, e) \<longrightarrow> s \<le> e \<Longrightarrow> monotone_from t rs \<Longrightarrow>
    leaky_run (T, q) cl rs = ys @ (s', c') # zs \<Longrightarrow>
    leaky_departure (map_option fst cl) t + T * sum_list (map snd ys) \<le> s'"
proof (induction rs arbitrary: t cl ys)
  case (Cons r rs)
  obtain now c where r: "r = (now, c)" by (cases r)
  with Cons.prems have t: "t \<le> now" "0 < c" "monotone_from now rs" by auto
  let ?d = "leaky_departure (map_option fst cl) now"
  let ?cl = "next_cell cl now (leaky_transform T q now c (live_cell cl now))"
  have d: "leaky_departure (live_cell cl now) now = ?d" using leaky_live[OF Cons.prems(1), of now now] by simp
  have dt: "leaky_departure (map_option fst cl) t \<le> ?d" using t(1) by (cases cl) auto
  note nx = leaky_next_cell[OF Cons.prems(1) refl[of ?cl]]
  note IH = Cons.IH[OF nx(1) t(3)]
  show ?case
  proof (cases "?d - now \<le> q")
    case True
    then have run: "leaky_run (T, q) cl (r # rs) = (now + js_ceil (?d - now), c) # leaky_run (T, q) ?cl rs"
      by (simp add: r d Let_def)
    have "?d \<le> now + js_ceil (?d - now)" using js_ceil_ge[of "?d - now"] by simp
    moreover have "leaky_departure (map_option fst ?cl) now = ?d + T * c"
      using nx(2)[of now] True T t(2) leaky_departure_ge[of now "map_option fst cl"] by (simp add: max_absorb1 add_increasing2)
    ultimately show ?thesis using Cons.prems(3) dt run IH[where ys = "tl ys"]
      by (cases ys) (auto simp: algebra_simps)
  next
    case False
    then show ?thesis using Cons.prems(3) IH[where ys = ys] dt nx(2)[of now] by (simp add: r d Let_def)
  qed
qed simp

lemma leaky_run_gap:
  assumes T: "0 \<le> T" and q: "0 \<le> q"
  shows "\<forall>s e. cl = Some (s, e) \<longrightarrow> s \<le> e \<Longrightarrow> monotone_from t rs \<Longrightarrow>
    leaky_run (T, q) cl rs = xs @ (s, c) # ys @ (s', c') # zs \<Longrightarrow>
    s + T * (c + sum_list (map snd ys)) < s' + 1"
proof (induction rs arbitrary: t cl xs)
  case (Cons r rs)
  obtain now k where r: "r = (now, k)" by (cases r)
  with Cons.prems have t: "t \<le> now" "0 < k" "monotone_from now rs" by auto
  let ?d = "leaky_departure (map_option fst cl) now"
  let ?cl = "next_cell cl now (leaky_transform T q now k (live_cell cl now))"
  have d: "leaky_departure (live_cell cl now) now = ?d" using leaky_live[OF Cons.prems(1), of now now] by simp
  note nx = leaky_next_cell[OF Cons.prems(1) refl[of ?cl]]
  note IH = Cons.IH[OF nx(1) t(3)]
  show ?case
  proof (cases "?d - now \<le> q")
    case True
    then have run: "leaky_run (T, q) cl (r # rs) = (now + js_ceil (?d - now), k) # leaky_run (T, q) ?cl rs"
      by (simp add: r d Let_def)
    show ?thesis
    proof (cases xs)
      case Nil
      then have sc: "s = now + js_ceil (?d - now)" "c = k"
        and rest: "leaky_run (T, q) ?cl rs = ys @ (s', c') # zs" using Cons.prems(3) run by auto
      have "leaky_departure (map_option fst ?cl) now = ?d + T * c"
        using nx(2)[of now] True T t(2) sc(2) leaky_departure_ge[of now "map_option fst cl"] by (simp add: max_absorb1 add_increasing2)
      then have "?d + T * c + T * sum_list (map snd ys) \<le> s'"
        using leaky_run_paced[OF T q nx(1) t(3) rest] by simp
      then show ?thesis using sc(1) js_ceil_lt[of "?d - now"] by (simp add: distrib_left)
    next
      case (Cons x xs')
      then show ?thesis using Cons.prems(3) IH[where xs = xs'] run by simp
    qed
  next
    case False
    then show ?thesis using Cons.prems(3) IH[where xs = xs] by (simp add: r d Let_def)
  qed
qed simp

lemma leakyBucket_valid:
  "leakyBucket opts = Inr (T, q) \<Longrightarrow> 0 \<le> T \<and> 0 \<le> q \<and> T \<le> max_safe_integer"
  unfolding leakyBucket_def by (auto simp: result_simps js_of_real_def split: if_splits)

lemma sleep_slices_sum: "0 \<le> ms \<Longrightarrow> sum_list (sleep_slices ms) = ms \<and> (\<forall>s\<in>set (sleep_slices ms). 0 < s \<and> s \<le> MAX_TIMEOUT_MS)"
proof (induction ms rule: sleep_slices.induct)
  case (1 ms)
  have pos: "0 < MAX_TIMEOUT_MS" by (simp add: MAX_TIMEOUT_MS_def)
  show ?case
  proof (cases "ms \<le> MAX_TIMEOUT_MS")
    case True
    then show ?thesis using "1.prems" by (simp add: sleep_slices.simps[of ms])
  next
    case False
    then show ?thesis using "1.IH"[OF _ False refl refl] pos by (simp add: sleep_slices.simps[of ms] Let_def)
  qed
qed

section \<open>Correctness\<close>

text \<open>
  C7. The shaper paces: among the slots a run grants over a store that expires entries at their TTL,
  the cost of the slots from one granted slot up to the next chosen one, that one not counted, times the pacing
  interval exceeds the time between their starts by less than one millisecond (start times are rounded up to the
  next millisecond). The clock does not run backwards.
\<close>

theorem leaky_bucket_paced:
  assumes "leakyBucket opts = Inr p" and "monotone_from t rs"
    and "leaky_run p None rs = xs @ (s, c) # ys @ (s', c') # zs"
  shows "fst p * (c + sum_list (map snd ys)) < s' - s + 1"
proof -
  have "0 \<le> fst p" "0 \<le> snd p" using leakyBucket_valid[of opts "fst p" "snd p"] assms(1) by simp_all
  then show ?thesis
    using leaky_run_gap[of "fst p" "snd p" None t rs xs s c ys s' c' zs] assms(2,3) by simp
qed

theorem leaky_bucket_paced_witness:
  "leakyBucket \<lparr>lo_ratePerSec = Num 10, lo_maxQueueMs = Num 500\<rparr> = Inr (100, 500) \<and>
   leaky_run (100, 500) None [(0, 1), (0, 2), (0, 1)] = [(0, 1), (100, 2), (300, 1)] \<and>
   fst (100 :: num, 500 :: num) * (1 + sum_list (map snd [(100 :: num, 2 :: num)])) < 300 - 0 + 1"
proof -
  have p: "leakyBucket \<lparr>lo_ratePerSec = Num 10, lo_maxQueueMs = Num 500\<rparr> = Inr (100, 500)"
    by (simp add: leakyBucket_def rbind_def js_of_real_def max_safe_integer_def)
  have run: "leaky_run (100, 500) None [(0, 1), (0, 2), (0, 1)] = [] @ (0, 1) # [(100, 2)] @ (300, 1) # []"
    by (simp add: Let_def live_cell_def next_cell_def)
  have "fst (100 :: num, 500 :: num) * (1 + sum_list (map snd [(100 :: num, 2 :: num)])) < 300 - 0 + 1"
    by (rule leaky_bucket_paced[OF p _ run, of 0]) simp
  then show ?thesis using p run by simp
qed

text \<open>
  The hint of a rejection is exact: on a millisecond clock a request rejected at \<open>now\<close> is
  accepted \<open>k\<close> milliseconds later, with nothing granted meanwhile, exactly when \<open>k\<close> is at least the
  \<open>delayMs\<close> it was told; and an accepted request never waits longer than \<open>maxQueueMs\<close> rounded up.
\<close>

theorem leaky_bucket_hint_exact:
  assumes "0 \<le> q" and r_def: "r = o_result (leaky_transform T q now c st)"
  shows "if r_accepted r then 0 \<le> r_delayMs r \<and> r_delayMs r \<le> js_ceil q
         else 0 < r_delayMs r \<and>
              (r_accepted (o_result (leaky_transform T q (now + of_nat k) c st)) = (r_delayMs r \<le> of_nat k))"
proof (cases "leaky_departure st now - now \<le> q")
  case True
  then have "\<lceil>leaky_departure st now - now\<rceil> \<le> \<lceil>q\<rceil>" by (rule ceiling_mono)
  moreover have "0 \<le> \<lceil>leaky_departure st now - now\<rceil>" using leaky_departure_ge[of now st] by simp
  ultimately show ?thesis using True by (simp add: r_def js_ceil_def)
next
  case False
  then obtain s where st: "st = Some s" "now < s" "q < s - now"
    using assms(1) by (cases st) (auto simp: max_def split: if_splits)
  have "\<lceil>s - now - q\<rceil> \<le> int k \<longleftrightarrow> s - now - q \<le> of_nat k" by (simp add: ceiling_le_iff)
  then have "js_ceil (s - now - q) \<le> of_nat k \<longleftrightarrow> s - now - q \<le> of_nat k"
    by (metis js_ceil_def of_int_le_iff of_int_of_nat_eq)
  moreover have "max s (now + of_nat k) - (now + of_nat k) \<le> q \<longleftrightarrow> s - now - q \<le> of_nat k"
    using assms(1) by (auto simp: max_def)
  ultimately show ?thesis using st by (simp add: r_def max_absorb1)
qed

theorem leaky_bucket_hint_exact_witness:
  "r_accepted (o_result (leaky_transform 100 500 (0 + of_nat 300) 1 (Some 800)))"
  using leaky_bucket_hint_exact[OF _ refl, of 500 100 0 1 "Some 800" 300] by simp

lemma leaky_lua_departure:
  "(if (case st of Some d \<Rightarrow> d | None \<Rightarrow> now) < now then now
    else (case st of Some d \<Rightarrow> d | None \<Rightarrow> now)) = leaky_departure st now"
  by (cases st) auto

text \<open>
  Equivalence with \<open>LEAKY_LUA\<close>, on every input: the decoded reply is the reservation of the
  transform, and the script writes the same departure under the same TTL, exactly when the transform
  persists.
\<close>

theorem leaky_bucket_lua_equiv:
  "let out = leaky_transform (1000 / rate) q (lua_now argv time) c st;
       lua = leaky_lua time argv rate q c st
   in decodeReservation (redis_int (fst (fst lua)), redis_int (snd (fst lua))) = o_result out \<and>
      snd lua = (if o_persist out then Some (the (o_state out), o_ttlMs out) else None)"
  unfolding leaky_lua_def Let_def leaky_lua_departure
  unfolding if_less_max leaky_transform_eq Let_def by (simp add: decodeReservation_def)

end
