(* ===== verification/Calendar.thy ===== *)
theory Calendar
  imports Core
begin

text \<open>
  \<open>src/algorithms/calendar.ts\<close>: proleptic Gregorian civil dates in integer arithmetic, and the
  calendar periods that quotas reset on. The lemmas: the two conversions are inverse on every date
  from the year 0 on, and a period is a half-open interval that contains its instant and is the
  period of each of its instants.
\<close>

section \<open>Civil dates\<close>

definition MS_PER_DAY :: num where
  "MS_PER_DAY = 86400000"

text \<open>\<open>Math.floor(a / b)\<close> and \<open>((a % b) + b) % b\<close> on integers, for a positive \<open>b\<close>.\<close>

definition fdiv :: "int \<Rightarrow> int \<Rightarrow> int" where
  "fdiv a b = a div b"

definition js_rem :: "int \<Rightarrow> int \<Rightarrow> int" where
  "js_rem a b = (if 0 \<le> a then a mod b else - ((- a) mod b))"

definition fmod :: "int \<Rightarrow> int \<Rightarrow> int" where
  "fmod a b = js_rem (js_rem a b + b) b"

definition daysFromCivil :: "int \<Rightarrow> int \<Rightarrow> int \<Rightarrow> int" where
  "daysFromCivil y m d =
     (let yy = y - (if m \<le> 2 then 1 else 0);
          era = fdiv (if yy \<ge> 0 then yy else yy - 399) 400;
          yoe = yy - era * 400;
          doy = fdiv (153 * (m + (if m > 2 then -3 else 9)) + 2) 5 + d - 1;
          doe = yoe * 365 + fdiv yoe 4 - fdiv yoe 100 + doy
      in era * 146097 + doe - 719468)"

definition civilFromDays :: "int \<Rightarrow> int \<times> int \<times> int" where
  "civilFromDays z =
     (let zz = z + 719468;
          era = fdiv (if zz \<ge> 0 then zz else zz - 146096) 146097;
          doe = zz - era * 146097;
          yoe = fdiv (doe - fdiv doe 1460 + fdiv doe 36524 - fdiv doe 146096) 365;
          y = yoe + era * 400;
          doy = doe - (365 * yoe + fdiv yoe 4 - fdiv yoe 100);
          mp = fdiv (5 * doy + 2) 153;
          d = doy - fdiv (153 * mp + 2) 5 + 1;
          m = (if mp < 10 then mp + 3 else mp - 9)
      in (if m \<le> 2 then y + 1 else y, m, d))"

section \<open>Calendar periods\<close>

datatype calendar_cadence = CalendarMonth | CalendarWeek | CalendarDay

definition calendarPeriod :: "calendar_cadence \<Rightarrow> num \<Rightarrow> num \<Rightarrow> int \<Rightarrow> num \<times> num" where
  "calendarPeriod cadence now offsetMs weekStartsOn =
     (let local = now + offsetMs;
          day = \<lfloor>local / MS_PER_DAY\<rfloor>
      in case cadence of
           CalendarDay \<Rightarrow>
             (of_int day * MS_PER_DAY - offsetMs, of_int (day + 1) * MS_PER_DAY - offsetMs)
         | CalendarWeek \<Rightarrow>
             (let dow = fmod (day + 4) 7; shift = fmod (dow - weekStartsOn) 7; startDay = day - shift
              in (of_int startDay * MS_PER_DAY - offsetMs, of_int (startDay + 7) * MS_PER_DAY - offsetMs))
         | CalendarMonth \<Rightarrow>
             (case civilFromDays day of (y, m, _) \<Rightarrow>
                (let startDay = daysFromCivil y m 1;
                     resetDay = daysFromCivil (if m = 12 then y + 1 else y) (if m = 12 then 1 else m + 1) 1
                 in (of_int startDay * MS_PER_DAY - offsetMs, of_int resetDay * MS_PER_DAY - offsetMs))))"

section \<open>The Gregorian calendar, independently\<close>

definition leap_year :: "int \<Rightarrow> bool" where
  "leap_year y \<longleftrightarrow> y mod 4 = 0 \<and> (y mod 100 \<noteq> 0 \<or> y mod 400 = 0)"

definition days_in_month :: "int \<Rightarrow> int \<Rightarrow> int" where
  "days_in_month y m =
     (if m = 2 then (if leap_year y then 29 else 28)
      else if m = 4 \<or> m = 6 \<or> m = 9 \<or> m = 11 then 30 else 31)"

text \<open>A date of the civil calendar from 0000-03-01 on.\<close>

definition civil_date :: "int \<Rightarrow> int \<Rightarrow> int \<Rightarrow> bool" where
  "civil_date y m d \<longleftrightarrow>
     1 \<le> m \<and> m \<le> 12 \<and> 1 \<le> d \<and> d \<le> days_in_month y m \<and> 0 \<le> y \<and> (y = 0 \<longrightarrow> 3 \<le> m)"

section \<open>Lemmas\<close>

lemma fmod_eq:
  assumes "0 < b"
  shows "fmod a b = a mod b"
proof (cases "0 \<le> a")
  case True
  then show ?thesis using assms by (simp add: fmod_def js_rem_def)
next
  case False
  have "0 < b - (- a) mod b" using assms pos_mod_bound[of b "- a"] by simp
  moreover have "(b - (- a) mod b) mod b = a mod b"
    by (metis diff_0 minus_minus mod_diff_right_eq mod_self mod_diff_left_eq)
  ultimately show ?thesis using False by (simp add: fmod_def js_rem_def)
qed

lemma div_unique: "(a::int) = b * q + r \<Longrightarrow> 0 \<le> r \<Longrightarrow> r < b \<Longrightarrow> a div b = q"
  by (metis int_div_pos_eq)

text \<open>
  The day of a 400-year era by century \<open>a\<close>, four-year block \<open>p\<close>, year \<open>k\<close> of the block and day \<open>r\<close>
  of the year (which starts on 1 March).
\<close>

definition era_day :: "int \<Rightarrow> int \<Rightarrow> int \<Rightarrow> int \<Rightarrow> int" where
  "era_day a p k r = 36524 * a + 1461 * p + 365 * k + r"

definition era_date :: "int \<Rightarrow> int \<Rightarrow> int \<Rightarrow> int \<Rightarrow> bool" where
  "era_date a p k r \<longleftrightarrow> 0 \<le> a \<and> a \<le> 3 \<and> 0 \<le> p \<and> p \<le> 24 \<and> 0 \<le> k \<and> k \<le> 3 \<and> 0 \<le> r \<and>
     r \<le> (if k = 3 \<and> (p < 24 \<or> a = 3) then 365 else 364)"

definition era_year :: "int \<Rightarrow> int \<Rightarrow> int \<Rightarrow> int" where
  "era_year a p k = 100 * a + 4 * p + k"

lemma era_date_exists:
  assumes "0 \<le> x" "x \<le> 146096"
  shows "\<exists>a p k r. era_date a p k r \<and> x = era_day a p k r"
proof (cases "x = 146096")
  case True
  then have "era_date 3 24 3 365 \<and> x = era_day 3 24 3 365" by (simp add: era_date_def era_day_def)
  then show ?thesis by blast
next
  case False
  define a b where "a = x div 36524" and "b = x mod 36524"
  define p q where "p = b div 1461" and "q = b mod 1461"
  have x: "x = 36524 * a + b" "0 \<le> b" "b < 36524" "b = 1461 * p + q" "0 \<le> q" "q < 1461"
    by (simp_all add: a_def b_def p_def q_def)
  have a: "0 \<le> a" "a \<le> 3" using x assms False by linarith+
  have p: "0 \<le> p" "p \<le> 24" using x by linarith+
  show ?thesis
  proof (cases "q = 1460")
    case True
    then have "p < 24" using x by linarith
    then have "era_date a p 3 365 \<and> x = era_day a p 3 365"
      using a p x True by (simp add: era_date_def era_day_def)
    then show ?thesis by blast
  next
    case False
    define k r where "k = q div 365" and "r = q mod 365"
    have q: "q = 365 * k + r" "0 \<le> r" "r < 365" by (simp_all add: k_def r_def)
    have "0 \<le> k" "k \<le> 3" using q x False by linarith+
    then have "era_date a p k r \<and> x = era_day a p k r"
      using a p x q by (simp add: era_date_def era_day_def)
    then show ?thesis by blast
  qed
qed

lemma era_day_bounds:
  assumes "era_date a p k r"
  shows "0 \<le> era_day a p k r" "era_day a p k r \<le> 146096" "0 \<le> era_year a p k" "era_year a p k \<le> 399"
  using assms by (auto simp: era_date_def era_day_def era_year_def split: if_splits)

lemma era_year_parts:
  assumes "era_date a p k r"
  shows "era_year a p k div 4 = 25 * a + p" "era_year a p k div 100 = a"
proof -
  have b: "0 \<le> k" "k \<le> 3" "0 \<le> p" "p \<le> 24" using assms by (auto simp: era_date_def)
  show "era_year a p k div 4 = 25 * a + p" by (rule div_unique[where r = k]) (use b in \<open>auto simp: era_year_def\<close>)
  show "era_year a p k div 100 = a" by (rule div_unique[where r = "4 * p + k"]) (use b in \<open>auto simp: era_year_def\<close>)
qed

lemma era_year_of_day:
  assumes "era_date a p k r" and x_def: "x = era_day a p k r"
  shows "(x - x div 1460 + x div 36524 - x div 146096) div 365 = era_year a p k"
proof (cases "x = 146096")
  case True
  have "146096 = 36524 * a + 1461 * p + 365 * k + r" using True x_def by (simp add: era_day_def)
  then have "a = 3 \<and> p = 24 \<and> k = 3" using assms(1) by (auto simp: era_date_def split: if_splits)
  then show ?thesis using True by (simp add: era_year_def)
next
  case False
  have b: "0 \<le> a" "a \<le> 3" "0 \<le> p" "p \<le> 24" "0 \<le> k" "k \<le> 3" "0 \<le> r" "r \<le> 365" "k < 3 \<longrightarrow> r \<le> 364"
    "r = 365 \<longrightarrow> p < 24 \<or> a = 3"
    using assms(1) by (auto simp: era_date_def split: if_splits)
  have "1461 * p + 365 * k + r < 36524"
    using b False by (auto simp: x_def era_day_def split: if_splits)
  then have x1: "x div 36524 = a"
    using b by (intro div_unique[where r = "1461 * p + 365 * k + r"]) (auto simp: x_def era_day_def)
  have x2: "x div 146096 = 0"
    using era_day_bounds[OF assms(1)] False by (intro div_unique[where r = x]) (auto simp: x_def)
  define e :: int where "e = (if 1460 \<le> 24 * a + p + 365 * k + r then 1 else 0)"
  have x3: "x div 1460 = 25 * a + p + e"
    using b by (intro div_unique[where r = "24 * a + p + 365 * k + r - 1460 * e"])
      (auto simp: x_def era_day_def e_def)
  have r: "0 \<le> r - e" "r - e \<le> 364" using b by (auto simp: e_def)
  show ?thesis
    unfolding x1 x2 x3 by (rule div_unique[where r = "r - e"]) (use r in \<open>auto simp: x_def era_day_def era_year_def\<close>)
qed

text \<open>The same for a day \<open>n\<close> of the epoch: years, eras and the day of the year.\<close>

lemma era_year_start:
  "era_date a p k r \<Longrightarrow>
   365 * era_year a p k + era_year a p k div 4 - era_year a p k div 100 + r = era_day a p k r"
  by (simp only: era_year_parts) (simp add: era_year_def era_day_def)

definition month_start :: "int \<Rightarrow> int" where
  "month_start mp = (153 * mp + 2) div 5"

lemma civilFromDays_era:
  assumes "era_date a p k r" "0 \<le> e" "z + 719468 = 146097 * e + era_day a p k r"
  shows "civilFromDays z =
    (let mp = (5 * r + 2) div 153; m = (if mp < 10 then mp + 3 else mp - 9); y = era_year a p k + e * 400
     in (if m \<le> 2 then y + 1 else y, m, r - month_start mp + 1))"
proof -
  have "(z + 719468) div 146097 = e" "0 \<le> z + 719468"
    using assms era_day_bounds[OF assms(1)] by (auto intro: div_unique[where r = "era_day a p k r"])
  moreover from this assms(3) have "z + 719468 - e * 146097 = era_day a p k r" by simp
  moreover have "era_day a p k r - (365 * era_year a p k + era_year a p k div 4 - era_year a p k div 100) = r"
    using era_year_start[OF assms(1)] by simp
  ultimately show ?thesis
    by (simp only: civilFromDays_def fdiv_def Let_def era_year_of_day[OF assms(1) refl] month_start_def if_True)
qed

lemma daysFromCivil_era:
  assumes "era_date a p k r" "0 \<le> e" "y - (if m \<le> 2 then 1 else 0) = era_year a p k + e * 400"
    and "r = month_start (m + (if m > 2 then -3 else 9)) + d - 1"
  shows "daysFromCivil y m d = 146097 * e + era_day a p k r - 719468"
proof -
  have "(era_year a p k + e * 400) div 400 = e" "0 \<le> era_year a p k + e * 400"
    using assms(2) era_day_bounds[OF assms(1)] by (auto intro: div_unique[where r = "era_year a p k"])
  moreover have "era_year a p k + e * 400 - e * 400 = era_year a p k" by simp
  ultimately have "daysFromCivil y m d = e * 146097 + (era_year a p k * 365 + era_year a p k div 4
      - era_year a p k div 100 + r) - 719468"
    by (simp only: daysFromCivil_def fdiv_def Let_def assms(3,4) month_start_def if_True)
  then show ?thesis using era_year_start[OF assms(1)] by simp
qed

text \<open>Months of a year that starts on 1 March, by their position \<open>mp\<close> from 0 (March) to 11 (February).\<close>

lemma month_of_day:
  "(5 * r + 2) div 153 = mp \<longleftrightarrow> month_start mp \<le> r \<and> r < month_start (mp + 1)"
proof -
  have dv: "(x div b = q) \<longleftrightarrow> b * q \<le> x \<and> x < b * q + b" if "0 < b" for x b q :: int
    using div_unique[of x b q "x - b * q"] that pos_mod_bound[of b x] pos_mod_sign[of b x] mult_div_mod_eq[of b x]
    by (smt (verit))
  have "5 * month_start i \<le> 153 * i + 2 \<and> 153 * i + 2 < 5 * month_start i + 5" for i
    using dv[of 5 "153 * i + 2" "month_start i"] by (simp add: month_start_def)
  from this[of mp] this[of "mp + 1"] show ?thesis unfolding dv[of 153, simplified] by (simp add: distrib_left) linarith
qed

lemma month_start_values:
  "month_start 0 = 0" "month_start 1 = 31" "month_start 2 = 61" "month_start 3 = 92" "month_start 4 = 122"
  "month_start 5 = 153" "month_start 6 = 184" "month_start 7 = 214" "month_start 8 = 245"
  "month_start 9 = 275" "month_start 10 = 306" "month_start 11 = 337"
  by (simp_all add: month_start_def)

lemma month_cases:
  fixes mp :: int
  assumes "0 \<le> mp" "mp \<le> 11"
  shows "mp \<in> {0, 1, 2, 3, 4, 5, 6, 7, 8, 9, 10, 11}"
  unfolding insert_iff empty_iff using assms by presburger

lemma month_range:
  assumes "0 \<le> r" "r \<le> (365::int)"
  shows "0 \<le> (5 * r + 2) div 153" "(5 * r + 2) div 153 \<le> 11"
  using assms zdiv_mono1[of "5 * r + 2" "5 * 365 + 2" 153] by (simp_all add: pos_imp_zdiv_nonneg_iff)

definition month_of :: "int \<Rightarrow> int" where
  "month_of mp = (if mp < 10 then mp + 3 else mp - 9)"

lemma month_of_pos:
  "1 \<le> m \<Longrightarrow> m \<le> 12 \<Longrightarrow> month_of (m + (if m > 2 then - 3 else 9)) = m"
  "0 \<le> mp \<Longrightarrow> mp \<le> 11 \<Longrightarrow> month_of mp + (if month_of mp > 2 then - 3 else 9) = mp"
  by (auto simp: month_of_def)

lemma month_length:
  assumes "0 \<le> mp" "mp < 11"
  shows "month_start (mp + 1) = month_start mp + days_in_month y (month_of mp)"
proof -
  have "mp \<in> {0, 1, 2, 3, 4, 5, 6, 7, 8, 9, 10}"
    unfolding insert_iff empty_iff using assms by presburger
  then show ?thesis by (elim insertE) (simp_all add: month_start_values month_of_def days_in_month_def)
qed

lemma mod_top:
  fixes u v b :: int
  assumes "0 < v" "v \<le> b"
  shows "(b * u + v) mod b = 0 \<longleftrightarrow> v = b"
  using assms by (cases "v = b") simp_all

lemma leap_era:
  assumes "era_date a p k r"
  shows "leap_year (era_year a p k + e * 400 + 1) \<longleftrightarrow> k = 3 \<and> (p < 24 \<or> a = 3)"
proof -
  have b: "0 \<le> a" "a \<le> 3" "0 \<le> p" "p \<le> 24" "0 \<le> k" "k \<le> 3" using assms by (auto simp: era_date_def)
  let ?y = "era_year a p k + e * 400 + 1"
  have y: "?y = 4 * (25 * a + p + 100 * e) + (k + 1)" "?y = 100 * (a + 4 * e) + (4 * p + k + 1)"
    "?y = 400 * e + (100 * a + 4 * p + k + 1)" by (simp_all add: era_year_def)
  have "?y mod 4 = 0 \<longleftrightarrow> k + 1 = 4" unfolding y(1) by (rule mod_top) (use b in auto)
  moreover have "?y mod 100 = 0 \<longleftrightarrow> 4 * p + k + 1 = 100" unfolding y(2) by (rule mod_top) (use b in auto)
  moreover have "?y mod 400 = 0 \<longleftrightarrow> 100 * a + 4 * p + k + 1 = 400"
    unfolding y(3) by (rule mod_top) (use b in auto)
  ultimately show ?thesis unfolding leap_year_def using b by auto
qed

lemma civil_from_days_ok:
  assumes "- 719468 \<le> z" "civilFromDays z = (y, m, d)"
  shows "daysFromCivil y m d = z \<and> civil_date y m d"
proof -
  define e x where "e = (z + 719468) div 146097" and "x = (z + 719468) mod 146097"
  have "0 \<le> x" "x \<le> 146096" using pos_mod_bound[of 146097 "z + 719468"] by (auto simp: x_def)
  then obtain a p k r where er: "era_date a p k r" "x = era_day a p k r" using era_date_exists by blast
  have z: "z + 719468 = 146097 * e + era_day a p k r" "0 \<le> e"
    using assms(1) mult_div_mod_eq[of 146097 "z + 719468"] unfolding er(2)[symmetric] e_def x_def
    by (simp_all add: pos_imp_zdiv_nonneg_iff)
  define mp where "mp = (5 * r + 2) div 153"
  have r: "0 \<le> r" "r \<le> 365" using er(1) by (auto simp: era_date_def split: if_splits)
  have mp: "0 \<le> mp" "mp \<le> 11" "month_start mp \<le> r" "r < month_start (mp + 1)"
    using month_range[OF r] month_of_day[of r mp] by (simp_all add: mp_def)
  let ?Y = "era_year a p k + e * 400"
  have eqs: "m = month_of mp" "y = (if m \<le> 2 then ?Y + 1 else ?Y)" "d = r - month_start mp + 1"
    using civilFromDays_era[OF er(1) z(2,1)] assms(2)
    by (simp_all add: Let_def mp_def[symmetric] month_of_def[symmetric])
  have "daysFromCivil y m d = 146097 * e + era_day a p k r - 719468"
    using er(1) z(2) month_of_pos(2)[OF mp(1,2)] eqs by (intro daysFromCivil_era[where a = a]) auto
  then have "daysFromCivil y m d = z" using z(1) by simp
  moreover have "d \<le> days_in_month y m"
  proof (cases "mp = 11")
    case True
    then have "m = 2" "y = ?Y + 1" using eqs(1,2) by (simp_all add: month_of_def)
    then show ?thesis using er(1) eqs(3) True leap_era[OF er(1), of e]
      by (auto simp: days_in_month_def month_start_values era_date_def split: if_splits)
  next
    case False
    then show ?thesis using month_length[of mp y] mp eqs(1,3) by simp
  qed
  moreover have "1 \<le> m" "m \<le> 12" "1 \<le> d" "0 \<le> y" "y = 0 \<longrightarrow> 3 \<le> m"
    using eqs mp z(2) era_day_bounds(3)[OF er(1)] by (auto simp: month_of_def)
  ultimately show ?thesis by (simp add: civil_date_def)
qed

lemma days_from_civil_ok:
  assumes "civil_date y m d"
  shows "civilFromDays (daysFromCivil y m d) = (y, m, d) \<and> - 719468 \<le> daysFromCivil y m d"
proof -
  define Y mp r where "Y = y - (if m \<le> 2 then 1 else 0)" and "mp = m + (if m > 2 then - 3 else 9)"
    and "r = month_start mp + d - 1"
  define e x where "e = Y div 400" and "x = Y mod 400"
  define a q where "a = x div 100" and "q = x mod 100"
  define p k where "p = q div 4" and "k = q mod 4"
  have m: "1 \<le> m" "m \<le> 12" "1 \<le> d" "d \<le> days_in_month y m" "0 \<le> Y"
    using assms by (auto simp: civil_date_def Y_def)
  have mp: "0 \<le> mp" "mp \<le> 11" "month_of mp = m"
    using m month_of_pos(1)[OF m(1,2)] by (auto simp: mp_def)
  have b: "0 \<le> a" "a \<le> 3" "0 \<le> p" "p \<le> 24" "0 \<le> k" "k \<le> 3" "x = era_year a p k"
  proof -
    have "x = 100 * a + q" "0 \<le> q" "q < 100" "q = 4 * p + k" "0 \<le> k" "k < 4" "0 \<le> x" "x < 400"
      by (simp_all add: a_def q_def p_def k_def x_def)
    then show "0 \<le> a" "a \<le> 3" "0 \<le> p" "p \<le> 24" "0 \<le> k" "k \<le> 3" "x = era_year a p k"
      by (simp_all add: era_year_def)
  qed
  have Ye: "Y = era_year a p k + e * 400" "0 \<le> e"
    using m(5) unfolding b(7)[symmetric] by (simp_all add: e_def x_def pos_imp_zdiv_nonneg_iff)
  have ed0: "era_date a p k 0" using b by (simp add: era_date_def)
  have ms: "0 \<le> month_start mp" using mp(1) by (simp add: month_start_def)
  have r: "r \<le> (if k = 3 \<and> (p < 24 \<or> a = 3) then 365 else 364) \<and> r < month_start (mp + 1)"
  proof (cases "mp = 11")
    case True
    then have "m = 2" "y = Y + 1" using mp(3) by (simp_all add: month_of_def Y_def)
    then show ?thesis using m(4) True leap_era[OF ed0, of e] Ye(1)
      by (auto simp: r_def days_in_month_def month_start_def)
  next
    case False
    then have mp': "mp < 11" using mp(2) by simp
    have "r < month_start (mp + 1)" using month_length[OF mp(1) mp', of y] m(4) mp(3) by (simp add: r_def)
    moreover have "month_start (mp + 1) \<le> month_start 11" using mp' by (simp add: month_start_def zdiv_mono1)
    ultimately show ?thesis by (simp add: month_start_values)
  qed
  have ed: "era_date a p k r" using b r m(3) ms by (simp add: era_date_def r_def)
  have dfc: "daysFromCivil y m d = 146097 * e + era_day a p k r - 719468"
    by (rule daysFromCivil_era[OF ed Ye(2)]) (use Ye(1) in \<open>simp_all add: Y_def r_def mp_def\<close>)
  have "(5 * r + 2) div 153 = mp" unfolding month_of_day using r m(3) by (simp add: r_def)
  then have "civilFromDays (daysFromCivil y m d) = (if m \<le> 2 then Y + 1 else Y, m, d)"
    using civilFromDays_era[OF ed Ye(2), of "daysFromCivil y m d"] dfc mp(3) Ye(1)
    by (simp add: Let_def month_of_def[symmetric] r_def)
  then show ?thesis using dfc Ye(2) era_day_bounds(1)[OF ed] by (simp add: Y_def)
qed

text \<open>Closed form, and the length of a month as the distance to the first of the next.\<close>

definition days_before_year :: "int \<Rightarrow> int" where
  "days_before_year Y = 365 * Y + Y div 4 - Y div 100 + Y div 400"

lemma daysFromCivil_closed:
  assumes "0 \<le> y - (if m \<le> 2 then 1 else 0)"
  shows "daysFromCivil y m d =
    (let Y = y - (if m \<le> 2 then 1 else 0)
     in days_before_year Y + month_start (m + (if m > 2 then - 3 else 9)) + d - 719469)"
proof -
  let ?Y = "y - (if m \<le> 2 then 1 else 0)"
  have e: "(Y - Y div 400 * 400) div 4 = Y div 4 - 100 * (Y div 400)"
    "(Y - Y div 400 * 400) div 100 = Y div 100 - 4 * (Y div 400)" for Y :: int
    using div_mult_self1[of 4 Y "- 100 * (Y div 400)"] div_mult_self1[of 100 Y "- 4 * (Y div 400)"]
    by (simp_all add: algebra_simps)
  show ?thesis
    using assms by (simp only: daysFromCivil_def fdiv_def Let_def if_True e month_start_def days_before_year_def) simp
qed

lemma div_pred:
  fixes b y :: int
  assumes "1 < b"
  shows "y div b = (y - 1) div b + (if y mod b = 0 then 1 else 0)"
proof -
  have y: "y = b * (y div b) + y mod b" "0 \<le> y mod b" "y mod b < b" using assms by simp_all
  show ?thesis
  proof (cases "y mod b = 0")
    case True
    have "(y - 1) div b = y div b - 1"
      by (rule div_unique[where r = "b - 1"]) (use y True assms in \<open>simp_all add: right_diff_distrib\<close>)
    then show ?thesis using True by simp
  next
    case False
    have "(y - 1) div b = y div b" by (rule div_unique[where r = "y mod b - 1"]) (use y False in auto)
    then show ?thesis using False by simp
  qed
qed

lemma days_before_step:
  "days_before_year y = days_before_year (y - 1) +
    (365 + (if y mod 4 = 0 then 1 else 0) - (if y mod 100 = 0 then 1 else 0) + (if y mod 400 = 0 then 1 else 0))"
proof -
  note dv = div_pred[of 4 y] div_pred[of 100 y] div_pred[of 400 y]
  have "365 * y = 365 * (y - 1) + 365" by simp
  then show ?thesis unfolding days_before_year_def
    unfolding dv[simplified(no_asm_use)] by (simp only: ac_simps add_diff_eq)
qed

lemma leap_count:
  "(Q \<Longrightarrow> P) \<Longrightarrow> (R \<Longrightarrow> Q) \<Longrightarrow> (if P \<and> (\<not> Q \<or> R) then 29 else 28) =
    28 + (if P then 1 else 0) - (if Q then 1 else 0) + (if R then 1 else (0::int))"
  by (cases P; cases Q; cases R; simp)

lemma mod_dvd:
  fixes a b y :: int
  assumes "a dvd b" "y mod b = 0"
  shows "y mod a = 0"
  by (rule dvd_imp_mod_0[OF dvd_trans[OF assms(1) mod_0_imp_dvd[OF assms(2)]]])

lemma february_length:
  "days_in_month y 2 =
    28 + (if y mod 4 = 0 then 1 else 0) - (if y mod 100 = 0 then 1 else 0) + (if y mod 400 = 0 then 1 else 0)"
proof -
  have "y mod 100 = 0 \<Longrightarrow> y mod 4 = 0" by (rule mod_dvd[of 4 100]) simp
  moreover have "y mod 400 = 0 \<Longrightarrow> y mod 100 = 0" by (rule mod_dvd[of 100 400]) simp
  ultimately show ?thesis
    unfolding days_in_month_def leap_year_def if_P[OF refl] by (rule leap_count)
qed

lemma next_month_march:
  assumes "1 \<le> y"
  shows "daysFromCivil y 3 1 = daysFromCivil y 2 1 + days_in_month y 2"
proof -
  define leap where "leap = (if y mod 4 = 0 then 1 else 0) - (if y mod 100 = 0 then 1 else 0) + (if y mod 400 = 0 then 1 else (0::int))"
  have "daysFromCivil y 3 1 = days_before_year y - 719468"
    "daysFromCivil y 2 1 = days_before_year (y - 1) + 337 - 719468"
    using assms by (simp_all add: daysFromCivil_closed Let_def month_start_values)
  moreover have "days_before_year y = days_before_year (y - 1) + (365 + leap)" "days_in_month y 2 = 28 + leap"
    unfolding days_before_step[of y] february_length leap_def by (simp_all only: ac_simps add_diff_eq)
  ultimately show ?thesis by linarith
qed

lemma next_month_other:
  assumes "1 \<le> m" "m \<le> 12" "m \<noteq> 2"
  shows "daysFromCivil (if m = 12 then y + 1 else y) (if m = 12 then 1 else m + 1) 1
    = daysFromCivil y m 1 + days_in_month y m"
proof -
  let ?mp = "m + (if m > 2 then - 3 else 9)"
  let ?y = "if m = 12 then y + 1 else y" and ?m = "if m = 12 then 1 else m + 1"
  have mp: "?y - (if ?m \<le> 2 then 1 else 0) = y - (if m \<le> 2 then 1 else 0)"
    "?m + (if ?m > 2 then - 3 else 9) = ?mp + 1" "0 \<le> ?mp" "?mp < 11"
    using assms by auto
  have "daysFromCivil ?y ?m 1 - daysFromCivil y m 1 = month_start (?mp + 1) - month_start ?mp"
    by (simp only: daysFromCivil_def Let_def fdiv_def mp(1,2) month_start_def)
  then show ?thesis using month_length[OF mp(3,4), of y] month_of_pos(1)[OF assms(1,2)] by simp
qed

lemma next_month:
  assumes "civil_date y m 1"
  shows "daysFromCivil (if m = 12 then y + 1 else y) (if m = 12 then 1 else m + 1) 1
    = daysFromCivil y m 1 + days_in_month y m"
proof (cases "m = 2")
  case True
  then show ?thesis using next_month_march[of y] assms by (simp add: civil_date_def)
next
  case False
  show ?thesis by (rule next_month_other) (use assms False in \<open>simp_all add: civil_date_def\<close>)
qed

lemma daysFromCivil_shift: "daysFromCivil y m d = daysFromCivil y m 1 + (d - 1)"
  by (simp add: daysFromCivil_def Let_def)

text \<open>
  Before 0000-03-01 the era is one too low, and two days get the same date.
\<close>

lemma civil_before_year_zero: "civilFromDays (- 719470) = civilFromDays (- 719469)"
  by code_simp

section \<open>Correctness\<close>

text \<open>
  C8. The civil-date conversions are inverse to each other over the Gregorian calendar: every day
  number from 0000-03-01 on is turned into a date that exists (month lengths and leap years by the
  Gregorian rule) and back, and every such date comes back from its day number.
\<close>

theorem civil_round_trip:
  "(\<forall>z\<ge>- 719468. case civilFromDays z of (y, m, d) \<Rightarrow> civil_date y m d \<and> daysFromCivil y m d = z) \<and>
   (\<forall>y m d. civil_date y m d \<longrightarrow> civilFromDays (daysFromCivil y m d) = (y, m, d))"
  using civil_from_days_ok days_from_civil_ok by (auto split: prod.splits)

theorem civil_round_trip_witness:
  "civilFromDays (daysFromCivil 2024 2 29) = (2024, 2, 29) \<and> daysFromCivil 2024 2 29 = 19782"
  using civil_round_trip
  by (simp add: civil_date_def days_in_month_def leap_year_def) (simp add: daysFromCivil_def fdiv_def Let_def)

text \<open>
  The clocks for which month boundaries are right: from 0000-03-01 (local) on. Before that, both
  conversions are off, because they apply the C idiom for truncating division to a floor division.
\<close>

definition calendar_dom :: "calendar_cadence \<Rightarrow> num \<Rightarrow> num \<Rightarrow> bool" where
  "calendar_dom cadence offsetMs now \<longleftrightarrow>
     (cadence = CalendarMonth \<longrightarrow> - 719468 \<le> \<lfloor>(now + offsetMs) / MS_PER_DAY\<rfloor>)"

text \<open>The first day of a period and the first day of the next, in days of local time.\<close>

definition period_days :: "calendar_cadence \<Rightarrow> int \<Rightarrow> int \<Rightarrow> int \<times> int" where
  "period_days cadence wso day =
     (case cadence of CalendarDay \<Rightarrow> (day, day + 1)
      | CalendarWeek \<Rightarrow> (let s = day - (day + 4 - wso) mod 7 in (s, s + 7))
      | CalendarMonth \<Rightarrow> (case civilFromDays day of (y, m, _) \<Rightarrow>
          (daysFromCivil y m 1, daysFromCivil y m 1 + days_in_month y m)))"

lemma calendarPeriod_days:
  assumes "calendar_dom cadence off now"
  shows "calendarPeriod cadence now off wso =
    (of_int (fst (period_days cadence wso \<lfloor>(now + off) / MS_PER_DAY\<rfloor>)) * MS_PER_DAY - off,
     of_int (snd (period_days cadence wso \<lfloor>(now + off) / MS_PER_DAY\<rfloor>)) * MS_PER_DAY - off)"
proof (cases cadence)
  case CalendarMonth
  obtain y m d where z: "civilFromDays \<lfloor>(now + off) / MS_PER_DAY\<rfloor> = (y, m, d)" by (metis prod_cases3)
  then have "civil_date y m 1"
    using civil_from_days_ok[OF _ z] assms CalendarMonth by (auto simp: calendar_dom_def civil_date_def)
  from next_month[OF this] show ?thesis
    using CalendarMonth z by (simp add: calendarPeriod_def period_days_def Let_def)
qed (simp_all add: calendarPeriod_def period_days_def Let_def fmod_eq mod_diff_left_eq)

lemma period_days_contains:
  assumes "cadence = CalendarMonth \<longrightarrow> - 719468 \<le> day"
  shows "fst (period_days cadence wso day) \<le> day \<and> day < snd (period_days cadence wso day)"
proof (cases cadence)
  case CalendarMonth
  obtain y m d where z: "civilFromDays day = (y, m, d)" by (metis prod_cases3)
  then show ?thesis
    using civil_from_days_ok[OF _ z] assms CalendarMonth daysFromCivil_shift[of y m d]
    by (auto simp: period_days_def civil_date_def)
next
  case CalendarWeek
  then show ?thesis
    using pos_mod_bound[of 7 "day + 4 - wso"] pos_mod_sign[of 7 "day + 4 - wso"]
    by (auto simp: period_days_def Let_def simp del: pos_mod_bound pos_mod_sign)
qed (simp add: period_days_def)

lemma period_days_same:
  assumes "cadence = CalendarMonth \<longrightarrow> - 719468 \<le> day"
    and "fst (period_days cadence wso day) \<le> day'" "day' < snd (period_days cadence wso day)"
  shows "period_days cadence wso day' = period_days cadence wso day"
proof (cases cadence)
  case CalendarMonth
  obtain y m d where z: "civilFromDays day = (y, m, d)" by (metis prod_cases3)
  have cd: "civil_date y m d" using civil_from_days_ok[OF _ z] assms(1) CalendarMonth by simp
  define d' where "d' = day' - daysFromCivil y m 1 + 1"
  have "civil_date y m d'" using assms(2,3) cd z CalendarMonth by (auto simp: period_days_def civil_date_def d'_def)
  moreover have "daysFromCivil y m d' = day'" using daysFromCivil_shift[of y m d'] by (simp add: d'_def)
  ultimately show ?thesis using days_from_civil_ok[of y m d'] z CalendarMonth by (simp add: period_days_def)
next
  case CalendarWeek
  define j s where "j = (day + 4 - wso) mod 7" and "s = (day + 4 - wso) div 7"
  have "day + 4 - wso = 7 * s + j" by (simp add: j_def s_def)
  moreover have "day - j \<le> day'" "day' < day - j + 7"
    using assms(2,3) CalendarWeek by (simp_all add: period_days_def Let_def j_def)
  ultimately have "(day' + 4 - wso) div 7 = s"
    by (intro div_unique[where r = "day' - day + j"]) auto
  then have "day' - (day' + 4 - wso) mod 7 = day - j"
    using \<open>day + 4 - wso = 7 * s + j\<close> mult_div_mod_eq[of 7 "day' + 4 - wso"] by simp
  then show ?thesis using CalendarWeek by (simp add: period_days_def Let_def j_def)
qed (use assms in \<open>simp add: period_days_def\<close>)

lemma calendar_interval:
  assumes "calendar_dom cadence offsetMs now"
  shows "case calendarPeriod cadence now offsetMs weekStartsOn of (start, reset) \<Rightarrow>
    start \<le> now \<and> now < reset \<and>
    (\<forall>t. start \<le> t \<and> t < reset \<longrightarrow> calendarPeriod cadence t offsetMs weekStartsOn = (start, reset))"
proof -
  let ?z = "\<lambda>t. \<lfloor>(t + offsetMs) / MS_PER_DAY\<rfloor>"
  let ?P = "period_days cadence weekStartsOn (?z now)"
  have ms: "0 < MS_PER_DAY" by (simp add: MS_PER_DAY_def)
  have le: "of_int k * MS_PER_DAY - offsetMs \<le> t \<longleftrightarrow> k \<le> ?z t" for k t
    using ms by (simp add: le_floor_iff pos_le_divide_eq algebra_simps)
  have lt: "t < of_int k * MS_PER_DAY - offsetMs \<longleftrightarrow> ?z t < k" for k t
    using ms by (simp add: floor_less_iff pos_divide_less_eq algebra_simps)
  have dm: "cadence = CalendarMonth \<longrightarrow> - 719468 \<le> ?z now" using assms by (simp add: calendar_dom_def)
  have "calendarPeriod cadence t offsetMs weekStartsOn = calendarPeriod cadence now offsetMs weekStartsOn"
    if "fst ?P \<le> ?z t" "?z t < snd ?P" for t
  proof -
    have same: "period_days cadence weekStartsOn (?z t) = ?P" by (rule period_days_same[OF dm that])
    have "cadence = CalendarMonth \<Longrightarrow> - 719468 \<le> ?z t"
    proof -
      assume m: "cadence = CalendarMonth"
      obtain y mo d where z: "civilFromDays (?z now) = (y, mo, d)" by (metis prod_cases3)
      have "civil_date y mo 1" using civil_from_days_ok[OF _ z] dm m by (auto simp: civil_date_def)
      then have "- 719468 \<le> daysFromCivil y mo 1" using days_from_civil_ok by blast
      also have "\<dots> \<le> ?z t" using that(1) m z by (simp add: period_days_def)
      finally show "- 719468 \<le> ?z t" .
    qed
    then have "calendar_dom cadence offsetMs t" by (simp add: calendar_dom_def)
    then show ?thesis unfolding calendarPeriod_days[OF assms] using same by (simp add: calendarPeriod_days)
  qed
  then show ?thesis
    using period_days_contains[OF dm, of weekStartsOn] unfolding calendarPeriod_days[OF assms]
    by (simp add: le lt)
qed

text \<open>
  A calendar period is the half-open interval of its boundaries: it contains the instant it was
  computed for, and any later or earlier instant inside those boundaries has the very same period
  (so periods neither overlap nor leave gaps).
\<close>

theorem calendar_period_interval:
  assumes "calendar_dom cadence offsetMs now"
  shows "case calendarPeriod cadence now offsetMs weekStartsOn of (start, reset) \<Rightarrow>
    start \<le> now \<and> now < reset \<and>
    (\<forall>t. start \<le> t \<and> t < reset \<longrightarrow> calendarPeriod cadence t offsetMs weekStartsOn = (start, reset))"
  using calendar_interval[OF assms] .

theorem calendar_period_interval_witness:
  "fst (calendarPeriod CalendarMonth 0 0 1) \<le> 0"
  using calendar_period_interval[of CalendarMonth 0 0 1]
  by (auto simp: calendar_dom_def MS_PER_DAY_def split: prod.splits)

end
