(* ===== verification/Quota.thy ===== *)
theory Quota
  imports SlidingWindow Calendar
begin

text \<open>
  \<open>src/algorithms/quota.ts\<close>: a budget per billing period, where a period is a calendar month, week or
  day at a fixed offset, or a fixed stretch from an anchor; the rolling cadence is the sliding window
  under another name. The lemmas: the strategy contract, the budget per period, and the equivalence
  with the script, which repeats the calendar arithmetic.
\<close>

section \<open>The algorithm\<close>

record quota_state =
  q_start :: num
  q_count :: num

datatype quota_cadence = Calendar calendar_cadence | Fixed | Rolling

record quota_options =
  qo_limit :: js_number
  qo_resetCadence :: quota_cadence
  qo_periodMs :: "js_number option"
  qo_anchor :: "js_number option"
  qo_offsetMinutes :: "js_number option"
  qo_weekStartsOn :: "js_number option"
  qo_buckets :: "js_number option"

text \<open>The closure of a quota that is not rolling: \<open>None\<close> for \<open>cal\<close> is the fixed cadence.\<close>

record quota_params =
  qp_limit :: num
  qp_cal :: "calendar_cadence option"
  qp_periodMs :: num
  qp_anchor :: num
  qp_offsetMs :: num
  qp_weekStartsOn :: int

definition quota_bounds :: "quota_params \<Rightarrow> num \<Rightarrow> num \<times> num" where
  "quota_bounds p now =
     (case qp_cal p of
        None \<Rightarrow>
          (let start = qp_anchor p + js_floor ((now - qp_anchor p) / qp_periodMs p) * qp_periodMs p
           in (start, start + qp_periodMs p))
      | Some cal \<Rightarrow> calendarPeriod cal now (qp_offsetMs p) (qp_weekStartsOn p))"

definition quota_ttl :: "quota_params \<Rightarrow> num" where
  "quota_ttl p =
     (case qp_cal p of
        Some CalendarMonth \<Rightarrow> 31 * MS_PER_DAY | Some CalendarWeek \<Rightarrow> 7 * MS_PER_DAY
      | Some CalendarDay \<Rightarrow> MS_PER_DAY | None \<Rightarrow> qp_periodMs p)"

definition quota_cnt :: "quota_state option \<Rightarrow> num \<Rightarrow> num" where
  "quota_cnt st start = (case st of Some s \<Rightarrow> if q_start s = start then q_count s else 0 | None \<Rightarrow> 0)"

definition quota_check ::
  "quota_params \<Rightarrow> quota_state option \<Rightarrow> num \<Rightarrow> num \<Rightarrow> (quota_state, decision) apply_outcome" where
  "quota_check p state now cost =
     (case quota_bounds p now of (start, reset) \<Rightarrow>
       (let resetAt = js_ceil reset;
            n = quota_cnt state start
        in if n + cost \<le> qp_limit p then
             (let newCount = n + cost
              in \<lparr>o_state = Some \<lparr>q_start = start, q_count = newCount\<rparr>,
                  o_result = \<lparr>d_allowed = True, d_limit = qp_limit p,
                    d_remaining = max 0 (js_floor (qp_limit p - newCount)),
                    d_resetAt = resetAt, d_retryAfterMs = 0\<rparr>,
                  o_ttlMs = max 1 (reset - now), o_persist = True\<rparr>)
           else
             \<lparr>o_state = state,
              o_result = \<lparr>d_allowed = False, d_limit = qp_limit p,
                d_remaining = max 0 (js_floor (qp_limit p - n)),
                d_resetAt = resetAt, d_retryAfterMs = js_ceil (reset - now)\<rparr>,
              o_ttlMs = quota_ttl p, o_persist = False\<rparr>))"

definition quota_peek :: "quota_params \<Rightarrow> quota_state option \<Rightarrow> num \<Rightarrow> decision" where
  "quota_peek p state now =
     (case quota_bounds p now of (start, reset) \<Rightarrow>
       (let n = quota_cnt state start
        in \<lparr>d_allowed = (n + 1 \<le> qp_limit p), d_limit = qp_limit p,
            d_remaining = max 0 (js_floor (qp_limit p - n)), d_resetAt = js_ceil reset,
            d_retryAfterMs = (if n + 1 \<le> qp_limit p then 0 else js_ceil (reset - now))\<rparr>))"

definition quota_forecast :: "quota_params \<Rightarrow> quota_state option \<Rightarrow> num \<Rightarrow> num \<Rightarrow> forecast" where
  "quota_forecast p state now cost =
     (case quota_bounds p now of (start, reset) \<Rightarrow>
       (let resetAt = js_ceil reset; n = quota_cnt state start; available = max 0 (qp_limit p - n)
        in \<lparr>f_spendableNow = js_floor (available / cost), f_nextReplenishAt = resetAt, f_fullAt = resetAt\<rparr>))"

definition quota_mk :: "quota_params \<Rightarrow> quota_state strategy" where
  "quota_mk p =
     \<lparr>st_name = ''quota'', st_limit = qp_limit p,
      st_windowMs = (if qp_cal p = None then Some (qp_periodMs p) else None),
      st_ttlMs = quota_ttl p, st_check = quota_check p,
      st_peek = Some (quota_peek p), st_forecast = Some (quota_forecast p)\<rparr>"

text \<open>An optional integer option with its range, as \<open>offsetMinutes\<close> and \<open>weekStartsOn\<close> are checked.\<close>

definition requireRange :: "string \<Rightarrow> js_number option \<Rightarrow> num \<Rightarrow> num \<Rightarrow> num \<Rightarrow> num result" where
  "requireRange n v dflt lo hi =
     (case v of
        None \<Rightarrow> Inr dflt
      | Some x \<Rightarrow> rbind (requireInteger n x) (\<lambda>i. if i < lo \<or> i > hi then Inl (RangeError n) else Inr i))"

text \<open>An absent \<open>periodMs\<close> is \<open>undefined\<close>, which \<open>requirePositive\<close> rejects as it does \<open>NaN\<close>.\<close>

definition quota_period :: "quota_options \<Rightarrow> num result" where
  "quota_period opts =
     requirePositive ''quota.periodMs'' (case qo_periodMs opts of Some v \<Rightarrow> v | None \<Rightarrow> NaN)"

definition quota :: "quota_options \<Rightarrow> (quota_state strategy + window_state strategy) result" where
  "quota opts =
     rbind (requirePositive ''quota.limit'' (qo_limit opts)) (\<lambda>limit.
       case qo_resetCadence opts of
         Rolling \<Rightarrow>
           rbind (quota_period opts) (\<lambda>periodMs.
           rbind (slidingWindow \<lparr>so_limit = Num limit, so_windowMs = Num periodMs,
                    so_buckets = Some (case qo_buckets opts of Some b \<Rightarrow> b | None \<Rightarrow> Num 10)\<rparr>) (\<lambda>sw.
             Inr (Inr (sw\<lparr>st_name := ''quota''\<rparr>))))
       | cadence \<Rightarrow>
           rbind (requireRange ''quota.offsetMinutes'' (qo_offsetMinutes opts) 0 (- 840) 840) (\<lambda>offsetMinutes.
           rbind (requireRange ''quota.weekStartsOn'' (qo_weekStartsOn opts) 1 0 6) (\<lambda>weekStartsOn.
           rbind (case qo_anchor opts of None \<Rightarrow> Inr 0 | Some a \<Rightarrow> requireInteger ''quota.anchor'' a) (\<lambda>anchor.
           rbind (case cadence of
                    Fixed \<Rightarrow> rbind (quota_period opts) (\<lambda>p. requireFiniteWindow ''quota.periodMs'' p)
                  | _ \<Rightarrow> Inr 0) (\<lambda>periodMs.
             Inr (Inl (quota_mk
               \<lparr>qp_limit = limit,
                qp_cal = (case cadence of Calendar c \<Rightarrow> Some c | _ \<Rightarrow> None),
                qp_periodMs = periodMs, qp_anchor = anchor, qp_offsetMs = offsetMinutes * 60000,
                qp_weekStartsOn = \<lfloor>weekStartsOn\<rfloor>\<rparr>)))))))"

section \<open>The Redis form (QUOTA\_LUA)\<close>

definition lua_days_from_civil :: "int \<Rightarrow> int \<Rightarrow> int \<Rightarrow> int" where
  "lua_days_from_civil y m d =
     (let yy = y - (if m \<le> 2 then 1 else 0);
          era = (if yy \<ge> 0 then yy else yy - 399) div 400;
          yoe = yy - era * 400;
          doy = (153 * (m + (if m > 2 then -3 else 9)) + 2) div 5 + d - 1;
          doe = yoe * 365 + yoe div 4 - yoe div 100 + doy
      in era * 146097 + doe - 719468)"

definition lua_civil_from_days :: "int \<Rightarrow> int \<times> int" where
  "lua_civil_from_days z =
     (let zz = z + 719468;
          era = (if zz \<ge> 0 then zz else zz - 146096) div 146097;
          doe = zz - era * 146097;
          yoe = (doe - doe div 1460 + doe div 36524 - doe div 146096) div 365;
          y = yoe + era * 400;
          doy = doe - (365 * yoe + yoe div 4 - yoe div 100);
          mp = (5 * doy + 2) div 153;
          m = (if mp < 10 then mp + 3 else mp - 9)
      in (if m \<le> 2 then y + 1 else y, m))"

text \<open>The numbering of \<open>MODE\<close>, and the boundaries as the script computes them.\<close>

definition quota_mode :: "calendar_cadence option \<Rightarrow> nat" where
  "quota_mode cal =
     (case cal of Some CalendarMonth \<Rightarrow> 1 | Some CalendarWeek \<Rightarrow> 2 | Some CalendarDay \<Rightarrow> 3 | None \<Rightarrow> 4)"

definition quota_lua_bounds :: "num \<Rightarrow> nat \<Rightarrow> num \<Rightarrow> num \<Rightarrow> num \<Rightarrow> int \<Rightarrow> num \<times> num" where
  "quota_lua_bounds now mode periodMs anchor offsetMs weekStartsOn =
     (if mode = 4 then
        (let k = js_floor ((now - anchor) / periodMs); period_start = anchor + k * periodMs
         in (period_start, period_start + periodMs))
      else
        (let localnow = now + offsetMs; day = \<lfloor>localnow / 86400000\<rfloor>
         in if mode = 3 then (of_int day * 86400000 - offsetMs, of_int (day + 1) * 86400000 - offsetMs)
            else if mode = 2 then
              (let dow = (day + 4) mod 7; shift = (dow - weekStartsOn) mod 7; start_day = day - shift
               in (of_int start_day * 86400000 - offsetMs, of_int (start_day + 7) * 86400000 - offsetMs))
            else
              (case lua_civil_from_days day of (y, m) \<Rightarrow>
                 (let start_day = lua_days_from_civil y m 1;
                      ny = (if m = 12 then y + 1 else y);
                      nm = (if m = 12 then 1 else m + 1);
                      reset_day = lua_days_from_civil ny nm 1
                  in (of_int start_day * 86400000 - offsetMs, of_int reset_day * 86400000 - offsetMs)))))"

definition quota_lua ::
  "num \<times> num \<Rightarrow> num \<Rightarrow> num \<Rightarrow> num \<Rightarrow> nat \<Rightarrow> num \<Rightarrow> num \<Rightarrow> num \<Rightarrow> int \<Rightarrow> num option \<times> num option \<Rightarrow>
   lua_reply \<times> (num \<times> num \<times> num) option" where
  "quota_lua time argv limit cost mode periodMs anchor offsetMs weekStartsOn h =
     (let now = lua_now argv time
      in case quota_lua_bounds now mode periodMs anchor offsetMs weekStartsOn of (period_start, reset_at) \<Rightarrow>
           (let n = (case fst h of
                       None \<Rightarrow> 0
                     | Some start \<Rightarrow> if start \<noteq> period_start then 0
                                     else (case snd h of Some c \<Rightarrow> c | None \<Rightarrow> 0))
            in if n + cost \<le> limit then
                 (let new_count = n + cost; px = js_ceil (reset_at - now)
                  in ((1, limit, limit - new_count, reset_at, 0),
                      Some (period_start, new_count, if px < 1 then 1 else px)))
               else
                 (let remaining = limit - n
                  in ((0, limit, (if remaining < 0 then 0 else remaining), reset_at,
                       js_ceil (reset_at - now)), None))))"

section \<open>Lemmas\<close>

definition quota_valid :: "quota_params \<Rightarrow> bool" where
  "quota_valid p \<longleftrightarrow> 0 < qp_limit p \<and> (qp_cal p = None \<longrightarrow> 0 < qp_periodMs p)"

definition quota_dom :: "quota_params \<Rightarrow> num \<Rightarrow> bool" where
  "quota_dom p now = (case qp_cal p of None \<Rightarrow> True | Some c \<Rightarrow> calendar_dom c (qp_offsetMs p) now)"

definition quota_start :: "quota_params \<Rightarrow> num \<Rightarrow> num" where
  "quota_start p now = fst (quota_bounds p now)"

definition quota_reset :: "quota_params \<Rightarrow> num \<Rightarrow> num" where
  "quota_reset p now = snd (quota_bounds p now)"

text \<open>The invariant of a stored counter at time \<open>t\<close>: its period has begun and is not over-spent.\<close>

definition quota_ok :: "quota_params \<Rightarrow> num \<Rightarrow> quota_state \<Rightarrow> bool" where
  "quota_ok p t s \<longleftrightarrow> q_start s \<le> t \<and> q_count s \<le> qp_limit p"

definition quota_view :: "quota_params \<Rightarrow> quota_state option \<Rightarrow> num \<Rightarrow> num" where
  "quota_view p st t = quota_cnt st (quota_start p t)"

lemma quota_mk_sel [simp]:
  "st_check (quota_mk p) = quota_check p" "st_limit (quota_mk p) = qp_limit p"
  "st_peek (quota_mk p) = Some (quota_peek p)"
  by (simp_all add: quota_mk_def)

lemma quota_cnt_simps [simp]:
  "quota_cnt None s = 0"
  "quota_cnt (Some \<lparr>q_start = a, q_count = n\<rparr>) s = (if a = s then n else 0)"
  by (simp_all add: quota_cnt_def)

lemma quota_bounds_pair: "quota_bounds p now = (quota_start p now, quota_reset p now)"
  by (simp add: quota_start_def quota_reset_def)

text \<open>A period is an interval around its instant and the period of each of its instants.\<close>

lemma quota_period_interval:
  assumes "quota_valid p" "quota_dom p now"
  shows "quota_start p now \<le> now" "now < quota_reset p now"
    "quota_start p now \<le> t \<Longrightarrow> t < quota_reset p now \<Longrightarrow> quota_bounds p t = quota_bounds p now"
proof -
  have "quota_start p now \<le> now \<and> now < quota_reset p now \<and>
    (\<forall>t. quota_start p now \<le> t \<and> t < quota_reset p now \<longrightarrow> quota_bounds p t = quota_bounds p now)"
  proof (cases "qp_cal p")
    case None
    then have w: "0 < qp_periodMs p" using assms(1) by (simp add: quota_valid_def)
    let ?k = "\<lambda>t. \<lfloor>(t - qp_anchor p) / qp_periodMs p\<rfloor>"
    have b: "quota_bounds p t = (qp_anchor p + of_int (?k t) * qp_periodMs p,
        qp_anchor p + of_int (?k t) * qp_periodMs p + qp_periodMs p)" for t
      using None by (simp add: quota_bounds_def js_floor_def Let_def)
    have k: "?k t = k \<longleftrightarrow> of_int k * qp_periodMs p \<le> t - qp_anchor p \<and>
        t - qp_anchor p < of_int k * qp_periodMs p + qp_periodMs p" for t k
      using w by (simp add: floor_eq_iff pos_le_divide_eq pos_divide_less_eq distrib_right)
    show ?thesis using k[of now "?k now"] k[of _ "?k now"] unfolding quota_start_def quota_reset_def b
      by auto
  next
    case (Some c)
    then show ?thesis
      using assms(2) calendar_interval[of c "qp_offsetMs p" now "qp_weekStartsOn p"]
      by (auto simp: quota_dom_def quota_start_def quota_reset_def quota_bounds_def split: prod.splits)
  qed
  then show "quota_start p now \<le> now" "now < quota_reset p now"
    "quota_start p now \<le> t \<Longrightarrow> t < quota_reset p now \<Longrightarrow> quota_bounds p t = quota_bounds p now" by blast+
qed

lemma quota_check_eq:
  "quota_check p st now c =
     (let n = quota_cnt st (quota_start p now); reset = quota_reset p now
      in if n + c \<le> qp_limit p then
           \<lparr>o_state = Some \<lparr>q_start = quota_start p now, q_count = n + c\<rparr>,
            o_result = \<lparr>d_allowed = True, d_limit = qp_limit p,
              d_remaining = max 0 (js_floor (qp_limit p - (n + c))), d_resetAt = js_ceil reset, d_retryAfterMs = 0\<rparr>,
            o_ttlMs = max 1 (reset - now), o_persist = True\<rparr>
         else
           \<lparr>o_state = st,
            o_result = \<lparr>d_allowed = False, d_limit = qp_limit p,
              d_remaining = max 0 (js_floor (qp_limit p - n)), d_resetAt = js_ceil reset,
              d_retryAfterMs = js_ceil (reset - now)\<rparr>,
            o_ttlMs = quota_ttl p, o_persist = False\<rparr>)"
  by (simp add: quota_check_def quota_bounds_pair Let_def)

lemma quota_check_allowed [simp]:
  "d_allowed (o_result (quota_check p st now c)) \<longleftrightarrow> quota_cnt st (quota_start p now) + c \<le> qp_limit p"
  "o_persist (quota_check p st now c) \<longleftrightarrow> quota_cnt st (quota_start p now) + c \<le> qp_limit p"
  by (simp_all add: quota_check_eq Let_def)

lemma quota_check_state:
  "quota_cnt st (quota_start p now) + c \<le> qp_limit p \<Longrightarrow> o_state (quota_check p st now c) =
     Some \<lparr>q_start = quota_start p now, q_count = quota_cnt st (quota_start p now) + c\<rparr>"
  "\<not> quota_cnt st (quota_start p now) + c \<le> qp_limit p \<Longrightarrow> o_state (quota_check p st now c) = st"
  by (simp_all add: quota_check_eq Let_def)

lemma quota_check_fields:
  "d_limit (o_result (quota_check p st now c)) = qp_limit p"
  "0 \<le> d_remaining (o_result (quota_check p st now c))"
  "quota_cnt st (quota_start p now) + c \<le> qp_limit p \<Longrightarrow> d_retryAfterMs (o_result (quota_check p st now c)) = 0"
  "\<not> quota_cnt st (quota_start p now) + c \<le> qp_limit p \<Longrightarrow>
     d_retryAfterMs (o_result (quota_check p st now c)) = js_ceil (quota_reset p now - now)"
  "quota_cnt st (quota_start p now) + c \<le> qp_limit p \<Longrightarrow>
     o_ttlMs (quota_check p st now c) = max 1 (quota_reset p now - now)"
  by (simp_all add: quota_check_eq Let_def)

lemma quota_start_next:
  assumes "quota_valid p" "quota_dom p now" "quota_dom p t'" "quota_reset p now \<le> t'"
  shows "quota_start p t' \<noteq> quota_start p now"
proof
  assume eq: "quota_start p t' = quota_start p now"
  note a = quota_period_interval[OF assms(1,2)] and b = quota_period_interval[OF assms(1,3)]
  have "quota_bounds p now = quota_bounds p t'" using b(3)[of now] a(1,2) b(2) assms(4) eq by simp
  then show False using b(2) assms(4) by (simp add: quota_reset_def)
qed

lemma calendar_dom_mono: "calendar_dom c off t \<Longrightarrow> t \<le> t' \<Longrightarrow> calendar_dom c off t'"
proof -
  assume d: "calendar_dom c off t" and t: "t \<le> t'"
  have "\<lfloor>(t + off) / MS_PER_DAY\<rfloor> \<le> \<lfloor>(t' + off) / MS_PER_DAY\<rfloor>"
    using t by (intro floor_mono divide_right_mono) (simp_all add: MS_PER_DAY_def)
  then show ?thesis using d unfolding calendar_dom_def by (meson order_trans)
qed

lemma quota_dom_mono: "quota_dom p t \<Longrightarrow> t \<le> t' \<Longrightarrow> quota_dom p t'"
  by (auto simp: quota_dom_def intro: calendar_dom_mono split: option.splits)

text \<open>
  The law on the TTL needs the period to be over at the expiry, which it is at \<open>reset\<close>; the laws on
  months hold for clocks of the calendar's domain.
\<close>

interpretation quota_c: introspective_strategy quota_mk quota_valid quota_dom quota_ok quota_view quota_peek
proof
  fix p :: quota_params assume v: "quota_valid p"
  show "quota_dom p t'" if "quota_dom p t" "t \<le> t'" for t t' using quota_dom_mono[OF that] .
  show "0 < d_retryAfterMs (o_result (st_check (quota_mk p) st now c))"
    if "quota_dom p now" "\<not> d_allowed (o_result (st_check (quota_mk p) st now c))" for st now c
    using that quota_period_interval(2)[OF v that(1)] by (simp add: quota_check_fields)
  show "opt_inv (quota_ok p) now (o_state (st_check (quota_mk p) st now c))"
    if "quota_dom p now" "0 < c" "d_allowed (o_result (st_check (quota_mk p) st now c))" for st now c
    using that quota_period_interval(1)[OF v that(1)] by (simp add: quota_check_state quota_ok_def)
  show "quota_view p (o_state (st_check (quota_mk p) a now c)) t' = quota_view p None t'"
    if "quota_dom p now" "d_allowed (o_result (st_check (quota_mk p) a now c))"
      "now + o_ttlMs (st_check (quota_mk p) a now c) \<le> t'" for a now c t'
  proof -
    have "quota_reset p now \<le> t'" "now \<le> t'" using that(2,3) by (simp_all add: quota_check_fields)
    then show ?thesis
      using that(2) quota_start_next[OF v that(1) quota_dom_mono[OF that(1)], of t']
      by (simp add: quota_view_def quota_check_state)
  qed
  show "o_result (st_check (quota_mk p) a now c) = o_result (st_check (quota_mk p) b now c)"
    if "quota_view p a now = quota_view p b now" for a b now c
    using that by (simp add: quota_view_def quota_check_eq Let_def)
  show "quota_peek p st now = o_result (st_check (quota_mk p) st now 1)"
    if "\<not> d_allowed (quota_peek p st now)" for st now
    using that by (simp add: quota_peek_def quota_check_eq quota_bounds_pair Let_def)
qed (auto simp: quota_check_fields quota_check_state quota_ok_def quota_view_def quota_peek_def quota_bounds_pair Let_def)

interpretation quota_f: forecasting_strategy quota_mk quota_valid quota_dom quota_ok quota_view quota_peek
  by unfold_locales (auto simp: quota_mk_def quota_forecast_def quota_view_def quota_start_def Let_def split: prod.splits)

lemma quota_factory:
  assumes "quota opts = Inr (Inl S)"
  shows "\<exists>p. S = quota_mk p \<and> quota_valid p"
proof -
  have "quota_valid \<lparr>qp_limit = l, qp_cal = Some c, qp_periodMs = 0, qp_anchor = a, qp_offsetMs = off,
      qp_weekStartsOn = w\<rparr>"
    "0 < w' \<Longrightarrow> quota_valid \<lparr>qp_limit = l, qp_cal = None, qp_periodMs = w', qp_anchor = a, qp_offsetMs = off,
      qp_weekStartsOn = w\<rparr>" if "0 < l" for l c a off w w'
    using that by (simp_all add: quota_valid_def)
  then show ?thesis using assms unfolding quota_def quota_period_def
    by (cases "qo_resetCadence opts") (auto simp: result_simps dest!: requireFiniteWindow_Inr)
qed

lemma quota_rolling_factory:
  assumes "quota opts = Inr (Inr S)"
  shows "\<exists>p. S = (sw_mk p)\<lparr>st_name := ''quota''\<rparr> \<and> sw_valid p"
  using assms unfolding quota_def
  by (cases "qo_resetCadence opts") (auto simp: result_simps dest!: slidingWindow_factory)

section \<open>Correctness\<close>

lemma quota_period_invariant:
  assumes v: "quota_valid p"
  shows "quota_dom p t \<Longrightarrow> opt_inv (quota_ok p) t st \<Longrightarrow> monotone_from t rs \<Longrightarrow>
    admitted_where (\<lambda>x. quota_bounds p x = (W, R)) rs (run_strategy (quota_mk p) st rs)
      \<le> qp_limit p - quota_cnt st W"
proof (induction rs arbitrary: t st)
  case Nil
  then show ?case using v by (cases st) (auto simp: quota_ok_def quota_cnt_def quota_valid_def)
next
  case (Cons r rs)
  obtain now c where r: "r = (now, c)" by (cases r)
  with Cons.prems have t: "t \<le> now" "0 < c" "monotone_from now rs" by auto
  let ?out = "st_check (quota_mk p) st now c"
  let ?st = "next_state st ?out"
  have dm: "quota_dom p now" using quota_dom_mono[OF Cons.prems(1) t(1)] .
  have ok: "opt_inv (quota_ok p) now st" using quota_c.opt_inv_mono[OF v Cons.prems(2) t(1)] .
  have IH: "admitted_where (\<lambda>x. quota_bounds p x = (W, R)) rs (run_strategy (quota_mk p) ?st rs)
      \<le> qp_limit p - quota_cnt ?st W"
    using Cons.IH[OF dm quota_c.next_state_inv[OF v dm t(2) ok] t(3)] .
  show ?case
  proof (cases "quota_start p now = W")
    case True
    then show ?thesis using IH t(2)
      by (cases "quota_cnt st W + c \<le> qp_limit p")
         (auto simp: r Let_def next_state_def quota_check_state quota_bounds_pair)
  next
    case other: False
    note per = quota_period_interval[OF v dm]
    show ?thesis
    proof (cases "quota_cnt st W = 0")
      case True
      then have "quota_cnt ?st W = 0" using other
        by (auto simp: next_state_def quota_check_state)
      then show ?thesis using IH other True by (simp add: r Let_def quota_bounds_pair)
    next
      case False
      then have W: "W \<le> now" using ok by (auto simp: quota_cnt_def quota_ok_def split: option.splits if_splits)
      have "\<forall>q\<in>set rs. quota_bounds p (fst q) \<noteq> (W, R)"
      proof
        fix q assume "q \<in> set rs"
        then have q: "now \<le> fst q" using monotone_from_ge[OF t(3)] by blast
        note perq = quota_period_interval[OF v quota_dom_mono[OF dm q]]
        show "quota_bounds p (fst q) \<noteq> (W, R)"
        proof
          assume b: "quota_bounds p (fst q) = (W, R)"
          then have "quota_start p (fst q) = W" "quota_reset p (fst q) = R"
            by (simp_all add: quota_start_def quota_reset_def)
          then have "quota_bounds p now = (W, R)" using perq(3)[of now] perq(2) W q b by simp
          then show False using other by (simp add: quota_start_def)
        qed
      qed
      then have "admitted_where (\<lambda>x. quota_bounds p x = (W, R)) rs (run_strategy (quota_mk p) ?st rs) = 0"
        by (rule admitted_where_none)
      moreover have "quota_cnt st W \<le> qp_limit p"
        using ok v by (auto simp: quota_cnt_def quota_ok_def quota_valid_def split: option.splits)
      ultimately show ?thesis using other by (simp add: r Let_def quota_bounds_pair)
    qed
  qed
qed

text \<open>
  C9. The budget per billing period: whatever the cadence (calendar month, week or day at an offset,
  or fixed from an anchor), the requests whose period is \<open>[start, reset)\<close> are admitted at most
  \<open>limit\<close> in total, from a cold start and as long as the clock does not run backwards. For the monthly cadence
  the clock must start on or after 0000-03-01 in the local time of the quota: before that day the date arithmetic of
  the code is wrong.
\<close>

theorem quota_budget:
  assumes "quota_valid p" "quota_dom p t" "monotone_from t rs"
  shows "admitted_where (\<lambda>x. quota_bounds p x = (start, reset)) rs (run_strategy (quota_mk p) None rs)
    \<le> qp_limit p"
  using quota_period_invariant[OF assms(1,2) _ assms(3), of None start reset] by simp

theorem quota_budget_witness:
  "admitted_where (\<lambda>x. quota_bounds \<lparr>qp_limit = 2, qp_cal = Some CalendarDay, qp_periodMs = 0,
       qp_anchor = 0, qp_offsetMs = 0, qp_weekStartsOn = 1\<rparr> x = (0, 86400000)) [(5, 1), (7, 1), (9, 1)]
     (run_strategy (quota_mk \<lparr>qp_limit = 2, qp_cal = Some CalendarDay, qp_periodMs = 0,
       qp_anchor = 0, qp_offsetMs = 0, qp_weekStartsOn = 1\<rparr>) None [(5, 1), (7, 1), (9, 1)]) \<le> 2"
  using quota_budget[of "\<lparr>qp_limit = 2, qp_cal = Some CalendarDay, qp_periodMs = 0,
       qp_anchor = 0, qp_offsetMs = 0, qp_weekStartsOn = 1\<rparr>" 0 "[(5, 1), (7, 1), (9, 1)]" 0 86400000]
  by (simp add: quota_valid_def quota_dom_def calendar_dom_def)

text \<open>The script's calendar is the same arithmetic.\<close>

lemma lua_days_eq: "lua_days_from_civil y m d = daysFromCivil y m d"
  by (simp add: lua_days_from_civil_def daysFromCivil_def fdiv_def Let_def)

lemma lua_civil_eq: "lua_civil_from_days z = (case civilFromDays z of (y, m, d) \<Rightarrow> (y, m))"
  unfolding lua_civil_from_days_def civilFromDays_def fdiv_def Let_def prod.case by (rule refl)

lemma quota_lua_bounds_eq:
  "quota_lua_bounds now (quota_mode (qp_cal p)) (qp_periodMs p) (qp_anchor p) (qp_offsetMs p) (qp_weekStartsOn p)
    = quota_bounds p now"
proof (cases "qp_cal p")
  case None
  then show ?thesis by (simp add: quota_lua_bounds_def quota_bounds_def quota_mode_def)
next
  case (Some c)
  then show ?thesis
    by (cases c)
       (simp_all add: quota_lua_bounds_def quota_bounds_def quota_mode_def calendarPeriod_def MS_PER_DAY_def
          fmod_eq lua_days_eq lua_civil_eq Let_def split: prod.splits)
qed

definition quota_hash :: "quota_state option \<Rightarrow> num option \<times> num option" where
  "quota_hash st = (map_option q_start st, map_option q_count st)"

lemma quota_lua_count:
  "(case fst (quota_hash st) of None \<Rightarrow> 0 | Some start \<Rightarrow> if start \<noteq> ps then 0
      else (case snd (quota_hash st) of Some c \<Rightarrow> c | None \<Rightarrow> 0)) = quota_cnt st ps"
  by (cases st) (auto simp: quota_hash_def quota_cnt_def)

lemma quota_bounds_Ints:
  assumes "qp_periodMs p \<in> \<int>" "qp_anchor p \<in> \<int>" "qp_offsetMs p \<in> \<int>"
  shows "quota_start p now \<in> \<int>" "quota_reset p now \<in> \<int>"
proof -
  have "MS_PER_DAY \<in> \<int>" by (simp add: MS_PER_DAY_def)
  then have "fst (quota_bounds p now) \<in> \<int> \<and> snd (quota_bounds p now) \<in> \<int>"
    using assms by (auto simp: quota_bounds_def calendarPeriod_def Let_def
      split: option.splits calendar_cadence.splits prod.splits)
  then show "quota_start p now \<in> \<int>" "quota_reset p now \<in> \<int>"
    by (simp_all add: quota_start_def quota_reset_def)
qed

text \<open>
  Equivalence with \<open>QUOTA_LUA\<close>: for whole-number options, clock, cost and stored count, the
  script's own calendar arithmetic gives the boundaries of \<open>bounds\<close>, its decoded reply is the decision
  of \<open>check\<close>, and it writes exactly when \<open>check\<close> persists, the same period start, count and TTL.
\<close>

theorem quota_lua_equiv:
  assumes "quota_valid p" "quota_dom p (lua_now argv time)"
    and "qp_limit p \<in> \<int>" "qp_periodMs p \<in> \<int>" "qp_anchor p \<in> \<int>" "qp_offsetMs p \<in> \<int>"
    and "cost \<in> \<int>" "lua_now argv time \<in> \<int>" "opt_inv (\<lambda>_ s. q_count s \<in> \<int>) 0 st"
  shows "let out = st_check (quota_mk p) st (lua_now argv time) cost;
             lua = quota_lua time argv (qp_limit p) cost (quota_mode (qp_cal p)) (qp_periodMs p)
                     (qp_anchor p) (qp_offsetMs p) (qp_weekStartsOn p) (quota_hash st)
         in decodeDecision (redis_reply (fst lua)) = o_result out \<and>
            snd lua = (if o_persist out
                       then Some (q_start (the (o_state out)), q_count (the (o_state out)), o_ttlMs out)
                       else None)"
proof -
  let ?now = "lua_now argv time"
  have b: "quota_start p ?now \<in> \<int>" "quota_reset p ?now \<in> \<int>" using assms(4-6) quota_bounds_Ints by auto
  have n: "quota_cnt st (quota_start p ?now) \<in> \<int>" using assms(9) by (cases st) (auto simp: quota_cnt_def)
  have "0 < quota_reset p ?now - ?now" using quota_period_interval(2)[OF assms(1,2)] by simp
  then have "1 \<le> quota_reset p ?now - ?now" using b(2) assms(8) by (auto elim!: Ints_cases)
  then show ?thesis
    unfolding quota_lua_def Let_def quota_lua_bounds_eq quota_bounds_pair prod.case quota_lua_count
    unfolding if_less_max quota_mk_sel quota_check_eq Let_def
    using assms(3,7,8) b n by (simp add: decodeDecision_def redis_reply_def)
qed

theorem quota_lua_equiv_witness:
  "decodeDecision (redis_reply (fst (quota_lua (0, 0) 1709251199999 10 1 1 0 0 0 1 (Some 0, Some 3))))
     = o_result (st_check (quota_mk \<lparr>qp_limit = 10, qp_cal = Some CalendarMonth, qp_periodMs = 0,
         qp_anchor = 0, qp_offsetMs = 0, qp_weekStartsOn = 1\<rparr>) (Some \<lparr>q_start = 0, q_count = 3\<rparr>) 1709251199999 1)"
  using quota_lua_equiv[of "\<lparr>qp_limit = 10, qp_cal = Some CalendarMonth, qp_periodMs = 0,
         qp_anchor = 0, qp_offsetMs = 0, qp_weekStartsOn = 1\<rparr>" 1709251199999 "(0, 0)" 1
         "Some \<lparr>q_start = 0, q_count = 3\<rparr>"]
  by (simp add: lua_now_def Let_def quota_valid_def quota_dom_def calendar_dom_def MS_PER_DAY_def
      quota_mode_def quota_hash_def)

end
