(* ===== verification/StoreContract.thy ===== *)
theory StoreContract
  imports Contract
begin

text \<open>
  The interface between a limiter and a synchronous store (\<open>Store.applySync\<close> of \<open>src/core/types.ts\<close>): an
  atomic read-modify-write per key over states that live until their TTL. The client lemmas turn a
  sequence of applications to many keys into independent runs per key.
\<close>

type_synonym ('s, 'r) transform = "'s option \<Rightarrow> ('s, 'r) apply_outcome"

text \<open>What a state written at \<open>now\<close> with a TTL shows at a later time \<open>t\<close>.\<close>

definition written_live :: "('s, 'r) apply_outcome \<Rightarrow> num \<Rightarrow> num \<Rightarrow> 's option" where
  "written_live out now t = (if now + max 0 (o_ttlMs out) > t then o_state out else None)"

locale sync_store =
  fixes app :: "'st \<Rightarrow> string \<Rightarrow> ('s, 'r) transform \<Rightarrow> num \<Rightarrow> 'r \<times> 'st"
    and ok :: "'st \<Rightarrow> bool"
    and live :: "'st \<Rightarrow> string \<Rightarrow> num \<Rightarrow> 's option"
  assumes app_result: "ok st \<Longrightarrow> fst (app st k f now) = o_result (f (live st k now))"
    and app_ok: "ok st \<Longrightarrow> ok (snd (app st k f now))"
    and app_key: "ok st \<Longrightarrow> now \<le> t \<Longrightarrow> live (snd (app st k f now)) k t =
      (if o_persist (f (live st k now)) then written_live (f (live st k now)) now t else live st k t)"
    and app_frame: "ok st \<Longrightarrow> now \<le> t \<Longrightarrow> k' \<noteq> k \<Longrightarrow> live (snd (app st k f now)) k' t = live st k' t"
begin

text \<open>
  A store key simulates a cell from time \<open>t\<close> on when both show the same state at every instant.
\<close>

definition matches :: "'st \<Rightarrow> string \<Rightarrow> num \<Rightarrow> 's cell \<Rightarrow> bool" where
  "matches st k t cl \<longleftrightarrow> ok st \<and> (\<forall>t'\<ge>t. live st k t' = live_cell cl t')"

lemma matches_mono: "matches st k t cl \<Longrightarrow> t \<le> t' \<Longrightarrow> matches st k t' cl"
  by (auto simp: matches_def)

lemma matches_frame: "matches st k t cl \<Longrightarrow> t \<le> now \<Longrightarrow> k \<noteq> k' \<Longrightarrow> matches (snd (app st k' f now)) k now cl"
  by (auto simp: matches_def app_ok app_frame)

lemma matches_result: "matches st k t cl \<Longrightarrow> t \<le> now \<Longrightarrow> fst (app st k f now) = o_result (f (live_cell cl now))"
  by (auto simp: matches_def app_result)

lemma matches_app:
  assumes "matches st k t cl" "t \<le> now"
  shows "matches (snd (app st k f now)) k now (next_cell cl now (f (live_cell cl now)))"
proof -
  have l: "live st k t' = live_cell cl t'" if "now \<le> t'" for t' using assms that by (simp add: matches_def)
  have o: "ok st" using assms by (simp add: matches_def)
  have "live_cell (next_cell cl now (f (live_cell cl now))) t' =
      (if o_persist (f (live_cell cl now)) then written_live (f (live_cell cl now)) now t' else live_cell cl t')"
    if "now \<le> t'" for t'
    using that by (auto simp: next_cell_def live_cell_def written_live_def split: option.splits)
  then show ?thesis using o l by (simp add: matches_def app_ok app_key)
qed

lemma matches_readonly:
  "matches st k t cl \<Longrightarrow> t \<le> now \<Longrightarrow> (\<And>s. \<not> o_persist (f s)) \<Longrightarrow> matches (snd (app st k f now)) k now cl"
  by (auto simp: matches_def app_ok app_key)

end

text \<open>
  A store that can also be reset at a key and swept: a sweep is invisible, a reset forgets one key.
\<close>

locale managed_store = sync_store app ok live
  for app :: "'st \<Rightarrow> string \<Rightarrow> ('s, 'r) transform \<Rightarrow> num \<Rightarrow> 'r \<times> 'st" and ok and live +
  fixes rst :: "'st \<Rightarrow> string \<Rightarrow> 'st"
    and swp :: "'st \<Rightarrow> num \<Rightarrow> 'st"
  assumes reset_ok: "ok st \<Longrightarrow> ok (rst st k)"
    and reset_live: "ok st \<Longrightarrow> live (rst st k) k' t = (if k' = k then None else live st k' t)"
    and sweep_ok: "ok st \<Longrightarrow> ok (swp st now)"
    and sweep_live: "ok st \<Longrightarrow> now \<le> t \<Longrightarrow> live (swp st now) k t = live st k t"
begin

lemma matches_reset: "matches st k t cl \<Longrightarrow> matches (rst st k) k t None"
  by (simp add: matches_def reset_ok reset_live live_cell_def)

lemma matches_reset_frame: "matches st k t cl \<Longrightarrow> k \<noteq> k' \<Longrightarrow> matches (rst st k') k t cl"
  by (simp add: matches_def reset_ok reset_live)

lemma matches_sweep: "matches st k t cl \<Longrightarrow> t \<le> now \<Longrightarrow> matches (swp st now) k now cl"
  by (simp add: matches_def sweep_ok sweep_live)

end

end
