(* ===== verification/TimingWheel.thy ===== *)
theory TimingWheel
  imports Prelude
begin

text \<open>
  \<open>src/stores/timing-wheel.ts\<close>: keys bucketed by the tick of their expiry, in \<open>wheelSize\<close> slots. The
  lemmas: the invariant that ties slots and entries together and that every operation keeps, the
  reference map a wheel stands for and the refinement of each operation to it, that \<open>advance\<close> only
  ever expires keys whose time has come, and that one whole rotation expires them all.
\<close>

section \<open>The wheel\<close>

record wheel_entry =
  we_exp :: num
  we_slot :: nat

text \<open>A JavaScript \<open>Set\<close> iterates in insertion order, so a slot is a list without repetitions.\<close>

record wheel =
  tw_tickMs :: num
  tw_slots :: "string list list"
  tw_entries :: "string \<rightharpoonup> wheel_entry"
  tw_lastTick :: int

definition tw_n :: "wheel \<Rightarrow> nat" where
  "tw_n w = length (tw_slots w)"

definition tw_new :: "num \<Rightarrow> num option \<Rightarrow> num option \<Rightarrow> wheel" where
  "tw_new now tickMs wheelSize =
     (let tick = max 1 (js_floor (case tickMs of Some t \<Rightarrow> t | None \<Rightarrow> 1000));
          n = nat \<lfloor>max 2 (js_floor (case wheelSize of Some s \<Rightarrow> s | None \<Rightarrow> 512))\<rfloor>
      in \<lparr>tw_tickMs = tick, tw_slots = replicate n [], tw_entries = Map.empty,
          tw_lastTick = \<lfloor>now / tick\<rfloor>\<rparr>)"

definition set_add :: "'a \<Rightarrow> 'a list \<Rightarrow> 'a list" where
  "set_add x xs = (if x \<in> set xs then xs else xs @ [x])"

definition set_delete :: "'a \<Rightarrow> 'a list \<Rightarrow> 'a list" where
  "set_delete x xs = filter (\<lambda>y. y \<noteq> x) xs"

text \<open>\<open>slotForTick\<close>: the remainder of JavaScript takes the sign of the dividend and is corrected.\<close>

definition tw_slotForTick :: "wheel \<Rightarrow> int \<Rightarrow> nat" where
  "tw_slotForTick w tick =
     (let n = int (tw_n w);
          m = (if 0 \<le> tick then tick mod n else - ((- tick) mod n))
      in nat (if m < 0 then m + n else m))"

definition tw_set :: "wheel \<Rightarrow> string \<Rightarrow> num \<Rightarrow> wheel" where
  "tw_set w key expiresAt =
     (let tick = max (tw_lastTick w + 1) \<lfloor>expiresAt / tw_tickMs w\<rfloor>;
          slot = tw_slotForTick w tick
      in case tw_entries w key of
           Some prev \<Rightarrow>
             (let slots = (if we_slot prev \<noteq> slot
                  then (let s = (tw_slots w)[we_slot prev := set_delete key (tw_slots w ! we_slot prev)]
                        in s[slot := set_add key (s ! slot)])
                  else tw_slots w)
              in w\<lparr>tw_slots := slots,
                   tw_entries := (tw_entries w)(key \<mapsto> \<lparr>we_exp = expiresAt, we_slot = slot\<rparr>)\<rparr>)
         | None \<Rightarrow>
             w\<lparr>tw_slots := (tw_slots w)[slot := set_add key (tw_slots w ! slot)],
               tw_entries := (tw_entries w)(key \<mapsto> \<lparr>we_exp = expiresAt, we_slot = slot\<rparr>)\<rparr>)"

definition tw_delete :: "wheel \<Rightarrow> string \<Rightarrow> wheel" where
  "tw_delete w key =
     (case tw_entries w key of
        None \<Rightarrow> w
      | Some e \<Rightarrow>
          w\<lparr>tw_slots := (tw_slots w)[we_slot e := set_delete key (tw_slots w ! we_slot e)],
            tw_entries := (tw_entries w)(key := None)\<rparr>)"

definition tw_isExpired :: "wheel \<Rightarrow> string \<Rightarrow> num \<Rightarrow> bool" where
  "tw_isExpired w key now = (case tw_entries w key of None \<Rightarrow> True | Some e \<Rightarrow> we_exp e \<le> now)"

definition tw_has :: "wheel \<Rightarrow> string \<Rightarrow> bool" where
  "tw_has w key = (tw_entries w key \<noteq> None)"

text \<open>
  The inner loop of \<open>advance\<close> over the keys of one slot: the keys still to visit, the wheel, and the
  keys \<open>onExpire\<close> was called with, in order.
\<close>

fun tw_sweep :: "num \<Rightarrow> nat \<Rightarrow> string list \<Rightarrow> wheel \<Rightarrow> wheel \<times> string list" where
  "tw_sweep now slot [] w = (w, [])"
| "tw_sweep now slot (key # keys) w =
     (case tw_entries w key of
        Some e \<Rightarrow>
          (if we_exp e \<le> now
           then (let w1 = w\<lparr>tw_slots := (tw_slots w)[slot := set_delete key (tw_slots w ! slot)],
                            tw_entries := (tw_entries w)(key := None)\<rparr>;
                     (w2, expired) = tw_sweep now slot keys w1
                 in (w2, key # expired))
           else tw_sweep now slot keys w)
      | None \<Rightarrow> tw_sweep now slot keys w)"

text \<open>The outer loop, from step \<open>i\<close> with \<open>k\<close> steps to go.\<close>

fun tw_steps :: "num \<Rightarrow> int \<Rightarrow> nat \<Rightarrow> wheel \<Rightarrow> wheel \<times> string list" where
  "tw_steps now i 0 w = (w, [])"
| "tw_steps now i (Suc k) w =
     (let slot = tw_slotForTick w (tw_lastTick w + i);
          (w1, e1) = tw_sweep now slot (tw_slots w ! slot) w;
          (w2, e2) = tw_steps now (i + 1) k w1
      in (w2, e1 @ e2))"

definition tw_advance :: "wheel \<Rightarrow> num \<Rightarrow> wheel \<times> string list" where
  "tw_advance w now =
     (let curTick = \<lfloor>now / tw_tickMs w\<rfloor>;
          steps = curTick - tw_lastTick w
      in if steps \<le> 0 then (w, [])
         else (let s = (if steps > int (tw_n w) then int (tw_n w) else steps);
                   (w1, expired) = tw_steps now 1 (nat s) w
               in (w1\<lparr>tw_lastTick := curTick\<rparr>, expired)))"

section \<open>The invariant\<close>

definition wheel_ok :: "wheel \<Rightarrow> bool" where
  "wheel_ok w \<longleftrightarrow>
     2 \<le> tw_n w \<and> 0 < tw_tickMs w \<and> (\<forall>s\<in>set (tw_slots w). distinct s) \<and>
     (\<forall>i<tw_n w. \<forall>key. key \<in> set (tw_slots w ! i) \<longleftrightarrow> (\<exists>e. tw_entries w key = Some e \<and> we_slot e = i)) \<and>
     (\<forall>key e. tw_entries w key = Some e \<longrightarrow> we_slot e < tw_n w)"

text \<open>What a wheel stands for: the expiry time of each scheduled key.\<close>

definition wheel_abs :: "wheel \<Rightarrow> string \<rightharpoonup> num" where
  "wheel_abs w key = map_option we_exp (tw_entries w key)"

lemma set_add_set [simp]: "set (set_add x xs) = insert x (set xs)"
  by (auto simp: set_add_def)

lemma set_add_distinct [simp]: "distinct xs \<Longrightarrow> distinct (set_add x xs)"
  by (simp add: set_add_def)

lemma set_delete_set [simp]: "set (set_delete x xs) = set xs - {x}"
  by (auto simp: set_delete_def)

lemma set_delete_distinct [simp]: "distinct xs \<Longrightarrow> distinct (set_delete x xs)"
  by (simp add: set_delete_def)

lemma tw_slot_eq: "2 \<le> tw_n w \<Longrightarrow> tw_slotForTick w tick = nat (tick mod int (tw_n w))"
proof -
  assume n: "2 \<le> tw_n w"
  show ?thesis
  proof (cases "0 \<le> tick")
    case True
    moreover have "0 \<le> tick mod int (tw_n w)" using n by simp
    ultimately show ?thesis by (simp add: tw_slotForTick_def Let_def)
  next
    case False
    have "(- tick) mod int (tw_n w) < int (tw_n w)" "0 \<le> (- tick) mod int (tw_n w)" using n by simp_all
    moreover have "tick mod int (tw_n w) =
        (if (- tick) mod int (tw_n w) = 0 then 0 else int (tw_n w) - (- tick) mod int (tw_n w))"
      using zmod_zminus1_eq_if[of "- tick" "int (tw_n w)"] by simp
    ultimately show ?thesis using False by (auto simp: tw_slotForTick_def Let_def)
  qed
qed

lemma tw_slot_less: "2 \<le> tw_n w \<Longrightarrow> tw_slotForTick w tick < tw_n w"
  by (simp add: tw_slot_eq nat_less_iff)

lemma wheel_okD:
  assumes "wheel_ok w"
  shows "2 \<le> tw_n w" "0 < tw_tickMs w" "i < tw_n w \<Longrightarrow> distinct (tw_slots w ! i)"
    "i < tw_n w \<Longrightarrow> key \<in> set (tw_slots w ! i) \<longleftrightarrow> (\<exists>e. tw_entries w key = Some e \<and> we_slot e = i)"
    "tw_entries w key = Some e \<Longrightarrow> we_slot e < tw_n w"
  using assms by (auto simp: wheel_ok_def tw_n_def)

lemma wheel_okI:
  assumes "2 \<le> tw_n w" "0 < tw_tickMs w" "\<And>i. i < tw_n w \<Longrightarrow> distinct (tw_slots w ! i)"
    "\<And>i key. i < tw_n w \<Longrightarrow> key \<in> set (tw_slots w ! i) \<longleftrightarrow> (\<exists>e. tw_entries w key = Some e \<and> we_slot e = i)"
    "\<And>key e. tw_entries w key = Some e \<Longrightarrow> we_slot e < tw_n w"
  shows "wheel_ok w"
  using assms by (auto simp: wheel_ok_def tw_n_def in_set_conv_nth)

lemma tw_new_ok: "wheel_ok (tw_new now a b)" "wheel_abs (tw_new now a b) = Map.empty"
proof -
  have "2 \<le> nat \<lfloor>max 2 (js_floor x)\<rfloor>" for x by (simp add: le_nat_iff le_floor_iff)
  then show "wheel_ok (tw_new now a b)"
    by (intro wheel_okI) (simp_all add: tw_new_def tw_n_def Let_def)
  show "wheel_abs (tw_new now a b) = Map.empty" by (rule ext) (simp add: wheel_abs_def tw_new_def Let_def)
qed

text \<open>Removing a scheduled key from its slot and from the entries.\<close>

lemma wheel_remove:
  assumes ok: "wheel_ok w" and e: "tw_entries w key = Some e"
  defines "w' \<equiv> w\<lparr>tw_slots := (tw_slots w)[we_slot e := set_delete key (tw_slots w ! we_slot e)],
                   tw_entries := (tw_entries w)(key := None)\<rparr>"
  shows "wheel_ok w'" "wheel_abs w' = (wheel_abs w)(key := None)" "tw_n w' = tw_n w"
proof -
  note d = wheel_okD[OF ok]
  have s: "we_slot e < tw_n w" using d(5)[OF e] .
  have nth: "tw_slots w' ! i = (if i = we_slot e then set_delete key (tw_slots w ! i) else tw_slots w ! i)"
    if "i < tw_n w" for i
    using that s by (simp add: w'_def tw_n_def nth_list_update)
  show n: "tw_n w' = tw_n w" by (simp add: w'_def tw_n_def)
  show "wheel_ok w'"
  proof (rule wheel_okI)
    show "key' \<in> set (tw_slots w' ! i) \<longleftrightarrow> (\<exists>x. tw_entries w' key' = Some x \<and> we_slot x = i)"
      if "i < tw_n w'" for i key'
      using that d(4)[of i key'] e n nth[of i] by (auto simp: w'_def)
    show "distinct (tw_slots w' ! i)" if "i < tw_n w'" for i using that d(3)[of i] n nth[of i] by (cases "i = we_slot e") simp_all
    show "we_slot x < tw_n w'" if "tw_entries w' key' = Some x" for key' x
      using that d(5)[of key' x] n by (simp add: w'_def split: if_splits)
  qed (use d(1,2) n in \<open>simp_all add: w'_def\<close>)
  show "wheel_abs w' = (wheel_abs w)(key := None)" by (rule ext) (simp add: w'_def wheel_abs_def)
qed

lemma tw_delete_ok:
  assumes "wheel_ok w"
  shows "wheel_ok (tw_delete w key)" "wheel_abs (tw_delete w key) = (wheel_abs w)(key := None)"
proof -
  have "wheel_ok (tw_delete w key) \<and> wheel_abs (tw_delete w key) = (wheel_abs w)(key := None)"
  proof (cases "tw_entries w key")
    case None
    then have "wheel_abs w key = None" by (simp add: wheel_abs_def)
    then have "(wheel_abs w)(key := None) = wheel_abs w" by (metis fun_upd_triv)
    then show ?thesis using None assms by (simp add: tw_delete_def)
  next
    case (Some e)
    then show ?thesis using wheel_remove[OF assms Some] by (simp add: tw_delete_def)
  qed
  then show "wheel_ok (tw_delete w key)" "wheel_abs (tw_delete w key) = (wheel_abs w)(key := None)" by auto
qed

lemma tw_set_fresh:
  fixes x :: num
  assumes ok: "wheel_ok w" and e: "tw_entries w key = None" and s: "s < tw_n w"
  defines "w' \<equiv> w\<lparr>tw_slots := (tw_slots w)[s := set_add key (tw_slots w ! s)],
               tw_entries := (tw_entries w)(key \<mapsto> \<lparr>we_exp = x, we_slot = s\<rparr>)\<rparr>"
  shows "wheel_ok w'"
proof -
  note d = wheel_okD[OF ok]
  have n: "tw_n w' = tw_n w" by (simp add: w'_def tw_n_def)
  have nth: "tw_slots w' ! i = (if i = s then set_add key (tw_slots w ! i) else tw_slots w ! i)"
    if "i < tw_n w" for i
    using that s by (simp add: w'_def tw_n_def nth_list_update)
  show ?thesis
  proof (rule wheel_okI)
    show "key' \<in> set (tw_slots w' ! i) \<longleftrightarrow> (\<exists>y. tw_entries w' key' = Some y \<and> we_slot y = i)"
      if "i < tw_n w'" for i key'
      using that d(4)[of i key'] e n nth[of i] by (auto simp: w'_def)
    show "distinct (tw_slots w' ! i)" if "i < tw_n w'" for i using that d(3)[of i] n nth[of i] by (cases "i = s") simp_all
    show "we_slot y < tw_n w'" if "tw_entries w' key' = Some y" for key' y
      using that d(5)[of key' y] n s by (auto simp: w'_def split: if_splits)
  qed (use d(1,2) n in \<open>simp_all add: w'_def\<close>)
qed

lemma tw_set_ok:
  assumes ok: "wheel_ok w"
  shows "wheel_ok (tw_set w key x)" "wheel_abs (tw_set w key x) = (wheel_abs w)(key \<mapsto> x)"
proof -
  note d = wheel_okD[OF ok]
  let ?s = "tw_slotForTick w (max (tw_lastTick w + 1) \<lfloor>x / tw_tickMs w\<rfloor>)"
  have s: "?s < tw_n w" by (rule tw_slot_less[OF d(1)])
  show "wheel_ok (tw_set w key x)"
  proof (cases "tw_entries w key")
    case None
    then show ?thesis using tw_set_fresh[OF ok None s] by (simp add: tw_set_def Let_def)
  next
    case (Some e)
    show ?thesis
    proof (cases "we_slot e = ?s")
      case True
      then show ?thesis using d Some s[unfolded tw_n_def]
        by (intro wheel_okI) (auto simp: tw_set_def Let_def tw_n_def split: if_splits)
    next
      case False
      let ?w = "w\<lparr>tw_slots := (tw_slots w)[we_slot e := set_delete key (tw_slots w ! we_slot e)],
                   tw_entries := (tw_entries w)(key := None)\<rparr>"
      note rm = wheel_remove[OF ok Some]
      have "tw_set w key x = ?w\<lparr>tw_slots := (tw_slots ?w)[?s := set_add key (tw_slots ?w ! ?s)],
               tw_entries := (tw_entries ?w)(key \<mapsto> \<lparr>we_exp = x, we_slot = ?s\<rparr>)\<rparr>"
        using Some False by (simp add: tw_set_def Let_def)
      then show ?thesis using tw_set_fresh[OF rm(1), of key ?s x] rm(3) s by simp
    qed
  qed
  show "wheel_abs (tw_set w key x) = (wheel_abs w)(key \<mapsto> x)"
    by (rule ext) (auto simp: wheel_abs_def tw_set_def Let_def split: option.splits)
qed

text \<open>
  Sweeping one slot removes exactly the visited keys whose time has come and reports them.
\<close>

lemma tw_sweep_ok:
  assumes "wheel_ok w" "slot < tw_n w" "distinct keys" "set keys \<subseteq> set (tw_slots w ! slot)"
    and "tw_sweep now slot keys w = (w', ex)"
  shows "wheel_ok w' \<and> tw_n w' = tw_n w \<and> tw_lastTick w' = tw_lastTick w \<and> tw_tickMs w' = tw_tickMs w \<and>
    distinct ex \<and> set ex = {k \<in> set keys. \<exists>x. wheel_abs w k = Some x \<and> x \<le> now} \<and>
    wheel_abs w' = (wheel_abs w) |` (- set ex) \<and>
    (\<forall>k. k \<notin> set ex \<longrightarrow> tw_entries w' k = tw_entries w k)"
  using assms
proof (induction keys arbitrary: w ex)
  case Nil
  then show ?case by auto
next
  case (Cons key keys)
  have "key \<in> set (tw_slots w ! slot)" using Cons.prems(4) by simp
  then obtain e where e: "tw_entries w key = Some e" "we_slot e = slot"
    using wheel_okD(4)[OF Cons.prems(1,2)] by blast
  show ?case
  proof (cases "we_exp e \<le> now")
    case True
    let ?w = "w\<lparr>tw_slots := (tw_slots w)[slot := set_delete key (tw_slots w ! slot)],
                tw_entries := (tw_entries w)(key := None)\<rparr>"
    obtain ex2 where sw: "tw_sweep now slot keys ?w = (w', ex2)" and ex: "ex = key # ex2"
      using Cons.prems(5) e(1) True by (auto simp: Let_def split: prod.splits)
    have rm: "wheel_ok ?w" "wheel_abs ?w = (wheel_abs w)(key := None)" "tw_n ?w = tw_n w"
      using wheel_remove[OF Cons.prems(1) e(1)] e(2) by simp_all
    have sub: "set keys \<subseteq> set (tw_slots ?w ! slot)"
      using Cons.prems(2-4) by (auto simp: tw_n_def)
    note IH = Cons.IH[OF rm(1) _ _ sub sw]
    have kx: "wheel_abs w key = Some (we_exp e)" using e(1) by (simp add: wheel_abs_def)
    have IH': "wheel_ok w'" "tw_n w' = tw_n w" "tw_lastTick w' = tw_lastTick w" "tw_tickMs w' = tw_tickMs w"
      "distinct ex2" "set ex2 = {k \<in> set keys. \<exists>x. wheel_abs ?w k = Some x \<and> x \<le> now}"
      "wheel_abs w' = (wheel_abs ?w) |` (- set ex2)" "\<forall>k. k \<notin> set ex2 \<longrightarrow> tw_entries w' k = tw_entries ?w k"
      using IH Cons.prems(2,3) rm(3) by auto
    have "wheel_abs w' = (wheel_abs w) |` (- set ex)"
      unfolding IH'(7) rm(2) ex by (rule ext) (simp add: restrict_map_def)
    moreover have "key \<notin> set keys" using Cons.prems(3) by simp
    ultimately show ?thesis using IH' ex True kx unfolding rm(2) by auto
  next
    case False
    have sw: "tw_sweep now slot keys w = (w', ex)" using Cons.prems(5) e(1) False by simp
    have "wheel_abs w key = Some (we_exp e)" using e(1) by (simp add: wheel_abs_def)
    then show ?thesis using Cons.IH[OF Cons.prems(1,2) _ _ sw] Cons.prems(3,4) False by auto
  qed
qed

text \<open>The slots that \<open>k\<close> steps from step \<open>i\<close> on visit.\<close>

definition visited :: "wheel \<Rightarrow> int \<Rightarrow> nat \<Rightarrow> nat set" where
  "visited w i k = (\<lambda>j. tw_slotForTick w (tw_lastTick w + i + int j)) ` {..<k}"

lemma visited_Suc:
  "visited w i (Suc k) = insert (tw_slotForTick w (tw_lastTick w + i)) (visited w (i + 1) k)"
proof -
  have "{..<Suc k} = insert 0 (Suc ` {..<k})" by (auto simp: lessThan_Suc_eq_insert_0)
  then show ?thesis by (simp add: visited_def image_image add.assoc)
qed

lemma visited_cong:
  "tw_n w' = tw_n w \<Longrightarrow> tw_lastTick w' = tw_lastTick w \<Longrightarrow> visited w' i k = visited w i k"
  by (simp add: visited_def tw_slotForTick_def)

lemma tw_steps_ok:
  assumes "wheel_ok w" "tw_steps now i k w = (w', ex)"
  shows "wheel_ok w' \<and> tw_n w' = tw_n w \<and> tw_lastTick w' = tw_lastTick w \<and> tw_tickMs w' = tw_tickMs w \<and>
    distinct ex \<and>
    set ex = {key. \<exists>e. tw_entries w key = Some e \<and> we_exp e \<le> now \<and> we_slot e \<in> visited w i k} \<and>
    wheel_abs w' = (wheel_abs w) |` (- set ex) \<and> (\<forall>key. key \<notin> set ex \<longrightarrow> tw_entries w' key = tw_entries w key)"
  using assms
proof (induction k arbitrary: i w ex)
  case 0
  then show ?case by (auto simp: visited_def)
next
  case (Suc k)
  let ?s = "tw_slotForTick w (tw_lastTick w + i)"
  obtain w1 e1 where sw: "tw_sweep now ?s (tw_slots w ! ?s) w = (w1, e1)" by (metis prod.exhaust)
  obtain e2 where st: "tw_steps now (i + 1) k w1 = (w', e2)" and ex: "ex = e1 @ e2"
    using Suc.prems(2) sw by (auto simp: Let_def split: prod.splits)
  note d = wheel_okD[OF Suc.prems(1)]
  have s: "?s < tw_n w" by (rule tw_slot_less[OF d(1)])
  note A = tw_sweep_ok[OF Suc.prems(1) s d(3)[OF s] order_refl sw]
  then have B: "wheel_ok w'" "tw_n w' = tw_n w1" "tw_lastTick w' = tw_lastTick w1" "tw_tickMs w' = tw_tickMs w1"
    "distinct e2" "set e2 = {key. \<exists>e. tw_entries w1 key = Some e \<and> we_exp e \<le> now \<and> we_slot e \<in> visited w1 (i + 1) k}"
    "wheel_abs w' = (wheel_abs w1) |` (- set e2)" "\<forall>key. key \<notin> set e2 \<longrightarrow> tw_entries w' key = tw_entries w1 key"
    using Suc.IH[OF _ st] by auto
  have e1: "set e1 = {key. \<exists>e. tw_entries w key = Some e \<and> we_exp e \<le> now \<and> we_slot e = ?s}"
    using A d(4)[OF s] by (auto simp: wheel_abs_def)
  have gone: "tw_entries w1 key = None" if "key \<in> set e1" for key
  proof -
    have "wheel_abs w1 = (wheel_abs w) |` (- set e1)" using A by blast
    then have "wheel_abs w1 key = None" using that by (simp only: restrict_map_def) simp
    then show ?thesis by (simp add: wheel_abs_def)
  qed
  have w1: "tw_entries w1 key = (if key \<in> set e1 then None else tw_entries w key)" for key
    using gone A by auto
  have vis: "visited w1 (i + 1) k = visited w (i + 1) k" using A by (intro visited_cong) auto
  have "set ex = {key. \<exists>e. tw_entries w key = Some e \<and> we_exp e \<le> now \<and> we_slot e \<in> visited w i (Suc k)}"
    unfolding visited_Suc ex set_append B(6) vis w1 e1 by auto
  moreover have "distinct ex" unfolding ex using A B(5,6) gone by auto
  moreover have "wheel_abs w' = (wheel_abs w) |` (- set ex)"
    using A unfolding B(7) ex by (auto simp: restrict_map_def fun_eq_iff)
  moreover have "\<forall>key. key \<notin> set ex \<longrightarrow> tw_entries w' key = tw_entries w key" using B(8) w1 ex by simp
  moreover have "wheel_ok w'" "tw_n w' = tw_n w" "tw_lastTick w' = tw_lastTick w" "tw_tickMs w' = tw_tickMs w"
    using A B(1-4) by simp_all
  ultimately show ?case by blast
qed

text \<open>What \<open>advance\<close> does: the keys of the visited slots whose time has come leave, and no other.\<close>

definition advance_visits :: "wheel \<Rightarrow> num \<Rightarrow> nat set" where
  "advance_visits w now =
     visited w 1 (nat (min (int (tw_n w)) (\<lfloor>now / tw_tickMs w\<rfloor> - tw_lastTick w)))"

lemma tw_advance_ok:
  assumes ok: "wheel_ok w" and adv: "tw_advance w now = (w', ex)"
  shows "wheel_ok w'" "distinct ex" "tw_tickMs w' = tw_tickMs w" "tw_n w' = tw_n w"
    "tw_lastTick w' = max (tw_lastTick w) \<lfloor>now / tw_tickMs w\<rfloor>"
    "set ex = {key. \<exists>e. tw_entries w key = Some e \<and> we_exp e \<le> now \<and> we_slot e \<in> advance_visits w now}"
    "wheel_abs w' = (wheel_abs w) |` (- set ex)"
proof -
  let ?c = "\<lfloor>now / tw_tickMs w\<rfloor>"
  have "wheel_ok w' \<and> distinct ex \<and> tw_tickMs w' = tw_tickMs w \<and> tw_n w' = tw_n w \<and>
    tw_lastTick w' = max (tw_lastTick w) ?c \<and>
    set ex = {key. \<exists>e. tw_entries w key = Some e \<and> we_exp e \<le> now \<and> we_slot e \<in> advance_visits w now} \<and>
    wheel_abs w' = (wheel_abs w) |` (- set ex)"
  proof (cases "?c - tw_lastTick w \<le> 0")
    case True
    then have "w' = w" "ex = []" using adv by (auto simp: tw_advance_def Let_def)
    moreover have "advance_visits w now = {}" using True by (simp add: advance_visits_def visited_def)
    ultimately show ?thesis using ok True by (auto simp: restrict_map_def)
  next
    case False
    define s where "s = nat (min (int (tw_n w)) (?c - tw_lastTick w))"
    have "s = nat (if ?c - tw_lastTick w > int (tw_n w) then int (tw_n w) else ?c - tw_lastTick w)"
      by (simp add: s_def min_def)
    then obtain w1 where st: "tw_steps now 1 s w = (w1, ex)" and w': "w' = w1\<lparr>tw_lastTick := ?c\<rparr>"
      using adv False by (auto simp: tw_advance_def Let_def split: prod.splits)
    note A = tw_steps_ok[OF ok st]
    have "wheel_ok w'" using A by (auto simp: w' wheel_ok_def tw_n_def)
    moreover have "wheel_abs w' = wheel_abs w1" by (rule ext) (simp add: w' wheel_abs_def)
    moreover have "advance_visits w now = visited w 1 s" by (simp add: advance_visits_def s_def)
    ultimately show ?thesis using A False by (auto simp: w' tw_n_def)
  qed
  then show "wheel_ok w'" "distinct ex" "tw_tickMs w' = tw_tickMs w" "tw_n w' = tw_n w"
    "tw_lastTick w' = max (tw_lastTick w) \<lfloor>now / tw_tickMs w\<rfloor>"
    "set ex = {key. \<exists>e. tw_entries w key = Some e \<and> we_exp e \<le> now \<and> we_slot e \<in> advance_visits w now}"
    "wheel_abs w' = (wheel_abs w) |` (- set ex)" by blast+
qed

lemma advance_visits_all:
  assumes n: "2 \<le> tw_n w" and "tw_lastTick w + int (tw_n w) \<le> \<lfloor>now / tw_tickMs w\<rfloor>" and i: "i < tw_n w"
  shows "i \<in> advance_visits w now"
proof -
  let ?n = "int (tw_n w)" and ?l = "tw_lastTick w + 1"
  have "nat (min ?n (\<lfloor>now / tw_tickMs w\<rfloor> - tw_lastTick w)) = tw_n w" using assms(2) by simp
  then have v: "advance_visits w now = (\<lambda>j. tw_slotForTick w (?l + int j)) ` {..<tw_n w}"
    by (simp add: advance_visits_def visited_def)
  define j where "j = nat ((int i - ?l) mod ?n)"
  have "int j = (int i - ?l) mod ?n" using n by (simp add: j_def)
  then have "(?l + int j) mod ?n = int i mod ?n" by (metis mod_add_right_eq add.commute diff_add_cancel)
  then have "tw_slotForTick w (?l + int j) = i" using n i by (simp add: tw_slot_eq)
  moreover have "j < tw_n w" using n by (simp add: j_def nat_less_iff)
  ultimately show ?thesis unfolding v by (metis image_eqI lessThan_iff)
qed

section \<open>Correctness\<close>

text \<open>
  C10. The wheel refines a plain map from keys to expiry times, and keeps its invariant: \<open>set\<close> and
  \<open>delete\<close> are update and removal, \<open>isExpired\<close> is read off the map, and \<open>advance\<close> reports each key at
  most once, reports and removes only keys whose time has come, and keeps the expiry of all others.
\<close>

theorem timing_wheel_refines_map:
  assumes "wheel_ok w" "tw_advance w now = (w', expired)"
  shows "wheel_ok (tw_set w key x) \<and> wheel_abs (tw_set w key x) = (wheel_abs w)(key \<mapsto> x) \<and>
    wheel_ok (tw_delete w key) \<and> wheel_abs (tw_delete w key) = (wheel_abs w)(key := None) \<and>
    (tw_isExpired w key t \<longleftrightarrow> (case wheel_abs w key of None \<Rightarrow> True | Some e \<Rightarrow> e \<le> t)) \<and>
    wheel_ok w' \<and> distinct expired \<and>
    (\<forall>k\<in>set expired. \<exists>e. wheel_abs w k = Some e \<and> e \<le> now) \<and>
    (\<forall>k. wheel_abs w' k = (if k \<in> set expired then None else wheel_abs w k))"
  using tw_set_ok[OF assms(1)] tw_delete_ok[OF assms(1)] tw_advance_ok[OF assms]
  by (auto simp: tw_isExpired_def wheel_abs_def restrict_map_def split: option.splits)

theorem timing_wheel_refines_map_witness:
  "wheel_abs (tw_set (tw_new 0 None None) ''a'' 5) = Map.empty(''a'' \<mapsto> 5)"
proof -
  obtain w' ex where "tw_advance (tw_new 0 None None) 0 = (w', ex)" by (metis prod.exhaust)
  from timing_wheel_refines_map[OF tw_new_ok(1) this, of "''a''" 5 0] show ?thesis
    by (simp add: tw_new_ok(2))
qed

text \<open>
  C11. An idle gap of at least one rotation leaves nothing behind: when \<open>advance\<close> is called
  \<open>wheelSize\<close> or more ticks after the last one it processed, it expires every key whose time has come,
  so exactly the keys that still have time remain scheduled.
\<close>

theorem timing_wheel_rotation_complete:
  assumes "wheel_ok w" "tw_advance w now = (w', expired)"
    and "tw_lastTick w + int (tw_n w) \<le> \<lfloor>now / tw_tickMs w\<rfloor>"
  shows "wheel_abs w' k = (case wheel_abs w k of Some e \<Rightarrow> if e \<le> now then None else Some e | None \<Rightarrow> None)"
proof -
  note A = tw_advance_ok[OF assms(1,2)] and d = wheel_okD[OF assms(1)]
  have "set expired = {key. \<exists>e. tw_entries w key = Some e \<and> we_exp e \<le> now}"
    unfolding A(6) using advance_visits_all[OF d(1) assms(3)] d(5) by blast
  then show ?thesis unfolding A(7) by (auto simp: restrict_map_def wheel_abs_def split: option.splits)
qed

theorem timing_wheel_rotation_complete_witness:
  "wheel_abs (fst (tw_advance (tw_set (tw_new 0 (Some 1000) (Some 4)) ''a'' 1500) 4000)) ''a'' = None"
proof -
  let ?w = "tw_set (tw_new 0 (Some 1000) (Some 4)) ''a'' 1500"
  have l: "tw_lastTick ?w = 0" "tw_n ?w = 4" "tw_tickMs ?w = 1000"
    by (simp_all add: tw_set_def tw_new_def tw_n_def Let_def)
  obtain w' ex where a: "tw_advance ?w 4000 = (w', ex)" by (metis prod.exhaust)
  show ?thesis
    using timing_wheel_rotation_complete[OF tw_set_ok(1)[OF tw_new_ok(1)] a, of "''a''"]
    by (simp add: l a tw_set_ok(2) tw_new_ok(1))
qed

text \<open>
  Short of a rotation \<open>advance\<close> is not complete, whatever its comment says: a key visited within its
  own tick, before its time, is left, and its slot does not come round until the next lap.
\<close>

lemma tw_advance_incomplete:
  "wheel_abs (fst (tw_advance (fst (tw_advance (tw_set (tw_new 0 (Some 1000) (Some 4)) ''a'' 1500) 1200)) 2000))
     ''a'' = Some 1500"
proof -
  have n: "nat \<lfloor>js_floor 4\<rfloor> = 4" by (simp add: js_floor_def)
  have f: "\<lfloor>1500 / 1000 :: real\<rfloor> = 1" "\<lfloor>1200 / 1000 :: real\<rfloor> = 1" by (simp_all add: floor_eq_iff)
  let ?E = "Map.empty(''a'' \<mapsto> \<lparr>we_exp = 1500, we_slot = 1\<rparr>)"
  have w0: "tw_set (tw_new 0 (Some 1000) (Some 4)) ''a'' 1500 =
      \<lparr>tw_tickMs = 1000, tw_slots = [[], [''a''], [], []], tw_entries = ?E, tw_lastTick = 0\<rparr>"
    using n f by (simp add: tw_set_def tw_new_def Let_def tw_slotForTick_def tw_n_def set_add_def numeral_eq_Suc)
  have w1: "tw_advance \<lparr>tw_tickMs = 1000, tw_slots = [[], [''a''], [], []], tw_entries = ?E, tw_lastTick = 0\<rparr> 1200 =
      (\<lparr>tw_tickMs = 1000, tw_slots = [[], [''a''], [], []], tw_entries = ?E, tw_lastTick = 1\<rparr>, [])"
    using f by (simp add: tw_advance_def Let_def tw_n_def tw_slotForTick_def)
  have w2: "tw_advance \<lparr>tw_tickMs = 1000, tw_slots = [[], [''a''], [], []], tw_entries = ?E, tw_lastTick = 1\<rparr> 2000 =
      (\<lparr>tw_tickMs = 1000, tw_slots = [[], [''a''], [], []], tw_entries = ?E, tw_lastTick = 2\<rparr>, [])"
    by (simp add: tw_advance_def Let_def tw_n_def tw_slotForTick_def)
  show ?thesis unfolding w0 w1 fst_conv w2 by (simp add: wheel_abs_def)
qed

end
