(* ===== verification/MemoryStore.thy ===== *)
theory MemoryStore
  imports StoreContract TimingWheel
begin

text \<open>
  \<open>src/stores/memory.ts\<close>: the in-process store, a map of entries with inline expiry, the timing wheel
  that sweeps them, and, when \<open>maxKeys\<close> bounds it, a CLOCK ring with a stack of free slots. The lemmas:
  the invariant that ties map, wheel, ring and stack together, the refinement to per-key cells with a
  TTL, the exact victim of an eviction and its bounded work, and the bound on the number of keys.
\<close>

section \<open>State\<close>

text \<open>\<open>slot\<close> is \<open>-1\<close> (here \<open>None\<close>) in an unbounded store; a persisted \<open>undefined\<close> state is \<open>None\<close>.\<close>

record 's mem_entry =
  me_state :: "'s option"
  me_ref :: bool
  me_slot :: "nat option"
  me_exp :: num

text \<open>\<open>freeSlots\<close> is a stack, here with its top first.\<close>

record 's memory_store =
  ms_map :: "string \<rightharpoonup> 's mem_entry"
  ms_wheel :: wheel
  ms_maxKeys :: "nat option"
  ms_ring :: "string option list"
  ms_free :: "nat list"
  ms_hand :: nat

definition ms_new :: "num \<Rightarrow> nat option \<Rightarrow> num option \<Rightarrow> num option \<Rightarrow> 's memory_store" where
  "ms_new now maxKeys tickMs wheelSize =
     \<lparr>ms_map = Map.empty, ms_wheel = tw_new now tickMs wheelSize, ms_maxKeys = maxKeys,
      ms_ring = [], ms_free = [], ms_hand = 0\<rparr>"


definition ms_has :: "'s memory_store \<Rightarrow> string \<Rightarrow> num \<Rightarrow> bool" where
  "ms_has st key now = (case ms_map st key of Some e \<Rightarrow> me_exp e > now | None \<Rightarrow> False)"

section \<open>Operations\<close>

definition ms_drop :: "'s memory_store \<Rightarrow> string \<Rightarrow> 's memory_store" where
  "ms_drop st key =
     (case ms_map st key of
        None \<Rightarrow> st
      | Some e \<Rightarrow>
          (let st1 = (case (ms_maxKeys st, me_slot e) of
                 (Some _, Some slot) \<Rightarrow>
                   st\<lparr>ms_ring := (ms_ring st)[slot := None], ms_free := slot # ms_free st\<rparr>
               | _ \<Rightarrow> st)
           in st1\<lparr>ms_map := (ms_map st1)(key := None)\<rparr>))"

text \<open>
  The loop of \<open>evictSlot\<close>, with the iterations it has left. The value is the slot and the store.
\<close>

fun ms_evict_loop :: "nat \<Rightarrow> num \<Rightarrow> 's memory_store \<Rightarrow> nat \<times> 's memory_store" where
  "ms_evict_loop 0 now st = (ms_hand st, st)"
| "ms_evict_loop (Suc i) now st =
     (let n = length (ms_ring st);
          slot = ms_hand st;
          st1 = st\<lparr>ms_hand := (ms_hand st + 1) mod n\<rparr>
      in case ms_ring st ! slot of
           None \<Rightarrow> (slot, st1)
         | Some k \<Rightarrow>
             (case ms_map st k of
                None \<Rightarrow> (slot, st1)
              | Some e \<Rightarrow>
                  (let gone = st1\<lparr>ms_map := (ms_map st)(k := None), ms_wheel := tw_delete (ms_wheel st) k\<rparr>
                   in if me_exp e \<le> now then (slot, gone)
                      else if me_ref e then
                        ms_evict_loop i now (st1\<lparr>ms_map := (ms_map st)(k \<mapsto> e\<lparr>me_ref := False\<rparr>)\<rparr>)
                      else (slot, gone))))"

definition ms_evictSlot :: "num \<Rightarrow> 's memory_store \<Rightarrow> nat \<times> 's memory_store" where
  "ms_evictSlot now st = ms_evict_loop (length (ms_ring st) * 2 + 1) now st"

definition ms_insert :: "'s memory_store \<Rightarrow> string \<Rightarrow> 's option \<Rightarrow> num \<Rightarrow> num \<Rightarrow> 's memory_store" where
  "ms_insert st key state exp_at now =
     (case ms_maxKeys st of
        None \<Rightarrow> st\<lparr>ms_map := (ms_map st)(key \<mapsto> \<lparr>me_state = state, me_ref = False, me_slot = None, me_exp = exp_at\<rparr>)\<rparr>
      | Some maxKeys \<Rightarrow>
          (let (slot, st1) =
             (case ms_free st of
                reused # free \<Rightarrow> (reused, st\<lparr>ms_free := free, ms_ring := (ms_ring st)[reused := Some key]\<rparr>)
              | [] \<Rightarrow>
                  if length (ms_ring st) < maxKeys
                  then (length (ms_ring st), st\<lparr>ms_ring := ms_ring st @ [Some key]\<rparr>)
                  else (let (s, st2) = ms_evictSlot now st
                        in (s, st2\<lparr>ms_ring := (ms_ring st2)[s := Some key]\<rparr>)))
           in st1\<lparr>ms_map := (ms_map st1)(key \<mapsto>
                \<lparr>me_state = state, me_ref = False, me_slot = Some slot, me_exp = exp_at\<rparr>)\<rparr>))"

text \<open>The wheel's advance with \<open>drop\<close> as its callback (also the body of the sweep timer).\<close>

definition ms_sweep :: "'s memory_store \<Rightarrow> num \<Rightarrow> 's memory_store" where
  "ms_sweep st now =
     (let (w, expired) = tw_advance (ms_wheel st) now
      in fold (\<lambda>k s. ms_drop s k) expired (st\<lparr>ms_wheel := w\<rparr>))"

definition ms_resetSync :: "'s memory_store \<Rightarrow> string \<Rightarrow> 's memory_store" where
  "ms_resetSync st key = (let s = ms_drop st key in s\<lparr>ms_wheel := tw_delete (ms_wheel s) key\<rparr>)"

text \<open>The sweep and the lazy expiry of \<open>key\<close>, with which \<open>applySync\<close> begins.\<close>

definition ms_expire :: "'s memory_store \<Rightarrow> string \<Rightarrow> num \<Rightarrow> 's memory_store" where
  "ms_expire st key now =
     (let st1 = ms_sweep st now;
          lapsed = (case ms_map st1 key of Some e \<Rightarrow> me_exp e \<le> now | None \<Rightarrow> False)
      in if lapsed then ms_resetSync st1 key else st1)"

definition ms_applySync ::
  "'s memory_store \<Rightarrow> string \<Rightarrow> ('s, 'r) transform \<Rightarrow> num \<Rightarrow> 'r \<times> 's memory_store" where
  "ms_applySync st key transform now =
     (let st2 = ms_expire st key now;
          entry = ms_map st2 key;
          st3 = (case entry of
                   Some e \<Rightarrow> if ms_maxKeys st2 \<noteq> None
                             then st2\<lparr>ms_map := (ms_map st2)(key \<mapsto> e\<lparr>me_ref := True\<rparr>)\<rparr> else st2
                 | None \<Rightarrow> st2);
          current = (case entry of Some e \<Rightarrow> me_state e | None \<Rightarrow> None);
          out = transform current
      in (o_result out,
          if o_persist out then
            (let exp_at = now + max 0 (o_ttlMs out);
                 st4 = (case ms_map st3 key of
                          Some e \<Rightarrow> st3\<lparr>ms_map := (ms_map st3)(key \<mapsto> e\<lparr>me_state := o_state out, me_exp := exp_at\<rparr>)\<rparr>
                        | None \<Rightarrow> ms_insert st3 key (o_state out) exp_at now)
             in st4\<lparr>ms_wheel := tw_set (ms_wheel st4) key exp_at\<rparr>)
          else st3))"

definition ms_close :: "'s memory_store \<Rightarrow> 's memory_store" where
  "ms_close st = st\<lparr>ms_map := Map.empty, ms_ring := [], ms_free := []\<rparr>"

section \<open>The invariant\<close>

text \<open>Ring, stack and map of a store bounded by \<open>M\<close>: slots are owned by exactly one key or free.\<close>

definition ring_ok :: "nat \<Rightarrow> 's memory_store \<Rightarrow> bool" where
  "ring_ok M st \<longleftrightarrow>
     length (ms_ring st) \<le> M \<and> distinct (ms_free st) \<and>
     (\<forall>i. i \<in> set (ms_free st) \<longleftrightarrow> i < length (ms_ring st) \<and> ms_ring st ! i = None) \<and>
     (\<forall>i k. i < length (ms_ring st) \<longrightarrow>
        (ms_ring st ! i = Some k \<longleftrightarrow> (\<exists>e. ms_map st k = Some e \<and> me_slot e = Some i))) \<and>
     (\<forall>k e. ms_map st k = Some e \<longrightarrow> (\<exists>i<length (ms_ring st). me_slot e = Some i))"

definition ms_ok :: "'s memory_store \<Rightarrow> bool" where
  "ms_ok st \<longleftrightarrow>
     wheel_ok (ms_wheel st) \<and>
     (\<forall>k e. ms_map st k = Some e \<longrightarrow> wheel_abs (ms_wheel st) k = Some (me_exp e)) \<and>
     (case ms_maxKeys st of
        None \<Rightarrow> True
      | Some M \<Rightarrow> 1 \<le> M \<and> ms_hand st < M \<and> ring_ok M st)"

text \<open>The state a key shows at a time.\<close>

definition ms_live :: "'s memory_store \<Rightarrow> string \<Rightarrow> num \<Rightarrow> 's option" where
  "ms_live st key t = (case ms_map st key of Some e \<Rightarrow> if me_exp e > t then me_state e else None | None \<Rightarrow> None)"

lemma ms_new_ok: "(\<And>M. maxKeys = Some M \<Longrightarrow> 1 \<le> M) \<Longrightarrow> ms_ok (ms_new now maxKeys a b)"
  by (auto simp: ms_ok_def ms_new_def ring_ok_def tw_new_ok split: option.splits)

lemma ms_okD:
  assumes "ms_ok st"
  shows "wheel_ok (ms_wheel st)" "ms_map st k = Some e \<Longrightarrow> wheel_abs (ms_wheel st) k = Some (me_exp e)"
    "ms_maxKeys st = Some M \<Longrightarrow> 1 \<le> M \<and> ms_hand st < M \<and> ring_ok M st"
  using assms by (auto simp: ms_ok_def)

lemma ring_okD:
  assumes "ring_ok M st"
  shows "length (ms_ring st) \<le> M" "distinct (ms_free st)"
    "i \<in> set (ms_free st) \<longleftrightarrow> i < length (ms_ring st) \<and> ms_ring st ! i = None"
    "i < length (ms_ring st) \<Longrightarrow> ms_ring st ! i = Some k \<longleftrightarrow> (\<exists>e. ms_map st k = Some e \<and> me_slot e = Some i)"
    "ms_map st k = Some e \<Longrightarrow> \<exists>i<length (ms_ring st). me_slot e = Some i"
  using assms by (auto simp: ring_ok_def)

lemma ring_ok_cong:
  "ms_map a = ms_map b \<Longrightarrow> ms_ring a = ms_ring b \<Longrightarrow> ms_free a = ms_free b \<Longrightarrow> ring_ok M a = ring_ok M b"
  by (simp add: ring_ok_def)

text \<open>Changing an entry in place, but for its slot.\<close>

lemma ring_ok_update:
  assumes "ring_ok M st" "ms_map st k = Some e" "me_slot e' = me_slot e"
  shows "ring_ok M (st\<lparr>ms_map := (ms_map st)(k \<mapsto> e')\<rparr>)"
  using assms by (auto simp: ring_ok_def)

lemma ms_drop_map: "ms_map (ms_drop st key) = (ms_map st)(key := None)"
  by (auto simp: ms_drop_def fun_eq_iff Let_def split: option.splits)

lemma ms_drop_simps [simp]:
  "ms_wheel (ms_drop st key) = ms_wheel st" "ms_maxKeys (ms_drop st key) = ms_maxKeys st"
  "ms_hand (ms_drop st key) = ms_hand st"
  by (auto simp: ms_drop_def Let_def split: option.splits)

lemma ring_ok_drop:
  assumes ok: "ring_ok M st" and M: "ms_maxKeys st = Some M"
  shows "ring_ok M (ms_drop st key)"
proof (cases "ms_map st key")
  case None
  then show ?thesis using ok by (simp add: ms_drop_def)
next
  case (Some e)
  obtain s where s: "s < length (ms_ring st)" "me_slot e = Some s" using ring_okD(5)[OF ok Some] by blast
  have rs: "ms_ring st ! s = Some key" using ring_okD(4)[OF ok s(1)] Some s(2) by blast
  have d: "ms_drop st key = st\<lparr>ms_ring := (ms_ring st)[s := None], ms_free := s # ms_free st,
      ms_map := (ms_map st)(key := None)\<rparr>"
    using Some M s by (simp add: ms_drop_def)
  have "s \<notin> set (ms_free st)" using ring_okD(3)[OF ok] rs by simp
  moreover have "me_slot e' \<noteq> Some s" if "ms_map st k = Some e'" "k \<noteq> key" for k e'
    using ring_okD(4)[OF ok s(1), of k] rs that by auto
  ultimately show ?thesis
    unfolding d using ring_okD[OF ok] s rs by (auto simp: ring_ok_def nth_list_update)
qed

lemma ms_drop_ok: "ms_ok st \<Longrightarrow> ms_ok (ms_drop st key)"
  by (auto simp: ms_ok_def ms_drop_map ring_ok_drop split: option.splits if_splits)

lemma ms_reset_ok:
  assumes "ms_ok st"
  shows "ms_ok (ms_resetSync st key)"
proof -
  have "ms_ok (ms_drop st key)" by (rule ms_drop_ok[OF assms])
  then show ?thesis
    using tw_delete_ok[of "ms_wheel st" key] ring_ok_cong[of "ms_resetSync st key" "ms_drop st key"]
    by (auto simp: ms_ok_def ms_resetSync_def Let_def ms_drop_map split: option.splits if_splits)
qed

lemma fold_drop:
  "ms_map (fold (\<lambda>k s. ms_drop s k) ks st) = (ms_map st) |` (- set ks)"
  "ms_wheel (fold (\<lambda>k s. ms_drop s k) ks st) = ms_wheel st"
  "ms_maxKeys (fold (\<lambda>k s. ms_drop s k) ks st) = ms_maxKeys st"
  "ms_hand (fold (\<lambda>k s. ms_drop s k) ks st) = ms_hand st"
  "ring_ok M st \<Longrightarrow> ms_maxKeys st = Some M \<Longrightarrow> ring_ok M (fold (\<lambda>k s. ms_drop s k) ks st)"
  by (induction ks arbitrary: st) (auto simp: ms_drop_map ring_ok_drop restrict_map_def fun_eq_iff)

text \<open>A sweep keeps the invariant and forgets only keys whose time has come.\<close>

lemma ms_sweep_ok:
  assumes "ms_ok st"
  shows "ms_ok (ms_sweep st now)" "ms_maxKeys (ms_sweep st now) = ms_maxKeys st"
    "ms_map (ms_sweep st now) k = ms_map st k \<or>
      ms_map (ms_sweep st now) k = None \<and> (\<exists>e. ms_map st k = Some e \<and> me_exp e \<le> now)"
proof -
  obtain w ex where adv: "tw_advance (ms_wheel st) now = (w, ex)" by (metis prod.exhaust)
  note A = tw_advance_ok[OF ms_okD(1)[OF assms] adv] and d = ms_okD[OF assms]
  have sw: "ms_sweep st now = fold (\<lambda>k s. ms_drop s k) ex (st\<lparr>ms_wheel := w\<rparr>)"
    by (simp add: ms_sweep_def adv)
  show "ms_maxKeys (ms_sweep st now) = ms_maxKeys st" by (simp add: sw fold_drop)
  show "ms_map (ms_sweep st now) k = ms_map st k \<or>
      ms_map (ms_sweep st now) k = None \<and> (\<exists>e. ms_map st k = Some e \<and> me_exp e \<le> now)"
  proof (cases "k \<in> set ex")
    case True
    then obtain x where "wheel_abs (ms_wheel st) k = Some x" "x \<le> now"
      using A(6) by (auto simp: wheel_abs_def)
    then show ?thesis using d(2)[of k] True by (cases "ms_map st k") (auto simp: sw fold_drop restrict_map_def)
  qed (simp add: sw fold_drop restrict_map_def)
  have "ring_ok M (ms_sweep st now)" if "ms_maxKeys st = Some M" for M
    unfolding sw by (rule fold_drop(5)) (use d(3)[OF that] that in \<open>simp_all add: ring_ok_def\<close>)
  then show "ms_ok (ms_sweep st now)"
    using A(1,7) d by (auto simp: ms_ok_def sw fold_drop restrict_map_def split: option.splits if_splits)
qed

section \<open>Eviction\<close>

text \<open>Whether the hand would take the slot it points at.\<close>

definition takeable :: "'s memory_store \<Rightarrow> num \<Rightarrow> nat \<Rightarrow> bool" where
  "takeable st now i =
     (case ms_ring st ! i of
        None \<Rightarrow> True
      | Some k \<Rightarrow> (case ms_map st k of None \<Rightarrow> True | Some e \<Rightarrow> me_exp e \<le> now \<or> \<not> me_ref e))"

text \<open>Entries up to the reference bit, and a ring in which every slot has its key.\<close>

definition unref :: "'s mem_entry \<Rightarrow> 's mem_entry" where
  "unref e = e\<lparr>me_ref := False\<rparr>"

definition ring_full :: "'s memory_store \<Rightarrow> bool" where
  "ring_full st \<longleftrightarrow> ms_ring st \<noteq> [] \<and> ms_free st = [] \<and> ms_hand st < length (ms_ring st)"

definition evicted :: "'s memory_store \<Rightarrow> nat \<Rightarrow> 's memory_store \<Rightarrow> bool" where
  "evicted st slot st' \<longleftrightarrow>
     ms_ring st' = ms_ring st \<and> ms_free st' = ms_free st \<and> ms_maxKeys st' = ms_maxKeys st \<and>
     ms_hand st' = (slot + 1) mod length (ms_ring st) \<and>
     (\<exists>v e. ms_ring st ! slot = Some v \<and> ms_map st v = Some e \<and> ms_map st' v = None \<and>
        ms_wheel st' = tw_delete (ms_wheel st) v \<and>
        (\<forall>k. k \<noteq> v \<longrightarrow> map_option unref (ms_map st' k) = map_option unref (ms_map st k)))"

lemma ring_full_entry:
  assumes "ring_ok M st" "ring_full st" "i < length (ms_ring st)"
  obtains k e where "ms_ring st ! i = Some k" "ms_map st k = Some e" "me_slot e = Some i"
proof -
  have "ms_ring st ! i \<noteq> None" using ring_okD(3)[OF assms(1), of i] assms(2,3) by (simp add: ring_full_def)
  then obtain k where k: "ms_ring st ! i = Some k" by blast
  then show thesis using ring_okD(4)[OF assms(1,3), of k] that by blast
qed

lemma unref_simps [simp]:
  "me_state (unref e) = me_state e" "me_slot (unref e) = me_slot e" "me_exp (unref e) = me_exp e"
  "unref (unref e) = unref e" "unref (e\<lparr>me_ref := b\<rparr>) = unref e"
  by (simp_all add: unref_def)

lemma evicted_unref:
  assumes "evicted (st\<lparr>ms_hand := h, ms_map := (ms_map st)(k \<mapsto> e\<lparr>me_ref := False\<rparr>)\<rparr>) slot st'"
    and "ms_ring st ! slot \<noteq> Some k" "ms_map st k = Some e"
  shows "evicted st slot st'"
proof -
  let ?st = "st\<lparr>ms_hand := h, ms_map := (ms_map st)(k \<mapsto> e\<lparr>me_ref := False\<rparr>)\<rparr>"
  have u: "map_option unref (ms_map ?st k') = map_option unref (ms_map st k')" for k' using assms(3) by simp
  have same: "ms_ring ?st = ms_ring st" "ms_free ?st = ms_free st" "ms_maxKeys ?st = ms_maxKeys st"
    "ms_wheel ?st = ms_wheel st" by simp_all
  obtain v x where v: "ms_ring st ! slot = Some v" "ms_map ?st v = Some x" "ms_map st' v = None"
    "ms_wheel st' = tw_delete (ms_wheel st) v"
    "\<forall>k'. k' \<noteq> v \<longrightarrow> map_option unref (ms_map st' k') = map_option unref (ms_map st k')"
    using assms(1) unfolding evicted_def u same by blast
  moreover have "ms_map st v = Some x" using v(1,2) assms(2) by (auto split: if_splits)
  ultimately show ?thesis using assms(1) unfolding evicted_def same by blast
qed

text \<open>The loop takes the first takeable slot from the hand on, within as many steps.\<close>

lemma ms_evict_first:
  assumes "ring_ok M st" "ring_full st" "d < fuel" "d < length (ms_ring st)"
    and "takeable st now ((ms_hand st + d) mod length (ms_ring st))"
    and "\<forall>j<d. \<not> takeable st now ((ms_hand st + j) mod length (ms_ring st))"
  shows "\<exists>st'. ms_evict_loop fuel now st = ((ms_hand st + d) mod length (ms_ring st), st') \<and>
    evicted st ((ms_hand st + d) mod length (ms_ring st)) st'"
  using assms
proof (induction d arbitrary: st fuel)
  case 0
  let ?h = "ms_hand st" and ?n = "length (ms_ring st)"
  have h: "?h < ?n" using "0.prems"(2) by (simp add: ring_full_def)
  obtain k e where k: "ms_ring st ! ?h = Some k" "ms_map st k = Some e"
    using ring_full_entry[OF "0.prems"(1,2) h] by blast
  obtain f where f: "fuel = Suc f" using "0.prems"(3) by (cases fuel) auto
  have "me_exp e \<le> now \<or> \<not> me_ref e" using "0.prems"(5) h k by (simp add: takeable_def)
  then have "ms_evict_loop fuel now st =
      (?h, st\<lparr>ms_hand := (?h + 1) mod ?n, ms_map := (ms_map st)(k := None), ms_wheel := tw_delete (ms_wheel st) k\<rparr>)"
    using k by (auto simp: f Let_def)
  then show ?case using h k by (auto simp: evicted_def)
next
  case (Suc d)
  let ?h = "ms_hand st" and ?n = "length (ms_ring st)"
  have h: "?h < ?n" using Suc.prems(2) by (simp add: ring_full_def)
  obtain k e where k: "ms_ring st ! ?h = Some k" "ms_map st k = Some e" "me_slot e = Some ?h"
    using ring_full_entry[OF Suc.prems(1,2) h] by blast
  obtain f where f: "fuel = Suc f" "d < f" using Suc.prems(3) by (cases fuel) auto
  have e: "\<not> me_exp e \<le> now" "me_ref e"
    using Suc.prems(6) h k by (auto simp: takeable_def dest: spec[of _ 0])
  let ?st = "st\<lparr>ms_hand := (?h + 1) mod ?n, ms_map := (ms_map st)(k \<mapsto> e\<lparr>me_ref := False\<rparr>)\<rparr>"
  have run: "ms_evict_loop fuel now st = ms_evict_loop f now ?st" using k e by (simp add: f Let_def)
  have rok: "ring_ok M ?st"
    using ring_ok_update[OF Suc.prems(1) k(2), of "e\<lparr>me_ref := False\<rparr>"]
      ring_ok_cong[of ?st "st\<lparr>ms_map := (ms_map st)(k \<mapsto> e\<lparr>me_ref := False\<rparr>)\<rparr>"] by simp
  have rf: "ring_full ?st" using Suc.prems(2) by (auto simp: ring_full_def)
  have pos: "(ms_hand ?st + j) mod ?n = (?h + Suc j) mod ?n" for j by (simp add: mod_add_left_eq)
  have other: "takeable ?st now i \<longleftrightarrow> takeable st now i" if i: "i < ?n" "i \<noteq> ?h" for i
  proof -
    obtain k' e' where k': "ms_ring st ! i = Some k'" "ms_map st k' = Some e'" "me_slot e' = Some i"
      using ring_full_entry[OF Suc.prems(1,2) i(1)] by blast
    then have "k' \<noteq> k" using k(2,3) i(2) by auto
    then show ?thesis using k' by (simp add: takeable_def)
  qed
  have neq: "(?h + Suc j) mod ?n \<noteq> ?h" if "Suc j < ?n" for j
  proof
    assume "(?h + Suc j) mod ?n = ?h"
    then have "(?h + Suc j) mod ?n = ?h mod ?n" using h by simp
    then have "?n dvd Suc j" using mod_eq_dvd_iff_nat[of ?h "?h + Suc j" ?n] by simp
    then show False using that by (auto dest: dvd_imp_le)
  qed
  have lt: "i mod ?n < ?n" for i using h by (intro mod_less_divisor) linarith
  have "\<exists>st'. ms_evict_loop f now ?st = ((ms_hand ?st + d) mod length (ms_ring ?st), st') \<and>
      evicted ?st ((ms_hand ?st + d) mod length (ms_ring ?st)) st'"
  proof (rule Suc.IH[OF rok rf f(2)])
    show "d < length (ms_ring ?st)" using Suc.prems(4) by simp
    show "takeable ?st now ((ms_hand ?st + d) mod length (ms_ring ?st))"
      using Suc.prems(4,5) other[OF lt neq] pos[of d] by simp
    show "\<forall>j<d. \<not> takeable ?st now ((ms_hand ?st + j) mod length (ms_ring ?st))"
    proof (intro allI impI)
      fix j assume "j < d"
      then have "\<not> takeable st now ((?h + Suc j) mod ?n)" "Suc j < ?n" using Suc.prems(4,6) by auto
      then show "\<not> takeable ?st now ((ms_hand ?st + j) mod length (ms_ring ?st))"
        using other[OF lt neq] pos[of j] by simp
    qed
  qed
  then obtain st' where st': "ms_evict_loop f now ?st = ((?h + Suc d) mod ?n, st')"
    "evicted ?st ((?h + Suc d) mod ?n) st'" using pos[of d] by auto
  have nk: "ms_ring st ! ((?h + Suc d) mod ?n) \<noteq> Some k"
    using ring_okD(4)[OF Suc.prems(1) lt, of "?h + Suc d" k] k(2,3) neq[OF Suc.prems(4)] by auto
  have "evicted st ((?h + Suc d) mod ?n) st'" by (rule evicted_unref[OF st'(2) nk k(2)])
  then show ?case using st'(1) run by auto
qed

text \<open>
  \<open>evictSlot\<close> always finds a victim within its bound: the first takeable slot from the hand on, or,
  when all are live and referenced, the slot at the hand after one round of second chances.
\<close>

definition evict_victim :: "'s memory_store \<Rightarrow> num \<Rightarrow> nat" where
  "evict_victim st now =
     (let n = length (ms_ring st)
      in if \<exists>j<n. takeable st now ((ms_hand st + j) mod n)
         then (ms_hand st + (LEAST j. takeable st now ((ms_hand st + j) mod n))) mod n
         else ms_hand st)"

lemma ms_evictSlot_ok:
  assumes ok: "ring_ok M st" and full: "ring_full st"
  shows "\<exists>st'. ms_evictSlot now st = (evict_victim st now, st') \<and> evicted st (evict_victim st now) st'"
proof (cases "\<exists>j<length (ms_ring st). takeable st now ((ms_hand st + j) mod length (ms_ring st))")
  case True
  let ?n = "length (ms_ring st)" and ?P = "\<lambda>j. takeable st now ((ms_hand st + j) mod length (ms_ring st))"
  have L: "?P (LEAST j. ?P j)" "(LEAST j. ?P j) < ?n"
    using True LeastI_ex[of ?P] by (auto intro: le_less_trans[OF Least_le[of ?P]])
  have nL: "\<forall>j<(LEAST j. ?P j). \<not> ?P j" using not_less_Least[of _ ?P] by blast
  show ?thesis
    using ms_evict_first[OF ok full _ L(2,1) nL, of "?n * 2 + 1"] L(2) True
    by (simp add: ms_evictSlot_def evict_victim_def Let_def)
next
  case False
  let ?h = "ms_hand st" and ?n = "length (ms_ring st)"
  have h: "?h < ?n" using full by (simp add: ring_full_def)
  have nt: "\<not> takeable st now i" if "i < ?n" for i
  proof -
    define j where "j = (i + ?n - ?h) mod ?n"
    have "(?h + j) mod ?n = i" using h that by (simp add: j_def mod_add_right_eq)
    moreover have "j < ?n" unfolding j_def by (rule mod_less_divisor) (use h in linarith)
    ultimately show ?thesis using False by auto
  qed
  obtain k e where k: "ms_ring st ! ?h = Some k" "ms_map st k = Some e" "me_slot e = Some ?h"
    using ring_full_entry[OF ok full h] by blast
  have e: "\<not> me_exp e \<le> now" "me_ref e" using nt[OF h] k by (auto simp: takeable_def)
  let ?st = "st\<lparr>ms_hand := (?h + 1) mod ?n, ms_map := (ms_map st)(k \<mapsto> e\<lparr>me_ref := False\<rparr>)\<rparr>"
  have run: "ms_evictSlot now st = ms_evict_loop (?n * 2) now ?st" using k e by (simp add: ms_evictSlot_def Let_def)
  have rok: "ring_ok M ?st"
    using ring_ok_update[OF ok k(2), of "e\<lparr>me_ref := False\<rparr>"]
      ring_ok_cong[of ?st "st\<lparr>ms_map := (ms_map st)(k \<mapsto> e\<lparr>me_ref := False\<rparr>)\<rparr>"] by simp
  have rf: "ring_full ?st" using full by (auto simp: ring_full_def)
  have pos: "(ms_hand ?st + j) mod ?n = (?h + Suc j) mod ?n" for j by (simp add: mod_add_left_eq)
  have "?h + Suc (?n - 1) = ?h + ?n" using h by linarith
  then have wrap: "(?h + Suc (?n - 1)) mod ?n = ?h" using h by simp
  have "\<not> takeable ?st now ((ms_hand ?st + j) mod length (ms_ring ?st))" if "j < ?n - 1" for j
  proof -
    have i: "(?h + Suc j) mod ?n < ?n" using h by (intro mod_less_divisor) linarith
    obtain k' e' where k': "ms_ring st ! ((?h + Suc j) mod ?n) = Some k'" "ms_map st k' = Some e'"
      "me_slot e' = Some ((?h + Suc j) mod ?n)"
      using ring_full_entry[OF ok full i] by blast
    have "(?h + Suc j) mod ?n \<noteq> ?h"
    proof
      assume "(?h + Suc j) mod ?n = ?h"
      then have "(?h + Suc j) mod ?n = ?h mod ?n" using h by simp
      then have "?n dvd Suc j" using mod_eq_dvd_iff_nat[of ?h "?h + Suc j" ?n] by simp
      then show False using that by (auto dest: dvd_imp_le)
    qed
    then have "k' \<noteq> k" using k(2,3) k' by auto
    then show ?thesis using nt[OF i] k' pos[of j] by (simp add: takeable_def)
  qed
  moreover have "takeable ?st now ((ms_hand ?st + (?n - 1)) mod length (ms_ring ?st))"
    unfolding takeable_def using pos[of "?n - 1"] wrap k by simp
  ultimately have "\<exists>st'. ms_evict_loop (?n * 2) now ?st = (?h, st') \<and> evicted ?st ?h st'"
    using ms_evict_first[OF rok rf, of "?n - 1" "?n * 2" now] h pos[of "?n - 1"] wrap by simp
  then obtain st' where st': "ms_evictSlot now st = (?h, st')" "evicted ?st ?h st'" using run by auto
  have "evicted st ?h st'" using st'(2) k by (auto simp: evicted_def)
  moreover have "evict_victim st now = ?h" unfolding evict_victim_def Let_def if_not_P[OF False] by (rule refl)
  ultimately show ?thesis using st'(1) by simp
qed

section \<open>Insertion\<close>

text \<open>The key that inserting a new key would evict: none while a slot is free or the ring can grow.\<close>

definition ms_victim :: "'s memory_store \<Rightarrow> num \<Rightarrow> string option" where
  "ms_victim st now =
     (case ms_maxKeys st of
        None \<Rightarrow> None
      | Some M \<Rightarrow> if ms_free st = [] \<and> M \<le> length (ms_ring st) then ms_ring st ! evict_victim st now else None)"

text \<open>Giving slot \<open>s\<close>, which no stored key owns, to a key that is not stored.\<close>

lemma ring_ok_claim:
  assumes "ring_ok M st0" and fresh: "ms_map st0 key = None"
    and map: "\<And>k. map_option unref (m k) = map_option unref (ms_map st0 k)"
    and st: "ms_map st = m(key \<mapsto> \<lparr>me_state = x, me_ref = b, me_slot = Some s, me_exp = y\<rparr>)"
    and ring: "length (ms_ring st) \<le> M" "s < length (ms_ring st)"
      "\<And>i. i < length (ms_ring st) \<Longrightarrow> ms_ring st ! i =
         (if i = s then Some key else if i < length (ms_ring st0) then ms_ring st0 ! i else None)"
      "length (ms_ring st0) \<le> length (ms_ring st)" "length (ms_ring st) \<le> length (ms_ring st0) + 1"
      "length (ms_ring st0) < length (ms_ring st) \<Longrightarrow> s = length (ms_ring st0)"
      "s < length (ms_ring st0) \<Longrightarrow> ms_ring st0 ! s = None"
    and free: "distinct (ms_free st)" "set (ms_free st) = set (ms_free st0) - {s}"
  shows "ring_ok M st"
proof -
  note d = ring_okD[OF assms(1)]
  have slot: "(\<exists>e. m k = Some e \<and> me_slot e = z) \<longleftrightarrow> (\<exists>e. ms_map st0 k = Some e \<and> me_slot e = z)" for k z
    using map[of k] by (cases "m k"; cases "ms_map st0 k") (auto simp: unref_def dest: arg_cong[of _ _ me_slot])
  have owner: "k \<noteq> key" if "ms_map st0 k = Some e" for k e using that fresh by auto
  have nos: "me_slot e \<noteq> Some s" if h: "ms_map st0 k = Some e" for k e
  proof
    assume "me_slot e = Some s"
    moreover from this obtain i where "i < length (ms_ring st0)" "me_slot e = Some i" using d(5)[OF h] by blast
    ultimately have "s < length (ms_ring st0)" by simp
    moreover from this have "ms_ring st0 ! s = Some k" using d(4)[of s k] h \<open>me_slot e = Some s\<close> by blast
    ultimately show False using ring(7) by simp
  qed
  show ?thesis unfolding ring_ok_def
  proof (intro conjI allI impI)
    show "i \<in> set (ms_free st) \<longleftrightarrow> i < length (ms_ring st) \<and> ms_ring st ! i = None" for i
    proof (cases "i = s")
      case True
      then show ?thesis using free(2) ring(2) ring(3)[of s] by simp
    next
      case False
      have "length (ms_ring st) = length (ms_ring st0) \<or>
          length (ms_ring st) = length (ms_ring st0) + 1 \<and> s = length (ms_ring st0)"
        using ring(4-6) by linarith
      then have "i < length (ms_ring st) \<longleftrightarrow> i < length (ms_ring st0)" using False by auto
      moreover from this have "i < length (ms_ring st0) \<Longrightarrow> ms_ring st ! i = ms_ring st0 ! i"
        using False ring(3)[of i] by simp
      moreover have "i \<in> set (ms_free st) \<longleftrightarrow> i \<in> set (ms_free st0)" using False free(2) by simp
      ultimately show ?thesis using d(3)[of i] by metis
    qed
    show "ms_ring st ! i = Some k \<longleftrightarrow> (\<exists>e. ms_map st k = Some e \<and> me_slot e = Some i)"
      if i: "i < length (ms_ring st)" for i k
    proof (cases "k = key")
      case True
      have "ms_ring st0 ! j \<noteq> Some key" if "j < length (ms_ring st0)" for j
        using d(4)[OF that, of key] fresh by simp
      then show ?thesis using True i by (auto simp: st ring(3))
    next
      case False
      have "s \<noteq> i \<or> (\<nexists>e. ms_map st0 k = Some e \<and> me_slot e = Some i)" using nos by blast
      moreover have "i < length (ms_ring st0) \<or> i = s" using i ring(5,6) by linarith
      ultimately show ?thesis using False i d(4)[of i k] slot[of k "Some i"] by (auto simp: st ring(3))
    qed
    show "\<exists>i<length (ms_ring st). me_slot e = Some i" if h: "ms_map st k = Some e" for k e
    proof (cases "k = key")
      case True
      then show ?thesis using h ring(2) by (auto simp: st)
    next
      case False
      then have "m k = Some e" using h by (simp add: st)
      then obtain e0 where "ms_map st0 k = Some e0" "me_slot e0 = me_slot e"
        using slot[of k "me_slot e"] by blast
      then show ?thesis using d(5)[of k e0] ring(4) by auto
    qed
  qed (use ring(1) free(1) in auto)
qed

lemma ms_insert_ok:
  fixes x :: "'s option" and y now :: num
  assumes M: "ms_maxKeys st = Some M" "1 \<le> M" "ms_hand st < M" "ring_ok M st" and new: "ms_map st key = None"
  defines "st' \<equiv> ms_insert st key x y now"
  shows "ring_ok M st'" "ms_hand st' < M" "ms_maxKeys st' = Some M"
    "\<exists>e. ms_map st' key = Some e \<and> me_state e = x \<and> me_exp e = y"
    "k \<noteq> key \<Longrightarrow> map_option unref (ms_map st' k) =
       (if ms_victim st now = Some k then None else map_option unref (ms_map st k))"
    "ms_wheel st' = (case ms_victim st now of None \<Rightarrow> ms_wheel st | Some v \<Rightarrow> tw_delete (ms_wheel st) v)"
proof -
  note d = ring_okD[OF M(4)]
  let ?e = "\<lambda>s. \<lparr>me_state = x, me_ref = False, me_slot = Some s, me_exp = y\<rparr>"
  have "ring_ok M st' \<and> ms_hand st' < M \<and> ms_maxKeys st' = Some M \<and>
    (\<exists>e. ms_map st' key = Some e \<and> me_state e = x \<and> me_exp e = y) \<and>
    (\<forall>k. k \<noteq> key \<longrightarrow> map_option unref (ms_map st' k) =
       (if ms_victim st now = Some k then None else map_option unref (ms_map st k))) \<and>
    ms_wheel st' = (case ms_victim st now of None \<Rightarrow> ms_wheel st | Some v \<Rightarrow> tw_delete (ms_wheel st) v)"
  proof (cases "ms_free st")
    case (Cons s free)
    have s: "s < length (ms_ring st)" "ms_ring st ! s = None" using d(3)[of s] Cons by auto
    have st': "st' = st\<lparr>ms_free := free, ms_ring := (ms_ring st)[s := Some key], ms_map := (ms_map st)(key \<mapsto> ?e s)\<rparr>"
      by (simp add: st'_def ms_insert_def M(1) Cons)
    have "ring_ok M st'"
      by (rule ring_ok_claim[OF M(4) new, where m = "ms_map st" and s = s])
         (use s d(1,2) Cons in \<open>auto simp: st' nth_list_update\<close>)
    then show ?thesis using M Cons by (simp add: st' ms_victim_def)
  next
    case Nil
    show ?thesis
    proof (cases "length (ms_ring st) < M")
      case True
      have st': "st' = st\<lparr>ms_ring := ms_ring st @ [Some key], ms_map := (ms_map st)(key \<mapsto> ?e (length (ms_ring st)))\<rparr>"
        using True by (simp add: st'_def ms_insert_def M(1) Nil)
      have "ring_ok M st'"
        by (rule ring_ok_claim[OF M(4) new, where m = "ms_map st" and s = "length (ms_ring st)"])
           (use True Nil in \<open>auto simp: st' nth_append\<close>)
      then show ?thesis using M True Nil by (simp add: st' ms_victim_def)
    next
      case False
      have len: "length (ms_ring st) = M" using False d(1) by simp
      have full: "ring_full st" using Nil M(2,3) len by (auto simp: ring_full_def)
      let ?s = "evict_victim st now"
      obtain st2 where ev: "ms_evictSlot now st = (?s, st2)" "evicted st ?s st2" using ms_evictSlot_ok[OF M(4) full] by blast
      obtain v e where v: "ms_ring st ! ?s = Some v" "ms_map st v = Some e" "ms_map st2 v = None"
        "ms_wheel st2 = tw_delete (ms_wheel st) v"
        "\<forall>k. k \<noteq> v \<longrightarrow> map_option unref (ms_map st2 k) = map_option unref (ms_map st k)"
        and st2: "ms_ring st2 = ms_ring st" "ms_free st2 = ms_free st" "ms_maxKeys st2 = Some M"
          "ms_hand st2 = (?s + 1) mod M"
        using ev(2) M(1) len unfolding evicted_def by auto
      have s: "?s < M" using len M(2,3) by (simp add: evict_victim_def Let_def)
      have st': "st' = st2\<lparr>ms_ring := (ms_ring st)[?s := Some key], ms_map := (ms_map st2)(key \<mapsto> ?e ?s)\<rparr>"
        using False by (simp add: st'_def ms_insert_def M(1) Nil ev(1) Let_def st2)
      have slotv: "me_slot e = Some ?s" using d(4)[of ?s v] v(1,2) s len by auto
      let ?st0 = "ms_drop st v"
      have st0: "ms_ring ?st0 = (ms_ring st)[?s := None]" "ms_free ?st0 = [?s]" "ms_map ?st0 = (ms_map st)(v := None)"
        using v(2) slotv M(1) Nil by (simp_all add: ms_drop_def)
      have "ring_ok M ?st0" by (rule ring_ok_drop[OF M(4,1)])
      moreover have "key \<noteq> v" using v(2) new by auto
      ultimately have "ring_ok M st'"
        by (intro ring_ok_claim[of M ?st0 key "ms_map st2" st' x False ?s y])
           (use v s len new st2 Nil in \<open>auto simp: st0 st' nth_list_update\<close>)
      moreover have "ms_victim st now = Some v" using M(1) Nil len v(1) by (simp add: ms_victim_def)
      moreover have "(?s + 1) mod M < M" using M(2) by (intro mod_less_divisor) linarith
      ultimately show ?thesis using v(3-5) \<open>key \<noteq> v\<close> by (auto simp: st' st2)
    qed
  qed
  then show "ring_ok M st'" "ms_hand st' < M" "ms_maxKeys st' = Some M"
    "\<exists>e. ms_map st' key = Some e \<and> me_state e = x \<and> me_exp e = y"
    "k \<noteq> key \<Longrightarrow> map_option unref (ms_map st' k) =
       (if ms_victim st now = Some k then None else map_option unref (ms_map st k))"
    "ms_wheel st' = (case ms_victim st now of None \<Rightarrow> ms_wheel st | Some v \<Rightarrow> tw_delete (ms_wheel st) v)"
    by blast+
qed

section \<open>One application\<close>

lemma ms_live_unref:
  "map_option unref (ms_map a k) = map_option unref (ms_map b k) \<Longrightarrow> ms_live a k t = ms_live b k t"
  by (cases "ms_map a k"; cases "ms_map b k")
     (auto simp: ms_live_def unref_def dest: arg_cong[of _ _ me_exp] arg_cong[of _ _ me_state])

lemma unref_same:
  "map_option unref a = map_option unref b \<Longrightarrow> a = Some e \<Longrightarrow> \<exists>e'. b = Some e' \<and> me_exp e' = me_exp e"
  by (cases b) (auto simp: unref_def dest: arg_cong[of _ _ me_exp])

lemma ms_reset_map: "ms_map (ms_resetSync st key) = (ms_map st)(key := None)"
  by (simp add: ms_resetSync_def Let_def ms_drop_map)

lemma ms_expire_ok:
  assumes "ms_ok st"
  shows "ms_ok (ms_expire st key now)" "ms_maxKeys (ms_expire st key now) = ms_maxKeys st"
    "ms_map (ms_expire st key now) k = ms_map st k \<or>
      ms_map (ms_expire st key now) k = None \<and> (\<exists>e. ms_map st k = Some e \<and> me_exp e \<le> now)"
    "ms_map (ms_expire st key now) key = Some e \<Longrightarrow> now < me_exp e"
proof -
  note s = ms_sweep_ok[OF assms, where now = now]
  show "ms_ok (ms_expire st key now)" by (simp add: ms_expire_def Let_def s(1) ms_reset_ok)
  show "ms_maxKeys (ms_expire st key now) = ms_maxKeys st"
    using s(2) by (simp add: ms_expire_def Let_def ms_resetSync_def)
  show "ms_map (ms_expire st key now) k = ms_map st k \<or>
      ms_map (ms_expire st key now) k = None \<and> (\<exists>e. ms_map st k = Some e \<and> me_exp e \<le> now)"
    using s(3)[of k] by (auto simp: ms_expire_def Let_def ms_reset_map split: option.splits)
  show "ms_map (ms_expire st key now) key = Some e \<Longrightarrow> now < me_exp e"
    by (auto simp: ms_expire_def Let_def ms_reset_map split: option.splits if_splits)
qed

lemma ms_expire_live: "ms_ok st \<Longrightarrow> now \<le> t \<Longrightarrow> ms_live (ms_expire st key now) k t = ms_live st k t"
  using ms_expire_ok(3)[of st key now k] by (auto simp: ms_live_def split: option.splits)

text \<open>The store an application leaves behind.\<close>

definition ms_new_key :: "'s memory_store \<Rightarrow> string \<Rightarrow> ('s, 'r) transform \<Rightarrow> num \<Rightarrow> bool" where
  "ms_new_key st key f now \<longleftrightarrow>
     ms_map (ms_expire st key now) key = None \<and> o_persist (f (ms_live st key now))"

definition ms_forgets :: "'s memory_store \<Rightarrow> string \<Rightarrow> ('s, 'r) transform \<Rightarrow> num \<Rightarrow> string option" where
  "ms_forgets st key f now =
     (if ms_new_key st key f now then ms_victim (ms_expire st key now) now else None)"

lemma ms_apply_current:
  assumes "ms_ok st"
  shows "(case ms_map (ms_expire st key now) key of Some e \<Rightarrow> me_state e | None \<Rightarrow> None) = ms_live st key now"
  using ms_expire_live[OF assms order_refl, of key now key] ms_expire_ok(4)[OF assms, of key now]
  by (auto simp: ms_live_def[of "ms_expire st key now"] split: option.splits)

lemma ms_set_ok:
  assumes "ms_ok st" "ms_map st key = Some e" "me_slot e' = me_slot e"
  shows "ms_ok (st\<lparr>ms_map := (ms_map st)(key \<mapsto> e'), ms_wheel := tw_set (ms_wheel st) key (me_exp e')\<rparr>)"
proof -
  let ?st = "st\<lparr>ms_map := (ms_map st)(key \<mapsto> e'), ms_wheel := tw_set (ms_wheel st) key (me_exp e')\<rparr>"
  have "ring_ok M ?st" if "ms_maxKeys st = Some M" for M
    using ring_ok_update[of M st key e e'] ms_okD(3)[OF assms(1) that] assms(2,3)
      ring_ok_cong[of ?st "st\<lparr>ms_map := (ms_map st)(key \<mapsto> e')\<rparr>" M] by simp
  then show ?thesis using assms(1) tw_set_ok[of "ms_wheel st" key "me_exp e'"]
    by (auto simp: ms_ok_def split: option.splits)
qed

lemma ms_ref_ok: "ms_ok st \<Longrightarrow> ms_map st key = Some e \<Longrightarrow> ms_ok (st\<lparr>ms_map := (ms_map st)(key \<mapsto> e\<lparr>me_ref := b\<rparr>)\<rparr>)"
  using ring_ok_update[of _ st key e "e\<lparr>me_ref := b\<rparr>"] by (auto simp: ms_ok_def split: option.splits)

lemma ms_put_ok:
  fixes x :: "'s option" and y now :: num
  assumes ok: "ms_ok st" and new: "ms_map st key = None"
  defines "st' \<equiv> (ms_insert st key x y now)\<lparr>ms_wheel := tw_set (ms_wheel (ms_insert st key x y now)) key y\<rparr>"
  shows "ms_ok st'" "ms_maxKeys st' = ms_maxKeys st"
    "\<exists>e. ms_map st' key = Some e \<and> me_state e = x \<and> me_exp e = y"
    "k \<noteq> key \<Longrightarrow> map_option unref (ms_map st' k) =
       (if ms_victim st now = Some k then None else map_option unref (ms_map st k))"
proof -
  note d = ms_okD[OF ok]
  let ?i = "ms_insert st key x y now"
  have I: "(\<exists>e. ms_map ?i key = Some e \<and> me_state e = x \<and> me_exp e = y) \<and> ms_maxKeys ?i = ms_maxKeys st \<and>
    (\<forall>k. k \<noteq> key \<longrightarrow> map_option unref (ms_map ?i k) =
       (if ms_victim st now = Some k then None else map_option unref (ms_map st k))) \<and>
    ms_wheel ?i = (case ms_victim st now of None \<Rightarrow> ms_wheel st | Some v \<Rightarrow> tw_delete (ms_wheel st) v) \<and>
    (\<forall>M. ms_maxKeys st = Some M \<longrightarrow> 1 \<le> M \<and> ms_hand ?i < M \<and> ring_ok M ?i)"
  proof (cases "ms_maxKeys st")
    case None
    then show ?thesis by (simp add: ms_insert_def ms_victim_def)
  next
    case (Some M)
    then show ?thesis using ms_insert_ok[where st = st and M = M and key = key and x = x and y = y and now = now] d(3)[OF Some] new by auto
  qed
  have wok: "wheel_ok (ms_wheel ?i)"
    using I d(1) tw_delete_ok(1)[OF d(1)] by (auto split: option.splits)
  have wabs: "wheel_abs (ms_wheel ?i) k = wheel_abs (ms_wheel st) k" if "ms_victim st now \<noteq> Some k" for k
    using I that tw_delete_ok(2)[OF d(1)] by (auto split: option.splits)
  show "ms_maxKeys st' = ms_maxKeys st" using I by (simp add: st'_def)
  show "\<exists>e. ms_map st' key = Some e \<and> me_state e = x \<and> me_exp e = y" using I by (simp add: st'_def)
  show "k \<noteq> key \<Longrightarrow> map_option unref (ms_map st' k) =
       (if ms_victim st now = Some k then None else map_option unref (ms_map st k))" using I by (simp add: st'_def)
  have "wheel_abs (ms_wheel st') k = Some (me_exp e)" if e: "ms_map st' k = Some e" for k e
  proof (cases "k = key")
    case True
    then show ?thesis using I e tw_set_ok(2)[OF wok] by (auto simp: st'_def)
  next
    case False
    have ek: "ms_map ?i k = Some e" using e by (simp add: st'_def)
    have "ms_victim st now \<noteq> Some k"
    proof
      assume "ms_victim st now = Some k"
      then have "map_option unref (ms_map ?i k) = None" using I False by auto
      then show False using ek by simp
    qed
    moreover from this have "map_option unref (ms_map ?i k) = map_option unref (ms_map st k)" using I False by simp
    then obtain e' where "ms_map st k = Some e'" "me_exp e' = me_exp e" using unref_same[OF _ ek] by blast
    ultimately show ?thesis using False d(2)[of k e'] wabs[of k] tw_set_ok(2)[OF wok] by (simp add: st'_def)
  qed
  moreover have "ring_ok M st'" if "ring_ok M ?i" for M
    using that ring_ok_cong[of st' ?i M] by (simp add: st'_def)
  moreover have "wheel_ok (ms_wheel st')" using tw_set_ok(1)[OF wok] by (simp add: st'_def)
  ultimately show "ms_ok st'"
    using I by (auto simp: ms_ok_def st'_def split: option.splits)
qed

lemma ms_apply_known:
  assumes "ms_map (ms_expire st key now) key = Some e"
  shows "snd (ms_applySync st key f now) =
    (let s2 = ms_expire st key now;
         e1 = (if ms_maxKeys s2 \<noteq> None then e\<lparr>me_ref := True\<rparr> else e);
         s3 = s2\<lparr>ms_map := (ms_map s2)(key \<mapsto> e1)\<rparr>;
         out = f (me_state e)
     in if o_persist out then
          (let e2 = e1\<lparr>me_state := o_state out, me_exp := now + max 0 (o_ttlMs out)\<rparr>
           in s3\<lparr>ms_map := (ms_map s3)(key \<mapsto> e2), ms_wheel := tw_set (ms_wheel s3) key (me_exp e2)\<rparr>)
        else s3)"
  using assms
  by (cases "ms_maxKeys (ms_expire st key now)"; cases "o_persist (f (me_state e))")
     (simp_all add: ms_applySync_def Let_def fun_upd_idem)

lemma ms_apply_unknown:
  assumes "ms_map (ms_expire st key now) key = None"
  shows "snd (ms_applySync st key f now) =
    (let s2 = ms_expire st key now; out = f None
     in if o_persist out then
          (let y = now + max 0 (o_ttlMs out); i = ms_insert s2 key (o_state out) y now
           in i\<lparr>ms_wheel := tw_set (ms_wheel i) key y\<rparr>)
        else s2)"
  using assms by (simp add: ms_applySync_def Let_def)

lemma ms_apply_ok:
  fixes f :: "('s, 'r) transform" and now :: num and key :: string
  assumes ok: "ms_ok st"
  defines "st' \<equiv> snd (ms_applySync st key f now)" and "out \<equiv> f (ms_live st key now)"
  shows "fst (ms_applySync st key f now) = o_result out" "ms_ok st'" "ms_maxKeys st' = ms_maxKeys st"
    "now \<le> t \<Longrightarrow> ms_live st' key t = (if o_persist out then written_live out now t else ms_live st key t)"
    "k \<noteq> key \<Longrightarrow> now \<le> t \<Longrightarrow> ms_live st' k t = (if ms_forgets st key f now = Some k then None else ms_live st k t)"
proof -
  let ?s2 = "ms_expire st key now"
  note E = ms_expire_ok[OF ok, of key now] and cur = ms_apply_current[OF ok, of key now]
  show "fst (ms_applySync st key f now) = o_result out"
    by (simp add: ms_applySync_def Let_def cur out_def)
  have "ms_ok st' \<and> ms_maxKeys st' = ms_maxKeys st \<and>
    (\<forall>t\<ge>now. ms_live st' key t = (if o_persist out then written_live out now t else ms_live ?s2 key t)) \<and>
    (\<forall>k t. k \<noteq> key \<longrightarrow> now \<le> t \<longrightarrow>
       ms_live st' k t = (if ms_forgets st key f now = Some k then None else ms_live ?s2 k t))"
  proof (cases "ms_map ?s2 key")
    case (Some e)
    let ?e1 = "if ms_maxKeys ?s2 \<noteq> None then e\<lparr>me_ref := True\<rparr> else e"
    let ?s3 = "?s2\<lparr>ms_map := (ms_map ?s2)(key \<mapsto> ?e1)\<rparr>"
    have fe: "f (me_state e) = out" using cur Some by (simp add: out_def)
    have e1: "me_state ?e1 = me_state e" "me_slot ?e1 = me_slot e" "me_exp ?e1 = me_exp e" by simp_all
    have ok3: "ms_ok ?s3" using ms_ref_ok[OF E(1) Some, of True] E(1) Some by (auto simp: fun_upd_idem)
    have nf: "ms_forgets st key f now = None" using Some by (simp add: ms_forgets_def ms_new_key_def)
    show ?thesis
    proof (cases "o_persist out")
      case True
      let ?y = "now + max 0 (o_ttlMs out)"
      let ?e2 = "?e1\<lparr>me_state := o_state out, me_exp := ?y\<rparr>"
      have st': "st' = ?s3\<lparr>ms_map := (ms_map ?s3)(key \<mapsto> ?e2), ms_wheel := tw_set (ms_wheel ?s3) key (me_exp ?e2)\<rparr>"
        using True unfolding st'_def ms_apply_known[OF Some] Let_def fe by simp
      have "ms_ok st'" unfolding st' by (rule ms_set_ok[OF ok3, where e = ?e1]) simp_all
      then show ?thesis using True nf E(2) by (auto simp: st' ms_live_def written_live_def)
    next
      case False
      have st': "st' = ?s3"
        using False unfolding st'_def ms_apply_known[OF Some] Let_def fe by simp
      then show ?thesis using False nf E(2) ok3 Some by (auto simp: ms_live_def)
    qed
  next
    case None
    have fe: "f None = out" using cur None by (simp add: out_def)
    show ?thesis
    proof (cases "o_persist out")
      case True
      let ?y = "now + max 0 (o_ttlMs out)"
      let ?i = "ms_insert ?s2 key (o_state out) ?y now"
      have st': "st' = ?i\<lparr>ms_wheel := tw_set (ms_wheel ?i) key ?y\<rparr>"
        using True unfolding st'_def ms_apply_unknown[OF None] Let_def fe by simp
      note P = ms_put_ok[OF E(1) None, where x = "o_state out" and y = ?y and now = now, folded st']
      have fg: "ms_forgets st key f now = ms_victim ?s2 now"
        using True None by (simp add: ms_forgets_def ms_new_key_def out_def)
      have "ms_live st' k t = (if ms_victim ?s2 now = Some k then None else ms_live ?s2 k t)" if "k \<noteq> key" for k t
        using P(4)[OF that] ms_live_unref[of st' k ?s2 t] by (auto simp: ms_live_def)
      then show ?thesis using P(1-3) E(2) True fg by (auto simp: ms_live_def written_live_def)
    next
      case False
      have "st' = ?s2"
        using False unfolding st'_def ms_apply_unknown[OF None] Let_def fe by simp
      moreover have "ms_forgets st key f now = None" using False by (simp add: ms_forgets_def ms_new_key_def out_def)
      ultimately show ?thesis using False E(1,2) by simp
    qed
  qed
  then show "ms_ok st'" "ms_maxKeys st' = ms_maxKeys st"
    "now \<le> t \<Longrightarrow> ms_live st' key t = (if o_persist out then written_live out now t else ms_live st key t)"
    "k \<noteq> key \<Longrightarrow> now \<le> t \<Longrightarrow> ms_live st' k t = (if ms_forgets st key f now = Some k then None else ms_live st k t)"
    by (simp_all add: ms_expire_live[OF ok])
qed

section \<open>The interface\<close>

lemma ms_unbounded_forgets: "ms_ok st \<Longrightarrow> ms_maxKeys st = None \<Longrightarrow> ms_forgets st key f now = None"
  by (simp add: ms_forgets_def ms_victim_def ms_expire_ok)

lemma ms_reset_live: "ms_live (ms_resetSync st k) k' t = (if k' = k then None else ms_live st k' t)"
  by (simp add: ms_live_def ms_resetSync_def Let_def ms_drop_map)

lemma ms_reset_maxKeys [simp]: "ms_maxKeys (ms_resetSync st k) = ms_maxKeys st"
  by (simp add: ms_resetSync_def Let_def)

lemma ms_sweep_live: "ms_ok st \<Longrightarrow> now \<le> t \<Longrightarrow> ms_live (ms_sweep st now) k t = ms_live st k t"
  using ms_sweep_ok(3)[of st now k] by (auto simp: ms_live_def split: option.splits)

interpretation ms_store: managed_store ms_applySync "\<lambda>st. ms_ok st \<and> ms_maxKeys st = None" ms_live
  ms_resetSync ms_sweep
  by unfold_locales (auto simp: ms_apply_ok ms_unbounded_forgets ms_reset_ok ms_reset_live ms_sweep_ok ms_sweep_live)

section \<open>Capacity\<close>




section \<open>Correctness\<close>

text \<open>
  C12. The in-process store refines independent cells with a TTL, bounded or not: \<open>applySync\<close> runs the
  transform on exactly the unexpired state of the key, keeps the invariant, leaves the key showing the
  written state until its TTL (or what it showed before, when the outcome does not persist), and leaves
  every other key showing what it did, except the one key that a full bounded store evicts.
\<close>

theorem memory_store_refines_cells:
  assumes "ms_ok st"
  shows "fst (ms_applySync st key f now) = o_result (f (ms_live st key now)) \<and>
    ms_ok (snd (ms_applySync st key f now)) \<and>
    (\<forall>t\<ge>now. ms_live (snd (ms_applySync st key f now)) key t =
       (if o_persist (f (ms_live st key now)) then written_live (f (ms_live st key now)) now t
        else ms_live st key t)) \<and>
    (\<forall>k t. k \<noteq> key \<and> now \<le> t \<longrightarrow> ms_live (snd (ms_applySync st key f now)) k t =
       (if ms_forgets st key f now = Some k then None else ms_live st k t)) \<and>
    (ms_maxKeys st = None \<longrightarrow> ms_forgets st key f now = None)"
  by (intro conjI allI impI; (elim conjE)?; rule ms_apply_ok[OF assms] ms_unbounded_forgets[OF assms]; assumption)

theorem memory_store_refines_cells_witness:
  "fst (ms_applySync (ms_new 0 (Some 2) None None) ''a''
     (\<lambda>s. \<lparr>o_state = Some (1::nat), o_result = s, o_ttlMs = 10, o_persist = True\<rparr>) 0) = None"
proof -
  have "ms_ok (ms_new 0 (Some 2) None None :: nat memory_store)" by (rule ms_new_ok) simp
  from memory_store_refines_cells[OF this, of "''a''"
      "\<lambda>s. \<lparr>o_state = Some 1, o_result = s, o_ttlMs = 10, o_persist = True\<rparr>" 0]
  show ?thesis by (simp add: ms_live_def ms_new_def)
qed



text \<open>
  C14. CLOCK eviction terminates within its bound with a victim, and gives second chances: on a full
  ring, \<open>evictSlot\<close> returns a slot whose key it has removed from the map and the wheel; the victim is
  expired or was not used since the hand last passed, unless every key is live and was used, and every
  other entry is kept but for reference bits.
\<close>

theorem memory_store_second_chance:
  assumes "ring_ok M st" "ring_full st" "ms_evictSlot now st = (slot, st')"
  shows "slot < length (ms_ring st) \<and>
    (\<exists>v e. ms_ring st ! slot = Some v \<and> ms_map st v = Some e \<and> ms_map st' v = None \<and>
       ms_wheel st' = tw_delete (ms_wheel st) v \<and>
       (me_exp e \<le> now \<or> \<not> me_ref e \<or>
        (\<forall>k x. ms_map st k = Some x \<longrightarrow> now < me_exp x \<and> me_ref x)) \<and>
       (\<forall>k. k \<noteq> v \<longrightarrow> map_option unref (ms_map st' k) = map_option unref (ms_map st k)))"
proof -
  let ?n = "length (ms_ring st)"
  obtain st2 where "ms_evictSlot now st = (evict_victim st now, st2)" "evicted st (evict_victim st now) st2"
    using ms_evictSlot_ok[OF assms(1,2)] by blast
  then have sl: "slot = evict_victim st now" and ev: "evicted st slot st'" using assms(3) by auto
  have h: "ms_hand st < ?n" using assms(2) by (simp add: ring_full_def)
  have lt: "slot < ?n" using h by (simp add: sl evict_victim_def Let_def) (metis mod_less_divisor gr_zeroI not_less_zero)
  obtain v e where v: "ms_ring st ! slot = Some v" "ms_map st v = Some e" "ms_map st' v = None"
    "ms_wheel st' = tw_delete (ms_wheel st) v"
    "\<forall>k. k \<noteq> v \<longrightarrow> map_option unref (ms_map st' k) = map_option unref (ms_map st k)"
    using ev unfolding evicted_def by blast
  have "me_exp e \<le> now \<or> \<not> me_ref e \<or> (\<forall>k x. ms_map st k = Some x \<longrightarrow> now < me_exp x \<and> me_ref x)"
  proof (cases "\<exists>j<?n. takeable st now ((ms_hand st + j) mod ?n)")
    case True
    then have "takeable st now slot" unfolding sl evict_victim_def Let_def if_P[OF True] by (metis (mono_tags, lifting) LeastI_ex)
    then show ?thesis using v by (auto simp: takeable_def)
  next
    case False
    have "now < me_exp x \<and> me_ref x" if x: "ms_map st k = Some x" for k x
    proof -
      obtain i where i: "i < ?n" "me_slot x = Some i" using ring_okD(5)[OF assms(1) x] by blast
      then have ki: "ms_ring st ! i = Some k" using ring_okD(4)[OF assms(1) i(1), of k] x by blast
      define j where "j = (i + ?n - ms_hand st) mod ?n"
      have "(ms_hand st + j) mod ?n = i" using h i(1) by (simp add: j_def mod_add_right_eq)
      moreover have "j < ?n" unfolding j_def by (rule mod_less_divisor) (use h in linarith)
      ultimately have "\<not> takeable st now i" using False by auto
      then show ?thesis using ki x by (simp add: takeable_def not_le)
    qed
    then show ?thesis by blast
  qed
  then show ?thesis using lt v by blast
qed

theorem memory_store_second_chance_witness:
  "\<exists>slot st'. ms_evictSlot 5 \<lparr>ms_map = [''a'' \<mapsto> \<lparr>me_state = Some (1::nat), me_ref = True, me_slot = Some 0, me_exp = 10\<rparr>],
     ms_wheel = tw_new 0 None None, ms_maxKeys = Some 1, ms_ring = [Some ''a''], ms_free = [], ms_hand = 0\<rparr> = (slot, st') \<and>
     slot < 1"
proof -
  let ?st = "\<lparr>ms_map = [''a'' \<mapsto> \<lparr>me_state = Some (1::nat), me_ref = True, me_slot = Some 0, me_exp = 10\<rparr>],
     ms_wheel = tw_new 0 None None, ms_maxKeys = Some 1, ms_ring = [Some ''a''], ms_free = [], ms_hand = 0\<rparr>"
  obtain slot st' where e: "ms_evictSlot 5 ?st = (slot, st')" by (metis prod.exhaust)
  have "ring_ok 1 ?st" "ring_full ?st" by (auto simp: ring_ok_def ring_full_def)
  from memory_store_second_chance[OF this e] have "slot < 1" by simp
  then show ?thesis using e by blast
qed

end
