(* ===== verification/Limiter.thy ===== *)
theory Limiter
  imports MemoryStore Gcra
begin

text \<open>
  \<open>src/core/limiter.ts\<close> and \<open>src/core/transform.ts\<close>: \<open>rateLimit\<close>, which runs a strategy over a store under
  a key prefix. Every method of the limiter is here, with its argument checks in the order of the code.
  The lemmas compose the contract of a strategy with the contract of a store: whatever is called on
  whatever keys, each key behaves as its own strategy state that never expires.
\<close>

section \<open>Transforms (transform.ts)\<close>

definition decisionTransform :: "'s strategy \<Rightarrow> num \<Rightarrow> num \<Rightarrow> ('s, decision) transform" where
  "decisionTransform strategy now cost = (\<lambda>state. st_check strategy state now cost)"

definition readOnlyTransform :: "('s option \<Rightarrow> num \<Rightarrow> 'r) \<Rightarrow> num \<Rightarrow> ('s, 'r) transform" where
  "readOnlyTransform project now =
     (\<lambda>state. \<lparr>o_state = state, o_result = project state now, o_ttlMs = 0, o_persist = False\<rparr>)"

section \<open>The limiter (limiter.ts)\<close>

text \<open>
  A store is its \<open>applySync\<close>, which an async-only store lacks. A call on an async-only store answers with
  the applications it hands to \<open>store.apply\<close>; a call on a synchronous one has its value at once.
\<close>

type_synonym ('st, 's, 'r) sync_api = "('st \<Rightarrow> string \<Rightarrow> ('s, 'r) transform \<Rightarrow> num \<Rightarrow> 'r \<times> 'st) option"

datatype ('st, 's, 'r, 'a) reply = Done 'a 'st | Fired "(string \<times> ('s, 'r) transform) list"

record 's limiter =
  lm_strategy :: "'s strategy"
  lm_prefix :: "string option"
  lm_ownsStore :: bool

definition lm_key :: "'s limiter \<Rightarrow> string \<Rightarrow> string" where
  "lm_key L = prefixer (lm_prefix L)"

definition lm_apply :: "('st, 's, 'r) sync_api \<Rightarrow> 'st \<Rightarrow> string \<Rightarrow> ('s, 'r) transform \<Rightarrow> num \<Rightarrow> ('st, 's, 'r, 'r) reply" where
  "lm_apply api st k f now =
     (case api of Some app \<Rightarrow> (case app st k f now of (r, st') \<Rightarrow> Done r st') | None \<Rightarrow> Fired [(k, f)])"

definition lm_check ::
  "('st, 's, decision) sync_api \<Rightarrow> 's limiter \<Rightarrow> 'st \<Rightarrow> num \<Rightarrow> string \<Rightarrow> js_number \<Rightarrow>
   ('st, 's, decision, decision) reply result" where
  "lm_check api L st now key cost =
     rbind (requireCost cost) (\<lambda>c. Inr (lm_apply api st (lm_key L key) (decisionTransform (lm_strategy L) now c) now))"

definition lm_checkSync ::
  "('st, 's, decision) sync_api \<Rightarrow> 's limiter \<Rightarrow> 'st \<Rightarrow> num \<Rightarrow> string \<Rightarrow> js_number \<Rightarrow> (decision \<times> 'st) result" where
  "lm_checkSync api L st now key cost =
     rbind (requireCost cost) (\<lambda>c.
       case api of
         None \<Rightarrow> Inl (ThrottleKitError ''checkSync'')
       | Some app \<Rightarrow> Inr (app st (lm_key L key) (decisionTransform (lm_strategy L) now c) now))"

fun sync_many ::
  "('st \<Rightarrow> string \<Rightarrow> ('s, 'r) transform \<Rightarrow> num \<Rightarrow> 'r \<times> 'st) \<Rightarrow> ('s, 'r) transform \<Rightarrow> num \<Rightarrow>
   'st \<Rightarrow> string list \<Rightarrow> 'r list \<times> 'st" where
  "sync_many app f now st [] = ([], st)"
| "sync_many app f now st (k # ks) =
     (let (d, st1) = app st k f now; (ds, st2) = sync_many app f now st1 ks in (d # ds, st2))"

definition lm_checkMany ::
  "('st, 's, decision) sync_api \<Rightarrow> 's limiter \<Rightarrow> 'st \<Rightarrow> num \<Rightarrow> string list \<Rightarrow> js_number \<Rightarrow>
   ('st, 's, decision, decision list) reply result" where
  "lm_checkMany api L st now keys cost =
     rbind (requireCost cost) (\<lambda>c.
       let f = decisionTransform (lm_strategy L) now c; ks = map (lm_key L) keys
       in case api of
            Some app \<Rightarrow> Inr (case sync_many app f now st ks of (ds, st') \<Rightarrow> Done ds st')
          | None \<Rightarrow> Inr (Fired (map (\<lambda>k. (k, f)) ks)))"

definition lm_checkManySync ::
  "('st, 's, decision) sync_api \<Rightarrow> 's limiter \<Rightarrow> 'st \<Rightarrow> num \<Rightarrow> string list \<Rightarrow> js_number \<Rightarrow>
   (decision list \<times> 'st) result" where
  "lm_checkManySync api L st now keys cost =
     rbind (requireCost cost) (\<lambda>c.
       case api of
         None \<Rightarrow> Inl (ThrottleKitError ''checkManySync'')
       | Some app \<Rightarrow>
           Inr (sync_many app (decisionTransform (lm_strategy L) now c) now st (map (lm_key L) keys)))"

text \<open>
  \<open>peek\<close> and \<open>forecast\<close> leave the time of the application to the store's own clock, \<open>snow\<close>.
\<close>

definition lm_peek ::
  "('st, 's, decision) sync_api \<Rightarrow> 's limiter \<Rightarrow> 'st \<Rightarrow> num \<Rightarrow> num \<Rightarrow> string \<Rightarrow>
   ('st, 's, decision, decision) reply result" where
  "lm_peek api L st now snow key =
     (case st_peek (lm_strategy L) of
        None \<Rightarrow> Inl (ThrottleKitError ''peek'')
      | Some peekFn \<Rightarrow> Inr (lm_apply api st (lm_key L key) (readOnlyTransform peekFn now) snow))"

definition lm_peekSync ::
  "('st, 's, decision) sync_api \<Rightarrow> 's limiter \<Rightarrow> 'st \<Rightarrow> num \<Rightarrow> num \<Rightarrow> string \<Rightarrow> (decision \<times> 'st) result" where
  "lm_peekSync api L st now snow key =
     (case st_peek (lm_strategy L) of
        None \<Rightarrow> Inl (ThrottleKitError ''peek'')
      | Some peekFn \<Rightarrow>
          (case api of
             None \<Rightarrow> Inl (ThrottleKitError ''peekSync'')
           | Some app \<Rightarrow> Inr (app st (lm_key L key) (readOnlyTransform peekFn now) snow)))"

definition lm_forecast ::
  "('st, 's, forecast) sync_api \<Rightarrow> 's limiter \<Rightarrow> 'st \<Rightarrow> num \<Rightarrow> num \<Rightarrow> string \<Rightarrow> js_number \<Rightarrow>
   ('st, 's, forecast, forecast) reply result" where
  "lm_forecast api L st now snow key cost =
     (case st_forecast (lm_strategy L) of
        None \<Rightarrow> Inl (ThrottleKitError ''forecast'')
      | Some fc \<Rightarrow>
          rbind (requireCost cost) (\<lambda>c.
            Inr (lm_apply api st (lm_key L key) (readOnlyTransform (\<lambda>s t. fc s t c) now) snow)))"

definition lm_forecastSync ::
  "('st, 's, forecast) sync_api \<Rightarrow> 's limiter \<Rightarrow> 'st \<Rightarrow> num \<Rightarrow> num \<Rightarrow> string \<Rightarrow> js_number \<Rightarrow>
   (forecast \<times> 'st) result" where
  "lm_forecastSync api L st now snow key cost =
     (case st_forecast (lm_strategy L) of
        None \<Rightarrow> Inl (ThrottleKitError ''forecast'')
      | Some fc \<Rightarrow>
          rbind (requireCost cost) (\<lambda>c.
            case api of
              None \<Rightarrow> Inl (ThrottleKitError ''forecastSync'')
            | Some app \<Rightarrow> Inr (app st (lm_key L key) (readOnlyTransform (\<lambda>s t. fc s t c) now) snow)))"

text \<open>Over the in-process store.\<close>

definition lm_reset :: "'s limiter \<Rightarrow> 's memory_store \<Rightarrow> string \<Rightarrow> 's memory_store" where
  "lm_reset L st key = ms_resetSync st (lm_key L key)"

definition lm_close :: "'s limiter \<Rightarrow> 's memory_store \<Rightarrow> 's memory_store" where
  "lm_close L st = (if lm_ownsStore L then ms_close st else st)"

section \<open>Runs\<close>

text \<open>A call on the limiter, or a tick of the store's sweep timer.\<close>

datatype lm_op =
    Check string js_number
  | CheckMany "string list" js_number
  | Peek string
  | Forecast string js_number
  | Reset string
  | Sweep

datatype lm_out = Decided decision | DecidedAll "decision list" | Forecasted forecast | Quiet | Failed error

definition settle :: "('a \<Rightarrow> lm_out) \<Rightarrow> 'st \<Rightarrow> ('a \<times> 'st) result \<Rightarrow> lm_out \<times> 'st" where
  "settle w st r = (case r of Inl e \<Rightarrow> (Failed e, st) | Inr (a, st') \<Rightarrow> (w a, st'))"

fun lm_step :: "'s limiter \<Rightarrow> 's memory_store \<Rightarrow> num \<Rightarrow> lm_op \<Rightarrow> lm_out \<times> 's memory_store" where
  "lm_step L st now (Check key cost) = settle Decided st (lm_checkSync (Some ms_applySync) L st now key cost)"
| "lm_step L st now (CheckMany keys cost) =
     settle DecidedAll st (lm_checkManySync (Some ms_applySync) L st now keys cost)"
| "lm_step L st now (Peek key) = settle Decided st (lm_peekSync (Some ms_applySync) L st now now key)"
| "lm_step L st now (Forecast key cost) =
     settle Forecasted st (lm_forecastSync (Some ms_applySync) L st now now key cost)"
| "lm_step L st now (Reset key) = (Quiet, lm_reset L st key)"
| "lm_step L st now Sweep = (Quiet, ms_sweep st now)"

fun lm_run :: "'s limiter \<Rightarrow> 's memory_store \<Rightarrow> (num \<times> lm_op) list \<Rightarrow> lm_out list" where
  "lm_run L st [] = []"
| "lm_run L st ((now, op) # ops) = (let (out, st') = lm_step L st now op in out # lm_run L st' ops)"

text \<open>
  The specification: one state of the strategy per caller's key, kept for ever. No prefix, no TTL, no
  store.
\<close>

definition ideal_check :: "'s strategy \<Rightarrow> num \<Rightarrow> num \<Rightarrow> (string \<Rightarrow> 's option) \<Rightarrow> string \<Rightarrow> decision \<times> (string \<Rightarrow> 's option)" where
  "ideal_check S now c m key =
     (let out = st_check S (m key) now c in (o_result out, m(key := next_state (m key) out)))"

fun ideal_many ::
  "'s strategy \<Rightarrow> num \<Rightarrow> num \<Rightarrow> (string \<Rightarrow> 's option) \<Rightarrow> string list \<Rightarrow> decision list \<times> (string \<Rightarrow> 's option)" where
  "ideal_many S now c m [] = ([], m)"
| "ideal_many S now c m (k # ks) =
     (let (d, m1) = ideal_check S now c m k; (ds, m2) = ideal_many S now c m1 ks in (d # ds, m2))"

fun ideal_step :: "'s strategy \<Rightarrow> (string \<Rightarrow> 's option) \<Rightarrow> num \<Rightarrow> lm_op \<Rightarrow> lm_out \<times> (string \<Rightarrow> 's option)" where
  "ideal_step S m now (Check key cost) =
     settle Decided m (rbind (requireCost cost) (\<lambda>c. Inr (ideal_check S now c m key)))"
| "ideal_step S m now (CheckMany keys cost) =
     settle DecidedAll m (rbind (requireCost cost) (\<lambda>c. Inr (ideal_many S now c m keys)))"
| "ideal_step S m now (Peek key) =
     (case st_peek S of None \<Rightarrow> (Failed (ThrottleKitError ''peek''), m) | Some pk \<Rightarrow> (Decided (pk (m key) now), m))"
| "ideal_step S m now (Forecast key cost) =
     (case st_forecast S of
        None \<Rightarrow> (Failed (ThrottleKitError ''forecast''), m)
      | Some fc \<Rightarrow> settle Forecasted m (rbind (requireCost cost) (\<lambda>c. Inr (fc (m key) now c, m))))"
| "ideal_step S m now (Reset key) = (Quiet, m(key := None))"
| "ideal_step S m now Sweep = (Quiet, m)"

fun ideal_run :: "'s strategy \<Rightarrow> (string \<Rightarrow> 's option) \<Rightarrow> (num \<times> lm_op) list \<Rightarrow> lm_out list" where
  "ideal_run S m [] = []"
| "ideal_run S m ((now, op) # ops) = (let (out, m') = ideal_step S m now op in out # ideal_run S m' ops)"

section \<open>The simulation\<close>

context forecasting_strategy
begin

text \<open>Each prefixed key of the store simulates the ideal state of the caller's key.\<close>

definition keyed :: "'p \<Rightarrow> string option \<Rightarrow> num \<Rightarrow> 's memory_store \<Rightarrow> (string \<Rightarrow> 's option) \<Rightarrow> bool" where
  "keyed p pre t st m \<longleftrightarrow>
     (\<forall>k. \<exists>cl. ms_store.matches st (prefixer pre k) t cl \<and> simulates p t cl (m k))"

lemma simulates_mono: "valid p \<Longrightarrow> simulates p t cl s \<Longrightarrow> t \<le> t' \<Longrightarrow> simulates p t' cl s"
  by (auto simp: simulates_def intro: opt_inv_mono)

lemma keyedE:
  assumes "keyed p pre t st m"
  obtains cl where "ms_store.matches st (prefixer pre k) t cl" "simulates p t cl (m k)"
  using assms by (auto simp: keyed_def)

lemma keyed_mono: "valid p \<Longrightarrow> keyed p pre t st m \<Longrightarrow> t \<le> t' \<Longrightarrow> keyed p pre t' st m"
  by (meson keyed_def simulates_mono ms_store.matches_mono)

lemma keyed_check:
  assumes v: "valid p" "dom p now" and c: "0 < c" and R: "keyed p pre now st m"
    and d: "ideal_check (mk p) now c m key = (d, m')"
  shows "\<exists>st'. ms_applySync st (prefixer pre key) (decisionTransform (mk p) now c) now = (d, st') \<and> keyed p pre now st' m'"
proof -
  let ?f = "decisionTransform (mk p) now c"
  obtain r st' where a: "ms_applySync st (prefixer pre key) ?f now = (r, st')" by (metis prod.exhaust)
  obtain cl where cl: "ms_store.matches st (prefixer pre key) now cl" "simulates p now cl (m key)"
    by (rule keyedE[OF R])
  note step = simulates_step[OF v cl(2) order_refl c]
  have d': "d = o_result (st_check (mk p) (m key) now c)" "m' = m(key := next_state (m key) (st_check (mk p) (m key) now c))"
    using d by (simp_all add: ideal_check_def Let_def)
  have "r = d"
    using ms_store.matches_result[OF cl(1) order_refl, of ?f] step(1) d'(1) a by (simp add: decisionTransform_def)
  moreover have "keyed p pre now st' m'" unfolding keyed_def
  proof
    fix k
    show "\<exists>cl. ms_store.matches st' (prefixer pre k) now cl \<and> simulates p now cl (m' k)"
    proof (cases "k = key")
      case True
      then show ?thesis
        using ms_store.matches_app[OF cl(1) order_refl, of ?f] step(2) a d'(2) by (auto simp: decisionTransform_def)
    next
      case False
      obtain cl2 where "ms_store.matches st (prefixer pre k) now cl2" "simulates p now cl2 (m k)"
        by (rule keyedE[OF R])
      then show ?thesis
        using ms_store.matches_frame[of st "prefixer pre k" now cl2 now "prefixer pre key" ?f] False a d'(2)
        by (auto simp: prefixer_inj)
    qed
  qed
  ultimately show ?thesis using a by blast
qed

lemma keyed_many:
  assumes v: "valid p" "dom p now" and c: "0 < c"
  shows "keyed p pre now st m \<Longrightarrow> ideal_many (mk p) now c m keys = (ds, m') \<Longrightarrow>
    \<exists>st'. sync_many ms_applySync (decisionTransform (mk p) now c) now st (map (prefixer pre) keys) = (ds, st') \<and>
      keyed p pre now st' m'"
proof (induction keys arbitrary: st m ds)
  case (Cons k ks)
  obtain d m1 where d: "ideal_check (mk p) now c m k = (d, m1)" by (metis prod.exhaust)
  obtain ds2 where ds: "ds = d # ds2" "ideal_many (mk p) now c m1 ks = (ds2, m')"
    using Cons.prems(2) d by (auto split: prod.splits)
  obtain st1 where st1: "ms_applySync st (prefixer pre k) (decisionTransform (mk p) now c) now = (d, st1)"
    "keyed p pre now st1 m1" using keyed_check[OF v c Cons.prems(1) d] by blast
  show ?case using Cons.IH[OF st1(2) ds(2)] st1(1) ds(1) by auto
qed auto

lemma keyed_read:
  assumes v: "valid p" and R: "keyed p pre now st m"
    and pv: "\<And>a b. view p a now = view p b now \<Longrightarrow> proj a now = proj b now"
  shows "\<exists>st'. ms_applySync st (prefixer pre key) (readOnlyTransform proj now) now = (proj (m key) now, st') \<and>
    keyed p pre now st' m"
proof -
  let ?f = "readOnlyTransform proj now"
  obtain r st' where a: "ms_applySync st (prefixer pre key) ?f now = (r, st')" by (metis prod.exhaust)
  have np: "\<not> o_persist (?f s)" for s by (simp add: readOnlyTransform_def)
  obtain cl where cl: "ms_store.matches st (prefixer pre key) now cl" "simulates p now cl (m key)"
    by (rule keyedE[OF R])
  have "proj (live_cell cl now) now = proj (m key) now" by (rule pv) (use cl(2) in \<open>simp add: simulates_def\<close>)
  then have "r = proj (m key) now"
    using ms_store.matches_result[OF cl(1) order_refl, of ?f] a by (simp add: readOnlyTransform_def)
  moreover have "keyed p pre now st' m" unfolding keyed_def
  proof
    fix k
    obtain cl2 where cl2: "ms_store.matches st (prefixer pre k) now cl2" "simulates p now cl2 (m k)"
      by (rule keyedE[OF R])
    have "ms_store.matches st' (prefixer pre k) now cl2"
      using ms_store.matches_frame[OF cl2(1) order_refl, of "prefixer pre key" ?f]
        ms_store.matches_readonly[where f = ?f, OF cl2(1) order_refl np] a by (cases "k = key") (auto simp: prefixer_inj)
    then show "\<exists>cl. ms_store.matches st' (prefixer pre k) now cl \<and> simulates p now cl (m k)" using cl2(2) by blast
  qed
  ultimately show ?thesis using a by blast
qed

lemma keyed_sweep:
  assumes "keyed p pre now st m"
  shows "keyed p pre now (ms_sweep st now) m"
  unfolding keyed_def
proof
  fix k
  obtain cl where "ms_store.matches st (prefixer pre k) now cl" "simulates p now cl (m k)"
    by (rule keyedE[OF assms])
  then show "\<exists>cl. ms_store.matches (ms_sweep st now) (prefixer pre k) now cl \<and> simulates p now cl (m k)"
    using ms_store.matches_sweep by blast
qed

lemma keyed_reset:
  assumes "keyed p pre now st m"
  shows "keyed p pre now (ms_resetSync st (prefixer pre key)) (m(key := None))"
  unfolding keyed_def
proof
  fix k
  obtain cl where cl: "ms_store.matches st (prefixer pre k) now cl" "simulates p now cl (m k)"
    by (rule keyedE[OF assms])
  show "\<exists>cl. ms_store.matches (ms_resetSync st (prefixer pre key)) (prefixer pre k) now cl \<and>
      simulates p now cl ((m(key := None)) k)"
  proof (cases "k = key")
    case True
    then show ?thesis
      using ms_store.matches_reset[OF cl(1)] by (auto intro!: exI[of _ None] simp: simulates_def live_cell_def)
  next
    case False
    then show ?thesis
      using ms_store.matches_reset_frame[OF cl(1), of "prefixer pre key"] cl(2) by (auto simp: prefixer_inj)
  qed
qed

lemma keyed_step:
  assumes v: "valid p" "dom p now" and R: "keyed p (lm_prefix L) now st m" and L: "lm_strategy L = mk p"
    and i: "ideal_step (mk p) m now op = (out, m')"
  shows "\<exists>st'. lm_step L st now op = (out, st') \<and> keyed p (lm_prefix L) now st' m'"
proof (cases op)
  case (Check key cost)
  show ?thesis
  proof (cases "requireCost cost")
    case (Inr c)
    obtain d m1 where d: "ideal_check (mk p) now c m key = (d, m1)" by (metis prod.exhaust)
    have "0 < c" using Inr by (simp add: requireCost_Inr)
    from keyed_check[OF v this R d] show ?thesis
      using i Inr d L by (auto simp: Check lm_checkSync_def lm_key_def settle_def)
  qed (use i R in \<open>auto simp: Check lm_checkSync_def settle_def\<close>)
next
  case (CheckMany keys cost)
  show ?thesis
  proof (cases "requireCost cost")
    case (Inr c)
    obtain ds m1 where d: "ideal_many (mk p) now c m keys = (ds, m1)" by (metis prod.exhaust)
    have "0 < c" using Inr by (simp add: requireCost_Inr)
    from keyed_many[OF v this R d] show ?thesis
      using i Inr d L by (auto simp: CheckMany lm_checkManySync_def lm_key_def[abs_def] settle_def)
  qed (use i R in \<open>auto simp: CheckMany lm_checkManySync_def settle_def\<close>)
next
  case (Peek key)
  have "\<exists>st'. ms_applySync st (prefixer (lm_prefix L) key) (readOnlyTransform (peek p) now) now =
      (peek p (m key) now, st') \<and> keyed p (lm_prefix L) now st' m"
    by (rule keyed_read[OF v(1) R]) (rule peek_view[OF v(1)])
  then show ?thesis using i L by (auto simp: Peek lm_peekSync_def lm_key_def peek_sel settle_def)
next
  case (Forecast key cost)
  obtain fc where fc: "st_forecast (mk p) = Some fc" using forecast_sel[of p] by blast
  show ?thesis
  proof (cases "requireCost cost")
    case (Inr c)
    have "\<exists>st'. ms_applySync st (prefixer (lm_prefix L) key) (readOnlyTransform (\<lambda>s t. fc s t c) now) now =
        (fc (m key) now c, st') \<and> keyed p (lm_prefix L) now st' m"
      by (rule keyed_read[OF v(1) R, where proj = "\<lambda>s t. fc s t c"]) (rule forecast_view[OF v(1) fc])
    then show ?thesis using i L Inr by (auto simp: Forecast lm_forecastSync_def lm_key_def fc settle_def)
  qed (use i R L fc in \<open>auto simp: Forecast lm_forecastSync_def settle_def\<close>)
next
  case (Reset key)
  then show ?thesis using keyed_reset[OF R, of key] i by (simp add: lm_reset_def lm_key_def)
next
  case Sweep
  then show ?thesis using keyed_sweep[OF R] i by simp
qed

lemma keyed_run:
  "valid p \<Longrightarrow> dom p t \<Longrightarrow> keyed p (lm_prefix L) t st m \<Longrightarrow> lm_strategy L = mk p \<Longrightarrow> sorted (t # map fst ops) \<Longrightarrow>
   lm_run L st ops = ideal_run (mk p) m ops"
proof (induction ops arbitrary: t st m)
  case (Cons r ops)
  obtain now op where r: "r = (now, op)" by (cases r)
  have t: "t \<le> now" "sorted (now # map fst ops)" using Cons.prems(5) by (auto simp: r)
  have dm: "dom p now" using dom_mono[OF Cons.prems(1,2) t(1)] .
  obtain out m' where i: "ideal_step (mk p) m now op = (out, m')" by (metis prod.exhaust)
  obtain st' where "lm_step L st now op = (out, st')" "keyed p (lm_prefix L) now st' m'"
    using keyed_step[OF Cons.prems(1) dm keyed_mono[OF Cons.prems(1,3) t(1)] Cons.prems(4) i] by blast
  then show ?case using Cons.IH[OF Cons.prems(1) dm _ Cons.prems(4) t(2)] i by (simp add: r)
qed simp

lemma keyed_new: "keyed p pre t (ms_new t None a b) (\<lambda>_. None)"
proof -
  have "ms_store.matches (ms_new t None a b) k t None" for k
    using ms_new_ok[of None t a b]
    by (simp add: ms_store.matches_def ms_live_def live_cell_def) (simp add: ms_new_def)
  then show ?thesis by (auto simp: keyed_def simulates_def live_cell_def intro!: exI[of _ None])
qed

end

section \<open>Correctness\<close>

text \<open>
  C15. The limiter composed with the in-process store without \<open>maxKeys\<close> (a bounded store may evict a live key), for
  every strategy that keeps the contract and under any prefix: on any sequence of \<open>check\<close>, \<open>checkMany\<close>, \<open>peek\<close>, \<open>forecast\<close> and \<open>reset\<close> calls on any keys
  and costs (bad costs included), with sweeps at any points and a clock that does not run backwards,
  every answer is that of independent per-key strategy states that are never expired, swept or shared.
\<close>

theorem limiter_refines_independent_keys:
  assumes "forecasting_strategy mk valid dm ok view peek" "valid p" "dm p t" "sorted (t # map fst ops)"
  shows "lm_run \<lparr>lm_strategy = mk p, lm_prefix = pre, lm_ownsStore = own\<rparr> (ms_new t None tickMs wheelSize) ops =
    ideal_run (mk p) (\<lambda>_. None) ops"
  by (rule forecasting_strategy.keyed_run[OF assms(1-3) _ _ assms(4)])
     (simp_all add: forecasting_strategy.keyed_new[OF assms(1)])

theorem limiter_refines_independent_keys_witness:
  "lm_run \<lparr>lm_strategy = gcra_mk (1, 10, 1), lm_prefix = Some ''ip'', lm_ownsStore = True\<rparr> (ms_new 0 None None None)
     [(0, Check ''a'' (Num 1)), (1, Check ''b'' (Num 1)), (2, Check ''a'' NaN), (3, Peek ''a''), (4, Reset ''a'')] =
   ideal_run (gcra_mk (1, 10, 1)) (\<lambda>_. None)
     [(0, Check ''a'' (Num 1)), (1, Check ''b'' (Num 1)), (2, Check ''a'' NaN), (3, Peek ''a''), (4, Reset ''a'')]"
  by (rule limiter_refines_independent_keys[OF gcra_f.forecasting_strategy_axioms])
     (simp_all add: gcra_valid_def)

end
