(* ===== verification/Multi.thy ===== *)
theory Multi
  imports MemoryStore Gcra TokenBucket FixedWindow
begin

text \<open>
  \<open>src/multi/index.ts\<close>: one request checked along several dimensions, all of which (or any of which) must
  allow it. The synchronous path reads every dimension, combines, then commits; the other path is one
  Lua script over the keys of all dimensions. The lemmas: what the commit leaves of every key, the
  binding dimension of the combined decision, and the agreement of the two paths.
\<close>

section \<open>Dimensions\<close>

datatype multi_mode = All | Any

text \<open>A weight is a number the caller computes, so it may be anything; the product is a double.\<close>

record ('ctx, 's) dimension =
  dm_key :: "'ctx \<Rightarrow> string"
  dm_strategy :: "'s strategy"
  dm_cost :: "('ctx \<Rightarrow> js_number) option"

type_synonym ('ctx, 's) dimensions = "(string \<times> ('ctx, 's) dimension) list"

fun js_scale :: "js_number \<Rightarrow> num \<Rightarrow> js_number" where
  "js_scale (Num w) g = js_of_real (w * g)"
| "js_scale NaN g = NaN"
| "js_scale Infinity g = (if g = 0 then NaN else if 0 < g then Infinity else NegInfinity)"
| "js_scale NegInfinity g = (if g = 0 then NaN else if 0 < g then NegInfinity else Infinity)"

definition requireNonEmpty :: "('ctx, 's) dimensions \<Rightarrow> ('ctx, 's) dimensions result" where
  "requireNonEmpty ds = (if length ds = 0 then Inl (ThrottleKitError ''multi'') else Inr ds)"

definition multi_all :: "('ctx, 's) dimensions \<Rightarrow> (multi_mode \<times> ('ctx, 's) dimensions) result" where
  "multi_all ds = rbind (requireNonEmpty ds) (\<lambda>d. Inr (All, d))"

definition multi_any :: "('ctx, 's) dimensions \<Rightarrow> (multi_mode \<times> ('ctx, 's) dimensions) result" where
  "multi_any ds = rbind (requireNonEmpty ds) (\<lambda>d. Inr (Any, d))"

definition keyOf :: "string option \<Rightarrow> string \<Rightarrow> string \<Rightarrow> string" where
  "keyOf prefix name raw =
     (case prefix of
        Some p \<Rightarrow> if length p > 0 then p @ '':'' @ name @ '':'' @ raw else name @ '':'' @ raw
      | None \<Rightarrow> name @ '':'' @ raw)"

definition dimCost :: "('ctx, 's) dimension \<Rightarrow> 'ctx \<Rightarrow> num \<Rightarrow> num result" where
  "dimCost dm ctx globalCost =
     requireCost (js_scale (case dm_cost dm of Some f \<Rightarrow> f ctx | None \<Rightarrow> Num 1) globalCost)"

section \<open>The combined decision\<close>

text \<open>The two loops of \<open>combine\<close>: over all results from the first, and over those that satisfy \<open>P\<close>.\<close>

definition pick :: "('a \<Rightarrow> 'a \<Rightarrow> bool) \<Rightarrow> 'a \<Rightarrow> 'a list \<Rightarrow> 'a" where
  "pick better b rs = foldl (\<lambda>b r. if better r b then r else b) b rs"

definition pick_where :: "('a \<Rightarrow> bool) \<Rightarrow> ('a \<Rightarrow> 'a \<Rightarrow> bool) \<Rightarrow> 'a list \<Rightarrow> 'a option" where
  "pick_where P better rs =
     foldl (\<lambda>b r. if P r \<and> (case b of None \<Rightarrow> True | Some x \<Rightarrow> better r x) then Some r else b) None rs"

text \<open>An empty list of results, which \<open>all\<close> and \<open>any\<close> exclude, would fail on \<open>results[0].limit\<close>.\<close>

definition combine :: "multi_mode \<Rightarrow> decision list \<Rightarrow> decision result" where
  "combine mode results =
     (if results = [] then Inl (TypeError ''limit'')
      else case mode of
        All \<Rightarrow>
          if list_all d_allowed results then
            (let b = pick (\<lambda>r b. d_remaining r < d_remaining b) (hd results) results
             in Inr \<lparr>d_allowed = True, d_limit = d_limit b, d_remaining = d_remaining b,
                     d_resetAt = d_resetAt b, d_retryAfterMs = 0\<rparr>)
          else
            (case pick_where (\<lambda>r. \<not> d_allowed r) (\<lambda>r b. d_retryAfterMs r > d_retryAfterMs b) results of
               None \<Rightarrow> Inl (TypeError ''limit'')
             | Some d \<Rightarrow> Inr \<lparr>d_allowed = False, d_limit = d_limit d, d_remaining = d_remaining d,
                             d_resetAt = d_resetAt d, d_retryAfterMs = d_retryAfterMs d\<rparr>)
      | Any \<Rightarrow>
          if list_ex d_allowed results then
            (case pick_where d_allowed (\<lambda>r b. d_remaining r > d_remaining b) results of
               None \<Rightarrow> Inl (TypeError ''limit'')
             | Some d \<Rightarrow> Inr \<lparr>d_allowed = True, d_limit = d_limit d, d_remaining = d_remaining d,
                             d_resetAt = d_resetAt d, d_retryAfterMs = 0\<rparr>)
          else
            (let b = pick (\<lambda>r b. d_retryAfterMs r < d_retryAfterMs b) (hd results) results
             in Inr \<lparr>d_allowed = False, d_limit = d_limit b, d_remaining = d_remaining b,
                     d_resetAt = d_resetAt b, d_retryAfterMs = d_retryAfterMs b\<rparr>))"

section \<open>The synchronous path\<close>

text \<open>
  What the read phase captures of a dimension. The transform hands its outcome out through a captured
  variable, so here its result is that outcome; it persists nothing, and a copy of the state protects
  the stored one.
\<close>

record 's captured =
  cp_fk :: string
  cp_strategy :: "'s strategy"
  cp_cost :: num
  cp_out :: "('s, decision) apply_outcome"

definition multi_peek :: "'s strategy \<Rightarrow> num \<Rightarrow> num \<Rightarrow> ('s, ('s, decision) apply_outcome) transform" where
  "multi_peek S now cost =
     (\<lambda>state. let out = st_check S state now cost
              in \<lparr>o_state = state, o_result = out, o_ttlMs = o_ttlMs out, o_persist = False\<rparr>)"

fun multi_read ::
  "string option \<Rightarrow> 'ctx \<Rightarrow> num \<Rightarrow> num \<Rightarrow> 's memory_store \<Rightarrow> ('ctx, 's) dimensions \<Rightarrow>
   's captured list result \<times> 's memory_store" where
  "multi_read prefix ctx g now st [] = (Inr [], st)"
| "multi_read prefix ctx g now st ((name, dm) # ds) =
     (let fk = keyOf prefix name (dm_key dm ctx)
      in case dimCost dm ctx g of
           Inl e \<Rightarrow> (Inl e, st)
         | Inr cost \<Rightarrow>
             (let (out, st1) = ms_applySync st fk (multi_peek (dm_strategy dm) now cost) now;
                  (rest, st2) = multi_read prefix ctx g now st1 ds
              in (rbind rest (\<lambda>cs. Inr (\<lparr>cp_fk = fk, cp_strategy = dm_strategy dm, cp_cost = cost, cp_out = out\<rparr> # cs)),
                  st2)))"

fun multi_commit :: "bool \<Rightarrow> num \<Rightarrow> 's memory_store \<Rightarrow> 's captured list \<Rightarrow> 's memory_store" where
  "multi_commit commitAll now st [] = st"
| "multi_commit commitAll now st (c # cs) =
     (let write = commitAll \<or> d_allowed (o_result (cp_out c));
          st1 = (if write \<and> o_persist (cp_out c)
                 then snd (ms_applySync st (cp_fk c) (\<lambda>state. st_check (cp_strategy c) state now (cp_cost c)) now)
                 else st)
      in multi_commit commitAll now st1 cs)"

definition multi_runSync ::
  "multi_mode \<Rightarrow> ('ctx, 's) dimensions \<Rightarrow> string option \<Rightarrow> 's memory_store \<Rightarrow> num \<Rightarrow> 'ctx \<Rightarrow> num \<Rightarrow>
   decision result \<times> 's memory_store" where
  "multi_runSync mode dims prefix st now ctx g =
     (case multi_read prefix ctx g now st dims of
        (Inl e, st1) \<Rightarrow> (Inl e, st1)
      | (Inr cs, st1) \<Rightarrow>
          (case combine mode (map (\<lambda>c. o_result (cp_out c)) cs) of
             Inl e \<Rightarrow> (Inl e, st1)
           | Inr decision \<Rightarrow>
               (let commitAll = (mode = All \<and> d_allowed decision);
                    commitAny = (mode = Any \<and> d_allowed decision)
                in (Inr decision, if commitAll \<or> commitAny then multi_commit commitAll now st1 cs else st1))))"

definition multi_checkSync ::
  "multi_mode \<Rightarrow> ('ctx, 's) dimensions \<Rightarrow> string option \<Rightarrow> 's memory_store \<Rightarrow> num \<Rightarrow> 'ctx \<Rightarrow> js_number \<Rightarrow>
   decision result \<times> 's memory_store" where
  "multi_checkSync mode dims prefix st now ctx cost =
     (case requireCost cost of
        Inl e \<Rightarrow> (Inl e, st)
      | Inr g \<Rightarrow> multi_runSync mode dims prefix st now ctx g)"

definition multi_reset :: "('ctx, 's) dimensions \<Rightarrow> string option \<Rightarrow> 's memory_store \<Rightarrow> 'ctx \<Rightarrow> 's memory_store" where
  "multi_reset dims prefix st ctx =
     fold (\<lambda>(name, dm) s. ms_resetSync s (keyOf prefix name (dm_key dm ctx))) dims st"

section \<open>Lemmas\<close>

text \<open>The loops pick an extreme element.\<close>

lemma pick_in: "pick better b rs \<in> insert b (set rs)"
  unfolding pick_def by (induction rs arbitrary: b) auto

lemma pick_min:
  fixes f :: "'a \<Rightarrow> num"
  shows "r \<in> insert b (set rs) \<Longrightarrow> f (pick (\<lambda>r b. f r < f b) b rs) \<le> f r"
proof (induction rs arbitrary: b r)
  case (Cons x xs)
  let ?b = "if f x < f b then x else b"
  have "f (pick (\<lambda>r b. f r < f b) ?b xs) \<le> f ?b" by (rule Cons.IH) simp
  moreover have "f ?b \<le> f b" "f ?b \<le> f x" by auto
  ultimately show ?case using Cons.IH[of r ?b] Cons.prems by (auto simp: pick_def)
qed (simp add: pick_def)

definition pick_from :: "('a \<Rightarrow> bool) \<Rightarrow> ('a \<Rightarrow> 'a \<Rightarrow> bool) \<Rightarrow> 'a option \<Rightarrow> 'a list \<Rightarrow> 'a option" where
  "pick_from P better b rs =
     foldl (\<lambda>b r. if P r \<and> (case b of None \<Rightarrow> True | Some x \<Rightarrow> better r x) then Some r else b) b rs"

lemma pick_from_Nil [simp]: "pick_from P better b [] = b"
  by (simp add: pick_from_def)

lemma pick_from_Cons [simp]:
  "pick_from P better b (r # rs) =
     pick_from P better (if P r \<and> (case b of None \<Rightarrow> True | Some x \<Rightarrow> better r x) then Some r else b) rs"
  by (simp add: pick_from_def)

lemma pick_where_from: "pick_where P better rs = pick_from P better None rs"
  by (simp add: pick_where_def pick_from_def)

lemma pick_from_Some_max:
  fixes f :: "'a \<Rightarrow> num"
  assumes "P b"
  shows "\<exists>x. pick_from P (\<lambda>r b. f r > f b) (Some b) rs = Some x \<and> P x \<and> x \<in> insert b (set rs) \<and>
    f b \<le> f x \<and> (\<forall>r\<in>set rs. P r \<longrightarrow> f r \<le> f x)"
  using assms
proof (induction rs arbitrary: b)
  case (Cons y ys)
  show ?case
  proof (cases "P y \<and> f b < f y")
    case True
    then show ?thesis using Cons.IH[of y] by fastforce
  next
    case False
    then show ?thesis using Cons.IH[of b] Cons.prems by fastforce
  qed
qed simp

lemma pick_where_max:
  fixes f :: "'a \<Rightarrow> num"
  assumes "\<exists>r\<in>set rs. P r"
  shows "\<exists>x. pick_where P (\<lambda>r b. f r > f b) rs = Some x \<and> P x \<and> x \<in> set rs \<and> (\<forall>r\<in>set rs. P r \<longrightarrow> f r \<le> f x)"
  using assms unfolding pick_where_from
proof (induction rs)
  case (Cons y ys)
  show ?case
  proof (cases "P y")
    case True
    then show ?thesis using pick_from_Some_max[of P y f ys] by fastforce
  next
    case False
    then show ?thesis using Cons by fastforce
  qed
qed simp

text \<open>What a combined decision is: the fields of its binding dimension.\<close>

definition binding :: "multi_mode \<Rightarrow> decision list \<Rightarrow> decision \<Rightarrow> bool" where
  "binding mode rs d \<longleftrightarrow>
     (\<exists>b\<in>set rs.
        d = b\<lparr>d_retryAfterMs := (if d_allowed b then 0 else d_retryAfterMs b)\<rparr> \<and>
        (case (mode, d_allowed b) of
           (All, True) \<Rightarrow> \<forall>r\<in>set rs. d_allowed r \<and> d_remaining b \<le> d_remaining r
         | (All, False) \<Rightarrow> \<forall>r\<in>set rs. \<not> d_allowed r \<longrightarrow> d_retryAfterMs r \<le> d_retryAfterMs b
         | (Any, True) \<Rightarrow> \<forall>r\<in>set rs. d_allowed r \<longrightarrow> d_remaining r \<le> d_remaining b
         | (Any, False) \<Rightarrow> \<forall>r\<in>set rs. \<not> d_allowed r \<and> d_retryAfterMs b \<le> d_retryAfterMs r))"

lemma combine_all_allowed:
  assumes "rs \<noteq> []" "list_all d_allowed rs"
  shows "\<exists>d. combine All rs = Inr d \<and> binding All rs d"
proof -
  let ?b = "pick (\<lambda>r b. d_remaining r < d_remaining b) (hd rs) rs"
  have i: "insert (hd rs) (set rs) = set rs" using assms(1) by (simp add: insert_absorb)
  have b: "?b \<in> set rs" using pick_in[of _ "hd rs" rs] i by metis
  have m: "\<forall>r\<in>set rs. d_remaining ?b \<le> d_remaining r" using pick_min[of _ "hd rs" rs d_remaining] by auto
  have a: "\<forall>r\<in>set rs. d_allowed r" using assms(2) by (simp add: list_all_iff)
  show ?thesis
    unfolding binding_def combine_def Let_def using assms a b m by (auto intro!: bexI[of _ ?b])
qed

lemma combine_all_denied:
  assumes "\<not> list_all d_allowed rs"
  shows "\<exists>d. combine All rs = Inr d \<and> binding All rs d"
proof -
  have "\<exists>r\<in>set rs. \<not> d_allowed r" using assms by (simp add: list_all_iff)
  then obtain b where "pick_where (\<lambda>r. \<not> d_allowed r) (\<lambda>r b. d_retryAfterMs r > d_retryAfterMs b) rs = Some b"
    "\<not> d_allowed b" "b \<in> set rs" "\<forall>r\<in>set rs. \<not> d_allowed r \<longrightarrow> d_retryAfterMs r \<le> d_retryAfterMs b"
    using pick_where_max[of rs "\<lambda>r. \<not> d_allowed r" d_retryAfterMs] by blast
  then show ?thesis using assms by (auto simp: combine_def binding_def intro!: bexI[of _ b])
qed

lemma combine_any_allowed:
  assumes "list_ex d_allowed rs"
  shows "\<exists>d. combine Any rs = Inr d \<and> binding Any rs d"
proof -
  have "\<exists>r\<in>set rs. d_allowed r" using assms by (simp add: list_ex_iff)
  then obtain b where "pick_where d_allowed (\<lambda>r b. d_remaining r > d_remaining b) rs = Some b"
    "d_allowed b" "b \<in> set rs" "\<forall>r\<in>set rs. d_allowed r \<longrightarrow> d_remaining r \<le> d_remaining b"
    using pick_where_max[of rs d_allowed d_remaining] by blast
  then show ?thesis using assms by (auto simp: combine_def binding_def intro!: bexI[of _ b])
qed

lemma combine_any_denied:
  assumes "rs \<noteq> []" "\<not> list_ex d_allowed rs"
  shows "\<exists>d. combine Any rs = Inr d \<and> binding Any rs d"
proof -
  let ?b = "pick (\<lambda>r b. d_retryAfterMs r < d_retryAfterMs b) (hd rs) rs"
  have i: "insert (hd rs) (set rs) = set rs" using assms(1) by (simp add: insert_absorb)
  have b: "?b \<in> set rs" using pick_in[of _ "hd rs" rs] i by metis
  have m: "\<forall>r\<in>set rs. d_retryAfterMs ?b \<le> d_retryAfterMs r" using pick_min[of _ "hd rs" rs d_retryAfterMs] by auto
  have a: "\<forall>r\<in>set rs. \<not> d_allowed r" using assms(2) by (simp add: list_ex_iff)
  have eq: "\<lparr>d_allowed = False, d_limit = d_limit x, d_remaining = d_remaining x, d_resetAt = d_resetAt x,
      d_retryAfterMs = d_retryAfterMs x\<rparr> = x" if "\<not> d_allowed x" for x :: decision
    using that by (cases x) simp
  have "combine Any rs = Inr ?b" using assms a b by (simp add: combine_def Let_def eq)
  moreover have "binding Any rs ?b" unfolding binding_def using a b m by (auto intro!: bexI[of _ ?b])
  ultimately show ?thesis by blast
qed

lemma combine_binding: "rs \<noteq> [] \<Longrightarrow> \<exists>d. combine mode rs = Inr d \<and> binding mode rs d"
  by (cases mode) (blast intro: combine_all_allowed combine_all_denied combine_any_allowed combine_any_denied)+

lemma binding_allowed:
  assumes "binding mode rs d"
  shows "d_allowed d = (case mode of All \<Rightarrow> \<forall>r\<in>set rs. d_allowed r | Any \<Rightarrow> \<exists>r\<in>set rs. d_allowed r)"
proof -
  obtain b where b: "b \<in> set rs" "d_allowed d = d_allowed b"
    "case (mode, d_allowed b) of
       (All, True) \<Rightarrow> \<forall>r\<in>set rs. d_allowed r \<and> d_remaining b \<le> d_remaining r
     | (All, False) \<Rightarrow> \<forall>r\<in>set rs. \<not> d_allowed r \<longrightarrow> d_retryAfterMs r \<le> d_retryAfterMs b
     | (Any, True) \<Rightarrow> \<forall>r\<in>set rs. d_allowed r \<longrightarrow> d_remaining r \<le> d_remaining b
     | (Any, False) \<Rightarrow> \<forall>r\<in>set rs. \<not> d_allowed r \<and> d_retryAfterMs b \<le> d_retryAfterMs r"
    using assms unfolding binding_def by fastforce
  show ?thesis
  proof (cases mode)
    case All
    then show ?thesis using b by (cases "d_allowed b") auto
  next
    case Any
    then show ?thesis using b by (cases "d_allowed b") auto
  qed
qed

text \<open>Without eviction, the read phase shows every dimension its live state and changes no key.\<close>

definition captures :: "'s memory_store \<Rightarrow> num \<Rightarrow> 's captured \<Rightarrow> bool" where
  "captures st now c \<longleftrightarrow> cp_out c = st_check (cp_strategy c) (ms_live st (cp_fk c) now) now (cp_cost c)"

text \<open>The key of a dimension, and the outcome its strategy has for the request.\<close>

definition dm_fk :: "string option \<Rightarrow> 'ctx \<Rightarrow> string \<times> ('ctx, 's) dimension \<Rightarrow> string" where
  "dm_fk prefix ctx d = keyOf prefix (fst d) (dm_key (snd d) ctx)"

definition dm_outcome ::
  "string option \<Rightarrow> 'ctx \<Rightarrow> num \<Rightarrow> num \<Rightarrow> 's memory_store \<Rightarrow> string \<times> ('ctx, 's) dimension \<Rightarrow> ('s, decision) apply_outcome" where
  "dm_outcome prefix ctx g now st d =
     st_check (dm_strategy (snd d)) (ms_live st (dm_fk prefix ctx d) now) now
       (case dimCost (snd d) ctx g of Inr c \<Rightarrow> c | Inl _ \<Rightarrow> 0)"

lemma multi_peek_app:
  assumes "ms_ok st" "ms_maxKeys st = None" "ms_applySync st fk (multi_peek S now cost) now = (out, st1)"
  shows "out = st_check S (ms_live st fk now) now cost" "ms_ok st1" "ms_maxKeys st1 = None"
    "now \<le> t \<Longrightarrow> ms_live st1 k t = ms_live st k t"
proof -
  have o: "ms_ok st \<and> ms_maxKeys st = None" using assms by simp
  let ?f = "multi_peek S now cost"
  show "out = st_check S (ms_live st fk now) now cost"
    using ms_store.app_result[OF o, of fk ?f now] assms(3) by (simp add: multi_peek_def Let_def)
  show "ms_ok st1" "ms_maxKeys st1 = None" using ms_store.app_ok[OF o, of fk ?f now] assms(3) by auto
  show "ms_live st1 k t = ms_live st k t" if "now \<le> t"
    using ms_store.app_key[OF o that, of fk ?f] ms_store.app_frame[OF o that, of k fk ?f] assms(3)
    by (cases "k = fk") (simp_all add: multi_peek_def Let_def)
qed

lemma multi_read_ok:
  "ms_ok st \<Longrightarrow> ms_maxKeys st = None \<Longrightarrow> multi_read prefix ctx g now st ds = (r, st') \<Longrightarrow>
   ms_ok st' \<and> ms_maxKeys st' = None \<and> (\<forall>k t. now \<le> t \<longrightarrow> ms_live st' k t = ms_live st k t) \<and>
   (\<forall>cs. r = Inr cs \<longrightarrow>
      map cp_fk cs = map (dm_fk prefix ctx) ds \<and>
      map cp_out cs = map (dm_outcome prefix ctx g now st) ds \<and>
      (\<forall>c\<in>set cs. captures st now c))"
proof (induction ds arbitrary: st r st')
  case Nil
  then show ?case by auto
next
  case (Cons d ds)
  obtain name dm where d: "d = (name, dm)" by (cases d)
  let ?fk = "keyOf prefix name (dm_key dm ctx)"
  show ?case
  proof (cases "dimCost dm ctx g")
    case (Inl e)
    then show ?thesis using Cons.prems by (auto simp: d Let_def)
  next
    case (Inr cost)
    obtain out st1 where a: "ms_applySync st ?fk (multi_peek (dm_strategy dm) now cost) now = (out, st1)"
      by (metis prod.exhaust)
    obtain rest st2 where b: "multi_read prefix ctx g now st1 ds = (rest, st2)" by (metis prod.exhaust)
    note P = multi_peek_app[OF Cons.prems(1,2) a]
    note IH = Cons.IH[OF P(2,3) b]
    have r: "r = rbind rest (\<lambda>cs. Inr (\<lparr>cp_fk = ?fk, cp_strategy = dm_strategy dm, cp_cost = cost, cp_out = out\<rparr> # cs))"
      "st' = st2" using Cons.prems(3) Inr a b by (simp_all add: d)
    have "captures st1 now c = captures st now c" for c using P(4) by (simp add: captures_def)
    moreover have "dm_outcome prefix ctx g now st1 = dm_outcome prefix ctx g now st"
      using P(4) by (simp add: dm_outcome_def fun_eq_iff)
    moreover have "dm_outcome prefix ctx g now st d = out"
      using Inr P(1) by (simp add: dm_outcome_def dm_fk_def d)
    moreover have "captures st now \<lparr>cp_fk = ?fk, cp_strategy = dm_strategy dm, cp_cost = cost, cp_out = out\<rparr>"
      using P(1) by (simp add: captures_def)
    ultimately show ?thesis using IH P(4) by (auto simp: d r rbind_eq_Inr dm_fk_def)
  qed
qed

lemma multi_commit_ok:
  "ms_ok st \<Longrightarrow> ms_maxKeys st = None \<Longrightarrow> distinct (map cp_fk cs) \<Longrightarrow> \<forall>c\<in>set cs. captures st now c \<Longrightarrow>
   ms_ok (multi_commit al now st cs) \<and> ms_maxKeys (multi_commit al now st cs) = None \<and>
   (\<forall>c\<in>set cs. \<forall>t\<ge>now. ms_live (multi_commit al now st cs) (cp_fk c) t =
      (if (al \<or> d_allowed (o_result (cp_out c))) \<and> o_persist (cp_out c) then written_live (cp_out c) now t
       else ms_live st (cp_fk c) t)) \<and>
   (\<forall>k. k \<notin> set (map cp_fk cs) \<longrightarrow> (\<forall>t\<ge>now. ms_live (multi_commit al now st cs) k t = ms_live st k t))"
proof (induction cs arbitrary: st)
  case Nil
  then show ?case by simp
next
  case (Cons c cs)
  let ?w = "(al \<or> d_allowed (o_result (cp_out c))) \<and> o_persist (cp_out c)"
  let ?f = "\<lambda>state. st_check (cp_strategy c) state now (cp_cost c)"
  define st1 where "st1 = (if ?w then snd (ms_applySync st (cp_fk c) ?f now) else st)"
  have o: "ms_ok st \<and> ms_maxKeys st = None" using Cons.prems by simp
  have f: "?f (ms_live st (cp_fk c) now) = cp_out c" using Cons.prems(4) by (simp add: captures_def)
  have o1: "ms_ok st1" "ms_maxKeys st1 = None" using ms_store.app_ok[OF o, of "cp_fk c" ?f now] o by (simp_all add: st1_def)
  have l1: "ms_live st1 (cp_fk c) t = (if ?w then written_live (cp_out c) now t else ms_live st (cp_fk c) t)"
    if "now \<le> t" for t
    using ms_store.app_key[OF o that, of "cp_fk c" ?f] f by (simp add: st1_def)
  have l2: "ms_live st1 k t = ms_live st k t" if "now \<le> t" "k \<noteq> cp_fk c" for k t
    using ms_store.app_frame[OF o that, of ?f] by (simp add: st1_def)
  have run: "multi_commit al now st (c # cs) = multi_commit al now st1 cs"
    unfolding multi_commit.simps Let_def st1_def by simp
  have D: "distinct (map cp_fk cs)" "cp_fk c \<notin> set (map cp_fk cs)" using Cons.prems(3) by simp_all
  have ne: "cp_fk x \<noteq> cp_fk c" if "x \<in> set cs" for x using D(2) that by (metis imageI list.set_map)
  have cap: "\<forall>x\<in>set cs. captures st1 now x"
    using Cons.prems(4) l2[OF order_refl] ne by (auto simp: captures_def)
  note IH = Cons.IH[OF o1 D(1) cap]
  show ?case unfolding run using IH l1 l2 ne D(2) by auto
qed

lemma multi_runSync_cases:
  assumes "multi_read prefix ctx g now st ds = (Inr cs, st1)" "multi_runSync mode ds prefix st now ctx g = (Inr d, st')"
  shows "combine mode (map (\<lambda>c. o_result (cp_out c)) cs) = Inr d"
    "st' = (if d_allowed d then multi_commit (mode = All) now st1 cs else st1)"
  using assms by (auto simp: multi_runSync_def Let_def split: sum.splits multi_mode.splits) (cases mode; simp)+

section \<open>Correctness\<close>

text \<open>
  The binding decision: over a non-empty list of results, \<open>combine\<close> always answers, and its answer
  is one of the results (its wait zeroed when it allows). \<open>all\<close> allows when every result does and then
  shows the least headroom, else the longest wait among the denials; \<open>any\<close> allows when some result does
  and then shows the most headroom among those, else the shortest wait.
\<close>

theorem multi_binding_decision:
  assumes "rs \<noteq> []"
  shows "\<exists>d b. combine mode rs = Inr d \<and> b \<in> set rs \<and>
    d = b\<lparr>d_retryAfterMs := (if d_allowed b then 0 else d_retryAfterMs b)\<rparr> \<and>
    (d_allowed d \<longleftrightarrow> (case mode of All \<Rightarrow> list_all d_allowed rs | Any \<Rightarrow> list_ex d_allowed rs)) \<and>
    (case (mode, d_allowed b) of
       (All, True) \<Rightarrow> list_all (\<lambda>r. d_remaining b \<le> d_remaining r) rs
     | (All, False) \<Rightarrow> list_all (\<lambda>r. d_allowed r \<or> d_retryAfterMs r \<le> d_retryAfterMs b) rs
     | (Any, True) \<Rightarrow> list_all (\<lambda>r. \<not> d_allowed r \<or> d_remaining r \<le> d_remaining b) rs
     | (Any, False) \<Rightarrow> list_all (\<lambda>r. d_retryAfterMs b \<le> d_retryAfterMs r) rs)"
proof -
  obtain d where d: "combine mode rs = Inr d" "binding mode rs d" using combine_binding[OF assms] by blast
  obtain b where b: "b \<in> set rs" "d = b\<lparr>d_retryAfterMs := (if d_allowed b then 0 else d_retryAfterMs b)\<rparr>"
    "case (mode, d_allowed b) of
       (All, True) \<Rightarrow> \<forall>r\<in>set rs. d_allowed r \<and> d_remaining b \<le> d_remaining r
     | (All, False) \<Rightarrow> \<forall>r\<in>set rs. \<not> d_allowed r \<longrightarrow> d_retryAfterMs r \<le> d_retryAfterMs b
     | (Any, True) \<Rightarrow> \<forall>r\<in>set rs. d_allowed r \<longrightarrow> d_remaining r \<le> d_remaining b
     | (Any, False) \<Rightarrow> \<forall>r\<in>set rs. \<not> d_allowed r \<and> d_retryAfterMs b \<le> d_retryAfterMs r"
    using d(2) unfolding binding_def by blast
  have "d_allowed d = (case mode of All \<Rightarrow> list_all d_allowed rs | Any \<Rightarrow> list_ex d_allowed rs)"
    using binding_allowed[OF d(2)] by (simp add: list_all_iff list_ex_iff split: multi_mode.splits)
  moreover have "case (mode, d_allowed b) of
       (All, True) \<Rightarrow> list_all (\<lambda>r. d_remaining b \<le> d_remaining r) rs
     | (All, False) \<Rightarrow> list_all (\<lambda>r. d_allowed r \<or> d_retryAfterMs r \<le> d_retryAfterMs b) rs
     | (Any, True) \<Rightarrow> list_all (\<lambda>r. \<not> d_allowed r \<or> d_remaining r \<le> d_remaining b) rs
     | (Any, False) \<Rightarrow> list_all (\<lambda>r. d_retryAfterMs b \<le> d_retryAfterMs r) rs"
    using b(3) by (cases mode; cases "d_allowed b") (auto simp: list_all_iff)
  ultimately show ?thesis using d(1) b(1,2) by blast
qed

theorem multi_binding_decision_witness:
  "\<exists>d. combine All [\<lparr>d_allowed = True, d_limit = 5, d_remaining = 2, d_resetAt = 9, d_retryAfterMs = 0\<rparr>] = Inr d \<and> d_allowed d"
  using multi_binding_decision[of "[\<lparr>d_allowed = True, d_limit = 5, d_remaining = 2, d_resetAt = 9, d_retryAfterMs = 0\<rparr>]" All]
  by auto

text \<open>
  C17. No partial consumption: on an unbounded in-process store, a check that fails or is denied leaves
  every key as it was; an allowed one over distinct keys leaves each dimension's key with exactly the
  state that its strategy persists (under \<open>any\<close> only the dimensions that allow), every other key as it
  was, and its decision combines the checks of all dimensions on the states before the call.
\<close>

theorem multi_no_partial_consume:
  assumes "ms_ok st" "ms_maxKeys st = None" "multi_runSync mode ds prefix st now ctx g = (r, st')"
  shows "(\<forall>d. r = Inr d \<longrightarrow> combine mode (map (\<lambda>x. o_result (dm_outcome prefix ctx g now st x)) ds) = Inr d) \<and>
    ((\<forall>d. r = Inr d \<longrightarrow> \<not> d_allowed d) \<longrightarrow> (\<forall>k. \<forall>t\<ge>now. ms_live st' k t = ms_live st k t)) \<and>
    (\<forall>d. r = Inr d \<and> d_allowed d \<and> distinct (map (dm_fk prefix ctx) ds) \<longrightarrow>
      (\<forall>x\<in>set ds. \<forall>t\<ge>now. ms_live st' (dm_fk prefix ctx x) t =
        (let out = dm_outcome prefix ctx g now st x
         in if (mode = All \<or> d_allowed (o_result out)) \<and> o_persist out then written_live out now t
            else ms_live st (dm_fk prefix ctx x) t)) \<and>
      (\<forall>k. k \<notin> dm_fk prefix ctx ` set ds \<longrightarrow> (\<forall>t\<ge>now. ms_live st' k t = ms_live st k t)))"
proof -
  obtain q st1 where q: "multi_read prefix ctx g now st ds = (q, st1)" by (metis prod.exhaust)
  note R = multi_read_ok[OF assms(1,2) q]
  show ?thesis
  proof (cases q)
    case (Inl e)
    then show ?thesis using assms(3) q R by (auto simp: multi_runSync_def)
  next
    case (Inr cs)
    have fk: "map cp_fk cs = map (dm_fk prefix ctx) ds" and out: "map cp_out cs = map (dm_outcome prefix ctx g now st) ds"
      and cap: "\<forall>c\<in>set cs. captures st now c" using R Inr by auto
    have res: "map (\<lambda>c. o_result (cp_out c)) cs = map (\<lambda>x. o_result (dm_outcome prefix ctx g now st x)) ds"
      using arg_cong[OF out, of "map o_result"] by (simp add: comp_def)
    have ok1: "ms_ok st1" "ms_maxKeys st1 = None" and l1: "\<And>k t. now \<le> t \<Longrightarrow> ms_live st1 k t = ms_live st k t"
      using R by auto
    show ?thesis
    proof (cases r)
      case (Inl e)
      then have "st' = st1"
        using assms(3) q Inr by (auto simp: multi_runSync_def Let_def split: sum.splits)
      then show ?thesis using Inl l1 by simp
    next
      case r: (Inr d)
      note C = multi_runSync_cases[OF q[unfolded Inr] assms(3)[unfolded r]]
      have "captures st1 now c = captures st now c" for c using l1 by (simp add: captures_def)
      then have cap1: "\<forall>c\<in>set cs. captures st1 now c" using cap by simp
      have A: "ms_live st' (dm_fk prefix ctx x) t =
          (let out = dm_outcome prefix ctx g now st x
           in if (mode = All \<or> d_allowed (o_result out)) \<and> o_persist out then written_live out now t
              else ms_live st (dm_fk prefix ctx x) t)"
        if al: "d_allowed d" "distinct (map (dm_fk prefix ctx) ds)" and x: "x \<in> set ds" and t: "now \<le> t" for x t
      proof -
        obtain i where i: "i < length ds" "ds ! i = x" using x by (auto simp: in_set_conv_nth)
        have len: "length cs = length ds" using arg_cong[OF fk, of length] by simp
        have "cp_fk (cs ! i) = dm_fk prefix ctx x" "cp_out (cs ! i) = dm_outcome prefix ctx g now st x"
          using arg_cong[OF fk, of "\<lambda>l. l ! i"] arg_cong[OF out, of "\<lambda>l. l ! i"] i len by simp_all
        moreover have "cs ! i \<in> set cs" using i(1) len by simp
        moreover have "distinct (map cp_fk cs)" using al(2) fk by simp
        ultimately show ?thesis
          using multi_commit_ok[OF ok1 _ cap1, of "mode = All"] C(2) al(1) l1[OF t] t unfolding Let_def by metis
      qed
      have B: "ms_live st' k t = ms_live st k t"
        if "d_allowed d" "distinct (map (dm_fk prefix ctx) ds)" "k \<notin> dm_fk prefix ctx ` set ds" "now \<le> t" for k t
      proof -
        have "distinct (map cp_fk cs)" "k \<notin> set (map cp_fk cs)" using that fk by simp_all
        then show ?thesis
          using multi_commit_ok[OF ok1 _ cap1, of "mode = All"] C(2) that l1 by simp
      qed
      show ?thesis using C A B res l1 r by auto
    qed
  qed
qed

theorem multi_no_partial_consume_witness:
  "ms_live (snd (multi_runSync All [(''ip'', \<lparr>dm_key = id, dm_strategy = gcra_mk (1, 10, 1), dm_cost = None\<rparr>)] None
      (ms_new 0 None None None) 0 ''a'' 1)) ''ip:a'' 5 = Some 10"
proof -
  let ?st = "ms_new 0 None None None :: num memory_store"
  let ?x = "(''ip'', \<lparr>dm_key = id, dm_strategy = gcra_mk (1, 10, 1), dm_cost = None\<rparr>)"
  obtain r st' where run: "multi_runSync All [?x] None ?st 0 ''a'' 1 = (r, st')" by (metis prod.exhaust)
  have ok: "ms_ok ?st" "ms_maxKeys ?st = None" by (rule ms_new_ok, simp) (simp add: ms_new_def)
  have cost: "dimCost (snd ?x) ''a'' 1 = Inr 1"
    by (simp add: dimCost_def js_of_real_def requireCost_def max_safe_integer_def)
  have out: "dm_outcome None ''a'' 1 0 ?st ?x = \<lparr>o_state = Some 10,
      o_result = \<lparr>d_allowed = True, d_limit = 1, d_remaining = 0, d_resetAt = 10, d_retryAfterMs = 0\<rparr>,
      o_ttlMs = 10, o_persist = True\<rparr>"
    unfolding dm_outcome_def cost
    by (simp add: gcra_mk_def gcra_strategy_def gcra_check_def tat_eff_def ms_live_def ms_new_def Let_def)
  have "\<exists>cs st1. multi_read None ''a'' 1 0 ?st [?x] = (Inr cs, st1) \<and> cs \<noteq> []"
    using cost by (simp add: Let_def split: prod.splits)
  then obtain cs st1 where q: "multi_read None ''a'' 1 0 ?st [?x] = (Inr cs, st1)" "cs \<noteq> []" by blast
  then obtain d where "combine All (map (\<lambda>c. o_result (cp_out c)) cs) = Inr d"
    using combine_binding[of "map (\<lambda>c. o_result (cp_out c)) cs" All] by auto
  then have r: "r = Inr d" using run q(1) by (simp add: multi_runSync_def Let_def)
  note T = multi_no_partial_consume[OF ok run]
  have "combine All [o_result (dm_outcome None ''a'' 1 0 ?st ?x)] = Inr d" using T r by simp
  then have al: "d_allowed d" unfolding out by (auto simp: combine_def pick_def Let_def)
  have k: "dm_fk None ''a'' ?x = ''ip:a''" by (simp add: dm_fk_def keyOf_def)
  have "ms_live st' (dm_fk None ''a'' ?x) 5 = written_live (dm_outcome None ''a'' 1 0 ?st ?x) 0 5"
    using T r al out by (simp add: Let_def)
  then show ?thesis unfolding run snd_conv k out by (simp add: written_live_def)
qed

end
