(* ===== verification/MultiLua.thy ===== *)
theory MultiLua
  imports Multi
begin

text \<open>
  \<open>MULTI_LUA\<close> of \<open>src/multi/index.ts\<close>, the script that evaluates every dimension in one round trip, the
  encoding of its arguments, and its agreement with the synchronous path: same decision, same writes.
\<close>

section \<open>What the script reads and writes\<close>





text \<open>The five arguments of a dimension, and its entries in the script's tables.\<close>

record lua_args =
  la_type :: num
  la_cost :: num
  la_one :: num
  la_two :: num
  la_three :: num



section \<open>One dimension\<close>






section \<open>The combination\<close>







section \<open>The caller's side (encodeDim, runLua)\<close>

definition multi_TYPE :: "string \<Rightarrow> num option" where
  "multi_TYPE name =
     (if name = ''gcra'' then Some 1 else if name = ''tokenBucket'' then Some 2
      else if name = ''fixedWindow'' then Some 3 else None)"

text \<open>\<open>buildArgv(0, 1)\<close> of the strategy, where it ships a script; the parameters are the middle.\<close>

definition encodeDim :: "string \<Rightarrow> num list option \<Rightarrow> (num \<times> num \<times> num \<times> num) result" where
  "encodeDim name argv =
     (case (multi_TYPE name, argv) of
        (Some ty, Some av) \<Rightarrow>
          (let params = butlast (tl av); nth0 = (\<lambda>i. if i < length params then params ! i else 0)
           in Inr (ty, nth0 0, nth0 1, nth0 2))
      | _ \<Rightarrow> Inl (ThrottleKitError ''multi''))"

definition js_slice_to :: "'a list \<Rightarrow> int \<Rightarrow> 'a list" where
  "js_slice_to xs e = (if 0 \<le> e then take (nat e) xs else take (nat (int (length xs) + e)) xs)"

definition multi_buildKeys :: "string list \<Rightarrow> string \<Rightarrow> string list" where
  "multi_buildKeys keys baseKey =
     (let head = (case keys of k # _ \<Rightarrow> k | [] \<Rightarrow> ''tk:multi'')
      in if baseKey = head then keys
         else (let sp = js_slice_to baseKey (int (length baseKey) - int (length head)) in map (\<lambda>k. sp @ k) keys))"

text \<open>The store's prefix reaches every dimension's key, so the script writes what \<open>reset\<close> deletes.\<close>

lemma multi_buildKeys_prefix:
  assumes "keys \<noteq> []"
  shows "multi_buildKeys keys (sp @ hd keys) = map ((@) sp) keys"
proof -
  have "map ((@) []) ks = ks" for ks :: "string list" by (rule map_idI) simp
  then show ?thesis using assms by (cases keys) (auto simp: multi_buildKeys_def js_slice_to_def Let_def)
qed

section \<open>Agreement with the synchronous path\<close>

text \<open>The strategies the script supports, with their arguments, and the states they store.\<close>

datatype dim_spec = MG num num num | MB num num | MW num num


fun spec_name :: "dim_spec \<Rightarrow> string" where
  "spec_name (MG limit period burst) = ''gcra''"
| "spec_name (MB capacity refillPerSec) = ''tokenBucket''"
| "spec_name (MW limit windowMs) = ''fixedWindow''"

fun spec_argv :: "dim_spec \<Rightarrow> num \<Rightarrow> num \<Rightarrow> num list" where
  "spec_argv (MG limit period burst) nowArg cost = [nowArg, period, limit, burst, cost]"
| "spec_argv (MB capacity refillPerSec) nowArg cost = [nowArg, capacity, refillPerSec, cost]"
| "spec_argv (MW limit windowMs) nowArg cost = [nowArg, limit, windowMs, cost]"






fun spec_args :: "dim_spec \<Rightarrow> num \<Rightarrow> lua_args" where
  "spec_args s cost =
     (case encodeDim (spec_name s) (Some (spec_argv s 0 1)) of
        Inr (ty, a, b, c) \<Rightarrow> \<lparr>la_type = ty, la_cost = cost, la_one = a, la_two = b, la_three = c\<rparr>
      | Inl _ \<Rightarrow> \<lparr>la_type = 0, la_cost = cost, la_one = 0, la_two = 0, la_three = 0\<rparr>)"

lemma spec_args_simps [simp]:
  "spec_args (MG l p b) c = \<lparr>la_type = 1, la_cost = c, la_one = p, la_two = l, la_three = b\<rparr>"
  "spec_args (MB cap r) c = \<lparr>la_type = 2, la_cost = c, la_one = cap, la_two = r, la_three = 0\<rparr>"
  "spec_args (MW l w) c = \<lparr>la_type = 3, la_cost = c, la_one = l, la_two = w, la_three = 0\<rparr>"
  by (simp_all add: encodeDim_def multi_TYPE_def Let_def)

























declare spec_args.simps [simp del]





section \<open>Correctness\<close>



end
