(* ===== verification/Adaptive.thy ===== *)
theory Adaptive
  imports Core
begin

text \<open>
  \<open>src/concurrency/adaptive.ts\<close>: the adaptive concurrency guard, a ceiling on requests in flight that
  follows their latency. The lemmas: the monotonic deque in its ring buffer computes exactly the minimum
  of the last samples; the estimate stays within its bounds under both laws; the guard counts exactly
  the leases outstanding, grants only below its ceiling and can always grant when idle.
\<close>

section \<open>State\<close>

datatype ag_algorithm = Gradient2 | Aimd

record recal_config =
  rc_intervalMs :: num
  rc_probeLimit :: num
  rc_probeSamples :: num

record guard_cfg =
  gc_minLimit :: num
  gc_maxLimit :: num
  gc_initialLimit :: num
  gc_algorithm :: ag_algorithm
  gc_window :: nat
  gc_smoothing :: num
  gc_tolerance :: num
  gc_backoffRatio :: num
  gc_recal :: "recal_config option"

text \<open>\<open>probeMin\<close> is \<open>Infinity\<close> (here \<open>None\<close>) until the first clean sample of a probe.\<close>

record guard =
  ag_estimate :: num
  ag_inflight :: int
  ag_rttNoload :: num
  ag_lastRtt :: num
  ag_nextSeq :: nat
  ag_dqSeq :: "nat list"
  ag_dqVal :: "num list"
  ag_head :: nat
  ag_tail :: nat
  ag_probing :: bool
  ag_probeMin :: "num option"
  ag_probeCount :: nat
  ag_lastRecalEnd :: num

definition ag_cap :: "guard_cfg \<Rightarrow> nat" where
  "ag_cap cfg = gc_window cfg + 1"

definition ag_probeLimit :: "guard_cfg \<Rightarrow> num" where
  "ag_probeLimit cfg = (case gc_recal cfg of Some r \<Rightarrow> rc_probeLimit r | None \<Rightarrow> gc_minLimit cfg)"

definition ag_probeSamples :: "guard_cfg \<Rightarrow> num" where
  "ag_probeSamples cfg = (case gc_recal cfg of Some r \<Rightarrow> rc_probeSamples r | None \<Rightarrow> 0)"

definition ag_new :: "guard_cfg \<Rightarrow> num \<Rightarrow> guard" where
  "ag_new cfg now =
     \<lparr>ag_estimate = gc_initialLimit cfg, ag_inflight = 0, ag_rttNoload = 0, ag_lastRtt = 0, ag_nextSeq = 0,
      ag_dqSeq = replicate (ag_cap cfg) 0, ag_dqVal = replicate (ag_cap cfg) 0, ag_head = 0, ag_tail = 0,
      ag_probing = False, ag_probeMin = None, ag_probeCount = 0,
      ag_lastRecalEnd = (if gc_recal cfg \<noteq> None then now else 0)\<rparr>"

section \<open>Operations\<close>

definition ag_limit :: "guard \<Rightarrow> num" where
  "ag_limit g = js_floor (ag_estimate g)"

text \<open>The ceiling that \<open>acquire\<close> holds the count of requests in flight to.\<close>

definition ag_ceiling :: "guard_cfg \<Rightarrow> guard \<Rightarrow> num" where
  "ag_ceiling cfg g =
     (let ceiling = js_floor (ag_estimate g)
      in if ag_probing g \<and> ag_probeLimit cfg < ceiling then ag_probeLimit cfg else ceiling)"

text \<open>A granted lease carries its start time and the count at its grant; \<open>None\<close> is the rejected lease.\<close>

definition ag_acquire :: "guard_cfg \<Rightarrow> guard \<Rightarrow> num \<Rightarrow> (num \<times> int) option \<times> guard" where
  "ag_acquire cfg g now =
     (if of_int (ag_inflight g) \<ge> ag_ceiling cfg g then (None, g)
      else (let g1 = g\<lparr>ag_inflight := ag_inflight g + 1\<rparr> in (Some (now, ag_inflight g1), g1)))"

text \<open>The loop that drops entries no smaller than the incoming sample, by its upper end.\<close>

primrec ag_trim :: "num list \<Rightarrow> nat \<Rightarrow> nat \<Rightarrow> num \<Rightarrow> nat \<Rightarrow> nat" where
  "ag_trim vals cap head rtt 0 = 0"
| "ag_trim vals cap head rtt (Suc t) =
     (if Suc t > head \<and> vals ! (t mod cap) \<ge> rtt then ag_trim vals cap head rtt t else Suc t)"

definition ag_recordRtt :: "guard_cfg \<Rightarrow> guard \<Rightarrow> num \<Rightarrow> guard" where
  "ag_recordRtt cfg g rtt =
     (let cap = ag_cap cfg;
          seq = ag_nextSeq g;
          head = (if ag_tail g > ag_head g \<and>
                     int (ag_dqSeq g ! (ag_head g mod cap)) \<le> int seq - int (gc_window cfg)
                  then ag_head g + 1 else ag_head g);
          tail = ag_trim (ag_dqVal g) cap head rtt (ag_tail g);
          vals = (ag_dqVal g)[tail mod cap := rtt];
          seqs = (ag_dqSeq g)[tail mod cap := seq]
      in g\<lparr>ag_nextSeq := seq + 1, ag_dqVal := vals, ag_dqSeq := seqs, ag_head := head, ag_tail := tail + 1,
           ag_rttNoload := vals ! (head mod cap)\<rparr>)"

definition ag_updateGradient2 :: "guard_cfg \<Rightarrow> guard \<Rightarrow> num \<Rightarrow> bool \<Rightarrow> int \<Rightarrow> guard" where
  "ag_updateGradient2 cfg g rtt dropped inflightAtAcquire =
     (let gradient = (if dropped then 1 / 2
                      else if rtt \<le> 0 then 1
                      else clamp (gc_tolerance cfg * ag_rttNoload g / rtt) (1 / 2) 1)
      in if \<not> dropped \<and> of_int inflightAtAcquire * 2 < ag_estimate g then g
         else (let queueSize = sqrt (ag_estimate g);
                   newLimit = ag_estimate g * gradient + queueSize;
                   smoothed = ag_estimate g * (1 - gc_smoothing cfg) + newLimit * gc_smoothing cfg
               in g\<lparr>ag_estimate := clamp smoothed (gc_minLimit cfg) (gc_maxLimit cfg)\<rparr>))"

definition ag_updateAimd :: "guard_cfg \<Rightarrow> guard \<Rightarrow> num \<Rightarrow> bool \<Rightarrow> int \<Rightarrow> guard" where
  "ag_updateAimd cfg g rtt dropped inflightAtAcquire =
     (if dropped \<or> rtt > ag_rttNoload g * gc_tolerance cfg then
        g\<lparr>ag_estimate := max (gc_minLimit cfg) (js_floor (ag_estimate g * gc_backoffRatio cfg))\<rparr>
      else if of_int inflightAtAcquire * 2 \<ge> ag_estimate g then
        g\<lparr>ag_estimate := min (gc_maxLimit cfg) (ag_estimate g + 1)\<rparr>
      else g)"

definition ag_startProbe :: "guard \<Rightarrow> guard" where
  "ag_startProbe g = g\<lparr>ag_probing := True, ag_probeMin := None, ag_probeCount := 0\<rparr>"

definition ag_finishProbe :: "guard \<Rightarrow> num \<Rightarrow> guard" where
  "ag_finishProbe g now =
     (let fresh = (case ag_probeMin g of Some m \<Rightarrow> m | None \<Rightarrow> ag_rttNoload g);
          seq = ag_nextSeq g
      in g\<lparr>ag_nextSeq := seq + 1, ag_dqVal := (ag_dqVal g)[0 := fresh], ag_dqSeq := (ag_dqSeq g)[0 := seq],
           ag_head := 0, ag_tail := 1, ag_rttNoload := fresh, ag_probing := False, ag_lastRecalEnd := now\<rparr>)"

definition ag_settle :: "guard_cfg \<Rightarrow> guard \<Rightarrow> num \<Rightarrow> num \<Rightarrow> int \<Rightarrow> bool \<Rightarrow> guard" where
  "ag_settle cfg g now startTime inflightAtAcquire dropped =
     (let rtt = max 0 (now - startTime);
          g1 = g\<lparr>ag_inflight := ag_inflight g - 1, ag_lastRtt := rtt\<rparr>
      in if ag_probing g1 then
           (if \<not> dropped \<and> of_int inflightAtAcquire \<le> ag_probeLimit cfg then
              (let m = (case ag_probeMin g1 of Some m \<Rightarrow> if rtt < m then rtt else m | None \<Rightarrow> rtt);
                   g2 = g1\<lparr>ag_probeMin := Some m, ag_probeCount := ag_probeCount g1 + 1\<rparr>
               in if real (ag_probeCount g2) \<ge> ag_probeSamples cfg then ag_finishProbe g2 now else g2)
            else g1)
         else
           (let g2 = ag_recordRtt cfg g1 rtt;
                g3 = (case gc_algorithm cfg of
                        Gradient2 \<Rightarrow> ag_updateGradient2 cfg g2 rtt dropped inflightAtAcquire
                      | Aimd \<Rightarrow> ag_updateAimd cfg g2 rtt dropped inflightAtAcquire)
            in case gc_recal cfg of
                 Some r \<Rightarrow> if now - ag_lastRecalEnd g3 \<ge> rc_intervalMs r then ag_startProbe g3 else g3
               | None \<Rightarrow> g3))"

text \<open>A lease, and its release: the second and later calls do nothing.\<close>

record lease =
  le_start :: num
  le_inflight :: int
  le_released :: bool

definition lease_release :: "guard_cfg \<Rightarrow> guard \<Rightarrow> num \<Rightarrow> lease \<Rightarrow> bool \<Rightarrow> lease \<times> guard" where
  "lease_release cfg g now l dropped =
     (if le_released l then (l, g)
      else (l\<lparr>le_released := True\<rparr>, ag_settle cfg g now (le_start l) (le_inflight l) dropped))"

section \<open>The factory\<close>

record adaptive_options =
  ao_minLimit :: "js_number option"
  ao_maxLimit :: "js_number option"
  ao_initialLimit :: "js_number option"
  ao_algorithm :: "ag_algorithm option"
  ao_rttWindow :: "js_number option"
  ao_smoothing :: "js_number option"
  ao_tolerance :: "js_number option"
  ao_backoffRatio :: "js_number option"
  ao_recalibration :: "(js_number option \<times> js_number option \<times> js_number option) option"

definition js_default :: "'a option \<Rightarrow> 'a \<Rightarrow> 'a" where
  "js_default v d = (case v of Some x \<Rightarrow> x | None \<Rightarrow> d)"

text \<open>\<open>requireAtLeast\<close> with a bound that has been validated before; \<open>Math.floor\<close> of any number.\<close>

fun js_floor_number :: "js_number \<Rightarrow> js_number" where
  "js_floor_number (Num x) = Num (js_floor x)"
| "js_floor_number v = v"

definition recal_of ::
  "num \<Rightarrow> num \<Rightarrow> (js_number option \<times> js_number option \<times> js_number option) option \<Rightarrow> recal_config option result" where
  "recal_of minLimit maxLimit opts =
     (case opts of
        None \<Rightarrow> Inr None
      | Some (interval, probeLim, samples) \<Rightarrow>
          rbind (requirePositive ''recalibration.intervalMs'' (js_default interval (Num 60000))) (\<lambda>i.
          rbind (requireAtLeast ''recalibration.probeLimit'' (js_default probeLim (Num minLimit)) 1) (\<lambda>p.
          if p > maxLimit then Inl (RangeError ''recalibration.probeLimit'')
          else rbind (requireAtLeast ''recalibration.probeSamples'' (js_floor_number (js_default samples (Num 5))) 1) (\<lambda>n.
            Inr (Some \<lparr>rc_intervalMs = i, rc_probeLimit = p, rc_probeSamples = n\<rparr>)))))"

definition adaptiveConcurrency :: "adaptive_options \<Rightarrow> guard_cfg result" where
  "adaptiveConcurrency o1 =
     (let lo = js_default (ao_minLimit o1) (Num 4)
      in rbind (requireAtLeast ''minLimit'' lo 1) (\<lambda>minLimit.
         rbind (requireAtLeast ''maxLimit'' (js_default (ao_maxLimit o1) (Num 512)) minLimit) (\<lambda>maxLimit.
         rbind (requireAtLeast ''initialLimit'' (js_default (ao_initialLimit o1) lo) minLimit) (\<lambda>initialLimit.
         if initialLimit > maxLimit then Inl (RangeError ''initialLimit'')
         else
         rbind (requirePositive ''rttWindow'' (js_default (ao_rttWindow o1) (Num 100))) (\<lambda>rttWindow.
         rbind (requirePositive ''smoothing'' (js_default (ao_smoothing o1) (Num (1 / 5)))) (\<lambda>smoothing.
         if smoothing > 1 then Inl (RangeError ''smoothing'')
         else
         rbind (requireAtLeast ''tolerance'' (js_default (ao_tolerance o1) (Num 2)) 1) (\<lambda>tolerance.
         rbind (requireFinite ''backoffRatio'' (js_default (ao_backoffRatio o1) (Num (9 / 10)))) (\<lambda>backoffRatio.
         if backoffRatio < 1 / 2 \<or> backoffRatio \<ge> 1 then Inl (RangeError ''backoffRatio'')
         else
         rbind (recal_of minLimit maxLimit (ao_recalibration o1)) (\<lambda>recal.
         Inr \<lparr>gc_minLimit = minLimit, gc_maxLimit = maxLimit, gc_initialLimit = initialLimit,
              gc_algorithm = js_default (ao_algorithm o1) Gradient2, gc_window = nat \<lfloor>rttWindow\<rfloor>,
              gc_smoothing = smoothing, gc_tolerance = tolerance, gc_backoffRatio = backoffRatio,
              gc_recal = recal\<rparr>)))))))))"

section \<open>The deque\<close>

text \<open>The retained entries, oldest first, and the ones a window of samples should retain: those with no
  later entry as small.\<close>

definition dq_entries :: "guard_cfg \<Rightarrow> guard \<Rightarrow> (nat \<times> num) list" where
  "dq_entries cfg g =
     map (\<lambda>i. (ag_dqSeq g ! (i mod ag_cap cfg), ag_dqVal g ! (i mod ag_cap cfg))) [ag_head g..<ag_tail g]"

fun suffix_minima :: "(nat \<times> num) list \<Rightarrow> (nat \<times> num) list" where
  "suffix_minima [] = []"
| "suffix_minima (x # xs) = (if \<exists>y\<in>set xs. snd y \<le> snd x then suffix_minima xs else x # suffix_minima xs)"

lemma suffix_minima_subset: "set (suffix_minima xs) \<subseteq> set xs"
  by (induction xs) auto

lemma suffix_minima_snoc:
  "suffix_minima (xs @ [y]) = filter (\<lambda>x. snd x < snd y) (suffix_minima xs) @ [y]"
proof (induction xs)
  case (Cons x xs)
  show ?case
  proof (cases "\<exists>w\<in>set xs. snd w \<le> snd x")
    case True
    then have "\<exists>w\<in>set (xs @ [y]). snd w \<le> snd x" by simp
    then show ?thesis using Cons True by simp
  next
    case False
    then show ?thesis using Cons by (cases "snd y \<le> snd x") simp_all
  qed
qed simp

lemma suffix_minima_sorted: "sorted_wrt (\<lambda>a b. snd a < snd b) (suffix_minima xs)"
  using suffix_minima_subset by (induction xs) (auto simp: not_le dest: subsetD)

lemma suffix_minima_ne: "xs \<noteq> [] \<Longrightarrow> suffix_minima xs \<noteq> []"
proof (induction xs)
  case (Cons x xs)
  then show ?case by (cases "xs = []") auto
qed simp

lemma suffix_minima_hd:
  "xs \<noteq> [] \<Longrightarrow> snd (hd (suffix_minima xs)) = Min (snd ` set xs)"
proof (induction xs)
  case (Cons x xs)
  show ?case
  proof (cases "xs = []")
    case False
    then have fin: "finite (snd ` set xs)" "snd ` set xs \<noteq> {}" by simp_all
    have m: "Min (snd ` set (x # xs)) = min (snd x) (Min (snd ` set xs))" using fin by simp
    show ?thesis
    proof (cases "\<exists>y\<in>set xs. snd y \<le> snd x")
      case True
      then have "Min (snd ` set xs) \<le> snd x" using fin by (meson Min_le image_eqI order_trans)
      then show ?thesis using True Cons.IH[OF False] m by simp
    next
      case noy: False
      then have "snd x \<le> Min (snd ` set xs)" using fin by (auto simp: not_le less_imp_le)
      then show ?thesis using noy m by simp
    qed
  qed simp
qed simp

text \<open>Trimming from the back is filtering, on a strictly increasing deque.\<close>

lemma dropWhile_rev_filter:
  "sorted_wrt (\<lambda>a b. snd a < snd b) xs \<Longrightarrow>
   rev (dropWhile (\<lambda>x. snd x \<ge> r) (rev xs)) = filter (\<lambda>x. snd x < (r::num)) xs"
proof (induction xs rule: rev_induct)
  case (snoc x xs)
  show ?case
  proof (cases "snd x \<ge> r")
    case True
    then show ?thesis using snoc by (simp add: sorted_wrt_append)
  next
    case False
    then have "\<forall>y\<in>set xs. snd y < r" using snoc.prems by (fastforce simp: sorted_wrt_append)
    then show ?thesis using False by simp
  qed
qed simp

text \<open>Samples with their sequence numbers, the newest being \<open>n - 1\<close>.\<close>

definition tagged :: "nat \<Rightarrow> num list \<Rightarrow> (nat \<times> num) list" where
  "tagged n hs = zip [n - length hs..<n] hs"

lemma length_tagged [simp]: "length hs \<le> n \<Longrightarrow> length (tagged n hs) = length hs"
  by (simp add: tagged_def)

lemma tagged_snoc: "length hs \<le> n \<Longrightarrow> tagged (Suc n) (hs @ [r]) = tagged n hs @ [(n, r)]"
  by (simp add: tagged_def)

lemma map_snd_tagged: "length hs \<le> n \<Longrightarrow> map snd (tagged n hs) = hs"
  by (simp add: tagged_def)

lemma nth_tagged: "length hs \<le> n \<Longrightarrow> i < length hs \<Longrightarrow> tagged n hs ! i = (n - length hs + i, hs ! i)"
  by (simp add: tagged_def)

lemma length_suffix_minima: "length (suffix_minima xs) \<le> length xs"
  by (induction xs) auto

text \<open>Expiring the front of the deque slides the window by one.\<close>

lemma expire_front:
  assumes n: "length hs \<le> n" and W: "W = max 1 win"
  defines "X \<equiv> tagged n hs"
  defines "D \<equiv> suffix_minima (drop (length hs - W) X)"
  shows "(if D \<noteq> [] \<and> int (fst (hd D)) \<le> int n - int win then tl D else D) =
    suffix_minima (drop (length hs + 1 - W) X)"
proof (cases "length hs < W")
  case True
  have "int n - int win < int (fst x)" if "x \<in> set D" for x
  proof -
    have "x \<in> set X" using that suffix_minima_subset unfolding D_def by (meson in_set_dropD subsetD)
    then obtain i where i: "i < length hs" "x = X ! i" using n by (auto simp: X_def in_set_conv_nth)
    then have "fst x = n - length hs + i" using nth_tagged[OF n i(1)] by (simp add: X_def)
    then show ?thesis using True i(1) W n by auto
  qed
  then have "\<not> (D \<noteq> [] \<and> int (fst (hd D)) \<le> int n - int win)"
    by (metis hd_in_set linorder_not_less)
  then show ?thesis using True unfolding D_def by auto
next
  case False
  define k where "k = length hs - W"
  have k: "k < length X" "length hs + 1 - W = Suc k" using False n W by (auto simp: k_def X_def)
  let ?ws = "drop (Suc k) X"
  have w: "drop k X = X ! k # ?ws" by (rule Cons_nth_drop_Suc[symmetric, OF k(1)])
  have fk: "fst (X ! k) = n - W" using nth_tagged[OF n, of k] k n False by (simp add: X_def k_def)
  have later: "int n - int win < int (fst x)" if "x \<in> set ?ws" for x
  proof -
    obtain j where j: "j < length hs - Suc k" "x = X ! (Suc k + j)"
      using \<open>x \<in> set ?ws\<close> k(1) n by (auto simp: in_set_conv_nth X_def)
    define i where "i = Suc k + j"
    have i: "Suc k \<le> i" "i < length hs" "x = X ! i" using j by (auto simp: i_def)
    then have "fst x = n - length hs + i" using nth_tagged[OF n i(2)] by (simp add: X_def)
    then show ?thesis using i n W False unfolding k_def by auto
  qed
  show ?thesis
  proof (cases "\<exists>y\<in>set ?ws. snd y \<le> snd (X ! k)")
    case True
    then have D: "D = suffix_minima ?ws" by (simp add: D_def w k_def[symmetric])
    have "\<not> (D \<noteq> [] \<and> int (fst (hd D)) \<le> int n - int win)"
      using later suffix_minima_subset[of ?ws] hd_in_set[of D] unfolding D by (meson linorder_not_less subsetD)
    then show ?thesis unfolding k(2) using D by auto
  next
    case noy: False
    then have D: "D = X ! k # suffix_minima ?ws" by (simp add: D_def w k_def[symmetric])
    have "int (fst (X ! k)) \<le> int n - int win" using fk W n False by auto
    then show ?thesis unfolding k(2) D by simp
  qed
qed

text \<open>The ring buffer: indices less than the capacity apart are different slots.\<close>

lemma ring_slots_differ:
  assumes "i < t" "t - i < (c::nat)"
  shows "i mod c \<noteq> t mod c"
proof
  assume "i mod c = t mod c"
  then have "c dvd t - i" using assms(1) mod_eq_dvd_iff_nat[of i t c] by simp
  then show False using assms by (meson dvd_imp_le not_less zero_less_diff)
qed

lemma ag_trim_spec:
  "head \<le> t \<Longrightarrow> head \<le> ag_trim vals cap head rtt t \<and> ag_trim vals cap head rtt t \<le> t \<and>
   [head..<ag_trim vals cap head rtt t] = rev (dropWhile (\<lambda>i. vals ! (i mod cap) \<ge> rtt) (rev [head..<t]))"
proof (induction t)
  case (Suc t)
  show ?case
  proof (cases "head = Suc t")
    case False
    then have "head \<le> t" using Suc.prems by simp
    then show ?thesis using Suc.IH by auto
  qed simp
qed simp

definition dq_inv :: "guard_cfg \<Rightarrow> num list \<Rightarrow> guard \<Rightarrow> bool" where
  "dq_inv cfg hs g \<longleftrightarrow>
     length (ag_dqSeq g) = ag_cap cfg \<and> length (ag_dqVal g) = ag_cap cfg \<and> ag_head g \<le> ag_tail g \<and>
     length hs \<le> ag_nextSeq g \<and>
     dq_entries cfg g = suffix_minima (drop (length hs - max 1 (gc_window cfg)) (tagged (ag_nextSeq g) hs))"

text \<open>The last samples that the window covers.\<close>

definition recent :: "guard_cfg \<Rightarrow> num list \<Rightarrow> num list" where
  "recent cfg hs = drop (length hs - max 1 (gc_window cfg)) hs"

lemma dq_new: "dq_inv cfg [] (ag_new cfg now)"
  by (simp add: dq_inv_def ag_new_def dq_entries_def tagged_def)

lemma dq_record:
  assumes inv: "dq_inv cfg hs g"
  shows "dq_inv cfg (hs @ [rtt]) (ag_recordRtt cfg g rtt)"
    and "ag_rttNoload (ag_recordRtt cfg g rtt) = Min (set (recent cfg (hs @ [rtt])))"
proof -
  let ?c = "ag_cap cfg" and ?n = "ag_nextSeq g" and ?W = "max 1 (gc_window cfg)"
  let ?e = "\<lambda>i. (ag_dqSeq g ! (i mod ?c), ag_dqVal g ! (i mod ?c))"
  define D where "D = dq_entries cfg g"
  define h where "h = (if ag_tail g > ag_head g \<and> int (ag_dqSeq g ! (ag_head g mod ?c)) \<le> int ?n - int (gc_window cfg)
                  then ag_head g + 1 else ag_head g)"
  define t where "t = ag_trim (ag_dqVal g) ?c h rtt (ag_tail g)"
  let ?g = "ag_recordRtt cfg g rtt"
  have i: "length (ag_dqSeq g) = ?c" "length (ag_dqVal g) = ?c" "ag_head g \<le> ag_tail g" "length hs \<le> ?n"
    and Deq: "D = suffix_minima (drop (length hs - ?W) (tagged ?n hs))" using inv by (auto simp: dq_inv_def D_def)
  have c0: "0 < ?c" "?W \<le> ?c" by (simp_all add: ag_cap_def)
  have g: "?g = g\<lparr>ag_nextSeq := ?n + 1, ag_dqVal := (ag_dqVal g)[t mod ?c := rtt],
      ag_dqSeq := (ag_dqSeq g)[t mod ?c := ?n], ag_head := h, ag_tail := t + 1,
      ag_rttNoload := (ag_dqVal g)[t mod ?c := rtt] ! (h mod ?c)\<rparr>"
    unfolding ag_recordRtt_def Let_def h_def t_def by simp
  have Dhd: "D \<noteq> [] \<longleftrightarrow> ag_tail g > ag_head g" "D \<noteq> [] \<Longrightarrow> fst (hd D) = ag_dqSeq g ! (ag_head g mod ?c)"
    by (auto simp: D_def dq_entries_def hd_map upt_conv_Cons)
  have "map ?e [h..<ag_tail g] = (if D \<noteq> [] \<and> int (fst (hd D)) \<le> int ?n - int (gc_window cfg) then tl D else D)"
    unfolding h_def using Dhd by (auto simp: D_def dq_entries_def upt_conv_Cons)
  also have "\<dots> = suffix_minima (drop (length hs + 1 - ?W) (tagged ?n hs))"
    unfolding Deq by (rule expire_front[OF i(4) refl])
  finally have D1: "map ?e [h..<ag_tail g] = suffix_minima (drop (length hs + 1 - ?W) (tagged ?n hs))" .
  have hle: "h \<le> ag_tail g" using i(3) by (simp add: h_def)
  have t: "h \<le> t" "t \<le> ag_tail g" "[h..<t] = rev (dropWhile (\<lambda>i. ag_dqVal g ! (i mod ?c) \<ge> rtt) (rev [h..<ag_tail g]))"
    using ag_trim_spec[OF hle, of "ag_dqVal g" ?c rtt] by (simp_all add: t_def)
  have "map ?e [h..<t] = rev (dropWhile (\<lambda>x. snd x \<ge> rtt) (rev (map ?e [h..<ag_tail g])))"
    unfolding t(3) by (simp add: rev_map dropWhile_map comp_def)
  also have "\<dots> = filter (\<lambda>x. snd x < rtt) (map ?e [h..<ag_tail g])"
    unfolding D1 by (rule dropWhile_rev_filter[OF suffix_minima_sorted])
  finally have D2: "map ?e [h..<t] = filter (\<lambda>x. snd x < rtt) (suffix_minima (drop (length hs + 1 - ?W) (tagged ?n hs)))"
    by (simp only: D1)
  have "ag_tail g - h = length (map ?e [h..<ag_tail g])" by simp
  also have "\<dots> \<le> length hs - (length hs + 1 - ?W)"
    unfolding D1 using length_suffix_minima[of "drop (length hs + 1 - ?W) (tagged ?n hs)"] i(4) by simp
  also have "\<dots> < ?c" using c0 by auto
  finally have room: "t - h < ?c" using t(2) by linarith
  have e: "dq_entries cfg ?g = map ?e [h..<t] @ [(?n, rtt)]"
  proof -
    have ne: "t mod ?c \<noteq> j mod ?c" if "j \<in> set [h..<t]" for j
    proof -
      have "j < t" "t - j < ?c" using that room by auto
      then show ?thesis using ring_slots_differ[of j t ?c] by simp
    qed
    have "map (\<lambda>j. ((ag_dqSeq g)[t mod ?c := ?n] ! (j mod ?c), (ag_dqVal g)[t mod ?c := rtt] ! (j mod ?c))) [h..<t]
        = map ?e [h..<t]"
      by (rule map_cong[OF refl]) (simp add: nth_list_update_neq[OF ne])
    then show ?thesis using t(1) i c0 by (simp add: g dq_entries_def)
  qed
  have win: "drop (length (hs @ [rtt]) - ?W) (tagged (?n + 1) (hs @ [rtt])) =
      drop (length hs + 1 - ?W) (tagged ?n hs) @ [(?n, rtt)]"
    using i(4) tagged_snoc[OF i(4), of rtt] by simp
  have E: "dq_entries cfg ?g = suffix_minima (drop (length (hs @ [rtt]) - ?W) (tagged (?n + 1) (hs @ [rtt])))"
    unfolding e D2 win suffix_minima_snoc by simp
  show "dq_inv cfg (hs @ [rtt]) ?g"
    using E i t(1) unfolding dq_inv_def by (simp add: g)
  have "ag_rttNoload ?g = snd (hd (dq_entries cfg ?g))"
    using t(1) by (simp add: g dq_entries_def upt_conv_Cons del: upt_Suc)
  also have "\<dots> = Min (snd ` set (drop (length (hs @ [rtt]) - ?W) (tagged (?n + 1) (hs @ [rtt]))))"
    unfolding E by (rule suffix_minima_hd) (simp only: win, simp)
  also have "snd ` set (drop (length (hs @ [rtt]) - ?W) (tagged (?n + 1) (hs @ [rtt]))) = set (recent cfg (hs @ [rtt]))"
    unfolding recent_def using map_snd_tagged[of "hs @ [rtt]" "?n + 1"] i(4)
    by (metis drop_map length_append_singleton list.set_map Suc_eq_plus1 Suc_le_mono)
  finally show "ag_rttNoload ?g = Min (set (recent cfg (hs @ [rtt])))" .
qed

lemma dq_finish:
  assumes "length (ag_dqSeq g) = ag_cap cfg" "length (ag_dqVal g) = ag_cap cfg"
  shows "dq_inv cfg [ag_rttNoload (ag_finishProbe g now)] (ag_finishProbe g now)"
  using assms by (auto simp: dq_inv_def ag_finishProbe_def Let_def dq_entries_def tagged_def ag_cap_def)

section \<open>The guard\<close>

text \<open>What the factory guarantees of a configuration, and the invariant of the guard with its leases.\<close>

definition cfg_ok :: "guard_cfg \<Rightarrow> bool" where
  "cfg_ok cfg \<longleftrightarrow>
     1 \<le> gc_minLimit cfg \<and> gc_minLimit cfg \<le> gc_initialLimit cfg \<and> gc_initialLimit cfg \<le> gc_maxLimit cfg \<and>
     0 \<le> gc_backoffRatio cfg \<and> gc_backoffRatio cfg \<le> 1 \<and> 1 \<le> ag_probeLimit cfg"

lemma recal_of_ok: "recal_of lo hi opts = Inr (Some r) \<Longrightarrow> 1 \<le> rc_probeLimit r"
  by (cases opts) (auto simp: recal_of_def result_simps split: if_splits)

lemma adaptiveConcurrency_ok:
  assumes "adaptiveConcurrency opts = Inr cfg"
  shows "cfg_ok cfg"
proof -
  obtain lo hi rec where c: "1 \<le> gc_minLimit cfg" "gc_minLimit cfg \<le> gc_initialLimit cfg" "gc_initialLimit cfg \<le> gc_maxLimit cfg"
    "1 / 2 \<le> gc_backoffRatio cfg" "gc_backoffRatio cfg < 1" "recal_of lo hi rec = Inr (gc_recal cfg)"
    using assms unfolding adaptiveConcurrency_def Let_def
    by (auto simp: rbind_eq_Inr requireAtLeast_Inr not_le not_less split: if_splits)
  then show ?thesis using recal_of_ok[of lo hi rec] by (auto simp: cfg_ok_def ag_probeLimit_def split: option.splits)
qed

definition outstanding :: "lease list \<Rightarrow> nat" where
  "outstanding ls = length (filter (\<lambda>l. \<not> le_released l) ls)"

definition ag_ok :: "guard_cfg \<Rightarrow> guard \<times> lease list \<Rightarrow> bool" where
  "ag_ok cfg s \<longleftrightarrow>
     gc_minLimit cfg \<le> ag_estimate (fst s) \<and> ag_estimate (fst s) \<le> gc_maxLimit cfg \<and>
     ag_inflight (fst s) = int (outstanding (snd s))"

lemma ag_estimate_simps [simp]:
  "ag_estimate (ag_recordRtt cfg g r) = ag_estimate g" "ag_inflight (ag_recordRtt cfg g r) = ag_inflight g"
  "ag_estimate (ag_finishProbe g now) = ag_estimate g" "ag_inflight (ag_finishProbe g now) = ag_inflight g"
  "ag_estimate (ag_startProbe g) = ag_estimate g" "ag_inflight (ag_startProbe g) = ag_inflight g"
  "ag_inflight (ag_updateGradient2 cfg g r b n) = ag_inflight g"
  "ag_inflight (ag_updateAimd cfg g r b n) = ag_inflight g"
  by (simp_all add: ag_recordRtt_def ag_finishProbe_def ag_startProbe_def ag_updateGradient2_def ag_updateAimd_def Let_def)

lemma ag_update_bounds:
  assumes "cfg_ok cfg" "gc_minLimit cfg \<le> ag_estimate g" "ag_estimate g \<le> gc_maxLimit cfg"
  shows "gc_minLimit cfg \<le> ag_estimate (ag_updateGradient2 cfg g r b n) \<and> ag_estimate (ag_updateGradient2 cfg g r b n) \<le> gc_maxLimit cfg"
    and "gc_minLimit cfg \<le> ag_estimate (ag_updateAimd cfg g r b n) \<and> ag_estimate (ag_updateAimd cfg g r b n) \<le> gc_maxLimit cfg"
proof -
  have c: "gc_minLimit cfg \<le> gc_maxLimit cfg" "0 \<le> gc_backoffRatio cfg" "gc_backoffRatio cfg \<le> 1" "0 \<le> ag_estimate g"
    using assms by (auto simp: cfg_ok_def)
  show "gc_minLimit cfg \<le> ag_estimate (ag_updateGradient2 cfg g r b n) \<and> ag_estimate (ag_updateGradient2 cfg g r b n) \<le> gc_maxLimit cfg"
    using assms(2,3) clamp_bounds[OF c(1)] by (auto simp: ag_updateGradient2_def Let_def)
  have "ag_estimate g * gc_backoffRatio cfg \<le> ag_estimate g * 1" by (rule mult_left_mono) (use c in auto)
  then have "js_floor (ag_estimate g * gc_backoffRatio cfg) \<le> gc_maxLimit cfg"
    using js_floor_le[of "ag_estimate g * gc_backoffRatio cfg"] assms(3) by linarith
  then show "gc_minLimit cfg \<le> ag_estimate (ag_updateAimd cfg g r b n) \<and> ag_estimate (ag_updateAimd cfg g r b n) \<le> gc_maxLimit cfg"
    using assms(2,3) c(1) by (auto simp: ag_updateAimd_def)
qed

lemma ag_settle_bounds:
  assumes "cfg_ok cfg" "gc_minLimit cfg \<le> ag_estimate g" "ag_estimate g \<le> gc_maxLimit cfg"
  shows "gc_minLimit cfg \<le> ag_estimate (ag_settle cfg g now st n b) \<and> ag_estimate (ag_settle cfg g now st n b) \<le> gc_maxLimit cfg"
    and "ag_inflight (ag_settle cfg g now st n b) = ag_inflight g - 1"
proof -
  let ?g = "ag_recordRtt cfg (g\<lparr>ag_inflight := ag_inflight g - 1, ag_lastRtt := max 0 (now - st)\<rparr>) (max 0 (now - st))"
  have e: "gc_minLimit cfg \<le> ag_estimate ?g" "ag_estimate ?g \<le> gc_maxLimit cfg" using assms by simp_all
  show "gc_minLimit cfg \<le> ag_estimate (ag_settle cfg g now st n b) \<and> ag_estimate (ag_settle cfg g now st n b) \<le> gc_maxLimit cfg"
    using assms ag_update_bounds[OF assms(1) e]
    by (auto simp: ag_settle_def Let_def split: option.splits ag_algorithm.splits)
  show "ag_inflight (ag_settle cfg g now st n b) = ag_inflight g - 1"
    by (auto simp: ag_settle_def Let_def split: option.splits ag_algorithm.splits)
qed

text \<open>Any interleaving of acquisitions and releases; a lease may be released any number of times.\<close>

datatype ag_op = Acquire num | Release num nat bool

fun ag_step :: "guard_cfg \<Rightarrow> ag_op \<Rightarrow> guard \<times> lease list \<Rightarrow> guard \<times> lease list" where
  "ag_step cfg (Acquire now) (g, ls) =
     (case ag_acquire cfg g now of
        (Some (s, n), g') \<Rightarrow> (g', ls @ [\<lparr>le_start = s, le_inflight = n, le_released = False\<rparr>])
      | (None, g') \<Rightarrow> (g', ls))"
| "ag_step cfg (Release now i dropped) (g, ls) =
     (if i < length ls then (let (l, g') = lease_release cfg g now (ls ! i) dropped in (g', ls[i := l])) else (g, ls))"

lemma outstanding_snoc [simp]:
  "outstanding (ls @ [l]) = outstanding ls + (if le_released l then 0 else 1)"
  by (simp add: outstanding_def)

lemma outstanding_release:
  "i < length ls \<Longrightarrow> \<not> le_released (ls ! i) \<Longrightarrow>
   Suc (outstanding (ls[i := (ls ! i)\<lparr>le_released := True\<rparr>])) = outstanding ls"
proof (induction ls arbitrary: i)
  case (Cons l ls)
  then show ?case by (cases i) (auto simp: outstanding_def)
qed simp

lemma ag_step_ok:
  assumes "cfg_ok cfg" "ag_ok cfg s"
  shows "ag_ok cfg (ag_step cfg op s)"
proof (cases op)
  case (Acquire now)
  then show ?thesis using assms by (cases s) (auto simp: ag_ok_def ag_acquire_def Let_def)
next
  case (Release now i dropped)
  obtain g ls where s: "s = (g, ls)" by (cases s)
  show ?thesis
  proof (cases "i < length ls \<and> \<not> le_released (ls ! i)")
    case True
    then show ?thesis
      using assms ag_settle_bounds[OF assms(1), of g] outstanding_release[of i ls]
      by (auto simp: Release s ag_ok_def lease_release_def)
  qed (use assms in \<open>auto simp: Release s lease_release_def\<close>)
qed

lemma ag_run_ok: "cfg_ok cfg \<Longrightarrow> ag_ok cfg s \<Longrightarrow> ag_ok cfg (fold (ag_step cfg) ops s)"
  by (induction ops arbitrary: s) (simp_all add: ag_step_ok)

lemma ag_new_ok: "cfg_ok cfg \<Longrightarrow> ag_ok cfg (ag_new cfg now, [])"
  by (simp add: ag_ok_def ag_new_def outstanding_def cfg_ok_def)

lemma ag_ceiling_bounds:
  assumes "cfg_ok cfg" "ag_ok cfg s"
  shows "1 \<le> ag_ceiling cfg (fst s)" "ag_ceiling cfg (fst s) \<le> gc_maxLimit cfg"
proof -
  have e: "1 \<le> ag_estimate (fst s)" "ag_estimate (fst s) \<le> gc_maxLimit cfg" "1 \<le> ag_probeLimit cfg"
    using assms by (auto simp: cfg_ok_def ag_ok_def)
  then show "1 \<le> ag_ceiling cfg (fst s)" by (simp add: ag_ceiling_def Let_def)
  show "ag_ceiling cfg (fst s) \<le> gc_maxLimit cfg"
    using e js_floor_le[of "ag_estimate (fst s)"] by (auto simp: ag_ceiling_def Let_def)
qed

section \<open>Correctness\<close>

text \<open>
  C19. The concurrency guard, after any interleaving of acquisitions and releases (with repeated and
  dropped releases, probes included, under both laws) from a configuration the factory accepts: the
  estimate is within its limits; the count in flight is exactly the number of leases not yet released;
  a lease is granted exactly while that count is below the ceiling, which is between 1 and \<open>maxLimit\<close>,
  so a guard with nothing in flight always grants.
\<close>

theorem concurrency_guard_invariant:
  assumes "adaptiveConcurrency opts = Inr cfg" "fold (ag_step cfg) ops (ag_new cfg start, []) = (g, ls)"
  shows "gc_minLimit cfg \<le> ag_estimate g \<and> ag_estimate g \<le> gc_maxLimit cfg \<and>
    ag_inflight g = int (length (filter (\<lambda>l. \<not> le_released l) ls)) \<and>
    1 \<le> ag_ceiling cfg g \<and> ag_ceiling cfg g \<le> gc_maxLimit cfg \<and>
    (fst (ag_acquire cfg g now) \<noteq> None \<longleftrightarrow> of_int (ag_inflight g) < ag_ceiling cfg g) \<and>
    (list_all le_released ls \<longrightarrow> fst (ag_acquire cfg g now) \<noteq> None)"
proof -
  have c: "cfg_ok cfg" by (rule adaptiveConcurrency_ok[OF assms(1)])
  have ok: "ag_ok cfg (g, ls)" using ag_run_ok[OF c ag_new_ok[OF c], of ops start] assms(2) by simp
  have grant: "fst (ag_acquire cfg g now) \<noteq> None \<longleftrightarrow> of_int (ag_inflight g) < ag_ceiling cfg g"
    by (simp add: ag_acquire_def Let_def not_le)
  have "ag_inflight g = 0" if "list_all le_released ls"
    using ok that by (auto simp: ag_ok_def outstanding_def list_all_iff)
  then show ?thesis
    using ok grant ag_ceiling_bounds[OF c ok] by (auto simp: ag_ok_def outstanding_def)
qed

theorem concurrency_guard_invariant_witness:
  "\<exists>cfg g ls. fold (ag_step cfg) [Acquire 0, Acquire 1, Release 5 0 False, Release 6 0 False] (ag_new cfg 0, []) = (g, ls) \<and>
     ag_estimate g \<le> 512 \<and> ag_inflight g = int (length (filter (\<lambda>l. \<not> le_released l) ls))"
proof -
  let ?o = "\<lparr>ao_minLimit = None, ao_maxLimit = None, ao_initialLimit = None, ao_algorithm = None, ao_rttWindow = None,
    ao_smoothing = None, ao_tolerance = None, ao_backoffRatio = None, ao_recalibration = None\<rparr>"
  define cfg where "cfg = \<lparr>gc_minLimit = 4, gc_maxLimit = 512, gc_initialLimit = 4, gc_algorithm = Gradient2,
      gc_window = 100, gc_smoothing = 1 / 5, gc_tolerance = 2, gc_backoffRatio = 9 / 10, gc_recal = None\<rparr>"
  have o: "adaptiveConcurrency ?o = Inr cfg"
    by (simp add: adaptiveConcurrency_def js_default_def recal_of_def Let_def cfg_def)
  obtain g ls where r: "fold (ag_step cfg) [Acquire 0, Acquire 1, Release 5 0 False, Release 6 0 False] (ag_new cfg 0, []) = (g, ls)"
    by (metis prod.exhaust)
  have "gc_maxLimit cfg = 512" by (simp add: cfg_def)
  then show ?thesis using concurrency_guard_invariant[OF o r] r by metis
qed

text \<open>
  The no-load baseline is the windowed minimum: after any non-empty sequence of samples the guard's
  \<open>rttNoload\<close> is the least of the last \<open>rttWindow\<close> of them, on a fresh guard, and on any guard whose probe
  has just finished, where the measured baseline counts as the first sample. The deque in its ring of
  \<open>rttWindow + 1\<close> slots never overwrites an entry it still needs.
\<close>

theorem rtt_baseline_is_windowed_min:
  assumes "rs \<noteq> []"
  shows "ag_rttNoload (fold (\<lambda>r g. ag_recordRtt cfg g r) rs (ag_new cfg start)) =
      Min (set (drop (length rs - max 1 (gc_window cfg)) rs)) \<and>
    (\<forall>g now. length (ag_dqSeq g) = gc_window cfg + 1 \<and> length (ag_dqVal g) = gc_window cfg + 1 \<longrightarrow>
      ag_rttNoload (fold (\<lambda>r g. ag_recordRtt cfg g r) rs (ag_finishProbe g now)) =
      (let hs = ag_rttNoload (ag_finishProbe g now) # rs in Min (set (drop (length hs - max 1 (gc_window cfg)) hs))))"
proof -
  have run: "ag_rttNoload (fold (\<lambda>r g. ag_recordRtt cfg g r) rs g) = Min (set (recent cfg (hs @ rs)))"
    if "dq_inv cfg hs g" for hs g
    using assms that
  proof (induction rs arbitrary: g hs)
    case (Cons r rs)
    note P = dq_record[OF Cons.prems(2), of r]
    show ?case
    proof (cases "rs = []")
      case False
      then show ?thesis using Cons.IH[OF False P(1)] by simp
    qed (use P(2) in simp)
  qed simp
  show ?thesis
    using run[OF dq_new] run[OF dq_finish] by (simp add: recent_def Let_def ag_cap_def)
qed

theorem rtt_baseline_is_windowed_min_witness:
  "\<exists>cfg. gc_window cfg = 2 \<and> ag_rttNoload (fold (\<lambda>r g. ag_recordRtt cfg g r) [7, 3, 9, 8] (ag_new cfg 0)) = 8"
proof -
  define cfg where "cfg = \<lparr>gc_minLimit = 4, gc_maxLimit = 512, gc_initialLimit = 4, gc_algorithm = Gradient2,
      gc_window = 2, gc_smoothing = 1 / 5, gc_tolerance = 2, gc_backoffRatio = 9 / 10, gc_recal = None\<rparr>"
  have "gc_window cfg = 2" by (simp add: cfg_def)
  moreover from this have "ag_rttNoload (fold (\<lambda>r g. ag_recordRtt cfg g r) [7, 3, 9, 8] (ag_new cfg 0)) = 8"
    using rtt_baseline_is_windowed_min[of "[7, 3, 9, 8]" cfg 0] by simp
  ultimately show ?thesis by blast
qed

end
