(* ===== verification/Wfe.thy ===== *)
theory Wfe
  imports Core
begin

text \<open>
  \<open>src/twotier/weighted-fair-escrow.ts\<close>: one budget per window split over tenants by weight, where an idle
  tenant's unclaimed share may be borrowed. The lemmas: the running totals equal a rescan, the budget is
  never exceeded within a window, and borrowing never touches the unclaimed guarantee of another active
  tenant. The lease step of the shared-store mode is modelled up to its await and from its reply on.
\<close>

section \<open>State\<close>

record tenant_entry =
  te_weight :: num
  te_used :: num

text \<open>\<open>wc_quantum\<close> is the lease size when a shared store is configured.\<close>

record wfe_cfg =
  wc_L :: num
  wc_windowMs :: num
  wc_weightOf :: "string \<Rightarrow> js_number"
  wc_maxKeys :: "num option"
  wc_quantum :: "num option"

text \<open>
  The entries are objects that a pending check keeps a reference to, so they live in a heap; the map of
  tenants holds their addresses in insertion order. \<open>windowStart\<close> is \<open>-Infinity\<close> (here \<open>None\<close>) until the
  first check and after a full reset.
\<close>

record wfe =
  wf_windowStart :: "num option"
  wf_lEffective :: num
  wf_heap :: "tenant_entry list"
  wf_tenants :: "(string \<times> nat) list"
  wf_aggWeight :: num
  wf_aggUsed :: num
  wf_fractionalSeen :: bool

definition wfe_lInit :: "wfe_cfg \<Rightarrow> num" where
  "wfe_lInit cfg = (if wc_quantum cfg = None then wc_L cfg else 0)"

definition wfe_new :: "wfe_cfg \<Rightarrow> wfe" where
  "wfe_new cfg = \<lparr>wf_windowStart = None, wf_lEffective = wfe_lInit cfg, wf_heap = [], wf_tenants = [],
     wf_aggWeight = 0, wf_aggUsed = 0, wf_fractionalSeen = False\<rparr>"

record wfe_options =
  wo_limit :: js_number
  wo_windowMs :: js_number
  wo_weightOf :: "(string \<Rightarrow> js_number) option"
  wo_l2 :: bool
  wo_quantum :: "js_number option"
  wo_maxKeys :: "num option"

definition weightedFairEscrow :: "wfe_options \<Rightarrow> wfe_cfg result" where
  "weightedFairEscrow o1 =
     rbind (requirePositive ''limit'' (wo_limit o1)) (\<lambda>limit.
     rbind (requirePositive ''windowMs'' (wo_windowMs o1)) (\<lambda>windowMs.
     rbind (if wo_l2 o1 then
              (case wo_quantum o1 of
                 None \<Rightarrow> Inl (RangeError ''quantum'')
               | Some q \<Rightarrow> rbind (requirePositive ''quantum'' q) (\<lambda>_. rbind (requireInteger ''quantum'' q) (\<lambda>x. Inr (Some x))))
            else Inr None) (\<lambda>quantum.
     Inr \<lparr>wc_L = js_floor limit, wc_windowMs = windowMs,
          wc_weightOf = (case wo_weightOf o1 of Some f \<Rightarrow> f | None \<Rightarrow> (\<lambda>_. Num 1)),
          wc_maxKeys = wo_maxKeys o1, wc_quantum = quantum\<rparr>)))"

section \<open>Operations\<close>

definition isInteger :: "num \<Rightarrow> bool" where
  "isInteger x = (js_floor x = x)"

definition wfe_clear :: "wfe_cfg \<Rightarrow> num option \<Rightarrow> wfe \<Rightarrow> wfe" where
  "wfe_clear cfg ws st = st\<lparr>wf_windowStart := ws, wf_lEffective := wfe_lInit cfg, wf_tenants := [],
     wf_aggWeight := 0, wf_aggUsed := 0, wf_fractionalSeen := False\<rparr>"

definition wfe_rollWindow :: "wfe_cfg \<Rightarrow> num \<Rightarrow> wfe \<Rightarrow> wfe" where
  "wfe_rollWindow cfg now st =
     (if (case wf_windowStart st of None \<Rightarrow> True | Some ws \<Rightarrow> now \<ge> ws + wc_windowMs cfg)
      then wfe_clear cfg (Some (js_floor (now / wc_windowMs cfg) * wc_windowMs cfg)) st
      else st)"

definition guaranteedShare :: "wfe \<Rightarrow> num \<Rightarrow> num \<Rightarrow> num" where
  "guaranteedShare st weight totalWeight = js_floor (weight * wf_lEffective st / totalWeight)"

definition wfe_sum :: "(tenant_entry \<Rightarrow> num) \<Rightarrow> tenant_entry list \<Rightarrow> (string \<times> nat) list \<Rightarrow> num" where
  "wfe_sum f heap ts = sum_list (map (\<lambda>(k, a). f (heap ! a)) ts)"

definition wfe_aggregate :: "wfe \<Rightarrow> num \<times> num" where
  "wfe_aggregate st =
     (if \<not> wf_fractionalSeen st then (wf_aggWeight st, wf_aggUsed st)
      else (wfe_sum te_weight (wf_heap st) (wf_tenants st), wfe_sum te_used (wf_heap st) (wf_tenants st)))"

definition wfe_setWeight :: "nat \<Rightarrow> num \<Rightarrow> wfe \<Rightarrow> wfe" where
  "wfe_setWeight a w st =
     st\<lparr>wf_aggWeight := wf_aggWeight st + (w - te_weight (wf_heap st ! a)),
        wf_heap := (wf_heap st)[a := (wf_heap st ! a)\<lparr>te_weight := w\<rparr>],
        wf_fractionalSeen := (if \<not> isInteger w then True else wf_fractionalSeen st)\<rparr>"

definition wfe_applyUsed :: "nat \<Rightarrow> num \<Rightarrow> wfe \<Rightarrow> wfe" where
  "wfe_applyUsed a cost st =
     st\<lparr>wf_heap := (wf_heap st)[a := (wf_heap st ! a)\<lparr>te_used := te_used (wf_heap st ! a) + cost\<rparr>],
        wf_aggUsed := wf_aggUsed st + cost,
        wf_fractionalSeen := (if \<not> isInteger cost then True else wf_fractionalSeen st)\<rparr>"

text \<open>The unclaimed guarantees of the active tenants other than \<open>a\<close>.\<close>

definition wfe_reserve :: "wfe \<Rightarrow> nat \<Rightarrow> num \<Rightarrow> num" where
  "wfe_reserve st a totalWeight =
     sum_list (map (\<lambda>(k, b). if b = a then 0
                    else max 0 (guaranteedShare st (te_weight (wf_heap st ! b)) totalWeight - te_used (wf_heap st ! b)))
               (wf_tenants st))"

definition wfe_resetAt :: "wfe_cfg \<Rightarrow> wfe \<Rightarrow> num" where
  "wfe_resetAt cfg st = (case wf_windowStart st of Some ws \<Rightarrow> js_ceil (ws + wc_windowMs cfg) | None \<Rightarrow> 0)"

text \<open>The check of the entry at \<open>a\<close>, in a window that has been opened.\<close>

definition wfe_decide :: "wfe_cfg \<Rightarrow> wfe \<Rightarrow> nat \<Rightarrow> num \<Rightarrow> num \<Rightarrow> decision \<times> wfe" where
  "wfe_decide cfg st a cost now =
     (let resetAt = wfe_resetAt cfg st;
          (totalWeight, totalUsed) = wfe_aggregate st;
          used = te_used (wf_heap st ! a);
          gAsker = guaranteedShare st (te_weight (wf_heap st ! a)) totalWeight;
          lRemaining = wf_lEffective st - totalUsed;
          wait = max 0 (js_ceil (resetAt - now))
      in if cost > lRemaining then
           (\<lparr>d_allowed = False, d_limit = max gAsker used, d_remaining = max 0 (gAsker - used),
             d_resetAt = resetAt, d_retryAfterMs = wait\<rparr>, st)
         else if used + cost \<le> gAsker then
           (\<lparr>d_allowed = True, d_limit = gAsker, d_remaining = max 0 (gAsker - (used + cost)),
             d_resetAt = resetAt, d_retryAfterMs = 0\<rparr>, wfe_applyUsed a cost st)
         else
           (let reserve = wfe_reserve st a totalWeight;
                borrowAvailable = max 0 (lRemaining - reserve);
                wanted = used + cost - gAsker;
                grantable = min (min wanted cost) (min borrowAvailable lRemaining);
                realizedCeiling = gAsker + grantable
            in if used + cost \<le> realizedCeiling then
                 (\<lparr>d_allowed = True, d_limit = realizedCeiling, d_remaining = max 0 (realizedCeiling - (used + cost)),
                   d_resetAt = resetAt, d_retryAfterMs = 0\<rparr>, wfe_applyUsed a cost st)
               else
                 (\<lparr>d_allowed = False, d_limit = realizedCeiling, d_remaining = max 0 (realizedCeiling - used),
                   d_resetAt = resetAt, d_retryAfterMs = wait\<rparr>, st)))"

text \<open>Dropping the entry of a tenant returns what it used to the pool.\<close>

definition wfe_drop :: "string \<Rightarrow> wfe \<Rightarrow> wfe" where
  "wfe_drop tenant st =
     (case map_of (wf_tenants st) tenant of
        None \<Rightarrow> st
      | Some a \<Rightarrow> st\<lparr>wf_aggWeight := wf_aggWeight st - te_weight (wf_heap st ! a),
                      wf_aggUsed := wf_aggUsed st - te_used (wf_heap st ! a),
                      wf_tenants := filter (\<lambda>(k, b). k \<noteq> tenant) (wf_tenants st)\<rparr>)"

definition wfe_bootstrap :: "wfe_cfg \<Rightarrow> string \<Rightarrow> num \<Rightarrow> wfe \<Rightarrow> nat \<times> wfe" where
  "wfe_bootstrap cfg tenant w st =
     (let st1 = (if (case wc_maxKeys cfg of Some m \<Rightarrow> real (length (wf_tenants st)) \<ge> m | None \<Rightarrow> False)
                 then (case wf_tenants st of [] \<Rightarrow> st | (oldest, _) # _ \<Rightarrow> wfe_drop oldest st)
                 else st);
          a = length (wf_heap st1)
      in (a, st1\<lparr>wf_heap := wf_heap st1 @ [\<lparr>te_weight = w, te_used = 0\<rparr>],
                 wf_tenants := wf_tenants st1 @ [(tenant, a)],
                 wf_aggWeight := wf_aggWeight st1 + w,
                 wf_fractionalSeen := (if \<not> isInteger w then True else wf_fractionalSeen st1)\<rparr>))"

definition wfe_validate :: "wfe_cfg \<Rightarrow> string \<Rightarrow> js_number \<Rightarrow> (num \<times> num) result" where
  "wfe_validate cfg tenant cost =
     (if tenant = [] then Inl (TypeError ''tenant'')
      else rbind (requireCost cost) (\<lambda>c. rbind (requirePositive ''weight'' (wc_weightOf cfg tenant)) (\<lambda>w. Inr (c, w))))"

text \<open>The prelude of \<open>check\<close> and \<open>checkSync\<close>: roll, then find or make the entry.\<close>

definition wfe_entry :: "wfe_cfg \<Rightarrow> wfe \<Rightarrow> num \<Rightarrow> string \<Rightarrow> num \<Rightarrow> nat \<times> wfe" where
  "wfe_entry cfg st now tenant w =
     (let st1 = wfe_rollWindow cfg now st
      in case map_of (wf_tenants st1) tenant of
           None \<Rightarrow> wfe_bootstrap cfg tenant w st1
         | Some a \<Rightarrow> (a, wfe_setWeight a w st1))"

definition wfe_checkSync :: "wfe_cfg \<Rightarrow> wfe \<Rightarrow> num \<Rightarrow> string \<Rightarrow> js_number \<Rightarrow> (decision \<times> wfe) result" where
  "wfe_checkSync cfg st now tenant cost =
     (if wc_quantum cfg \<noteq> None then Inl (ThrottleKitError ''checkSync'')
      else rbind (wfe_validate cfg tenant cost) (\<lambda>(c, w).
        case wfe_entry cfg st now tenant w of (a, st1) \<Rightarrow> Inr (wfe_decide cfg st1 a c now)))"

definition wfe_reset :: "wfe_cfg \<Rightarrow> string option \<Rightarrow> wfe \<Rightarrow> wfe" where
  "wfe_reset cfg tenant st =
     (case tenant of None \<Rightarrow> wfe_clear cfg None st | Some t \<Rightarrow> wfe_drop t st)"

text \<open>The snapshot: window start, limit, effective limit, pool, total used and the tenants.\<close>

definition wfe_stats ::
  "wfe_cfg \<Rightarrow> wfe \<Rightarrow> num option \<times> num \<times> num \<times> num \<times> num \<times> (string \<times> num \<times> num) list" where
  "wfe_stats cfg st =
     (let tot = wfe_sum te_used (wf_heap st) (wf_tenants st)
      in (wf_windowStart st, wc_L cfg, wf_lEffective st, wf_lEffective st - tot, tot,
          map (\<lambda>(k, a). (k, te_weight (wf_heap st ! a), te_used (wf_heap st ! a))) (wf_tenants st)))"

section \<open>The shared-store mode\<close>

text \<open>
  \<open>checkL2\<close> between its awaits: it ends with a decision, or waits for the store's answer to a lease. Any
  other call may run before the reply.
\<close>

datatype wfe_l2 = L2Done decision | L2Await nat num num num

definition wfe_l2_loop :: "wfe_cfg \<Rightarrow> wfe \<Rightarrow> nat \<Rightarrow> num \<Rightarrow> num \<Rightarrow> wfe_l2 \<times> wfe" where
  "wfe_l2_loop cfg st a cost now =
     (let lRem = wf_lEffective st - snd (wfe_aggregate st)
      in if lRem \<ge> cost then (case wfe_decide cfg st a cost now of (d, st1) \<Rightarrow> (L2Done d, st1))
         else (L2Await a cost now (max (cost - lRem) (case wc_quantum cfg of Some q \<Rightarrow> q | None \<Rightarrow> 0)), st))"

definition wfe_l2_resume :: "wfe_cfg \<Rightarrow> wfe \<Rightarrow> nat \<Rightarrow> num \<Rightarrow> num \<Rightarrow> num \<Rightarrow> decision \<Rightarrow> wfe_l2 \<times> wfe" where
  "wfe_l2_resume cfg st a cost now leaseAmount leased =
     (if \<not> d_allowed leased then
        (L2Done \<lparr>d_allowed = False, d_limit = max 0 (te_used (wf_heap st ! a)), d_remaining = 0,
                 d_resetAt = wfe_resetAt cfg st, d_retryAfterMs = d_retryAfterMs leased\<rparr>, st)
      else
        (let st1 = st\<lparr>wf_lEffective := wf_lEffective st + leaseAmount\<rparr>
         in if wf_lEffective st1 \<ge> wc_L cfg then (case wfe_decide cfg st1 a cost now of (d, st2) \<Rightarrow> (L2Done d, st2))
            else wfe_l2_loop cfg st1 a cost now))"

definition wfe_check :: "wfe_cfg \<Rightarrow> wfe \<Rightarrow> num \<Rightarrow> string \<Rightarrow> js_number \<Rightarrow> (wfe_l2 \<times> wfe) result" where
  "wfe_check cfg st now tenant cost =
     rbind (wfe_validate cfg tenant cost) (\<lambda>(c, w).
       case wfe_entry cfg st now tenant w of (a, st1) \<Rightarrow>
         Inr (if wc_quantum cfg = None
              then (case wfe_decide cfg st1 a c now of (d, st2) \<Rightarrow> (L2Done d, st2))
              else wfe_l2_loop cfg st1 a c now))"

section \<open>The invariant\<close>

text \<open>Active entries are distinct objects with positive weight, and the running totals are the sums.\<close>

definition wfe_ok :: "wfe \<Rightarrow> bool" where
  "wfe_ok st \<longleftrightarrow>
     distinct (map fst (wf_tenants st)) \<and> distinct (map snd (wf_tenants st)) \<and>
     (\<forall>(k, a)\<in>set (wf_tenants st). a < length (wf_heap st) \<and> 0 < te_weight (wf_heap st ! a) \<and> 0 \<le> te_used (wf_heap st ! a)) \<and>
     wf_aggWeight st = wfe_sum te_weight (wf_heap st) (wf_tenants st) \<and>
     wf_aggUsed st = wfe_sum te_used (wf_heap st) (wf_tenants st)"

lemma wfe_okD:
  assumes "wfe_ok st"
  shows "distinct (map fst (wf_tenants st))" "distinct (map snd (wf_tenants st))"
    "(k, a) \<in> set (wf_tenants st) \<Longrightarrow> a < length (wf_heap st)"
    "(k, a) \<in> set (wf_tenants st) \<Longrightarrow> 0 < te_weight (wf_heap st ! a)"
    "(k, a) \<in> set (wf_tenants st) \<Longrightarrow> 0 \<le> te_used (wf_heap st ! a)"
    "wf_aggWeight st = wfe_sum te_weight (wf_heap st) (wf_tenants st)"
    "wf_aggUsed st = wfe_sum te_used (wf_heap st) (wf_tenants st)"
  using assms by (auto simp: wfe_ok_def)

lemma wfe_aggregate_sum:
  "wfe_ok st \<Longrightarrow> wfe_aggregate st = (wfe_sum te_weight (wf_heap st) (wf_tenants st), wfe_sum te_used (wf_heap st) (wf_tenants st))"
  by (simp add: wfe_aggregate_def wfe_ok_def)

lemma wfe_sum_simps [simp]:
  "wfe_sum f h [] = 0" "wfe_sum f h ((k, a) # ts) = f (h ! a) + wfe_sum f h ts"
  "wfe_sum f h (ts @ us) = wfe_sum f h ts + wfe_sum f h us"
  by (simp_all add: wfe_sum_def)

lemma wfe_sum_update_other: "a \<notin> set (map snd ts) \<Longrightarrow> wfe_sum f (h[a := e]) ts = wfe_sum f h ts"
  by (induction ts) auto

lemma wfe_sum_update:
  "(k, a) \<in> set ts \<Longrightarrow> distinct (map snd ts) \<Longrightarrow> a < length h \<Longrightarrow>
   wfe_sum f (h[a := e]) ts = wfe_sum f h ts - f (h ! a) + f e"
proof (induction ts)
  case (Cons t ts)
  obtain k' b where t: "t = (k', b)" by (cases t)
  show ?case
  proof (cases "b = a")
    case True
    then have "a \<notin> set (map snd ts)" using Cons.prems by (simp add: t)
    then show ?thesis using Cons.prems True by (simp add: t wfe_sum_update_other)
  next
    case False
    then show ?thesis using Cons by (auto simp: t)
  qed
qed simp

lemma wfe_sum_append: "\<forall>(k, a)\<in>set ts. a < length h \<Longrightarrow> wfe_sum f (h @ es) ts = wfe_sum f h ts"
  by (induction ts) (auto simp: nth_append)

lemma wfe_sum_filter:
  "(k, a) \<in> set ts \<Longrightarrow> distinct (map fst ts) \<Longrightarrow>
   wfe_sum f h (filter (\<lambda>(j, b). j \<noteq> k) ts) = wfe_sum f h ts - f (h ! a)"
proof (induction ts)
  case (Cons t ts)
  obtain j b where t: "t = (j, b)" by (cases t)
  show ?case
  proof (cases "j = k")
    case True
    then have "filter (\<lambda>(j, b). j \<noteq> k) ts = ts" "b = a"
      using Cons.prems by (force simp: t filter_id_conv)+
    then show ?thesis using True by (simp add: t)
  next
    case False
    then show ?thesis using Cons by (auto simp: t)
  qed
qed simp

lemma wfe_sum_nonneg: "\<forall>(k, a)\<in>set ts. 0 \<le> f (h ! a) \<Longrightarrow> 0 \<le> wfe_sum f h ts"
  by (induction ts) auto

section \<open>Preservation\<close>

definition wfe_active :: "wfe \<Rightarrow> nat \<Rightarrow> bool" where
  "wfe_active st a \<longleftrightarrow> a \<in> set (map snd (wf_tenants st))"

lemma wfe_activeE:
  assumes "wfe_active st a"
  obtains k where "(k, a) \<in> set (wf_tenants st)"
  using assms by (auto simp: wfe_active_def)

abbreviation wfe_used :: "wfe \<Rightarrow> num" where
  "wfe_used st \<equiv> wfe_sum te_used (wf_heap st) (wf_tenants st)"

lemma wfe_clear_ok [simp]: "wfe_ok (wfe_clear cfg ws st)"
  by (simp add: wfe_ok_def wfe_clear_def)

lemma wfe_new_ok: "wfe_ok (wfe_new cfg)"
  by (simp add: wfe_ok_def wfe_new_def)

lemma wfe_roll_ok: "wfe_ok st \<Longrightarrow> wfe_ok (wfe_rollWindow cfg now st)"
  by (simp add: wfe_rollWindow_def)

lemma wfe_update_ok:
  assumes ok: "wfe_ok st" and a: "wfe_active st a" and e: "0 < te_weight e" "0 \<le> te_used e"
    and st': "wf_tenants st' = wf_tenants st" "wf_heap st' = (wf_heap st)[a := e]"
      "wf_aggWeight st' = wf_aggWeight st - te_weight (wf_heap st ! a) + te_weight e"
      "wf_aggUsed st' = wf_aggUsed st - te_used (wf_heap st ! a) + te_used e"
  shows "wfe_ok st'"
proof -
  note d = wfe_okD[OF ok]
  obtain k where k: "(k, a) \<in> set (wf_tenants st)" by (rule wfe_activeE[OF a])
  have "b < length ((wf_heap st)[a := e]) \<and> 0 < te_weight ((wf_heap st)[a := e] ! b) \<and> 0 \<le> te_used ((wf_heap st)[a := e] ! b)"
    if "(j, b) \<in> set (wf_tenants st)" for j b
    using that d(3-5)[OF that] e by (cases "b = a") auto
  then show ?thesis unfolding wfe_ok_def st'
    using wfe_sum_update[OF k d(2) d(3)[OF k]] d by auto
qed

lemma wfe_setWeight_ok:
  "wfe_ok st \<Longrightarrow> wfe_active st a \<Longrightarrow> 0 < w \<Longrightarrow> wfe_ok (wfe_setWeight a w st)"
  by (rule wfe_update_ok[where e = "(wf_heap st ! a)\<lparr>te_weight := w\<rparr>"])
     (auto simp: wfe_setWeight_def elim!: wfe_activeE dest: wfe_okD(5))

lemma wfe_applyUsed_ok:
  "wfe_ok st \<Longrightarrow> wfe_active st a \<Longrightarrow> 0 < c \<Longrightarrow> wfe_ok (wfe_applyUsed a c st)"
  by (rule wfe_update_ok[where e = "(wf_heap st ! a)\<lparr>te_used := te_used (wf_heap st ! a) + c\<rparr>"])
     (auto simp: wfe_applyUsed_def elim!: wfe_activeE dest: wfe_okD(4,5))

lemma wfe_drop_ok:
  assumes "wfe_ok st"
  shows "wfe_ok (wfe_drop k st)" "wfe_used (wfe_drop k st) \<le> wfe_used st" "wf_lEffective (wfe_drop k st) = wf_lEffective st"
    "wf_windowStart (wfe_drop k st) = wf_windowStart st" "wf_heap (wfe_drop k st) = wf_heap st"
    "set (wf_tenants (wfe_drop k st)) \<subseteq> set (wf_tenants st)"
proof -
  note d = wfe_okD[OF assms]
  have *: "wfe_ok (wfe_drop k st) \<and> wfe_used (wfe_drop k st) \<le> wfe_used st"
  proof (cases "map_of (wf_tenants st) k")
    case (Some a)
    then have k: "(k, a) \<in> set (wf_tenants st)" by (rule map_of_SomeD)
    have F: "wfe_sum f (wf_heap st) (filter (\<lambda>(j, b). j \<noteq> k) (wf_tenants st)) = wfe_sum f (wf_heap st) (wf_tenants st) - f (wf_heap st ! a)"
      for f by (rule wfe_sum_filter[OF k d(1)])
    have "distinct (map fst (filter (\<lambda>(j, b). j \<noteq> k) (wf_tenants st)))" "distinct (map snd (filter (\<lambda>(j, b). j \<noteq> k) (wf_tenants st)))"
      using d(1,2) by (simp_all add: distinct_map_filter)
    then show ?thesis using Some F d d(5)[OF k] by (auto simp: wfe_ok_def wfe_drop_def)
  qed (use assms in \<open>simp add: wfe_drop_def\<close>)
  then show "wfe_ok (wfe_drop k st)" "wfe_used (wfe_drop k st) \<le> wfe_used st" by auto
  show "wf_lEffective (wfe_drop k st) = wf_lEffective st" "wf_windowStart (wfe_drop k st) = wf_windowStart st"
    "wf_heap (wfe_drop k st) = wf_heap st" "set (wf_tenants (wfe_drop k st)) \<subseteq> set (wf_tenants st)"
    by (auto simp: wfe_drop_def split: option.splits)
qed

lemma wfe_bootstrap_ok:
  assumes ok: "wfe_ok st" and new: "k \<notin> set (map fst (wf_tenants st))" and w: "0 < w"
    and b: "wfe_bootstrap cfg k w st = (a, st')"
  shows "wfe_ok st'" "wfe_active st' a" "wfe_used st' \<le> wfe_used st" "wf_lEffective st' = wf_lEffective st"
    "wf_windowStart st' = wf_windowStart st" "te_used (wf_heap st' ! a) = 0"
    "wc_maxKeys cfg = None \<Longrightarrow> wfe_used st' = wfe_used st"
proof -
  define s1 where "s1 = (if (case wc_maxKeys cfg of Some m \<Rightarrow> real (length (wf_tenants st)) \<ge> m | None \<Rightarrow> False)
                 then (case wf_tenants st of [] \<Rightarrow> st | (oldest, _) # _ \<Rightarrow> wfe_drop oldest st) else st)"
  have s1: "s1 = st \<or> (\<exists>j. s1 = wfe_drop j st)" by (auto simp: s1_def split: list.splits prod.splits)
  then have ok1: "wfe_ok s1" "wfe_used s1 \<le> wfe_used st" "wf_lEffective s1 = wf_lEffective st"
    "wf_windowStart s1 = wf_windowStart st" "set (wf_tenants s1) \<subseteq> set (wf_tenants st)"
    using ok wfe_drop_ok[OF ok] by (auto dest: subsetD[OF wfe_drop_ok(6)[OF ok]])
  have st': "a = length (wf_heap s1)" "st' = s1\<lparr>wf_heap := wf_heap s1 @ [\<lparr>te_weight = w, te_used = 0\<rparr>],
      wf_tenants := wf_tenants s1 @ [(k, a)], wf_aggWeight := wf_aggWeight s1 + w,
      wf_fractionalSeen := (if \<not> isInteger w then True else wf_fractionalSeen s1)\<rparr>"
    using b unfolding wfe_bootstrap_def Let_def s1_def[symmetric] by auto
  note d = wfe_okD[OF ok1(1)]
  have bound: "\<forall>(j, b)\<in>set (wf_tenants s1). b < length (wf_heap s1)" using d(3) by auto
  have S: "wfe_sum f (wf_heap s1 @ es) (wf_tenants s1) = wfe_sum f (wf_heap s1) (wf_tenants s1)" for f es
    by (rule wfe_sum_append[OF bound])
  have fresh: "k \<notin> set (map fst (wf_tenants s1))" using new ok1(5) by auto
  have fa: "a \<notin> set (map snd (wf_tenants s1))" using bound st'(1) by auto
  show "wfe_ok st'"
    unfolding wfe_ok_def st'(2) using d fresh fa w bound S st'(1) by (auto simp: nth_append)
  show "wfe_active st' a" by (simp add: wfe_active_def st'(2))
  show "wfe_used st' \<le> wfe_used st" "wf_lEffective st' = wf_lEffective st" "wf_windowStart st' = wf_windowStart st"
    "te_used (wf_heap st' ! a) = 0"
    using S ok1 st'(1) by (simp_all add: st'(2))
  show "wfe_used st' = wfe_used st" if "wc_maxKeys cfg = None"
  proof -
    have "s1 = st" using that by (simp add: s1_def)
    then show ?thesis using S st'(1) by (simp add: st'(2))
  qed
qed

lemma wfe_entry_ok:
  assumes ok: "wfe_ok st" and w: "0 < w" and e: "wfe_entry cfg st now k w = (a, st')"
  shows "wfe_ok st'" "wfe_active st' a" "wfe_used st' \<le> wfe_used (wfe_rollWindow cfg now st)"
    "wf_lEffective st' = wf_lEffective (wfe_rollWindow cfg now st)"
    "wf_windowStart st' = wf_windowStart (wfe_rollWindow cfg now st)"
    "wc_maxKeys cfg = None \<Longrightarrow> wfe_used st' = wfe_used (wfe_rollWindow cfg now st)"
proof -
  let ?s = "wfe_rollWindow cfg now st"
  have ok1: "wfe_ok ?s" by (rule wfe_roll_ok[OF ok])
  have "wfe_ok st' \<and> wfe_active st' a \<and> wfe_used st' \<le> wfe_used ?s \<and> wf_lEffective st' = wf_lEffective ?s \<and>
    wf_windowStart st' = wf_windowStart ?s \<and> (wc_maxKeys cfg = None \<longrightarrow> wfe_used st' = wfe_used ?s)"
  proof (cases "map_of (wf_tenants ?s) k")
    case None
    then have "k \<notin> set (map fst (wf_tenants ?s))" by (simp add: map_of_eq_None_iff)
    moreover have "wfe_bootstrap cfg k w ?s = (a, st')" using e None by (simp add: wfe_entry_def Let_def)
    ultimately show ?thesis by (simp add: wfe_bootstrap_ok[OF ok1 _ w])
  next
    case (Some b)
    then have st': "a = b" "st' = wfe_setWeight a w ?s" using e by (auto simp: wfe_entry_def Let_def)
    have k: "(k, a) \<in> set (wf_tenants ?s)" using Some st'(1) by (simp add: map_of_SomeD)
    then have act: "wfe_active ?s a" by (force simp: wfe_active_def)
    have "wfe_used st' = wfe_used ?s"
      using wfe_sum_update[OF k wfe_okD(2,3)[OF ok1]] k by (simp add: st' wfe_setWeight_def)
    then show ?thesis
      using wfe_setWeight_ok[OF ok1 act w] act by (simp add: st' wfe_active_def wfe_setWeight_def)
  qed
  then show "wfe_ok st'" "wfe_active st' a" "wfe_used st' \<le> wfe_used ?s" "wf_lEffective st' = wf_lEffective ?s"
    "wf_windowStart st' = wf_windowStart ?s" "wc_maxKeys cfg = None \<Longrightarrow> wfe_used st' = wfe_used ?s" by auto
qed

text \<open>A check changes the state only by the admitted cost, and admits only what is left of the budget.\<close>

text \<open>The two conditions of a check, as functions of the state.\<close>

definition wfe_capped :: "wfe \<Rightarrow> num \<Rightarrow> bool" where
  "wfe_capped st cost \<longleftrightarrow> cost > wf_lEffective st - snd (wfe_aggregate st)"

definition wfe_share_of :: "wfe \<Rightarrow> nat \<Rightarrow> num" where
  "wfe_share_of st a = guaranteedShare st (te_weight (wf_heap st ! a)) (fst (wfe_aggregate st))"

definition wfe_ceiling :: "wfe \<Rightarrow> nat \<Rightarrow> num \<Rightarrow> num" where
  "wfe_ceiling st a cost =
     (let l = wf_lEffective st - snd (wfe_aggregate st);
          b = max 0 (l - wfe_reserve st a (fst (wfe_aggregate st)))
      in wfe_share_of st a + min (min (te_used (wf_heap st ! a) + cost - wfe_share_of st a) cost) (min b l))"

definition wfe_admits :: "wfe \<Rightarrow> nat \<Rightarrow> num \<Rightarrow> bool" where
  "wfe_admits st a cost \<longleftrightarrow> \<not> wfe_capped st cost \<and>
     (te_used (wf_heap st ! a) + cost \<le> wfe_share_of st a \<or> te_used (wf_heap st ! a) + cost \<le> wfe_ceiling st a cost)"

lemma wfe_decide_result:
  "d_allowed (fst (wfe_decide cfg st a cost now)) = wfe_admits st a cost"
  "snd (wfe_decide cfg st a cost now) = (if wfe_admits st a cost then wfe_applyUsed a cost st else st)"
  unfolding wfe_decide_def wfe_admits_def wfe_capped_def wfe_share_of_def wfe_ceiling_def Let_def case_prod_unfold
    if_distrib[of fst] if_distrib[of snd] if_distrib[of d_allowed] prod.sel decision.select_convs
  by (simp_all only: split: if_split) blast+

lemma wfe_decide_cases:
  assumes "wfe_decide cfg st a cost now = (d, st')"
  shows "\<not> d_allowed d \<and> st' = st \<or>
    d_allowed d \<and> st' = wfe_applyUsed a cost st \<and> cost \<le> wf_lEffective st - snd (wfe_aggregate st)"
  using wfe_decide_result[of cfg st a cost now] assms by (auto simp: wfe_admits_def wfe_capped_def)

lemma wfe_applyUsed_sum:
  assumes "wfe_ok st" "wfe_active st a"
  shows "wfe_used (wfe_applyUsed a c st) = wfe_used st + c"
proof -
  obtain k where "(k, a) \<in> set (wf_tenants st)" by (rule wfe_activeE[OF assms(2)])
  then show ?thesis using wfe_sum_update[OF _ wfe_okD(2,3)[OF assms(1)]] by (simp add: wfe_applyUsed_def)
qed

lemma wfe_decide_ok:
  assumes ok: "wfe_ok st" "wfe_active st a" and c: "0 < c" and d: "wfe_decide cfg st a c now = (d, st')"
  shows "wfe_ok st'" "wfe_used st' = wfe_used st + (if d_allowed d then c else 0)"
    "d_allowed d \<Longrightarrow> wfe_used st' \<le> wf_lEffective st" "wf_lEffective st' = wf_lEffective st"
    "wf_windowStart st' = wf_windowStart st"
  using wfe_decide_cases[OF d] wfe_applyUsed_ok[OF ok c] wfe_applyUsed_sum[OF ok, of c] ok
  by (auto simp: wfe_aggregate_sum wfe_applyUsed_def)

section \<open>The budget\<close>

text \<open>A sequence of checks \<open>(now, tenant, cost)\<close> and the total cost it admits.\<close>

fun wfe_admitted :: "wfe_cfg \<Rightarrow> wfe \<Rightarrow> (num \<times> string \<times> js_number) list \<Rightarrow> num" where
  "wfe_admitted cfg st [] = 0"
| "wfe_admitted cfg st ((now, k, cost) # rs) =
     (case wfe_checkSync cfg st now k cost of
        Inl e \<Rightarrow> wfe_admitted cfg st rs
      | Inr (d, st') \<Rightarrow>
          (if d_allowed d then (case cost of Num c \<Rightarrow> c | _ \<Rightarrow> 0) else 0) + wfe_admitted cfg st' rs)"

text \<open>What holds of every state a single-process limiter reaches: windows are aligned, the use is within the limit.\<close>

definition wfe_safe :: "wfe_cfg \<Rightarrow> wfe \<Rightarrow> bool" where
  "wfe_safe cfg st \<longleftrightarrow>
     wfe_ok st \<and> wf_lEffective st = wc_L cfg \<and> wfe_used st \<le> wc_L cfg \<and>
     (case wf_windowStart st of None \<Rightarrow> wf_tenants st = [] | Some ws \<Rightarrow> \<exists>j :: int. ws = of_int j * wc_windowMs cfg)"

lemma wfe_new_safe: "wc_quantum cfg = None \<Longrightarrow> 0 \<le> wc_L cfg \<Longrightarrow> wfe_safe cfg (wfe_new cfg)"
  using wfe_new_ok[of cfg] by (simp add: wfe_safe_def) (simp add: wfe_new_def wfe_lInit_def)

lemma wfe_roll_safe: "wc_quantum cfg = None \<Longrightarrow> 0 \<le> wc_L cfg \<Longrightarrow> wfe_safe cfg st \<Longrightarrow> wfe_safe cfg (wfe_rollWindow cfg now st)"
  by (auto simp: wfe_safe_def wfe_rollWindow_def)
     (auto simp: wfe_clear_def wfe_lInit_def js_floor_def)

lemma wfe_validate_Inr:
  assumes "wfe_validate cfg k cost = Inr (c, w)"
  shows "cost = Num c" "0 < c" "wc_weightOf cfg k = Num w" "0 < w"
  using assms by (auto simp: wfe_validate_def rbind_eq_Inr requireCost_Inr requirePositive_Inr if_Inl_eq_Inr)

lemma wfe_checkSync_safe:
  assumes c: "wc_quantum cfg = None" "0 \<le> wc_L cfg" and s: "wfe_safe cfg st"
    and r: "wfe_checkSync cfg st now k cost = Inr (d, st')"
  shows "wfe_safe cfg st'" "wf_windowStart st' = wf_windowStart (wfe_rollWindow cfg now st)" "\<exists>x. cost = Num x \<and> 0 < x"
    "wc_maxKeys cfg = None \<Longrightarrow> wfe_used st' = wfe_used (wfe_rollWindow cfg now st) + (if d_allowed d then (case cost of Num x \<Rightarrow> x | _ \<Rightarrow> 0) else 0)"
proof -
  let ?s = "wfe_rollWindow cfg now st"
  obtain x w where xw: "wfe_validate cfg k cost = Inr (x, w)"
    using r c(1) unfolding wfe_checkSync_def by (auto simp: rbind_eq_Inr)
  obtain a st1 where e: "wfe_entry cfg st now k w = (a, st1)" by (metis prod.exhaust)
  have v: "cost = Num x" "0 < x" "0 < w" "wfe_entry cfg st now k w = (a, st1)" "wfe_decide cfg st1 a x now = (d, st')"
    using xw wfe_validate_Inr[OF xw] r c(1) e by (simp_all add: wfe_checkSync_def)
  have ok: "wfe_ok st" using s by (simp add: wfe_safe_def)
  note E = wfe_entry_ok[OF ok v(3,4)] and D = wfe_decide_ok[OF wfe_entry_ok(1,2)[OF ok v(3,4)] v(2,5)]
  have R: "wfe_safe cfg ?s" by (rule wfe_roll_safe[OF c s])
  show "wf_windowStart st' = wf_windowStart ?s" using D(5) E(5) by simp
  show "\<exists>x. cost = Num x \<and> 0 < x" using v by blast
  have "wf_windowStart ?s \<noteq> None"
    by (auto simp: wfe_rollWindow_def wfe_clear_def split: option.splits)
  then show "wfe_safe cfg st'" using R D E by (auto simp: wfe_safe_def split: option.splits if_splits)
  show "wfe_used st' = wfe_used ?s + (if d_allowed d then (case cost of Num x \<Rightarrow> x | _ \<Rightarrow> 0) else 0)" if "wc_maxKeys cfg = None"
    using D(2) E(6)[OF that] v(1) by simp
qed

lemma wfe_no_roll:
  assumes "wf_windowStart st = Some (of_int j * wc_windowMs cfg)" "now < (of_int j + 1) * wc_windowMs cfg"
  shows "wfe_rollWindow cfg now st = st"
  using assms by (simp add: wfe_rollWindow_def algebra_simps)

lemma wfe_roll_start:
  assumes "wfe_safe cfg st" "0 < wc_windowMs cfg" "of_int k * wc_windowMs cfg \<le> now" "now < (of_int k + 1) * wc_windowMs cfg"
  shows "\<exists>j. k \<le> j \<and> wf_windowStart (wfe_rollWindow cfg now st) = Some (of_int j * wc_windowMs cfg)"
proof (cases "case wf_windowStart st of None \<Rightarrow> True | Some ws \<Rightarrow> now \<ge> ws + wc_windowMs cfg")
  case True
  have "\<lfloor>now / wc_windowMs cfg\<rfloor> = k"
    using assms(2-4) by (intro floor_unique) (simp_all add: le_divide_eq divide_less_eq)
  then show ?thesis using True by (simp add: wfe_rollWindow_def wfe_clear_def js_floor_def) blast
next
  case False
  then obtain ws where ws: "wf_windowStart st = Some ws" "now < ws + wc_windowMs cfg" by (auto split: option.splits)
  have "\<exists>j :: int. ws = of_int j * wc_windowMs cfg" using assms(1) ws(1) by (simp add: wfe_safe_def)
  then obtain j :: int where j: "ws = of_int j * wc_windowMs cfg" by blast
  have "of_int k * wc_windowMs cfg < of_int (j + 1) * wc_windowMs cfg" using assms(3) ws(2) j by (simp add: algebra_simps)
  then have "k \<le> j" using assms(2) by (simp add: mult_less_cancel_right)
  then show ?thesis using False ws(1) j by (intro exI[of _ j]) (simp add: wfe_rollWindow_def)
qed

lemma wfe_admitted_bound:
  assumes c: "wc_quantum cfg = None" "0 \<le> wc_L cfg" "wc_maxKeys cfg = None"
  shows "wfe_safe cfg st \<Longrightarrow> wf_windowStart st = Some (of_int j * wc_windowMs cfg) \<Longrightarrow>
    \<forall>(now, k, cost)\<in>set rs. now < (of_int j + 1) * wc_windowMs cfg \<Longrightarrow>
    wfe_admitted cfg st rs \<le> wc_L cfg - wfe_used st"
proof (induction rs arbitrary: st)
  case Nil
  then show ?case by (simp add: wfe_safe_def)
next
  case (Cons r rs)
  obtain now k cost where r: "r = (now, k, cost)" by (cases r)
  have roll: "wfe_rollWindow cfg now st = st" by (rule wfe_no_roll) (use Cons.prems r in auto)
  show ?case
  proof (cases "wfe_checkSync cfg st now k cost")
    case (Inl e)
    then show ?thesis using Cons by (simp add: r)
  next
    case (Inr p)
    obtain d st' where p: "p = (d, st')" by (cases p)
    note S = wfe_checkSync_safe[OF c(1,2) Cons.prems(1) Inr[unfolded p]]
    have "wfe_admitted cfg st' rs \<le> wc_L cfg - wfe_used st'"
      by (rule Cons.IH[OF S(1)]) (use S(2) roll Cons.prems in auto)
    then show ?thesis using S(4)[OF c(3)] roll by (simp add: r Inr p)
  qed
qed

lemma wfe_admitted_window:
  assumes c: "wc_quantum cfg = None" "0 \<le> wc_L cfg" "wc_maxKeys cfg = None" "0 < wc_windowMs cfg"
  shows "wfe_safe cfg st \<Longrightarrow>
    \<forall>(now, k, cost)\<in>set rs. of_int i * wc_windowMs cfg \<le> now \<and> now < (of_int i + 1) * wc_windowMs cfg \<Longrightarrow>
    wfe_admitted cfg st rs \<le> wc_L cfg"
proof (induction rs)
  case (Cons r rs)
  obtain now k cost where r: "r = (now, k, cost)" by (cases r)
  have t: "of_int i * wc_windowMs cfg \<le> now" "now < (of_int i + 1) * wc_windowMs cfg" using Cons.prems by (auto simp: r)
  show ?case
  proof (cases "wfe_checkSync cfg st now k cost")
    case (Inl e)
    then show ?thesis using Cons by (simp add: r)
  next
    case (Inr p)
    obtain d st' where p: "p = (d, st')" by (cases p)
    note S = wfe_checkSync_safe[OF c(1,2) Cons.prems(1) Inr[unfolded p]]
    obtain j where j: "i \<le> j" "wf_windowStart (wfe_rollWindow cfg now st) = Some (of_int j * wc_windowMs cfg)"
      using wfe_roll_start[OF Cons.prems(1) c(4) t] by blast
    have "(of_int i + 1) * wc_windowMs cfg \<le> (of_int j + 1) * wc_windowMs cfg"
      using j(1) c(4) by (intro mult_right_mono) auto
    then have "wfe_admitted cfg st' rs \<le> wc_L cfg - wfe_used st'"
      by (intro wfe_admitted_bound[OF c(1-3) S(1), of j]) (use S(2) j(2) Cons.prems in \<open>fastforce+\<close>)
    moreover have "0 \<le> wfe_used (wfe_rollWindow cfg now st)"
      using wfe_roll_safe[OF c(1,2) Cons.prems(1)] wfe_okD(5) by (intro wfe_sum_nonneg) (auto simp: wfe_safe_def)
    ultimately show ?thesis using S(4)[OF c(3)] by (simp add: r Inr p)
  qed
qed (use c in simp)

section \<open>The guarantee\<close>

text \<open>
  A state is covered when what is left of the budget pays for every active tenant's unclaimed guarantee.
\<close>

definition wfe_unclaimed :: "wfe \<Rightarrow> nat \<Rightarrow> num" where
  "wfe_unclaimed st a = max 0 (wfe_share_of st a - te_used (wf_heap st ! a))"

definition wfe_covered :: "wfe \<Rightarrow> bool" where
  "wfe_covered st \<longleftrightarrow> sum_list (map (\<lambda>(k, a). wfe_unclaimed st a) (wf_tenants st)) \<le> wf_lEffective st - wfe_used st"

lemma sum_list_split_at:
  fixes f :: "nat \<Rightarrow> num"
  shows "(k, a) \<in> set ts \<Longrightarrow> distinct (map snd ts) \<Longrightarrow>
   sum_list (map (\<lambda>(j, b). f b) ts) = f a + sum_list (map (\<lambda>(j, b). if b = a then 0 else f b) ts)"
proof (induction ts)
  case (Cons t ts)
  obtain j b where t: "t = (j, b)" by (cases t)
  show ?case
  proof (cases "b = a")
    case True
    then have "a \<notin> set (map snd ts)" using Cons.prems(2) by (simp add: t)
    then have "sum_list (map (\<lambda>(j, b). f b) ts) = sum_list (map (\<lambda>(j, b). if b = a then 0 else f b) ts)"
      by (intro arg_cong[of _ _ sum_list] map_cong) force+
    then show ?thesis using True by (simp add: t)
  next
    case False
    then show ?thesis using Cons by (auto simp: t)
  qed
qed simp

lemma wfe_reserve_unclaimed:
  "wfe_reserve st a (fst (wfe_aggregate st)) = sum_list (map (\<lambda>(j, b). if b = a then 0 else wfe_unclaimed st b) (wf_tenants st))"
  unfolding wfe_reserve_def wfe_unclaimed_def wfe_share_of_def ..

lemma wfe_reserve_nonneg: "0 \<le> wfe_reserve st a W"
  unfolding wfe_reserve_def by (rule sum_list_nonneg) auto

lemma wfe_covered_iff:
  assumes "wfe_ok st" "wfe_active st a"
  shows "wfe_covered st \<longleftrightarrow>
    wfe_unclaimed st a + wfe_reserve st a (fst (wfe_aggregate st)) \<le> wf_lEffective st - wfe_used st"
proof -
  obtain k where "(k, a) \<in> set (wf_tenants st)" by (rule wfe_activeE[OF assms(2)])
  from sum_list_split_at[OF this wfe_okD(2)[OF assms(1)], of "wfe_unclaimed st"]
  show ?thesis by (simp add: wfe_covered_def wfe_reserve_unclaimed)
qed

text \<open>An admitted check changes one entry's use and no share.\<close>

lemma wfe_applyUsed_share:
  assumes ok: "wfe_ok st" "wfe_active st a" and c: "0 < c"
  shows "fst (wfe_aggregate (wfe_applyUsed a c st)) = fst (wfe_aggregate st)"
    "wfe_share_of (wfe_applyUsed a c st) b = wfe_share_of st b"
    "wfe_reserve (wfe_applyUsed a c st) a W = wfe_reserve st a W"
    "te_used (wf_heap (wfe_applyUsed a c st) ! a) = te_used (wf_heap st ! a) + c"
proof -
  obtain k where k: "(k, a) \<in> set (wf_tenants st)" by (rule wfe_activeE[OF ok(2)])
  have len: "a < length (wf_heap st)" by (rule wfe_okD(3)[OF ok(1) k])
  have h: "wf_heap (wfe_applyUsed a c st) ! b = (if b = a then (wf_heap st ! a)\<lparr>te_used := te_used (wf_heap st ! a) + c\<rparr> else wf_heap st ! b)" for b
    using len by (auto simp: wfe_applyUsed_def)
  have W: "wfe_sum te_weight (wf_heap (wfe_applyUsed a c st)) (wf_tenants st) = wfe_sum te_weight (wf_heap st) (wf_tenants st)"
    using wfe_sum_update[OF k wfe_okD(2)[OF ok(1)] len] by (simp add: wfe_applyUsed_def)
  have t: "wf_tenants (wfe_applyUsed a c st) = wf_tenants st" "wf_lEffective (wfe_applyUsed a c st) = wf_lEffective st"
    by (simp_all add: wfe_applyUsed_def)
  show A: "fst (wfe_aggregate (wfe_applyUsed a c st)) = fst (wfe_aggregate st)"
    using W t by (simp add: wfe_aggregate_sum[OF ok(1)] wfe_aggregate_sum[OF wfe_applyUsed_ok[OF ok c]])
  show "wfe_share_of (wfe_applyUsed a c st) b = wfe_share_of st b"
    unfolding wfe_share_of_def A by (simp add: guaranteedShare_def h t)
  show "wfe_reserve (wfe_applyUsed a c st) a W = wfe_reserve st a W"
    unfolding wfe_reserve_def guaranteedShare_def t by (intro arg_cong[of _ _ sum_list] map_cong) (auto simp: h)
  show "te_used (wf_heap (wfe_applyUsed a c st) ! a) = te_used (wf_heap st ! a) + c" by (simp add: h)
qed

text \<open>
  A check keeps a state covered when it stays within the guarantee, or takes no more than it borrows,
  which is what a tenant that has used its guarantee up does.
\<close>

lemma wfe_covered_step:
  assumes ok: "wfe_ok st" "wfe_active st a" and c: "0 < c" and cov: "wfe_covered st" and adm: "wfe_admits st a c"
    and whole: "te_used (wf_heap st ! a) + c \<le> wfe_share_of st a \<or> wfe_share_of st a \<le> te_used (wf_heap st ! a)"
  shows "wfe_covered (wfe_applyUsed a c st)"
proof -
  let ?st = "wfe_applyUsed a c st" and ?u = "te_used (wf_heap st ! a)" and ?g = "wfe_share_of st a"
  let ?R = "wfe_reserve st a (fst (wfe_aggregate st))" and ?l = "wf_lEffective st - wfe_used st"
  note S = wfe_applyUsed_share[OF ok c]
  have act: "wfe_active ?st a" using ok(2) by (simp add: wfe_active_def wfe_applyUsed_def)
  have used: "wfe_used ?st = wfe_used st + c" by (rule wfe_applyUsed_sum[OF ok])
  have l': "wf_lEffective ?st = wf_lEffective st" by (simp add: wfe_applyUsed_def)
  have goal: "wfe_covered ?st \<longleftrightarrow> max 0 (?g - (?u + c)) + ?R \<le> ?l - c"
    unfolding wfe_covered_iff[OF wfe_applyUsed_ok[OF ok c] act] wfe_unclaimed_def S(1-4) used l' by (simp only: diff_diff_eq)
  have cv: "max 0 (?g - ?u) + ?R \<le> ?l" using cov by (simp add: wfe_covered_iff[OF ok] wfe_unclaimed_def)
  show ?thesis
  proof (cases "?u + c \<le> ?g")
    case True
    then show ?thesis using cv goal c by simp
  next
    case False
    have "?u + c \<le> wfe_ceiling st a c" using adm False by (simp add: wfe_admits_def)
    then have "?u + c - ?g \<le> max 0 (?l - ?R)"
      by (simp add: wfe_ceiling_def Let_def wfe_aggregate_sum[OF ok(1)])
    then have "c \<le> ?l - ?R" using whole False c by linarith
    then show ?thesis using goal False c whole by simp
  qed
qed

lemma sum_shares_le:
  assumes "0 < W" "0 \<le> L" "wfe_sum te_weight h ts = W'"
  shows "sum_list (map (\<lambda>(k, a). js_floor (te_weight (h ! a) * L / W)) ts) \<le> W' * L / W"
  using assms(3)
proof (induction ts arbitrary: W')
  case (Cons t ts)
  obtain k a where t: "t = (k, a)" by (cases t)
  have "sum_list (map (\<lambda>(k, a). js_floor (te_weight (h ! a) * L / W)) ts) \<le> wfe_sum te_weight h ts * L / W"
    by (rule Cons.IH) simp
  then show ?case
    using Cons.prems js_floor_le[of "te_weight (h ! a) * L / W"] by (auto simp: t algebra_simps add_divide_distrib)
qed simp

lemma wfe_within_shares_covered:
  assumes ok: "wfe_ok st" and L: "0 \<le> wf_lEffective st" "wfe_used st \<le> wf_lEffective st"
    and within: "\<forall>(k, a)\<in>set (wf_tenants st). te_used (wf_heap st ! a) \<le> wfe_share_of st a"
  shows "wfe_covered st"
proof (cases "wf_tenants st = []")
  case False
  let ?W = "wfe_sum te_weight (wf_heap st) (wf_tenants st)"
  have pos: "0 < ?W"
  proof (cases "wf_tenants st")
    case (Cons t ts)
    obtain k a where t: "t = (k, a)" by (cases t)
    have "0 \<le> wfe_sum te_weight (wf_heap st) ts"
      by (rule wfe_sum_nonneg) (use wfe_okD(4)[OF ok] Cons in fastforce)
    moreover have "0 < te_weight (wf_heap st ! a)" using wfe_okD(4)[OF ok] Cons t by auto
    ultimately show ?thesis by (simp add: Cons t)
  qed (use False in simp)
  have "sum_list (map (\<lambda>(k, a). wfe_unclaimed st a) ts) =
      sum_list (map (\<lambda>(k, a). wfe_share_of st a) ts) - wfe_sum te_used (wf_heap st) ts"
    if "set ts \<subseteq> set (wf_tenants st)" for ts
    using that within by (induction ts) (auto simp: wfe_unclaimed_def)
  moreover have "sum_list (map (\<lambda>(k, a). wfe_share_of st a) (wf_tenants st)) \<le> ?W * wf_lEffective st / ?W"
    using sum_shares_le[OF pos L(1) refl, of "wf_heap st" "wf_tenants st"]
    by (simp add: wfe_share_of_def guaranteedShare_def wfe_aggregate_sum[OF ok])
  ultimately show ?thesis using pos by (simp add: wfe_covered_def)
qed (use L in \<open>simp add: wfe_covered_def\<close>)

text \<open>Checking a tenant again under the same weight touches no share.\<close>

lemma wfe_same_weight:
  assumes ok: "wfe_ok st" "wfe_active st a" and w: "w = te_weight (wf_heap st ! a)"
  defines "s1 \<equiv> wfe_setWeight a w st"
  shows "wfe_ok s1" "wfe_active s1 a" "wf_heap s1 = wf_heap st" "wf_tenants s1 = wf_tenants st"
    "wf_lEffective s1 = wf_lEffective st" "wfe_share_of s1 b = wfe_share_of st b" "wfe_covered s1 = wfe_covered st"
proof -
  obtain k where k: "(k, a) \<in> set (wf_tenants st)" by (rule wfe_activeE[OF ok(2)])
  show o1: "wfe_ok s1" unfolding s1_def by (rule wfe_setWeight_ok[OF ok]) (use w wfe_okD(4)[OF ok(1) k] in simp)
  show h: "wf_heap s1 = wf_heap st" "wf_tenants s1 = wf_tenants st" "wf_lEffective s1 = wf_lEffective st" "wfe_active s1 a"
    using ok(2) by (simp_all add: s1_def wfe_setWeight_def w wfe_active_def)
  have S: "wfe_share_of s1 b = wfe_share_of st b" for b
    by (simp add: wfe_share_of_def guaranteedShare_def wfe_aggregate_sum[OF ok(1)] wfe_aggregate_sum[OF o1] h)
  then show "wfe_share_of s1 b = wfe_share_of st b" .
  show "wfe_covered s1 = wfe_covered st" by (simp add: wfe_covered_def wfe_unclaimed_def S h)
qed

text \<open>Any calls on a single-process limiter.\<close>

datatype wfe_op = WCheck num string js_number | WReset "string option"

fun wfe_step :: "wfe_cfg \<Rightarrow> wfe_op \<Rightarrow> wfe \<Rightarrow> wfe" where
  "wfe_step cfg (WCheck now k cost) st = (case wfe_checkSync cfg st now k cost of Inl e \<Rightarrow> st | Inr (d, st') \<Rightarrow> st')"
| "wfe_step cfg (WReset k) st = wfe_reset cfg k st"

lemma wfe_reset_safe:
  assumes "wc_quantum cfg = None" "0 \<le> wc_L cfg" "wfe_safe cfg st"
  shows "wfe_safe cfg (wfe_reset cfg k st)"
proof (cases k)
  case None
  then show ?thesis using assms wfe_clear_ok[of cfg None st]
    by (simp add: wfe_reset_def wfe_safe_def) (simp add: wfe_clear_def wfe_lInit_def)
next
  case (Some j)
  have ok: "wfe_ok st" using assms(3) by (simp add: wfe_safe_def)
  have "wf_tenants st = [] \<Longrightarrow> wf_tenants (wfe_drop j st) = []" by (simp add: wfe_drop_def)
  then show ?thesis using assms(3) wfe_drop_ok[OF ok, of j] Some
    by (auto simp: wfe_reset_def wfe_safe_def split: option.splits)
qed

lemma wfe_run_safe:
  "wc_quantum cfg = None \<Longrightarrow> 0 \<le> wc_L cfg \<Longrightarrow> wfe_safe cfg st \<Longrightarrow> wfe_safe cfg (fold (wfe_step cfg) ops st)"
proof (induction ops arbitrary: st)
  case (Cons op ops)
  have "wfe_safe cfg (wfe_step cfg op st)"
  proof (cases op)
    case (WCheck now k cost)
    then show ?thesis using Cons.prems wfe_checkSync_safe(1)[OF Cons.prems]
      by (auto split: sum.splits)
  qed (use Cons.prems wfe_reset_safe in simp)
  then show ?case using Cons by simp
qed simp

lemma weightedFairEscrow_ok:
  assumes "weightedFairEscrow opts = Inr cfg" "\<not> wo_l2 opts"
  shows "wc_quantum cfg = None" "0 \<le> wc_L cfg" "0 < wc_windowMs cfg" "wc_maxKeys cfg = wo_maxKeys opts"
  using assms by (auto simp: weightedFairEscrow_def rbind_eq_Inr requirePositive_Inr)

section \<open>Correctness\<close>

text \<open>
  C25. The window budget of the single-process limiter (the safety theorem T1): whatever checks and resets
  came before, the use of the active tenants is within the limit, the running totals that the fast path
  reads equal a rescan of the tenants, and any sequence of checks within one window, by any tenants and
  for any costs, admits in total at most the limit. (With an unbounded tenant map and no reset among
  those checks: both give back a tenant's use by design.)
\<close>

theorem wfe_window_budget:
  assumes "weightedFairEscrow opts = Inr cfg" "\<not> wo_l2 opts" "wo_maxKeys opts = None"
    and "\<forall>(now, k, cost)\<in>set rs. of_int i * wc_windowMs cfg \<le> now \<and> now < (of_int i + 1) * wc_windowMs cfg"
    and "st = fold (wfe_step cfg) ops (wfe_new cfg)"
  shows "wfe_used st \<le> wc_L cfg \<and>
    wfe_aggregate st = (wfe_sum te_weight (wf_heap st) (wf_tenants st), wfe_used st) \<and>
    wfe_admitted cfg st rs \<le> wc_L cfg"
proof -
  note c = weightedFairEscrow_ok[OF assms(1,2)]
  have s: "wfe_safe cfg st" unfolding assms(5) by (rule wfe_run_safe[OF c(1,2) wfe_new_safe[OF c(1,2)]])
  then have "wfe_ok st" "wfe_used st \<le> wc_L cfg" by (simp_all add: wfe_safe_def)
  then show ?thesis
    using wfe_admitted_window[OF c(1,2) _ c(3) s assms(4)] c(4) assms(3) wfe_aggregate_sum by simp
qed

theorem wfe_window_budget_witness:
  "\<exists>cfg. wc_L cfg = 10 \<and> wfe_admitted cfg (fold (wfe_step cfg) [WCheck 3 ''c'' (Num 1)] (wfe_new cfg))
     [(1000, ''a'', Num 7), (1001, ''b'', Num 9), (1500, ''a'', Num (1 / 2))] \<le> 10"
proof -
  let ?o = "\<lparr>wo_limit = Num 10, wo_windowMs = Num 1000, wo_weightOf = None, wo_l2 = False, wo_quantum = None, wo_maxKeys = None\<rparr>"
  define cfg where "cfg = \<lparr>wc_L = 10, wc_windowMs = 1000, wc_weightOf = \<lambda>_. Num 1, wc_maxKeys = None, wc_quantum = None\<rparr>"
  have o: "weightedFairEscrow ?o = Inr cfg" by (simp add: weightedFairEscrow_def cfg_def)
  have L: "wc_L cfg = 10" "wc_windowMs cfg = 1000" by (simp_all add: cfg_def)
  have t: "\<forall>(now, k, cost)\<in>set [(1000, ''a'', Num 7), (1001, ''b'', Num 9), (1500, ''a'', Num (1 / 2))].
      of_int 1 * wc_windowMs cfg \<le> now \<and> now < (of_int 1 + 1) * wc_windowMs cfg" by (simp add: L)
  from wfe_window_budget[OF o _ _ t refl, of "[WCheck 3 ''c'' (Num 1)]"] show ?thesis using L by auto
qed

text \<open>
  C26. The guarantee is protected (the sharing incentive T2): call a state covered when what is left of the
  budget pays for the unclaimed guarantee of every active tenant, as it does when no tenant is above its
  share. In a covered state, within the window and under unchanged weights, a check that stays within
  its tenant's guarantee is always admitted, and a check leaves the state covered when it stays within
  the guarantee or its tenant has none left to claim (as always for unit costs and whole numbers).
\<close>

theorem wfe_guarantee_protected:
  assumes "wfe_safe cfg st" "wc_quantum cfg = None" "0 \<le> wc_L cfg"
    and "(k, a) \<in> set (wf_tenants st)" "k \<noteq> []" "wc_weightOf cfg k = Num (te_weight (wf_heap st ! a))"
    and "wfe_rollWindow cfg now st = st" "0 < c" "c \<le> max_safe_integer"
  shows "((\<forall>(j, b)\<in>set (wf_tenants st). te_used (wf_heap st ! b) \<le> wfe_share_of st b) \<longrightarrow> wfe_covered st) \<and>
    (wfe_covered st \<longrightarrow> (\<exists>d st'. wfe_checkSync cfg st now k (Num c) = Inr (d, st') \<and>
      (te_used (wf_heap st ! a) + c \<le> wfe_share_of st a \<longrightarrow> d_allowed d) \<and>
      (te_used (wf_heap st ! a) + c \<le> wfe_share_of st a \<or> wfe_share_of st a \<le> te_used (wf_heap st ! a) \<longrightarrow>
        wfe_covered st')))"
proof -
  let ?w = "te_weight (wf_heap st ! a)"
  have ok: "wfe_ok st" and L: "wf_lEffective st = wc_L cfg" "wfe_used st \<le> wc_L cfg" using assms(1) by (simp_all add: wfe_safe_def)
  have act: "wfe_active st a" using assms(4) by (force simp: wfe_active_def)
  have fresh: "(\<forall>(j, b)\<in>set (wf_tenants st). te_used (wf_heap st ! b) \<le> wfe_share_of st b) \<longrightarrow> wfe_covered st"
    using wfe_within_shares_covered[OF ok] L assms(3) by simp
  define s1 where "s1 = wfe_setWeight a ?w st"
  note S = wfe_same_weight[OF ok act refl, folded s1_def]
  have lookup: "map_of (wf_tenants st) k = Some a" using assms(4) wfe_okD(1)[OF ok] by simp
  have w: "0 < ?w" by (rule wfe_okD(4)[OF ok assms(4)])
  obtain d st' where d: "wfe_decide cfg s1 a c now = (d, st')" by (metis prod.exhaust)
  have run: "wfe_checkSync cfg st now k (Num c) = Inr (d, st')"
    using assms(2,5-9) w d lookup by (simp add: wfe_checkSync_def wfe_validate_def requireCost_def wfe_entry_def s1_def)
  have adm: "d_allowed d = wfe_admits s1 a c" "st' = (if wfe_admits s1 a c then wfe_applyUsed a c s1 else s1)"
    using wfe_decide_result[of cfg s1 a c now] d by simp_all
  have "wfe_admits s1 a c" if cov: "wfe_covered st" and g: "te_used (wf_heap st ! a) + c \<le> wfe_share_of st a"
  proof -
    have "c \<le> wf_lEffective s1 - wfe_used s1"
      using cov wfe_covered_iff[OF S(1,2)] S(7) g wfe_reserve_nonneg[of s1 a "fst (wfe_aggregate s1)"]
      by (simp add: wfe_unclaimed_def S(3,6))
    then show ?thesis using g by (simp add: wfe_admits_def wfe_capped_def wfe_aggregate_sum[OF S(1)] S(3,6))
  qed
  moreover have "wfe_covered st'" if cov: "wfe_covered st"
    and g: "te_used (wf_heap st ! a) + c \<le> wfe_share_of st a \<or> wfe_share_of st a \<le> te_used (wf_heap st ! a)"
    using wfe_covered_step[OF S(1,2) assms(8)] cov g adm(2) S(3,6,7) by simp
  ultimately show ?thesis using fresh run adm(1) by blast
qed

theorem wfe_guarantee_protected_witness:
  "\<exists>st'. wfe_checkSync \<lparr>wc_L = 10, wc_windowMs = 1000, wc_weightOf = \<lambda>_. Num 1, wc_maxKeys = None, wc_quantum = None\<rparr>
      \<lparr>wf_windowStart = Some 0, wf_lEffective = 10, wf_heap = [\<lparr>te_weight = 1, te_used = 4\<rparr>, \<lparr>te_weight = 1, te_used = 0\<rparr>],
       wf_tenants = [(''a'', 0), (''b'', 1)], wf_aggWeight = 2, wf_aggUsed = 4, wf_fractionalSeen = False\<rparr>
      5 ''a'' (Num 1) = Inr st' \<and> d_allowed (fst st')"
proof -
  let ?cfg = "\<lparr>wc_L = 10, wc_windowMs = 1000, wc_weightOf = \<lambda>_. Num 1, wc_maxKeys = None, wc_quantum = None\<rparr>"
  let ?st = "\<lparr>wf_windowStart = Some 0, wf_lEffective = 10, wf_heap = [\<lparr>te_weight = 1, te_used = 4\<rparr>, \<lparr>te_weight = 1, te_used = 0\<rparr>],
       wf_tenants = [(''a'', 0), (''b'', 1)], wf_aggWeight = 2, wf_aggUsed = 4, wf_fractionalSeen = False\<rparr>"
  have s: "wfe_safe ?cfg ?st" by (auto simp: wfe_safe_def wfe_ok_def intro: exI[of _ 0])
  have sh: "wfe_share_of ?st 0 = 5" "wfe_share_of ?st 1 = 5"
    by (simp_all add: wfe_share_of_def guaranteedShare_def wfe_aggregate_def)
  have r: "wfe_rollWindow ?cfg 5 ?st = ?st" by (simp add: wfe_rollWindow_def)
  have c: "(1::num) \<le> max_safe_integer" by (simp add: max_safe_integer_def)
  from wfe_guarantee_protected[OF s _ _ _ _ _ r _ c, of "''a''" 0] sh show ?thesis by fastforce
qed

text \<open>
  Where the guarantee is not protected: a check that straddles its tenant's guarantee is admitted when only
  the part beyond the guarantee fits the unreserved budget, although the whole cost is taken from it. Here
  tenant \<open>a\<close> has used 4 of its 5, takes 2 more, and leaves 4 for the 5 that \<open>b\<close> has not claimed.
\<close>

lemma wfe_straddling_borrow:
  defines "cfg \<equiv> \<lparr>wc_L = 10, wc_windowMs = 1000, wc_weightOf = \<lambda>_. Num 1, wc_maxKeys = None, wc_quantum = None\<rparr>"
    and "st \<equiv> \<lparr>wf_windowStart = Some 0, wf_lEffective = 10, wf_heap = [\<lparr>te_weight = 1, te_used = 4\<rparr>, \<lparr>te_weight = 1, te_used = 0\<rparr>],
       wf_tenants = [(''a'', 0), (''b'', 1)], wf_aggWeight = 2, wf_aggUsed = 4, wf_fractionalSeen = False\<rparr>"
  shows "wfe_covered st" "wfe_admits st 0 2" "\<not> wfe_covered (wfe_applyUsed 0 2 st)"
    "wfe_share_of (wfe_applyUsed 0 2 st) 1 = 5" "\<not> wfe_admits (wfe_applyUsed 0 2 st) 1 5"
  by (simp_all add: st_def wfe_covered_def wfe_unclaimed_def wfe_share_of_def guaranteedShare_def wfe_aggregate_def
      wfe_admits_def wfe_capped_def wfe_ceiling_def wfe_reserve_def wfe_applyUsed_def isInteger_def)

text \<open>
  And with a bounded tenant map the window budget is per active set, not per window: evicting a tenant
  forgets its use, so alternating tenants are admitted beyond the limit.
\<close>

lemma wfe_eviction_overspends:
  defines "cfg \<equiv> \<lparr>wc_L = 1, wc_windowMs = 1000, wc_weightOf = \<lambda>_. Num 1, wc_maxKeys = Some 1, wc_quantum = None\<rparr>"
  shows "wfe_admitted cfg (wfe_new cfg) [(0, ''a'', Num 1), (1, ''b'', Num 1)] = 2"
  by (simp add: cfg_def wfe_new_def wfe_lInit_def wfe_checkSync_def wfe_validate_def requireCost_def max_safe_integer_def
      wfe_entry_def wfe_rollWindow_def wfe_clear_def wfe_bootstrap_def wfe_decide_def wfe_aggregate_def guaranteedShare_def
      wfe_drop_def wfe_applyUsed_def isInteger_def Let_def)

end
