(* ===== verification/Sizing.thy ===== *)
theory Sizing
  imports Core
begin

text \<open>
  \<open>src/twotier/sizing.ts\<close>: how many credits a node leases at a time. The online learner takes AdaGrad
  steps in log-space towards the economic order quantity; the predictive one blends a demand hint with
  the learner by Hedge weights. The lemmas: the order quantity minimises the window cost, a step moves the
  size by at most one e-fold, sizes stay in range, and the weights are a convex combination. \<open>Math.log\<close>,
  \<open>Math.exp\<close> and \<open>Math.sqrt\<close> are the real functions.
\<close>

section \<open>The model\<close>

definition eoqOptimum :: "js_number \<Rightarrow> js_number \<Rightarrow> js_number \<Rightarrow> num result" where
  "eoqOptimum orderCost strandPenalty demand =
     rbind (requirePositive ''orderCost'' orderCost) (\<lambda>c.
     rbind (requirePositive ''strandPenalty'' strandPenalty) (\<lambda>h.
     rbind (requireAtLeast ''demand'' demand 0) (\<lambda>D.
       Inr (sqrt (2 * c * D / h)))))"

record sizer_options =
  so_orderCost :: js_number
  so_strandPenalty :: js_number
  so_minSize :: "js_number option"
  so_maxSize :: "num option"
  so_initialSize :: "num option"
  so_stepScale :: "js_number option"
  so_epsilon :: "js_number option"

record sizer_cfg =
  sz_c :: num
  sz_h :: num
  sz_minSize :: num
  sz_maxSize :: num
  sz_stepScale :: num
  sz_epsilon :: num

record sizer =
  sz_x :: num
  sz_sumSq :: num

text \<open>An option that is validated only when given.\<close>

definition requireOptional :: "(js_number \<Rightarrow> num result) \<Rightarrow> js_number option \<Rightarrow> num \<Rightarrow> num result" where
  "requireOptional check v dflt = (case v of None \<Rightarrow> Inr dflt | Some x \<Rightarrow> check x)"

definition leaseSizer :: "sizer_options \<Rightarrow> (sizer_cfg \<times> sizer) result" where
  "leaseSizer o1 =
     rbind (requirePositive ''orderCost'' (so_orderCost o1)) (\<lambda>c.
     rbind (requirePositive ''strandPenalty'' (so_strandPenalty o1)) (\<lambda>h.
     rbind (requireAtLeast ''minSize'' (case so_minSize o1 of Some v \<Rightarrow> v | None \<Rightarrow> Num 1) 1) (\<lambda>minSize.
     let maxSize = (case so_maxSize o1 of Some v \<Rightarrow> v | None \<Rightarrow> 1000000)
     in if maxSize < minSize then Inl (RangeError ''maxSize'')
        else
        rbind (requireOptional (requirePositive ''stepScale'') (so_stepScale o1)
                 (min (max (ln maxSize - ln minSize) (1 / 1000000)) 1)) (\<lambda>stepScale.
        rbind (requireOptional (requirePositive ''epsilon'') (so_epsilon o1) (1 / 100000000)) (\<lambda>epsilon.
        Inr (\<lparr>sz_c = c, sz_h = h, sz_minSize = minSize, sz_maxSize = maxSize, sz_stepScale = stepScale, sz_epsilon = epsilon\<rparr>,
             \<lparr>sz_x = ln (clamp (case so_initialSize o1 of Some v \<Rightarrow> v | None \<Rightarrow> minSize) minSize maxSize), sz_sumSq = 0\<rparr>))))))"

definition sizer_size :: "sizer_cfg \<Rightarrow> sizer \<Rightarrow> num" where
  "sizer_size cfg s = js_round (clamp (exp (sz_x s)) (sz_minSize cfg) (sz_maxSize cfg))"

definition sizer_grad :: "sizer_cfg \<Rightarrow> sizer \<Rightarrow> num \<Rightarrow> num" where
  "sizer_grad cfg s demand = (let b = exp (sz_x s) in - (sz_c cfg * demand) / b + sz_h cfg / 2 * b)"

definition sizer_observe :: "sizer_cfg \<Rightarrow> sizer \<Rightarrow> num \<Rightarrow> sizer" where
  "sizer_observe cfg s demand =
     (let grad = sizer_grad cfg s demand;
          sumSq = sz_sumSq s + grad * grad;
          step = sz_stepScale cfg / sqrt (sz_epsilon cfg + sumSq)
      in \<lparr>sz_x = clamp (sz_x s - step * grad) (ln (sz_minSize cfg)) (ln (sz_maxSize cfg)), sz_sumSq = sumSq\<rparr>)"

definition sizer_continuous :: "sizer \<Rightarrow> num" where
  "sizer_continuous s = exp (sz_x s)"

definition windowCost :: "num \<Rightarrow> num \<Rightarrow> num \<Rightarrow> num \<Rightarrow> num" where
  "windowCost n demand orderCost strandPenalty =
     (if demand \<le> 0 then 0 else orderCost * demand / n + strandPenalty * n / 2)"

text \<open>The predictive sizer: the robust learner, the two experts' losses and their last plays.\<close>

record predictive =
  pz_robust :: sizer
  pz_cumFollow :: num
  pz_cumRobust :: num
  pz_lastFollow :: num
  pz_lastRobust :: num

definition predictiveLeaseSizer :: "sizer_options \<Rightarrow> js_number option \<Rightarrow> (sizer_cfg \<times> num \<times> predictive) result" where
  "predictiveLeaseSizer o1 learningRate =
     rbind (requirePositive ''orderCost'' (so_orderCost o1)) (\<lambda>c.
     rbind (requirePositive ''strandPenalty'' (so_strandPenalty o1)) (\<lambda>h.
     rbind (requirePositive ''learningRate'' (case learningRate of Some v \<Rightarrow> v | None \<Rightarrow> Num (1 / 100))) (\<lambda>eta.
     rbind (leaseSizer o1) (\<lambda>(cfg, robust).
       Inr (cfg, eta, \<lparr>pz_robust = robust, pz_cumFollow = 0, pz_cumRobust = 0,
                       pz_lastFollow = sz_minSize cfg, pz_lastRobust = sz_minSize cfg\<rparr>)))))"

definition hedge_weights :: "num \<Rightarrow> predictive \<Rightarrow> num \<times> num" where
  "hedge_weights eta p =
     (let m = min (pz_cumFollow p) (pz_cumRobust p);
          ef = exp (- eta * (pz_cumFollow p - m));
          er = exp (- eta * (pz_cumRobust p - m));
          z = ef + er
      in (ef / z, er / z))"

definition clampSize :: "sizer_cfg \<Rightarrow> num \<Rightarrow> num" where
  "clampSize cfg b = js_round (clamp b (sz_minSize cfg) (sz_maxSize cfg))"

definition predictive_size :: "sizer_cfg \<Rightarrow> num \<Rightarrow> predictive \<Rightarrow> num \<Rightarrow> num \<times> predictive" where
  "predictive_size cfg eta p predictedDemand =
     (let lastFollow = clampSize cfg (if predictedDemand > 0 then sqrt (2 * sz_c cfg * predictedDemand / sz_h cfg) else sz_minSize cfg);
          lastRobust = sizer_size cfg (pz_robust p);
          (wf, wr) = hedge_weights eta p
      in (clampSize cfg (wf * lastFollow + wr * lastRobust), p\<lparr>pz_lastFollow := lastFollow, pz_lastRobust := lastRobust\<rparr>))"

definition predictive_observe :: "sizer_cfg \<Rightarrow> predictive \<Rightarrow> num \<Rightarrow> predictive" where
  "predictive_observe cfg p demand =
     p\<lparr>pz_cumFollow := pz_cumFollow p + windowCost (pz_lastFollow p) demand (sz_c cfg) (sz_h cfg),
       pz_cumRobust := pz_cumRobust p + windowCost (pz_lastRobust p) demand (sz_c cfg) (sz_h cfg),
       pz_robust := sizer_observe cfg (pz_robust p) demand\<rparr>"

section \<open>Lemmas\<close>

definition sizer_cfg_ok :: "sizer_cfg \<Rightarrow> bool" where
  "sizer_cfg_ok cfg \<longleftrightarrow> 0 < sz_c cfg \<and> 0 < sz_h cfg \<and> 1 \<le> sz_minSize cfg \<and> sz_minSize cfg \<le> sz_maxSize cfg \<and>
     0 < sz_stepScale cfg \<and> 0 < sz_epsilon cfg"

definition sizer_ok :: "sizer_cfg \<Rightarrow> sizer \<Rightarrow> bool" where
  "sizer_ok cfg s \<longleftrightarrow> ln (sz_minSize cfg) \<le> sz_x s \<and> sz_x s \<le> ln (sz_maxSize cfg) \<and> 0 \<le> sz_sumSq s"

lemma leaseSizer_ok:
  assumes "leaseSizer o1 = Inr (cfg, s)"
  shows "sizer_cfg_ok cfg" "sizer_ok cfg s"
proof -
  obtain c h lo hi ss ep where 0: "0 < c" "0 < h" "1 \<le> lo" "lo \<le> hi"
    "requireOptional (requirePositive ''stepScale'') (so_stepScale o1) (min (max (ln hi - ln lo) (1 / 1000000)) 1) = Inr ss"
    "requireOptional (requirePositive ''epsilon'') (so_epsilon o1) (1 / 100000000) = Inr ep"
    "cfg = \<lparr>sz_c = c, sz_h = h, sz_minSize = lo, sz_maxSize = hi, sz_stepScale = ss, sz_epsilon = ep\<rparr>"
    "s = \<lparr>sz_x = ln (clamp (case so_initialSize o1 of Some v \<Rightarrow> v | None \<Rightarrow> lo) lo hi), sz_sumSq = 0\<rparr>"
    using assms unfolding leaseSizer_def Let_def
    by (auto simp: rbind_eq_Inr requirePositive_Inr requireAtLeast_Inr if_Inl_eq_Inr)
  have "0 < ss" "0 < ep" using 0(5,6) by (auto simp: requireOptional_def requirePositive_Inr split: option.splits)
  then show "sizer_cfg_ok cfg" using 0 by (simp add: sizer_cfg_ok_def)
  let ?v = "clamp (case so_initialSize o1 of Some v \<Rightarrow> v | None \<Rightarrow> lo) lo hi"
  have "lo \<le> ?v" "?v \<le> hi" using clamp_bounds[OF 0(4)] by auto
  then show "sizer_ok cfg s" using 0(3,4) by (simp add: 0(7,8) sizer_ok_def)
qed

lemma sizer_observe_ok:
  assumes "sizer_cfg_ok cfg" "sizer_ok cfg s"
  shows "sizer_ok cfg (sizer_observe cfg s d)"
proof -
  have "ln (sz_minSize cfg) \<le> ln (sz_maxSize cfg)" using assms by (simp add: sizer_cfg_ok_def)
  then show ?thesis using assms clamp_bounds by (auto simp: sizer_ok_def sizer_observe_def Let_def)
qed

lemma clamp_contract: "lo \<le> x \<Longrightarrow> x \<le> hi \<Longrightarrow> \<bar>clamp (x - d) lo hi - x\<bar> \<le> \<bar>d\<bar>"
  by (auto simp: clamp_def)

text \<open>One observation moves the logarithm of the size by at most \<open>stepScale\<close>, whatever the demand.\<close>

lemma sizer_step_bound:
  assumes "sizer_cfg_ok cfg" "sizer_ok cfg s"
  shows "\<bar>sz_x (sizer_observe cfg s d) - sz_x s\<bar> \<le> sz_stepScale cfg"
proof -
  let ?g = "sizer_grad cfg s d"
  let ?q = "sqrt (sz_epsilon cfg + (sz_sumSq s + ?g * ?g))"
  have pos: "0 < sz_epsilon cfg" "0 \<le> sz_sumSq s" "0 < sz_stepScale cfg" using assms by (auto simp: sizer_cfg_ok_def sizer_ok_def)
  have "\<bar>?g\<bar> = sqrt (?g * ?g)" by simp
  also have "\<dots> \<le> ?q" using pos by (intro real_sqrt_le_mono) simp
  finally have g: "\<bar>?g\<bar> \<le> ?q" .
  have q: "0 < ?q" using pos by (intro real_sqrt_gt_zero) (auto intro: add_pos_nonneg)
  have "\<bar>sz_stepScale cfg / ?q * ?g\<bar> = sz_stepScale cfg * (\<bar>?g\<bar> / ?q)" using pos q by (simp add: abs_mult)
  also have "\<dots> \<le> sz_stepScale cfg * 1" by (rule mult_left_mono) (use g q pos in auto)
  finally show ?thesis
    using clamp_contract[of "ln (sz_minSize cfg)" "sz_x s" "ln (sz_maxSize cfg)" "sz_stepScale cfg / ?q * ?g"] assms(2)
    by (simp add: sizer_observe_def Let_def sizer_ok_def)
qed

text \<open>The economic order quantity minimises the cost of a window.\<close>

lemma eoq_minimises:
  assumes "0 < c" "0 < h" "0 < D" "0 < b"
  shows "windowCost (sqrt (2 * c * D / h)) D c h \<le> windowCost b D c h"
proof -
  let ?s = "sqrt (2 * c * D / h)"
  have s: "0 < ?s" "?s * ?s = 2 * c * D / h" using assms by (simp_all add: real_sqrt_mult_self)
  have cD: "c * D = h / 2 * (?s * ?s)" using s(2) assms by simp
  have "windowCost b D c h - windowCost ?s D c h = h / 2 * ((?s * ?s) / b + b - 2 * ?s)"
    using assms s cD by (simp add: windowCost_def field_simps)
  also have "\<dots> = h / 2 * ((?s - b) * (?s - b) / b)" using assms s by (simp add: field_simps)
  also have "\<dots> \<ge> 0"
    by (rule mult_nonneg_nonneg) (use assms in \<open>simp_all add: divide_nonneg_pos\<close>)
  finally show ?thesis by simp
qed

text \<open>Below the optimum the gradient is negative and the size grows, above it shrinks.\<close>

lemma sizer_grad_sign:
  assumes "sizer_cfg_ok cfg" "0 < d"
  shows "sizer_grad cfg s d < 0 \<longleftrightarrow> exp (sz_x s) < sqrt (2 * sz_c cfg * d / sz_h cfg)"
proof -
  let ?b = "exp (sz_x s)"
  have p: "0 < sz_c cfg" "0 < sz_h cfg" using assms by (auto simp: sizer_cfg_ok_def)
  have "sizer_grad cfg s d < 0 \<longleftrightarrow> ?b * ?b < 2 * sz_c cfg * d / sz_h cfg"
    using p by (simp add: sizer_grad_def Let_def field_simps)
  also have "\<dots> \<longleftrightarrow> ?b < sqrt (2 * sz_c cfg * d / sz_h cfg)"
    using real_sqrt_less_iff[of "?b * ?b" "2 * sz_c cfg * d / sz_h cfg"] by simp
  finally show ?thesis .
qed

lemma hedge_convex: "fst (hedge_weights eta p) + snd (hedge_weights eta p) = 1"
  "0 \<le> fst (hedge_weights eta p)" "0 \<le> snd (hedge_weights eta p)"
  by (simp_all add: hedge_weights_def Let_def add_divide_distrib[symmetric] add_pos_pos less_imp_neq[symmetric])

lemma sizer_run_ok: "sizer_cfg_ok cfg \<Longrightarrow> sizer_ok cfg s \<Longrightarrow> sizer_ok cfg (fold (\<lambda>d s. sizer_observe cfg s d) ds s)"
  by (induction ds arbitrary: s) (simp_all add: sizer_observe_ok)

lemma js_round_mono: "x \<le> y \<Longrightarrow> js_round x \<le> js_round y"
  by (simp add: js_round_def floor_mono)

section \<open>Correctness\<close>

text \<open>
  The online sizer: after any demands its size is between the rounded bounds, one more observation
  changes the unrounded size by at most a factor \<open>exp stepScale\<close> (one e-fold by default), the size grows
  exactly when it is below the economic order quantity of the observed demand (unless a bound holds it),
  and that quantity minimises the cost of a window over all sizes.
\<close>

theorem lease_sizer_steers_to_optimum:
  assumes "leaseSizer o1 = Inr (cfg, s0)" "s = fold (\<lambda>d s. sizer_observe cfg s d) ds s0" "0 < demand" "0 < b"
  shows "js_round (sz_minSize cfg) \<le> sizer_size cfg s \<and> sizer_size cfg s \<le> js_round (sz_maxSize cfg) \<and>
    sizer_continuous (sizer_observe cfg s demand) \<le> sizer_continuous s * exp (sz_stepScale cfg) \<and>
    sizer_continuous s \<le> sizer_continuous (sizer_observe cfg s demand) * exp (sz_stepScale cfg) \<and>
    (sizer_continuous s < sqrt (2 * sz_c cfg * demand / sz_h cfg) \<longrightarrow>
       sizer_continuous s \<le> sizer_continuous (sizer_observe cfg s demand) \<and>
       (sz_x s < ln (sz_maxSize cfg) \<longrightarrow> sizer_continuous s < sizer_continuous (sizer_observe cfg s demand))) \<and>
    (sizer_continuous s > sqrt (2 * sz_c cfg * demand / sz_h cfg) \<longrightarrow>
       sizer_continuous (sizer_observe cfg s demand) \<le> sizer_continuous s) \<and>
    windowCost (sqrt (2 * sz_c cfg * demand / sz_h cfg)) demand (sz_c cfg) (sz_h cfg)
      \<le> windowCost b demand (sz_c cfg) (sz_h cfg)"
proof -
  note c = leaseSizer_ok[OF assms(1)]
  have ok: "sizer_ok cfg s" unfolding assms(2) by (rule sizer_run_ok[OF c])
  let ?s = "sizer_observe cfg s demand" and ?e = "sqrt (2 * sz_c cfg * demand / sz_h cfg)"
  let ?g = "sizer_grad cfg s demand"
  let ?st = "sz_stepScale cfg / sqrt (sz_epsilon cfg + (sz_sumSq s + ?g * ?g))"
  have p: "0 < sz_c cfg" "0 < sz_h cfg" "sz_minSize cfg \<le> sz_maxSize cfg" "0 < sz_stepScale cfg" "0 < sz_epsilon cfg"
    using c(1) by (auto simp: sizer_cfg_ok_def)
  have x: "ln (sz_minSize cfg) \<le> sz_x s" "sz_x s \<le> ln (sz_maxSize cfg)" "0 \<le> sz_sumSq s" using ok by (auto simp: sizer_ok_def)
  have st: "0 < ?st" using p x by (intro divide_pos_pos real_sqrt_gt_zero) (auto intro: add_pos_nonneg)
  have xs: "sz_x ?s = clamp (sz_x s - ?st * ?g) (ln (sz_minSize cfg)) (ln (sz_maxSize cfg))"
    by (simp add: sizer_observe_def Let_def)
  have "js_round (sz_minSize cfg) \<le> sizer_size cfg s \<and> sizer_size cfg s \<le> js_round (sz_maxSize cfg)"
    using clamp_bounds[OF p(3)] by (auto simp: sizer_size_def intro: js_round_mono)
  moreover have "sizer_continuous ?s \<le> sizer_continuous s * exp (sz_stepScale cfg)"
    "sizer_continuous s \<le> sizer_continuous ?s * exp (sz_stepScale cfg)"
    using sizer_step_bound[OF c(1) ok, of demand] by (auto simp: sizer_continuous_def exp_add[symmetric] abs_le_iff)
  moreover have "sz_x s \<le> sz_x ?s \<and> (sz_x s < ln (sz_maxSize cfg) \<longrightarrow> sz_x s < sz_x ?s)" if "sizer_continuous s < ?e"
  proof -
    have "?g < 0" using sizer_grad_sign[OF c(1) assms(3), of s] that by (simp add: sizer_continuous_def)
    then have "?st * ?g < 0" by (rule mult_pos_neg[OF st])
    then show ?thesis using x unfolding xs by (auto simp: clamp_def)
  qed
  moreover have "sz_x ?s \<le> sz_x s" if "sizer_continuous s > ?e"
  proof -
    have "0 \<le> ?g" using sizer_grad_sign[OF c(1) assms(3), of s] that by (simp add: sizer_continuous_def not_less)
    then have "0 \<le> ?st * ?g" using st by (intro mult_nonneg_nonneg) auto
    then show ?thesis using x unfolding xs by (auto simp: clamp_def)
  qed
  moreover have "windowCost ?e demand (sz_c cfg) (sz_h cfg) \<le> windowCost b demand (sz_c cfg) (sz_h cfg)"
    by (rule eoq_minimises[OF p(1,2) assms(3,4)])
  ultimately show ?thesis by (simp add: sizer_continuous_def)
qed

theorem lease_sizer_steers_to_optimum_witness:
  "\<exists>cfg s. sizer_size cfg (sizer_observe cfg s 100) \<le> 1000000 \<and> sz_c cfg = 20"
proof -
  let ?o = "\<lparr>so_orderCost = Num 20, so_strandPenalty = Num 1, so_minSize = None, so_maxSize = None, so_initialSize = None,
    so_stepScale = Some (Num 1), so_epsilon = None\<rparr>"
  obtain cfg s0 where o: "leaseSizer ?o = Inr (cfg, s0)" and c: "sz_c cfg = 20" "sz_maxSize cfg = 1000000"
    by (simp add: leaseSizer_def requireOptional_def Let_def)
  from lease_sizer_steers_to_optimum[OF o refl, of 100 1 "[100]"] c show ?thesis
    by (intro exI[of _ cfg] exI[of _ s0]) (simp add: js_round_def)
qed

end
