(* ===== verification/TwoTier.thy ===== *)
theory TwoTier
  imports Limiter Sizing "HOL-Library.AList"
begin

text \<open>
  \<open>src/twotier/index.ts\<close>: a local tier in front of a distributed store. \<open>cached-deny\<close> remembers denials,
  \<open>leased\<close> spends credits leased in batches. A check runs without interruption between two awaits, so each
  mode is a set of atomic steps: the start of a check, the arrival of a reply of the store, the
  continuation of a waiting check, the timers. A \<open>Map\<close> is an association list in insertion order, whose
  \<open>set\<close> is \<open>AList.update\<close>. The lemmas: local answers of \<open>cached-deny\<close> are denials the store gave and that
  still run; \<open>leased\<close> admits no more than the store granted, whatever the interleaving, and holds a bounded
  number of credits; with \<open>windowCoupled\<close> a check answered on entry is answered before the window end that the last
  decision of the store names. Credits of an older window may be among those it spends: a late reply and a refill of the
  next window keep them.
\<close>

section \<open>Bounded maps\<close>

text \<open>Adding to a full map first drops its oldest key. No bound is \<open>None\<close>.\<close>

definition map_full :: "num option \<Rightarrow> ('k \<times> 'v) list \<Rightarrow> bool" where
  "map_full maxKeys m = (case maxKeys of None \<Rightarrow> False | Some n \<Rightarrow> of_nat (length m) \<ge> n)"

definition evict_oldest :: "num option \<Rightarrow> ('k \<times> 'v) list \<Rightarrow> ('k \<times> 'v) list" where
  "evict_oldest maxKeys m = (if map_full maxKeys m then tl m else m)"

section \<open>Cached denials\<close>

record deny_entry =
  dn_until :: num
  dn_decision :: decision

type_synonym deny_cache = "(string \<times> deny_entry) list"

text \<open>The start of a check either answers or asks the store for \<open>(key, now, cost)\<close>.\<close>

datatype deny_start = Local decision | Ask string num num

definition deny_check :: "string option \<Rightarrow> deny_cache \<Rightarrow> string \<Rightarrow> js_number \<Rightarrow> num \<Rightarrow> (deny_start \<times> deny_cache) result" where
  "deny_check prefix m key cost now =
     rbind (requireCost cost) (\<lambda>c.
       let fk = prefixer prefix key
       in case map_of m fk of
            None \<Rightarrow> Inr (Ask fk now c, m)
          | Some e \<Rightarrow>
              if now < dn_until e then
                Inr (Local \<lparr>d_allowed = False, d_limit = d_limit (dn_decision e), d_remaining = 0,
                            d_resetAt = d_resetAt (dn_decision e), d_retryAfterMs = js_ceil (dn_until e - now)\<rparr>, m)
              else Inr (Ask fk now c, AList.delete fk m))"

text \<open>The reply to a check that started at \<open>now\<close>; the check returns the reply itself.\<close>

definition deny_reply :: "num option \<Rightarrow> deny_cache \<Rightarrow> string \<Rightarrow> num \<Rightarrow> decision \<Rightarrow> deny_cache" where
  "deny_reply maxKeys m fk now d =
     (if \<not> d_allowed d
      then AList.update fk \<lparr>dn_until = now + d_retryAfterMs d, dn_decision = d\<rparr> (evict_oldest maxKeys m)
      else m)"

definition deny_reset :: "string option \<Rightarrow> deny_cache \<Rightarrow> string \<Rightarrow> deny_cache" where
  "deny_reset prefix m key = AList.delete (prefixer prefix key) m"

section \<open>Leases: state\<close>

text \<open>A \<open>LeaseSizer\<close> is its initial state, its size and its update.\<close>

record 'z lease_sizer =
  ls_new :: 'z
  ls_size :: "'z \<Rightarrow> num"
  ls_observe :: "'z \<Rightarrow> num \<Rightarrow> 'z"

record 'z lease_entry =
  le_credits :: num
  le_lastDecision :: "decision option"
  le_lastUse :: num
  le_refilling :: bool
  le_pending :: "nat option"
  le_sizer :: "'z option"
  le_windowDemand :: num
  le_windowEnd :: "num option"

record 'z leased =
  lc_limit :: num
  lc_ttlMs :: num
  lc_prefix :: "string option"
  lc_maxKeys :: "num option"
  lc_batch :: num
  lc_sizer :: "'z lease_sizer option"
  lc_lowWater :: num
  lc_returnIdleAfterMs :: "num option"
  lc_windowCoupled :: bool

text \<open>A check that awaits a lease keeps its key, its clock reading and its cost.\<close>

record waiting =
  wt_fk :: string
  wt_now :: num
  wt_cost :: num
  wt_lease :: nat

text \<open>
  A node: the entries, the calls to the store that have not been answered (leases and proactive refills),
  the promises of leases that have settled (\<open>None\<close>: rejected), and the waiting checks. A promise is its
  number. \<open>nd_granted\<close> and \<open>nd_served\<close> are history variables that no operation reads: what the store
  granted this node and what the node admitted, by key.
\<close>

record 'z node =
  nd_entries :: "(string \<times> 'z lease_entry) list"
  nd_flight :: "(nat \<times> string \<times> num) list"
  nd_settled :: "(nat \<times> string \<times> decision option) list"
  nd_refills :: "(nat \<times> string \<times> num) list"
  nd_refilled :: "(nat \<times> string) list"
  nd_waiting :: "(nat \<times> waiting) list"
  nd_next :: nat
  nd_granted :: "string \<Rightarrow> num"
  nd_served :: "string \<Rightarrow> num"

definition node_new :: "'z node" where
  "node_new = \<lparr>nd_entries = [], nd_flight = [], nd_settled = [], nd_refills = [], nd_refilled = [], nd_waiting = [],
     nd_next = 0, nd_granted = (\<lambda>_. 0), nd_served = (\<lambda>_. 0)\<rparr>"

text \<open>What a step hands out: calls to the store and answers to checks.\<close>

datatype effect =
    Apply nat string num num
  | Served nat decision
  | Refused nat decision
  | Failed nat

section \<open>The options\<close>

datatype 'z adaptive = Adaptive sizer_options | Factory "'z lease_sizer"

datatype 'z learner = Learned sizer | Custom 'z

record 'z lease_options =
  lo_batch :: "js_number option"
  lo_lowWater :: "num option"
  lo_returnIdleAfterMs :: "num option"
  lo_windowCoupled :: "bool option"
  lo_adaptive :: "'z adaptive option"

definition learned_sizer :: "sizer_cfg \<Rightarrow> sizer \<Rightarrow> 'z learner lease_sizer" where
  "learned_sizer cfg s0 = \<lparr>ls_new = Learned s0,
     ls_size = (\<lambda>l. case l of Learned s \<Rightarrow> sizer_size cfg s | Custom _ \<Rightarrow> 1),
     ls_observe = (\<lambda>l d. case l of Learned s \<Rightarrow> Learned (sizer_observe cfg s d) | Custom z \<Rightarrow> Custom z)\<rparr>"

definition custom_sizer :: "'z lease_sizer \<Rightarrow> 'z learner lease_sizer" where
  "custom_sizer f = \<lparr>ls_new = Custom (ls_new f),
     ls_size = (\<lambda>l. case l of Custom z \<Rightarrow> ls_size f z | Learned _ \<Rightarrow> 1),
     ls_observe = (\<lambda>l d. case l of Custom z \<Rightarrow> Custom (ls_observe f z d) | Learned s \<Rightarrow> Learned s)\<rparr>"

text \<open>\<open>{ initialSize: batch, ...adaptive }\<close>: the batch is the initial size unless the options give one.\<close>

definition sizerOptions :: "js_number option \<Rightarrow> sizer_options \<Rightarrow> sizer_options" where
  "sizerOptions batch a =
     (case (so_initialSize a, batch) of
        (None, Some (Num b)) \<Rightarrow> a\<lparr>so_initialSize := Some b\<rparr>
      | _ \<Rightarrow> a)"

definition makeSizer :: "'z lease_options \<Rightarrow> 'z learner lease_sizer option result" where
  "makeSizer lease =
     (case lo_adaptive lease of
        None \<Rightarrow> Inr None
      | Some (Factory f) \<Rightarrow> Inr (Some (custom_sizer f))
      | Some (Adaptive a) \<Rightarrow>
          rbind (leaseSizer (sizerOptions (lo_batch lease) a)) (\<lambda>(cfg, s0). Inr (Some (learned_sizer cfg s0))))"

text \<open>With a sizer and no batch, the batch is never read.\<close>

definition requireBatch :: "bool \<Rightarrow> js_number option \<Rightarrow> num result" where
  "requireBatch sized batch =
     (case batch of
        None \<Rightarrow> if sized then Inr 0 else Inl (ThrottleKitError ''lease'')
      | Some b \<Rightarrow> requireAtLeast ''lease.batch'' b 1)"

definition twoTier_leased ::
  "num \<Rightarrow> num \<Rightarrow> string option \<Rightarrow> num option \<Rightarrow> 'z lease_options option \<Rightarrow> 'z learner leased result" where
  "twoTier_leased limit ttlMs prefix maxKeys lease0 =
     (case lease0 of
        None \<Rightarrow> Inl (ThrottleKitError ''lease'')
      | Some lease \<Rightarrow>
          rbind (makeSizer lease) (\<lambda>mk.
          rbind (requireBatch (mk \<noteq> None) (lo_batch lease)) (\<lambda>batch.
          Inr \<lparr>lc_limit = limit, lc_ttlMs = ttlMs, lc_prefix = prefix, lc_maxKeys = maxKeys, lc_batch = batch, lc_sizer = mk,
               lc_lowWater = (case lo_lowWater lease of Some w \<Rightarrow> w | None \<Rightarrow> 0),
               lc_returnIdleAfterMs = lo_returnIdleAfterMs lease,
               lc_windowCoupled = (case lo_windowCoupled lease of Some b \<Rightarrow> b | None \<Rightarrow> False)\<rparr>)))"

section \<open>Leases: steps\<close>

definition new_entry :: "'z leased \<Rightarrow> 'z lease_entry" where
  "new_entry cfg = \<lparr>le_credits = 0, le_lastDecision = None, le_lastUse = 0, le_refilling = False, le_pending = None,
     le_sizer = map_option ls_new (lc_sizer cfg), le_windowDemand = 0, le_windowEnd = None\<rparr>"

definition put :: "string \<Rightarrow> 'z lease_entry \<Rightarrow> 'z node \<Rightarrow> 'z node" where
  "put fk e nd = nd\<lparr>nd_entries := AList.update fk e (nd_entries nd)\<rparr>"

definition forget :: "string \<Rightarrow> 'z node \<Rightarrow> 'z node" where
  "forget fk nd = nd\<lparr>nd_entries := AList.delete fk (nd_entries nd)\<rparr>"

definition entryFor :: "'z leased \<Rightarrow> string \<Rightarrow> 'z node \<Rightarrow> 'z lease_entry \<times> 'z node" where
  "entryFor cfg fk nd =
     (case map_of (nd_entries nd) fk of
        Some e \<Rightarrow> (e, nd)
      | None \<Rightarrow> (new_entry cfg,
                 put fk (new_entry cfg) (nd\<lparr>nd_entries := evict_oldest (lc_maxKeys cfg) (nd_entries nd)\<rparr>)))"

definition leaseSizeFor :: "'z leased \<Rightarrow> 'z lease_entry \<Rightarrow> num" where
  "leaseSizeFor cfg e =
     (case (lc_sizer cfg, le_sizer e) of
        (Some ops, Some z) \<Rightarrow> max 1 (ls_size ops z)
      | _ \<Rightarrow> lc_batch cfg)"

definition synthAllow :: "'z leased \<Rightarrow> 'z lease_entry \<Rightarrow> num \<Rightarrow> decision" where
  "synthAllow cfg e now =
     \<lparr>d_allowed = True, d_limit = lc_limit cfg, d_remaining = max 0 (js_floor (le_credits e)),
      d_resetAt = (case le_lastDecision e of Some d \<Rightarrow> d_resetAt d | None \<Rightarrow> now + lc_ttlMs cfg),
      d_retryAfterMs = 0\<rparr>"

text \<open>\<open>t\<close> is the clock when the call to the store is made.\<close>

definition maybeRefill :: "'z leased \<Rightarrow> string \<Rightarrow> 'z lease_entry \<Rightarrow> num \<Rightarrow> 'z node \<Rightarrow> effect list \<times> 'z node" where
  "maybeRefill cfg fk e t nd =
     (if lc_lowWater cfg \<le> 0 \<or> le_credits e > lc_lowWater cfg \<or> le_refilling e then ([], nd)
      else let amt = leaseSizeFor cfg e; rid = nd_next nd
           in ([Apply rid fk t amt],
               put fk (e\<lparr>le_refilling := True\<rparr>)
                 (nd\<lparr>nd_refills := (rid, fk, amt) # nd_refills nd, nd_next := Suc rid\<rparr>)))"

definition take_credits :: "num \<Rightarrow> 'z lease_entry \<Rightarrow> 'z lease_entry" where
  "take_credits cost e =
     e\<lparr>le_credits := le_credits e - cost,
       le_windowDemand := (if le_sizer e \<noteq> None then le_windowDemand e + cost else le_windowDemand e)\<rparr>"

definition note_served :: "string \<Rightarrow> num \<Rightarrow> 'z node \<Rightarrow> 'z node" where
  "note_served fk cost nd = nd\<lparr>nd_served := (nd_served nd)(fk := nd_served nd fk + cost)\<rparr>"

text \<open>
  One turn of the loop of \<open>check\<close>: serve from the credits, or wait for the lease in flight, or make one.
\<close>

definition lease_turn ::
  "'z leased \<Rightarrow> nat \<Rightarrow> string \<Rightarrow> num \<Rightarrow> num \<Rightarrow> num \<Rightarrow> 'z lease_entry \<Rightarrow> 'z node \<Rightarrow> effect list \<times> 'z node" where
  "lease_turn cfg cid fk cost now t e nd =
     (if le_credits e \<ge> cost then
        (let e1 = take_credits cost e;
             nd1 = note_served fk cost (put fk e1 nd);
             (calls, nd2) = maybeRefill cfg fk e1 t nd1
         in (calls @ [Served cid (synthAllow cfg e1 now)], nd2))
      else
        (case le_pending e of
           Some lid \<Rightarrow>
             ([], nd\<lparr>nd_waiting := (cid, \<lparr>wt_fk = fk, wt_now = now, wt_cost = cost, wt_lease = lid\<rparr>) # nd_waiting nd\<rparr>)
         | None \<Rightarrow>
             (let leaseAmount = max (leaseSizeFor cfg e) cost; lid = nd_next nd
              in ([Apply lid fk t leaseAmount],
                  put fk (e\<lparr>le_pending := Some lid\<rparr>)
                    (nd\<lparr>nd_flight := (lid, fk, leaseAmount) # nd_flight nd, nd_next := Suc lid,
                        nd_waiting := (cid, \<lparr>wt_fk = fk, wt_now = now, wt_cost = cost, wt_lease = lid\<rparr>) # nd_waiting nd\<rparr>)))))"

definition learn_window :: "'z leased \<Rightarrow> num \<Rightarrow> 'z lease_entry \<Rightarrow> 'z lease_entry" where
  "learn_window cfg now e =
     (case (lc_sizer cfg, le_sizer e, le_windowEnd e) of
        (Some ops, Some z, Some w) \<Rightarrow>
          if now \<ge> w
          then e\<lparr>le_sizer := Some (ls_observe ops z (le_windowDemand e)), le_windowDemand := 0, le_windowEnd := None\<rparr>
          else e
      | _ \<Rightarrow> e)"

definition expire_credits :: "'z leased \<Rightarrow> num \<Rightarrow> 'z lease_entry \<Rightarrow> 'z lease_entry" where
  "expire_credits cfg now e =
     (case le_lastDecision e of
        Some d \<Rightarrow> if lc_windowCoupled cfg \<and> now \<ge> d_resetAt d \<and> le_credits e > 0 then e\<lparr>le_credits := 0\<rparr> else e
      | None \<Rightarrow> e)"

text \<open>What a check does to the entry before its loop.\<close>

definition lease_enter :: "'z leased \<Rightarrow> num \<Rightarrow> 'z lease_entry \<Rightarrow> 'z lease_entry" where
  "lease_enter cfg now e = expire_credits cfg now (learn_window cfg now (e\<lparr>le_lastUse := now\<rparr>))"

definition lease_check :: "'z leased \<Rightarrow> string \<Rightarrow> js_number \<Rightarrow> num \<Rightarrow> 'z node \<Rightarrow> effect list \<times> 'z node" where
  "lease_check cfg key cost now nd0 =
     (let cid = nd_next nd0; nd = nd0\<lparr>nd_next := Suc cid\<rparr>
      in case requireCost cost of
           Inl _ \<Rightarrow> ([Failed cid], nd)
         | Inr c \<Rightarrow>
             (let fk = prefixer (lc_prefix cfg) key;
                  (e0, nd1) = entryFor cfg fk nd;
                  e = lease_enter cfg now e0
              in lease_turn cfg cid fk c now now e (put fk e nd1)))"

text \<open>The \<open>then\<close> of an on-demand lease: it credits whatever entry the key has by now.\<close>

definition credit :: "decision \<Rightarrow> num \<Rightarrow> 'z lease_entry \<Rightarrow> 'z lease_entry" where
  "credit d amt e =
     e\<lparr>le_lastDecision := Some d,
       le_credits := (if d_allowed d then le_credits e + amt else le_credits e),
       le_windowEnd := (if d_allowed d \<and> le_sizer e \<noteq> None \<and> le_windowEnd e = None then Some (d_resetAt d) else le_windowEnd e)\<rparr>"

definition note_grant :: "string \<Rightarrow> decision \<Rightarrow> num \<Rightarrow> 'z node \<Rightarrow> 'z node" where
  "note_grant fk d amt nd =
     (if d_allowed d then nd\<lparr>nd_granted := (nd_granted nd)(fk := nd_granted nd fk + amt)\<rparr> else nd)"

definition lease_reply :: "nat \<Rightarrow> decision \<Rightarrow> 'z node \<Rightarrow> 'z node" where
  "lease_reply lid d nd =
     (case map_of (nd_flight nd) lid of
        None \<Rightarrow> nd
      | Some (fk, amt) \<Rightarrow>
          (let nd1 = note_grant fk d amt
                 (nd\<lparr>nd_flight := AList.delete lid (nd_flight nd), nd_settled := (lid, fk, Some d) # nd_settled nd\<rparr>)
           in case map_of (nd_entries nd) fk of
                None \<Rightarrow> nd1
              | Some e \<Rightarrow> put fk (credit d amt e) nd1))"

definition lease_reject :: "nat \<Rightarrow> 'z node \<Rightarrow> 'z node" where
  "lease_reject lid nd =
     (case map_of (nd_flight nd) lid of
        None \<Rightarrow> nd
      | Some (fk, amt) \<Rightarrow>
          nd\<lparr>nd_flight := AList.delete lid (nd_flight nd), nd_settled := (lid, fk, None) # nd_settled nd\<rparr>)"

text \<open>The \<open>finally\<close> of an on-demand lease frees the slot.\<close>

definition lease_free :: "nat \<Rightarrow> 'z node \<Rightarrow> 'z node" where
  "lease_free lid nd =
     (case map_of (nd_settled nd) lid of
        None \<Rightarrow> nd
      | Some (fk, _) \<Rightarrow>
          (case map_of (nd_entries nd) fk of
             Some e \<Rightarrow> if le_pending e = Some lid then put fk (e\<lparr>le_pending := None\<rparr>) nd else nd
           | None \<Rightarrow> nd))"

text \<open>The continuation of a check whose lease has settled, at clock \<open>t\<close>.\<close>

definition lease_resume :: "'z leased \<Rightarrow> nat \<Rightarrow> num \<Rightarrow> 'z node \<Rightarrow> effect list \<times> 'z node" where
  "lease_resume cfg cid t nd =
     (case map_of (nd_waiting nd) cid of
        None \<Rightarrow> ([], nd)
      | Some w \<Rightarrow>
          (case map_of (nd_settled nd) (wt_lease w) of
             None \<Rightarrow> ([], nd)
           | Some (_, r) \<Rightarrow>
               (let nd1 = nd\<lparr>nd_waiting := AList.delete cid (nd_waiting nd)\<rparr>
                in case r of
                     None \<Rightarrow> ([Failed cid], nd1)
                   | Some d \<Rightarrow>
                       (let (e, nd2) = entryFor cfg (wt_fk w) nd1
                        in if \<not> d_allowed d \<and> le_credits e < wt_cost w then ([Refused cid d], nd2)
                           else lease_turn cfg cid (wt_fk w) (wt_cost w) (wt_now w) t e nd2))))"

definition refill_reply :: "'z leased \<Rightarrow> nat \<Rightarrow> decision \<Rightarrow> num \<Rightarrow> 'z node \<Rightarrow> 'z node" where
  "refill_reply cfg rid d t nd =
     (case map_of (nd_refills nd) rid of
        None \<Rightarrow> nd
      | Some (fk, amt) \<Rightarrow>
          (let nd1 = note_grant fk d amt
                 (nd\<lparr>nd_refills := AList.delete rid (nd_refills nd), nd_refilled := (rid, fk) # nd_refilled nd\<rparr>)
           in case map_of (nd_entries nd) fk of
                None \<Rightarrow> nd1
              | Some e \<Rightarrow> if lc_windowCoupled cfg \<and> t \<ge> d_resetAt d then nd1 else put fk (credit d amt e) nd1))"

definition refill_reject :: "nat \<Rightarrow> 'z node \<Rightarrow> 'z node" where
  "refill_reject rid nd =
     (case map_of (nd_refills nd) rid of
        None \<Rightarrow> nd
      | Some (fk, amt) \<Rightarrow>
          nd\<lparr>nd_refills := AList.delete rid (nd_refills nd), nd_refilled := (rid, fk) # nd_refilled nd\<rparr>)"

definition refill_free :: "nat \<Rightarrow> 'z node \<Rightarrow> 'z node" where
  "refill_free rid nd =
     (case map_of (nd_refilled nd) rid of
        None \<Rightarrow> nd
      | Some fk \<Rightarrow>
          (let nd1 = nd\<lparr>nd_refilled := AList.delete rid (nd_refilled nd)\<rparr>
           in case map_of (nd_entries nd) fk of
                Some e \<Rightarrow> put fk (e\<lparr>le_refilling := False\<rparr>) nd1
              | None \<Rightarrow> nd1))"

definition return_idle :: "'z leased \<Rightarrow> num \<Rightarrow> 'z node \<Rightarrow> 'z node" where
  "return_idle cfg now nd =
     (case lc_returnIdleAfterMs cfg of
        Some ms \<Rightarrow>
          if ms > 0 then nd\<lparr>nd_entries := filter (\<lambda>(k, e). \<not> (now - le_lastUse e > ms)) (nd_entries nd)\<rparr> else nd
      | None \<Rightarrow> nd)"

definition lease_reset :: "'z leased \<Rightarrow> string \<Rightarrow> 'z node \<Rightarrow> 'z node" where
  "lease_reset cfg key = forget (prefixer (lc_prefix cfg) key)"

datatype event =
    Check string js_number num
  | LeaseReply nat decision
  | LeaseReject nat
  | LeaseFree nat
  | Resume nat num
  | RefillReply nat decision num
  | RefillReject nat
  | RefillFree nat
  | Idle num
  | Reset string

fun lease_step :: "'z leased \<Rightarrow> event \<Rightarrow> 'z node \<Rightarrow> effect list \<times> 'z node" where
  "lease_step cfg (Check key cost now) nd = lease_check cfg key cost now nd"
| "lease_step cfg (LeaseReply lid d) nd = ([], lease_reply lid d nd)"
| "lease_step cfg (LeaseReject lid) nd = ([], lease_reject lid nd)"
| "lease_step cfg (LeaseFree lid) nd = ([], lease_free lid nd)"
| "lease_step cfg (Resume cid t) nd = lease_resume cfg cid t nd"
| "lease_step cfg (RefillReply rid d t) nd = ([], refill_reply cfg rid d t nd)"
| "lease_step cfg (RefillReject rid) nd = ([], refill_reject rid nd)"
| "lease_step cfg (RefillFree rid) nd = ([], refill_free rid nd)"
| "lease_step cfg (Idle now) nd = ([], return_idle cfg now nd)"
| "lease_step cfg (Reset key) nd = ([], lease_reset cfg key nd)"

fun lease_run :: "'z leased \<Rightarrow> event list \<Rightarrow> 'z node \<Rightarrow> effect list \<times> 'z node" where
  "lease_run cfg [] nd = ([], nd)"
| "lease_run cfg (ev # evs) nd =
     (let (out1, nd1) = lease_step cfg ev nd; (out2, nd2) = lease_run cfg evs nd1 in (out1 @ out2, nd2))"

definition lease_checkMany :: "'z leased \<Rightarrow> string list \<Rightarrow> js_number \<Rightarrow> num \<Rightarrow> 'z node \<Rightarrow> effect list \<times> 'z node" where
  "lease_checkMany cfg keys cost now = lease_run cfg (map (\<lambda>k. Check k cost now) keys)"

section \<open>Lemmas: the maps\<close>

lemma map_of_tl: "distinct (map fst m) \<Longrightarrow> map_of (tl m) k = Some v \<Longrightarrow> map_of m k = Some v"
  by (cases m) (auto dest: map_of_SomeD simp: rev_image_eqI)

lemma evict_oldest_sub: "distinct (map fst m) \<Longrightarrow> map_of (evict_oldest n m) k = Some v \<Longrightarrow> map_of m k = Some v"
  unfolding evict_oldest_def by (cases "map_full n m") (simp_all only: if_True if_False map_of_tl)

lemma evict_oldest_distinct: "distinct (map fst m) \<Longrightarrow> distinct (map fst (evict_oldest n m))"
  by (simp add: evict_oldest_def map_tl distinct_tl)

lemma delete_length_le: "length (AList.delete k m) \<le> length m"
  by (simp add: AList.delete_eq)

lemma update_length: "length (AList.update k v m) = (if map_of m k = None then Suc (length m) else length m)"
  by (induction m) auto

definition size_bounded :: "num option \<Rightarrow> ('k \<times> 'v) list \<Rightarrow> bool" where
  "size_bounded maxKeys m = (case maxKeys of None \<Rightarrow> True | Some n \<Rightarrow> of_nat (length m) \<le> max 1 (js_ceil n))"

lemma size_bounded_mono: "size_bounded n m \<Longrightarrow> length m' \<le> length m \<Longrightarrow> size_bounded n m'"
  by (auto simp: size_bounded_def split: option.splits)

lemma size_bounded_evict:
  assumes "size_bounded n m"
  shows "size_bounded n (AList.update k v (evict_oldest n m))"
proof (cases n)
  case (Some x)
  have len: "length (AList.update k v (evict_oldest n m)) \<le> Suc (length (evict_oldest n m))" by (simp add: update_length)
  show ?thesis
  proof (cases "of_nat (length m) \<ge> x")
    case True
    then have "length (evict_oldest n m) = length m - 1" using Some by (simp add: evict_oldest_def map_full_def)
    then show ?thesis using assms len Some by (cases m) (auto simp: size_bounded_def)
  next
    case False
    then have "int (length m) < \<lceil>x\<rceil>" by (simp add: less_ceiling_iff)
    then have "of_int (int (length m) + 1) \<le> js_ceil x" unfolding js_ceil_def by (simp only: of_int_le_iff)
    moreover have "evict_oldest n m = m" using False Some by (simp add: evict_oldest_def map_full_def)
    ultimately show ?thesis using len Some by (simp add: size_bounded_def)
  qed
qed (simp add: size_bounded_def)

lemma size_bounded_present: "size_bounded n m \<Longrightarrow> map_of m k \<noteq> None \<Longrightarrow> size_bounded n (AList.update k v m)"
  by (erule size_bounded_mono) (auto simp: update_length)

lemma size_bounded_Nil [simp]: "size_bounded n []"
  by (auto simp: size_bounded_def le_max_iff_disj split: option.split)

section \<open>Lemmas: cached denials\<close>

text \<open>
  A history of the replies of the store, as (key, time of the check, reply). Every cached denial is one
  of them.
\<close>

definition deny_ok :: "(string \<times> num \<times> decision) set \<Rightarrow> deny_cache \<Rightarrow> bool" where
  "deny_ok hist m \<longleftrightarrow> distinct (map fst m) \<and>
     (\<forall>fk e. map_of m fk = Some e \<longrightarrow>
        (\<exists>t d. (fk, t, d) \<in> hist \<and> \<not> d_allowed d \<and> dn_until e = t + d_retryAfterMs d \<and> dn_decision e = d))"

datatype deny_event = DCheck string js_number num | DReply string num decision | DReset string

fun deny_step :: "string option \<Rightarrow> num option \<Rightarrow> deny_event \<Rightarrow> deny_cache \<Rightarrow> deny_cache" where
  "deny_step p n (DCheck key cost now) m = (case deny_check p m key cost now of Inr (_, m') \<Rightarrow> m' | Inl _ \<Rightarrow> m)"
| "deny_step p n (DReply fk now d) m = deny_reply n m fk now d"
| "deny_step p n (DReset key) m = deny_reset p m key"

fun deny_log :: "deny_event \<Rightarrow> (string \<times> num \<times> decision) set" where
  "deny_log (DReply fk now d) = {(fk, now, d)}"
| "deny_log _ = {}"

lemma deny_ok_delete: "deny_ok hist m \<Longrightarrow> deny_ok hist (AList.delete k m)"
  by (auto simp: deny_ok_def delete_conv distinct_delete)

lemma deny_check_cache: "deny_check p m key cost now = Inr (r, m') \<Longrightarrow> m' = m \<or> (\<exists>k. m' = AList.delete k m)"
  by (auto simp: deny_check_def rbind_eq_Inr Let_def split: option.splits if_splits)

lemma deny_step_ok:
  assumes "deny_ok hist m"
  shows "deny_ok (hist \<union> deny_log ev) (deny_step p n ev m)"
proof (cases ev)
  case (DCheck key cost now)
  then show ?thesis using assms by (auto dest!: deny_check_cache simp: deny_ok_delete split: sum.split)
next
  case (DReply fk now d)
  have 1: "distinct (map fst m)" using assms by (simp add: deny_ok_def)
  let ?m = "evict_oldest n m"
  have "\<exists>t d'. (fk', t, d') \<in> hist \<union> {(fk, now, d)} \<and> \<not> d_allowed d' \<and> dn_until e = t + d_retryAfterMs d' \<and> dn_decision e = d'"
    if "map_of (AList.update fk \<lparr>dn_until = now + d_retryAfterMs d, dn_decision = d\<rparr> ?m) fk' = Some e" "\<not> d_allowed d" for fk' e
  proof (cases "fk' = fk")
    case False
    then have "map_of ?m fk' = Some e" using that(1) by (simp add: update_conv)
    then have "map_of m fk' = Some e" by (rule evict_oldest_sub[OF 1])
    then show ?thesis using assms unfolding deny_ok_def by blast
  qed (use that in \<open>auto simp: update_conv\<close>)
  moreover have "deny_ok (hist \<union> {(fk, now, d)}) m" using assms unfolding deny_ok_def by blast
  ultimately show ?thesis
    using evict_oldest_distinct[OF 1, of n] by (simp add: DReply deny_reply_def deny_ok_def distinct_update)
next
  case (DReset key)
  then show ?thesis using assms by (simp add: deny_reset_def deny_ok_delete)
qed

lemma deny_step_size: "size_bounded n m \<Longrightarrow> size_bounded n (deny_step p n ev m)"
  by (cases ev)
    (auto simp: deny_reset_def deny_reply_def delete_length_le size_bounded_evict
       intro: size_bounded_mono dest!: deny_check_cache split: sum.split)

lemma deny_run_ok:
  "deny_ok hist m \<Longrightarrow> size_bounded n m \<Longrightarrow>
   deny_ok (hist \<union> \<Union> (deny_log ` set evs)) (fold (deny_step p n) evs m) \<and> size_bounded n (fold (deny_step p n) evs m)"
proof (induction evs arbitrary: hist m)
  case (Cons ev evs)
  from Cons.IH[OF deny_step_ok[OF Cons.prems(1), of ev p n] deny_step_size[OF Cons.prems(2)]] show ?case
    by (simp add: Un_assoc)
qed simp

text \<open>
  The remembered denial does not record its cost: when five tokens were refused, one is refused locally
  although the store would allow it.
\<close>

lemma deny_ignores_cost:
  assumes "\<not> d_allowed d" "d_retryAfterMs d = 2000"
  shows "\<exists>r. deny_check None (deny_reply None [] ''k'' 0 d) ''k'' (Num 1) 100 = Inr (Local r, deny_reply None [] ''k'' 0 d)
           \<and> \<not> d_allowed r"
  using assms by (simp add: deny_check_def deny_reply_def requireCost_def max_safe_integer_def prefixer_def evict_oldest_def map_full_def)

section \<open>Lemmas: conservation of leases\<close>

definition lease_cfg_ok :: "'z leased \<Rightarrow> bool" where
  "lease_cfg_ok cfg \<longleftrightarrow> 0 \<le> lc_batch cfg"

definition lease_entry_ok :: "'z lease_entry \<Rightarrow> bool" where
  "lease_entry_ok e \<longleftrightarrow> 0 \<le> le_credits e \<and> (0 < le_credits e \<longrightarrow> le_lastDecision e \<noteq> None)"

text \<open>What is admitted and what is still held never exceeds what the store granted, for each key.\<close>

definition lease_inv :: "'z leased \<Rightarrow> 'z node \<Rightarrow> bool" where
  "lease_inv cfg nd \<longleftrightarrow>
     distinct (map fst (nd_entries nd)) \<and> size_bounded (lc_maxKeys cfg) (nd_entries nd) \<and>
     (\<forall>fk. nd_served nd fk \<le> nd_granted nd fk) \<and>
     (\<forall>fk e. map_of (nd_entries nd) fk = Some e \<longrightarrow>
        lease_entry_ok e \<and> nd_served nd fk + le_credits e \<le> nd_granted nd fk) \<and>
     (\<forall>(l, k, a)\<in>set (nd_flight nd). 0 \<le> a) \<and> (\<forall>(l, k, a)\<in>set (nd_refills nd). 0 \<le> a)"

lemma lease_inv_new: "lease_inv cfg node_new"
  by (simp add: lease_inv_def node_new_def)

lemma lease_invD:
  assumes "lease_inv cfg nd"
  shows "distinct (map fst (nd_entries nd))" "size_bounded (lc_maxKeys cfg) (nd_entries nd)"
    "nd_served nd fk \<le> nd_granted nd fk"
    "map_of (nd_entries nd) fk = Some e \<Longrightarrow> lease_entry_ok e \<and> nd_served nd fk + le_credits e \<le> nd_granted nd fk"
    "(l, k, a) \<in> set (nd_flight nd) \<Longrightarrow> 0 \<le> a" "(l, k, a) \<in> set (nd_refills nd) \<Longrightarrow> 0 \<le> a"
  using assms unfolding lease_inv_def by blast+

text \<open>Replacing the entry of a live key.\<close>

lemma lease_inv_put:
  assumes "lease_inv cfg nd" "map_of (nd_entries nd) fk \<noteq> None" "lease_entry_ok e"
    "nd_served nd fk + le_credits e \<le> nd_granted nd fk"
  shows "lease_inv cfg (put fk e nd)"
  using assms(1,3,4) size_bounded_present[OF _ assms(2)]
  by (auto simp: lease_inv_def put_def distinct_update update_conv)

lemma put_simps [simp]:
  "map_of (nd_entries (put fk e nd)) k = (if k = fk then Some e else map_of (nd_entries nd) k)"
  "nd_flight (put fk e nd) = nd_flight nd" "nd_settled (put fk e nd) = nd_settled nd"
  "nd_refills (put fk e nd) = nd_refills nd" "nd_refilled (put fk e nd) = nd_refilled nd"
  "nd_waiting (put fk e nd) = nd_waiting nd" "nd_next (put fk e nd) = nd_next nd"
  "nd_granted (put fk e nd) = nd_granted nd" "nd_served (put fk e nd) = nd_served nd"
  by (simp_all add: put_def update_conv')

text \<open>The steps that only move a promise between lists.\<close>

lemma lease_inv_lists [simp]:
  "lease_inv cfg (nd\<lparr>nd_next := n\<rparr>) = lease_inv cfg nd"
  "lease_inv cfg (nd\<lparr>nd_settled := x\<rparr>) = lease_inv cfg nd"
  "lease_inv cfg (nd\<lparr>nd_refilled := y\<rparr>) = lease_inv cfg nd"
  "lease_inv cfg (nd\<lparr>nd_waiting := w\<rparr>) = lease_inv cfg nd"
  by (simp_all add: lease_inv_def)

lemma lease_inv_flight:
  "lease_inv cfg nd \<Longrightarrow> 0 \<le> a \<Longrightarrow> lease_inv cfg (nd\<lparr>nd_flight := (l, k, a) # nd_flight nd\<rparr>)"
  "lease_inv cfg nd \<Longrightarrow> lease_inv cfg (nd\<lparr>nd_flight := AList.delete l (nd_flight nd)\<rparr>)"
  "lease_inv cfg nd \<Longrightarrow> 0 \<le> a \<Longrightarrow> lease_inv cfg (nd\<lparr>nd_refills := (l, k, a) # nd_refills nd\<rparr>)"
  "lease_inv cfg nd \<Longrightarrow> lease_inv cfg (nd\<lparr>nd_refills := AList.delete l (nd_refills nd)\<rparr>)"
  by (auto simp: lease_inv_def AList.delete_eq)

lemma lease_inv_fewer:
  assumes "lease_inv cfg nd" "distinct (map fst es)" "length es \<le> length (nd_entries nd)"
    "\<And>k e. map_of es k = Some e \<Longrightarrow> map_of (nd_entries nd) k = Some e"
  shows "lease_inv cfg (nd\<lparr>nd_entries := es\<rparr>)"
  using assms(1,2) assms(4) size_bounded_mono[OF lease_invD(2)[OF assms(1)] assms(3)]
  unfolding lease_inv_def by (simp del: map_of_eq_Some_iff) blast

lemma lease_inv_forget: "lease_inv cfg nd \<Longrightarrow> lease_inv cfg (forget fk nd)"
  unfolding forget_def
  by (rule lease_inv_fewer)
    (auto simp: distinct_delete lease_invD(1) delete_length_le delete_conv split: if_splits)

lemma new_entry_ok [simp]: "lease_entry_ok (new_entry cfg)" "le_credits (new_entry cfg) = 0" "le_pending (new_entry cfg) = None"
  by (simp_all add: new_entry_def lease_entry_ok_def)

lemma entryFor_inv:
  assumes "lease_inv cfg nd" "entryFor cfg fk nd = (e, nd')"
  shows "lease_inv cfg nd'" "map_of (nd_entries nd') fk = Some e"
proof -
  have "lease_inv cfg nd' \<and> map_of (nd_entries nd') fk = Some e"
  proof (cases "map_of (nd_entries nd) fk")
    case None
    let ?es = "evict_oldest (lc_maxKeys cfg) (nd_entries nd)"
    note d = lease_invD(1)[OF assms(1)]
    have "length ?es \<le> length (nd_entries nd)" by (simp add: evict_oldest_def)
    then have 1: "lease_inv cfg (nd\<lparr>nd_entries := ?es\<rparr>)"
      by (rule lease_inv_fewer[OF assms(1) evict_oldest_distinct[OF d]]) (rule evict_oldest_sub[OF d])
    have "lease_inv cfg (put fk (new_entry cfg) (nd\<lparr>nd_entries := ?es\<rparr>))"
      using 1 size_bounded_evict[OF lease_invD(2)[OF assms(1)], of fk "new_entry cfg"] lease_invD(3)[OF assms(1)]
      by (auto simp: lease_inv_def put_def distinct_update update_conv)
    then show ?thesis using assms(2) None by (auto simp: entryFor_def)
  qed (use assms in \<open>auto simp: entryFor_def\<close>)
  then show "lease_inv cfg nd'" "map_of (nd_entries nd') fk = Some e" by auto
qed

lemma leaseSizeFor_nonneg: "lease_cfg_ok cfg \<Longrightarrow> 0 \<le> leaseSizeFor cfg e"
  by (auto simp: leaseSizeFor_def lease_cfg_ok_def split: option.split)

lemma maybeRefill_inv:
  assumes "lease_cfg_ok cfg" "lease_inv cfg nd" "map_of (nd_entries nd) fk = Some e" "maybeRefill cfg fk e t nd = (cs, nd')"
  shows "lease_inv cfg nd'"
proof (cases "lc_lowWater cfg \<le> 0 \<or> le_credits e > lc_lowWater cfg \<or> le_refilling e")
  case False
  have "lease_inv cfg (nd\<lparr>nd_refills := (nd_next nd, fk, leaseSizeFor cfg e) # nd_refills nd\<rparr>)"
    by (rule lease_inv_flight(3)[OF assms(2) leaseSizeFor_nonneg[OF assms(1)]])
  then have "lease_inv cfg (nd\<lparr>nd_refills := (nd_next nd, fk, leaseSizeFor cfg e) # nd_refills nd, nd_next := Suc (nd_next nd)\<rparr>)"
    by simp
  then show ?thesis
    using assms(3,4) False lease_invD(4)[OF assms(2,3)]
    by (auto simp: maybeRefill_def Let_def lease_entry_ok_def intro!: lease_inv_put)
qed (use assms in \<open>simp add: maybeRefill_def\<close>)

lemma lease_turn_inv:
  assumes "lease_cfg_ok cfg" "lease_inv cfg nd" "map_of (nd_entries nd) fk = Some e" "0 < cost"
  shows "lease_inv cfg (snd (lease_turn cfg cid fk cost now t e nd))"
proof (cases "le_credits e \<ge> cost")
  case True
  let ?e = "take_credits cost e"
  let ?nd = "note_served fk cost (put fk ?e nd)"
  note j = lease_invD(4)[OF assms(2,3)]
  have e: "lease_entry_ok ?e" "nd_served nd fk + cost + le_credits ?e \<le> nd_granted nd fk"
    using j True assms(4) by (auto simp: lease_entry_ok_def take_credits_def)
  have "lease_inv cfg (put fk ?e nd)"
    using assms(3) e j assms(4) by (intro lease_inv_put[OF assms(2)]) auto
  then have "lease_inv cfg ?nd"
    using e unfolding lease_inv_def by (auto simp: lease_entry_ok_def note_served_def)
  moreover have "map_of (nd_entries ?nd) fk = Some ?e" by (simp add: note_served_def)
  moreover obtain cs nd' where r: "maybeRefill cfg fk ?e t ?nd = (cs, nd')" by (cases "maybeRefill cfg fk ?e t ?nd")
  ultimately have "lease_inv cfg nd'" by (rule maybeRefill_inv[OF assms(1)])
  moreover have "snd (lease_turn cfg cid fk cost now t e nd) = nd'" using True by (simp add: lease_turn_def Let_def r)
  ultimately show ?thesis by simp
next
  case False
  show ?thesis
  proof (cases "le_pending e")
    case None
    let ?amt = "max (leaseSizeFor cfg e) cost"
    have "lease_inv cfg (nd\<lparr>nd_flight := (nd_next nd, fk, ?amt) # nd_flight nd\<rparr>)"
      by (rule lease_inv_flight(1)[OF assms(2)]) (use assms(4) in simp)
    then have "lease_inv cfg (nd\<lparr>nd_flight := (nd_next nd, fk, ?amt) # nd_flight nd, nd_next := Suc (nd_next nd), nd_waiting := w\<rparr>)" for w
      by simp
    then show ?thesis
      using False None assms(3) lease_invD(4)[OF assms(2,3)]
      by (auto simp: lease_turn_def Let_def lease_entry_ok_def intro!: lease_inv_put)
  qed (use False assms(2) in \<open>simp add: lease_turn_def\<close>)
qed

lemma learn_window_simps [simp]:
  "le_credits (learn_window cfg now e) = le_credits e" "le_lastDecision (learn_window cfg now e) = le_lastDecision e"
  "le_pending (learn_window cfg now e) = le_pending e"
  by (simp_all add: learn_window_def split: option.split)

lemma expire_credits_le:
  "lease_entry_ok e \<Longrightarrow> lease_entry_ok (expire_credits cfg now e) \<and> le_credits (expire_credits cfg now e) \<le> le_credits e"
  by (auto simp: expire_credits_def lease_entry_ok_def split: option.split)

lemma lease_enter_le:
  assumes "lease_entry_ok e"
  shows "lease_entry_ok (lease_enter cfg now e) \<and> le_credits (lease_enter cfg now e) \<le> le_credits e"
proof -
  have "lease_entry_ok (learn_window cfg now (e\<lparr>le_lastUse := now\<rparr>))" using assms by (simp add: lease_entry_ok_def)
  from expire_credits_le[OF this, of cfg now] show ?thesis by (simp add: lease_enter_def)
qed

lemma lease_check_cases:
  obtains (error) "lease_check cfg key cost now nd = ([Failed (nd_next nd)], nd\<lparr>nd_next := Suc (nd_next nd)\<rparr>)"
  | (turn) c e0 nd1 where "requireCost cost = Inr c"
      "entryFor cfg (prefixer (lc_prefix cfg) key) (nd\<lparr>nd_next := Suc (nd_next nd)\<rparr>) = (e0, nd1)"
      "lease_check cfg key cost now nd = lease_turn cfg (nd_next nd) (prefixer (lc_prefix cfg) key) c now now
        (lease_enter cfg now e0) (put (prefixer (lc_prefix cfg) key) (lease_enter cfg now e0) nd1)"
proof (cases "requireCost cost")
  case (Inr c)
  let ?ef = "entryFor cfg (prefixer (lc_prefix cfg) key) (nd\<lparr>nd_next := Suc (nd_next nd)\<rparr>)"
  show ?thesis by (rule turn[OF Inr, of "fst ?ef" "snd ?ef"]) (simp_all add: lease_check_def Let_def Inr split: prod.split)
qed (simp add: error lease_check_def Let_def)

lemma lease_check_inv:
  assumes "lease_cfg_ok cfg" "lease_inv cfg nd"
  shows "lease_inv cfg (snd (lease_check cfg key cost now nd))"
proof (rule lease_check_cases[of cfg key cost now nd])
  fix c e0 nd1
  let ?fk = "prefixer (lc_prefix cfg) key"
  assume c: "requireCost cost = Inr c" and ef: "entryFor cfg ?fk (nd\<lparr>nd_next := Suc (nd_next nd)\<rparr>) = (e0, nd1)"
    and eq: "lease_check cfg key cost now nd = lease_turn cfg (nd_next nd) ?fk c now now
      (lease_enter cfg now e0) (put ?fk (lease_enter cfg now e0) nd1)"
  have "lease_inv cfg (nd\<lparr>nd_next := Suc (nd_next nd)\<rparr>)" using assms(2) by simp
  note i = entryFor_inv[OF this ef]
  have "lease_inv cfg (put ?fk (lease_enter cfg now e0) nd1)"
    using lease_enter_le[of e0 cfg now] lease_invD(4)[OF i] i by (intro lease_inv_put) auto
  then show ?thesis
    unfolding eq using c by (intro lease_turn_inv[OF assms(1)]) (simp_all add: requireCost_Inr)
qed (use assms in simp)

lemma note_grant_simps [simp]:
  "nd_entries (note_grant fk d a nd) = nd_entries nd" "nd_flight (note_grant fk d a nd) = nd_flight nd"
  "nd_refills (note_grant fk d a nd) = nd_refills nd" "nd_settled (note_grant fk d a nd) = nd_settled nd"
  "nd_refilled (note_grant fk d a nd) = nd_refilled nd" "nd_waiting (note_grant fk d a nd) = nd_waiting nd"
  "nd_next (note_grant fk d a nd) = nd_next nd" "nd_served (note_grant fk d a nd) = nd_served nd"
  "nd_granted (note_grant fk d a nd) k = nd_granted nd k + (if d_allowed d \<and> k = fk then a else 0)"
  by (simp_all add: note_grant_def)

lemma note_grant_inv: "lease_inv cfg nd \<Longrightarrow> 0 \<le> a \<Longrightarrow> lease_inv cfg (note_grant fk d a nd)"
  unfolding lease_inv_def by (auto intro: add_increasing2)

lemma credit_put_inv:
  assumes "lease_inv cfg nd" "map_of (nd_entries nd) fk = Some e" "0 \<le> a"
  shows "lease_inv cfg (put fk (credit d a e) (note_grant fk d a nd))"
  using lease_invD(4)[OF assms(1,2)] assms note_grant_inv[OF assms(1,3)]
  by (intro lease_inv_put) (auto simp: credit_def lease_entry_ok_def)

definition waiting_ok :: "'z node \<Rightarrow> bool" where
  "waiting_ok nd \<longleftrightarrow> (\<forall>(c, w)\<in>set (nd_waiting nd). 0 < wt_cost w)"

lemma lease_reply_inv: "lease_inv cfg nd \<Longrightarrow> lease_inv cfg (lease_reply lid d nd)"
  using credit_put_inv[of cfg "nd\<lparr>nd_flight := AList.delete lid (nd_flight nd), nd_settled := _\<rparr>"]
    note_grant_inv[of cfg "nd\<lparr>nd_flight := AList.delete lid (nd_flight nd), nd_settled := _\<rparr>"]
  by (auto simp: lease_reply_def Let_def lease_inv_flight lease_invD(5) dest!: map_of_SomeD[of "nd_flight nd"] split: option.split)

lemma refill_reply_inv: "lease_inv cfg nd \<Longrightarrow> lease_inv cfg (refill_reply cfg rid d t nd)"
  using credit_put_inv[of cfg "nd\<lparr>nd_refills := AList.delete rid (nd_refills nd), nd_refilled := _\<rparr>"]
    note_grant_inv[of cfg "nd\<lparr>nd_refills := AList.delete rid (nd_refills nd), nd_refilled := _\<rparr>"]
  by (auto simp: refill_reply_def Let_def lease_inv_flight lease_invD(6) dest!: map_of_SomeD[of "nd_refills nd"] split: option.split)

lemma return_idle_inv: "lease_inv cfg nd \<Longrightarrow> lease_inv cfg (return_idle cfg t nd)"
  by (auto simp: return_idle_def lease_invD(1) distinct_map_filter intro!: lease_inv_fewer split: option.split)

lemma lease_free_inv: "lease_inv cfg nd \<Longrightarrow> lease_inv cfg (lease_free lid nd)"
  by (auto simp: lease_free_def lease_entry_ok_def intro!: lease_inv_put dest: lease_invD(4) split: option.split)

lemma refill_free_inv:
  assumes "lease_inv cfg nd"
  shows "lease_inv cfg (refill_free rid nd)"
proof -
  have "lease_inv cfg (nd\<lparr>nd_refilled := x\<rparr>)" for x using assms by simp
  from lease_inv_put[OF this] show ?thesis
    using assms lease_invD(4)[OF assms] by (auto simp: refill_free_def Let_def lease_entry_ok_def split: option.split)
qed

lemma reject_inv:
  "lease_inv cfg nd \<Longrightarrow> lease_inv cfg (lease_reject lid nd)" "lease_inv cfg nd \<Longrightarrow> lease_inv cfg (refill_reject lid nd)"
  by (auto simp: lease_reject_def refill_reject_def lease_inv_flight split: option.split)

lemma waiting_ok_mono: "waiting_ok nd \<Longrightarrow> set (nd_waiting nd') \<subseteq> set (nd_waiting nd) \<Longrightarrow> waiting_ok nd'"
  by (auto simp: waiting_ok_def)

lemma entryFor_frame:
  assumes "entryFor cfg fk nd = (e, nd')"
  shows "nd_waiting nd' = nd_waiting nd" "nd_flight nd' = nd_flight nd" "nd_settled nd' = nd_settled nd"
    "nd_refills nd' = nd_refills nd" "nd_next nd' = nd_next nd"
  using assms by (auto simp: entryFor_def split: option.splits)

lemma maybeRefill_waiting: "nd_waiting (snd (maybeRefill cfg fk e t nd)) = nd_waiting nd"
  by (simp add: maybeRefill_def Let_def)

lemma lease_turn_waiting:
  "0 < cost \<Longrightarrow> waiting_ok nd \<Longrightarrow> waiting_ok (snd (lease_turn cfg cid fk cost now t e nd))"
  using maybeRefill_waiting[of cfg fk "take_credits cost e" t "note_served fk cost (put fk (take_credits cost e) nd)"]
  by (auto simp: lease_turn_def Let_def waiting_ok_def note_served_def split: option.split prod.split)

lemma lease_check_waiting: "waiting_ok nd \<Longrightarrow> waiting_ok (snd (lease_check cfg key cost now nd))"
proof (rule lease_check_cases[of cfg key cost now nd])
  fix c e0 nd1
  let ?fk = "prefixer (lc_prefix cfg) key"
  assume w: "waiting_ok nd" and c: "requireCost cost = Inr c"
    and ef: "entryFor cfg ?fk (nd\<lparr>nd_next := Suc (nd_next nd)\<rparr>) = (e0, nd1)"
    and eq: "lease_check cfg key cost now nd = lease_turn cfg (nd_next nd) ?fk c now now
      (lease_enter cfg now e0) (put ?fk (lease_enter cfg now e0) nd1)"
  have "waiting_ok (put ?fk (lease_enter cfg now e0) nd1)" using w entryFor_frame(1)[OF ef] by (simp add: waiting_ok_def)
  then show "waiting_ok (snd (lease_check cfg key cost now nd))"
    unfolding eq using c by (intro lease_turn_waiting) (simp_all add: requireCost_Inr)
qed (simp add: waiting_ok_def)

lemma lease_resume_ok:
  assumes "lease_cfg_ok cfg" "lease_inv cfg nd" "waiting_ok nd"
  shows "lease_inv cfg (snd (lease_resume cfg cid t nd)) \<and> waiting_ok (snd (lease_resume cfg cid t nd))"
proof (cases "map_of (nd_waiting nd) cid")
  case (Some w)
  then have c: "0 < wt_cost w" using assms(3) by (auto simp: waiting_ok_def dest!: map_of_SomeD)
  let ?nd = "nd\<lparr>nd_waiting := AList.delete cid (nd_waiting nd)\<rparr>"
  have n: "lease_inv cfg ?nd" "waiting_ok ?nd"
    using assms by (auto simp: waiting_ok_def AList.delete_eq)
  obtain e nd2 where ef: "entryFor cfg (wt_fk w) ?nd = (e, nd2)" by (cases "entryFor cfg (wt_fk w) ?nd")
  note i = entryFor_inv[OF n(1) ef]
  have w2: "waiting_ok nd2" using n(2) entryFor_frame(1)[OF ef] by (simp add: waiting_ok_def)
  show ?thesis
    using assms(2,3) n i w2 lease_turn_inv[OF assms(1) i c] lease_turn_waiting[OF c w2]
    by (auto simp: lease_resume_def Some ef Let_def split: option.split)
qed (use assms in \<open>simp add: lease_resume_def\<close>)

lemma step_waiting [simp]:
  "nd_waiting (lease_reply lid d nd) = nd_waiting nd" "nd_waiting (lease_reject lid nd) = nd_waiting nd"
  "nd_waiting (lease_free lid nd) = nd_waiting nd" "nd_waiting (refill_reply cfg rid d t nd) = nd_waiting nd"
  "nd_waiting (refill_reject rid nd) = nd_waiting nd" "nd_waiting (refill_free rid nd) = nd_waiting nd"
  "nd_waiting (return_idle cfg now nd) = nd_waiting nd" "nd_waiting (lease_reset cfg key nd) = nd_waiting nd"
  by (auto simp: lease_reply_def lease_reject_def lease_free_def refill_reply_def refill_reject_def refill_free_def
    return_idle_def lease_reset_def forget_def Let_def split: option.split)

lemma waiting_ok_cong: "waiting_ok nd \<Longrightarrow> nd_waiting nd' = nd_waiting nd \<Longrightarrow> waiting_ok nd'"
  by (simp add: waiting_ok_def)

lemma lease_step_inv:
  assumes "lease_cfg_ok cfg" "lease_inv cfg nd" "waiting_ok nd"
  shows "lease_inv cfg (snd (lease_step cfg ev nd))" "waiting_ok (snd (lease_step cfg ev nd))"
  by (cases ev; use assms in \<open>simp add: lease_check_inv lease_resume_ok lease_reply_inv refill_reply_inv reject_inv
      lease_free_inv refill_free_inv return_idle_inv lease_inv_forget lease_reset_def\<close>)
    (cases ev; use assms in \<open>simp add: lease_check_waiting lease_resume_ok waiting_ok_cong[OF assms(3)]\<close>)

lemma lease_run_snd: "snd (lease_run cfg (ev # evs) nd) = snd (lease_run cfg evs (snd (lease_step cfg ev nd)))"
  by (simp add: Let_def split: prod.split)

lemma lease_run_inv:
  "lease_cfg_ok cfg \<Longrightarrow> lease_inv cfg nd \<Longrightarrow> waiting_ok nd \<Longrightarrow>
   lease_inv cfg (snd (lease_run cfg evs nd)) \<and> waiting_ok (snd (lease_run cfg evs nd))"
proof (induction evs arbitrary: nd)
  case (Cons ev evs)
  show ?case unfolding lease_run_snd by (rule Cons.IH) (use Cons.prems lease_step_inv in auto)
qed simp

lemma waiting_ok_new [simp]: "waiting_ok node_new"
  by (simp add: waiting_ok_def node_new_def)

lemma requireBatch_nonneg: "requireBatch z b = Inr x \<Longrightarrow> 0 \<le> x"
  by (auto simp: requireBatch_def requireAtLeast_Inr split: option.splits if_splits)

lemma twoTier_leased_ok: "twoTier_leased limit ttl p n lease = Inr cfg \<Longrightarrow> lease_cfg_ok cfg"
  by (auto simp: twoTier_leased_def lease_cfg_ok_def rbind_eq_Inr dest: requireBatch_nonneg split: option.splits)

lemma twoTier_run_inv:
  assumes "twoTier_leased limit ttl p n lease = Inr cfg" "lease_run cfg evs node_new = (fx, nd)"
  shows "lease_inv cfg nd"
  using lease_run_inv[OF twoTier_leased_ok[OF assms(1)] lease_inv_new waiting_ok_new, of evs] assms(2) by simp

text \<open>A check answered without waiting spends a credit of the running window.\<close>

lemma maybeRefill_calls: "Served cid d \<notin> set (fst (maybeRefill cfg fk e t nd))"
  by (simp add: maybeRefill_def Let_def)

lemma lease_turn_Served:
  "Served c d \<in> set (fst (lease_turn cfg cid fk cost now t e nd)) \<longleftrightarrow>
   c = cid \<and> le_credits e \<ge> cost \<and> d = synthAllow cfg (take_credits cost e) now"
  using maybeRefill_calls[of c d cfg fk "take_credits cost e" t "note_served fk cost (put fk (take_credits cost e) nd)"]
  by (auto simp: lease_turn_def Let_def split: option.split prod.split)

lemma expired_or_running:
  assumes "lease_entry_ok e" "lc_windowCoupled cfg" "0 < le_credits (expire_credits cfg now e)"
  shows "\<exists>d. le_lastDecision (expire_credits cfg now e) = Some d \<and> now < d_resetAt d"
  using assms by (auto simp: expire_credits_def lease_entry_ok_def split: option.splits if_splits)

lemma lease_check_window:
  assumes "lease_inv cfg nd" "lc_windowCoupled cfg" "Served c d \<in> set (fst (lease_check cfg key cost now nd))"
  shows "now < d_resetAt d"
proof (rule lease_check_cases[of cfg key cost now nd])
  fix c1 e0 nd1
  let ?fk = "prefixer (lc_prefix cfg) key"
  let ?e = "learn_window cfg now (e0\<lparr>le_lastUse := now\<rparr>)"
  assume c: "requireCost cost = Inr c1" and ef: "entryFor cfg ?fk (nd\<lparr>nd_next := Suc (nd_next nd)\<rparr>) = (e0, nd1)"
    and eq: "lease_check cfg key cost now nd = lease_turn cfg (nd_next nd) ?fk c1 now now
      (lease_enter cfg now e0) (put ?fk (lease_enter cfg now e0) nd1)"
  have "lease_inv cfg (nd\<lparr>nd_next := Suc (nd_next nd)\<rparr>)" using assms(1) by simp
  note i = entryFor_inv[OF this ef]
  have ok: "lease_entry_ok ?e" using lease_invD(4)[OF i] by (simp add: lease_entry_ok_def)
  from assms(3) c have k: "0 < c1" "le_credits (expire_credits cfg now ?e) \<ge> c1"
    "d = synthAllow cfg (take_credits c1 (expire_credits cfg now ?e)) now"
    by (auto simp: eq lease_turn_Served requireCost_Inr lease_enter_def)
  from expired_or_running[OF ok assms(2), of now] k show ?thesis by (auto simp: synthAllow_def take_credits_def)
qed (use assms in simp)

text \<open>
  A waiting check is not protected: two checks share a lease of the window that ends at \<open>1000\<close>, the second
  entered at \<open>1005\<close>, and the reply arrives after that. It is admitted on the old window's budget.
\<close>

lemma lease_crosses_window:
  fixes cfg :: "unit leased"
  assumes "cfg = \<lparr>lc_limit = 10, lc_ttlMs = 1000, lc_prefix = None, lc_maxKeys = None, lc_batch = 10, lc_sizer = None,
      lc_lowWater = 0, lc_returnIdleAfterMs = None, lc_windowCoupled = True\<rparr>"
    "d = \<lparr>d_allowed = True, d_limit = 10, d_remaining = 0, d_resetAt = 1000, d_retryAfterMs = 0\<rparr>"
  shows "\<exists>r. fst (lease_run cfg [Check ''k'' (Num 1) 990, Check ''k'' (Num 1) 1005, LeaseReply 1 d, Resume 2 1010] node_new)
       = [Apply 1 ''k'' 990 10, Served 2 r] \<and> d_resetAt r = 1000"
  unfolding assms
  by (simp add: node_new_def lease_check_def requireCost_def max_safe_integer_def prefixer_def entryFor_def new_entry_def put_def lease_enter_def
    evict_oldest_def map_full_def learn_window_def expire_credits_def lease_turn_def leaseSizeFor_def lease_reply_def credit_def
    note_grant_def lease_resume_def take_credits_def note_served_def maybeRefill_def synthAllow_def Let_def)

text \<open>
  Nor are old credits discarded when a refill of the next window arrives first: it replaces the decision whose reset
  time would have expired them. Nine credits of the window that ends at \<open>1000\<close> are left; the refill asked for at
  \<open>991\<close> is granted ten in the next window; after it a check of cost 15 is admitted in that window.
\<close>

lemmas lease_eval = node_new_def lease_check_def requireCost_def max_safe_integer_def prefixer_def entryFor_def new_entry_def put_def
  lease_enter_def evict_oldest_def map_full_def learn_window_def expire_credits_def lease_turn_def leaseSizeFor_def lease_reply_def
  credit_def note_grant_def lease_resume_def take_credits_def note_served_def maybeRefill_def synthAllow_def lease_free_def
  refill_reply_def Let_def

lemma refill_keeps_old_credits:
  fixes cfg :: "unit leased"
  assumes "cfg = \<lparr>lc_limit = 10, lc_ttlMs = 1000, lc_prefix = None, lc_maxKeys = None, lc_batch = 10, lc_sizer = None,
      lc_lowWater = 9, lc_returnIdleAfterMs = None, lc_windowCoupled = True\<rparr>"
    "d = \<lparr>d_allowed = True, d_limit = 10, d_remaining = 0, d_resetAt = 1000, d_retryAfterMs = 0\<rparr>"
    "d' = \<lparr>d_allowed = True, d_limit = 10, d_remaining = 0, d_resetAt = 2000, d_retryAfterMs = 0\<rparr>"
  shows "\<exists>r r'. fst (lease_run cfg [Check ''k'' (Num 1) 990, LeaseReply 1 d, LeaseFree 1, Resume 0 991, RefillReply 2 d' 1001,
         Check ''k'' (Num 15) 1002] node_new)
       = [Apply 1 ''k'' 990 10, Apply 2 ''k'' 991 10, Served 0 r, Served 3 r'] \<and> d_resetAt r = 1000 \<and> d_resetAt r' = 2000"
  unfolding assms by (simp add: lease_eval)

section \<open>Lemmas: one lease in flight per key\<close>

definition outstanding :: "'z node \<Rightarrow> string \<Rightarrow> num" where
  "outstanding nd fk = (\<Sum>(l, k, a)\<leftarrow>nd_flight nd. if k = fk then a else 0)"

text \<open>On-demand leasing of fixed batches with no eviction; \<open>C\<close> bounds the costs.\<close>

definition on_demand :: "'z leased \<Rightarrow> bool" where
  "on_demand cfg \<longleftrightarrow> lc_sizer cfg = None \<and> lc_lowWater cfg \<le> 0 \<and> lc_maxKeys cfg = None \<and> lc_returnIdleAfterMs cfg = None"

definition single_flight :: "'z leased \<Rightarrow> num \<Rightarrow> 'z node \<Rightarrow> bool" where
  "single_flight cfg C nd \<longleftrightarrow>
     nd_refills nd = [] \<and> distinct (map fst (nd_flight nd)) \<and>
     (\<forall>l k a. (l, k, a) \<in> set (nd_flight nd) \<longrightarrow>
        l < nd_next nd \<and> (\<exists>e. map_of (nd_entries nd) k = Some e \<and> le_pending e = Some l)) \<and>
     (\<forall>l k d. (l, k, d) \<in> set (nd_settled nd) \<longrightarrow> l < nd_next nd \<and> l \<notin> fst ` set (nd_flight nd)) \<and>
     (\<forall>k e. map_of (nd_entries nd) k = Some e \<longrightarrow> le_credits e + outstanding nd k < max (lc_batch cfg) C + C) \<and>
     (\<forall>c w. (c, w) \<in> set (nd_waiting nd) \<longrightarrow> 0 < wt_cost w \<and> wt_cost w \<le> C)"

lemma single_flightD:
  assumes "single_flight cfg C nd"
  shows "nd_refills nd = []" "distinct (map fst (nd_flight nd))"
    "(l, k, a) \<in> set (nd_flight nd) \<Longrightarrow> l < nd_next nd \<and> (\<exists>e. map_of (nd_entries nd) k = Some e \<and> le_pending e = Some l)"
    "(l, k, d) \<in> set (nd_settled nd) \<Longrightarrow> l < nd_next nd \<and> l \<notin> fst ` set (nd_flight nd)"
    "map_of (nd_entries nd) k = Some e \<Longrightarrow> le_credits e + outstanding nd k < max (lc_batch cfg) C + C"
    "(c, w) \<in> set (nd_waiting nd) \<Longrightarrow> 0 < wt_cost w \<and> wt_cost w \<le> C"
  using assms unfolding single_flight_def by blast+

lemma single_flightI:
  assumes "nd_refills nd = []" "distinct (map fst (nd_flight nd))"
    "\<And>l k a. (l, k, a) \<in> set (nd_flight nd) \<Longrightarrow> l < nd_next nd \<and> (\<exists>e. map_of (nd_entries nd) k = Some e \<and> le_pending e = Some l)"
    "\<And>l k d. (l, k, d) \<in> set (nd_settled nd) \<Longrightarrow> l < nd_next nd \<and> l \<notin> fst ` set (nd_flight nd)"
    "\<And>k e. map_of (nd_entries nd) k = Some e \<Longrightarrow> le_credits e + outstanding nd k < max (lc_batch cfg) C + C"
    "\<And>c w. (c, w) \<in> set (nd_waiting nd) \<Longrightarrow> 0 < wt_cost w \<and> wt_cost w \<le> C"
  shows "single_flight cfg C nd"
  using assms unfolding single_flight_def by blast

lemma outstanding_none:
  "(\<And>l a. (l, fk, a) \<notin> set (nd_flight nd)) \<Longrightarrow> outstanding nd fk = 0"
proof -
  assume "\<And>l a. (l, fk, a) \<notin> set (nd_flight nd)"
  then have "map (\<lambda>(l, k, a). if k = fk then a else 0) (nd_flight nd) = map (\<lambda>_. 0) (nd_flight nd)"
    by (intro map_cong) auto
  then show ?thesis by (simp only: outstanding_def sum_list_0)
qed

lemma outstanding_frame [simp]:
  "outstanding (put k e nd) fk = outstanding nd fk" "outstanding (nd\<lparr>nd_waiting := w\<rparr>) fk = outstanding nd fk"
  "outstanding (nd\<lparr>nd_next := n\<rparr>) fk = outstanding nd fk" "outstanding (nd\<lparr>nd_settled := x\<rparr>) fk = outstanding nd fk"
  "outstanding (note_grant k d a nd) fk = outstanding nd fk" "outstanding (note_served k c nd) fk = outstanding nd fk"
  "outstanding (nd\<lparr>nd_entries := es\<rparr>) fk = outstanding nd fk"
  by (simp_all add: outstanding_def note_served_def)

lemma sum_list_delete:
  "distinct (map fst xs) \<Longrightarrow> map_of xs l = Some v \<Longrightarrow>
   (\<Sum>x\<leftarrow>AList.delete l xs. f x) = (\<Sum>x\<leftarrow>xs. f x) - (f (l, v) :: num)"
proof (induction xs)
  case (Cons x xs)
  show ?case
  proof (cases "fst x = l")
    case True
    then have "AList.delete l xs = xs" using Cons.prems by (intro delete_id) auto
    then show ?thesis using True Cons.prems by (cases x) simp
  qed (use Cons in \<open>cases x, auto\<close>)
qed simp

lemma outstanding_delete:
  "distinct (map fst (nd_flight nd)) \<Longrightarrow> map_of (nd_flight nd) l = Some (fk, a) \<Longrightarrow>
   outstanding (nd\<lparr>nd_flight := AList.delete l (nd_flight nd)\<rparr>) k = outstanding nd k - (if k = fk then a else 0)"
  unfolding outstanding_def by (simp add: sum_list_delete)

text \<open>An update of a live entry that keeps its lease and does not add credits.\<close>

lemma single_flight_put:
  assumes "single_flight cfg C nd" "map_of (nd_entries nd) fk = Some e0" "le_pending e = le_pending e0" "le_credits e \<le> le_credits e0"
  shows "single_flight cfg C (put fk e nd)"
proof -
  note d = single_flightD[OF assms(1)]
  have 1: "\<exists>e'. map_of (nd_entries (put fk e nd)) k = Some e' \<and> le_pending e' = Some l" if "(l, k, a) \<in> set (nd_flight nd)" for l k a
    using d(3)[OF that] assms(2,3) by auto
  have 2: "le_credits e' + outstanding nd k < max (lc_batch cfg) C + C" if "map_of (nd_entries (put fk e nd)) k = Some e'" for k e'
    using that d(5)[of k] assms(2,4) by (cases "k = fk") fastforce+
  show ?thesis using 1 2 d(1,2,3,4,6) by (auto simp: single_flight_def simp del: put_simps(1))
qed

lemma single_flight_served [simp]: "single_flight cfg C (note_served k c nd) = single_flight cfg C nd"
  by (simp add: single_flight_def note_served_def outstanding_def)

lemma single_flight_grant [simp]: "single_flight cfg C (note_grant k d a nd) = single_flight cfg C nd"
  by (simp add: single_flight_def)

lemma single_flight_next: "single_flight cfg C nd \<Longrightarrow> single_flight cfg C (nd\<lparr>nd_next := Suc (nd_next nd)\<rparr>)"
  by (rule single_flightI) (auto dest: single_flightD intro: less_SucI)

lemma single_flight_waiting:
  "single_flight cfg C nd \<Longrightarrow> (\<And>c w. (c, w) \<in> set ws \<Longrightarrow> 0 < wt_cost w \<and> wt_cost w \<le> C) \<Longrightarrow>
   single_flight cfg C (nd\<lparr>nd_waiting := ws\<rparr>)"
  by (simp add: single_flight_def)

lemma single_flight_entryFor:
  assumes "on_demand cfg" "0 < C" "single_flight cfg C nd" "entryFor cfg fk nd = (e, nd')"
  shows "single_flight cfg C nd'" "map_of (nd_entries nd') fk = Some e"
proof -
  have "single_flight cfg C nd' \<and> map_of (nd_entries nd') fk = Some e"
  proof (cases "map_of (nd_entries nd) fk")
    case None
    note d = single_flightD[OF assms(3)]
    have no: "(l, fk, a) \<notin> set (nd_flight nd)" for l a using d(3)[of l fk a] None by auto
    have nd': "nd' = put fk (new_entry cfg) nd" "e = new_entry cfg"
      using assms(1,4) None by (auto simp: entryFor_def on_demand_def evict_oldest_def map_full_def)
    have "0 + outstanding nd fk < max (lc_batch cfg) C + C" using outstanding_none[of fk nd] no assms(2) by simp
    then have b: "le_credits e' + outstanding nd k < max (lc_batch cfg) C + C" if "map_of (nd_entries nd') k = Some e'" for k e'
      using that d(5)[of k e'] by (auto simp: nd' split: if_splits)
    have "\<exists>e'. map_of (nd_entries nd') k = Some e' \<and> le_pending e' = Some l" if "(l, k, a) \<in> set (nd_flight nd)" for l k a
      using d(3)[OF that] no that by (cases "k = fk") (auto simp: nd')
    then show ?thesis using b d(1,2,3,4,6) unfolding nd' by (auto simp: single_flight_def simp del: put_simps(1)) (simp add: put_def update_conv')
  qed (use assms in \<open>auto simp: entryFor_def\<close>)
  then show "single_flight cfg C nd'" "map_of (nd_entries nd') fk = Some e" by auto
qed

lemma single_flight_turn:
  assumes "on_demand cfg" "single_flight cfg C nd" "map_of (nd_entries nd) fk = Some e" "0 < cost" "cost \<le> C"
  shows "single_flight cfg C (snd (lease_turn cfg cid fk cost now t e nd))"
proof -
  note d = single_flightD[OF assms(2)]
  consider (serve) "le_credits e \<ge> cost" | (wait) lid where "\<not> le_credits e \<ge> cost" "le_pending e = Some lid"
    | (lease) "\<not> le_credits e \<ge> cost" "le_pending e = None" by (cases "le_pending e") auto
  then show ?thesis
  proof cases
    case serve
    have "snd (lease_turn cfg cid fk cost now t e nd) = note_served fk cost (put fk (take_credits cost e) nd)"
      using serve assms(1) by (simp add: lease_turn_def Let_def maybeRefill_def on_demand_def)
    then show ?thesis
      using assms(4) single_flight_put[OF assms(2,3), of "take_credits cost e"] by (simp add: take_credits_def)
  next
    case wait
    then show ?thesis using assms(4,5) d(6) by (auto simp: lease_turn_def intro!: single_flight_waiting[OF assms(2)])
  next
    case lease
    let ?amt = "max (lc_batch cfg) cost" and ?lid = "nd_next nd"
    let ?w = "(cid, \<lparr>wt_fk = fk, wt_now = now, wt_cost = cost, wt_lease = ?lid\<rparr>)"
    let ?nd = "put fk (e\<lparr>le_pending := Some ?lid\<rparr>) (nd\<lparr>nd_flight := (?lid, fk, ?amt) # nd_flight nd, nd_next := Suc ?lid,
                        nd_waiting := ?w # nd_waiting nd\<rparr>)"
    have eq: "snd (lease_turn cfg cid fk cost now t e nd) = ?nd"
      using lease assms(1) by (simp add: lease_turn_def Let_def leaseSizeFor_def on_demand_def)
    have no: "(l, fk, a) \<notin> set (nd_flight nd)" for l a using d(3)[of l fk a] lease assms(3) by auto
    have o: "outstanding ?nd k = outstanding nd k + (if k = fk then ?amt else 0)" for k by (simp add: outstanding_def)
    have b: "le_credits e' + outstanding ?nd k < max (lc_batch cfg) C + C" if "map_of (nd_entries ?nd) k = Some e'" for k e'
      using that lease(1) outstanding_none[of fk nd] no assms(5) d(5)[of k e'] unfolding o by (cases "k = fk") auto
    have f: "l < Suc ?lid \<and> (\<exists>e'. map_of (nd_entries ?nd) k = Some e' \<and> le_pending e' = Some l)" if "(l, k, a) \<in> set (nd_flight ?nd)" for l k a
    proof (cases "k = fk")
      case True
      then show ?thesis using that no by auto
    next
      case False
      then have m: "(l, k, a) \<in> set (nd_flight nd)" using that by auto
      from d(3)[OF m] False show ?thesis by auto
    qed
    have fresh: "?lid \<notin> fst ` set (nd_flight nd)" using d(3) by fastforce
    have "l < Suc ?lid \<and> l \<notin> fst ` set (nd_flight ?nd)" if "(l, k, r) \<in> set (nd_settled ?nd)" for l k r
      using d(4)[of l k r] that by auto
    moreover have "distinct (map fst (nd_flight ?nd))" using d(2) fresh by simp
    moreover have "0 < wt_cost w \<and> wt_cost w \<le> C" if "(c, w) \<in> set (nd_waiting ?nd)" for c w
      using that d(6) assms(4,5) by auto
    moreover have "nd_refills ?nd = []" "nd_next ?nd = Suc ?lid" using d(1) by simp_all
    ultimately show ?thesis unfolding eq single_flight_def using b f by (simp only:) blast
  qed
qed

lemma single_flight_check:
  assumes "on_demand cfg" "0 < C" "single_flight cfg C nd" "\<And>c. requireCost cost = Inr c \<Longrightarrow> c \<le> C"
  shows "single_flight cfg C (snd (lease_check cfg key cost now nd))"
proof (rule lease_check_cases[of cfg key cost now nd])
  fix c e0 nd1
  let ?fk = "prefixer (lc_prefix cfg) key"
  assume c: "requireCost cost = Inr c" and ef: "entryFor cfg ?fk (nd\<lparr>nd_next := Suc (nd_next nd)\<rparr>) = (e0, nd1)"
    and eq: "lease_check cfg key cost now nd = lease_turn cfg (nd_next nd) ?fk c now now
      (lease_enter cfg now e0) (put ?fk (lease_enter cfg now e0) nd1)"
  note i = single_flight_entryFor[OF assms(1,2) single_flight_next[OF assms(3)] ef]
  have "le_pending (lease_enter cfg now e0) = le_pending e0" "le_credits (lease_enter cfg now e0) \<le> max 0 (le_credits e0)"
    by (auto simp: lease_enter_def expire_credits_def split: option.split)
  moreover have "le_credits (lease_enter cfg now e0) \<le> le_credits e0"
    by (auto simp: lease_enter_def expire_credits_def split: option.split)
  ultimately have "single_flight cfg C (put ?fk (lease_enter cfg now e0) nd1)"
    using single_flight_put[OF i] by simp
  then show ?thesis
    unfolding eq using c assms(4)[OF c] by (intro single_flight_turn[OF assms(1)]) (simp_all add: requireCost_Inr)
qed (use single_flight_next[OF assms(3)] in simp)

text \<open>A lease that settles leaves room for its grant.\<close>

lemma single_flight_land:
  assumes "single_flight cfg C nd" "map_of (nd_flight nd) lid = Some (fk, a)" "0 \<le> a"
    "nd' = nd\<lparr>nd_flight := AList.delete lid (nd_flight nd), nd_settled := (lid, fk, r) # nd_settled nd\<rparr>"
  shows "single_flight cfg C nd'"
    "map_of (nd_entries nd') fk = Some e \<Longrightarrow> le_credits e + a + outstanding nd' fk < max (lc_batch cfg) C + C"
proof -
  note d = single_flightD[OF assms(1)]
  have m: "(lid, fk, a) \<in> set (nd_flight nd)" using assms(2) by (rule map_of_SomeD)
  have sub: "set (nd_flight nd') \<subseteq> set (nd_flight nd)" "lid \<notin> fst ` set (nd_flight nd')" by (auto simp: assms(4) AList.delete_eq)
  have st: "l < nd_next nd' \<and> l \<notin> fst ` set (nd_flight nd')" if "(l, k, x) \<in> set (nd_settled nd')" for l k x
    using that d(3)[OF m] d(4)[of l k x] sub by (auto simp: assms(4))
  have o: "outstanding nd' k = outstanding nd k - (if k = fk then a else 0)" for k
    using outstanding_delete[OF d(2) assms(2), of k] by (simp add: outstanding_def assms(4))
  have b: "le_credits e + outstanding nd' k < max (lc_batch cfg) C + C" if "map_of (nd_entries nd') k = Some e" for k e
    using d(5)[of k e] that assms(3) unfolding o by (auto simp: assms(4))
  show "single_flight cfg C nd'"
    by (rule single_flightI) (use st b d(1,2,3,6) in \<open>auto simp: assms(4) distinct_map_filter AList.delete_eq\<close>)
  show "le_credits e + a + outstanding nd' fk < max (lc_batch cfg) C + C" if "map_of (nd_entries nd') fk = Some e"
    using d(5)[of fk e] that unfolding o by (auto simp: assms(4))
qed

lemma single_flight_replace:
  assumes "single_flight cfg C nd" "map_of (nd_entries nd) fk = Some e0" "le_pending e = le_pending e0"
    "le_credits e + outstanding nd fk < max (lc_batch cfg) C + C"
  shows "single_flight cfg C (put fk e nd)"
proof (rule single_flightI)
  note d = single_flightD[OF assms(1)]
  show "l < nd_next (put fk e nd) \<and> (\<exists>e'. map_of (nd_entries (put fk e nd)) k = Some e' \<and> le_pending e' = Some l)"
    if "(l, k, x) \<in> set (nd_flight (put fk e nd))" for l k x
    using d(3)[of l k x] that assms(2,3) by auto
  show "le_credits e' + outstanding (put fk e nd) k < max (lc_batch cfg) C + C"
    if "map_of (nd_entries (put fk e nd)) k = Some e'" for k e'
    using d(5)[of k e'] that assms(4) by (auto split: if_splits)
qed (use single_flightD[OF assms(1)] in auto)

lemma single_flight_reply:
  assumes "single_flight cfg C nd" "lease_inv cfg nd"
  shows "single_flight cfg C (lease_reply lid d nd)"
proof (cases "map_of (nd_flight nd) lid")
  case (Some p)
  obtain fk a where p: "p = (fk, a)" by (cases p)
  let ?nd = "nd\<lparr>nd_flight := AList.delete lid (nd_flight nd), nd_settled := (lid, fk, Some d) # nd_settled nd\<rparr>"
  have a: "0 \<le> a" using lease_invD(5)[OF assms(2) map_of_SomeD[OF Some[unfolded p]]] .
  note l = single_flight_land[OF assms(1) Some[unfolded p] a refl, of "Some d"]
  have "single_flight cfg C (put fk (credit d a e) (note_grant fk d a ?nd))" if e: "map_of (nd_entries nd) fk = Some e" for e
  proof (rule single_flight_replace)
    have "le_credits (credit d a e) \<le> le_credits e + a" using a by (simp add: credit_def)
    then show "le_credits (credit d a e) + outstanding (note_grant fk d a ?nd) fk < max (lc_batch cfg) C + C"
      using l(2)[of e] e by simp
  qed (use l e in \<open>simp_all add: credit_def\<close>)
  then show ?thesis using l(1) by (simp add: lease_reply_def Some p Let_def split: option.split)
qed (use assms in \<open>simp add: lease_reply_def\<close>)

lemma single_flight_reject:
  assumes "single_flight cfg C nd" "lease_inv cfg nd"
  shows "single_flight cfg C (lease_reject lid nd)"
proof (cases "map_of (nd_flight nd) lid")
  case (Some p)
  obtain fk a where p: "p = (fk, a)" by (cases p)
  have a: "0 \<le> a" using lease_invD(5)[OF assms(2) map_of_SomeD[OF Some[unfolded p]]] .
  show ?thesis using single_flight_land(1)[OF assms(1) Some[unfolded p] a refl, of None] by (simp add: lease_reject_def Some p)
qed (use assms in \<open>simp add: lease_reject_def\<close>)

lemma single_flight_free:
  assumes "single_flight cfg C nd"
  shows "single_flight cfg C (lease_free lid nd)"
proof -
  note d = single_flightD[OF assms]
  have "single_flight cfg C (put fk (e\<lparr>le_pending := None\<rparr>) nd)"
    if s: "map_of (nd_settled nd) lid = Some (fk, r)" and e: "map_of (nd_entries nd) fk = Some e" "le_pending e = Some lid" for fk r e
  proof (rule single_flightI)
    let ?nd = "put fk (e\<lparr>le_pending := None\<rparr>) nd"
    have no: "(lid, k, x) \<notin> set (nd_flight nd)" for k x using d(4)[OF map_of_SomeD[OF s]] by force
    show "l < nd_next ?nd \<and> (\<exists>e. map_of (nd_entries ?nd) k = Some e \<and> le_pending e = Some l)" if "(l, k, x) \<in> set (nd_flight ?nd)" for l k x
      using d(3)[of l k x] that e no[of k x] by (cases "k = fk") auto
    show "le_credits e' + outstanding ?nd k < max (lc_batch cfg) C + C" if "map_of (nd_entries ?nd) k = Some e'" for k e'
      using that d(5)[of k] e(1) by (cases "k = fk") auto
  qed (use d in auto)
  then show ?thesis using assms by (auto simp: lease_free_def split: option.split)
qed

lemma single_flight_resume:
  assumes "on_demand cfg" "0 < C" "single_flight cfg C nd"
  shows "single_flight cfg C (snd (lease_resume cfg cid t nd))"
proof (cases "map_of (nd_waiting nd) cid")
  case (Some w)
  have c: "0 < wt_cost w" "wt_cost w \<le> C" using single_flightD(6)[OF assms(3) map_of_SomeD[OF Some]] by auto
  let ?nd = "nd\<lparr>nd_waiting := AList.delete cid (nd_waiting nd)\<rparr>"
  have n: "single_flight cfg C ?nd"
    by (rule single_flight_waiting[OF assms(3)]) (use single_flightD(6)[OF assms(3)] in \<open>auto simp: AList.delete_eq\<close>)
  obtain e nd2 where ef: "entryFor cfg (wt_fk w) ?nd = (e, nd2)" by (cases "entryFor cfg (wt_fk w) ?nd")
  note i = single_flight_entryFor[OF assms(1,2) n ef]
  show ?thesis
    using assms(3) n i single_flight_turn[OF assms(1) i c]
    by (auto simp: lease_resume_def Some ef Let_def split: option.split)
qed (use assms in \<open>simp add: lease_resume_def\<close>)

definition event_within :: "num \<Rightarrow> event \<Rightarrow> bool" where
  "event_within C ev = (case ev of Check key cost now \<Rightarrow> (case requireCost cost of Inr c \<Rightarrow> c \<le> C | Inl _ \<Rightarrow> True)
     | Reset key \<Rightarrow> False | _ \<Rightarrow> True)"

lemma single_flight_step:
  assumes "on_demand cfg" "0 < C" "single_flight cfg C nd" "lease_inv cfg nd" "event_within C ev"
  shows "single_flight cfg C (snd (lease_step cfg ev nd))"
proof (cases ev)
  case (Check key cost now)
  then show ?thesis using assms by (auto simp: event_within_def intro!: single_flight_check)
next
  case (RefillFree rid)
  have r: "single_flight cfg C (nd\<lparr>nd_refilled := x\<rparr>)" for x
    using assms(3) by (simp add: single_flight_def outstanding_def)
  from r single_flight_put[OF r] show ?thesis
    using assms(3) by (auto simp: RefillFree refill_free_def Let_def split: option.split)
next
  case (Idle now)
  then show ?thesis using assms by (simp add: return_idle_def on_demand_def)
next
  case (Reset key)
  then show ?thesis using assms by (simp add: event_within_def)
qed (use assms single_flightD(1)[OF assms(3)] in \<open>simp_all add: single_flight_reply single_flight_reject single_flight_free
       single_flight_resume refill_reply_def refill_reject_def\<close>)

lemma single_flight_run:
  "lease_cfg_ok cfg \<Longrightarrow> on_demand cfg \<Longrightarrow> 0 < C \<Longrightarrow> single_flight cfg C nd \<Longrightarrow> lease_inv cfg nd \<Longrightarrow> waiting_ok nd \<Longrightarrow>
   \<forall>ev\<in>set evs. event_within C ev \<Longrightarrow> single_flight cfg C (snd (lease_run cfg evs nd))"
proof (induction evs arbitrary: nd)
  case (Cons ev evs)
  show ?case unfolding lease_run_snd
    by (rule Cons.IH) (use Cons.prems lease_step_inv[OF Cons.prems(1,5,6)] in \<open>auto intro!: single_flight_step\<close>)
qed simp

lemma single_flight_new: "0 < C \<Longrightarrow> single_flight cfg C node_new"
  by (simp add: single_flight_def node_new_def)

lemma single_flight_one:
  assumes "single_flight cfg C nd"
  shows "length (filter (\<lambda>(l, k, a). k = fk) (nd_flight nd)) \<le> 1"
proof (rule ccontr)
  note d = single_flightD[OF assms]
  let ?f = "filter (\<lambda>(l, k, a). k = fk) (nd_flight nd)"
  assume "\<not> length ?f \<le> 1"
  then obtain x y zs where f: "?f = x # y # zs" by (cases ?f; cases "tl ?f") auto
  have "distinct (map fst ?f)" using d(2) by (rule distinct_map_filter)
  then have ne: "fst x \<noteq> fst y" by (simp add: f)
  have "x \<in> set ?f" "y \<in> set ?f" by (simp_all add: f)
  then have "(fst x, fk, snd (snd x)) \<in> set (nd_flight nd)" "(fst y, fk, snd (snd y)) \<in> set (nd_flight nd)" by auto
  from d(3)[OF this(1)] d(3)[OF this(2)] ne show False by auto
qed

section \<open>Correctness\<close>

definition held :: "'z node \<Rightarrow> string \<Rightarrow> num" where
  "held nd fk = (case map_of (nd_entries nd) fk of Some e \<Rightarrow> le_credits e | None \<Rightarrow> 0)"

text \<open>
  C32. Leases are conserved: after any interleaving of checks, replies, rejections, refills, idle sweeps and
  resets, what a node admitted for a key and the credits it still holds together never exceed what the store
  granted it, credits are never negative, and the number of entries respects \<open>maxKeys\<close>. With
  \<open>windowCoupled\<close>, a check answered on entry from local credits is answered before the reset time of the last
  decision the store gave for the key, which the answer carries. That is the end of the window of the newest
  credits only: older ones may still be among them after a reply of the next window.
\<close>

theorem leased_conservation:
  assumes "twoTier_leased limit ttlMs prefix maxKeys lease = Inr cfg"
    "nd = snd (lease_run cfg evs node_new)"
  shows "nd_served nd fk + held nd fk \<le> nd_granted nd fk \<and> 0 \<le> held nd fk \<and>
    size_bounded (lc_maxKeys cfg) (nd_entries nd) \<and>
    (lc_windowCoupled cfg \<longrightarrow> Served c d \<in> set (fst (lease_step cfg (Check key cost now) nd)) \<longrightarrow> now < d_resetAt d)"
proof -
  have i: "lease_inv cfg nd"
    using twoTier_run_inv[OF assms(1), of evs "fst (lease_run cfg evs node_new)" nd] assms(2) by simp
  show ?thesis
    using lease_invD(2,3,4)[OF i] lease_check_window[OF i]
    by (auto simp: held_def lease_entry_ok_def split: option.split)
qed

definition lease_ex :: "unit learner leased" where
  "lease_ex = \<lparr>lc_limit = 10, lc_ttlMs = 1000, lc_prefix = None, lc_maxKeys = None, lc_batch = 10, lc_sizer = None,
     lc_lowWater = 0, lc_returnIdleAfterMs = None, lc_windowCoupled = True\<rparr>"

definition lease_events_ex :: "event list" where
  "lease_events_ex = [Check ''k'' (Num 1) 990,
     LeaseReply 1 \<lparr>d_allowed = True, d_limit = 10, d_remaining = 0, d_resetAt = 1000, d_retryAfterMs = 0\<rparr>, LeaseFree 1, Resume 0 991]"

lemma lease_ex_run:
  "\<exists>nd. lease_run lease_ex lease_events_ex node_new =
     ([Apply 1 ''k'' 990 10, Served 0 \<lparr>d_allowed = True, d_limit = 10, d_remaining = 9, d_resetAt = 1000, d_retryAfterMs = 0\<rparr>], nd) \<and>
   nd_served nd ''k'' = 1 \<and> held nd ''k'' = 9 \<and> nd_granted nd ''k'' = 10 \<and>
   fst (lease_step lease_ex (Check ''k'' (Num 4) 995) nd) =
     [Served 2 \<lparr>d_allowed = True, d_limit = 10, d_remaining = 5, d_resetAt = 1000, d_retryAfterMs = 0\<rparr>]"
  by (simp add: lease_ex_def lease_events_ex_def lease_eval held_def)

theorem leased_conservation_witness:
  "\<exists>nd. nd = snd (lease_run lease_ex lease_events_ex node_new) \<and> nd_served nd ''k'' = 1 \<and> held nd ''k'' = 9 \<and>
     nd_served nd ''k'' + held nd ''k'' \<le> nd_granted nd ''k'' \<and>
     fst (lease_step lease_ex (Check ''k'' (Num 4) 995) nd) =
       [Served 2 \<lparr>d_allowed = True, d_limit = 10, d_remaining = 5, d_resetAt = 1000, d_retryAfterMs = 0\<rparr>] \<and> 995 < (1000 :: num)"
proof -
  have o: "twoTier_leased 10 1000 None None (Some (\<lparr>lo_batch = Some (Num 10), lo_lowWater = None, lo_returnIdleAfterMs = None,
    lo_windowCoupled = Some True, lo_adaptive = None\<rparr> :: unit lease_options)) = Inr lease_ex"
    by (simp add: twoTier_leased_def makeSizer_def requireBatch_def lease_ex_def)
  let ?d = "\<lparr>d_allowed = True, d_limit = 10, d_remaining = 5, d_resetAt = 1000, d_retryAfterMs = 0\<rparr>"
  obtain nd where nd: "nd = snd (lease_run lease_ex lease_events_ex node_new)" "nd_served nd ''k'' = 1" "held nd ''k'' = 9"
    "fst (lease_step lease_ex (Check ''k'' (Num 4) 995) nd) = [Served 2 ?d]"
    using lease_ex_run by (metis snd_conv)
  have c: "lc_windowCoupled lease_ex" by (simp add: lease_ex_def)
  note all = leased_conservation[OF o nd(1), of "''k''" 2 ?d "''k''" "Num 4" 995]
  have "995 < d_resetAt ?d" using all c nd(4) by simp
  then show ?thesis using nd all by simp
qed

text \<open>
  The bound on what a node can strand: leasing on demand with a fixed batch, no eviction and no reset,
  and costs up to \<open>C\<close>, a node never has more than one lease of a key in flight (concurrent misses share it),
  and the credits it holds plus those in flight stay below the batch (or \<open>C\<close>, if larger) plus \<open>C\<close>; with unit
  costs and a whole batch that is at most the batch.
\<close>

theorem leased_outstanding_bound:
  assumes "twoTier_leased limit ttlMs prefix maxKeys lease = Inr cfg" "on_demand cfg" "0 < C"
    "\<forall>ev\<in>set evs. event_within C ev" "nd = snd (lease_run cfg evs node_new)"
  shows "held nd fk + outstanding nd fk < max (lc_batch cfg) C + C \<and>
    length (filter (\<lambda>(l, k, a). k = fk) (nd_flight nd)) \<le> 1"
proof -
  note ok = twoTier_leased_ok[OF assms(1)]
  have s: "single_flight cfg C nd" unfolding assms(5)
    by (rule single_flight_run[OF ok assms(2,3) single_flight_new[OF assms(3)] lease_inv_new waiting_ok_new assms(4)])
  note d = single_flightD[OF s]
  have "held nd fk + outstanding nd fk < max (lc_batch cfg) C + C"
  proof (cases "map_of (nd_entries nd) fk")
    case None
    then have "outstanding nd fk = 0" using d(3) by (intro outstanding_none) fastforce
    then show ?thesis using None assms(3) by (simp add: held_def)
  qed (use d(5)[of fk] in \<open>simp add: held_def\<close>)
  then show ?thesis using single_flight_one[OF s] by simp
qed

theorem leased_outstanding_bound_witness:
  "\<exists>(cfg :: unit learner leased) nd. held nd ''k'' + outstanding nd ''k'' < 11 \<and> nd_next nd = 3 \<and>
     nd = snd (lease_run cfg [Check ''k'' (Num 1) 990, Check ''k'' (Num 1) 991] node_new)"
proof -
  let ?o = "\<lparr>lo_batch = Some (Num 10), lo_lowWater = None, lo_returnIdleAfterMs = None, lo_windowCoupled = None,
    lo_adaptive = None\<rparr> :: unit lease_options"
  obtain cfg where o: "twoTier_leased 10 1000 None None (Some ?o) = Inr cfg" and b: "lc_batch cfg = 10" "on_demand cfg"
    "lc_prefix cfg = None"
    by (simp add: twoTier_leased_def makeSizer_def requireBatch_def on_demand_def)
  let ?evs = "[Check ''k'' (Num 1) 990, Check ''k'' (Num 1) 991]"
  have w: "\<forall>ev\<in>set ?evs. event_within 1 ev" by (simp add: event_within_def requireCost_def max_safe_integer_def)
  have n: "nd_next (snd (lease_run cfg ?evs node_new)) = 3"
    using b unfolding on_demand_def
    by (simp add: node_new_def lease_check_def requireCost_def max_safe_integer_def prefixer_def entryFor_def new_entry_def put_def
      lease_enter_def evict_oldest_def map_full_def learn_window_def expire_credits_def lease_turn_def Let_def)
  from leased_outstanding_bound[OF o b(2) zero_less_one w refl, of "''k''"] b n show ?thesis
    by (intro exI[of _ cfg] exI[of _ "snd (lease_run cfg ?evs node_new)"]) simp
qed

text \<open>
  A denial served from the cache is one the store gave for that key to an earlier check, whose
  \<open>retryAfterMs\<close> has not passed since that check started: the answer repeats its limit and reset time and its
  retry hint is what is left of it, rounded up. The cache respects \<open>maxKeys\<close>, and every admission is the
  store's own answer, as no local answer admits.
\<close>

theorem cached_deny_faithful:
  assumes "m = fold (deny_step prefix maxKeys) evs []"
    "deny_check prefix m key cost now = Inr (Local r, m')"
  shows "\<not> d_allowed r \<and> m' = m \<and> size_bounded maxKeys m \<and>
    (\<exists>t d. DReply (prefixer prefix key) t d \<in> set evs \<and> \<not> d_allowed d \<and> now < t + d_retryAfterMs d \<and>
       d_limit r = d_limit d \<and> d_resetAt r = d_resetAt d \<and> d_retryAfterMs r = js_ceil (t + d_retryAfterMs d - now))"
proof -
  have ok: "deny_ok (\<Union> (deny_log ` set evs)) m" and sz: "size_bounded maxKeys m"
    using deny_run_ok[of "{}" "[]" maxKeys evs prefix] assms(1) by (simp_all add: deny_ok_def)
  let ?fk = "prefixer prefix key"
  obtain e where e: "map_of m ?fk = Some e" "now < dn_until e" "m' = m" "\<not> d_allowed r" "d_limit r = d_limit (dn_decision e)"
    "d_resetAt r = d_resetAt (dn_decision e)" "d_retryAfterMs r = js_ceil (dn_until e - now)"
    using assms(2) by (auto simp: deny_check_def rbind_eq_Inr Let_def split: option.splits if_splits)
  from ok e(1) obtain t d where td: "(?fk, t, d) \<in> \<Union> (deny_log ` set evs)" "\<not> d_allowed d"
    "dn_until e = t + d_retryAfterMs d" "dn_decision e = d" unfolding deny_ok_def by blast
  from td(1) obtain ev where ev: "ev \<in> set evs" "(?fk, t, d) \<in> deny_log ev" by blast
  have "ev = DReply ?fk t d" using ev(2) by (cases ev) auto
  then have "DReply ?fk t d \<in> set evs" using ev(1) by simp
  then show ?thesis using e td sz by auto
qed

theorem cached_deny_faithful_witness:
  "\<exists>m r d. deny_check None m ''k'' (Num 1) 100 = Inr (Local r, m) \<and> \<not> d_allowed r \<and> d_retryAfterMs r = 1900 \<and>
     m = fold (deny_step None (Some 1)) [DCheck ''k'' (Num 1) 0, DReply ''k'' 0 d] []"
proof -
  let ?d = "\<lparr>d_allowed = False, d_limit = 10, d_remaining = 0, d_resetAt = 2000, d_retryAfterMs = 2000\<rparr>"
  let ?m = "fold (deny_step None (Some 1)) [DCheck ''k'' (Num 1) 0, DReply ''k'' 0 ?d] []"
  obtain r where r: "deny_check None ?m ''k'' (Num 1) 100 = Inr (Local r, ?m)" "d_retryAfterMs r = 1900"
    by (simp add: deny_check_def deny_reply_def requireCost_def max_safe_integer_def prefixer_def evict_oldest_def map_full_def)
  from cached_deny_faithful[OF refl r(1)] r show ?thesis by blast
qed

end
