(* ===== verification/LeaseSpender.thy ===== *)
theory LeaseSpender
  imports TwoTier
begin

text \<open>
  \<open>src/twotier/lease-spender.ts\<close>: the client side of a lease, spending credits the service granted. The
  \<open>reserve\<close> callback is a parameter, a function of the number of the call. The lemmas: a spend and a refresh
  agree with the leased mode of \<open>twoTier\<close>, and the client loop ends within a number of rounds given by the
  cost.
\<close>

section \<open>The model\<close>

record spender =
  sp_limit :: num
  sp_ttlMs :: num
  sp_windowCoupled :: bool
  sp_credits :: num
  sp_expiresAt :: "num option"

definition new_spender :: "num \<Rightarrow> num option \<Rightarrow> bool option \<Rightarrow> spender" where
  "new_spender limit ttlMs windowCoupled =
     \<lparr>sp_limit = limit, sp_ttlMs = (case ttlMs of Some t \<Rightarrow> t | None \<Rightarrow> 0),
      sp_windowCoupled = (case windowCoupled of Some b \<Rightarrow> b | None \<Rightarrow> True), sp_credits = 0, sp_expiresAt = None\<rparr>"

record lease_grant =
  lg_capacity :: num
  lg_expiresAt :: num

datatype reserve_result = Granted lease_grant | Denied decision

definition applyLease :: "lease_grant \<Rightarrow> spender \<Rightarrow> spender" where
  "applyLease g sp = sp\<lparr>sp_credits := sp_credits sp + lg_capacity g, sp_expiresAt := Some (lg_expiresAt g)\<rparr>"

definition expireIfRolled :: "num \<Rightarrow> spender \<Rightarrow> spender" where
  "expireIfRolled now sp =
     (case sp_expiresAt sp of
        Some x \<Rightarrow> if sp_windowCoupled sp \<and> now \<ge> x \<and> sp_credits sp > 0 then sp\<lparr>sp_credits := 0\<rparr> else sp
      | None \<Rightarrow> sp)"

text \<open>\<open>None\<close> is \<open>needsRefresh\<close>.\<close>

definition spendLocal :: "num \<Rightarrow> num \<Rightarrow> spender \<Rightarrow> decision option \<times> spender" where
  "spendLocal now cost sp =
     (if sp_credits sp \<ge> cost then
        (let sp1 = sp\<lparr>sp_credits := sp_credits sp - cost\<rparr>
         in (Some \<lparr>d_allowed = True, d_limit = sp_limit sp, d_remaining = max 0 (js_floor (sp_credits sp1)),
                   d_resetAt = (case sp_expiresAt sp of Some x \<Rightarrow> x | None \<Rightarrow> now + sp_ttlMs sp),
                   d_retryAfterMs = 0\<rparr>, sp1))
      else (None, sp))"

definition spend :: "num \<Rightarrow> js_number \<Rightarrow> spender \<Rightarrow> (decision option \<times> spender) result" where
  "spend now cost sp = rbind (requireCost cost) (\<lambda>c. Inr (spendLocal now c (expireIfRolled now sp)))"

fun refresh_loop ::
  "nat \<Rightarrow> num \<Rightarrow> num \<Rightarrow> (nat \<Rightarrow> num \<Rightarrow> reserve_result) \<Rightarrow> nat \<Rightarrow> spender \<Rightarrow> decision result \<times> spender" where
  "refresh_loop 0 now cost reserve i sp = (Inl (ThrottleKitError ''maxRounds''), sp)"
| "refresh_loop (Suc n) now cost reserve i sp =
     (case spendLocal now cost sp of
        (Some d, sp1) \<Rightarrow> (Inr d, sp1)
      | (None, sp1) \<Rightarrow>
          (case reserve i cost of
             Denied d \<Rightarrow> (Inr d, sp1)
           | Granted g \<Rightarrow>
               (let sp2 = applyLease g sp1
                in if lg_capacity g \<le> 0 then (Inl (ThrottleKitError ''zero-capacity''), sp2)
                   else refresh_loop n now cost reserve (Suc i) sp2)))"

definition spendOrRefresh ::
  "num \<Rightarrow> js_number \<Rightarrow> (nat \<Rightarrow> num \<Rightarrow> reserve_result) \<Rightarrow> nat \<Rightarrow> spender \<Rightarrow> decision result \<times> spender" where
  "spendOrRefresh now cost reserve maxRounds sp =
     (case requireCost cost of
        Inl e \<Rightarrow> (Inl e, sp)
      | Inr c \<Rightarrow> refresh_loop maxRounds now c reserve 0 (expireIfRolled now sp))"

definition spender_reset :: "spender \<Rightarrow> spender" where
  "spender_reset sp = sp\<lparr>sp_credits := 0, sp_expiresAt := None\<rparr>"

section \<open>Lemmas\<close>

text \<open>The spender holds what the entry of \<open>twoTier\<close> holds.\<close>

definition spender_of :: "'z leased \<Rightarrow> 'z lease_entry \<Rightarrow> spender" where
  "spender_of cfg e = \<lparr>sp_limit = lc_limit cfg, sp_ttlMs = lc_ttlMs cfg, sp_windowCoupled = lc_windowCoupled cfg,
     sp_credits = le_credits e, sp_expiresAt = map_option d_resetAt (le_lastDecision e)\<rparr>"

lemma spender_of_new: "spender_of cfg (new_entry cfg) = new_spender (lc_limit cfg) (Some (lc_ttlMs cfg)) (Some (lc_windowCoupled cfg))"
  by (simp add: spender_of_def new_entry_def new_spender_def)

lemma spender_of_enter: "spender_of cfg (lease_enter cfg now e) = expireIfRolled now (spender_of cfg e)"
  by (simp add: spender_of_def lease_enter_def expire_credits_def expireIfRolled_def split: option.split)

lemma spender_of_credit:
  "d_allowed d \<Longrightarrow> spender_of cfg (credit d a e) = applyLease \<lparr>lg_capacity = a, lg_expiresAt = d_resetAt d\<rparr> (spender_of cfg e)"
  by (simp add: spender_of_def credit_def applyLease_def)

lemma spender_of_spend:
  "spendLocal now cost (spender_of cfg e) =
     (if le_credits e \<ge> cost then (Some (synthAllow cfg (take_credits cost e) now), spender_of cfg (take_credits cost e))
      else (None, spender_of cfg e))"
  by (simp add: spendLocal_def spender_of_def take_credits_def synthAllow_def split: option.split)

text \<open>Enough rounds: every grant adds at least one credit.\<close>

lemma spendLocal_enough: "sp_credits sp \<ge> cost \<Longrightarrow> \<exists>d sp'. spendLocal now cost sp = (Some d, sp') \<and> d_allowed d"
  by (simp add: spendLocal_def)

lemma refresh_loop_returns:
  assumes "\<And>j g. reserve j cost = Granted g \<Longrightarrow> 1 \<le> lg_capacity g" "cost - sp_credits sp \<le> of_nat n"
  shows "\<exists>d. fst (refresh_loop (Suc n) now cost reserve i sp) = Inr d \<and> (d_allowed d \<or> (\<exists>j. reserve j cost = Denied d))"
  using assms(2)
proof (induction n arbitrary: i sp)
  case 0
  then have "sp_credits sp \<ge> cost" by simp
  from spendLocal_enough[OF this, of now] show ?case by auto
next
  case (Suc n)
  show ?case
  proof (cases "sp_credits sp \<ge> cost")
    case True
    from spendLocal_enough[OF True, of now] show ?thesis by auto
  next
    case False
    then have s: "spendLocal now cost sp = (None, sp)" by (simp add: spendLocal_def)
    show ?thesis
    proof (cases "reserve i cost")
      case (Granted g)
      have 1: "1 \<le> lg_capacity g" by (rule assms(1)[OF Granted])
      then have "cost - sp_credits (applyLease g sp) \<le> of_nat n" using Suc.prems by (simp add: applyLease_def)
      from Suc.IH[OF this, of "Suc i"] show ?thesis
        using s Granted 1 by (simp add: Let_def del: refresh_loop.simps(2) add: refresh_loop.simps(2)[of "Suc n"])
    qed (use s in auto)
  qed
qed

text \<open>
  The backstop can also stop a loop whose every reply is a proper grant: with two rounds a request for two
  is given up after two grants of one, although the credits now suffice.
\<close>

lemma refresh_gives_up:
  "fst (spendOrRefresh 0 (Num 2) (\<lambda>_ _. Granted \<lparr>lg_capacity = 1, lg_expiresAt = 100\<rparr>) 2 (new_spender 10 None None))
     = Inl (ThrottleKitError ''maxRounds'')"
  "sp_credits (snd (spendOrRefresh 0 (Num 2) (\<lambda>_ _. Granted \<lparr>lg_capacity = 1, lg_expiresAt = 100\<rparr>) 2 (new_spender 10 None None))) = 2"
  by (simp_all add: spendOrRefresh_def requireCost_def max_safe_integer_def new_spender_def expireIfRolled_def numeral_2_eq_2
    spendLocal_def applyLease_def)

text \<open>A denial renews the window of the entry of \<open>twoTier\<close> but not that of the spender.\<close>

lemma spender_denial_differs:
  "\<exists>e d. \<not> d_allowed d \<and> spender_of (\<lparr>lc_limit = 10, lc_ttlMs = 1000, lc_prefix = None, lc_maxKeys = None, lc_batch = 10,
     lc_sizer = None, lc_lowWater = 0, lc_returnIdleAfterMs = None, lc_windowCoupled = True\<rparr> :: unit leased) (credit d 1 e) \<noteq>
     spender_of \<lparr>lc_limit = 10, lc_ttlMs = 1000, lc_prefix = None, lc_maxKeys = None, lc_batch = 10,
     lc_sizer = None, lc_lowWater = 0, lc_returnIdleAfterMs = None, lc_windowCoupled = True\<rparr> e"
proof -
  let ?e = "\<lparr>le_credits = 0, le_lastDecision = None, le_lastUse = 0, le_refilling = False, le_pending = None,
    le_sizer = None, le_windowDemand = 0, le_windowEnd = None\<rparr> :: unit lease_entry"
  let ?d = "\<lparr>d_allowed = False, d_limit = 10, d_remaining = 0, d_resetAt = 1000, d_retryAfterMs = 5\<rparr>"
  show ?thesis by (rule exI[of _ ?e], rule exI[of _ ?d]) (simp add: spender_of_def credit_def)
qed

section \<open>Correctness\<close>

text \<open>
  The client spends like the local tier of \<open>twoTier\<close>: for a key whose entry the spender mirrors, a check
  is served from local credits exactly when \<open>spend\<close> serves it, with the same decision field by field, and
  leaves mirrored states; otherwise the check waits for a lease and \<open>spend\<close> asks for a refresh. A grant
  credited on both sides keeps the mirror.
\<close>

theorem spender_mirrors_local_tier:
  assumes "map_of (nd_entries nd) (prefixer (lc_prefix cfg) key) = Some e" "requireCost cost = Inr c"
    "lc_lowWater cfg \<le> 0"
  shows "(case spend now cost (spender_of cfg e) of
       Inr (Some d, sp) \<Rightarrow>
         fst (lease_check cfg key cost now nd) = [Served (nd_next nd) d] \<and>
         (\<exists>e'. map_of (nd_entries (snd (lease_check cfg key cost now nd))) (prefixer (lc_prefix cfg) key) = Some e' \<and>
            spender_of cfg e' = sp)
     | Inr (None, sp) \<Rightarrow>
         (\<forall>d. Served (nd_next nd) d \<notin> set (fst (lease_check cfg key cost now nd))) \<and>
         (\<exists>e' w. map_of (nd_entries (snd (lease_check cfg key cost now nd))) (prefixer (lc_prefix cfg) key) = Some e' \<and>
            spender_of cfg e' = sp \<and> (nd_next nd, w) \<in> set (nd_waiting (snd (lease_check cfg key cost now nd))))
     | Inl err \<Rightarrow> False) \<and>
    (d_allowed g \<longrightarrow> spender_of cfg (credit g a e) = applyLease \<lparr>lg_capacity = a, lg_expiresAt = d_resetAt g\<rparr> (spender_of cfg e))"
proof -
  let ?fk = "prefixer (lc_prefix cfg) key" and ?e = "lease_enter cfg now e"
  have eq: "lease_check cfg key cost now nd = lease_turn cfg (nd_next nd) ?fk c now now ?e (put ?fk ?e (nd\<lparr>nd_next := Suc (nd_next nd)\<rparr>))"
    using assms(1,2) by (simp add: lease_check_def Let_def entryFor_def)
  have sp: "spend now cost (spender_of cfg e) =
      Inr (if le_credits ?e \<ge> c then (Some (synthAllow cfg (take_credits c ?e) now), spender_of cfg (take_credits c ?e))
           else (None, spender_of cfg ?e))"
    by (simp add: spend_def assms(2) spender_of_enter[symmetric] spender_of_spend)
  show ?thesis
  proof (cases "le_credits ?e \<ge> c")
    case True
    then show ?thesis using assms(3)
      by (simp add: eq sp lease_turn_def Let_def maybeRefill_def note_served_def put_simps(1) spender_of_credit)
  next
    case False
    have p: "spender_of cfg (?e\<lparr>le_pending := x\<rparr>) = spender_of cfg ?e" for x by (simp add: spender_of_def)
    show ?thesis using False
      by (auto simp add: eq sp lease_turn_Served p lease_turn_def Let_def spender_of_credit put_simps(1) split: option.split)
  qed
qed

theorem spender_mirrors_local_tier_witness:
  "\<exists>(cfg :: unit leased) nd e. le_credits e = 3 \<and>
     (\<exists>d. spend 0 (Num 1) (spender_of cfg e) = Inr (Some d, spender_of cfg (take_credits 1 e)) \<and>
        fst (lease_check cfg ''k'' (Num 1) 0 nd) = [Served 0 d])"
proof -
  let ?cfg = "\<lparr>lc_limit = 10, lc_ttlMs = 1000, lc_prefix = None, lc_maxKeys = None, lc_batch = 10,
     lc_sizer = None, lc_lowWater = 0, lc_returnIdleAfterMs = None, lc_windowCoupled = True\<rparr> :: unit leased"
  let ?e = "(new_entry ?cfg)\<lparr>le_credits := 3\<rparr>"
  let ?nd = "put ''k'' ?e node_new"
  have c: "requireCost (Num 1) = Inr 1" by (simp add: requireCost_def max_safe_integer_def)
  obtain d where s: "spend 0 (Num 1) (spender_of ?cfg ?e) = Inr (Some d, spender_of ?cfg (take_credits 1 ?e))"
    by (simp add: spend_def c expireIfRolled_def spender_of_def new_entry_def spendLocal_def take_credits_def)
  have m: "map_of (nd_entries ?nd) (prefixer (lc_prefix ?cfg) ''k'') = Some ?e" by (simp add: prefixer_def)
  from spender_mirrors_local_tier[OF m c, of 0 d 1] s have "fst (lease_check ?cfg ''k'' (Num 1) 0 ?nd) = [Served 0 d]"
    by (simp add: node_new_def)
  with s show ?thesis by (intro exI[of _ ?cfg] exI[of _ ?nd] exI[of _ ?e]) simp
qed

end
