(* ===== verification/JsText.thy ===== *)
theory JsText
  imports Core
begin

text \<open>
  The string operations of JavaScript that the parsers of the library use, on strings of 8-bit
  characters: digits and radix conversion (\<open>toString(radix)\<close>, \<open>parseInt\<close>), \<open>split\<close>, \<open>join\<close>,
  \<open>trim\<close>, \<open>indexOf\<close>, and \<open>Number(string)\<close>; and \<open>src/core/duration.ts\<close>. The lemmas: printing and
  reading back a number, joining and splitting a list.
\<close>

section \<open>Digits\<close>

abbreviation code :: "char \<Rightarrow> nat" where
  "code \<equiv> of_char"

definition is_digit :: "char \<Rightarrow> bool" where
  "is_digit c \<longleftrightarrow> 48 \<le> code c \<and> code c \<le> 57"

text \<open>The value of a digit in any base up to sixteen, upper or lower case.\<close>

definition digit_value :: "char \<Rightarrow> nat option" where
  "digit_value c =
     (let n = code c
      in if 48 \<le> n \<and> n \<le> 57 then Some (n - 48)
         else if 97 \<le> n \<and> n \<le> 102 then Some (n - 87)
         else if 65 \<le> n \<and> n \<le> 70 then Some (n - 55)
         else None)"

definition is_digit_of :: "nat \<Rightarrow> char \<Rightarrow> bool" where
  "is_digit_of b c \<longleftrightarrow> (case digit_value c of Some d \<Rightarrow> d < b | None \<Rightarrow> False)"

definition digit_char :: "nat \<Rightarrow> char" where
  "digit_char d = char_of (if d < 10 then d + 48 else d + 87)"

fun show_radix :: "nat \<Rightarrow> nat \<Rightarrow> string" where
  "show_radix b n =
     (if b < 2 \<or> n < b then [digit_char n] else show_radix b (n div b) @ [digit_char (n mod b)])"

declare show_radix.simps [simp del]

definition read_radix :: "nat \<Rightarrow> string \<Rightarrow> nat" where
  "read_radix b s = foldl (\<lambda>acc c. acc * b + (case digit_value c of Some d \<Rightarrow> d | None \<Rightarrow> 0)) 0 s"

abbreviation show_nat :: "nat \<Rightarrow> string" where
  "show_nat \<equiv> show_radix 10"

section \<open>Splitting and joining\<close>

fun split :: "char \<Rightarrow> string \<Rightarrow> string list" where
  "split c [] = [[]]"
| "split c (x # xs) =
     (if x = c then [] # split c xs else (case split c xs of y # ys \<Rightarrow> (x # y) # ys | [] \<Rightarrow> [[x]]))"

fun join :: "string \<Rightarrow> string list \<Rightarrow> string" where
  "join sep [] = []"
| "join sep [x] = x"
| "join sep (x # y # ys) = x @ sep @ join sep (y # ys)"

definition is_space :: "char \<Rightarrow> bool" where
  "is_space c \<longleftrightarrow> code c \<in> {9, 10, 11, 12, 13, 32, 160}"

definition trim :: "string \<Rightarrow> string" where
  "trim s = rev (dropWhile is_space (rev (dropWhile is_space s)))"

fun indexOf :: "char \<Rightarrow> string \<Rightarrow> nat option" where
  "indexOf c [] = None"
| "indexOf c (x # xs) = (if x = c then Some 0 else map_option Suc (indexOf c xs))"

definition lastIndexOf :: "char \<Rightarrow> string \<Rightarrow> nat option" where
  "lastIndexOf c s = map_option (\<lambda>i. length s - 1 - i) (indexOf c (rev s))"

section \<open>\<open>Number(string)\<close>\<close>

text \<open>
  The numeric value of a string: white space around it is ignored, the empty string is zero, and the rest
  is a signed decimal with an optional fraction and exponent, an infinity, or an unsigned integer with a
  radix prefix.
\<close>

definition digits_of :: "string \<Rightarrow> string \<times> string" where
  "digits_of s = (takeWhile is_digit s, dropWhile is_digit s)"

definition read_exponent :: "string \<Rightarrow> int option" where
  "read_exponent s =
     (let (neg, ds) = (case s of c # cs \<Rightarrow> if c = CHR ''-'' then (True, cs) else if c = CHR ''+'' then (False, cs) else (False, s)
                               | [] \<Rightarrow> (False, []))
      in if ds \<noteq> [] \<and> list_all is_digit ds
         then Some (if neg then - int (read_radix 10 ds) else int (read_radix 10 ds)) else None)"

definition read_unsigned :: "string \<Rightarrow> num option" where
  "read_unsigned s =
     (let (ip, r1) = digits_of s;
          (fp, r2) = (case r1 of c # cs \<Rightarrow> if c = CHR ''.'' then digits_of cs else ([], r1) | [] \<Rightarrow> ([], []));
          mant = of_nat (read_radix 10 (ip @ fp)) / 10 ^ length fp
      in if ip = [] \<and> fp = [] then None
         else (case r2 of
                 [] \<Rightarrow> Some mant
               | c # cs \<Rightarrow>
                   if c = CHR ''e'' \<or> c = CHR ''E''
                   then map_option (\<lambda>k. mant * 10 powi k) (read_exponent cs) else None))"

definition read_prefixed :: "string \<Rightarrow> num option" where
  "read_prefixed s =
     (case s of
        z # x # ds \<Rightarrow>
          (let b = (if x = CHR ''x'' \<or> x = CHR ''X'' then 16 else if x = CHR ''o'' \<or> x = CHR ''O'' then 8
                    else if x = CHR ''b'' \<or> x = CHR ''B'' then 2 else 0)
           in if z = CHR ''0'' \<and> b \<noteq> 0 \<and> ds \<noteq> [] \<and> list_all (is_digit_of b) ds
              then Some (of_nat (read_radix b ds)) else None)
      | _ \<Rightarrow> None)"

definition js_Number :: "string \<Rightarrow> js_number" where
  "js_Number s0 =
     (let s = trim s0
      in if s = [] then Num 0
         else (case read_prefixed s of
                 Some v \<Rightarrow> js_of_real v
               | None \<Rightarrow>
                   (let (neg, u) = (case s of c # cs \<Rightarrow> if c = CHR ''-'' then (True, cs)
                                                  else if c = CHR ''+'' then (False, cs) else (False, s)
                                            | [] \<Rightarrow> (False, []))
                    in if u = ''Infinity'' then (if neg then NegInfinity else Infinity)
                       else (case read_unsigned u of
                               Some v \<Rightarrow> js_of_real (if neg then - v else v)
                             | None \<Rightarrow> NaN))))"

section \<open>Durations (duration.ts)\<close>

datatype period = PNumber js_number | PString string

definition unit_mult :: "string \<Rightarrow> num option" where
  "unit_mult u =
     (if u = [] \<or> u = ''ms'' then Some 1 else if u = ''s'' then Some 1000 else if u = ''m'' then Some 60000
      else if u = ''h'' then Some 3600000 else if u = ''d'' then Some 86400000 else None)"

text \<open>
  The regular expression: white space, digits with an optional fraction, white space, a unit or nothing,
  white space.
\<close>

definition parse_period :: "string \<Rightarrow> (string \<times> string) option" where
  "parse_period s0 =
     (let s = dropWhile is_space s0;
          (ip, r1) = digits_of s;
          (num, r2) = (case r1 of
                         c # cs \<Rightarrow> if c = CHR ''.'' \<and> fst (digits_of cs) \<noteq> []
                                   then (ip @ [c] @ fst (digits_of cs), snd (digits_of cs)) else (ip, r1)
                       | [] \<Rightarrow> (ip, []));
          u = rev (dropWhile is_space (rev (dropWhile is_space r2)))
      in if ip \<noteq> [] \<and> unit_mult u \<noteq> None then Some (num, u) else None)"

definition parseDuration :: "period \<Rightarrow> num result" where
  "parseDuration p =
     (case p of
        PNumber n \<Rightarrow> requirePositive ''period'' n
      | PString s \<Rightarrow>
          (case parse_period s of
             None \<Rightarrow> Inl (RangeError ''period'')
           | Some (n, u) \<Rightarrow>
               (case (js_Number n, unit_mult u) of
                  (Num v, Some m) \<Rightarrow> requirePositive ''period'' (js_of_real (v * m))
                | _ \<Rightarrow> Inl (RangeError ''period''))))"

section \<open>Lemmas\<close>

lemma digit_value_char: "d < 16 \<Longrightarrow> digit_value (digit_char d) = Some d"
  by (auto simp: digit_value_def digit_char_def Let_def)

lemma digit_char_is: "d < b \<Longrightarrow> b \<le> 16 \<Longrightarrow> is_digit_of b (digit_char d)"
  by (simp add: is_digit_of_def digit_value_char)

lemma show_radix_step: "2 \<le> b \<Longrightarrow> \<not> n < b \<Longrightarrow> show_radix b n = show_radix b (n div b) @ [digit_char (n mod b)]"
  by (subst show_radix.simps) simp

lemma show_radix_base: "n < b \<Longrightarrow> show_radix b n = [digit_char n]"
  by (subst show_radix.simps) simp

lemma read_radix_snoc: "read_radix b (s @ [c]) = read_radix b s * b + (case digit_value c of Some d \<Rightarrow> d | None \<Rightarrow> 0)"
  by (simp add: read_radix_def)

lemma read_show [simp]:
  assumes "2 \<le> b" "b \<le> 16"
  shows "read_radix b (show_radix b n) = n"
proof (induction n rule: less_induct)
  case (less n)
  show ?case
  proof (cases "n < b")
    case True
    then show ?thesis using assms by (simp add: show_radix_base read_radix_def digit_value_char)
  next
    case False
    then have "n div b < n" using assms by (intro div_less_dividend) auto
    moreover have "n mod b < 16" using assms by (intro less_le_trans[OF mod_less_divisor]) auto
    ultimately show ?thesis
      using False assms by (simp add: show_radix_step read_radix_snoc less digit_value_char)
  qed
qed

lemma show_radix_digits:
  assumes "2 \<le> b" "b \<le> 16"
  shows "list_all (is_digit_of b) (show_radix b n)"
proof (induction n rule: less_induct)
  case (less n)
  show ?case
  proof (cases "n < b")
    case True
    then show ?thesis using assms by (simp add: show_radix_base digit_char_is)
  next
    case False
    then have "n div b < n" using assms by (intro div_less_dividend) auto
    then show ?thesis using False assms by (simp add: show_radix_step less digit_char_is)
  qed
qed

lemma show_radix_nonempty [simp]: "show_radix b n \<noteq> []"
  by (subst show_radix.simps) simp

lemma show_radix_length:
  "2 \<le> b \<Longrightarrow> n < b ^ Suc k \<Longrightarrow> length (show_radix b n) \<le> Suc k"
proof (induction k arbitrary: n)
  case (Suc k)
  show ?case
  proof (cases "n < b")
    case False
    have "n div b < b ^ Suc k" using Suc.prems by (simp add: less_mult_imp_div_less mult.commute)
    from Suc.IH[OF Suc.prems(1) this] show ?thesis using False Suc.prems(1) by (simp add: show_radix_step)
  qed (simp add: show_radix_base)
qed (simp add: show_radix_base)

lemma show_radix_inj: "2 \<le> b \<Longrightarrow> b \<le> 16 \<Longrightarrow> show_radix b m = show_radix b n \<Longrightarrow> m = n"
  using read_show by metis

lemma is_digit_10: "is_digit_of 10 c \<longleftrightarrow> is_digit c"
  by (auto simp: is_digit_of_def is_digit_def digit_value_def Let_def)

lemma split_ne [simp]: "split c s \<noteq> []"
  by (induction s) (auto split: list.split)

lemma split_none: "c \<notin> set s \<Longrightarrow> split c s = [s]"
  by (induction s) auto

lemma split_append: "c \<notin> set s \<Longrightarrow> split c (s @ c # t) = s # split c t"
  by (induction s) auto

lemma split_join: "xs \<noteq> [] \<Longrightarrow> (\<And>x. x \<in> set xs \<Longrightarrow> c \<notin> set x) \<Longrightarrow> split c (join [c] xs) = xs"
proof (induction "[c]" xs rule: join.induct)
  case (3 x y ys)
  then show ?case by (simp add: split_append)
qed (auto simp: split_none)

lemma split_concat: "split c (s @ c # t) = split c s @ split c t"
proof (induction s)
  case (Cons x s)
  then show ?case by (cases "split c s") auto
qed simp

lemma set_join: "set (join sep xs) \<subseteq> set sep \<union> \<Union> (set ` set xs)"
  by (induction sep xs rule: join.induct) auto

lemma join_empty_iff: "(\<And>x. x \<in> set xs \<Longrightarrow> x \<noteq> []) \<Longrightarrow> join sep xs = [] \<longleftrightarrow> xs = []"
  by (induction sep xs rule: join.induct) auto

lemma last_join: "xs \<noteq> [] \<Longrightarrow> (\<And>x. x \<in> set xs \<Longrightarrow> x \<noteq> []) \<Longrightarrow> last (join sep xs) = last (last xs)"
proof (induction sep xs rule: join.induct)
  case (3 sep x y ys)
  have "join sep (y # ys) \<noteq> []" using 3(3) join_empty_iff[of "y # ys" sep] by auto
  then show ?case using 3 by simp
qed auto

lemma hd_join: "xs \<noteq> [] \<Longrightarrow> (\<And>x. x \<in> set xs \<Longrightarrow> x \<noteq> []) \<Longrightarrow> hd (join sep xs) = hd (hd xs)"
  by (induction sep xs rule: join.induct) auto

lemma dropWhile_head: "s \<noteq> [] \<Longrightarrow> \<not> P (hd s) \<Longrightarrow> dropWhile P s = s"
  by (cases s) auto

lemma trim_id: "s \<noteq> [] \<Longrightarrow> \<not> is_space (hd s) \<Longrightarrow> \<not> is_space (last s) \<Longrightarrow> trim s = s"
  by (simp add: trim_def dropWhile_head hd_rev)

lemma is_digit_not_space: "is_digit c \<Longrightarrow> \<not> is_space c"
  by (auto simp: is_digit_def is_space_def)

text \<open>A run of decimal digits is its value.\<close>

lemma read_unsigned_digits:
  assumes "s \<noteq> []" "list_all is_digit s"
  shows "read_unsigned s = Some (of_nat (read_radix 10 s))"
proof -
  have "digits_of s = (s, [])" using assms(2) by (simp add: digits_of_def list_all_iff)
  then show ?thesis using assms(1) by (simp add: read_unsigned_def Let_def)
qed

end
