(* ===== verification/Ip.thy ===== *)
theory Ip
  imports JsText "HOL-Library.Word"
begin

text \<open>
  \<open>src/security/ip.ts\<close>: the client address of a request, from the socket peer and the forwarding header
  under a trust policy, aggregated to a rate-limit key. Octets are \<open>8 word\<close>s, the groups of an IPv6 address
  \<open>16 word\<close>s, and the 32-bit integers of the IPv4 comparison \<open>32 word\<close>s. The lemmas: printing and parsing
  an IPv6 address round-trip, a CIDR entry matches exactly on its prefix bits, and forged hops at the left of
  the header cannot change the client.
\<close>

unbundle bit_operations_syntax

section \<open>Addresses\<close>

type_synonym octet = "8 word"
type_synonym group = "16 word"

text \<open>\<open>IPV4_RE\<close> and the canonical octet: one to three digits, no leading zero, at most 255.\<close>

definition parse_octet :: "string \<Rightarrow> octet option" where
  "parse_octet g =
     (if g = [] \<or> length g > 3 \<or> \<not> list_all is_digit g then None
      else if length g > 1 \<and> hd g = CHR ''0'' then None
      else if read_radix 10 g > 255 then None
      else Some (of_nat (read_radix 10 g)))"

definition parseIpv4 :: "string \<Rightarrow> octet list option" where
  "parseIpv4 s = (let gs = split CHR ''.'' s in if length gs = 4 then those (map parse_octet gs) else None)"

definition parse_group :: "string \<Rightarrow> group option" where
  "parse_group g =
     (if g \<noteq> [] \<and> length g \<le> 4 \<and> list_all (is_digit_of 16) g then Some (of_nat (read_radix 16 g)) else None)"

definition parseGroups :: "string \<Rightarrow> group list option" where
  "parseGroups part = (if part = [] then Some [] else those (map parse_group (split CHR '':'' part)))"

text \<open>The position of the first \<open>::\<close>.\<close>

fun indexOf_dbl :: "string \<Rightarrow> nat option" where
  "indexOf_dbl (x # y # zs) =
     (if x = CHR '':'' \<and> y = CHR '':'' then Some 0 else map_option Suc (indexOf_dbl (y # zs)))"
| "indexOf_dbl _ = None"

definition drop_colon :: "string \<Rightarrow> string" where
  "drop_colon s = (if s \<noteq> [] \<and> last s = CHR '':'' then butlast s else s)"

text \<open>Peel an IPv4 tail off: the rest keeps its last colon.\<close>

definition ipv4_tail :: "string \<Rightarrow> (group list option \<times> string) option" where
  "ipv4_tail s =
     (case lastIndexOf CHR '':'' s of
        None \<Rightarrow> Some (None, s)
      | Some i \<Rightarrow>
          if CHR ''.'' \<in> set (drop i s) then
            (case parseIpv4 (drop (i + 1) s) of
               Some [a, b, c, d] \<Rightarrow>
                 Some (Some [push_bit 8 (ucast a) OR ucast b, push_bit 8 (ucast c) OR ucast d], take (i + 1) s)
             | _ \<Rightarrow> None)
          else Some (None, s))"

text \<open>Split at \<open>::\<close>; a second one is an error.\<close>

definition split_dbl :: "string \<Rightarrow> (bool \<times> string \<times> string) option" where
  "split_dbl s =
     (case indexOf_dbl s of
        None \<Rightarrow> Some (False, s, [])
      | Some i \<Rightarrow> if indexOf_dbl (drop (i + 1) s) \<noteq> None then None else Some (True, take i s, drop (i + 2) s))"

definition parseIpv6 :: "string \<Rightarrow> group list option" where
  "parseIpv6 input =
     (let s0 = takeWhile (\<lambda>c. c \<noteq> CHR ''%'') input
      in if s0 = [] then None
         else (case ipv4_tail s0 of
           None \<Rightarrow> None
         | Some (v4, s) \<Rightarrow>
           (case split_dbl s of
              None \<Rightarrow> None
            | Some (compressed, headStr, tailStr) \<Rightarrow>
              (case (parseGroups (drop_colon headStr), parseGroups (drop_colon tailStr)) of
                 (Some h, Some t0) \<Rightarrow>
                   (let t = (case v4 of Some q \<Rightarrow> t0 @ q | None \<Rightarrow> t0)
                    in if compressed then
                         (if length h + length t > 8 then None
                          else Some (h @ replicate (8 - (length h + length t)) 0 @ t))
                       else if length h + length t \<noteq> 8 then None
                       else Some (h @ t))
               | _ \<Rightarrow> None))))"

text \<open>The longest run of zero groups: \<open>(i, best, current)\<close>, a run being its start and length.\<close>

fun zero_run :: "nat \<Rightarrow> nat \<times> nat \<Rightarrow> nat \<times> nat \<Rightarrow> group list \<Rightarrow> nat \<times> nat" where
  "zero_run i best cur [] = best"
| "zero_run i best cur (g # gs) =
     (if g = 0 then
        (let cur' = (if snd cur = 0 then (i, 1) else (fst cur, snd cur + 1))
         in zero_run (i + 1) (if snd cur' > snd best then cur' else best) cur' gs)
      else zero_run (i + 1) best (0, 0) gs)"

definition show_group :: "group \<Rightarrow> string" where
  "show_group g = show_radix 16 (unat g)"

definition formatIpv6 :: "group list \<Rightarrow> string" where
  "formatIpv6 groups =
     (let (bestStart, bestLen) = zero_run 0 (0, 0) (0, 0) groups
      in if bestLen < 2 then join '':'' (map show_group groups)
         else join '':'' (map show_group (take bestStart groups)) @ ''::'' @
              join '':'' (map show_group (drop (bestStart + bestLen) groups)))"

definition ipv4MappedTail :: "group list \<Rightarrow> octet list option" where
  "ipv4MappedTail groups =
     (if (\<forall>i<5. groups ! i = 0) \<and> groups ! 5 = 0xffff
      then Some [ucast (drop_bit 8 (groups ! 6)), ucast (groups ! 6), ucast (drop_bit 8 (groups ! 7)), ucast (groups ! 7)]
      else None)"

fun maskIpv6 :: "group list \<Rightarrow> int \<Rightarrow> group list" where
  "maskIpv6 [] bits = []"
| "maskIpv6 (g # gs) bits =
     (if bits \<ge> 16 then g # maskIpv6 gs (bits - 16)
      else if bits \<le> 0 then 0 # maskIpv6 gs bits
      else (g AND push_bit (nat (16 - bits)) 0xffff) # maskIpv6 gs 0)"

section \<open>CIDR matching\<close>

definition stripHost :: "string \<Rightarrow> string" where
  "stripHost addr =
     (let s = trim addr;
          s1 = (case s of
                  c # cs \<Rightarrow> if c = CHR ''['' \<and> CHR '']'' \<in> set s then takeWhile (\<lambda>c. c \<noteq> CHR '']'') cs else s
                | [] \<Rightarrow> s)
      in takeWhile (\<lambda>c. c \<noteq> CHR ''%'') s1)"

definition ip_int :: "octet list \<Rightarrow> 32 word" where
  "ip_int v = push_bit 24 (ucast (v ! 0)) OR push_bit 16 (ucast (v ! 1)) OR push_bit 8 (ucast (v ! 2)) OR ucast (v ! 3)"

definition ipv4InCidr :: "octet list \<Rightarrow> octet list \<Rightarrow> nat \<Rightarrow> bool" where
  "ipv4InCidr octets net prefix =
     (if prefix = 0 then True
      else let m = (if prefix \<ge> 32 then -1 else NOT (drop_bit prefix (-1 :: 32 word)))
           in ip_int octets AND m = ip_int net AND m)"

definition ipv6InCidr :: "group list \<Rightarrow> group list \<Rightarrow> nat \<Rightarrow> bool" where
  "ipv6InCidr groups net prefix = (maskIpv6 groups (int prefix) = maskIpv6 net (int prefix))"

datatype address = V4 "octet list" | V6 "group list" | Opaque

definition normalize :: "string \<Rightarrow> address" where
  "normalize raw =
     (case parseIpv4 raw of
        Some v4 \<Rightarrow> V4 v4
      | None \<Rightarrow>
          (case parseIpv6 raw of
             None \<Rightarrow> Opaque
           | Some v6 \<Rightarrow> (case ipv4MappedTail v6 of Some v4 \<Rightarrow> V4 v4 | None \<Rightarrow> V6 v6)))"

text \<open>\<open>Number(prefix)\<close> if it is an integer of at least zero.\<close>

definition read_prefix :: "string \<Rightarrow> int option" where
  "read_prefix s =
     (case js_Number s of
        Num p \<Rightarrow> if js_floor p = p \<and> p \<ge> 0 then Some \<lfloor>p\<rfloor> else None
      | _ \<Rightarrow> None)"

definition addrMatchesEntry :: "string \<Rightarrow> string \<Rightarrow> bool" where
  "addrMatchesEntry addr entry =
     (let slash = indexOf CHR ''/'' entry;
          entryAddr = stripHost (case slash of None \<Rightarrow> entry | Some i \<Rightarrow> take i entry);
          entryPrefix = (case slash of None \<Rightarrow> None | Some i \<Rightarrow> Some (drop (i + 1) entry))
      in case (normalize addr, normalize entryAddr) of
           (V4 t, V4 n) \<Rightarrow>
             (case entryPrefix of
                None \<Rightarrow> ipv4InCidr t n 32
              | Some ps \<Rightarrow>
                  (case read_prefix ps of
                     None \<Rightarrow> False
                   | Some p0 \<Rightarrow>
                       (let p = (if CHR '':'' \<in> set entryAddr then p0 - 96 else p0)
                        in if p < 0 \<or> p > 32 then False else ipv4InCidr t n (nat p))))
         | (V6 t, V6 n) \<Rightarrow>
             (case entryPrefix of
                None \<Rightarrow> ipv6InCidr t n 128
              | Some ps \<Rightarrow>
                  (case read_prefix ps of
                     None \<Rightarrow> False
                   | Some p \<Rightarrow> if p > 128 then False else ipv6InCidr t n (nat p)))
         | _ \<Rightarrow> False)"

section \<open>The client\<close>

definition show_ipv4 :: "octet list \<Rightarrow> string" where
  "show_ipv4 v = join ''.'' (map (\<lambda>b. show_nat (unat b)) v)"

definition canonicalizeAddr :: "string \<Rightarrow> string option" where
  "canonicalizeAddr raw =
     (let s = stripHost raw
      in if s = [] then None
         else if parseIpv4 s \<noteq> None then Some s
         else (case parseIpv6 s of
                 Some v6 \<Rightarrow> (case ipv4MappedTail v6 of Some v4 \<Rightarrow> Some (show_ipv4 v4) | None \<Rightarrow> Some (formatIpv6 v6))
               | None \<Rightarrow> None))"

datatype xff = XAbsent | XOne string | XMany "string list"

definition parseXff :: "xff \<Rightarrow> string list" where
  "parseXff x =
     List.map_filter canonicalizeAddr
       (case x of XAbsent \<Rightarrow> [] | XOne s \<Rightarrow> split CHR '','' s | XMany ps \<Rightarrow> concat (map (split CHR '','') ps))"

definition aggregate :: "string \<Rightarrow> int \<Rightarrow> string" where
  "aggregate addr ipv6Prefix =
     (if parseIpv4 addr \<noteq> None then addr
      else (case parseIpv6 addr of
              None \<Rightarrow> addr
            | Some v6 \<Rightarrow> (case ipv4MappedTail v6 of
                            Some v4 \<Rightarrow> show_ipv4 v4
                          | None \<Rightarrow> formatIpv6 (maskIpv6 v6 ipv6Prefix))))"

datatype trust = Distrust | Hops js_number | Allowlist "string list"

definition ipv6_prefix :: "js_number option \<Rightarrow> int" where
  "ipv6_prefix p =
     (case p of
        Some (Num x) \<Rightarrow> if js_floor x = x \<and> 0 \<le> x \<and> x \<le> 128 then \<lfloor>x\<rfloor> else 64
      | _ \<Rightarrow> 64)"

text \<open>
  \<open>Math.max(0, length - 1 - Math.max(0, Math.floor(n)))\<close> as an index; with \<open>NaN\<close> the index is \<open>NaN\<close> and
  the read yields \<open>undefined\<close>, so the peer is used.
\<close>

definition client_hops :: "js_number \<Rightarrow> string list \<Rightarrow> string \<Rightarrow> string" where
  "client_hops n chain remote =
     (case n of
        NaN \<Rightarrow> remote
      | Infinity \<Rightarrow> hd chain
      | NegInfinity \<Rightarrow> last chain
      | Num x \<Rightarrow> chain ! nat (max 0 (int (length chain) - 1 - max 0 \<lfloor>x\<rfloor>)))"

text \<open>The rightmost address that is not trusted, else the leftmost.\<close>

definition client_allowlist :: "string list \<Rightarrow> string list \<Rightarrow> string" where
  "client_allowlist entries chain =
     (case find (\<lambda>a. \<not> (\<exists>e\<in>set entries. addrMatchesEntry a e)) (rev chain) of
        Some a \<Rightarrow> a
      | None \<Rightarrow> hd chain)"

definition clientIp :: "string \<Rightarrow> xff \<Rightarrow> trust option \<Rightarrow> js_number option \<Rightarrow> string" where
  "clientIp remoteAddr x trustProxy prefix =
     (let p = ipv6_prefix prefix;
          remote = (case canonicalizeAddr remoteAddr of Some a \<Rightarrow> a | None \<Rightarrow> trim remoteAddr);
          chain = parseXff x @ [remote]
      in case trustProxy of
           Some (Hops n) \<Rightarrow> aggregate (client_hops n chain remote) p
         | Some (Allowlist es) \<Rightarrow> aggregate (client_allowlist es chain) p
         | _ \<Rightarrow> aggregate remote p)"

section \<open>Lemmas: printing and parsing\<close>

lemma hex_char: "is_digit_of 16 c \<Longrightarrow> c \<noteq> CHR '':'' \<and> c \<noteq> CHR ''.'' \<and> c \<noteq> CHR ''%'' \<and> c \<noteq> CHR ''/''"
  by (auto simp: is_digit_of_def digit_value_def Let_def)

lemma show_group_hex: "list_all (is_digit_of 16) (show_group g)"
  by (simp add: show_group_def show_radix_digits)

lemma show_group_ne [simp]: "show_group g \<noteq> []"
  by (simp add: show_group_def)

lemma show_group_no: "CHR '':'' \<notin> set (show_group g)" "CHR ''.'' \<notin> set (show_group g)" "CHR ''%'' \<notin> set (show_group g)"
  using show_group_hex[of g] hex_char by (auto simp: list_all_iff)

lemma parse_show_group [simp]: "parse_group (show_group g) = Some g"
proof -
  have "unat g < 2 ^ LENGTH(16)" by (rule unsigned_less)
  then have "unat g < 16 ^ Suc 3" by simp
  then have "length (show_group g) \<le> Suc 3" unfolding show_group_def by (intro show_radix_length) auto
  then show ?thesis using show_group_hex[of g] by (simp add: parse_group_def show_group_def)
qed

lemma those_map_Some: "(\<And>x. x \<in> set xs \<Longrightarrow> f (g x) = Some x) \<Longrightarrow> those (map f (map g xs)) = Some xs"
  by (induction xs) auto

abbreviation show_groups :: "group list \<Rightarrow> string" where
  "show_groups gs \<equiv> join '':'' (map show_group gs)"

lemma show_groups_empty [simp]: "show_groups gs = [] \<longleftrightarrow> gs = []"
  by (subst join_empty_iff) auto

lemma parse_show_groups [simp]: "parseGroups (show_groups gs) = Some gs"
proof (cases "gs = []")
  case False
  then have "split CHR '':'' (show_groups gs) = map show_group gs"
    by (intro split_join) (auto simp: show_group_no)
  then show ?thesis using False those_map_Some[of gs parse_group show_group] by (simp add: parseGroups_def)
qed (simp add: parseGroups_def)

lemma show_groups_chars: "c \<in> set (show_groups gs) \<Longrightarrow> c = CHR '':'' \<or> is_digit_of 16 c"
  using set_join[of "'':''" "map show_group gs"] show_group_hex by (fastforce simp: list_all_iff)

lemma show_groups_no: "CHR ''.'' \<notin> set (show_groups gs)" "CHR ''%'' \<notin> set (show_groups gs)"
  using show_groups_chars hex_char by fastforce+

lemma show_groups_last: "gs \<noteq> [] \<Longrightarrow> last (show_groups gs) \<noteq> CHR '':''"
  using show_group_no(1)[of "last gs"] by (subst last_join) (auto simp: last_map, metis last_in_set show_group_ne)

lemma show_groups_hd: "gs \<noteq> [] \<Longrightarrow> hd (show_groups gs) \<noteq> CHR '':''"
  using show_group_no(1)[of "hd gs"] by (subst hd_join) (auto simp: hd_map, metis hd_in_set show_group_ne)

lemma drop_colon_groups [simp]: "drop_colon (show_groups gs) = show_groups gs"
  using show_groups_last[of gs] by (auto simp: drop_colon_def)

text \<open>Where the first \<open>::\<close> is.\<close>

lemma dbl_append:
  "CHR '':'' \<notin> set s \<Longrightarrow> s \<noteq> [] \<Longrightarrow> indexOf_dbl (s @ t) = map_option (\<lambda>i. i + length s) (indexOf_dbl t)"
proof (induction s)
  case (Cons x s)
  show ?case
  proof (cases s)
    case Nil
    then show ?thesis using Cons.prems by (cases t) (simp_all add: comp_def)
  next
    case (Cons y zs)
    then show ?thesis using Cons.IH Cons.prems by (auto simp: option.map_comp comp_def)
  qed
qed simp

lemma dbl_groups: "indexOf_dbl (show_groups gs) = None"
proof (induction gs rule: induct_list012)
  case (2 g)
  show ?case using dbl_append[of "show_group g" "[]"] show_group_no(1)[of g] by simp
next
  case (3 g h gs)
  obtain c cs where e: "show_groups (h # gs) = c # cs" using show_groups_empty[of "h # gs"] by (cases "show_groups (h # gs)") blast+
  have "c \<noteq> CHR '':''" using show_groups_hd[of "h # gs"] unfolding e by simp
  then have "indexOf_dbl (CHR '':'' # show_groups (h # gs)) = None" using 3(2) unfolding e by simp
  then show ?case using dbl_append[of "show_group g" "CHR '':'' # show_groups (h # gs)"] show_group_no(1)[of g] by simp
qed simp

lemma dbl_first:
  "indexOf_dbl s = None \<Longrightarrow> s = [] \<or> last s \<noteq> CHR '':'' \<Longrightarrow> indexOf_dbl (s @ ''::'' @ t) = Some (length s)"
proof (induction s rule: indexOf_dbl.induct)
  case (1 x y zs)
  then show ?case by (auto split: if_splits)
qed auto

lemma split_dbl_groups: "split_dbl (show_groups hs @ ''::'' @ show_groups ts) = Some (True, show_groups hs, show_groups ts)"
proof -
  let ?s = "show_groups hs @ ''::'' @ show_groups ts"
  have 1: "indexOf_dbl ?s = Some (length (show_groups hs))"
    using dbl_groups[of hs] show_groups_last[of hs] by (intro dbl_first) auto
  have 2: "indexOf_dbl (drop (length (show_groups hs) + 1) ?s) = None"
    using dbl_groups[of ts] show_groups_hd[of ts] by (cases "show_groups ts") (auto, fastforce)
  show ?thesis using 1 2 by (simp add: split_dbl_def)
qed

lemma takeWhile_all: "c \<notin> set s \<Longrightarrow> takeWhile (\<lambda>x. x \<noteq> c) s = s"
  by (induction s) auto

lemma ipv4_tail_none: "CHR ''.'' \<notin> set s \<Longrightarrow> ipv4_tail s = Some (None, s)"
  by (auto simp: ipv4_tail_def dest: in_set_dropD split: option.split)

text \<open>The run found is a run of zeros.\<close>

definition zeros_at :: "group list \<Rightarrow> nat \<times> nat \<Rightarrow> bool" where
  "zeros_at gs r \<longleftrightarrow> fst r + snd r \<le> length gs \<and> (\<forall>j. j < snd r \<longrightarrow> gs ! (fst r + j) = 0)"

lemma zero_run_zeros:
  assumes "zeros_at (pre @ gs) best" "zeros_at (pre @ gs) cur" "snd cur > 0 \<longrightarrow> fst cur + snd cur = length pre" "i = length pre"
  shows "zeros_at (pre @ gs) (zero_run i best cur gs)"
  using assms
proof (induction gs arbitrary: pre i best cur)
  case (Cons g gs)
  have eq: "pre @ g # gs = (pre @ [g]) @ gs" by simp
  show ?case
  proof (cases "g = 0")
    case True
    let ?c = "if snd cur = 0 then (i, 1) else (fst cur, snd cur + 1)"
    have "(pre @ g # gs) ! (fst cur + j) = 0" if "snd cur \<noteq> 0" "j < snd cur + 1" for j
      using Cons.prems(2,3) that True by (cases "j = snd cur") (auto simp: zeros_at_def less_Suc_eq)
    then have c: "zeros_at (pre @ g # gs) ?c" "fst ?c + snd ?c = length (pre @ [g])"
      using Cons.prems(3,4) True by (auto simp: zeros_at_def)
    have b: "zeros_at (pre @ g # gs) (if snd ?c > snd best then ?c else best)" using c Cons.prems(1) by simp
    have "zeros_at ((pre @ [g]) @ gs) (zero_run (i + 1) (if snd ?c > snd best then ?c else best) ?c gs)"
      by (rule Cons.IH) (use b c Cons.prems(4) in auto)
    then show ?thesis using True by (simp add: Let_def)
  next
    case False
    have "zeros_at ((pre @ [g]) @ gs) (zero_run (i + 1) best (0, 0) gs)"
      by (rule Cons.IH) (use Cons.prems in \<open>auto simp: zeros_at_def\<close>)
    then show ?thesis using False by simp
  qed
qed simp

lemma zero_run_split:
  assumes "zero_run 0 (0, 0) (0, 0) gs = (b, l)"
  shows "gs = take b gs @ replicate l 0 @ drop (b + l) gs" "b + l \<le> length gs"
proof -
  have z: "zeros_at gs (b, l)" using zero_run_zeros[of "[]" gs "(0, 0)" "(0, 0)" 0] assms by (simp add: zeros_at_def)
  have "take l (drop b gs) = replicate l 0"
    using z by (auto simp: zeros_at_def list_eq_iff_nth_eq)
  then show "gs = take b gs @ replicate l 0 @ drop (b + l) gs"
    by (metis append_take_drop_id drop_drop add.commute)
  show "b + l \<le> length gs" using z by (simp add: zeros_at_def)
qed

lemma parse_format:
  assumes "length gs = 8"
  shows "parseIpv6 (formatIpv6 gs) = Some gs"
proof -
  obtain b l where r: "zero_run 0 (0, 0) (0, 0) gs = (b, l)" by (cases "zero_run 0 (0, 0) (0, 0) gs")
  show ?thesis
  proof (cases "l < 2")
    case True
    have f: "formatIpv6 gs = show_groups gs" using True r by (simp add: formatIpv6_def)
    have n: "gs \<noteq> []" using assms by auto
    have "split_dbl (show_groups gs) = Some (False, show_groups gs, [])" by (simp add: split_dbl_def dbl_groups)
    moreover have "parseGroups (drop_colon []) = Some []" by (simp add: drop_colon_def parseGroups_def)
    ultimately show ?thesis
      using assms n show_groups_no[of gs]
      by (simp add: f parseIpv6_def takeWhile_all ipv4_tail_none Let_def)
  next
    case False
    let ?h = "take b gs" and ?t = "drop (b + l) gs"
    let ?s = "show_groups ?h @ ''::'' @ show_groups ?t"
    have f: "formatIpv6 gs = ?s" using False r by (simp add: formatIpv6_def)
    have no: "CHR ''.'' \<notin> set ?s" "CHR ''%'' \<notin> set ?s" using show_groups_no[of ?h] show_groups_no[of ?t] by auto
    note z = zero_run_split[OF r]
    have len: "length ?h = b" "length ?t = 8 - (b + l)" using z(2) assms by auto
    have "parseIpv6 ?s = Some (?h @ replicate (8 - (length ?h + length ?t)) 0 @ ?t)"
      unfolding parseIpv6_def Let_def takeWhile_all[OF no(2)] ipv4_tail_none[OF no(1)]
      using split_dbl_groups[of ?h ?t] len z(2) assms by simp
    also have "8 - (length ?h + length ?t) = l" using len z(2) assms by simp
    finally show ?thesis unfolding f using z(1) by simp
  qed
qed

lemma formatIpv6_inj: "length a = 8 \<Longrightarrow> length b = 8 \<Longrightarrow> formatIpv6 a = formatIpv6 b \<Longrightarrow> a = b"
  using parse_format by (metis option.inject)

section \<open>Lemmas: prefixes\<close>

text \<open>An address as its bits, the most significant first.\<close>

definition word_bits :: "'a::len word \<Rightarrow> bool list" where
  "word_bits w = map (bit w) (rev [0..<LENGTH('a)])"

definition addr_bits :: "'a::len word list \<Rightarrow> bool list" where
  "addr_bits ws = concat (map word_bits ws)"

lemma word_bits_length [simp]: "length (word_bits (w :: 'a::len word)) = LENGTH('a)"
  by (simp add: word_bits_def)

lemma word_bits_nth: "i < LENGTH('a) \<Longrightarrow> word_bits (w :: 'a::len word) ! i = bit w (LENGTH('a) - 1 - i)"
  by (simp add: word_bits_def rev_nth)

lemma word_bits_inj: "word_bits (v :: 'a::len word) = word_bits w \<longleftrightarrow> v = w"
  by (auto simp: word_bits_def bit_word_eqI)

lemma take_word_bits:
  fixes v w :: "'a::len word"
  shows "k \<le> LENGTH('a) \<Longrightarrow> take k (word_bits v) = take k (word_bits w) \<longleftrightarrow>
     (\<forall>n. LENGTH('a) - k \<le> n \<longrightarrow> n < LENGTH('a) \<longrightarrow> bit v n = bit w n)"
proof
  assume k: "k \<le> LENGTH('a)" and eq: "take k (word_bits v) = take k (word_bits w)"
  show "\<forall>n. LENGTH('a) - k \<le> n \<longrightarrow> n < LENGTH('a) \<longrightarrow> bit v n = bit w n"
  proof (intro allI impI)
    fix n assume n: "LENGTH('a) - k \<le> n" "n < LENGTH('a)"
    let ?i = "LENGTH('a) - 1 - n"
    have "?i < k" using n k by linarith
    then have vw: "word_bits v ! ?i = word_bits w ! ?i" using eq by (metis nth_take)
    have b: "word_bits x ! ?i = bit x n" for x :: "'a word"
    proof -
      have n': "n \<le> LENGTH('a) - 1" using n(2) by simp
      have i: "?i < LENGTH('a)" using n(2) by simp
      have e: "LENGTH('a) - 1 - ?i = n" by (rule diff_diff_cancel[OF n'])
      show ?thesis by (rule trans[OF word_bits_nth[OF i] arg_cong[OF e, of "bit x"]])
    qed
    show "bit v n = bit w n" using vw by (simp only: b)
  qed
next
  assume "k \<le> LENGTH('a)" "\<forall>n. LENGTH('a) - k \<le> n \<longrightarrow> n < LENGTH('a) \<longrightarrow> bit v n = bit w n"
  then show "take k (word_bits v) = take k (word_bits w)"
    by (auto simp: list_eq_iff_nth_eq word_bits_nth)
qed

text \<open>Masking a word keeps its first bits.\<close>

lemma mask_bits:
  fixes v w m :: "'a::len word"
  assumes "k \<le> LENGTH('a)" "\<And>n. n < LENGTH('a) \<Longrightarrow> bit m n \<longleftrightarrow> LENGTH('a) - k \<le> n"
  shows "v AND m = w AND m \<longleftrightarrow> take k (word_bits v) = take k (word_bits w)"
proof -
  have "v AND m = w AND m \<longleftrightarrow> (\<forall>n<LENGTH('a). LENGTH('a) - k \<le> n \<longrightarrow> bit v n = bit w n)"
    using assms(2) by (auto simp: bit_eq_iff bit_and_iff possible_bit_word)
  then show ?thesis using take_word_bits[OF assms(1), of v w] by blast
qed

lemma group_mask_bits:
  fixes g h :: group
  assumes "0 < k" "k < 16"
  shows "g AND push_bit (16 - k) 0xffff = h AND push_bit (16 - k) 0xffff \<longleftrightarrow> take k (word_bits g) = take k (word_bits h)"
proof (rule mask_bits)
  have ones: "(0xffff :: group) = mask 16" by (simp add: mask_eq_exp_minus_1)
  show "bit (push_bit (16 - k) 0xffff :: group) n \<longleftrightarrow> LENGTH(16) - k \<le> n" if "n < LENGTH(16)" for n
    using that unfolding ones by (auto simp: bit_push_bit_iff bit_mask_iff possible_bit_word)
qed (use assms in auto)

lemma maskIpv6_length [simp]: "length (maskIpv6 gs p) = length gs"
  by (induction gs p rule: maskIpv6.induct) auto

lemma maskIpv6_zero: "bits \<le> 0 \<Longrightarrow> maskIpv6 gs bits = map (\<lambda>_. 0) gs"
  by (induction gs) auto

lemma maskIpv6_bits:
  "length a = length b \<Longrightarrow> maskIpv6 a (int p) = maskIpv6 b (int p) \<longleftrightarrow> take p (addr_bits a) = take p (addr_bits b)"
proof (induction a b arbitrary: p rule: list_induct2)
  case (Cons g gs h hs)
  have z: "maskIpv6 gs 0 = maskIpv6 hs 0" using Cons.hyps by (simp add: maskIpv6_zero[OF order_refl] map_replicate_const)
  consider (full) "16 \<le> p" | (none) "p = 0" | (part) "0 < p" "p < 16" by linarith
  then show ?case
  proof cases
    case full
    have m: "maskIpv6 (x # xs) (int p) = x # maskIpv6 xs (int (p - 16))" for x xs using full by (simp add: of_nat_diff)
    have t: "take p (addr_bits (x # xs)) = word_bits x @ take (p - 16) (addr_bits xs)" for x :: group and xs
      using full by (simp add: addr_bits_def)
    have "length (word_bits g) = length (word_bits h)" by simp
    then show ?thesis unfolding t m by (simp only: Cons.IH append_eq_append_conv list.inject word_bits_inj simp_thms)
  next
    case none
    then show ?thesis using z by simp
  next
    case part
    have t: "take p (addr_bits (x # xs)) = take p (word_bits x)" for x :: group and xs
      using part by (simp add: addr_bits_def)
    have n: "nat (16 - int p) = 16 - p" using part by simp
    have "maskIpv6 (x # xs) (int p) = (x AND push_bit (16 - p) 0xffff) # maskIpv6 xs 0" for x xs
      using part by (simp add: n)
    then show ?thesis unfolding t by (simp only: z list.inject simp_thms group_mask_bits[OF part])
  qed
qed simp

lemma ip_int_bits:
  assumes "length v = 4"
  shows "word_bits (ip_int v) = addr_bits v"
proof -
  obtain a b c d where v: "v = [a, b, c, d]"
    using assms by (auto simp: numeral_eq_Suc length_Suc_conv)
  have e: "rev [0..<32] = [31,30,29,28,27,26,25,24,23,22,21,20,19,18,17,16,15,14,13,12,11,10,9,8,7,6,5,4,3,2,1,0::nat]"
    "rev [0..<8] = [7,6,5,4,3,2,1,0::nat]" by (simp_all add: upt_rec numeral_eq_Suc)
  have b8: "\<not> bit (x :: octet) n" if "8 \<le> n" for x n using that bit_imp_le_length[of x n] by auto
  show ?thesis
    by (simp add: v word_bits_def addr_bits_def ip_int_def e bit_or_iff bit_push_bit_iff bit_ucast_iff possible_bit_word b8)
qed

lemma ipv4InCidr_bits:
  assumes "length v = 4" "length n = 4" "p \<le> 32"
  shows "ipv4InCidr v n p \<longleftrightarrow> take p (addr_bits v) = take p (addr_bits n)"
proof (cases "p = 0")
  case False
  let ?m = "if p \<ge> 32 then -1 else NOT (drop_bit p (-1 :: 32 word))"
  have "bit ?m i \<longleftrightarrow> LENGTH(32) - p \<le> i" if "i < LENGTH(32)" for i
    using that assms(3) False by (auto simp: bit_not_iff bit_drop_bit_eq bit_mask_iff possible_bit_word)
  then have "ip_int v AND ?m = ip_int n AND ?m \<longleftrightarrow> take p (word_bits (ip_int v)) = take p (word_bits (ip_int n))"
    using assms(3) by (intro mask_bits) auto
  then show ?thesis using False by (simp add: ipv4InCidr_def ip_int_bits assms)
qed (simp add: ipv4InCidr_def)

section \<open>Lemmas: the chain\<close>

lemma parseXff_append:
  "parseXff (XOne (f @ '','' @ r)) = parseXff (XOne f) @ parseXff (XOne r)"
proof -
  have "split CHR '','' (f @ '','' @ r) = split CHR '','' f @ split CHR '','' r" using split_concat[of "CHR '',''" f r] by simp
  then show ?thesis by (simp add: parseXff_def List.map_filter_def)
qed

lemma client_hops_append:
  "c \<noteq> [] \<Longrightarrow> \<lfloor>n\<rfloor> < int (length c) \<Longrightarrow> client_hops (Num n) (f @ c) remote = client_hops (Num n) c remote"
proof -
  assume ne: "c \<noteq> []" and n: "\<lfloor>n\<rfloor> < int (length c)"
  let ?h = "nat (max 0 \<lfloor>n\<rfloor>)"
  show ?thesis
  proof (cases "length c")
    case 0
    then show ?thesis using ne by simp
  next
    case (Suc m)
    have h: "?h \<le> m" using n Suc by auto
    have "nat (max 0 (int (length c) - 1 - max 0 \<lfloor>n\<rfloor>)) = m - ?h"
      "nat (max 0 (int (length (f @ c)) - 1 - max 0 \<lfloor>n\<rfloor>)) = length f + (m - ?h)"
      using h Suc by auto
    then show ?thesis unfolding client_hops_def by (simp add: nth_append)
  qed
qed

lemma find_append: "find P (xs @ ys) = (case find P xs of Some a \<Rightarrow> Some a | None \<Rightarrow> find P ys)"
  by (induction xs) auto

lemma client_allowlist_append:
  "\<exists>a\<in>set c. \<not> (\<exists>e\<in>set es. addrMatchesEntry a e) \<Longrightarrow> client_allowlist es (f @ c) = client_allowlist es c"
proof -
  let ?P = "\<lambda>a. \<not> (\<exists>e\<in>set es. addrMatchesEntry a e)"
  assume "\<exists>a\<in>set c. ?P a"
  then have "find ?P (rev c) \<noteq> None" by (auto simp: find_None_iff)
  then show ?thesis by (auto simp: client_allowlist_def find_append split: option.split)
qed

section \<open>Lemmas: entries\<close>

lemma those_length: "those xs = Some ys \<Longrightarrow> length ys = length xs"
  by (induction xs arbitrary: ys) (auto split: option.splits)

lemma parseIpv4_length: "parseIpv4 s = Some v \<Longrightarrow> length v = 4"
  by (auto simp: parseIpv4_def Let_def dest: those_length split: if_splits)

lemma parseIpv6_length: "parseIpv6 s = Some v \<Longrightarrow> length v = 8"
  by (auto simp: parseIpv6_def Let_def split: if_splits option.splits prod.splits)

lemma normalize_V4: "normalize s = V4 v \<Longrightarrow> length v = 4"
  by (auto simp: normalize_def ipv4MappedTail_def dest: parseIpv4_length split: option.splits if_splits)

lemma normalize_V6:
  "normalize s = V6 v \<Longrightarrow> parseIpv4 s = None \<and> parseIpv6 s = Some v \<and> ipv4MappedTail v = None \<and> length v = 8"
  by (auto simp: normalize_def dest: parseIpv6_length split: option.splits)

lemma indexOf_append: "c \<notin> set s \<Longrightarrow> indexOf c (s @ c # t) = Some (length s)"
  by (induction s) auto

lemma js_of_small: "p \<le> 128 \<Longrightarrow> js_of_real (of_nat p) = Num (of_nat p)"
  by (cases "p = 0") (simp_all add: js_of_real_def)

lemma js_Number_nat: "p \<le> 128 \<Longrightarrow> js_Number (show_nat p) = Num (of_nat p)"
proof -
  assume p: "p \<le> 128"
  let ?s = "show_nat p"
  have d: "list_all is_digit ?s" using show_radix_digits[of 10 p] by (simp add: list_all_iff is_digit_10)
  have ne: "?s \<noteq> []" by simp
  have dg: "is_digit c" if "c \<in> set ?s" for c using d that by (simp add: list_all_iff)
  have t: "trim ?s = ?s" using ne dg by (intro trim_id) (auto simp: is_digit_not_space)
  obtain c cs where s: "?s = c # cs" using ne by (cases ?s) blast+
  have c: "is_digit c" using dg[of c] s by simp
  then have c': "c \<noteq> CHR ''-''" "c \<noteq> CHR ''+''" "c \<noteq> CHR ''I''" by (auto simp: is_digit_def)
  have pre: "read_prefixed ?s = None"
  proof (cases cs)
    case (Cons x xs)
    then have "is_digit x" using dg[of x] s by simp
    then have "x \<noteq> CHR ''x''" "x \<noteq> CHR ''X''" "x \<noteq> CHR ''o''" "x \<noteq> CHR ''O''" "x \<noteq> CHR ''b''" "x \<noteq> CHR ''B''"
      by (auto simp: is_digit_def)
    then show ?thesis using Cons s by (simp add: read_prefixed_def)
  qed (use s in \<open>simp add: read_prefixed_def\<close>)
  have inf: "?s \<noteq> ''Infinity''" using s c' by auto
  have sg: "(case ?s of c # cs \<Rightarrow> if c = CHR ''-'' then (True, cs) else if c = CHR ''+'' then (False, cs) else (False, ?s)
      | [] \<Rightarrow> (False, [])) = (False, ?s)" using s c' by simp
  have ru: "read_unsigned ?s = Some (of_nat p)" using read_unsigned_digits[OF ne d] by simp
  show ?thesis
    unfolding js_Number_def t Let_def sg using ne pre inf ru js_of_small[OF p] by simp
qed

lemma read_prefix_nat: "p \<le> 128 \<Longrightarrow> read_prefix (show_nat p) = Some (int p)"
  by (simp add: read_prefix_def js_Number_nat)

text \<open>
  What the parser lets through although its comments say otherwise: a trailing colon, and a \<open>::\<close> that
  stands for nothing.
\<close>

lemma trailing_colon_accepted: "parseIpv6 ''1:2:3:4:5:6:7:8:'' = Some [1, 2, 3, 4, 5, 6, 7, 8]"
  by code_simp

lemma empty_compression_accepted: "parseIpv6 ''1:2:3:4::5:6:7:8'' = Some [1, 2, 3, 4, 5, 6, 7, 8]"
  by code_simp

text \<open>An entry whose prefix is left out after the slash trusts every IPv4 address: \<open>Number\<close> of the empty string is zero.\<close>

lemma empty_prefix_trusts_all: "normalize addr = V4 v \<Longrightarrow> addrMatchesEntry addr ''10.0.0.0/''"
proof -
  assume n: "normalize addr = V4 v"
  have "stripHost ''10.0.0.0'' = ''10.0.0.0''" "normalize ''10.0.0.0'' = V4 [10, 0, 0, 0]" by code_simp+
  moreover have "read_prefix [] = Some 0" by (simp add: read_prefix_def js_Number_def trim_def)
  ultimately show ?thesis using n by (simp add: addrMatchesEntry_def Let_def ipv4InCidr_def)
qed

section \<open>Correctness\<close>

text \<open>
  C37. The canonical form of an IPv6 address (lower case, the longest run of zero groups compressed) parses
  back to the same eight groups, so no two addresses share a canonical form.
\<close>

theorem ipv6_round_trip:
  assumes "length gs = 8"
  shows "parseIpv6 (formatIpv6 gs) = Some gs"
  by (rule parse_format[OF assms])

theorem ipv6_round_trip_witness:
  "parseIpv6 (formatIpv6 [0x2001, 0xdb8, 0, 0, 1, 0, 0, 1]) = Some [0x2001, 0xdb8, 0, 0, 1, 0, 0, 1]"
  by (rule ipv6_round_trip) simp

text \<open>
  Prefix semantics. A CIDR entry \<open>net/p\<close> trusts exactly the addresses of the family of \<open>net\<close> whose first
  \<open>p\<close> bits are those of \<open>net\<close> (IPv4 up to 32 bits, IPv6 up to 128), and two IPv6 clients are aggregated to
  one rate-limit key exactly when their first \<open>p\<close> bits agree.
\<close>

theorem cidr_prefix_semantics:
  assumes "CHR ''/'' \<notin> set net"
  shows "(normalize addr = V4 t \<longrightarrow> normalize (stripHost net) = V4 n \<longrightarrow> CHR '':'' \<notin> set (stripHost net) \<longrightarrow> p \<le> 32 \<longrightarrow>
      addrMatchesEntry addr (net @ ''/'' @ show_nat p) = (take p (addr_bits t) = take p (addr_bits n))) \<and>
    (normalize addr = V6 t6 \<longrightarrow> normalize (stripHost net) = V6 n6 \<longrightarrow> p \<le> 128 \<longrightarrow>
      addrMatchesEntry addr (net @ ''/'' @ show_nat p) = (take p (addr_bits t6) = take p (addr_bits n6))) \<and>
    (normalize a = V6 ta \<longrightarrow> normalize b = V6 tb \<longrightarrow>
      (aggregate a (int p) = aggregate b (int p)) = (take p (addr_bits ta) = take p (addr_bits tb)))"
proof (intro conjI impI)
  have i: "indexOf CHR ''/'' (net @ ''/'' @ s) = Some (length net)" for s using indexOf_append[OF assms] by simp
  show "addrMatchesEntry addr (net @ ''/'' @ show_nat p) = (take p (addr_bits t) = take p (addr_bits n))"
    if "normalize addr = V4 t" "normalize (stripHost net) = V4 n" "CHR '':'' \<notin> set (stripHost net)" "p \<le> 32"
    using that normalize_V4[OF that(1)] normalize_V4[OF that(2)] i
    by (simp add: addrMatchesEntry_def Let_def read_prefix_nat ipv4InCidr_bits)
  show "addrMatchesEntry addr (net @ ''/'' @ show_nat p) = (take p (addr_bits t6) = take p (addr_bits n6))"
    if "normalize addr = V6 t6" "normalize (stripHost net) = V6 n6" "p \<le> 128"
    using that normalize_V6[OF that(1)] normalize_V6[OF that(2)] i
    by (simp add: addrMatchesEntry_def Let_def read_prefix_nat ipv6InCidr_def maskIpv6_bits)
  show "(aggregate a (int p) = aggregate b (int p)) = (take p (addr_bits ta) = take p (addr_bits tb))"
    if "normalize a = V6 ta" "normalize b = V6 tb"
    using normalize_V6[OF that(1)] normalize_V6[OF that(2)] maskIpv6_bits[of ta tb p]
      formatIpv6_inj[of "maskIpv6 ta (int p)" "maskIpv6 tb (int p)"]
    by (auto simp: aggregate_def)
qed

theorem cidr_prefix_semantics_witness:
  "addrMatchesEntry ''10.1.2.3'' (''10.0.0.0'' @ ''/'' @ show_nat 8)"
proof -
  have n: "normalize ''10.1.2.3'' = V4 [10, 1, 2, 3]" "normalize (stripHost ''10.0.0.0'') = V4 [10, 0, 0, 0]"
    "CHR '':'' \<notin> set (stripHost ''10.0.0.0'')" by code_simp+
  have s: "CHR ''/'' \<notin> set ''10.0.0.0''" by simp
  have b: "take 8 (addr_bits [10, 1, 2, 3 :: octet]) = take 8 (addr_bits [10, 0, 0, 0 :: octet])"
    by (simp add: addr_bits_def)
  from cidr_prefix_semantics[OF s, of "''10.1.2.3''" "[10, 1, 2, 3]" "[10, 0, 0, 0]" 8] n b show ?thesis by simp
qed

definition peer_addr :: "string \<Rightarrow> string" where
  "peer_addr peer = (case canonicalizeAddr peer of Some a \<Rightarrow> a | None \<Rightarrow> trim peer)"

fun trust_covers :: "trust option \<Rightarrow> string list \<Rightarrow> string \<Rightarrow> bool" where
  "trust_covers (Some (Hops (Num n))) hops remote = (\<lfloor>n\<rfloor> \<le> int (length hops))"
| "trust_covers (Some (Hops Infinity)) hops remote = False"
| "trust_covers (Some (Allowlist es)) hops remote = (\<exists>a\<in>set (remote # hops). \<not> (\<exists>e\<in>set es. addrMatchesEntry a e))"
| "trust_covers tp hops remote = True"

text \<open>
  C38. Spoofing resistance. Hops a client forges at the left of the forwarding header never change the
  derived client: not when the header is distrusted, not when \<open>n\<close> hops are trusted and the rest of the chain
  has more than \<open>n\<close> valid addresses, and not when an allowlist is used and the rest of the chain has an
  address outside it.
\<close>

theorem forged_hops_ignored:
  assumes "trust_covers tp (parseXff (XOne genuine)) (peer_addr peer)"
  shows "clientIp peer (XOne (forged @ '','' @ genuine)) tp prefix = clientIp peer (XOne genuine) tp prefix"
proof -
  let ?r = "peer_addr peer"
  let ?c = "parseXff (XOne genuine) @ [?r]"
  have ap: "parseXff (XOne (forged @ '','' @ genuine)) @ [?r] = parseXff (XOne forged) @ ?c"
    unfolding parseXff_append by (rule append_assoc)
  note cl = clientIp_def Let_def peer_addr_def[symmetric]
  show ?thesis
  proof (cases "(tp, parseXff (XOne genuine), ?r)" rule: trust_covers.cases)
    case (1 n)
    then have "\<lfloor>n\<rfloor> < int (length ?c)" using assms by simp
    then have "client_hops (Num n) (parseXff (XOne forged) @ ?c) ?r = client_hops (Num n) ?c ?r"
      by (intro client_hops_append) auto
    then show ?thesis using 1 unfolding cl ap by simp
  next
    case (3 es)
    then have "client_allowlist es (parseXff (XOne forged) @ ?c) = client_allowlist es ?c"
      using assms by (intro client_allowlist_append) auto
    then show ?thesis using 3 unfolding cl ap by simp
  qed (use assms in \<open>simp_all add: clientIp_def Let_def client_hops_def\<close>)
qed

theorem forged_hops_ignored_witness:
  "clientIp ''10.0.0.1'' (XOne (''6.6.6.6'' @ '','' @ ''9.9.9.9'')) (Some (Hops (Num 1))) None
     = clientIp ''10.0.0.1'' (XOne ''9.9.9.9'') (Some (Hops (Num 1))) None"
proof (rule forged_hops_ignored)
  have "parseXff (XOne ''9.9.9.9'') = [''9.9.9.9'']" by code_simp
  then show "trust_covers (Some (Hops (Num 1))) (parseXff (XOne ''9.9.9.9'')) (peer_addr ''10.0.0.1'')" by simp
qed

end
