(* ===== verification/Sketch.thy ===== *)
theory Sketch
  imports JsText "HOL-Library.Word"
begin

text \<open>
  \<open>src/sketch/index.ts\<close>: the Count-Min sketch with its FNV-1a hash on 32-bit words, the fixed-memory rate
  limiter over it, and the mergeable sketch with its wire format. Keys are sequences of UTF-16 code units.
  The lemmas: an estimate is never below the true count (up to the ceiling of the counters), a merge is the
  sketch of both streams, the bytes decode to what was encoded, and the limiter never admits more than its
  limit, for the limits a counter can hold.
\<close>

unbundle bit_operations_syntax

section \<open>The sketch\<close>

type_synonym utf16 = "16 word list"
type_synonym u32 = "32 word"

definition MAX_U32 :: num where
  "MAX_U32 = 4294967295"

definition FNV_PRIME :: u32 where
  "FNV_PRIME = 0x01000193"

definition fnv_step :: "u32 \<Rightarrow> 16 word \<Rightarrow> u32" where
  "fnv_step h c =
     (let h1 = (h XOR ucast (c AND 0xff)) * FNV_PRIME
      in (h1 XOR (ucast (drop_bit 8 c) AND 0xff)) * FNV_PRIME)"

definition fnv1a :: "utf16 \<Rightarrow> u32 \<Rightarrow> u32" where
  "fnv1a str basis = foldl fnv_step basis str"

text \<open>A store into a \<open>Uint32Array\<close>, of a number that is not negative.\<close>

definition to_u32 :: "num \<Rightarrow> u32" where
  "to_u32 x = word_of_int \<lfloor>x\<rfloor>"

definition of_u32 :: "u32 \<Rightarrow> num" where
  "of_u32 w = of_nat (unat w)"

record cms =
  cm_depth :: nat
  cm_width :: nat
  cm_counters :: "u32 list"
  cm_conservative :: bool
  cm_seed :: u32
  cm_total :: num
  cm_rowSeeds :: "u32 list"

definition row_name :: "nat \<Rightarrow> utf16" where
  "row_name i = map (\<lambda>c. of_nat (code c)) (''row:'' @ show_nat i)"

text \<open>The seed is the given one or the random one, as 32 bits.\<close>

definition open_unit :: "string \<Rightarrow> js_number \<Rightarrow> num result" where
  "open_unit n v =
     (case v of Num x \<Rightarrow> if x \<le> 0 \<or> x \<ge> 1 then Inl (RangeError n) else Inr x | _ \<Rightarrow> Inl (RangeError n))"

definition cms_new :: "js_number \<Rightarrow> js_number \<Rightarrow> bool \<Rightarrow> u32 \<Rightarrow> cms result" where
  "cms_new epsilon delta conservative seed =
     rbind (open_unit ''epsilon'' epsilon) (\<lambda>e.
     rbind (open_unit ''delta'' delta) (\<lambda>d.
       let width = nat \<lceil>exp 1 / e\<rceil>; depth = nat \<lceil>ln (1 / d)\<rceil>
       in Inr \<lparr>cm_depth = depth, cm_width = width, cm_counters = replicate (depth * width) 0,
               cm_conservative = conservative, cm_seed = seed, cm_total = 0,
               cm_rowSeeds = map (\<lambda>i. fnv1a (row_name i) seed) [0..<depth]\<rparr>))"

definition cm_size :: "cms \<Rightarrow> nat" where
  "cm_size s = length (cm_counters s)"

text \<open>\<open>indexes\<close>: the column of each row; \<open>cells\<close> are the positions \<open>i * width + cols[i]\<close>.\<close>

definition cm_indexes :: "cms \<Rightarrow> utf16 \<Rightarrow> nat list" where
  "cm_indexes s key = map (\<lambda>i. unat (fnv1a key (cm_rowSeeds s ! i)) mod cm_width s) [0..<cm_depth s]"

definition cm_cells :: "cms \<Rightarrow> utf16 \<Rightarrow> nat list" where
  "cm_cells s key = map (\<lambda>i. i * cm_width s + cm_indexes s key ! i) [0..<cm_depth s]"

text \<open>The minimum over the rows, of which there is at least one.\<close>

definition cm_estimate :: "cms \<Rightarrow> utf16 \<Rightarrow> num" where
  "cm_estimate s key = min_list (map (\<lambda>i. of_u32 (cm_counters s ! i)) (cm_cells s key))"

fun raise_cells :: "num \<Rightarrow> nat list \<Rightarrow> u32 list \<Rightarrow> u32 list" where
  "raise_cells target [] cs = cs"
| "raise_cells target (i # is) cs =
     raise_cells target is (if of_u32 (cs ! i) < target then cs[i := to_u32 target] else cs)"

fun bump_cells :: "num \<Rightarrow> nat list \<Rightarrow> u32 list \<Rightarrow> num list \<times> u32 list" where
  "bump_cells n [] cs = ([], cs)"
| "bump_cells n (i # is) cs =
     (let v = min (of_u32 (cs ! i) + n) MAX_U32; (vs, cs') = bump_cells n is (cs[i := to_u32 v]) in (v # vs, cs'))"

definition cm_add :: "cms \<Rightarrow> utf16 \<Rightarrow> num \<Rightarrow> num \<times> cms" where
  "cm_add s key n =
     (let cells = cm_cells s key; s1 = s\<lparr>cm_total := cm_total s + n\<rparr>
      in if cm_conservative s then
           (let target = min (cm_estimate s key + n) MAX_U32
            in (target, s1\<lparr>cm_counters := raise_cells target cells (cm_counters s)\<rparr>))
         else
           (case bump_cells n cells (cm_counters s) of
              (vs, cs) \<Rightarrow> (min_list vs, s1\<lparr>cm_counters := cs\<rparr>)))"

definition cm_clear :: "cms \<Rightarrow> cms" where
  "cm_clear s = s\<lparr>cm_counters := map (\<lambda>_. 0) (cm_counters s), cm_total := 0\<rparr>"

section \<open>Snapshots and the wire format\<close>

record sketch_snapshot =
  sn_width :: nat
  sn_depth :: nat
  sn_total :: js_number
  sn_counters :: "u32 list"

definition cm_snapshot :: "cms \<Rightarrow> sketch_snapshot" where
  "cm_snapshot s = \<lparr>sn_width = cm_width s, sn_depth = cm_depth s, sn_total = Num (cm_total s), sn_counters = cm_counters s\<rparr>"

definition merge_cell :: "u32 \<Rightarrow> u32 \<Rightarrow> u32" where
  "merge_cell a b = to_u32 (min (of_u32 a + of_u32 b) MAX_U32)"

definition cm_mergeSnapshot :: "cms \<Rightarrow> sketch_snapshot \<Rightarrow> cms result" where
  "cm_mergeSnapshot s snap =
     (if sn_width snap \<noteq> cm_width s \<or> sn_depth snap \<noteq> cm_depth s then Inl (ThrottleKitError ''dimensions'')
      else if length (sn_counters snap) \<noteq> length (cm_counters s) then Inl (ThrottleKitError ''counters'')
      else Inr (s\<lparr>cm_counters := map2 merge_cell (cm_counters s) (sn_counters snap),
                  cm_total := (case sn_total snap of Num t \<Rightarrow> if t \<ge> 0 then cm_total s + t else cm_total s | _ \<Rightarrow> cm_total s)\<rparr>))"

text \<open>\<open>DataView.setUint32\<close> and \<open>getUint32\<close>, little endian; the order a typed array stores is the host's.\<close>

definition le32 :: "u32 \<Rightarrow> 8 word list" where
  "le32 w = [ucast w, ucast (drop_bit 8 w), ucast (drop_bit 16 w), ucast (drop_bit 24 w)]"

definition get32 :: "8 word list \<Rightarrow> nat \<Rightarrow> u32" where
  "get32 bs i = ucast (bs ! i) OR push_bit 8 (ucast (bs ! (i + 1))) OR push_bit 16 (ucast (bs ! (i + 2))) OR push_bit 24 (ucast (bs ! (i + 3)))"

definition host32 :: "bool \<Rightarrow> u32 \<Rightarrow> 8 word list" where
  "host32 little w = (if little then le32 w else rev (le32 w))"

text \<open>
  \<open>setFloat64\<close> and \<open>getFloat64\<close>: the format of doubles, for a total that is zero or a normal positive
  number, and for any 64 bits. The two halves are written low first.
\<close>

definition f64_bits :: "num \<Rightarrow> nat" where
  "f64_bits x =
     (if x \<le> 0 then 0
      else let e = \<lfloor>log 2 x\<rfloor> in nat (e + 1023) * 2 ^ 52 + nat \<lfloor>(x / 2 powi e - 1) * 2 ^ 52\<rfloor>)"

definition f64_value :: "nat \<Rightarrow> js_number" where
  "f64_value b =
     (let neg = b div 2 ^ 63 mod 2 = 1; ex = b div 2 ^ 52 mod 2 ^ 11; m = of_nat (b mod 2 ^ 52) :: num; s = (if neg then -1 else 1)
      in if ex = 2047 then (if m = 0 then (if neg then NegInfinity else Infinity) else NaN)
         else if ex = 0 then Num (s * m / 2 ^ 1074)
         else Num (s * (1 + m / 2 ^ 52) * 2 powi (int ex - 1023)))"

definition set_f64 :: "num \<Rightarrow> 8 word list" where
  "set_f64 x = le32 (of_nat (f64_bits x mod 2 ^ 32)) @ le32 (of_nat (f64_bits x div 2 ^ 32))"

definition get_f64 :: "8 word list \<Rightarrow> nat \<Rightarrow> js_number" where
  "get_f64 bs i = f64_value (unat (get32 bs i) + unat (get32 bs (i + 4)) * 2 ^ 32)"

definition HEADER_BYTES :: nat where
  "HEADER_BYTES = 16"

definition cm_toBytes :: "bool \<Rightarrow> cms \<Rightarrow> 8 word list" where
  "cm_toBytes little s =
     le32 (of_nat (cm_width s)) @ le32 (of_nat (cm_depth s)) @ set_f64 (cm_total s) @ concat (map (host32 little) (cm_counters s))"

definition sketchSnapshotFromBytes :: "8 word list \<Rightarrow> sketch_snapshot result" where
  "sketchSnapshotFromBytes bytes =
     (if length bytes < HEADER_BYTES then Inl (ThrottleKitError ''too short'')
      else
        let width = unat (get32 bytes 0); depth = unat (get32 bytes 4); total = get_f64 bytes 8; n = width * depth
        in (case total of
              Num t \<Rightarrow>
                if t < 0 then Inl (ThrottleKitError ''total'')
                else if length bytes \<noteq> HEADER_BYTES + n * 4 then Inl (ThrottleKitError ''length'')
                else Inr \<lparr>sn_width = width, sn_depth = depth, sn_total = Num t,
                          sn_counters = map (\<lambda>i. get32 bytes (HEADER_BYTES + i * 4)) [0..<n]\<rparr>
            | _ \<Rightarrow> Inl (ThrottleKitError ''total'')))"

section \<open>The rate limiter\<close>

record sketch_options =
  ko_limit :: js_number
  ko_windowMs :: js_number
  ko_epsilon :: "js_number option"
  ko_delta :: "js_number option"
  ko_conservative :: "bool option"

record sketch_limiter =
  sl_limit :: num
  sl_windowMs :: num
  sl_sketch :: cms
  sl_windowStart :: "num option"

definition sketchRateLimit :: "sketch_options \<Rightarrow> u32 \<Rightarrow> sketch_limiter result" where
  "sketchRateLimit o1 seed =
     rbind (requirePositive ''limit'' (ko_limit o1)) (\<lambda>limit.
     rbind (requirePositive ''windowMs'' (ko_windowMs o1)) (\<lambda>windowMs.
     rbind (cms_new (case ko_epsilon o1 of Some e \<Rightarrow> e | None \<Rightarrow> Num (1 / 100))
                    (case ko_delta o1 of Some d \<Rightarrow> d | None \<Rightarrow> Num (1 / 1000))
                    (case ko_conservative o1 of Some b \<Rightarrow> b | None \<Rightarrow> True) seed) (\<lambda>s.
     Inr \<lparr>sl_limit = limit, sl_windowMs = windowMs, sl_sketch = s, sl_windowStart = None\<rparr>)))"

definition sl_roll :: "sketch_limiter \<Rightarrow> num \<Rightarrow> sketch_limiter" where
  "sl_roll L now =
     (if (case sl_windowStart L of None \<Rightarrow> True | Some ws \<Rightarrow> now \<ge> ws + sl_windowMs L)
      then L\<lparr>sl_sketch := cm_clear (sl_sketch L), sl_windowStart := Some (js_floor (now / sl_windowMs L) * sl_windowMs L)\<rparr>
      else L)"

definition sl_decide :: "sketch_limiter \<Rightarrow> utf16 \<Rightarrow> num \<Rightarrow> num \<Rightarrow> decision \<times> sketch_limiter" where
  "sl_decide L key cost now =
     (let resetAt = (case sl_windowStart L of Some ws \<Rightarrow> ws + sl_windowMs L | None \<Rightarrow> 0);
          est = cm_estimate (sl_sketch L) key
      in if est + cost \<le> sl_limit L then
           (case cm_add (sl_sketch L) key cost of
              (used, s) \<Rightarrow>
                (\<lparr>d_allowed = True, d_limit = sl_limit L, d_remaining = max 0 (js_floor (sl_limit L - used)),
                  d_resetAt = js_ceil resetAt, d_retryAfterMs = 0\<rparr>, L\<lparr>sl_sketch := s\<rparr>))
         else
           (\<lparr>d_allowed = False, d_limit = sl_limit L, d_remaining = max 0 (js_floor (sl_limit L - est)),
             d_resetAt = js_ceil resetAt, d_retryAfterMs = js_ceil (resetAt - now)\<rparr>, L))"

definition sl_checkSync :: "sketch_limiter \<Rightarrow> utf16 \<Rightarrow> js_number \<Rightarrow> num \<Rightarrow> (decision \<times> sketch_limiter) result" where
  "sl_checkSync L key cost now =
     rbind (requireCost cost) (\<lambda>_.
     rbind (requireInteger ''cost'' cost) (\<lambda>c.
       Inr (sl_decide (sl_roll L now) key c now)))"

definition sl_reset :: "sketch_limiter \<Rightarrow> sketch_limiter" where
  "sl_reset L = L\<lparr>sl_sketch := cm_clear (sl_sketch L), sl_windowStart := None\<rparr>"

section \<open>The mergeable sketch\<close>

definition MERGEABLE_DEFAULT_SEED :: u32 where
  "MERGEABLE_DEFAULT_SEED = 0x9e3779b1"

definition mergeableSketch :: "js_number option \<Rightarrow> js_number option \<Rightarrow> u32 option \<Rightarrow> cms result" where
  "mergeableSketch epsilon delta seed =
     cms_new (case epsilon of Some e \<Rightarrow> e | None \<Rightarrow> Num (1 / 100)) (case delta of Some d \<Rightarrow> d | None \<Rightarrow> Num (1 / 1000))
       False (case seed of Some s \<Rightarrow> s | None \<Rightarrow> MERGEABLE_DEFAULT_SEED)"

definition mergeable_add :: "cms \<Rightarrow> utf16 \<Rightarrow> js_number \<Rightarrow> (num \<times> cms) result" where
  "mergeable_add s key n =
     rbind (requireCost n) (\<lambda>_. rbind (requireInteger ''count'' n) (\<lambda>c. Inr (cm_add s key c)))"

section \<open>Lemmas: counters\<close>

lemma of_u32_bounds [simp]: "0 \<le> of_u32 w" "of_u32 w \<le> MAX_U32"
proof -
  have "unat w < 2 ^ LENGTH(32)" by (rule unsigned_less)
  then have "unat w \<le> 4294967295" by simp
  then have "of_nat (unat w) \<le> (of_nat 4294967295 :: num)" by (rule of_nat_mono)
  then show "of_u32 w \<le> MAX_U32" unfolding of_u32_def MAX_U32_def by (simp only: of_nat_numeral)
qed (simp only: of_u32_def of_nat_0_le_iff)

lemma of_u32_Ints [simp]: "of_u32 w \<in> \<int>"
  unfolding of_u32_def by (rule Ints_of_nat)

lemma of_u32_inj [simp]: "of_u32 v = of_u32 w \<longleftrightarrow> v = w"
  unfolding of_u32_def of_nat_eq_iff by (simp only: word_unat_eq_iff)

lemma MAX_U32_Ints [simp]: "MAX_U32 \<in> \<int>" "0 \<le> MAX_U32" "0 < MAX_U32"
  by (simp_all add: MAX_U32_def)

lemma of_to_u32 [simp]:
  assumes "v \<in> \<int>" "0 \<le> v" "v \<le> MAX_U32"
  shows "of_u32 (to_u32 v) = v"
proof -
  from assms obtain k where k: "v = of_int k" by (auto elim: Ints_cases)
  have b: "0 \<le> k" "k < 4294967296" using assms by (simp_all add: k MAX_U32_def)
  have "uint (word_of_int k :: u32) = k mod 2 ^ LENGTH(32)" by (rule uint_word_of_int)
  also have "\<dots> = k" using b by simp
  finally have "int (unat (word_of_int k :: u32)) = k" by simp
  then have "of_u32 (to_u32 v) = of_int k" unfolding of_u32_def to_u32_def k floor_of_int by (metis of_int_of_nat_eq)
  then show ?thesis by (simp add: k)
qed

lemma of_u32_zero [simp]: "of_u32 0 = 0"
  by (simp add: of_u32_def)

definition cm_ok :: "cms \<Rightarrow> bool" where
  "cm_ok s \<longleftrightarrow> 0 < cm_depth s \<and> 0 < cm_width s \<and> length (cm_counters s) = cm_depth s * cm_width s"

lemma open_unit_Inr: "open_unit n v = Inr x \<longleftrightarrow> v = Num x \<and> 0 < x \<and> x < 1"
  by (cases v) (auto simp: open_unit_def)

lemma cms_new_ok:
  assumes "cms_new epsilon delta cons seed = Inr s"
  shows "cm_ok s" "\<forall>j<length (cm_counters s). cm_counters s ! j = 0" "cm_total s = 0" "cm_conservative s = cons"
proof -
  from assms obtain e d where o: "open_unit ''epsilon'' epsilon = Inr e" "open_unit ''delta'' delta = Inr d"
    and s: "s = \<lparr>cm_depth = nat \<lceil>ln (1 / d)\<rceil>, cm_width = nat \<lceil>exp 1 / e\<rceil>,
      cm_counters = replicate (nat \<lceil>ln (1 / d)\<rceil> * nat \<lceil>exp 1 / e\<rceil>) 0, cm_conservative = cons, cm_seed = seed, cm_total = 0,
      cm_rowSeeds = map (\<lambda>i. fnv1a (row_name i) seed) [0..<nat \<lceil>ln (1 / d)\<rceil>]\<rparr>"
    unfolding cms_new_def rbind_eq_Inr Let_def by blast
  have ed: "0 < e" "0 < d" "d < 1" using o by (auto simp: open_unit_Inr)
  have "0 < ln (1 / d)" using ed by (intro ln_gt_zero) simp
  moreover have "0 < exp 1 / e" using ed by simp
  ultimately show "cm_ok s" by (simp add: s cm_ok_def)
  show "\<forall>j<length (cm_counters s). cm_counters s ! j = 0" "cm_total s = 0" "cm_conservative s = cons" by (simp_all add: s)
qed

lemma cm_cells_props:
  assumes "cm_ok s"
  shows "length (cm_cells s k) = cm_depth s" "distinct (cm_cells s k)" "j \<in> set (cm_cells s k) \<Longrightarrow> j < length (cm_counters s)"
    "cm_cells s k \<noteq> []"
proof -
  let ?w = "cm_width s"
  have w: "0 < ?w" using assms by (simp add: cm_ok_def)
  have idx: "cm_indexes s k ! i < ?w" if "i < cm_depth s" for i using that w by (simp add: cm_indexes_def)
  have inj: "i = i'" if "i * ?w + cm_indexes s k ! i = i' * ?w + cm_indexes s k ! i'" "i < cm_depth s" "i' < cm_depth s" for i i'
  proof -
    have d: "(i * ?w + cm_indexes s k ! i) div ?w = i" "(i' * ?w + cm_indexes s k ! i') div ?w = i'"
      using idx[OF that(2)] idx[OF that(3)] w by simp_all
    from arg_cong[OF that(1), of "\<lambda>x. x div ?w"] show ?thesis unfolding d .
  qed
  show "length (cm_cells s k) = cm_depth s" by (simp add: cm_cells_def)
  have "inj_on (\<lambda>i. i * ?w + cm_indexes s k ! i) (set [0..<cm_depth s])" by (rule inj_onI) (rule inj, simp_all only: set_upt atLeastLessThan_iff)
  then show "distinct (cm_cells s k)" unfolding cm_cells_def distinct_map by simp
  show "cm_cells s k \<noteq> []" using assms by (simp add: cm_cells_def cm_ok_def)
  show "j < length (cm_counters s)" if "j \<in> set (cm_cells s k)"
  proof -
    from that obtain i where i: "i < cm_depth s" "j = i * ?w + cm_indexes s k ! i" by (auto simp: cm_cells_def)
    have "j < Suc i * ?w" using i idx[OF i(1)] by simp
    also have "\<dots> \<le> cm_depth s * ?w" using i(1) by (intro mult_le_mono1) simp
    finally show ?thesis using assms by (simp add: cm_ok_def)
  qed
qed

lemma raise_cells_length [simp]: "length (raise_cells t is cs) = length cs"
  by (induction t "is" cs rule: raise_cells.induct) auto

lemma raise_cells_nth:
  assumes "t \<in> \<int>" "0 \<le> t" "t \<le> MAX_U32" "j < length cs"
  shows "of_u32 (raise_cells t is cs ! j) = (if j \<in> set is then max (of_u32 (cs ! j)) t else of_u32 (cs ! j))"
  using assms(4)
proof (induction "is" arbitrary: cs)
  case (Cons i "is")
  let ?cs = "if of_u32 (cs ! i) < t then cs[i := to_u32 t] else cs"
  have e: "of_u32 (?cs ! j) = (if j = i then max (of_u32 (cs ! j)) t else of_u32 (cs ! j))"
    using Cons.prems assms(1,2,3) by (auto simp: nth_list_update max_def)
  have "of_u32 (raise_cells t (i # is) cs ! j) = (if j \<in> set is then max (of_u32 (?cs ! j)) t else of_u32 (?cs ! j))"
    using Cons.IH[of ?cs] Cons.prems by simp
  also have "\<dots> = (if j \<in> set (i # is) then max (of_u32 (cs ! j)) t else of_u32 (cs ! j))" unfolding e by auto
  finally show ?case .
qed simp

lemma bump_cells_length [simp]: "length (snd (bump_cells n is cs)) = length cs"
  by (induction n "is" cs rule: bump_cells.induct) (auto simp: Let_def split: prod.split)

lemma bump_cells_nth:
  assumes "n \<in> \<int>" "0 \<le> n" "distinct is" "j < length cs"
  shows "of_u32 (snd (bump_cells n is cs) ! j) = (if j \<in> set is then min (of_u32 (cs ! j) + n) MAX_U32 else of_u32 (cs ! j))"
  using assms(3,4)
proof (induction "is" arbitrary: cs)
  case (Cons i "is")
  let ?v = "min (of_u32 (cs ! i) + n) MAX_U32"
  have v: "of_u32 (to_u32 ?v) = ?v" using assms by (intro of_to_u32) auto
  have "of_u32 (snd (bump_cells n (i # is) cs) ! j) = of_u32 (snd (bump_cells n is (cs[i := to_u32 ?v])) ! j)"
    by (simp add: Let_def split: prod.split)
  also have "\<dots> = (if j \<in> set is then min (of_u32 (cs[i := to_u32 ?v] ! j) + n) MAX_U32 else of_u32 (cs[i := to_u32 ?v] ! j))"
    using Cons.IH[of "cs[i := to_u32 ?v]"] Cons.prems by simp
  also have "\<dots> = (if j \<in> set (i # is) then min (of_u32 (cs ! j) + n) MAX_U32 else of_u32 (cs ! j))"
    using Cons.prems v by (cases "j = i") auto
  finally show ?case .
qed simp

lemma cm_estimate_le: "cm_ok s \<Longrightarrow> j \<in> set (cm_cells s k) \<Longrightarrow> cm_estimate s k \<le> of_u32 (cm_counters s ! j)"
  using cm_cells_props(4)[of s k] by (auto simp: cm_estimate_def min_list_Min)

lemma cm_estimate_ge:
  "cm_ok s \<Longrightarrow> (\<And>j. j \<in> set (cm_cells s k) \<Longrightarrow> x \<le> of_u32 (cm_counters s ! j)) \<Longrightarrow> x \<le> cm_estimate s k"
  using cm_cells_props(4)[of s k] by (auto simp: cm_estimate_def min_list_Min)

lemma cm_estimate_in: "cm_ok s \<Longrightarrow> \<exists>j\<in>set (cm_cells s k). cm_estimate s k = of_u32 (cm_counters s ! j)"
proof -
  assume "cm_ok s"
  then have "map (\<lambda>i. of_u32 (cm_counters s ! i)) (cm_cells s k) \<noteq> []" using cm_cells_props(4) by simp
  then have "min_list (map (\<lambda>i. of_u32 (cm_counters s ! i)) (cm_cells s k)) \<in> set (map (\<lambda>i. of_u32 (cm_counters s ! i)) (cm_cells s k))"
    by (subst min_list_Min) (auto intro!: Min_in)
  then show ?thesis by (auto simp: cm_estimate_def)
qed

section \<open>Lemmas: streams\<close>

lemma cm_add_frame [simp]:
  "cm_depth (snd (cm_add s k n)) = cm_depth s" "cm_width (snd (cm_add s k n)) = cm_width s"
  "cm_rowSeeds (snd (cm_add s k n)) = cm_rowSeeds s" "cm_conservative (snd (cm_add s k n)) = cm_conservative s"
  "cm_seed (snd (cm_add s k n)) = cm_seed s" "cm_total (snd (cm_add s k n)) = cm_total s + n"
  by (simp_all add: cm_add_def Let_def split: prod.split)

lemma cm_cells_cong:
  "cm_depth s' = cm_depth s \<Longrightarrow> cm_width s' = cm_width s \<Longrightarrow> cm_rowSeeds s' = cm_rowSeeds s \<Longrightarrow> cm_cells s' k = cm_cells s k"
  by (simp add: cm_cells_def cm_indexes_def)

lemma cm_cells_add [simp]: "cm_cells (snd (cm_add s k n)) k' = cm_cells s k'"
  by (rule cm_cells_cong) simp_all

lemma cm_add_counters:
  "cm_counters (snd (cm_add s k n)) =
     (if cm_conservative s then raise_cells (min (cm_estimate s k + n) MAX_U32) (cm_cells s k) (cm_counters s)
      else snd (bump_cells n (cm_cells s k) (cm_counters s)))"
  by (simp add: cm_add_def Let_def split: prod.split)

lemma cm_add_ok: "cm_ok s \<Longrightarrow> cm_ok (snd (cm_add s k n))"
  by (simp add: cm_ok_def cm_add_counters)

lemma cm_estimate_bounds: "cm_ok s \<Longrightarrow> cm_estimate s k \<in> \<int> \<and> 0 \<le> cm_estimate s k \<and> cm_estimate s k \<le> MAX_U32"
  using cm_estimate_in[of s k] by auto

text \<open>A sketch covers a count of every key when all its counters are at least that count or at the ceiling.\<close>

definition covers :: "cms \<Rightarrow> (utf16 \<Rightarrow> num) \<Rightarrow> bool" where
  "covers s T \<longleftrightarrow> (\<forall>k. \<forall>j\<in>set (cm_cells s k). min (T k) MAX_U32 \<le> of_u32 (cm_counters s ! j))"

lemma covers_estimate: "cm_ok s \<Longrightarrow> covers s T \<Longrightarrow> min (T k) MAX_U32 \<le> cm_estimate s k"
  by (rule cm_estimate_ge) (simp_all add: covers_def)

lemma covers_add:
  assumes "cm_ok s" "covers s T" "n \<in> \<int>" "0 \<le> n"
  shows "covers (snd (cm_add s x n)) (T(x := T x + n))"
proof -
  note e = cm_estimate_bounds[OF assms(1), of x]
  let ?t = "min (cm_estimate s x + n) MAX_U32"
  have t: "?t \<in> \<int>" "0 \<le> ?t" "?t \<le> MAX_U32" using e assms(3,4) by auto
  have "min ((T(x := T x + n)) k) MAX_U32 \<le> of_u32 (cm_counters (snd (cm_add s x n)) ! j)" if j: "j \<in> set (cm_cells s k)" for k j
  proof -
    have l: "j < length (cm_counters s)" by (rule cm_cells_props(3)[OF assms(1) j])
    have old: "min (T k) MAX_U32 \<le> of_u32 (cm_counters s ! j)" using assms(2) j by (simp add: covers_def)
    have est: "min (T x) MAX_U32 \<le> cm_estimate s x" by (rule covers_estimate[OF assms(1,2)])
    show ?thesis
    proof (cases "cm_conservative s")
      case True
      have v: "of_u32 (cm_counters (snd (cm_add s x n)) ! j) = (if j \<in> set (cm_cells s x) then max (of_u32 (cm_counters s ! j)) ?t else of_u32 (cm_counters s ! j))"
        using True raise_cells_nth[OF t l] by (simp add: cm_add_counters)
      show ?thesis
      proof (cases "k = x")
        case True
        then have "min (T x + n) MAX_U32 \<le> ?t" using est assms(4) by auto
        then show ?thesis unfolding v using True j by auto
      qed (use old v in auto)
    next
      case False
      have v: "of_u32 (cm_counters (snd (cm_add s x n)) ! j) = (if j \<in> set (cm_cells s x) then min (of_u32 (cm_counters s ! j) + n) MAX_U32 else of_u32 (cm_counters s ! j))"
        using False bump_cells_nth[OF assms(3,4) cm_cells_props(2)[OF assms(1)] l] by (simp add: cm_add_counters)
      show ?thesis using old j assms(4) unfolding v by (cases "k = x") auto
    qed
  qed
  then show ?thesis by (simp add: covers_def)
qed

definition cm_run :: "(utf16 \<times> num) list \<Rightarrow> cms \<Rightarrow> cms" where
  "cm_run xs s = fold (\<lambda>(k, n) s. snd (cm_add s k n)) xs s"

definition true_count :: "(utf16 \<times> num) list \<Rightarrow> utf16 \<Rightarrow> num" where
  "true_count xs k = (\<Sum>(k', n)\<leftarrow>xs. if k' = k then n else 0)"

definition whole_counts :: "(utf16 \<times> num) list \<Rightarrow> bool" where
  "whole_counts xs \<longleftrightarrow> (\<forall>(k, n)\<in>set xs. n \<in> \<int> \<and> 0 \<le> n)"

lemma cm_run_simps [simp]: "cm_run [] s = s" "cm_run ((k, n) # xs) s = cm_run xs (snd (cm_add s k n))"
  "cm_run (xs @ ys) s = cm_run ys (cm_run xs s)"
  by (simp_all add: cm_run_def)

lemma cm_run_ok: "cm_ok s \<Longrightarrow> cm_ok (cm_run xs s)"
  by (induction xs arbitrary: s) (auto simp: cm_add_ok)

lemma cm_run_frame [simp]:
  "cm_depth (cm_run xs s) = cm_depth s" "cm_width (cm_run xs s) = cm_width s" "cm_rowSeeds (cm_run xs s) = cm_rowSeeds s"
  "cm_conservative (cm_run xs s) = cm_conservative s" "cm_seed (cm_run xs s) = cm_seed s"
  by (induction xs arbitrary: s) auto

lemma cm_run_total: "cm_total (cm_run xs s) = cm_total s + (\<Sum>(k, n)\<leftarrow>xs. n)"
  by (induction xs arbitrary: s) auto

lemma cm_run_covers:
  "cm_ok s \<Longrightarrow> covers s T \<Longrightarrow> whole_counts xs \<Longrightarrow> covers (cm_run xs s) (\<lambda>k. T k + true_count xs k)"
proof (induction xs arbitrary: s T)
  case (Cons x xs)
  obtain k n where x: "x = (k, n)" by (cases x)
  have n: "n \<in> \<int>" "0 \<le> n" "whole_counts xs" using Cons.prems(3) by (auto simp: whole_counts_def x)
  have eq: "(\<lambda>k'. (T(k := T k + n)) k' + true_count xs k') = (\<lambda>k'. T k' + true_count (x # xs) k')"
    by (auto simp: true_count_def x fun_eq_iff)
  have "covers (cm_run xs (snd (cm_add s k n))) (\<lambda>k'. (T(k := T k + n)) k' + true_count xs k')"
    by (rule Cons.IH[OF cm_add_ok[OF Cons.prems(1)] covers_add[OF Cons.prems(1,2) n(1,2)] n(3)])
  then show ?case unfolding eq by (simp add: x)
qed (simp add: true_count_def)

lemma covers_zero: "covers s (\<lambda>_. 0)"
  by (simp add: covers_def min_def)

text \<open>A plain sketch is exact: every counter is the sum of what hashes to it, up to the ceiling.\<close>

definition cell_sum :: "cms \<Rightarrow> (utf16 \<times> num) list \<Rightarrow> nat \<Rightarrow> num" where
  "cell_sum s xs j = (\<Sum>(k, n)\<leftarrow>xs. if j \<in> set (cm_cells s k) then n else 0)"

lemma cell_sum_nonneg: "whole_counts xs \<Longrightarrow> 0 \<le> cell_sum s xs j"
  unfolding cell_sum_def by (rule sum_list_nonneg) (auto simp: whole_counts_def)

lemma cell_sum_Ints: "whole_counts xs \<Longrightarrow> cell_sum s xs j \<in> \<int>"
  by (induction xs) (auto simp: cell_sum_def whole_counts_def)

lemma plain_counter:
  assumes "cm_ok s" "\<not> cm_conservative s" "whole_counts xs" "j < length (cm_counters s)"
  shows "of_u32 (cm_counters (cm_run xs s) ! j) = min (of_u32 (cm_counters s ! j) + cell_sum s xs j) MAX_U32"
  using assms
proof (induction xs arbitrary: s)
  case (Cons x xs)
  obtain k n where x: "x = (k, n)" by (cases x)
  have n: "n \<in> \<int>" "0 \<le> n" "whole_counts xs" using Cons.prems(3) by (auto simp: whole_counts_def x)
  let ?s = "snd (cm_add s k n)"
  have len: "length (cm_counters ?s) = length (cm_counters s)" using Cons.prems(2) by (simp add: cm_add_counters)
  have cs: "cell_sum ?s xs j = cell_sum s xs j" by (simp add: cell_sum_def)
  have v: "of_u32 (cm_counters ?s ! j) = (if j \<in> set (cm_cells s k) then min (of_u32 (cm_counters s ! j) + n) MAX_U32 else of_u32 (cm_counters s ! j))"
    using Cons.prems bump_cells_nth[OF n(1,2) cm_cells_props(2)[OF Cons.prems(1)] Cons.prems(4)] by (simp add: cm_add_counters)
  have "of_u32 (cm_counters (cm_run (x # xs) s) ! j) = min (of_u32 (cm_counters ?s ! j) + cell_sum s xs j) MAX_U32"
    using Cons.IH[OF cm_add_ok[OF Cons.prems(1)] _ n(3)] Cons.prems(2,4) len cs by (simp add: x)
  also have "\<dots> = min (of_u32 (cm_counters s ! j) + cell_sum s (x # xs) j) MAX_U32"
    unfolding v using cell_sum_nonneg[OF n(3), of s j] n(2) by (auto simp: cell_sum_def x min_def)
  finally show ?case .
qed (simp add: cell_sum_def)

lemma cm_counters_length: "cm_ok s \<Longrightarrow> length (cm_counters (cm_run xs s)) = length (cm_counters s)"
  using cm_run_ok[of s xs] by (simp add: cm_ok_def)

lemma merge_cell_value: "of_u32 (merge_cell a b) = min (of_u32 a + of_u32 b) MAX_U32"
  unfolding merge_cell_def by (rule of_to_u32) auto

lemma plain_merge:
  assumes "cm_ok s" "\<not> cm_conservative s" "\<forall>j<length (cm_counters s). cm_counters s ! j = 0" "cm_total s = 0"
    "whole_counts xs" "whole_counts ys"
  shows "cm_mergeSnapshot (cm_run xs s) (cm_snapshot (cm_run ys s)) = Inr (cm_run (xs @ ys) s)"
proof -
  let ?a = "cm_counters (cm_run xs s)" and ?b = "cm_counters (cm_run ys s)" and ?c = "cm_counters (cm_run (xs @ ys) s)"
  note len = cm_counters_length[OF assms(1)]
  have w: "whole_counts (xs @ ys)" using assms(5,6) by (auto simp: whole_counts_def)
  have "map2 merge_cell ?a ?b = ?c"
  proof (rule nth_equalityI)
    show "length (map2 merge_cell ?a ?b) = length ?c" by (simp only: len length_map length_zip min.idem)
    fix j assume "j < length (map2 merge_cell ?a ?b)"
    then have j: "j < length (cm_counters s)" by (simp add: len)
    note p = plain_counter[OF assms(1,2) _ j]
    have "of_u32 (merge_cell (?a ! j) (?b ! j)) = of_u32 (?c ! j)"
      unfolding merge_cell_value p[OF assms(5)] p[OF assms(6)] p[OF w]
      using assms(3) j cell_sum_nonneg[OF assms(5), of s j] cell_sum_nonneg[OF assms(6), of s j]
      by (simp add: cell_sum_def min_def) (simp add: MAX_U32_def)
    then have "merge_cell (?a ! j) (?b ! j) = ?c ! j" by (simp only: of_u32_inj)
    then show "map2 merge_cell ?a ?b ! j = ?c ! j" using j by (simp add: len del: cm_run_simps)
  qed
  moreover have "0 \<le> cm_total (cm_run ys s)"
    unfolding cm_run_total using assms(4,6) by (auto simp: whole_counts_def intro!: sum_list_nonneg)
  moreover have "cm_total (cm_run xs s) + cm_total (cm_run ys s) = cm_total (cm_run (xs @ ys) s)"
    unfolding cm_run_total using assms(4) by simp
  moreover have "(cm_run xs s)\<lparr>cm_counters := ?c, cm_total := cm_total (cm_run (xs @ ys) s)\<rparr> = cm_run (xs @ ys) s"
    by (rule cms.equality) simp_all
  ultimately show ?thesis
    unfolding cm_mergeSnapshot_def cm_snapshot_def by (simp add: len del: cm_run_simps(3))
qed

section \<open>Lemmas: the limiter\<close>

text \<open>
  The admitted cost of a key over a run, in the window that starts at \<open>ws\<close>. Requests are (key, cost, time).
\<close>

fun sl_admitted :: "sketch_limiter \<Rightarrow> (utf16 \<times> num \<times> num) list \<Rightarrow> utf16 \<Rightarrow> num \<Rightarrow> num" where
  "sl_admitted L [] k ws = 0"
| "sl_admitted L ((key, cost, now) # rs) k ws =
     (case sl_checkSync L key (Num cost) now of
        Inl _ \<Rightarrow> sl_admitted L rs k ws
      | Inr (d, L') \<Rightarrow>
          (if d_allowed d \<and> key = k \<and> js_floor (now / sl_windowMs L) * sl_windowMs L = ws then cost else 0)
            + sl_admitted L' rs k ws)"

definition sl_ok :: "sketch_limiter \<Rightarrow> (utf16 \<Rightarrow> num) \<Rightarrow> bool" where
  "sl_ok L T \<longleftrightarrow> cm_ok (sl_sketch L) \<and> covers (sl_sketch L) T \<and> 0 < sl_windowMs L \<and> 0 < sl_limit L \<and> sl_limit L \<le> MAX_U32 \<and>
     (\<forall>k. 0 \<le> T k \<and> T k \<le> sl_limit L) \<and>
     (\<forall>ws. sl_windowStart L = Some ws \<longrightarrow> ws = js_floor (ws / sl_windowMs L) * sl_windowMs L)"

lemma cm_clear_ok: "cm_ok s \<Longrightarrow> cm_ok (cm_clear s)"
  by (simp add: cm_ok_def cm_clear_def)

text \<open>One check: with the counts of the running window \<open>T\<close>, what the next counts are.\<close>

lemma sl_decide_step:
  assumes "sl_ok L T" "cost \<in> \<int>" "0 < cost" "sl_decide L key cost now = (d, L')"
  shows "sl_ok L' (if d_allowed d then T(key := T key + cost) else T)" "sl_windowMs L' = sl_windowMs L"
    "sl_windowStart L' = sl_windowStart L" "sl_limit L' = sl_limit L"
proof -
  let ?s = "sl_sketch L"
  have o: "cm_ok ?s" "covers ?s T" "sl_limit L \<le> MAX_U32" "\<And>k. 0 \<le> T k \<and> T k \<le> sl_limit L"
    using assms(1) by (auto simp: sl_ok_def)
  have e: "T key \<le> cm_estimate ?s key" using covers_estimate[OF o(1,2), of key] o(3) o(4)[of key] by (simp add: min_def split: if_splits)
  have "sl_ok L' (if d_allowed d then T(key := T key + cost) else T) \<and> sl_windowMs L' = sl_windowMs L \<and>
     sl_windowStart L' = sl_windowStart L \<and> sl_limit L' = sl_limit L"
  proof (cases "cm_estimate ?s key + cost \<le> sl_limit L")
    case True
    then have "L' = L\<lparr>sl_sketch := snd (cm_add ?s key cost)\<rparr>" "d_allowed d"
      using assms(4) by (auto simp: sl_decide_def Let_def split: prod.splits)
    then show ?thesis
      using assms(1,3) True e covers_add[OF o(1,2) assms(2), of key] cm_add_ok[OF o(1), of key cost]
      by (auto simp: sl_ok_def add_nonneg_nonneg)
  next
    case False
    then have "L' = L" "\<not> d_allowed d" using assms(4) by (auto simp: sl_decide_def Let_def)
    then show ?thesis using assms(1) by simp
  qed
  then show "sl_ok L' (if d_allowed d then T(key := T key + cost) else T)" "sl_windowMs L' = sl_windowMs L"
    "sl_windowStart L' = sl_windowStart L" "sl_limit L' = sl_limit L" by auto
qed

lemma window_start_idem:
  assumes "0 < w"
  shows "js_floor (js_floor (t / w) * w / w) * w = js_floor (t / w) * w"
  using assms by simp

lemma window_start_same:
  assumes "0 < w" "ws = js_floor (ws / w) * w" "ws \<le> t" "t < ws + w"
  shows "js_floor (t / w) * w = ws"
proof -
  let ?a = "\<lfloor>ws / w\<rfloor>"
  have ws: "ws = of_int ?a * w" using assms(2) by (simp add: js_floor_def)
  have "of_int ?a \<le> t / w" using assms(1,3) ws by (simp add: pos_le_divide_eq)
  moreover have "t / w < of_int ?a + 1" using assms(1,4) ws by (simp add: pos_divide_less_eq distrib_right)
  ultimately have "\<lfloor>t / w\<rfloor> = ?a" by (rule floor_unique)
  then show ?thesis using assms(2) by (simp add: js_floor_def)
qed

lemma sl_roll_cases:
  assumes "sl_ok L T"
  obtains (stay) ws where "sl_roll L now = L" "sl_windowStart L = Some ws" "now < ws + sl_windowMs L"
  | (roll) "sl_ok (sl_roll L now) (\<lambda>_. 0)" "sl_windowStart (sl_roll L now) = Some (js_floor (now / sl_windowMs L) * sl_windowMs L)"
      "sl_windowMs (sl_roll L now) = sl_windowMs L" "sl_limit (sl_roll L now) = sl_limit L"
      "\<forall>ws. sl_windowStart L = Some ws \<longrightarrow> ws + sl_windowMs L \<le> now"
proof (cases "case sl_windowStart L of None \<Rightarrow> True | Some ws \<Rightarrow> now \<ge> ws + sl_windowMs L")
  case True
  let ?L = "L\<lparr>sl_sketch := cm_clear (sl_sketch L), sl_windowStart := Some (js_floor (now / sl_windowMs L) * sl_windowMs L)\<rparr>"
  have r: "sl_roll L now = ?L" using True by (simp add: sl_roll_def)
  have "sl_ok ?L (\<lambda>_. 0)"
    using assms by (simp add: sl_ok_def cm_clear_ok covers_zero)
  then show ?thesis by (intro roll) (use True in \<open>auto simp: r split: option.splits\<close>)
next
  case False
  then obtain w0 where w: "sl_windowStart L = Some w0" "now < w0 + sl_windowMs L" by (auto split: option.splits)
  show ?thesis by (rule stay[OF _ w]) (use False in \<open>simp add: sl_roll_def\<close>)
qed

lemma sl_roll_frame [simp]: "sl_windowMs (sl_roll L now) = sl_windowMs L" "sl_limit (sl_roll L now) = sl_limit L"
  by (simp_all add: sl_roll_def)

lemma sl_decide_frame: "sl_windowMs (snd (sl_decide L key c now)) = sl_windowMs L \<and> sl_limit (snd (sl_decide L key c now)) = sl_limit L"
  by (simp add: sl_decide_def Let_def split: prod.split)

lemma sl_check_frame:
  "sl_checkSync L key (Num cost) now = Inr (d, L') \<Longrightarrow> sl_windowMs L' = sl_windowMs L \<and> sl_limit L' = sl_limit L"
  using sl_decide_frame[of "sl_roll L now" key cost now] by (auto simp: sl_checkSync_def rbind_eq_Inr result_simps)

lemma sl_admitted_other:
  "(\<And>key cost now. (key, cost, now) \<in> set rs \<Longrightarrow> js_floor (now / sl_windowMs L) * sl_windowMs L \<noteq> ws) \<Longrightarrow> sl_admitted L rs k ws = 0"
proof (induction L rs k ws rule: sl_admitted.induct)
  case (2 L key cost now rs k ws)
  show ?case
  proof (cases "sl_checkSync L key (Num cost) now")
    case (Inr p)
    obtain d L' where p: "p = (d, L')" by (cases p)
    have "sl_admitted L' rs k ws = 0"
      by (rule 2(2)[OF Inr[unfolded p] refl]) (use 2(3) sl_check_frame[OF Inr[unfolded p]] in auto)
    then show ?thesis using Inr p 2(3)[of key cost now] by simp
  next
    case (Inl e)
    have "sl_admitted L rs k ws = 0" proof (rule 2(1)[OF Inl])
      fix a b t assume "(a, b, t) \<in> set rs"
      then show "js_floor (t / sl_windowMs L) * sl_windowMs L \<noteq> ws" by (intro 2(3)[of a b t]) simp
    qed
    then show ?thesis using Inl by simp
  qed
qed simp

lemma sl_admitted_bound:
  assumes "sl_ok L T" "sorted (map (\<lambda>(k, c, t). t) rs)"
    "\<And>w0 key cost now. sl_windowStart L = Some w0 \<Longrightarrow> (key, cost, now) \<in> set rs \<Longrightarrow> w0 \<le> now"
  shows "sl_admitted L rs k ws + (if sl_windowStart L = Some ws then T k else 0) \<le> sl_limit L"
  using assms
proof (induction L rs k ws arbitrary: T rule: sl_admitted.induct)
  case (1 L k ws)
  then show ?case by (auto simp: sl_ok_def less_imp_le)
next
  case (2 L key cost now rs k ws)
  let ?W = "sl_windowMs L"
  have W: "0 < ?W" using 2(3) by (simp add: sl_ok_def)
  have Tk: "0 \<le> T k" "T k \<le> sl_limit L" using 2(3) by (auto simp: sl_ok_def)
  have later: "now \<le> t" if "(a, b, t) \<in> set rs" for a b t using 2(4) that by (force simp: sorted_wrt_map)
  have srt: "sorted (map (\<lambda>(k, c, t). t) rs)" using 2(4) by simp
  show ?case
  proof (cases "sl_checkSync L key (Num cost) now")
    case (Inl e)
    have "sl_admitted L rs k ws + (if sl_windowStart L = Some ws then T k else 0) \<le> sl_limit L"
    proof (rule 2(1)[OF Inl 2(3) srt])
      fix w0 a b t assume "sl_windowStart L = Some w0" "(a, b, t) \<in> set rs"
      then show "w0 \<le> t" by (intro 2(5)[of w0 a b t]) simp_all
    qed
    then show ?thesis using Inl by simp
  next
    case (Inr p)
    obtain d L' where p: "p = (d, L')" by (cases p)
    have c: "0 < cost" "js_floor cost = cost" and dec: "sl_decide (sl_roll L now) key cost now = (d, L')"
      using Inr by (auto simp: p sl_checkSync_def rbind_eq_Inr result_simps)
    have ci: "cost \<in> \<int>" using c(2) js_floor_in_Ints[of cost] by simp
    let ?f = "js_floor (now / ?W) * ?W"
    let ?g = "if d_allowed d \<and> key = k \<and> ?f = ws then cost else 0"
    have adm: "sl_admitted L ((key, cost, now) # rs) k ws = ?g + sl_admitted L' rs k ws" using Inr p by simp
    have step: "?g + sl_admitted L' rs k ws + (if ?f = ws then T1 k else 0) \<le> sl_limit L"
      if ok1: "sl_ok (sl_roll L now) T1" and w1: "sl_windowStart (sl_roll L now) = Some ?f"
        and f1: "sl_windowMs (sl_roll L now) = ?W" "sl_limit (sl_roll L now) = sl_limit L" for T1
    proof -
      note st = sl_decide_step[OF ok1 ci c(1) dec]
      let ?T = "if d_allowed d then T1(key := T1 key + cost) else T1"
      have "sl_admitted L' rs k ws + (if sl_windowStart L' = Some ws then ?T k else 0) \<le> sl_limit L'"
      proof (rule 2(2)[OF Inr[unfolded p] refl st(1) srt])
        fix w0 a b t assume "sl_windowStart L' = Some w0" "(a, b, t) \<in> set rs"
        then show "w0 \<le> t" using st(3) w1 window_start_le[OF W, of now] later[of a b t] by auto
      qed
      then show ?thesis using st(3,4) w1 f1 by (auto split: if_splits)
    qed
    show ?thesis
    proof (rule sl_roll_cases[OF 2(3), of now])
      fix w0 assume r: "sl_roll L now = L" "sl_windowStart L = Some w0" "now < w0 + ?W"
      have "w0 \<le> now" using 2(5)[OF r(2), of key cost now] by simp
      then have "?f = w0" using 2(3) r by (intro window_start_same[OF W]) (auto simp: sl_ok_def)
      then show ?thesis using step[of T] 2(3) r adm by simp
    next
      assume r: "sl_ok (sl_roll L now) (\<lambda>_. 0)" "sl_windowStart (sl_roll L now) = Some ?f" "sl_windowMs (sl_roll L now) = ?W"
        "sl_limit (sl_roll L now) = sl_limit L" "\<forall>ws. sl_windowStart L = Some ws \<longrightarrow> ws + ?W \<le> now"
      note s = step[OF r(1,2,3,4)]
      show ?thesis
      proof (cases "sl_windowStart L = Some ws")
        case True
        have "ws = js_floor (ws / ?W) * ?W" "ws + ?W \<le> now" using True 2(3) r(5) by (auto simp: sl_ok_def)
        then have gt: "ws < js_floor (t / ?W) * ?W" if "now \<le> t" for t
          using window_start_unique[OF W, of ws t] that by simp
        have "sl_admitted L ((key, cost, now) # rs) k ws = 0"
        proof (rule sl_admitted_other)
          fix a b t assume "(a, b, t) \<in> set ((key, cost, now) # rs)"
          then have "now \<le> t" using later by auto
          from gt[OF this] show "js_floor (t / ?W) * ?W \<noteq> ws" by simp
        qed
        then show ?thesis using True Tk by simp
      qed (use s adm in simp)
    qed
  qed
qed

lemma sketchRateLimit_ok:
  "sketchRateLimit o1 seed = Inr L \<Longrightarrow> sl_limit L \<le> MAX_U32 \<Longrightarrow> sl_ok L (\<lambda>_. 0) \<and> sl_windowStart L = None"
  by (auto simp: sketchRateLimit_def rbind_eq_Inr requirePositive_Inr sl_ok_def covers_zero dest: cms_new_ok(1))

text \<open>
  The ceiling of the counters breaks the guarantee for larger limits: once a key's counters are full, every
  further request is admitted.
\<close>

lemma saturated_admits_forever:
  assumes "cm_ok (sl_sketch L)" "cm_estimate (sl_sketch L) k = MAX_U32" "MAX_U32 + 1 \<le> sl_limit L"
  shows "\<exists>d L'. sl_decide L k 1 now = (d, L') \<and> d_allowed d \<and> cm_estimate (sl_sketch L') k = MAX_U32"
proof -
  let ?s = "sl_sketch L"
  obtain d L' where p: "sl_decide L k 1 now = (d, L')" by (cases "sl_decide L k 1 now")
  have d: "d_allowed d" "L' = L\<lparr>sl_sketch := snd (cm_add ?s k 1)\<rparr>"
    using p assms(2,3) by (auto simp: sl_decide_def Let_def split: prod.splits)
  have "covers ?s (\<lambda>x. if x = k then MAX_U32 else 0)"
    using assms cm_estimate_le[OF assms(1), of _ k] by (auto simp: covers_def)
  from covers_add[OF assms(1) this, of 1 k] have "covers (snd (cm_add ?s k 1)) ((\<lambda>x. if x = k then MAX_U32 else 0)(k := MAX_U32 + 1))"
    by simp
  from covers_estimate[OF cm_add_ok[OF assms(1)] this, of k] cm_estimate_bounds[OF cm_add_ok[OF assms(1)], of k 1 k]
  have "cm_estimate (snd (cm_add ?s k 1)) k = MAX_U32" by simp
  then show ?thesis using p d by simp
qed

section \<open>Lemmas: bytes\<close>

lemma ucast_byte_bit: "8 \<le> n \<Longrightarrow> \<not> bit (b :: 8 word) n"
  by (auto dest: bit_imp_le_length)

lemma word32_bytes:
  fixes w :: u32
  shows "ucast (ucast w :: 8 word) OR push_bit 8 (ucast (ucast (drop_bit 8 w) :: 8 word))
    OR push_bit 16 (ucast (ucast (drop_bit 16 w) :: 8 word)) OR push_bit 24 (ucast (ucast (drop_bit 24 w) :: 8 word)) = w"
  (is "?v = w")
proof (rule bit_word_eqI)
  fix n assume "n < LENGTH(32)"
  then have "n < 8 \<or> (8 \<le> n \<and> n < 16) \<or> (16 \<le> n \<and> n < 24) \<or> (24 \<le> n \<and> n < 32)" by auto
  then show "bit ?v n = bit w n"
    by (elim disjE) (auto simp: bit_or_iff bit_push_bit_iff bit_ucast_iff bit_drop_bit_eq possible_bit_word)
qed

lemma get32_le32: "i = length xs \<Longrightarrow> get32 (xs @ le32 w @ ys) i = w"
  by (simp add: get32_def le32_def nth_append word32_bytes)

lemma le32_length [simp]: "length (le32 w) = 4"
  by (simp add: le32_def)

lemma concat_le32_length [simp]: "length (concat (map le32 ws)) = length ws * 4"
  by (induction ws) auto

lemma get32_concat: "j < length ws \<Longrightarrow> i = length xs + j * 4 \<Longrightarrow> get32 (xs @ concat (map le32 ws)) i = ws ! j"
proof (induction ws arbitrary: xs j i)
  case (Cons w ws)
  show ?case
  proof (cases j)
    case 0
    then show ?thesis using Cons.prems get32_le32[of i xs w "concat (map le32 ws)"] by simp
  next
    case (Suc m)
    have "get32 ((xs @ le32 w) @ concat (map le32 ws)) i = ws ! m" by (rule Cons.IH) (use Cons.prems Suc in auto)
    then show ?thesis using Suc by simp
  qed
qed simp

text \<open>Doubles: a whole number below \<open>2 ^ 53\<close> is exact.\<close>

lemma f64_round:
  assumes "n < 2 ^ 53"
  shows "f64_bits (of_nat n) < 2 ^ 64" "f64_value (f64_bits (of_nat n)) = Num (of_nat n)"
proof -
  have "f64_bits (of_nat n) < 2 ^ 64 \<and> f64_value (f64_bits (of_nat n)) = Num (of_nat n)"
  proof (cases "n = 0")
    case True
    then show ?thesis by (simp add: f64_bits_def f64_value_def Let_def)
  next
    case False
    let ?x = "of_nat n :: num"
    have x: "1 \<le> ?x" using False by simp
    obtain E where E: "\<lfloor>log 2 ?x\<rfloor> = int E" using x by (metis zero_le_floor zero_le_log_cancel_iff nonneg_int_cases one_less_numeral_iff order_less_le_trans semiring_norm(76) zero_less_one)
    have lo: "2 ^ E \<le> n" and hi: "n < 2 ^ Suc E"
    proof -
      have l: "of_nat E \<le> log 2 ?x" "log 2 ?x < of_nat E + 1" using E by (simp_all add: floor_eq_iff)
      have "2 powr of_nat E \<le> ?x" using l(1) x by (simp add: le_log_iff)
      then show "2 ^ E \<le> n" by (simp add: powr_realpow)
      have "?x < 2 powr (of_nat E + 1)" using l(2) x by (simp add: log_less_iff)
      then have "?x < 2 ^ Suc E" by (simp add: powr_add powr_realpow mult.commute)
      then show "n < 2 ^ Suc E" by (metis of_nat_less_iff of_nat_numeral of_nat_power)
    qed
    have E52: "E \<le> 52" using lo assms power_strict_increasing_iff[of "2::nat" E 53] by simp
    let ?M = "n * 2 ^ (52 - E) - 2 ^ 52"
    have p: "2 ^ E * 2 ^ (52 - E) = (2 ^ 52 :: nat)" using E52 by (simp add: power_add[symmetric])
    have M0: "2 ^ 52 \<le> n * 2 ^ (52 - E)" using mult_right_mono[OF lo, of "2 ^ (52 - E)"] p by simp
    have "n * 2 ^ (52 - E) < 2 ^ Suc E * 2 ^ (52 - E)" by (rule mult_strict_right_mono[OF hi]) simp
    also have "\<dots> = 2 * 2 ^ 52" unfolding power_Suc mult.assoc p ..
    finally have M1: "?M < 2 ^ 52" using M0 by linarith
    have pr: "(2::num) ^ 52 = 2 ^ E * 2 ^ (52 - E)" using E52 by (simp add: power_add[symmetric])
    have "(?x / 2 ^ E - 1) * 2 ^ 52 = ?x * 2 ^ (52 - E) - 2 ^ 52"
      by (simp add: field_simps del: power_numeral) (simp only: pr, simp)?
    also have "\<dots> = of_nat ?M" using M0 by (simp add: of_nat_diff)
    finally have m: "(?x / 2 ^ E - 1) * 2 ^ 52 = of_nat ?M" .
    have b: "f64_bits ?x = (E + 1023) * 2 ^ 52 + ?M"
      using x unfolding f64_bits_def E Let_def power_int_of_nat m by (simp add: nat_add_distrib)
    have dm: "(a * 2 ^ 52 + m) div 2 ^ 52 = a" "(a * 2 ^ 52 + m) mod 2 ^ 52 = m" if "m < 2 ^ 52" for a m :: nat
      using that by simp_all
    have ex: "f64_bits ?x div 2 ^ 52 = E + 1023" "f64_bits ?x mod 2 ^ 52 = ?M"
      unfolding b by (rule dm(1)[OF M1], rule dm(2)[OF M1])
    have "f64_bits ?x < (E + 1024) * 2 ^ 52" unfolding b using M1 by simp
    also have "\<dots> \<le> 1076 * 2 ^ 52" using E52 by simp
    finally have lt: "f64_bits ?x < 2 ^ 63" by simp
    have "(1 + of_nat ?M / 2 ^ 52) * 2 ^ E = ?x" unfolding m[symmetric] by (simp add: field_simps)
    moreover have "int ((E + 1023) mod 2 ^ 11) - 1023 = int E" "(E + 1023) mod 2 ^ 11 \<noteq> 2047" "(E + 1023) mod 2 ^ 11 \<noteq> 0" using E52 by simp_all
    ultimately show ?thesis using lt unfolding f64_value_def Let_def ex by (simp add: div_less)
  qed
  then show "f64_bits (of_nat n) < 2 ^ 64" "f64_value (f64_bits (of_nat n)) = Num (of_nat n)" by auto
qed

lemma set_f64_length [simp]: "length (set_f64 x) = 8"
  by (simp add: set_f64_def)

lemma unat_of_nat_u32: "n < 2 ^ 32 \<Longrightarrow> unat (of_nat n :: u32) = n"
  by (simp add: unsigned_of_nat take_bit_nat_eq_self)

lemma get_set_f64:
  assumes "n < 2 ^ 53" "i = length xs"
  shows "get_f64 (xs @ set_f64 (of_nat n) @ ys) i = Num (of_nat n)"
proof -
  let ?b = "f64_bits (of_nat n)"
  let ?lo = "of_nat (?b mod 2 ^ 32) :: u32" and ?hi = "of_nat (?b div 2 ^ 32) :: u32"
  note f = f64_round[OF assms(1)]
  have lo: "get32 (xs @ set_f64 (of_nat n) @ ys) i = ?lo"
    using get32_le32[OF assms(2), of ?lo "le32 ?hi @ ys"] by (simp add: set_f64_def)
  have hi: "get32 (xs @ set_f64 (of_nat n) @ ys) (i + 4) = ?hi"
    using get32_le32[of "i + 4" "xs @ le32 ?lo" ?hi ys] assms(2) by (simp add: set_f64_def)
  have "?b div 2 ^ 32 < 2 ^ 32" using f(1) by (simp add: less_mult_imp_div_less)
  then have "unat ?lo + unat ?hi * 2 ^ 32 = ?b" by (simp only: unat_of_nat_u32 mod_less_divisor zero_less_power pos2 zero_less_numeral) simp
  then show ?thesis unfolding get_f64_def lo hi using f(2) by simp
qed

lemma bytes_round_trip:
  assumes "length (cm_counters s) = cm_depth s * cm_width s" "cm_width s < 2 ^ 32" "cm_depth s < 2 ^ 32"
    "cm_total s = of_nat n" "n < 2 ^ 53"
  shows "sketchSnapshotFromBytes (cm_toBytes True s) = Inr (cm_snapshot s)"
proof -
  let ?c = "concat (map le32 (cm_counters s))"
  let ?w = "le32 (of_nat (cm_width s))" and ?d = "le32 (of_nat (cm_depth s))" and ?t = "set_f64 (of_nat n)"
  have b: "cm_toBytes True s = ?w @ ?d @ ?t @ ?c" by (simp add: cm_toBytes_def host32_def[abs_def] assms(4))
  have w: "get32 (?w @ ?d @ ?t @ ?c) 0 = of_nat (cm_width s)" using get32_le32[of 0 "[]"] by simp
  have d: "get32 (?w @ ?d @ ?t @ ?c) 4 = of_nat (cm_depth s)" using get32_le32[of 4 ?w] by simp
  have t: "get_f64 (?w @ ?d @ ?t @ ?c) 8 = Num (of_nat n)" using get_set_f64[OF assms(5), of 8 "?w @ ?d"] by simp
  have c: "get32 (?w @ ?d @ ?t @ ?c) (HEADER_BYTES + j * 4) = cm_counters s ! j" if "j < length (cm_counters s)" for j
    using get32_concat[OF that, of "HEADER_BYTES + j * 4" "?w @ ?d @ ?t"] by (simp add: HEADER_BYTES_def)
  have l: "length (?w @ ?d @ ?t @ ?c) = HEADER_BYTES + cm_width s * cm_depth s * 4"
    using assms(1) by (simp add: HEADER_BYTES_def mult.commute)
  have cs: "map (\<lambda>i. get32 (?w @ ?d @ ?t @ ?c) (HEADER_BYTES + i * 4)) [0..<cm_width s * cm_depth s] = cm_counters s"
    using c assms(1) by (intro nth_equalityI) (auto simp: mult.commute)
  show ?thesis
    unfolding b sketchSnapshotFromBytes_def Let_def w d t unat_of_nat_u32[OF assms(2)] unat_of_nat_u32[OF assms(3)] l
    using cs by (simp add: cm_snapshot_def assms(4))
qed

text \<open>
  On a big-endian host the counters are written in the other order than they are read.
\<close>

lemma big_endian_differs: "\<exists>w. get32 (host32 False w) 0 \<noteq> w"
  by (rule exI[of _ 1]) code_simp

section \<open>Correctness\<close>

text \<open>
  The sketch never underestimates: after any stream of whole counts, conservative or not, the estimate of
  every key is at least its true count, up to the ceiling of a 32-bit counter.
\<close>

theorem sketch_never_underestimates:
  assumes "cms_new epsilon delta conservative seed = Inr s" "whole_counts xs"
  shows "min (true_count xs k) MAX_U32 \<le> cm_estimate (cm_run xs s) k"
proof -
  note n = cms_new_ok(1)[OF assms(1)]
  from cm_run_covers[OF n covers_zero assms(2)] show ?thesis
    using covers_estimate[OF cm_run_ok[OF n]] by simp
qed

theorem sketch_never_underestimates_witness:
  "\<exists>s. 3 \<le> cm_estimate (cm_run [([65], 2), ([66], 5), ([65], 1)] s) [65]"
proof -
  obtain s where s: "cms_new (Num (1 / 2)) (Num (1 / 2)) True 7 = Inr s" by (simp add: cms_new_def open_unit_def Let_def)
  have "whole_counts [([65], 2), ([66], 5), ([65], 1)]" by (simp add: whole_counts_def)
  from sketch_never_underestimates[OF s this, of "[65]"] show ?thesis
    by (intro exI[of _ s]) (simp add: true_count_def MAX_U32_def)
qed

text \<open>
  A merge of plain sketches is exact: merging the snapshot of a sketch that saw one stream into a sketch
  of the same parameters that saw another gives, counter for counter and in its total, the sketch that saw
  both streams, saturation included.
\<close>

theorem sketch_merge_exact:
  assumes "mergeableSketch epsilon delta seed = Inr s" "whole_counts xs" "whole_counts ys"
  shows "cm_mergeSnapshot (cm_run xs s) (cm_snapshot (cm_run ys s)) = Inr (cm_run (xs @ ys) s)"
  using assms(1) cms_new_ok[OF assms(1)[unfolded mergeableSketch_def]]
  by (intro plain_merge[OF _ _ _ _ assms(2,3)]) auto

theorem sketch_merge_exact_witness:
  "\<exists>s. cm_mergeSnapshot (cm_run [([65], 2)] s) (cm_snapshot (cm_run [([66], 5)] s)) = Inr (cm_run [([65], 2), ([66], 5)] s)"
proof -
  obtain s where s: "mergeableSketch None None None = Inr s" by (simp add: mergeableSketch_def cms_new_def open_unit_def Let_def)
  have "whole_counts [([65], 2)]" "whole_counts [([66], 5)]" by (simp_all add: whole_counts_def)
  from sketch_merge_exact[OF s this] show ?thesis by auto
qed

text \<open>
  C39. The sketch limiter never over-admits: with a limit a counter can hold, over any run of checks at
  non-decreasing times, the cost it admits for a key within one window is at most the limit, whatever other
  keys collide with it.
\<close>

theorem sketch_limiter_never_over_admits:
  assumes "sketchRateLimit o1 seed = Inr L" "sl_limit L \<le> MAX_U32" "sorted (map (\<lambda>(k, c, t). t) rs)"
  shows "sl_admitted L rs k ws \<le> sl_limit L"
  using sl_admitted_bound[of L "\<lambda>_. 0" rs k ws] sketchRateLimit_ok[OF assms(1,2)] assms(3) by simp

theorem sketch_limiter_never_over_admits_witness:
  "\<exists>L. sl_limit L = 2 \<and> sl_admitted L [([65], 1, 0), ([65], 1, 1), ([65], 1, 2)] [65] 0 \<le> 2"
proof -
  let ?o = "\<lparr>ko_limit = Num 2, ko_windowMs = Num 1000, ko_epsilon = None, ko_delta = None, ko_conservative = None\<rparr>"
  obtain L where L: "sketchRateLimit ?o 7 = Inr L" "sl_limit L = 2"
    by (simp add: sketchRateLimit_def cms_new_def open_unit_def Let_def)
  from sketch_limiter_never_over_admits[OF L(1), of "[([65], 1, 0), ([65], 1, 1), ([65], 1, 2)]" "[65]" 0] L(2) show ?thesis
    by (intro exI[of _ L]) (simp add: MAX_U32_def)
qed

text \<open>
  The wire format round-trips: on a little-endian host the bytes of a sketch decode to its snapshot, for a
  table whose dimensions fit 32 bits and a whole total that a double holds exactly.
\<close>

theorem sketch_bytes_round_trip:
  assumes "cms_new epsilon delta conservative seed = Inr s0" "s = cm_run xs s0" "cm_width s < 2 ^ 32" "cm_depth s < 2 ^ 32"
    "cm_total s = of_nat n" "n < 2 ^ 53"
  shows "sketchSnapshotFromBytes (cm_toBytes True s) = Inr (cm_snapshot s)"
  using cm_run_ok[OF cms_new_ok(1)[OF assms(1)], of xs] assms
  by (intro bytes_round_trip[OF _ assms(3,4,5,6)]) (simp add: cm_ok_def)

theorem sketch_bytes_round_trip_witness:
  "\<exists>s. cm_total s = 2 \<and> sketchSnapshotFromBytes (cm_toBytes True s) = Inr (cm_snapshot s)"
proof -
  have e: "exp 1 \<le> (3::num)" by (rule exp_le)
  have l: "ln 2 \<le> (1::num)" using ln_add_one_self_le_self[of 1] by simp
  obtain s0 where s: "cms_new (Num (1 / 2)) (Num (1 / 2)) True 7 = Inr s0" "cm_width s0 = nat \<lceil>exp 1 / (1 / 2 :: num)\<rceil>"
    "cm_depth s0 = nat \<lceil>ln (2 :: num)\<rceil>" by (simp add: cms_new_def open_unit_def Let_def)
  have "\<lceil>exp 1 / (1 / 2 :: num)\<rceil> \<le> int 6" "\<lceil>ln (2 :: num)\<rceil> \<le> int 1" using e l by (simp_all add: ceiling_le_iff)
  then have "cm_width s0 \<le> 6" "cm_depth s0 \<le> 1" unfolding s nat_le_iff .
  then have d: "cm_width s0 < 2 ^ 32" "cm_depth s0 < 2 ^ 32" by simp_all
  let ?s = "cm_run [([65], 2)] s0"
  have t: "cm_total ?s = 2" using cms_new_ok(3)[OF s(1)] by (simp del: cm_run_simps add: cm_run_total)
  have "sketchSnapshotFromBytes (cm_toBytes True ?s) = Inr (cm_snapshot ?s)"
    by (rule sketch_bytes_round_trip[OF s(1) refl, of _ 2]) (use d t in simp_all)
  with t show ?thesis by blast
qed

end
