(* ===== verification/Assoc.thy ===== *)
theory Assoc
  imports Prelude "HOL-Library.AList"
begin

text \<open>
  Association lists as JavaScript \<open>Map\<close>s: the entries in insertion order, \<open>set\<close> being \<open>AList.update\<close> (in
  place for a key that is present, else at the end) and \<open>delete\<close> being \<open>AList.delete\<close>. Sums over the
  values, and how an update, a deletion and a filter change them.
\<close>

definition distinct_keys :: "('k \<times> 'v) list \<Rightarrow> bool" where
  "distinct_keys m \<longleftrightarrow> distinct (map fst m)"

definition map_sum :: "('v \<Rightarrow> num) \<Rightarrow> ('k \<times> 'v) list \<Rightarrow> num" where
  "map_sum f m = (\<Sum>e\<leftarrow>m. f (snd e))"

text \<open>The summand of one key, zero when it is absent.\<close>

definition at_key :: "('v \<Rightarrow> num) \<Rightarrow> ('k \<times> 'v) list \<Rightarrow> 'k \<Rightarrow> num" where
  "at_key f m k = (case map_of m k of None \<Rightarrow> 0 | Some v \<Rightarrow> f v)"

lemma map_sum_simps [simp]:
  "map_sum f [] = 0" "map_sum f (e # m) = f (snd e) + map_sum f m" "map_sum f (m @ m') = map_sum f m + map_sum f m'"
  by (simp_all add: map_sum_def)

lemma distinct_keys_simps [simp]:
  "distinct_keys []" "distinct_keys (e # m) \<longleftrightarrow> fst e \<notin> fst ` set m \<and> distinct_keys m"
  by (auto simp: distinct_keys_def)

lemma at_key_simps [simp]:
  "at_key f [] k = 0" "at_key f (e # m) k = (if fst e = k then f (snd e) else at_key f m k)"
  by (auto simp: at_key_def)

lemma at_key_Some: "map_of m k = Some v \<Longrightarrow> at_key f m k = f v"
  by (simp add: at_key_def)

lemma at_key_None: "map_of m k = None \<Longrightarrow> at_key f m k = 0"
  by (simp add: at_key_def)

lemma distinct_keys_update [simp]: "distinct_keys m \<Longrightarrow> distinct_keys (AList.update k v m)"
  unfolding distinct_keys_def by (rule distinct_update)

lemma distinct_keys_filter [simp]: "distinct_keys m \<Longrightarrow> distinct_keys (filter P m)"
  by (simp add: distinct_keys_def distinct_map_filter)

lemma distinct_keys_delete [simp]: "distinct_keys m \<Longrightarrow> distinct_keys (AList.delete k m)"
  by (simp add: AList.delete_eq)

lemma map_sum_update: "map_sum f (AList.update k v m) = map_sum f m - at_key f m k + f v"
  by (induction m) auto

lemma map_sum_nonneg: "(\<And>e. e \<in> set m \<Longrightarrow> 0 \<le> f (snd e)) \<Longrightarrow> 0 \<le> map_sum f m"
  by (induction m) (auto intro: add_nonneg_nonneg)

lemma map_sum_mono: "(\<And>e. e \<in> set m \<Longrightarrow> f (snd e) \<le> g (snd e)) \<Longrightarrow> map_sum f m \<le> map_sum g m"
  by (induction m) (auto intro: add_mono)

lemma map_sum_cong: "(\<And>e. e \<in> set m \<Longrightarrow> f (snd e) = g (snd e)) \<Longrightarrow> map_sum f m = map_sum g m"
  by (induction m) auto

lemma map_sum_filter_le: "(\<And>e. e \<in> set m \<Longrightarrow> 0 \<le> f (snd e)) \<Longrightarrow> map_sum f (filter P m) \<le> map_sum f m"
  by (induction m) (auto intro: add_increasing)

lemma map_sum_others:
  "distinct_keys m \<Longrightarrow> map_sum f (filter (\<lambda>e. fst e \<noteq> k) m) = map_sum f m - at_key f m k"
proof (induction m)
  case (Cons e m)
  have "fst e = k \<Longrightarrow> filter (\<lambda>e. fst e \<noteq> k) m = m" using Cons.prems unfolding filter_id_conv distinct_keys_simps by blast
  then show ?case using Cons by auto
qed simp

lemma at_key_le_sum:
  assumes "distinct_keys m" "\<And>e. e \<in> set m \<Longrightarrow> 0 \<le> f (snd e)"
  shows "at_key f m k \<le> map_sum f m"
  using map_sum_others[OF assms(1), of f k] map_sum_nonneg[of "filter (\<lambda>e. fst e \<noteq> k) m" f] assms(2) by simp

lemma map_of_filter_key [simp]: "P k \<Longrightarrow> map_of (filter (\<lambda>e. P (fst e)) m) k = map_of m k"
  by (induction m) auto

lemma map_of_filter_distinct:
  "distinct_keys m \<Longrightarrow>
   map_of (filter P m) k = (case map_of m k of None \<Rightarrow> None | Some v \<Rightarrow> if P (k, v) then Some v else None)"
  by (induction m) (force split: option.splits dest: map_of_SomeD)+

lemma set_map_of: "distinct_keys m \<Longrightarrow> (k, v) \<in> set m \<longleftrightarrow> map_of m k = Some v"
  by (simp add: distinct_keys_def)

lemma map_of_update: "map_of (AList.update k v m) i = (if i = k then Some v else map_of m i)"
  by (simp add: update_conv')

lemma map_of_delete: "map_of (AList.delete k m) i = (if i = k then None else map_of m i)"
  by (simp add: delete_conv')

lemma at_key_update [simp]: "at_key f (AList.update k v m) i = (if i = k then f v else at_key f m i)"
  by (simp add: at_key_def map_of_update)

lemma values_update: "e \<in> set (AList.update k v m) \<Longrightarrow> e = (k, v) \<or> e \<in> set m"
  by (induction m) (auto split: if_splits)

text \<open>A sum over the values is a sum over the keys.\<close>

lemma map_sum_keys: "distinct_keys m \<Longrightarrow> map_sum f m = (\<Sum>k\<in>fst ` set m. at_key f m k)"
proof (induction m)
  case (Cons e m)
  have "(\<Sum>k\<in>fst ` set m. at_key f (e # m) k) = (\<Sum>k\<in>fst ` set m. at_key f m k)"
    using Cons.prems by (intro sum.cong) auto
  then show ?case using Cons by simp
qed simp

end
