(* ===== verification/Heartbeat.thy ===== *)
theory Heartbeat
  imports Core Assoc "HOL-Library.Char_ord" "HOL-Library.List_Lexorder"
begin

text \<open>
  \<open>src/concurrency/heartbeat-core.ts\<close>, \<open>coordinator.ts\<close> and \<open>test-concurrency-coordinator.ts\<close>: the
  heartbeat compute that parcels one concurrency limit out to the nodes of a fleet. The lemmas: the
  equal-split targets partition the limit; a heartbeat never grants beyond what no other node holds;
  the budget held by the whole fleet therefore never exceeds the largest limit any node reported.
\<close>

section \<open>Reports, grants and the coordinator's records (coordinator.ts)\<close>

datatype aggregate_rule = AMin | AMedian
datatype allocation = EqualSplit | DemandProportional

record node_record =
  nr_lLocal :: num
  nr_inflight :: num
  nr_expiresAt :: num
  nr_share :: num
  nr_committedGen :: num
  nr_maxSeq :: num
  nr_unackedHigh :: num

record hb_options =
  ho_aggregate :: aggregate_rule
  ho_allocation :: allocation
  ho_handoff :: bool

text \<open>A report; its \<open>key\<close> is an argument of the coordinator's method.\<close>

record hb_report =
  rp_nodeId :: string
  rp_lLocal :: num
  rp_inflight :: num
  rp_expiresAt :: num
  rp_seq :: "num option"
  rp_appliedGen :: "num option"

record hb_grant =
  gr_share :: num
  gr_lGlobal :: num
  gr_nodes :: num
  gr_gen :: "num option"

type_synonym hb_state = "(string \<times> node_record) list"

section \<open>Aggregation and allocation\<close>

text \<open>The list of limits is never empty: the reporting node is in it.\<close>

definition aggregateOf :: "num list \<Rightarrow> aggregate_rule \<Rightarrow> num" where
  "aggregateOf values a =
     (case a of
        AMin \<Rightarrow> foldr min (tl values) (hd values)
      | AMedian \<Rightarrow> sort values ! ((length values - 1) div 2))"

definition array_indexOf :: "'a \<Rightarrow> 'a list \<Rightarrow> int" where
  "array_indexOf x xs = (if x \<in> set xs then int (length (takeWhile (\<lambda>y. y \<noteq> x) xs)) else - 1)"

text \<open>One of \<open>n\<close> near-equal whole parts of a total, the first ones taking the remainder.\<close>

definition equal_part :: "num \<Rightarrow> nat \<Rightarrow> int \<Rightarrow> num" where
  "equal_part budget n rank =
     (let base = js_floor (budget / of_nat n);
          rem = budget - base * of_nat n
      in base + (if of_int rank < rem then 1 else 0))"

definition hungry :: "node_record \<Rightarrow> bool" where
  "hungry r \<longleftrightarrow> nr_inflight r \<ge> nr_share r"

definition targetFor :: "string \<Rightarrow> string list \<Rightarrow> num \<Rightarrow> hb_state \<Rightarrow> allocation \<Rightarrow> num" where
  "targetFor selfId sortedIds lGlobal st alloc =
     (case alloc of
        EqualSplit \<Rightarrow> equal_part lGlobal (length sortedIds) (array_indexOf selfId sortedIds)
      | DemandProportional \<Rightarrow>
          (let rec = (\<lambda>i. the (map_of st i));
               hs = filter (\<lambda>i. hungry (rec i)) sortedIds;
               reservedForSatisfied = (\<Sum>i\<leftarrow>filter (\<lambda>i. \<not> hungry (rec i)) sortedIds. nr_inflight (rec i) + 1);
               self = rec selfId
           in if nr_inflight self < nr_share self then nr_inflight self + 1
              else if length hs = 0 then nr_inflight self + 1
              else (let spare = max 0 (lGlobal - reservedForSatisfied)
                    in max 1 (equal_part spare (length hs) (array_indexOf selfId hs)))))"

section \<open>The heartbeat\<close>

definition prior_of :: "hb_state \<Rightarrow> hb_report \<Rightarrow> (node_record \<Rightarrow> num) \<Rightarrow> num" where
  "prior_of st r f = (case map_of st (rp_nodeId r) of Some p \<Rightarrow> f p | None \<Rightarrow> 0)"

definition seq_of :: "hb_report \<Rightarrow> num" where
  "seq_of r = (case rp_seq r of Some s \<Rightarrow> s | None \<Rightarrow> - 1)"

definition hb_fresh :: "hb_options \<Rightarrow> hb_state \<Rightarrow> hb_report \<Rightarrow> bool" where
  "hb_fresh opts st r \<longleftrightarrow> \<not> ho_handoff opts \<or> seq_of r < 0 \<or> seq_of r > prior_of st r nr_maxSeq"

text \<open>Step 1: the node's own record, carrying its grant over.\<close>

definition hb_self :: "hb_options \<Rightarrow> hb_state \<Rightarrow> hb_report \<Rightarrow> node_record" where
  "hb_self opts st r =
     \<lparr>nr_lLocal = rp_lLocal r,
      nr_inflight = (if hb_fresh opts st r then rp_inflight r
                     else case map_of st (rp_nodeId r) of Some p \<Rightarrow> nr_inflight p | None \<Rightarrow> rp_inflight r),
      nr_expiresAt = rp_expiresAt r,
      nr_share = prior_of st r nr_share,
      nr_committedGen = prior_of st r nr_committedGen,
      nr_maxSeq = (if ho_handoff opts then max (prior_of st r nr_maxSeq) (seq_of r) else 0),
      nr_unackedHigh = prior_of st r nr_unackedHigh\<rparr>"

text \<open>Step 2: every other node whose lease has lapsed is dropped.\<close>

definition hb_evict :: "string \<Rightarrow> num \<Rightarrow> hb_state \<Rightarrow> hb_state" where
  "hb_evict self now st = filter (\<lambda>(i, rec). \<not> (i \<noteq> self \<and> nr_expiresAt rec < now)) st"

text \<open>What a node holds of the budget, as the cap counts it (step 5).\<close>

definition hb_hold :: "hb_options \<Rightarrow> node_record \<Rightarrow> num" where
  "hb_hold opts rec =
     (if ho_handoff opts then max (nr_unackedHigh rec) (nr_inflight rec) else max (nr_share rec) (nr_inflight rec))"

definition otherReserved :: "hb_options \<Rightarrow> string \<Rightarrow> hb_state \<Rightarrow> num" where
  "otherReserved opts self st = map_sum (hb_hold opts) (filter (\<lambda>e. fst e \<noteq> self) st)"

text \<open>Step 6: the record with the grant.\<close>

definition hb_commit :: "hb_options \<Rightarrow> hb_state \<Rightarrow> hb_report \<Rightarrow> num \<Rightarrow> node_record \<Rightarrow> node_record" where
  "hb_commit opts st r share self =
     (if ho_handoff opts then
        (if hb_fresh opts st r then
           (let gen = (if share \<noteq> prior_of st r nr_share then prior_of st r nr_committedGen + 1 else nr_committedGen self);
                appliedGen = (case rp_appliedGen r of Some g \<Rightarrow> g | None \<Rightarrow> - 1)
            in self\<lparr>nr_share := share, nr_committedGen := gen,
                    nr_unackedHigh := (if appliedGen \<ge> gen then share
                                       else max (prior_of st r nr_unackedHigh) share)\<rparr>)
         else self)
      else self\<lparr>nr_share := share\<rparr>)"

definition hb_live :: "hb_options \<Rightarrow> hb_state \<Rightarrow> hb_report \<Rightarrow> num \<Rightarrow> hb_state" where
  "hb_live opts st r now = hb_evict (rp_nodeId r) now (AList.update (rp_nodeId r) (hb_self opts st r) st)"

definition hb_lGlobal :: "hb_options \<Rightarrow> hb_state \<Rightarrow> num" where
  "hb_lGlobal opts live = aggregateOf (map (nr_lLocal \<circ> snd) live) (ho_aggregate opts)"

text \<open>Steps 4 and 5: the target, capped at what no other node holds.\<close>

definition hb_share :: "hb_options \<Rightarrow> hb_state \<Rightarrow> string \<Rightarrow> num" where
  "hb_share opts live i =
     (let lGlobal = hb_lGlobal opts live;
          target = targetFor i (sort (map fst live)) lGlobal live (ho_allocation opts)
      in max 0 (min target (lGlobal - otherReserved opts i live)))"

definition applyHeartbeat :: "hb_state \<Rightarrow> hb_report \<Rightarrow> num \<Rightarrow> hb_options \<Rightarrow> hb_grant \<times> hb_state" where
  "applyHeartbeat st r now opts =
     (let i = rp_nodeId r;
          live = hb_live opts st r now;
          share = hb_share opts live i;
          self = hb_commit opts st r share (hb_self opts st r)
      in (\<lparr>gr_share = (if ho_handoff opts then nr_share self else share), gr_lGlobal = hb_lGlobal opts live,
           gr_nodes = of_nat (length live),
           gr_gen = (if ho_handoff opts then Some (nr_committedGen self) else None)\<rparr>,
          AList.update i self live))"

section \<open>The in-memory coordinator (test-concurrency-coordinator.ts)\<close>

record test_coordinator =
  tc_healthy :: bool
  tc_options :: hb_options
  tc_state :: "(string \<times> hb_state) list"

definition tc_new :: "aggregate_rule option \<Rightarrow> bool option \<Rightarrow> allocation option \<Rightarrow> test_coordinator" where
  "tc_new agg handoff alloc =
     \<lparr>tc_healthy = True,
      tc_options = \<lparr>ho_aggregate = case_option AMedian id agg, ho_allocation = case_option EqualSplit id alloc,
                    ho_handoff = case_option False id handoff\<rparr>,
      tc_state = []\<rparr>"

definition tc_setHealthy :: "test_coordinator \<Rightarrow> bool \<Rightarrow> test_coordinator" where
  "tc_setHealthy tc b = tc\<lparr>tc_healthy := b\<rparr>"

definition tc_key :: "test_coordinator \<Rightarrow> string \<Rightarrow> hb_state" where
  "tc_key tc key = (case map_of (tc_state tc) key of Some st \<Rightarrow> st | None \<Rightarrow> [])"

definition tc_heartbeat :: "test_coordinator \<Rightarrow> string \<Rightarrow> hb_report \<Rightarrow> num \<Rightarrow> hb_grant result \<times> test_coordinator" where
  "tc_heartbeat tc key r now =
     (if \<not> tc_healthy tc then (Inl (StoreUnavailableError ''heartbeat''), tc)
      else (case applyHeartbeat (tc_key tc key) r now (tc_options tc) of
              (g, st) \<Rightarrow> (Inr g, tc\<lparr>tc_state := AList.update key st (tc_state tc)\<rparr>)))"

definition tc_leave :: "test_coordinator \<Rightarrow> string \<Rightarrow> string \<Rightarrow> test_coordinator" where
  "tc_leave tc key nodeId =
     (case map_of (tc_state tc) key of
        None \<Rightarrow> tc
      | Some st \<Rightarrow> tc\<lparr>tc_state := AList.update key (AList.delete nodeId st) (tc_state tc)\<rparr>)"

definition tc_peek :: "test_coordinator \<Rightarrow> string \<Rightarrow> num \<Rightarrow> num \<times> nat \<times> (string \<times> num) list" where
  "tc_peek tc key now =
     (let live = filter (\<lambda>(i, rec). nr_expiresAt rec \<ge> now) (tc_key tc key);
          shares = map (\<lambda>(i, rec). (i, nr_share rec)) live
      in if live = [] then (0, 0, shares)
         else (aggregateOf (map (nr_lLocal \<circ> snd) live) (ho_aggregate (tc_options tc)), length live, shares))"

section \<open>Targets\<close>

lemma aggregateOf_in: "values \<noteq> [] \<Longrightarrow> aggregateOf values a \<in> set values"
proof (cases a)
  case AMin
  have "foldr min xs (x::num) \<in> set (x # xs)" for x xs by (induction xs) (auto simp: min_def)
  moreover assume "values \<noteq> []"
  ultimately show ?thesis using AMin by (cases "values") (simp_all add: aggregateOf_def)
next
  case AMedian
  assume "values \<noteq> []"
  then have "(length values - 1) div 2 < length (sort values)" by (cases "values") auto
  from nth_mem[OF this] show ?thesis using AMedian by (simp add: aggregateOf_def)
qed

lemma array_indexOf_nth:
  "distinct xs \<Longrightarrow> k < length xs \<Longrightarrow> array_indexOf (xs ! k) xs = int k"
proof -
  assume d: "distinct xs" "k < length xs"
  have "takeWhile (\<lambda>y. y \<noteq> xs ! k) xs = take k xs"
    using d by (intro takeWhile_eq_take_P_nth) (auto simp: nth_eq_iff_index_eq)
  then show ?thesis using d by (simp add: array_indexOf_def)
qed

lemma sum_over_ranks:
  assumes "distinct xs"
  shows "(\<Sum>x\<leftarrow>xs. f (array_indexOf x xs)) = (\<Sum>k<length xs. f (int k))"
proof -
  have "(\<Sum>x\<leftarrow>xs. f (array_indexOf x xs)) = (\<Sum>k = 0..<length xs. f (array_indexOf (xs ! k) xs))"
    by (simp add: sum_list_sum_nth)
  also have "\<dots> = (\<Sum>k<length xs. f (int k))"
    using assms by (intro sum.cong) (auto simp: array_indexOf_nth)
  finally show ?thesis .
qed

text \<open>The remainder of a whole budget is a whole number of parts.\<close>

lemma equal_rem:
  assumes "budget \<in> \<int>" "0 < n"
  obtains r where "r < n" "budget - js_floor (budget / of_nat n) * of_nat n = of_nat r"
proof -
  obtain b where b: "budget = of_int b" using assms(1) by (elim Ints_cases)
  have "js_floor (budget / of_nat n) = of_int (b div int n)"
    unfolding b js_floor_def by (metis floor_divide_of_int_eq of_int_of_nat_eq)
  then have "budget - js_floor (budget / of_nat n) * of_nat n = of_int (b mod int n)"
    unfolding b by (simp add: minus_div_mult_eq_mod[symmetric])
  moreover have "0 \<le> b mod int n" "b mod int n < int n" using assms(2) by simp_all
  ultimately show ?thesis using that[of "nat (b mod int n)"] by simp
qed

lemma equal_parts_sum:
  assumes "budget \<in> \<int>" "0 < n"
  shows "(\<Sum>k<n. equal_part budget n (int k)) = budget"
proof -
  obtain r where r: "r < n" "budget - js_floor (budget / of_nat n) * of_nat n = of_nat r"
    using equal_rem[OF assms] by blast
  have "(\<Sum>k<n. (if real_of_int (int k) < of_nat r then 1 else 0 :: num)) = of_nat (card {k. k < n \<and> k < r})"
    by (simp add: sum.If_cases lessThan_def Collect_conj_eq[symmetric])
  also have "{k. k < n \<and> k < r} = {..<r}" using r by auto
  finally have "(\<Sum>k<n. equal_part budget n (int k)) = js_floor (budget / of_nat n) * of_nat n + of_nat r"
    using r(2) by (simp add: equal_part_def Let_def sum.distrib mult.commute)
  then show ?thesis using r(2) by linarith
qed

lemma equal_part_nonneg: "0 \<le> budget \<Longrightarrow> 0 \<le> equal_part budget n rank"
  by (simp add: equal_part_def Let_def)

lemma equal_part_ge: "of_nat n \<le> budget \<Longrightarrow> 0 < n \<Longrightarrow> 1 \<le> equal_part budget n rank"
  by (simp add: equal_part_def Let_def pos_le_divide_eq)

text \<open>What the satisfied nodes keep, and the hungry ones.\<close>

definition satisfied_keep :: "hb_state \<Rightarrow> string list \<Rightarrow> num" where
  "satisfied_keep st ids =
     (\<Sum>i\<leftarrow>filter (\<lambda>i. \<not> hungry (the (map_of st i))) ids. nr_inflight (the (map_of st i)) + 1)"

definition hungry_ids :: "hb_state \<Rightarrow> string list \<Rightarrow> string list" where
  "hungry_ids st ids = filter (\<lambda>i. hungry (the (map_of st i))) ids"

lemma target_satisfied:
  "\<not> hungry (the (map_of st i)) \<Longrightarrow>
   targetFor i ids L st DemandProportional = nr_inflight (the (map_of st i)) + 1"
  by (simp add: targetFor_def hungry_def Let_def)

lemma target_hungry:
  "hungry (the (map_of st i)) \<Longrightarrow> i \<in> set ids \<Longrightarrow>
   targetFor i ids L st DemandProportional =
     max 1 (equal_part (max 0 (L - satisfied_keep st ids)) (length (hungry_ids st ids)) (array_indexOf i (hungry_ids st ids)))"
  by (auto simp: targetFor_def hungry_def satisfied_keep_def hungry_ids_def Let_def filter_empty_conv)

lemma sum_list_partition:
  "(\<Sum>x\<leftarrow>xs. f x) = (\<Sum>x\<leftarrow>filter P xs. f x) + (\<Sum>x\<leftarrow>filter (\<lambda>x. \<not> P x) xs. (f x :: num))"
  by (induction xs) auto

definition fits_hungry :: "hb_state \<Rightarrow> string list \<Rightarrow> num \<Rightarrow> bool" where
  "fits_hungry st ids L \<longleftrightarrow>
     hungry_ids st ids \<noteq> [] \<and> satisfied_keep st ids \<in> \<int> \<and>
     satisfied_keep st ids + of_nat (length (hungry_ids st ids)) \<le> L"

lemma demand_targets_sum:
  assumes d: "distinct ids" and L: "L \<in> \<int>" and fits: "fits_hungry st ids L"
  shows "(\<Sum>i\<leftarrow>ids. targetFor i ids L st DemandProportional) = L"
proof -
  let ?hs = "hungry_ids st ids" and ?spare = "L - satisfied_keep st ids"
  let ?t = "\<lambda>i. targetFor i ids L st DemandProportional"
  have f: "?hs \<noteq> []" "satisfied_keep st ids \<in> \<int>" "of_nat (length ?hs) \<le> ?spare"
    using fits by (auto simp: fits_hungry_def)
  have sp: "0 \<le> ?spare" "?spare \<in> \<int>" using f L by (auto intro: order_trans[OF of_nat_0_le_iff])
  have "(\<Sum>i\<leftarrow>?hs. ?t i) = (\<Sum>i\<leftarrow>?hs. equal_part ?spare (length ?hs) (array_indexOf i ?hs))"
  proof (intro arg_cong[where f = sum_list] map_cong refl)
    fix i assume i: "i \<in> set ?hs"
    have "1 \<le> equal_part ?spare (length ?hs) (array_indexOf i ?hs)" using f by (intro equal_part_ge) simp_all
    then show "?t i = equal_part ?spare (length ?hs) (array_indexOf i ?hs)"
      using i sp(1) by (subst target_hungry) (auto simp: hungry_ids_def max_absorb2)
  qed
  also have "\<dots> = ?spare"
    using sum_over_ranks[of ?hs "equal_part ?spare (length ?hs)"] equal_parts_sum[of ?spare "length ?hs"] d f sp
    by (simp add: hungry_ids_def)
  finally have h: "(\<Sum>i\<leftarrow>?hs. ?t i) = ?spare" .
  have "(\<Sum>i\<leftarrow>filter (\<lambda>i. \<not> hungry (the (map_of st i))) ids. ?t i) = satisfied_keep st ids"
    unfolding satisfied_keep_def by (intro arg_cong[where f = sum_list] map_cong) (auto simp: target_satisfied)
  then show ?thesis
    using sum_list_partition[of ?t ids "\<lambda>i. hungry (the (map_of st i))"] h by (simp add: hungry_ids_def)
qed

section \<open>The cap\<close>

lemma prior_of_at: "prior_of st r f = at_key f st (rp_nodeId r)"
  by (simp add: prior_of_def at_key_def)

lemma hb_live_distinct: "distinct_keys st \<Longrightarrow> distinct_keys (hb_live opts st r now)"
  by (simp add: hb_live_def hb_evict_def)

lemma hb_live_self: "map_of (hb_live opts st r now) (rp_nodeId r) = Some (hb_self opts st r)"
proof -
  have "map_of (filter (\<lambda>(j, rec). \<not> (j \<noteq> i \<and> nr_expiresAt rec < now)) m) i = map_of m i" for m :: hb_state and i
    by (induction m) auto
  then show ?thesis unfolding hb_live_def hb_evict_def by (simp add: map_of_update del: de_Morgan_conj)
qed

lemma hb_live_ne: "hb_live opts st r now \<noteq> []"
  using hb_live_self[of opts st r now] by auto

lemma hb_live_values: "e \<in> set (hb_live opts st r now) \<Longrightarrow> snd e = hb_self opts st r \<or> e \<in> set st"
  by (auto simp: hb_live_def hb_evict_def dest: values_update)

text \<open>The other live nodes are the other nodes whose lease runs.\<close>

lemma update_others: "filter (\<lambda>e. fst e \<noteq> k) (AList.update k v m) = filter (\<lambda>e. fst e \<noteq> k) m"
  by (induction m) auto

lemma hb_live_others:
  "filter (\<lambda>e. fst e \<noteq> rp_nodeId r) (hb_live opts st r now) =
   filter (\<lambda>e. \<not> nr_expiresAt (snd e) < now) (filter (\<lambda>e. fst e \<noteq> rp_nodeId r) st)"
proof -
  have f: "filter (\<lambda>e. fst e \<noteq> i) (filter (\<lambda>(j, rec). \<not> (j \<noteq> i \<and> nr_expiresAt rec < now)) m) =
        filter (\<lambda>e. \<not> nr_expiresAt (snd e) < now) (filter (\<lambda>e. fst e \<noteq> i) m)" for m i
    by (induction m) auto
  show ?thesis unfolding hb_live_def hb_evict_def f update_others ..
qed

lemma hb_lGlobal_le:
  assumes "\<And>e. e \<in> set st \<Longrightarrow> nr_lLocal (snd e) \<le> B" "rp_lLocal r \<le> B"
  shows "hb_lGlobal opts (hb_live opts st r now) \<le> B"
proof -
  have "hb_lGlobal opts (hb_live opts st r now) \<in> set (map (nr_lLocal \<circ> snd) (hb_live opts st r now))"
    unfolding hb_lGlobal_def using hb_live_ne by (intro aggregateOf_in) simp
  then show ?thesis using assms by (auto simp: hb_self_def dest!: hb_live_values)
qed

lemma hb_share_cap:
  "0 \<le> hb_share opts live i \<and>
   (hb_share opts live i = 0 \<or> hb_share opts live i + otherReserved opts i live \<le> hb_lGlobal opts live)"
  by (auto simp: hb_share_def Let_def max_def min_def)

text \<open>The record a heartbeat leaves for its node.\<close>

definition hb_next :: "hb_options \<Rightarrow> hb_state \<Rightarrow> hb_report \<Rightarrow> num \<Rightarrow> node_record" where
  "hb_next opts st r now =
     hb_commit opts st r (hb_share opts (hb_live opts st r now) (rp_nodeId r)) (hb_self opts st r)"

lemma applyHeartbeat_state:
  "snd (applyHeartbeat st r now opts) = AList.update (rp_nodeId r) (hb_next opts st r now) (hb_live opts st r now)"
  by (simp add: applyHeartbeat_def hb_next_def Let_def)

text \<open>
  A quantity that every node's hold covers, and that a heartbeat raises at most to the share it grants,
  stays within the budget.
\<close>

lemma cap_keeps:
  assumes d: "distinct_keys st" and F: "\<And>rec. F rec \<le> hb_hold opts rec"
    and nn: "\<And>e. e \<in> set st \<Longrightarrow> 0 \<le> F (snd e)"
    and up: "F (hb_next opts st r now) \<le> max (at_key F st (rp_nodeId r)) (hb_share opts (hb_live opts st r now) (rp_nodeId r))"
    and B: "map_sum F st \<le> B" "hb_lGlobal opts (hb_live opts st r now) \<le> B" "0 \<le> B"
  shows "map_sum F (snd (applyHeartbeat st r now opts)) \<le> B"
proof -
  let ?i = "rp_nodeId r" and ?live = "hb_live opts st r now"
  let ?others = "filter (\<lambda>e. fst e \<noteq> ?i) ?live" and ?s = "hb_share opts ?live ?i"
  have "map_sum F (snd (applyHeartbeat st r now opts)) = map_sum F ?live - at_key F ?live ?i + F (hb_next opts st r now)"
    by (simp add: applyHeartbeat_state map_sum_update)
  also have "map_sum F ?live - at_key F ?live ?i = map_sum F ?others"
    using map_sum_others[OF hb_live_distinct[OF d], of F ?i] by simp
  finally have total: "map_sum F (snd (applyHeartbeat st r now opts)) = map_sum F ?others + F (hb_next opts st r now)" .
  have "map_sum F ?others \<le> map_sum F (filter (\<lambda>e. fst e \<noteq> ?i) st)"
    unfolding hb_live_others using nn by (intro map_sum_filter_le) simp
  then have kept: "map_sum F ?others + at_key F st ?i \<le> B"
    using map_sum_others[OF d, of F ?i] B(1) by simp
  have "map_sum F ?others \<le> otherReserved opts ?i ?live"
    unfolding otherReserved_def by (intro map_sum_mono) (rule F)
  then have granted: "?s = 0 \<or> map_sum F ?others + ?s \<le> B" using hb_share_cap[of opts ?live ?i] B(2) by linarith
  have "0 \<le> at_key F st ?i"
    using nn by (auto simp: at_key_def split: option.splits dest!: map_of_SomeD)
  then have "map_sum F ?others + max (at_key F st ?i) ?s \<le> B" using kept granted by (auto simp: max_def)
  then show ?thesis using total up by linarith
qed

text \<open>The part of the hold that does not depend on reports.\<close>

definition hb_floor :: "hb_options \<Rightarrow> node_record \<Rightarrow> num" where
  "hb_floor opts rec = (if ho_handoff opts then nr_unackedHigh rec else nr_share rec)"

definition hb_ok :: "hb_options \<Rightarrow> num \<Rightarrow> hb_state \<Rightarrow> bool" where
  "hb_ok opts B st \<longleftrightarrow>
     distinct_keys st \<and>
     (\<forall>e\<in>set st. nr_lLocal (snd e) \<le> B \<and> 0 \<le> nr_share (snd e) \<and> nr_share (snd e) \<le> hb_floor opts (snd e)) \<and>
     map_sum (hb_floor opts) st \<le> B"

lemma hb_okD:
  assumes "hb_ok opts B st"
  shows "distinct_keys st" "\<And>e. e \<in> set st \<Longrightarrow> nr_lLocal (snd e) \<le> B"
    "\<And>e. e \<in> set st \<Longrightarrow> 0 \<le> nr_share (snd e)" "\<And>e. e \<in> set st \<Longrightarrow> nr_share (snd e) \<le> hb_floor opts (snd e)"
    "\<And>e. e \<in> set st \<Longrightarrow> 0 \<le> hb_floor opts (snd e)" "map_sum (hb_floor opts) st \<le> B"
  using assms by (fastforce simp: hb_ok_def)+

lemma hb_next_fields:
  "nr_lLocal (hb_next opts st r now) = rp_lLocal r"
  "hb_floor opts (hb_next opts st r now) \<le>
     max (at_key (hb_floor opts) st (rp_nodeId r)) (hb_share opts (hb_live opts st r now) (rp_nodeId r))"
  by (auto simp: hb_next_def hb_commit_def hb_self_def hb_floor_def Let_def prior_of_at at_key_def
      split: option.splits)

lemma hb_next_share:
  assumes "hb_ok opts B st"
  shows "0 \<le> nr_share (hb_next opts st r now) \<and> nr_share (hb_next opts st r now) \<le> hb_floor opts (hb_next opts st r now)"
proof -
  have p: "0 \<le> at_key nr_share st (rp_nodeId r)" "at_key nr_share st (rp_nodeId r) \<le> at_key (hb_floor opts) st (rp_nodeId r)"
    using hb_okD(3,4)[OF assms] by (auto simp: at_key_def split: option.splits dest!: map_of_SomeD)
  have s: "0 \<le> hb_share opts (hb_live opts st r now) (rp_nodeId r)" using hb_share_cap by blast
  show ?thesis
    using p s by (cases "ho_handoff opts"; cases "hb_fresh opts st r")
      (simp_all add: hb_next_def hb_commit_def hb_self_def hb_floor_def[abs_def] Let_def prior_of_at)
qed

lemma hb_ok_beat:
  assumes ok: "hb_ok opts B st" and B: "rp_lLocal r \<le> B" "0 \<le> B"
  shows "hb_ok opts B (snd (applyHeartbeat st r now opts))"
proof -
  note d = hb_okD[OF ok]
  have L: "hb_lGlobal opts (hb_live opts st r now) \<le> B" using d(2) B(1) by (rule hb_lGlobal_le)
  have "map_sum (hb_floor opts) (snd (applyHeartbeat st r now opts)) \<le> B"
    using d hb_next_fields(2) L B(2) by (intro cap_keeps) (auto simp: hb_floor_def hb_hold_def)
  moreover have mem: "e = (rp_nodeId r, hb_next opts st r now) \<or> e \<in> set st"
    if "e \<in> set (snd (applyHeartbeat st r now opts))" for e
  proof (cases "fst e = rp_nodeId r")
    case True
    have "map_of (snd (applyHeartbeat st r now opts)) (fst e) = Some (snd e)"
      using that hb_live_distinct[OF d(1)] by (subst set_map_of[symmetric]) (simp_all add: applyHeartbeat_state)
    then show ?thesis using True by (cases e) (simp add: applyHeartbeat_state map_of_update)
  next
    case False
    then have "e \<in> set (filter (\<lambda>e. fst e \<noteq> rp_nodeId r) (hb_live opts st r now))"
      using that by (auto simp: applyHeartbeat_state dest: values_update)
    then show ?thesis unfolding hb_live_others by simp
  qed
  have "nr_lLocal (snd e) \<le> B \<and> 0 \<le> nr_share (snd e) \<and> nr_share (snd e) \<le> hb_floor opts (snd e)"
    if "e \<in> set (snd (applyHeartbeat st r now opts))" for e
    using mem[OF that] d(2-4) hb_next_share[OF ok, of r now] hb_next_fields(1)[of opts st r now] B(1) by fastforce
  moreover have "distinct_keys (snd (applyHeartbeat st r now opts))"
    using hb_live_distinct[OF d(1)] by (simp add: applyHeartbeat_state)
  ultimately show ?thesis unfolding hb_ok_def by blast
qed

lemma hb_ok_leave:
  assumes "hb_ok opts B st"
  shows "hb_ok opts B (AList.delete i st)"
proof -
  have "map_sum (hb_floor opts) (AList.delete i st) \<le> map_sum (hb_floor opts) st"
    unfolding AList.delete_eq using hb_okD(5)[OF assms]
    by (intro map_sum_filter_le)
  then show ?thesis using assms unfolding hb_ok_def by (auto simp: AList.delete_eq)
qed

text \<open>With the in-flight counts included, provided no report claims more than its node held.\<close>

lemma hb_next_hold:
  assumes "rp_inflight r \<le> at_key (hb_hold opts) st (rp_nodeId r)"
  shows "hb_hold opts (hb_next opts st r now) \<le>
     max (at_key (hb_hold opts) st (rp_nodeId r)) (hb_share opts (hb_live opts st r now) (rp_nodeId r))"
  using assms
  by (cases "ho_handoff opts"; cases "hb_fresh opts st r"; cases "map_of st (rp_nodeId r)")
    (auto simp: hb_next_def hb_commit_def hb_self_def hb_hold_def[abs_def] Let_def prior_of_def at_key_def)

section \<open>Runs of the coordinator\<close>

datatype tc_op = Beat string hb_report num | Leave string string | Health bool

fun tc_step :: "tc_op \<Rightarrow> test_coordinator \<Rightarrow> test_coordinator" where
  "tc_step (Beat key r now) tc = snd (tc_heartbeat tc key r now)"
| "tc_step (Leave key i) tc = tc_leave tc key i"
| "tc_step (Health b) tc = tc_setHealthy tc b"

fun limit_within :: "(string \<Rightarrow> num) \<Rightarrow> tc_op \<Rightarrow> bool" where
  "limit_within B (Beat key r now) \<longleftrightarrow> rp_lLocal r \<le> B key"
| "limit_within B _ \<longleftrightarrow> True"

definition tc_ok :: "(string \<Rightarrow> num) \<Rightarrow> test_coordinator \<Rightarrow> bool" where
  "tc_ok B tc \<longleftrightarrow> (\<forall>key. hb_ok (tc_options tc) (B key) (tc_key tc key))"

lemma tc_key_update [simp]:
  "tc_key (tc\<lparr>tc_state := AList.update k st (tc_state tc)\<rparr>) key = (if key = k then st else tc_key tc key)"
  by (simp add: tc_key_def map_of_update)

lemma tc_step_ok:
  assumes "tc_ok B tc" "limit_within B op" "\<forall>key. 0 \<le> B key"
  shows "tc_ok B (tc_step op tc)"
proof (cases op)
  case (Beat key r now)
  have "hb_ok (tc_options tc) (B key) (snd (applyHeartbeat (tc_key tc key) r now (tc_options tc)))"
    using assms Beat by (intro hb_ok_beat) (auto simp: tc_ok_def)
  then show ?thesis
    using assms(1) Beat by (auto simp: tc_ok_def tc_heartbeat_def split: prod.splits)
next
  case (Leave key i)
  then show ?thesis using assms(1) hb_ok_leave by (auto simp: tc_ok_def tc_leave_def tc_key_def map_of_update split: option.splits)
next
  case (Health b)
  then show ?thesis using assms(1) by (simp add: tc_ok_def tc_setHealthy_def tc_key_def)
qed

lemma tc_run_ok: "tc_ok B tc \<Longrightarrow> list_all (limit_within B) ops \<Longrightarrow> \<forall>key. 0 \<le> B key \<Longrightarrow> tc_ok B (fold tc_step ops tc)"
  by (induction ops arbitrary: tc) (auto intro: tc_step_ok)

lemma tc_new_ok: "\<forall>key. 0 \<le> B key \<Longrightarrow> tc_ok B (tc_new agg handoff alloc)"
  by (simp add: tc_ok_def tc_new_def tc_key_def hb_ok_def)

section \<open>Properties\<close>

text \<open>
  C22. The shares in force never add up to more than the largest limit any node reported for the key,
  whatever the order of heartbeats, departures, expiries and outages, under both aggregation rules, both
  allocations and with or without acknowledged handoff; keys do not influence each other. With handoff
  the same holds for the larger budget that covers grants a node may not have applied yet.
\<close>
theorem concurrency_global_cap:
  assumes "list_all (limit_within B) ops" "\<forall>key. 0 \<le> B key"
    "tc = fold tc_step ops (tc_new agg handoff alloc)"
  shows "map_sum nr_share (tc_key tc key) \<le> B key
    \<and> map_sum (hb_floor (tc_options tc)) (tc_key tc key) \<le> B key
    \<and> (\<Sum>e\<leftarrow>snd (snd (tc_peek tc key now)). snd e) \<le> B key"
proof -
  have ok: "hb_ok (tc_options tc) (B key) (tc_key tc key)"
    using tc_run_ok[OF tc_new_ok[OF assms(2)] assms(1,2)] assms(3) by (simp add: tc_ok_def)
  note d = hb_okD[OF ok]
  let ?live = "filter (\<lambda>(i, rec). nr_expiresAt rec \<ge> now) (tc_key tc key)"
  have s: "map_sum nr_share (tc_key tc key) \<le> map_sum (hb_floor (tc_options tc)) (tc_key tc key)"
    using d(4) by (rule map_sum_mono)
  have "snd (snd (tc_peek tc key now)) = map (\<lambda>(i, rec). (i, nr_share rec)) ?live"
    by (simp add: tc_peek_def Let_def)
  then have "(\<Sum>e\<leftarrow>snd (snd (tc_peek tc key now)). snd e) = map_sum nr_share ?live"
    by (simp add: map_sum_def comp_def case_prod_beta)
  moreover have "map_sum nr_share ?live \<le> map_sum nr_share (tc_key tc key)"
    using d(3) by (rule map_sum_filter_le)
  ultimately show ?thesis using s d(6) by linarith
qed

definition report_ex :: "string \<Rightarrow> num \<Rightarrow> num \<Rightarrow> hb_report" where
  "report_ex i l f = \<lparr>rp_nodeId = i, rp_lLocal = l, rp_inflight = f, rp_expiresAt = 2000, rp_seq = Some 1, rp_appliedGen = Some 0\<rparr>"

theorem concurrency_global_cap_witness:
  "map_sum nr_share (tc_key (fold tc_step [Beat ''k'' (report_ex ''a'' 10 0) 5, Beat ''k'' (report_ex ''b'' 8 0) 6]
      (tc_new None (Some True) None)) ''k'') \<le> 10"
  using concurrency_global_cap[of "\<lambda>_. 10" "[Beat ''k'' (report_ex ''a'' 10 0) 5, Beat ''k'' (report_ex ''b'' 8 0) 6]"
      _ None "Some True" None "''k''"]
  by (simp add: report_ex_def)

text \<open>
  The targets the nodes of a fleet aim for partition the limit exactly: always under the equal
  split of a whole limit; under the demand-proportional rule whenever some node is hungry and the limit
  leaves each hungry node a slot beyond what the satisfied nodes keep.
\<close>
theorem concurrency_targets_partition:
  assumes "distinct ids" "ids \<noteq> []" "L \<in> \<int>" "alloc = DemandProportional \<Longrightarrow> fits_hungry st ids L"
  shows "(\<Sum>i\<leftarrow>ids. targetFor i ids L st alloc) = L"
proof (cases alloc)
  case EqualSplit
  then have "(\<Sum>i\<leftarrow>ids. targetFor i ids L st alloc) = (\<Sum>i\<leftarrow>ids. equal_part L (length ids) (array_indexOf i ids))"
    by (simp add: targetFor_def)
  then show ?thesis
    using sum_over_ranks[OF assms(1), of "equal_part L (length ids)"] equal_parts_sum[of L "length ids"] assms(2,3) by simp
next
  case DemandProportional
  then show ?thesis using demand_targets_sum assms by simp
qed

theorem concurrency_targets_partition_witness:
  "(\<Sum>i\<leftarrow>[''a'', ''b'', ''c'']. targetFor i [''a'', ''b'', ''c''] 10 [] EqualSplit) = 10"
  using concurrency_targets_partition[of "[''a'', ''b'', ''c'']" 10 EqualSplit "[]"] by simp

end
