(* ===== verification/HeartbeatStores.thy ===== *)
theory HeartbeatStores
  imports Heartbeat JsText "HOL-Library.Multiset"
begin

text \<open>
  \<open>src/concurrency/redis-concurrency-coordinator.ts\<close> and \<open>postgres-concurrency-coordinator.ts\<close>: the
  heartbeat as a Lua script over one Redis hash, and as a transaction over a table. The lemmas: the
  text form of a record reads back; the script computes the reference compute; the order in which the
  table returns its rows does not matter, and the transaction refines the in-memory coordinator.
\<close>

section \<open>Field values\<close>

text \<open>Lua's number-to-string conversion and \<open>tonumber\<close>, on the whole numbers the script stores.\<close>

definition lua_tostring :: "num \<Rightarrow> string" where
  "lua_tostring x = (if x < 0 then CHR ''-'' # show_nat (nat \<lfloor>- x\<rfloor>) else show_nat (nat \<lfloor>x\<rfloor>))"

definition lua_tonumber :: "string \<Rightarrow> num option" where
  "lua_tonumber s =
     (let (neg, ds) = (case s of c # cs \<Rightarrow> if c = CHR ''-'' then (True, cs) else (False, s) | [] \<Rightarrow> (False, []))
      in if ds \<noteq> [] \<and> list_all is_digit ds
         then Some (if neg then - of_nat (read_radix 10 ds) else of_nat (read_radix 10 ds)) else None)"

text \<open>The record a field value stands for; a value the script did not write makes it fail.\<close>

definition parseVal :: "string \<Rightarrow> node_record option" where
  "parseVal val =
     (case those (map lua_tonumber (split (CHR '' '') val)) of
        Some [ll, f, e, s] \<Rightarrow> Some \<lparr>nr_lLocal = ll, nr_inflight = f, nr_expiresAt = e, nr_share = s,
            nr_committedGen = 0, nr_maxSeq = 0, nr_unackedHigh = 0\<rparr>
      | Some (ll # f # e # s # g # m # u # _) \<Rightarrow> Some \<lparr>nr_lLocal = ll, nr_inflight = f, nr_expiresAt = e, nr_share = s,
            nr_committedGen = g, nr_maxSeq = m, nr_unackedHigh = u\<rparr>
      | _ \<Rightarrow> None)"

definition encode :: "bool \<Rightarrow> node_record \<Rightarrow> string" where
  "encode handoff r =
     join '' '' (map lua_tostring
       ([nr_lLocal r, nr_inflight r, nr_expiresAt r, nr_share r] @
        (if handoff then [nr_committedGen r, nr_maxSeq r, nr_unackedHigh r] else [])))"

section \<open>HEARTBEAT_LUA\<close>

type_synonym redis_hash = "(string \<times> string) list"

record heartbeat_argv =
  ha_nodeId :: string
  ha_lLocal :: num
  ha_inflight :: num
  ha_expiresAt :: num
  ha_now :: num
  ha_aggregate :: aggregate_rule
  ha_seq :: num
  ha_appliedGen :: num
  ha_handoff :: bool
  ha_demand :: bool

text \<open>One pass over the sorted ids: the budget of the satisfied, the count of the hungry, the own rank.\<close>

fun lua_hungry :: "(string \<Rightarrow> node_record) \<Rightarrow> string \<Rightarrow> string list \<Rightarrow> num \<times> nat \<times> nat \<Rightarrow> num \<times> nat \<times> nat" where
  "lua_hungry rec self [] acc = acc"
| "lua_hungry rec self (i # ids) (reserved, h, rank) =
     (if nr_inflight (rec i) \<ge> nr_share (rec i)
      then lua_hungry rec self ids (reserved, h + 1, if i = self then h else rank)
      else lua_hungry rec self ids (reserved + nr_inflight (rec i) + 1, h, rank))"

fun lua_rank :: "string \<Rightarrow> string list \<Rightarrow> nat \<Rightarrow> nat \<Rightarrow> nat" where
  "lua_rank self [] i rank = rank"
| "lua_rank self (j # ids) i rank = lua_rank self ids (i + 1) (if j = self then i else rank)"

definition lua_target :: "bool \<Rightarrow> (string \<Rightarrow> node_record) \<Rightarrow> string \<Rightarrow> string list \<Rightarrow> num \<Rightarrow> num" where
  "lua_target demand rec self ids lGlobal =
     (if demand then
        (case lua_hungry rec self ids (0, 0, 0) of
           (reserved, h, rank) \<Rightarrow>
             if nr_inflight (rec self) < nr_share (rec self) then nr_inflight (rec self) + 1
             else if h = 0 then nr_inflight (rec self) + 1
             else (let spare0 = lGlobal - reserved;
                       spare = (if spare0 < 0 then 0 else spare0);
                       b = js_floor (spare / of_nat h);
                       rm = spare - b * of_nat h;
                       target = b + (if of_nat rank < rm then 1 else 0)
                   in if target < 1 then 1 else target))
      else (let base = js_floor (lGlobal / of_nat (length ids));
                rem = lGlobal - base * of_nat (length ids);
                rank = lua_rank self ids 0 0
            in base + (if of_nat rank < rem then 1 else 0)))"

definition lua_others :: "bool \<Rightarrow> (string \<Rightarrow> node_record) \<Rightarrow> string \<Rightarrow> string list \<Rightarrow> num" where
  "lua_others handoff rec self ids =
     (\<Sum>i\<leftarrow>filter (\<lambda>i. i \<noteq> self) ids.
        let f = nr_inflight (rec i); s = (if handoff then nr_unackedHigh (rec i) else nr_share (rec i))
        in if s > f then s else f)"

text \<open>The replies are the share, the fleet limit, the number of nodes and the generation; beside them the
  value given to \<open>PEXPIRE\<close>.\<close>

definition heartbeat_lua ::
  "redis_hash \<Rightarrow> heartbeat_argv \<Rightarrow> num \<times> num \<Rightarrow> ((num \<times> num \<times> num \<times> num) \<times> redis_hash \<times> num) result" where
  "heartbeat_lua h a time =
     (let nodeId = ha_nodeId a; now = lua_now (ha_now a) time; handoff = ha_handoff a; seq = ha_seq a
      in case (case map_of h nodeId of None \<Rightarrow> Some None | Some v \<Rightarrow> map_option Some (parseVal v)) of
           None \<Rightarrow> Inl (StoreUnavailableError ''heartbeat'')
         | Some prior \<Rightarrow>
           (let get = (\<lambda>f d. case prior of None \<Rightarrow> d | Some p \<Rightarrow> f p);
                priorShare = get nr_share 0; priorGen = get nr_committedGen 0;
                priorMaxSeq = get nr_maxSeq 0; priorUnacked = get nr_unackedHigh 0;
                fresh = (\<not> handoff \<or> seq < 0 \<or> seq > priorMaxSeq);
                useInflight = (if fresh then ha_inflight a else get nr_inflight (ha_inflight a));
                newMaxSeq = (if handoff then (if priorMaxSeq > seq then priorMaxSeq else seq) else 0);
                written = (\<lambda>f s g u. \<lparr>nr_lLocal = ha_lLocal a, nr_inflight = f, nr_expiresAt = ha_expiresAt a,
                    nr_share = s, nr_committedGen = g, nr_maxSeq = newMaxSeq, nr_unackedHigh = u\<rparr>);
                h1 = AList.update nodeId (encode handoff (written useInflight priorShare priorGen priorUnacked)) h
            in case those (map (\<lambda>(i, v). map_option (Pair i) (parseVal v)) h1) of
                 None \<Rightarrow> Inl (StoreUnavailableError ''heartbeat'')
               | Some flat \<Rightarrow>
                 (let live = filter (\<lambda>(i, p). \<not> (i \<noteq> nodeId \<and> nr_expiresAt p < now)) flat;
                      gone = filter (\<lambda>(i, p). i \<noteq> nodeId \<and> nr_expiresAt p < now) flat;
                      h2 = fold (\<lambda>(i, p). AList.delete i) gone h1;
                      maxExpiresAt = foldl (\<lambda>m (i, p). if nr_expiresAt p > m then nr_expiresAt p else m) 0 live;
                      rec = (\<lambda>i. the (map_of live i));
                      limits = sort (map (\<lambda>(i, p). nr_lLocal p) live);
                      ids = sort (map fst live);
                      lGlobal = (case ha_aggregate a of AMin \<Rightarrow> limits ! 0 | AMedian \<Rightarrow> limits ! ((length limits - 1) div 2));
                      target = lua_target (ha_demand a) rec nodeId ids lGlobal;
                      share0 = lGlobal - lua_others handoff rec nodeId ids;
                      share1 = (if target < share0 then target else share0);
                      share = (if share1 < 0 then 0 else share1);
                      pexp0 = maxExpiresAt - now;
                      pexp = (if pexp0 < 1 then 1 else pexp0);
                      n = of_nat (length ids)
                  in if handoff then
                       (if fresh then
                          (let newGen = (if share \<noteq> priorShare then priorGen + 1 else priorGen);
                               newUnacked = (if ha_appliedGen a \<ge> newGen then share
                                             else if priorUnacked > share then priorUnacked else share)
                           in Inr ((share, lGlobal, n, newGen),
                                   AList.update nodeId (encode handoff (written useInflight share newGen newUnacked)) h2, pexp))
                        else Inr ((priorShare, lGlobal, n, priorGen), h2, pexp))
                     else Inr ((share, lGlobal, n, priorGen),
                               AList.update nodeId (encode handoff (written (ha_inflight a) share 0 0)) h2, pexp))))"

section \<open>RedisConcurrencyCoordinator\<close>

record redis_coordinator =
  rc_options :: hb_options
  rc_prefix :: string
  rc_serverTime :: bool

definition rc_new :: "aggregate_rule option \<Rightarrow> string option \<Rightarrow> bool option \<Rightarrow> bool option \<Rightarrow> allocation option \<Rightarrow> redis_coordinator" where
  "rc_new agg prefix handoff serverTime alloc =
     \<lparr>rc_options = \<lparr>ho_aggregate = case_option AMedian id agg, ho_allocation = case_option EqualSplit id alloc,
                    ho_handoff = case_option False id handoff\<rparr>,
      rc_prefix = case_option ''tk:fed'' id prefix, rc_serverTime = case_option True id serverTime\<rparr>"

definition rc_argv :: "redis_coordinator \<Rightarrow> hb_report \<Rightarrow> num \<Rightarrow> heartbeat_argv" where
  "rc_argv rc r dateNow =
     \<lparr>ha_nodeId = rp_nodeId r, ha_lLocal = rp_lLocal r, ha_inflight = rp_inflight r, ha_expiresAt = rp_expiresAt r,
      ha_now = (if rc_serverTime rc then 0 else dateNow), ha_aggregate = ho_aggregate (rc_options rc),
      ha_seq = case_option (- 1) id (rp_seq r), ha_appliedGen = case_option (- 1) id (rp_appliedGen r),
      ha_handoff = ho_handoff (rc_options rc), ha_demand = (ho_allocation (rc_options rc) = DemandProportional)\<rparr>"

text \<open>
  The keyspace maps each key to its hash and to the deadline \<open>PEXPIRE\<close> gave it; a missing key is the empty hash. A
  key whose deadline the server's time has passed reads as missing. \<open>PEXPIRE\<close> refuses a time that is not a whole
  number, and the script then ends with an error after its writes. A departure deletes a field and leaves the
  deadline; deleting from a key past its deadline changes nothing that is read later.
\<close>

type_synonym redis_entry = "redis_hash \<times> num option"

definition rc_key :: "redis_coordinator \<Rightarrow> string \<Rightarrow> string" where
  "rc_key rc key = rc_prefix rc @ ''conc:'' @ key"

definition rc_live :: "num \<Rightarrow> redis_entry \<Rightarrow> redis_entry" where
  "rc_live t e = (case snd e of Some d \<Rightarrow> if t > d then ([], None) else e | None \<Rightarrow> e)"

definition rc_heartbeat ::
  "redis_coordinator \<Rightarrow> (string \<Rightarrow> redis_entry) \<Rightarrow> string \<Rightarrow> hb_report \<Rightarrow> num \<Rightarrow> num \<times> num \<Rightarrow> hb_grant result \<times> (string \<Rightarrow> redis_entry)" where
  "rc_heartbeat rc db key r dateNow time =
     (let k = rc_key rc key; t = lua_now 0 time; entry = rc_live t (db k)
      in case heartbeat_lua (fst entry) (rc_argv rc r dateNow) time of
        Inl e \<Rightarrow> (Inl e, db)
      | Inr ((share, lGlobal, n, gen), h, pexp) \<Rightarrow>
          (if js_floor pexp = pexp
           then (Inr \<lparr>gr_share = redis_int share, gr_lGlobal = redis_int lGlobal, gr_nodes = redis_int n,
                      gr_gen = (if ho_handoff (rc_options rc) then Some (redis_int gen) else None)\<rparr>,
                 db(k := (h, Some (t + pexp))))
           else (Inl (StoreUnavailableError ''heartbeat''), db(k := (h, snd entry)))))"

definition rc_leave :: "redis_coordinator \<Rightarrow> (string \<Rightarrow> redis_entry) \<Rightarrow> string \<Rightarrow> string \<Rightarrow> string \<Rightarrow> redis_entry" where
  "rc_leave rc db key nodeId =
     (let k = rc_key rc key; h = AList.delete nodeId (fst (db k))
      in db(k := (h, if h = [] then None else snd (db k))))"

section \<open>PostgresConcurrencyCoordinator\<close>

record pg_row =
  pr_rec :: node_record
  pr_updatedAt :: num

type_synonym pg_table = "((string \<times> string) \<times> pg_row) list"

record pg_coordinator =
  pc_options :: hb_options
  pc_prefix :: string
  pc_gcRetentionMs :: num

definition pc_key :: "pg_coordinator \<Rightarrow> string \<Rightarrow> string" where
  "pc_key pc key = pc_prefix pc @ '':'' @ key"

definition pg_rows :: "pg_table \<Rightarrow> string \<Rightarrow> hb_state" where
  "pg_rows t pgKey = map (\<lambda>((k, i), row). (i, pr_rec row)) (filter (\<lambda>((k, i), row). k = pgKey) t)"

text \<open>
  The committed transaction. \<open>rows\<close> is what the \<open>SELECT\<close> returned, the rows of the key in some order;
  \<open>now\<close> is the server's or the process's time.
\<close>

definition pg_heartbeat ::
  "pg_coordinator \<Rightarrow> pg_table \<Rightarrow> hb_state \<Rightarrow> string \<Rightarrow> hb_report \<Rightarrow> num \<Rightarrow> hb_grant \<times> pg_table" where
  "pg_heartbeat pc t rows key r now =
     (let pgKey = pc_key pc key
      in case applyHeartbeat rows r now (pc_options pc) of
           (grant, st) \<Rightarrow>
             (let kept = filter (\<lambda>((k, i), row). \<not> (k = pgKey \<and> nr_expiresAt (pr_rec row) < now)) t;
                  self = the (map_of st (rp_nodeId r))
              in (grant, AList.update (pgKey, rp_nodeId r) \<lparr>pr_rec = self, pr_updatedAt = now\<rparr> kept)))"

definition pg_leave :: "pg_coordinator \<Rightarrow> pg_table \<Rightarrow> string \<Rightarrow> string \<Rightarrow> pg_table" where
  "pg_leave pc t key nodeId = AList.delete (pc_key pc key, nodeId) t"

definition pg_gc :: "pg_coordinator \<Rightarrow> pg_table \<Rightarrow> num \<Rightarrow> pg_table" where
  "pg_gc pc t dateNow =
     (let cutoff = dateNow - pc_gcRetentionMs pc
      in filter (\<lambda>(k, row). \<not> (pr_updatedAt row < cutoff \<and> nr_expiresAt (pr_rec row) < cutoff)) t)"

section \<open>Values read back\<close>

lemma show_nat_digits: "list_all is_digit (show_nat n)"
  using show_radix_digits[of 10 n] by (simp add: list_all_iff is_digit_10)

lemma digit_not_minus: "is_digit c \<Longrightarrow> c \<noteq> CHR ''-''"
  by (auto simp: is_digit_def)

lemma tonumber_show: "lua_tonumber (show_nat n) = Some (of_nat n)"
proof (cases "show_nat n")
  case (Cons c cs)
  have "is_digit c" using show_nat_digits[of n] Cons by simp
  then show ?thesis
    using Cons digit_not_minus show_nat_digits[of n] read_show[of 10 n] by (simp add: lua_tonumber_def)
qed simp

lemma tonumber_tostring [simp]: "x \<in> \<int> \<Longrightarrow> lua_tonumber (lua_tostring x) = Some x"
proof -
  assume "x \<in> \<int>"
  then obtain k where k: "x = of_int k" by (elim Ints_cases)
  show ?thesis
  proof (cases "k < 0")
    case True
    then show ?thesis
      using show_nat_digits[of "nat (- k)"] by (simp add: k lua_tostring_def lua_tonumber_def)
  next
    case False
    then show ?thesis by (simp add: k lua_tostring_def tonumber_show)
  qed
qed

lemma tostring_no_space: "CHR '' '' \<notin> set (lua_tostring x)"
proof -
  have "CHR '' '' \<notin> set (show_nat n)" for n
    using show_nat_digits[of n] by (auto simp: list_all_iff is_digit_def)
  then show ?thesis by (simp add: lua_tostring_def)
qed

definition rec_fields :: "node_record \<Rightarrow> num list" where
  "rec_fields r = [nr_lLocal r, nr_inflight r, nr_expiresAt r, nr_share r, nr_committedGen r, nr_maxSeq r, nr_unackedHigh r]"

definition whole_rec :: "hb_options \<Rightarrow> node_record \<Rightarrow> bool" where
  "whole_rec opts r \<longleftrightarrow> set (rec_fields r) \<subseteq> \<int> \<and>
     (\<not> ho_handoff opts \<longrightarrow> nr_committedGen r = 0 \<and> nr_maxSeq r = 0 \<and> nr_unackedHigh r = 0)"

definition hb_whole :: "hb_options \<Rightarrow> hb_state \<Rightarrow> bool" where
  "hb_whole opts st \<longleftrightarrow> (\<forall>e\<in>set st. whole_rec opts (snd e))"

lemma those_tonumber: "set xs \<subseteq> \<int> \<Longrightarrow> those (map (lua_tonumber \<circ> lua_tostring) xs) = Some xs"
  by (induction xs) auto

lemma parse_encode:
  assumes "whole_rec opts r"
  shows "parseVal (encode (ho_handoff opts) r) = Some r"
proof -
  have p: "those (map lua_tonumber (split CHR '' '' (join '' '' (map lua_tostring xs)))) = Some xs"
    if "set xs \<subseteq> \<int>" "xs \<noteq> []" for xs
    using that those_tonumber[of xs] tostring_no_space by (subst split_join) auto
  have "r = \<lparr>nr_lLocal = nr_lLocal r, nr_inflight = nr_inflight r, nr_expiresAt = nr_expiresAt r, nr_share = nr_share r,
      nr_committedGen = nr_committedGen r, nr_maxSeq = nr_maxSeq r, nr_unackedHigh = nr_unackedHigh r\<rparr>" by simp
  with assms show ?thesis
    unfolding parseVal_def encode_def by (subst p) (auto simp: whole_rec_def rec_fields_def)
qed

text \<open>The hash that stands for a state of the reference.\<close>

definition hash_of :: "hb_options \<Rightarrow> hb_state \<Rightarrow> redis_hash" where
  "hash_of opts st = map (\<lambda>(i, r). (i, encode (ho_handoff opts) r)) st"

lemma hash_of_map_of: "map_of (hash_of opts st) i = map_option (encode (ho_handoff opts)) (map_of st i)"
  by (induction st) (auto simp: hash_of_def)

lemma hash_of_update: "AList.update i (encode (ho_handoff opts) r) (hash_of opts st) = hash_of opts (AList.update i r st)"
  by (induction st) (auto simp: hash_of_def)

lemma hash_of_delete: "AList.delete i (hash_of opts st) = hash_of opts (AList.delete i st)"
  by (induction st) (auto simp: hash_of_def AList.delete_eq)

lemma hash_of_parse:
  "hb_whole opts st \<Longrightarrow> those (map (\<lambda>(i, v). map_option (Pair i) (parseVal v)) (hash_of opts st)) = Some st"
  by (induction st) (auto simp: hash_of_def hb_whole_def parse_encode)

lemma fold_delete:
  assumes "distinct_keys st"
  shows "fold (\<lambda>(i, p). AList.delete i) (filter Q st) (hash_of opts st) = hash_of opts (filter (\<lambda>e. \<not> Q e) st)"
proof -
  have h: "fold (\<lambda>(i, p). AList.delete i) ds (hash_of opts m) = hash_of opts (filter (\<lambda>e. fst e \<notin> fst ` set ds) m)"
    for ds m :: hb_state
  proof (induction ds arbitrary: m)
    case (Cons d ds)
    have "filter (\<lambda>e. fst e \<notin> fst ` set ds) (AList.delete (fst d) m) = filter (\<lambda>e. fst e \<notin> fst ` set (d # ds)) m"
      by (auto simp: AList.delete_eq case_prod_beta intro!: filter_cong)
    then show ?case using Cons by (simp add: case_prod_beta hash_of_delete)
  qed simp
  have "inj_on fst (set st)" using assms by (simp add: distinct_keys_def distinct_map)
  then have "fst e \<in> fst ` set (filter Q st) \<longleftrightarrow> Q e" if "e \<in> set st" for e
    using that by (auto simp only: image_iff set_filter mem_Collect_eq dest: inj_onD)
  then have "filter (\<lambda>e. fst e \<notin> fst ` set (filter Q st)) st = filter (\<lambda>e. \<not> Q e) st" by (intro filter_cong) auto
  then show ?thesis unfolding h by simp
qed

section \<open>The script's loops\<close>

lemma array_indexOf_Cons:
  "array_indexOf x (y # ys) = (if y = x then 0 else if x \<in> set ys then array_indexOf x ys + 1 else - 1)"
  by (auto simp: array_indexOf_def)

lemma lua_rank_index:
  "distinct ids \<Longrightarrow> int (lua_rank self ids i rank) = (if self \<in> set ids then int i + array_indexOf self ids else int rank)"
  by (induction ids arbitrary: i rank) (auto simp: array_indexOf_Cons)

lemma lua_hungry_eq:
  "distinct ids \<Longrightarrow>
   lua_hungry rec self ids (v, h, k) =
     (v + (\<Sum>i\<leftarrow>filter (\<lambda>i. \<not> hungry (rec i)) ids. nr_inflight (rec i) + 1),
      h + length (filter (\<lambda>i. hungry (rec i)) ids),
      if self \<in> set ids \<and> hungry (rec self) then h + nat (array_indexOf self (filter (\<lambda>i. hungry (rec i)) ids)) else k)"
proof (induction ids arbitrary: v h k)
  case (Cons j ids)
  have "0 \<le> array_indexOf x xs" if "x \<in> set xs" for x :: string and xs using that by (simp add: array_indexOf_def)
  then show ?case using Cons by (auto simp: hungry_def array_indexOf_Cons nat_add_distrib)
qed simp

lemma lua_target_eq:
  assumes d: "distinct ids" and self: "self \<in> set ids"
  shows "lua_target (alloc = DemandProportional) (\<lambda>i. the (map_of st i)) self ids L = targetFor self ids L st alloc"
proof (cases alloc)
  case EqualSplit
  have "real (lua_rank self ids 0 0) = of_int (array_indexOf self ids)"
    using lua_rank_index[OF d, of self 0 0] self by (metis of_int_of_nat_eq add_0 of_nat_0)
  then show ?thesis using EqualSplit by (simp add: lua_target_def targetFor_def equal_part_def Let_def)
next
  case DemandProportional
  let ?rec = "\<lambda>i. the (map_of st i)"
  let ?hs = "filter (\<lambda>i. hungry (?rec i)) ids"
  have ix: "of_nat (nat (array_indexOf self ?hs)) = (of_int (array_indexOf self ?hs) :: num)" if "hungry (?rec self)"
    using that self by (simp add: array_indexOf_def)
  show ?thesis
  proof (cases "hungry (?rec self)")
    case True
    have ne: "length ?hs \<noteq> 0" using True self by (auto simp: filter_empty_conv)
    have full: "\<not> nr_inflight (?rec self) < nr_share (?rec self)" using True by (simp add: hungry_def)
    show ?thesis
      unfolding lua_target_def targetFor_def DemandProportional lua_hungry_eq[OF d] equal_part_def Let_def
      using True self ix[OF True] ne full by (simp only: if_less_max prod.case allocation.case if_True if_False simp_thms add_0)
  next
    case False
    then show ?thesis
      using DemandProportional by (simp add: lua_target_def targetFor_def lua_hungry_eq[OF d] hungry_def Let_def)
  qed
qed

lemma sort_hd_min: "xs \<noteq> [] \<Longrightarrow> sort xs ! 0 = foldr min (tl xs) (hd xs :: num)"
proof -
  assume ne: "xs \<noteq> []"
  have f: "foldr min ys (y::num) = Min (set (y # ys))" for ys y
    by (induction ys) (auto simp: Min_insert2 insert_commute)
  have "sort xs \<noteq> []" using ne by (metis length_0_conv length_sort)
  then have "sort xs ! 0 = Min (set (sort xs))"
    using sorted_sort[of xs] by (cases "sort xs") (auto intro!: Min_eqI[symmetric])
  also have "set (sort xs) = set (hd xs # tl xs)" using ne by simp
  finally show ?thesis unfolding f .
qed

lemma lua_lGlobal:
  fixes live :: hb_state
  shows "live \<noteq> [] \<Longrightarrow>
   (case agg of AMin \<Rightarrow> sort (map (\<lambda>(i, p). nr_lLocal p) live) ! 0
      | AMedian \<Rightarrow> sort (map (\<lambda>(i, p). nr_lLocal p) live) ! ((length (sort (map (\<lambda>(i, p). nr_lLocal p) live)) - 1) div 2)) =
   aggregateOf (map (nr_lLocal \<circ> snd) live) agg"
proof -
  have "(\<lambda>(i :: string, p :: node_record). nr_lLocal p) = nr_lLocal \<circ> snd" by (rule ext) (simp add: case_prod_beta)
  then show "live \<noteq> [] \<Longrightarrow> ?thesis" by (cases agg) (simp_all add: aggregateOf_def sort_hd_min)
qed

lemma sum_list_sort: "(\<Sum>x\<leftarrow>filter P (sort xs). f x) = (\<Sum>x\<leftarrow>filter P xs. (f x :: num))"
proof -
  have "mset (map f (filter P (sort xs))) = mset (map f (filter P xs))" by (simp add: mset_filter)
  then show ?thesis by (metis sum_mset_sum_list)
qed

lemma lua_others_eq:
  assumes "distinct_keys live"
  shows "lua_others (ho_handoff opts) (\<lambda>i. the (map_of live i)) self (sort (map fst live)) = otherReserved opts self live"
proof -
  have m: "map_of live (fst e) = Some (snd e)" if "e \<in> set live" for e
    using that assms set_map_of[of live "fst e" "snd e"] by simp
  have "(let f = nr_inflight r; s = (if ho_handoff opts then nr_unackedHigh r else nr_share r) in if s > f then s else f) = hb_hold opts r"
    for r by (auto simp: hb_hold_def Let_def)
  then have "lua_others (ho_handoff opts) (\<lambda>i. the (map_of live i)) self (sort (map fst live))
      = (\<Sum>i\<leftarrow>filter (\<lambda>i. i \<noteq> self) (map fst live). hb_hold opts (the (map_of live i)))"
    unfolding lua_others_def by (simp only: sum_list_sort)
  also have "\<dots> = otherReserved opts self live"
    unfolding otherReserved_def map_sum_def filter_map using m
    by (auto simp: comp_def intro!: arg_cong[where f = sum_list] map_cong)
  finally show ?thesis .
qed

section \<open>The script is the reference\<close>

lemma equal_part_Ints: "budget \<in> \<int> \<Longrightarrow> equal_part budget n rank \<in> \<int>"
  by (simp add: equal_part_def Let_def)

lemma targetFor_Ints:
  assumes "L \<in> \<int>" "\<And>i. i \<in> set ids \<Longrightarrow> nr_inflight (the (map_of st i)) \<in> \<int>" "self \<in> set ids"
  shows "targetFor self ids L st alloc \<in> \<int>"
proof -
  have "(\<Sum>i\<leftarrow>filter (\<lambda>i. \<not> hungry (the (map_of st i))) xs. nr_inflight (the (map_of st i)) + 1) \<in> \<int>"
    if "set xs \<subseteq> set ids" for xs using that assms(2) by (induction xs) auto
  then show ?thesis
    using assms by (auto simp: targetFor_def Let_def equal_part_Ints split: allocation.split)
qed

lemma map_sum_Ints: "(\<And>e. e \<in> set m \<Longrightarrow> f (snd e) \<in> \<int>) \<Longrightarrow> map_sum f m \<in> \<int>"
  by (induction m) auto

lemma whole_recD:
  "whole_rec opts r \<Longrightarrow> nr_lLocal r \<in> \<int>" "whole_rec opts r \<Longrightarrow> nr_inflight r \<in> \<int>"
  "whole_rec opts r \<Longrightarrow> nr_share r \<in> \<int>" "whole_rec opts r \<Longrightarrow> nr_unackedHigh r \<in> \<int>"
  "whole_rec opts r \<Longrightarrow> nr_committedGen r \<in> \<int>" "whole_rec opts r \<Longrightarrow> nr_maxSeq r \<in> \<int>"
  by (simp_all add: whole_rec_def rec_fields_def)

lemma whole_hold: "whole_rec opts r \<Longrightarrow> hb_hold opts r \<in> \<int>"
  using whole_recD[of opts r] by (simp add: hb_hold_def)

definition whole_report :: "hb_report \<Rightarrow> bool" where
  "whole_report r \<longleftrightarrow> rp_lLocal r \<in> \<int> \<and> rp_inflight r \<in> \<int> \<and> rp_expiresAt r \<in> \<int> \<and>
     seq_of r \<in> \<int> \<and> (case rp_appliedGen r of Some g \<Rightarrow> g \<in> \<int> | None \<Rightarrow> True)"

lemma whole_known: "hb_whole opts st \<Longrightarrow> map_of st i = Some p \<Longrightarrow> whole_rec opts p"
  by (auto simp: hb_whole_def dest!: map_of_SomeD)

lemma prior_whole:
  assumes "hb_whole opts st"
  shows "prior_of st r nr_share \<in> \<int>" "prior_of st r nr_committedGen \<in> \<int>" "prior_of st r nr_maxSeq \<in> \<int>"
    "prior_of st r nr_unackedHigh \<in> \<int>"
  by (auto simp: prior_of_def split: option.split dest!: whole_known[OF assms] intro: whole_recD[of opts])

lemma prior_legacy:
  assumes "hb_whole opts st" "\<not> ho_handoff opts"
  shows "prior_of st r nr_committedGen = 0" "prior_of st r nr_unackedHigh = 0"
  using assms by (auto simp: prior_of_def hb_whole_def whole_rec_def split: option.split dest!: map_of_SomeD)

lemma hb_self_whole:
  assumes "hb_whole opts st" "whole_report r"
  shows "whole_rec opts (hb_self opts st r)"
proof -
  have f: "(case map_of st (rp_nodeId r) of Some p \<Rightarrow> nr_inflight p | None \<Rightarrow> rp_inflight r) \<in> \<int>"
    using assms(2) by (auto simp: whole_report_def split: option.split dest!: whole_known[OF assms(1)] intro: whole_recD(2)[of opts])
  show ?thesis
    using assms(2) f prior_whole[OF assms(1), of r] prior_legacy[OF assms(1), of r]
    by (simp add: whole_rec_def rec_fields_def hb_self_def whole_report_def)
qed

lemma hb_live_whole: "hb_whole opts st \<Longrightarrow> whole_report r \<Longrightarrow> hb_whole opts (hb_live opts st r now)"
  using hb_self_whole by (auto simp: hb_whole_def dest!: hb_live_values)

lemma hb_share_whole:
  assumes "hb_whole opts live" "live \<noteq> []" "distinct_keys live" "i \<in> fst ` set live"
  shows "hb_share opts live i \<in> \<int>" "hb_lGlobal opts live \<in> \<int>"
proof -
  have v: "whole_rec opts (the (map_of live j))" if "j \<in> fst ` set live" for j
    using that assms(1,3) by (auto simp: hb_whole_def distinct_keys_def)
  have "hb_lGlobal opts live \<in> set (map (nr_lLocal \<circ> snd) live)"
    unfolding hb_lGlobal_def using assms(2) by (intro aggregateOf_in) simp
  then show L: "hb_lGlobal opts live \<in> \<int>" using assms(1) by (auto simp: hb_whole_def whole_recD(1))
  have "targetFor i (sort (map fst live)) (hb_lGlobal opts live) live (ho_allocation opts) \<in> \<int>"
    using L v assms(4) by (intro targetFor_Ints whole_recD(2)[of opts]) simp_all
  moreover have "otherReserved opts i live \<in> \<int>"
    unfolding otherReserved_def using assms(1) by (intro map_sum_Ints) (auto simp: hb_whole_def whole_hold)
  ultimately show "hb_share opts live i \<in> \<int>" using L by (simp add: hb_share_def Let_def)
qed

lemma hb_next_whole:
  assumes "hb_whole opts st" "whole_report r" "distinct_keys st"
  shows "whole_rec opts (hb_next opts st r now)"
proof -
  let ?live = "hb_live opts st r now"
  have "rp_nodeId r \<in> fst ` set ?live" using hb_live_self by (force dest: map_of_SomeD)
  then have s: "hb_share opts ?live (rp_nodeId r) \<in> \<int>"
    using hb_live_whole[OF assms(1,2)] hb_live_ne hb_live_distinct[OF assms(3)] by (intro hb_share_whole) auto
  show ?thesis
    using s hb_self_whole[OF assms(1,2)] prior_whole[OF assms(1), of r]
    by (auto simp: hb_next_def hb_commit_def whole_rec_def rec_fields_def Let_def)
qed

definition argv_of :: "hb_options \<Rightarrow> hb_report \<Rightarrow> num \<Rightarrow> heartbeat_argv" where
  "argv_of opts r n =
     \<lparr>ha_nodeId = rp_nodeId r, ha_lLocal = rp_lLocal r, ha_inflight = rp_inflight r, ha_expiresAt = rp_expiresAt r,
      ha_now = n, ha_aggregate = ho_aggregate opts,
      ha_seq = case_option (- 1) id (rp_seq r), ha_appliedGen = case_option (- 1) id (rp_appliedGen r),
      ha_handoff = ho_handoff opts, ha_demand = (ho_allocation opts = DemandProportional)\<rparr>"

lemma lua_prior:
  "hb_whole opts st \<Longrightarrow>
   (case map_of (hash_of opts st) i of None \<Rightarrow> Some None | Some v \<Rightarrow> map_option Some (parseVal v)) = Some (map_of st i)"
  by (auto simp: hash_of_map_of parse_encode whole_known split: option.split)

lemma update_same: "map_of m k = Some v \<Longrightarrow> AList.update k v m = m"
  by (induction m) (auto split: if_splits)

lemma lua_live:
  "filter (\<lambda>(j, p). \<not> (j \<noteq> i \<and> nr_expiresAt p < now)) = hb_evict i now"
  by (rule ext) (simp add: hb_evict_def)

definition hb_pexpire :: "hb_state \<Rightarrow> num \<Rightarrow> num" where
  "hb_pexpire live now =
     (let p = foldl (\<lambda>m (i, p). if nr_expiresAt p > m then nr_expiresAt p else m) 0 live - now in if p < 1 then 1 else p)"

lemma latest_ge: "nr_expiresAt p \<le> foldl (\<lambda>m (i, p). if nr_expiresAt p > m then nr_expiresAt p else m) m live"
  if "(i, p) \<in> set live \<or> nr_expiresAt p \<le> m"
  using that by (induction live arbitrary: m) fastforce+

lemma latest_Ints: "\<forall>e\<in>set live. nr_expiresAt (snd e) \<in> \<int> \<Longrightarrow> m \<in> \<int> \<Longrightarrow>
    foldl (\<lambda>m (i, p). if nr_expiresAt p > m then nr_expiresAt p else m) m live \<in> (\<int> :: num set)"
  by (induction live arbitrary: m) auto

lemma hb_pexpire_covers: "(i, p) \<in> set live \<Longrightarrow> nr_expiresAt p \<le> now + hb_pexpire live now"
  using latest_ge[of i p live 0] by (auto simp: hb_pexpire_def Let_def)

lemma heartbeat_lua_eq:
  assumes d: "distinct_keys st" and w: "hb_whole opts st" "whole_report r" and t: "lua_now n time = now"
  shows "heartbeat_lua (hash_of opts st) (argv_of opts r n) time =
    Inr ((gr_share (fst (applyHeartbeat st r now opts)), gr_lGlobal (fst (applyHeartbeat st r now opts)),
          gr_nodes (fst (applyHeartbeat st r now opts)), nr_committedGen (hb_next opts st r now)),
         hash_of opts (snd (applyHeartbeat st r now opts)), hb_pexpire (hb_live opts st r now) now)"
proof -
  let ?i = "rp_nodeId r" and ?self = "hb_self opts st r" and ?live = "hb_live opts st r now"
  let ?st1 = "AList.update ?i ?self st" and ?share = "hb_share opts ?live ?i"
  let ?gone = "\<lambda>(j, p). j \<noteq> ?i \<and> nr_expiresAt p < now"
  have prior: "(case map_of st ?i of None \<Rightarrow> 0 | Some p \<Rightarrow> f p) = prior_of st r f" for f
    by (auto simp: prior_of_def split: option.split)
  have seq: "case_option (- 1) id (rp_seq r) = seq_of r" by (auto simp: seq_of_def split: option.split)
  have fresh: "(\<not> ho_handoff opts \<or> seq_of r < 0 \<or> seq_of r > prior_of st r nr_maxSeq) = hb_fresh opts st r"
    by (simp add: hb_fresh_def)
  have self: "\<lparr>nr_lLocal = rp_lLocal r,
      nr_inflight = if hb_fresh opts st r then rp_inflight r else case map_of st ?i of None \<Rightarrow> rp_inflight r | Some p \<Rightarrow> nr_inflight p,
      nr_expiresAt = rp_expiresAt r, nr_share = prior_of st r nr_share, nr_committedGen = prior_of st r nr_committedGen,
      nr_maxSeq = if ho_handoff opts then if seq_of r < prior_of st r nr_maxSeq then prior_of st r nr_maxSeq else seq_of r else 0,
      nr_unackedHigh = prior_of st r nr_unackedHigh\<rparr> = ?self"
    by (auto simp: hb_self_def max_def split: option.split)
  have w1: "hb_whole opts ?st1" using w hb_self_whole[OF w] by (auto simp: hb_whole_def dest!: values_update)
  have d1: "distinct_keys ?st1" using d by simp
  have live: "hb_evict ?i now ?st1 = ?live" by (simp add: hb_live_def)
  have gone: "fold (\<lambda>(i, p). AList.delete i) (filter ?gone ?st1) (hash_of opts ?st1) = hash_of opts ?live"
    unfolding fold_delete[OF d1] live[symmetric] hb_evict_def by (intro arg_cong[where f = "hash_of opts"] filter_cong) auto
  have mem: "?i \<in> set (sort (map fst ?live))" using hb_live_self[of opts st r now] by (force dest: map_of_SomeD)
  have dl: "distinct (sort (map fst ?live))" using hb_live_distinct[OF d] by (simp add: distinct_keys_def)
  note target = lua_target_eq[OF dl mem, of "ho_allocation opts" ?live]
  have lim: "(case ho_aggregate opts of AMin \<Rightarrow> sort (map (\<lambda>(i, p). nr_lLocal p) ?live) ! 0
      | AMedian \<Rightarrow> sort (map (\<lambda>(i, p). nr_lLocal p) ?live) ! ((length ?live - 1) div 2)) =
      hb_lGlobal opts ?live"
    unfolding hb_lGlobal_def lua_lGlobal[OF hb_live_ne, symmetric] length_sort length_map ..
  note others = lua_others_eq[OF hb_live_distinct[OF d, of opts r now], of opts ?i]
  have share: "(if (if a < b then a else b) < 0 then 0 else if a < b then a else b) = max 0 (min a (b::num))" for a b
    by (auto simp: max_def min_def)
  have granted: "max 0 (min (targetFor ?i (sort (map fst ?live)) (hb_lGlobal opts ?live) ?live (ho_allocation opts))
      (hb_lGlobal opts ?live - otherReserved opts ?i ?live)) = ?share"
    by (simp add: hb_share_def Let_def)
  note run = heartbeat_argv.simps lua_prior[OF w(1)] option.case prior seq fresh self t hash_of_update hash_of_parse[OF w1]
    lua_live live gone target length_sort length_map lim others share granted
  have same: "\<not> hb_fresh opts st r \<Longrightarrow> ho_handoff opts \<Longrightarrow> AList.update ?i ?self ?live = ?live"
    by (rule update_same[OF hb_live_self])
  have lease: "case_option (- 1) id g = (case g of None \<Rightarrow> - 1 | Some x \<Rightarrow> x)" for g :: "num option" by (cases g) simp_all
  consider "ho_handoff opts" "hb_fresh opts st r" | "ho_handoff opts" "\<not> hb_fresh opts st r" | "\<not> ho_handoff opts" by blast
  then show ?thesis
  proof cases
    case 1
    show ?thesis
      unfolding heartbeat_lua_def argv_of_def Let_def
      apply (simp only: run)
      using 1
      apply (simp add: hb_pexpire_def applyHeartbeat_def hb_next_def hb_commit_def Let_def hb_self_def max_def lease)
      done
  next
    case 2
    show ?thesis
      unfolding heartbeat_lua_def argv_of_def Let_def
      apply (simp only: run)
      using 2
      apply (simp add: hb_pexpire_def applyHeartbeat_def hb_next_def hb_commit_def Let_def same)
      apply (simp add: hb_self_def)
      done
  next
    case 3
    then have fresh3: "hb_fresh opts st r" by (simp add: hb_fresh_def)
    show ?thesis
      unfolding heartbeat_lua_def argv_of_def Let_def
      apply (simp only: run)
      using 3 fresh3
      apply (simp add: hb_pexpire_def applyHeartbeat_def hb_next_def hb_commit_def Let_def hb_self_def prior_legacy[OF w(1)])
      done
  qed
qed

section \<open>Runs over Redis\<close>

text \<open>A run in which every heartbeat is answered; the second component is the reply of \<open>TIME\<close>.\<close>

fun rc_step :: "redis_coordinator \<Rightarrow> tc_op \<times> (num \<times> num) \<Rightarrow> (string \<Rightarrow> redis_entry) \<Rightarrow> (string \<Rightarrow> redis_entry)" where
  "rc_step rc (Beat key r now, time) db = snd (rc_heartbeat rc db key r now time)"
| "rc_step rc (Leave key i, time) db = rc_leave rc db key i"
| "rc_step rc (Health b, time) db = db"

text \<open>
  Heartbeats that are answered in time: the coordinator, the script and the server read one clock, in whole
  milliseconds; the numbers are whole; and a node the coordinator still has a record of renews the lease of that
  record before it lapses. The other nodes may lapse, and a node may come back once it was evicted or has left.
\<close>

definition in_time :: "hb_state \<Rightarrow> hb_report \<Rightarrow> num \<Rightarrow> bool" where
  "in_time st r now \<longleftrightarrow> (case map_of st (rp_nodeId r) of Some p \<Rightarrow> now \<le> nr_expiresAt p | None \<Rightarrow> True)"

fun rc_answered :: "redis_coordinator \<Rightarrow> test_coordinator \<Rightarrow> tc_op \<times> (num \<times> num) \<Rightarrow> bool" where
  "rc_answered rc tc (Beat key r now, time) \<longleftrightarrow>
     lua_now (if rc_serverTime rc then 0 else now) time = now \<and> lua_now 0 time = now \<and> now \<in> \<int> \<and> whole_report r \<and>
     in_time (tc_key tc key) r now"
| "rc_answered rc tc (Leave key i, time) \<longleftrightarrow> True"
| "rc_answered rc tc (Health b, time) \<longleftrightarrow> False"

fun rc_run_answered :: "redis_coordinator \<Rightarrow> test_coordinator \<Rightarrow> (tc_op \<times> (num \<times> num)) list \<Rightarrow> bool" where
  "rc_run_answered rc tc [] \<longleftrightarrow> True"
| "rc_run_answered rc tc (op # ops) \<longleftrightarrow> rc_answered rc tc op \<and> rc_run_answered rc (tc_step (fst op) tc) ops"

definition rc_match :: "redis_coordinator \<Rightarrow> test_coordinator \<Rightarrow> (string \<Rightarrow> redis_entry) \<Rightarrow> bool" where
  "rc_match rc tc db \<longleftrightarrow> tc_healthy tc \<and> tc_options tc = rc_options rc \<and>
     (\<forall>key. fst (db (rc_key rc key)) = hash_of (tc_options tc) (tc_key tc key) \<and>
            distinct_keys (tc_key tc key) \<and> hb_whole (tc_options tc) (tc_key tc key) \<and>
            (\<forall>d. snd (db (rc_key rc key)) = Some d \<longrightarrow> (\<forall>e\<in>set (tc_key tc key). nr_expiresAt (snd e) \<le> d)))"

lemma rc_key_inj [simp]: "rc_key rc k = rc_key rc k' \<longleftrightarrow> k = k'"
  by (simp add: rc_key_def)

text \<open>A heartbeat on a key that reads as the hash of a state: the reference compute, and a deadline no lease outlives.\<close>

lemma rc_beat_on:
  assumes st: "distinct_keys st" "hb_whole opts st" "fst (rc_live now (db (rc_key rc key))) = hash_of opts st" "opts = rc_options rc"
    and w: "whole_report r" "lua_now (if rc_serverTime rc then 0 else now) time = now" "lua_now 0 time = now" "now \<in> \<int>"
  defines "app \<equiv> applyHeartbeat st r now opts"
  shows "\<exists>d. rc_heartbeat rc db key r now time = (Inr (fst app), db(rc_key rc key := (hash_of opts (snd app), Some d))) \<and>
      (\<forall>e\<in>set (snd app). nr_expiresAt (snd e) \<le> d)"
    "distinct_keys (snd app)" "hb_whole opts (snd app)"
proof -
  let ?live = "hb_live opts st r now"
  have argv: "rc_argv rc r now = argv_of opts r (if rc_serverTime rc then 0 else now)"
    by (simp add: rc_argv_def argv_of_def st(4))
  note run = heartbeat_lua_eq[OF st(1,2) w(1,2), folded app_def]
  have live: "?live \<noteq> []" "distinct_keys ?live" "hb_whole opts ?live"
    using hb_live_ne hb_live_distinct[OF st(1)] hb_live_whole[OF st(2) w(1)] by auto
  have self_mem: "(rp_nodeId r, hb_self opts st r) \<in> set ?live" using hb_live_self by (force dest: map_of_SomeD)
  then have mem: "rp_nodeId r \<in> fst ` set ?live" by force
  note whole = hb_share_whole[OF live(3,1,2) mem]
  have next_whole: "whole_rec opts (hb_next opts st r now)" by (rule hb_next_whole[OF st(2) w(1) st(1)])
  have self: "nr_share (hb_next opts st r now) \<in> \<int>" "nr_committedGen (hb_next opts st r now) \<in> \<int>"
    using next_whole by (auto intro: whole_recD[of opts])
  have grant: "fst app = \<lparr>gr_share = (if ho_handoff opts then nr_share (hb_next opts st r now) else hb_share opts ?live (rp_nodeId r)),
      gr_lGlobal = hb_lGlobal opts ?live, gr_nodes = of_nat (length ?live),
      gr_gen = (if ho_handoff opts then Some (nr_committedGen (hb_next opts st r now)) else None)\<rparr>"
    by (simp add: app_def applyHeartbeat_def hb_next_def Let_def)
  have "\<forall>e\<in>set ?live. nr_expiresAt (snd e) \<in> \<int>" using live(3) by (auto simp: hb_whole_def whole_rec_def rec_fields_def)
  then have "hb_pexpire ?live now \<in> \<int>" using latest_Ints[of ?live 0] w(4) by (auto simp: hb_pexpire_def Let_def)
  then have p: "js_floor (hb_pexpire ?live now) = hb_pexpire ?live now" by (simp add: js_floor_def of_int_floor)
  have beat: "rc_heartbeat rc db key r now time =
      (Inr (fst app), db(rc_key rc key := (hash_of opts (snd app), Some (now + hb_pexpire ?live now))))"
    unfolding rc_heartbeat_def Let_def w(3) argv st(3) run using whole self p by (simp add: grant st(4)[symmetric])
  have e: "nr_expiresAt (hb_next opts st r now) = nr_expiresAt (hb_self opts st r)"
    by (simp add: hb_next_def hb_commit_def Let_def)
  have "nr_expiresAt (snd e) \<le> now + hb_pexpire ?live now" if "e \<in> set (snd app)" for e
  proof (cases "e \<in> set ?live")
    case True
    then show ?thesis using hb_pexpire_covers[of "fst e" "snd e" ?live now] by simp
  next
    case False
    then have "snd e = hb_next opts st r now"
      using that values_update by (fastforce simp: app_def applyHeartbeat_state)
    then show ?thesis using hb_pexpire_covers[OF self_mem, of now] e by simp
  qed
  then show "\<exists>d. rc_heartbeat rc db key r now time = (Inr (fst app), db(rc_key rc key := (hash_of opts (snd app), Some d))) \<and>
      (\<forall>e\<in>set (snd app). nr_expiresAt (snd e) \<le> d)" using beat by blast
  show "distinct_keys (snd app)" using live(2) by (simp add: app_def applyHeartbeat_state)
  show "hb_whole opts (snd app)"
    using live(3) next_whole by (auto simp: app_def applyHeartbeat_state hb_whole_def dest!: values_update)
qed

text \<open>When every lease of a state has lapsed, a node it has no record of finds what it would find in an empty one.\<close>

lemma lapsed_state:
  assumes "\<forall>e\<in>set st. nr_expiresAt (snd e) < now" "map_of st (rp_nodeId r) = None"
  shows "applyHeartbeat st r now opts = applyHeartbeat [] r now opts"
proof -
  have p: "prior_of st r f = prior_of [] r f" for f by (simp add: prior_of_def assms(2))
  then have f: "hb_fresh opts st r = hb_fresh opts [] r" by (simp add: hb_fresh_def)
  have s: "hb_self opts st r = hb_self opts [] r" unfolding hb_self_def f p by (simp add: assms(2))
  have none: "filter (\<lambda>(i, rec). \<not> (i \<noteq> rp_nodeId r \<and> nr_expiresAt rec < now)) st = []"
    using assms by (auto simp: filter_empty_conv map_of_eq_None_iff image_iff)
  have "AList.update (rp_nodeId r) v st = st @ [(rp_nodeId r, v)]" for v
    using assms(2) by (induction st) (auto split: if_splits)
  then have l: "hb_live opts st r now = hb_live opts [] r now"
    using none by (simp add: hb_live_def hb_evict_def s)
  have c: "hb_commit opts st r x y = hb_commit opts [] r x y" for x y unfolding hb_commit_def f p ..
  show ?thesis unfolding applyHeartbeat_def l s c ..
qed

lemma rc_beat:
  assumes m: "rc_match rc tc db" and a: "rc_answered rc tc (Beat key r now, time)"
  shows "fst (rc_heartbeat rc db key r now time) = fst (tc_heartbeat tc key r now)"
    "rc_match rc (snd (tc_heartbeat tc key r now)) (snd (rc_heartbeat rc db key r now time))"
proof -
  let ?o = "tc_options tc" and ?st = "tc_key tc key" and ?e = "db (rc_key rc key)"
  let ?app = "applyHeartbeat ?st r now ?o"
  have st: "distinct_keys ?st" "hb_whole ?o ?st" "fst ?e = hash_of ?o ?st" "?o = rc_options rc" "tc_healthy tc"
    "\<And>d. snd ?e = Some d \<Longrightarrow> \<forall>e\<in>set ?st. nr_expiresAt (snd e) \<le> d"
    using m by (auto simp: rc_match_def)
  have w: "whole_report r" "lua_now (if rc_serverTime rc then 0 else now) time = now" "lua_now 0 time = now" "now \<in> \<int>"
    and renew: "in_time ?st r now" using a by simp_all
  have "\<exists>st'. fst (rc_live now ?e) = hash_of ?o st' \<and> distinct_keys st' \<and> hb_whole ?o st' \<and> applyHeartbeat st' r now ?o = ?app"
  proof (cases "\<exists>d. snd ?e = Some d \<and> now > d")
    case True
    then have gone: "\<forall>e\<in>set ?st. nr_expiresAt (snd e) < now" using st(6) by fastforce
    then have "map_of ?st (rp_nodeId r) = None" using renew by (force simp: in_time_def split: option.splits dest: map_of_SomeD)
    then have "applyHeartbeat [] r now ?o = ?app" using lapsed_state[OF gone] by simp
    moreover have "fst (rc_live now ?e) = hash_of ?o []" using True by (auto simp: rc_live_def hash_of_def)
    ultimately show ?thesis by (intro exI[of _ "[]"]) (simp add: hb_whole_def)
  next
    case False
    then have "rc_live now ?e = ?e" by (auto simp: rc_live_def split: option.split)
    then show ?thesis using st(1-3) by auto
  qed
  then obtain st' where st': "fst (rc_live now ?e) = hash_of ?o st'" "distinct_keys st'" "hb_whole ?o st'" "applyHeartbeat st' r now ?o = ?app"
    by blast
  note B = rc_beat_on[where rc = rc and db = db and key = key and time = time, OF st'(2,3,1) st(4) w, unfolded st'(4)]
  obtain d where d: "rc_heartbeat rc db key r now time = (Inr (fst ?app), db(rc_key rc key := (hash_of ?o (snd ?app), Some d)))"
    "\<forall>e\<in>set (snd ?app). nr_expiresAt (snd e) \<le> d" using B(1) by blast
  have tc: "tc_heartbeat tc key r now = (Inr (fst ?app), tc\<lparr>tc_state := AList.update key (snd ?app) (tc_state tc)\<rparr>)"
    using st(5) by (simp add: tc_heartbeat_def case_prod_beta)
  show "fst (rc_heartbeat rc db key r now time) = fst (tc_heartbeat tc key r now)" unfolding d(1) tc by simp
  show "rc_match rc (snd (tc_heartbeat tc key r now)) (snd (rc_heartbeat rc db key r now time))"
    using m B(2,3) d(2) unfolding d(1) tc by (auto simp: rc_match_def)
qed

lemma rc_leave_match:
  assumes "rc_match rc tc db"
  shows "rc_match rc (tc_leave tc key i) (rc_leave rc db key i)"
proof -
  have w: "hb_whole opts st \<Longrightarrow> hb_whole opts (AList.delete i st)" for opts st
    by (auto simp: hb_whole_def AList.delete_eq)
  have k: "tc_key (tc_leave tc key i) k = (if k = key then AList.delete i (tc_key tc key) else tc_key tc k)" for k
    by (auto simp: tc_leave_def tc_key_def map_of_update split: option.split)
  have "nr_expiresAt (snd e) \<le> d" if "snd (db (rc_key rc key)) = Some d" "e \<in> set (tc_key tc key)" for key d e
    using assms that by (simp add: rc_match_def)
  then have kept: "nr_expiresAt b \<le> d" if "snd (db (rc_key rc key)) = Some d" "(a, b) \<in> set (AList.delete i (tc_key tc key))" for d a b
    using that by (fastforce simp: AList.delete_eq)
  have "tc_healthy (tc_leave tc key i) = tc_healthy tc" "tc_options (tc_leave tc key i) = tc_options tc"
    by (auto simp: tc_leave_def split: option.split)
  then show ?thesis using assms w by (auto simp: rc_match_def rc_leave_def Let_def hash_of_delete k dest: kept)
qed

lemma rc_run_match:
  "rc_match rc tc db \<Longrightarrow> rc_run_answered rc tc ops \<Longrightarrow>
   rc_match rc (fold tc_step (map fst ops) tc) (fold (rc_step rc) ops db)"
proof (induction ops arbitrary: tc db)
  case (Cons op ops)
  obtain o1 time where op: "op = (o1, time)" by (cases op)
  have "rc_match rc (tc_step o1 tc) (rc_step rc op db)"
    using Cons.prems rc_beat(2) rc_leave_match unfolding op by (cases o1) auto
  then show ?case using Cons.IH Cons.prems(2) op by simp
qed simp

lemma rc_match_new:
  "rc_match (rc_new agg prefix handoff serverTime alloc) (tc_new agg handoff alloc) (\<lambda>_. ([], None))"
  by (simp add: rc_match_def rc_new_def tc_new_def tc_key_def hash_of_def hb_whole_def)

text \<open>
  Once a key has lapsed the script answers as on an empty state, also to a node whose record the in-memory
  coordinator still has: its share, generation and sequence number start over.
\<close>

lemma lapsed_key_forgets:
  assumes "snd (db (rc_key rc key)) = Some d" "d < now" "whole_report r" "now \<in> \<int>"
    "lua_now (if rc_serverTime rc then 0 else now) time = now" "lua_now 0 time = now"
  shows "fst (rc_heartbeat rc db key r now time) = Inr (fst (applyHeartbeat [] r now (rc_options rc)))"
proof -
  have "fst (rc_live now (db (rc_key rc key))) = hash_of (rc_options rc) []" using assms by (simp add: rc_live_def hash_of_def)
  from rc_beat_on(1)[where rc = rc and db = db and key = key and time = time, OF _ _ this refl assms(3,5,6,4)] show ?thesis by (auto simp: hb_whole_def)
qed

text \<open>
  The two then disagree: a node alone with limit 10, whose lease lapsed before its next heartbeat with a limit of 8,
  gets generation 2 from the in-memory coordinator and generation 1 from the script.
\<close>

lemma solo_share:
  assumes "ho_allocation opts = EqualSplit" "ho_aggregate opts = AMin" "js_floor (nr_lLocal p) = nr_lLocal p" "0 \<le> nr_lLocal p"
  shows "hb_share opts [(i, p)] i = nr_lLocal p"
  using assms
  by (simp add: hb_share_def hb_lGlobal_def aggregateOf_def targetFor_def equal_part_def array_indexOf_def otherReserved_def Let_def)

lemma lapsed_key_differs:
  assumes opts: "opts = \<lparr>ho_aggregate = AMin, ho_allocation = EqualSplit, ho_handoff = True\<rparr>"
    and r: "r = \<lparr>rp_nodeId = ''a'', rp_lLocal = 10, rp_inflight = 0, rp_expiresAt = 20, rp_seq = Some 1, rp_appliedGen = Some 0\<rparr>"
    and r': "r' = \<lparr>rp_nodeId = ''a'', rp_lLocal = 8, rp_inflight = 0, rp_expiresAt = 90, rp_seq = Some 2, rp_appliedGen = Some 1\<rparr>"
  shows "gr_gen (fst (applyHeartbeat (snd (applyHeartbeat [] r 5 opts)) r' 50 opts)) = Some 2"
    "gr_gen (fst (applyHeartbeat [] r' 50 opts)) = Some 1"
proof -
  have f: "js_floor 10 = 10" "js_floor 8 = 8" by (simp_all add: js_floor_def)
  let ?p = "\<lparr>nr_lLocal = 10, nr_inflight = 0, nr_expiresAt = 20, nr_share = 10, nr_committedGen = 1, nr_maxSeq = 1, nr_unackedHigh = 10\<rparr>"
  note eval = applyHeartbeat_def hb_live_def hb_evict_def hb_self_def hb_fresh_def prior_of_def seq_of_def hb_commit_def Let_def
    solo_share opts f
  have one: "snd (applyHeartbeat [] r 5 opts) = [(''a'', ?p)]" by (simp add: eval r)
  show "gr_gen (fst (applyHeartbeat (snd (applyHeartbeat [] r 5 opts)) r' 50 opts)) = Some 2" unfolding one by (simp add: eval r')
  show "gr_gen (fst (applyHeartbeat [] r' 50 opts)) = Some 1" by (simp add: eval r')
qed

section \<open>The order of rows\<close>

lemma same_map_mset:
  assumes "distinct_keys a" "distinct_keys b" "map_of a = map_of b"
  shows "mset a = mset b"
proof -
  have "set a = set b" using assms set_map_of[of a] set_map_of[of b] by auto
  moreover have "distinct a" "distinct b" using assms by (auto simp: distinct_keys_def distinct_map)
  ultimately show ?thesis by (simp add: set_eq_iff_mset_eq_distinct)
qed

lemma sort_cong: "mset xs = mset ys \<Longrightarrow> sort xs = sort ys"
  by (metis properties_for_sort mset_sort sorted_sort)

lemma map_sum_perm: "mset a = mset b \<Longrightarrow> map_sum f a = map_sum f b"
proof -
  assume "mset a = mset b"
  then have "mset (map (\<lambda>e. f (snd e)) a) = mset (map (\<lambda>e. f (snd e)) b)" by simp
  then show ?thesis unfolding map_sum_def by (metis sum_mset_sum_list)
qed

lemma aggregateOf_perm: "mset xs = mset ys \<Longrightarrow> xs \<noteq> [] \<Longrightarrow> aggregateOf xs a = aggregateOf ys a"
proof -
  assume h: "mset xs = mset ys" "xs \<noteq> []"
  then have "ys \<noteq> []" by auto
  then show ?thesis
    using h sort_cong[of xs ys] mset_eq_length[of xs ys] sort_hd_min[of xs] sort_hd_min[of ys]
    by (cases a) (simp_all add: aggregateOf_def)
qed

lemma applyHeartbeat_cong:
  assumes d: "distinct_keys st" "distinct_keys st'" and m: "map_of st = map_of st'"
  shows "fst (applyHeartbeat st r now opts) = fst (applyHeartbeat st' r now opts)"
    "map_of (snd (applyHeartbeat st r now opts)) = map_of (snd (applyHeartbeat st' r now opts))"
proof -
  let ?live = "hb_live opts st r now" and ?live' = "hb_live opts st' r now"
  have p: "prior_of st r f = prior_of st' r f" for f by (simp add: prior_of_def m)
  then have fr: "hb_fresh opts st r = hb_fresh opts st' r" by (simp add: hb_fresh_def)
  then have self: "hb_self opts st r = hb_self opts st' r" using p m by (simp add: hb_self_def)
  have lm: "map_of ?live = map_of ?live'"
    using d by (intro ext) (simp add: hb_live_def hb_evict_def map_of_filter_distinct map_of_update m self)
  have ms: "mset ?live = mset ?live'" using hb_live_distinct d lm by (intro same_map_mset) auto
  have L: "hb_lGlobal opts ?live = hb_lGlobal opts ?live'"
    unfolding hb_lGlobal_def using ms hb_live_ne by (intro aggregateOf_perm) auto
  have ids: "sort (map fst ?live) = sort (map fst ?live')" using ms by (intro sort_cong) simp
  have t: "targetFor i ids B ?live a = targetFor i ids B ?live' a" for i ids B a
    unfolding targetFor_def lm ..
  have "mset (filter P ?live) = mset (filter P ?live')" for P using ms by simp
  then have res: "otherReserved opts i ?live = otherReserved opts i ?live'" for i
    unfolding otherReserved_def by (intro map_sum_perm)
  have sh: "hb_share opts ?live i = hb_share opts ?live' i" for i
    by (simp add: hb_share_def L ids t res Let_def)
  have cm: "hb_commit opts st r s n = hb_commit opts st' r s n" for s n unfolding hb_commit_def fr p ..
  have "length ?live = length ?live'" using ms by (rule mset_eq_length)
  then show "fst (applyHeartbeat st r now opts) = fst (applyHeartbeat st' r now opts)"
    by (simp add: applyHeartbeat_def Let_def sh cm self L)
  show "map_of (snd (applyHeartbeat st r now opts)) = map_of (snd (applyHeartbeat st' r now opts))"
    by (simp add: applyHeartbeat_def Let_def update_conv' sh cm self lm)
qed

section \<open>Runs over the table\<close>

text \<open>The rows of a \<open>SELECT\<close> come in any order. A transaction that fails is rolled back and leaves no step.\<close>

inductive pg_reach :: "pg_coordinator \<Rightarrow> tc_op list \<Rightarrow> pg_table \<Rightarrow> bool" for pc where
  pg_init: "pg_reach pc [] []"
| pg_beat: "pg_reach pc ops t \<Longrightarrow> mset rows = mset (pg_rows t (pc_key pc key)) \<Longrightarrow>
     pg_reach pc (ops @ [Beat key r now]) (snd (pg_heartbeat pc t rows key r now))"
| pg_left: "pg_reach pc ops t \<Longrightarrow> pg_reach pc (ops @ [Leave key i]) (pg_leave pc t key i)"

definition pg_match :: "pg_coordinator \<Rightarrow> test_coordinator \<Rightarrow> pg_table \<Rightarrow> bool" where
  "pg_match pc tc t \<longleftrightarrow> tc_healthy tc \<and> tc_options tc = pc_options pc \<and> distinct_keys t \<and>
     (\<forall>key. distinct_keys (tc_key tc key) \<and>
        (\<forall>i. map_of (tc_key tc key) i = map_option pr_rec (map_of t (pc_key pc key, i))))"

lemma pc_key_inj [simp]: "pc_key pc k = pc_key pc k' \<longleftrightarrow> k = k'"
  by (simp add: pc_key_def)

lemma pg_rows_keys: "distinct_keys t \<Longrightarrow> distinct_keys (pg_rows t k)"
proof (induction t)
  case (Cons e t)
  obtain k' i row where e: "e = ((k', i), row)" by (metis surj_pair)
  have "i \<notin> fst ` set (pg_rows t k)" if "(k, i) \<notin> fst ` set t"
    using that by (force simp: pg_rows_def)
  moreover have "pg_rows (e # t) k = (if k' = k then (i, pr_rec row) # pg_rows t k else pg_rows t k)"
    by (simp add: pg_rows_def e)
  ultimately show ?case using Cons e by auto
qed (simp add: pg_rows_def)

lemma pg_rows_map_of: "map_of (pg_rows t k) i = map_option pr_rec (map_of t (k, i))"
  by (induction t) (auto simp: pg_rows_def)

lemma pg_select:
  assumes m: "pg_match pc tc t" and rows: "mset rows = mset (pg_rows t (pc_key pc key))"
  shows "distinct_keys rows" "map_of rows = map_of (tc_key tc key)"
proof -
  have t: "distinct_keys t" using m by (simp add: pg_match_def)
  have "mset (map fst rows) = mset (map fst (pg_rows t (pc_key pc key)))" using rows by simp
  then show d: "distinct_keys rows"
    using pg_rows_keys[OF t] unfolding distinct_keys_def by (metis mset_eq_imp_distinct_iff)
  have "set rows = set (pg_rows t (pc_key pc key))" using rows by (metis set_mset_mset)
  then have "map_of rows = map_of (pg_rows t (pc_key pc key))"
    using d pg_rows_keys[OF t] unfolding distinct_keys_def by (intro map_of_inject_set[THEN iffD2]) auto
  then show "map_of rows = map_of (tc_key tc key)"
    using m by (intro ext) (simp add: pg_match_def pg_rows_map_of)
qed

lemma pg_beat_match:
  assumes m: "pg_match pc tc t" and rows: "mset rows = mset (pg_rows t (pc_key pc key))"
  shows "fst (tc_heartbeat tc key r now) = Inr (fst (pg_heartbeat pc t rows key r now))"
    "pg_match pc (snd (tc_heartbeat tc key r now)) (snd (pg_heartbeat pc t rows key r now))"
proof -
  let ?o = "tc_options tc" and ?st = "tc_key tc key" and ?k = "pc_key pc key" and ?i = "rp_nodeId r"
  have h: "tc_healthy tc" "?o = pc_options pc" "distinct_keys t" "distinct_keys ?st"
    "map_of ?st j = map_option pr_rec (map_of t (?k, j))" for j
    using m by (auto simp: pg_match_def)
  note sel = pg_select[OF m rows]
  note cong = applyHeartbeat_cong[OF sel(1) h(4) sel(2), of r now ?o]
  let ?app = "applyHeartbeat ?st r now ?o" and ?papp = "applyHeartbeat rows r now ?o"
  have tc: "tc_heartbeat tc key r now = (Inr (fst ?app), tc\<lparr>tc_state := AList.update key (snd ?app) (tc_state tc)\<rparr>)"
    using h(1) by (simp add: tc_heartbeat_def case_prod_beta)
  show "fst (tc_heartbeat tc key r now) = Inr (fst (pg_heartbeat pc t rows key r now))"
    using cong(1) h(2) by (simp add: tc pg_heartbeat_def Let_def case_prod_beta)
  define kept where "kept = filter (\<lambda>((k, j), row). \<not> (k = ?k \<and> nr_expiresAt (pr_rec row) < now)) t"
  let ?row = "\<lparr>pr_rec = the (map_of (snd ?papp) ?i), pr_updatedAt = now\<rparr>"
  have t': "snd (pg_heartbeat pc t rows key r now) = AList.update (?k, ?i) ?row kept"
    using h(2) by (simp add: pg_heartbeat_def Let_def case_prod_beta kept_def)
  have kept: "map_of kept (k, j) = (case map_of t (k, j) of None \<Rightarrow> None
      | Some row \<Rightarrow> if k = ?k \<and> nr_expiresAt (pr_rec row) < now then None else Some row)" for k j
    using h(3) unfolding kept_def by (simp add: map_of_filter_distinct case_prod_beta split: option.split)
  have dk: "distinct_keys kept" using h(3) by (simp add: kept_def)
  have post: "map_of (snd ?app) j = (if j = ?i then Some (hb_next ?o ?st r now)
      else case map_of ?st j of None \<Rightarrow> None | Some p \<Rightarrow> if nr_expiresAt p < now then None else Some p)" for j
    using h(4) by (auto simp: applyHeartbeat_state map_of_update hb_live_def hb_evict_def map_of_filter_distinct split: option.split)
  have self: "map_of (snd ?papp) ?i = Some (hb_next ?o ?st r now)" using post[of ?i] cong(2) by simp
  have "map_of (snd ?app) j = map_option pr_rec (map_of (AList.update (?k, ?i) ?row kept) (?k, j))" for j
    by (auto simp: post map_of_update kept self h(5) split: option.split)
  moreover have "map_option pr_rec (map_of (AList.update (?k, ?i) ?row kept) (pc_key pc k', j)) =
      map_option pr_rec (map_of t (pc_key pc k', j))" if "k' \<noteq> key" for k' j
    using that by (simp add: map_of_update kept split: option.split)
  ultimately show "pg_match pc (snd (tc_heartbeat tc key r now)) (snd (pg_heartbeat pc t rows key r now))"
    using m h(4) dk hb_live_distinct unfolding tc t' by (auto simp: pg_match_def applyHeartbeat_state)
qed

lemma pg_leave_match:
  assumes "pg_match pc tc t"
  shows "pg_match pc (tc_leave tc key i) (pg_leave pc t key i)"
proof -
  have k: "tc_key (tc_leave tc key i) k = (if k = key then AList.delete i (tc_key tc key) else tc_key tc k)" for k
    by (auto simp: tc_leave_def tc_key_def map_of_update split: option.split)
  have "tc_healthy (tc_leave tc key i) = tc_healthy tc" "tc_options (tc_leave tc key i) = tc_options tc"
    by (auto simp: tc_leave_def split: option.split)
  then show ?thesis using assms by (auto simp: pg_match_def pg_leave_def k map_of_delete)
qed

lemma pg_reach_match:
  assumes "pg_reach pc ops t" "tc_healthy tc" "tc_options tc = pc_options pc" "tc_state tc = []"
  shows "pg_match pc (fold tc_step ops tc) t"
  using assms(1)
proof induction
  case pg_init
  then show ?case using assms(2-4) by (simp add: pg_match_def tc_key_def)
next
  case (pg_beat ops t rows key r now)
  then show ?case using pg_beat_match(2) by simp
next
  case (pg_left ops t key i)
  then show ?case using pg_leave_match by simp
qed

text \<open>The sweep deletes only rows whose lease has lapsed by the process's clock.\<close>

lemma pg_gc_keeps_live:
  assumes "map_of t (k, i) = Some row" "dateNow \<le> nr_expiresAt (pr_rec row)" "0 \<le> pc_gcRetentionMs pc" "distinct_keys t"
  shows "map_of (pg_gc pc t dateNow) (k, i) = Some row"
  using assms by (simp add: pg_gc_def Let_def map_of_filter_distinct)

section \<open>Properties\<close>

text \<open>
  C23. The Redis script is the reference compute: from an empty keyspace, after any sequence of heartbeats and
  departures with whole-number reports, the next heartbeat of \<open>RedisConcurrencyCoordinator\<close> returns exactly the
  grant of the in-memory coordinator, although the key expires when the longest lease in it lapses. The script, the
  coordinator and the server share a clock of whole milliseconds, and a node heartbeats before the lease of the
  record the coordinator has of it lapses, or after that record is gone.
\<close>
theorem redis_coordinator_equiv:
  assumes "rc_run_answered rc (tc_new agg handoff alloc) ops"
    "rc_answered rc (fold tc_step (map fst ops) (tc_new agg handoff alloc)) (Beat key r now, time)"
    "rc = rc_new agg prefix handoff serverTime alloc"
  shows "fst (rc_heartbeat rc (fold (rc_step rc) ops (\<lambda>_. ([], None))) key r now time) =
         fst (tc_heartbeat (fold tc_step (map fst ops) (tc_new agg handoff alloc)) key r now)"
proof -
  have "rc_match rc (fold tc_step (map fst ops) (tc_new agg handoff alloc)) (fold (rc_step rc) ops (\<lambda>_. ([], None)))"
    using rc_run_match[OF _ assms(1)] rc_match_new assms(3) by blast
  then show ?thesis using assms(2) by (rule rc_beat(1))
qed

definition beats_ex :: "(tc_op \<times> (num \<times> num)) list" where
  "beats_ex = [(Beat ''k'' (report_ex ''a'' 10 0) 5, (0, 5000)), (Leave ''k'' ''c'', (0, 6000))]"

theorem redis_coordinator_equiv_witness:
  "fst (rc_heartbeat (rc_new None None (Some True) None None)
      (fold (rc_step (rc_new None None (Some True) None None)) beats_ex (\<lambda>_. ([], None))) ''k'' (report_ex ''b'' 8 1) 3000 (3, 0)) =
   fst (tc_heartbeat (fold tc_step (map fst beats_ex) (tc_new None (Some True) None)) ''k'' (report_ex ''b'' 8 1) 3000)"
proof (rule redis_coordinator_equiv[OF _ _ refl])
  have w: "whole_report (report_ex i 10 0)" "whole_report (report_ex i 8 1)" for i by (simp_all add: whole_report_def report_ex_def seq_of_def)
  show "rc_run_answered (rc_new None None (Some True) None None) (tc_new None (Some True) None) beats_ex"
    using w(1) by (simp add: beats_ex_def rc_new_def lua_now_def js_floor_def in_time_def tc_new_def tc_key_def)
  have "map_of (tc_key (fold tc_step (map fst beats_ex) (tc_new None (Some True) None)) ''k'') ''b'' = None"
    by (simp add: beats_ex_def tc_new_def tc_heartbeat_def tc_leave_def tc_key_def applyHeartbeat_def hb_live_def hb_evict_def
        report_ex_def Let_def)
  then show "rc_answered (rc_new None None (Some True) None None) (fold tc_step (map fst beats_ex) (tc_new None (Some True) None))
      (Beat ''k'' (report_ex ''b'' 8 1) 3000, 3, 0)"
    using w(2) by (simp add: rc_new_def lua_now_def js_floor_def in_time_def report_ex_def)
qed

text \<open>
  The Postgres coordinator refines the in-memory one: whatever order the rows of each \<open>SELECT\<close> come
  back in, after any committed heartbeats and departures the next heartbeat returns the same grant.
\<close>
theorem postgres_coordinator_refines:
  assumes "pg_reach pc ops t" "pc_options pc = tc_options (tc_new agg handoff alloc)"
    "mset rows = mset (pg_rows t (pc_key pc key))"
  shows "fst (tc_heartbeat (fold tc_step ops (tc_new agg handoff alloc)) key r now) =
         Inr (fst (pg_heartbeat pc t rows key r now))"
proof -
  have "pg_match pc (fold tc_step ops (tc_new agg handoff alloc)) t"
    using assms(2) by (intro pg_reach_match[OF assms(1)]) (simp_all add: tc_new_def)
  then show ?thesis using assms(3) by (rule pg_beat_match(1))
qed

theorem postgres_coordinator_refines_witness:
  "fst (tc_heartbeat (tc_new None None None) ''k'' (report_ex ''a'' 10 0) 5) =
   Inr (fst (pg_heartbeat \<lparr>pc_options = tc_options (tc_new None None None), pc_prefix = ''tk:fed'', pc_gcRetentionMs = 86400000\<rparr>
      [] [] ''k'' (report_ex ''a'' 10 0) 5))"
  using postgres_coordinator_refines[OF pg_reach.pg_init, of
      "\<lparr>pc_options = tc_options (tc_new None None None), pc_prefix = ''tk:fed'', pc_gcRetentionMs = 86400000\<rparr>"
      None None None "[]" "''k''" "report_ex ''a'' 10 0" 5]
  by (simp add: pg_rows_def)

end
