(* ===== verification/DistGuard.thy ===== *)
theory DistGuard
  imports Adaptive Heartbeat
begin

text \<open>
  \<open>src/concurrency/distributed.ts\<close>: the concurrency guard that tightens a private adaptive guard by the
  share a coordinator grants it. A heartbeat is two atomic steps, up to the \<open>await\<close> and after it. The
  clocks are arguments: \<open>now\<close> of the guard, \<open>lnow\<close> of the private guard; a synchronous section sees one
  \<open>now\<close>. The lemmas: what \<open>acquire\<close> admits, and that under self-fencing an admission needs a lease the
  coordinator has acknowledged and that outlives the safety margin.
\<close>

section \<open>Configuration\<close>

datatype outage_mode = FailClosed | LocalOnly

record dist_cfg =
  dc_local :: guard_cfg
  dc_nodeId :: string
  dc_key :: string
  dc_heartbeatMs :: num
  dc_leaseTtlMs :: num
  dc_outage :: outage_mode
  dc_eager :: bool
  dc_minHeartbeatMs :: num
  dc_selfFence :: bool
  dc_margin :: num

record dist_options =
  do_nodeId :: "string option"
  do_key :: "string option"
  do_local :: "adaptive_options option"
  do_heartbeatMs :: "js_number option"
  do_leaseTtlMs :: "js_number option"
  do_outage :: "outage_mode option"
  do_eager :: "bool option"
  do_minHeartbeatMs :: "js_number option"
  do_selfFence :: "bool option"
  do_margin :: "js_number option"
  do_setTimer :: bool

definition adaptive_defaults :: adaptive_options where
  "adaptive_defaults =
     \<lparr>ao_minLimit = None, ao_maxLimit = None, ao_initialLimit = None, ao_algorithm = None, ao_rttWindow = None,
      ao_smoothing = None, ao_tolerance = None, ao_backoffRatio = None, ao_recalibration = None\<rparr>"

text \<open>\<open>Math.min\<close> with a finite number, \<open>2 * x\<close>.\<close>

fun js_min_with :: "num \<Rightarrow> js_number \<Rightarrow> js_number" where
  "js_min_with a (Num b) = Num (min a b)"
| "js_min_with a Infinity = Num a"
| "js_min_with a v = v"

fun js_twice :: "js_number \<Rightarrow> js_number" where
  "js_twice (Num x) = js_of_real (2 * x)"
| "js_twice v = v"

definition requirePositiveInteger :: "string \<Rightarrow> js_number \<Rightarrow> num result" where
  "requirePositiveInteger name v = rbind (requirePositive name v) (\<lambda>_. requireInteger name v)"

definition distributedAdaptiveConcurrency :: "dist_options \<Rightarrow> dist_cfg result" where
  "distributedAdaptiveConcurrency opts =
     (case do_nodeId opts of
        None \<Rightarrow> Inl (RangeError ''nodeId'')
      | Some nodeId \<Rightarrow>
          if length nodeId = 0 then Inl (RangeError ''nodeId'')
          else
            (let hb = js_default (do_heartbeatMs opts) (Num 1000);
                 ttl = js_default (do_leaseTtlMs opts) (js_twice hb);
                 outage = js_default (do_outage opts) FailClosed
             in rbind (requirePositiveInteger ''heartbeatMs'' hb) (\<lambda>heartbeatMs.
                rbind (requirePositiveInteger ''leaseTtlMs'' ttl) (\<lambda>leaseTtlMs.
                if leaseTtlMs \<le> heartbeatMs then Inl (RangeError ''leaseTtlMs'')
                else
                  (let eager = js_default (do_eager opts) False
                   in if eager \<and> \<not> do_setTimer opts then Inl (RangeError ''eagerHandoff'')
                      else
                        (let minBeat = js_min_with heartbeatMs
                               (js_default (do_minHeartbeatMs opts) (Num (max 1 (js_round (heartbeatMs / 10)))));
                             selfFence = js_default (do_selfFence opts) (outage = FailClosed);
                             margin = js_default (do_margin opts) (Num (max 1 (js_round ((leaseTtlMs - heartbeatMs) / 2))))
                         in rbind (if eager then requirePositiveInteger ''minHeartbeatMs'' minBeat else Inr 0) (\<lambda>minHeartbeatMs.
                            rbind (if selfFence then requirePositiveInteger ''fenceSafetyMargin'' margin else Inr 0) (\<lambda>fenceMargin.
                            rbind (adaptiveConcurrency (js_default (do_local opts) adaptive_defaults)) (\<lambda>cfg.
                            Inr \<lparr>dc_local = cfg, dc_nodeId = nodeId, dc_key = js_default (do_key opts) [],
                                 dc_heartbeatMs = heartbeatMs, dc_leaseTtlMs = leaseTtlMs, dc_outage = outage, dc_eager = eager,
                                 dc_minHeartbeatMs = minHeartbeatMs, dc_selfFence = selfFence, dc_margin = fenceMargin\<rparr>)))))))))"

section \<open>State\<close>

text \<open>
  \<open>None\<close> is \<open>-Infinity\<close> for the two instants and \<open>undefined\<close> for the pending eager timer, which
  otherwise holds the delay it was set with.
\<close>

record dist_guard =
  dg_local :: guard
  dg_share :: num
  dg_lGlobal :: num
  dg_nodes :: num
  dg_heartbeatSeq :: nat
  dg_appliedSeq :: nat
  dg_appliedGen :: num
  dg_reportedGen :: num
  dg_lastReportedInflight :: int
  dg_lastBeatStartAt :: "num option"
  dg_eagerTimer :: "num option"
  dg_leaseExpiresAt :: "num option"
  dg_everLeased :: bool
  dg_fencedFired :: bool
  dg_closed :: bool
  dg_timer :: bool

definition dg_new :: "dist_cfg \<Rightarrow> num \<Rightarrow> dist_guard" where
  "dg_new C lnow =
     (let local = ag_new (dc_local C) lnow
      in \<lparr>dg_local = local, dg_share = (if dc_outage C = FailClosed then 0 else ag_limit local), dg_lGlobal = 0, dg_nodes = 0,
          dg_heartbeatSeq = 0, dg_appliedSeq = 0, dg_appliedGen = 0, dg_reportedGen = 0, dg_lastReportedInflight = 0,
          dg_lastBeatStartAt = None, dg_eagerTimer = None, dg_leaseExpiresAt = None, dg_everLeased = False,
          dg_fencedFired = False, dg_closed = False, dg_timer = True\<rparr>)"

section \<open>Fencing and admission\<close>

definition dg_isFenced :: "dist_cfg \<Rightarrow> dist_guard \<Rightarrow> num \<Rightarrow> bool" where
  "dg_isFenced C g now \<longleftrightarrow>
     dc_selfFence C \<and> dg_everLeased g \<and>
     (case dg_leaseExpiresAt g of None \<Rightarrow> True | Some e \<Rightarrow> now \<ge> e - dc_margin C)"

text \<open>The flag beside the state says whether \<open>onFenced\<close> was called.\<close>

definition dg_checkFence :: "dist_cfg \<Rightarrow> dist_guard \<Rightarrow> num \<Rightarrow> bool \<times> dist_guard" where
  "dg_checkFence C g now =
     (let fenced = dg_isFenced C g now
      in if fenced \<and> \<not> dg_fencedFired g then (True, g\<lparr>dg_fencedFired := True\<rparr>)
         else if \<not> fenced \<and> dg_fencedFired g then (False, g\<lparr>dg_fencedFired := False\<rparr>)
         else (False, g))"

definition dg_watch :: "dist_cfg \<Rightarrow> dist_guard \<Rightarrow> num \<Rightarrow> bool \<times> dist_guard" where
  "dg_watch C g now = (if dc_selfFence C then dg_checkFence C g now else (False, g))"

definition dg_effectiveLimit :: "dist_cfg \<Rightarrow> dist_guard \<Rightarrow> num \<Rightarrow> num" where
  "dg_effectiveLimit C g now = (if dg_isFenced C g now then 0 else min (dg_share g) (ag_limit (dg_local g)))"

definition dg_belowFair :: "dist_guard \<Rightarrow> bool" where
  "dg_belowFair g \<longleftrightarrow> dg_nodes g > 0 \<and> dg_share g < js_floor (dg_lGlobal g / dg_nodes g)"

definition dg_scheduleEager :: "dist_cfg \<Rightarrow> dist_guard \<Rightarrow> num \<Rightarrow> dist_guard" where
  "dg_scheduleEager C g now =
     (if \<not> dc_eager C \<or> dg_closed g \<or> dg_eagerTimer g \<noteq> None then g
      else g\<lparr>dg_eagerTimer := Some (case dg_lastBeatStartAt g of
                 None \<Rightarrow> 0 | Some s \<Rightarrow> max 0 (s + dc_minHeartbeatMs C - now))\<rparr>)"

text \<open>
  A lease: the private guard's lease, absent when it refused or was not asked, and whether the release is
  the eager wrapper.
\<close>

record dist_lease =
  dl_inner :: "lease option"
  dl_eager :: bool

definition dg_refused :: dist_lease where
  "dg_refused = \<lparr>dl_inner = None, dl_eager = False\<rparr>"

definition dg_acquire :: "dist_cfg \<Rightarrow> dist_guard \<Rightarrow> num \<Rightarrow> num \<Rightarrow> dist_lease \<times> bool \<times> dist_guard" where
  "dg_acquire C g now lnow =
     (if dg_closed g then (dg_refused, False, g)
      else
        (let (fired, g1) = dg_watch C g now;
             ceiling = (if dc_selfFence C \<and> dg_isFenced C g now then 0 else min (dg_share g) (ag_limit (dg_local g)))
         in if of_int (ag_inflight (dg_local g1)) \<ge> ceiling then
              (dg_refused, fired, if dc_eager C \<and> dg_belowFair g1 then dg_scheduleEager C g1 now else g1)
            else
              (case ag_acquire (dc_local C) (dg_local g1) lnow of
                 (l, local) \<Rightarrow>
                   (\<lparr>dl_inner = map_option (\<lambda>(s, n). \<lparr>le_start = s, le_inflight = n, le_released = False\<rparr>) l,
                     dl_eager = dc_eager C\<rparr>, fired, g1\<lparr>dg_local := local\<rparr>))))"

definition dg_release :: "dist_cfg \<Rightarrow> dist_guard \<Rightarrow> num \<Rightarrow> num \<Rightarrow> dist_lease \<Rightarrow> bool \<Rightarrow> dist_lease \<times> dist_guard" where
  "dg_release C g now lnow l dropped =
     (let (l1, g1) = (case dl_inner l of
              None \<Rightarrow> (l, g)
            | Some il \<Rightarrow> (case lease_release (dc_local C) (dg_local g) lnow il dropped of
                (il', local) \<Rightarrow> (l\<lparr>dl_inner := Some il'\<rparr>, g\<lparr>dg_local := local\<rparr>)))
      in (l1, if dl_eager l \<and> of_int (ag_inflight (dg_local g1)) \<le> dg_share g1 \<and>
                 of_int (dg_lastReportedInflight g1) > dg_share g1
              then dg_scheduleEager C g1 now else g1))"

section \<open>Heartbeats\<close>

text \<open>What the cycle remembers across its \<open>await\<close>.\<close>

record beat_token =
  bt_seq :: nat
  bt_expiresAt :: num
  bt_inflight :: int
  bt_appliedGen :: num

definition dg_beat :: "dist_cfg \<Rightarrow> dist_guard \<Rightarrow> num \<Rightarrow> hb_report \<times> beat_token \<times> bool \<times> dist_guard" where
  "dg_beat C g0 now =
     (let g1 = g0\<lparr>dg_eagerTimer := None\<rparr>;
          (fired, g2) = dg_watch C g1 now;
          seq = dg_heartbeatSeq g2 + 1;
          g3 = g2\<lparr>dg_lastBeatStartAt := Some now, dg_heartbeatSeq := seq\<rparr>;
          tok = \<lparr>bt_seq = seq, bt_expiresAt = now + dc_leaseTtlMs C, bt_inflight = ag_inflight (dg_local g3),
                 bt_appliedGen = dg_appliedGen g3\<rparr>
      in (\<lparr>rp_nodeId = dc_nodeId C, rp_lLocal = ag_limit (dg_local g3), rp_inflight = of_int (bt_inflight tok),
            rp_expiresAt = bt_expiresAt tok, rp_seq = Some (of_nat seq), rp_appliedGen = Some (bt_appliedGen tok)\<rparr>,
          tok, fired, g3))"

definition dg_reply :: "dist_cfg \<Rightarrow> dist_guard \<Rightarrow> num \<Rightarrow> beat_token \<Rightarrow> hb_grant \<Rightarrow> dist_guard" where
  "dg_reply C g now tok grant =
     (let g1 = g\<lparr>dg_leaseExpiresAt := Some (bt_expiresAt tok), dg_everLeased := True,
                 dg_reportedGen := max (dg_reportedGen g) (bt_appliedGen tok),
                 dg_lastReportedInflight := bt_inflight tok\<rparr>
      in if bt_seq tok < dg_appliedSeq g1 then g1
         else
           (let g2 = g1\<lparr>dg_appliedSeq := bt_seq tok, dg_share := gr_share grant, dg_lGlobal := gr_lGlobal grant,
                        dg_nodes := gr_nodes grant,
                        dg_appliedGen := (case gr_gen grant of None \<Rightarrow> dg_appliedGen g1 | Some k \<Rightarrow> k)\<rparr>
            in if dc_eager C \<and> dg_appliedGen g2 > dg_reportedGen g2 then dg_scheduleEager C g2 now else g2))"

definition dg_outage :: "dist_cfg \<Rightarrow> dist_guard \<Rightarrow> beat_token \<Rightarrow> dist_guard" where
  "dg_outage C g tok =
     (if bt_seq tok < dg_appliedSeq g then g
      else g\<lparr>dg_appliedSeq := bt_seq tok,
             dg_share := (if dc_outage C = FailClosed then 0 else ag_limit (dg_local g))\<rparr>)"

text \<open>The flag says whether the coordinator's \<open>leave\<close> is called.\<close>

definition dg_close :: "dist_guard \<Rightarrow> bool \<times> dist_guard" where
  "dg_close g = (\<not> dg_closed g, g\<lparr>dg_closed := True, dg_timer := False, dg_eagerTimer := None\<rparr>)"

record dist_stats =
  ds_limit :: num
  ds_inflight :: int
  ds_rttNoload :: num
  ds_lastRtt :: num
  ds_share :: num
  ds_lGlobal :: num
  ds_nodes :: num
  ds_fenced :: bool

definition dg_stats :: "dist_cfg \<Rightarrow> dist_guard \<Rightarrow> num \<Rightarrow> dist_stats" where
  "dg_stats C g now =
     \<lparr>ds_limit = dg_effectiveLimit C g now, ds_inflight = ag_inflight (dg_local g), ds_rttNoload = ag_rttNoload (dg_local g),
      ds_lastRtt = ag_lastRtt (dg_local g), ds_share = dg_share g, ds_lGlobal = dg_lGlobal g, ds_nodes = dg_nodes g,
      ds_fenced = dg_isFenced C g now\<rparr>"

section \<open>What the steps keep\<close>

lemma scheduleEager_frame [simp]:
  "dg_local (dg_scheduleEager C g now) = dg_local g" "dg_share (dg_scheduleEager C g now) = dg_share g"
  "dg_heartbeatSeq (dg_scheduleEager C g now) = dg_heartbeatSeq g" "dg_appliedSeq (dg_scheduleEager C g now) = dg_appliedSeq g"
  "dg_appliedGen (dg_scheduleEager C g now) = dg_appliedGen g" "dg_leaseExpiresAt (dg_scheduleEager C g now) = dg_leaseExpiresAt g"
  "dg_everLeased (dg_scheduleEager C g now) = dg_everLeased g" "dg_closed (dg_scheduleEager C g now) = dg_closed g"
  by (simp_all add: dg_scheduleEager_def)

definition dl_ok :: "dist_lease \<Rightarrow> bool" where
  "dl_ok l \<longleftrightarrow> dl_inner l \<noteq> None"

text \<open>The fields that only heartbeats change.\<close>

definition same_grant :: "dist_guard \<Rightarrow> dist_guard \<Rightarrow> bool" where
  "same_grant g g' \<longleftrightarrow>
     dg_share g' = dg_share g \<and> dg_heartbeatSeq g' = dg_heartbeatSeq g \<and> dg_appliedSeq g' = dg_appliedSeq g \<and>
     dg_appliedGen g' = dg_appliedGen g \<and> dg_leaseExpiresAt g' = dg_leaseExpiresAt g \<and>
     dg_everLeased g' = dg_everLeased g \<and> dg_closed g' = dg_closed g"

lemma checkFence_frame: "dg_checkFence C g now = (b, g1) \<Longrightarrow> same_grant g g1 \<and> dg_local g1 = dg_local g"
  by (auto simp: dg_checkFence_def Let_def same_grant_def split: if_splits)

lemma dg_watch_frame: "dg_watch C g now = (b, g1) \<Longrightarrow> same_grant g g1 \<and> dg_local g1 = dg_local g"
  using checkFence_frame[of C g now] by (auto simp: dg_watch_def same_grant_def split: if_splits)

definition dg_inflight :: "dist_guard \<Rightarrow> int" where
  "dg_inflight g = ag_inflight (dg_local g)"

lemma ag_acquire_inflight:
  "ag_acquire cfg a lnow = (l, a') \<Longrightarrow> ag_inflight a' = ag_inflight a + (if l = None then 0 else 1) \<and> ag_estimate a' = ag_estimate a"
  by (auto simp: ag_acquire_def Let_def split: if_splits)

lemma dg_acquire_step:
  assumes "dg_acquire C g now lnow = (l, fired, g')"
  shows "same_grant g g'" "dg_inflight g' = dg_inflight g + (if dl_ok l then 1 else 0)"
    "dl_ok l \<longleftrightarrow> \<not> dg_closed g \<and> of_int (dg_inflight g) < dg_effectiveLimit C g now \<and>
       of_int (dg_inflight g) < ag_ceiling (dc_local C) (dg_local g)"
proof -
  obtain fired' g1 where f: "dg_watch C g now = (fired', g1)" by (metis surj_pair)
  have g1: "same_grant g g1" "dg_local g1 = dg_local g" using dg_watch_frame[OF f] by auto
  obtain i a where a: "ag_acquire (dc_local C) (dg_local g) lnow = (i, a)" by (metis surj_pair)
  have i: "i \<noteq> None \<longleftrightarrow> of_int (ag_inflight (dg_local g)) < ag_ceiling (dc_local C) (dg_local g)"
    using a by (auto simp: ag_acquire_def Let_def not_le split: if_splits)
  note A = ag_acquire_inflight[OF a]
  have ceil: "(if dc_selfFence C \<and> dg_isFenced C g now then 0 else min (dg_share g) (ag_limit (dg_local g))) = dg_effectiveLimit C g now"
    by (simp add: dg_effectiveLimit_def dg_isFenced_def)
  have run: "dg_acquire C g now lnow =
      (if dg_closed g then (dg_refused, False, g)
       else if of_int (dg_inflight g) \<ge> dg_effectiveLimit C g now then
         (dg_refused, fired', if dc_eager C \<and> dg_belowFair g1 then dg_scheduleEager C g1 now else g1)
       else (\<lparr>dl_inner = map_option (\<lambda>(s, n). \<lparr>le_start = s, le_inflight = n, le_released = False\<rparr>) i, dl_eager = dc_eager C\<rparr>,
             fired', g1\<lparr>dg_local := a\<rparr>))"
    unfolding dg_acquire_def Let_def f ceil by (simp add: g1(2) a dg_inflight_def)
  consider "dg_closed g" | "\<not> dg_closed g" "of_int (dg_inflight g) \<ge> dg_effectiveLimit C g now"
    | "\<not> dg_closed g" "\<not> of_int (dg_inflight g) \<ge> dg_effectiveLimit C g now" by blast
  then have "same_grant g g' \<and> dg_inflight g' = dg_inflight g + (if dl_ok l then 1 else 0) \<and>
    (dl_ok l \<longleftrightarrow> \<not> dg_closed g \<and> of_int (dg_inflight g) < dg_effectiveLimit C g now \<and>
       of_int (dg_inflight g) < ag_ceiling (dc_local C) (dg_local g))"
  proof cases
    case 1
    then have "l = dg_refused" "g' = g" using assms run by simp_all
    then show ?thesis using 1 by (simp add: same_grant_def dl_ok_def dg_refused_def)
  next
    case 2
    then have "l = dg_refused" "g' = (if dc_eager C \<and> dg_belowFair g1 then dg_scheduleEager C g1 now else g1)"
      using assms run by simp_all
    then show ?thesis using 2 g1 by (simp add: same_grant_def dl_ok_def dg_refused_def dg_inflight_def)
  next
    case 3
    then have "dl_inner l = map_option (\<lambda>(s, n). \<lparr>le_start = s, le_inflight = n, le_released = False\<rparr>) i" "g' = g1\<lparr>dg_local := a\<rparr>"
      using assms run by auto
    then show ?thesis using 3 g1 A i by (auto simp: same_grant_def dl_ok_def dg_inflight_def)
  qed
  then show "same_grant g g'" "dg_inflight g' = dg_inflight g + (if dl_ok l then 1 else 0)"
    "dl_ok l \<longleftrightarrow> \<not> dg_closed g \<and> of_int (dg_inflight g) < dg_effectiveLimit C g now \<and>
       of_int (dg_inflight g) < ag_ceiling (dc_local C) (dg_local g)" by auto
qed

definition dl_open :: "dist_lease \<Rightarrow> bool" where
  "dl_open l \<longleftrightarrow> (case dl_inner l of Some il \<Rightarrow> \<not> le_released il | None \<Rightarrow> False)"

lemma lease_release_step:
  "lease_release cfg a t il d = (il', a') \<Longrightarrow>
   ag_inflight a' = ag_inflight a - (if le_released il then 0 else 1) \<and> le_released il'"
  by (auto simp: lease_release_def ag_settle_def Let_def split: if_splits option.split ag_algorithm.split)

lemma eager_step:
  "same_grant g (if b then dg_scheduleEager C g now else g)"
  "dg_inflight (if b then dg_scheduleEager C g now else g) = dg_inflight g"
  by (simp_all add: same_grant_def dg_inflight_def)

lemma dg_release_step:
  assumes "dg_release C g now lnow l dropped = (l', g')"
  shows "same_grant g g'" "dg_inflight g' = dg_inflight g - (if dl_open l then 1 else 0)" "\<not> dl_open l'"
proof -
  have "same_grant g g' \<and> dg_inflight g' = dg_inflight g - (if dl_open l then 1 else 0) \<and> \<not> dl_open l'"
  proof (cases "dl_inner l")
    case None
    have "(l', g') = (l, if dl_eager l \<and> of_int (ag_inflight (dg_local g)) \<le> dg_share g \<and>
        of_int (dg_lastReportedInflight g) > dg_share g then dg_scheduleEager C g now else g)"
      unfolding assms[symmetric] by (simp add: dg_release_def None)
    then have l': "l' = l" and g': "g' = (if dl_eager l \<and> of_int (ag_inflight (dg_local g)) \<le> dg_share g \<and>
        of_int (dg_lastReportedInflight g) > dg_share g then dg_scheduleEager C g now else g)"
      by (simp_all only: prod.inject)
    have "same_grant g g'" "dg_inflight g' = dg_inflight g" unfolding g' by (rule eager_step)+
    then show ?thesis using None l' by (simp add: dl_open_def)
  next
    case (Some il)
    obtain il' a where r: "lease_release (dc_local C) (dg_local g) lnow il dropped = (il', a)" by (metis surj_pair)
    let ?g = "g\<lparr>dg_local := a\<rparr>"
    have l': "l' = l\<lparr>dl_inner := Some il'\<rparr>" using assms by (simp add: dg_release_def Some r)
    have g': "g' = (if dl_eager l \<and> of_int (ag_inflight a) \<le> dg_share g \<and> of_int (dg_lastReportedInflight g) > dg_share g
        then dg_scheduleEager C ?g now else ?g)"
      using assms by (simp add: dg_release_def Some r)
    have f: "same_grant ?g g'" "dg_inflight g' = dg_inflight ?g" unfolding g' by (rule eager_step)+
    have "same_grant g g'" using f(1) by (simp add: same_grant_def)
    moreover have "dg_inflight g' = dg_inflight g - (if dl_open l then 1 else 0)"
      using f(2) lease_release_step[OF r] Some by (simp add: dg_inflight_def dl_open_def)
    ultimately show ?thesis using l' lease_release_step[OF r] by (simp add: dl_open_def)
  qed
  then show "same_grant g g'" "dg_inflight g' = dg_inflight g - (if dl_open l then 1 else 0)" "\<not> dl_open l'" by auto
qed

lemma dg_beat_step:
  assumes "dg_beat C g now = (r, tok, fired, g')"
  shows "dg_local g' = dg_local g" "dg_share g' = dg_share g" "dg_heartbeatSeq g' = dg_heartbeatSeq g + 1"
    "dg_appliedSeq g' = dg_appliedSeq g" "dg_appliedGen g' = dg_appliedGen g" "dg_leaseExpiresAt g' = dg_leaseExpiresAt g"
    "dg_everLeased g' = dg_everLeased g" "dg_closed g' = dg_closed g"
    "bt_seq tok = dg_heartbeatSeq g + 1" "bt_expiresAt tok = now + dc_leaseTtlMs C"
    "r = \<lparr>rp_nodeId = dc_nodeId C, rp_lLocal = ag_limit (dg_local g), rp_inflight = of_int (dg_inflight g),
          rp_expiresAt = now + dc_leaseTtlMs C, rp_seq = Some (of_nat (dg_heartbeatSeq g + 1)), rp_appliedGen = Some (dg_appliedGen g)\<rparr>"
proof -
  obtain b g2 where w: "dg_watch C (g\<lparr>dg_eagerTimer := None\<rparr>) now = (b, g2)" by (metis surj_pair)
  have f: "same_grant g g2" "dg_local g2 = dg_local g" using dg_watch_frame[OF w] by (auto simp: same_grant_def)
  show "dg_local g' = dg_local g" "dg_share g' = dg_share g" "dg_heartbeatSeq g' = dg_heartbeatSeq g + 1"
    "dg_appliedSeq g' = dg_appliedSeq g" "dg_appliedGen g' = dg_appliedGen g" "dg_leaseExpiresAt g' = dg_leaseExpiresAt g"
    "dg_everLeased g' = dg_everLeased g" "dg_closed g' = dg_closed g"
    "bt_seq tok = dg_heartbeatSeq g + 1" "bt_expiresAt tok = now + dc_leaseTtlMs C"
    "r = \<lparr>rp_nodeId = dc_nodeId C, rp_lLocal = ag_limit (dg_local g), rp_inflight = of_int (dg_inflight g),
          rp_expiresAt = now + dc_leaseTtlMs C, rp_seq = Some (of_nat (dg_heartbeatSeq g + 1)), rp_appliedGen = Some (dg_appliedGen g)\<rparr>"
    using assms f by (auto simp: dg_beat_def w Let_def same_grant_def dg_inflight_def)
qed

lemma dg_reply_step:
  "dg_local (dg_reply C g now tok gr) = dg_local g"
  "dg_heartbeatSeq (dg_reply C g now tok gr) = dg_heartbeatSeq g"
  "dg_appliedSeq (dg_reply C g now tok gr) = max (bt_seq tok) (dg_appliedSeq g)"
  "dg_share (dg_reply C g now tok gr) = (if bt_seq tok < dg_appliedSeq g then dg_share g else gr_share gr)"
  "dg_appliedGen (dg_reply C g now tok gr) =
     (if bt_seq tok < dg_appliedSeq g then dg_appliedGen g else case gr_gen gr of None \<Rightarrow> dg_appliedGen g | Some k \<Rightarrow> k)"
  "dg_leaseExpiresAt (dg_reply C g now tok gr) = Some (bt_expiresAt tok)"
  "dg_everLeased (dg_reply C g now tok gr)"
  "dg_closed (dg_reply C g now tok gr) = dg_closed g"
  by (cases "gr_gen gr"; cases "bt_seq tok < dg_appliedSeq g"; simp add: dg_reply_def Let_def)+

lemma dg_outage_step:
  "dg_local (dg_outage C g tok) = dg_local g"
  "dg_heartbeatSeq (dg_outage C g tok) = dg_heartbeatSeq g"
  "dg_appliedSeq (dg_outage C g tok) = max (bt_seq tok) (dg_appliedSeq g)"
  "dg_share (dg_outage C g tok) =
     (if bt_seq tok < dg_appliedSeq g then dg_share g else if dc_outage C = FailClosed then 0 else ag_limit (dg_local g))"
  "dg_appliedGen (dg_outage C g tok) = dg_appliedGen g"
  "dg_leaseExpiresAt (dg_outage C g tok) = dg_leaseExpiresAt g"
  "dg_everLeased (dg_outage C g tok) = dg_everLeased g"
  "dg_closed (dg_outage C g tok) = dg_closed g"
  by (auto simp: dg_outage_def max_def)

section \<open>Runs of one guard\<close>

text \<open>
  The guard with the leases it gave, the cycles that await an answer, and the expiries the coordinator has
  acknowledged. Answers come in any order.
\<close>

record dist_run =
  dr_guard :: dist_guard
  dr_leases :: "dist_lease list"
  dr_pending :: "beat_token list"
  dr_answered :: "num list"

datatype dist_op =
    DAcquire num num
  | DRelease num num nat bool
  | DBeat num
  | DReply num nat hb_grant
  | DOutage nat
  | DClose

definition drop_nth :: "nat \<Rightarrow> 'a list \<Rightarrow> 'a list" where
  "drop_nth k xs = take k xs @ drop (Suc k) xs"

definition run_new :: "dist_cfg \<Rightarrow> num \<Rightarrow> dist_run" where
  "run_new C lnow = \<lparr>dr_guard = dg_new C lnow, dr_leases = [], dr_pending = [], dr_answered = []\<rparr>"

fun dist_step :: "dist_cfg \<Rightarrow> dist_op \<Rightarrow> dist_run \<Rightarrow> dist_run" where
  "dist_step C (DAcquire now lnow) s =
     (case dg_acquire C (dr_guard s) now lnow of (l, fired, g) \<Rightarrow> s\<lparr>dr_guard := g, dr_leases := dr_leases s @ [l]\<rparr>)"
| "dist_step C (DRelease now lnow k dropped) s =
     (if k < length (dr_leases s) then
        (case dg_release C (dr_guard s) now lnow (dr_leases s ! k) dropped of
           (l, g) \<Rightarrow> s\<lparr>dr_guard := g, dr_leases := (dr_leases s)[k := l]\<rparr>)
      else s)"
| "dist_step C (DBeat now) s =
     (case dg_beat C (dr_guard s) now of (r, tok, fired, g) \<Rightarrow> s\<lparr>dr_guard := g, dr_pending := dr_pending s @ [tok]\<rparr>)"
| "dist_step C (DReply now k grant) s =
     (if k < length (dr_pending s) then
        s\<lparr>dr_guard := dg_reply C (dr_guard s) now (dr_pending s ! k) grant, dr_pending := drop_nth k (dr_pending s),
          dr_answered := bt_expiresAt (dr_pending s ! k) # dr_answered s\<rparr>
      else s)"
| "dist_step C (DOutage k) s =
     (if k < length (dr_pending s) then
        s\<lparr>dr_guard := dg_outage C (dr_guard s) (dr_pending s ! k), dr_pending := drop_nth k (dr_pending s)\<rparr>
      else s)"
| "dist_step C DClose s = s\<lparr>dr_guard := snd (dg_close (dr_guard s))\<rparr>"

definition open_leases :: "dist_lease list \<Rightarrow> nat" where
  "open_leases ls = length (filter dl_open ls)"

definition lease_acknowledged :: "dist_run \<Rightarrow> bool" where
  "lease_acknowledged s \<longleftrightarrow>
     (if dg_everLeased (dr_guard s)
      then \<exists>e\<in>set (dr_answered s). dg_leaseExpiresAt (dr_guard s) = Some e
      else dg_share (dr_guard s) = 0)"

definition dist_ok :: "dist_cfg \<Rightarrow> dist_run \<Rightarrow> bool" where
  "dist_ok C s \<longleftrightarrow> dg_inflight (dr_guard s) = int (open_leases (dr_leases s)) \<and>
     (dc_outage C = FailClosed \<longrightarrow> lease_acknowledged s)"

lemma open_leases_snoc [simp]: "open_leases (ls @ [l]) = open_leases ls + (if dl_open l then 1 else 0)"
  by (simp add: open_leases_def)

lemma open_leases_update:
  "k < length ls \<Longrightarrow> \<not> dl_open l \<Longrightarrow> open_leases (ls[k := l]) + (if dl_open (ls ! k) then 1 else 0) = open_leases ls"
proof (induction ls arbitrary: k)
  case (Cons x ls)
  show ?case
  proof (cases k)
    case (Suc j)
    then show ?thesis using Cons.IH[of j] Cons.prems by (simp add: open_leases_def)
  qed (use Cons.prems in \<open>simp add: open_leases_def\<close>)
qed simp

lemma acquired_open:
  assumes "dg_acquire C g now lnow = (l, fired, g')"
  shows "dl_open l = dl_ok l"
proof -
  obtain b g1 where f: "dg_watch C g now = (b, g1)" by (metis surj_pair)
  obtain i a where a: "ag_acquire (dc_local C) (dg_local g1) lnow = (i, a)" by (metis surj_pair)
  have "l = dg_refused \<or> dl_inner l = map_option (\<lambda>(s, n). \<lparr>le_start = s, le_inflight = n, le_released = False\<rparr>) i"
    using assms f a by (auto simp: dg_acquire_def split: if_splits)
  then show ?thesis by (cases i) (auto simp: dl_open_def dl_ok_def dg_refused_def)
qed

lemma same_grant_ack:
  "lease_acknowledged s \<Longrightarrow> same_grant (dr_guard s) g \<Longrightarrow> lease_acknowledged (s\<lparr>dr_guard := g, dr_leases := ls\<rparr>)"
  by (auto simp: lease_acknowledged_def same_grant_def)

lemma dist_step_ok:
  assumes ok: "dist_ok C s"
  shows "dist_ok C (dist_step C op s)"
proof (cases op)
  case (DAcquire now lnow)
  obtain l f g where a: "dg_acquire C (dr_guard s) now lnow = (l, f, g)" by (metis surj_pair)
  show ?thesis
    using ok dg_acquire_step(1,2)[OF a] acquired_open[OF a] same_grant_ack
    by (auto simp: DAcquire a dist_ok_def)
next
  case (DRelease now lnow k dropped)
  show ?thesis
  proof (cases "k < length (dr_leases s)")
    case True
    obtain l g where r: "dg_release C (dr_guard s) now lnow (dr_leases s ! k) dropped = (l, g)" by (metis surj_pair)
    show ?thesis
      using True ok dg_release_step[OF r] open_leases_update[OF True, of l] same_grant_ack
      by (auto simp: DRelease r dist_ok_def)
  qed (use ok in \<open>simp add: DRelease\<close>)
next
  case (DBeat now)
  obtain r tok f g where b: "dg_beat C (dr_guard s) now = (r, tok, f, g)" by (metis surj_pair)
  show ?thesis
    using ok dg_beat_step(1,2,6,7)[OF b] by (auto simp: DBeat b dist_ok_def lease_acknowledged_def dg_inflight_def)
next
  case (DReply now k grant)
  then show ?thesis
    using ok by (auto simp: dist_ok_def lease_acknowledged_def dg_inflight_def dg_reply_step)
next
  case (DOutage k)
  then show ?thesis
    using ok by (auto simp: dist_ok_def lease_acknowledged_def dg_inflight_def dg_outage_step)
next
  case DClose
  then show ?thesis using ok by (simp add: dist_ok_def dg_close_def lease_acknowledged_def dg_inflight_def)
qed

lemma dist_run_ok: "dist_ok C (fold (dist_step C) ops (run_new C lnow))"
proof -
  have "dist_ok C (run_new C lnow)"
    by (simp add: dist_ok_def run_new_def dg_new_def Let_def lease_acknowledged_def open_leases_def dg_inflight_def ag_new_def)
  moreover have "dist_ok C s \<Longrightarrow> dist_ok C (fold (dist_step C) ops s)" for s
    by (induction ops arbitrary: s) (simp_all add: dist_step_ok)
  ultimately show ?thesis by blast
qed

text \<open>While the private guard probes, it may refuse although the gate of the outer guard is open.\<close>

lemma probe_refuses_open_gate:
  "\<exists>C g. \<not> dg_closed g \<and> of_int (dg_inflight g) < dg_effectiveLimit C g 0 \<and> \<not> dl_ok (fst (dg_acquire C g 0 0))"
proof -
  define L where "L = \<lparr>gc_minLimit = 1, gc_maxLimit = 10, gc_initialLimit = 4, gc_algorithm = Gradient2, gc_window = 1,
    gc_smoothing = 1, gc_tolerance = 2, gc_backoffRatio = 9 / 10,
    gc_recal = Some \<lparr>rc_intervalMs = 1, rc_probeLimit = 1, rc_probeSamples = 1\<rparr>\<rparr>"
  define C where "C = \<lparr>dc_local = L, dc_nodeId = ''a'', dc_key = [], dc_heartbeatMs = 1000, dc_leaseTtlMs = 2000,
    dc_outage = FailClosed, dc_eager = False, dc_minHeartbeatMs = 0, dc_selfFence = False, dc_margin = 0\<rparr>"
  define g where "g = (dg_new C 0)\<lparr>dg_share := 3, dg_local := (ag_new L 0)\<lparr>ag_probing := True, ag_inflight := 1\<rparr>\<rparr>"
  have "\<not> dg_closed g \<and> of_int (dg_inflight g) < dg_effectiveLimit C g 0 \<and> \<not> dl_ok (fst (dg_acquire C g 0 0))"
    by (simp add: g_def C_def L_def dg_new_def Let_def dg_inflight_def dg_effectiveLimit_def dg_isFenced_def dg_acquire_def
        dg_watch_def ag_acquire_def ag_ceiling_def ag_limit_def ag_new_def ag_probeLimit_def dl_ok_def)
  then show ?thesis by blast
qed

section \<open>Properties\<close>

text \<open>
  In any run of a guard, with answers in any order: its in-flight count is the number of leases it
  gave and that are not released; it admits exactly when it is open, that count is below the effective
  limit (zero when fenced, else the lesser of the share and the private limit) and the private guard's own
  ceiling allows it, which outside a recalibration probe it always does; an admission of an unfenced guard
  never takes it above its share.
\<close>
theorem distributed_admission:
  assumes "s = fold (dist_step C) ops (run_new C start)" "dg_acquire C (dr_guard s) now lnow = (l, fired, g')"
  shows "dg_inflight (dr_guard s) = int (open_leases (dr_leases s))
    \<and> (dl_ok l \<longleftrightarrow> \<not> dg_closed (dr_guard s) \<and> of_int (dg_inflight (dr_guard s)) < dg_effectiveLimit C (dr_guard s) now \<and>
        of_int (dg_inflight (dr_guard s)) < ag_ceiling (dc_local C) (dg_local (dr_guard s)))
    \<and> (\<not> ag_probing (dg_local (dr_guard s)) \<longrightarrow>
        (dl_ok l \<longleftrightarrow> \<not> dg_closed (dr_guard s) \<and> of_int (dg_inflight (dr_guard s)) < dg_effectiveLimit C (dr_guard s) now))
    \<and> (dl_ok l \<longrightarrow> \<not> dg_isFenced C (dr_guard s) now \<and> dg_inflight g' = dg_inflight (dr_guard s) + 1 \<and>
        of_int (dg_inflight (dr_guard s)) < dg_share (dr_guard s))"
proof -
  have inv: "dg_inflight (dr_guard s) = int (open_leases (dr_leases s))"
    using dist_run_ok[of C ops start] assms(1) by (simp add: dist_ok_def)
  note A = dg_acquire_step[OF assms(2)]
  have probe: "\<not> ag_probing (dg_local (dr_guard s)) \<Longrightarrow> of_int (dg_inflight (dr_guard s)) < dg_effectiveLimit C (dr_guard s) now \<Longrightarrow>
      of_int (dg_inflight (dr_guard s)) < ag_ceiling (dc_local C) (dg_local (dr_guard s))"
    using inv by (auto simp: dg_effectiveLimit_def ag_ceiling_def ag_limit_def Let_def split: if_splits)
  have fenced: "dl_ok l \<Longrightarrow> \<not> dg_isFenced C (dr_guard s) now \<and> of_int (dg_inflight (dr_guard s)) < dg_share (dr_guard s)"
    using A(3) inv by (auto simp: dg_effectiveLimit_def split: if_splits)
  show ?thesis using inv A probe fenced by auto
qed

theorem distributed_admission_witness:
  "\<exists>C s l fired g'. s = fold (dist_step C) [DBeat 0, DReply 1 0 \<lparr>gr_share = 2, gr_lGlobal = 2, gr_nodes = 1, gr_gen = None\<rparr>] (run_new C 0) \<and>
     dg_acquire C (dr_guard s) 5 5 = (l, fired, g') \<and> dg_inflight (dr_guard s) = int (open_leases (dr_leases s))"
proof -
  fix C :: dist_cfg
  define s where "s = fold (dist_step C) [DBeat 0, DReply 1 0 \<lparr>gr_share = 2, gr_lGlobal = 2, gr_nodes = 1, gr_gen = None\<rparr>] (run_new C 0)"
  obtain l fired g' where a: "dg_acquire C (dr_guard s) 5 5 = (l, fired, g')" by (metis surj_pair)
  show ?thesis using distributed_admission[OF s_def a] a s_def by blast
qed

text \<open>
  Self-fencing under fail-closed: whenever a guard admits, in any run and with any order of answers
  and outages, some heartbeat reported a lease the coordinator acknowledged and that still runs on every
  clock not more than the safety margin ahead of the guard's, so no coordinator with such a clock may have
  reclaimed that lease; in particular a guard that was never granted a lease admits nothing.
\<close>
theorem distributed_self_fence:
  assumes "dc_selfFence C" "dc_outage C = FailClosed" "s = fold (dist_step C) ops (run_new C start)"
    "dl_ok (fst (dg_acquire C (dr_guard s) now lnow))"
  shows "\<exists>e\<in>set (dr_answered s). \<forall>t\<le>now + dc_margin C. \<not> e < t"
proof -
  obtain l fired g' where a: "dg_acquire C (dr_guard s) now lnow = (l, fired, g')" by (metis surj_pair)
  have inv: "dg_inflight (dr_guard s) = int (open_leases (dr_leases s))" "lease_acknowledged s"
    using dist_run_ok[of C ops start] assms(2,3) by (auto simp: dist_ok_def)
  have adm: "of_int (dg_inflight (dr_guard s)) < dg_effectiveLimit C (dr_guard s) now"
    using dg_acquire_step(3)[OF a] assms(4) a by simp
  then have nf: "\<not> dg_isFenced C (dr_guard s) now" "0 < dg_share (dr_guard s)"
    using inv(1) by (auto simp: dg_effectiveLimit_def split: if_splits)
  then have "dg_everLeased (dr_guard s)" using inv(2) by (auto simp: lease_acknowledged_def split: if_splits)
  then obtain e where e: "e \<in> set (dr_answered s)" "dg_leaseExpiresAt (dr_guard s) = Some e"
    using inv(2) by (auto simp: lease_acknowledged_def)
  have "now < e - dc_margin C"
    using nf(1) assms(1) \<open>dg_everLeased (dr_guard s)\<close> e(2) by (simp add: dg_isFenced_def not_le)
  then show ?thesis using e(1) by (intro bexI[of _ e]) auto
qed

theorem distributed_self_fence_witness:
  "\<exists>C s. s = fold (dist_step C) [DBeat 0, DReply 1 0 \<lparr>gr_share = 2, gr_lGlobal = 2, gr_nodes = 1, gr_gen = None\<rparr>] (run_new C 0) \<and>
     (\<exists>e\<in>set (dr_answered s). \<forall>t\<le>10 + dc_margin C. \<not> e < t)"
proof -
  define L where "L = \<lparr>gc_minLimit = 1, gc_maxLimit = 10, gc_initialLimit = 4, gc_algorithm = Gradient2, gc_window = 1,
    gc_smoothing = 1, gc_tolerance = 2, gc_backoffRatio = 9 / 10, gc_recal = None\<rparr>"
  define C where "C = \<lparr>dc_local = L, dc_nodeId = ''a'', dc_key = [], dc_heartbeatMs = 1000, dc_leaseTtlMs = 2000,
    dc_outage = FailClosed, dc_eager = False, dc_minHeartbeatMs = 0, dc_selfFence = True, dc_margin = 500\<rparr>"
  define s where "s = fold (dist_step C) [DBeat 0, DReply 1 0 \<lparr>gr_share = 2, gr_lGlobal = 2, gr_nodes = 1, gr_gen = None\<rparr>] (run_new C 0)"
  have c: "dc_selfFence C" "dc_outage C = FailClosed" by (simp_all add: C_def)
  have "dl_ok (fst (dg_acquire C (dr_guard s) 10 10))"
    by (simp add: s_def C_def L_def run_new_def dg_new_def Let_def dg_beat_def dg_reply_def dg_watch_def dg_checkFence_def
        dg_isFenced_def dg_acquire_def ag_acquire_def ag_ceiling_def ag_limit_def ag_new_def dl_ok_def)
  then show ?thesis using distributed_self_fence[OF c s_def] s_def by blast
qed

end
