(* ===== verification/Fleet.thy ===== *)
theory Fleet
  imports DistGuard HeartbeatStores
begin

text \<open>
  The guards of \<open>distributed.ts\<close> and the coordinator of \<open>heartbeat-core.ts\<close> together, over a network that
  delays and loses reports and answers. The result: with acknowledged handoff and fail-closed guards the
  requests in flight in the whole fleet never exceed the largest limit reported, at every instant, if the
  coordinator takes the reports of each node in the order they were sent and no lease lapses; and it fails
  if reports of one node may overtake each other.
\<close>

section \<open>The system\<close>

record flight =
  fm_report :: hb_report
  fm_token :: beat_token
  fm_awaited :: bool

record fleet =
  fl_guard :: "string \<Rightarrow> dist_guard"
  fl_coord :: hb_state
  fl_reports :: "string \<Rightarrow> flight list"
  fl_replies :: "string \<Rightarrow> (beat_token \<times> hb_grant) list"

text \<open>
  Steps: a guard admits or releases, starts a heartbeat, the coordinator takes the \<open>k\<close>-th report of a node
  (answering if it is still awaited), an answer arrives, an answer is lost, a cycle times out while its
  report is under way, a report is lost.
\<close>

datatype fleet_op =
    FAcquire string num num
  | FRelease string num num dist_lease bool
  | FSend string num
  | FDeliver string nat num
  | FReply string nat num
  | FLoseReply string nat
  | FTimeout string nat
  | FLoseReport string nat

definition fleet_new :: "(string \<Rightarrow> dist_cfg) \<Rightarrow> num \<Rightarrow> fleet" where
  "fleet_new C start = \<lparr>fl_guard = (\<lambda>i. dg_new (C i) start), fl_coord = [], fl_reports = (\<lambda>_. []), fl_replies = (\<lambda>_. [])\<rparr>"

fun fleet_exec :: "(string \<Rightarrow> dist_cfg) \<Rightarrow> hb_options \<Rightarrow> fleet_op \<Rightarrow> fleet \<Rightarrow> fleet" where
  "fleet_exec C opts (FAcquire i now lnow) s =
     (case dg_acquire (C i) (fl_guard s i) now lnow of (l, fired, g) \<Rightarrow> s\<lparr>fl_guard := (fl_guard s)(i := g)\<rparr>)"
| "fleet_exec C opts (FRelease i now lnow l dropped) s =
     (case dg_release (C i) (fl_guard s i) now lnow l dropped of (l', g) \<Rightarrow> s\<lparr>fl_guard := (fl_guard s)(i := g)\<rparr>)"
| "fleet_exec C opts (FSend i now) s =
     (case dg_beat (C i) (fl_guard s i) now of
        (r, tok, fired, g) \<Rightarrow>
          s\<lparr>fl_guard := (fl_guard s)(i := g),
            fl_reports := (fl_reports s)(i := fl_reports s i @ [\<lparr>fm_report = r, fm_token = tok, fm_awaited = True\<rparr>])\<rparr>)"
| "fleet_exec C opts (FDeliver i k now) s =
     (if k < length (fl_reports s i) then
        (let m = fl_reports s i ! k
         in case applyHeartbeat (fl_coord s) (fm_report m) now opts of
              (grant, st) \<Rightarrow>
                s\<lparr>fl_coord := st, fl_reports := (fl_reports s)(i := drop_nth k (fl_reports s i)),
                  fl_replies := (if fm_awaited m then (fl_replies s)(i := fl_replies s i @ [(fm_token m, grant)]) else fl_replies s)\<rparr>)
      else s)"
| "fleet_exec C opts (FReply i k now) s =
     (if k < length (fl_replies s i) then
        (case fl_replies s i ! k of
           (tok, grant) \<Rightarrow>
             s\<lparr>fl_guard := (fl_guard s)(i := dg_reply (C i) (fl_guard s i) now tok grant),
               fl_replies := (fl_replies s)(i := drop_nth k (fl_replies s i))\<rparr>)
      else s)"
| "fleet_exec C opts (FLoseReply i k) s =
     (if k < length (fl_replies s i) then
        s\<lparr>fl_guard := (fl_guard s)(i := dg_outage (C i) (fl_guard s i) (fst (fl_replies s i ! k))),
          fl_replies := (fl_replies s)(i := drop_nth k (fl_replies s i))\<rparr>
      else s)"
| "fleet_exec C opts (FTimeout i k) s =
     (if k < length (fl_reports s i) \<and> fm_awaited (fl_reports s i ! k) then
        s\<lparr>fl_guard := (fl_guard s)(i := dg_outage (C i) (fl_guard s i) (fm_token (fl_reports s i ! k))),
          fl_reports := (fl_reports s)(i := (fl_reports s i)[k := (fl_reports s i ! k)\<lparr>fm_awaited := False\<rparr>])\<rparr>
      else s)"
| "fleet_exec C opts (FLoseReport i k) s =
     (if k < length (fl_reports s i) then
        s\<lparr>fl_guard := (if fm_awaited (fl_reports s i ! k)
                       then (fl_guard s)(i := dg_outage (C i) (fl_guard s i) (fm_token (fl_reports s i ! k))) else fl_guard s),
          fl_reports := (fl_reports s)(i := drop_nth k (fl_reports s i))\<rparr>
      else s)"

text \<open>
  The environment: clocks of whole milliseconds, limits reported within \<open>B\<close>, no lease of another node lapsed when a report is taken,
  and, if \<open>ordered\<close>, reports of one node taken in the order they were sent.
\<close>

fun fleet_allowed :: "num \<Rightarrow> bool \<Rightarrow> fleet_op \<Rightarrow> fleet \<Rightarrow> bool" where
  "fleet_allowed B ordered (FSend i now) s \<longleftrightarrow> ag_limit (dg_local (fl_guard s i)) \<le> B \<and> now \<in> \<int>"
| "fleet_allowed B ordered (FDeliver i k now) s \<longleftrightarrow>
     (ordered \<longrightarrow> k = 0) \<and> list_all (\<lambda>(j, rec). j = i \<or> now \<le> nr_expiresAt rec) (fl_coord s)"
| "fleet_allowed B ordered _ s \<longleftrightarrow> True"

inductive fleet_reach :: "(string \<Rightarrow> dist_cfg) \<Rightarrow> hb_options \<Rightarrow> num \<Rightarrow> bool \<Rightarrow> fleet \<Rightarrow> bool" for C opts B ordered where
  fleet_init: "fleet_reach C opts B ordered (fleet_new C start)"
| fleet_next: "fleet_reach C opts B ordered s \<Longrightarrow> fleet_allowed B ordered op s \<Longrightarrow>
     fleet_reach C opts B ordered (fleet_exec C opts op s)"

section \<open>Chains of observed occupancies\<close>

text \<open>
  The occupancies of a node as the coordinator has seen them, as its reports under way carry them, and as
  it is now: each is at most the one before it or what the node may hold, which is the current grant once
  the report names the current generation.
\<close>

definition link_cap :: "num \<Rightarrow> num \<Rightarrow> num \<Rightarrow> num \<Rightarrow> num" where
  "link_cap u v G t = (if t = G then v else u)"

fun linked :: "(num \<Rightarrow> num) \<Rightarrow> num \<times> num \<Rightarrow> (num \<times> num) list \<Rightarrow> num \<Rightarrow> bool" where
  "linked cap h [] a \<longleftrightarrow> a \<le> max (snd h) (cap (fst h))"
| "linked cap h (c # cs) a \<longleftrightarrow> snd c \<le> max (snd h) (cap (fst h)) \<and> linked cap c cs a"

lemma linked_mono:
  "linked cap h cs a \<Longrightarrow> (\<And>c. c \<in> set (h # cs) \<Longrightarrow> cap (fst c) \<le> cap' (fst c)) \<Longrightarrow> linked cap' h cs a"
proof (induction cs arbitrary: h)
  case Nil
  then show ?case by (auto simp: le_max_iff_disj)
next
  case (Cons c cs)
  have "cap (fst h) \<le> cap' (fst h)" using Cons.prems(2)[of h] by simp
  moreover have "linked cap' c cs a" using Cons.prems by (intro Cons.IH) auto
  ultimately show ?case using Cons.prems(1) by (auto simp: le_max_iff_disj)
qed

lemma linked_bound: "linked cap h cs a \<Longrightarrow> (\<And>c. c \<in> set (h # cs) \<Longrightarrow> cap (fst c) \<le> u) \<Longrightarrow> a \<le> max (snd h) u"
proof (induction cs arbitrary: h)
  case Nil
  have "cap (fst h) \<le> u" using Nil.prems(2) by simp
  then show ?case using Nil.prems(1) by (auto simp: le_max_iff_disj)
next
  case (Cons c cs)
  have "a \<le> max (snd c) u" using Cons by simp
  moreover have "cap (fst h) \<le> u" "snd c \<le> max (snd h) (cap (fst h))" using Cons.prems by simp_all
  ultimately show ?case by (auto simp: le_max_iff_disj)
qed

lemma linked_last: "linked cap h cs a \<Longrightarrow> (\<And>c. c \<in> set (h # cs) \<Longrightarrow> b \<le> cap (fst c)) \<Longrightarrow> linked cap h cs b"
  by (induction cs arbitrary: h) (auto simp: le_max_iff_disj)

lemma linked_less: "linked cap h cs a \<Longrightarrow> b \<le> a \<Longrightarrow> linked cap h cs b"
  by (induction cs arbitrary: h) (auto simp: le_max_iff_disj)

lemma linked_snoc: "linked cap h cs a \<Longrightarrow> linked cap h (cs @ [(t, a)]) a"
  by (induction cs arbitrary: h) (auto simp: le_max_iff_disj)

lemma linked_skip:
  "linked cap h (xs @ m # ys) a \<Longrightarrow> (\<And>x. x \<in> set (h # xs) \<Longrightarrow> cap (fst m) \<le> cap (fst x)) \<Longrightarrow> linked cap h (xs @ ys) a"
proof (induction xs arbitrary: h)
  case Nil
  have "snd m \<le> max (snd h) (cap (fst h))" "linked cap m ys a" "cap (fst m) \<le> cap (fst h)" using Nil by auto
  then show ?case by (cases ys) (auto simp: le_max_iff_disj)
qed auto

section \<open>The invariant of one node\<close>

definition fm_seq :: "flight \<Rightarrow> nat" where
  "fm_seq m = bt_seq (fm_token m)"

definition fm_tag :: "flight \<Rightarrow> num" where
  "fm_tag m = (case rp_appliedGen (fm_report m) of Some g \<Rightarrow> g | None \<Rightarrow> - 1)"

definition fm_link :: "flight \<Rightarrow> num \<times> num" where
  "fm_link m = (fm_tag m, rp_inflight (fm_report m))"

definition flight_ok :: "string \<Rightarrow> num \<Rightarrow> flight \<Rightarrow> bool" where
  "flight_ok i B m \<longleftrightarrow> rp_nodeId (fm_report m) = i \<and> rp_lLocal (fm_report m) \<le> B \<and>
     rp_seq (fm_report m) = Some (of_nat (fm_seq m)) \<and> whole_report (fm_report m)"

definition reply_gen :: "beat_token \<times> hb_grant \<Rightarrow> num" where
  "reply_gen x = (case gr_gen (snd x) of Some k \<Rightarrow> k | None \<Rightarrow> - 1)"

text \<open>The coordinator's record of a node, all zero when it has none.\<close>

definition no_record :: node_record where
  "no_record = \<lparr>nr_lLocal = 0, nr_inflight = 0, nr_expiresAt = 0, nr_share = 0, nr_committedGen = 0, nr_maxSeq = 0, nr_unackedHigh = 0\<rparr>"

definition record_at :: "hb_state \<Rightarrow> string \<Rightarrow> node_record" where
  "record_at st i = (case map_of st i of Some r \<Rightarrow> r | None \<Rightarrow> no_record)"

abbreviation cap_of :: "node_record \<Rightarrow> num \<Rightarrow> num" where
  "cap_of r \<equiv> link_cap (nr_unackedHigh r) (nr_share r) (nr_committedGen r)"

definition grant_ok :: "dist_guard \<Rightarrow> node_record \<Rightarrow> bool" where
  "grant_ok g r \<longleftrightarrow> 0 \<le> nr_share r \<and> nr_share r \<le> nr_unackedHigh r \<and> 0 \<le> nr_committedGen r \<and> 0 \<le> nr_maxSeq r \<and>
     dg_appliedGen g \<le> nr_committedGen r \<and> dg_share g \<le> nr_unackedHigh r \<and>
     (dg_appliedGen g = nr_committedGen r \<longrightarrow> dg_share g \<le> nr_share r) \<and> dg_share g \<in> \<int> \<and> dg_appliedGen g \<in> \<int>"

definition reply_ok :: "dist_guard \<Rightarrow> node_record \<Rightarrow> beat_token \<times> hb_grant \<Rightarrow> bool" where
  "reply_ok g r x \<longleftrightarrow> gr_gen (snd x) \<noteq> None \<and> reply_gen x \<in> \<int> \<and> gr_share (snd x) \<in> \<int> \<and> of_nat (bt_seq (fst x)) \<le> nr_maxSeq r \<and> reply_gen x \<le> nr_committedGen r \<and>
     (reply_gen x = nr_committedGen r \<longrightarrow> gr_share (snd x) \<le> nr_share r) \<and>
     (dg_appliedSeq g \<le> bt_seq (fst x) \<longrightarrow> dg_appliedGen g \<le> reply_gen x \<and> gr_share (snd x) \<le> nr_unackedHigh r)"

definition replies_ok :: "dist_guard \<Rightarrow> node_record \<Rightarrow> (beat_token \<times> hb_grant) list \<Rightarrow> bool" where
  "replies_ok g r R \<longleftrightarrow> (\<forall>x\<in>set R. reply_ok g r x) \<and>
     (\<forall>x\<in>set R. \<forall>y\<in>set R. bt_seq (fst x) \<le> bt_seq (fst y) \<longrightarrow> reply_gen x \<le> reply_gen y)"

definition reports_ok :: "string \<Rightarrow> num \<Rightarrow> dist_guard \<Rightarrow> node_record \<Rightarrow> flight list \<Rightarrow> bool" where
  "reports_ok i B g r q \<longleftrightarrow> (\<forall>m\<in>set q. flight_ok i B m \<and> nr_maxSeq r < of_nat (fm_seq m) \<and> fm_seq m \<le> dg_heartbeatSeq g \<and>
       0 \<le> fm_tag m \<and> fm_tag m \<le> dg_appliedGen g) \<and>
     sorted_wrt (\<lambda>x y. fm_seq x < fm_seq y \<and> fm_tag x \<le> fm_tag y) q \<and>
     nr_maxSeq r \<le> of_nat (dg_heartbeatSeq g)"

definition node_ok :: "string \<Rightarrow> num \<Rightarrow> dist_guard \<Rightarrow> node_record \<Rightarrow> flight list \<Rightarrow> (beat_token \<times> hb_grant) list \<Rightarrow> bool" where
  "node_ok i B g r q R \<longleftrightarrow> grant_ok g r \<and> replies_ok g r R \<and> reports_ok i B g r q \<and>
     linked (cap_of r) (- 1, nr_inflight r) (map fm_link q) (of_int (dg_inflight g))"

text \<open>What a node may hold by any report of its covers its share.\<close>

lemma cap_share:
  assumes "grant_ok g r" "reports_ok i B g r q" "c \<in> set ((- 1, nr_inflight r) # map fm_link q)"
  shows "dg_share g \<le> cap_of r (fst c)"
proof (cases "fst c = nr_committedGen r")
  case True
  have "0 \<le> nr_committedGen r" using assms(1) by (simp add: grant_ok_def)
  then obtain m where "m \<in> set q" "c = fm_link m" using True assms(3) by auto
  then have "nr_committedGen r \<le> dg_appliedGen g" using True assms(2) by (auto simp: reports_ok_def fm_link_def)
  then show ?thesis using True assms(1) by (auto simp: grant_ok_def link_cap_def)
qed (use assms(1) in \<open>simp add: grant_ok_def link_cap_def\<close>)

lemma node_ok_occupancy:
  assumes "node_ok i B g r q R"
  shows "of_int (dg_inflight g) \<le> max (nr_inflight r) (nr_unackedHigh r)"
proof -
  have "linked (cap_of r) (- 1, nr_inflight r) (map fm_link q) (of_int (dg_inflight g))" "nr_share r \<le> nr_unackedHigh r"
    using assms by (auto simp: node_ok_def grant_ok_def)
  then show ?thesis
    using linked_bound[of "cap_of r" "(- 1, nr_inflight r)" "map fm_link q" "of_int (dg_inflight g)" "nr_unackedHigh r"]
    by (auto simp: link_cap_def)
qed

lemma node_acquire:
  assumes ok: "node_ok i B g r q R" and step: "dg_acquire C g now lnow = (l, fired, g')"
  shows "node_ok i B g' r q R"
proof -
  note f = dg_acquire_step[OF step]
  have g: "grant_ok g r" "reports_ok i B g r q" "replies_ok g r R" using ok by (auto simp: node_ok_def)
  have l: "linked (cap_of r) (- 1, nr_inflight r) (map fm_link q) (of_int (dg_inflight g))" using ok by (simp add: node_ok_def)
  have "linked (cap_of r) (- 1, nr_inflight r) (map fm_link q) (of_int (dg_inflight g'))"
  proof (cases "dl_ok l")
    case True
    have lim: "of_int (dg_inflight g) < dg_effectiveLimit C g now" using f(3) True by simp
    have top: "of_int (dg_inflight g') \<le> max 0 (dg_share g)"
    proof (cases "dg_isFenced C g now")
      case True
      then show ?thesis using lim f(2) \<open>dl_ok l\<close> by (simp add: dg_effectiveLimit_def)
    next
      case False
      obtain k where k: "dg_share g = of_int k" using g(1) by (auto simp: grant_ok_def elim: Ints_cases)
      have "dg_inflight g < k" using lim False k by (simp add: dg_effectiveLimit_def)
      then show ?thesis using f(2) \<open>dl_ok l\<close> k by (simp add: le_max_iff_disj)
    qed
    have "0 \<le> cap_of r t" for t using g(1) by (auto simp: grant_ok_def link_cap_def)
    then show ?thesis using top cap_share[OF g(1,2)] by (intro linked_last[OF l]) (metis max.bounded_iff order_trans)
  next
    case False
    then show ?thesis using l f(2) by simp
  qed
  then show ?thesis
    using g f(1) by (auto simp: node_ok_def grant_ok_def reports_ok_def replies_ok_def reply_ok_def same_grant_def)
qed

lemma node_release:
  assumes ok: "node_ok i B g r q R" and step: "dg_release C g now lnow l dropped = (l', g')"
  shows "node_ok i B g' r q R"
proof -
  note f = dg_release_step[OF step]
  have "linked (cap_of r) (- 1, nr_inflight r) (map fm_link q) (of_int (dg_inflight g'))"
    using ok f(2) linked_less[of "cap_of r" "(- 1, nr_inflight r)" "map fm_link q" "of_int (dg_inflight g)"]
    by (simp add: node_ok_def)
  then show ?thesis
    using ok f(1) by (auto simp: node_ok_def grant_ok_def reports_ok_def replies_ok_def reply_ok_def same_grant_def)
qed

text \<open>A new report is at the end of the queue, with the current occupancy and generation.\<close>

lemma node_send:
  assumes ok: "node_ok i B g r q R" and step: "dg_beat C g now = (rep, tok, fired, g')" and C: "dc_nodeId C = i" "dc_leaseTtlMs C \<in> \<int>"
    and B: "ag_limit (dg_local g) \<le> B" "now \<in> \<int>" and gen: "0 \<le> dg_appliedGen g"
  shows "node_ok i B g' r (q @ [\<lparr>fm_report = rep, fm_token = tok, fm_awaited = True\<rparr>]) R"
proof -
  let ?m = "\<lparr>fm_report = rep, fm_token = tok, fm_awaited = True\<rparr>"
  note f = dg_beat_step[OF step]
  have gr: "grant_ok g r" "reports_ok i B g r q" "replies_ok g r R" using ok by (auto simp: node_ok_def)
  have m: "fm_seq ?m = dg_heartbeatSeq g + 1" "fm_tag ?m = dg_appliedGen g" "fm_link ?m = (dg_appliedGen g, of_int (dg_inflight g))"
    using f(9,11) by (simp_all add: fm_seq_def fm_tag_def fm_link_def)
  have whole: "whole_report rep"
    using f(11) C(2) B(2) gr(1) by (simp add: whole_report_def seq_of_def ag_limit_def grant_ok_def)
  have "flight_ok i B ?m" using f(9,11) C(1) B whole by (simp add: flight_ok_def fm_seq_def)
  moreover have "\<forall>x\<in>set q. fm_seq x < fm_seq ?m \<and> fm_tag x \<le> fm_tag ?m"
    using gr(2) m by (auto simp: reports_ok_def)
  moreover have "nr_maxSeq r < of_nat (fm_seq ?m)" using gr(2) m by (simp add: reports_ok_def)
  ultimately have q: "reports_ok i B g' r (q @ [?m])"
    using gr(2) f m gen by (auto simp: reports_ok_def sorted_wrt_append)
  have "linked (cap_of r) (- 1, nr_inflight r) (map fm_link (q @ [?m])) (of_int (dg_inflight g'))"
    using ok f(1) m(3) linked_snoc by (simp add: node_ok_def dg_inflight_def)
  then show ?thesis
    using gr f q by (auto simp: node_ok_def grant_ok_def replies_ok_def reply_ok_def)
qed

lemma drop_nth_set: "set (drop_nth k xs) \<subseteq> set xs"
  by (auto simp: drop_nth_def dest: in_set_takeD in_set_dropD)

lemma replies_ok_sub: "replies_ok g r R \<Longrightarrow> set R' \<subseteq> set R \<Longrightarrow> replies_ok g r R'"
  by (auto simp: replies_ok_def)

lemma reports_ok_cong:
  "reports_ok i B g r q \<Longrightarrow> dg_heartbeatSeq g' = dg_heartbeatSeq g \<Longrightarrow> dg_appliedGen g \<le> dg_appliedGen g' \<Longrightarrow> reports_ok i B g' r q"
  by (force simp: reports_ok_def)

lemma node_reply:
  assumes ok: "node_ok i B g r q R" and k: "k < length R" and x: "R ! k = (tok, gr)"
  shows "node_ok i B (dg_reply C g now tok gr) r q (drop_nth k R)"
proof -
  let ?g = "dg_reply C g now tok gr"
  note f = dg_reply_step[of C g now tok gr]
  have gr: "grant_ok g r" "reports_ok i B g r q" "replies_ok g r R" using ok by (auto simp: node_ok_def)
  have xR: "(tok, gr) \<in> set R" using k x by (metis nth_mem)
  then have xo: "reply_ok g r (tok, gr)" using gr(3) by (simp add: replies_ok_def)
  obtain n where n: "gr_gen gr = Some n" using xo by (auto simp: reply_ok_def)
  have n': "reply_gen (tok, gr) = n" by (simp add: reply_gen_def n)
  show ?thesis
  proof (cases "bt_seq tok < dg_appliedSeq g")
    case True
    then have s: "dg_share ?g = dg_share g" "dg_appliedGen ?g = dg_appliedGen g" "dg_appliedSeq ?g = dg_appliedSeq g"
      using f by auto
    have "replies_ok ?g r R" using gr(3) s by (auto simp: replies_ok_def reply_ok_def)
    then show ?thesis
      using ok s f(1,2) replies_ok_sub[OF _ drop_nth_set] reports_ok_cong[OF gr(2), of ?g]
      by (auto simp: node_ok_def grant_ok_def dg_inflight_def)
  next
    case False
    then have s: "dg_share ?g = gr_share gr" "dg_appliedGen ?g = n" "dg_appliedSeq ?g = bt_seq tok"
      using f n by auto
    have xn: "dg_appliedGen g \<le> n" "n \<le> nr_committedGen r" "gr_share gr \<le> nr_unackedHigh r"
      "n = nr_committedGen r \<longrightarrow> gr_share gr \<le> nr_share r" "n \<in> \<int>" "gr_share gr \<in> \<int>"
      using xo False n' by (auto simp: reply_ok_def)
    have "reply_ok ?g r y" if y: "y \<in> set R" for y
    proof -
      have yo: "reply_ok g r y" using gr(3) y by (simp add: replies_ok_def)
      have "n \<le> reply_gen y" if "bt_seq tok \<le> bt_seq (fst y)"
        using gr(3) xR y that n' by (auto simp: replies_ok_def)
      then show ?thesis using yo s False by (auto simp: reply_ok_def)
    qed
    then have "replies_ok ?g r R" using gr(3) by (auto simp: replies_ok_def)
    moreover have "grant_ok ?g r" using gr(1) xn s by (simp add: grant_ok_def)
    ultimately show ?thesis
      using ok f(1,2) s xn(1) replies_ok_sub[OF _ drop_nth_set] reports_ok_cong[OF gr(2), of ?g]
      by (auto simp: node_ok_def dg_inflight_def)
  qed
qed

lemma node_outage:
  assumes ok: "node_ok i B g r q R" and C: "dc_outage C = FailClosed" and R': "set R' \<subseteq> set R"
  shows "node_ok i B (dg_outage C g tok) r q R'"
proof -
  let ?g = "dg_outage C g tok"
  note f = dg_outage_step[of C g tok]
  have gr: "grant_ok g r" "reports_ok i B g r q" "replies_ok g r R" using ok by (auto simp: node_ok_def)
  have "replies_ok ?g r R" using gr(3) f by (auto simp: replies_ok_def reply_ok_def)
  moreover have "grant_ok ?g r" using gr(1) f C by (auto simp: grant_ok_def)
  ultimately show ?thesis
    using ok f(1,2,5) R' replies_ok_sub reports_ok_cong[OF gr(2), of ?g] by (auto simp: node_ok_def dg_inflight_def)
qed

text \<open>Whether a report is awaited does not matter, nor does a lost report.\<close>

lemma node_unawaited:
  assumes "node_ok i B g r q R" "k < length q"
  shows "node_ok i B g r (q[k := (q ! k)\<lparr>fm_awaited := False\<rparr>]) R"
proof -
  let ?m = "(q ! k)\<lparr>fm_awaited := False\<rparr>"
  have m: "fm_link ?m = fm_link (q ! k)" "fm_seq ?m = fm_seq (q ! k)" "fm_tag ?m = fm_tag (q ! k)"
    "flight_ok i B ?m = flight_ok i B (q ! k)"
    by (simp_all add: fm_link_def fm_seq_def fm_tag_def flight_ok_def)
  have mm: "map fm_link (q[k := ?m]) = map fm_link q"
    "map (\<lambda>x. (flight_ok i B x, fm_seq x, fm_tag x)) (q[k := ?m]) = map (\<lambda>x. (flight_ok i B x, fm_seq x, fm_tag x)) q"
    using m assms(2) by (simp_all add: map_update list_update_same_conv)
  have r: "reports_ok i B g r q \<longleftrightarrow>
      (\<forall>y\<in>set (map (\<lambda>x. (flight_ok i B x, fm_seq x, fm_tag x)) q).
         fst y \<and> nr_maxSeq r < of_nat (fst (snd y)) \<and> fst (snd y) \<le> dg_heartbeatSeq g \<and> 0 \<le> snd (snd y) \<and> snd (snd y) \<le> dg_appliedGen g) \<and>
      sorted_wrt (\<lambda>x y. fst (snd x) < fst (snd y) \<and> snd (snd x) \<le> snd (snd y)) (map (\<lambda>x. (flight_ok i B x, fm_seq x, fm_tag x)) q) \<and>
      nr_maxSeq r \<le> of_nat (dg_heartbeatSeq g)" for q
    by (simp add: reports_ok_def sorted_wrt_map)
  have "reports_ok i B g r (q[k := ?m]) = reports_ok i B g r q" unfolding r mm ..
  then show ?thesis using assms(1) unfolding node_ok_def mm by simp
qed

lemma drop_nth_split: "k < length q \<Longrightarrow> q = take k q @ q ! k # drop (Suc k) q"
  by (rule id_take_nth_drop)

lemma node_lost:
  assumes ok: "node_ok i B g r q R" and k: "k < length q"
  shows "node_ok i B g r (drop_nth k q) R"
proof -
  obtain xs m ys where q: "q = xs @ m # ys" and d: "drop_nth k q = xs @ ys"
    using drop_nth_split[OF k] by (metis drop_nth_def)
  have gr: "grant_ok g r" "reports_ok i B g r q" using ok by (auto simp: node_ok_def)
  have m: "0 \<le> fm_tag m" "fm_tag m \<le> nr_committedGen r" "\<forall>x\<in>set xs. fm_tag x \<le> fm_tag m \<and> 0 \<le> fm_tag x"
    using gr by (auto simp: q reports_ok_def grant_ok_def sorted_wrt_append)
  have "linked (cap_of r) (- 1, nr_inflight r) (map fm_link xs @ fm_link m # map fm_link ys) (of_int (dg_inflight g))"
    using ok by (simp add: node_ok_def q)
  moreover have "cap_of r (fst (fm_link m)) \<le> cap_of r (fst x)" if "x \<in> set ((- 1, nr_inflight r) # map fm_link xs)" for x
    using that m gr(1) by (fastforce simp: link_cap_def grant_ok_def fm_link_def)
  ultimately have "linked (cap_of r) (- 1, nr_inflight r) (map fm_link xs @ map fm_link ys) (of_int (dg_inflight g))"
    by (rule linked_skip)
  moreover have "reports_ok i B g r (xs @ ys)" using gr(2) by (auto simp: q reports_ok_def sorted_wrt_append)
  ultimately show ?thesis using ok by (simp add: node_ok_def d)
qed

section \<open>The coordinator takes a report\<close>

text \<open>The record a fresh report leaves, under acknowledged handoff, in terms of the record before.\<close>

lemma prior_record: "prior_of st r f = (if map_of st (rp_nodeId r) = None then 0 else f (record_at st (rp_nodeId r)))"
  by (simp add: prior_of_def record_at_def split: option.split)

lemma next_record:
  fixes now :: num
  assumes h: "ho_handoff opts" and r: "rp_nodeId rep = i" "rp_seq rep = Some (of_nat n)" "nr_maxSeq (record_at st i) < of_nat n"
    and nn: "0 \<le> nr_maxSeq (record_at st i)"
  defines "p \<equiv> record_at st i" and "share \<equiv> hb_share opts (hb_live opts st rep now) i"
  defines "gen \<equiv> (if share \<noteq> nr_share p then nr_committedGen p + 1 else nr_committedGen p)"
  shows "hb_next opts st rep now =
    \<lparr>nr_lLocal = rp_lLocal rep, nr_inflight = rp_inflight rep, nr_expiresAt = rp_expiresAt rep, nr_share = share,
     nr_committedGen = gen, nr_maxSeq = of_nat n,
     nr_unackedHigh = (if (case rp_appliedGen rep of Some g \<Rightarrow> g | None \<Rightarrow> - 1) \<ge> gen then share else max (nr_unackedHigh p) share)\<rparr>"
proof -
  have pr: "prior_of st rep nr_share = nr_share p" "prior_of st rep nr_committedGen = nr_committedGen p"
    "prior_of st rep nr_maxSeq = nr_maxSeq p" "prior_of st rep nr_unackedHigh = nr_unackedHigh p"
    by (simp_all add: prior_record r p_def) (simp_all add: record_at_def no_record_def)
  have seq: "seq_of rep = of_nat n" by (simp add: seq_of_def r)
  have fresh: "hb_fresh opts st rep" using r(3) by (simp add: hb_fresh_def seq pr p_def[symmetric])
  have mx: "max (nr_maxSeq p) (of_nat n) = of_nat n" using r(3) by (simp add: p_def)
  show ?thesis
    using h fresh by (simp add: hb_next_def hb_commit_def hb_self_def pr seq r(1) share_def[symmetric] gen_def mx Let_def)
qed

lemma node_deliver:
  assumes ok: "node_ok i B g (record_at st i) (m # q) R" and h: "ho_handoff opts"
    and app: "applyHeartbeat st (fm_report m) now opts = (grant, st')"
    and d: "distinct_keys st" and w: "hb_whole opts st"
  shows "node_ok i B g (record_at st' i) q (if a then R @ [(fm_token m, grant)] else R)"
proof -
  let ?p = "record_at st i" and ?rep = "fm_report m" and ?r = "hb_next opts st (fm_report m) now"
  define share where "share = hb_share opts (hb_live opts st ?rep now) i"
  define gen where "gen = (if share \<noteq> nr_share ?p then nr_committedGen ?p + 1 else nr_committedGen ?p)"
  have g: "grant_ok g ?p" "reports_ok i B g ?p (m # q)" "replies_ok g ?p R"
    "linked (cap_of ?p) (- 1, nr_inflight ?p) (fm_link m # map fm_link q) (of_int (dg_inflight g))"
    using ok by (auto simp: node_ok_def)
  have m: "rp_nodeId ?rep = i" "rp_seq ?rep = Some (of_nat (fm_seq m))" "nr_maxSeq ?p < of_nat (fm_seq m)"
    "0 \<le> fm_tag m" "fm_tag m \<le> dg_appliedGen g" "whole_report ?rep" "fm_seq m \<le> dg_heartbeatSeq g"
    using g(2) by (auto simp: reports_ok_def flight_ok_def)
  have nn: "0 \<le> nr_maxSeq ?p" using g(1) by (simp add: grant_ok_def)
  have r: "?r = \<lparr>nr_lLocal = rp_lLocal ?rep, nr_inflight = rp_inflight ?rep, nr_expiresAt = rp_expiresAt ?rep, nr_share = share,
     nr_committedGen = gen, nr_maxSeq = of_nat (fm_seq m),
     nr_unackedHigh = (if fm_tag m \<ge> gen then share else max (nr_unackedHigh ?p) share)\<rparr>"
    unfolding share_def gen_def fm_tag_def by (rule next_record[OF h m(1-3) nn])
  have st': "st' = AList.update i ?r (hb_live opts st ?rep now)" using app applyHeartbeat_state[of st ?rep now opts] m(1) by simp
  then have rec: "record_at st' i = ?r" by (simp add: record_at_def map_of_update)
  have grant: "gr_share grant = share" "gr_gen grant = Some gen"
  proof -
    have "grant = fst (applyHeartbeat st ?rep now opts)" by (simp add: app)
    then have "gr_share grant = nr_share ?r \<and> gr_gen grant = Some (nr_committedGen ?r)"
      using h by (simp add: applyHeartbeat_def hb_next_def Let_def)
    then show "gr_share grant = share" "gr_gen grant = Some gen" by (simp_all add: r)
  qed
  have share0: "0 \<le> share" unfolding share_def using hb_share_cap by blast
  have whole: "share \<in> \<int>" "gen \<in> \<int>" using hb_next_whole[OF w m(6) d, of now] by (auto simp: r whole_rec_def rec_fields_def)
  text \<open>Either the value changes and the generation with it, or nothing changes but perhaps the reserve.\<close>
  have cases: "(gen = nr_committedGen ?p + 1 \<and> nr_unackedHigh ?r = max (nr_unackedHigh ?p) share) \<or>
     (gen = nr_committedGen ?p \<and> share = nr_share ?p \<and> nr_unackedHigh ?r = nr_unackedHigh ?p) \<or>
     (gen = nr_committedGen ?p \<and> share = nr_share ?p \<and> nr_unackedHigh ?r = share \<and> fm_tag m = gen)"
  proof (cases "share = nr_share ?p")
    case True
    then show ?thesis using g(1) m(5) by (auto simp: r gen_def grant_ok_def)
  next
    case False
    then have "\<not> fm_tag m \<ge> gen" using g(1) m(5) by (auto simp: gen_def grant_ok_def)
    then show ?thesis using False by (simp add: r gen_def)
  qed
  have tags: "\<forall>c\<in>set (map fm_link q). fm_tag m \<le> fst c \<and> fst c \<le> dg_appliedGen g"
    using g(2) by (auto simp: reports_ok_def fm_link_def)
  have G: "dg_appliedGen g \<le> nr_committedGen ?p" "nr_share ?p \<le> nr_unackedHigh ?p" "dg_share g \<le> nr_unackedHigh ?p"
    "dg_appliedGen g = nr_committedGen ?p \<longrightarrow> dg_share g \<le> nr_share ?p" "0 \<le> nr_committedGen ?p"
    using g(1) by (auto simp: grant_ok_def)
  have gok: "grant_ok g ?r"
    using cases share0 g(1) m(5) by (auto simp: grant_ok_def r)
  text \<open>The chain.\<close>
  have "linked (cap_of ?p) (fm_link m) (map fm_link q) (of_int (dg_inflight g))" using g(4) by simp
  moreover have "cap_of ?p (fst c) \<le> cap_of ?r (fst c)" if "c \<in> set (fm_link m # map fm_link q)" for c
  proof -
    have "fst c \<le> nr_committedGen ?p" "fm_tag m \<le> fst c" using that tags m(5) G(1) by (auto simp: fm_link_def)
    then show ?thesis using cases G(2) by (auto simp: link_cap_def r)
  qed
  ultimately have "linked (cap_of ?r) (fm_link m) (map fm_link q) (of_int (dg_inflight g))" by (rule linked_mono)
  moreover have "cap_of ?r (fm_tag m) \<le> cap_of ?r (- 1)" using gok by (simp add: link_cap_def grant_ok_def)
  ultimately have chain: "linked (cap_of ?r) (- 1, nr_inflight ?r) (map fm_link q) (of_int (dg_inflight g))"
    by (cases "map fm_link q") (auto simp: r fm_link_def le_max_iff_disj)
  text \<open>The queue and the answers.\<close>
  have q: "reports_ok i B g ?r q" using g(2) m(7) by (auto simp: reports_ok_def r)
  have old: "reply_ok g ?r x" if "x \<in> set R" for x
  proof -
    have x: "reply_ok g ?p x" using g(3) that by (simp add: replies_ok_def)
    then show ?thesis using cases m(3,5) G by (auto simp: reply_ok_def r)
  qed
  have gens: "reply_gen x \<le> gen \<and> of_nat (bt_seq (fst x)) < real (fm_seq m)" if "x \<in> set R" for x
    using g(3) that cases m(3) by (fastforce simp: replies_ok_def reply_ok_def)
  let ?x = "(fm_token m, grant)"
  have new: "reply_ok g ?r ?x"
    using grant whole gok by (auto simp: reply_ok_def reply_gen_def r grant_ok_def fm_seq_def)
  have nx: "reply_gen ?x = gen" "bt_seq (fst ?x) = fm_seq m" using grant by (simp_all add: reply_gen_def fm_seq_def)
  have "replies_ok g ?r (R @ [?x])"
    using old new g(3) gens nx unfolding replies_ok_def by (fastforce simp: not_le)
  moreover have "replies_ok g ?r R" using old g(3) by (simp add: replies_ok_def)
  ultimately show ?thesis using gok q chain by (auto simp: node_ok_def rec)
qed

section \<open>The invariant of the fleet\<close>

definition fleet_inv :: "hb_options \<Rightarrow> num \<Rightarrow> fleet \<Rightarrow> bool" where
  "fleet_inv opts B s \<longleftrightarrow>
     (\<forall>i. node_ok i B (fl_guard s i) (record_at (fl_coord s) i) (fl_reports s i) (fl_replies s i) \<and>
          0 \<le> dg_appliedGen (fl_guard s i)) \<and>
     hb_ok opts B (fl_coord s) \<and> hb_whole opts (fl_coord s) \<and> map_sum (hb_hold opts) (fl_coord s) \<le> B"

text \<open>What the factory guarantees of the guards' configurations, with the safe outage mode.\<close>

definition fleet_cfgs :: "(string \<Rightarrow> dist_cfg) \<Rightarrow> bool" where
  "fleet_cfgs C \<longleftrightarrow> (\<forall>i. dc_nodeId (C i) = i \<and> dc_leaseTtlMs (C i) \<in> \<int> \<and> dc_outage (C i) = FailClosed)"

lemma fleet_node_step:
  assumes inv: "fleet_inv opts B s"
    and node: "node_ok i B g (record_at (fl_coord s) i) q R" "0 \<le> dg_appliedGen g"
  shows "fleet_inv opts B (s\<lparr>fl_guard := (fl_guard s)(i := g), fl_reports := (fl_reports s)(i := q), fl_replies := (fl_replies s)(i := R)\<rparr>)"
  using inv node by (simp add: fleet_inv_def)

lemma fleet_init_inv:
  assumes "fleet_cfgs C" "0 \<le> B" "ho_handoff opts"
  shows "fleet_inv opts B (fleet_new C start)"
proof -
  have "node_ok i B (dg_new (C i) start) no_record [] []" for i
    using assms(1) by (simp add: node_ok_def grant_ok_def replies_ok_def reports_ok_def dg_new_def no_record_def
        dg_inflight_def ag_new_def Let_def fleet_cfgs_def)
  moreover have "dg_appliedGen (dg_new (C i) start) = 0" for i by (simp add: dg_new_def Let_def)
  ultimately show ?thesis
    using assms(2) by (simp add: fleet_inv_def fleet_new_def record_at_def hb_ok_def hb_whole_def)
qed

lemma others_unchanged:
  assumes d: "distinct_keys st" and live: "list_all (\<lambda>(j, rec). j = rp_nodeId r \<or> now \<le> nr_expiresAt rec) st" and j: "j \<noteq> rp_nodeId r"
  shows "record_at (snd (applyHeartbeat st r now opts)) j = record_at st j"
proof -
  have "nr_expiresAt rec < now \<Longrightarrow> map_of st j \<noteq> Some rec" for rec
    using live j by (auto simp: list_all_iff dest!: map_of_SomeD)
  then show ?thesis
    using d j by (auto simp: record_at_def applyHeartbeat_state map_of_update hb_live_def hb_evict_def map_of_filter_distinct
        split: option.split)
qed

lemma fleet_deliver_inv:
  assumes inv: "fleet_inv opts B s" and h: "ho_handoff opts" and B: "0 \<le> B" and q: "fl_reports s i = m # q"
    and live: "list_all (\<lambda>(j, rec). j = i \<or> now \<le> nr_expiresAt rec) (fl_coord s)"
  shows "fleet_inv opts B (fleet_exec C opts (FDeliver i 0 now) s)"
proof -
  let ?st = "fl_coord s" and ?rep = "fm_report m"
  let ?st' = "snd (applyHeartbeat ?st ?rep now opts)"
  have node: "node_ok i B (fl_guard s i) (record_at ?st i) (m # q) (fl_replies s i)" using inv q unfolding fleet_inv_def by metis
  have ok: "hb_ok opts B ?st" "hb_whole opts ?st" "map_sum (hb_hold opts) ?st \<le> B" using inv by (auto simp: fleet_inv_def)
  note d = hb_okD(1)[OF ok(1)]
  have m: "rp_nodeId ?rep = i" "rp_lLocal ?rep \<le> B" "whole_report ?rep"
    using node by (auto simp: node_ok_def reports_ok_def flight_ok_def)
  have held: "rp_inflight ?rep \<le> at_key (hb_hold opts) ?st i"
  proof -
    have "rp_inflight ?rep \<le> max (nr_inflight (record_at ?st i)) (cap_of (record_at ?st i) (- 1))" "0 \<le> nr_committedGen (record_at ?st i)"
      using node by (auto simp: node_ok_def fm_link_def grant_ok_def)
    then show ?thesis using h by (auto simp: at_key_def record_at_def hb_hold_def link_cap_def no_record_def max.commute split: option.splits)
  qed
  have "0 \<le> hb_hold opts (snd e)" if "e \<in> set ?st" for e
    using hb_okD(5)[OF ok(1) that] h by (auto simp: hb_floor_def hb_hold_def)
  then have hold: "map_sum (hb_hold opts) ?st' \<le> B"
    using hb_next_hold[of ?rep opts ?st now] held m(1) d ok(3) B hb_lGlobal_le[OF hb_okD(2)[OF ok(1)] m(2)]
    by (intro cap_keeps) auto
  have whole: "hb_whole opts ?st'"
    using hb_live_whole[OF ok(2) m(3)] hb_next_whole[OF ok(2) m(3) d]
    by (auto simp: applyHeartbeat_state hb_whole_def dest!: values_update)
  define grant where "grant = fst (applyHeartbeat ?st ?rep now opts)"
  have app: "applyHeartbeat ?st ?rep now opts = (grant, ?st')" by (simp add: grant_def)
  note mine = node_deliver[OF node h app d ok(2), of "fm_awaited m"]
  have other: "record_at ?st' j = record_at ?st j" if "j \<noteq> i" for j
    using others_unchanged[OF d, of ?rep now j opts] live that m(1) by simp
  have exec: "fleet_exec C opts (FDeliver i 0 now) s =
      s\<lparr>fl_coord := ?st', fl_reports := (fl_reports s)(i := q),
        fl_replies := (if fm_awaited m then (fl_replies s)(i := fl_replies s i @ [(fm_token m, grant)]) else fl_replies s)\<rparr>"
    by (simp add: q drop_nth_def case_prod_beta grant_def)
  show ?thesis
    using inv hb_ok_beat[OF ok(1) m(2) B] whole hold mine other unfolding exec fleet_inv_def by (auto split: if_splits)
qed

lemma fleet_step_inv:
  assumes inv: "fleet_inv opts B s" and C: "fleet_cfgs C" and h: "ho_handoff opts" and B: "0 \<le> B"
    and al: "fleet_allowed B True op s"
  shows "fleet_inv opts B (fleet_exec C opts op s)"
proof -
  have node: "node_ok i B (fl_guard s i) (record_at (fl_coord s) i) (fl_reports s i) (fl_replies s i)"
    and gen: "0 \<le> dg_appliedGen (fl_guard s i)" for i using inv by (auto simp: fleet_inv_def)
  have cfg: "dc_nodeId (C i) = i" "dc_leaseTtlMs (C i) \<in> \<int>" "dc_outage (C i) = FailClosed" for i
    using C by (auto simp: fleet_cfgs_def)
  note upd = fleet_node_step[OF inv]
  show ?thesis
  proof (cases op)
    case (FAcquire i now lnow)
    obtain l f g where a: "dg_acquire (C i) (fl_guard s i) now lnow = (l, f, g)" by (metis surj_pair)
    have "dg_appliedGen g = dg_appliedGen (fl_guard s i)" using dg_acquire_step(1)[OF a] by (simp add: same_grant_def)
    then show ?thesis using upd[OF node_acquire[OF node a]] gen[of i] by (simp add: FAcquire a)
  next
    case (FRelease i now lnow l dropped)
    obtain l' g where r: "dg_release (C i) (fl_guard s i) now lnow l dropped = (l', g)" by (metis surj_pair)
    have "dg_appliedGen g = dg_appliedGen (fl_guard s i)" using dg_release_step(1)[OF r] by (simp add: same_grant_def)
    then show ?thesis using upd[OF node_release[OF node r]] gen[of i] by (simp add: FRelease r)
  next
    case (FSend i now)
    obtain rep tok f g where b: "dg_beat (C i) (fl_guard s i) now = (rep, tok, f, g)" by (metis surj_pair)
    have "ag_limit (dg_local (fl_guard s i)) \<le> B" "now \<in> \<int>" using al by (simp_all add: FSend)
    then show ?thesis
      using upd[OF node_send[OF node b cfg(1,2) _ _ gen]] gen[of i] dg_beat_step(5)[OF b] by (simp add: FSend b)
  next
    case (FDeliver i k now)
    then have k: "k = 0" and live: "list_all (\<lambda>(j, rec). j = i \<or> now \<le> nr_expiresAt rec) (fl_coord s)" using al by simp_all
    show ?thesis
    proof (cases "fl_reports s i")
      case Nil
      then show ?thesis using inv by (simp add: FDeliver k)
    next
      case (Cons m q)
      then show ?thesis using fleet_deliver_inv[OF inv h B Cons live] by (simp add: FDeliver k)
    qed
  next
    case (FReply i k now)
    show ?thesis
    proof (cases "k < length (fl_replies s i)")
      case True
      obtain tok gr where x: "fl_replies s i ! k = (tok, gr)" by (metis surj_pair)
      have "(tok, gr) \<in> set (fl_replies s i)" using True x by (metis nth_mem)
      then have "reply_ok (fl_guard s i) (record_at (fl_coord s) i) (tok, gr)"
        using node[of i] by (simp add: node_ok_def replies_ok_def)
      then have "0 \<le> dg_appliedGen (dg_reply (C i) (fl_guard s i) now tok gr)"
        using gen[of i] dg_reply_step(5)[of "C i" "fl_guard s i" now tok gr] by (auto simp: reply_ok_def reply_gen_def)
      then show ?thesis using upd[OF node_reply[OF node True x]] True x by (simp add: FReply)
    qed (use inv in \<open>simp add: FReply\<close>)
  next
    case (FLoseReply i k)
    show ?thesis
    proof (cases "k < length (fl_replies s i)")
      case True
      then show ?thesis
        using upd[OF node_outage[OF node cfg(3) drop_nth_set]] gen[of i] dg_outage_step(5)[of "C i" "fl_guard s i"]
        by (simp add: FLoseReply)
    qed (use inv in \<open>simp add: FLoseReply\<close>)
  next
    case (FTimeout i k)
    show ?thesis
    proof (cases "k < length (fl_reports s i) \<and> fm_awaited (fl_reports s i ! k)")
      case True
      then show ?thesis
        using upd[OF node_outage[OF node_unawaited[OF node] cfg(3) order_refl]] gen[of i] dg_outage_step(5)[of "C i" "fl_guard s i"]
        by (simp add: FTimeout)
    qed (use inv in \<open>auto simp: FTimeout\<close>)
  next
    case (FLoseReport i k)
    show ?thesis
    proof (cases "k < length (fl_reports s i)")
      case True
      note lost = node_lost[OF node True]
      show ?thesis
      proof (cases "fm_awaited (fl_reports s i ! k)")
        case awaited: True
        show ?thesis
          using upd[OF node_outage[OF lost cfg(3) order_refl]] gen[of i] dg_outage_step(5)[of "C i" "fl_guard s i"] True awaited
          by (simp add: FLoseReport)
      next
        case False
        then show ?thesis using upd[OF lost gen[of i]] True by (simp add: FLoseReport)
      qed
    qed (use inv in \<open>simp add: FLoseReport\<close>)
  qed
qed

lemma fleet_reach_inv:
  assumes "fleet_reach C opts B True s" "fleet_cfgs C" "ho_handoff opts" "0 \<le> B"
  shows "fleet_inv opts B s"
  using assms(1) by induction (simp_all add: fleet_init_inv fleet_step_inv assms(2-4))

section \<open>Reports that overtake each other\<close>

text \<open>
  A fleet of two nodes with a limit of two each. Node \<open>a\<close> has three heartbeats under way; the coordinator
  takes the second, learns of \<open>b\<close>, takes the third (lowering \<open>a\<close> to one) and then the first, as stale,
  answering it with the lowered grant. That answer arrives first, \<open>a\<close> confirms its generation, the reserve
  for \<open>a\<close> drops to one and \<open>b\<close> is granted one; then the answer to the second heartbeat, issued later
  than the stale one, raises \<open>a\<close> back to two.
\<close>

definition local_ex :: guard_cfg where
  "local_ex = \<lparr>gc_minLimit = 1, gc_maxLimit = 2, gc_initialLimit = 2, gc_algorithm = Gradient2, gc_window = 1,
    gc_smoothing = 1, gc_tolerance = 2, gc_backoffRatio = 9 / 10, gc_recal = None\<rparr>"

definition cfg_ex :: "string \<Rightarrow> dist_cfg" where
  "cfg_ex i = \<lparr>dc_local = local_ex, dc_nodeId = i, dc_key = [], dc_heartbeatMs = 1000, dc_leaseTtlMs = 2000,
    dc_outage = FailClosed, dc_eager = False, dc_minHeartbeatMs = 0, dc_selfFence = True, dc_margin = 500\<rparr>"

definition opts_ex :: hb_options where
  "opts_ex = \<lparr>ho_aggregate = AMedian, ho_allocation = EqualSplit, ho_handoff = True\<rparr>"

definition overtaking :: "fleet_op list" where
  "overtaking =
     [FSend ''a'' 0, FDeliver ''a'' 0 0, FReply ''a'' 0 0,
      FSend ''a'' 0, FSend ''a'' 0, FSend ''a'' 0, FDeliver ''a'' 1 0, FSend ''b'' 0, FDeliver ''b'' 0 0, FReply ''b'' 0 0,
      FDeliver ''a'' 1 0, FDeliver ''a'' 0 0, FReply ''a'' 2 0,
      FSend ''a'' 0, FDeliver ''a'' 0 0, FSend ''b'' 0, FDeliver ''b'' 0 0, FReply ''b'' 0 0, FReply ''a'' 0 0]"

text \<open>The factory only accepts whole lease times.\<close>

lemma factory_ttl: "distributedAdaptiveConcurrency o1 = Inr C \<Longrightarrow> dc_leaseTtlMs C \<in> \<int>"
proof -
  assume "distributedAdaptiveConcurrency o1 = Inr C"
  then have "js_floor (dc_leaseTtlMs C) = dc_leaseTtlMs C"
    unfolding distributedAdaptiveConcurrency_def requirePositiveInteger_def Let_def
    by (auto simp: result_simps split: option.splits)
  then show ?thesis by (metis js_floor_in_Ints)
qed

fun fleet_run :: "(string \<Rightarrow> dist_cfg) \<Rightarrow> hb_options \<Rightarrow> num \<Rightarrow> bool \<Rightarrow> fleet_op list \<Rightarrow> fleet \<Rightarrow> fleet option" where
  "fleet_run C opts B ordered [] s = Some s"
| "fleet_run C opts B ordered (op # ops) s =
     (if fleet_allowed B ordered op s then fleet_run C opts B ordered ops (fleet_exec C opts op s) else None)"

lemma fleet_run_reach:
  "fleet_reach C opts B ordered s \<Longrightarrow> fleet_run C opts B ordered ops s = Some t \<Longrightarrow> fleet_reach C opts B ordered t"
  by (induction ops arbitrary: s) (auto intro: fleet_reach.intros split: if_splits)

lemmas run_defs = fleet_new_def cfg_ex_def opts_ex_def local_ex_def dg_new_def ag_new_def Let_def
  dg_acquire_def ag_acquire_def dg_watch_def dg_checkFence_def dg_isFenced_def ag_ceiling_def ag_limit_def
  dg_beat_def dg_reply_def drop_nth_def applyHeartbeat_def hb_live_def hb_evict_def hb_self_def hb_fresh_def
  prior_of_def seq_of_def hb_commit_def hb_share_def hb_lGlobal_def otherReserved_def hb_hold_def
  aggregateOf_def targetFor_def equal_part_def array_indexOf_def dg_inflight_def

lemma overtaking_breaks_the_bound:
  "\<exists>s. fleet_run cfg_ex opts_ex 2 False (overtaking @ [FAcquire ''a'' 0 0, FAcquire ''a'' 0 0, FAcquire ''b'' 0 0])
         (fleet_new cfg_ex 0) = Some s \<and> dg_inflight (fl_guard s ''a'') + dg_inflight (fl_guard s ''b'') = 3"
  unfolding overtaking_def by (simp add: run_defs)

section \<open>Correctness\<close>

text \<open>
  C24. With acknowledged handoff and fail-closed guards, the requests in flight in the whole fleet never
  exceed the largest limit a guard reported: at every instant, with heartbeats overlapping, answers
  delayed, reordered and lost, cycles timing out and reports lost, under both allocations and both
  aggregation rules, provided the coordinator takes each node's reports in the order they were sent and no
  lease lapses. (Without that order it can fail: \<open>overtaking_breaks_the_bound\<close>.)
\<close>
theorem fleet_inflight_bound:
  assumes "fleet_reach C opts B True s" "ho_handoff opts" "0 \<le> B" "finite N"
    "fleet_cfgs C"
  shows "(\<Sum>i\<in>N. of_int (dg_inflight (fl_guard s i))) \<le> B"
proof -
  note inv = fleet_reach_inv[OF assms(1,5,2,3)]
  have ok: "hb_ok opts B (fl_coord s)" "map_sum (hb_hold opts) (fl_coord s) \<le> B" using inv by (auto simp: fleet_inv_def)
  have hold: "of_int (dg_inflight (fl_guard s i)) \<le> at_key (hb_hold opts) (fl_coord s) i" for i
  proof -
    have "node_ok i B (fl_guard s i) (record_at (fl_coord s) i) (fl_reports s i) (fl_replies s i)" using inv by (simp add: fleet_inv_def)
    from node_ok_occupancy[OF this] show ?thesis
      using assms(2) by (auto simp: at_key_def record_at_def hb_hold_def no_record_def max.commute split: option.splits)
  qed
  have nn: "0 \<le> hb_hold opts (snd e)" if "e \<in> set (fl_coord s)" for e
    using hb_okD(5)[OF ok(1) that] assms(2) by (auto simp: hb_floor_def hb_hold_def)
  have at0: "0 \<le> at_key (hb_hold opts) (fl_coord s) i" for i
    using nn by (auto simp: at_key_def split: option.splits dest!: map_of_SomeD)
  let ?K = "fst ` set (fl_coord s)"
  have out: "at_key (hb_hold opts) (fl_coord s) i = 0" if "i \<notin> ?K" for i
    using map_of_eq_None_iff[THEN iffD2, OF that] by (simp add: at_key_def)
  have "(\<Sum>i\<in>N. of_int (dg_inflight (fl_guard s i))) \<le> (\<Sum>i\<in>N. at_key (hb_hold opts) (fl_coord s) i)"
    using hold by (intro sum_mono)
  also have "\<dots> \<le> (\<Sum>i\<in>N \<union> ?K. at_key (hb_hold opts) (fl_coord s) i)"
    using at0 assms(4) by (intro sum_mono2) auto
  also have "\<dots> = (\<Sum>i\<in>?K. at_key (hb_hold opts) (fl_coord s) i)"
    using assms(4) out by (intro sum.mono_neutral_right) auto
  also have "\<dots> = map_sum (hb_hold opts) (fl_coord s)" using map_sum_keys[OF hb_okD(1)[OF ok(1)]] by simp
  finally show ?thesis using ok(2) by linarith
qed

text \<open>Two nodes with a limit of two share it one and one once both have reported.\<close>

definition sharing :: "fleet_op list" where
  "sharing =
     [FSend ''a'' 0, FDeliver ''a'' 0 0, FReply ''a'' 0 0, FAcquire ''a'' 0 0,
      FSend ''b'' 0, FDeliver ''b'' 0 0, FReply ''b'' 0 0]"

lemma sharing_runs:
  "\<exists>s. fleet_run cfg_ex opts_ex 2 True sharing (fleet_new cfg_ex 0) = Some s \<and> dg_inflight (fl_guard s ''a'') = 1"
  unfolding sharing_def by (simp add: run_defs)

theorem fleet_inflight_bound_witness:
  "\<exists>s :: fleet. dg_inflight (fl_guard s ''a'') = 1 \<and> (\<Sum>i\<in>{''a'', ''b''}. of_int (dg_inflight (fl_guard s i))) \<le> (2 :: num)"
proof -
  obtain s where s: "fleet_run cfg_ex opts_ex 2 True sharing (fleet_new cfg_ex 0) = Some s" "dg_inflight (fl_guard s ''a'') = 1"
    using sharing_runs by blast
  have "fleet_reach cfg_ex opts_ex 2 True s" by (rule fleet_run_reach[OF fleet_reach.fleet_init s(1)])
  then have "(\<Sum>i\<in>{''a'', ''b''}. of_int (dg_inflight (fl_guard s i))) \<le> (2 :: num)"
    by (rule fleet_inflight_bound) (simp_all add: opts_ex_def fleet_cfgs_def cfg_ex_def)
  then show ?thesis using s(2) by blast
qed

end
