(* ===== verification/RegionPool.thy ===== *)
theory RegionPool
  imports Core Assoc
begin

text \<open>
  The cross-region pool (\<open>regionFairPool\<close> of \<open>twotier/federated-weighted-fair-escrow.ts\<close>) and its Redis form
  (\<open>twotier/redis-region-fair-pool.ts\<close>): one budget per window, of which each region is granted a growing
  total. A region keeps what it was granted, and its weighted share of the budget is reserved for it.
\<close>

section \<open>The in-process pool\<close>

record region_entry =
  re_weight :: num
  re_granted :: num

record pool_cfg =
  pl_L :: num
  pl_windowMs :: num

text \<open>\<open>None\<close> is \<open>-Infinity\<close>. The map of regions is in insertion order.\<close>

record region_pool =
  po_windowStart :: "num option"
  po_regions :: "(string \<times> region_entry) list"

definition regionFairPool :: "js_number \<Rightarrow> js_number \<Rightarrow> pool_cfg result" where
  "regionFairPool limit windowMs =
     rbind (requirePositive ''regionFairPool.limit'' limit) (\<lambda>l.
     rbind (requirePositive ''regionFairPool.windowMs'' windowMs) (\<lambda>w.
     Inr \<lparr>pl_L = js_floor l, pl_windowMs = w\<rparr>))"

definition pool_new :: region_pool where
  "pool_new = \<lparr>po_windowStart = None, po_regions = []\<rparr>"

definition pool_rollWindow :: "pool_cfg \<Rightarrow> num \<Rightarrow> region_pool \<Rightarrow> region_pool" where
  "pool_rollWindow C now p =
     (if (case po_windowStart p of None \<Rightarrow> True | Some ws \<Rightarrow> now \<ge> ws + pl_windowMs C)
      then \<lparr>po_windowStart = Some (js_floor (now / pl_windowMs C) * pl_windowMs C), po_regions = []\<rparr>
      else p)"

text \<open>A region's guaranteed share, and what the other regions hold or are guaranteed.\<close>

definition region_share :: "num \<Rightarrow> num \<Rightarrow> num \<Rightarrow> num" where
  "region_share L totalWeight w = (if totalWeight > 0 then js_floor (w * L / totalWeight) else 0)"

definition othersHold :: "num \<Rightarrow> num \<Rightarrow> string \<Rightarrow> (string \<times> region_entry) list \<Rightarrow> num" where
  "othersHold L totalWeight region rs =
     map_sum (\<lambda>r. max (re_granted r) (region_share L totalWeight (re_weight r))) (filter (\<lambda>e. fst e \<noteq> region) rs)"

definition upsert_region :: "string \<Rightarrow> num \<Rightarrow> (string \<times> region_entry) list \<Rightarrow> (string \<times> region_entry) list" where
  "upsert_region region w rs =
     AList.update region \<lparr>re_weight = w, re_granted = at_key re_granted rs region\<rparr> rs"

text \<open>A throw leaves the pool as it is.\<close>

definition pool_grant :: "pool_cfg \<Rightarrow> region_pool \<Rightarrow> string \<Rightarrow> js_number \<Rightarrow> num \<Rightarrow> num \<Rightarrow> num result \<times> region_pool" where
  "pool_grant C p region weight wantTotal now =
     (case requirePositive ''regionFairPool.weight'' weight of
        Inl e \<Rightarrow> (Inl e, p)
      | Inr w \<Rightarrow>
          (let p1 = pool_rollWindow C now p;
               granted = at_key re_granted (po_regions p1) region;
               rs = upsert_region region w (po_regions p1)
           in if wantTotal \<le> granted then (Inr granted, p1\<lparr>po_regions := rs\<rparr>)
              else
                (let totalWeight = map_sum re_weight rs;
                     ceiling = max granted (pl_L C - othersHold (pl_L C) totalWeight region rs);
                     grant = min wantTotal ceiling
                 in (Inr grant, p1\<lparr>po_regions := AList.update region \<lparr>re_weight = w, re_granted = grant\<rparr> rs\<rparr>))))"

definition pool_release :: "pool_cfg \<Rightarrow> region_pool \<Rightarrow> string \<Rightarrow> num \<Rightarrow> region_pool" where
  "pool_release C p region now =
     (let p1 = pool_rollWindow C now p in p1\<lparr>po_regions := AList.delete region (po_regions p1)\<rparr>)"

record pool_stats =
  ps_windowStart :: "num option"
  ps_limit :: num
  ps_totalGranted :: num
  ps_regions :: "(string \<times> num \<times> num) list"

definition pool_stats_of :: "pool_cfg \<Rightarrow> region_pool \<Rightarrow> pool_stats" where
  "pool_stats_of C p =
     \<lparr>ps_windowStart = po_windowStart p, ps_limit = pl_L C, ps_totalGranted = map_sum re_granted (po_regions p),
      ps_regions = map (\<lambda>(k, r). (k, re_weight r, re_granted r)) (po_regions p)\<rparr>"

section \<open>The Redis pool\<close>

text \<open>
  The hash of a pool key, its values being numbers (Redis keeps 17 significant digits of a number passed
  to a command, so a double survives). The fields are \<open>ws\<close>, \<open>w:\<close> and \<open>g:\<close> before a region.
\<close>

type_synonym pool_hash = "(string \<times> num) list"

definition with_prefix :: "string \<Rightarrow> pool_hash \<Rightarrow> (string \<times> num) list" where
  "with_prefix pre h = map (\<lambda>(k, v). (drop 2 k, v)) (filter (\<lambda>(k, v). k \<noteq> ''ws'' \<and> take 2 k = pre) h)"

definition hset :: "(string \<times> num) list \<Rightarrow> pool_hash \<Rightarrow> pool_hash" where
  "hset fvs h = fold (\<lambda>(k, v). AList.update k v) fvs h"

text \<open>The reply, truncated to an integer by Redis, the hash after the call, and its time to live.\<close>

definition grant_lua :: "num \<Rightarrow> num \<Rightarrow> num \<Rightarrow> string \<Rightarrow> num \<Rightarrow> num \<Rightarrow> num \<times> num \<Rightarrow> pool_hash \<Rightarrow> num \<times> pool_hash \<times> num" where
  "grant_lua nowArg windowMs L region weight wantTotal server h =
     (let now = lua_now nowArg server;
          roll = (case map_of h ''ws'' of None \<Rightarrow> True | Some ws \<Rightarrow> now \<ge> ws + windowMs);
          h1 = (if roll then [] else h);
          ws = (if roll then js_floor (now / windowMs) * windowMs else (case map_of h ''ws'' of None \<Rightarrow> 0 | Some ws \<Rightarrow> ws));
          weights = AList.update region weight (if roll then [] else with_prefix ''w:'' h);
          granted = (if roll then [] else with_prefix ''g:'' h);
          myGranted = (case map_of granted region of None \<Rightarrow> 0 | Some g \<Rightarrow> g);
          pexp = (if ws + windowMs - now < 1 then 1 else ws + windowMs - now)
      in if wantTotal \<le> myGranted then
           (redis_int myGranted, hset [(''ws'', ws), (''w:'' @ region, weight), (''g:'' @ region, myGranted)] h1, pexp)
         else
           (let totalWeight = (\<Sum>(r, w)\<leftarrow>weights. w);
                others = (\<Sum>(r, w)\<leftarrow>weights. if r = region then 0 else
                   (let gj = (if totalWeight > 0 then js_floor (w * L / totalWeight) else 0);
                        heldR = (case map_of granted r of None \<Rightarrow> 0 | Some g \<Rightarrow> g)
                    in if gj > heldR then gj else heldR));
                ceiling = (if myGranted > L - others then myGranted else L - others);
                g1 = (if ceiling < wantTotal then ceiling else wantTotal);
                newGranted = (if g1 < 0 then 0 else g1)
            in (redis_int newGranted, hset [(''ws'', ws), (''w:'' @ region, weight), (''g:'' @ region, newGranted)] h1, pexp)))"

definition release_lua :: "num \<Rightarrow> num \<Rightarrow> string \<Rightarrow> num \<times> num \<Rightarrow> pool_hash \<Rightarrow> pool_hash" where
  "release_lua nowArg windowMs region server h =
     (let now = lua_now nowArg server
      in if (case map_of h ''ws'' of None \<Rightarrow> True | Some ws \<Rightarrow> now \<ge> ws + windowMs) then []
         else AList.delete (''g:'' @ region) (AList.delete (''w:'' @ region) h))"

text \<open>The class. The keyspace maps each key to its hash, empty when there is none.\<close>

record redis_pool =
  rq_cfg :: pool_cfg
  rq_key :: string
  rq_prefix :: string
  rq_serverTime :: bool

definition redisRegionFairPool ::
  "js_number \<Rightarrow> js_number \<Rightarrow> string \<Rightarrow> string option \<Rightarrow> bool option \<Rightarrow> redis_pool result" where
  "redisRegionFairPool limit windowMs key prefix serverTime =
     (case limit of
        Num l \<Rightarrow>
          if l \<le> 0 then Inl (RangeError ''limit'')
          else (case windowMs of
                  Num w \<Rightarrow>
                    if w < 1 then Inl (RangeError ''windowMs'')
                    else if length key = 0 then Inl (RangeError ''key'')
                    else Inr \<lparr>rq_cfg = \<lparr>pl_L = js_floor l, pl_windowMs = w\<rparr>, rq_key = key,
                              rq_prefix = case_option ''tk:rfp'' id prefix, rq_serverTime = case_option True id serverTime\<rparr>
                | _ \<Rightarrow> Inl (RangeError ''windowMs''))
      | _ \<Rightarrow> Inl (RangeError ''limit''))"

definition rq_redisKey :: "redis_pool \<Rightarrow> string" where
  "rq_redisKey q = rq_prefix q @ '':'' @ rq_key q"

text \<open>
  How a call to the server went: it may fail before the script runs, or after. \<open>No_connection\<close> is a failure to get a
  connection at all, with the message of the client library; a Redis call reports it as any other failure. \<open>PEXPIRE\<close> refuses a time
  that is not a whole number, and the script ends with an error after its writes.
\<close>

datatype link = Answered | ReplyLost | Unreached | No_connection string

definition rq_grant ::
  "redis_pool \<Rightarrow> (string \<Rightarrow> pool_hash) \<Rightarrow> string \<Rightarrow> js_number \<Rightarrow> js_number \<Rightarrow> num \<Rightarrow> num \<times> num \<Rightarrow> link \<Rightarrow>
   num result \<times> (string \<Rightarrow> pool_hash)" where
  "rq_grant q db region weight wantTotal now server link =
     (if length region = 0 then (Inl (RangeError ''region''), db)
      else (case weight of
              Num w \<Rightarrow>
                if w \<le> 0 then (Inl (RangeError ''weight''), db)
                else (case wantTotal of
                        Num want \<Rightarrow>
                          if want < 0 then (Inl (RangeError ''wantTotal''), db)
                          else
                            (case grant_lua (if rq_serverTime q then 0 else now) (pl_windowMs (rq_cfg q)) (pl_L (rq_cfg q))
                                    region w want server (db (rq_redisKey q)) of
                               (g, h, pexp) \<Rightarrow>
                                 (case link of
                                    Answered \<Rightarrow>
                                      (if js_floor pexp = pexp then Inr g else Inl (StoreUnavailableError ''grant''), db(rq_redisKey q := h))
                                  | ReplyLost \<Rightarrow> (Inl (StoreUnavailableError ''grant''), db(rq_redisKey q := h))
                                  | _ \<Rightarrow> (Inl (StoreUnavailableError ''grant''), db)))
                      | _ \<Rightarrow> (Inl (RangeError ''wantTotal''), db))
            | _ \<Rightarrow> (Inl (RangeError ''weight''), db)))"

definition rq_release ::
  "redis_pool \<Rightarrow> (string \<Rightarrow> pool_hash) \<Rightarrow> string \<Rightarrow> num \<Rightarrow> num \<times> num \<Rightarrow> link \<Rightarrow> unit result \<times> (string \<Rightarrow> pool_hash)" where
  "rq_release q db region now server link =
     (let db1 = db(rq_redisKey q := release_lua (if rq_serverTime q then 0 else now) (pl_windowMs (rq_cfg q)) region server (db (rq_redisKey q)))
      in case link of
           Answered \<Rightarrow> (Inr (), db1)
         | ReplyLost \<Rightarrow> (Inl (StoreUnavailableError ''release''), db1)
         | _ \<Rightarrow> (Inl (StoreUnavailableError ''release''), db))"

text \<open>\<open>stats\<close> folds the flat reply; \<open>None\<close> is \<open>-Infinity\<close>.\<close>

fun rq_fold :: "pool_hash \<Rightarrow> num option \<times> (string \<times> region_entry) list \<Rightarrow> num option \<times> (string \<times> region_entry) list" where
  "rq_fold [] acc = acc"
| "rq_fold ((k, v) # flat) (ws, byRegion) =
     rq_fold flat
       (if k = ''ws'' then (Some v, byRegion)
        else if take 2 k = ''w:'' then
          (ws, AList.update (drop 2 k) \<lparr>re_weight = v, re_granted = at_key re_granted byRegion (drop 2 k)\<rparr> byRegion)
        else if take 2 k = ''g:'' then
          (ws, AList.update (drop 2 k) \<lparr>re_weight = at_key re_weight byRegion (drop 2 k), re_granted = v\<rparr> byRegion)
        else (ws, byRegion))"

definition rq_stats :: "redis_pool \<Rightarrow> pool_hash \<Rightarrow> pool_stats" where
  "rq_stats q flat =
     (case rq_fold flat (None, []) of
        (ws, byRegion) \<Rightarrow>
          \<lparr>ps_windowStart = ws, ps_limit = pl_L (rq_cfg q), ps_totalGranted = map_sum re_granted byRegion,
           ps_regions = map (\<lambda>(k, r). (k, re_weight r, re_granted r)) byRegion\<rparr>)"


section \<open>The contract of a pool\<close>

text \<open>
  What a region may rely on. \<open>held t p i\<close> is what region \<open>i\<close> was granted in the window of time \<open>t\<close>; a pool
  that is \<open>ok\<close> at a time never grants more than \<open>L\<close> in a window, never takes a grant back within it except
  by a release, and answers with the region's new total. A call may fail after it took effect.
\<close>

locale region_authority =
  fixes grant :: "'p \<Rightarrow> string \<Rightarrow> js_number \<Rightarrow> num \<Rightarrow> num \<Rightarrow> num result \<times> 'p"
    and release :: "'p \<Rightarrow> string \<Rightarrow> num \<Rightarrow> 'p"
    and held :: "num \<Rightarrow> 'p \<Rightarrow> string \<Rightarrow> num"
    and ok :: "num \<Rightarrow> 'p \<Rightarrow> bool"
    and L :: num and window :: num
  assumes grant_ok: "ok t p \<Longrightarrow> t \<le> now \<Longrightarrow> grant p i (Num w) want now = (res, p') \<Longrightarrow> ok now p'"
    and grant_reply: "ok t p \<Longrightarrow> t \<le> now \<Longrightarrow> 0 < w \<Longrightarrow> grant p i (Num w) want now = (Inr g, p') \<Longrightarrow> g = held now p' i"
    and grant_grows: "ok t p \<Longrightarrow> t \<le> now \<Longrightarrow> 0 < w \<Longrightarrow> grant p i (Num w) want now = (res, p') \<Longrightarrow> held now p k \<le> held now p' k"
    and release_ok: "ok t p \<Longrightarrow> t \<le> now \<Longrightarrow> ok now (release p i now)"
    and release_others: "ok t p \<Longrightarrow> t \<le> now \<Longrightarrow> k \<noteq> i \<Longrightarrow> held now (release p i now) k = held now p k"
    and held_nonneg: "ok t p \<Longrightarrow> 0 \<le> held t p k"
    and held_cap: "ok t p \<Longrightarrow> finite K \<Longrightarrow> (\<Sum>k\<in>K. held t p k) \<le> L"
    and ok_later: "ok t p \<Longrightarrow> t \<le> t' \<Longrightarrow> ok t' p"
    and held_later: "ok t p \<Longrightarrow> t \<le> t' \<Longrightarrow> js_floor (t' / window) = js_floor (t / window) \<Longrightarrow> held t' p k = held t p k"

text \<open>
  A pool over a network: each call has a fate \<open>l\<close>, and whatever it is the contract holds. The store may drop what
  has expired at any time; that takes nothing from what the regions hold.
\<close>

locale region_service =
  fixes grant :: "'l \<Rightarrow> 'p \<Rightarrow> string \<Rightarrow> js_number \<Rightarrow> num \<Rightarrow> num \<Rightarrow> num result \<times> 'p"
    and release :: "'l \<Rightarrow> 'p \<Rightarrow> string \<Rightarrow> num \<Rightarrow> 'p"
    and lapse :: "'p \<Rightarrow> num \<Rightarrow> 'p"
    and held :: "num \<Rightarrow> 'p \<Rightarrow> string \<Rightarrow> num"
    and ok :: "num \<Rightarrow> 'p \<Rightarrow> bool"
    and L :: num and window :: num
  assumes authority: "region_authority (grant l) (release l) held ok L window"
    and lapse_ok: "ok t p \<Longrightarrow> ok t (lapse p t)"
    and lapse_held: "ok t p \<Longrightarrow> held t (lapse p t) i = held t p i"

sublocale region_service \<subseteq> call: region_authority "grant l" "release l" held ok L window for l
  by (rule authority)

section \<open>The in-process pool meets it\<close>

definition pool_current :: "pool_cfg \<Rightarrow> num \<Rightarrow> region_pool \<Rightarrow> bool" where
  "pool_current C t p \<longleftrightarrow> (case po_windowStart p of None \<Rightarrow> False | Some ws \<Rightarrow> t < ws + pl_windowMs C)"

definition pool_held :: "pool_cfg \<Rightarrow> num \<Rightarrow> region_pool \<Rightarrow> string \<Rightarrow> num" where
  "pool_held C t p i = (if pool_current C t p then at_key re_granted (po_regions p) i else 0)"

definition regions_ok :: "num \<Rightarrow> (string \<times> region_entry) list \<Rightarrow> bool" where
  "regions_ok L rs \<longleftrightarrow> distinct_keys rs \<and> (\<forall>e\<in>set rs. 0 \<le> re_granted (snd e) \<and> 0 < re_weight (snd e)) \<and> map_sum re_granted rs \<le> L"

definition pool_ok :: "pool_cfg \<Rightarrow> num \<Rightarrow> region_pool \<Rightarrow> bool" where
  "pool_ok C t p \<longleftrightarrow> 0 < pl_windowMs C \<and> 0 \<le> pl_L C \<and> regions_ok (pl_L C) (po_regions p) \<and>
     (case po_windowStart p of None \<Rightarrow> po_regions p = []
      | Some ws \<Rightarrow> ws \<le> t \<and> (\<exists>j :: int. ws = of_int j * pl_windowMs C))"

lemma regions_okD:
  assumes "regions_ok L rs"
  shows "distinct_keys rs" "e \<in> set rs \<Longrightarrow> 0 \<le> re_granted (snd e)" "e \<in> set rs \<Longrightarrow> 0 < re_weight (snd e)" "map_sum re_granted rs \<le> L"
    "0 \<le> at_key re_granted rs i"
  using assms by (auto simp: regions_ok_def at_key_def split: option.split dest!: map_of_SomeD)

lemma regions_ok_Nil [simp]: "regions_ok L [] \<longleftrightarrow> 0 \<le> L"
  by (simp add: regions_ok_def)

lemma regions_ok_update:
  assumes "regions_ok L rs" "0 < w" "0 \<le> g" "map_sum re_granted rs - at_key re_granted rs i + g \<le> L"
  shows "regions_ok L (AList.update i \<lparr>re_weight = w, re_granted = g\<rparr> rs)"
  using assms unfolding regions_ok_def by (auto simp: map_sum_update dest!: values_update)

lemma upsert_region_granted [simp]: "at_key re_granted (upsert_region i w rs) k = at_key re_granted rs k"
  by (auto simp: upsert_region_def)

lemma upsert_region_ok: "regions_ok L rs \<Longrightarrow> 0 < w \<Longrightarrow> regions_ok L (upsert_region i w rs)"
  unfolding upsert_region_def by (rule regions_ok_update) (auto dest: regions_okD(4,5))

lemma upsert_twice: "AList.update i v (upsert_region i w rs) = AList.update i v rs"
  by (induction rs) (auto simp: upsert_region_def)

text \<open>What the others hold covers what they were granted.\<close>

lemma othersHold_ge:
  assumes "distinct_keys rs"
  shows "map_sum re_granted rs - at_key re_granted rs i \<le> othersHold L W i rs"
  unfolding othersHold_def map_sum_others[OF assms, symmetric] by (rule map_sum_mono) simp

lemma pool_roll_current:
  assumes "0 < pl_windowMs C"
  shows "pool_current C now (pool_rollWindow C now p)"
  using window_start_gt[OF assms, of now] by (auto simp: pool_current_def pool_rollWindow_def split: option.splits)

lemma pool_roll_ok: "pool_ok C t p \<Longrightarrow> t \<le> now \<Longrightarrow> pool_ok C now (pool_rollWindow C now p)"
  by (auto simp: pool_ok_def pool_rollWindow_def js_floor_def window_start_le[unfolded js_floor_def] split: option.splits)

lemma pool_roll_held: "pool_held C now (pool_rollWindow C now p) k = pool_held C now p k"
  by (auto simp: pool_held_def pool_current_def pool_rollWindow_def split: option.splits)

text \<open>A grant in the terms of the rolled pool.\<close>

lemma pool_grant_eq:
  assumes "0 < w"
  shows "pool_grant C p i (Num w) want now =
    (let p1 = pool_rollWindow C now p; rs = po_regions p1; granted = at_key re_granted rs i;
         W = map_sum re_weight (upsert_region i w rs);
         g = (if want \<le> granted then granted
              else min want (max granted (pl_L C - othersHold (pl_L C) W i (upsert_region i w rs))))
     in (Inr g, p1\<lparr>po_regions := AList.update i \<lparr>re_weight = w, re_granted = g\<rparr> rs\<rparr>))"
  using assms by (simp add: pool_grant_def Let_def upsert_twice) (simp add: upsert_region_def)

lemma pool_grant_spec:
  assumes ok: "pool_ok C t p" and t: "t \<le> now" and w: "0 < w" and r: "pool_grant C p i (Num w) want now = (res, p')"
  shows "pool_ok C now p'" "res = Inr (pool_held C now p' i)"
    "pool_held C now p k \<le> pool_held C now p' k" "k \<noteq> i \<Longrightarrow> pool_held C now p' k = pool_held C now p k"
    "pool_held C now p' i \<le> max want (pool_held C now p i)"
proof -
  define p1 where "p1 = pool_rollWindow C now p"
  define rs where "rs = upsert_region i w (po_regions p1)"
  define W where "W = map_sum re_weight rs"
  define have' where "have' = at_key re_granted (po_regions p1) i"
  define g where "g = (if want \<le> have' then have' else min want (max have' (pl_L C - othersHold (pl_L C) W i rs)))"
  have eq: "res = Inr g" "p' = p1\<lparr>po_regions := AList.update i \<lparr>re_weight = w, re_granted = g\<rparr> (po_regions p1)\<rparr>"
    using r pool_grant_eq[OF w, of C p i want now]
    by (auto simp: Let_def p1_def rs_def W_def have'_def g_def)
  have ok1: "pool_ok C now p1" unfolding p1_def by (rule pool_roll_ok[OF ok t])
  then have rs: "regions_ok (pl_L C) (po_regions p1)" "0 < pl_windowMs C" by (simp_all add: pool_ok_def)
  have cur: "pool_current C now p1" unfolding p1_def by (rule pool_roll_current[OF rs(2)])
  then have cur': "pool_current C now p'" by (simp add: pool_current_def eq(2))
  have old: "pool_held C now p k = at_key re_granted (po_regions p1) k" for k
    using pool_roll_held[of C now p k] cur by (simp add: p1_def[symmetric]) (simp add: pool_held_def)
  have new: "pool_held C now p' k = (if k = i then g else at_key re_granted (po_regions p1) k)" for k
    using cur' by (auto simp: pool_held_def eq(2))
  have ge: "have' \<le> g" and le: "g \<le> max want have'" by (auto simp: g_def)
  have "map_sum re_granted (po_regions p1) - have' + g \<le> pl_L C"
  proof -
    have "map_sum re_granted rs - at_key re_granted rs i \<le> othersHold (pl_L C) W i rs"
      by (rule othersHold_ge) (simp add: rs_def upsert_region_def regions_okD(1)[OF rs(1)])
    moreover have "map_sum re_granted rs = map_sum re_granted (po_regions p1)" by (simp add: rs_def upsert_region_def map_sum_update)
    moreover have "at_key re_granted rs i = have'" by (simp add: rs_def have'_def)
    ultimately show ?thesis using regions_okD(4)[OF rs(1)] by (auto simp: g_def)
  qed
  then have rs': "regions_ok (pl_L C) (po_regions p')"
    using ge regions_okD(5)[OF rs(1), of i] by (simp add: eq(2)) (intro regions_ok_update[OF rs(1) w], auto simp: have'_def)
  show "pool_ok C now p'" using ok1 rs' cur by (auto simp: pool_ok_def eq(2) pool_current_def split: option.splits)
  show "res = Inr (pool_held C now p' i)" "pool_held C now p k \<le> pool_held C now p' k"
    "k \<noteq> i \<Longrightarrow> pool_held C now p' k = pool_held C now p k" "pool_held C now p' i \<le> max want (pool_held C now p i)"
    using ge le by (auto simp: eq(1) new old have'_def)
qed

lemma at_key_sum_le:
  assumes "distinct_keys m" "\<And>e. e \<in> set m \<Longrightarrow> 0 \<le> f (snd e)" "finite K"
  shows "(\<Sum>k\<in>K. at_key f m k) \<le> map_sum f m"
proof -
  have nn: "0 \<le> at_key f m k" for k using assms(2) by (auto simp: at_key_def split: option.split dest!: map_of_SomeD)
  have "(\<Sum>k\<in>K. at_key f m k) \<le> (\<Sum>k\<in>K \<union> fst ` set m. at_key f m k)"
    using nn assms(3) by (intro sum_mono2) auto
  also have "\<dots> = (\<Sum>k\<in>fst ` set m. at_key f m k)"
    using assms(3) by (intro sum.mono_neutral_right) (auto simp: at_key_None map_of_eq_None_iff)
  finally show ?thesis by (simp add: map_sum_keys[OF assms(1)])
qed

lemma pool_held_cap:
  assumes "pool_ok C t p" "finite K"
  shows "(\<Sum>k\<in>K. pool_held C t p k) \<le> pl_L C"
proof (cases "pool_current C t p")
  case True
  have rs: "regions_ok (pl_L C) (po_regions p)" using assms(1) by (simp add: pool_ok_def)
  have "(\<Sum>k\<in>K. at_key re_granted (po_regions p) k) \<le> map_sum re_granted (po_regions p)"
    using regions_okD(1,2)[OF rs] assms(2) by (intro at_key_sum_le) auto
  then show ?thesis using regions_okD(4)[OF rs] True by (simp add: pool_held_def)
qed (use assms in \<open>simp add: pool_held_def pool_ok_def\<close>)

lemma regions_ok_delete: "regions_ok L rs \<Longrightarrow> regions_ok L (AList.delete i rs)"
  using map_sum_filter_le[of rs re_granted "\<lambda>e. i \<noteq> fst e"]
  by (auto simp: regions_ok_def AList.delete_eq case_prod_unfold eq_commute intro: order_trans)

lemma pool_release_spec:
  assumes "pool_ok C t p" "t \<le> now"
  shows "pool_ok C now (pool_release C p i now)"
    "pool_held C now (pool_release C p i now) k = (if k = i then 0 else pool_held C now p k)"
proof -
  have ok1: "pool_ok C now (pool_rollWindow C now p)" by (rule pool_roll_ok[OF assms])
  then show "pool_ok C now (pool_release C p i now)"
    by (auto simp: pool_ok_def pool_release_def Let_def regions_ok_delete split: option.splits)
  show "pool_held C now (pool_release C p i now) k = (if k = i then 0 else pool_held C now p k)"
    using pool_roll_held[of C now p k]
    by (auto simp: pool_held_def pool_current_def pool_release_def Let_def at_key_def map_of_delete)
qed

lemma pool_ok_later: "pool_ok C t p \<Longrightarrow> t \<le> t' \<Longrightarrow> pool_ok C t' p"
  by (auto simp: pool_ok_def split: option.splits)

text \<open>A window that has begun is over exactly when the window index has moved on.\<close>

lemma window_over_iff:
  assumes "0 < w" "of_int j * w \<le> t"
  shows "t < of_int j * w + w \<longleftrightarrow> js_floor (t / w) = of_int j"
proof
  assume "t < of_int j * w + w"
  then have "\<lfloor>t / w\<rfloor> = j" using assms by (intro floor_unique) (simp_all add: field_simps)
  then show "js_floor (t / w) = of_int j" by (simp add: js_floor_def)
qed (use window_start_gt[OF assms(1), of t] in simp)

lemma pool_held_later:
  assumes "pool_ok C t p" "t \<le> t'" "js_floor (t' / pl_windowMs C) = js_floor (t / pl_windowMs C)"
  shows "pool_held C t' p k = pool_held C t p k"
proof (cases "po_windowStart p")
  case (Some ws)
  obtain j :: int where j: "ws = of_int j * pl_windowMs C" using assms(1) Some by (auto simp: pool_ok_def)
  have "0 < pl_windowMs C" "ws \<le> t" using assms(1) Some by (simp_all add: pool_ok_def)
  then have "pool_current C t' p = pool_current C t p"
    using window_over_iff[of "pl_windowMs C" j t] window_over_iff[of "pl_windowMs C" j t'] assms(2,3)
    by (simp add: pool_current_def Some j)
  then show ?thesis by (simp add: pool_held_def)
qed (simp add: pool_held_def pool_current_def)

interpretation inproc: region_authority "pool_grant C" "pool_release C" "pool_held C" "pool_ok C" "pl_L C" "pl_windowMs C" for C
proof
  fix t now w want g :: num and p p' :: region_pool and i k :: string and res :: "num result"
  assume ok: "pool_ok C t p" "t \<le> now"
  show "pool_grant C p i (Num w) want now = (res, p') \<Longrightarrow> pool_ok C now p'"
    using pool_grant_spec(1)[OF ok, of w] pool_ok_later[OF ok] by (cases "0 < w") (auto simp: pool_grant_def)
next
  fix t now w want g :: num and p p' :: region_pool and i k :: string and res :: "num result"
  assume "pool_ok C t p" "t \<le> now" "0 < w"
  note spec = pool_grant_spec[OF this]
  show "pool_grant C p i (Num w) want now = (Inr g, p') \<Longrightarrow> g = pool_held C now p' i" using spec(2) by blast
  show "pool_grant C p i (Num w) want now = (res, p') \<Longrightarrow> pool_held C now p k \<le> pool_held C now p' k" using spec(3) by blast
next
  fix t :: num and p :: region_pool and k :: string
  assume "pool_ok C t p"
  then show "0 \<le> pool_held C t p k" using regions_okD(5)[of "pl_L C" "po_regions p"] by (simp add: pool_held_def pool_ok_def)
next
  fix t now :: num and p :: region_pool and i k :: string
  assume "pool_ok C t p" "t \<le> now"
  note spec = pool_release_spec[OF this]
  show "pool_ok C now (pool_release C p i now)" by (rule spec(1))
  show "k \<noteq> i \<Longrightarrow> pool_held C now (pool_release C p i now) k = pool_held C now p k" by (simp add: spec(2))
qed (rule pool_held_cap pool_ok_later pool_held_later; assumption)+


section \<open>The Redis pool is the in-process pool\<close>

lemma map_of_with_prefix:
  "length pre = 2 \<Longrightarrow> pre \<noteq> ''ws'' \<Longrightarrow> map_of (with_prefix pre h) r = map_of h (pre @ r)"
proof (induction h)
  case (Cons e h)
  obtain k v where e: "e = (k, v)" by (cases e)
  have "pre @ r \<noteq> ''ws''"
  proof
    assume "pre @ r = ''ws''"
    then have "take 2 (pre @ r) = ''ws''" by simp
    then show False using Cons.prems by simp
  qed
  have IH: "map_of (with_prefix pre h) r = map_of h (pre @ r)" using Cons by simp
  show ?case
  proof (cases "k = pre @ r")
    case True
    have "k \<noteq> ''ws''" "take 2 k = pre" "drop 2 k = r" using Cons.prems \<open>pre @ r \<noteq> ''ws''\<close> unfolding True by simp_all
    then have "with_prefix pre (e # h) = (r, v) # with_prefix pre h" by (simp add: with_prefix_def e)
    then show ?thesis by (simp add: e True)
  next
    case False
    have "drop 2 k \<noteq> r" if "take 2 k = pre" using that False by (metis append_take_drop_id)
    then have "map_of (with_prefix pre (e # h)) r = map_of (with_prefix pre h) r" by (auto simp: with_prefix_def e)
    then show ?thesis using IH False by (simp add: e)
  qed
qed (simp add: with_prefix_def)

lemma distinct_with_prefix: "distinct_keys h \<Longrightarrow> distinct_keys (with_prefix pre h)"
proof (induction h)
  case (Cons e h)
  obtain k v where e: "e = (k, v)" by (cases e)
  have IH: "distinct_keys (with_prefix pre h)" using Cons by simp
  have "drop 2 k \<notin> fst ` set (with_prefix pre h)" if "take 2 k = pre"
  proof
    assume "drop 2 k \<in> fst ` set (with_prefix pre h)"
    then obtain k' v' where "(k', v') \<in> set h" "take 2 k' = pre" "drop 2 k' = drop 2 k"
      by (auto simp: with_prefix_def)
    then have "k = k'" using that by (metis append_take_drop_id)
    then show False using \<open>(k', v') \<in> set h\<close> Cons.prems by (force simp: e)
  qed
  then show ?case using IH by (auto simp: with_prefix_def e)
qed (simp add: with_prefix_def)

text \<open>Two tables with the same entries have the same sum, in whatever order they are traversed.\<close>

lemma sum_same_entries:
  fixes f :: "'k \<Rightarrow> 'v \<Rightarrow> num"
  assumes "distinct_keys m" "distinct_keys m'" "\<And>k. map_of m k = map_option F (map_of m' k)"
  shows "(\<Sum>(r, v)\<leftarrow>m. f r v) = (\<Sum>(r, x)\<leftarrow>m'. f r (F x))"
proof -
  have d: "distinct m" "distinct m'" using assms(1,2) by (simp_all add: distinct_keys_def distinct_map)
  have inj: "inj_on (\<lambda>(k, x). (k, F x)) (set m')"
    using assms(2) by (auto simp: inj_on_def set_map_of)
  have "(k, v) \<in> set m \<longleftrightarrow> (\<exists>x. (k, x) \<in> set m' \<and> v = F x)" for k v
    using assms by (auto simp: set_map_of)
  then have img: "set m = (\<lambda>(k, x). (k, F x)) ` set m'" by force
  have "(\<Sum>(r, v)\<leftarrow>m. f r v) = (\<Sum>(r, v)\<in>set m. f r v)" by (simp add: sum_list_distinct_conv_sum_set d)
  also have "\<dots> = (\<Sum>(r, x)\<in>set m'. f r (F x))" unfolding img sum.reindex[OF inj] by (simp add: comp_def case_prod_unfold)
  also have "\<dots> = (\<Sum>(r, x)\<leftarrow>m'. f r (F x))" by (simp add: sum_list_distinct_conv_sum_set d)
  finally show ?thesis .
qed

definition pool_rel :: "pool_hash \<Rightarrow> region_pool \<Rightarrow> bool" where
  "pool_rel h p \<longleftrightarrow> distinct_keys h \<and> map_of h ''ws'' = po_windowStart p \<and>
     (\<forall>r. map_of h (''w:'' @ r) = map_option re_weight (map_of (po_regions p) r) \<and>
          map_of h (''g:'' @ r) = map_option re_granted (map_of (po_regions p) r))"

text \<open>The hash may also be gone: after a release in a new window, and when its time to live has passed.\<close>

definition pool_match :: "pool_cfg \<Rightarrow> num \<Rightarrow> pool_hash \<Rightarrow> region_pool \<Rightarrow> bool" where
  "pool_match C t h p \<longleftrightarrow> pool_rel h p \<or> h = [] \<and> (po_regions p = [] \<or> \<not> pool_current C t p)"

lemma pool_current_start:
  assumes "pool_ok C t p" "t \<le> now" "pool_current C now p"
  shows "po_windowStart p = Some (js_floor (now / pl_windowMs C) * pl_windowMs C)"
proof -
  obtain ws where ws: "po_windowStart p = Some ws" "now < ws + pl_windowMs C" "ws \<le> t" "0 < pl_windowMs C"
    using assms by (auto simp: pool_ok_def pool_current_def split: option.splits)
  obtain j :: int where j: "ws = of_int j * pl_windowMs C" using assms(1) ws(1) by (auto simp: pool_ok_def)
  show ?thesis using window_over_iff[OF ws(4), of j now] ws assms(2) j by simp
qed

text \<open>Rolling the hash is rolling the pool.\<close>

lemma roll_match:
  assumes ok: "pool_ok C t p" and t: "t \<le> now" and m: "pool_match C t h p"
  defines "roll \<equiv> case map_of h ''ws'' of None \<Rightarrow> True | Some ws \<Rightarrow> now \<ge> ws + pl_windowMs C"
  shows "pool_rollWindow C now p = (if roll then \<lparr>po_windowStart = Some (js_floor (now / pl_windowMs C) * pl_windowMs C), po_regions = []\<rparr> else p)"
    "\<not> roll \<Longrightarrow> pool_rel h p"
proof -
  have "pool_rollWindow C now p = \<lparr>po_windowStart = Some (js_floor (now / pl_windowMs C) * pl_windowMs C), po_regions = []\<rparr>"
    if "h = []" "po_regions p = [] \<or> \<not> pool_current C t p"
  proof (cases "pool_current C now p")
    case True
    then have "pool_current C t p" using t by (auto simp: pool_current_def split: option.splits)
    then have "po_regions p = []" using that by simp
    moreover have "pool_rollWindow C now p = p" using True by (auto simp: pool_rollWindow_def pool_current_def split: option.splits)
    ultimately show ?thesis using pool_current_start[OF ok t True] by (cases p) simp
  qed (auto simp: pool_rollWindow_def pool_current_def split: option.splits)
  then show "pool_rollWindow C now p = (if roll then \<lparr>po_windowStart = Some (js_floor (now / pl_windowMs C) * pl_windowMs C), po_regions = []\<rparr> else p)"
    using m by (auto simp: pool_match_def pool_rel_def roll_def pool_rollWindow_def split: option.splits)
  show "\<not> roll \<Longrightarrow> pool_rel h p" using m by (auto simp: pool_match_def roll_def)
qed

text \<open>Storing the fields of a region in the hash is updating its entry in the pool.\<close>

lemma map_of_hset: "map_of (hset [(a, x), (b, y), (c, z)] h) k = (if k = c then Some z else if k = b then Some y else if k = a then Some x else map_of h k)"
  by (simp add: hset_def map_of_update)

lemma hset_rel:
  assumes "distinct_keys h" "\<And>r. map_of h (''w:'' @ r) = map_option re_weight (map_of rs r)"
    "\<And>r. map_of h (''g:'' @ r) = map_option re_granted (map_of rs r)"
  shows "pool_rel (hset [(''ws'', ws), (''w:'' @ i, w), (''g:'' @ i, g)] h)
     \<lparr>po_windowStart = Some ws, po_regions = AList.update i \<lparr>re_weight = w, re_granted = g\<rparr> rs\<rparr>"
  using assms by (simp add: pool_rel_def map_of_hset map_of_update) (simp add: hset_def)

lemma grant_lua_sim:
  assumes ok: "pool_ok C t p" and t: "t \<le> now" and m: "pool_match C t h p" and w: "0 < w" and want: "0 \<le> want"
    and srv: "lua_now na srv = now" and r: "pool_grant C p i (Num w) want now = (res, p')"
  shows "\<exists>h' pexp. grant_lua na (pl_windowMs C) (pl_L C) i w want srv h = (redis_int (pool_held C now p' i), h', pexp) \<and> pool_rel h' p'"
proof -
  define roll where "roll = (case map_of h ''ws'' of None \<Rightarrow> True | Some ws \<Rightarrow> now \<ge> ws + pl_windowMs C)"
  define p1 where "p1 = pool_rollWindow C now p"
  define ws where "ws = (if roll then js_floor (now / pl_windowMs C) * pl_windowMs C else (case map_of h ''ws'' of None \<Rightarrow> 0 | Some ws \<Rightarrow> ws))"
  define h1 where "h1 = (if roll then [] else h)"
  define rs where "rs = po_regions p1"
  note R = roll_match[OF ok t m, folded roll_def p1_def]
  have p1: "p1 = \<lparr>po_windowStart = Some ws, po_regions = rs\<rparr>"
    using R by (cases p) (auto simp: ws_def rs_def pool_rel_def roll_def split: option.splits)
  have h1: "distinct_keys h1" "\<And>r. map_of h1 (''w:'' @ r) = map_option re_weight (map_of rs r)"
    "\<And>r. map_of h1 (''g:'' @ r) = map_option re_granted (map_of rs r)"
    using R by (auto simp: h1_def rs_def pool_rel_def)
  have tabs: "(if roll then [] else with_prefix pre h) = with_prefix pre h1" for pre by (simp add: h1_def with_prefix_def)
  have rsok: "regions_ok (pl_L C) rs" using pool_roll_ok[OF ok t] by (simp add: pool_ok_def rs_def p1_def)
  define wts where "wts = AList.update i w (with_prefix ''w:'' h1)"
  define grs where "grs = with_prefix ''g:'' h1"
  define us where "us = upsert_region i w rs"
  have g_of: "map_of grs r = map_option re_granted (map_of rs r)" for r
    using map_of_with_prefix[of "''g:''" h1 r] h1(3)[of r] by (simp add: grs_def)
  then have held: "(case map_of grs r of None \<Rightarrow> 0 | Some g \<Rightarrow> g) = at_key re_granted rs r" for r
    by (auto simp: at_key_def split: option.split)
  have w_of: "map_of wts r = map_option re_weight (map_of us r)" for r
    using map_of_with_prefix[of "''w:''" h1 r] h1(2)[of r] by (simp add: wts_def us_def upsert_region_def map_of_update)
  have d: "distinct_keys wts" "distinct_keys us" "distinct_keys grs"
    using distinct_with_prefix[OF h1(1)] regions_okD(1)[OF rsok] by (simp_all add: wts_def us_def grs_def upsert_region_def)
  have W: "(\<Sum>(r, w)\<leftarrow>wts. w) = map_sum re_weight us"
    using sum_same_entries[OF d(1,2) w_of, of "\<lambda>r w. w"] by (simp add: map_sum_def case_prod_unfold)
  have others: "(\<Sum>(r, v)\<leftarrow>wts. if r = i then 0 else
      (let gj = (if W > 0 then js_floor (v * pl_L C / W) else 0); heldR = (case map_of grs r of None \<Rightarrow> 0 | Some g \<Rightarrow> g)
       in if gj > heldR then gj else heldR)) = othersHold (pl_L C) W i us" for W
  proof -
    have "(\<Sum>(r, v)\<leftarrow>wts. if r = i then 0 else
      (let gj = (if W > 0 then js_floor (v * pl_L C / W) else 0); heldR = (case map_of grs r of None \<Rightarrow> 0 | Some g \<Rightarrow> g)
       in if gj > heldR then gj else heldR)) = (\<Sum>(r, x)\<leftarrow>us. if r = i then 0 else max (at_key re_granted us r) (region_share (pl_L C) W (re_weight x)))"
      unfolding Let_def if_less_max sum_same_entries[OF d(1,2) w_of]
      by (simp only: held us_def upsert_region_granted region_share_def max.commute)
    also have "\<dots> = (\<Sum>(r, x)\<leftarrow>us. if r = i then 0 else max (re_granted x) (region_share (pl_L C) W (re_weight x)))"
      using d(2) by (intro arg_cong[of _ _ sum_list] map_cong) (auto simp: at_key_def set_map_of)
    also have "\<dots> = othersHold (pl_L C) W i us"
      unfolding othersHold_def by (induction us) auto
    finally show ?thesis .
  qed
  define g where "g = (if want \<le> at_key re_granted rs i then at_key re_granted rs i
      else min want (max (at_key re_granted rs i) (pl_L C - othersHold (pl_L C) (map_sum re_weight us) i us)))"
  have p': "p' = \<lparr>po_windowStart = Some ws, po_regions = AList.update i \<lparr>re_weight = w, re_granted = g\<rparr> rs\<rparr>" "res = Inr g"
    using r pool_grant_eq[OF w, of C p i want now] by (auto simp: Let_def g_def us_def rs_def[symmetric] p1_def[symmetric]) (simp_all add: p1)
  have pos: "0 \<le> at_key re_granted rs i" by (rule regions_okD(5)[OF rsok])
  have "redis_int (pool_held C now p' i) = redis_int g"
    using pool_grant_spec(2)[OF ok t w r] p'(2) by simp
  moreover have "\<exists>pexp. grant_lua na (pl_windowMs C) (pl_L C) i w want srv h = (redis_int g, hset [(''ws'', ws), (''w:'' @ i, w), (''g:'' @ i, g)] h1, pexp)"
    unfolding grant_lua_def srv Let_def roll_def[symmetric] tabs ws_def[symmetric] h1_def[symmetric] wts_def[symmetric] grs_def[symmetric] held W
      others[unfolded Let_def held]
    using pos want by (auto simp: g_def max_def min_def)
  ultimately show ?thesis using hset_rel[OF h1, of ws i w g] by (auto simp: p'(1))
qed

lemma release_lua_sim:
  assumes ok: "pool_ok C t p" and t: "t \<le> now" and m: "pool_match C t h p" and srv: "lua_now na srv = now"
  shows "pool_match C now (release_lua na (pl_windowMs C) i srv h) (pool_release C p i now)"
proof -
  note R = roll_match[OF ok t m]
  show ?thesis
  proof (cases "case map_of h ''ws'' of None \<Rightarrow> True | Some ws \<Rightarrow> now \<ge> ws + pl_windowMs C")
    case True
    then show ?thesis using R(1) by (simp add: release_lua_def srv pool_release_def pool_match_def Let_def)
  next
    case False
    have rel: "pool_rel h p" and roll: "pool_rollWindow C now p = p" using R False by simp_all
    have "pool_rel (AList.delete (''g:'' @ i) (AList.delete (''w:'' @ i) h)) (p\<lparr>po_regions := AList.delete i (po_regions p)\<rparr>)"
      using rel by (auto simp: pool_rel_def map_of_delete)
    then show ?thesis using False by (auto simp: release_lua_def srv pool_release_def pool_match_def Let_def roll)
  qed
qed

lemma pool_match_later: "pool_match C t h p \<Longrightarrow> t \<le> t' \<Longrightarrow> pool_match C t' h p"
  by (auto simp: pool_match_def pool_current_def split: option.splits)

definition hash_held :: "pool_cfg \<Rightarrow> num \<Rightarrow> pool_hash \<Rightarrow> string \<Rightarrow> num" where
  "hash_held C t h k =
     (case map_of h ''ws'' of None \<Rightarrow> 0
      | Some ws \<Rightarrow> if t < ws + pl_windowMs C then (case map_of h (''g:'' @ k) of None \<Rightarrow> 0 | Some g \<Rightarrow> redis_int g) else 0)"

lemma hash_held_match:
  assumes "pool_match C t h p"
  shows "hash_held C t h k = redis_int (pool_held C t p k)"
  using assms by (auto simp: pool_match_def pool_rel_def hash_held_def pool_held_def pool_current_def at_key_def split: option.splits)

definition rq_time :: "redis_pool \<Rightarrow> (num \<Rightarrow> num \<times> num) \<Rightarrow> num \<Rightarrow> num" where
  "rq_time q srv now = lua_now (if rq_serverTime q then 0 else now) (srv now)"

definition rq_ok :: "redis_pool \<Rightarrow> (num \<Rightarrow> num \<times> num) \<Rightarrow> num \<Rightarrow> (string \<Rightarrow> pool_hash) \<Rightarrow> bool" where
  "rq_ok q srv t db \<longleftrightarrow> (\<forall>u\<ge>t. rq_time q srv u = u) \<and>
     (\<exists>p. pool_ok (rq_cfg q) t p \<and> pool_match (rq_cfg q) t (db (rq_redisKey q)) p)"

lemma redis_int_nonneg: "0 \<le> x \<Longrightarrow> redis_int x = js_floor x"
  by (simp add: redis_int_def)

lemma rq_grant_spec:
  assumes ok: "rq_ok q srv t db" and t: "t \<le> now" and w: "0 < w" and r: "rq_grant q db i (Num w) (Num want) now (srv now) link = (res, db')"
  shows "rq_ok q srv now db'" "res = Inr g \<Longrightarrow> g = hash_held (rq_cfg q) now (db' (rq_redisKey q)) i"
    "hash_held (rq_cfg q) now (db (rq_redisKey q)) k \<le> hash_held (rq_cfg q) now (db' (rq_redisKey q)) k"
proof -
  let ?C = "rq_cfg q" and ?key = "rq_redisKey q"
  obtain p where p: "pool_ok ?C t p" "pool_match ?C t (db ?key) p" using ok by (auto simp: rq_ok_def)
  have srv: "\<forall>u\<ge>now. rq_time q srv u = u" using ok t by (auto simp: rq_ok_def)
  have stay: "rq_ok q srv now db" using srv pool_ok_later[OF p(1) t] pool_match_later[OF p(2) t] by (auto simp: rq_ok_def)
  have cases: "db' = db \<and> (\<forall>g. res \<noteq> Inr g) \<or>
    (\<exists>g h pexp. 0 \<le> want \<and> grant_lua (if rq_serverTime q then 0 else now) (pl_windowMs ?C) (pl_L ?C) i w want (srv now) (db ?key) = (g, h, pexp) \<and>
       db' = db(?key := h) \<and> (\<forall>x. res = Inr x \<longrightarrow> x = g))"
  proof (cases "i = [] \<or> want < 0")
    case True
    then have "\<exists>e. rq_grant q db i (Num w) (Num want) now (srv now) link = (Inl e, db)"
      using w by (cases "i = []") (simp_all add: rq_grant_def)
    then show ?thesis using r by auto
  next
    case False
    then have i: "i \<noteq> []" "\<not> want < 0" "\<not> w \<le> 0" using w by auto
    obtain g h pexp where G: "grant_lua (if rq_serverTime q then 0 else now) (pl_windowMs ?C) (pl_L ?C) i w want (srv now) (db ?key) = (g, h, pexp)"
      by (metis prod.exhaust)
    have "rq_grant q db i (Num w) (Num want) now (srv now) link =
        (case link of
           Answered \<Rightarrow> (if js_floor pexp = pexp then Inr g else Inl (StoreUnavailableError ''grant''), db(?key := h))
         | ReplyLost \<Rightarrow> (Inl (StoreUnavailableError ''grant''), db(?key := h))
         | _ \<Rightarrow> (Inl (StoreUnavailableError ''grant''), db))"
      using i by (simp add: rq_grant_def G)
    then show ?thesis using r G i(2) by (cases link) (auto split: if_splits)
  qed
  then consider "db' = db" "\<forall>g. res \<noteq> Inr g"
    | g h pexp where "0 \<le> want" "grant_lua (if rq_serverTime q then 0 else now) (pl_windowMs ?C) (pl_L ?C) i w want (srv now) (db ?key) = (g, h, pexp)"
      "db' = db(?key := h)" "\<forall>x. res = Inr x \<longrightarrow> x = g" by blast
  then have "rq_ok q srv now db' \<and> (res = Inr g \<longrightarrow> g = hash_held ?C now (db' ?key) i) \<and>
      hash_held ?C now (db ?key) k \<le> hash_held ?C now (db' ?key) k"
  proof cases
    case (2 g' h pexp)
    obtain res' p' where P: "pool_grant ?C p i (Num w) want now = (res', p')" by (metis prod.exhaust)
    note S = pool_grant_spec[OF p(1) t w P]
    have "lua_now (if rq_serverTime q then 0 else now) (srv now) = now" using srv by (auto simp: rq_time_def)
    from grant_lua_sim[OF p(1) t p(2) w 2(1) this P]
    have g: "g' = redis_int (pool_held ?C now p' i)" "pool_rel h p'" using 2(2) by auto
    then have m: "pool_match ?C now (db' ?key) p'" using 2(3) by (simp add: pool_match_def)
    have "hash_held ?C now (db ?key) k \<le> hash_held ?C now (db' ?key) k"
      using S(3)[of k] inproc.held_nonneg[OF pool_ok_later[OF p(1) t], of k] js_floor_mono[OF S(3)[of k]]
      by (simp add: hash_held_match[OF m] hash_held_match[OF pool_match_later[OF p(2) t]] redis_int_nonneg)
    moreover have "rq_ok q srv now db'" using srv S(1) m by (auto simp: rq_ok_def)
    ultimately show ?thesis using hash_held_match[OF m, of i] g(1) 2(4) by auto
  qed (use stay in auto)
  then show "rq_ok q srv now db'" "res = Inr g \<Longrightarrow> g = hash_held ?C now (db' ?key) i"
    "hash_held ?C now (db ?key) k \<le> hash_held ?C now (db' ?key) k" by auto
qed

lemma rq_release_spec:
  fixes i :: string and link :: link
  assumes ok: "rq_ok q srv t db" and t: "t \<le> now"
  defines "db' \<equiv> snd (rq_release q db i now (srv now) link)"
  shows "rq_ok q srv now db'"
    "k \<noteq> i \<Longrightarrow> hash_held (rq_cfg q) now (db' (rq_redisKey q)) k = hash_held (rq_cfg q) now (db (rq_redisKey q)) k"
proof -
  let ?C = "rq_cfg q" and ?key = "rq_redisKey q"
  obtain p where p: "pool_ok ?C t p" "pool_match ?C t (db ?key) p" using ok by (auto simp: rq_ok_def)
  have srv: "\<forall>u\<ge>now. rq_time q srv u = u" using ok t by (auto simp: rq_ok_def)
  note later = pool_ok_later[OF p(1) t] pool_match_later[OF p(2) t]
  have "lua_now (if rq_serverTime q then 0 else now) (srv now) = now" using srv by (auto simp: rq_time_def)
  note m = release_lua_sim[OF p(1) t p(2) this, of i]
  define h where "h = release_lua (if rq_serverTime q then 0 else now) (pl_windowMs ?C) i (srv now) (db ?key)"
  have db': "db' = db \<or> db' = db(?key := h)"
    by (cases link) (auto simp: db'_def rq_release_def Let_def h_def)
  have "rq_ok q srv now db" "rq_ok q srv now (db(?key := h))"
    using srv later m pool_release_spec(1)[OF p(1) t, of i] by (auto simp: rq_ok_def h_def)
  then show "rq_ok q srv now db'" using db' by auto
  show "hash_held ?C now (db' ?key) k = hash_held ?C now (db ?key) k" if "k \<noteq> i"
    using db' that hash_held_match[OF m, of k] hash_held_match[OF later(2), of k] pool_release_spec(2)[OF p(1) t, of i k]
    by (auto simp: h_def)
qed

lemma rq_ok_later: "rq_ok q srv t db \<Longrightarrow> t \<le> t' \<Longrightarrow> rq_ok q srv t' db"
  by (auto simp: rq_ok_def intro: pool_ok_later pool_match_later)

interpretation redis: region_authority
  "\<lambda>db i w want now. rq_grant q db i w (Num want) now (srv now) (net now)"
  "\<lambda>db i now. snd (rq_release q db i now (srv now) (net now))"
  "\<lambda>t db. hash_held (rq_cfg q) t (db (rq_redisKey q))" "rq_ok q srv" "pl_L (rq_cfg q)" "pl_windowMs (rq_cfg q)"
  for q srv net
proof
  fix t now w want g :: num and db db' :: "string \<Rightarrow> pool_hash" and i k :: string and res :: "num result"
  assume ok: "rq_ok q srv t db" "t \<le> now"
  show "rq_grant q db i (Num w) (Num want) now (srv now) (net now) = (res, db') \<Longrightarrow> rq_ok q srv now db'"
    using rq_grant_spec(1)[OF ok, of w] rq_ok_later[OF ok] by (cases "0 < w") (auto simp: rq_grant_def not_less split: if_splits)
next
  fix t now w want g :: num and db db' :: "string \<Rightarrow> pool_hash" and i k :: string and res :: "num result"
  assume "rq_ok q srv t db" "t \<le> now" "0 < w"
  note spec = rq_grant_spec[OF this]
  show "rq_grant q db i (Num w) (Num want) now (srv now) (net now) = (Inr g, db') \<Longrightarrow> g = hash_held (rq_cfg q) now (db' (rq_redisKey q)) i"
    using spec(2) by blast
  show "rq_grant q db i (Num w) (Num want) now (srv now) (net now) = (res, db') \<Longrightarrow>
      hash_held (rq_cfg q) now (db (rq_redisKey q)) k \<le> hash_held (rq_cfg q) now (db' (rq_redisKey q)) k" using spec(3) by blast
next
  fix t now :: num and db :: "string \<Rightarrow> pool_hash" and i k :: string
  assume "rq_ok q srv t db" "t \<le> now"
  note spec = rq_release_spec[OF this, where i = i and link = "net now"]
  show "rq_ok q srv now (snd (rq_release q db i now (srv now) (net now)))" by (rule spec(1))
  show "k \<noteq> i \<Longrightarrow> hash_held (rq_cfg q) now (snd (rq_release q db i now (srv now) (net now)) (rq_redisKey q)) k
      = hash_held (rq_cfg q) now (db (rq_redisKey q)) k" by (rule spec(2))
  show "rq_ok q srv now db" by (rule rq_ok_later[OF \<open>rq_ok q srv t db\<close> \<open>t \<le> now\<close>])
next
  fix t t' :: num and db :: "string \<Rightarrow> pool_hash" and k :: string and K :: "string set"
  assume "rq_ok q srv t db"
  then obtain p where p: "pool_ok (rq_cfg q) t p" "pool_match (rq_cfg q) t (db (rq_redisKey q)) p" by (auto simp: rq_ok_def)
  note nn = inproc.held_nonneg[OF p(1)]
  have eq: "hash_held (rq_cfg q) t (db (rq_redisKey q)) k = js_floor (pool_held (rq_cfg q) t p k)" for k
    using nn[of k] by (simp add: hash_held_match[OF p(2)] redis_int_nonneg)
  show "0 \<le> hash_held (rq_cfg q) t (db (rq_redisKey q)) k" using nn by (simp add: eq)
  have "(\<Sum>k\<in>K. hash_held (rq_cfg q) t (db (rq_redisKey q)) k) \<le> (\<Sum>k\<in>K. pool_held (rq_cfg q) t p k)"
    unfolding eq by (intro sum_mono js_floor_le)
  then show "finite K \<Longrightarrow> (\<Sum>k\<in>K. hash_held (rq_cfg q) t (db (rq_redisKey q)) k) \<le> pl_L (rq_cfg q)"
    using pool_held_cap[OF p(1), of K] by linarith
  show "hash_held (rq_cfg q) t' (db (rq_redisKey q)) k = hash_held (rq_cfg q) t (db (rq_redisKey q)) k"
    if "t \<le> t'" "js_floor (t' / pl_windowMs (rq_cfg q)) = js_floor (t / pl_windowMs (rq_cfg q))"
    using pool_held_later[OF p(1) that, of k] by (simp add: hash_held_match[OF p(2)] hash_held_match[OF pool_match_later[OF p(2) that(1)]])
qed

text \<open>Redis drops the hash some time after the end of its window.\<close>

definition rq_expire :: "redis_pool \<Rightarrow> (string \<Rightarrow> pool_hash) \<Rightarrow> num \<Rightarrow> (string \<Rightarrow> pool_hash)" where
  "rq_expire q db now =
     (case map_of (db (rq_redisKey q)) ''ws'' of
        None \<Rightarrow> db
      | Some ws \<Rightarrow> if ws + pl_windowMs (rq_cfg q) \<le> now then db(rq_redisKey q := []) else db)"

lemma rq_expire_match:
  assumes "pool_ok C t p" "pool_match C t h p" "map_of h ''ws'' = Some ws" "ws + pl_windowMs C \<le> now" "t \<le> now"
  shows "pool_match C now [] p"
proof -
  have "po_windowStart p = Some ws" using assms(2,3) by (auto simp: pool_match_def pool_rel_def)
  then have "\<not> pool_current C now p" using assms(4) by (simp add: pool_current_def)
  then show ?thesis by (simp add: pool_match_def)
qed

lemma rq_expire_keeps:
  assumes "pool_ok (rq_cfg q) t p" "pool_match (rq_cfg q) t (db (rq_redisKey q)) p" "t \<le> now"
  shows "pool_match (rq_cfg q) now (rq_expire q db now (rq_redisKey q)) p"
  using rq_expire_match[OF assms(1,2) _ _ assms(3)] pool_match_later[OF assms(2,3)]
  by (auto simp: rq_expire_def split: option.split)

lemma rq_expire_ok:
  assumes "rq_ok q srv t db"
  shows "rq_ok q srv t (rq_expire q db t)"
    "hash_held (rq_cfg q) t (rq_expire q db t (rq_redisKey q)) i = hash_held (rq_cfg q) t (db (rq_redisKey q)) i"
proof -
  obtain p where p: "pool_ok (rq_cfg q) t p" "pool_match (rq_cfg q) t (db (rq_redisKey q)) p" "\<forall>u\<ge>t. rq_time q srv u = u"
    using assms by (auto simp: rq_ok_def)
  note m = rq_expire_keeps[where db = db, OF p(1,2) order_refl]
  show "rq_ok q srv t (rq_expire q db t)" using p m by (auto simp: rq_ok_def)
  show "hash_held (rq_cfg q) t (rq_expire q db t (rq_redisKey q)) i = hash_held (rq_cfg q) t (db (rq_redisKey q)) i"
    by (simp add: hash_held_match[OF p(2)] hash_held_match[OF m])
qed

interpretation redis_net: region_service
  "\<lambda>net db i w want now. rq_grant q db i w (Num want) now (srv now) net"
  "\<lambda>net db i now. snd (rq_release q db i now (srv now) net)"
  "rq_expire q"
  "\<lambda>t db. hash_held (rq_cfg q) t (db (rq_redisKey q))" "rq_ok q srv" "pl_L (rq_cfg q)" "pl_windowMs (rq_cfg q)"
  for q srv
  by unfold_locales (rule rq_expire_ok; assumption)+

section \<open>Correctness\<close>

text \<open>Calls to a pool, in the order of their times; \<open>PExpire\<close> is Redis dropping a key whose time to live has passed.\<close>

datatype pool_op = PGrant string num num num | PRelease string num | PExpire num

fun op_time :: "pool_op \<Rightarrow> num" where
  "op_time (PGrant i w want now) = now"
| "op_time (PRelease i now) = now"
| "op_time (PExpire now) = now"

fun pool_trace :: "pool_cfg \<Rightarrow> pool_op list \<Rightarrow> region_pool \<Rightarrow> num result list" where
  "pool_trace C [] p = []"
| "pool_trace C (PGrant i w want now # ops) p = (case pool_grant C p i (Num w) want now of (r, p') \<Rightarrow> r # pool_trace C ops p')"
| "pool_trace C (PRelease i now # ops) p = pool_trace C ops (pool_release C p i now)"
| "pool_trace C (PExpire now # ops) p = pool_trace C ops p"

fun rq_trace :: "redis_pool \<Rightarrow> (num \<Rightarrow> num \<times> num) \<Rightarrow> pool_op list \<Rightarrow> (string \<Rightarrow> pool_hash) \<Rightarrow> num result list" where
  "rq_trace q srv [] db = []"
| "rq_trace q srv (PGrant i w want now # ops) db =
     (case rq_grant q db i (Num w) (Num want) now (srv now) Answered of (r, db') \<Rightarrow> r # rq_trace q srv ops db')"
| "rq_trace q srv (PRelease i now # ops) db = rq_trace q srv ops (snd (rq_release q db i now (srv now) Answered))"
| "rq_trace q srv (PExpire now # ops) db =
     rq_trace q srv ops (rq_expire q db now)"

fun whole_op :: "pool_op \<Rightarrow> bool" where
  "whole_op (PGrant i w want now) \<longleftrightarrow> i \<noteq> [] \<and> 0 < w \<and> 0 \<le> want \<and> want \<in> \<int> \<and> now \<in> \<int>"
| "whole_op (PRelease i now) \<longleftrightarrow> now \<in> \<int>"
| "whole_op (PExpire now) \<longleftrightarrow> now \<in> \<int>"

definition whole_pool :: "region_pool \<Rightarrow> bool" where
  "whole_pool p \<longleftrightarrow> (\<forall>e\<in>set (po_regions p). re_granted (snd e) \<in> \<int>)"

lemma map_sum_scale: "map_sum (\<lambda>r. f r * c) m = map_sum f m * c"
  by (induction m) (simp_all add: algebra_simps)

lemma whole_at_key: "whole_pool p \<Longrightarrow> at_key re_granted (po_regions p) i \<in> \<int>"
  by (auto simp: whole_pool_def at_key_def split: option.split dest!: map_of_SomeD)

lemma Ints_map_sum: "(\<And>e. e \<in> set m \<Longrightarrow> f (snd e) \<in> \<int>) \<Longrightarrow> map_sum f m \<in> \<int>"
  by (induction m) auto

lemma whole_roll: "whole_pool p \<Longrightarrow> whole_pool (pool_rollWindow C now p)"
  by (auto simp: whole_pool_def pool_rollWindow_def)

lemma whole_release: "whole_pool p \<Longrightarrow> whole_pool (pool_release C p i now)"
  using whole_roll[of p C now] by (auto simp: whole_pool_def pool_release_def Let_def AList.delete_eq)

lemma whole_grant:
  assumes "whole_pool p" "0 < w" "want \<in> \<int>" "pl_L C \<in> \<int>" "pool_grant C p i (Num w) want now = (res, p')"
  shows "whole_pool p'"
proof -
  define rs where "rs = po_regions (pool_rollWindow C now p)"
  have rs: "\<forall>e\<in>set rs. re_granted (snd e) \<in> \<int>" using whole_roll[OF assms(1), of C now] by (simp add: whole_pool_def rs_def)
  then have "at_key re_granted rs i \<in> \<int>" by (auto simp: at_key_def split: option.split dest!: map_of_SomeD)
  moreover have "\<forall>e\<in>set (upsert_region i w rs). re_granted (snd e) \<in> \<int>"
    using rs calculation by (auto simp: upsert_region_def dest!: values_update)
  then have "othersHold L W i (upsert_region i w rs) \<in> \<int>" for L W
    unfolding othersHold_def region_share_def by (intro Ints_map_sum) auto
  moreover have "re_granted b \<in> \<int>" if "(a, b) \<in> set rs" for a b using rs that by force
  ultimately show ?thesis
    using assms(5) assms(3,4) unfolding pool_grant_eq[OF assms(2)]
    by (auto simp: Let_def whole_pool_def rs_def[symmetric] dest!: values_update)
qed

text \<open>The time to live of whole-number windows and times is a whole number.\<close>

lemma grant_lua_ttl:
  "snd (snd (grant_lua na windowMs L i w want srv h)) =
     max 1 ((case map_of h ''ws'' of None \<Rightarrow> js_floor (lua_now na srv / windowMs) * windowMs
             | Some ws \<Rightarrow> if lua_now na srv \<ge> ws + windowMs then js_floor (lua_now na srv / windowMs) * windowMs else ws)
            + windowMs - lua_now na srv)"
  by (simp add: grant_lua_def Let_def max_def split: option.split)

lemma whole_ttl:
  assumes "windowMs \<in> \<int>" "lua_now na srv \<in> \<int>" "\<And>ws. map_of h ''ws'' = Some ws \<Longrightarrow> ws \<in> \<int>"
  shows "js_floor (snd (snd (grant_lua na windowMs L i w want srv h))) = snd (snd (grant_lua na windowMs L i w want srv h))"
  unfolding grant_lua_ttl using assms by (intro js_floor_Ints Ints_max Ints_diff Ints_add) (auto split: option.split intro!: Ints_mult)

lemma pool_match_start:
  assumes "pool_ok C t p" "pool_match C t h p" "pl_windowMs C \<in> \<int>" "map_of h ''ws'' = Some ws"
  shows "ws \<in> \<int>"
proof -
  have "po_windowStart p = Some ws" using assms(2,4) by (auto simp: pool_match_def pool_rel_def)
  then show ?thesis using assms(1,3) by (auto simp: pool_ok_def intro!: Ints_mult)
qed

lemma rq_trace_sim:
  assumes srv: "\<forall>u\<ge>t. rq_time q srv u = u" and C: "C = rq_cfg q" "pl_windowMs C \<in> \<int>" "pl_L C \<in> \<int>"
  shows "pool_ok C t p \<Longrightarrow> pool_match C t (db (rq_redisKey q)) p \<Longrightarrow> whole_pool p \<Longrightarrow> list_all whole_op ops \<Longrightarrow>
    sorted (t # map op_time ops) \<Longrightarrow> rq_trace q srv ops db = pool_trace C ops p"
  using srv
proof (induction ops arbitrary: t p db)
  case (Cons op ops)
  have t: "t \<le> op_time op" "sorted (op_time op # map op_time ops)" "list_all whole_op ops" "whole_op op" using Cons.prems by auto
  have srv': "\<forall>u\<ge>op_time op. rq_time q srv u = u" using Cons.prems t(1) by auto
  have now: "lua_now (if rq_serverTime q then 0 else op_time op) (srv (op_time op)) = op_time op" using srv' by (auto simp: rq_time_def)
  note later = pool_ok_later[OF Cons.prems(1) t(1)] pool_match_later[OF Cons.prems(2) t(1)]
  show ?case
  proof (cases op)
    case (PGrant i w want n)
    have v: "i \<noteq> []" "0 < w" "0 \<le> want" "want \<in> \<int>" "n \<in> \<int>" "t \<le> n" using t PGrant by auto
    obtain res p' where P: "pool_grant C p i (Num w) want n = (res, p')" by (metis prod.exhaust)
    note S = pool_grant_spec[OF Cons.prems(1) v(6,2) P]
    note W = whole_grant[OF Cons.prems(3) v(2,4) C(3) P]
    obtain h' pexp where G: "grant_lua (if rq_serverTime q then 0 else n) (pl_windowMs C) (pl_L C) i w want (srv n) (db (rq_redisKey q)) =
        (redis_int (pool_held C n p' i), h', pexp)" "pool_rel h' p'"
      using grant_lua_sim[OF Cons.prems(1) v(6) Cons.prems(2) v(2,3) now[unfolded PGrant op_time.simps] P] by blast
    have "js_floor pexp = pexp"
      using whole_ttl[OF C(2), of "if rq_serverTime q then 0 else n" "srv n" "db (rq_redisKey q)" "pl_L C" i w want]
        pool_match_start[OF Cons.prems(1,2) C(2)] now[unfolded PGrant op_time.simps] v(5) by (simp add: G(1))
    moreover have "redis_int (pool_held C n p' i) = pool_held C n p' i"
      using whole_at_key[OF W] by (simp add: pool_held_def)
    ultimately have "rq_grant q db i (Num w) (Num want) n (srv n) Answered = (res, db(rq_redisKey q := h'))"
      using v G(1) S(2) C(1) by (simp add: rq_grant_def)
    moreover have "rq_trace q srv ops (db(rq_redisKey q := h')) = pool_trace C ops p'"
      using G(2) srv' S(1) W t PGrant by (intro Cons.IH[of n]) (auto simp: pool_match_def)
    ultimately show ?thesis using P by (simp add: PGrant)
  next
    case (PRelease i n)
    let ?db = "snd (rq_release q db i n (srv n) Answered)"
    have "pool_match C n (?db (rq_redisKey q)) (pool_release C p i n)"
      using release_lua_sim[OF Cons.prems(1) t(1)[unfolded PRelease op_time.simps] Cons.prems(2) now[unfolded PRelease op_time.simps], of i]
      unfolding C(1) by (simp add: rq_release_def Let_def)
    then have "rq_trace q srv ops ?db = pool_trace C ops (pool_release C p i n)"
      using srv' pool_release_spec(1)[OF Cons.prems(1) t(1)] whole_release[OF Cons.prems(3)] t PRelease
      by (intro Cons.IH[of n]) auto
    then show ?thesis by (simp add: PRelease)
  next
    case (PExpire n)
    let ?db = "rq_expire q db n"
    have "pool_match C n (?db (rq_redisKey q)) p"
      using rq_expire_keeps[of q t p db n] Cons.prems(1,2) t(1) PExpire C(1) by simp
    then have "rq_trace q srv ops ?db = pool_trace C ops p"
      using srv' later Cons.prems(3) t PExpire by (intro Cons.IH[of n]) auto
    then show ?thesis by (simp add: PExpire)
  qed
qed simp

text \<open>
  The Redis pool is the in-process pool: for whole-number windows, times and requests, any sequence of
  grants and releases in the order of their times, and any moments at which Redis drops an expired hash,
  are answered alike, starting from an empty keyspace. The hash is read in whatever order Redis returns its
  fields, and times may come from the caller or from the server.
\<close>
theorem redis_pool_equiv:
  assumes "regionFairPool limit windowMs = Inr C" "redisRegionFairPool limit windowMs key prefix serverTime = Inr q"
    and "pl_windowMs C \<in> \<int>" "\<forall>u\<ge>t. rq_time q srv u = u" "list_all whole_op ops" "sorted (t # map op_time ops)"
  shows "rq_trace q srv ops (\<lambda>_. []) = pool_trace C ops pool_new"
proof (rule rq_trace_sim[OF assms(4) _ assms(3)])
  show C: "C = rq_cfg q" using assms(1,2)
    by (cases limit; cases windowMs) (auto simp: regionFairPool_def redisRegionFairPool_def result_simps split: if_splits)
  show "pl_L C \<in> \<int>" using assms(1) by (auto simp: regionFairPool_def result_simps)
  show "pool_ok C t pool_new" using assms(1) by (auto simp: regionFairPool_def result_simps pool_ok_def pool_new_def)
qed (use assms in \<open>simp_all add: pool_match_def pool_rel_def pool_new_def whole_pool_def\<close>)

theorem redis_pool_equiv_witness:
  "\<exists>q C. rq_trace q (\<lambda>u. (u / 1000, 0))
      [PGrant ''us'' 1 8 1500, PGrant ''eu'' 3 8 1600, PExpire 1700, PGrant ''us'' 1 9 2000] (\<lambda>_. []) =
    pool_trace C [PGrant ''us'' 1 8 1500, PGrant ''eu'' 3 8 1600, PExpire 1700, PGrant ''us'' 1 9 2000] pool_new \<and>
    pool_trace C [PGrant ''us'' 1 8 1500, PGrant ''eu'' 3 8 1600, PExpire 1700, PGrant ''us'' 1 9 2000] pool_new = [Inr 8, Inr 2, Inr 9]"
proof -
  define C where "C = \<lparr>pl_L = 10, pl_windowMs = 1000\<rparr>"
  define q where "q = \<lparr>rq_cfg = C, rq_key = ''k'', rq_prefix = ''tk:rfp'', rq_serverTime = True\<rparr>"
  have C: "regionFairPool (Num 10) (Num 1000) = Inr C" by (simp add: regionFairPool_def C_def)
  have q: "redisRegionFairPool (Num 10) (Num 1000) ''k'' None None = Inr q" by (simp add: redisRegionFairPool_def q_def C_def)
  have srv: "\<forall>u\<ge>1000. rq_time q (\<lambda>u. (u / 1000, 0)) u = u" by (simp add: rq_time_def q_def lua_now_def)
  have w: "pl_windowMs C \<in> \<int>" by (simp add: C_def)
  let ?ops = "[PGrant ''us'' 1 8 1500, PGrant ''eu'' 3 8 1600, PExpire 1700, PGrant ''us'' 1 9 2000]"
  have val: "pool_trace C ?ops pool_new = [Inr 8, Inr 2, Inr 9]"
  proof -
    note defs = C_def js_floor_def pool_grant_def pool_rollWindow_def pool_new_def Let_def upsert_region_def othersHold_def region_share_def
    define p1 where "p1 = \<lparr>po_windowStart = Some 1000, po_regions = [(''us'', \<lparr>re_weight = 1, re_granted = 8\<rparr>)]\<rparr>"
    define p2 where "p2 = p1\<lparr>po_regions := po_regions p1 @ [(''eu'', \<lparr>re_weight = 3, re_granted = 2\<rparr>)]\<rparr>"
    define p3 where "p3 = \<lparr>po_windowStart = Some 2000, po_regions = [(''us'', \<lparr>re_weight = 1, re_granted = 9\<rparr>)]\<rparr>"
    have "pool_grant C pool_new ''us'' (Num 1) 8 1500 = (Inr 8, p1)" by (simp add: defs p1_def)
    moreover have "pool_grant C p1 ''eu'' (Num 3) 8 1600 = (Inr 2, p2)" by (simp add: defs p1_def p2_def)
    moreover have "pool_grant C p2 ''us'' (Num 1) 9 2000 = (Inr 9, p3)" by (simp add: defs p1_def p2_def p3_def)
    ultimately show ?thesis by simp
  qed
  have eq: "rq_trace q (\<lambda>u. (u / 1000, 0)) ?ops (\<lambda>_. []) = pool_trace C ?ops pool_new"
    by (rule redis_pool_equiv[OF C q w srv]) simp_all
  show ?thesis using eq val by blast
qed

text \<open>
  A region's guarantee: when no other region of the window was granted more than its weighted share of the
  budget, a region is granted all it asks for up to its own share, whatever it has borrowed or holds; and a
  region that is alone is granted all it asks for up to the whole budget.
\<close>
theorem region_pool_guarantee:
  assumes "pool_ok C t p" "t \<le> now" "0 < w"
    and rs: "rs = upsert_region i w (po_regions (pool_rollWindow C now p))"
    and others: "\<And>k r. (k, r) \<in> set rs \<Longrightarrow> k \<noteq> i \<Longrightarrow> re_granted r \<le> region_share (pl_L C) (map_sum re_weight rs) (re_weight r)"
    and want: "want \<le> region_share (pl_L C) (map_sum re_weight rs) w"
  shows "fst (pool_grant C p i (Num w) want now) = Inr (max want (pool_held C now p i)) \<and>
    ((\<forall>k\<in>fst ` set rs. k = i) \<longrightarrow> region_share (pl_L C) (map_sum re_weight rs) w = js_floor (pl_L C))"
proof -
  let ?W = "map_sum re_weight rs" and ?L = "pl_L C"
  have ok1: "pool_ok C now (pool_rollWindow C now p)" by (rule pool_roll_ok[OF assms(1,2)])
  then have rok: "regions_ok ?L rs" and L: "0 \<le> ?L" using upsert_region_ok[OF _ assms(3)] by (simp_all add: pool_ok_def rs)
  have here: "at_key f rs i = f \<lparr>re_weight = w, re_granted = at_key re_granted (po_regions (pool_rollWindow C now p)) i\<rparr>" for f
    by (simp add: rs upsert_region_def)
  have nn: "\<And>e. e \<in> set rs \<Longrightarrow> 0 \<le> re_weight (snd e)" using regions_okD(3)[OF rok] by (simp add: less_imp_le)
  have W: "0 < ?W" using at_key_le_sum[OF regions_okD(1)[OF rok], of re_weight i] nn assms(3) here[of re_weight] by simp
  have "othersHold ?L ?W i rs = map_sum (\<lambda>r. region_share ?L ?W (re_weight r)) (filter (\<lambda>e. fst e \<noteq> i) rs)"
    unfolding othersHold_def using others by (intro map_sum_cong) (auto simp: max_absorb2)
  also have "\<dots> = map_sum (\<lambda>r. region_share ?L ?W (re_weight r)) rs - region_share ?L ?W w"
    using map_sum_others[OF regions_okD(1)[OF rok], of "\<lambda>r. region_share ?L ?W (re_weight r)" i] here by simp
  also have "map_sum (\<lambda>r. region_share ?L ?W (re_weight r)) rs \<le> map_sum (\<lambda>r. re_weight r * (?L / ?W)) rs"
    using W by (intro map_sum_mono) (simp add: region_share_def js_floor_le)
  also have "\<dots> = ?L" unfolding map_sum_scale using W by simp
  finally have room: "othersHold ?L ?W i rs \<le> ?L - region_share ?L ?W w" by simp
  show ?thesis
  proof
    have cur: "pool_held C now p i = at_key re_granted (po_regions (pool_rollWindow C now p)) i"
      using pool_roll_held[of C now p i] pool_roll_current[of C now p] ok1 by (simp add: pool_held_def pool_ok_def)
    show "fst (pool_grant C p i (Num w) want now) = Inr (max want (pool_held C now p i))"
      using room want unfolding pool_grant_eq[OF assms(3)] cur Let_def rs[symmetric] by (auto simp: max_def min_def)
    show "(\<forall>k\<in>fst ` set rs. k = i) \<longrightarrow> region_share ?L ?W w = js_floor ?L"
    proof
      assume "\<forall>k\<in>fst ` set rs. k = i"
      then have "filter (\<lambda>e. fst e \<noteq> i) rs = []" by (auto simp: filter_empty_conv)
      then have "?W = w" using map_sum_others[OF regions_okD(1)[OF rok], of re_weight i] here[of re_weight] by simp
      then show "region_share ?L ?W w = js_floor ?L" using assms(3) by (simp add: region_share_def)
    qed
  qed
qed

theorem region_pool_guarantee_witness:
  "fst (pool_grant \<lparr>pl_L = 10, pl_windowMs = 1000\<rparr>
      \<lparr>po_windowStart = Some 1000, po_regions = [(''us'', \<lparr>re_weight = 1, re_granted = 2\<rparr>)]\<rparr> ''eu'' (Num 3) 7 1600) = Inr 7"
proof -
  let ?C = "\<lparr>pl_L = 10, pl_windowMs = 1000\<rparr> :: pool_cfg"
  let ?p = "\<lparr>po_windowStart = Some 1000, po_regions = [(''us'', \<lparr>re_weight = 1, re_granted = 2\<rparr>)]\<rparr> :: region_pool"
  have ok: "pool_ok ?C 1600 ?p" by (simp add: pool_ok_def regions_ok_def exI[of _ 1])
  have rs: "upsert_region ''eu'' 3 (po_regions (pool_rollWindow ?C 1600 ?p)) =
      [(''us'', \<lparr>re_weight = 1, re_granted = 2\<rparr>), (''eu'', \<lparr>re_weight = 3, re_granted = 0\<rparr>)]"
    by (simp add: upsert_region_def pool_rollWindow_def)
  show ?thesis
    using region_pool_guarantee[OF ok _ _ rs[symmetric], of 7] by (simp add: region_share_def pool_held_def pool_current_def js_floor_def)
qed

text \<open>
  With a window that is not a whole number of milliseconds the constructor succeeds, but \<open>PEXPIRE\<close> refuses the
  time to live: the grant is stored and the caller gets an error.
\<close>

lemma fractional_window_loses_grant:
  defines "q \<equiv> \<lparr>rq_cfg = \<lparr>pl_L = 10, pl_windowMs = 3 / 2\<rparr>, rq_key = ''k'', rq_prefix = ''tk:rfp'', rq_serverTime = False\<rparr>"
  shows "redisRegionFairPool (Num 10) (Num (3 / 2)) ''k'' None (Some False) = Inr q"
    "fst (rq_grant q (\<lambda>_. []) ''us'' (Num 1) (Num 4) 3 (0, 0) Answered) = Inl (StoreUnavailableError ''grant'')"
    "map_of (snd (rq_grant q (\<lambda>_. []) ''us'' (Num 1) (Num 4) 3 (0, 0) Answered) (rq_redisKey q)) ''g:us'' = Some 4"
proof -
  have half: "js_floor (3 / 2) = 1" by (simp add: js_floor_def)
  show "redisRegionFairPool (Num 10) (Num (3 / 2)) ''k'' None (Some False) = Inr q"
    "fst (rq_grant q (\<lambda>_. []) ''us'' (Num 1) (Num 4) 3 (0, 0) Answered) = Inl (StoreUnavailableError ''grant'')"
    "map_of (snd (rq_grant q (\<lambda>_. []) ''us'' (Num 1) (Num 4) 3 (0, 0) Answered) (rq_redisKey q)) ''g:us'' = Some 4"
    by (simp_all add: q_def redisRegionFairPool_def rq_grant_def grant_lua_def lua_now_def half Let_def hset_def map_of_update)
qed

end
