(* ===== verification/FedWfe.thy ===== *)
theory FedWfe
  imports Wfe RegionPool
begin

text \<open>
  Federated weighted fair escrow (\<open>twotier/federated-weighted-fair-escrow.ts\<close>): the limiter of one region, which
  leases its budget from a cross-region pool and splits it among its tenants, and many such regions on one
  pool in their own process, which they call synchronously. The result: the credits all regions admit in a
  window never exceed the global limit. Regions in separate processes are in RegionFleet.
\<close>

section \<open>State\<close>

record fed_cfg =
  fc_region :: string
  fc_L :: num
  fc_windowMs :: num
  fc_weightOf :: "string \<Rightarrow> js_number"
  fc_maxKeys :: "num option"
  fc_async :: bool

record fed_options =
  fo_region :: string
  fo_weightOf :: "(string \<Rightarrow> js_number) option"
  fo_maxKeys :: "num option"

text \<open>The factory over a pool with the given configuration; \<open>async\<close> is the pool's marker.\<close>

definition federatedWeightedFairEscrow :: "fed_options \<Rightarrow> pool_cfg \<Rightarrow> bool \<Rightarrow> fed_cfg result" where
  "federatedWeightedFairEscrow opts pool async =
     (if length (fo_region opts) = 0 then Inl (TypeError ''region'')
      else Inr \<lparr>fc_region = fo_region opts, fc_L = pl_L pool, fc_windowMs = pl_windowMs pool,
                fc_weightOf = (case fo_weightOf opts of Some f \<Rightarrow> f | None \<Rightarrow> (\<lambda>_. Num 1)),
                fc_maxKeys = fo_maxKeys opts, fc_async = async\<rparr>)"

text \<open>
  As in the single-process limiter, entries live in a heap, because a check that waits for the pool keeps a
  reference to its entry.
\<close>

record fed =
  fd_windowStart :: "num option"
  fd_regionBudget :: num
  fd_evictedUsed :: num
  fd_heap :: "tenant_entry list"
  fd_tenants :: "(string \<times> nat) list"

definition fed_new :: fed where
  "fed_new = \<lparr>fd_windowStart = None, fd_regionBudget = 0, fd_evictedUsed = 0, fd_heap = [], fd_tenants = []\<rparr>"

definition fed_clear :: "num option \<Rightarrow> fed \<Rightarrow> fed" where
  "fed_clear ws st = st\<lparr>fd_windowStart := ws, fd_regionBudget := 0, fd_evictedUsed := 0, fd_tenants := []\<rparr>"

definition fed_rollWindow :: "fed_cfg \<Rightarrow> num \<Rightarrow> fed \<Rightarrow> fed" where
  "fed_rollWindow cfg now st =
     (if (case fd_windowStart st of None \<Rightarrow> True | Some ws \<Rightarrow> now \<ge> ws + fc_windowMs cfg)
      then fed_clear (Some (js_floor (now / fc_windowMs cfg) * fc_windowMs cfg)) st else st)"

section \<open>In-region fairness\<close>

text \<open>The total weight and the total used; the use of evicted tenants still counts.\<close>

definition fed_used :: "fed \<Rightarrow> num" where
  "fed_used st = fd_evictedUsed st + wfe_sum te_used (fd_heap st) (fd_tenants st)"

definition fed_aggregate :: "fed \<Rightarrow> num \<times> num" where
  "fed_aggregate st = (wfe_sum te_weight (fd_heap st) (fd_tenants st), fed_used st)"

definition fed_share :: "fed \<Rightarrow> num \<Rightarrow> num \<Rightarrow> num" where
  "fed_share st weight totalWeight = (if totalWeight > 0 then js_floor (weight * fd_regionBudget st / totalWeight) else 0)"

definition fed_reserve :: "fed \<Rightarrow> nat \<Rightarrow> num \<Rightarrow> num" where
  "fed_reserve st a totalWeight =
     sum_list (map (\<lambda>(k, b). if b = a then 0
                    else max 0 (fed_share st (te_weight (fd_heap st ! b)) totalWeight - te_used (fd_heap st ! b)))
               (fd_tenants st))"

definition fed_resetAt :: "fed_cfg \<Rightarrow> fed \<Rightarrow> num" where
  "fed_resetAt cfg st = (case fd_windowStart st of Some ws \<Rightarrow> js_ceil (ws + fc_windowMs cfg) | None \<Rightarrow> 0)"

definition fed_applyUsed :: "nat \<Rightarrow> num \<Rightarrow> fed \<Rightarrow> fed" where
  "fed_applyUsed a cost st =
     st\<lparr>fd_heap := (fd_heap st)[a := (fd_heap st ! a)\<lparr>te_used := te_used (fd_heap st ! a) + cost\<rparr>]\<rparr>"

text \<open>The decision for the entry at \<open>a\<close> in a window that has been opened, with the aggregate of the caller.\<close>

definition fed_decide :: "fed_cfg \<Rightarrow> fed \<Rightarrow> nat \<Rightarrow> num \<Rightarrow> num \<Rightarrow> num \<times> num \<Rightarrow> decision \<times> fed" where
  "fed_decide cfg st a cost now agg =
     (let resetAt = fed_resetAt cfg st;
          (totalWeight, totalUsed) = agg;
          used = te_used (fd_heap st ! a);
          gAsker = fed_share st (te_weight (fd_heap st ! a)) totalWeight;
          lRemaining = fd_regionBudget st - totalUsed;
          wait = max 0 (js_ceil (resetAt - now))
      in if cost > lRemaining then
           (\<lparr>d_allowed = False, d_limit = max gAsker used, d_remaining = max 0 (gAsker - used),
             d_resetAt = resetAt, d_retryAfterMs = wait\<rparr>, st)
         else if used + cost \<le> gAsker then
           (\<lparr>d_allowed = True, d_limit = gAsker, d_remaining = max 0 (gAsker - (used + cost)),
             d_resetAt = resetAt, d_retryAfterMs = 0\<rparr>, fed_applyUsed a cost st)
         else
           (let reserve = fed_reserve st a totalWeight;
                borrowAvailable = max 0 (lRemaining - reserve);
                wanted = used + cost - gAsker;
                grantable = min (min wanted cost) (min borrowAvailable lRemaining);
                realizedCeiling = gAsker + grantable
            in if used + cost \<le> realizedCeiling then
                 (\<lparr>d_allowed = True, d_limit = realizedCeiling, d_remaining = max 0 (realizedCeiling - (used + cost)),
                   d_resetAt = resetAt, d_retryAfterMs = 0\<rparr>, fed_applyUsed a cost st)
               else
                 (\<lparr>d_allowed = False, d_limit = realizedCeiling, d_remaining = max 0 (realizedCeiling - used),
                   d_resetAt = resetAt, d_retryAfterMs = wait\<rparr>, st)))"

definition fed_wouldAdmit :: "fed \<Rightarrow> nat \<Rightarrow> num \<Rightarrow> num \<times> num \<Rightarrow> bool" where
  "fed_wouldAdmit st a cost agg \<longleftrightarrow>
     (let (totalWeight, totalUsed) = agg;
          used = te_used (fd_heap st ! a);
          lRemaining = fd_regionBudget st - totalUsed;
          gAsker = fed_share st (te_weight (fd_heap st ! a)) totalWeight
      in if cost > lRemaining then False
         else if used + cost \<le> gAsker then True
         else
           (let borrowAvailable = max 0 (lRemaining - fed_reserve st a totalWeight);
                grantable = min (min (used + cost - gAsker) cost) (min borrowAvailable lRemaining)
            in used + cost \<le> gAsker + grantable))"

section \<open>Tenants\<close>

text \<open>A tenant evicted to make room leaves its use behind; a tenant reset by the caller does not.\<close>

definition fed_evict :: "fed \<Rightarrow> fed" where
  "fed_evict st =
     (case fd_tenants st of
        [] \<Rightarrow> st
      | (oldest, a) # ts \<Rightarrow>
          st\<lparr>fd_evictedUsed := fd_evictedUsed st + te_used (fd_heap st ! a),
             fd_tenants := filter (\<lambda>(k, b). k \<noteq> oldest) (fd_tenants st)\<rparr>)"

definition fed_bootstrap :: "fed_cfg \<Rightarrow> string \<Rightarrow> num \<Rightarrow> fed \<Rightarrow> nat \<times> fed" where
  "fed_bootstrap cfg tenant w st =
     (let st1 = (if (case fc_maxKeys cfg of Some m \<Rightarrow> real (length (fd_tenants st)) \<ge> m | None \<Rightarrow> False) then fed_evict st else st);
          a = length (fd_heap st1)
      in (a, st1\<lparr>fd_heap := fd_heap st1 @ [\<lparr>te_weight = w, te_used = 0\<rparr>], fd_tenants := fd_tenants st1 @ [(tenant, a)]\<rparr>))"

definition fed_entry :: "fed_cfg \<Rightarrow> fed \<Rightarrow> num \<Rightarrow> string \<Rightarrow> num \<Rightarrow> nat \<times> fed" where
  "fed_entry cfg st now tenant w =
     (let st1 = fed_rollWindow cfg now st
      in case map_of (fd_tenants st1) tenant of
           None \<Rightarrow> fed_bootstrap cfg tenant w st1
         | Some a \<Rightarrow> (a, st1\<lparr>fd_heap := (fd_heap st1)[a := (fd_heap st1 ! a)\<lparr>te_weight := w\<rparr>]\<rparr>))"

definition fed_validate :: "fed_cfg \<Rightarrow> string \<Rightarrow> js_number \<Rightarrow> (num \<times> num) result" where
  "fed_validate cfg tenant cost =
     (if tenant = [] then Inl (TypeError ''tenant'')
      else rbind (requireCost cost) (\<lambda>c. rbind (requirePositive ''weight'' (fc_weightOf cfg tenant)) (\<lambda>w. Inr (c, w))))"

section \<open>Leasing from the pool\<close>

type_synonym 'p grant = "'p \<Rightarrow> string \<Rightarrow> js_number \<Rightarrow> num \<Rightarrow> num \<Rightarrow> num result \<times> 'p"

definition max_lease_iters :: nat where
  "max_lease_iters = 64"

definition fed_need :: "fed_cfg \<Rightarrow> fed \<Rightarrow> nat \<Rightarrow> num \<Rightarrow> num \<times> num \<Rightarrow> num" where
  "fed_need cfg st a cost agg = min (fc_L cfg) (snd agg + fed_reserve st a (fst agg) + cost)"

fun fed_ensure :: "'p grant \<Rightarrow> fed_cfg \<Rightarrow> nat \<Rightarrow> nat \<Rightarrow> num \<Rightarrow> num \<Rightarrow> num \<times> num \<Rightarrow> fed \<Rightarrow> 'p \<Rightarrow> unit result \<times> fed \<times> 'p" where
  "fed_ensure grant cfg 0 a cost now agg st p = (Inr (), st, p)"
| "fed_ensure grant cfg (Suc n) a cost now agg st p =
     (if fd_regionBudget st \<ge> fc_L cfg \<or> fed_wouldAdmit st a cost agg then (Inr (), st, p)
      else (case grant p (fc_region cfg) (Num (fst agg)) (fed_need cfg st a cost agg) now of
              (Inl e, p') \<Rightarrow> (Inl e, st, p')
            | (Inr b, p') \<Rightarrow>
                (if b \<le> fd_regionBudget st then (Inr (), st\<lparr>fd_regionBudget := b\<rparr>, p')
                 else fed_ensure grant cfg n a cost now agg (st\<lparr>fd_regionBudget := b\<rparr>) p')))"

definition fed_checkSync :: "'p grant \<Rightarrow> fed_cfg \<Rightarrow> fed \<Rightarrow> 'p \<Rightarrow> num \<Rightarrow> string \<Rightarrow> js_number \<Rightarrow> decision result \<times> fed \<times> 'p" where
  "fed_checkSync grant cfg st p now tenant cost =
     (if fc_async cfg then (Inl (ThrottleKitError ''checkSync''), st, p)
      else (case fed_validate cfg tenant cost of
              Inl e \<Rightarrow> (Inl e, st, p)
            | Inr (c, w) \<Rightarrow>
                (case fed_entry cfg st now tenant w of
                   (a, st1) \<Rightarrow>
                     (let agg = fed_aggregate st1
                      in case fed_ensure grant cfg max_lease_iters a c now agg st1 p of
                           (Inl e, st2, p') \<Rightarrow> (Inl e, st2, p')
                         | (Inr _, st2, p') \<Rightarrow> (case fed_decide cfg st2 a c now agg of (d, st3) \<Rightarrow> (Inr d, st3, p'))))))"

text \<open>
  The asynchronous check between its awaits: it has decided, or it waits for the pool with the rounds it has
  left. A reset may run before the reply; another check may not, because checks are chained.
\<close>

datatype fed_await =
    FedDone decision
  | FedAwait nat num num nat num num num

definition fed_async_round :: "fed_cfg \<Rightarrow> nat \<Rightarrow> nat \<Rightarrow> num \<Rightarrow> num \<Rightarrow> fed \<Rightarrow> fed_await \<times> fed" where
  "fed_async_round cfg rounds a cost now st =
     (if rounds = 0 \<or> fd_regionBudget st \<ge> fc_L cfg \<or> fed_wouldAdmit st a cost (fed_aggregate st)
      then (case fed_decide cfg st a cost now (fed_aggregate st) of (d, st1) \<Rightarrow> (FedDone d, st1))
      else (FedAwait a cost now (rounds - 1) (fst (fed_aggregate st)) (fed_need cfg st a cost (fed_aggregate st)) (fd_regionBudget st), st))"

definition fed_async_start :: "fed_cfg \<Rightarrow> fed \<Rightarrow> num \<Rightarrow> string \<Rightarrow> js_number \<Rightarrow> (fed_await \<times> fed) result" where
  "fed_async_start cfg st now tenant cost =
     rbind (fed_validate cfg tenant cost) (\<lambda>(c, w).
       case fed_entry cfg st now tenant w of (a, st1) \<Rightarrow> Inr (fed_async_round cfg max_lease_iters a c now st1))"

text \<open>The reply \<open>b\<close> to a check that waits with \<open>before\<close> as the budget it had; a failed call ends the check.\<close>

definition fed_async_reply :: "fed_cfg \<Rightarrow> nat \<Rightarrow> num \<Rightarrow> num \<Rightarrow> nat \<Rightarrow> num \<Rightarrow> num \<Rightarrow> fed \<Rightarrow> fed_await \<times> fed" where
  "fed_async_reply cfg a cost now rounds before b st =
     fed_async_round cfg (if b \<le> before then 0 else rounds) a cost now (st\<lparr>fd_regionBudget := b\<rparr>)"

text \<open>The asynchronous check when every reply arrives at once.\<close>

fun fed_async_run :: "'p grant \<Rightarrow> fed_cfg \<Rightarrow> nat \<Rightarrow> fed_await \<times> fed \<Rightarrow> 'p \<Rightarrow> decision result \<times> fed \<times> 'p" where
  "fed_async_run grant cfg n (FedDone d, st) p = (Inr d, st, p)"
| "fed_async_run grant cfg 0 (FedAwait a cost now rounds w need before, st) p = (Inl (TypeError ''rounds''), st, p)"
| "fed_async_run grant cfg (Suc n) (FedAwait a cost now rounds w need before, st) p =
     (case grant p (fc_region cfg) (Num w) need now of
        (Inl e, p') \<Rightarrow> (Inl e, st, p')
      | (Inr b, p') \<Rightarrow> fed_async_run grant cfg n (fed_async_reply cfg a cost now rounds before b st) p')"

definition fed_check :: "'p grant \<Rightarrow> fed_cfg \<Rightarrow> fed \<Rightarrow> 'p \<Rightarrow> num \<Rightarrow> string \<Rightarrow> js_number \<Rightarrow> decision result \<times> fed \<times> 'p" where
  "fed_check grant cfg st p now tenant cost =
     (if fc_async cfg
      then (case fed_async_start cfg st now tenant cost of
              Inl e \<Rightarrow> (Inl e, st, p)
            | Inr s \<Rightarrow> fed_async_run grant cfg max_lease_iters s p)
      else fed_checkSync grant cfg st p now tenant cost)"

definition fed_reset :: "('p \<Rightarrow> string \<Rightarrow> num \<Rightarrow> 'p) \<Rightarrow> fed_cfg \<Rightarrow> fed \<Rightarrow> 'p \<Rightarrow> num \<Rightarrow> string option \<Rightarrow> fed \<times> 'p" where
  "fed_reset release cfg st p now tenant =
     (case tenant of
        None \<Rightarrow> (fed_clear None st, if fd_windowStart st \<noteq> None then release p (fc_region cfg) now else p)
      | Some k \<Rightarrow> (st\<lparr>fd_tenants := filter (\<lambda>(j, b). j \<noteq> k) (fd_tenants st)\<rparr>, p))"

record fed_stats =
  fs_region :: string
  fs_windowStart :: "num option"
  fs_limit :: num
  fs_regionBudget :: num
  fs_activeWeight :: num
  fs_totalUsed :: num
  fs_tenants :: "(string \<times> num \<times> num) list"

definition fed_stats_of :: "fed_cfg \<Rightarrow> fed \<Rightarrow> fed_stats" where
  "fed_stats_of cfg st =
     \<lparr>fs_region = fc_region cfg, fs_windowStart = fd_windowStart st, fs_limit = fc_L cfg, fs_regionBudget = fd_regionBudget st,
      fs_activeWeight = fst (fed_aggregate st), fs_totalUsed = snd (fed_aggregate st),
      fs_tenants = map (\<lambda>(k, a). (k, te_weight (fd_heap st ! a), te_used (fd_heap st ! a))) (fd_tenants st)\<rparr>"

section \<open>The asynchronous form\<close>

lemma fed_aggregate_budget [simp]: "fed_aggregate (st\<lparr>fd_regionBudget := b\<rparr>) = fed_aggregate st"
  by (simp add: fed_aggregate_def fed_used_def)

lemma fed_async_run_round:
  "n \<le> m \<Longrightarrow> fed_async_run grant cfg m (fed_async_round cfg n a c now st) p =
     (case fed_ensure grant cfg n a c now (fed_aggregate st) st p of
        (Inl e, st2, p') \<Rightarrow> (Inl e, st2, p')
      | (Inr _, st2, p') \<Rightarrow> (case fed_decide cfg st2 a c now (fed_aggregate st) of (d, st3) \<Rightarrow> (Inr d, st3, p')))"
proof (induction n arbitrary: m st p)
  case 0
  then show ?case by (simp add: fed_async_round_def split: prod.split)
next
  case (Suc n)
  then obtain k where m: "m = Suc k" "n \<le> k" by (cases m) auto
  show ?case
  proof (cases "fd_regionBudget st \<ge> fc_L cfg \<or> fed_wouldAdmit st a c (fed_aggregate st)")
    case True
    then show ?thesis by (auto simp: fed_async_round_def split: prod.split)
  next
    case False
    obtain r p' where G: "grant p (fc_region cfg) (Num (fst (fed_aggregate st))) (fed_need cfg st a c (fed_aggregate st)) now = (r, p')"
      by (metis prod.exhaust)
    have round0: "fed_async_run grant cfg k (fed_async_round cfg 0 a c now s) q =
        (case fed_decide cfg s a c now (fed_aggregate s) of (d, s') \<Rightarrow> (Inr d, s', q))" for s q
      by (simp add: fed_async_round_def split: prod.split)
    show ?thesis
      using False Suc.IH[OF m(2)] round0
      by (cases r) (simp_all add: fed_async_round_def[of cfg "Suc n"] m(1) G fed_async_reply_def cong: sum.case_cong prod.case_cong)
  qed
qed

lemma fed_flag [simp]:
  "fed_rollWindow (cfg\<lparr>fc_async := b\<rparr>) = fed_rollWindow cfg" "fed_entry (cfg\<lparr>fc_async := b\<rparr>) = fed_entry cfg"
  "fed_validate (cfg\<lparr>fc_async := b\<rparr>) = fed_validate cfg" "fed_decide (cfg\<lparr>fc_async := b\<rparr>) = fed_decide cfg"
  by (simp_all add: fun_eq_iff fed_rollWindow_def fed_entry_def fed_bootstrap_def fed_validate_def fed_decide_def fed_resetAt_def
      cong: option.case_cong prod.case_cong)

lemma fed_ensure_flag [simp]: "fed_ensure grant (cfg\<lparr>fc_async := b\<rparr>) n a c now agg st p = fed_ensure grant cfg n a c now agg st p"
  by (induction n arbitrary: st p) (auto simp: fed_need_def split: sum.split prod.split)

lemma fed_async_eq:
  "fed_check grant (cfg\<lparr>fc_async := True\<rparr>) st p now tenant cost = fed_check grant (cfg\<lparr>fc_async := False\<rparr>) st p now tenant cost"
proof (cases "fed_validate cfg tenant cost")
  case (Inr cw)
  obtain c w where cw: "cw = (c, w)" by (cases cw)
  obtain a st1 where e: "fed_entry cfg st now tenant w = (a, st1)" by (metis prod.exhaust)
  have "fed_async_run grant (cfg\<lparr>fc_async := True\<rparr>) max_lease_iters (fed_async_round (cfg\<lparr>fc_async := True\<rparr>) max_lease_iters a c now st1) p =
     (case fed_ensure grant cfg max_lease_iters a c now (fed_aggregate st1) st1 p of
        (Inl e, st2, p') \<Rightarrow> (Inl e, st2, p')
      | (Inr _, st2, p') \<Rightarrow> (case fed_decide cfg st2 a c now (fed_aggregate st1) of (d, st3) \<Rightarrow> (Inr d, st3, p')))"
    using fed_async_run_round[of max_lease_iters max_lease_iters grant "cfg\<lparr>fc_async := True\<rparr>"]
    by (simp cong: sum.case_cong prod.case_cong)
  then show ?thesis by (simp add: fed_check_def fed_checkSync_def fed_async_start_def Inr cw e Let_def cong: sum.case_cong prod.case_cong)
qed (simp add: fed_check_def fed_checkSync_def fed_async_start_def)

section \<open>Against the single-process limiter\<close>

text \<open>The region as a single-process limiter whose budget is what the pool granted.\<close>

definition fed_core :: "fed \<Rightarrow> wfe" where
  "fed_core st =
     \<lparr>wf_windowStart = fd_windowStart st, wf_lEffective = fd_regionBudget st, wf_heap = fd_heap st, wf_tenants = fd_tenants st,
      wf_aggWeight = fst (fed_aggregate st), wf_aggUsed = snd (fed_aggregate st), wf_fractionalSeen = False\<rparr>"

definition fed_ok :: "fed \<Rightarrow> bool" where
  "fed_ok st \<longleftrightarrow>
     distinct (map fst (fd_tenants st)) \<and> distinct (map snd (fd_tenants st)) \<and> 0 \<le> fd_evictedUsed st \<and>
     (\<forall>(k, a)\<in>set (fd_tenants st). a < length (fd_heap st) \<and> 0 < te_weight (fd_heap st ! a) \<and> 0 \<le> te_used (fd_heap st ! a))"

lemma fed_okD:
  assumes "fed_ok st"
  shows "distinct (map fst (fd_tenants st))" "distinct (map snd (fd_tenants st))" "0 \<le> fd_evictedUsed st"
    "(k, a) \<in> set (fd_tenants st) \<Longrightarrow> a < length (fd_heap st)"
    "(k, a) \<in> set (fd_tenants st) \<Longrightarrow> 0 < te_weight (fd_heap st ! a)"
    "(k, a) \<in> set (fd_tenants st) \<Longrightarrow> 0 \<le> te_used (fd_heap st ! a)"
  using assms by (auto simp: fed_ok_def)

lemma fed_weight_pos:
  assumes "fed_ok st" "(k, a) \<in> set (fd_tenants st)"
  shows "0 < wfe_sum te_weight (fd_heap st) (fd_tenants st)"
proof -
  have "wfe_sum te_weight (fd_heap st) (filter (\<lambda>(j, b). j \<noteq> k) (fd_tenants st)) =
      wfe_sum te_weight (fd_heap st) (fd_tenants st) - te_weight (fd_heap st ! a)"
    by (rule wfe_sum_filter[OF assms(2) fed_okD(1)[OF assms(1)]])
  moreover have "0 \<le> wfe_sum te_weight (fd_heap st) (filter (\<lambda>(j, b). j \<noteq> k) (fd_tenants st))"
    using fed_okD(5)[OF assms(1)] by (intro wfe_sum_nonneg) (auto intro: less_imp_le)
  ultimately show ?thesis using fed_okD(5)[OF assms] by linarith
qed

lemma fed_used_nonneg: "fed_ok st \<Longrightarrow> 0 \<le> fed_used st"
  unfolding fed_used_def using fed_okD(3,6)[of st] by (intro add_nonneg_nonneg wfe_sum_nonneg) auto

lemma fed_share_core: "0 < W \<Longrightarrow> fed_share st w W = guaranteedShare (fed_core st) w W"
  by (simp add: fed_share_def guaranteedShare_def fed_core_def)

lemma fed_core_sel [simp]:
  "wf_heap (fed_core st) = fd_heap st" "wf_lEffective (fed_core st) = fd_regionBudget st" "wf_tenants (fed_core st) = fd_tenants st"
  by (simp_all add: fed_core_def)

lemma fed_reserve_core: "0 < W \<Longrightarrow> fed_reserve st a W = wfe_reserve (fed_core st) a W"
  by (simp add: fed_reserve_def wfe_reserve_def fed_share_core cong: if_cong)

text \<open>
  The decision of a region is the decision of the single-process limiter of its pool-granted budget, and the
  predicate that drives the leasing loop is whether that decision admits.
\<close>

lemma fed_decide_result:
  "d_allowed (fst (fed_decide cfg st a cost now agg)) = fed_wouldAdmit st a cost agg"
  "snd (fed_decide cfg st a cost now agg) = (if fed_wouldAdmit st a cost agg then fed_applyUsed a cost st else st)"
  unfolding fed_decide_def fed_wouldAdmit_def Let_def case_prod_unfold
    if_distrib[of fst] if_distrib[of snd] if_distrib[of d_allowed] prod.sel decision.select_convs
  by (simp_all only: split: if_split) blast+

lemma fed_decide_core:
  assumes "0 < fst (fed_aggregate st)" "fc_windowMs cfg = wc_windowMs wcfg"
  shows "fed_decide cfg st a cost now (fed_aggregate st) =
    (let d = fst (wfe_decide wcfg (fed_core st) a cost now) in (d, if d_allowed d then fed_applyUsed a cost st else st))"
proof -
  have agg: "wfe_aggregate (fed_core st) = fed_aggregate st" by (simp add: wfe_aggregate_def fed_core_def)
  have sel: "wfe_resetAt wcfg (fed_core st) = fed_resetAt cfg st"
    using assms(2) by (simp add: wfe_resetAt_def fed_resetAt_def fed_core_def cong: option.case_cong)
  have "fst (fed_decide cfg st a cost now (fed_aggregate st)) = fst (wfe_decide wcfg (fed_core st) a cost now)"
    unfolding fed_decide_def wfe_decide_def agg sel Let_def case_prod_unfold fed_share_core[OF assms(1)] fed_reserve_core[OF assms(1)]
      fed_core_sel if_distrib[of fst] prod.sel ..
  moreover have "snd (fed_decide cfg st a cost now (fed_aggregate st)) =
      (if d_allowed (fst (fed_decide cfg st a cost now (fed_aggregate st))) then fed_applyUsed a cost st else st)"
    by (simp add: fed_decide_result)
  ultimately show ?thesis by (simp add: Let_def prod_eq_iff)
qed

section \<open>What a check does to a region\<close>

definition fed_window :: "fed_cfg \<Rightarrow> num \<Rightarrow> fed \<Rightarrow> bool" where
  "fed_window cfg t st \<longleftrightarrow> (case fd_windowStart st of None \<Rightarrow> False | Some ws \<Rightarrow> t < ws + fc_windowMs cfg)"

lemma fed_roll_eq:
  "fed_rollWindow cfg now st =
     (if fed_window cfg now st then st else fed_clear (Some (js_floor (now / fc_windowMs cfg) * fc_windowMs cfg)) st)"
  by (auto simp: fed_rollWindow_def fed_window_def split: option.splits)

lemma fed_clear_ok [simp]: "fed_ok (fed_clear ws st)" "fed_used (fed_clear ws st) = 0" "fd_regionBudget (fed_clear ws st) = 0"
  "fd_windowStart (fed_clear ws st) = ws"
  by (simp_all add: fed_ok_def fed_clear_def fed_used_def)

lemma fed_roll_ok: "fed_ok st \<Longrightarrow> fed_ok (fed_rollWindow cfg now st)"
  by (simp add: fed_roll_eq)

definition fed_active :: "fed \<Rightarrow> nat \<Rightarrow> bool" where
  "fed_active st a \<longleftrightarrow> a \<in> set (map snd (fd_tenants st))"

lemma fed_activeE:
  assumes "fed_active st a"
  obtains k where "(k, a) \<in> set (fd_tenants st)"
  using assms by (auto simp: fed_active_def)

lemma fed_update_ok:
  assumes ok: "fed_ok st" and a: "fed_active st a" and e: "0 < te_weight e" "0 \<le> te_used e"
  shows "fed_ok (st\<lparr>fd_heap := (fd_heap st)[a := e]\<rparr>)"
    "fed_used (st\<lparr>fd_heap := (fd_heap st)[a := e]\<rparr>) = fed_used st - te_used (fd_heap st ! a) + te_used e"
proof -
  obtain k where k: "(k, a) \<in> set (fd_tenants st)" by (rule fed_activeE[OF a])
  have "b < length ((fd_heap st)[a := e]) \<and> 0 < te_weight ((fd_heap st)[a := e] ! b) \<and> 0 \<le> te_used ((fd_heap st)[a := e] ! b)"
    if "(j, b) \<in> set (fd_tenants st)" for j b
    using that fed_okD(4-6)[OF ok that] e by (cases "b = a") auto
  then show "fed_ok (st\<lparr>fd_heap := (fd_heap st)[a := e]\<rparr>)" using ok by (auto simp: fed_ok_def)
  show "fed_used (st\<lparr>fd_heap := (fd_heap st)[a := e]\<rparr>) = fed_used st - te_used (fd_heap st ! a) + te_used e"
    using wfe_sum_update[OF k fed_okD(2)[OF ok] fed_okD(4)[OF ok k], where f = te_used and e = e] by (simp add: fed_used_def)
qed

lemma fed_evict_ok:
  assumes ok: "fed_ok st"
  shows "fed_ok (fed_evict st)" "fed_used (fed_evict st) = fed_used st" "fd_regionBudget (fed_evict st) = fd_regionBudget st"
    "fd_windowStart (fed_evict st) = fd_windowStart st" "fd_heap (fed_evict st) = fd_heap st"
    "set (fd_tenants (fed_evict st)) \<subseteq> set (fd_tenants st)"
proof -
  have "fed_ok (fed_evict st) \<and> fed_used (fed_evict st) = fed_used st"
  proof (cases "fd_tenants st")
    case (Cons t ts)
    obtain oldest a where t: "t = (oldest, a)" by (cases t)
    have k: "(oldest, a) \<in> set (fd_tenants st)" by (simp add: Cons t)
    note F = wfe_sum_filter[OF k fed_okD(1)[OF ok], of te_used "fd_heap st"]
    let ?ts = "filter (\<lambda>(k, b). k \<noteq> oldest) (fd_tenants st)"
    have ev: "fed_evict st = st\<lparr>fd_evictedUsed := fd_evictedUsed st + te_used (fd_heap st ! a), fd_tenants := ?ts\<rparr>"
      by (simp add: fed_evict_def Cons t)
    have "distinct (map fst ?ts)" "distinct (map snd ?ts)" using fed_okD(1,2)[OF ok] by (simp_all add: distinct_map_filter)
    then show ?thesis unfolding ev using F fed_okD(3)[OF ok] fed_okD(4-6)[OF ok] fed_okD(6)[OF ok k]
      by (auto simp: fed_ok_def fed_used_def)
  qed (use ok in \<open>simp add: fed_evict_def\<close>)
  then show "fed_ok (fed_evict st)" "fed_used (fed_evict st) = fed_used st" by auto
qed (auto simp: fed_evict_def split: list.splits)

lemma fed_bootstrap_ok:
  assumes ok: "fed_ok st" and new: "k \<notin> set (map fst (fd_tenants st))" and w: "0 < w" and b: "fed_bootstrap cfg k w st = (a, st')"
  shows "fed_ok st'" "fed_active st' a" "fed_used st' = fed_used st" "fd_regionBudget st' = fd_regionBudget st"
    "fd_windowStart st' = fd_windowStart st"
proof -
  define s1 where "s1 = (if (case fc_maxKeys cfg of Some m \<Rightarrow> real (length (fd_tenants st)) \<ge> m | None \<Rightarrow> False) then fed_evict st else st)"
  have s1: "fed_ok s1" "fed_used s1 = fed_used st" "fd_regionBudget s1 = fd_regionBudget st" "fd_windowStart s1 = fd_windowStart st"
    "set (fd_tenants s1) \<subseteq> set (fd_tenants st)"
    using ok fed_evict_ok[OF ok] by (auto simp: s1_def dest: subsetD[OF fed_evict_ok(6)[OF ok]])
  have st': "a = length (fd_heap s1)"
    "st' = s1\<lparr>fd_heap := fd_heap s1 @ [\<lparr>te_weight = w, te_used = 0\<rparr>], fd_tenants := fd_tenants s1 @ [(k, a)]\<rparr>"
    using b unfolding fed_bootstrap_def Let_def s1_def[symmetric] by auto
  have bound: "\<forall>(j, b)\<in>set (fd_tenants s1). b < length (fd_heap s1)" using fed_okD(4)[OF s1(1)] by auto
  have S: "wfe_sum f (fd_heap s1 @ es) (fd_tenants s1) = wfe_sum f (fd_heap s1) (fd_tenants s1)" for f es
    by (rule wfe_sum_append[OF bound])
  have fresh: "k \<notin> set (map fst (fd_tenants s1))" "a \<notin> set (map snd (fd_tenants s1))" using new s1(5) bound st'(1) by auto
  show "fed_ok st'" unfolding st'(2) fed_ok_def using s1(1) fresh w bound st'(1) by (auto simp: fed_ok_def nth_append)
  show "fed_active st' a" by (simp add: fed_active_def st'(2))
  show "fed_used st' = fed_used st" "fd_regionBudget st' = fd_regionBudget st" "fd_windowStart st' = fd_windowStart st"
    using S s1 st'(1) by (simp_all add: st'(2) fed_used_def)
qed

lemma fed_entry_ok:
  assumes ok: "fed_ok st" and w: "0 < w" and e: "fed_entry cfg st now k w = (a, st')"
  defines "s \<equiv> fed_rollWindow cfg now st"
  shows "fed_ok st'" "fed_active st' a" "fed_used st' = fed_used s" "fd_regionBudget st' = fd_regionBudget s"
    "fd_windowStart st' = fd_windowStart s"
proof -
  have ok1: "fed_ok s" unfolding s_def by (rule fed_roll_ok[OF ok])
  have "fed_ok st' \<and> fed_active st' a \<and> fed_used st' = fed_used s \<and> fd_regionBudget st' = fd_regionBudget s \<and> fd_windowStart st' = fd_windowStart s"
  proof (cases "map_of (fd_tenants s) k")
    case None
    have "k \<notin> set (map fst (fd_tenants s))" using None by (simp add: map_of_eq_None_iff)
    moreover have "fed_bootstrap cfg k w s = (a, st')" using e None by (simp add: fed_entry_def Let_def s_def)
    ultimately show ?thesis by (simp add: fed_bootstrap_ok[OF ok1 _ w])
  next
    case (Some b)
    have st': "a = b" "st' = s\<lparr>fd_heap := (fd_heap s)[b := (fd_heap s ! b)\<lparr>te_weight := w\<rparr>]\<rparr>"
      using e Some by (auto simp: fed_entry_def Let_def s_def)
    have k: "(k, b) \<in> set (fd_tenants s)" by (rule map_of_SomeD[OF Some])
    then have act: "fed_active s b" by (force simp: fed_active_def)
    show ?thesis
      using fed_update_ok[OF ok1 act, of "(fd_heap s ! b)\<lparr>te_weight := w\<rparr>"] w fed_okD(6)[OF ok1 k] act
      by (simp add: st' fed_active_def)
  qed
  then show "fed_ok st'" "fed_active st' a" "fed_used st' = fed_used s" "fd_regionBudget st' = fd_regionBudget s"
    "fd_windowStart st' = fd_windowStart s" by auto
qed

lemma fed_budget_ok [simp]: "fed_ok (st\<lparr>fd_regionBudget := b\<rparr>) = fed_ok st" "fed_used (st\<lparr>fd_regionBudget := b\<rparr>) = fed_used st"
  "fed_active (st\<lparr>fd_regionBudget := b\<rparr>) a = fed_active st a"
  by (simp_all add: fed_ok_def fed_used_def fed_active_def)

lemma fed_decide_ok:
  assumes ok: "fed_ok st" "fed_active st a" and c: "0 < c" and d: "fed_decide cfg st a c now (W, fed_used st) = (d, st')"
  shows "fed_ok st'" "fed_used st' = fed_used st + (if d_allowed d then c else 0)" "d_allowed d \<Longrightarrow> fed_used st' \<le> fd_regionBudget st"
    "fd_regionBudget st' = fd_regionBudget st" "fd_windowStart st' = fd_windowStart st"
proof -
  obtain k where k: "(k, a) \<in> set (fd_tenants st)" by (rule fed_activeE[OF ok(2)])
  note U = fed_update_ok[OF ok, of "(fd_heap st ! a)\<lparr>te_used := te_used (fd_heap st ! a) + c\<rparr>"]
  have r: "d_allowed d = fed_wouldAdmit st a c (W, fed_used st)" "st' = (if d_allowed d then fed_applyUsed a c st else st)"
    using fed_decide_result[of cfg st a c now "(W, fed_used st)"] d by auto
  have room: "d_allowed d \<Longrightarrow> c \<le> fd_regionBudget st - fed_used st"
    using r(1) by (auto simp: fed_wouldAdmit_def Let_def split: if_splits)
  have w: "0 < te_weight (fd_heap st ! a)" "0 \<le> te_used (fd_heap st ! a)" using fed_okD(5,6)[OF ok(1) k] by simp_all
  show "fed_ok st'" "fed_used st' = fed_used st + (if d_allowed d then c else 0)" "fd_regionBudget st' = fd_regionBudget st"
    "fd_windowStart st' = fd_windowStart st"
    using U w c ok r(2) by (auto simp: fed_applyUsed_def)
  then show "d_allowed d \<Longrightarrow> fed_used st' \<le> fd_regionBudget st" using room by simp
qed

section \<open>Many regions on one pool\<close>

text \<open>
  Operations of regions on a pool in their process, each at a time, and the cost a check admits. The pool is called
  synchronously, so a check and its rounds of leasing are one step.
\<close>

datatype fed_op = FedCheck string num string js_number | FedReset string num "string option"

fun fed_op_time :: "fed_op \<Rightarrow> num" where
  "fed_op_time (FedCheck i now k cost) = now"
| "fed_op_time (FedReset i now k) = now"

fun fed_exec :: "'p grant \<Rightarrow> ('p \<Rightarrow> string \<Rightarrow> num \<Rightarrow> 'p) \<Rightarrow> (string \<Rightarrow> fed_cfg) \<Rightarrow> fed_op \<Rightarrow> (string \<Rightarrow> fed) \<times> 'p \<Rightarrow>
    num \<times> (string \<Rightarrow> fed) \<times> 'p" where
  "fed_exec grant release G (FedCheck i now k cost) (F, p) =
     (case fed_checkSync grant (G i) (F i) p now k cost of
        (res, st, p') \<Rightarrow>
          (case res of Inl e \<Rightarrow> 0 | Inr d \<Rightarrow> if d_allowed d then (case cost of Num c \<Rightarrow> c | _ \<Rightarrow> 0) else 0, F(i := st), p'))"
| "fed_exec grant release G (FedReset i now k) (F, p) =
     (case fed_reset release (G i) (F i) p now k of (st, p') \<Rightarrow> (0, F(i := st), p'))"

fun fed_run :: "'p grant \<Rightarrow> ('p \<Rightarrow> string \<Rightarrow> num \<Rightarrow> 'p) \<Rightarrow> (string \<Rightarrow> fed_cfg) \<Rightarrow> fed_op list \<Rightarrow> (string \<Rightarrow> fed) \<times> 'p \<Rightarrow>
    num \<times> (string \<Rightarrow> fed) \<times> 'p" where
  "fed_run grant release G [] s = (0, s)"
| "fed_run grant release G (op # ops) s =
     (case fed_exec grant release G op s of (c, s1) \<Rightarrow> (case fed_run grant release G ops s1 of (cs, s2) \<Rightarrow> (c + cs, s2)))"

text \<open>What a region has used in the window of time \<open>t\<close>.\<close>

definition fed_now_used :: "fed_cfg \<Rightarrow> num \<Rightarrow> fed \<Rightarrow> num" where
  "fed_now_used cfg t st = (if fed_window cfg t st then fed_used st else 0)"

abbreviation fed_started :: "fed_cfg \<Rightarrow> num \<Rightarrow> fed \<Rightarrow> bool" where
  "fed_started cfg t st \<equiv>
     (case fd_windowStart st of None \<Rightarrow> True | Some ws \<Rightarrow> ws \<le> t \<and> (\<exists>j :: int. ws = of_int j * fc_windowMs cfg))"

definition region_ok :: "(num \<Rightarrow> 'p \<Rightarrow> string \<Rightarrow> num) \<Rightarrow> fed_cfg \<Rightarrow> num \<Rightarrow> 'p \<Rightarrow> fed \<Rightarrow> bool" where
  "region_ok held cfg t p st \<longleftrightarrow>
     fed_ok st \<and> fed_started cfg t st \<and>
     (fed_window cfg t st \<longrightarrow> fed_used st \<le> fd_regionBudget st \<and> fd_regionBudget st \<le> held t p (fc_region cfg))"

lemma fed_used_roll: "fed_window cfg now st \<or> True \<Longrightarrow> fed_used (fed_rollWindow cfg now st) = fed_now_used cfg now st"
  by (simp add: fed_roll_eq fed_now_used_def)

lemma fed_window_later:
  assumes "0 < fc_windowMs cfg" "t \<le> t'" "js_floor (t' / fc_windowMs cfg) = js_floor (t / fc_windowMs cfg)"
    "fed_started cfg t st"
  shows "fed_window cfg t' st = fed_window cfg t st"
proof (cases "fd_windowStart st")
  case (Some ws)
  then obtain j :: int where j: "ws = of_int j * fc_windowMs cfg" "ws \<le> t" using assms(4) by auto
  then show ?thesis
    using window_over_iff[OF assms(1), of j t] window_over_iff[OF assms(1), of j t'] assms(2,3) by (simp add: fed_window_def Some)
qed (simp add: fed_window_def)

lemma fed_window_past: "fed_window cfg t' st \<Longrightarrow> t \<le> t' \<Longrightarrow> fed_window cfg t st"
  by (auto simp: fed_window_def split: option.splits)

text \<open>A window that is current at a later time began before the earlier one: the two times share it.\<close>

lemma same_window:
  assumes "0 < fc_windowMs cfg" "t \<le> t'" "fed_window cfg t' st"
    "fed_started cfg t st"
  shows "js_floor (t' / fc_windowMs cfg) = js_floor (t / fc_windowMs cfg)"
proof -
  obtain ws where ws: "fd_windowStart st = Some ws" "t' < ws + fc_windowMs cfg" "ws \<le> t"
    using assms(3,4) by (auto simp: fed_window_def split: option.splits)
  obtain j :: int where j: "ws = of_int j * fc_windowMs cfg" using assms(4) ws(1) by auto
  then show ?thesis using window_over_iff[OF assms(1), of j t] window_over_iff[OF assms(1), of j t'] ws assms(2) by simp
qed

context region_authority
begin

lemma ensure_ok:
  assumes "ok now p" "0 < W" "fd_regionBudget st \<le> held now p (fc_region cfg)"
    "fed_ensure grant cfg n a c now (W, u) st p = (r, st', p')"
  shows "ok now p' \<and> (\<forall>k. held now p k \<le> held now p' k) \<and> fd_regionBudget st \<le> fd_regionBudget st' \<and>
    fd_regionBudget st' \<le> held now p' (fc_region cfg) \<and> st' = st\<lparr>fd_regionBudget := fd_regionBudget st'\<rparr>"
  using assms
proof (induction n arbitrary: st p)
  case 0
  then show ?case by simp
next
  case (Suc n)
  show ?case
  proof (cases "fd_regionBudget st \<ge> fc_L cfg \<or> fed_wouldAdmit st a c (W, u)")
    case True
    then show ?thesis using Suc.prems by simp
  next
    case False
    obtain res q where G: "grant p (fc_region cfg) (Num W) (fed_need cfg st a c (W, u)) now = (res, q)" by (metis prod.exhaust)
    note ok' = grant_ok[OF Suc.prems(1) order_refl G] and grows = grant_grows[OF Suc.prems(1) order_refl Suc.prems(2) G]
    show ?thesis
    proof (cases res)
      case (Inl e)
      then show ?thesis using Suc.prems False G ok' grows order_trans[OF Suc.prems(3) grows] by simp
    next
      case (Inr b)
      have b: "b = held now q (fc_region cfg)" by (rule grant_reply[OF Suc.prems(1) order_refl Suc.prems(2) G[unfolded Inr]])
      then have ge: "fd_regionBudget st \<le> b" using order_trans[OF Suc.prems(3) grows] by simp
      show ?thesis
      proof (cases "b \<le> fd_regionBudget st")
        case True
        then show ?thesis using Suc.prems False G Inr ok' grows b ge by auto
      next
        case strict: False
        have run: "fed_ensure grant cfg n a c now (W, u) (st\<lparr>fd_regionBudget := b\<rparr>) q = (r, st', p')"
          using Suc.prems(4) False G Inr strict by simp
        from Suc.IH[OF ok' Suc.prems(2) _ run] b ge grows show ?thesis by (auto intro: order_trans)
      qed
    qed
  qed
qed

lemma region_moves:
  assumes ok: "ok t p" "t \<le> now" and w: "0 < fc_windowMs cfg" "fc_windowMs cfg = window" and s: "region_ok held cfg t p st"
    and le: "held now p (fc_region cfg) \<le> held now p' (fc_region cfg)"
  shows "region_ok held cfg now p' st"
proof -
  have al: "fed_started cfg t st" using s by (simp add: region_ok_def)
  have "fed_used st \<le> fd_regionBudget st \<and> fd_regionBudget st \<le> held now p (fc_region cfg)" if cur: "fed_window cfg now st"
  proof -
    have "held now p (fc_region cfg) = held t p (fc_region cfg)"
      by (rule held_later[OF ok]) (use same_window[OF w(1) ok(2) cur al] w(2) in simp)
    then show ?thesis using s fed_window_past[OF cur ok(2)] by (simp add: region_ok_def)
  qed
  moreover have "fed_started cfg now st" using al ok(2) by (auto split: option.splits)
  ultimately show ?thesis using s le by (auto simp: region_ok_def)
qed

lemma region_rolled:
  assumes "ok now p" "0 < fc_windowMs cfg" "region_ok held cfg now p st"
  defines "s1 \<equiv> fed_rollWindow cfg now st"
  shows "fed_ok s1" "fed_used s1 = fed_now_used cfg now st" "fed_used s1 \<le> fd_regionBudget s1"
    "fd_regionBudget s1 \<le> held now p (fc_region cfg)" "fed_window cfg now s1" "fed_started cfg now s1"
  using assms held_nonneg[OF assms(1)] window_start_gt[OF assms(2), of now] window_start_le[OF assms(2), of now]
  by (auto simp: s1_def fed_roll_eq region_ok_def fed_now_used_def fed_window_def js_floor_def)

lemma check_sync_ok:
  assumes ok: "ok t p" "t \<le> now" and w: "0 < fc_windowMs cfg" "fc_windowMs cfg = window" and s: "region_ok held cfg t p st"
    and r: "fed_checkSync grant cfg st p now k cost = (res, st', p')"
  shows "ok now p'" "held now p i \<le> held now p' i" "region_ok held cfg now p' st'"
    "fed_now_used cfg now st' = fed_now_used cfg now st +
       (case res of Inl e \<Rightarrow> 0 | Inr d \<Rightarrow> if d_allowed d then (case cost of Num c \<Rightarrow> c | _ \<Rightarrow> 0) else 0)"
proof -
  define s1 where "s1 = fed_rollWindow cfg now st"
  have al: "fed_started cfg t st" and b: "fed_ok st" using s by (auto simp: region_ok_def)
  note okn = ok_later[OF ok]
  have moved: "region_ok held cfg now p st" by (rule region_moves[OF ok w s order_refl])
  note roll = region_rolled[OF okn w(1) moved, folded s1_def]
  have "ok now p' \<and> held now p i \<le> held now p' i \<and> region_ok held cfg now p' st' \<and> fed_now_used cfg now st' = fed_now_used cfg now st +
       (case res of Inl e \<Rightarrow> 0 | Inr d \<Rightarrow> if d_allowed d then (case cost of Num c \<Rightarrow> c | _ \<Rightarrow> 0) else 0)"
  proof (cases "fc_async cfg \<or> (\<exists>e. fed_validate cfg k cost = Inl e)")
    case True
    then show ?thesis using r okn moved by (auto simp: fed_checkSync_def split: if_splits)
  next
    case False
    then obtain cw where Inr: "fed_validate cfg k cost = Inr cw" and sync: "\<not> fc_async cfg" by (cases "fed_validate cfg k cost") auto
    obtain c v where cw: "cw = (c, v)" by (cases cw)
    have v: "cost = Num c" "0 < c" "0 < v"
      using Inr cw by (auto simp: fed_validate_def rbind_eq_Inr requireCost_Inr requirePositive_Inr split: if_splits)
    obtain a s2 where e: "fed_entry cfg st now k v = (a, s2)" by (metis prod.exhaust)
    note E = fed_entry_ok[OF b v(3) e, folded s1_def]
    obtain r2 s3 q where en: "fed_ensure grant cfg max_lease_iters a c now (fed_aggregate s2) s2 p = (r2, s3, q)" by (metis prod.exhaust)
    obtain kk where kk: "(kk, a) \<in> set (fd_tenants s2)" by (rule fed_activeE[OF E(2)])
    have W: "0 < wfe_sum te_weight (fd_heap s2) (fd_tenants s2)" by (rule fed_weight_pos[OF E(1) kk])
    note N = ensure_ok[OF okn W _ en[unfolded fed_aggregate_def]]
    have n: "ok now q" "\<And>k. held now p k \<le> held now q k" "fd_regionBudget s2 \<le> fd_regionBudget s3"
      "fd_regionBudget s3 \<le> held now q (fc_region cfg)" "s3 = s2\<lparr>fd_regionBudget := fd_regionBudget s3\<rparr>"
      using N E(4) roll(4) by auto
    define b3 where "b3 = fd_regionBudget s3"
    have s3eq: "s3 = s2\<lparr>fd_regionBudget := b3\<rparr>" using n(5) by (simp add: b3_def)
    have s3: "fed_ok s3" "fed_active s3 a" "fed_used s3 = fed_used s1" "fd_windowStart s3 = fd_windowStart s1"
      using E unfolding s3eq by simp_all
    show ?thesis
    proof (cases r2)
      case (Inl e)
      then show ?thesis
        using r Inr cw \<open>fed_entry cfg st now k v = (a, s2)\<close> en n s3 roll E(4)
        by (auto simp: fed_checkSync_def sync Let_def region_ok_def fed_now_used_def fed_window_def)
    next
      case r2: (Inr x)
      obtain d s4 where d: "fed_decide cfg s3 a c now (fed_aggregate s2) = (d, s4)" by (metis prod.exhaust)
      have agg: "fed_aggregate s2 = (fst (fed_aggregate s2), fed_used s3)" using s3(3) E(3) by (simp add: fed_aggregate_def)
      have "fed_decide cfg s3 a c now (fst (fed_aggregate s2), fed_used s3) = (d, s4)" using d by (simp only: agg[symmetric])
      note D = fed_decide_ok[OF s3(1,2) v(2) this]
      have fin: "res = Inr d" "st' = s4" "p' = q"
        using r Inr cw e en r2 d by (simp_all add: fed_checkSync_def sync Let_def)
      have "fed_used s4 \<le> fd_regionBudget s4" using D(2-4) s3(3) roll(3) E(4) n(3) by (cases "d_allowed d") auto
      then have "region_ok held cfg now q s4"
        using D(1,4,5) n(4) roll(6) s3(4) by (simp add: region_ok_def)
      moreover have "fed_window cfg now s4" using roll(5) D(5) s3(4) by (simp add: fed_window_def)
      then have "fed_now_used cfg now s4 = fed_now_used cfg now st + (if d_allowed d then c else 0)"
        using D(2) s3(3) roll(2) by (simp add: fed_now_used_def)
      ultimately show ?thesis using n(1,2) by (simp add: fin v(1))
    qed
  qed
  then show "ok now p'" "held now p i \<le> held now p' i" "region_ok held cfg now p' st'"
    "fed_now_used cfg now st' = fed_now_used cfg now st +
       (case res of Inl e \<Rightarrow> 0 | Inr d \<Rightarrow> if d_allowed d then (case cost of Num c \<Rightarrow> c | _ \<Rightarrow> 0) else 0)" by auto
qed

end

text \<open>The state of the whole: the pool is sound, and every region is within what the pool granted it.\<close>

definition regions_ok_on :: "(num \<Rightarrow> 'p \<Rightarrow> string \<Rightarrow> num) \<Rightarrow> (num \<Rightarrow> 'p \<Rightarrow> bool) \<Rightarrow> (string \<Rightarrow> fed_cfg) \<Rightarrow> num \<Rightarrow> (string \<Rightarrow> fed) \<times> 'p \<Rightarrow> bool" where
  "regions_ok_on held ok G t s \<longleftrightarrow> ok t (snd s) \<and> (\<forall>i. region_ok held (G i) t (snd s) (fst s i))"

definition fed_members :: "(string \<Rightarrow> fed_cfg) \<Rightarrow> num \<Rightarrow> bool" where
  "fed_members G w \<longleftrightarrow> 0 < w \<and> (\<forall>i. fc_region (G i) = i \<and> fc_windowMs (G i) = w)"

lemma fed_drop_ok:
  assumes "fed_ok st"
  shows "fed_ok (st\<lparr>fd_tenants := filter (\<lambda>(j, b). j \<noteq> k) (fd_tenants st)\<rparr>)"
    "fed_used (st\<lparr>fd_tenants := filter (\<lambda>(j, b). j \<noteq> k) (fd_tenants st)\<rparr>) \<le> fed_used st"
proof -
  show "fed_ok (st\<lparr>fd_tenants := filter (\<lambda>(j, b). j \<noteq> k) (fd_tenants st)\<rparr>)"
    using assms by (auto simp: fed_ok_def distinct_map_filter)
  show "fed_used (st\<lparr>fd_tenants := filter (\<lambda>(j, b). j \<noteq> k) (fd_tenants st)\<rparr>) \<le> fed_used st"
  proof (cases "map_of (fd_tenants st) k")
    case None
    then have "filter (\<lambda>(j, b). j \<noteq> k) (fd_tenants st) = fd_tenants st" by (force simp: filter_id_conv map_of_eq_None_iff)
    then show ?thesis by (simp add: fed_used_def)
  next
    case (Some a)
    then show ?thesis
      using wfe_sum_filter[OF map_of_SomeD[OF Some] fed_okD(1)[OF assms], of te_used "fd_heap st"]
        fed_okD(6)[OF assms map_of_SomeD[OF Some]] by (simp add: fed_used_def)
  qed
qed

context region_authority
begin

lemma exec_ok:
  assumes s: "regions_ok_on held ok G t s" and G: "fed_members G window" and t: "t \<le> fed_op_time op"
    and r: "fed_exec grant release G op s = (c, s')"
  shows "regions_ok_on held ok G (fed_op_time op) s'"
    "(\<And>i now k. op \<noteq> FedReset i now k) \<Longrightarrow> finite K \<Longrightarrow> (\<And>i now k x. op = FedCheck i now k x \<Longrightarrow> i \<in> K) \<Longrightarrow>
      (\<Sum>i\<in>K. fed_now_used (G i) (fed_op_time op) (fst s' i)) = (\<Sum>i\<in>K. fed_now_used (G i) (fed_op_time op) (fst s i)) + c"
proof -
  obtain F p where s0: "s = (F, p)" by (cases s)
  have ok: "ok t p" and F: "\<And>i. region_ok held (G i) t p (F i)" using s by (simp_all add: regions_ok_on_def s0)
  have g: "fc_region (G i) = i" "0 < fc_windowMs (G i)" "fc_windowMs (G i) = window" for i using G by (auto simp: fed_members_def)
  have "regions_ok_on held ok G (fed_op_time op) s' \<and> ((\<forall>i now k. op \<noteq> FedReset i now k) \<longrightarrow> finite K \<longrightarrow>
      (\<forall>i now k x. op = FedCheck i now k x \<longrightarrow> i \<in> K) \<longrightarrow>
      (\<Sum>i\<in>K. fed_now_used (G i) (fed_op_time op) (fst s' i)) = (\<Sum>i\<in>K. fed_now_used (G i) (fed_op_time op) (fst s i)) + c)"
  proof (cases op)
    case (FedCheck i now k cost)
    obtain res st' p' where chk: "fed_checkSync grant (G i) (F i) p now k cost = (res, st', p')" by (metis prod.exhaust)
    note C = check_sync_ok[OF ok t[unfolded FedCheck fed_op_time.simps] g(2,3) F chk]
    have s': "s' = (F(i := st'), p')"
      "c = (case res of Inl e \<Rightarrow> 0 | Inr d \<Rightarrow> if d_allowed d then (case cost of Num x \<Rightarrow> x | _ \<Rightarrow> 0) else 0)"
      using r chk by (auto simp: FedCheck s0)
    have "region_ok held (G j) now p' (F j)" if "j \<noteq> i" for j
      using region_moves[OF ok _ g(2,3) F C(2)] t FedCheck by (auto simp: g(1))
    then have "regions_ok_on held ok G now s'" using C(1,3) by (simp add: regions_ok_on_def s'(1))
    moreover have "(\<Sum>j\<in>K. fed_now_used (G j) now (fst s' j)) = (\<Sum>j\<in>K. fed_now_used (G j) now (F j)) + c" if "finite K" "i \<in> K"
    proof -
      have "(\<Sum>j\<in>K. fed_now_used (G j) now (fst s' j)) = fed_now_used (G i) now st' + (\<Sum>j\<in>K - {i}. fed_now_used (G j) now (F j))"
        unfolding sum.remove[OF that] by (simp add: s'(1))
      then show ?thesis using C(4) by (simp add: sum.remove[OF that] s'(2))
    qed
    ultimately show ?thesis by (simp add: FedCheck s0)
  next
    case (FedReset i now k)
    have tn: "t \<le> now" using t FedReset by simp
    note okn = ok_later[OF ok tn]
    have here: "region_ok held (G j) now p (F j)" for j by (rule region_moves[OF ok tn g(2,3) F order_refl])
    have "regions_ok_on held ok G now s'"
    proof (cases k)
      case None
      define p' where "p' = (if fd_windowStart (F i) \<noteq> None then release p (fc_region (G i)) now else p)"
      have s': "s' = (F(i := fed_clear None (F i)), p')" using r by (simp add: FedReset s0 fed_reset_def None p'_def)
      have p': "ok now p'" "\<And>j. j \<noteq> i \<Longrightarrow> held now p' j = held now p j"
        using okn release_ok[OF ok tn] release_others[OF ok tn] by (auto simp: p'_def g(1))
      have "region_ok held (G i) now p' (fed_clear None (F i))" by (simp add: region_ok_def fed_window_def)
      moreover have "region_ok held (G j) now p' (F j)" if "j \<noteq> i" for j
        using here[of j] p'(2)[OF that] by (simp add: region_ok_def g(1))
      ultimately show ?thesis using p'(1) by (simp add: regions_ok_on_def s')
    next
      case (Some n)
      have s': "s' = (F(i := F i\<lparr>fd_tenants := filter (\<lambda>(j, b). j \<noteq> n) (fd_tenants (F i))\<rparr>), p)"
        using r by (simp add: FedReset s0 fed_reset_def Some)
      have "region_ok held (G i) now p (F i\<lparr>fd_tenants := filter (\<lambda>(j, b). j \<noteq> n) (fd_tenants (F i))\<rparr>)"
        using here[of i] fed_drop_ok[of "F i" n] by (auto simp: region_ok_def fed_window_def)
      then show ?thesis using here okn by (simp add: regions_ok_on_def s')
    qed
    then show ?thesis by (simp add: FedReset)
  qed
  then show "regions_ok_on held ok G (fed_op_time op) s'"
    "(\<And>i now k. op \<noteq> FedReset i now k) \<Longrightarrow> finite K \<Longrightarrow> (\<And>i now k x. op = FedCheck i now k x \<Longrightarrow> i \<in> K) \<Longrightarrow>
      (\<Sum>i\<in>K. fed_now_used (G i) (fed_op_time op) (fst s' i)) = (\<Sum>i\<in>K. fed_now_used (G i) (fed_op_time op) (fst s i)) + c" by auto
qed

lemma used_le: 
  assumes "regions_ok_on held ok G t s" "fed_members G window" "finite K"
  shows "(\<Sum>i\<in>K. fed_now_used (G i) t (fst s i)) \<le> L"
proof -
  have "fed_now_used (G i) t (fst s i) \<le> held t (snd s) i" for i
    using assms(1,2) held_nonneg[of t "snd s" i]
    by (auto simp: regions_ok_on_def region_ok_def fed_now_used_def fed_members_def intro: order_trans)
  then have "(\<Sum>i\<in>K. fed_now_used (G i) t (fst s i)) \<le> (\<Sum>i\<in>K. held t (snd s) i)" by (intro sum_mono)
  also have "\<dots> \<le> L" using assms by (intro held_cap) (auto simp: regions_ok_on_def)
  finally show ?thesis .
qed

end

context region_authority
begin

lemma later_ok:
  assumes "regions_ok_on held ok G t s" "fed_members G window" "t \<le> now"
  shows "regions_ok_on held ok G now s"
  using assms region_moves[of t "snd s" now "G _" "fst s _" "snd s"] ok_later
  by (auto simp: regions_ok_on_def fed_members_def)

lemma run_ok:
  "regions_ok_on held ok G t s \<Longrightarrow> fed_members G window \<Longrightarrow> sorted (t # map fed_op_time ops) \<Longrightarrow>
   fed_run grant release G ops s = (c, s') \<Longrightarrow> \<forall>op\<in>set ops. fed_op_time op \<le> t' \<Longrightarrow> t \<le> t' \<Longrightarrow> regions_ok_on held ok G t' s'"
proof (induction ops arbitrary: t s c)
  case Nil
  then show ?case using later_ok by simp
next
  case (Cons op ops)
  obtain c1 s1 where E: "fed_exec grant release G op s = (c1, s1)" by (metis prod.exhaust)
  obtain c2 where R: "fed_run grant release G ops s1 = (c2, s')" using Cons.prems(4) E by (auto split: prod.splits)
  have "regions_ok_on held ok G (fed_op_time op) s1" by (rule exec_ok(1)[OF Cons.prems(1,2) _ E]) (use Cons.prems(3) in simp)
  then show ?case by (rule Cons.IH[OF _ Cons.prems(2) _ R]) (use Cons.prems in auto)
qed

lemma run_budget:
  assumes "fed_members G window" "finite K" "\<forall>op\<in>set ops. \<exists>i\<in>K. \<exists>u k x. op = FedCheck i u k x"
  shows "regions_ok_on held ok G now s \<Longrightarrow> sorted (now # map fed_op_time ops) \<Longrightarrow>
    \<forall>op\<in>set ops. js_floor (fed_op_time op / window) = js_floor (now / window) \<Longrightarrow>
    fst (fed_run grant release G ops s) + (\<Sum>i\<in>K. fed_now_used (G i) now (fst s i)) \<le> L"
  using assms(3)
proof (induction ops arbitrary: now s)
  case Nil
  then show ?case using used_le[OF Nil.prems(1) assms(1,2)] by simp
next
  case (Cons op ops)
  let ?u = "fed_op_time op"
  obtain i u k x where op: "op = FedCheck i u k x" "i \<in> K" using Cons.prems(4) by auto
  obtain c1 s1 where E: "fed_exec grant release G op s = (c1, s1)" by (metis prod.exhaust)
  have t: "now \<le> ?u" "js_floor (?u / window) = js_floor (now / window)" using Cons.prems(2,3) by auto
  note X = exec_ok[OF Cons.prems(1) assms(1) t(1) E]
  have sum: "(\<Sum>i\<in>K. fed_now_used (G i) ?u (fst s1 i)) = (\<Sum>i\<in>K. fed_now_used (G i) ?u (fst s i)) + c1"
    by (rule X(2)[OF _ assms(2)]) (use op in auto)
  have "fed_now_used (G j) ?u (fst s j) = fed_now_used (G j) now (fst s j)" for j
    using fed_window_later[of "G j" now ?u "fst s j"] t assms(1) Cons.prems(1)
    by (simp add: fed_now_used_def fed_members_def regions_ok_on_def region_ok_def)
  moreover have "fst (fed_run grant release G ops s1) + (\<Sum>i\<in>K. fed_now_used (G i) ?u (fst s1 i)) \<le> L"
    by (rule Cons.IH[OF X(1)]) (use Cons.prems t in auto)
  ultimately show ?case using sum by (cases "fed_run grant release G ops s1") (simp add: E)
qed

lemma window_budget:
  assumes G: "fed_members G window" and ok: "ok t p" and run: "fed_run grant release G ops (\<lambda>_. fed_new, p) = (c, s)"
    and sorted: "sorted (t # map fed_op_time (ops @ checks))"
    and checks: "\<forall>op\<in>set checks. (\<exists>i u k x. op = FedCheck i u k x) \<and> js_floor (fed_op_time op / window) = m"
  shows "fst (fed_run grant release G checks s) \<le> L"
proof (cases checks)
  case Nil
  have "0 \<le> L" using held_cap[OF ok, of "{}"] by simp
  then show ?thesis by (simp add: Nil)
next
  case (Cons op rest)
  let ?now = "fed_op_time op"
  define K where "K = {i. \<exists>u k x. FedCheck i u k x \<in> set checks}"
  have "K = (\<lambda>op. case op of FedCheck i u k x \<Rightarrow> i | FedReset i u k \<Rightarrow> i) ` {op \<in> set checks. \<exists>i u k x. op = FedCheck i u k x}"
    by (force simp: K_def image_iff)
  then have K: "finite K" by simp
  have mem: "\<forall>op\<in>set checks. \<exists>i\<in>K. \<exists>u k x. op = FedCheck i u k x" using checks unfolding K_def by fastforce
  have "regions_ok_on held ok G t (\<lambda>_. fed_new, p)"
    using ok by (simp add: regions_ok_on_def region_ok_def fed_new_def fed_ok_def fed_used_def fed_window_def)
  then have ok1: "regions_ok_on held ok G ?now s"
    by (rule run_ok[OF _ G _ run]) (use sorted in \<open>auto simp: Cons sorted_append\<close>)
  have "fst (fed_run grant release G checks s) + (\<Sum>i\<in>K. fed_now_used (G i) ?now (fst s i)) \<le> L"
    by (rule run_budget[OF G K mem ok1]) (use checks sorted in \<open>auto simp: Cons sorted_append\<close>)
  moreover have "0 \<le> (\<Sum>i\<in>K. fed_now_used (G i) ?now (fst s i))"
    using ok1 by (intro sum_nonneg) (auto simp: fed_now_used_def regions_ok_on_def region_ok_def fed_used_nonneg)
  ultimately show ?thesis by simp
qed

end

section \<open>Behaviours worth knowing\<close>

text \<open>
  A tenant that has borrowed past its share is never admitted again until the share grows: the borrow of a call
  is capped at its cost, but measured from the share, not from what the tenant already uses.
\<close>

lemma fed_over_share_denied:
  assumes "fed_share st (te_weight (fd_heap st ! a)) W < te_used (fd_heap st ! a)" "0 < cost"
  shows "\<not> fed_wouldAdmit st a cost (W, u)"
  using assms by (auto simp: fed_wouldAdmit_def Let_def)

text \<open>
  A light tenant next to an idle heavy one, in a region whose pool grants whatever it asks for: a request of
  cost 2 needs about a thousand rounds of leasing, the loop stops after 64, and the request is denied.
\<close>

definition light_st :: fed where
  "light_st = \<lparr>fd_windowStart = Some 0, fd_regionBudget = 0, fd_evictedUsed = 0,
     fd_heap = [\<lparr>te_weight = 1000, te_used = 0\<rparr>, \<lparr>te_weight = 1, te_used = 0\<rparr>], fd_tenants = [(''heavy'', 0), (''light'', 1)]\<rparr>"

lemma light_round:
  assumes "2 \<le> b" "b \<le> 900"
  shows "\<not> fed_wouldAdmit (light_st\<lparr>fd_regionBudget := of_int b\<rparr>) 1 2 (1001, 0)"
    "fc_L cfg = 10000 \<Longrightarrow> fed_need cfg (light_st\<lparr>fd_regionBudget := of_int b\<rparr>) 1 2 (1001, 0) = of_int (b + 1)"
proof -
  have "\<lfloor>1000 * of_int b / 1001 :: num\<rfloor> = b - 1" "\<lfloor>of_int b / 1001 :: num\<rfloor> = 0"
    using assms by (intro floor_unique; simp add: field_simps)+
  then have f: "js_floor (1000 * of_int b / 1001) = of_int b - 1" "js_floor (of_int b / 1001) = 0" by (simp_all add: js_floor_def)
  show "\<not> fed_wouldAdmit (light_st\<lparr>fd_regionBudget := of_int b\<rparr>) 1 2 (1001, 0)"
    using assms by (simp add: fed_wouldAdmit_def fed_reserve_def fed_share_def light_st_def Let_def f)
  show "fed_need cfg (light_st\<lparr>fd_regionBudget := of_int b\<rparr>) 1 2 (1001, 0) = of_int (b + 1)" if "fc_L cfg = 10000"
    using assms that by (simp add: fed_need_def fed_reserve_def fed_share_def light_st_def f)
qed

lemma light_rounds:
  assumes "fc_L cfg = 10000"
  shows "2 \<le> b \<Longrightarrow> b + int n \<le> 900 \<Longrightarrow>
    fed_ensure (\<lambda>p i w want now. (Inr want, p)) cfg n 1 2 now (1001, 0) (light_st\<lparr>fd_regionBudget := of_int b\<rparr>) p =
    (Inr (), light_st\<lparr>fd_regionBudget := of_int (b + int n)\<rparr>, p)"
proof (induction n arbitrary: b)
  case (Suc n)
  then have b: "b \<le> 900" by simp
  show ?case
    using light_round[OF Suc.prems(1) b] Suc.IH[of "b + 1"] Suc.prems assms by (simp add: algebra_simps)
qed simp

lemma light_tenant_denied:
  assumes "fc_L cfg = 10000"
  shows "fed_ensure (\<lambda>p i w want now. (Inr want, p)) cfg max_lease_iters 1 2 now (1001, 0) light_st p =
      (Inr (), light_st\<lparr>fd_regionBudget := 65\<rparr>, p)"
    "\<not> d_allowed (fst (fed_decide cfg (light_st\<lparr>fd_regionBudget := 65\<rparr>) 1 2 now (1001, 0)))"
proof -
  have M: "max_lease_iters = Suc 63" by (simp add: max_lease_iters_def)
  have "\<not> fed_wouldAdmit light_st 1 2 (1001, 0)" "fed_need cfg light_st 1 2 (1001, 0) = 2"
    using assms by (simp_all add: fed_wouldAdmit_def fed_need_def fed_reserve_def fed_share_def light_st_def Let_def)
  moreover have "fd_regionBudget light_st = 0" by (simp add: light_st_def)
  ultimately show "fed_ensure (\<lambda>p i w want now. (Inr want, p)) cfg max_lease_iters 1 2 now (1001, 0) light_st p =
      (Inr (), light_st\<lparr>fd_regionBudget := 65\<rparr>, p)"
    unfolding M fed_ensure.simps using light_rounds[OF assms, of 2 63 now p] assms by simp
  show "\<not> d_allowed (fst (fed_decide cfg (light_st\<lparr>fd_regionBudget := 65\<rparr>) 1 2 now (1001, 0)))"
    using light_round(1)[of 65] by (simp add: fed_decide_result)
qed

text \<open>A reset while a check waits for the pool detaches the check's entry: it is admitted and never counted.\<close>

lemma reset_during_lease_uncounted:
  assumes "fd_heap st ! a = \<lparr>te_weight = w, te_used = 0\<rparr>" "0 < cost" "cost \<le> b" "before < b"
    and st': "st' = fst (fed_reset release cfg st p now None)"
  shows "\<exists>d s. fed_async_reply cfg a cost now rounds before b st' = (FedDone d, s) \<and> d_allowed d \<and> fed_used s = 0"
proof -
  let ?s = "(fed_clear None st)\<lparr>fd_regionBudget := b\<rparr>"
  have agg: "fed_aggregate (fed_clear None st) = (0, 0)" by (simp add: fed_aggregate_def fed_used_def fed_clear_def)
  have w: "fed_wouldAdmit ?s a cost (0, 0)"
    using assms(1-3) by (simp add: fed_wouldAdmit_def Let_def fed_share_def fed_reserve_def fed_clear_def)
  obtain d s where d: "fed_decide cfg ?s a cost now (0, 0) = (d, s)" by (metis prod.exhaust)
  have "d_allowed d" "s = fed_applyUsed a cost ?s" using fed_decide_result[of cfg ?s a cost now "(0, 0)"] d w by auto
  moreover have "fed_used (fed_applyUsed a cost ?s) = 0" by (simp add: fed_used_def fed_applyUsed_def fed_clear_def)
  ultimately show ?thesis
    using assms(4) w d by (auto simp: st' fed_reset_def fed_async_reply_def fed_async_round_def agg)
qed

section \<open>Correctness\<close>

text \<open>
  A region over an asynchronous pool whose replies arrive before anything else happens decides exactly
  like one over the same pool called synchronously: same decisions, errors, region state and pool. (This
  is why the fresh rescans of the asynchronous loop may be replaced by one aggregate in the synchronous one.)
\<close>
theorem fed_async_conforms:
  "fed_check grant (cfg\<lparr>fc_async := True\<rparr>) st p now tenant cost = fed_check grant (cfg\<lparr>fc_async := False\<rparr>) st p now tenant cost"
  by (rule fed_async_eq)

text \<open>
  The global budget: any number of regions on one in-process pool, whatever checks and resets came before
  and however tenants come, go and are evicted, admit in one window credits of at most the pool's limit in
  total. (No region or tenant is reset during the window: a reset gives credits back by design.)
\<close>
theorem federated_global_cap:
  assumes "regionFairPool limit windowMs = Inr C" "fed_members G (pl_windowMs C)"
    and "fed_run (pool_grant C) (pool_release C) G ops (\<lambda>_. fed_new, pool_new) = (c, s)"
    and "sorted (map fed_op_time (ops @ checks))"
    and "\<forall>op\<in>set checks. (\<exists>i u k x. op = FedCheck i u k x) \<and> js_floor (fed_op_time op / pl_windowMs C) = m"
  shows "fst (fed_run (pool_grant C) (pool_release C) G checks s) \<le> pl_L C"
proof -
  define t where "t = Min (insert 0 (set (map fed_op_time (ops @ checks))))"
  have "pool_ok C t pool_new" using assms(1) by (auto simp: regionFairPool_def result_simps pool_ok_def pool_new_def)
  moreover have "sorted (t # map fed_op_time (ops @ checks))" using assms(4) by (auto simp: t_def)
  ultimately show ?thesis by (rule inproc.window_budget[OF assms(2) _ assms(3) _ assms(5)])
qed

definition members_ex :: "string \<Rightarrow> fed_cfg" where
  "members_ex i = \<lparr>fc_region = i, fc_L = 10, fc_windowMs = 1000, fc_weightOf = (\<lambda>_. Num 1), fc_maxKeys = None, fc_async = False\<rparr>"

definition checks_ex :: "fed_op list" where
  "checks_ex = [FedCheck ''us'' 2000 ''a'' (Num 4), FedCheck ''eu'' 2001 ''b'' (Num 9), FedCheck ''us'' 2002 ''c'' (Num 1)]"

lemma members_ex_ok: "fed_members members_ex 1000"
  by (simp add: fed_members_def members_ex_def)

theorem federated_global_cap_witness:
  "\<exists>c s. fed_run (pool_grant \<lparr>pl_L = 10, pl_windowMs = 1000\<rparr>) (pool_release \<lparr>pl_L = 10, pl_windowMs = 1000\<rparr>) members_ex
       [FedCheck ''us'' 5 ''a'' (Num 10), FedReset ''us'' 6 None] (\<lambda>_. fed_new, pool_new) = (c, s) \<and>
     fst (fed_run (pool_grant \<lparr>pl_L = 10, pl_windowMs = 1000\<rparr>) (pool_release \<lparr>pl_L = 10, pl_windowMs = 1000\<rparr>) members_ex checks_ex s) \<le> 10"
proof -
  let ?C = "\<lparr>pl_L = 10, pl_windowMs = 1000\<rparr> :: pool_cfg"
  have C: "regionFairPool (Num 10) (Num 1000) = Inr ?C" by (simp add: regionFairPool_def)
  obtain c s where run: "fed_run (pool_grant ?C) (pool_release ?C) members_ex
      [FedCheck ''us'' 5 ''a'' (Num 10), FedReset ''us'' 6 None] (\<lambda>_. fed_new, pool_new) = (c, s)" by (metis prod.exhaust)
  have "js_floor (2001 / 1000) = 2" "js_floor (1001 / 500) = 2" by (simp_all add: js_floor_def)
  then have "fst (fed_run (pool_grant ?C) (pool_release ?C) members_ex checks_ex s) \<le> pl_L ?C"
    by (intro federated_global_cap[OF C _ run, of checks_ex 2]) (simp_all add: members_ex_ok checks_ex_def)
  then show ?thesis using run by auto
qed

end
