(* ===== verification/RegionFleet.thy ===== *)
theory RegionFleet
  imports FedWfe
begin

text \<open>
  Regions of federated weighted fair escrow in separate processes, on a pool behind a network
  (\<open>twotier/federated-weighted-fair-escrow.ts\<close>, the asynchronous \<open>check\<close> and \<open>reset\<close>, over the Redis pool). A
  check suspends at every call of the pool, so its start, the execution of each call at the pool, the arrival of
  each reply, a reset and the execution of the release it sends are separate events, which interleave freely.
  The result: the credits all regions admit in a window never exceed the pool's limit, if no check waits for the
  pool across the start of the window and nothing is reset in it; a check that does wait across it breaks the
  bound.
\<close>

section \<open>The system\<close>

text \<open>
  A region runs one check at a time: \<open>checkChain\<close> starts a check when the one before it has settled. Beside the
  check that waits is the reply that is under way to it. \<open>sy_sent\<close> are the releases sent and not yet executed.
\<close>

record 'p fed_sys =
  sy_region :: "string \<Rightarrow> fed"
  sy_check :: "string \<Rightarrow> fed_await option"
  sy_reply :: "string \<Rightarrow> num result option"
  sy_sent :: "string list"
  sy_pool :: 'p

definition sys_new :: "'p \<Rightarrow> 'p fed_sys" where
  "sys_new p = \<lparr>sy_region = \<lambda>_. fed_new, sy_check = \<lambda>_. None, sy_reply = \<lambda>_. None, sy_sent = [], sy_pool = p\<rparr>"

text \<open>
  Events of a region, each at a time: the next check starts; the call of the check that waits is executed, with
  the fate \<open>l\<close> of the call; its reply arrives; a reset; a release is executed; the pool's
  store drops what has expired. An event that is not due changes nothing.
\<close>

datatype 'l fed_ev =
    EvStart string num string js_number
  | EvPool string num 'l
  | EvReply string num
  | EvReset string num "string option"
  | EvRelease string num 'l
  | EvLapse num

fun ev_time :: "'l fed_ev \<Rightarrow> num" where
  "ev_time (EvStart i now k cost) = now"
| "ev_time (EvPool i now l) = now"
| "ev_time (EvReply i now) = now"
| "ev_time (EvReset i now k) = now"
| "ev_time (EvRelease i now l) = now"
| "ev_time (EvLapse now) = now"

fun ev_region :: "'l fed_ev \<Rightarrow> string" where
  "ev_region (EvStart i now k cost) = i"
| "ev_region (EvPool i now l) = i"
| "ev_region (EvReply i now) = i"
| "ev_region (EvReset i now k) = i"
| "ev_region (EvRelease i now l) = i"
| "ev_region (EvLapse now) = []"

text \<open>The credits a step of a check of cost \<open>c\<close> admits, and the region after it.\<close>

fun fed_credit :: "num \<Rightarrow> fed_await \<Rightarrow> num" where
  "fed_credit c (FedDone d) = (if d_allowed d then c else 0)"
| "fed_credit c (FedAwait a c' now rounds W need before) = 0"

definition fed_settle :: "string \<Rightarrow> num \<Rightarrow> fed_await \<times> fed \<Rightarrow> 'p fed_sys \<Rightarrow> num \<times> 'p fed_sys" where
  "fed_settle i c r s =
     (fed_credit c (fst r),
      s\<lparr>sy_region := (sy_region s)(i := snd r),
        sy_check := (sy_check s)(i := case fst r of FedDone d \<Rightarrow> None | w \<Rightarrow> Some w),
        sy_reply := (sy_reply s)(i := None)\<rparr>)"

fun fed_event :: "('l \<Rightarrow> 'p grant) \<Rightarrow> ('l \<Rightarrow> 'p \<Rightarrow> string \<Rightarrow> num \<Rightarrow> 'p) \<Rightarrow> ('p \<Rightarrow> num \<Rightarrow> 'p) \<Rightarrow> (string \<Rightarrow> fed_cfg) \<Rightarrow> 'l fed_ev \<Rightarrow> 'p fed_sys \<Rightarrow>
    num \<times> 'p fed_sys" where
  "fed_event grant release lapse G (EvStart i now k cost) s =
     (case sy_check s i of
        Some w \<Rightarrow> (0, s)
      | None \<Rightarrow>
          (case fed_async_start (G i) (sy_region s i) now k cost of
             Inl e \<Rightarrow> (0, s)
           | Inr r \<Rightarrow> fed_settle i (case cost of Num c \<Rightarrow> c | _ \<Rightarrow> 0) r s))"
| "fed_event grant release lapse G (EvPool i now l) s =
     (case (sy_check s i, sy_reply s i) of
        (Some (FedAwait a c n rounds W need before), None) \<Rightarrow>
          (case grant l (sy_pool s) (fc_region (G i)) (Num W) need now of
             (res, p) \<Rightarrow> (0, s\<lparr>sy_reply := (sy_reply s)(i := Some res), sy_pool := p\<rparr>))
      | _ \<Rightarrow> (0, s))"
| "fed_event grant release lapse G (EvReply i now) s =
     (case (sy_check s i, sy_reply s i) of
        (Some (FedAwait a c n rounds W need before), Some (Inr b)) \<Rightarrow>
          fed_settle i c (fed_async_reply (G i) a c n rounds before b (sy_region s i)) s
      | (Some (FedAwait a c n rounds W need before), Some (Inl e)) \<Rightarrow> (0, s\<lparr>sy_check := (sy_check s)(i := None), sy_reply := (sy_reply s)(i := None)\<rparr>)
      | _ \<Rightarrow> (0, s))"
| "fed_event grant release lapse G (EvReset i now k) s =
     (let st = sy_region s i
      in (0, s\<lparr>sy_region := (sy_region s)(i := fst (fed_reset (\<lambda>u i t. u) (G i) st () now k)),
               sy_sent := (if k = None \<and> fd_windowStart st \<noteq> None then i # sy_sent s else sy_sent s)\<rparr>))"
| "fed_event grant release lapse G (EvRelease i now l) s =
     (if i \<in> set (sy_sent s)
      then (0, s\<lparr>sy_pool := release l (sy_pool s) (fc_region (G i)) now, sy_sent := remove1 i (sy_sent s)\<rparr>)
      else (0, s))"
| "fed_event grant release lapse G (EvLapse now) s = (0, s\<lparr>sy_pool := lapse (sy_pool s) now\<rparr>)"

fun fed_events :: "('l \<Rightarrow> 'p grant) \<Rightarrow> ('l \<Rightarrow> 'p \<Rightarrow> string \<Rightarrow> num \<Rightarrow> 'p) \<Rightarrow> ('p \<Rightarrow> num \<Rightarrow> 'p) \<Rightarrow> (string \<Rightarrow> fed_cfg) \<Rightarrow> 'l fed_ev list \<Rightarrow> 'p fed_sys \<Rightarrow>
    num \<times> 'p fed_sys" where
  "fed_events grant release lapse G [] s = (0, s)"
| "fed_events grant release lapse G (ev # evs) s =
     (case fed_event grant release lapse G ev s of (c, s1) \<Rightarrow> (case fed_events grant release lapse G evs s1 of (cs, s2) \<Rightarrow> (c + cs, s2)))"

text \<open>No check waits and no release is under way.\<close>

definition sys_quiet :: "'p fed_sys \<Rightarrow> bool" where
  "sys_quiet s \<longleftrightarrow> (\<forall>i. sy_check s i = None) \<and> sy_sent s = []"

lemma event_check_other: "i \<noteq> ev_region ev \<Longrightarrow> sy_check (snd (fed_event grant release lapse G ev s)) i = sy_check s i"
  by (cases ev) (auto simp: fed_settle_def Let_def split: option.split sum.split fed_await.split prod.split)

lemma events_check_other:
  "i \<notin> ev_region ` set evs \<Longrightarrow> fed_events grant release lapse G evs s = (c, s') \<Longrightarrow> sy_check s' i = sy_check s i"
proof (induction evs arbitrary: s c)
  case (Cons ev evs)
  obtain c1 s1 where e: "fed_event grant release lapse G ev s = (c1, s1)" by (rule prod.exhaust)
  then show ?case
    using Cons.IH[of s1] Cons.prems event_check_other[of i ev grant release lapse G s] by (auto split: prod.splits)
qed simp

section \<open>One round of a check\<close>

lemma fed_applyUsed_any: "fed_ok st \<Longrightarrow> 0 < c \<Longrightarrow> fed_ok (fed_applyUsed a c st)"
proof -
  assume ok: "fed_ok st" and c: "0 < c"
  have "b < length ((fd_heap st)[a := (fd_heap st ! a)\<lparr>te_used := te_used (fd_heap st ! a) + c\<rparr>]) \<and>
      0 < te_weight ((fd_heap st)[a := (fd_heap st ! a)\<lparr>te_used := te_used (fd_heap st ! a) + c\<rparr>] ! b) \<and>
      0 \<le> te_used ((fd_heap st)[a := (fd_heap st ! a)\<lparr>te_used := te_used (fd_heap st ! a) + c\<rparr>] ! b)"
    if "(j, b) \<in> set (fd_tenants st)" for j b
    using that fed_okD(4-6)[OF ok that] c by (cases "b = a") auto
  then show ?thesis using ok by (auto simp: fed_ok_def fed_applyUsed_def)
qed

lemma fed_round_any:
  assumes "fed_ok st" "0 < c" "fed_async_round cfg n a c now st = (w, st')"
  shows "fed_ok st'" "fd_windowStart st' = fd_windowStart st" "w = FedAwait a' c' n' r W need b \<Longrightarrow> c' = c"
  using assms fed_decide_result[of cfg st a c now "fed_aggregate st"] fed_applyUsed_any[OF assms(1,2), of a]
  by (auto simp: fed_async_round_def fed_applyUsed_def split: if_splits prod.splits)

lemma fed_round_ok:
  assumes ok: "fed_ok st" "fed_active st a" and c: "0 < c" and u: "fed_used st \<le> fd_regionBudget st"
    and r: "fed_async_round cfg n a c now st = (w, st')"
  shows "fed_ok st'" "fd_regionBudget st' = fd_regionBudget st" "fd_windowStart st' = fd_windowStart st"
    "fed_used st' \<le> fd_regionBudget st" "fed_used st' = fed_used st + fed_credit c w"
    "w = FedAwait a' c' n' k W need b \<Longrightarrow> a' = a \<and> c' = c \<and> st' = st \<and> 0 < W \<and> b = fd_regionBudget st"
proof -
  let ?done = "n = 0 \<or> fd_regionBudget st \<ge> fc_L cfg \<or> fed_wouldAdmit st a c (fed_aggregate st)"
  have "fed_ok st' \<and> fd_regionBudget st' = fd_regionBudget st \<and> fd_windowStart st' = fd_windowStart st \<and>
    fed_used st' \<le> fd_regionBudget st \<and> fed_used st' = fed_used st + fed_credit c w \<and>
    (\<forall>a' c' n' k W need b. w = FedAwait a' c' n' k W need b \<longrightarrow> a' = a \<and> c' = c \<and> st' = st \<and> 0 < W \<and> b = fd_regionBudget st)"
  proof (cases ?done)
    case True
    obtain d s where d: "fed_decide cfg st a c now (fed_aggregate st) = (d, s)" by (metis prod.exhaust)
    note D = fed_decide_ok[OF ok c d[unfolded fed_aggregate_def]]
    have "w = FedDone d" "st' = s" using r True d by (auto simp: fed_async_round_def)
    then show ?thesis using D u by auto
  next
    case False
    obtain k where k: "(k, a) \<in> set (fd_tenants st)" by (rule fed_activeE[OF ok(2)])
    have "0 < fst (fed_aggregate st)" using fed_weight_pos[OF ok(1) k] by (simp add: fed_aggregate_def)
    then show ?thesis using r False ok u by (auto simp: fed_async_round_def)
  qed
  then show "fed_ok st'" "fd_regionBudget st' = fd_regionBudget st" "fd_windowStart st' = fd_windowStart st"
    "fed_used st' \<le> fd_regionBudget st" "fed_used st' = fed_used st + fed_credit c w"
    "w = FedAwait a' c' n' k W need b \<Longrightarrow> a' = a \<and> c' = c \<and> st' = st \<and> 0 < W \<and> b = fd_regionBudget st" by auto
qed

section \<open>Invariants\<close>

text \<open>What holds at every time: the pool and the regions are sound. After it, what holds within a window: every
  region is within what the pool granted it, and a check that waits has its entry in the region's window.\<close>

definition sys_base :: "(num \<Rightarrow> 'p \<Rightarrow> bool) \<Rightarrow> (string \<Rightarrow> fed_cfg) \<Rightarrow> num \<Rightarrow> 'p fed_sys \<Rightarrow> bool" where
  "sys_base ok G t s \<longleftrightarrow> ok t (sy_pool s) \<and>
     (\<forall>i. fed_ok (sy_region s i) \<and> fed_started (G i) t (sy_region s i) \<and>
          (\<forall>a c n r W need b. sy_check s i = Some (FedAwait a c n r W need b) \<longrightarrow> 0 < c))"

definition waits_ok :: "(num \<Rightarrow> 'p \<Rightarrow> string \<Rightarrow> num) \<Rightarrow> fed_cfg \<Rightarrow> num \<Rightarrow> 'p \<Rightarrow> fed \<Rightarrow> fed_await option \<Rightarrow> num result option \<Rightarrow> bool" where
  "waits_ok held cfg t p st w rep \<longleftrightarrow>
     (\<forall>a c n r W need b. w = Some (FedAwait a c n r W need b) \<longrightarrow>
        fed_active st a \<and> 0 < c \<and> 0 < W \<and> b = fd_regionBudget st \<and> fed_window cfg t st \<and>
        (\<forall>g. rep = Some (Inr g) \<longrightarrow> b \<le> g \<and> g \<le> held t p (fc_region cfg)))"

definition sys_ok :: "(num \<Rightarrow> 'p \<Rightarrow> string \<Rightarrow> num) \<Rightarrow> (num \<Rightarrow> 'p \<Rightarrow> bool) \<Rightarrow> (string \<Rightarrow> fed_cfg) \<Rightarrow> num \<Rightarrow> 'p fed_sys \<Rightarrow> bool" where
  "sys_ok held ok G t s \<longleftrightarrow> ok t (sy_pool s) \<and> sy_sent s = [] \<and>
     (\<forall>i. region_ok held (G i) t (sy_pool s) (sy_region s i) \<and>
          waits_ok held (G i) t (sy_pool s) (sy_region s i) (sy_check s i) (sy_reply s i))"

lemma fed_started_later: "fed_started cfg t st \<Longrightarrow> t \<le> t' \<Longrightarrow> fed_started cfg t' st"
  by (auto split: option.splits)

text \<open>The start of a check: its entry is in the rolled region, and the first round is taken.\<close>

lemma fed_start_cases:
  assumes "fed_async_start cfg st now k cost = Inr r" "fed_ok st"
  obtains a c v s2 where "cost = Num c" "0 < c" "r = fed_async_round cfg max_lease_iters a c now s2" "fed_ok s2" "fed_active s2 a"
    "fed_used s2 = fed_used (fed_rollWindow cfg now st)" "fd_regionBudget s2 = fd_regionBudget (fed_rollWindow cfg now st)"
    "fd_windowStart s2 = fd_windowStart (fed_rollWindow cfg now st)"
proof -
  obtain c v where cw: "fed_validate cfg k cost = Inr (c, v)"
    using assms(1) by (cases "fed_validate cfg k cost") (auto simp: fed_async_start_def)
  then have v: "cost = Num c" "0 < c" "0 < v"
    by (auto simp: fed_validate_def rbind_eq_Inr requireCost_Inr requirePositive_Inr split: if_splits)
  obtain a s2 where e: "fed_entry cfg st now k v = (a, s2)" by (metis prod.exhaust)
  show thesis
    by (rule that[OF v(1,2) _ fed_entry_ok[OF assms(2) v(3) e]]) (use assms(1) cw e in \<open>simp add: fed_async_start_def\<close>)
qed

lemma fed_rolled_started: "0 < fc_windowMs cfg \<Longrightarrow> fed_started cfg now st \<Longrightarrow> fed_started cfg now (fed_rollWindow cfg now st)"
  using window_start_le[of "fc_windowMs cfg" now] by (auto simp: fed_roll_eq js_floor_def)

lemma fed_reset_ok:
  assumes "fed_ok st" "fed_started cfg t st"
  shows "fed_ok (fst (fed_reset release cfg st p now k))" "fed_started cfg t (fst (fed_reset release cfg st p now k))"
  using assms fed_drop_ok(1)[OF assms(1)] by (cases k; simp add: fed_reset_def)+

context region_service
begin

lemma settle_base:
  assumes "sys_base ok G t s" "fed_ok st" "fed_started (G i) t st"
    "\<And>a c n r W need b. w = FedAwait a c n r W need b \<Longrightarrow> 0 < c"
  shows "sys_base ok G t (snd (fed_settle i x (w, st) s))"
  using assms by (auto simp: sys_base_def fed_settle_def split: fed_await.splits)

lemma event_base:
  assumes b: "sys_base ok G t s" and t: "t \<le> ev_time ev" and G: "fed_members G window"
  shows "sys_base ok G (ev_time ev) (snd (fed_event grant release lapse G ev s))"
proof -
  note okt = call.ok_later[of t "sy_pool s" "ev_time ev"]
  have now: "sys_base ok G (ev_time ev) s"
    using b t okt fed_started_later[OF _ t] by (auto simp: sys_base_def)
  then have r: "fed_ok (sy_region s i)" "fed_started (G i) (ev_time ev) (sy_region s i)"
    "sy_check s i = Some (FedAwait a c n r W need b) \<Longrightarrow> 0 < c" for i a c n r W need b
    unfolding sys_base_def by blast+
  have w: "0 < fc_windowMs (G i)" for i using G by (simp add: fed_members_def)
  show ?thesis
  proof (cases ev)
    case (EvStart i u k cost)
    show ?thesis
    proof (cases "sy_check s i = None \<and> (\<exists>r. fed_async_start (G i) (sy_region s i) u k cost = Inr r)")
      case True
      then obtain x where x: "fed_async_start (G i) (sy_region s i) u k cost = Inr x" by blast
      obtain a c v s2 where s2: "0 < c" "x = fed_async_round (G i) max_lease_iters a c u s2" "fed_ok s2"
        "fd_windowStart s2 = fd_windowStart (fed_rollWindow (G i) u (sy_region s i))"
        using fed_start_cases[OF x r(1)] by metis
      obtain w' st' where x2: "x = (w', st')" by (cases x)
      note R = fed_round_any[OF s2(3,1) s2(2)[unfolded x2, symmetric]]
      have "fed_started (G i) u st'"
        using fed_rolled_started[OF w r(2)[unfolded EvStart ev_time.simps]] R(2) s2(4) by simp
      then have "sys_base ok G u (snd (fed_settle i c' (w', st') s))" for c'
        using now R(1,3) s2(1) by (intro settle_base) (auto simp: EvStart)
      then show ?thesis using True x by (simp add: EvStart x2)
    qed (use now in \<open>auto simp: EvStart split: option.split sum.split\<close>)
  next
    case (EvPool i u l)
    have "sys_base ok G u (s\<lparr>sy_reply := rep, sy_pool := p\<rparr>)"
      if "grant l (sy_pool s) (fc_region (G i)) (Num W) need u = (res, p)" for W need res p rep
      using now call.grant_ok[OF _ order_refl that] by (simp add: sys_base_def EvPool)
    then show ?thesis using now by (auto simp: EvPool split: option.split fed_await.split prod.split)
  next
    case (EvReply i u)
    have "sys_base ok G u (snd (fed_settle i c (fed_async_reply (G i) a c n rounds b g (sy_region s i)) s))"
      if wt: "sy_check s i = Some (FedAwait a c n rounds W need b)" for a c n rounds W need b g
    proof -
      obtain w' st' where x: "fed_async_reply (G i) a c n rounds b g (sy_region s i) = (w', st')" by (metis prod.exhaust)
      note R = fed_round_any[OF _ r(3)[OF wt] x[unfolded fed_async_reply_def]]
      show ?thesis unfolding x
        by (rule settle_base) (use now r(1)[of i] R r(2)[of i, unfolded EvReply ev_time.simps] r(3)[OF wt] in \<open>auto simp: EvReply\<close>)
    qed
    moreover have "sys_base ok G u (s\<lparr>sy_check := (sy_check s)(i := None), sy_reply := rep\<rparr>)" for rep
      using now by (auto simp: sys_base_def EvReply)
    ultimately show ?thesis using now by (auto simp: EvReply split: option.split fed_await.split sum.split)
  next
    case (EvReset i u k)
    have "sys_base ok G u (s\<lparr>sy_region := (sy_region s)(i := fst (fed_reset (\<lambda>u i t. u) (G i) (sy_region s i) () u k)), sy_sent := q\<rparr>)" for q
      using now fed_reset_ok[OF r(1) r(2)[unfolded EvReset ev_time.simps]] by (auto simp: sys_base_def EvReset)
    then show ?thesis by (simp add: EvReset Let_def)
  next
    case (EvRelease i u l)
    have "ok u (release l (sy_pool s) (fc_region (G i)) u)"
      using now by (intro call.release_ok[of u]) (simp_all add: sys_base_def EvRelease)
    then show ?thesis using now by (simp add: sys_base_def EvRelease)
  next
    case (EvLapse u)
    then show ?thesis using now lapse_ok by (simp add: sys_base_def)
  qed
qed

text \<open>Within a window, at a later time nothing has changed.\<close>

lemma sys_later:
  assumes s: "sys_ok held ok G t s" and G: "fed_members G window" and t: "t \<le> u" "js_floor (u / window) = js_floor (t / window)"
  shows "sys_ok held ok G u s" "fed_now_used (G i) u (sy_region s i) = fed_now_used (G i) t (sy_region s i)"
proof -
  have g: "0 < fc_windowMs (G i)" "fc_windowMs (G i) = window" "fc_region (G i) = i" for i using G by (auto simp: fed_members_def)
  have o: "ok t (sy_pool s)" and R: "region_ok held (G i) t (sy_pool s) (sy_region s i)"
    and W: "waits_ok held (G i) t (sy_pool s) (sy_region s i) (sy_check s i) (sy_reply s i)" for i
    using s by (auto simp: sys_ok_def)
  have st: "fed_started (G i) t (sy_region s i)" for i using R[of i] by (simp add: region_ok_def)
  have fw: "fed_window (G i) u (sy_region s i) = fed_window (G i) t (sy_region s i)" for i
    by (rule fed_window_later[OF g(1) t(1) _ st]) (use t(2) g(2) in simp)
  have h: "held u (sy_pool s) k = held t (sy_pool s) k" for k by (rule call.held_later[OF o t])
  have "region_ok held (G i) u (sy_pool s) (sy_region s i)" for i
    by (rule call.region_moves[OF o t(1) g(1,2) R order_refl])
  moreover have "waits_ok held (G i) u (sy_pool s) (sy_region s i) (sy_check s i) (sy_reply s i)" for i
    using W[of i] unfolding waits_ok_def fw h .
  ultimately show "sys_ok held ok G u s" using call.ok_later[OF o t(1)] s by (auto simp: sys_ok_def)
  show "fed_now_used (G i) u (sy_region s i) = fed_now_used (G i) t (sy_region s i)" by (simp add: fed_now_used_def fw)
qed

text \<open>A round of the check of region \<open>i\<close>, in the current window.\<close>

lemma round_settles:
  assumes s: "sys_ok held ok G u s" and i: "fc_region (G i) = i"
    and st: "fed_ok st" "fed_active st a" "fed_used st \<le> fd_regionBudget st" "fd_regionBudget st \<le> held u (sy_pool s) i"
      "fed_window (G i) u st" "fed_started (G i) u st"
    and c: "0 < c" and x: "fed_async_round (G i) n a c now st = x"
  shows "sys_ok held ok G u (snd (fed_settle i c x s))"
    "fed_now_used (G i) u (snd x) = fed_used st + fst (fed_settle i c x s)"
proof -
  obtain w st' where x': "x = (w, st')" by (cases x)
  note R = fed_round_ok[OF st(1,2) c st(3) x[unfolded x']]
  have win: "fed_window (G i) u st'" using st(5) R(3) by (simp add: fed_window_def)
  have "region_ok held (G i) u (sy_pool s) st'" using R(1-4) st(4,6) i by (simp add: region_ok_def)
  moreover have "waits_ok held (G i) u (sy_pool s) st' (case w of FedDone d \<Rightarrow> None | w \<Rightarrow> Some w) None"
    using R(2,6) st(2) c win by (auto simp: waits_ok_def split: fed_await.splits)
  ultimately show "sys_ok held ok G u (snd (fed_settle i c x s))" using s by (auto simp: sys_ok_def fed_settle_def x')
  show "fed_now_used (G i) u (snd x) = fed_used st + fst (fed_settle i c x s)"
    using R(5) win by (simp add: fed_now_used_def fed_settle_def x')
qed

lemma event_ok:
  assumes s: "sys_ok held ok G (ev_time ev) s" and G: "fed_members G window" and nr: "\<And>i u k. ev \<noteq> EvReset i u k"
    and e: "fed_event grant release lapse G ev s = (c, s')"
  shows "sys_ok held ok G (ev_time ev) s'"
    "fed_now_used (G j) (ev_time ev) (sy_region s' j) =
       fed_now_used (G j) (ev_time ev) (sy_region s j) + (if j = ev_region ev then c else 0)"
proof -
  have g: "0 < fc_windowMs (G i)" "fc_windowMs (G i) = window" "fc_region (G i) = i" for i using G by (auto simp: fed_members_def)
  have o: "ok (ev_time ev) (sy_pool s)" and R: "region_ok held (G i) (ev_time ev) (sy_pool s) (sy_region s i)"
    and W: "waits_ok held (G i) (ev_time ev) (sy_pool s) (sy_region s i) (sy_check s i) (sy_reply s i)" for i
    using s by (auto simp: sys_ok_def)
  let ?goal = "sys_ok held ok G (ev_time ev) s' \<and> fed_now_used (G j) (ev_time ev) (sy_region s' j) =
       fed_now_used (G j) (ev_time ev) (sy_region s j) + (if j = ev_region ev then c else 0)"
  have idle: ?goal if "s' = s" "c = 0" using s that by simp
  have ?goal
  proof (cases ev)
    case (EvStart i u k cost)
    show ?thesis
    proof (cases "sy_check s i = None \<and> (\<exists>r. fed_async_start (G i) (sy_region s i) u k cost = Inr r)")
      case True
      then obtain x where x: "fed_async_start (G i) (sy_region s i) u k cost = Inr x" by blast
      have ok: "fed_ok (sy_region s i)" using R[of i] by (simp add: region_ok_def)
      obtain a q v s2 where s2: "cost = Num q" "0 < q" "x = fed_async_round (G i) max_lease_iters a q u s2" "fed_ok s2" "fed_active s2 a"
        "fed_used s2 = fed_used (fed_rollWindow (G i) u (sy_region s i))"
        "fd_regionBudget s2 = fd_regionBudget (fed_rollWindow (G i) u (sy_region s i))"
        "fd_windowStart s2 = fd_windowStart (fed_rollWindow (G i) u (sy_region s i))"
        by (rule fed_start_cases[OF x ok])
      note roll = call.region_rolled[OF o[unfolded EvStart ev_time.simps] g(1) R[of i, unfolded EvStart ev_time.simps]]
      note S = round_settles[OF s[unfolded EvStart ev_time.simps] g(3) s2(4,5) _ _ _ _ s2(2) s2(3)[symmetric]]
      have "sys_ok held ok G u (snd (fed_settle i q x s))"
        "fed_now_used (G i) u (snd x) = fed_used s2 + fst (fed_settle i q x s)"
        by (rule S; use roll s2(6-8) g(3) in \<open>simp add: fed_window_def\<close>)+
      moreover have "(c, s') = fed_settle i q x s" using e True x s2(1) by (simp add: EvStart)
      ultimately show ?thesis using roll(2) s2(6) by (auto simp: EvStart fed_settle_def)
    next
      case False
      then show ?thesis using e by (intro idle) (auto simp: EvStart split: option.splits sum.splits)
    qed
  next
    case (EvPool i u l)
    show ?thesis
    proof (cases "\<exists>a q n r w need b. sy_check s i = Some (FedAwait a q n r w need b) \<and> sy_reply s i = None")
      case True
      then obtain a q n r w need b where wt: "sy_check s i = Some (FedAwait a q n r w need b)" "sy_reply s i = None" by blast
      obtain res p where G': "grant l (sy_pool s) i (Num w) need u = (res, p)" by (metis prod.exhaust)
      have s': "s' = s\<lparr>sy_reply := (sy_reply s)(i := Some res), sy_pool := p\<rparr>" "c = 0" using e wt G' by (simp_all add: EvPool g(3))
      have w: "0 < w" "b = fd_regionBudget (sy_region s i)" "fed_window (G i) u (sy_region s i)"
        using W[of i] wt by (auto simp: waits_ok_def EvPool)
      have ou: "ok u (sy_pool s)" using o by (simp add: EvPool)
      note P = call.grant_ok[OF ou order_refl G'] call.grant_reply[OF ou order_refl w(1)] call.grant_grows[OF ou order_refl w(1) G']
      have "b \<le> held u (sy_pool s) i" using R[of i] w by (simp add: region_ok_def EvPool g(3))
      then have rep: "b \<le> x \<and> x \<le> held u p i" if "res = Inr x" for x
        using P(2)[OF G'[unfolded that]] P(3)[of i] by simp
      have "region_ok held (G h) u p (sy_region s h)" for h
        by (rule call.region_moves[OF ou order_refl g(1,2) R[of h, unfolded EvPool ev_time.simps]]) (simp add: P(3))
      moreover have "waits_ok held (G h) u p (sy_region s h) (sy_check s h) (((sy_reply s)(i := Some res)) h)" for h
        using W[of h] rep P(3)[of h] wt by (cases "h = i") (fastforce simp: waits_ok_def EvPool g(3))+
      ultimately show ?thesis using P(1) s by (simp add: s' sys_ok_def EvPool)
    next
      case False
      then show ?thesis using e by (intro idle) (auto simp: EvPool split: option.splits fed_await.splits prod.splits)
    qed
  next
    case (EvReply i u)
    show ?thesis
    proof (cases "\<exists>a q n r w need b. sy_check s i = Some (FedAwait a q n r w need b)")
      case True
      then obtain a q n r w need b where wt: "sy_check s i = Some (FedAwait a q n r w need b)" by blast
      have wi: "fed_active (sy_region s i) a" "0 < q" "b = fd_regionBudget (sy_region s i)" "fed_window (G i) u (sy_region s i)"
        "\<And>x. sy_reply s i = Some (Inr x) \<Longrightarrow> b \<le> x \<and> x \<le> held u (sy_pool s) i"
        using W[of i] wt by (auto simp: waits_ok_def EvReply g(3))
      have ri: "fed_ok (sy_region s i)" "fed_used (sy_region s i) \<le> b" "fed_started (G i) u (sy_region s i)"
        using R[of i] wi(3,4) by (simp_all add: region_ok_def EvReply)
      consider "sy_reply s i = None" | y where "sy_reply s i = Some (Inl y)" | x where "sy_reply s i = Some (Inr x)"
        by (metis option.exhaust sum.exhaust)
      then show ?thesis
      proof cases
        case 1
        then show ?thesis using e wt by (intro idle) (simp_all add: EvReply)
      next
        case 2
        then have "s' = s\<lparr>sy_check := (sy_check s)(i := None), sy_reply := (sy_reply s)(i := None)\<rparr>" "c = 0"
          using e wt by (simp_all add: EvReply)
        then show ?thesis using s by (auto simp: sys_ok_def waits_ok_def EvReply)
      next
        case (3 x)
        let ?st = "sy_region s i\<lparr>fd_regionBudget := x\<rparr>"
        have S: "sys_ok held ok G u (snd (fed_settle i q y s))" "fed_now_used (G i) u (snd y) = fed_used ?st + fst (fed_settle i q y s)"
          if "fed_async_round (G i) m a q n ?st = y" for m y
          by (rule round_settles[OF s[unfolded EvReply ev_time.simps] g(3) _ _ _ _ _ _ wi(2) that];
              use ri wi 3 in \<open>simp add: fed_window_def\<close>)+
        have "(c, s') = fed_settle i q (fed_async_reply (G i) a q n r b x (sy_region s i)) s" using e wt 3 by (simp add: EvReply)
        moreover have "fed_now_used (G i) u (sy_region s i) = fed_used ?st" using wi(4) by (simp add: fed_now_used_def)
        ultimately show ?thesis using S[OF refl] by (auto simp: EvReply fed_async_reply_def fed_settle_def)
      qed
    next
      case False
      then show ?thesis using e by (intro idle) (auto simp: EvReply split: option.splits fed_await.splits sum.splits)
    qed
  next
    case (EvReset i u k)
    then show ?thesis using nr by blast
  next
    case (EvRelease i u l)
    then show ?thesis using e s by (intro idle) (auto simp: sys_ok_def)
  next
    case (EvLapse u)
    have "ok u (sy_pool s)" using o by (simp add: EvLapse)
    note P = lapse_ok[OF this] lapse_held[OF this]
    have "s' = s\<lparr>sy_pool := lapse (sy_pool s) u\<rparr>" "c = 0" using e by (simp_all add: EvLapse)
    then show ?thesis using s P by (simp add: EvLapse sys_ok_def region_ok_def waits_ok_def)
  qed
  then show "sys_ok held ok G (ev_time ev) s'" "fed_now_used (G j) (ev_time ev) (sy_region s' j) =
       fed_now_used (G j) (ev_time ev) (sy_region s j) + (if j = ev_region ev then c else 0)" by auto
qed

text \<open>Runs: any events to reach the window, then the window's own.\<close>

lemma events_base:
  "sys_base ok G t s \<Longrightarrow> sorted (t # map ev_time evs) \<Longrightarrow> fed_members G window \<Longrightarrow> \<forall>ev\<in>set evs. ev_time ev \<le> u \<Longrightarrow> t \<le> u \<Longrightarrow>
   fed_events grant release lapse G evs s = (c, s') \<Longrightarrow> \<exists>t'\<le>u. sys_base ok G t' s' \<and> (evs = [] \<longrightarrow> t' = t) \<and> (evs \<noteq> [] \<longrightarrow> t' = ev_time (last evs))"
proof (induction evs arbitrary: t s c)
  case (Cons ev evs)
  obtain c1 s1 where e: "fed_event grant release lapse G ev s = (c1, s1)" by (metis prod.exhaust)
  obtain c2 where R: "fed_events grant release lapse G evs s1 = (c2, s')" using Cons.prems(6) e by (auto split: prod.splits)
  have "sys_base ok G (ev_time ev) s1" using event_base[OF Cons.prems(1) _ Cons.prems(3)] Cons.prems(2) e by (metis list.set_intros(1) list.simps(9) snd_conv sorted_simps(2))
  from Cons.IH[OF this _ Cons.prems(3) _ _ R] show ?case using Cons.prems(2,4) by auto
qed auto

lemma window_opens:
  assumes s: "sys_base ok G t s" "sys_quiet s" and G: "fed_members G window" and t: "t \<le> u" "js_floor (t / window) < js_floor (u / window)"
  shows "sys_ok held ok G u s" "fed_now_used (G i) u (sy_region s i) = 0"
proof -
  have g: "0 < fc_windowMs (G i)" "fc_windowMs (G i) = window" for i using G by (auto simp: fed_members_def)
  have old: "\<not> fed_window (G i) u (sy_region s i)" for i
  proof
    assume "fed_window (G i) u (sy_region s i)"
    then have "js_floor (u / fc_windowMs (G i)) = js_floor (t / fc_windowMs (G i))"
      by (rule same_window[OF g(1) t(1)]) (use s(1) in \<open>simp add: sys_base_def\<close>)
    then show False using t(2) g(2) by simp
  qed
  show "fed_now_used (G i) u (sy_region s i) = 0" using old by (simp add: fed_now_used_def)
  have "region_ok held (G i) u (sy_pool s) (sy_region s i)" for i
    using s(1) old fed_started_later[OF _ t(1)] by (simp add: sys_base_def region_ok_def)
  then show "sys_ok held ok G u s"
    using s call.ok_later[OF _ t(1)] by (auto simp: sys_ok_def sys_base_def sys_quiet_def waits_ok_def)
qed

lemma used_within:
  assumes "sys_ok held ok G t s" "fed_members G window" "finite K"
  shows "(\<Sum>i\<in>K. fed_now_used (G i) t (sy_region s i)) \<le> L"
proof -
  have "fed_now_used (G i) t (sy_region s i) \<le> held t (sy_pool s) i" for i
    using assms(1,2) call.held_nonneg[of t "sy_pool s" i]
    by (auto simp: sys_ok_def region_ok_def fed_now_used_def fed_members_def intro: order_trans)
  then have "(\<Sum>i\<in>K. fed_now_used (G i) t (sy_region s i)) \<le> (\<Sum>i\<in>K. held t (sy_pool s) i)" by (intro sum_mono)
  also have "\<dots> \<le> L" using assms by (intro call.held_cap) (auto simp: sys_ok_def)
  finally show ?thesis .
qed

lemma events_budget:
  assumes G: "fed_members G window" and K: "finite K"
  shows "sys_ok held ok G t s \<Longrightarrow> sorted (t # map ev_time evs) \<Longrightarrow> \<forall>ev\<in>set evs. js_floor (ev_time ev / window) = js_floor (t / window) \<Longrightarrow>
    \<forall>ev\<in>set evs. (\<forall>i u k. ev \<noteq> EvReset i u k) \<and> ev_region ev \<in> K \<Longrightarrow>
    fst (fed_events grant release lapse G evs s) + (\<Sum>i\<in>K. fed_now_used (G i) t (sy_region s i)) \<le> L"
proof (induction evs arbitrary: t s)
  case Nil
  then show ?case using used_within[OF Nil.prems(1) G K] by simp
next
  case (Cons ev evs)
  let ?u = "ev_time ev" and ?used = "\<lambda>t s. \<Sum>i\<in>K. fed_now_used (G i) t (sy_region s i)"
  obtain c1 s1 where e: "fed_event grant release lapse G ev s = (c1, s1)" by (metis prod.exhaust)
  note L' = sys_later[OF Cons.prems(1) G, of ?u]
  have t: "t \<le> ?u" "js_floor (?u / window) = js_floor (t / window)" using Cons.prems(2,3) by auto
  have mem: "ev_region ev \<in> K" and nr: "\<And>i u k. ev \<noteq> EvReset i u k" using Cons.prems(4) by auto
  note E = event_ok[OF L'(1)[OF t] G nr e]
  have "fed_now_used (G i) ?u (sy_region s1 i) = fed_now_used (G i) t (sy_region s i) + (if i = ev_region ev then c1 else 0)" for i
    unfolding E(2) L'(2)[OF t] ..
  then have "?used ?u s1 = ?used t s + (\<Sum>i\<in>K. if i = ev_region ev then c1 else 0)" by (simp only: sum.distrib)
  also have "\<dots> = ?used t s + c1" using K mem by (simp add: sum.delta)
  finally have "?used ?u s1 = ?used t s + c1" .
  moreover have "fst (fed_events grant release lapse G evs s1) + ?used ?u s1 \<le> L"
    by (rule Cons.IH[OF E(1)]) (use Cons.prems t nr in auto)
  ultimately show ?case by (simp add: e case_prod_beta)
qed

lemma fleet_budget:
  assumes G: "fed_members G window" and ok: "ok t p" and run: "fed_events grant release lapse G before (sys_new p) = (c, s)"
    and sorted: "sorted (t # map ev_time (before @ evs))" and quiet: "sys_quiet s"
    and old: "js_floor (t / window) < m" "\<forall>ev\<in>set before. js_floor (ev_time ev / window) < m"
    and evs: "\<forall>ev\<in>set evs. (\<forall>i u k. ev \<noteq> EvReset i u k) \<and> js_floor (ev_time ev / window) = m"
  shows "fst (fed_events grant release lapse G evs s) \<le> L"
proof (cases evs)
  case Nil
  then show ?thesis using call.held_cap[OF ok, of "{}"] by simp
next
  case (Cons ev rest)
  have "sys_base ok G t (sys_new p)" using ok by (simp add: sys_base_def sys_new_def fed_new_def fed_ok_def)
  moreover have "sorted (t # map ev_time before)" "\<forall>e\<in>set before. ev_time e \<le> ev_time ev" "t \<le> ev_time ev"
    using sorted by (auto simp: Cons sorted_append)
  ultimately obtain t' where t': "t' \<le> ev_time ev" "sys_base ok G t' s" "before = [] \<Longrightarrow> t' = t" "before \<noteq> [] \<Longrightarrow> t' = ev_time (last before)"
    using events_base[OF _ _ G _ _ run] by blast
  have "js_floor (t' / window) < js_floor (ev_time ev / window)" using t'(3,4) old evs by (cases "before = []") (auto simp: Cons)
  note O = window_opens[OF t'(2) quiet G t'(1) this]
  have "fst (fed_events grant release lapse G evs s) + (\<Sum>i\<in>ev_region ` set evs. fed_now_used (G i) (ev_time ev) (sy_region s i)) \<le> L"
    by (rule events_budget[OF G _ O(1)]) (use sorted evs in \<open>auto simp: Cons sorted_append\<close>)
  then show ?thesis by (simp add: O(2))
qed

end

section \<open>The Redis pool\<close>

text \<open>The events of regions on the Redis pool, which takes the time from its server.\<close>

abbreviation redis_events ::
  "redis_pool \<Rightarrow> (num \<Rightarrow> num \<times> num) \<Rightarrow> (string \<Rightarrow> fed_cfg) \<Rightarrow> link fed_ev list \<Rightarrow> (string \<Rightarrow> pool_hash) fed_sys \<Rightarrow>
   num \<times> (string \<Rightarrow> pool_hash) fed_sys" where
  "redis_events q srv \<equiv>
     fed_events (\<lambda>net db i w want now. rq_grant q db i w (Num want) now (srv now) net)
       (\<lambda>net db i now. snd (rq_release q db i now (srv now) net)) (rq_expire q)"

definition redis_ex :: redis_pool where
  "redis_ex = \<lparr>rq_cfg = \<lparr>pl_L = 10, pl_windowMs = 1000\<rparr>, rq_key = ''k'', rq_prefix = ''tk:rfp'', rq_serverTime = True\<rparr>"

definition fleet_ex :: "string \<Rightarrow> fed_cfg" where
  "fleet_ex i = \<lparr>fc_region = i, fc_L = 10, fc_windowMs = 1000, fc_weightOf = (\<lambda>_. Num 1), fc_maxKeys = None, fc_async = True\<rparr>"

text \<open>
  A check that waits across the end of a window is granted from the next one and charged to the old one: 30 credits
  are admitted in two windows of 10. The check that starts at 900 finds the window's budget gone to \<open>eu\<close>; executed at
  1001 its call gets the budget of the next window, it is admitted, and the region's next check, which opens the
  next window, is told by the pool that it holds 10.
\<close>

lemma straddling_check_over_admits:
  "fst (redis_events redis_ex (\<lambda>u. (u / 1000, 0)) fleet_ex
     [EvStart ''eu'' 5 ''b'' (Num 10), EvPool ''eu'' 6 Answered, EvReply ''eu'' 7,
      EvStart ''us'' 900 ''a'' (Num 10), EvPool ''us'' 1001 Answered, EvReply ''us'' 1002,
      EvStart ''us'' 1003 ''a'' (Num 10), EvPool ''us'' 1004 Answered, EvReply ''us'' 1005] (sys_new (\<lambda>_. []))) = 30"
  by code_simp

section \<open>Properties\<close>

text \<open>
  C27. The global budget with the Redis pool on its server's clock, which the regions share: regions in separate
  processes, whose checks suspend at every call of the pool, so that starts, executions of calls, replies and
  expiry at the store interleave in any way, and calls fail before the script runs, or after it with the reply
  lost. After any events of earlier windows, resets among them, that leave no check waiting and no release under
  way, the credits admitted by the events of one window, with no reset among them, are at most the pool's limit.
\<close>
theorem federated_redis_cap:
  assumes "redisRegionFairPool limit windowMs key prefix serverTime = Inr q" "rq_serverTime q" "fed_members G (pl_windowMs (rq_cfg q))"
    and "\<forall>u\<ge>t. rq_time q srv u = u"
    and "redis_events q srv G earlier (sys_new (\<lambda>_. [])) = (c, s)" "sys_quiet s"
    and "sorted (t # map ev_time (earlier @ evs))" "js_floor (t / pl_windowMs (rq_cfg q)) < m"
    and "\<forall>ev\<in>set earlier. js_floor (ev_time ev / pl_windowMs (rq_cfg q)) < m"
    and "\<forall>ev\<in>set evs. (\<forall>i u k. ev \<noteq> EvReset i u k) \<and> js_floor (ev_time ev / pl_windowMs (rq_cfg q)) = m"
  shows "fst (redis_events q srv G evs s) \<le> pl_L (rq_cfg q)"
proof -
  have "0 < pl_windowMs (rq_cfg q)" "0 \<le> pl_L (rq_cfg q)"
    using assms(1) by (cases limit; cases windowMs; auto simp: redisRegionFairPool_def result_simps split: if_splits)+
  then have "pool_ok (rq_cfg q) t pool_new" "pool_match (rq_cfg q) t [] pool_new"
    by (simp_all add: pool_ok_def pool_new_def pool_match_def pool_rel_def)
  then have "rq_ok q srv t (\<lambda>_. [])" using assms(4) by (auto simp: rq_ok_def)
  then show ?thesis by (rule redis_net.fleet_budget[OF assms(3) _ assms(5,7,6,8,9,10)])
qed

definition earlier_ex :: "link fed_ev list" where
  "earlier_ex = [EvStart ''us'' 1900 ''a'' (Num 3), EvPool ''us'' 1901 Unreached, EvReply ''us'' 1902]"

definition events_ex :: "link fed_ev list" where
  "events_ex = [EvStart ''us'' 2000 ''a'' (Num 4), EvStart ''eu'' 2001 ''b'' (Num 9), EvPool ''eu'' 2002 ReplyLost,
     EvPool ''us'' 2003 Answered, EvReply ''us'' 2004, EvPool ''us'' 2005 Answered, EvReply ''us'' 2006, EvReply ''eu'' 2007,
     EvStart ''us'' 2008 ''c'' (Num 1)]"

theorem federated_redis_cap_witness:
  "\<exists>c s. redis_events redis_ex (\<lambda>u. (u / 1000, 0)) fleet_ex earlier_ex (sys_new (\<lambda>_. [])) = (c, s) \<and>
     fst (redis_events redis_ex (\<lambda>u. (u / 1000, 0)) fleet_ex events_ex s) = 1 \<and>
     fst (redis_events redis_ex (\<lambda>u. (u / 1000, 0)) fleet_ex events_ex s) \<le> 10"
proof -
  let ?run = "redis_events redis_ex (\<lambda>u. (u / 1000, 0)) fleet_ex" and ?w = "pl_windowMs (rq_cfg redis_ex)"
  have q: "redisRegionFairPool (Num 10) (Num 1000) ''k'' None None = Inr redis_ex" by (simp add: redisRegionFairPool_def redis_ex_def)
  have qs: "rq_serverTime redis_ex" "rq_cfg redis_ex = \<lparr>pl_L = 10, pl_windowMs = 1000\<rparr>" by (simp_all add: redis_ex_def)
  have G: "fed_members fleet_ex ?w" by (simp add: fed_members_def fleet_ex_def qs)
  have srv: "\<forall>u\<ge>1000. rq_time redis_ex (\<lambda>u. (u / 1000, 0)) u = u" by (simp add: rq_time_def redis_ex_def lua_now_def)
  obtain c s where run: "?run earlier_ex (sys_new (\<lambda>_. [])) = (c, s)" by (rule prod.exhaust)
  have "sy_check (snd (?run earlier_ex (sys_new (\<lambda>_. [])))) ''us'' = None" "sy_sent (snd (?run earlier_ex (sys_new (\<lambda>_. [])))) = []"
    by code_simp+
  then have us: "sy_check s ''us'' = None" "sy_sent s = []" by (simp_all add: run)
  have "sy_check s i = None" for i
    using events_check_other[OF _ run, of i] us(1) by (cases "i = ''us''") (auto simp: earlier_ex_def sys_new_def)
  then have quiet: "sys_quiet s" using us(2) by (simp add: sys_quiet_def)
  have one: "fst (?run events_ex (snd (?run earlier_ex (sys_new (\<lambda>_. []))))) = 1" by code_simp
  have m: "js_floor (ev_time ev / ?w) = 1" if "ev \<in> set earlier_ex" for ev
    using that by (auto simp: earlier_ex_def qs js_floor_def)
  have m2: "js_floor (ev_time ev / ?w) = 2" if "ev \<in> set events_ex" for ev
    using that by (auto simp: events_ex_def qs js_floor_def)
  have "fst (?run events_ex s) \<le> pl_L (rq_cfg redis_ex)"
    by (rule federated_redis_cap[OF q qs(1) G srv run quiet, of _ 2])
      (use m m2 in \<open>auto simp: earlier_ex_def events_ex_def qs js_floor_def\<close>)
  then show ?thesis using run one by (auto simp: qs)
qed

end
