(* ===== verification/FedCoordinator.thy ===== *)
theory FedCoordinator
  imports RegionPool
begin

text \<open>
  The budget side of the federation (\<open>src/federation/\<close>): \<open>static-partition.ts\<close>, and the three global
  coordinators \<open>test-coordinator.ts\<close>, \<open>redis-coordinator.ts\<close> (its two Lua scripts over one hash a key)
  and \<open>postgres-coordinator.ts\<close> (its transactions over one row a key). A coordinator hands out one
  budget per key and window, and takes back what a region did not use of the window that still runs.
  The lemmas: a partition spends the limit; each coordinator computes one small reference, and so meets
  the contract the engine relies on; a failed call never draws more than a served one.
\<close>

section \<open>Static partition\<close>

text \<open>The first element that occurred before, as the loop over a set of the seen finds it.\<close>

fun first_duplicate :: "string list \<Rightarrow> string list \<Rightarrow> string option" where
  "first_duplicate seen [] = None"
| "first_duplicate seen (r # rs) = (if r \<in> set seen then Some r else first_duplicate (r # seen) rs)"

text \<open>The region of index \<open>i\<close> gets one unit of the remainder while there is any. A factory may throw.\<close>

definition partition_slice :: "num \<Rightarrow> num \<Rightarrow> nat \<Rightarrow> num" where
  "partition_slice base remainder i = base + (if of_nat i < remainder then 1 else 0)"

fun partition_from ::
  "num \<Rightarrow> num \<Rightarrow> (num \<Rightarrow> 'a result) \<Rightarrow> nat \<Rightarrow> string list \<Rightarrow> ((string \<times> 'a) list \<times> (string \<times> num) list) result" where
  "partition_from base remainder factory i [] = Inr ([], [])"
| "partition_from base remainder factory i (r # rs) =
     (let slice = partition_slice base remainder i
      in rbind (factory slice) (\<lambda>s.
         rbind (partition_from base remainder factory (i + 1) rs) (\<lambda>(strategies, slices).
         Inr ((r, s) # strategies, (r, slice) # slices))))"

definition staticPartition ::
  "js_number \<Rightarrow> string list \<Rightarrow> (num \<Rightarrow> 'a result) \<Rightarrow> ((string \<times> 'a) list \<times> (string \<times> num) list) result" where
  "staticPartition globalLimit regions factory =
     (case globalLimit of
        Num g \<Rightarrow>
          if g < 1 then Inl (RangeError ''globalLimit'')
          else if length regions = 0 then Inl (RangeError ''regions'')
          else if g < of_nat (length regions) then Inl (RangeError ''globalLimit'')
          else (case first_duplicate [] regions of
                  Some r \<Rightarrow> Inl (TypeError r)
                | None \<Rightarrow>
                    (let K = of_nat (length regions); base = js_floor (g / K); remainder = g - base * K
                     in partition_from base remainder factory 0 regions))
      | _ \<Rightarrow> Inl (RangeError ''globalLimit''))"

section \<open>The in-memory coordinator\<close>

record window_state =
  wi_expiresAt :: num
  wi_budgetRemaining :: num
  wi_reconciled :: "num list"

record fed_coordinator =
  fc_healthy :: bool
  fc_defaultBudget :: num
  fc_windowMs :: "num option"
  fc_perKeyBudget :: "string \<Rightarrow> num option"
  fc_windows :: "string \<Rightarrow> window_state option"

definition fc_new :: "num option \<Rightarrow> bool option \<Rightarrow> num option \<Rightarrow> fed_coordinator" where
  "fc_new budgetPerWindow healthy windowMs =
     \<lparr>fc_healthy = case_option True id healthy, fc_defaultBudget = case_option 1000 id budgetPerWindow,
      fc_windowMs = windowMs, fc_perKeyBudget = (\<lambda>_. None), fc_windows = (\<lambda>_. None)\<rparr>"

definition fc_budgetFor :: "fed_coordinator \<Rightarrow> string \<Rightarrow> num" where
  "fc_budgetFor c key = case_option (fc_defaultBudget c) id (fc_perKeyBudget c key)"

definition fc_setBudget :: "fed_coordinator \<Rightarrow> string \<Rightarrow> num \<Rightarrow> fed_coordinator" where
  "fc_setBudget c key b =
     c\<lparr>fc_perKeyBudget := (fc_perKeyBudget c)(key \<mapsto> b),
       fc_windows := (case fc_windows c key of None \<Rightarrow> fc_windows c
         | Some w \<Rightarrow> (fc_windows c)(key \<mapsto> w\<lparr>wi_budgetRemaining := min (wi_budgetRemaining w) b\<rparr>))\<rparr>"

definition fc_setHealthy :: "fed_coordinator \<Rightarrow> bool \<Rightarrow> fed_coordinator" where
  "fc_setHealthy c b = c\<lparr>fc_healthy := b\<rparr>"

definition fc_remainingFor :: "fed_coordinator \<Rightarrow> string \<Rightarrow> num \<Rightarrow> num" where
  "fc_remainingFor c key now =
     (case fc_windows c key of None \<Rightarrow> fc_budgetFor c key
      | Some w \<Rightarrow> if now \<ge> wi_expiresAt w then fc_budgetFor c key else wi_budgetRemaining w)"

definition fc_windowFor :: "fed_coordinator \<Rightarrow> string \<Rightarrow> num \<Rightarrow> window_state" where
  "fc_windowFor c key expiresAt =
     (case fc_windows c key of
        Some w \<Rightarrow> if wi_expiresAt w = expiresAt then w
                  else \<lparr>wi_expiresAt = expiresAt, wi_budgetRemaining = fc_budgetFor c key, wi_reconciled = []\<rparr>
      | None \<Rightarrow> \<lparr>wi_expiresAt = expiresAt, wi_budgetRemaining = fc_budgetFor c key, wi_reconciled = []\<rparr>)"

text \<open>The amount of a lease, of a refill or of a reconciliation; shared by every class here.\<close>

fun requireAmount :: "string \<Rightarrow> js_number \<Rightarrow> num result" where
  "requireAmount name (Num x) = (if x < 0 then Inl (RangeError name) else Inr x)"
| "requireAmount name _ = Inl (RangeError name)"

definition fc_lease :: "fed_coordinator \<Rightarrow> string \<Rightarrow> js_number \<Rightarrow> num \<Rightarrow> num result \<times> fed_coordinator" where
  "fc_lease c key tokens expiresAt =
     (if \<not> fc_healthy c then (Inl (StoreUnavailableError key), c)
      else case requireAmount ''tokens'' tokens of
             Inl e \<Rightarrow> (Inl e, c)
           | Inr n \<Rightarrow>
               if n = 0 then (Inr 0, c)
               else (let w = fc_windowFor c key expiresAt; granted = min n (wi_budgetRemaining w)
                     in (Inr granted, c\<lparr>fc_windows := (fc_windows c)(key \<mapsto>
                           w\<lparr>wi_budgetRemaining := wi_budgetRemaining w - granted\<rparr>)\<rparr>)))"

definition fc_reconcile :: "fed_coordinator \<Rightarrow> string \<Rightarrow> js_number \<Rightarrow> num \<Rightarrow> unit result \<times> fed_coordinator" where
  "fc_reconcile c key leftover windowStart =
     (if \<not> fc_healthy c then (Inl (StoreUnavailableError key), c)
      else case requireAmount ''leftover'' leftover of
             Inl e \<Rightarrow> (Inl e, c)
           | Inr n \<Rightarrow>
               (case fc_windows c key of
                  None \<Rightarrow> (Inr (), c)
                | Some w \<Rightarrow>
                    if (case fc_windowMs c of None \<Rightarrow> False | Some m \<Rightarrow> windowStart \<noteq> wi_expiresAt w - m) then (Inr (), c)
                    else if windowStart \<in> set (wi_reconciled w) then (Inr (), c)
                    else (Inr (), c\<lparr>fc_windows := (fc_windows c)(key \<mapsto>
                           w\<lparr>wi_reconciled := windowStart # wi_reconciled w,
                             wi_budgetRemaining := min (wi_budgetRemaining w + n) (fc_budgetFor c key)\<rparr>)\<rparr>)))"

section \<open>The Redis coordinator\<close>

text \<open>
  The fields of a key's hash: \<open>budget\<close>, \<open>expiresAt\<close>, and \<open>rec_\<close> before a window start. A value is the
  number its text stands for. As for the cross-region pool, a reply is truncated to an integer, and the
  last component is the value given to \<open>PEXPIRE\<close>.
\<close>

datatype coord_field = F_budget | F_expiresAt | F_rec num

type_synonym coord_hash = "(coord_field \<times> num) list"

definition coord_window :: "num \<Rightarrow> num \<Rightarrow> num" where
  "coord_window windowMs now = js_floor (now / windowMs) * windowMs"

definition lease_lua ::
  "num \<Rightarrow> num \<Rightarrow> num \<Rightarrow> num \<Rightarrow> num \<times> num \<Rightarrow> coord_hash \<Rightarrow> (num \<times> num) \<times> coord_hash \<times> num" where
  "lease_lua nowArg tokens windowMs perKeyBudget server h =
     (let now = lua_now nowArg server;
          expiresAt = coord_window windowMs now + windowMs;
          fresh = (map_of h F_budget = None \<or> map_of h F_expiresAt \<noteq> Some expiresAt);
          h1 = (if fresh then [] else h);
          budget = (if fresh then perKeyBudget else (case map_of h F_budget of None \<Rightarrow> perKeyBudget | Some b \<Rightarrow> b));
          granted = (if tokens > budget then budget else tokens);
          pexp = (if expiresAt - now < 1 then 1 else expiresAt - now)
      in ((redis_int granted, redis_int expiresAt),
          AList.update F_expiresAt expiresAt (AList.update F_budget (budget - granted) h1), pexp))"

definition reconcile_lua ::
  "num \<Rightarrow> num \<Rightarrow> num \<Rightarrow> num \<Rightarrow> num \<Rightarrow> num \<times> num \<Rightarrow> coord_hash \<Rightarrow> num \<times> coord_hash \<times> num" where
  "reconcile_lua nowArg leftover windowStart windowMs perKeyBudget server h =
     (let now = lua_now nowArg server;
          current = coord_window windowMs now;
          currentExpiresAt = current + windowMs
      in if windowStart \<noteq> current then (0, h, 1)
         else if map_of h (F_rec windowStart) \<noteq> None then (0, h, 1)
         else (let fresh = (map_of h F_budget = None \<or> map_of h F_expiresAt \<noteq> Some currentExpiresAt);
                   h1 = (if fresh then [] else h);
                   budget = (if fresh then perKeyBudget else (case map_of h F_budget of None \<Rightarrow> perKeyBudget | Some b \<Rightarrow> b));
                   b1 = (if budget + leftover > perKeyBudget then perKeyBudget else budget + leftover);
                   pexp = (if currentExpiresAt - now < 1 then 1 else currentExpiresAt - now)
               in (1, AList.update (F_rec windowStart) 1 (AList.update F_expiresAt currentExpiresAt (AList.update F_budget b1 h1)), pexp)))"

record redis_coord =
  rk_defaultBudget :: num
  rk_windowMs :: num
  rk_prefix :: string
  rk_serverTime :: bool
  rk_perKeyBudget :: "string \<Rightarrow> num option"

fun requireLeast1 :: "string \<Rightarrow> js_number \<Rightarrow> num result" where
  "requireLeast1 name (Num x) = (if x < 1 then Inl (RangeError name) else Inr x)"
| "requireLeast1 name _ = Inl (RangeError name)"

definition redisCoordinator ::
  "js_number \<Rightarrow> js_number option \<Rightarrow> string option \<Rightarrow> bool option \<Rightarrow> redis_coord result" where
  "redisCoordinator windowMs budgetPerWindow prefix serverTime =
     rbind (requireLeast1 ''windowMs'' windowMs) (\<lambda>w.
     rbind (case budgetPerWindow of None \<Rightarrow> Inr 1000 | Some b \<Rightarrow> requireLeast1 ''budgetPerWindow'' b) (\<lambda>b.
     Inr \<lparr>rk_defaultBudget = b, rk_windowMs = w, rk_prefix = case_option ''tk:fed'' id prefix,
          rk_serverTime = case_option True id serverTime, rk_perKeyBudget = (\<lambda>_. None)\<rparr>))"

definition rk_setBudget :: "redis_coord \<Rightarrow> string \<Rightarrow> js_number \<Rightarrow> redis_coord result" where
  "rk_setBudget q key budget =
     rbind (requireLeast1 ''budgetPerWindow'' budget) (\<lambda>b. Inr (q\<lparr>rk_perKeyBudget := (rk_perKeyBudget q)(key \<mapsto> b)\<rparr>))"

definition rk_budgetFor :: "redis_coord \<Rightarrow> string \<Rightarrow> num" where
  "rk_budgetFor q key = case_option (rk_defaultBudget q) id (rk_perKeyBudget q key)"

definition rk_key :: "redis_coord \<Rightarrow> string \<Rightarrow> string" where
  "rk_key q key = rk_prefix q @ '':'' @ key"

text \<open>
  A script call over a keyspace: the reply and what is stored, or the failure of the call. A \<open>PEXPIRE\<close> of
  a time that is not whole fails after the writes.
\<close>

definition script_call :: "link \<Rightarrow> string \<Rightarrow> string \<Rightarrow> (string \<Rightarrow> 'h) \<Rightarrow> 'a \<times> 'h \<times> num \<Rightarrow> 'a result \<times> (string \<Rightarrow> 'h)" where
  "script_call link name key db out =
     (case out of (reply, h, pexp) \<Rightarrow>
        (case link of
           Answered \<Rightarrow> (if js_floor pexp = pexp then Inr reply else Inl (StoreUnavailableError name), db(key := h))
         | ReplyLost \<Rightarrow> (Inl (StoreUnavailableError name), db(key := h))
         | _ \<Rightarrow> (Inl (StoreUnavailableError name), db)))"

definition map_first :: "('a \<Rightarrow> 'b) \<Rightarrow> 'a result \<times> 's \<Rightarrow> 'b result \<times> 's" where
  "map_first f r = (case r of (Inl e, s) \<Rightarrow> (Inl e, s) | (Inr x, s) \<Rightarrow> (Inr (f x), s))"

definition rk_leaseImpl ::
  "redis_coord \<Rightarrow> (string \<Rightarrow> coord_hash) \<Rightarrow> string \<Rightarrow> num \<Rightarrow> num \<Rightarrow> num \<times> num \<Rightarrow> link \<Rightarrow>
   (num \<times> num) result \<times> (string \<Rightarrow> coord_hash)" where
  "rk_leaseImpl q db key tokens now server link =
     script_call link ''lease'' (rk_key q key) db
       (lease_lua (if rk_serverTime q then 0 else now) tokens (rk_windowMs q) (rk_budgetFor q key) server (db (rk_key q key)))"

definition rk_lease ::
  "redis_coord \<Rightarrow> (string \<Rightarrow> coord_hash) \<Rightarrow> string \<Rightarrow> js_number \<Rightarrow> num \<Rightarrow> num \<times> num \<Rightarrow> link \<Rightarrow>
   num result \<times> (string \<Rightarrow> coord_hash)" where
  "rk_lease q db key tokens now server link =
     (case requireAmount ''tokens'' tokens of
        Inl e \<Rightarrow> (Inl e, db)
      | Inr n \<Rightarrow> if n = 0 then (Inr 0, db) else map_first fst (rk_leaseImpl q db key n now server link))"

definition rk_leaseWindowed ::
  "redis_coord \<Rightarrow> (string \<Rightarrow> coord_hash) \<Rightarrow> string \<Rightarrow> js_number \<Rightarrow> num \<Rightarrow> num \<times> num \<Rightarrow> link \<Rightarrow>
   (num \<times> num) result \<times> (string \<Rightarrow> coord_hash)" where
  "rk_leaseWindowed q db key tokens now server link =
     (case requireAmount ''tokens'' tokens of
        Inl e \<Rightarrow> (Inl e, db)
      | Inr n \<Rightarrow> rk_leaseImpl q db key n now server link)"

definition rk_reconcile ::
  "redis_coord \<Rightarrow> (string \<Rightarrow> coord_hash) \<Rightarrow> string \<Rightarrow> js_number \<Rightarrow> num \<Rightarrow> num \<Rightarrow> num \<times> num \<Rightarrow> link \<Rightarrow>
   unit result \<times> (string \<Rightarrow> coord_hash)" where
  "rk_reconcile q db key leftover windowStart now server link =
     (case requireAmount ''leftover'' leftover of
        Inl e \<Rightarrow> (Inl e, db)
      | Inr n \<Rightarrow>
          if n = 0 then (Inr (), db)
          else map_first (\<lambda>_. ()) (script_call link ''reconcile'' (rk_key q key) db
                 (reconcile_lua (if rk_serverTime q then 0 else now) n windowStart (rk_windowMs q) (rk_budgetFor q key) server
                    (db (rk_key q key)))))"

section \<open>The Postgres coordinator\<close>

text \<open>The columns are \<open>BIGINT\<close>: a parameter that is not whole is refused, and the transaction rolls back.\<close>

record pg_budget_row =
  pb_budget :: num
  pb_expiresAt :: num
  pb_markers :: "num list"
  pb_updatedAt :: num

record pg_coord =
  pk_defaultBudget :: num
  pk_windowMs :: num
  pk_prefix :: string
  pk_perKeyBudget :: "string \<Rightarrow> num option"
  pk_gcRetentionMs :: num

definition bigint :: "num \<Rightarrow> bool" where
  "bigint x \<longleftrightarrow> js_floor x = x"

definition postgresCoordinator ::
  "js_number \<Rightarrow> js_number option \<Rightarrow> string option \<Rightarrow> num option \<Rightarrow> pg_coord result" where
  "postgresCoordinator windowMs budgetPerWindow prefix gcRetentionMs =
     rbind (requireLeast1 ''windowMs'' windowMs) (\<lambda>w.
     rbind (case budgetPerWindow of None \<Rightarrow> Inr 1000 | Some b \<Rightarrow> requireLeast1 ''budgetPerWindow'' b) (\<lambda>b.
     Inr \<lparr>pk_defaultBudget = b, pk_windowMs = w, pk_prefix = case_option ''tk:fed'' id prefix,
          pk_perKeyBudget = (\<lambda>_. None), pk_gcRetentionMs = case_option 86400000 id gcRetentionMs\<rparr>))"

definition pk_setBudget :: "pg_coord \<Rightarrow> string \<Rightarrow> js_number \<Rightarrow> pg_coord result" where
  "pk_setBudget q key budget =
     rbind (requireLeast1 ''budgetPerWindow'' budget) (\<lambda>b. Inr (q\<lparr>pk_perKeyBudget := (pk_perKeyBudget q)(key \<mapsto> b)\<rparr>))"

definition pk_budgetFor :: "pg_coord \<Rightarrow> string \<Rightarrow> num" where
  "pk_budgetFor q key = case_option (pk_defaultBudget q) id (pk_perKeyBudget q key)"

definition pk_key :: "pg_coord \<Rightarrow> string \<Rightarrow> string" where
  "pk_key q key = pk_prefix q @ '':'' @ key"

text \<open>The upsert of both transactions: a new row, or the old one rolled when its window is over.\<close>

definition pg_upsert :: "pg_budget_row option \<Rightarrow> num \<Rightarrow> num \<Rightarrow> num \<Rightarrow> pg_budget_row" where
  "pg_upsert row perKeyBudget expiresAt now =
     (case row of
        None \<Rightarrow> \<lparr>pb_budget = perKeyBudget, pb_expiresAt = expiresAt, pb_markers = [], pb_updatedAt = now\<rparr>
      | Some r \<Rightarrow> \<lparr>pb_budget = (if pb_expiresAt r \<noteq> expiresAt then perKeyBudget else pb_budget r),
                   pb_expiresAt = expiresAt,
                   pb_markers = (if pb_expiresAt r \<noteq> expiresAt then [] else pb_markers r),
                   pb_updatedAt = now\<rparr>)"

definition pk_lease_txn ::
  "num \<Rightarrow> num \<Rightarrow> pg_budget_row option \<Rightarrow> num \<Rightarrow> num \<Rightarrow> ((num \<times> num) \<times> pg_budget_row) option" where
  "pk_lease_txn windowMs perKeyBudget row tokens now =
     (let expiresAt = coord_window windowMs now + windowMs
      in if \<not> bigint perKeyBudget \<or> \<not> bigint expiresAt \<or> \<not> bigint now then None
         else (let r = pg_upsert row perKeyBudget expiresAt now; granted = min tokens (pb_budget r)
               in if granted > 0 then
                    (if bigint granted
                     then Some ((granted, expiresAt), r\<lparr>pb_budget := pb_budget r - granted, pb_updatedAt := now\<rparr>) else None)
                  else Some ((granted, expiresAt), r)))"

definition pk_reconcile_txn ::
  "num \<Rightarrow> num \<Rightarrow> pg_budget_row option \<Rightarrow> num \<Rightarrow> num \<Rightarrow> num \<Rightarrow> (pg_budget_row option) option" where
  "pk_reconcile_txn windowMs perKeyBudget row leftover windowStart now =
     (let current = coord_window windowMs now; expiresAt = current + windowMs
      in if windowStart \<noteq> current then Some row
         else if \<not> bigint perKeyBudget \<or> \<not> bigint expiresAt \<or> \<not> bigint now \<or> \<not> bigint windowStart then None
         else (let r = pg_upsert row perKeyBudget expiresAt now; newBudget = min perKeyBudget (pb_budget r + leftover)
               in if windowStart \<in> set (pb_markers r) then Some (Some r)
                  else if \<not> bigint newBudget then None
                  else Some (Some (r\<lparr>pb_budget := newBudget, pb_markers := pb_markers r @ [windowStart], pb_updatedAt := now\<rparr>))))"

text \<open>
  The methods: \<open>now\<close> is the server's or the process's time, whole in either case. A commit may succeed
  and its reply be lost. The schema and the connection are awaited before the \<open>try\<close>, so a failure there
  (\<open>No_connection\<close>) surfaces as the client library threw it; a failure of the transaction is wrapped. Once
  the schema has failed its rejected promise is kept, and every later call fails like that.
\<close>

type_synonym pg_budgets = "string \<Rightarrow> pg_budget_row option"

definition txn_call :: "link \<Rightarrow> string \<Rightarrow> string \<Rightarrow> pg_budgets \<Rightarrow> ('a \<times> pg_budget_row option) option \<Rightarrow> 'a result \<times> pg_budgets" where
  "txn_call link name key t out =
     (case link of
        No_connection msg \<Rightarrow> (Inl (PlatformError msg), t)
      | Unreached \<Rightarrow> (Inl (StoreUnavailableError name), t)
      | served \<Rightarrow>
          (case out of
             None \<Rightarrow> (Inl (StoreUnavailableError name), t)
           | Some (reply, row) \<Rightarrow> (if served = Answered then Inr reply else Inl (StoreUnavailableError name), t(key := row))))"

definition pk_leaseImpl :: "pg_coord \<Rightarrow> pg_budgets \<Rightarrow> string \<Rightarrow> num \<Rightarrow> num \<Rightarrow> link \<Rightarrow> (num \<times> num) result \<times> pg_budgets" where
  "pk_leaseImpl q t key tokens now link =
     txn_call link ''lease'' (pk_key q key) t
       (map_option (\<lambda>(reply, row). (reply, Some row))
          (pk_lease_txn (pk_windowMs q) (pk_budgetFor q key) (t (pk_key q key)) tokens now))"

definition pk_lease :: "pg_coord \<Rightarrow> pg_budgets \<Rightarrow> string \<Rightarrow> js_number \<Rightarrow> num \<Rightarrow> link \<Rightarrow> num result \<times> pg_budgets" where
  "pk_lease q t key tokens now link =
     (case requireAmount ''tokens'' tokens of
        Inl e \<Rightarrow> (Inl e, t)
      | Inr n \<Rightarrow> if n = 0 then (Inr 0, t) else map_first fst (pk_leaseImpl q t key n now link))"

definition pk_leaseWindowed :: "pg_coord \<Rightarrow> pg_budgets \<Rightarrow> string \<Rightarrow> js_number \<Rightarrow> num \<Rightarrow> link \<Rightarrow> (num \<times> num) result \<times> pg_budgets" where
  "pk_leaseWindowed q t key tokens now link =
     (case requireAmount ''tokens'' tokens of
        Inl e \<Rightarrow> (Inl e, t)
      | Inr n \<Rightarrow> pk_leaseImpl q t key n now link)"

definition pk_reconcile :: "pg_coord \<Rightarrow> pg_budgets \<Rightarrow> string \<Rightarrow> js_number \<Rightarrow> num \<Rightarrow> num \<Rightarrow> link \<Rightarrow> unit result \<times> pg_budgets" where
  "pk_reconcile q t key leftover windowStart now link =
     (case requireAmount ''leftover'' leftover of
        Inl e \<Rightarrow> (Inl e, t)
      | Inr n \<Rightarrow>
          if n = 0 then (Inr (), t)
          else txn_call link ''reconcile'' (pk_key q key) t
                 (map_option (Pair ()) (pk_reconcile_txn (pk_windowMs q) (pk_budgetFor q key) (t (pk_key q key)) n windowStart now)))"

definition pk_gc :: "pg_coord \<Rightarrow> pg_budgets \<Rightarrow> num \<Rightarrow> pg_budgets" where
  "pk_gc q t dateNow =
     (let cutoff = dateNow - pk_gcRetentionMs q
      in (\<lambda>k. case t k of None \<Rightarrow> None
                | Some r \<Rightarrow> if pb_updatedAt r < cutoff \<and> pb_expiresAt r < cutoff then None else Some r))"

section \<open>The partition spends the limit\<close>

lemma first_duplicate_None: "first_duplicate seen rs = None \<longleftrightarrow> distinct rs \<and> set rs \<inter> set seen = {}"
  by (induction rs arbitrary: seen) auto

lemma partition_from_slices:
  "partition_from base rm factory i rs = Inr (strategies, slices) \<Longrightarrow>
   map fst slices = rs \<and> map fst strategies = rs \<and>
   map snd slices = map (\<lambda>j. partition_slice base rm (i + j)) [0..<length rs] \<and>
   list_all2 (\<lambda>s p. factory (snd p) = Inr (snd s)) strategies slices"
proof (induction rs arbitrary: i strategies slices)
  case (Cons r rs)
  obtain s ss sl where s: "factory (partition_slice base rm i) = Inr s" "partition_from base rm factory (i + 1) rs = Inr (ss, sl)"
      "strategies = (r, s) # ss" "slices = (r, partition_slice base rm i) # sl"
    using Cons.prems by (auto simp: Let_def result_simps)
  have up: "[0..<length (r # rs)] = 0 # map Suc [0..<length rs]"
    by (simp add: map_Suc_upt upt_conv_Cons del: upt_Suc)
  show ?case using Cons.IH[OF s(2)] s(1) unfolding s(3,4) up by simp
qed simp

text \<open>How many of the first \<open>K\<close> indices are below a number in \<open>[0, K]\<close>.\<close>

lemma count_below: "0 \<le> x \<Longrightarrow> x \<le> of_nat K \<Longrightarrow> (\<Sum>i<K. if of_nat i < x then 1 else 0 :: num) = js_ceil x"
proof (induction K)
  case (Suc K)
  show ?case
  proof (cases "x \<le> of_nat K")
    case False
    have "(\<Sum>i<K. if of_nat i < x then 1 else 0 :: num) = (\<Sum>i<K. 1)"
      using False by (intro sum.cong) auto
    moreover have "js_ceil x = of_nat K + 1"
    proof -
      have "\<lceil>x\<rceil> = int K + 1" using False Suc.prems(2) by (intro ceiling_unique) simp_all
      then show ?thesis by (simp add: js_ceil_def)
    qed
    ultimately show ?thesis using False by simp
  qed (use Suc in simp)
qed simp

lemma partition_remainder:
  assumes "0 < K"
  shows "0 \<le> g - js_floor (g / K) * K" "g - js_floor (g / K) * K < (K :: num)"
  using window_start_le[OF assms, of g] window_start_gt[OF assms, of g] by simp_all

lemma slices_sum:
  assumes "0 < K"
  shows "(\<Sum>i<K. partition_slice (js_floor (g / of_nat K)) (g - js_floor (g / of_nat K) * of_nat K) i) = js_ceil g"
proof -
  let ?b = "js_floor (g / of_nat K)"
  note r = partition_remainder[of "of_nat K" g]
  have "js_ceil (g - of_int (\<lfloor>g / of_nat K\<rfloor> * int K)) = js_ceil g - ?b * of_nat K"
    by (simp add: js_ceil_def js_floor_def del: of_int_mult) simp
  then have "js_ceil (g - ?b * of_nat K) = js_ceil g - ?b * of_nat K" by (simp add: js_floor_def)
  then show ?thesis
    using count_below[of "g - ?b * of_nat K" K] r assms by (simp add: partition_slice_def sum.distrib)
qed

lemma staticPartition_Inr:
  assumes "staticPartition limit rs factory = Inr (strategies, slices)"
  obtains g where "limit = Num g" "1 \<le> g" "rs \<noteq> []" "of_nat (length rs) \<le> g" "distinct rs"
    "partition_from (js_floor (g / of_nat (length rs))) (g - js_floor (g / of_nat (length rs)) * of_nat (length rs)) factory 0 rs
       = Inr (strategies, slices)"
  using assms that
  by (auto simp: staticPartition_def Let_def result_simps first_duplicate_None split: js_number.splits if_splits option.splits)

section \<open>The reference\<close>

text \<open>What is left of the window of time \<open>now\<close>, and whether a reconciliation of it was credited.\<close>

type_synonym budget_view = "num \<times> bool"

fun ref_lease :: "num \<Rightarrow> budget_view \<Rightarrow> num \<times> budget_view" where
  "ref_lease n (left, used) = (min n left, (left - min n left, used))"

fun ref_reconcile :: "num \<Rightarrow> num \<Rightarrow> budget_view \<Rightarrow> budget_view" where
  "ref_reconcile B x (left, used) = (if used then (left, used) else (min B (left + x), True))"

definition window_view :: "num \<Rightarrow> num \<Rightarrow> num \<Rightarrow> window_state option \<Rightarrow> budget_view" where
  "window_view W B now w =
     (case w of None \<Rightarrow> (B, False)
      | Some w \<Rightarrow> if wi_expiresAt w = coord_window W now + W
                 then (wi_budgetRemaining w, coord_window W now \<in> set (wi_reconciled w)) else (B, False))"

definition hash_view :: "num \<Rightarrow> num \<Rightarrow> num \<Rightarrow> coord_hash \<Rightarrow> budget_view" where
  "hash_view W B now h =
     (case map_of h F_budget of None \<Rightarrow> (B, False)
      | Some b \<Rightarrow> if map_of h F_expiresAt = Some (coord_window W now + W)
                 then (b, map_of h (F_rec (coord_window W now)) \<noteq> None) else (B, False))"

definition row_view :: "num \<Rightarrow> num \<Rightarrow> num \<Rightarrow> pg_budget_row option \<Rightarrow> budget_view" where
  "row_view W B now r =
     (case r of None \<Rightarrow> (B, False)
      | Some r \<Rightarrow> if pb_expiresAt r = coord_window W now + W
                 then (pb_budget r, coord_window W now \<in> set (pb_markers r)) else (B, False))"

text \<open>A view depends on the window only.\<close>

lemma same_window_view:
  assumes "coord_window W t' = coord_window W t"
  shows "window_view W B t' w = window_view W B t w" "hash_view W B t' h = hash_view W B t h" "row_view W B t' r = row_view W B t r"
  unfolding window_view_def hash_view_def row_view_def assms by (rule refl)+

text \<open>What is stored: budgets in range, and in a hash no mark of a window but the stored one.\<close>

definition in_budget :: "num \<Rightarrow> num \<Rightarrow> bool" where
  "in_budget B b \<longleftrightarrow> 0 \<le> b \<and> b \<le> B"

definition hash_ok :: "num \<Rightarrow> num \<Rightarrow> coord_hash \<Rightarrow> bool" where
  "hash_ok W B h \<longleftrightarrow> 0 < W \<and> 0 \<le> B \<and> pred_option (in_budget B) (map_of h F_budget) \<and>
     (\<forall>s. map_of h (F_rec s) \<noteq> None \<longrightarrow> map_of h F_expiresAt = Some (s + W) \<and> map_of h F_budget \<noteq> None)"

definition row_ok :: "num \<Rightarrow> num \<Rightarrow> pg_budget_row option \<Rightarrow> bool" where
  "row_ok W B r \<longleftrightarrow> 0 < W \<and> 0 \<le> B \<and> pred_option (\<lambda>r. in_budget B (pb_budget r)) r"

definition window_ok :: "num \<Rightarrow> num \<Rightarrow> window_state option \<Rightarrow> bool" where
  "window_ok W B w \<longleftrightarrow> 0 < W \<and> 0 \<le> B \<and> pred_option (\<lambda>w. in_budget B (wi_budgetRemaining w)) w"

lemma coord_window_bounds: "0 < W \<Longrightarrow> coord_window W t \<le> t" "0 < W \<Longrightarrow> t < coord_window W t + W"
  by (simp_all add: coord_window_def window_start_le window_start_gt)

lemma coord_window_mono: "0 < W \<Longrightarrow> t \<le> t' \<Longrightarrow> coord_window W t \<le> coord_window W t'"
  by (simp add: coord_window_def window_start_mono)

text \<open>The hash a script goes on with: emptied when its window is over.\<close>

definition open_hash :: "num \<Rightarrow> num \<Rightarrow> coord_hash \<Rightarrow> coord_hash" where
  "open_hash W now h = (if map_of h F_budget = None \<or> map_of h F_expiresAt \<noteq> Some (coord_window W now + W) then [] else h)"

lemma open_hash_view:
  "hash_view W B now h =
     (case map_of (open_hash W now h) F_budget of None \<Rightarrow> B | Some b \<Rightarrow> b, map_of (open_hash W now h) (F_rec (coord_window W now)) \<noteq> None)"
  by (auto simp: open_hash_def hash_view_def split: option.split)

lemma open_hash_ok:
  assumes "hash_ok W B h" "\<And>s. map_of g (F_rec s) \<noteq> None \<Longrightarrow> map_of (open_hash W now h) (F_rec s) \<noteq> None \<or> s = coord_window W now"
    "map_of g F_expiresAt = Some (coord_window W now + W)" "map_of g F_budget = Some b" "in_budget B b"
  shows "hash_ok W B g"
proof -
  have "s = coord_window W now" if "map_of g (F_rec s) \<noteq> None" for s
  proof (rule ccontr)
    assume "s \<noteq> coord_window W now"
    then have "map_of (open_hash W now h) (F_rec s) \<noteq> None" using assms(2)[OF that] by blast
    then show False using assms(1) \<open>s \<noteq> coord_window W now\<close> by (auto simp: open_hash_def hash_ok_def split: if_splits)
  qed
  then show ?thesis using assms(1,3,4,5) by (auto simp: hash_ok_def)
qed

lemma hash_view_put:
  "map_of g F_expiresAt = Some (coord_window W now + W) \<Longrightarrow> map_of g F_budget = Some b \<Longrightarrow>
   hash_view W B now g = (b, map_of g (F_rec (coord_window W now)) \<noteq> None)"
  by (simp add: hash_view_def)

lemma hash_view_bounds: "hash_ok W B h \<Longrightarrow> in_budget B (fst (hash_view W B now h))"
  by (auto simp: hash_ok_def hash_view_def in_budget_def split: option.splits)

lemma hash_view_eq:
  assumes now: "lua_now nowArg server = now" and ok: "hash_ok W B h" and n: "0 \<le> n"
  shows "\<exists>h' pexp. lease_lua nowArg n W B server h =
      ((redis_int (fst (ref_lease n (hash_view W B now h))), redis_int (coord_window W now + W)), h', pexp) \<and>
      hash_view W B now h' = snd (ref_lease n (hash_view W B now h)) \<and> hash_ok W B h' \<and> pexp = max 1 (coord_window W now + W - now) \<and>
      map_of h' F_expiresAt = Some (coord_window W now + W)"
proof -
  obtain b m where v: "hash_view W B now h = (b, m)" by (cases "hash_view W B now h")
  then have m: "m = (map_of (open_hash W now h) (F_rec (coord_window W now)) \<noteq> None)" by (simp add: open_hash_view)
  have b: "in_budget B b" using hash_view_bounds[OF ok, of now] v by simp
  define g where "g = AList.update F_expiresAt (coord_window W now + W) (AList.update F_budget (b - min n b) (open_hash W now h))"
  have g: "map_of g F_expiresAt = Some (coord_window W now + W)" "map_of g F_budget = Some (b - min n b)"
      "\<And>s. map_of g (F_rec s) = map_of (open_hash W now h) (F_rec s)"
    by (simp_all add: g_def map_of_update)
  have "lease_lua nowArg n W B server h = ((redis_int (min n b), redis_int (coord_window W now + W)), g, max 1 (coord_window W now + W - now))"
    using v unfolding lease_lua_def Let_def now open_hash_view
    by (auto simp: g_def open_hash_def if_less_max if_greater_min min.commute split: option.splits if_splits)
  moreover have "hash_view W B now g = (b - min n b, m)" using hash_view_put[OF g(1,2)] g(3) m by simp
  moreover have "hash_ok W B g" by (rule open_hash_ok[OF ok _ g(1,2)]) (use g(3) b n in \<open>auto simp: in_budget_def\<close>)
  ultimately show ?thesis using g(1) by (simp add: v)
qed

lemma hash_view_reconcile:
  assumes now: "lua_now nowArg server = now" and ok: "hash_ok W B h" and x: "0 \<le> x"
  shows "\<exists>r h' pexp. reconcile_lua nowArg x ws W B server h = (r, h', pexp) \<and> hash_ok W B h' \<and>
      hash_view W B now h' = (if ws = coord_window W now then ref_reconcile B x (hash_view W B now h) else hash_view W B now h) \<and>
      (pexp = 1 \<or> pexp = coord_window W now + W - now) \<and>
      (if ws = coord_window W now then map_of h' F_expiresAt = Some (coord_window W now + W) else h' = h)"
proof -
  let ?c = "coord_window W now"
  obtain b m where v: "hash_view W B now h = (b, m)" by (cases "hash_view W B now h")
  then have m: "m = (map_of (open_hash W now h) (F_rec ?c) \<noteq> None)" by (simp add: open_hash_view)
  have marked: "map_of (open_hash W now h) (F_rec ?c) = map_of h (F_rec ?c)"
    using ok by (cases "map_of h (F_rec ?c)") (auto simp: hash_ok_def open_hash_def)
  show ?thesis
  proof (cases "ws = ?c \<and> \<not> m")
    case False
    then have "reconcile_lua nowArg x ws W B server h = (0, h, 1)"
      unfolding reconcile_lua_def Let_def now by (simp add: m marked)
    moreover have "map_of h F_expiresAt = Some (?c + W)" if m
      using that m ok marked by (auto simp: hash_ok_def)
    ultimately show ?thesis using ok False by (auto simp: v)
  next
    case True
    define b1 where "b1 = min B (b + x)"
    define g where "g = AList.update (F_rec ?c) 1 (AList.update F_expiresAt (?c + W) (AList.update F_budget b1 (open_hash W now h)))"
    have g: "map_of g F_expiresAt = Some (?c + W)" "map_of g F_budget = Some b1"
        "\<And>s. map_of g (F_rec s) = (if s = ?c then Some 1 else map_of (open_hash W now h) (F_rec s))"
      by (simp_all add: g_def map_of_update)
    have "reconcile_lua nowArg x ws W B server h = (1, g, max 1 (?c + W - now))"
      using v True m marked unfolding reconcile_lua_def Let_def now open_hash_view
      by (auto simp: g_def b1_def open_hash_def if_less_max min_def split: option.splits if_splits)
    moreover have "hash_view W B now g = (b1, True)" using hash_view_put[OF g(1,2)] g(3) by simp
    moreover have "in_budget B b1" using hash_view_bounds[OF ok, of now] v x by (auto simp: in_budget_def b1_def)
    then have "hash_ok W B g" by (intro open_hash_ok[OF ok _ g(1,2)]) (auto simp: g(3))
    ultimately show ?thesis using True g(1) by (auto simp: v b1_def max_def)
  qed
qed

lemma pg_upsert_view:
  fixes now :: num
  assumes "row_ok W B r"
  defines "u \<equiv> pg_upsert r B (coord_window W now + W) now"
  shows "row_view W B now r = (pb_budget u, coord_window W now \<in> set (pb_markers u))" "pb_expiresAt u = coord_window W now + W"
    "in_budget B (pb_budget u)"
  using assms by (auto simp: row_view_def pg_upsert_def row_ok_def in_budget_def split: option.split)

lemma row_view_lease:
  assumes ok: "row_ok W B r" and n: "0 \<le> n" and some: "pk_lease_txn W B r n now = Some ((g, x), r')"
  shows "(g, row_view W B now (Some r')) = ref_lease n (row_view W B now r)" "row_ok W B (Some r')" "x = coord_window W now + W"
    "pb_expiresAt r' = coord_window W now + W"
proof -
  let ?x = "coord_window W now + W"
  define u where "u = pg_upsert r B ?x now"
  note v = pg_upsert_view[OF ok, of now, folded u_def]
  have "g = min n (pb_budget u) \<and> x = ?x \<and> pb_budget r' = pb_budget u - g \<and> pb_expiresAt r' = ?x \<and> pb_markers r' = pb_markers u"
    using some v(2,3) n by (auto simp: pk_lease_txn_def Let_def in_budget_def u_def[symmetric] split: if_splits)
  then show "(g, row_view W B now (Some r')) = ref_lease n (row_view W B now r)" "row_ok W B (Some r')" "x = ?x" "pb_expiresAt r' = ?x"
    using v n ok by (auto simp: row_view_def[of _ _ _ "Some r'"] row_ok_def in_budget_def min_def)
qed

lemma row_view_reconcile:
  assumes ok: "row_ok W B r" and n: "0 \<le> n" and some: "pk_reconcile_txn W B r n ws now = Some r'"
  shows "row_view W B now r' = (if ws = coord_window W now then ref_reconcile B n (row_view W B now r) else row_view W B now r)"
    "row_ok W B r'" "if ws = coord_window W now then (\<exists>u. r' = Some u \<and> pb_expiresAt u = coord_window W now + W) else r' = r"
proof -
  define u where "u = pg_upsert r B (coord_window W now + W) now"
  note v = pg_upsert_view[OF ok, of now, folded u_def]
  have pos: "0 < W" "0 \<le> B" using ok by (auto simp: row_ok_def)
  consider "ws \<noteq> coord_window W now" "r' = r" | "ws = coord_window W now" "ws \<in> set (pb_markers u)" "r' = Some u"
    | "ws = coord_window W now" "ws \<notin> set (pb_markers u)"
      "r' = Some (u\<lparr>pb_budget := min B (pb_budget u + n), pb_markers := pb_markers u @ [ws], pb_updatedAt := now\<rparr>)"
    using some by (auto simp: pk_reconcile_txn_def Let_def u_def[symmetric] split: if_splits)
  then show "row_view W B now r' = (if ws = coord_window W now then ref_reconcile B n (row_view W B now r) else row_view W B now r)"
    "row_ok W B r'" "if ws = coord_window W now then (\<exists>u. r' = Some u \<and> pb_expiresAt u = coord_window W now + W) else r' = r"
    by (cases; use v n ok pos in \<open>simp add: row_view_def[of _ _ _ "Some _"] row_ok_def in_budget_def\<close>)+
qed

text \<open>The in-memory coordinator, called with the end of the window of the time.\<close>

definition fc_live :: "fed_coordinator \<Rightarrow> num \<Rightarrow> string \<Rightarrow> bool" where
  "fc_live c W key \<longleftrightarrow> fc_windowMs c = Some W \<and> window_ok W (fc_budgetFor c key) (fc_windows c key)"

definition fc_view :: "fed_coordinator \<Rightarrow> num \<Rightarrow> num \<Rightarrow> string \<Rightarrow> budget_view" where
  "fc_view c W now key = window_view W (fc_budgetFor c key) now (fc_windows c key)"

lemma fc_budgetFor_windows [simp]: "fc_budgetFor (c\<lparr>fc_windows := w\<rparr>) k = fc_budgetFor c k"
  by (simp add: fc_budgetFor_def split: option.split)

lemma fc_windowFor_view:
  fixes now :: num
  assumes "fc_live c W key"
  defines "w \<equiv> fc_windowFor c key (coord_window W now + W)"
  shows "fc_view c W now key = (wi_budgetRemaining w, coord_window W now \<in> set (wi_reconciled w))"
    "wi_expiresAt w = coord_window W now + W" "in_budget (fc_budgetFor c key) (wi_budgetRemaining w)"
  using assms by (auto simp: fc_view_def window_view_def fc_windowFor_def fc_live_def window_ok_def in_budget_def split: option.split)

lemma fc_view_lease:
  fixes now :: num
  assumes live: "fc_live c W key" and n: "0 \<le> n" and h: "fc_healthy c"
  defines "r \<equiv> fc_lease c key (Num n) (coord_window W now + W)"
  shows "fst r = Inr (fst (ref_lease n (fc_view c W now key)))" "fc_view (snd r) W now key = snd (ref_lease n (fc_view c W now key))"
    "fc_live (snd r) W key" "k \<noteq> key \<Longrightarrow> fc_windows (snd r) k = fc_windows c k"
proof -
  note w = fc_windowFor_view[OF live, of now]
  have "0 \<le> wi_budgetRemaining (fc_windowFor c key (coord_window W now + W))" using w(3) by (simp add: in_budget_def)
  then show "fst r = Inr (fst (ref_lease n (fc_view c W now key)))" "fc_view (snd r) W now key = snd (ref_lease n (fc_view c W now key))"
    by (cases "n = 0"; use w(2) n h in \<open>simp add: r_def fc_lease_def Let_def w(1)\<close>;
        simp add: fc_view_def window_view_def)+
  show "fc_live (snd r) W key"
    using live w(3) n h by (auto simp: r_def fc_lease_def Let_def fc_live_def window_ok_def in_budget_def)
  show "k \<noteq> key \<Longrightarrow> fc_windows (snd r) k = fc_windows c k"
    using n h by (simp add: r_def fc_lease_def Let_def)
qed

lemma fc_view_reconcile:
  assumes live: "fc_live c W key" and n: "0 \<le> n" and h: "fc_healthy c"
    and cur: "ws = coord_window W now \<Longrightarrow> \<exists>w. fc_windows c key = Some w \<and> wi_expiresAt w = coord_window W now + W"
    and old: "ws \<le> coord_window W now"
  defines "r \<equiv> fc_reconcile c key (Num n) ws"
  shows "fst r = Inr ()" "fc_view (snd r) W now key =
      (if ws = coord_window W now then ref_reconcile (fc_budgetFor c key) n (fc_view c W now key) else fc_view c W now key)"
    "fc_live (snd r) W key" "k \<noteq> key \<Longrightarrow> fc_windows (snd r) k = fc_windows c k"
proof -
  have W: "fc_windowMs c = Some W" using live by (simp add: fc_live_def)
  show "fst r = Inr ()" using n h by (auto simp: r_def fc_reconcile_def Let_def split: option.split)
  show "fc_live (snd r) W key"
    using live n h by (auto simp: r_def fc_reconcile_def Let_def fc_live_def window_ok_def in_budget_def split: option.split)
  show "k \<noteq> key \<Longrightarrow> fc_windows (snd r) k = fc_windows c k"
    using n h by (auto simp: r_def fc_reconcile_def Let_def split: option.split)
  show "fc_view (snd r) W now key =
      (if ws = coord_window W now then ref_reconcile (fc_budgetFor c key) n (fc_view c W now key) else fc_view c W now key)"
  proof (cases "ws = coord_window W now")
    case True
    then obtain w where "fc_windows c key = Some w" "wi_expiresAt w = coord_window W now + W" using cur by blast
    then show ?thesis using W n h True
      by (auto simp: r_def fc_reconcile_def Let_def fc_view_def window_view_def min.commute)
  next
    case False
    show ?thesis
    proof (cases "fc_windows c key")
      case (Some w)
      show ?thesis
      proof (cases "ws = wi_expiresAt w - W")
        case True
        then have "wi_expiresAt w \<noteq> coord_window W now + W" using False by auto
        then show ?thesis using W n h True False Some
          by (auto simp: r_def fc_reconcile_def Let_def fc_view_def window_view_def)
      qed (use W n h False Some in \<open>simp add: r_def fc_reconcile_def Let_def\<close>)
    qed (use n h False in \<open>simp add: r_def fc_reconcile_def\<close>)
  qed
qed

section \<open>The contract of a coordinator\<close>

text \<open>
  What the engine relies on: \<open>avail t s k\<close> is what is left of key \<open>k\<close>'s budget in the window of time \<open>t\<close>.
  A lease takes at least what it reports from it, a reconciliation of a rolled window gives nothing back,
  and a call that fails has at most taken. The first argument of a call is how it went on the wire.
\<close>

locale budget_authority =
  fixes lease :: "'e \<Rightarrow> 's \<Rightarrow> string \<Rightarrow> num \<Rightarrow> num \<Rightarrow> num result \<times> 's"
    and reconcile :: "'e \<Rightarrow> 's \<Rightarrow> string \<Rightarrow> num \<Rightarrow> num \<Rightarrow> num \<Rightarrow> unit result \<times> 's"
    and avail :: "num \<Rightarrow> 's \<Rightarrow> string \<Rightarrow> num"
    and ok :: "num \<Rightarrow> 's \<Rightarrow> bool"
    and budget :: "string \<Rightarrow> num" and W :: num
  assumes window_pos: "ok t s \<Longrightarrow> 0 < W"
    and lease_ok: "ok t s \<Longrightarrow> t \<le> now \<Longrightarrow> 0 \<le> n \<Longrightarrow> lease e s k n now = (res, s') \<Longrightarrow> ok now s'"
    and lease_grant: "ok t s \<Longrightarrow> t \<le> now \<Longrightarrow> 0 \<le> n \<Longrightarrow> lease e s k n now = (Inr g, s') \<Longrightarrow>
        0 \<le> g \<and> g \<le> n \<and> avail now s' k + g \<le> avail now s k"
    and lease_takes: "ok t s \<Longrightarrow> t \<le> now \<Longrightarrow> 0 \<le> n \<Longrightarrow> lease e s k n now = (res, s') \<Longrightarrow> avail now s' i \<le> avail now s i"
    and reconcile_ok: "ok t s \<Longrightarrow> t \<le> now \<Longrightarrow> 0 \<le> x \<Longrightarrow> reconcile e s k x ws now = (r, s') \<Longrightarrow> ok now s'"
    and reconcile_gives: "ok t s \<Longrightarrow> t \<le> now \<Longrightarrow> 0 \<le> x \<Longrightarrow> ws \<le> coord_window W now \<Longrightarrow> reconcile e s k x ws now = (r, s') \<Longrightarrow>
        avail now s' i \<le> avail now s i + (if i = k \<and> ws = coord_window W now then x else 0)"
    and avail_bounds: "ok t s \<Longrightarrow> 0 \<le> avail t s k \<and> avail t s k \<le> budget k"
    and avail_same: "ok t s \<Longrightarrow> t \<le> t' \<Longrightarrow> coord_window W t' = coord_window W t \<Longrightarrow> avail t' s k = avail t s k"
    and ok_later: "ok t s \<Longrightarrow> t \<le> t' \<Longrightarrow> ok t' s"

text \<open>A run of calls from anywhere, each at its time at the coordinator; the grants that were reported.\<close>

datatype coord_call = Lease string num | Reconcile string num num

fun coord_run ::
  "('e \<Rightarrow> 's \<Rightarrow> string \<Rightarrow> num \<Rightarrow> num \<Rightarrow> num result \<times> 's) \<Rightarrow> ('e \<Rightarrow> 's \<Rightarrow> string \<Rightarrow> num \<Rightarrow> num \<Rightarrow> num \<Rightarrow> unit result \<times> 's) \<Rightarrow>
   's \<Rightarrow> (num \<times> 'e \<times> coord_call) list \<Rightarrow> (num \<times> string \<times> num) list" where
  "coord_run lease reconcile s [] = []"
| "coord_run lease reconcile s ((now, e, Lease k n) # cs) =
     (case lease e s k n now of
        (Inl _, s') \<Rightarrow> coord_run lease reconcile s' cs
      | (Inr g, s') \<Rightarrow> (now, k, g) # coord_run lease reconcile s' cs)"
| "coord_run lease reconcile s ((now, e, Reconcile k x ws) # cs) =
     coord_run lease reconcile (snd (reconcile e s k x ws now)) cs"

definition granted_in :: "num \<Rightarrow> num \<Rightarrow> string \<Rightarrow> (num \<times> string \<times> num) list \<Rightarrow> num" where
  "granted_in W c k gs = (\<Sum>(t, i, g)\<leftarrow>gs. if i = k \<and> coord_window W t = c then g else 0)"

text \<open>What was sent back into the window that runs.\<close>

fun call_credit :: "num \<Rightarrow> num \<Rightarrow> string \<Rightarrow> num \<times> 'e \<times> coord_call \<Rightarrow> num" where
  "call_credit W c k (t, e, Reconcile i x ws) = (if i = k \<and> ws = c \<and> coord_window W t = c then x else 0)"
| "call_credit W c k (t, e, Lease i n) = 0"

definition credited_in :: "num \<Rightarrow> num \<Rightarrow> string \<Rightarrow> (num \<times> 'e \<times> coord_call) list \<Rightarrow> num" where
  "credited_in W c k cs = (\<Sum>x\<leftarrow>cs. call_credit W c k x)"

text \<open>Calls in the order of their times, of amounts that are not negative, and of windows that began.\<close>

fun calls_ok :: "num \<Rightarrow> num \<Rightarrow> (num \<times> 'e \<times> coord_call) list \<Rightarrow> bool" where
  "calls_ok W t [] \<longleftrightarrow> True"
| "calls_ok W t ((now, e, Lease k n) # cs) \<longleftrightarrow> t \<le> now \<and> 0 \<le> n \<and> calls_ok W now cs"
| "calls_ok W t ((now, e, Reconcile k x ws) # cs) \<longleftrightarrow> t \<le> now \<and> 0 \<le> x \<and> ws \<le> coord_window W now \<and> calls_ok W now cs"

lemma credited_in_simps [simp]:
  "credited_in W c k [] = 0"
  "credited_in W c k (x # cs) = call_credit W c k x + credited_in W c k cs"
  by (simp_all add: credited_in_def)

lemma granted_in_simps [simp]:
  "granted_in W c k [] = 0"
  "granted_in W c k ((t, i, g) # gs) = (if i = k \<and> coord_window W t = c then g else 0) + granted_in W c k gs"
  by (simp_all add: granted_in_def)

context budget_authority
begin

text \<open>What the window \<open>c\<close> can still grant at time \<open>t\<close>.\<close>

definition stock :: "num \<Rightarrow> 's \<Rightarrow> num \<Rightarrow> string \<Rightarrow> num" where
  "stock t s c k = (if coord_window W t = c then avail t s k else if coord_window W t < c then budget k else 0)"

lemma stock_later: "ok t s \<Longrightarrow> t \<le> t' \<Longrightarrow> stock t' s c k \<le> stock t s c k"
  using avail_bounds[of t s k] avail_bounds[of t' s k] ok_later[of t s t'] coord_window_mono[OF window_pos, of t s t t']
    avail_same[of t s t' k]
  by (auto simp: stock_def)

lemma run_granted:
  "ok t s \<Longrightarrow> calls_ok W t cs \<Longrightarrow> granted_in W c k (coord_run lease reconcile s cs) \<le> stock t s c k + credited_in W c k cs"
proof (induction cs arbitrary: t s)
  case Nil
  then show ?case using avail_bounds[of t s k] by (auto simp: stock_def)
next
  case (Cons x cs)
  obtain now e call where x: "x = (now, e, call)" by (metis prod.exhaust)
  have t: "t \<le> now" using Cons.prems(2) by (cases call) (simp_all add: x)
  have later: "stock now s c k \<le> stock t s c k" by (rule stock_later[OF Cons.prems(1) t])
  show ?case
  proof (cases call)
    case (Lease i n)
    obtain res s' where r: "lease e s i n now = (res, s')" by (metis surj_pair)
    have n: "0 \<le> n" using Cons.prems(2) by (simp add: x Lease)
    note laws = lease_ok[OF Cons.prems(1) t n r] lease_takes[OF Cons.prems(1) t n r, of k]
    have IH: "granted_in W c k (coord_run lease reconcile s' cs) \<le> stock now s' c k + credited_in W c k cs"
      using Cons.IH[OF laws(1)] Cons.prems(2) by (simp add: x Lease)
    show ?thesis
    proof (cases res)
      case (Inr g)
      have "stock now s' c k + (if i = k \<and> coord_window W now = c then g else 0) \<le> stock now s c k"
        using lease_grant[OF Cons.prems(1) t n, of e i g s'] r laws(2) by (auto simp: stock_def Inr)
      then show ?thesis using IH later by (simp add: x Lease r Inr)
    qed (use IH later laws(2) in \<open>auto simp: x Lease r stock_def split: if_splits\<close>)
  next
    case (Reconcile i y ws)
    obtain res s' where r: "reconcile e s i y ws now = (res, s')" by (metis surj_pair)
    have y: "0 \<le> y" "ws \<le> coord_window W now" using Cons.prems(2) by (simp_all add: x Reconcile)
    note laws = reconcile_ok[OF Cons.prems(1) t y(1) r] reconcile_gives[OF Cons.prems(1) t y r, of k]
    have "granted_in W c k (coord_run lease reconcile s' cs) \<le> stock now s' c k + credited_in W c k cs"
      using Cons.IH[OF laws(1)] Cons.prems(2) by (simp add: x Reconcile)
    moreover have "stock now s' c k \<le> stock now s c k + call_credit W c k x"
      using laws(2) y(1) by (auto simp: stock_def x Reconcile)
    ultimately show ?thesis using later by (simp add: x Reconcile r)
  qed
qed

lemma window_granted:
  assumes "ok t s" "calls_ok W t cs"
  shows "granted_in W c k (coord_run lease reconcile s cs) \<le> budget k + credited_in W c k cs"
proof -
  have "stock t s c k \<le> budget k" using avail_bounds[OF assms(1), of k] by (auto simp: stock_def)
  then show ?thesis using run_granted[OF assms, of c k] by linarith
qed

end

section \<open>The three coordinators meet it\<close>

lemma ref_lease_facts:
  assumes "in_budget B (fst v)" "0 \<le> n"
  shows "0 \<le> fst (ref_lease n v)" "fst (ref_lease n v) \<le> n" "fst (snd (ref_lease n v)) + fst (ref_lease n v) = fst v"
    "fst (snd (ref_lease n v)) \<le> fst v"
  using assms by (cases v; simp add: in_budget_def)+

lemma ref_reconcile_le: "0 \<le> x \<Longrightarrow> fst (ref_reconcile B x v) \<le> fst v + x"
  by (cases v) auto

lemma script_call_cases:
  assumes "script_call link name key db (reply, h, pexp) = (res, db')"
  shows "(db' = db \<and> res = Inl (StoreUnavailableError name)) \<or> (db' = db(key := h) \<and> (res = Inr reply \<or> res = Inl (StoreUnavailableError name)))"
  using assms by (auto simp: script_call_def split: link.splits if_splits)

lemma map_first_cases:
  assumes "map_first f r = (res, s)"
  shows "(\<exists>e. r = (Inl e, s) \<and> res = Inl e) \<or> (\<exists>x. r = (Inr x, s) \<and> res = Inr (f x))"
  using assms by (cases r; cases "fst r") (auto simp: map_first_def)

text \<open>Redis: the script's time is the process's or the server's; \<open>srv\<close> is what \<open>TIME\<close> returns.\<close>

definition rk_ok :: "redis_coord \<Rightarrow> (num \<Rightarrow> num \<times> num) \<Rightarrow> num \<Rightarrow> (string \<Rightarrow> coord_hash) \<Rightarrow> bool" where
  "rk_ok q srv t db \<longleftrightarrow> 0 < rk_windowMs q \<and> (\<forall>u\<ge>t. lua_now (if rk_serverTime q then 0 else u) (srv u) = u) \<and>
     (\<forall>k. hash_ok (rk_windowMs q) (rk_budgetFor q k) (db (rk_key q k)))"

definition rk_avail :: "redis_coord \<Rightarrow> num \<Rightarrow> (string \<Rightarrow> coord_hash) \<Rightarrow> string \<Rightarrow> num" where
  "rk_avail q t db k = fst (hash_view (rk_windowMs q) (rk_budgetFor q k) t (db (rk_key q k)))"

definition rk_lease_at :: "redis_coord \<Rightarrow> (num \<Rightarrow> num \<times> num) \<Rightarrow> link \<Rightarrow> (string \<Rightarrow> coord_hash) \<Rightarrow> string \<Rightarrow> num \<Rightarrow> num \<Rightarrow> num result \<times> (string \<Rightarrow> coord_hash)" where
  "rk_lease_at q srv link db k n now = rk_lease q db k (Num n) now (srv now) link"

definition rk_reconcile_at ::
  "redis_coord \<Rightarrow> (num \<Rightarrow> num \<times> num) \<Rightarrow> link \<Rightarrow> (string \<Rightarrow> coord_hash) \<Rightarrow> string \<Rightarrow> num \<Rightarrow> num \<Rightarrow> num \<Rightarrow> unit result \<times> (string \<Rightarrow> coord_hash)" where
  "rk_reconcile_at q srv link db k x ws now = rk_reconcile q db k (Num x) ws now (srv now) link"

lemma rk_key_inj [simp]: "rk_key q k = rk_key q i \<longleftrightarrow> k = i"
  by (simp add: rk_key_def)

lemma pk_key_inj [simp]: "pk_key q k = pk_key q i \<longleftrightarrow> k = i"
  by (simp add: pk_key_def)

lemma rk_lease_cases:
  assumes ok: "rk_ok q srv t db" and t: "t \<le> now" and n: "0 \<le> n"
    and r: "rk_lease_at q srv link db k n now = (res, db')"
  shows "rk_ok q srv now db'"
    "db' = db \<and> (res = Inr 0 \<and> n = 0 \<or> (\<exists>e. res = Inl e)) \<or>
     (\<exists>h. db' = db(rk_key q k := h) \<and> hash_view (rk_windowMs q) (rk_budgetFor q k) now h =
            snd (ref_lease n (hash_view (rk_windowMs q) (rk_budgetFor q k) now (db (rk_key q k)))) \<and>
          (res = Inr (redis_int (fst (ref_lease n (hash_view (rk_windowMs q) (rk_budgetFor q k) now (db (rk_key q k)))))) \<or> (\<exists>e. res = Inl e)))"
proof -
  let ?W = "rk_windowMs q" and ?B = "rk_budgetFor q k" and ?h = "db (rk_key q k)"
  have now: "lua_now (if rk_serverTime q then 0 else now) (srv now) = now" and h: "hash_ok ?W ?B ?h"
    using ok t by (auto simp: rk_ok_def)
  obtain h' pexp where h': "lease_lua (if rk_serverTime q then 0 else now) n ?W ?B (srv now) ?h =
      ((redis_int (fst (ref_lease n (hash_view ?W ?B now ?h))), redis_int (coord_window ?W now + ?W)), h', pexp)"
      "hash_view ?W ?B now h' = snd (ref_lease n (hash_view ?W ?B now ?h))" "hash_ok ?W ?B h'"
    using hash_view_eq[OF now h n] by blast
  have cases: "n = 0 \<and> res = Inr 0 \<and> db' = db \<or> db' = db \<and> (\<exists>e. res = Inl e) \<or>
      db' = db(rk_key q k := h') \<and> (res = Inr (redis_int (fst (ref_lease n (hash_view ?W ?B now ?h)))) \<or> (\<exists>e. res = Inl e))"
  proof (cases "n = 0")
    case False
    then have "map_first fst (script_call link ''lease'' (rk_key q k) db
        ((redis_int (fst (ref_lease n (hash_view ?W ?B now ?h))), redis_int (coord_window ?W now + ?W)), h', pexp)) = (res, db')"
      using r n by (simp add: rk_lease_at_def rk_lease_def rk_leaseImpl_def h'(1))
    then show ?thesis by (auto dest!: map_first_cases script_call_cases)
  qed (use r in \<open>simp add: rk_lease_at_def rk_lease_def\<close>)
  have "rk_ok q srv now db" "rk_ok q srv now (db(rk_key q k := h'))"
    using ok t h'(3) by (auto simp: rk_ok_def)
  then show "rk_ok q srv now db'" using cases by auto
  show "db' = db \<and> (res = Inr 0 \<and> n = 0 \<or> (\<exists>e. res = Inl e)) \<or>
     (\<exists>h. db' = db(rk_key q k := h) \<and> hash_view ?W ?B now h = snd (ref_lease n (hash_view ?W ?B now ?h)) \<and>
          (res = Inr (redis_int (fst (ref_lease n (hash_view ?W ?B now ?h)))) \<or> (\<exists>e. res = Inl e)))"
    using cases h'(2) by blast
qed

lemma rk_reconcile_cases:
  assumes ok: "rk_ok q srv t db" and t: "t \<le> now" and x: "0 \<le> x"
    and r: "rk_reconcile_at q srv link db k x ws now = (res, db')"
  shows "rk_ok q srv now db'"
    "db' = db \<or> (\<exists>h. db' = db(rk_key q k := h) \<and> hash_view (rk_windowMs q) (rk_budgetFor q k) now h =
      (if ws = coord_window (rk_windowMs q) now then ref_reconcile (rk_budgetFor q k) x (hash_view (rk_windowMs q) (rk_budgetFor q k) now (db (rk_key q k)))
       else hash_view (rk_windowMs q) (rk_budgetFor q k) now (db (rk_key q k))))"
proof -
  let ?W = "rk_windowMs q" and ?B = "rk_budgetFor q k" and ?h = "db (rk_key q k)"
  have now: "lua_now (if rk_serverTime q then 0 else now) (srv now) = now" and h: "hash_ok ?W ?B ?h"
    using ok t by (auto simp: rk_ok_def)
  obtain v h' pexp where h': "reconcile_lua (if rk_serverTime q then 0 else now) x ws ?W ?B (srv now) ?h = (v, h', pexp)" "hash_ok ?W ?B h'"
      "hash_view ?W ?B now h' = (if ws = coord_window ?W now then ref_reconcile ?B x (hash_view ?W ?B now ?h) else hash_view ?W ?B now ?h)"
    using hash_view_reconcile[OF now h x, of ws] by blast
  have cases: "db' = db \<or> db' = db(rk_key q k := h')"
  proof (cases "x = 0")
    case False
    then have "map_first (\<lambda>_. ()) (script_call link ''reconcile'' (rk_key q k) db (v, h', pexp)) = (res, db')"
      using r x by (simp add: rk_reconcile_at_def rk_reconcile_def h'(1))
    then show ?thesis by (auto dest!: map_first_cases script_call_cases)
  qed (use r in \<open>simp add: rk_reconcile_at_def rk_reconcile_def\<close>)
  have "rk_ok q srv now db" "rk_ok q srv now (db(rk_key q k := h'))"
    using ok t h'(2) by (auto simp: rk_ok_def)
  then show "rk_ok q srv now db'" using cases by auto
  show "db' = db \<or> (\<exists>h. db' = db(rk_key q k := h) \<and> hash_view ?W ?B now h =
      (if ws = coord_window ?W now then ref_reconcile ?B x (hash_view ?W ?B now ?h) else hash_view ?W ?B now ?h))"
    using cases h'(3) by blast
qed

lemma redis_int_le: "0 \<le> x \<Longrightarrow> 0 \<le> redis_int x \<and> redis_int x \<le> x"
  by (simp add: redis_int_def js_floor_le)

lemma rk_avail_put:
  "rk_avail q t (db(rk_key q k := h)) i =
     (if i = k then fst (hash_view (rk_windowMs q) (rk_budgetFor q k) t h) else rk_avail q t db i)"
  by (simp add: rk_avail_def)

lemma rk_avail_bounds: "rk_ok q srv t db \<Longrightarrow> in_budget (rk_budgetFor q k) (rk_avail q u db k)"
  by (simp add: rk_ok_def rk_avail_def hash_view_bounds)

interpretation rk: budget_authority "rk_lease_at q srv" "rk_reconcile_at q srv" "rk_avail q" "rk_ok q srv" "rk_budgetFor q" "rk_windowMs q"
  for q srv
proof
  fix t now n :: num and e :: link and db db' :: "string \<Rightarrow> coord_hash" and k i :: string
  assume a: "rk_ok q srv t db" "t \<le> now" "0 \<le> n"
  note spec = rk_lease_cases[OF a]
  note facts = ref_lease_facts[OF rk_avail_bounds[OF a(1), of k now, unfolded rk_avail_def] a(3)]
  show "rk_lease_at q srv e db k n now = (res, db') \<Longrightarrow> rk_ok q srv now db'" for res using spec(1) by blast
  show "rk_lease_at q srv e db k n now = (Inr g, db') \<Longrightarrow> 0 \<le> g \<and> g \<le> n \<and> rk_avail q now db' k + g \<le> rk_avail q now db k" for g
    using spec(2)[of e k "Inr g" db'] facts redis_int_le[OF facts(1)] by (auto simp: rk_avail_def)
  show "rk_lease_at q srv e db k n now = (res, db') \<Longrightarrow> rk_avail q now db' i \<le> rk_avail q now db i" for res
    using spec(2)[of e k res db'] facts(4) by (auto simp: rk_avail_def)
next
  fix t now x ws :: num and e :: link and db db' :: "string \<Rightarrow> coord_hash" and k i :: string and res :: "unit result"
  assume a: "rk_ok q srv t db" "t \<le> now" "0 \<le> x"
  note spec = rk_reconcile_cases[OF a]
  show "rk_reconcile_at q srv e db k x ws now = (res, db') \<Longrightarrow> rk_ok q srv now db'" using spec(1) by blast
  show "rk_reconcile_at q srv e db k x ws now = (res, db') \<Longrightarrow>
      rk_avail q now db' i \<le> rk_avail q now db i + (if i = k \<and> ws = coord_window (rk_windowMs q) now then x else 0)"
    using spec(2)[of e k ws res db'] a(3)
      ref_reconcile_le[OF a(3), of "rk_budgetFor q k" "hash_view (rk_windowMs q) (rk_budgetFor q k) now (db (rk_key q k))"]
    by (auto simp: rk_avail_def)
next
  fix t t' :: num and db :: "string \<Rightarrow> coord_hash" and k :: string
  assume ok: "rk_ok q srv t db"
  show "0 < rk_windowMs q" using ok by (simp add: rk_ok_def)
  show "0 \<le> rk_avail q t db k \<and> rk_avail q t db k \<le> rk_budgetFor q k" using rk_avail_bounds[OF ok] by (simp add: in_budget_def)
  show "t \<le> t' \<Longrightarrow> rk_ok q srv t' db" using ok by (auto simp: rk_ok_def)
  show "coord_window (rk_windowMs q) t' = coord_window (rk_windowMs q) t \<Longrightarrow> rk_avail q t' db k = rk_avail q t db k"
    unfolding rk_avail_def by (intro arg_cong[of _ _ fst] same_window_view)
qed

text \<open>Postgres.\<close>

definition pk_ok :: "pg_coord \<Rightarrow> num \<Rightarrow> pg_budgets \<Rightarrow> bool" where
  "pk_ok q t tb \<longleftrightarrow> 0 < pk_windowMs q \<and> (\<forall>k. row_ok (pk_windowMs q) (pk_budgetFor q k) (tb (pk_key q k)))"

definition pk_avail :: "pg_coord \<Rightarrow> num \<Rightarrow> pg_budgets \<Rightarrow> string \<Rightarrow> num" where
  "pk_avail q t tb k = fst (row_view (pk_windowMs q) (pk_budgetFor q k) t (tb (pk_key q k)))"

definition pk_lease_at :: "pg_coord \<Rightarrow> link \<Rightarrow> pg_budgets \<Rightarrow> string \<Rightarrow> num \<Rightarrow> num \<Rightarrow> num result \<times> pg_budgets" where
  "pk_lease_at q link tb k n now = pk_lease q tb k (Num n) now link"

definition pk_reconcile_at :: "pg_coord \<Rightarrow> link \<Rightarrow> pg_budgets \<Rightarrow> string \<Rightarrow> num \<Rightarrow> num \<Rightarrow> num \<Rightarrow> unit result \<times> pg_budgets" where
  "pk_reconcile_at q link tb k x ws now = pk_reconcile q tb k (Num x) ws now link"

lemma row_view_bounds: "row_ok W B r \<Longrightarrow> in_budget B (fst (row_view W B now r))"
  by (auto simp: row_ok_def row_view_def in_budget_def split: option.splits)

lemma pk_avail_bounds: "pk_ok q t tb \<Longrightarrow> in_budget (pk_budgetFor q k) (pk_avail q u tb k)"
  by (simp add: pk_ok_def pk_avail_def row_view_bounds)

lemma txn_call_cases:
  assumes "txn_call link name key t out = (res, t')"
  shows "(t' = t \<and> (\<exists>e. res = Inl e)) \<or> (\<exists>reply row. out = Some (reply, row) \<and> t' = t(key := row) \<and> (res = Inr reply \<or> (\<exists>e. res = Inl e)))"
  using assms by (auto simp: txn_call_def split: link.splits option.splits)

lemma pk_lease_cases:
  assumes ok: "pk_ok q t tb" and n: "0 \<le> n" and r: "pk_lease_at q link tb k n now = (res, tb')"
  shows "pk_ok q now tb'"
    "tb' = tb \<and> (res = Inr 0 \<and> n = 0 \<or> (\<exists>e. res = Inl e)) \<or>
     (\<exists>row. tb' = tb(pk_key q k := Some row) \<and> row_view (pk_windowMs q) (pk_budgetFor q k) now (Some row) =
            snd (ref_lease n (row_view (pk_windowMs q) (pk_budgetFor q k) now (tb (pk_key q k)))) \<and>
          (res = Inr (fst (ref_lease n (row_view (pk_windowMs q) (pk_budgetFor q k) now (tb (pk_key q k))))) \<or> (\<exists>e. res = Inl e)))"
proof -
  let ?W = "pk_windowMs q" and ?B = "pk_budgetFor q k" and ?r = "tb (pk_key q k)"
  have row: "row_ok ?W ?B ?r" using ok by (simp add: pk_ok_def)
  have cases: "tb' = tb \<and> (res = Inr 0 \<and> n = 0 \<or> (\<exists>e. res = Inl e)) \<or>
      (\<exists>g x r'. pk_lease_txn ?W ?B ?r n now = Some ((g, x), r') \<and> tb' = tb(pk_key q k := Some r') \<and> (res = Inr g \<or> (\<exists>e. res = Inl e)))"
  proof (cases "n = 0")
    case False
    then have "map_first fst (pk_leaseImpl q tb k n now link) = (res, tb')"
      using r n by (simp add: pk_lease_at_def pk_lease_def)
    then show ?thesis
      by (auto simp: pk_leaseImpl_def dest!: map_first_cases txn_call_cases)
  qed (use r in \<open>simp add: pk_lease_at_def pk_lease_def\<close>)
  then show "tb' = tb \<and> (res = Inr 0 \<and> n = 0 \<or> (\<exists>e. res = Inl e)) \<or>
     (\<exists>row. tb' = tb(pk_key q k := Some row) \<and> row_view ?W ?B now (Some row) = snd (ref_lease n (row_view ?W ?B now ?r)) \<and>
          (res = Inr (fst (ref_lease n (row_view ?W ?B now ?r))) \<or> (\<exists>e. res = Inl e)))"
    using row_view_lease(1)[OF row n] by (metis fst_conv snd_conv)
  show "pk_ok q now tb'"
    using cases ok row_view_lease(2)[OF row n] by (auto simp: pk_ok_def)
qed

lemma pk_reconcile_cases:
  assumes ok: "pk_ok q t tb" and x: "0 \<le> x" and r: "pk_reconcile_at q link tb k x ws now = (res, tb')"
  shows "pk_ok q now tb'"
    "tb' = tb \<or> (\<exists>row. tb' = tb(pk_key q k := row) \<and> row_view (pk_windowMs q) (pk_budgetFor q k) now row =
      (if ws = coord_window (pk_windowMs q) now then ref_reconcile (pk_budgetFor q k) x (row_view (pk_windowMs q) (pk_budgetFor q k) now (tb (pk_key q k)))
       else row_view (pk_windowMs q) (pk_budgetFor q k) now (tb (pk_key q k))))"
proof -
  let ?W = "pk_windowMs q" and ?B = "pk_budgetFor q k" and ?r = "tb (pk_key q k)"
  have row: "row_ok ?W ?B ?r" using ok by (simp add: pk_ok_def)
  have cases: "tb' = tb \<or> (\<exists>r'. pk_reconcile_txn ?W ?B ?r x ws now = Some r' \<and> tb' = tb(pk_key q k := r'))"
    using r x by (auto simp: pk_reconcile_at_def pk_reconcile_def dest!: txn_call_cases split: if_splits)
  then show "tb' = tb \<or> (\<exists>row. tb' = tb(pk_key q k := row) \<and> row_view ?W ?B now row =
      (if ws = coord_window ?W now then ref_reconcile ?B x (row_view ?W ?B now ?r) else row_view ?W ?B now ?r))"
    using row_view_reconcile(1)[OF row x] by blast
  show "pk_ok q now tb'" using cases ok row_view_reconcile(2)[OF row x] by (auto simp: pk_ok_def)
qed

interpretation pk: budget_authority "pk_lease_at q" "pk_reconcile_at q" "pk_avail q" "pk_ok q" "pk_budgetFor q" "pk_windowMs q" for q
proof
  fix t now n :: num and e :: link and tb tb' :: pg_budgets and k i :: string
  assume a: "pk_ok q t tb" "t \<le> now" "0 \<le> n"
  note spec = pk_lease_cases[OF a(1,3)]
  note facts = ref_lease_facts[OF pk_avail_bounds[OF a(1), of k now, unfolded pk_avail_def] a(3)]
  show "pk_lease_at q e tb k n now = (res, tb') \<Longrightarrow> pk_ok q now tb'" for res using spec(1) by blast
  show "pk_lease_at q e tb k n now = (Inr g, tb') \<Longrightarrow> 0 \<le> g \<and> g \<le> n \<and> pk_avail q now tb' k + g \<le> pk_avail q now tb k" for g
    using spec(2)[of e k now "Inr g" tb'] facts a(3) by (auto simp: pk_avail_def)
  show "pk_lease_at q e tb k n now = (res, tb') \<Longrightarrow> pk_avail q now tb' i \<le> pk_avail q now tb i" for res
    using spec(2)[of e k now res tb'] facts(4) by (auto simp: pk_avail_def)
next
  fix t now x ws :: num and e :: link and tb tb' :: pg_budgets and k i :: string and res :: "unit result"
  assume a: "pk_ok q t tb" "t \<le> now" "0 \<le> x"
  note spec = pk_reconcile_cases[OF a(1,3)]
  show "pk_reconcile_at q e tb k x ws now = (res, tb') \<Longrightarrow> pk_ok q now tb'" using spec(1) by blast
  show "pk_reconcile_at q e tb k x ws now = (res, tb') \<Longrightarrow>
      pk_avail q now tb' i \<le> pk_avail q now tb i + (if i = k \<and> ws = coord_window (pk_windowMs q) now then x else 0)"
    using spec(2)[of e k ws now res tb'] a(3)
      ref_reconcile_le[OF a(3), of "pk_budgetFor q k" "row_view (pk_windowMs q) (pk_budgetFor q k) now (tb (pk_key q k))"]
    by (auto simp: pk_avail_def)
next
  fix t t' :: num and tb :: pg_budgets and k :: string
  assume ok: "pk_ok q t tb"
  show "0 < pk_windowMs q" using ok by (simp add: pk_ok_def)
  show "0 \<le> pk_avail q t tb k \<and> pk_avail q t tb k \<le> pk_budgetFor q k" using pk_avail_bounds[OF ok] by (simp add: in_budget_def)
  show "t \<le> t' \<Longrightarrow> pk_ok q t' tb" using ok by (simp add: pk_ok_def)
  show "coord_window (pk_windowMs q) t' = coord_window (pk_windowMs q) t \<Longrightarrow> pk_avail q t' tb k = pk_avail q t tb k"
    unfolding pk_avail_def by (intro arg_cong[of _ _ fst] same_window_view)
qed

text \<open>What the two stores forget by themselves is over: an expired hash, a row the sweep removes.\<close>

lemma expired_hash_view: "0 < W \<Longrightarrow> map_of h F_expiresAt = Some x \<Longrightarrow> x \<le> now \<Longrightarrow> hash_view W B now [] = hash_view W B now h"
  using coord_window_bounds(2)[of W now] by (auto simp: hash_view_def split: option.split)

lemma pk_gc_view:
  assumes "0 < pk_windowMs q" "0 \<le> pk_gcRetentionMs q"
  shows "row_view (pk_windowMs q) B now (pk_gc q tb now k) = row_view (pk_windowMs q) B now (tb k)"
  using assms coord_window_bounds(2)[of "pk_windowMs q" now]
  by (auto simp: row_view_def pk_gc_def Let_def split: option.split)

text \<open>The in-memory one, healthy or not, called with the end of the window that runs.\<close>

definition fc_ok :: "num \<Rightarrow> (string \<Rightarrow> num) \<Rightarrow> fed_coordinator \<Rightarrow> bool" where
  "fc_ok W B c \<longleftrightarrow> 0 < W \<and> (\<forall>k. fc_live c W k \<and> fc_budgetFor c k = B k)"

definition fc_lease_at :: "num \<Rightarrow> bool \<Rightarrow> fed_coordinator \<Rightarrow> string \<Rightarrow> num \<Rightarrow> num \<Rightarrow> num result \<times> fed_coordinator" where
  "fc_lease_at W healthy c k n now = fc_lease (fc_setHealthy c healthy) k (Num n) (coord_window W now + W)"

definition fc_reconcile_at :: "bool \<Rightarrow> fed_coordinator \<Rightarrow> string \<Rightarrow> num \<Rightarrow> num \<Rightarrow> num \<Rightarrow> unit result \<times> fed_coordinator" where
  "fc_reconcile_at healthy c k x ws now = fc_reconcile (fc_setHealthy c healthy) k (Num x) ws"

lemma fc_setHealthy_simps [simp]:
  "fc_live (fc_setHealthy c b) W k = fc_live c W k" "fc_view (fc_setHealthy c b) W now k = fc_view c W now k"
  "fc_budgetFor (fc_setHealthy c b) k = fc_budgetFor c k" "fc_healthy (fc_setHealthy c b) = b" "fc_windowMs (fc_setHealthy c b) = fc_windowMs c"
  "fc_windows (fc_setHealthy c b) = fc_windows c"
  by (simp_all add: fc_setHealthy_def fc_live_def fc_view_def fc_budgetFor_def cong: option.case_cong)

lemma fc_budgetFor_call [simp]:
  "fc_budgetFor (snd (fc_lease c k n x)) i = fc_budgetFor c i" "fc_budgetFor (snd (fc_reconcile c k n ws)) i = fc_budgetFor c i"
  by (simp_all add: fc_lease_def fc_reconcile_def Let_def split: sum.split option.split)

lemma fc_windowMs_call [simp]:
  "fc_windowMs (snd (fc_lease c k n x)) = fc_windowMs c" "fc_windowMs (snd (fc_reconcile c k n ws)) = fc_windowMs c"
  by (simp_all add: fc_lease_def fc_reconcile_def Let_def split: sum.split option.split)

lemma fc_other:
  "i \<noteq> k \<Longrightarrow> fc_windows (snd (fc_lease c k n x)) i = fc_windows c i" "i \<noteq> k \<Longrightarrow> fc_windows (snd (fc_reconcile c k n ws)) i = fc_windows c i"
  by (simp_all add: fc_lease_def fc_reconcile_def Let_def split: sum.split option.split)

lemma fc_other_view:
  "i \<noteq> k \<Longrightarrow> fc_view (snd (fc_lease c k n x)) W now i = fc_view c W now i"
  "i \<noteq> k \<Longrightarrow> fc_view (snd (fc_reconcile c k n ws)) W now i = fc_view c W now i"
  "i \<noteq> k \<Longrightarrow> fc_live (snd (fc_lease c k n x)) W i = fc_live c W i"
  "i \<noteq> k \<Longrightarrow> fc_live (snd (fc_reconcile c k n ws)) W i = fc_live c W i"
  by (simp_all add: fc_view_def fc_live_def fc_other)

lemma fc_lease_spec:
  assumes ok: "fc_ok W B c" and n: "0 \<le> n" and r: "fc_lease_at W e c k n now = (res, c')"
  shows "fc_ok W B c'" "i \<noteq> k \<Longrightarrow> fc_view c' W now i = fc_view c W now i"
    "e \<Longrightarrow> res = Inr (fst (ref_lease n (fc_view c W now k)))" "e \<Longrightarrow> fc_view c' W now k = snd (ref_lease n (fc_view c W now k))"
    "\<not> e \<Longrightarrow> (\<exists>x. res = Inl x) \<and> fc_view c' W now k = fc_view c W now k"
proof -
  let ?c = "fc_setHealthy c e"
  have r': "res = fst (fc_lease ?c k (Num n) (coord_window W now + W))" "c' = snd (fc_lease ?c k (Num n) (coord_window W now + W))"
    using r by (simp_all add: fc_lease_at_def)
  have live: "fc_live ?c W i" for i using ok by (simp add: fc_ok_def)
  note spec = fc_view_lease[OF live[of k] n, where now = now, folded r']
  have down: "res = Inl (StoreUnavailableError k) \<and> c' = ?c" if "\<not> e" using that by (simp add: r' fc_lease_def)
  have "fc_live c' W j" for j
    using spec(3) down live[of j] by (cases "j = k"; cases e) (simp_all add: r' fc_other_view)
  then show "fc_ok W B c'" using ok by (simp add: fc_ok_def r')
  show "i \<noteq> k \<Longrightarrow> fc_view c' W now i = fc_view c W now i" by (simp add: r' fc_other_view)
  show "e \<Longrightarrow> res = Inr (fst (ref_lease n (fc_view c W now k)))" "e \<Longrightarrow> fc_view c' W now k = snd (ref_lease n (fc_view c W now k))"
    using spec by simp_all
  show "\<not> e \<Longrightarrow> (\<exists>x. res = Inl x) \<and> fc_view c' W now k = fc_view c W now k" using down by simp
qed

lemma fc_reconcile_spec:
  assumes ok: "fc_ok W B c" and x: "0 \<le> x" and r: "fc_reconcile_at e c k x ws now = (res, c')"
  shows "fc_ok W B c'" "i \<noteq> k \<Longrightarrow> fc_view c' W now i = fc_view c W now i"
    "ws < coord_window W now \<Longrightarrow> fc_view c' W now k = fc_view c W now k"
    "ws \<le> coord_window W now \<Longrightarrow> fst (fc_view c' W now k) \<le> fst (fc_view c W now k) + (if ws = coord_window W now then x else 0)"
proof -
  let ?c = "fc_setHealthy c e" and ?cw = "coord_window W now"
  have c': "c' = snd (fc_reconcile ?c k (Num x) ws)" using r by (simp add: fc_reconcile_at_def)
  have live: "fc_live ?c W i" for i using ok by (simp add: fc_ok_def)
  have down: "c' = ?c" if "\<not> e" using that by (simp add: c' fc_reconcile_def)
  have W: "fc_windowMs c = Some W" using live[of k] by (simp add: fc_live_def fc_setHealthy_def)
  have none: "c' = ?c" if "e" "ws = ?cw" "\<nexists>w. fc_windows ?c k = Some w \<and> wi_expiresAt w = ?cw + W"
    using that W x by (cases "fc_windows c k") (auto simp: c' fc_reconcile_def)
  note spec = fc_view_reconcile[OF live[of k] x, where ws = ws and now = now, folded c']
  have "fc_live c' W k"
  proof (cases "e \<and> (ws = ?cw \<longrightarrow> (\<exists>w. fc_windows ?c k = Some w \<and> wi_expiresAt w = ?cw + W)) \<and> ws \<le> ?cw")
    case False
    then consider "\<not> e" | "e" "ws = ?cw" "\<nexists>w. fc_windows ?c k = Some w \<and> wi_expiresAt w = ?cw + W" | "e" "?cw < ws" by fastforce
    then show ?thesis
    proof cases
      case 3
      show ?thesis using live[of k] x 3
        by (auto simp: c' fc_reconcile_def Let_def fc_live_def window_ok_def in_budget_def split: option.split)
    qed (use live[of k] down none in simp_all)
  qed (use spec in auto)
  then have "fc_live c' W j" for j using live[of j] by (cases "j = k") (simp_all add: c' fc_other_view)
  then show "fc_ok W B c'" using ok by (simp add: fc_ok_def c')
  show "i \<noteq> k \<Longrightarrow> fc_view c' W now i = fc_view c W now i" by (simp add: c' fc_other_view)
  show old: "fc_view c' W now k = fc_view c W now k" if "ws < ?cw"
    using spec(2) down that by (cases e) auto
  show "fst (fc_view c' W now k) \<le> fst (fc_view c W now k) + (if ws = ?cw then x else 0)" if "ws \<le> ?cw"
  proof (cases "e \<and> ws = ?cw \<and> (\<exists>w. fc_windows ?c k = Some w \<and> wi_expiresAt w = ?cw + W)")
    case True
    then have "fc_view c' W now k = ref_reconcile (fc_budgetFor c k) x (fc_view c W now k)" using spec(2) by simp
    then show ?thesis using ref_reconcile_le[OF x, of "fc_budgetFor c k" "fc_view c W now k"] True by simp
  next
    case False
    then have "fc_view c' W now k = fc_view c W now k"
      using none old down that by (cases "ws < ?cw"; cases e) auto
    then show ?thesis using x by simp
  qed
qed

interpretation fc: budget_authority "fc_lease_at W" fc_reconcile_at "\<lambda>t c k. fst (fc_view c W t k)" "\<lambda>t. fc_ok W B" B W for W B
proof
  fix t now n :: num and e :: bool and c c' :: fed_coordinator and k i :: string
  assume a: "fc_ok W B c" "t \<le> now" "0 \<le> n"
  note spec = fc_lease_spec[OF a(1,3), where now = now]
  have "in_budget (B k) (fst (fc_view c W now k))"
    using fc_windowFor_view(1,3)[of c W k now] a(1) by (auto simp: fc_ok_def)
  note facts = ref_lease_facts[OF this a(3)]
  show "fc_lease_at W e c k n now = (res, c') \<Longrightarrow> fc_ok W B c'" for res using spec(1) by blast
  show "fc_lease_at W e c k n now = (Inr g, c') \<Longrightarrow> 0 \<le> g \<and> g \<le> n \<and> fst (fc_view c' W now k) + g \<le> fst (fc_view c W now k)" for g
    using spec(3-5)[of e k "Inr g" c'] facts by (cases e) auto
  show "fc_lease_at W e c k n now = (res, c') \<Longrightarrow> fst (fc_view c' W now i) \<le> fst (fc_view c W now i)" for res
    using spec(2-5)[of e k res c'] facts(4) by (cases "i = k"; cases e) auto
next
  fix t now x ws :: num and e :: bool and c c' :: fed_coordinator and k i :: string and res :: "unit result"
  assume a: "fc_ok W B c" "t \<le> now" "0 \<le> x"
  note spec = fc_reconcile_spec[OF a(1,3), where now = now]
  show "fc_reconcile_at e c k x ws now = (res, c') \<Longrightarrow> fc_ok W B c'" using spec(1) by blast
  show "ws \<le> coord_window W now \<Longrightarrow> fc_reconcile_at e c k x ws now = (res, c') \<Longrightarrow>
      fst (fc_view c' W now i) \<le> fst (fc_view c W now i) + (if i = k \<and> ws = coord_window W now then x else 0)"
    using spec(2,4)[of e k ws res c'] by (cases "i = k") auto
next
  fix t t' :: num and c :: fed_coordinator and k :: string
  assume ok: "fc_ok W B c"
  show "0 < W" using ok by (simp add: fc_ok_def)
  show "0 \<le> fst (fc_view c W t k) \<and> fst (fc_view c W t k) \<le> B k"
    using fc_windowFor_view(1,3)[of c W k t] ok by (auto simp: fc_ok_def in_budget_def)
  show "fc_ok W B c" by (rule ok)
  show "coord_window W t' = coord_window W t \<Longrightarrow> fst (fc_view c W t' k) = fst (fc_view c W t k)"
    unfolding fc_view_def by (intro arg_cong[of _ _ fst] same_window_view)
qed

section \<open>Redis and Postgres agree\<close>

definition coord_twin :: "redis_coord \<Rightarrow> pg_coord \<Rightarrow> bool" where
  "coord_twin q p \<longleftrightarrow> rk_windowMs q = pk_windowMs p \<and> rk_windowMs q \<in> \<int> \<and> 0 < rk_windowMs q \<and>
     (\<forall>k. rk_budgetFor q k = pk_budgetFor p k \<and> rk_budgetFor q k \<in> \<int>)"

definition coord_same :: "redis_coord \<Rightarrow> pg_coord \<Rightarrow> num \<Rightarrow> (string \<Rightarrow> coord_hash) \<Rightarrow> pg_budgets \<Rightarrow> bool" where
  "coord_same q p t db tb \<longleftrightarrow> (\<forall>k. \<forall>u\<ge>t. hash_view (rk_windowMs q) (rk_budgetFor q k) u (db (rk_key q k)) =
       row_view (rk_windowMs q) (rk_budgetFor q k) u (tb (pk_key p k)) \<and>
     fst (hash_view (rk_windowMs q) (rk_budgetFor q k) u (db (rk_key q k))) \<in> \<int>)"

lemma coord_twinD:
  assumes "coord_twin q p"
  shows "rk_windowMs q = pk_windowMs p" "rk_windowMs q \<in> \<int>" "rk_budgetFor q k = pk_budgetFor p k" "rk_budgetFor q k \<in> \<int>"
  using assms unfolding coord_twin_def by blast+

lemma bigint_Ints [simp]: "x \<in> \<int> \<Longrightarrow> bigint x"
  by (simp add: bigint_def)

lemma coord_window_Ints [simp]: "W \<in> \<int> \<Longrightarrow> coord_window W now \<in> \<int>"
  by (simp add: coord_window_def)

lemma redis_int_whole: "x \<in> \<int> \<Longrightarrow> redis_int x = x"
  by (simp add: redis_int_def)

lemma ref_lease_Ints: "fst v \<in> \<int> \<Longrightarrow> n \<in> \<int> \<Longrightarrow> fst (ref_lease n v) \<in> \<int> \<and> fst (snd (ref_lease n v)) \<in> \<int>"
  by (cases v) simp

lemma ref_reconcile_Ints: "fst v \<in> \<int> \<Longrightarrow> x \<in> \<int> \<Longrightarrow> B \<in> \<int> \<Longrightarrow> fst (ref_reconcile B x v) \<in> \<int>"
  by (cases v) simp

lemma coord_sameD:
  assumes "coord_same q p t db tb" "t \<le> u"
  shows "row_view (rk_windowMs q) (rk_budgetFor q k) u (tb (pk_key p k)) = hash_view (rk_windowMs q) (rk_budgetFor q k) u (db (rk_key q k))"
    "fst (hash_view (rk_windowMs q) (rk_budgetFor q k) u (db (rk_key q k))) \<in> \<int>"
  using assms unfolding coord_same_def by metis+

text \<open>Values put in the window of \<open>now\<close> are not seen from another.\<close>

lemma put_views:
  assumes "coord_twin q p" "map_of h F_expiresAt = Some (coord_window (rk_windowMs q) now + rk_windowMs q)"
    "pb_expiresAt r = coord_window (rk_windowMs q) now + rk_windowMs q" "B \<in> \<int>"
    "hash_view (rk_windowMs q) B now h = row_view (rk_windowMs q) B now (Some r)" "fst (hash_view (rk_windowMs q) B now h) \<in> \<int>"
  shows "hash_view (rk_windowMs q) B u h = row_view (rk_windowMs q) B u (Some r) \<and> fst (hash_view (rk_windowMs q) B u h) \<in> \<int>"
proof (cases "coord_window (rk_windowMs q) u = coord_window (rk_windowMs q) now")
  case True
  then show ?thesis using assms(5,6) same_window_view(2,3)[OF True] by metis
next
  case False
  then have "hash_view (rk_windowMs q) B u h = (B, False)" "row_view (rk_windowMs q) B u (Some r) = (B, False)"
    using assms(2,3) by (simp_all add: hash_view_def row_view_def split: option.split)
  then show ?thesis using assms(4) by simp
qed

lemma coord_same_put:
  assumes tw: "coord_twin q p" and same: "coord_same q p t db tb" and t: "t \<le> now"
    and h: "map_of h F_expiresAt = Some (coord_window (rk_windowMs q) now + rk_windowMs q)"
    and r: "pb_expiresAt r = coord_window (rk_windowMs q) now + rk_windowMs q"
    and v: "hash_view (rk_windowMs q) (rk_budgetFor q k) now h = row_view (rk_windowMs q) (rk_budgetFor q k) now (Some r)"
      "fst (hash_view (rk_windowMs q) (rk_budgetFor q k) now h) \<in> \<int>"
  shows "coord_same q p now (db(rk_key q k := h)) (tb(pk_key p k := Some r))"
proof -
  note B = coord_twinD(4)[OF tw, of k]
  show ?thesis
    unfolding coord_same_def
  proof (intro allI impI)
    fix i u
    assume u: "now \<le> u"
    show "hash_view (rk_windowMs q) (rk_budgetFor q i) u ((db(rk_key q k := h)) (rk_key q i)) =
        row_view (rk_windowMs q) (rk_budgetFor q i) u ((tb(pk_key p k := Some r)) (pk_key p i)) \<and>
      fst (hash_view (rk_windowMs q) (rk_budgetFor q i) u ((db(rk_key q k := h)) (rk_key q i))) \<in> \<int>"
    proof (cases "i = k")
      case True
      show ?thesis using put_views[OF tw h r B v, of u] unfolding True fun_upd_same .
    next
      case False
      have "t \<le> u" using t u by linarith
      then show ?thesis using same False unfolding coord_same_def by (metis fun_upd_other rk_key_inj pk_key_inj)
    qed
  qed
qed

lemma coord_same_later: "coord_same q p t db tb \<Longrightarrow> t \<le> now \<Longrightarrow> coord_same q p now db tb"
  unfolding coord_same_def by (meson order_trans)

lemma agree_lease:
  assumes tw: "coord_twin q p" and rk: "rk_ok q srv t db" and pk: "pk_ok p t tb" and same: "coord_same q p t db tb"
    and t: "t \<le> now" "now \<in> \<int>" and n: "0 \<le> n" "n \<in> \<int>"
  obtains g db' tb' where "rk_lease_at q srv Answered db k n now = (Inr g, db')" "pk_lease_at p Answered tb k n now = (Inr g, tb')"
    "coord_same q p now db' tb'"
proof (cases "n = 0")
  case True
  then show ?thesis using that[of 0 db tb] coord_same_later[OF same t(1)]
    by (simp add: rk_lease_at_def rk_lease_def pk_lease_at_def pk_lease_def)
next
  case False
  let ?W = "rk_windowMs q" and ?B = "rk_budgetFor q k" and ?h = "db (rk_key q k)" and ?r = "tb (pk_key p k)"
  let ?v = "hash_view ?W ?B now ?h"
  note W = coord_twinD(1,2)[OF tw] coord_twinD(3,4)[OF tw, of k]
  note v = coord_sameD[OF same t(1), of k]
  have now: "lua_now (if rk_serverTime q then 0 else now) (srv now) = now" and h: "hash_ok ?W ?B ?h"
    using rk t(1) by (simp_all add: rk_ok_def)
  have r: "row_ok ?W ?B ?r" unfolding W(1,3) using pk by (simp add: pk_ok_def)
  obtain h' where h': "lease_lua (if rk_serverTime q then 0 else now) n ?W ?B (srv now) ?h =
      ((redis_int (fst (ref_lease n ?v)), redis_int (coord_window ?W now + ?W)), h', max 1 (coord_window ?W now + ?W - now))"
      "hash_view ?W ?B now h' = snd (ref_lease n ?v)" "map_of h' F_expiresAt = Some (coord_window ?W now + ?W)"
    using hash_view_eq[OF now h n(1)] by blast
  have ints: "fst (ref_lease n ?v) \<in> \<int>" "fst (snd (ref_lease n ?v)) \<in> \<int>" using ref_lease_Ints v(2) n(2) by blast+
  have u: "row_view ?W ?B now ?r = (pb_budget (pg_upsert ?r ?B (coord_window ?W now + ?W) now), coord_window ?W now \<in> set (pb_markers (pg_upsert ?r ?B (coord_window ?W now + ?W) now)))"
    by (rule pg_upsert_view(1)[OF r])
  then have "min n (pb_budget (pg_upsert ?r ?B (coord_window ?W now + ?W) now)) \<in> \<int>" using v n(2) by simp
  then have "pk_lease_txn ?W ?B ?r n now \<noteq> None" using W(2,4) t(2) by (simp add: pk_lease_txn_def Let_def)
  then obtain g x r' where r': "pk_lease_txn ?W ?B ?r n now = Some ((g, x), r')" by (metis not_None_eq surj_pair)
  note txn = row_view_lease[OF r n(1) r', unfolded v(1)]
  have g: "g = fst (ref_lease n ?v)" "row_view ?W ?B now (Some r') = snd (ref_lease n ?v)" using txn(1) by (metis fst_conv snd_conv)+
  have 1: "rk_lease_at q srv Answered db k n now = (Inr g, db(rk_key q k := h'))"
    using False n(1) ints(1) W t(2) h'(1)
    by (simp add: rk_lease_at_def rk_lease_def rk_leaseImpl_def script_call_def map_first_def redis_int_whole g(1))
  have 2: "pk_lease_at p Answered tb k n now = (Inr g, tb(pk_key p k := Some r'))"
    using False n(1) r' by (simp add: pk_lease_at_def pk_lease_def pk_leaseImpl_def txn_call_def map_first_def W(1,3)[symmetric])
  have "coord_same q p now (db(rk_key q k := h')) (tb(pk_key p k := Some r'))"
    using ints(2) by (intro coord_same_put[OF tw same t(1) h'(3) txn(4)]) (simp_all add: h'(2) g(2))
  then show ?thesis using that 1 2 by blast
qed

lemma agree_reconcile:
  assumes tw: "coord_twin q p" and rk: "rk_ok q srv t db" and pk: "pk_ok p t tb" and same: "coord_same q p t db tb"
    and t: "t \<le> now" "now \<in> \<int>" and n: "0 \<le> x" "x \<in> \<int>"
  shows "coord_same q p now (snd (rk_reconcile_at q srv Answered db k x ws now)) (snd (pk_reconcile_at p Answered tb k x ws now))"
proof (cases "x = 0")
  case True
  then show ?thesis using coord_same_later[OF same t(1)]
    by (simp add: rk_reconcile_at_def rk_reconcile_def pk_reconcile_at_def pk_reconcile_def)
next
  case False
  let ?W = "rk_windowMs q" and ?B = "rk_budgetFor q k" and ?h = "db (rk_key q k)" and ?r = "tb (pk_key p k)"
  let ?v = "hash_view ?W ?B now ?h" and ?c = "coord_window (rk_windowMs q) now"
  note W = coord_twinD(1,2)[OF tw] coord_twinD(3,4)[OF tw, of k]
  note v = coord_sameD[OF same t(1), of k]
  have now: "lua_now (if rk_serverTime q then 0 else now) (srv now) = now" and h: "hash_ok ?W ?B ?h"
    using rk t(1) by (simp_all add: rk_ok_def)
  have r: "row_ok ?W ?B ?r" unfolding W(1,3) using pk by (simp add: pk_ok_def)
  obtain v' h' pexp where h': "reconcile_lua (if rk_serverTime q then 0 else now) x ws ?W ?B (srv now) ?h = (v', h', pexp)"
      "hash_view ?W ?B now h' = (if ws = ?c then ref_reconcile ?B x ?v else ?v)"
      "if ws = ?c then map_of h' F_expiresAt = Some (?c + ?W) else h' = ?h"
    using hash_view_reconcile[OF now h n(1), of ws] by blast
  have "pb_budget (pg_upsert ?r ?B (?c + ?W) now) \<in> \<int>" using pg_upsert_view(1)[OF r, of now] v by simp
  then have "pk_reconcile_txn ?W ?B ?r x ws now \<noteq> None" using W(2,4) t(2) n(2) by (simp add: pk_reconcile_txn_def Let_def)
  then obtain r' where r': "pk_reconcile_txn ?W ?B ?r x ws now = Some r'" by blast
  note txn = row_view_reconcile[OF r n(1) r', unfolded v(1)]
  have 1: "snd (rk_reconcile_at q srv Answered db k x ws now) = db(rk_key q k := h')"
    using False n(1) h'(1) by (simp add: rk_reconcile_at_def rk_reconcile_def script_call_def map_first_def)
  have 2: "snd (pk_reconcile_at p Answered tb k x ws now) = tb(pk_key p k := r')"
    using False n(1) r' by (simp add: pk_reconcile_at_def pk_reconcile_def txn_call_def W(1,3)[symmetric])
  show ?thesis
  proof (cases "ws = ?c")
    case True
    then obtain u where u: "r' = Some u" "pb_expiresAt u = ?c + ?W" using txn(3) by auto
    have "coord_same q p now (db(rk_key q k := h')) (tb(pk_key p k := Some u))"
      using True h'(2,3) txn(1) u ref_reconcile_Ints[OF v(2) n(2) W(4)]
      by (intro coord_same_put[OF tw same t(1)]) simp_all
    then show ?thesis by (simp only: 1 2 u(1))
  next
    case False
    then show ?thesis using h'(3) txn(3) coord_same_later[OF same t(1)] by (simp add: 1 2)
  qed
qed

definition whole_call :: "num \<times> link \<times> coord_call \<Rightarrow> bool" where
  "whole_call c = (case c of (now, e, Lease k n) \<Rightarrow> now \<in> \<int> \<and> e = Answered \<and> n \<in> \<int>
                  | (now, e, Reconcile k x ws) \<Rightarrow> now \<in> \<int> \<and> e = Answered \<and> x \<in> \<int>)"

lemma whole_call_simps [simp]:
  "whole_call (now, e, Lease k n) \<longleftrightarrow> now \<in> \<int> \<and> e = Answered \<and> n \<in> \<int>"
  "whole_call (now, e, Reconcile k x ws) \<longleftrightarrow> now \<in> \<int> \<and> e = Answered \<and> x \<in> \<int>"
  by (simp_all add: whole_call_def)

lemma coord_runs_agree:
  "coord_twin q p \<Longrightarrow> rk_ok q srv t db \<Longrightarrow> pk_ok p t tb \<Longrightarrow> coord_same q p t db tb \<Longrightarrow> calls_ok (rk_windowMs q) t cs \<Longrightarrow>
   list_all whole_call cs \<Longrightarrow>
   coord_run (rk_lease_at q srv) (rk_reconcile_at q srv) db cs = coord_run (pk_lease_at p) (pk_reconcile_at p) tb cs"
proof (induction cs arbitrary: t db tb)
  case (Cons c cs)
  obtain now e call where c: "c = (now, e, call)" by (metis prod.exhaust)
  show ?case
  proof (cases call)
    case (Lease k n)
    have a: "t \<le> now" "now \<in> \<int>" "0 \<le> n" "n \<in> \<int>" "e = Answered" "calls_ok (rk_windowMs q) now cs" "list_all whole_call cs"
      using Cons.prems(5,6) by (simp_all add: c Lease)
    obtain g db' tb' where s: "rk_lease_at q srv Answered db k n now = (Inr g, db')" "pk_lease_at p Answered tb k n now = (Inr g, tb')"
        "coord_same q p now db' tb'"
      using agree_lease[OF Cons.prems(1-4) a(1-4)] .
    then have "coord_run (rk_lease_at q srv) (rk_reconcile_at q srv) db' cs = coord_run (pk_lease_at p) (pk_reconcile_at p) tb' cs"
      using Cons.IH[OF Cons.prems(1) rk_lease_cases(1)[OF Cons.prems(2) a(1,3) s(1)] pk_lease_cases(1)[OF Cons.prems(3) a(3) s(2)] s(3) a(6,7)] by simp
    then show ?thesis by (simp add: c Lease a(5) s)
  next
    case (Reconcile k x ws)
    have a: "t \<le> now" "now \<in> \<int>" "0 \<le> x" "x \<in> \<int>" "e = Answered" "calls_ok (rk_windowMs q) now cs" "list_all whole_call cs"
      using Cons.prems(5,6) by (simp_all add: c Reconcile)
    show ?thesis
      using Cons.IH[OF Cons.prems(1) rk_reconcile_cases(1)[OF Cons.prems(2) a(1,3) surjective_pairing]
          pk_reconcile_cases(1)[OF Cons.prems(3) a(3) surjective_pairing] agree_reconcile[OF Cons.prems(1-4) a(1-4)] a(6,7)]
      by (simp add: c Reconcile a(5))
  qed
qed simp

text \<open>The settings of two coordinators made from the same options, as their constructors leave them.\<close>

lemma requireLeast1_Inr: "requireLeast1 name v = Inr x \<longleftrightarrow> v = Num x \<and> 1 \<le> x"
  by (cases v) auto

lemma coordinator_settings:
  assumes "redisCoordinator w b prefix st = Inr q" "postgresCoordinator w b prefix' ret = Inr p"
  shows "0 < rk_windowMs q" "rk_windowMs q = pk_windowMs p" "rk_budgetFor q i = pk_budgetFor p i" "1 \<le> rk_budgetFor q i"
    "rk_budgetFor q i = rk_defaultBudget q"
  using assms
  by (auto simp: redisCoordinator_def postgresCoordinator_def result_simps requireLeast1_Inr rk_budgetFor_def pk_budgetFor_def
      split: option.splits)

section \<open>Properties\<close>

text \<open>
  A static partition that is made covers the distinct regions in their order, gives every region a
  slice of at least one, no two of which differ by more than one and no later one of which is larger than
  an earlier one, builds each region's strategy from its own slice, and the slices sum to the global limit
  rounded up: exactly to the limit when it is whole.
\<close>

theorem static_partition_exact:
  assumes "staticPartition limit rs factory = Inr (strategies, slices)"
  shows "\<exists>g. limit = Num g \<and> distinct rs \<and> map fst slices = rs \<and> map fst strategies = rs \<and>
      (\<Sum>(r, s)\<leftarrow>slices. s) = js_ceil g \<and> (g \<in> \<int> \<longrightarrow> (\<Sum>(r, s)\<leftarrow>slices. s) = g) \<and>
      (\<forall>s\<in>snd ` set slices. 1 \<le> s \<and> \<bar>s - g / of_nat (length rs)\<bar> < 1 + 1 / of_nat (length rs)) \<and>
      sorted_wrt (\<ge>) (map snd slices) \<and> list_all2 (\<lambda>s p. factory (snd p) = Inr (snd s)) strategies slices"
proof -
  obtain g where g: "limit = Num g" "1 \<le> g" "rs \<noteq> []" "of_nat (length rs) \<le> g" "distinct rs"
    "partition_from (js_floor (g / of_nat (length rs))) (g - js_floor (g / of_nat (length rs)) * of_nat (length rs)) factory 0 rs
       = Inr (strategies, slices)"
    by (rule staticPartition_Inr[OF assms])
  let ?K = "length rs" and ?b = "js_floor (g / of_nat (length rs))"
  let ?s = "partition_slice ?b (g - ?b * of_nat ?K)"
  have K: "0 < ?K" using g(3) by simp
  note f = partition_from_slices[OF g(6)]
  have snds: "map snd slices = map ?s [0..<?K]" using f by simp
  have "(\<Sum>(r, s)\<leftarrow>slices. s) = sum_list (map snd slices)" by (simp add: case_prod_unfold)
  also have "\<dots> = (\<Sum>i<?K. ?s i)" unfolding snds by (simp add: interv_sum_list_conv_sum_set_nat atLeast0LessThan)
  finally have sum: "(\<Sum>(r, s)\<leftarrow>slices. s) = js_ceil g" using slices_sum[OF K] by simp
  have "1 \<le> s \<and> \<bar>s - g / of_nat ?K\<bar> < 1 + 1 / of_nat ?K" if "s \<in> snd ` set slices" for s
  proof -
    have "s \<in> set (map ?s [0..<?K])" using that snds by (metis set_map)
    then have "?b \<le> s \<and> s \<le> ?b + 1 \<and> (s = ?b \<or> ?b * of_nat ?K < g)"
      using K by (auto simp: partition_slice_def intro: le_less_trans[of 0 "of_nat _"])
    moreover have "?b * of_nat ?K < g \<Longrightarrow> ?b < g / of_nat ?K" using K by (simp add: pos_less_divide_eq)
    moreover have "1 \<le> ?b" using g(4) K by (simp add: le_divide_eq)
    moreover have "?b \<le> g / of_nat ?K" "g / of_nat ?K < ?b + 1" by (simp_all add: js_floor_le js_floor_gt)
    moreover have "0 < 1 / real ?K" using K by simp
    ultimately show ?thesis by linarith
  qed
  moreover have "sorted_wrt (\<ge>) (map snd slices)"
    unfolding snds sorted_wrt_map by (auto simp: sorted_wrt_iff_nth_less partition_slice_def)
  ultimately show ?thesis using g(1,5) f sum by auto
qed

theorem static_partition_exact_witness:
  "\<exists>g. Num 1000 = Num g \<and> distinct [''us'', ''eu'', ''ap''] \<and>
     (g \<in> \<int> \<longrightarrow> (\<Sum>(r, s)\<leftarrow>[(''us'', 334), (''eu'', 333), (''ap'', 333)]. s) = (g :: num))"
proof -
  have "js_floor (1000 / 3) = 333" by (simp add: js_floor_def)
  then have "staticPartition (Num 1000) [''us'', ''eu'', ''ap''] Inr =
      Inr ([(''us'', 334), (''eu'', 333), (''ap'', 333)], [(''us'', 334), (''eu'', 333), (''ap'', 333)])"
    by (simp add: staticPartition_def Let_def partition_slice_def)
  from static_partition_exact[OF this] show ?thesis by blast
qed

text \<open>
  C29. Whatever regions call a coordinator, with calls that fail before or after they took effect, and the times
  the coordinator sees do not run backwards from one call to the next: the grants it reports of one window sum to at
  most the budget and what was handed back into that window while it ran. Nothing handed back later counts. For
  Redis and for Postgres, with the server's clock, or with the callers' where they share one clock: callers whose
  clocks differ can reopen a window that has ended.
\<close>

theorem coordinator_window_cap:
  assumes redis: "redisCoordinator w b prefix st = Inr q" "\<forall>u\<ge>t. lua_now (if rk_serverTime q then 0 else u) (srv u) = u"
    and pg: "postgresCoordinator w b prefix' ret = Inr p"
    and calls: "calls_ok (rk_windowMs q) t cs"
  shows "granted_in (rk_windowMs q) c k (coord_run (rk_lease_at q srv) (rk_reconcile_at q srv) (\<lambda>_. []) cs)
      \<le> rk_budgetFor q k + credited_in (rk_windowMs q) c k cs \<and>
    granted_in (rk_windowMs q) c k (coord_run (pk_lease_at p) (pk_reconcile_at p) (\<lambda>_. None) cs)
      \<le> rk_budgetFor q k + credited_in (rk_windowMs q) c k cs"
proof
  have q: "0 < rk_windowMs q" "rk_windowMs q = pk_windowMs p" "rk_budgetFor q i = pk_budgetFor p i" "1 \<le> rk_budgetFor q i" for i
    by (rule coordinator_settings[OF redis(1) pg])+
  have "rk_ok q srv t (\<lambda>_. [])" using redis(2) q by (auto simp: rk_ok_def hash_ok_def intro: order_trans[of 0 1])
  then show "granted_in (rk_windowMs q) c k (coord_run (rk_lease_at q srv) (rk_reconcile_at q srv) (\<lambda>_. []) cs)
      \<le> rk_budgetFor q k + credited_in (rk_windowMs q) c k cs"
    by (rule rk.window_granted[OF _ calls])
  have "pk_ok p t (\<lambda>_. None)" using q by (auto simp: pk_ok_def row_ok_def intro: order_trans[of 0 1])
  then show "granted_in (rk_windowMs q) c k (coord_run (pk_lease_at p) (pk_reconcile_at p) (\<lambda>_. None) cs)
      \<le> rk_budgetFor q k + credited_in (rk_windowMs q) c k cs"
    using pk.window_granted[of p t "\<lambda>_. None" cs c k] calls by (simp add: q(2,3))
qed

definition cap_calls :: "(num \<times> link \<times> coord_call) list" where
  "cap_calls = [(1010, Answered, Lease ''k'' 8), (1020, ReplyLost, Lease ''k'' 1), (1500, Answered, Lease ''k'' 8), (2010, Answered, Reconcile ''k'' 3 1000)]"

theorem coordinator_window_cap_witness:
  "\<exists>q p. redisCoordinator (Num 1000) (Some (Num 10)) None None = Inr q \<and> postgresCoordinator (Num 1000) (Some (Num 10)) None None = Inr p \<and>
     granted_in 1000 1000 ''k'' (coord_run (rk_lease_at q (\<lambda>u. (u / 1000, 0))) (rk_reconcile_at q (\<lambda>u. (u / 1000, 0))) (\<lambda>_. []) cap_calls) \<le> 10 \<and>
     granted_in 1000 1000 ''k'' (coord_run (pk_lease_at p) (pk_reconcile_at p) (\<lambda>_. None) cap_calls) \<le> 10"
proof -
  obtain q where q: "redisCoordinator (Num 1000) (Some (Num 10)) None None = Inr q" "rk_windowMs q = 1000" "rk_budgetFor q ''k'' = 10"
      "rk_serverTime q"
    by (simp add: redisCoordinator_def rk_budgetFor_def)
  obtain p where p: "postgresCoordinator (Num 1000) (Some (Num 10)) None None = Inr p"
    by (simp add: postgresCoordinator_def)
  have w: "coord_window 1000 2010 = 2000" by (simp add: coord_window_def js_floor_def)
  have "\<forall>u\<ge>0. lua_now (if rk_serverTime q then 0 else u) (u / 1000, 0) = u" by (simp add: q(4) lua_now_def)
  moreover have "calls_ok (rk_windowMs q) 0 cap_calls" by (simp add: cap_calls_def q(2) w)
  ultimately have "granted_in (rk_windowMs q) 1000 ''k'' (coord_run (rk_lease_at q (\<lambda>u. (u / 1000, 0))) (rk_reconcile_at q (\<lambda>u. (u / 1000, 0))) (\<lambda>_. []) cap_calls)
        \<le> rk_budgetFor q ''k'' + credited_in (rk_windowMs q) 1000 ''k'' cap_calls \<and>
    granted_in (rk_windowMs q) 1000 ''k'' (coord_run (pk_lease_at p) (pk_reconcile_at p) (\<lambda>_. None) cap_calls)
        \<le> rk_budgetFor q ''k'' + credited_in (rk_windowMs q) 1000 ''k'' cap_calls"
    using coordinator_window_cap[OF q(1) _ p, of 0 "\<lambda>u. (u / 1000, 0)" cap_calls 1000 "''k''"] by blast
  moreover have "credited_in 1000 1000 ''k'' cap_calls = 0" by (simp add: cap_calls_def w)
  ultimately show ?thesis using q p by auto
qed

text \<open>
  A Redis and a Postgres coordinator of the same window and budgets answer the same runs of calls
  with the same grants, when times, amounts, window and budgets are whole numbers and every call is
  answered.
\<close>

theorem coordinators_agree:
  assumes "redisCoordinator w b prefix st = Inr q" "\<forall>u\<ge>t. lua_now (if rk_serverTime q then 0 else u) (srv u) = u"
    and "postgresCoordinator w b prefix' ret = Inr p"
    and whole: "rk_windowMs q \<in> \<int>" "rk_defaultBudget q \<in> \<int>"
    and calls: "calls_ok (rk_windowMs q) t cs" "list_all whole_call cs"
  shows "coord_run (rk_lease_at q srv) (rk_reconcile_at q srv) (\<lambda>_. []) cs = coord_run (pk_lease_at p) (pk_reconcile_at p) (\<lambda>_. None) cs"
proof (rule coord_runs_agree)
  have q: "0 < rk_windowMs q" "rk_windowMs q = pk_windowMs p" "rk_budgetFor q i = pk_budgetFor p i" "1 \<le> rk_budgetFor q i"
      "rk_budgetFor q i = rk_defaultBudget q" for i
    by (rule coordinator_settings[OF assms(1,3)])+
  show "coord_twin q p" using q whole by (simp add: coord_twin_def)
  show "rk_ok q srv t (\<lambda>_. [])" using assms(2) q by (auto simp: rk_ok_def hash_ok_def intro: order_trans[of 0 1])
  show "pk_ok p t (\<lambda>_. None)" using q by (auto simp: pk_ok_def row_ok_def intro: order_trans[of 0 1])
  have "rk_budgetFor q k \<in> \<int>" for k using q(5)[of k] whole(2) by simp
  then show "coord_same q p t (\<lambda>_. []) (\<lambda>_. None)"
    unfolding coord_same_def by (simp only: hash_view_def row_view_def map_of.simps option.simps fst_conv) simp
qed (rule calls)+

theorem coordinators_agree_witness:
  "\<exists>q p. redisCoordinator (Num 1000) (Some (Num 10)) None None = Inr q \<and> postgresCoordinator (Num 1000) (Some (Num 10)) None None = Inr p \<and>
     (let cs = [(1010, Answered, Lease ''k'' 8), (1500, Answered, Lease ''k'' 8), (1600, Answered, Reconcile ''k'' 3 1000)]
      in coord_run (rk_lease_at q (\<lambda>u. (u / 1000, 0))) (rk_reconcile_at q (\<lambda>u. (u / 1000, 0))) (\<lambda>_. []) cs
         = coord_run (pk_lease_at p) (pk_reconcile_at p) (\<lambda>_. None) cs)"
proof -
  obtain q where q: "redisCoordinator (Num 1000) (Some (Num 10)) None None = Inr q" "rk_windowMs q = 1000" "rk_defaultBudget q = 10"
      "rk_serverTime q"
    by (simp add: redisCoordinator_def)
  obtain p where p: "postgresCoordinator (Num 1000) (Some (Num 10)) None None = Inr p"
    by (simp add: postgresCoordinator_def)
  have w: "coord_window 1000 1600 = 1000" by (simp add: coord_window_def js_floor_def)
  show ?thesis
    using q(1) p coordinators_agree[OF q(1) _ p, of 0 "\<lambda>u. (u / 1000, 0)"
        "[(1010, Answered, Lease ''k'' 8), (1500, Answered, Lease ''k'' 8), (1600, Answered, Reconcile ''k'' 3 1000)]"]
    by (simp add: q(2-4) lua_now_def w Let_def)
qed



end
