(* ===== verification/Federation.thy ===== *)
theory Federation
  imports FedCoordinator
begin

text \<open>
  The federation engine (\<open>src/federation/window-coupled.ts\<close>) with the store around it
  (\<open>federation/store.ts\<close>). A region keeps, per key, escrow units leased from the coordinator for the
  window that runs. A check is a chain of segments between awaits: each definition below is one segment,
  and gives what the check waits for next, the engine, the lease the segment put in flight, and what it
  sends without waiting. Segments of different checks may interleave in any order. The lemmas: the ledger
  of a region that takes one check of a key at a time never admits more than it was granted, and over all
  regions a window admits no more than its budget; and what goes wrong when checks share a lease.
\<close>

section \<open>Options\<close>

datatype outage_mode = FailClosed | RegionalOnly

record federate_options =
  fd_limit :: num
  fd_windowMs :: "num option"
  fd_batch :: "js_number option"
  fd_escrow :: bool
  fd_outage :: "outage_mode option"
  fd_healthMs :: "js_number option"
  fd_probes :: bool
  fd_prefix :: "string option"

text \<open>The checked options. \<open>fo_escrow\<close>: a regional escrow is given; \<open>fo_probes\<close>: the coordinator has \<open>isHealthy\<close>.\<close>

record fed_opts =
  fo_limit :: num
  fo_windowMs :: num
  fo_batch :: num
  fo_escrow :: bool
  fo_regionalOnly :: bool
  fo_healthMs :: num
  fo_probes :: bool
  fo_prefix :: "string option"

record fed_entry =
  en_balance :: num
  en_windowStart :: num
  en_expiresAt :: num
  en_pending :: "nat option"
  en_pendingWindowStart :: num
  en_lastReconciled :: num

text \<open>The engine. A promise of a lease is its number; \<open>eg_next\<close> is the next one.\<close>

record fed_engine =
  eg_entries :: "string \<Rightarrow> fed_entry option"
  eg_healthy :: bool
  eg_lastProbeAt :: num
  eg_probing :: bool
  eg_next :: nat

definition createFederationEngine :: "federate_options \<Rightarrow> (fed_opts \<times> fed_engine) result" where
  "createFederationEngine p =
     rbind (requireLeast1 ''coordinatorHealthCheckMs'' (case_option (Num 5000) id (fd_healthMs p))) (\<lambda>h.
     case fd_windowMs p of
       None \<Rightarrow> Inl (RangeError ''strategy.windowMs'')
     | Some w \<Rightarrow>
         rbind (requireLeast1 ''batch'' (case_option (Num 16) id (fd_batch p))) (\<lambda>b.
         Inr (\<lparr>fo_limit = fd_limit p, fo_windowMs = w, fo_batch = b, fo_escrow = fd_escrow p,
               fo_regionalOnly = (case_option FailClosed id (fd_outage p) = RegionalOnly \<and> fd_escrow p),
               fo_healthMs = h, fo_probes = fd_probes p, fo_prefix = fd_prefix p\<rparr>,
              \<lparr>eg_entries = (\<lambda>_. None), eg_healthy = True, eg_lastProbeAt = 0, eg_probing = False, eg_next = 0\<rparr>)))"

section \<open>Segments\<close>

text \<open>A check that runs, and the lease a segment put in flight.\<close>

record fed_check =
  ck_raw :: string
  ck_key :: string
  ck_cost :: num
  ck_now :: num

record lease_job =
  jb_id :: nat
  jb_key :: string
  jb_tokens :: num
  jb_windowStart :: num
  jb_expiresAt :: num
  jb_now :: num

text \<open>
  What a check waits for: the probe, a lease of the regional escrow, or the promise of a coordinator lease
  (with the window it was drawn for); \<open>Restart\<close> is the call of \<open>check\<close> on itself.
\<close>

datatype fed_next = Answer decision | Await_probe | Await_escrow num | Await_lease nat num | Restart

text \<open>What is sent without waiting: a leftover and its window, after asking the escrow for its own or not.\<close>

datatype fed_out = Send_leftover string num num | Send_with_escrow string num num

record fed_seg =
  sg_next :: fed_next
  sg_engine :: fed_engine
  sg_job :: "lease_job option"
  sg_out :: "fed_out list"

definition seg :: "fed_next \<Rightarrow> fed_engine \<Rightarrow> fed_seg" where
  "seg next s = \<lparr>sg_next = next, sg_engine = s, sg_job = None, sg_out = []\<rparr>"

definition put_entry :: "fed_engine \<Rightarrow> string \<Rightarrow> fed_entry \<Rightarrow> fed_engine" where
  "put_entry s key e = s\<lparr>eg_entries := (eg_entries s)(key \<mapsto> e)\<rparr>"

definition fe_windowFor :: "fed_opts \<Rightarrow> num \<Rightarrow> num \<times> num" where
  "fe_windowFor C now = (let start = js_floor (now / fo_windowMs C) * fo_windowMs C in (start, start + fo_windowMs C))"

text \<open>Get or create the entry, rolled to the window of \<open>now\<close>; a rolled entry sends its leftover back once.\<close>

definition fe_advance :: "fed_opts \<Rightarrow> fed_engine \<Rightarrow> string \<Rightarrow> num \<Rightarrow> fed_entry \<times> fed_engine \<times> fed_out list" where
  "fe_advance C s key now =
     (case fe_windowFor C now of
        (start, expiresAt) \<Rightarrow>
          (case eg_entries s key of
             None \<Rightarrow>
               (let e = \<lparr>en_balance = 0, en_windowStart = start, en_expiresAt = expiresAt, en_pending = None,
                         en_pendingWindowStart = start, en_lastReconciled = -1\<rparr>
                in (e, put_entry s key e, []))
           | Some e \<Rightarrow>
               if now \<ge> en_expiresAt e then
                 (let oldStart = en_windowStart e; leftover = en_balance e; back = (en_lastReconciled e \<noteq> oldStart);
                      e' = \<lparr>en_balance = 0, en_windowStart = start, en_expiresAt = expiresAt, en_pending = None,
                            en_pendingWindowStart = start,
                            en_lastReconciled = (if back then oldStart else en_lastReconciled e)\<rparr>
                  in (e', put_entry s key e',
                      if back then
                        (if fo_escrow C then [Send_with_escrow key leftover oldStart]
                         else if leftover > 0 then [Send_leftover key leftover oldStart] else [])
                      else []))
               else (e, s, [])))"

definition fe_denied :: "fed_opts \<Rightarrow> num \<Rightarrow> num \<Rightarrow> num \<Rightarrow> decision" where
  "fe_denied C now expiresAt balance =
     \<lparr>d_allowed = False, d_limit = fo_limit C, d_remaining = balance, d_resetAt = expiresAt,
      d_retryAfterMs = max 1 (expiresAt - now)\<rparr>"

text \<open>The part of the loop body after the regional escrow: deny, join the lease in flight, or issue one.\<close>

definition fe_lease :: "fed_opts \<Rightarrow> fed_engine \<Rightarrow> fed_check \<Rightarrow> fed_entry \<Rightarrow> fed_seg" where
  "fe_lease C s ck e =
     (if fo_regionalOnly C \<and> \<not> eg_healthy s then seg (Answer (fe_denied C (ck_now ck) (en_expiresAt e) (en_balance e))) s
      else case en_pending e of
             Some pid \<Rightarrow> seg (Await_lease pid (en_pendingWindowStart e)) s
           | None \<Rightarrow>
               (let pid = eg_next s;
                    job = \<lparr>jb_id = pid, jb_key = ck_key ck, jb_tokens = max (fo_batch C) (ck_cost ck),
                           jb_windowStart = en_windowStart e, jb_expiresAt = en_expiresAt e, jb_now = ck_now ck\<rparr>
                in \<lparr>sg_next = Await_lease pid (en_windowStart e),
                    sg_engine = (put_entry s (ck_key ck) (e\<lparr>en_pending := Some pid, en_pendingWindowStart := en_windowStart e\<rparr>))\<lparr>eg_next := pid + 1\<rparr>,
                    sg_job = Some job, sg_out = []\<rparr>))"

text \<open>The head of the loop, and the admission after it.\<close>

definition fe_turn :: "fed_opts \<Rightarrow> fed_engine \<Rightarrow> fed_check \<Rightarrow> fed_entry \<Rightarrow> fed_seg" where
  "fe_turn C s ck e =
     (if en_balance e < ck_cost ck then
        (if fo_escrow C \<and> max (fo_batch C) (ck_cost ck) - en_balance e > 0
         then seg (Await_escrow (max (fo_batch C) (ck_cost ck) - en_balance e)) s
         else fe_lease C s ck e)
      else seg (Answer \<lparr>d_allowed = True, d_limit = fo_limit C, d_remaining = en_balance e - ck_cost ck,
                        d_resetAt = en_expiresAt e, d_retryAfterMs = 0\<rparr>)
             (put_entry s (ck_key ck) (e\<lparr>en_balance := en_balance e - ck_cost ck\<rparr>)))"

text \<open>The health gate: whether a check waits for a probe, and the engine after it asked.\<close>

definition fe_probe :: "fed_opts \<Rightarrow> fed_engine \<Rightarrow> num \<Rightarrow> bool \<times> fed_engine" where
  "fe_probe C s now =
     (if \<not> (fo_regionalOnly C \<and> \<not> eg_healthy s) then (False, s)
      else if \<not> fo_probes C then (False, s)
      else if now - eg_lastProbeAt s < fo_healthMs C then (False, s)
      else if eg_probing s then (True, s)
      else (True, s\<lparr>eg_lastProbeAt := now, eg_probing := True\<rparr>))"

text \<open>The answer of the probe (\<open>None\<close>: it failed); every check that waited goes on with \<open>fe_start\<close>.\<close>

definition fe_probe_reply :: "fed_engine \<Rightarrow> bool option \<Rightarrow> fed_engine" where
  "fe_probe_reply s r = s\<lparr>eg_healthy := (if r = Some True then True else eg_healthy s), eg_probing := False\<rparr>"

definition fe_start :: "fed_opts \<Rightarrow> fed_engine \<Rightarrow> fed_check \<Rightarrow> fed_seg" where
  "fe_start C s ck =
     (case fe_advance C s (ck_key ck) (ck_now ck) of
        (e, s1, out) \<Rightarrow> (let g = fe_turn C s1 ck e in g\<lparr>sg_out := out @ sg_out g\<rparr>))"

definition fe_enter :: "fed_opts \<Rightarrow> fed_engine \<Rightarrow> string \<Rightarrow> js_number \<Rightarrow> num \<Rightarrow> (fed_check \<times> fed_seg) result" where
  "fe_enter C s rawKey cost now =
     rbind (requireCost cost) (\<lambda>c.
       let ck = \<lparr>ck_raw = rawKey, ck_key = prefixer (fo_prefix C) rawKey, ck_cost = c, ck_now = now\<rparr>
       in case fe_probe C s now of
            (True, s1) \<Rightarrow> Inr (ck, seg Await_probe s1)
          | (False, s1) \<Rightarrow> Inr (ck, fe_start C s1 ck))"

text \<open>The regional escrow answered (\<open>None\<close>: it failed).\<close>

definition fe_escrow_reply :: "fed_opts \<Rightarrow> fed_engine \<Rightarrow> fed_check \<Rightarrow> num option \<Rightarrow> fed_seg" where
  "fe_escrow_reply C s ck r =
     (case eg_entries s (ck_key ck) of
        None \<Rightarrow> seg Restart s
      | Some e \<Rightarrow>
          (let granted = case_option 0 id r
           in if granted > 0 then
                (let e' = e\<lparr>en_balance := en_balance e + granted\<rparr> in fe_turn C (put_entry s (ck_key ck) e') ck e')
              else fe_lease C s ck e))"

text \<open>The promise the check waited for is resolved.\<close>

definition fe_lease_reply :: "fed_opts \<Rightarrow> fed_engine \<Rightarrow> fed_check \<Rightarrow> nat \<Rightarrow> num \<Rightarrow> num \<Rightarrow> fed_seg" where
  "fe_lease_reply C s ck pid leaseWindowStart grant =
     (case eg_entries s (ck_key ck) of
        None \<Rightarrow> seg Restart s
      | Some e0 \<Rightarrow>
          (let e = (if en_pending e0 = Some pid then e0\<lparr>en_pending := None\<rparr> else e0);
               s1 = put_entry s (ck_key ck) e
           in if grant > 0 then
                (if en_windowStart e \<noteq> leaseWindowStart then
                   (let g = fe_turn C s1 ck e in g\<lparr>sg_out := Send_leftover (ck_key ck) grant leaseWindowStart # sg_out g\<rparr>)
                 else
                   (let e' = e\<lparr>en_balance := en_balance e + grant\<rparr> in fe_turn C (put_entry s1 (ck_key ck) e') ck e'))
              else seg (Answer (fe_denied C (ck_now ck) (en_expiresAt e) (en_balance e))) s1))"

text \<open>The check goes on; a restart takes the time anew.\<close>

definition fe_resume :: "fed_opts \<Rightarrow> fed_check \<Rightarrow> fed_seg \<Rightarrow> num \<Rightarrow> (fed_check \<times> fed_seg) result" where
  "fe_resume C ck g now =
     (if sg_next g = Restart then fe_enter C (sg_engine g) (ck_raw ck) (Num (ck_cost ck)) now else Inr (ck, g))"

section \<open>The lease in flight\<close>

text \<open>How the promise goes on: it is resolved, or it refills the escrow, or takes its share from it.\<close>

datatype job_next = Resolved num | Refill num | Take_back num

definition job_coordinator :: "fed_opts \<Rightarrow> fed_engine \<Rightarrow> lease_job \<Rightarrow> num result \<Rightarrow> job_next \<times> fed_engine" where
  "job_coordinator C s job r =
     (case r of
        Inl e \<Rightarrow> (Resolved 0, if fo_regionalOnly C then s\<lparr>eg_healthy := False, eg_lastProbeAt := jb_now job\<rparr> else s)
      | Inr granted \<Rightarrow>
          (if granted \<le> 0 then Resolved 0 else if fo_escrow C then Refill granted else Resolved granted,
           s\<lparr>eg_healthy := True\<rparr>))"

definition job_refilled :: "num \<Rightarrow> bool result \<Rightarrow> job_next" where
  "job_refilled granted r = (case r of Inl e \<Rightarrow> Resolved granted | Inr b \<Rightarrow> Take_back granted)"

definition job_taken :: "num \<Rightarrow> num result \<Rightarrow> job_next" where
  "job_taken granted r = (case r of Inl e \<Rightarrow> Resolved granted | Inr x \<Rightarrow> Resolved x)"

section \<open>The other methods\<close>

definition fe_reset :: "fed_opts \<Rightarrow> fed_engine \<Rightarrow> string \<Rightarrow> fed_engine" where
  "fe_reset C s rawKey = s\<lparr>eg_entries := (eg_entries s)(prefixer (fo_prefix C) rawKey := None)\<rparr>"

definition fe_close :: "fed_engine \<Rightarrow> fed_engine" where
  "fe_close s = s\<lparr>eg_entries := (\<lambda>_. None)\<rparr>"

definition fe_peekEntry :: "fed_engine \<Rightarrow> string \<Rightarrow> (num \<times> num) option" where
  "fe_peekEntry s key = map_option (\<lambda>e. (en_balance e, en_expiresAt e)) (eg_entries s key)"

text \<open>\<open>checkSync\<close> and \<open>checkManySync\<close> of the limiter throw.\<close>

definition fe_noSync :: "'a result" where
  "fe_noSync = Inl (ThrottleKitError ''federation cannot run sync'')"

text \<open>The store: the cost of a transform, and the batch it recommends.\<close>

definition readCostHint :: "js_number option \<Rightarrow> num" where
  "readCostHint cost = (case cost of Some (Num c) \<Rightarrow> if c > 0 then c else 1 | _ \<Rightarrow> 1)"

definition recommendedBatch :: "num \<Rightarrow> js_number option \<Rightarrow> num" where
  "recommendedBatch batch recommended =
     (case recommended of None \<Rightarrow> batch
      | Some (Num r) \<Rightarrow> if r < 1 then batch else js_floor r
      | Some _ \<Rightarrow> batch)"

definition fs_apply :: "fed_opts \<Rightarrow> fed_engine \<Rightarrow> string \<Rightarrow> js_number option \<Rightarrow> num \<Rightarrow> (fed_check \<times> fed_seg) result" where
  "fs_apply C s key hint now = fe_enter C s key (Num (readCostHint hint)) now"

section \<open>Regions and a coordinator\<close>

text \<open>
  The world: regions without a regional escrow, each taking one check of a key at a time, and one
  coordinator. A lease is on its way to the coordinator, or its reply on the way back; leftovers travel on
  their own. The log has every answer, the list of grants what the coordinator reported, with the time it
  was served and the window the region asked for.
\<close>

datatype flight = Sent fed_check lease_job | Replied fed_check lease_job "num result"

record 's fed_world =
  fw_now :: num
  fw_coord :: 's
  fw_engine :: "string \<Rightarrow> fed_engine"
  fw_flight :: "string \<Rightarrow> string \<Rightarrow> flight option"
  fw_msgs :: "(string \<times> num \<times> num) list"
  fw_log :: "(string \<times> string \<times> num \<times> decision) list"
  fw_grants :: "(num \<times> string \<times> num \<times> num) list"

datatype 'e fed_action = Tick num | Begin string string js_number | Serve string string 'e | Resume string string
  | Reset string string | Shut string | Return nat 'e

text \<open>\<open>None\<close>: the segment waits for something else than a lease it issued.\<close>

fun flight_of :: "fed_check \<times> fed_seg \<Rightarrow> flight option option" where
  "flight_of (ck, g) =
     (case sg_next g of
        Answer d \<Rightarrow> Some None
      | Await_lease pid lws \<Rightarrow> map_option (\<lambda>j. Some (Sent ck j)) (sg_job g)
      | _ \<Rightarrow> None)"

fun answer_of :: "string \<Rightarrow> fed_check \<times> fed_seg \<Rightarrow> (string \<times> string \<times> num \<times> decision) list" where
  "answer_of i (ck, g) = (case sg_next g of Answer d \<Rightarrow> [(i, ck_key ck, ck_cost ck, d)] | _ \<Rightarrow> [])"

fun leftovers :: "fed_out list \<Rightarrow> (string \<times> num \<times> num) list" where
  "leftovers [] = []"
| "leftovers (Send_leftover k x ws # out) = (k, x, ws) # leftovers out"
| "leftovers (Send_with_escrow k x ws # out) = leftovers out"

definition fed_settle :: "string \<Rightarrow> string \<Rightarrow> fed_check \<times> fed_seg \<Rightarrow> 's fed_world \<Rightarrow> 's fed_world option" where
  "fed_settle i key x w =
     map_option (\<lambda>f. w\<lparr>fw_engine := (fw_engine w)(i := sg_engine (snd x)),
                       fw_flight := (fw_flight w)(i := (fw_flight w i)(key := f)),
                       fw_msgs := fw_msgs w @ leftovers (sg_out (snd x)), fw_log := fw_log w @ answer_of i x\<rparr>) (flight_of x)"

fun fed_act ::
  "('e \<Rightarrow> 's \<Rightarrow> string \<Rightarrow> num \<Rightarrow> num \<Rightarrow> num result \<times> 's) \<Rightarrow> ('e \<Rightarrow> 's \<Rightarrow> string \<Rightarrow> num \<Rightarrow> num \<Rightarrow> num \<Rightarrow> unit result \<times> 's) \<Rightarrow>
   (string \<Rightarrow> fed_opts) \<Rightarrow> 'e fed_action \<Rightarrow> 's fed_world \<Rightarrow> 's fed_world option" where
  "fed_act lease reconcile C (Tick t) w = (if fw_now w \<le> t then Some (w\<lparr>fw_now := t\<rparr>) else None)"
| "fed_act lease reconcile C (Begin i raw cost) w =
     (let key = prefixer (fo_prefix (C i)) raw
      in if fw_flight w i key \<noteq> None then None
         else case fe_enter (C i) (fw_engine w i) raw cost (fw_now w) of Inl e \<Rightarrow> Some w | Inr x \<Rightarrow> fed_settle i key x w)"
| "fed_act lease reconcile C (Serve i key e) w =
     (case fw_flight w i key of
        Some (Sent ck job) \<Rightarrow>
          (case lease e (fw_coord w) key (jb_tokens job) (fw_now w) of
             (res, s) \<Rightarrow> Some (w\<lparr>fw_coord := s, fw_flight := (fw_flight w)(i := (fw_flight w i)(key \<mapsto> Replied ck job res)),
                fw_grants := fw_grants w @ (case res of Inr g \<Rightarrow> [(fw_now w, key, jb_windowStart job, g)] | Inl _ \<Rightarrow> [])\<rparr>))
      | _ \<Rightarrow> None)"
| "fed_act lease reconcile C (Resume i key) w =
     (case fw_flight w i key of
        Some (Replied ck job res) \<Rightarrow>
          (case job_coordinator (C i) (fw_engine w i) job res of
             (Resolved g, s) \<Rightarrow>
               (case fe_resume (C i) ck (fe_lease_reply (C i) s ck (jb_id job) (jb_windowStart job) g) (fw_now w) of
                  Inl e \<Rightarrow> None | Inr x \<Rightarrow> fed_settle i key x w)
           | _ \<Rightarrow> None)
      | _ \<Rightarrow> None)"
| "fed_act lease reconcile C (Reset i raw) w = Some (w\<lparr>fw_engine := (fw_engine w)(i := fe_reset (C i) (fw_engine w i) raw)\<rparr>)"
| "fed_act lease reconcile C (Shut i) w = Some (w\<lparr>fw_engine := (fw_engine w)(i := fe_close (fw_engine w i))\<rparr>)"
| "fed_act lease reconcile C (Return n e) w =
     (if n < length (fw_msgs w) then
        (case fw_msgs w ! n of
           (k, x, ws) \<Rightarrow> Some (w\<lparr>fw_coord := snd (reconcile e (fw_coord w) k x ws (fw_now w)),
                                fw_msgs := take n (fw_msgs w) @ drop (Suc n) (fw_msgs w)\<rparr>))
      else None)"

fun fed_run ::
  "('e \<Rightarrow> 's \<Rightarrow> string \<Rightarrow> num \<Rightarrow> num \<Rightarrow> num result \<times> 's) \<Rightarrow> ('e \<Rightarrow> 's \<Rightarrow> string \<Rightarrow> num \<Rightarrow> num \<Rightarrow> num \<Rightarrow> unit result \<times> 's) \<Rightarrow>
   (string \<Rightarrow> fed_opts) \<Rightarrow> 'e fed_action list \<Rightarrow> 's fed_world \<Rightarrow> 's fed_world option" where
  "fed_run lease reconcile C [] w = Some w"
| "fed_run lease reconcile C (a # acts) w = Option.bind (fed_act lease reconcile C a w) (fed_run lease reconcile C acts)"

definition fed_world_new :: "num \<Rightarrow> 's \<Rightarrow> 's fed_world" where
  "fed_world_new t s =
     \<lparr>fw_now = t, fw_coord = s,
      fw_engine = (\<lambda>_. \<lparr>eg_entries = (\<lambda>_. None), eg_healthy = True, eg_lastProbeAt = 0, eg_probing = False, eg_next = 0\<rparr>),
      fw_flight = (\<lambda>_ _. None), fw_msgs = [], fw_log = [], fw_grants = []\<rparr>"

text \<open>What was admitted of a window (by the reset time of the answer), and what was granted for it, served in
  it or after it.\<close>

definition fed_admitted :: "num \<Rightarrow> num \<Rightarrow> string \<Rightarrow> (string \<times> string \<times> num \<times> decision) list \<Rightarrow> num" where
  "fed_admitted W c k ls = (\<Sum>(i, key, cost, d)\<leftarrow>ls. if key = k \<and> d_allowed d \<and> d_resetAt d = c + W then cost else 0)"

definition fed_granted :: "num \<Rightarrow> string \<Rightarrow> (num \<times> string \<times> num \<times> num) list \<Rightarrow> num" where
  "fed_granted c k gs = (\<Sum>(t, key, ws, g)\<leftarrow>gs. if key = k \<and> ws = c then g else 0)"

definition fed_late :: "num \<Rightarrow> num \<Rightarrow> string \<Rightarrow> (num \<times> string \<times> num \<times> num) list \<Rightarrow> num" where
  "fed_late W c k gs = (\<Sum>(t, key, ws, g)\<leftarrow>gs. if key = k \<and> ws = c \<and> coord_window W t \<noteq> c then g else 0)"

definition fed_served :: "num \<Rightarrow> num \<Rightarrow> string \<Rightarrow> (num \<times> string \<times> num \<times> num) list \<Rightarrow> num" where
  "fed_served W c k gs = (\<Sum>(t, key, ws, g)\<leftarrow>gs. if key = k \<and> coord_window W t = c then g else 0)"

section \<open>The ledger of a region\<close>

fun flight_check :: "flight \<Rightarrow> fed_check" where
  "flight_check (Sent ck j) = ck"
| "flight_check (Replied ck j r) = ck"

fun flight_job :: "flight \<Rightarrow> lease_job" where
  "flight_job (Sent ck j) = j"
| "flight_job (Replied ck j r) = j"

fun flight_grant :: "flight \<Rightarrow> num" where
  "flight_grant (Replied ck j (Inr g)) = g"
| "flight_grant _ = 0"

text \<open>The state of one key of a region, with its check in flight.\<close>

definition entry_ok :: "num \<Rightarrow> flight option \<Rightarrow> fed_entry \<Rightarrow> bool" where
  "entry_ok W f e \<longleftrightarrow> 0 \<le> en_balance e \<and> en_expiresAt e = en_windowStart e + W \<and>
     (case f of None \<Rightarrow> en_pending e = None
      | Some fl \<Rightarrow> en_windowStart e = jb_windowStart (flight_job fl) \<and> en_pending e = Some (jb_id (flight_job fl)))"

definition flight_ok :: "string \<Rightarrow> (string \<Rightarrow> string) \<Rightarrow> flight \<Rightarrow> bool" where
  "flight_ok key pre fl \<longleftrightarrow> ck_key (flight_check fl) = key \<and> pre (ck_raw (flight_check fl)) = key \<and>
     0 < ck_cost (flight_check fl) \<and> ck_cost (flight_check fl) \<le> max_safe_integer \<and>
     0 \<le> jb_tokens (flight_job fl) \<and> 0 \<le> flight_grant fl"

definition held_in :: "num \<Rightarrow> fed_entry option \<Rightarrow> flight option \<Rightarrow> num" where
  "held_in c e f =
     (case e of None \<Rightarrow> 0 | Some e \<Rightarrow> if en_windowStart e = c then en_balance e else 0) +
     (case f of None \<Rightarrow> 0 | Some fl \<Rightarrow> if jb_windowStart (flight_job fl) = c then flight_grant fl else 0)"

text \<open>Options without a regional escrow.\<close>

definition plain_opts :: "num \<Rightarrow> fed_opts \<Rightarrow> bool" where
  "plain_opts W C \<longleftrightarrow> \<not> fo_escrow C \<and> \<not> fo_regionalOnly C \<and> fo_windowMs C = W \<and> 0 < W \<and> 0 \<le> fo_batch C"

definition admits_of :: "num \<Rightarrow> num \<Rightarrow> fed_check \<times> fed_seg \<Rightarrow> num" where
  "admits_of W c x = (case sg_next (snd x) of
     Answer d \<Rightarrow> if d_allowed d \<and> d_resetAt d = c + W then ck_cost (fst x) else 0 | _ \<Rightarrow> 0)"

text \<open>A segment that started with \<open>b\<close> held keeps the ledger.\<close>

definition seg_keeps :: "num \<Rightarrow> (string \<Rightarrow> string) \<Rightarrow> num \<Rightarrow> string \<Rightarrow> fed_engine \<Rightarrow> num \<Rightarrow> num \<Rightarrow> fed_check \<times> fed_seg \<Rightarrow> bool" where
  "seg_keeps W pre c key s now b x \<longleftrightarrow>
     (\<exists>f. flight_of x = Some f \<and> pred_option (entry_ok W f) (eg_entries (sg_engine (snd x)) key) \<and>
        pred_option (\<lambda>fl. flight_ok key pre fl \<and> flight_grant fl = 0) f \<and> (\<forall>i. i \<noteq> key \<longrightarrow> eg_entries (sg_engine (snd x)) i = eg_entries s i) \<and>
        admits_of W c x + held_in c (eg_entries (sg_engine (snd x)) key) f \<le> b \<and> ck_key (fst x) = key \<and>
        (\<forall>(k, y, ws)\<in>set (leftovers (sg_out (snd x))). 0 \<le> y \<and> ws < coord_window W now))"

lemma put_entry_entries [simp]: "eg_entries (put_entry s k e) i = (if i = k then Some e else eg_entries s i)"
  by (simp add: put_entry_def)

lemma turn_keeps:
  assumes C: "plain_opts W C" and e: "entry_ok W None e"
    and ck: "ck_key ck = key" "pre (ck_raw ck) = key" "0 < ck_cost ck" "ck_cost ck \<le> max_safe_integer"
  shows "seg_keeps W pre c key s now (held_in c (Some e) None) (ck, fe_turn C s ck e)"
proof (cases "en_balance e < ck_cost ck")
  case True
  have "fe_turn C s ck e = fe_lease C s ck e" using True C by (simp add: fe_turn_def plain_opts_def)
  then show ?thesis
    using C e ck by (auto simp: seg_keeps_def fe_lease_def plain_opts_def entry_ok_def flight_ok_def held_in_def admits_of_def Let_def)
next
  case False
  then show ?thesis
    using e ck by (auto simp: seg_keeps_def fe_turn_def seg_def entry_ok_def held_in_def admits_of_def)
qed

lemma advance_spec:
  assumes C: "plain_opts W C" and ok: "pred_option (entry_ok W None) (eg_entries s key)"
    and a: "fe_advance C s key now = (e, s1, out)"
  shows "entry_ok W None e" "eg_entries s1 i = (if i = key then Some e else eg_entries s i)"
    "held_in c (Some e) None \<le> held_in c (eg_entries s key) None"
    "\<forall>(k, y, ws)\<in>set (leftovers out). 0 \<le> y \<and> ws < coord_window W now"
proof -
  have W: "0 < W" "fo_windowMs C = W" "\<not> fo_escrow C" using C by (simp_all add: plain_opts_def)
  have cw: "now < coord_window W now + W" by (rule coord_window_bounds(2)[OF W(1)])
  have w: "fe_windowFor C now = (coord_window W now, coord_window W now + W)"
    by (simp add: fe_windowFor_def coord_window_def Let_def W(2))
  have "entry_ok W None e \<and> eg_entries s1 i = (if i = key then Some e else eg_entries s i) \<and>
      held_in c (Some e) None \<le> held_in c (eg_entries s key) None \<and>
      (\<forall>(k, y, ws)\<in>set (leftovers out). 0 \<le> y \<and> ws < coord_window W now)"
  proof (cases "eg_entries s key")
    case None
    then show ?thesis using a w by (auto simp: fe_advance_def Let_def entry_ok_def held_in_def)
  next
    case (Some e0)
    have e0: "entry_ok W None e0" using ok Some by simp
    show ?thesis
    proof (cases "now \<ge> en_expiresAt e0")
      case True
      then have "en_windowStart e0 < coord_window W now" using e0 cw by (simp add: entry_ok_def)
      then show ?thesis using a w Some True e0 W(3)
        by (auto simp: fe_advance_def Let_def entry_ok_def held_in_def split: if_splits)
    next
      case False
      then show ?thesis using a w Some e0 by (auto simp: fe_advance_def)
    qed
  qed
  then show "entry_ok W None e" "eg_entries s1 i = (if i = key then Some e else eg_entries s i)"
    "held_in c (Some e) None \<le> held_in c (eg_entries s key) None"
    "\<forall>(k, y, ws)\<in>set (leftovers out). 0 \<le> y \<and> ws < coord_window W now" by blast+
qed

lemma leftovers_append [simp]: "leftovers (a @ b) = leftovers a @ leftovers b"
  by (induction a rule: leftovers.induct) simp_all

lemma seg_out_simps [simp]:
  "flight_of (ck, g\<lparr>sg_out := out\<rparr>) = flight_of (ck, g)" "admits_of W c (ck, g\<lparr>sg_out := out\<rparr>) = admits_of W c (ck, g)"
  by (cases "sg_next g"; simp add: admits_of_def)+

lemma seg_keeps_out:
  assumes "seg_keeps W pre c key s1 now b (ck, g)" "\<And>i. i \<noteq> key \<Longrightarrow> eg_entries s1 i = eg_entries s i" "b \<le> b'"
    "\<forall>(k, y, ws)\<in>set (leftovers out). 0 \<le> y \<and> ws < coord_window W now"
  shows "seg_keeps W pre c key s now b' (ck, g\<lparr>sg_out := out @ sg_out g\<rparr>)"
  using assms unfolding seg_keeps_def seg_out_simps by (auto simp del: flight_of.simps)

lemma start_keeps:
  assumes C: "plain_opts W C" and ok: "pred_option (entry_ok W None) (eg_entries s key)"
    and ck: "ck_key ck = key" "pre (ck_raw ck) = key" "0 < ck_cost ck" "ck_cost ck \<le> max_safe_integer"
  shows "seg_keeps W pre c key s (ck_now ck) (held_in c (eg_entries s key) None) (ck, fe_start C s ck)"
proof -
  obtain e s1 out where a: "fe_advance C s key (ck_now ck) = (e, s1, out)" by (metis prod.exhaust)
  note adv = advance_spec[OF C ok a]
  have "seg_keeps W pre c key s1 (ck_now ck) (held_in c (Some e) None) (ck, fe_turn C s1 ck e)"
    by (rule turn_keeps[where pre = pre, OF C adv(1) ck])
  moreover have "fe_start C s ck = (fe_turn C s1 ck e)\<lparr>sg_out := out @ sg_out (fe_turn C s1 ck e)\<rparr>"
    by (simp add: fe_start_def ck(1) a Let_def)
  moreover have "eg_entries s1 i = eg_entries s i" if "i \<noteq> key" for i using adv(2)[of i] that by simp
  ultimately show ?thesis
    using seg_keeps_out[OF _ _ adv(3)[of c] adv(4)] by simp
qed

lemma enter_keeps:
  assumes C: "plain_opts W C" and ok: "pred_option (entry_ok W None) (eg_entries s key)"
    and key: "key = prefixer (fo_prefix C) raw" and r: "fe_enter C s raw cost now = Inr x"
  shows "seg_keeps W (prefixer (fo_prefix C)) c key s now (held_in c (eg_entries s key) None) x"
proof -
  obtain c0 where c0: "0 < c0" "c0 \<le> max_safe_integer" "cost = Num c0"
    using r by (auto simp: fe_enter_def result_simps)
  define ck where "ck = \<lparr>ck_raw = raw, ck_key = key, ck_cost = c0, ck_now = now\<rparr>"
  have "x = (ck, fe_start C s ck)"
    using r C c0 by (auto simp: fe_enter_def result_simps Let_def fe_probe_def plain_opts_def ck_def key)
  then show ?thesis
    using start_keeps[where ck = ck and pre = "prefixer (fo_prefix C)" and c = c, OF C ok] c0 by (simp add: ck_def key)
qed

text \<open>A reply that lands: its grant moves from the flight into the entry, or is lost with it.\<close>

lemma reply_keeps:
  assumes C: "plain_opts W C" and ok: "pred_option (entry_ok W (Some (Replied ck job res))) (eg_entries s key)"
    and fl: "flight_ok key (prefixer (fo_prefix C)) (Replied ck job res)"
    and j: "job_coordinator C s job res = (Resolved g, s1)"
    and r: "fe_resume C ck (fe_lease_reply C s1 ck (jb_id job) (jb_windowStart job) g) now = Inr x"
  shows "seg_keeps W (prefixer (fo_prefix C)) c key s now (held_in c (eg_entries s key) (Some (Replied ck job res))) x"
proof -
  let ?fl = "Replied ck job res"
  have ck: "ck_key ck = key" "prefixer (fo_prefix C) (ck_raw ck) = key" "0 < ck_cost ck" "ck_cost ck \<le> max_safe_integer"
    using fl by (simp_all add: flight_ok_def)
  have s1: "eg_entries s1 = eg_entries s" and g: "g = flight_grant ?fl" "0 \<le> g"
    using j C fl by (auto simp: job_coordinator_def plain_opts_def flight_ok_def split: sum.splits if_splits)
  show ?thesis
  proof (cases "eg_entries s key")
    case None
    then have "fe_enter C s1 (ck_raw ck) (Num (ck_cost ck)) now = Inr x"
      using r by (simp add: fe_lease_reply_def ck(1) s1 fe_resume_def seg_def)
    from enter_keeps[OF C _ ck(2)[symmetric] this, of c] have "seg_keeps W (prefixer (fo_prefix C)) c key s1 now 0 x"
      using None by (simp add: s1 held_in_def)
    then show ?thesis using g None by (auto simp: seg_keeps_def s1 held_in_def)
  next
    case (Some e0)
    have e0: "entry_ok W (Some ?fl) e0" using ok Some by simp
    define e where "e = e0\<lparr>en_pending := None\<rparr>"
    have e: "entry_ok W None e" "en_windowStart e = jb_windowStart job" "en_balance e = en_balance e0" "en_windowStart e0 = jb_windowStart job"
        "en_expiresAt e = en_windowStart e + W"
      using e0 by (simp_all add: e_def entry_ok_def)
    have rep: "fe_lease_reply C s1 ck (jb_id job) (jb_windowStart job) g =
        (if g > 0 then fe_turn C (put_entry (put_entry s1 key e) key (e\<lparr>en_balance := en_balance e + g\<rparr>)) ck (e\<lparr>en_balance := en_balance e + g\<rparr>)
         else seg (Answer (fe_denied C (ck_now ck) (en_expiresAt e) (en_balance e))) (put_entry s1 key e))"
      using e0 e(2) by (simp add: fe_lease_reply_def ck(1) s1 Some Let_def entry_ok_def e_def)
    show ?thesis
    proof (cases "g > 0")
      case True
      let ?e = "e\<lparr>en_balance := en_balance e + g\<rparr>" and ?s = "put_entry (put_entry s1 key e) key (e\<lparr>en_balance := en_balance e + g\<rparr>)"
      have "entry_ok W None ?e" using e(1) True by (simp add: entry_ok_def)
      from turn_keeps[where pre = "prefixer (fo_prefix C)", OF C this ck, of c ?s now]
      have t: "seg_keeps W (prefixer (fo_prefix C)) c key ?s now (held_in c (Some ?e) None) (ck, fe_turn C ?s ck ?e)" .
      then have "sg_next (fe_turn C ?s ck ?e) \<noteq> Restart" by (auto simp: seg_keeps_def)
      then have "x = (ck, fe_turn C ?s ck ?e)" using r True by (simp add: rep fe_resume_def)
      then show ?thesis using t e Some g by (auto simp: seg_keeps_def s1 held_in_def)
    next
      case False
      then have "x = (ck, seg (Answer (fe_denied C (ck_now ck) (en_expiresAt e) (en_balance e))) (put_entry s1 key e))"
        using r by (simp add: rep fe_resume_def seg_def)
      then show ?thesis using e Some g ck(1)
        by (auto simp: seg_keeps_def s1 held_in_def admits_of_def fe_denied_def seg_def)
    qed
  qed
qed

section \<open>The ledger of the world\<close>

lemma ledger_simps [simp]:
  "fed_admitted W c k [] = 0" "fed_granted c k [] = 0" "fed_late W c k [] = 0" "fed_served W c k [] = 0"
  "fed_admitted W c k (ls @ ls') = fed_admitted W c k ls + fed_admitted W c k ls'"
  "fed_granted c k (gs @ gs') = fed_granted c k gs + fed_granted c k gs'"
  "fed_served W c k (gs @ gs') = fed_served W c k gs + fed_served W c k gs'"
  by (simp_all add: fed_admitted_def fed_granted_def fed_late_def fed_served_def)

lemma fed_granted_split:
  "\<forall>(t, key, ws, g)\<in>set gs. 0 \<le> g \<Longrightarrow> fed_granted c k gs \<le> fed_served W c k gs + fed_late W c k gs"
  by (induction gs) (auto simp: fed_granted_def fed_served_def fed_late_def)

lemma admitted_answer: "ck_key (fst x) = key \<Longrightarrow> fed_admitted W c k (answer_of i x) = (if key = k then admits_of W c x else 0)"
  by (cases x) (auto simp: fed_admitted_def admits_of_def split: fed_next.split)

definition held_at :: "num \<Rightarrow> string \<Rightarrow> 's fed_world \<Rightarrow> string \<Rightarrow> num" where
  "held_at c k w i = held_in c (eg_entries (fw_engine w i) k) (fw_flight w i k)"

lemma held_sum:
  assumes "finite R" "i \<in> R" "\<And>j. j \<noteq> i \<Longrightarrow> held_at c k w' j = held_at c k w j"
  shows "(\<Sum>j\<in>R. held_at c k w' j) = (\<Sum>j\<in>R. held_at c k w j) - held_at c k w i + held_at c k w' i"
proof -
  have "(\<Sum>j\<in>R - {i}. held_at c k w' j) = (\<Sum>j\<in>R - {i}. held_at c k w j)" using assms(3) by (intro sum.cong) auto
  then show ?thesis using assms(1,2) by (simp add: sum.remove)
qed

lemma held_in_nonneg: "pred_option (entry_ok W f) e \<Longrightarrow> pred_option (flight_ok key pre) f \<Longrightarrow> 0 \<le> held_in c e f"
  by (cases e; cases f) (auto simp: held_in_def entry_ok_def flight_ok_def)

fun action_region :: "'e fed_action \<Rightarrow> string option" where
  "action_region (Tick t) = None"
| "action_region (Begin i raw cost) = Some i"
| "action_region (Serve i key e) = Some i"
| "action_region (Resume i key) = Some i"
| "action_region (Reset i raw) = Some i"
| "action_region (Shut i) = Some i"
| "action_region (Return n e) = None"

text \<open>What holds of entries, flights and leftovers.\<close>

definition parts_ok :: "num \<Rightarrow> (string \<Rightarrow> fed_opts) \<Rightarrow> 's fed_world \<Rightarrow> bool" where
  "parts_ok W C w \<longleftrightarrow>
     (\<forall>i key. pred_option (entry_ok W (fw_flight w i key)) (eg_entries (fw_engine w i) key) \<and>
        pred_option (flight_ok key (prefixer (fo_prefix (C i)))) (fw_flight w i key)) \<and>
     (\<forall>(k, x, ws)\<in>set (fw_msgs w). 0 \<le> x \<and> ws < coord_window W (fw_now w)) \<and>
     (\<forall>(t, key, ws, g)\<in>set (fw_grants w). 0 \<le> g)"

lemma settle_parts:
  assumes parts: "parts_ok W C w" and x: "fed_settle i key x w = Some w'"
    and keeps: "seg_keeps W (prefixer (fo_prefix (C i))) c key (fw_engine w i) (fw_now w) (held_at c key w i) x"
  shows "parts_ok W C w'" "fw_now w' = fw_now w" "fw_coord w' = fw_coord w" "fw_grants w' = fw_grants w"
    "fed_admitted W c k (fw_log w') + held_at c k w' i \<le> fed_admitted W c k (fw_log w) + held_at c k w i"
    "j \<noteq> i \<Longrightarrow> held_at c k w' j = held_at c k w j"
proof -
  obtain f where f: "flight_of x = Some f" "pred_option (entry_ok W f) (eg_entries (sg_engine (snd x)) key)"
      "pred_option (\<lambda>fl. flight_ok key (prefixer (fo_prefix (C i))) fl \<and> flight_grant fl = 0) f"
      "\<And>j. j \<noteq> key \<Longrightarrow> eg_entries (sg_engine (snd x)) j = eg_entries (fw_engine w i) j"
      "admits_of W c x + held_in c (eg_entries (sg_engine (snd x)) key) f \<le> held_at c key w i" "ck_key (fst x) = key"
      "\<forall>(k, y, ws)\<in>set (leftovers (sg_out (snd x))). 0 \<le> y \<and> ws < coord_window W (fw_now w)"
    using keeps unfolding seg_keeps_def by auto
  have w': "w' = w\<lparr>fw_engine := (fw_engine w)(i := sg_engine (snd x)), fw_flight := (fw_flight w)(i := (fw_flight w i)(key := f)),
      fw_msgs := fw_msgs w @ leftovers (sg_out (snd x)), fw_log := fw_log w @ answer_of i x\<rparr>"
    using x f(1) by (simp add: fed_settle_def)
  have fok: "pred_option (flight_ok key (prefixer (fo_prefix (C i)))) f" using f(3) by (cases f) auto
  show "parts_ok W C w'" using parts f(2,4,7) fok unfolding w' parts_ok_def by auto
  show "fw_now w' = fw_now w" "fw_coord w' = fw_coord w" "fw_grants w' = fw_grants w" by (simp_all add: w')
  show "fed_admitted W c k (fw_log w') + held_at c k w' i \<le> fed_admitted W c k (fw_log w) + held_at c k w i"
    using f(4)[of k] f(5) by (cases "key = k") (simp_all add: w' admitted_answer[OF f(6)] held_at_def)
  show "j \<noteq> i \<Longrightarrow> held_at c k w' j = held_at c k w j" by (simp add: w' held_at_def)
qed

lemma begin_keeps:
  assumes C: "plain_opts W (C i)" and parts: "parts_ok W C w" and none: "fw_flight w i (prefixer (fo_prefix (C i)) raw) = None"
    and r: "fe_enter (C i) (fw_engine w i) raw cost (fw_now w) = Inr x"
  shows "seg_keeps W (prefixer (fo_prefix (C i))) c (prefixer (fo_prefix (C i)) raw) (fw_engine w i) (fw_now w)
     (held_at c (prefixer (fo_prefix (C i)) raw) w i) x"
proof -
  have "pred_option (entry_ok W None) (eg_entries (fw_engine w i) (prefixer (fo_prefix (C i)) raw))"
    using parts none unfolding parts_ok_def by metis
  from enter_keeps[OF C this refl r, of c] show ?thesis by (simp add: held_at_def none)
qed

lemma resume_keeps:
  assumes C: "plain_opts W (C i)" and parts: "parts_ok W C w" and fl: "fw_flight w i key = Some (Replied ck job res)"
    and j: "job_coordinator (C i) (fw_engine w i) job res = (Resolved g, s)"
    and r: "fe_resume (C i) ck (fe_lease_reply (C i) s ck (jb_id job) (jb_windowStart job) g) (fw_now w) = Inr x"
  shows "seg_keeps W (prefixer (fo_prefix (C i))) c key (fw_engine w i) (fw_now w) (held_at c key w i) x"
proof -
  have "pred_option (entry_ok W (Some (Replied ck job res))) (eg_entries (fw_engine w i) key)"
      "flight_ok key (prefixer (fo_prefix (C i))) (Replied ck job res)"
    using parts fl unfolding parts_ok_def by (metis option.pred_inject(2))+
  from reply_keeps[OF C this j r, of c] show ?thesis by (simp add: held_at_def fl)
qed

context budget_authority
begin

definition world_ok :: "(string \<Rightarrow> fed_opts) \<Rightarrow> num \<Rightarrow> string \<Rightarrow> string set \<Rightarrow> 's fed_world \<Rightarrow> bool" where
  "world_ok C c k R w \<longleftrightarrow> ok (fw_now w) (fw_coord w) \<and> parts_ok W C w \<and>
     fed_admitted W c k (fw_log w) + (\<Sum>i\<in>R. held_at c k w i) \<le> fed_granted c k (fw_grants w) \<and>
     fed_served W c k (fw_grants w) + stock (fw_now w) (fw_coord w) c k \<le> budget k"

lemma settle_ok:
  assumes w: "world_ok C c k R w" and R: "finite R" "i \<in> R" and x: "fed_settle i key x w = Some w'"
    and keeps: "seg_keeps W (prefixer (fo_prefix (C i))) c key (fw_engine w i) (fw_now w) (held_at c key w i) x"
  shows "world_ok C c k R w'"
proof -
  have parts: "parts_ok W C w" using w by (simp add: world_ok_def)
  note s = settle_parts[OF parts x keeps]
  have "(\<Sum>j\<in>R. held_at c k w' j) = (\<Sum>j\<in>R. held_at c k w j) - held_at c k w i + held_at c k w' i"
    by (rule held_sum[OF R]) (rule s(6))
  then show ?thesis using w s(1-4) s(5)[of k] by (simp add: world_ok_def)
qed

lemma serve_ok:
  assumes w: "world_ok C c k R w" and R: "finite R" "i \<in> R" and fl: "fw_flight w i key = Some (Sent ck job)"
    and r: "lease e (fw_coord w) key (jb_tokens job) (fw_now w) = (res, s)"
    and w': "w' = w\<lparr>fw_coord := s, fw_flight := (fw_flight w)(i := (fw_flight w i)(key \<mapsto> Replied ck job res)),
                fw_grants := fw_grants w @ (case res of Inr g \<Rightarrow> [(fw_now w, key, jb_windowStart job, g)] | Inl _ \<Rightarrow> [])\<rparr>"
  shows "world_ok C c k R w'"
proof -
  have ok: "ok (fw_now w) (fw_coord w)" and parts: "parts_ok W C w" using w by (simp_all add: world_ok_def)
  have "pred_option (flight_ok key (prefixer (fo_prefix (C i)))) (Some (Sent ck job))"
    using parts fl unfolding parts_ok_def by metis
  then have job: "flight_ok key (prefixer (fo_prefix (C i))) (Sent ck job)" by simp
  then have n: "0 \<le> jb_tokens job" by (simp add: flight_ok_def)
  note laws = lease_ok[OF ok order_refl n r] lease_takes[OF ok order_refl n r, of k]
  have grant: "0 \<le> g \<and> avail (fw_now w) s key + g \<le> avail (fw_now w) (fw_coord w) key" if "res = Inr g" for g
    using lease_grant[OF ok order_refl n, of e key g s] r that by auto
  have fl': "flight_ok key (prefixer (fo_prefix (C i))) (Replied ck job res)"
    using job grant by (cases res) (simp_all add: flight_ok_def)
  have "pred_option (entry_ok W (Some (Sent ck job))) (eg_entries (fw_engine w i) key)"
    using parts fl unfolding parts_ok_def by metis
  then have en: "pred_option (entry_ok W (Some (Replied ck job res))) (eg_entries (fw_engine w i) key)"
    by (cases "eg_entries (fw_engine w i) key") (simp_all add: entry_ok_def)
  have p: "parts_ok W C w'" using parts fl' en grant unfolding w' parts_ok_def by (auto split: sum.splits)
  have "(\<Sum>j\<in>R. held_at c k w' j) = (\<Sum>j\<in>R. held_at c k w j) - held_at c k w i + held_at c k w' i"
    by (rule held_sum[OF R]) (simp add: w' held_at_def)
  moreover have "held_at c k w' i - held_at c k w i = fed_granted c k (fw_grants w') - fed_granted c k (fw_grants w)"
    using fl by (cases res) (auto simp: w' held_at_def held_in_def fed_granted_def)
  moreover have "fed_served W c k (fw_grants w') + stock (fw_now w) s c k \<le> fed_served W c k (fw_grants w) + stock (fw_now w) (fw_coord w) c k"
    using laws(2) grant by (cases res) (auto simp: w' fed_served_def stock_def)
  ultimately show ?thesis using w p laws(1) unfolding world_ok_def w' by simp
qed

lemma tick_ok:
  assumes w: "world_ok C c k R w" and t: "fw_now w \<le> t"
  shows "world_ok C c k R (w\<lparr>fw_now := t\<rparr>)"
proof -
  have ok: "ok (fw_now w) (fw_coord w)" using w by (simp add: world_ok_def)
  have "parts_ok W C (w\<lparr>fw_now := t\<rparr>)"
    using w coord_window_mono[OF window_pos[OF ok] t] by (fastforce simp: world_ok_def parts_ok_def)
  then show ?thesis
    using w ok_later[OF ok t] stock_later[OF ok t, of c k] by (simp add: world_ok_def held_at_def)
qed

lemma return_ok:
  assumes w: "world_ok C c k R w" and n: "n < length (fw_msgs w)" "fw_msgs w ! n = (key, x, ws)"
  shows "world_ok C c k R (w\<lparr>fw_coord := snd (reconcile e (fw_coord w) key x ws (fw_now w)), fw_msgs := take n (fw_msgs w) @ drop (Suc n) (fw_msgs w)\<rparr>)"
proof -
  have ok: "ok (fw_now w) (fw_coord w)" and parts: "parts_ok W C w" using w by (simp_all add: world_ok_def)
  have "(key, x, ws) \<in> set (fw_msgs w)" using n by (metis nth_mem)
  then have x: "0 \<le> x" "ws < coord_window W (fw_now w)" using parts by (auto simp: parts_ok_def)
  define s where "s = snd (reconcile e (fw_coord w) key x ws (fw_now w))"
  have r: "reconcile e (fw_coord w) key x ws (fw_now w) = (fst (reconcile e (fw_coord w) key x ws (fw_now w)), s)" by (simp add: s_def)
  have "stock (fw_now w) s c k \<le> stock (fw_now w) (fw_coord w) c k"
    using reconcile_gives[OF ok order_refl x(1) less_imp_le[OF x(2)] r, of k] x(2) by (auto simp: stock_def)
  moreover have "parts_ok W C (w\<lparr>fw_coord := s, fw_msgs := take n (fw_msgs w) @ drop (Suc n) (fw_msgs w)\<rparr>)"
    using parts unfolding parts_ok_def by (auto dest: in_set_takeD in_set_dropD)
  ultimately show ?thesis
    using w reconcile_ok[OF ok order_refl x(1) r] unfolding s_def[symmetric] by (simp add: world_ok_def held_at_def)
qed

text \<open>Forgetting entries only loses units.\<close>

lemma forget_ok:
  assumes w: "world_ok C c k R w" and R: "finite R" "i \<in> R"
    and s: "\<And>key. eg_entries s key = None \<or> eg_entries s key = eg_entries (fw_engine w i) key"
  shows "world_ok C c k R (w\<lparr>fw_engine := (fw_engine w)(i := s)\<rparr>)" (is "world_ok C c k R ?w")
proof -
  have parts: "parts_ok W C w" using w by (simp add: world_ok_def)
  have "pred_option (entry_ok W (fw_flight w i key)) (eg_entries s key)" for key
    using s[of key] parts unfolding parts_ok_def by (metis option.pred_inject(1))
  then have p: "parts_ok W C ?w" using parts unfolding parts_ok_def by auto
  have fl: "pred_option (flight_ok k (prefixer (fo_prefix (C i)))) (fw_flight w i k)" using parts unfolding parts_ok_def by blast
  have "pred_option (entry_ok W (fw_flight w i k)) (eg_entries (fw_engine w i) k)" using parts unfolding parts_ok_def by blast
  then have "held_at c k ?w i \<le> held_at c k w i"
    using s[of k] by (cases "eg_entries (fw_engine w i) k") (auto simp: held_at_def held_in_def entry_ok_def)
  moreover have "(\<Sum>j\<in>R. held_at c k ?w j) = (\<Sum>j\<in>R. held_at c k w j) - held_at c k w i + held_at c k ?w i"
    by (rule held_sum[OF R]) (simp add: held_at_def)
  ultimately show ?thesis using w p by (simp add: world_ok_def)
qed

lemma act_ok:
  assumes w: "world_ok C c k R w" and C: "\<And>i. plain_opts W (C i)" and R: "finite R" "set_option (action_region a) \<subseteq> R"
    and r: "fed_act lease reconcile C a w = Some w'"
  shows "world_ok C c k R w'"
proof (cases a)
  case (Tick t)
  then show ?thesis using r tick_ok[OF w] by (auto split: if_splits)
next
  case (Begin i raw cost)
  have parts: "parts_ok W C w" using w by (simp add: world_ok_def)
  show ?thesis
  proof (cases "fe_enter (C i) (fw_engine w i) raw cost (fw_now w)")
    case (Inl e)
    then show ?thesis using r w by (simp add: Begin Let_def split: if_splits)
  next
    case (Inr x)
    then have x: "fw_flight w i (prefixer (fo_prefix (C i)) raw) = None" "fed_settle i (prefixer (fo_prefix (C i)) raw) x w = Some w'"
      using r by (simp_all add: Begin Let_def split: if_splits)
    have "i \<in> R" using R(2) by (simp add: Begin)
    then show ?thesis using settle_ok[OF w R(1) _ x(2) begin_keeps[OF C parts x(1) Inr]] by blast
  qed
next
  case (Serve i key e)
  obtain ck job where fl: "fw_flight w i key = Some (Sent ck job)" using r by (auto simp: Serve split: option.splits flight.splits)
  obtain res s where l: "lease e (fw_coord w) key (jb_tokens job) (fw_now w) = (res, s)" by (metis surj_pair)
  have "i \<in> R" using R(2) by (simp add: Serve)
  then show ?thesis using serve_ok[OF w R(1) _ fl l refl] r by (simp add: Serve fl l)
next
  case (Resume i key)
  have parts: "parts_ok W C w" using w by (simp add: world_ok_def)
  obtain ck job res where fl: "fw_flight w i key = Some (Replied ck job res)" using r by (auto simp: Resume split: option.splits flight.splits)
  obtain g s where j: "job_coordinator (C i) (fw_engine w i) job res = (Resolved g, s)"
    using r by (auto simp: Resume fl split: job_next.splits prod.splits)
  obtain x where x: "fe_resume (C i) ck (fe_lease_reply (C i) s ck (jb_id job) (jb_windowStart job) g) (fw_now w) = Inr x"
      "fed_settle i key x w = Some w'"
    using r by (auto simp: Resume fl j split: sum.splits)
  have "i \<in> R" using R(2) by (simp add: Resume)
  then show ?thesis using settle_ok[OF w R(1) _ x(2) resume_keeps[where C = C, OF C parts fl j x(1)]] by blast
next
  case (Reset i raw)
  have "i \<in> R" using R(2) by (simp add: Reset)
  then show ?thesis using forget_ok[OF w R(1), of i "fe_reset (C i) (fw_engine w i) raw"] r by (simp add: Reset fe_reset_def)
next
  case (Shut i)
  have "i \<in> R" using R(2) by (simp add: Shut)
  then show ?thesis using forget_ok[OF w R(1), of i "fe_close (fw_engine w i)"] r by (simp add: Shut fe_close_def)
next
  case (Return n e)
  then show ?thesis using r return_ok[OF w] by (auto split: if_splits prod.splits)
qed

lemma run_ok:
  "world_ok C c k R w \<Longrightarrow> (\<And>i. plain_opts W (C i)) \<Longrightarrow> finite R \<Longrightarrow> (\<Union>a\<in>set acts. set_option (action_region a)) \<subseteq> R \<Longrightarrow>
   fed_run lease reconcile C acts w = Some w' \<Longrightarrow> world_ok C c k R w'"
proof (induction acts arbitrary: w)
  case (Cons a acts)
  obtain w1 where "fed_act lease reconcile C a w = Some w1" "fed_run lease reconcile C acts w1 = Some w'"
    using Cons.prems(5) by (auto simp: bind_eq_Some_conv)
  then show ?case using Cons.IH[of w1] act_ok[OF Cons.prems(1,2,3), of a w1] Cons.prems(2-4) by auto
qed simp

lemma new_ok: "ok t s \<Longrightarrow> world_ok C c k R (fed_world_new t s)"
  using avail_bounds[of t s k] by (simp add: world_ok_def parts_ok_def fed_world_new_def held_at_def held_in_def stock_def)

lemma federation_bound:
  assumes ok: "ok t s" and C: "\<And>i. plain_opts W (C i)" and r: "fed_run lease reconcile C acts (fed_world_new t s) = Some w"
  shows "fed_admitted W c k (fw_log w) \<le> budget k + fed_late W c k (fw_grants w)"
proof -
  let ?R = "\<Union>a\<in>set acts. set_option (action_region a)"
  have fin: "finite ?R" by simp
  have w: "world_ok C c k ?R w" by (rule run_ok[OF new_ok[OF ok] C fin order_refl r])
  have "0 \<le> held_at c k w i" for i
    using w unfolding world_ok_def parts_ok_def held_at_def by (blast intro: held_in_nonneg)
  then have "0 \<le> (\<Sum>i\<in>?R. held_at c k w i)" by (simp add: sum_nonneg)
  moreover have "0 \<le> stock (fw_now w) (fw_coord w) c k"
    using avail_bounds[of "fw_now w" "fw_coord w" k] w by (auto simp: world_ok_def stock_def)
  moreover have "fed_granted c k (fw_grants w) \<le> fed_served W c k (fw_grants w) + fed_late W c k (fw_grants w)"
    using w by (intro fed_granted_split) (auto simp: world_ok_def parts_ok_def)
  ultimately show ?thesis using w unfolding world_ok_def by linarith
qed

end

section \<open>What sharing a lease does\<close>

text \<open>
  Every check that waits on one lease adds the whole grant to the entry: two checks of cost 1 that share a
  lease of one unit are both admitted.
\<close>

definition small_opts :: "bool \<Rightarrow> fed_opts" where
  "small_opts escrow = \<lparr>fo_limit = 1, fo_windowMs = 1000, fo_batch = 1, fo_escrow = escrow, fo_regionalOnly = False,
     fo_healthMs = 5000, fo_probes = False, fo_prefix = None\<rparr>"

definition fresh_engine :: fed_engine where
  "fresh_engine = \<lparr>eg_entries = (\<lambda>_. None), eg_healthy = True, eg_lastProbeAt = 0, eg_probing = False, eg_next = 0\<rparr>"

lemmas fed_eval = fe_enter_def fe_probe_def fe_start_def fe_advance_def fe_windowFor_def fe_turn_def fe_lease_def fe_lease_reply_def
  fe_escrow_reply_def seg_def Let_def small_opts_def fresh_engine_def prefixer_def requireCost_def max_safe_integer_def js_floor_def put_entry_def

lemma shared_lease_double_credit:
  "\<exists>a ga b gb. fe_enter (small_opts False) fresh_engine ''k'' (Num 1) 0 = Inr (a, ga) \<and> sg_next ga = Await_lease 0 0 \<and>
     map_option jb_tokens (sg_job ga) = Some 1 \<and>
     fe_enter (small_opts False) (sg_engine ga) ''k'' (Num 1) 0 = Inr (b, gb) \<and> sg_next gb = Await_lease 0 0 \<and> sg_job gb = None \<and>
     (let ra = fe_lease_reply (small_opts False) (sg_engine gb) a 0 0 1; rb = fe_lease_reply (small_opts False) (sg_engine ra) b 0 0 1
      in (\<exists>d. sg_next ra = Answer d \<and> d_allowed d) \<and> (\<exists>d. sg_next rb = Answer d \<and> d_allowed d))"
  by (simp add: fed_eval)

text \<open>
  A reply of the regional escrow does not name its window: units of the window of 0 that arrive after
  another check rolled the entry are credited to, and admitted in, the window of 1000.
\<close>

lemma escrow_grant_crosses_window:
  "\<exists>a ga b gb. fe_enter (small_opts True) fresh_engine ''k'' (Num 1) 0 = Inr (a, ga) \<and> sg_next ga = Await_escrow 1 \<and>
     fe_enter (small_opts True) (sg_engine ga) ''k'' (Num 1) 1000 = Inr (b, gb) \<and> sg_next gb = Await_escrow 1 \<and>
     (\<exists>d. sg_next (fe_escrow_reply (small_opts True) (sg_engine gb) a (Some 1)) = Answer d \<and> d_allowed d \<and> d_resetAt d = 2000)"
  by (simp add: fed_eval)

lemma engine_plain:
  assumes "createFederationEngine p = Inr (C, s)" "fd_windowMs p = Some W" "\<not> fd_escrow p" "0 < W"
  shows "plain_opts W C"
  using assms by (auto simp: createFederationEngine_def plain_opts_def result_simps requireLeast1_Inr)

section \<open>Properties\<close>

text \<open>
  C28. Regions that each take one check of a key at a time, without a regional escrow, over one Redis or
  one Postgres coordinator, where the regions and the coordinator read one clock that does not run backwards (a
  region whose clock is behind the coordinator's may admit units of one window in the next): whatever the order of checks, of leases served and replies taken, of leftovers
  that travel or are lost, of resets, and whichever calls fail before or after they took effect, all
  regions together admit of a key in a window at most the coordinator's budget, and the units of leases
  that were asked for in that window and only served after it. Where every lease is served in its window,
  at most the budget.
\<close>

theorem federation_window_bound:
  assumes redis: "redisCoordinator w b prefix st = Inr q" "\<forall>u\<ge>t. lua_now (if rk_serverTime q then 0 else u) (srv u) = u"
    and pg: "postgresCoordinator w b prefix' ret = Inr p"
    and engines: "\<forall>i. \<exists>s. createFederationEngine (opts i) = Inr (C i, s)" "\<forall>i. fd_windowMs (opts i) = Some (rk_windowMs q) \<and> \<not> fd_escrow (opts i)"
  shows "(fed_run (rk_lease_at q srv) (rk_reconcile_at q srv) C acts (fed_world_new t (\<lambda>_. [])) = Some w1 \<longrightarrow>
      fed_admitted (rk_windowMs q) c k (fw_log w1) \<le> rk_budgetFor q k + fed_late (rk_windowMs q) c k (fw_grants w1)) \<and>
    (fed_run (pk_lease_at p) (pk_reconcile_at p) C acts (fed_world_new t (\<lambda>_. None)) = Some w2 \<longrightarrow>
      fed_admitted (rk_windowMs q) c k (fw_log w2) \<le> rk_budgetFor q k + fed_late (rk_windowMs q) c k (fw_grants w2))"
proof (intro conjI impI)
  have q: "0 < rk_windowMs q" "rk_windowMs q = pk_windowMs p" "rk_budgetFor q i = pk_budgetFor p i" "1 \<le> rk_budgetFor q i" for i
    by (rule coordinator_settings[OF redis(1) pg])+
  have C: "plain_opts (rk_windowMs q) (C i)" for i
    using engines engine_plain q(1) by blast
  have "rk_ok q srv t (\<lambda>_. [])" using redis(2) q by (auto simp: rk_ok_def hash_ok_def intro: order_trans[of 0 1])
  then show "fed_admitted (rk_windowMs q) c k (fw_log w1) \<le> rk_budgetFor q k + fed_late (rk_windowMs q) c k (fw_grants w1)"
    if "fed_run (rk_lease_at q srv) (rk_reconcile_at q srv) C acts (fed_world_new t (\<lambda>_. [])) = Some w1"
    using that rk.federation_bound C by blast
  have "pk_ok p t (\<lambda>_. None)" using q by (auto simp: pk_ok_def row_ok_def intro: order_trans[of 0 1])
  then show "fed_admitted (rk_windowMs q) c k (fw_log w2) \<le> rk_budgetFor q k + fed_late (rk_windowMs q) c k (fw_grants w2)"
    if "fed_run (pk_lease_at p) (pk_reconcile_at p) C acts (fed_world_new t (\<lambda>_. None)) = Some w2"
    using that pk.federation_bound[of p t "\<lambda>_. None" C acts w2 c k] C by (simp add: q(2,3))
qed

definition two_regions :: "link fed_action list" where
  "two_regions = [Begin ''us'' ''k'' (Num 1), Serve ''us'' ''k'' Answered, Resume ''us'' ''k'',
     Begin ''eu'' ''k'' (Num 4), Serve ''eu'' ''k'' Answered, Resume ''eu'' ''k'', Serve ''eu'' ''k'' Answered, Resume ''eu'' ''k'']"

definition eight_opts :: federate_options where
  "eight_opts = \<lparr>fd_limit = 10, fd_windowMs = Some 1000, fd_batch = Some (Num 8), fd_escrow = False, fd_outage = None,
     fd_healthMs = None, fd_probes = False, fd_prefix = None\<rparr>"

lemmas two_regions_eval = two_regions_def fed_world_new_def fed_settle_def fe_resume_def job_coordinator_def fe_denied_def

lemma two_regions_redis:
  assumes "q = \<lparr>rk_defaultBudget = 10, rk_windowMs = 1000, rk_prefix = ''tk:fed'', rk_serverTime = True, rk_perKeyBudget = (\<lambda>_. None)\<rparr>"
    and "C = \<lparr>fo_limit = 10, fo_windowMs = 1000, fo_batch = 8, fo_escrow = False, fo_regionalOnly = False, fo_healthMs = 5000,
      fo_probes = False, fo_prefix = None\<rparr>"
  shows "\<exists>w. fed_run (rk_lease_at q (\<lambda>u. (u / 1000, 0))) (rk_reconcile_at q (\<lambda>u. (u / 1000, 0))) (\<lambda>_. C) two_regions (fed_world_new 1000 (\<lambda>_. [])) = Some w
     \<and> map (\<lambda>(i, k, cost, d). d_allowed d) (fw_log w) = [True, False]"
  by (simp add: assms two_regions_eval fed_eval rk_lease_at_def rk_lease_def rk_leaseImpl_def rk_budgetFor_def rk_key_def script_call_def
      map_first_def lease_lua_def coord_window_def lua_now_def redis_int_def)

lemma two_regions_postgres:
  assumes "p = \<lparr>pk_defaultBudget = 10, pk_windowMs = 1000, pk_prefix = ''tk:fed'', pk_perKeyBudget = (\<lambda>_. None), pk_gcRetentionMs = 86400000\<rparr>"
    and "C = \<lparr>fo_limit = 10, fo_windowMs = 1000, fo_batch = 8, fo_escrow = False, fo_regionalOnly = False, fo_healthMs = 5000,
      fo_probes = False, fo_prefix = None\<rparr>"
  shows "\<exists>w. fed_run (pk_lease_at p) (pk_reconcile_at p) (\<lambda>_. C) two_regions (fed_world_new 1000 (\<lambda>_. None)) = Some w
     \<and> map (\<lambda>(i, k, cost, d). d_allowed d) (fw_log w) = [True, False]"
  by (simp add: assms two_regions_eval fed_eval pk_lease_at_def pk_lease_def pk_leaseImpl_def pk_budgetFor_def pk_key_def txn_call_def
      map_first_def pk_lease_txn_def pg_upsert_def coord_window_def bigint_def)

theorem federation_window_bound_witness:
  "\<exists>q p C w1 w2. redisCoordinator (Num 1000) (Some (Num 10)) None None = Inr q \<and> postgresCoordinator (Num 1000) (Some (Num 10)) None None = Inr p \<and>
     fed_run (rk_lease_at q (\<lambda>u. (u / 1000, 0))) (rk_reconcile_at q (\<lambda>u. (u / 1000, 0))) (\<lambda>_. C) two_regions (fed_world_new 1000 (\<lambda>_. [])) = Some w1 \<and>
     fed_run (pk_lease_at p) (pk_reconcile_at p) (\<lambda>_. C) two_regions (fed_world_new 1000 (\<lambda>_. None)) = Some w2 \<and>
     fed_admitted 1000 1000 ''k'' (fw_log w1) \<le> 10 + fed_late 1000 1000 ''k'' (fw_grants w1) \<and>
     fed_admitted 1000 1000 ''k'' (fw_log w2) \<le> 10 + fed_late 1000 1000 ''k'' (fw_grants w2)"
proof -
  define q where "q = \<lparr>rk_defaultBudget = 10, rk_windowMs = 1000, rk_prefix = ''tk:fed'', rk_serverTime = True, rk_perKeyBudget = (\<lambda>_. None)\<rparr>"
  define p where "p = \<lparr>pk_defaultBudget = 10, pk_windowMs = 1000, pk_prefix = ''tk:fed'', pk_perKeyBudget = (\<lambda>_. None), pk_gcRetentionMs = 86400000\<rparr>"
  define C where "C = \<lparr>fo_limit = 10, fo_windowMs = 1000, fo_batch = 8, fo_escrow = False, fo_regionalOnly = False, fo_healthMs = 5000,
      fo_probes = False, fo_prefix = None\<rparr>"
  have made: "redisCoordinator (Num 1000) (Some (Num 10)) None None = Inr q" "postgresCoordinator (Num 1000) (Some (Num 10)) None None = Inr p"
      "createFederationEngine eight_opts = Inr (C, fresh_engine)" "fd_windowMs eight_opts = Some (rk_windowMs q)" "\<not> fd_escrow eight_opts"
    by (simp_all add: redisCoordinator_def postgresCoordinator_def createFederationEngine_def q_def p_def C_def eight_opts_def fresh_engine_def)
  have srv: "\<forall>u\<ge>1000. lua_now (if rk_serverTime q then 0 else u) (u / 1000, 0) = u" by (simp add: q_def lua_now_def)
  obtain w1 w2 where w: "fed_run (rk_lease_at q (\<lambda>u. (u / 1000, 0))) (rk_reconcile_at q (\<lambda>u. (u / 1000, 0))) (\<lambda>_. C) two_regions (fed_world_new 1000 (\<lambda>_. [])) = Some w1"
      "fed_run (pk_lease_at p) (pk_reconcile_at p) (\<lambda>_. C) two_regions (fed_world_new 1000 (\<lambda>_. None)) = Some w2"
    using two_regions_redis[OF q_def C_def] two_regions_postgres[OF p_def C_def] by blast
  have "\<forall>i::string. \<exists>s. createFederationEngine eight_opts = Inr (C, s)" "\<forall>i::string. fd_windowMs eight_opts = Some (rk_windowMs q) \<and> \<not> fd_escrow eight_opts"
    using made(3-5) by blast+
  note bound = federation_window_bound[OF made(1) srv made(2) this, of two_regions]
  have "rk_windowMs q = 1000" "rk_budgetFor q ''k'' = 10" by (simp_all add: q_def rk_budgetFor_def)
  then show ?thesis using made w bound[THEN conjunct1, rule_format, OF w(1), of 1000 "''k''"] bound[THEN conjunct2, rule_format, OF w(2), of 1000 "''k''"] by auto
qed

end
