(* ===== verification/RegionalEscrow.thy ===== *)
theory RegionalEscrow
  imports FedCoordinator
begin

text \<open>
  The regional escrow between the processes of one region and the coordinator
  (\<open>federation/test-regional-escrow.ts\<close> and \<open>federation/redis-regional-escrow.ts\<close>): one balance a key, of
  one window at a time. The Redis form is three scripts over one hash that expires with its window, so
  the keyspace here has a deadline beside each hash. The lemmas: the scripts compute the in-memory escrow;
  what is leased and released never exceeds what was put in, whichever calls fail.
\<close>

section \<open>The in-memory escrow\<close>

record escrow_entry =
  es_balance :: num
  es_sourceLease :: num
  es_expiresAt :: num

record test_escrow =
  te_windowMs :: num
  te_healthy :: bool
  te_entries :: "string \<Rightarrow> escrow_entry option"

definition testRegionalEscrow :: "js_number \<Rightarrow> bool option \<Rightarrow> test_escrow result" where
  "testRegionalEscrow windowMs healthy =
     rbind (requireLeast1 ''windowMs'' windowMs) (\<lambda>w.
     Inr \<lparr>te_windowMs = w, te_healthy = case_option True id healthy, te_entries = (\<lambda>_. None)\<rparr>)"

definition te_balanceFor :: "test_escrow \<Rightarrow> string \<Rightarrow> num \<Rightarrow> num" where
  "te_balanceFor t key now =
     (case te_entries t key of None \<Rightarrow> 0 | Some e \<Rightarrow> if now \<ge> es_expiresAt e then 0 else es_balance e)"

definition te_setHealthy :: "test_escrow \<Rightarrow> bool \<Rightarrow> test_escrow" where
  "te_setHealthy t b = t\<lparr>te_healthy := b\<rparr>"

definition te_put :: "test_escrow \<Rightarrow> string \<Rightarrow> escrow_entry option \<Rightarrow> test_escrow" where
  "te_put t key e = t\<lparr>te_entries := (te_entries t)(key := e)\<rparr>"

definition te_lease :: "test_escrow \<Rightarrow> string \<Rightarrow> js_number \<Rightarrow> num \<Rightarrow> num result \<times> test_escrow" where
  "te_lease t key tokens now =
     (if \<not> te_healthy t then (Inl (StoreUnavailableError key), t)
      else case requireAmount ''tokens'' tokens of
             Inl e \<Rightarrow> (Inl e, t)
           | Inr n \<Rightarrow>
               if n = 0 then (Inr 0, t)
               else (case te_entries t key of
                       None \<Rightarrow> (Inr 0, t)
                     | Some e \<Rightarrow>
                         if now \<ge> es_expiresAt e then (Inr 0, t)
                         else (let granted = min n (es_balance e)
                               in if granted \<le> 0 then (Inr 0, t)
                                  else (Inr granted, te_put t key (Some (e\<lparr>es_balance := es_balance e - granted\<rparr>))))))"

definition te_refill :: "test_escrow \<Rightarrow> string \<Rightarrow> js_number \<Rightarrow> js_number \<Rightarrow> num \<Rightarrow> bool result \<times> test_escrow" where
  "te_refill t key granted sourceWindowStart now =
     (if \<not> te_healthy t then (Inl (StoreUnavailableError key), t)
      else case requireAmount ''granted'' granted of
             Inl e \<Rightarrow> (Inl e, t)
           | Inr g \<Rightarrow>
               (case requireAmount ''sourceWindowStart'' sourceWindowStart of
                  Inl e \<Rightarrow> (Inl e, t)
                | Inr ws \<Rightarrow>
                    if g = 0 then (Inr True, t)
                    else (let expiresAt = ws + te_windowMs t
                          in if now \<ge> expiresAt then (Inr False, t)
                             else (Inr True, te_put t key (Some
                                    (case te_entries t key of
                                       None \<Rightarrow> \<lparr>es_balance = g, es_sourceLease = ws, es_expiresAt = expiresAt\<rparr>
                                     | Some e \<Rightarrow> if es_sourceLease e \<noteq> ws
                                         then \<lparr>es_balance = g, es_sourceLease = ws, es_expiresAt = expiresAt\<rparr>
                                         else e\<lparr>es_balance := es_balance e + g, es_expiresAt := expiresAt\<rparr>))))))"

definition te_release :: "test_escrow \<Rightarrow> string \<Rightarrow> js_number \<Rightarrow> num result \<times> test_escrow" where
  "te_release t key sourceWindowStart =
     (if \<not> te_healthy t then (Inl (StoreUnavailableError key), t)
      else case requireAmount ''sourceWindowStart'' sourceWindowStart of
             Inl e \<Rightarrow> (Inl e, t)
           | Inr ws \<Rightarrow>
               (case te_entries t key of
                  None \<Rightarrow> (Inr 0, t)
                | Some e \<Rightarrow> if es_sourceLease e \<noteq> ws then (Inr 0, t) else (Inr (es_balance e), te_put t key None)))"

section \<open>The scripts\<close>

datatype escrow_field = F_balance | F_expires_at | F_source_lease

type_synonym escrow_hash = "(escrow_field \<times> num) list"

text \<open>
  What a script does to its key: nothing, delete it, or store a hash (after a \<open>DEL\<close> or in place) and set a
  time to live.
\<close>

datatype escrow_effect = Keep_key | Delete_key | Store_key escrow_hash bool num

definition regional_lease_lua :: "num \<Rightarrow> num \<Rightarrow> num \<times> num \<Rightarrow> escrow_hash \<Rightarrow> num \<times> escrow_effect" where
  "regional_lease_lua nowArg tokens server h =
     (let now = lua_now nowArg server
      in case (map_of h F_balance, map_of h F_expires_at) of
           (Some balance, Some expiresAt) \<Rightarrow>
             if now \<ge> expiresAt then (0, Keep_key)
             else (let granted = (if tokens > balance then balance else tokens)
                   in if granted \<le> 0 then (0, Keep_key)
                      else (redis_int granted, Store_key (AList.update F_balance (balance - granted) h) False
                            (if expiresAt - now < 1 then 1 else expiresAt - now)))
         | _ \<Rightarrow> (0, Keep_key))"

definition regional_refill_lua :: "num \<Rightarrow> num \<Rightarrow> num \<Rightarrow> num \<Rightarrow> num \<times> num \<Rightarrow> escrow_hash \<Rightarrow> num \<times> escrow_effect" where
  "regional_refill_lua nowArg granted sourceWindowStart windowMs server h =
     (let now = lua_now nowArg server; expiresAt = sourceWindowStart + windowMs
      in if now \<ge> expiresAt then (0, Keep_key)
         else (let fresh = (map_of h F_balance = None \<or> map_of h F_source_lease \<noteq> Some sourceWindowStart);
                   h1 = (if fresh then [] else h);
                   balance = (if fresh then granted else (case map_of h F_balance of None \<Rightarrow> granted | Some b \<Rightarrow> b + granted))
               in (1, Store_key (AList.update F_source_lease sourceWindowStart (AList.update F_expires_at expiresAt (AList.update F_balance balance h1)))
                   fresh (if expiresAt - now < 1 then 1 else expiresAt - now))))"

definition regional_release_lua :: "num \<Rightarrow> escrow_hash \<Rightarrow> num \<times> escrow_effect" where
  "regional_release_lua sourceWindowStart h =
     (case (map_of h F_balance, map_of h F_source_lease) of
        (Some balance, Some sourceLease) \<Rightarrow>
          if sourceLease \<noteq> sourceWindowStart then (0, Keep_key) else (redis_int balance, Delete_key)
      | _ \<Rightarrow> (0, Keep_key))"

section \<open>The class over a keyspace with deadlines\<close>

record redis_escrow =
  rx_windowMs :: num
  rx_region :: string
  rx_prefix :: string
  rx_serverTime :: bool

definition redisRegionalEscrow :: "js_number \<Rightarrow> string \<Rightarrow> string option \<Rightarrow> bool option \<Rightarrow> redis_escrow result" where
  "redisRegionalEscrow windowMs region prefix serverTime =
     rbind (requireLeast1 ''windowMs'' windowMs) (\<lambda>w.
     if length region = 0 then Inl (RangeError ''region'')
     else Inr \<lparr>rx_windowMs = w, rx_region = region, rx_prefix = case_option ''tk:l2'' id prefix,
               rx_serverTime = case_option True id serverTime\<rparr>)"

definition rx_redisKey :: "redis_escrow \<Rightarrow> string \<Rightarrow> string" where
  "rx_redisKey q key = rx_prefix q @ '':'' @ rx_region q @ '':'' @ key"

text \<open>A stored hash and its deadline at the server, if it has one; a key past its deadline is gone.\<close>

type_synonym escrow_db = "string \<Rightarrow> (escrow_hash \<times> num option) option"

definition escrow_get :: "num \<Rightarrow> escrow_db \<Rightarrow> string \<Rightarrow> escrow_hash" where
  "escrow_get time db k =
     (case db k of None \<Rightarrow> [] | Some (h, d) \<Rightarrow> if (case d of None \<Rightarrow> False | Some x \<Rightarrow> x \<le> time) then [] else h)"

text \<open>\<open>PEXPIRE\<close> counts from the server's time, and refuses a time that is not whole after the writes.\<close>

definition escrow_apply :: "num \<Rightarrow> escrow_db \<Rightarrow> string \<Rightarrow> escrow_effect \<Rightarrow> escrow_db \<times> bool" where
  "escrow_apply time db k eff =
     (case eff of
        Keep_key \<Rightarrow> (db, True)
      | Delete_key \<Rightarrow> (db(k := None), True)
      | Store_key h fresh p \<Rightarrow>
          if js_floor p = p then (db(k \<mapsto> (h, Some (time + p))), True)
          else (db(k \<mapsto> (h, if fresh then None else (case db k of None \<Rightarrow> None | Some (_, d) \<Rightarrow> d))), False))"

definition escrow_call :: "link \<Rightarrow> string \<Rightarrow> num \<Rightarrow> escrow_db \<Rightarrow> string \<Rightarrow> num \<times> escrow_effect \<Rightarrow> num result \<times> escrow_db" where
  "escrow_call link name time db k out =
     (case escrow_apply time db k (snd out) of
        (db', served) \<Rightarrow>
          (case link of
             Answered \<Rightarrow> (if served then Inr (fst out) else Inl (StoreUnavailableError name), db')
           | ReplyLost \<Rightarrow> (Inl (StoreUnavailableError name), db')
           | _ \<Rightarrow> (Inl (StoreUnavailableError name), db)))"

definition rx_lease :: "redis_escrow \<Rightarrow> escrow_db \<Rightarrow> string \<Rightarrow> js_number \<Rightarrow> num \<Rightarrow> num \<times> num \<Rightarrow> link \<Rightarrow> num result \<times> escrow_db" where
  "rx_lease q db key tokens now server link =
     (case requireAmount ''tokens'' tokens of
        Inl e \<Rightarrow> (Inl e, db)
      | Inr n \<Rightarrow>
          if n = 0 then (Inr 0, db)
          else (let time = lua_now 0 server
                in escrow_call link ''lease'' time db (rx_redisKey q key)
                     (regional_lease_lua (if rx_serverTime q then 0 else now) n server (escrow_get time db (rx_redisKey q key)))))"

definition rx_refill ::
  "redis_escrow \<Rightarrow> escrow_db \<Rightarrow> string \<Rightarrow> js_number \<Rightarrow> js_number \<Rightarrow> num \<Rightarrow> num \<times> num \<Rightarrow> link \<Rightarrow> bool result \<times> escrow_db" where
  "rx_refill q db key granted sourceWindowStart now server link =
     (case requireAmount ''granted'' granted of
        Inl e \<Rightarrow> (Inl e, db)
      | Inr g \<Rightarrow>
          (case requireAmount ''sourceWindowStart'' sourceWindowStart of
             Inl e \<Rightarrow> (Inl e, db)
           | Inr ws \<Rightarrow>
               if g = 0 then (Inr True, db)
               else (let time = lua_now 0 server
                     in map_first (\<lambda>r. r = 1) (escrow_call link ''refill'' time db (rx_redisKey q key)
                          (regional_refill_lua (if rx_serverTime q then 0 else now) g ws (rx_windowMs q) server
                             (escrow_get time db (rx_redisKey q key)))))))"

definition rx_release ::
  "redis_escrow \<Rightarrow> escrow_db \<Rightarrow> string \<Rightarrow> js_number \<Rightarrow> num \<times> num \<Rightarrow> link \<Rightarrow> num result \<times> escrow_db" where
  "rx_release q db key sourceWindowStart server link =
     (case requireAmount ''sourceWindowStart'' sourceWindowStart of
        Inl e \<Rightarrow> (Inl e, db)
      | Inr ws \<Rightarrow>
          (let time = lua_now 0 server
           in escrow_call link ''release'' time db (rx_redisKey q key)
                (regional_release_lua ws (escrow_get time db (rx_redisKey q key)))))"

section \<open>Runs\<close>

datatype escrow_op = Take num | Put num num | Capture num

definition te_op :: "test_escrow \<Rightarrow> string \<Rightarrow> escrow_op \<Rightarrow> num \<Rightarrow> num result \<times> test_escrow" where
  "te_op t key op now =
     (case op of Take n \<Rightarrow> te_lease t key (Num n) now
      | Put g ws \<Rightarrow> map_first of_bool (te_refill t key (Num g) (Num ws) now)
      | Capture ws \<Rightarrow> te_release t key (Num ws))"

definition rx_op :: "redis_escrow \<Rightarrow> (num \<Rightarrow> num \<times> num) \<Rightarrow> escrow_db \<Rightarrow> string \<Rightarrow> escrow_op \<Rightarrow> num \<Rightarrow> link \<Rightarrow> num result \<times> escrow_db" where
  "rx_op q srv db key op now link =
     (case op of Take n \<Rightarrow> rx_lease q db key (Num n) now (srv now) link
      | Put g ws \<Rightarrow> map_first of_bool (rx_refill q db key (Num g) (Num ws) now (srv now) link)
      | Capture ws \<Rightarrow> rx_release q db key (Num ws) (srv now) link)"

fun te_run :: "test_escrow \<Rightarrow> (num \<times> string \<times> escrow_op) list \<Rightarrow> num result list" where
  "te_run t [] = []"
| "te_run t ((now, key, op) # ops) = (case te_op t key op now of (r, t') \<Rightarrow> r # te_run t' ops)"

fun rx_run :: "redis_escrow \<Rightarrow> (num \<Rightarrow> num \<times> num) \<Rightarrow> escrow_db \<Rightarrow> ((num \<times> string \<times> escrow_op) \<times> link) list \<Rightarrow> num result list" where
  "rx_run q srv db [] = []"
| "rx_run q srv db (((now, key, op), link) # ops) = (case rx_op q srv db key op now link of (r, db') \<Rightarrow> r # rx_run q srv db' ops)"

text \<open>Operations in the order of their times, on amounts that are not negative.\<close>

fun op_amount_ok :: "escrow_op \<Rightarrow> bool" where
  "op_amount_ok (Take n) \<longleftrightarrow> 0 \<le> n"
| "op_amount_ok (Put g ws) \<longleftrightarrow> 0 \<le> g \<and> 0 \<le> ws"
| "op_amount_ok (Capture ws) \<longleftrightarrow> 0 \<le> ws"

fun op_whole :: "num \<Rightarrow> num \<Rightarrow> escrow_op \<Rightarrow> bool" where
  "op_whole W now (Take n) \<longleftrightarrow> n \<in> \<int>"
| "op_whole W now (Put g ws) \<longleftrightarrow> g \<in> \<int> \<and> ws \<in> \<int>"
| "op_whole W now (Capture ws) \<longleftrightarrow> now < ws + W"

fun ops_ok :: "num \<Rightarrow> num \<Rightarrow> (num \<times> string \<times> escrow_op) list \<Rightarrow> bool" where
  "ops_ok W t [] \<longleftrightarrow> True"
| "ops_ok W t ((now, key, op) # ops) \<longleftrightarrow> t \<le> now \<and> now \<in> \<int> \<and> op_amount_ok op \<and> op_whole W now op \<and> ops_ok W now ops"

lemma rx_redisKey_inj [simp]: "rx_redisKey q k = rx_redisKey q i \<longleftrightarrow> k = i"
  by (simp add: rx_redisKey_def)

section \<open>The scripts compute the in-memory escrow\<close>

definition key_gone :: "num \<Rightarrow> (escrow_hash \<times> num option) option \<Rightarrow> bool" where
  "key_gone t v \<longleftrightarrow> (case v of None \<Rightarrow> True | Some (h, d) \<Rightarrow> \<exists>x. d = Some x \<and> x \<le> t)"

definition key_holds :: "(escrow_hash \<times> num option) option \<Rightarrow> escrow_entry \<Rightarrow> bool" where
  "key_holds v e \<longleftrightarrow> (\<exists>h. v = Some (h, Some (es_expiresAt e)) \<and> map_of h F_balance = Some (es_balance e) \<and>
     map_of h F_expires_at = Some (es_expiresAt e) \<and> map_of h F_source_lease = Some (es_sourceLease e))"

definition key_match :: "num \<Rightarrow> num \<Rightarrow> escrow_entry option \<Rightarrow> (escrow_hash \<times> num option) option \<Rightarrow> bool" where
  "key_match W t e v \<longleftrightarrow>
     (case e of None \<Rightarrow> key_gone t v
      | Some e \<Rightarrow> es_expiresAt e = es_sourceLease e + W \<and> 0 \<le> es_balance e \<and> es_balance e \<in> \<int> \<and> es_sourceLease e \<in> \<int> \<and>
          (key_holds v e \<or> es_expiresAt e \<le> t \<and> key_gone t v))"

definition escrow_match :: "redis_escrow \<Rightarrow> num \<Rightarrow> test_escrow \<Rightarrow> escrow_db \<Rightarrow> bool" where
  "escrow_match q t te db \<longleftrightarrow> te_healthy te \<and> te_windowMs te = rx_windowMs q \<and>
     (\<forall>k. key_match (rx_windowMs q) t (te_entries te k) (db (rx_redisKey q k)))"

lemma key_gone_later: "key_gone t v \<Longrightarrow> t \<le> u \<Longrightarrow> key_gone u v"
  by (auto simp: key_gone_def split: option.splits)

lemma key_match_later: "key_match W t e v \<Longrightarrow> t \<le> u \<Longrightarrow> key_match W u e v"
  by (auto simp: key_match_def dest: key_gone_later split: option.splits)

lemma get_gone: "key_gone t (db k) \<Longrightarrow> escrow_get t db k = []"
  by (auto simp: key_gone_def escrow_get_def split: option.splits)

text \<open>What the scripts see: the entry while its window runs, nothing after it.\<close>

lemma match_get:
  assumes m: "key_match W t e (db k)" and u: "t \<le> u"
  obtains "escrow_get u db k = []" "case e of None \<Rightarrow> True | Some x \<Rightarrow> es_expiresAt x \<le> u"
  | x h where "e = Some x" "escrow_get u db k = h" "u < es_expiresAt x" "map_of h F_balance = Some (es_balance x)"
      "map_of h F_expires_at = Some (es_expiresAt x)" "map_of h F_source_lease = Some (es_sourceLease x)"
proof (cases e)
  case None
  then have "key_gone u (db k)" using m key_gone_later[OF _ u] by (simp add: key_match_def)
  then show ?thesis using that(1) get_gone None by simp
next
  case (Some x)
  show ?thesis
  proof (cases "es_expiresAt x \<le> u")
    case True
    then have "key_gone u (db k)" using m Some key_gone_later[OF _ u] by (auto simp: key_match_def key_holds_def key_gone_def)
    then show ?thesis using that(1) get_gone Some True by simp
  next
    case False
    then have "key_holds (db k) x" using m Some u by (auto simp: key_match_def)
    then show ?thesis using that(2)[OF Some refl] False by (auto simp: key_holds_def escrow_get_def)
  qed
qed

lemma te_put_simps [simp]: "te_healthy (te_put t k e) = te_healthy t" "te_windowMs (te_put t k e) = te_windowMs t"
  "te_entries (te_put t k e) i = (if i = k then e else te_entries t i)"
  by (simp_all add: te_put_def)

lemma escrow_match_put:
  assumes "escrow_match q t te db" "t \<le> u" "key_match (rx_windowMs q) u e v"
  shows "escrow_match q u (te_put te k e) (db(rx_redisKey q k := v))"
  using assms key_match_later[OF _ assms(2)] by (auto simp: escrow_match_def)

lemma escrow_match_later: "escrow_match q t te db \<Longrightarrow> t \<le> u \<Longrightarrow> escrow_match q u te db"
  unfolding escrow_match_def using key_match_later by blast

lemma escrow_op_match:
  assumes m: "escrow_match q t te db" and t: "t \<le> now" "now \<in> \<int>" and W: "rx_windowMs q \<in> \<int>" "0 < rx_windowMs q"
    and clock: "lua_now 0 (srv now) = now" and op: "op_amount_ok op" "op_whole (rx_windowMs q) now op"
  obtains r te' db' where "te_op te key op now = (r, te')" "rx_op q srv db key op now Answered = (r, db')" "escrow_match q now te' db'"
proof -
  let ?k = "rx_redisKey q key" and ?W = "rx_windowMs q"
  have clk: "lua_now (if rx_serverTime q then 0 else now) (srv now) = now"
    using clock by (auto simp: lua_now_def)
  have te: "te_healthy te" "te_windowMs te = ?W" and mk: "key_match ?W t (te_entries te key) (db ?k)"
    using m by (simp_all add: escrow_match_def)
  note stay = escrow_match_later[OF m t(1)]
  note put = escrow_match_put[OF m t(1)]
  have int: "x \<in> \<int> \<Longrightarrow> js_floor (x - now) = x - now" "x \<in> \<int> \<Longrightarrow> now < x \<Longrightarrow> 1 \<le> x - now" for x
    using t(2) by (auto elim!: Ints_cases)
  show ?thesis
  proof (cases op)
    case (Take n)
    have n: "0 \<le> n" "n \<in> \<int>" using op by (simp_all add: Take)
    show ?thesis
    proof (cases "n = 0")
      case True
      then show ?thesis using that[of "Inr 0" te db] te stay by (simp add: Take te_op_def rx_op_def te_lease_def rx_lease_def)
    next
      case False
      show ?thesis
      proof (rule match_get[where db = db and k = ?k, OF mk t(1)])
        assume g: "escrow_get now db ?k = []" "case te_entries te key of None \<Rightarrow> True | Some x \<Rightarrow> es_expiresAt x \<le> now"
        then show ?thesis
          using that[of "Inr 0" te db] False n te stay clock
          by (simp add: Take te_op_def rx_op_def te_lease_def rx_lease_def escrow_call_def escrow_apply_def regional_lease_lua_def Let_def
              split: option.splits)
      next
        fix x h
        assume x: "te_entries te key = Some x" "escrow_get now db ?k = h" "now < es_expiresAt x" "map_of h F_balance = Some (es_balance x)"
          "map_of h F_expires_at = Some (es_expiresAt x)" "map_of h F_source_lease = Some (es_sourceLease x)"
        have e: "es_expiresAt x = es_sourceLease x + ?W" "0 \<le> es_balance x" "es_balance x \<in> \<int>" "es_sourceLease x \<in> \<int>" "es_expiresAt x \<in> \<int>"
          using mk x(1) W(1) by (auto simp: key_match_def)
        show ?thesis
        proof (cases "min n (es_balance x) \<le> 0")
          case True
          then show ?thesis
            using that[of "Inr 0" te db] False n te stay clock clk x
            by (simp add: Take te_op_def rx_op_def te_lease_def rx_lease_def escrow_call_def escrow_apply_def regional_lease_lua_def Let_def
                min_def split: if_splits)
        next
          case pos: False
          let ?g = "min n (es_balance x)"
          let ?x = "x\<lparr>es_balance := es_balance x - ?g\<rparr>" and ?h = "AList.update F_balance (es_balance x - ?g) h"
          have "key_match ?W now (Some ?x) (Some (?h, Some (es_expiresAt x)))"
            using e n x by (auto simp: key_match_def key_holds_def map_of_update)
          from put[OF this, of key] have "escrow_match q now (te_put te key (Some ?x)) (db(?k \<mapsto> (?h, Some (es_expiresAt x))))" .
          moreover have "te_op te key op now = (Inr ?g, te_put te key (Some ?x))"
            using False n te x pos by (simp add: Take te_op_def te_lease_def Let_def)
          moreover have "regional_lease_lua (if rx_serverTime q then 0 else now) n (srv now) h = (?g, Store_key ?h False (es_expiresAt x - now))"
            using x pos n(2) e(3) int(2)[OF e(5) x(3)] unfolding regional_lease_lua_def clk
            by (auto simp: Let_def min_def redis_int_def split: if_splits)
          then have "rx_op q srv db key op now Answered = (Inr ?g, db(?k \<mapsto> (?h, Some (es_expiresAt x))))"
            using False n x(2) clock int(1)[OF e(5)] by (simp add: Take rx_op_def rx_lease_def escrow_call_def escrow_apply_def Let_def)
          ultimately show ?thesis using that by blast
        qed
      qed
    qed
  next
    case (Put g ws)
    have g: "0 \<le> g" "g \<in> \<int>" "0 \<le> ws" "ws \<in> \<int>" "ws + ?W \<in> \<int>" using op W(1) by (simp_all add: Put)
    consider "g = 0" | "g \<noteq> 0" "ws + ?W \<le> now" | "g \<noteq> 0" "now < ws + ?W" by linarith
    then show ?thesis
    proof cases
      case 1
      then show ?thesis using that[of "Inr 1" te db] te stay g
        by (simp add: Put te_op_def rx_op_def te_refill_def rx_refill_def map_first_def)
    next
      case 2
      then show ?thesis using that[of "Inr 0" te db] te stay g clock clk
        by (simp add: Put te_op_def rx_op_def te_refill_def rx_refill_def map_first_def escrow_call_def escrow_apply_def regional_refill_lua_def Let_def)
    next
      case 3
      let ?e = "case te_entries te key of None \<Rightarrow> \<lparr>es_balance = g, es_sourceLease = ws, es_expiresAt = ws + ?W\<rparr>
         | Some e \<Rightarrow> if es_sourceLease e \<noteq> ws then \<lparr>es_balance = g, es_sourceLease = ws, es_expiresAt = ws + ?W\<rparr>
                     else e\<lparr>es_balance := es_balance e + g, es_expiresAt := ws + ?W\<rparr>"
      have t': "te_op te key op now = (Inr 1, te_put te key (Some ?e))"
        using 3 g te by (simp add: Put te_op_def te_refill_def map_first_def Let_def)
      have "\<exists>h' fr. regional_refill_lua (if rx_serverTime q then 0 else now) g ws ?W (srv now) (escrow_get now db ?k) = (1, Store_key h' fr (ws + ?W - now)) \<and>
          map_of h' F_balance = Some (es_balance ?e) \<and> map_of h' F_expires_at = Some (ws + ?W) \<and> map_of h' F_source_lease = Some ws"
      proof (rule match_get[where db = db and k = ?k, OF mk t(1)])
        assume a: "escrow_get now db ?k = []" "case te_entries te key of None \<Rightarrow> True | Some x \<Rightarrow> es_expiresAt x \<le> now"
        have "es_balance ?e = g" using a(2) mk 3(2) by (auto simp: key_match_def split: option.splits)
        then show ?thesis using 3(2) int(2)[OF g(5) 3(2)] unfolding regional_refill_lua_def clk
          by (auto simp: a(1) Let_def map_of_update)
      next
        fix x h
        assume x: "te_entries te key = Some x" "escrow_get now db ?k = h" "now < es_expiresAt x" "map_of h F_balance = Some (es_balance x)"
          "map_of h F_expires_at = Some (es_expiresAt x)" "map_of h F_source_lease = Some (es_sourceLease x)"
        then show ?thesis using 3(2) int(2)[OF g(5) 3(2)] unfolding regional_refill_lua_def clk
          by (simp add: Let_def map_of_update)
      qed
      then obtain h' fr where h': "regional_refill_lua (if rx_serverTime q then 0 else now) g ws ?W (srv now) (escrow_get now db ?k) = (1, Store_key h' fr (ws + ?W - now))"
          "map_of h' F_balance = Some (es_balance ?e)" "map_of h' F_expires_at = Some (ws + ?W)" "map_of h' F_source_lease = Some ws" by blast
      have e: "es_expiresAt ?e = ws + ?W" "es_sourceLease ?e = ws" "0 \<le> es_balance ?e" "es_balance ?e \<in> \<int>"
        using mk g by (auto simp: key_match_def split: option.split)
      have "key_match ?W now (Some ?e) (Some (h', Some (ws + ?W)))"
        unfolding key_match_def option.case key_holds_def e(1,2) using e(3,4) g(4) h'(2-4) by blast
      from put[OF this, of key] have "escrow_match q now (te_put te key (Some ?e)) (db(?k \<mapsto> (h', Some (ws + ?W))))" .
      moreover have "rx_op q srv db key op now Answered = (Inr 1, db(?k \<mapsto> (h', Some (ws + ?W))))"
        using 3 g clock int(1)[OF g(5)]
        by (simp add: Put rx_op_def rx_refill_def map_first_def escrow_call_def escrow_apply_def Let_def h'(1))
      ultimately show ?thesis using that t' by blast
    qed
  next
    case (Capture ws)
    have ws: "0 \<le> ws" "now < ws + ?W" using op by (simp_all add: Capture)
    show ?thesis
    proof (rule match_get[where db = db and k = ?k, OF mk t(1)])
      assume g: "escrow_get now db ?k = []" "case te_entries te key of None \<Rightarrow> True | Some x \<Rightarrow> es_expiresAt x \<le> now"
      have "te_entries te key = Some x \<Longrightarrow> es_sourceLease x \<noteq> ws" for x using g(2) mk ws(2) by (auto simp: key_match_def)
      then show ?thesis
        using that[of "Inr 0" te db] te stay clock g ws
        by (cases "te_entries te key")
          (auto simp: Capture te_op_def rx_op_def te_release_def rx_release_def escrow_call_def escrow_apply_def regional_release_lua_def Let_def)
    next
      fix x h
      assume x: "te_entries te key = Some x" "escrow_get now db ?k = h" "now < es_expiresAt x" "map_of h F_balance = Some (es_balance x)"
        "map_of h F_expires_at = Some (es_expiresAt x)" "map_of h F_source_lease = Some (es_sourceLease x)"
      have b: "redis_int (es_balance x) = es_balance x" using mk x(1) by (simp add: key_match_def redis_int_def)
      show ?thesis
      proof (cases "es_sourceLease x = ws")
        case True
        have "key_match ?W now None None" by (simp add: key_match_def key_gone_def)
        from put[OF this, of key] show ?thesis
          using that[of "Inr (es_balance x)" "te_put te key None" "db(?k := None)"] te clock x ws True b
          by (simp add: Capture te_op_def rx_op_def te_release_def rx_release_def escrow_call_def escrow_apply_def regional_release_lua_def Let_def)
      next
        case False
        then show ?thesis
          using that[of "Inr 0" te db] te stay clock x ws
          by (simp add: Capture te_op_def rx_op_def te_release_def rx_release_def escrow_call_def escrow_apply_def regional_release_lua_def Let_def)
      qed
    qed
  qed
qed

lemma escrow_runs_match:
  "escrow_match q t te db \<Longrightarrow> rx_windowMs q \<in> \<int> \<Longrightarrow> 0 < rx_windowMs q \<Longrightarrow> \<forall>u\<ge>t. lua_now 0 (srv u) = u \<Longrightarrow>
   ops_ok (rx_windowMs q) t ops \<Longrightarrow> rx_run q srv db (map (\<lambda>x. (x, Answered)) ops) = te_run te ops"
proof (induction ops arbitrary: t te db)
  case (Cons x ops)
  obtain now key op where x: "x = (now, key, op)" by (metis prod.exhaust)
  have o: "t \<le> now" "now \<in> \<int>" "op_amount_ok op" "op_whole (rx_windowMs q) now op" "ops_ok (rx_windowMs q) now ops"
    using Cons.prems(5) by (simp_all add: x)
  have clock: "lua_now 0 (srv now) = now" using Cons.prems(4) o(1) by blast
  obtain r te' db' where s: "te_op te key op now = (r, te')" "rx_op q srv db key op now Answered = (r, db')" "escrow_match q now te' db'"
    using escrow_op_match[where srv = srv, OF Cons.prems(1) o(1,2) Cons.prems(2,3) clock o(3,4)] by blast
  have "\<forall>u\<ge>now. lua_now 0 (srv u) = u" using Cons.prems(4) o(1) by auto
  then show ?case using Cons.IH[OF s(3) Cons.prems(2,3) _ o(5)] by (simp add: x s)
qed simp

section \<open>Conservation\<close>

text \<open>What was put in, and what came out, of one key.\<close>

definition put_in :: "string \<Rightarrow> ((num \<times> string \<times> escrow_op) \<times> link) list \<Rightarrow> num" where
  "put_in k ops = (\<Sum>((now, key, op), link)\<leftarrow>ops. if key = k then (case op of Put g ws \<Rightarrow> g | _ \<Rightarrow> 0) else 0)"

fun taken_out :: "string \<Rightarrow> ((num \<times> string \<times> escrow_op) \<times> link) list \<Rightarrow> num result list \<Rightarrow> num" where
  "taken_out k (((now, key, op), link) # ops) (r # rs) =
     (if key = k then (case (op, r) of (Put g ws, _) \<Rightarrow> 0 | (_, Inr x) \<Rightarrow> x | _ \<Rightarrow> 0) else 0) + taken_out k ops rs"
| "taken_out k _ _ = 0"

definition raw_balance :: "escrow_db \<Rightarrow> string \<Rightarrow> num" where
  "raw_balance db k = (case db k of None \<Rightarrow> 0 | Some (h, d) \<Rightarrow> (case map_of h F_balance of None \<Rightarrow> 0 | Some b \<Rightarrow> b))"

lemma raw_get: "0 \<le> raw_balance db k \<Longrightarrow> map_of (escrow_get u db k) F_balance = Some b \<Longrightarrow> raw_balance db k = b \<and> 0 \<le> b"
  by (auto simp: raw_balance_def escrow_get_def split: option.splits if_splits)

definition effect_balance :: "escrow_db \<Rightarrow> string \<Rightarrow> escrow_effect \<Rightarrow> num" where
  "effect_balance db k eff =
     (case eff of Keep_key \<Rightarrow> raw_balance db k | Delete_key \<Rightarrow> 0
      | Store_key h fresh p \<Rightarrow> (case map_of h F_balance of None \<Rightarrow> 0 | Some b \<Rightarrow> b))"

lemma escrow_call_cases:
  assumes "escrow_call link name u db k out = (r, db')"
  shows "(db' = db \<and> (\<exists>e. r = Inl e)) \<or>
    (raw_balance db' k = effect_balance db k (snd out) \<and> (\<forall>i. i \<noteq> k \<longrightarrow> raw_balance db' i = raw_balance db i) \<and> (r = Inr (fst out) \<or> (\<exists>e. r = Inl e)))"
  using assms
  by (auto simp: escrow_call_def escrow_apply_def effect_balance_def raw_balance_def split: escrow_effect.splits link.splits if_splits)

lemma redis_int_bound: "0 \<le> x \<Longrightarrow> 0 \<le> redis_int x \<and> redis_int x \<le> x"
  by (simp add: redis_int_def js_floor_le)

lemma lease_script_balance:
  assumes "0 \<le> raw_balance db k" "0 \<le> n" "regional_lease_lua nowArg n server (escrow_get u db k) = (v, eff)"
  shows "0 \<le> effect_balance db k eff" "v + effect_balance db k eff \<le> raw_balance db k" "0 \<le> v"
proof -
  have "0 \<le> effect_balance db k eff \<and> 0 \<le> v \<and> v + effect_balance db k eff \<le> raw_balance db k"
  proof (cases "map_of (escrow_get u db k) F_balance")
    case None
    then show ?thesis using assms by (simp add: regional_lease_lua_def Let_def effect_balance_def)
  next
    case (Some b)
    note b = raw_get[OF assms(1) Some]
    show ?thesis
      using assms b redis_int_bound[of n] redis_int_bound[of b]
      by (cases "map_of (escrow_get u db k) F_expires_at")
        (auto simp: regional_lease_lua_def Let_def effect_balance_def Some map_of_update split: if_splits)
  qed
  then show "0 \<le> effect_balance db k eff" "v + effect_balance db k eff \<le> raw_balance db k" "0 \<le> v" by blast+
qed

lemma refill_script_balance:
  assumes "0 \<le> raw_balance db k" "0 \<le> g" "regional_refill_lua nowArg g ws W server (escrow_get u db k) = (v, eff)"
  shows "0 \<le> effect_balance db k eff" "effect_balance db k eff \<le> raw_balance db k + g"
proof -
  have "0 \<le> effect_balance db k eff \<and> effect_balance db k eff \<le> raw_balance db k + g"
  proof (cases "map_of (escrow_get u db k) F_balance")
    case None
    then show ?thesis using assms by (auto simp: regional_refill_lua_def Let_def effect_balance_def map_of_update split: if_splits)
  next
    case (Some b)
    then show ?thesis using assms raw_get[OF assms(1) Some]
      by (auto simp: regional_refill_lua_def Let_def effect_balance_def map_of_update split: if_splits)
  qed
  then show "0 \<le> effect_balance db k eff" "effect_balance db k eff \<le> raw_balance db k + g" by blast+
qed

lemma release_script_balance:
  assumes "0 \<le> raw_balance db k" "regional_release_lua ws (escrow_get u db k) = (v, eff)"
  shows "0 \<le> effect_balance db k eff" "v + effect_balance db k eff \<le> raw_balance db k" "0 \<le> v"
proof -
  have "0 \<le> effect_balance db k eff \<and> 0 \<le> v \<and> v + effect_balance db k eff \<le> raw_balance db k"
  proof (cases "map_of (escrow_get u db k) F_balance")
    case None
    then show ?thesis using assms by (simp add: regional_release_lua_def effect_balance_def)
  next
    case (Some b)
    then show ?thesis using assms raw_get[OF assms(1) Some] redis_int_bound[of b]
      by (auto simp: regional_release_lua_def effect_balance_def split: option.splits if_splits)
  qed
  then show "0 \<le> effect_balance db k eff" "v + effect_balance db k eff \<le> raw_balance db k" "0 \<le> v" by blast+
qed

lemma escrow_op_balance:
  assumes nn: "\<And>i. 0 \<le> raw_balance db i" and op: "op_amount_ok op" and r: "rx_op q srv db key op now link = (r, db')"
  shows "0 \<le> raw_balance db' i"
    "(if key = k then (case (op, r) of (Put g ws, _) \<Rightarrow> 0 | (_, Inr x) \<Rightarrow> x | _ \<Rightarrow> 0) else 0) + raw_balance db' (rx_redisKey q k)
       \<le> (if key = k then (case op of Put g ws \<Rightarrow> g | _ \<Rightarrow> 0) else 0) + raw_balance db (rx_redisKey q k)"
proof -
  let ?k = "rx_redisKey q key" and ?a = "if rx_serverTime q then 0 else now" and ?h = "escrow_get (lua_now 0 (srv now)) db (rx_redisKey q key)"
  have "0 \<le> raw_balance db' i \<and>
    (if key = k then (case (op, r) of (Put g ws, _) \<Rightarrow> 0 | (_, Inr x) \<Rightarrow> x | _ \<Rightarrow> 0) else 0) + raw_balance db' (rx_redisKey q k)
       \<le> (if key = k then (case op of Put g ws \<Rightarrow> g | _ \<Rightarrow> 0) else 0) + raw_balance db (rx_redisKey q k)"
  proof (cases op)
    case (Take n)
    obtain v eff where s: "regional_lease_lua ?a n (srv now) ?h = (v, eff)" by (metis surj_pair)
    have n: "0 \<le> n" using op by (simp add: Take)
    note b = lease_script_balance[OF nn n s]
    show ?thesis
    proof (cases "n = 0")
      case False
      then have "escrow_call link ''lease'' (lua_now 0 (srv now)) db ?k (v, eff) = (r, db')"
        using r n by (simp add: Take rx_op_def rx_lease_def Let_def s)
      from escrow_call_cases[OF this] b nn[of i] nn[of ?k] nn[of "rx_redisKey q k"] show ?thesis
        by (cases "key = k"; cases "i = ?k"; cases r) (auto simp: Take)
    qed (use r nn in \<open>auto simp: Take rx_op_def rx_lease_def\<close>)
  next
    case (Put g ws)
    obtain v eff where s: "regional_refill_lua ?a g ws (rx_windowMs q) (srv now) ?h = (v, eff)" by (metis surj_pair)
    have g: "0 \<le> g" "0 \<le> ws" using op by (simp_all add: Put)
    note b = refill_script_balance[OF nn g(1) s]
    show ?thesis
    proof (cases "g = 0")
      case False
      then obtain r' where "escrow_call link ''refill'' (lua_now 0 (srv now)) db ?k (v, eff) = (r', db')"
        using r g by (auto simp: Put rx_op_def rx_refill_def Let_def s dest!: map_first_cases)
      from escrow_call_cases[OF this] b nn[of i] nn[of ?k] g(1) show ?thesis
        by (cases "key = k"; cases "i = ?k") (auto simp: Put)
    qed (use r nn g in \<open>auto simp: Put rx_op_def rx_refill_def dest!: map_first_cases\<close>)
  next
    case (Capture ws)
    obtain v eff where s: "regional_release_lua ws ?h = (v, eff)" by (metis surj_pair)
    have ws: "0 \<le> ws" using op by (simp add: Capture)
    note b = release_script_balance[OF nn s]
    have "escrow_call link ''release'' (lua_now 0 (srv now)) db ?k (v, eff) = (r, db')"
      using r ws by (simp add: Capture rx_op_def rx_release_def Let_def s)
    from escrow_call_cases[OF this] b nn[of i] nn[of ?k] nn[of "rx_redisKey q k"] show ?thesis
      by (cases "key = k"; cases "i = ?k"; cases r) (auto simp: Capture)
  qed
  then show "0 \<le> raw_balance db' i"
    "(if key = k then (case (op, r) of (Put g ws, _) \<Rightarrow> 0 | (_, Inr x) \<Rightarrow> x | _ \<Rightarrow> 0) else 0) + raw_balance db' (rx_redisKey q k)
       \<le> (if key = k then (case op of Put g ws \<Rightarrow> g | _ \<Rightarrow> 0) else 0) + raw_balance db (rx_redisKey q k)" by blast+
qed

lemma escrow_run_balance:
  "(\<And>i. 0 \<le> raw_balance db i) \<Longrightarrow> list_all (\<lambda>((now, key, op), link). op_amount_ok op) ops \<Longrightarrow>
   taken_out k ops (rx_run q srv db ops) \<le> put_in k ops + raw_balance db (rx_redisKey q k)"
proof (induction ops arbitrary: db)
  case (Cons x ops)
  obtain now key op link where x: "x = ((now, key, op), link)" by (metis prod.exhaust)
  obtain r db' where r: "rx_op q srv db key op now link = (r, db')" by (metis surj_pair)
  have op: "op_amount_ok op" "list_all (\<lambda>((now, key, op), link). op_amount_ok op) ops" using Cons.prems(2) by (simp_all add: x)
  note s = escrow_op_balance[OF Cons.prems(1) op(1) r]
  have "taken_out k ops (rx_run q srv db' ops) \<le> put_in k ops + raw_balance db' (rx_redisKey q k)"
    by (rule Cons.IH[OF s(1) op(2)])
  then show ?case using s(2)[of k] by (simp add: x r put_in_def)
qed (simp add: put_in_def)

text \<open>
  The engine asks for a leftover only after its window is over, and then the hash is gone: with whole
  numbers, a release of a window that is over gives nothing.
\<close>

lemma release_after_roll:
  assumes m: "escrow_match q t te db" and t: "t \<le> now" and ws: "0 \<le> ws" "ws + rx_windowMs q \<le> now" and clock: "lua_now 0 (srv now) = now"
  shows "fst (rx_release q db key (Num ws) (srv now) Answered) = Inr 0"
proof -
  have "key_match (rx_windowMs q) t (te_entries te key) (db (rx_redisKey q key))" using m by (simp add: escrow_match_def)
  then show ?thesis
  proof (rule match_get[where db = db and k = "rx_redisKey q key", OF _ t])
    assume "escrow_get now db (rx_redisKey q key) = []"
    then show ?thesis using ws(1) clock
      by (simp add: rx_release_def Let_def regional_release_lua_def escrow_call_def escrow_apply_def)
  next
    fix x h
    assume x: "te_entries te key = Some x" "escrow_get now db (rx_redisKey q key) = h" "now < es_expiresAt x"
      "map_of h F_balance = Some (es_balance x)" "map_of h F_source_lease = Some (es_sourceLease x)"
    have "es_sourceLease x \<noteq> ws" using m x(1,3) ws(2) by (auto simp: escrow_match_def key_match_def dest!: spec[of _ key])
    then show ?thesis using ws(1) clock x
      by (simp add: rx_release_def Let_def regional_release_lua_def escrow_call_def escrow_apply_def)
  qed
qed

section \<open>Properties\<close>

text \<open>
  The three scripts over a keyspace with deadlines compute the in-memory regional escrow: on whole
  numbers, with calls that are answered, any run of leases, refills and releases gets the same replies,
  where a release is of a window that still runs (afterwards the hash has expired, and Redis gives 0).
\<close>

theorem regional_escrow_equiv:
  assumes "redisRegionalEscrow windowMs region prefix st = Inr q" "testRegionalEscrow windowMs None = Inr te"
    and "rx_windowMs q \<in> \<int>" "\<forall>u\<ge>t. lua_now 0 (srv u) = u" "ops_ok (rx_windowMs q) t ops"
  shows "rx_run q srv (\<lambda>_. None) (map (\<lambda>x. (x, Answered)) ops) = te_run te ops"
proof -
  have q: "0 < rx_windowMs q" "te_healthy te" "te_windowMs te = rx_windowMs q" "te_entries te = (\<lambda>_. None)"
    using assms(1,2) by (auto simp: redisRegionalEscrow_def testRegionalEscrow_def result_simps requireLeast1_Inr)
  have "escrow_match q t te (\<lambda>_. None)" using q by (simp add: escrow_match_def key_match_def key_gone_def)
  then show ?thesis by (rule escrow_runs_match) (use assms q in auto)
qed

theorem regional_escrow_equiv_witness:
  "\<exists>q te. redisRegionalEscrow (Num 1000) ''us'' None None = Inr q \<and> testRegionalEscrow (Num 1000) None = Inr te \<and>
     rx_run q (\<lambda>u. (u / 1000, 0)) (\<lambda>_. None)
       (map (\<lambda>x. (x, Answered)) [(1010, ''k'', Put 8 1000), (1020, ''k'', Take 5), (1030, ''k'', Take 5), (1900, ''k'', Capture 1000)])
     = [Inr 1, Inr 5, Inr 3, Inr 0]"
proof -
  obtain q where q: "redisRegionalEscrow (Num 1000) ''us'' None None = Inr q" "rx_windowMs q = 1000" by (simp add: redisRegionalEscrow_def)
  obtain te where te: "testRegionalEscrow (Num 1000) None = Inr te" "te = \<lparr>te_windowMs = 1000, te_healthy = True, te_entries = (\<lambda>_. None)\<rparr>"
    by (simp add: testRegionalEscrow_def)
  let ?ops = "[(1010, ''k'', Put 8 1000), (1020, ''k'', Take 5), (1030, ''k'', Take 5), (1900, ''k'', Capture 1000)]"
  have "rx_run q (\<lambda>u. (u / 1000, 0)) (\<lambda>_. None) (map (\<lambda>x. (x, Answered)) ?ops) = te_run te ?ops"
    by (rule regional_escrow_equiv[OF q(1) te(1), where t = 0]) (simp_all add: q(2) lua_now_def)
  moreover have "te_run te ?ops = [Inr 1, Inr 5, Inr 3, Inr 0]"
    by (simp add: te(2) te_op_def te_refill_def te_lease_def te_release_def te_put_def map_first_def Let_def)
  ultimately show ?thesis using q(1) te(1) by simp
qed

text \<open>
  C31. Whatever processes lease from, refill and release a region's escrow, for whatever windows, with
  clocks that differ and calls that fail before or after they took effect: what leases and releases of a
  key return never exceeds what refills of it put in. The escrow creates no units.
\<close>

theorem regional_escrow_conserves:
  assumes "list_all (\<lambda>((now, key, op), link). op_amount_ok op) ops"
  shows "taken_out k ops (rx_run q srv (\<lambda>_. None) ops) \<le> put_in k ops"
  using escrow_run_balance[OF _ assms, of "\<lambda>_. None" k q srv] by (simp add: raw_balance_def)

theorem regional_escrow_conserves_witness:
  "\<exists>q. redisRegionalEscrow (Num 1000) ''us'' None None = Inr q \<and>
     (let ops = [((1010, ''k'', Put 8 1000), Answered), ((1020, ''k'', Take 5), ReplyLost), ((1030, ''k'', Take 5), Answered)]
      in taken_out ''k'' ops (rx_run q (\<lambda>u. (u / 1000, 0)) (\<lambda>_. None) ops) \<le> 8)"
proof -
  obtain q where q: "redisRegionalEscrow (Num 1000) ''us'' None None = Inr q" by (simp add: redisRegionalEscrow_def)
  let ?ops = "[((1010 :: num, ''k'', Put 8 1000), Answered), ((1020, ''k'', Take 5), ReplyLost), ((1030, ''k'', Take 5), Answered)]"
  have "put_in ''k'' ?ops = 8" by (simp add: put_in_def)
  then show ?thesis using q regional_escrow_conserves[of ?ops "''k''" q "\<lambda>u. (u / 1000, 0)"] by (simp add: Let_def)
qed

end
