(* ===== verification/Decisions.thy ===== *)
theory Decisions
  imports Gcra TokenBucket FixedWindow SlidingLog SlidingWindow Quota
begin

text \<open>
  The shape of a \<open>Decision\<close> (\<open>src/core/types.ts\<close>), and that every strategy a factory makes answers with
  it, whatever is stored: what a caller that copies a decision into response headers relies on.
\<close>

definition decision_shape :: "num \<Rightarrow> decision \<Rightarrow> bool" where
  "decision_shape now d \<longleftrightarrow> 0 \<le> d_remaining d \<and> now \<le> d_resetAt d \<and>
     (if d_allowed d then d_retryAfterMs d = 0 else 0 < d_retryAfterMs d)"

lemma combine_shape: "decision_shape now a \<Longrightarrow> decision_shape now b \<Longrightarrow> decision_shape now (combineDecisions a b)"
  by (auto simp: decision_shape_def combineDecisions_def split: if_splits)

context strategy_contract
begin

text \<open>The contract gives the shape up to the reset time.\<close>

lemma check_shape:
  assumes "valid p" "dom p now" "now \<le> d_resetAt (o_result (st_check (mk p) st now c))"
  shows "decision_shape now (o_result (st_check (mk p) st now c))"
    "d_limit (o_result (st_check (mk p) st now c)) = st_limit (mk p)"
  using assms by (auto simp: decision_shape_def check_limit remaining_nonneg allowed_retry denied_retry)

end

section \<open>The reset time is not before the check\<close>

lemma gcra_resetAt: "gcra_valid p \<Longrightarrow> 0 < c \<Longrightarrow> now \<le> d_resetAt (o_result (st_check (gcra_mk p) st now c))"
proof -
  assume v: "gcra_valid p" and c: "0 < c"
  obtain l w b where p: "p = (l, w, b)" by (metis prod.exhaust)
  have t: "now \<le> tat_eff st now" "0 \<le> w / l * c" using v c by (auto simp: p gcra_valid_def)
  then have "now \<le> tat_eff st now + w / l * c" by linarith
  then have "now \<le> js_ceil (tat_eff st now)" "now \<le> js_ceil (tat_eff st now + w / l * c)"
    using t(1) js_ceil_ge order_trans by blast+
  then show ?thesis by (simp add: p gcra_mk_def gcra_sel)
qed

lemma tb_resetAt: "tb_valid p \<Longrightarrow> 0 < c \<Longrightarrow> now \<le> d_resetAt (o_result (st_check (tb_mk p) st now c))"
proof -
  assume v: "tb_valid p" and c: "0 < c"
  let ?x = "tb_refill (fst p) (tb_rate p) st now"
  have "?x \<le> fst p" "0 < tb_rate p" using v by (simp_all add: tb_refill_le tb_rate_pos)
  then have "0 \<le> (fst p - ?x) / tb_rate p" "0 \<le> (fst p - (?x - c)) / tb_rate p" using c by simp_all
  then show ?thesis using js_ceil_nonneg by (simp add: tb_check_def Let_def)
qed

lemma fw_resetAt: "fw_valid p \<Longrightarrow> now \<le> d_resetAt (o_result (st_check (fw_mk p) st now c))"
proof -
  assume v: "fw_valid p"
  then have "now \<le> window_start (snd p) now + snd p" using window_start_bounds(2)[of "snd p" now] by (auto simp: fw_valid_def)
  then have "now \<le> js_ceil (window_start (snd p) now + snd p)" using js_ceil_ge order_trans by blast
  then show ?thesis by (simp add: fw_check_def Let_def)
qed

lemma log_resetAt: "log_valid p \<Longrightarrow> now \<le> d_resetAt (o_result (st_check (log_mk p) st now c))"
proof -
  assume v: "log_valid p"
  let ?live = "log_live (snd p) st now"
  have head: "now \<le> (case ?live @ replicate n now of x # _ \<Rightarrow> x | [] \<Rightarrow> now) + snd p" for n
  proof (cases ?live)
    case Nil
    then show ?thesis using v by (cases n) (auto simp: log_valid_def)
  next
    case (Cons x xs)
    then have "\<not> x \<le> now - snd p" unfolding log_live_def by (metis dropWhile_eq_Cons_conv)
    then show ?thesis using Cons by simp
  qed
  have "now \<le> js_ceil ((case ?live @ replicate n now of x # _ \<Rightarrow> x | [] \<Rightarrow> now) + snd p)" for n
    using head[of n] js_ceil_ge order_trans by blast
  from this[of "nat \<lceil>c\<rceil>"] this[of 0] show ?thesis by (simp add: log_check_live Let_def)
qed

lemma sw_resetAt: "sw_valid p \<Longrightarrow> now \<le> d_resetAt (o_result (st_check (sw_mk p) st now c))"
proof -
  assume v: "sw_valid p"
  let ?t = "(of_int (sw_tick (sw_width p) now) + 1) * sw_width p + fst (snd p)"
  have "0 < fst (snd p)" using v by (auto simp: sw_valid_def)
  then have "now \<le> ?t" using sw_tick_bounds(2)[OF sw_width_pos[OF v], of now] by linarith
  then have "now \<le> js_ceil ?t" using js_ceil_ge order_trans by blast
  then show ?thesis by (simp add: sw_check_def Let_def)
qed

lemma quota_resetAt: "quota_valid p \<Longrightarrow> quota_dom p now \<Longrightarrow> now \<le> d_resetAt (o_result (st_check (quota_mk p) st now c))"
proof -
  assume "quota_valid p" "quota_dom p now"
  then have "now \<le> quota_reset p now" using quota_period_interval(2) less_imp_le by blast
  then have "now \<le> js_ceil (quota_reset p now)" using js_ceil_ge order_trans by blast
  then show ?thesis by (simp add: quota_check_eq Let_def)
qed

text \<open>The rolling cadence makes a sliding window under another name.\<close>

lemma quota_rolling:
  assumes "quota opts = Inr (Inr S)"
  shows "\<exists>so sw. slidingWindow so = Inr sw \<and> S = sw\<lparr>st_name := ''quota''\<rparr>"
  using assms by (cases "qo_resetCadence opts") (auto simp: quota_def result_simps)

section \<open>Property\<close>

text \<open>
  C40. Every decision of every strategy made by its factory, the rolling quota included, on a check of positive cost
  (which the limiter enforces) has the shape callers rely on, whatever state is stored and at whatever clock (for a
  monthly quota, from 0000-03-01 on): the limit is the strategy's, what remains is not negative, the reset time is not
  before the check, and the retry time is zero exactly when the check is allowed. Combining decisions keeps the shape.
\<close>

theorem decisions_well_formed:
  assumes "0 < c"
  shows "(gcra o1 = Inr S1 \<longrightarrow> decision_shape now (o_result (st_check S1 st1 now c)) \<and> d_limit (o_result (st_check S1 st1 now c)) = st_limit S1) \<and>
    (tokenBucket o2 = Inr S2 \<longrightarrow> decision_shape now (o_result (st_check S2 st2 now c)) \<and> d_limit (o_result (st_check S2 st2 now c)) = st_limit S2) \<and>
    (fixedWindow o3 = Inr S3 \<longrightarrow> decision_shape now (o_result (st_check S3 st3 now c)) \<and> d_limit (o_result (st_check S3 st3 now c)) = st_limit S3) \<and>
    (slidingWindowLog o4 = Inr S4 \<longrightarrow> decision_shape now (o_result (st_check S4 st4 now c)) \<and> d_limit (o_result (st_check S4 st4 now c)) = st_limit S4) \<and>
    (slidingWindow o5 = Inr S5 \<longrightarrow> decision_shape now (o_result (st_check S5 st5 now c)) \<and> d_limit (o_result (st_check S5 st5 now c)) = st_limit S5) \<and>
    (quota o6 = Inr (Inl S6) \<and> (\<forall>p. S6 = quota_mk p \<longrightarrow> quota_dom p now) \<longrightarrow>
       decision_shape now (o_result (st_check S6 st6 now c)) \<and> d_limit (o_result (st_check S6 st6 now c)) = st_limit S6) \<and>
    (quota o7 = Inr (Inr S7) \<longrightarrow> decision_shape now (o_result (st_check S7 st7 now c)) \<and> d_limit (o_result (st_check S7 st7 now c)) = st_limit S7) \<and>
    (decision_shape now a \<and> decision_shape now b \<longrightarrow> decision_shape now (combineDecisions a b))"
proof -
  have a1: "decision_shape now (o_result (st_check S1 st1 now c)) \<and> d_limit (o_result (st_check S1 st1 now c)) = st_limit S1" if "gcra o1 = Inr S1"
    using gcra_factory[OF that] gcra_c.check_shape gcra_resetAt assms by blast
  have a2: "decision_shape now (o_result (st_check S2 st2 now c)) \<and> d_limit (o_result (st_check S2 st2 now c)) = st_limit S2" if "tokenBucket o2 = Inr S2"
    using tokenBucket_factory[OF that] tb_c.check_shape tb_resetAt assms by blast
  have a3: "decision_shape now (o_result (st_check S3 st3 now c)) \<and> d_limit (o_result (st_check S3 st3 now c)) = st_limit S3" if "fixedWindow o3 = Inr S3"
    using fixedWindow_factory[OF that] fw_c.check_shape fw_resetAt by blast
  have a4: "decision_shape now (o_result (st_check S4 st4 now c)) \<and> d_limit (o_result (st_check S4 st4 now c)) = st_limit S4" if "slidingWindowLog o4 = Inr S4"
    using slidingWindowLog_factory[OF that] log_c.check_shape log_resetAt by blast
  have a5: "decision_shape now (o_result (st_check S5 st5 now c)) \<and> d_limit (o_result (st_check S5 st5 now c)) = st_limit S5" if "slidingWindow o5 = Inr S5"
    using slidingWindow_factory[OF that] sw_c.check_shape sw_resetAt by blast
  have a6: "decision_shape now (o_result (st_check S6 st6 now c)) \<and> d_limit (o_result (st_check S6 st6 now c)) = st_limit S6"
    if "quota o6 = Inr (Inl S6)" "\<forall>p. S6 = quota_mk p \<longrightarrow> quota_dom p now"
    using quota_factory[OF that(1)] quota_c.check_shape quota_resetAt that(2) by blast
  have a7: "decision_shape now (o_result (st_check S7 st7 now c)) \<and> d_limit (o_result (st_check S7 st7 now c)) = st_limit S7" if q: "quota o7 = Inr (Inr S7)"
  proof -
    obtain so sw where sw: "slidingWindow so = Inr sw" "S7 = sw\<lparr>st_name := ''quota''\<rparr>" using quota_rolling[OF q] by blast
    have "decision_shape now (o_result (st_check sw st7 now c)) \<and> d_limit (o_result (st_check sw st7 now c)) = st_limit sw"
      using slidingWindow_factory[OF sw(1)] sw_c.check_shape sw_resetAt by blast
    then show ?thesis by (simp add: sw(2))
  qed
  show ?thesis using a1 a2 a3 a4 a5 a6 a7 combine_shape by (intro conjI impI) blast+
qed

theorem decisions_well_formed_witness:
  "\<exists>S. fixedWindow \<lparr>fo_limit = Num 10, fo_windowMs = Num 1000\<rparr> = Inr S \<and>
     decision_shape 1500 (o_result (st_check S (Some \<lparr>fw_start = 1000, fw_count = 10\<rparr>) 1500 1)) \<and>
     \<not> d_allowed (o_result (st_check S (Some \<lparr>fw_start = 1000, fw_count = 10\<rparr>) 1500 1))"
proof -
  obtain S where S: "fixedWindow \<lparr>fo_limit = Num 10, fo_windowMs = Num 1000\<rparr> = Inr S" "S = fw_mk (10, 1000)"
    by (simp add: fixedWindow_def requireFiniteWindow_def js_of_real_def max_safe_integer_def js_floor_def)
  have "\<not> d_allowed (o_result (st_check S (Some \<lparr>fw_start = 1000, fw_count = 10\<rparr>) 1500 1))"
    by (simp add: S(2) window_start_def js_floor_def)
  then show ?thesis using decisions_well_formed[THEN conjunct2, THEN conjunct2, THEN conjunct1, rule_format, OF _ S(1), of 1 1500 "Some \<lparr>fw_start = 1000, fw_count = 10\<rparr>"] S(1) by auto
qed

end
