(* ===== verification/Reservation.thy ===== *)
theory Reservation
  imports Core
begin

text \<open>
  \<open>learnedReservation\<close>, \<open>predictiveReservation\<close> and \<open>criticalFractile\<close> of \<open>src/admission/index.ts\<close>: a
  reservation learned online by projected gradient descent on the newsvendor loss, and its blend with a
  per-request prediction by exponential weights. The lemmas: the potential argument both learners share,
  the regret bound of the first, the loss bound of the second, and the range of what is committed.
\<close>

section \<open>The learned reservation\<close>

record learned_options =
  lo_holdCost :: js_number
  lo_overrunCost :: js_number
  lo_maxReservation :: js_number
  lo_minReservation :: "js_number option"
  lo_initialReservation :: "num option"
  lo_stepScale :: "js_number option"

record learned_cfg =
  lc_h :: num
  lc_p :: num
  lc_minR :: num
  lc_maxR :: num
  lc_stepScale :: num

text \<open>\<open>r\<close> and \<open>t\<close> of the closure.\<close>

record learned =
  lr_r :: num
  lr_t :: nat

definition criticalFractile :: "js_number \<Rightarrow> js_number \<Rightarrow> num result" where
  "criticalFractile holdCost overrunCost =
     rbind (requirePositive ''criticalFractile.holdCost'' holdCost) (\<lambda>h.
     rbind (requirePositive ''criticalFractile.overrunCost'' overrunCost) (\<lambda>p.
     Inr (p / (h + p))))"

definition learnedReservation :: "learned_options \<Rightarrow> (learned_cfg \<times> learned) result" where
  "learnedReservation o1 =
     rbind (requirePositive ''learnedReservation.holdCost'' (lo_holdCost o1)) (\<lambda>h.
     rbind (requirePositive ''learnedReservation.overrunCost'' (lo_overrunCost o1)) (\<lambda>p.
     rbind (requirePositive ''learnedReservation.maxReservation'' (lo_maxReservation o1)) (\<lambda>maxR.
     rbind (requireAtLeast ''learnedReservation.minReservation''
              (case lo_minReservation o1 of Some m \<Rightarrow> m | None \<Rightarrow> Num 0) 0) (\<lambda>minR.
     if minR > maxR then Inl (RangeError ''learnedReservation.minReservation must be <= maxReservation'')
     else
       rbind (case lo_stepScale o1 of
                Some s \<Rightarrow> requirePositive ''learnedReservation.stepScale'' s
              | None \<Rightarrow> Inr (max ((maxR - minR) / max h p) (1 / 1000000))) (\<lambda>stepScale.
       Inr (\<lparr>lc_h = h, lc_p = p, lc_minR = minR, lc_maxR = maxR, lc_stepScale = stepScale\<rparr>,
            \<lparr>lr_r = clamp (case lo_initialReservation o1 of Some r0 \<Rightarrow> r0 | None \<Rightarrow> (minR + maxR) / 2) minR maxR,
             lr_t = 0\<rparr>))))))"

definition lr_reserve :: "learned \<Rightarrow> num" where
  "lr_reserve st = js_round (lr_r st)"

definition lr_observe :: "learned_cfg \<Rightarrow> num \<Rightarrow> learned \<Rightarrow> learned" where
  "lr_observe cfg cost st =
     (let t = lr_t st + 1;
          grad = (if lr_r st > cost then lc_h cfg else - lc_p cfg);
          step = lc_stepScale cfg / sqrt (real t)
      in st\<lparr>lr_r := clamp (lr_r st - step * grad) (lc_minR cfg) (lc_maxR cfg), lr_t := t\<rparr>)"

text \<open>The asymmetric newsvendor loss of a reservation once the cost is known.\<close>

definition reservationCost :: "num \<Rightarrow> num \<Rightarrow> num \<Rightarrow> num \<Rightarrow> num" where
  "reservationCost reservation cost holdCost overrunCost =
     (if reservation > cost then holdCost * (reservation - cost) else overrunCost * (cost - reservation))"

section \<open>The predictive reservation\<close>

record reserver_cfg =
  pc_learned :: learned_cfg
  pc_eta :: num

record reserver =
  pr_robust :: learned
  pr_cumFollow :: num
  pr_cumRobust :: num
  pr_lastFollow :: num
  pr_lastRobust :: num

definition predictiveReservation :: "learned_options \<Rightarrow> js_number option \<Rightarrow> (reserver_cfg \<times> reserver) result" where
  "predictiveReservation o1 learningRate =
     rbind (requirePositive ''predictiveReservation.holdCost'' (lo_holdCost o1)) (\<lambda>h.
     rbind (requirePositive ''predictiveReservation.overrunCost'' (lo_overrunCost o1)) (\<lambda>p.
     rbind (requirePositive ''predictiveReservation.learningRate''
              (case learningRate of Some e \<Rightarrow> e | None \<Rightarrow> Num (1 / 100))) (\<lambda>eta.
     rbind (learnedReservation o1) (\<lambda>(cfg, robust).
     Inr (\<lparr>pc_learned = cfg, pc_eta = eta\<rparr>,
          \<lparr>pr_robust = robust, pr_cumFollow = 0, pr_cumRobust = 0,
           pr_lastFollow = lc_minR cfg, pr_lastRobust = lc_minR cfg\<rparr>)))))"

definition pr_weights :: "reserver_cfg \<Rightarrow> reserver \<Rightarrow> num \<times> num" where
  "pr_weights cfg st =
     (let m = min (pr_cumFollow st) (pr_cumRobust st);
          ef = exp (- pc_eta cfg * (pr_cumFollow st - m));
          er = exp (- pc_eta cfg * (pr_cumRobust st - m));
          z = ef + er
      in (ef / z, er / z))"

definition pr_reserve :: "reserver_cfg \<Rightarrow> num \<Rightarrow> reserver \<Rightarrow> num \<times> reserver" where
  "pr_reserve cfg prediction st =
     (let lo = lc_minR (pc_learned cfg);
          hi = lc_maxR (pc_learned cfg);
          st1 = st\<lparr>pr_lastFollow := clamp prediction lo hi, pr_lastRobust := lr_reserve (pr_robust st)\<rparr>;
          (wf, wr) = pr_weights cfg st1
      in (js_round (clamp (wf * pr_lastFollow st1 + wr * pr_lastRobust st1) lo hi), st1))"

definition pr_observe :: "reserver_cfg \<Rightarrow> num \<Rightarrow> reserver \<Rightarrow> reserver" where
  "pr_observe cfg cost st =
     (let h = lc_h (pc_learned cfg);
          p = lc_p (pc_learned cfg)
      in st\<lparr>pr_cumFollow := pr_cumFollow st + reservationCost (pr_lastFollow st) cost h p,
            pr_cumRobust := pr_cumRobust st + reservationCost (pr_lastRobust st) cost h p,
            pr_robust := lr_observe (pc_learned cfg) cost (pr_robust st)\<rparr>)"

section \<open>Runs\<close>

text \<open>The total loss of a learner over a list of inputs, and its state after them.\<close>

fun online_state :: "('x \<Rightarrow> 's \<Rightarrow> 's) \<Rightarrow> 's \<Rightarrow> 'x list \<Rightarrow> 's" where
  "online_state nxt s [] = s"
| "online_state nxt s (x # xs) = online_state nxt (nxt x s) xs"

fun online_loss :: "('x \<Rightarrow> 's \<Rightarrow> 's) \<Rightarrow> ('s \<Rightarrow> 'x \<Rightarrow> num) \<Rightarrow> 's \<Rightarrow> 'x list \<Rightarrow> num" where
  "online_loss nxt loss s [] = 0"
| "online_loss nxt loss s (x # xs) = loss s x + online_loss nxt loss (nxt x s) xs"

text \<open>What \<open>reserve\<close> commits before each request of a run costs, and what its continuous reservation would.\<close>

definition lr_loss :: "learned_cfg \<Rightarrow> learned \<Rightarrow> num \<Rightarrow> num" where
  "lr_loss cfg st c = reservationCost (lr_reserve st) c (lc_h cfg) (lc_p cfg)"

definition lr_continuous_loss :: "learned_cfg \<Rightarrow> learned \<Rightarrow> num \<Rightarrow> num" where
  "lr_continuous_loss cfg st c = reservationCost (lr_r st) c (lc_h cfg) (lc_p cfg)"

text \<open>A request of the predictive learner: its prediction, then its cost.\<close>

definition pr_step :: "reserver_cfg \<Rightarrow> num \<times> num \<Rightarrow> reserver \<Rightarrow> reserver" where
  "pr_step cfg x st = pr_observe cfg (snd x) (snd (pr_reserve cfg (fst x) st))"

definition pr_loss :: "reserver_cfg \<Rightarrow> reserver \<Rightarrow> num \<times> num \<Rightarrow> num" where
  "pr_loss cfg st x =
     reservationCost (fst (pr_reserve cfg (fst x) st)) (snd x) (lc_h (pc_learned cfg)) (lc_p (pc_learned cfg))"

section \<open>The potential argument\<close>

locale potential_learner =
  fixes nxt :: "'x \<Rightarrow> 's \<Rightarrow> 's"
    and regret :: "'s \<Rightarrow> 'x \<Rightarrow> num"
    and inv :: "'s \<Rightarrow> bool"
    and ok :: "'x \<Rightarrow> bool"
    and pot :: "'s \<Rightarrow> num"
    and slack :: num
  assumes inv_nxt: "inv s \<Longrightarrow> ok x \<Longrightarrow> inv (nxt x s)"
    and paid: "inv s \<Longrightarrow> ok x \<Longrightarrow> regret s x \<le> pot (nxt x s) - pot s + slack"
begin

lemma inv_run: "inv s \<Longrightarrow> list_all ok xs \<Longrightarrow> inv (online_state nxt s xs)"
  by (induction xs arbitrary: s) (simp_all add: inv_nxt)

lemma run_bound:
  "inv s \<Longrightarrow> list_all ok xs \<Longrightarrow>
   online_loss nxt regret s xs \<le> pot (online_state nxt s xs) - pot s + slack * real (length xs)"
proof (induction xs arbitrary: s)
  case (Cons x xs)
  then have "online_loss nxt regret (nxt x s) xs \<le> pot (online_state nxt (nxt x s) xs) - pot (nxt x s) + slack * real (length xs)"
    by (simp add: inv_nxt)
  moreover have "regret s x \<le> pot (nxt x s) - pot s + slack" using Cons.prems paid by simp
  ultimately show ?case by (simp add: algebra_simps)
qed simp

end

lemma online_loss_diff:
  "online_loss nxt (\<lambda>s x. f s x - g x) s xs = online_loss nxt f s xs - sum_list (map g xs)"
  by (induction xs arbitrary: s) simp_all

lemma online_loss_mono:
  "(\<And>s x. f s x \<le> g s x + d) \<Longrightarrow> online_loss nxt f s xs \<le> online_loss nxt g s xs + d * real (length xs)"
proof (induction xs arbitrary: s)
  case (Cons x xs)
  show ?case using Cons.IH[OF Cons.prems, of "nxt x s"] Cons.prems[of s x] by (simp add: algebra_simps)
qed simp

section \<open>The loss\<close>

lemma reservationCost_nonneg: "0 < h \<Longrightarrow> 0 < p \<Longrightarrow> 0 \<le> reservationCost r c h p"
  by (simp add: reservationCost_def)

lemma reservationCost_subgradient:
  assumes "0 < h" "0 < p"
  shows "reservationCost r c h p - reservationCost u c h p \<le> (if r > c then h else - p) * (r - u)"
proof -
  have "0 \<le> (h + p) * (c - u)" if "u \<le> c" using that assms by simp
  moreover have "0 \<le> (h + p) * (u - c)" if "c \<le> u" using that assms by simp
  ultimately show ?thesis by (cases "r > c"; cases "u > c") (auto simp: reservationCost_def algebra_simps)
qed

lemma reservationCost_near:
  assumes "0 < h" "0 < p"
  shows "reservationCost r c h p \<le> reservationCost u c h p + max h p * \<bar>r - u\<bar>"
proof -
  have "(if r > c then h else - p) * (r - u) \<le> max h p * \<bar>r - u\<bar>"
  proof -
    have "(if r > c then h else - p) * (r - u) \<le> \<bar>(if r > c then h else - p) * (r - u)\<bar>" by (rule abs_ge_self)
    also have "\<dots> = \<bar>if r > c then h else - p\<bar> * \<bar>r - u\<bar>" by (rule abs_mult)
    also have "\<dots> \<le> max h p * \<bar>r - u\<bar>" using assms by (intro mult_right_mono) auto
    finally show ?thesis .
  qed
  then show ?thesis using reservationCost_subgradient[OF assms, of r c u] by linarith
qed

lemma reservationCost_self [simp]: "reservationCost c c h p = 0"
  by (simp add: reservationCost_def)

lemma reservationCost_max:
  assumes "0 < h" "0 < p" "\<bar>r - c\<bar> \<le> d"
  shows "reservationCost r c h p \<le> max h p * d"
proof -
  have "reservationCost r c h p \<le> max h p * \<bar>r - c\<bar>" using reservationCost_near[OF assms(1,2), of r c c] by simp
  also have "\<dots> \<le> max h p * d" using assms by (intro mult_left_mono) auto
  finally show ?thesis .
qed

lemma reservationCost_convex:
  assumes "0 < h" "0 < p" "0 \<le> a" "0 \<le> b" "a + b = 1"
  shows "reservationCost (a * x + b * y) c h p \<le> a * reservationCost x c h p + b * reservationCost y c h p"
proof -
  define m where "m = a * x + b * y"
  define g where "g = (if m > c then h else - p)"
  have "reservationCost m c h p - reservationCost z c h p \<le> g * (m - z)" for z
    using reservationCost_subgradient[OF assms(1,2), of m c z] by (simp add: g_def)
  then have "a * (reservationCost m c h p - reservationCost x c h p) \<le> a * (g * (m - x))"
       "b * (reservationCost m c h p - reservationCost y c h p) \<le> b * (g * (m - y))"
    using assms by (blast intro: mult_left_mono)+
  moreover have "a * (g * (m - x)) + b * (g * (m - y)) = g * ((a + b) * m - (a * x + b * y))" by (simp add: algebra_simps)
  then have "a * (g * (m - x)) + b * (g * (m - y)) = 0" using assms by (simp add: m_def)
  moreover have "a * (k - k1) + b * (k - k2) = (a + b) * k - (a * k1 + b * k2)" for k k1 k2 :: num by (simp add: algebra_simps)
  then have "a * (k - k1) + b * (k - k2) = k - (a * k1 + b * k2)" for k k1 k2 :: num using assms by simp
  ultimately show ?thesis unfolding m_def[symmetric] by (metis add_nonpos_nonpos diff_le_0_iff_le add_mono)
qed

lemma js_round_near: "\<bar>js_round x - x\<bar> \<le> 1 / 2"
  unfolding js_round_def by linarith

lemma lr_loss_continuous:
  assumes "0 < lc_h cfg" "0 < lc_p cfg"
  shows "lr_loss cfg st c \<le> lr_continuous_loss cfg st c + max (lc_h cfg) (lc_p cfg) / 2"
proof -
  have "max (lc_h cfg) (lc_p cfg) * \<bar>lr_reserve st - lr_r st\<bar> \<le> max (lc_h cfg) (lc_p cfg) * (1 / 2)"
    using assms js_round_near[of "lr_r st"] by (intro mult_left_mono) (auto simp: lr_reserve_def)
  then show ?thesis
    using reservationCost_near[OF assms, of "lr_reserve st" c "lr_r st"] by (simp add: lr_loss_def lr_continuous_loss_def)
qed

section \<open>The regret of the learned reservation\<close>

definition lr_ok :: "learned_cfg \<Rightarrow> bool" where
  "lr_ok cfg \<longleftrightarrow> 0 < lc_h cfg \<and> 0 < lc_p cfg \<and> 0 \<le> lc_minR cfg \<and> lc_minR cfg \<le> lc_maxR cfg \<and> 0 < lc_maxR cfg \<and> 0 < lc_stepScale cfg"

definition lr_in :: "learned_cfg \<Rightarrow> learned \<Rightarrow> bool" where
  "lr_in cfg st \<longleftrightarrow> lc_minR cfg \<le> lr_r st \<and> lr_r st \<le> lc_maxR cfg"

text \<open>The potential of the descent against a fixed reservation \<open>u\<close>.\<close>

definition lr_potential :: "learned_cfg \<Rightarrow> num \<Rightarrow> learned \<Rightarrow> num" where
  "lr_potential cfg u st =
     sqrt (real (lr_t st)) / (2 * lc_stepScale cfg) * ((lc_maxR cfg - lc_minR cfg)\<^sup>2 - (lr_r st - u)\<^sup>2)
     + lc_stepScale cfg * (max (lc_h cfg) (lc_p cfg))\<^sup>2 * sqrt (real (lr_t st))"

lemma lr_observe_in: "lr_ok cfg \<Longrightarrow> lr_in cfg (lr_observe cfg c st)"
  using clamp_bounds by (simp add: lr_ok_def lr_in_def lr_observe_def Let_def)

lemma clamp_nearer: "lo \<le> u \<Longrightarrow> u \<le> hi \<Longrightarrow> (clamp v lo hi - u)\<^sup>2 \<le> (v - u)\<^sup>2"
  unfolding abs_le_square_iff[symmetric] clamp_def by linarith

lemma sqrt_step: "1 / (2 * sqrt (real (Suc t))) \<le> sqrt (real (Suc t)) - sqrt (real t)"
proof -
  have a: "sqrt (real t) \<le> sqrt (real (Suc t))" "0 < sqrt (real (Suc t))" by simp_all
  have "(sqrt (real (Suc t)) - sqrt (real t)) * (sqrt (real (Suc t)) + sqrt (real t)) = 1"
    by (simp add: algebra_simps flip: power2_eq_square)
  then have "1 \<le> (sqrt (real (Suc t)) - sqrt (real t)) * (2 * sqrt (real (Suc t)))"
    using a mult_left_mono[of "sqrt (real (Suc t)) + sqrt (real t)" "2 * sqrt (real (Suc t))" "sqrt (real (Suc t)) - sqrt (real t)"]
    by linarith
  then show ?thesis using a by (simp add: divide_le_eq)
qed

lemma lr_paid:
  assumes ok: "lr_ok cfg" and st: "lr_in cfg st" and u: "lc_minR cfg \<le> u" "u \<le> lc_maxR cfg"
  shows "lr_continuous_loss cfg st c - reservationCost u c (lc_h cfg) (lc_p cfg)
     \<le> lr_potential cfg u (lr_observe cfg c st) - lr_potential cfg u st"
proof -
  define g where "g = (if lr_r st > c then lc_h cfg else - lc_p cfg)"
  define s where "s = sqrt (real (Suc (lr_t st)))"
  define s0 where "s0 = sqrt (real (lr_t st))"
  define e where "e = lc_stepScale cfg"
  define G where "G = max (lc_h cfg) (lc_p cfg)"
  define D where "D = lc_maxR cfg - lc_minR cfg"
  define x where "x = lr_r st - u"
  define y where "y = lr_r (lr_observe cfg c st) - u"
  have pos: "0 < s" "0 < e" "s0 \<le> s" "0 \<le> s0" using ok by (simp_all add: s_def s0_def e_def lr_ok_def)
  have y: "y\<^sup>2 \<le> (x - e / s * g)\<^sup>2"
    using clamp_nearer[OF u, of "lr_r st - e / s * g"]
    by (simp add: y_def x_def lr_observe_def Let_def g_def s_def e_def algebra_simps)
  have "(x - e / s * g)\<^sup>2 = x\<^sup>2 - 2 * (e / s) * (g * x) + (e / s)\<^sup>2 * g\<^sup>2"
    by (simp add: power2_eq_square algebra_simps)
  then have "2 * (e / s) * (g * x) \<le> x\<^sup>2 - y\<^sup>2 + (e / s)\<^sup>2 * g\<^sup>2" using y by linarith
  then have "s / (2 * e) * (2 * (e / s) * (g * x)) \<le> s / (2 * e) * (x\<^sup>2 - y\<^sup>2 + (e / s)\<^sup>2 * g\<^sup>2)"
    using pos by (intro mult_left_mono) auto
  moreover have "s / (2 * e) * (2 * (e / s) * (g * x)) = g * x" "s / (2 * e) * ((e / s)\<^sup>2 * g\<^sup>2) = e * g\<^sup>2 * (1 / (2 * s))"
    using pos by (simp_all add: power2_eq_square)
  ultimately have gx: "g * x \<le> s / (2 * e) * (x\<^sup>2 - y\<^sup>2) + e * g\<^sup>2 * (1 / (2 * s))"
    by (simp only: ring_distribs)
  have "g\<^sup>2 \<le> G\<^sup>2" using ok unfolding abs_le_square_iff[symmetric] by (auto simp: g_def G_def lr_ok_def)
  then have "e * g\<^sup>2 * (1 / (2 * s)) \<le> e * G\<^sup>2 * (s - s0)"
    using sqrt_step[of "lr_t st"] pos unfolding s_def[symmetric] s0_def[symmetric]
    by (intro mult_mono) auto
  moreover have "s / (2 * e) * (x\<^sup>2 - y\<^sup>2) \<le> s / (2 * e) * (D\<^sup>2 - y\<^sup>2) - s0 / (2 * e) * (D\<^sup>2 - x\<^sup>2)"
  proof -
    have "x\<^sup>2 \<le> D\<^sup>2" using st u unfolding abs_le_square_iff[symmetric] by (auto simp: x_def D_def lr_in_def)
    then have "s0 / (2 * e) * (D\<^sup>2 - x\<^sup>2) \<le> s / (2 * e) * (D\<^sup>2 - x\<^sup>2)" using pos by (intro mult_right_mono divide_right_mono) auto
    then show ?thesis by (simp add: right_diff_distrib)
  qed
  moreover have "lr_continuous_loss cfg st c - reservationCost u c (lc_h cfg) (lc_p cfg) \<le> g * x"
    using reservationCost_subgradient[of "lc_h cfg" "lc_p cfg" "lr_r st" c u] ok
    by (simp add: lr_continuous_loss_def g_def x_def lr_ok_def)
  moreover have "lr_potential cfg u (lr_observe cfg c st) - lr_potential cfg u st
      = s / (2 * e) * (D\<^sup>2 - y\<^sup>2) - s0 / (2 * e) * (D\<^sup>2 - x\<^sup>2) + e * G\<^sup>2 * (s - s0)"
    by (simp add: lr_potential_def s_def s0_def e_def D_def G_def x_def y_def lr_observe_def Let_def algebra_simps)
  ultimately show ?thesis using gx by linarith
qed

interpretation ogd: potential_learner "lr_observe cfg" "\<lambda>st c. lr_continuous_loss cfg st c - reservationCost u c (lc_h cfg) (lc_p cfg)"
  "\<lambda>st. lr_ok cfg \<and> lr_in cfg st \<and> lc_minR cfg \<le> u \<and> u \<le> lc_maxR cfg" "\<lambda>_. True" "lr_potential cfg u" 0
  for cfg u
  by unfold_locales (auto simp: lr_observe_in intro: lr_paid)

lemma lr_regret:
  assumes "lr_ok cfg" "lr_in cfg st" "lr_t st = 0" "lc_minR cfg \<le> u" "u \<le> lc_maxR cfg"
  shows "online_loss (lr_observe cfg) (lr_continuous_loss cfg) st cs
     \<le> sum_list (map (\<lambda>c. reservationCost u c (lc_h cfg) (lc_p cfg)) cs)
        + ((lc_maxR cfg - lc_minR cfg)\<^sup>2 / (2 * lc_stepScale cfg) + lc_stepScale cfg * (max (lc_h cfg) (lc_p cfg))\<^sup>2) * sqrt (real (length cs))"
proof -
  define fin where "fin = online_state (lr_observe cfg) st cs"
  have t: "lr_t (online_state (lr_observe cfg) s cs) = lr_t s + length cs" for s
    by (induction cs arbitrary: s) (simp_all add: lr_observe_def Let_def)
  have "lr_potential cfg u fin
      \<le> sqrt (real (length cs)) / (2 * lc_stepScale cfg) * (lc_maxR cfg - lc_minR cfg)\<^sup>2
        + lc_stepScale cfg * (max (lc_h cfg) (lc_p cfg))\<^sup>2 * sqrt (real (length cs))"
    using assms(1,3) by (simp add: lr_potential_def fin_def t lr_ok_def divide_right_mono mult_left_mono)
  moreover have "lr_potential cfg u st = 0" using assms(3) by (simp add: lr_potential_def)
  moreover have "online_loss (lr_observe cfg) (\<lambda>s c. lr_continuous_loss cfg s c - reservationCost u c (lc_h cfg) (lc_p cfg)) st cs
      \<le> lr_potential cfg u fin - lr_potential cfg u st"
    using ogd.run_bound[of cfg st u cs] assms by (simp add: fin_def list_all_iff)
  ultimately show ?thesis by (simp add: online_loss_diff algebra_simps)
qed

lemma learnedReservation_made:
  assumes "learnedReservation o1 = Inr (cfg, st)"
  shows "lr_ok cfg \<and> lr_in cfg st \<and> lr_t st = 0"
    and "lo_stepScale o1 = None \<Longrightarrow> lc_stepScale cfg = max ((lc_maxR cfg - lc_minR cfg) / max (lc_h cfg) (lc_p cfg)) (1 / 1000000)"
proof -
  from assms obtain h p maxR minR stepScale where *: "0 < h" "0 < p" "0 < maxR" "0 \<le> minR" "minR \<le> maxR"
      "(case lo_stepScale o1 of Some s \<Rightarrow> requirePositive ''learnedReservation.stepScale'' s
        | None \<Rightarrow> Inr (max ((maxR - minR) / max h p) (1 / 1000000))) = Inr stepScale"
      "cfg = \<lparr>lc_h = h, lc_p = p, lc_minR = minR, lc_maxR = maxR, lc_stepScale = stepScale\<rparr>"
      "st = \<lparr>lr_r = clamp (case lo_initialReservation o1 of Some r0 \<Rightarrow> r0 | None \<Rightarrow> (minR + maxR) / 2) minR maxR, lr_t = 0\<rparr>"
    unfolding learnedReservation_def by (force simp: result_simps simp del: option.case_eq_if)
  then have "0 < stepScale" by (auto simp: result_simps split: option.splits)
  then show "lr_ok cfg \<and> lr_in cfg st \<and> lr_t st = 0" using * clamp_bounds by (simp add: lr_ok_def lr_in_def)
  show "lc_stepScale cfg = max ((lc_maxR cfg - lc_minR cfg) / max (lc_h cfg) (lc_p cfg)) (1 / 1000000)" if "lo_stepScale o1 = None"
    using * that by simp
qed

section \<open>The predictive blend\<close>

definition pr_ok :: "reserver_cfg \<Rightarrow> reserver \<Rightarrow> bool" where
  "pr_ok cfg st \<longleftrightarrow> lr_ok (pc_learned cfg) \<and> 0 < pc_eta cfg \<and> lc_minR (pc_learned cfg) \<in> \<int> \<and> lc_maxR (pc_learned cfg) \<in> \<int>
     \<and> lr_in (pc_learned cfg) (pr_robust st)"

definition pr_potential :: "reserver_cfg \<Rightarrow> reserver \<Rightarrow> num" where
  "pr_potential cfg st =
     - ln ((exp (- pc_eta cfg * pr_cumFollow st) + exp (- pc_eta cfg * pr_cumRobust st)) / 2) / pc_eta cfg"

definition pr_slack :: "reserver_cfg \<Rightarrow> num" where
  "pr_slack cfg = (let G = max (lc_h (pc_learned cfg)) (lc_p (pc_learned cfg))
     in pc_eta cfg * (G * lc_maxR (pc_learned cfg))\<^sup>2 / 2 + G / 2)"

lemma exp_minus_le: "0 \<le> x \<Longrightarrow> exp (- x) \<le> 1 - x + x\<^sup>2 / 2" for x :: real
proof -
  assume x: "0 \<le> x"
  have "(1 - x + x\<^sup>2 / 2) * (1 + x + x\<^sup>2 / 2) = 1 + (x\<^sup>2)\<^sup>2 / 4" by (simp add: power2_eq_square algebra_simps)
  moreover have "0 \<le> 1 - x + x\<^sup>2 / 2" using sum_squares_ge_zero[of "1 - x" 1] by (simp add: power2_eq_square algebra_simps)
  then have "(1 - x + x\<^sup>2 / 2) * (1 + x + x\<^sup>2 / 2) \<le> (1 - x + x\<^sup>2 / 2) * exp x"
    using exp_lower_Taylor_quadratic[OF x] by (intro mult_left_mono) auto
  moreover have "0 \<le> (x\<^sup>2)\<^sup>2 / 4" by simp
  ultimately have "1 \<le> (1 - x + x\<^sup>2 / 2) * exp x" by linarith
  then show ?thesis by (simp add: exp_minus field_simps)
qed

lemma hedge_step:
  fixes e A B a b M :: real
  assumes "0 < e" "0 < A" "0 < B" "0 \<le> a" "a \<le> M" "0 \<le> b" "b \<le> M"
  shows "A / (A + B) * a + B / (A + B) * b \<le> - ln ((A * exp (- e * a) + B * exp (- e * b)) / 2) / e + ln ((A + B) / 2) / e + e * M\<^sup>2 / 2"
proof -
  define S where "S = (A * exp (- e * a) + B * exp (- e * b)) / (A + B)"
  have "0 < A + B" using assms(2,3) by simp
  then have "A + B \<noteq> 0" by simp
  then have w: "A / (A + B) + B / (A + B) = 1" "0 \<le> A / (A + B)" "0 \<le> B / (A + B)"
    unfolding add_divide_distrib[symmetric] using assms by simp_all
  have S: "0 < S" using assms by (simp add: S_def add_pos_pos)
  have one: "exp (- e * z) \<le> 1 - e * z + e\<^sup>2 * M\<^sup>2 / 2" if "0 \<le> z" "z \<le> M" for z
  proof -
    have "(e * z)\<^sup>2 \<le> e\<^sup>2 * M\<^sup>2" using that assms by (simp add: power_mult_distrib power_mono mult_left_mono)
    then show ?thesis using exp_minus_le[of "e * z"] that assms by simp
  qed
  have mixed: "x * (1 - e * a + k) + y * (1 - e * b + k) = (x + y) * (1 + k) - e * (x * a + y * b)" for x y k :: real
    by (simp add: algebra_simps)
  have "S = A / (A + B) * exp (- e * a) + B / (A + B) * exp (- e * b)" by (simp add: S_def add_divide_distrib)
  also have "\<dots> \<le> A / (A + B) * (1 - e * a + e\<^sup>2 * M\<^sup>2 / 2) + B / (A + B) * (1 - e * b + e\<^sup>2 * M\<^sup>2 / 2)"
    using one assms w by (intro add_mono mult_left_mono) auto
  also have "\<dots> = (A / (A + B) + B / (A + B)) * (1 + e\<^sup>2 * M\<^sup>2 / 2) - e * (A / (A + B) * a + B / (A + B) * b)"
    by (rule mixed)
  finally have "S - 1 \<le> e\<^sup>2 * M\<^sup>2 / 2 - e * (A / (A + B) * a + B / (A + B) * b)" unfolding w(1) by simp
  then have "ln S \<le> e\<^sup>2 * M\<^sup>2 / 2 - e * (A / (A + B) * a + B / (A + B) * b)"
    using ln_le_minus_one[OF S] by linarith
  then have "ln S / e \<le> (e\<^sup>2 * M\<^sup>2 / 2 - e * (A / (A + B) * a + B / (A + B) * b)) / e"
    using assms by (simp add: divide_right_mono)
  also have "\<dots> = e * M\<^sup>2 / 2 - (A / (A + B) * a + B / (A + B) * b)"
    using assms by (simp add: diff_divide_distrib power2_eq_square)
  finally have "A / (A + B) * a + B / (A + B) * b \<le> - ln S / e + e * M\<^sup>2 / 2" by simp
  moreover have "ln ((A * exp (- e * a) + B * exp (- e * b)) / 2) = ln S + ln ((A + B) / 2)"
  proof -
    have "(A * exp (- e * a) + B * exp (- e * b)) / 2 = S * ((A + B) / 2)" using assms by (simp add: S_def)
    moreover have "0 < (A + B) / 2" using assms by simp
    ultimately show ?thesis using S by (metis ln_mult_pos)
  qed
  ultimately show ?thesis by (simp add: add_divide_distrib diff_divide_distrib)
qed

lemma pr_weights_eq:
  "pr_weights cfg st = (let A = exp (- pc_eta cfg * pr_cumFollow st); B = exp (- pc_eta cfg * pr_cumRobust st) in (A / (A + B), B / (A + B)))"
proof -
  define e where "e = pc_eta cfg"
  define m where "m = min (pr_cumFollow st) (pr_cumRobust st)"
  have x: "exp (- e * (z - m)) = exp (- e * z) * exp (e * m)" for z
    by (simp add: exp_add[symmetric] algebra_simps)
  show ?thesis
    unfolding pr_weights_def Let_def m_def[symmetric] e_def[symmetric] x ring_distribs(2)[symmetric] by simp
qed

lemma lr_reserve_in:
  assumes "lr_in cfg st" "lc_minR cfg \<in> \<int>" "lc_maxR cfg \<in> \<int>"
  shows "lc_minR cfg \<le> lr_reserve st \<and> lr_reserve st \<le> lc_maxR cfg"
proof -
  obtain a b where "lc_minR cfg = of_int a" "lc_maxR cfg = of_int b" using assms by (auto elim!: Ints_cases)
  then show ?thesis using assms(1) by (auto simp: lr_in_def lr_reserve_def js_round_def le_floor_iff floor_le_iff)
qed

lemma pr_step_ok: "pr_ok cfg st \<Longrightarrow> pr_ok cfg (pr_step cfg x st)"
  using lr_observe_in by (auto simp: pr_ok_def pr_step_def pr_observe_def pr_reserve_def Let_def split: prod.splits)

lemma pr_step_sums:
  "pr_cumFollow (pr_step cfg x st) = pr_cumFollow st + reservationCost (clamp (fst x) (lc_minR (pc_learned cfg)) (lc_maxR (pc_learned cfg)))
     (snd x) (lc_h (pc_learned cfg)) (lc_p (pc_learned cfg))"
  "pr_cumRobust (pr_step cfg x st) = pr_cumRobust st + lr_loss (pc_learned cfg) (pr_robust st) (snd x)"
  "pr_robust (pr_step cfg x st) = lr_observe (pc_learned cfg) (snd x) (pr_robust st)"
  by (simp_all add: pr_step_def pr_observe_def pr_reserve_def lr_loss_def Let_def split: prod.splits)

lemma pr_paid:
  assumes ok: "pr_ok cfg st" and c: "0 \<le> snd x" "snd x \<le> lc_maxR (pc_learned cfg)"
  shows "pr_loss cfg st x \<le> pr_potential cfg (pr_step cfg x st) - pr_potential cfg st + pr_slack cfg"
proof -
  define C where "C = pc_learned cfg"
  define G where "G = max (lc_h C) (lc_p C)"
  define f where "f = clamp (fst x) (lc_minR C) (lc_maxR C)"
  define r where "r = lr_reserve (pr_robust st)"
  define A where "A = exp (- pc_eta cfg * pr_cumFollow st)"
  define B where "B = exp (- pc_eta cfg * pr_cumRobust st)"
  define blend where "blend = A / (A + B) * f + B / (A + B) * r"
  let ?L = "\<lambda>z. reservationCost z (snd x) (lc_h C) (lc_p C)"
  have C: "lr_ok C" "0 < pc_eta cfg" "0 < lc_h C" "0 < lc_p C" "lc_minR C \<le> lc_maxR C" "0 \<le> lc_minR C"
    using ok by (auto simp: pr_ok_def C_def lr_ok_def)
  have pos: "0 < A" "0 < B" "A + B \<noteq> 0" by (simp_all add: A_def B_def add_pos_pos less_imp_neq[symmetric])
  have w: "0 \<le> A / (A + B)" "0 \<le> B / (A + B)" "A / (A + B) + B / (A + B) = 1"
    using pos unfolding add_divide_distrib[symmetric] by simp_all
  have fin: "lc_minR C \<le> f" "f \<le> lc_maxR C" using clamp_bounds[OF C(5)] by (auto simp: f_def)
  have rin: "lc_minR C \<le> r" "r \<le> lc_maxR C"
    using lr_reserve_in[of C "pr_robust st"] ok by (auto simp: pr_ok_def C_def r_def)
  have "blend \<le> lc_maxR C" "lc_minR C \<le> blend"
    using convex_bound_le[OF fin(2) rin(2) w] convex_bound_le[of "- f" "- lc_minR C" "- r", OF _ _ w] fin rin
    by (auto simp: blend_def)
  then have "clamp blend (lc_minR C) (lc_maxR C) = blend" by (simp add: clamp_def)
  then have played: "fst (pr_reserve cfg (fst x) st) = js_round blend"
    by (simp add: pr_reserve_def pr_weights_eq Let_def blend_def A_def B_def f_def r_def C_def)
  have "?L (js_round blend) \<le> ?L blend + G * \<bar>js_round blend - blend\<bar>"
    unfolding G_def by (rule reservationCost_near[OF C(3,4)])
  also have "\<dots> \<le> ?L blend + G * (1 / 2)" using js_round_near[of blend] C by (intro add_left_mono mult_left_mono) (auto simp: G_def)
  also have "?L blend \<le> A / (A + B) * ?L f + B / (A + B) * ?L r"
    unfolding blend_def by (rule reservationCost_convex[OF C(3,4) w])
  also have "\<dots> \<le> - ln ((A * exp (- pc_eta cfg * ?L f) + B * exp (- pc_eta cfg * ?L r)) / 2) / pc_eta cfg + ln ((A + B) / 2) / pc_eta cfg
      + pc_eta cfg * (G * lc_maxR C)\<^sup>2 / 2"
    using c fin rin C pos unfolding G_def
    by (intro hedge_step reservationCost_max reservationCost_nonneg) (auto simp: C_def)
  also have "A * exp (- pc_eta cfg * ?L f) = exp (- pc_eta cfg * pr_cumFollow (pr_step cfg x st))"
    by (simp add: A_def pr_step_sums exp_add[symmetric] f_def C_def algebra_simps)
  also have "B * exp (- pc_eta cfg * ?L r) = exp (- pc_eta cfg * pr_cumRobust (pr_step cfg x st))"
    by (simp add: B_def pr_step_sums exp_add[symmetric] r_def lr_loss_def C_def algebra_simps)
  finally show ?thesis
    by (simp add: pr_loss_def played pr_potential_def pr_slack_def Let_def A_def B_def C_def G_def add_divide_distrib)
qed

interpretation hedge: potential_learner "pr_step cfg" "pr_loss cfg" "pr_ok cfg" "\<lambda>x. 0 \<le> snd x \<and> snd x \<le> lc_maxR (pc_learned cfg)"
  "pr_potential cfg" "pr_slack cfg"
  for cfg
  by unfold_locales (auto intro: pr_step_ok pr_paid)

lemma pr_run_sums:
  "pr_cumFollow (online_state (pr_step cfg) st xs) = pr_cumFollow st +
     sum_list (map (\<lambda>x. reservationCost (clamp (fst x) (lc_minR (pc_learned cfg)) (lc_maxR (pc_learned cfg))) (snd x)
       (lc_h (pc_learned cfg)) (lc_p (pc_learned cfg))) xs)"
  "pr_cumRobust (online_state (pr_step cfg) st xs) = pr_cumRobust st +
     online_loss (lr_observe (pc_learned cfg)) (lr_loss (pc_learned cfg)) (pr_robust st) (map snd xs)"
  by (induction xs arbitrary: st) (simp_all add: pr_step_sums)

lemma pr_potential_best:
  assumes "0 < pc_eta cfg"
  shows "pr_potential cfg st \<le> min (pr_cumFollow st) (pr_cumRobust st) + ln 2 / pc_eta cfg"
proof -
  define e where "e = pc_eta cfg"
  define m where "m = min (pr_cumFollow st) (pr_cumRobust st)"
  define S where "S = exp (- e * pr_cumFollow st) + exp (- e * pr_cumRobust st)"
  have "exp (- e * m) \<le> S" by (auto simp: S_def m_def min_def)
  then have "ln (exp (- e * m) / 2) \<le> ln (S / 2)" by (intro ln_mono) (auto intro: less_le_trans[OF exp_gt_zero])
  then have "- e * m - ln 2 \<le> ln (S / 2)" by (simp add: ln_div)
  then have "- ln (S / 2) / e \<le> (e * m + ln 2) / e" using assms by (intro divide_right_mono) (auto simp: e_def)
  also have "\<dots> = m + ln 2 / e" using assms by (simp add: add_divide_distrib e_def)
  finally show ?thesis by (simp add: pr_potential_def S_def e_def m_def)
qed

lemma predictiveReservation_made:
  assumes "predictiveReservation o1 rate = Inr (cfg, st)"
  shows "learnedReservation o1 = Inr (pc_learned cfg, pr_robust st) \<and> 0 < pc_eta cfg \<and> pr_cumFollow st = 0 \<and> pr_cumRobust st = 0"
  using assms by (force simp: predictiveReservation_def result_simps split: prod.splits)

text \<open>
  With a fractional bound the committed reservation leaves the range its documentation gives it.
\<close>

lemma reserve_leaves_range:
  "\<exists>cfg st. learnedReservation \<lparr>lo_holdCost = Num 1, lo_overrunCost = Num 4, lo_maxReservation = Num (5 / 2), lo_minReservation = None,
       lo_initialReservation = Some 3, lo_stepScale = None\<rparr> = Inr (cfg, st) \<and> lc_maxR cfg < lr_reserve st"
  by (simp add: learnedReservation_def clamp_def lr_reserve_def js_round_def)

section \<open>Properties\<close>

text \<open>
  C35. The learned reservation against the best fixed one within its own range in hindsight, for whatever costs the
  requests turn out to have: with the default step scale, and a range not so narrow that the scale is floored
  (\<open>G / 10^6 \<le> D\<close>), the loss of its continuous reservation exceeds that of any fixed reservation between its minimum
  and its maximum by at most \<open>3/2 D G sqrt T\<close>, where \<open>D\<close> is the width of the range, \<open>G\<close> the larger of the two
  penalties and \<open>T\<close> the number of requests; what it commits is rounded and costs at most \<open>G/2\<close> more per request.
\<close>

theorem learned_reservation_regret:
  assumes made: "learnedReservation o1 = Inr (cfg, st)" "lo_stepScale o1 = None"
    and D: "D = lc_maxR cfg - lc_minR cfg" "G = max (lc_h cfg) (lc_p cfg)" "G / 1000000 \<le> D"
    and u: "lc_minR cfg \<le> u" "u \<le> lc_maxR cfg"
  shows "online_loss (lr_observe cfg) (lr_continuous_loss cfg) st cs
      \<le> sum_list (map (\<lambda>c. reservationCost u c (lc_h cfg) (lc_p cfg)) cs) + 3 / 2 * D * G * sqrt (real (length cs)) \<and>
    online_loss (lr_observe cfg) (lr_loss cfg) st cs
      \<le> online_loss (lr_observe cfg) (lr_continuous_loss cfg) st cs + G / 2 * real (length cs)"
proof
  have ok: "lr_ok cfg" "lr_in cfg st" "lr_t st = 0" "0 < G"
    using learnedReservation_made(1)[OF made(1)] D(2) by (auto simp: lr_ok_def)
  have eta: "lc_stepScale cfg = D / G"
    using learnedReservation_made(2)[OF made] D ok(4) by (simp add: pos_le_divide_eq)
  have *: "D\<^sup>2 / (2 * (D / G)) + D / G * G\<^sup>2 = 3 / 2 * D * G"
    using ok(4) D(3) by (cases "D = 0") (auto simp: field_simps power2_eq_square)
  show "online_loss (lr_observe cfg) (lr_continuous_loss cfg) st cs
      \<le> sum_list (map (\<lambda>c. reservationCost u c (lc_h cfg) (lc_p cfg)) cs) + 3 / 2 * D * G * sqrt (real (length cs))"
    using lr_regret[OF ok(1-3) u, of cs] unfolding eta D(1,2)[symmetric] * .
  show "online_loss (lr_observe cfg) (lr_loss cfg) st cs
      \<le> online_loss (lr_observe cfg) (lr_continuous_loss cfg) st cs + G / 2 * real (length cs)"
    using lr_loss_continuous[of cfg] ok(1) unfolding D(2) by (intro online_loss_mono) (simp add: lr_ok_def)
qed

theorem learned_reservation_regret_witness:
  "\<exists>cfg st. learnedReservation \<lparr>lo_holdCost = Num 1, lo_overrunCost = Num 1, lo_maxReservation = Num 10, lo_minReservation = None,
       lo_initialReservation = None, lo_stepScale = None\<rparr> = Inr (cfg, st) \<and>
     online_loss (lr_observe cfg) (lr_continuous_loss cfg) st [3, 7] \<le> 4 + 3 / 2 * 10 * 1 * sqrt 2"
proof -
  define cfg where "cfg = \<lparr>lc_h = 1, lc_p = 1, lc_minR = 0, lc_maxR = 10, lc_stepScale = 10\<rparr>"
  define st where "st = \<lparr>lr_r = 5, lr_t = 0\<rparr>"
  define o1 where "o1 = \<lparr>lo_holdCost = Num 1, lo_overrunCost = Num 1, lo_maxReservation = Num 10, lo_minReservation = None,
       lo_initialReservation = None, lo_stepScale = None\<rparr>"
  have made: "learnedReservation o1 = Inr (cfg, st)"
    by (simp add: o1_def learnedReservation_def cfg_def st_def clamp_def)
  have sum: "sum_list (map (\<lambda>c. reservationCost 5 c (lc_h cfg) (lc_p cfg)) [3, 7]) = 4" by (simp add: cfg_def reservationCost_def)
  have "lo_stepScale o1 = None" "(10 :: num) = lc_maxR cfg - lc_minR cfg" "(1 :: num) = max (lc_h cfg) (lc_p cfg)"
      "(1 :: num) / 1000000 \<le> 10" "lc_minR cfg \<le> 5" "5 \<le> lc_maxR cfg"
    by (simp_all add: o1_def cfg_def)
  then have "online_loss (lr_observe cfg) (lr_continuous_loss cfg) st [3, 7] \<le> 4 + 3 / 2 * 10 * 1 * sqrt (real (length [3, 7 :: num]))"
    using learned_reservation_regret[OF made, of 10 1 5 "[3, 7]"] unfolding sum by blast
  then have "online_loss (lr_observe cfg) (lr_continuous_loss cfg) st [3, 7] \<le> 4 + 3 / 2 * 10 * 1 * sqrt 2"
    by (simp del: online_loss.simps)
  then show ?thesis using made unfolding o1_def by blast
qed

text \<open>
  The predictive reservation, for predictions and costs an adversary may choose (costs between zero and
  the largest reservation, whole bounds): what the reservations it commits cost in total is at most what the
  better of its two experts would have, following the predictions or the learned reservation alone, and
  \<open>ln 2 / eta\<close>, and per request \<open>eta (G maxR)^2 / 2\<close> for the learning rate and \<open>G / 2\<close> for rounding.
\<close>

theorem predictive_reservation_safety:
  assumes made: "predictiveReservation o1 rate = Inr (cfg, st)"
    and whole: "lc_minR (pc_learned cfg) \<in> \<int>" "lc_maxR (pc_learned cfg) \<in> \<int>"
    and costs: "list_all (\<lambda>x. 0 \<le> snd x \<and> snd x \<le> lc_maxR (pc_learned cfg)) xs"
    and G: "G = max (lc_h (pc_learned cfg)) (lc_p (pc_learned cfg))"
  shows "online_loss (pr_step cfg) (pr_loss cfg) st xs
    \<le> min (sum_list (map (\<lambda>x. reservationCost (clamp (fst x) (lc_minR (pc_learned cfg)) (lc_maxR (pc_learned cfg))) (snd x)
              (lc_h (pc_learned cfg)) (lc_p (pc_learned cfg))) xs))
          (online_loss (lr_observe (pc_learned cfg)) (lr_loss (pc_learned cfg)) (pr_robust st) (map snd xs))
      + ln 2 / pc_eta cfg + (pc_eta cfg * (G * lc_maxR (pc_learned cfg))\<^sup>2 / 2 + G / 2) * real (length xs)"
proof -
  have m: "learnedReservation o1 = Inr (pc_learned cfg, pr_robust st)" "0 < pc_eta cfg" "pr_cumFollow st = 0" "pr_cumRobust st = 0"
    using predictiveReservation_made[OF made] by auto
  have "pr_ok cfg st" using learnedReservation_made(1)[OF m(1)] m(2) whole by (simp add: pr_ok_def)
  from hedge.run_bound[OF this costs] have "online_loss (pr_step cfg) (pr_loss cfg) st xs
      \<le> pr_potential cfg (online_state (pr_step cfg) st xs) - pr_potential cfg st + pr_slack cfg * real (length xs)" .
  moreover have "pr_potential cfg st = 0" by (simp add: pr_potential_def m)
  ultimately show ?thesis
    using pr_potential_best[OF m(2), of "online_state (pr_step cfg) st xs"]
    by (simp add: pr_run_sums m pr_slack_def Let_def flip: G)
qed

theorem predictive_reservation_safety_witness:
  "\<exists>cfg st. predictiveReservation \<lparr>lo_holdCost = Num 1, lo_overrunCost = Num 1, lo_maxReservation = Num 10, lo_minReservation = None,
       lo_initialReservation = None, lo_stepScale = None\<rparr> (Some (Num 1)) = Inr (cfg, st) \<and>
     online_loss (pr_step cfg) (pr_loss cfg) st [(3, 3), (12, 9)] \<le> 1 + ln 2 + 101"
proof -
  define C where "C = \<lparr>lc_h = 1, lc_p = 1, lc_minR = 0, lc_maxR = 10, lc_stepScale = 10\<rparr>"
  define o1 where "o1 = \<lparr>lo_holdCost = Num 1, lo_overrunCost = Num 1, lo_maxReservation = Num 10, lo_minReservation = None,
       lo_initialReservation = None, lo_stepScale = None\<rparr>"
  define cfg where "cfg = \<lparr>pc_learned = C, pc_eta = 1\<rparr>"
  define st where "st = \<lparr>pr_robust = \<lparr>lr_r = 5, lr_t = 0\<rparr>, pr_cumFollow = 0, pr_cumRobust = 0, pr_lastFollow = 0, pr_lastRobust = 0\<rparr>"
  have made: "predictiveReservation o1 (Some (Num 1)) = Inr (cfg, st)"
    by (simp add: o1_def predictiveReservation_def learnedReservation_def cfg_def C_def st_def clamp_def)
  have "sum_list (map (\<lambda>x. reservationCost (clamp (fst x) 0 10) (snd x) 1 1) [(3 :: num, 3), (12, 9)]) = 1"
    by (simp add: reservationCost_def clamp_def)
  then show ?thesis
    using predictive_reservation_safety[OF made, of "[(3, 3), (12, 9)]" 1] made
    by (simp add: cfg_def C_def o1_def min_le_iff_disj)
qed

end
