(* ===== verification/MaxMin.thy ===== *)
theory MaxMin
  imports Core "HOL-Library.Multiset"
begin

text \<open>
  The batch allocator of \<open>src/admission/index.ts\<close>: \<open>guaranteedShare\<close> and \<open>weightedMaxMin\<close>, a continuous
  water-filling whose rounding remainder ts dripped out one credit at a time. The lemmas: what the
  water-filling computes (a common level), what the drip adds, and the work conservation, the guarantee and
  the fairness of the integer allocation.
\<close>

section \<open>Validation\<close>

fun require_all :: "(js_number \<Rightarrow> num result) \<Rightarrow> js_number list \<Rightarrow> num list result" where
  "require_all f [] = Inr []"
| "require_all f (v # vs) = rbind (f v) (\<lambda>x. rbind (require_all f vs) (\<lambda>xs. Inr (x # xs)))"

definition validateAllocation :: "js_number list \<Rightarrow> js_number list \<Rightarrow> js_number \<Rightarrow> (num list \<times> num list \<times> num) result" where
  "validateAllocation demands weights limit =
     (if length demands \<noteq> length weights then Inl (RangeError ''weightedMaxMin: demands/weights length mismatch'')
      else
        rbind (requireAtLeast ''weightedMaxMin.limit'' limit 0) (\<lambda>l.
        rbind (require_all (requirePositive ''weightedMaxMin.weight'') weights) (\<lambda>ws.
        rbind (require_all (\<lambda>v. requireAtLeast ''weightedMaxMin.demand'' v 0) demands) (\<lambda>ds.
        Inr (ds, ws, l)))))"

definition guaranteedShares :: "js_number list \<Rightarrow> js_number \<Rightarrow> num list result" where
  "guaranteedShares weights limit =
     rbind (requireAtLeast ''guaranteedShare.limit'' limit 0) (\<lambda>l.
     rbind (require_all (requirePositive ''guaranteedShare.weight'') weights) (\<lambda>ws.
     Inr (map (\<lambda>w. js_floor (w * l / sum_list ws)) ws)))"

section \<open>The allocation\<close>

text \<open>The tenants in ascending order of demand per weight; the sort is stable.\<close>

definition fill_order :: "num list \<Rightarrow> num list \<Rightarrow> nat list" where
  "fill_order demands weights = sort_key (\<lambda>i. demands ! i / weights ! i) [0..<length demands]"

fun fill_loop :: "num list \<Rightarrow> num list \<Rightarrow> nat list \<Rightarrow> num \<Rightarrow> num \<Rightarrow> num list \<Rightarrow> num list" where
  "fill_loop d w [] rem activeWeight alloc = alloc"
| "fill_loop d w (i # ts) rem activeWeight alloc =
     (let level = (if activeWeight > 0 then rem / activeWeight else 0)
      in if w ! i * level \<ge> d ! i then fill_loop d w ts (rem - d ! i) (activeWeight - w ! i) (alloc[i := d ! i])
         else foldl (\<lambda>a m. a[m := w ! m * level]) alloc (i # ts))"

definition waterfillContinuous :: "num list \<Rightarrow> num list \<Rightarrow> num \<Rightarrow> num list" where
  "waterfillContinuous demands weights limit =
     fill_loop demands weights (fill_order demands weights) limit (sum_list weights) (replicate (length demands) 0)"

text \<open>The scan for the backlogged tenant of smallest normalised service, from index \<open>i\<close> on; ties keep the first.\<close>

definition deserving :: "num list \<Rightarrow> num list \<Rightarrow> num list \<Rightarrow> nat option" where
  "deserving d w alloc =
     fst (foldl (\<lambda>(best, bestRatio) i.
            if alloc ! i \<ge> d ! i then (best, bestRatio)
            else if (case bestRatio of None \<Rightarrow> True | Some r \<Rightarrow> alloc ! i / w ! i < r) then (Some i, Some (alloc ! i / w ! i))
            else (best, bestRatio))
          (None, None) [0..<length alloc])"

function drip :: "num list \<Rightarrow> num list \<Rightarrow> num list \<Rightarrow> num \<Rightarrow> num list" where
  "drip d w alloc leftover =
     (if leftover > 0 then
        (case deserving d w alloc of
           None \<Rightarrow> alloc
         | Some i \<Rightarrow> drip d w (alloc[i := alloc ! i + 1]) (leftover - 1))
      else alloc)"
  by pat_completeness auto

termination drip
proof (relation "measure (\<lambda>(d, w, alloc, leftover). nat \<lceil>leftover\<rceil>)", goal_cases)
  case (2 d w alloc leftover i)
  then have "nat \<lceil>leftover - 1\<rceil> < nat \<lceil>leftover\<rceil>" by linarith
  then show ?case by simp
qed simp

declare drip.simps [simp del]

definition weightedMaxMin :: "js_number list \<Rightarrow> js_number list \<Rightarrow> js_number \<Rightarrow> num list result" where
  "weightedMaxMin demands weights limit =
     rbind (validateAllocation demands weights limit) (\<lambda>(d, w, l).
       let alloc = map js_floor (waterfillContinuous d w l)
       in Inr (drip d w alloc (js_floor l - sum_list alloc)))"

section \<open>Water-filling\<close>

lemma foldl_assign:
  "length (foldl (\<lambda>a m. a[m := f m]) alloc ts) = length alloc"
  "i < length alloc \<Longrightarrow> foldl (\<lambda>a m. a[m := f m]) alloc ts ! i = (if i \<in> set ts then f i else alloc ! i)"
  by (induction ts arbitrary: alloc) (auto simp: nth_list_update)

lemma fill_loop_length: "length (fill_loop d w ts rem aw alloc) = length alloc"
  by (induction d w ts rem aw alloc rule: fill_loop.induct) (simp_all add: Let_def foldl_assign)

lemma fill_loop_outside: "i < length alloc \<Longrightarrow> i \<notin> set ts \<Longrightarrow> fill_loop d w ts rem aw alloc ! i = alloc ! i"
  by (induction d w ts rem aw alloc rule: fill_loop.induct) (auto simp: Let_def foldl_assign)

text \<open>
  The level reached: each tenant of the order gets the smaller of its demand and its weight times the level,
  and together they get the smaller of what is left and what they demand.
\<close>

definition levelled :: "num list \<Rightarrow> num list \<Rightarrow> nat list \<Rightarrow> num \<Rightarrow> num list \<Rightarrow> num \<Rightarrow> bool" where
  "levelled d w ts rem out L \<longleftrightarrow>
     (\<forall>i\<in>set ts. out ! i = min (d ! i) (w ! i * L)) \<and>
     sum_list (map ((!) out) ts) = min rem (sum_list (map ((!) d) ts)) \<and>
     (ts \<noteq> [] \<longrightarrow> rem / sum_list (map ((!) w) ts) \<le> L)"

lemma fill_loop_level:
  assumes "distinct ts" "sorted (map (\<lambda>i. d ! i / w ! i) ts)" "\<forall>i\<in>set ts. 0 < w ! i \<and> 0 \<le> d ! i \<and> i < length alloc"
    and "aw = sum_list (map ((!) w) ts)" "0 \<le> rem"
  shows "\<exists>L\<ge>0. levelled d w ts rem (fill_loop d w ts rem aw alloc) L"
  using assms
proof (induction ts arbitrary: rem aw alloc)
  case Nil
  then show ?case by (auto simp: levelled_def)
next
  case (Cons i ts rem aw alloc)
  have w: "0 < w ! i" "0 \<le> d ! i" "i < length alloc" "\<forall>j\<in>set ts. 0 < w ! j \<and> 0 \<le> d ! j \<and> j < length alloc" using Cons.prems(3) by auto
  define aw' where "aw' = sum_list (map ((!) w) ts)"
  have "\<forall>x\<in>set (map ((!) w) ts). 0 \<le> x" using w(4) by (auto simp: less_imp_le)
  then have aw: "aw = w ! i + aw'" "0 \<le> aw'" using Cons.prems(4) unfolding aw'_def by (auto intro!: sum_list_nonneg)
  define level where "level = rem / aw"
  have pos: "0 < aw" "0 \<le> level" "level * aw = rem" using aw w(1) Cons.prems(5) by (auto simp: level_def)
  show ?case
  proof (cases "w ! i * level \<ge> d ! i")
    case True
    define rem' where "rem' = rem - d ! i"
    have "level * aw' \<le> rem'" using True pos aw by (simp add: rem'_def algebra_simps)
    moreover have "0 \<le> level * aw'" using pos aw by simp
    ultimately have rem': "0 \<le> rem'" "level * aw' \<le> rem'" by simp_all
    define out where "out = fill_loop d w ts rem' aw' (alloc[i := d ! i])"
    have eq: "fill_loop d w (i # ts) rem aw alloc = out" using True pos by (simp add: Let_def out_def rem'_def level_def aw)
    have oi: "out ! i = d ! i" using Cons.prems(1) w by (simp add: out_def fill_loop_outside)
    show ?thesis
    proof (cases "ts = []")
      case True
      have "levelled d w [i] rem out level"
        using True \<open>d ! i \<le> w ! i * level\<close> pos aw oi Cons.prems(4) by (auto simp: levelled_def aw'_def level_def min_def)
      then show ?thesis using True pos eq by auto
    next
      case False
      obtain L where L: "0 \<le> L" "levelled d w ts rem' out L"
        using Cons.IH[where rem = rem' and aw = aw' and alloc = "alloc[i := d ! i]"] Cons.prems w rem' by (auto simp: out_def aw'_def)
      obtain j js where "ts = j # js" using False by (cases ts) auto
      then have "0 < w ! j" "aw' = w ! j + sum_list (map ((!) w) js)" "\<forall>x\<in>set (map ((!) w) js). 0 \<le> x"
        using w(4) by (auto simp: aw'_def less_imp_le)
      then have "0 < aw'" using sum_list_nonneg[of "map ((!) w) js"] by force
      then have "level \<le> rem' / aw'" using rem'(2) by (simp add: pos_le_divide_eq)
      then have le: "level \<le> L" using L False by (auto simp: levelled_def aw'_def)
      then have "d ! i \<le> w ! i * L" using True w(1) by (meson mult_left_mono less_imp_le order_trans)
      then have "levelled d w (i # ts) rem out L"
        using L(2) oi le Cons.prems(4) by (auto simp: levelled_def rem'_def level_def min_def)
      then show ?thesis using L eq by auto
    qed
  next
    case False
    define out where "out = foldl (\<lambda>a m. a[m := w ! m * level]) alloc (i # ts)"
    have eq: "fill_loop d w (i # ts) rem aw alloc = out" using False pos by (simp add: Let_def out_def level_def)
    have at: "out ! j = w ! j * level" "w ! j * level \<le> d ! j" if "j \<in> set (i # ts)" for j
    proof -
      show "out ! j = w ! j * level" using that Cons.prems(3) unfolding out_def by (subst foldl_assign) auto
      have "level < d ! i / w ! i" using False w(1) by (simp add: pos_less_divide_eq mult.commute)
      also have "\<dots> \<le> d ! j / w ! j" using that Cons.prems(2) by auto
      finally have "level < d ! j / w ! j" .
      moreover have "0 < w ! j" using that Cons.prems(3) by blast
      ultimately show "w ! j * level \<le> d ! j" by (simp add: pos_less_divide_eq mult.commute)
    qed
    have sum: "sum_list (map ((!) out) (i # ts)) = sum_list (map (\<lambda>j. w ! j * level) (i # ts))"
      using at(1) by (intro arg_cong[where f = sum_list] map_cong) auto
    have "sum_list (map (\<lambda>j. w ! j * level) (i # ts)) = rem"
      using pos(3) Cons.prems(4) by (simp add: sum_list_mult_const sum_list_const_mult mult.commute distrib_left)
    moreover have "sum_list (map (\<lambda>j. w ! j * level) (i # ts)) \<le> sum_list (map ((!) d) (i # ts))"
      using at(2) by (intro sum_list_mono) auto
    ultimately have "levelled d w (i # ts) rem out level"
      using at sum Cons.prems(4) by (auto simp: levelled_def level_def)
    then show ?thesis using pos eq by auto
  qed
qed

lemma sum_list_nths: "sum_list (map ((!) xs) [0..<length xs]) = sum_list xs"
  by (simp add: map_nth)

lemma sum_list_perm: "mset xs = mset ys \<Longrightarrow> sum_list (map f xs) = sum_list (map f ys)" for f :: "'a \<Rightarrow> num"
  by (metis mset_map sum_mset_sum_list)

lemma waterfill_level:
  assumes "length w = length d" "\<forall>i<length d. 0 < w ! i \<and> 0 \<le> d ! i" "0 \<le> l"
  shows "length (waterfillContinuous d w l) = length d"
    and "\<exists>L\<ge>0. (\<forall>i<length d. waterfillContinuous d w l ! i = min (d ! i) (w ! i * L)) \<and> (d \<noteq> [] \<longrightarrow> l / sum_list w \<le> L)"
    and "sum_list (waterfillContinuous d w l) = min l (sum_list d)"
proof -
  define out where "out = waterfillContinuous d w l"
  show len: "length (waterfillContinuous d w l) = length d" by (simp add: waterfillContinuous_def fill_loop_length)
  have m: "mset (fill_order d w) = mset [0..<length d]" by (simp add: fill_order_def)
  have o: "distinct (fill_order d w)" "set (fill_order d w) = {0..<length d}" by (simp_all add: fill_order_def)
  have sums: "sum_list (map ((!) xs) (fill_order d w)) = sum_list xs" if "length xs = length d" for xs :: "num list"
    using sum_list_perm[OF m, of "(!) xs"] that by (metis sum_list_nths)
  obtain L where L: "0 \<le> L" "levelled d w (fill_order d w) l out L"
    using fill_loop_level[where ts = "fill_order d w" and d = d and w = w and alloc = "replicate (length d) 0" and aw = "sum_list w" and rem = l] o assms sums[of w]
    by (auto simp: out_def waterfillContinuous_def fill_order_def)
  show "sum_list (waterfillContinuous d w l) = min l (sum_list d)"
    using L(2) sums[of d] sums[of out] len by (simp add: levelled_def out_def)
  have "fill_order d w \<noteq> []" if "d \<noteq> []" using that o(2) by (cases d) auto
  then show "\<exists>L\<ge>0. (\<forall>i<length d. waterfillContinuous d w l ! i = min (d ! i) (w ! i * L)) \<and> (d \<noteq> [] \<longrightarrow> l / sum_list w \<le> L)"
    using L sums[of w] assms(1) o(2) by (auto simp: levelled_def out_def intro!: exI[of _ L])
qed

section \<open>The drip\<close>

text \<open>The scan over a set of indices already seen.\<close>

definition scanned :: "num list \<Rightarrow> num list \<Rightarrow> num list \<Rightarrow> nat set \<Rightarrow> nat option \<times> num option \<Rightarrow> bool" where
  "scanned d w alloc seen acc \<longleftrightarrow>
     (case acc of
        (None, r) \<Rightarrow> r = None \<and> (\<forall>j\<in>seen. d ! j \<le> alloc ! j)
      | (Some i, r) \<Rightarrow> r = Some (alloc ! i / w ! i) \<and> i \<in> seen \<and> alloc ! i < d ! i \<and>
          (\<forall>j\<in>seen. alloc ! j < d ! j \<longrightarrow> alloc ! i / w ! i \<le> alloc ! j / w ! j))"

lemma scan_fold:
  "scanned d w alloc seen acc \<Longrightarrow>
   scanned d w alloc (seen \<union> set ts)
     (foldl (\<lambda>(best, bestRatio) i.
            if alloc ! i \<ge> d ! i then (best, bestRatio)
            else if (case bestRatio of None \<Rightarrow> True | Some r \<Rightarrow> alloc ! i / w ! i < r) then (Some i, Some (alloc ! i / w ! i))
            else (best, bestRatio)) acc ts)"
proof (induction ts arbitrary: seen acc)
  case (Cons i ts)
  obtain b r where acc: "acc = (b, r)" by (cases acc)
  define acc' where "acc' = (if alloc ! i \<ge> d ! i then (b, r)
            else if (case r of None \<Rightarrow> True | Some r \<Rightarrow> alloc ! i / w ! i < r) then (Some i, Some (alloc ! i / w ! i))
            else (b, r))"
  have "scanned d w alloc (insert i seen) acc'"
    using Cons.prems by (cases b) (auto simp: scanned_def acc acc'_def not_le not_less)
  from Cons.IH[OF this] show ?case by (simp add: acc acc'_def)
qed simp

lemma deserving_spec:
  "case deserving d w alloc of
     None \<Rightarrow> \<forall>j<length alloc. d ! j \<le> alloc ! j
   | Some i \<Rightarrow> i < length alloc \<and> alloc ! i < d ! i \<and> (\<forall>j<length alloc. alloc ! j < d ! j \<longrightarrow> alloc ! i / w ! i \<le> alloc ! j / w ! j)"
proof -
  have "scanned d w alloc {} (None, None)" by (simp add: scanned_def)
  from scan_fold[OF this, of "[0..<length alloc]"] show ?thesis
    unfolding deserving_def scanned_def by (auto split: prod.splits option.splits)
qed

lemma sum_list_add_one: "i < length a \<Longrightarrow> sum_list (a[i := a ! i + 1]) = sum_list a + (1 :: num)"
proof (induction a arbitrary: i)
  case (Cons x a)
  then show ?case by (cases i) auto
qed simp

text \<open>
  What the drip leaves: no tenant loses, none passes its demand, everything is handed out up to the demand, and a
  tenant that gained a credit was behind every tenant still backlogged.
\<close>

definition dripped :: "num list \<Rightarrow> num list \<Rightarrow> num list \<Rightarrow> num \<Rightarrow> num list \<Rightarrow> bool" where
  "dripped d w alloc leftover out \<longleftrightarrow>
     length out = length alloc \<and> (\<forall>i<length alloc. out ! i \<in> \<int> \<and> alloc ! i \<le> out ! i \<and> out ! i \<le> d ! i) \<and>
     sum_list out = min (sum_list d) (sum_list alloc + leftover) \<and>
     (\<forall>j<length alloc. out ! j = alloc ! j \<or> (\<forall>i<length alloc. out ! i < d ! i \<longrightarrow> (out ! j - 1) / w ! j \<le> out ! i / w ! i))"

lemma drip_spec:
  assumes "length d = length alloc" "\<forall>i<length alloc. 0 < w ! i \<and> d ! i \<in> \<int> \<and> alloc ! i \<in> \<int> \<and> alloc ! i \<le> d ! i"
    and "leftover \<in> \<int>" "0 \<le> leftover"
  shows "dripped d w alloc leftover (drip d w alloc leftover)"
  using assms
proof (induction d w alloc leftover rule: drip.induct)
  case (1 d w alloc leftover)
  have le: "sum_list alloc \<le> sum_list d" using 1(2,3) by (intro sum_list_mono2) auto
  show ?case
  proof (cases "leftover > 0")
    case False
    then show ?thesis using 1(2-5) le by (subst drip.simps) (auto simp: dripped_def min_def)
  next
    case True
    show ?thesis
    proof (cases "deserving d w alloc")
      case None
      then have "\<forall>j<length alloc. d ! j = alloc ! j" using deserving_spec[where d = d and w = w and alloc = alloc] 1(3) by force
      then have "d = alloc" using 1(2) by (auto intro: nth_equalityI)
      then show ?thesis using None True 1(2-5) by (subst drip.simps) (auto simp: dripped_def min_def)
    next
      case (Some b)
      have b: "b < length alloc" "alloc ! b < d ! b"
          "\<And>j. j < length alloc \<Longrightarrow> alloc ! j < d ! j \<Longrightarrow> alloc ! b / w ! b \<le> alloc ! j / w ! j"
        using deserving_spec[where d = d and w = w and alloc = alloc] Some by auto
      define alloc1 where "alloc1 = alloc[b := alloc ! b + 1]"
      define out where "out = drip d w alloc1 (leftover - 1)"
      have "alloc ! b + 1 \<le> d ! b" using b(1,2) 1(3) by (auto elim!: Ints_cases)
      moreover have "1 \<le> leftover" using True 1(4) by (auto elim!: Ints_cases)
      ultimately have spec: "dripped d w alloc1 (leftover - 1) out"
        using 1(1)[OF True Some] 1(2-4) b(1) by (auto simp: out_def alloc1_def nth_list_update)
      have up: "alloc ! i \<le> alloc1 ! i" "alloc1 ! i = (if i = b then alloc ! b + 1 else alloc ! i)" if "i < length alloc" for i
        using that by (cases "i = b"; simp add: alloc1_def nth_list_update)+
      have more: "alloc ! i \<le> out ! i" if "i < length alloc" for i
      proof -
        have "alloc1 ! i \<le> out ! i" using spec that by (simp add: dripped_def alloc1_def)
        then show ?thesis using up(1)[OF that] by linarith
      qed
      have fair: "out ! j = alloc ! j \<or> (\<forall>i<length alloc. out ! i < d ! i \<longrightarrow> (out ! j - 1) / w ! j \<le> out ! i / w ! i)"
        if j: "j < length alloc" for j
      proof (cases "j = b \<and> out ! b = alloc1 ! b")
        case True
        have "(out ! j - 1) / w ! j \<le> out ! i / w ! i" if i: "i < length alloc" "out ! i < d ! i" for i
        proof -
          have "alloc ! b / w ! b \<le> alloc ! i / w ! i" "alloc ! i / w ! i \<le> out ! i / w ! i"
            using b(3)[of i] i more[OF i(1)] 1(3) by (auto intro: divide_right_mono less_imp_le)
          then show ?thesis using True b(1) up(2)[OF b(1)] by simp
        qed
        then show ?thesis by blast
      next
        case False
        have "out ! j = alloc1 ! j \<or> (\<forall>i<length alloc. out ! i < d ! i \<longrightarrow> (out ! j - 1) / w ! j \<le> out ! i / w ! i)"
          using spec j by (simp add: dripped_def alloc1_def)
        moreover have "alloc1 ! j = alloc ! j" if "out ! j = alloc1 ! j" using False that up(2)[OF j] by auto
        ultimately show ?thesis by auto
      qed
      have "dripped d w alloc leftover out"
        using spec fair more sum_list_add_one[OF b(1)] by (simp add: dripped_def alloc1_def)
      then show ?thesis using True Some by (subst drip.simps) (simp add: out_def alloc1_def)
    qed
  qed
qed

section \<open>The allocation is weighted max-min\<close>

lemma require_all_Inr:
  "require_all f vs = Inr xs \<Longrightarrow> length xs = length vs \<and> (\<forall>i<length xs. f (vs ! i) = Inr (xs ! i))"
proof (induction vs arbitrary: xs)
  case (Cons v vs)
  then show ?case by (force simp: result_simps nth_Cons split: nat.splits)
qed simp

lemma validateAllocation_Inr:
  assumes "validateAllocation demands weights limit = Inr (d, w, l)"
  shows "length w = length d" "length d = length demands" "\<forall>i<length d. 0 < w ! i \<and> 0 \<le> d ! i" "0 \<le> l"
    "\<forall>i<length d. demands ! i = Num (d ! i) \<and> weights ! i = Num (w ! i)" "limit = Num l"
    "length weights = length demands"
  using assms require_all_Inr[of _ weights w] require_all_Inr[of _ demands d]
  by (force simp: validateAllocation_def result_simps split: if_splits)+

lemma sum_list_floor_Ints: "sum_list (map js_floor xs) \<in> \<int>"
  by (induction xs) auto

lemma sum_list_floor_le: "sum_list (map js_floor xs) \<le> js_floor (sum_list xs)"
proof -
  have "sum_list (map js_floor xs) \<le> sum_list xs" by (induction xs) (auto intro: add_mono)
  then show ?thesis by (metis js_floor_mono js_floor_Ints sum_list_floor_Ints)
qed

text \<open>A tenant left at the rounded level is less than one credit behind it; no tenant is above it.\<close>

lemma level_gap:
  assumes "0 < wi" "0 < wj" "js_floor (min di (wi * L)) \<le> ai" "ai < di" "di \<in> \<int>" "ai \<in> \<int>" "aj \<le> js_floor (min dj (wj * L))"
  shows "aj / wj \<le> ai / wi + 1 / wi"
proof -
  have "aj \<le> wj * L" using assms(7) js_floor_le[of "min dj (wj * L)"] by linarith
  then have "aj / wj \<le> L" using assms(2) by (simp add: divide_le_eq mult.commute)
  moreover have "wi * L < ai + 1"
  proof (cases "di \<le> wi * L")
    case True
    then show ?thesis using assms(3,4,5) by (simp add: min_def)
  next
    case False
    then show ?thesis using assms(3) js_floor_gt[of "wi * L"] by (simp add: min_def)
  qed
  then have "L < (ai + 1) / wi" using assms(1) by (simp add: less_divide_eq mult.commute)
  ultimately show ?thesis by (simp add: add_divide_distrib)
qed

lemma weightedMaxMin_spec:
  assumes "length w = length d" "\<forall>i<length d. 0 < w ! i \<and> 0 \<le> d ! i \<and> d ! i \<in> \<int>" "0 \<le> l"
    and alloc: "alloc = map js_floor (waterfillContinuous d w l)" and out: "out = drip d w alloc (js_floor l - sum_list alloc)"
  shows "length out = length d"
    and "\<forall>i<length d. out ! i \<in> \<int> \<and> 0 \<le> out ! i \<and> min (d ! i) (js_floor (w ! i * l / sum_list w)) \<le> out ! i \<and> out ! i \<le> d ! i"
    and "sum_list out = min (sum_list d) (js_floor l)"
    and "\<forall>i<length d. \<forall>j<length d. out ! i < d ! i \<longrightarrow> out ! j / w ! j \<le> out ! i / w ! i + max (1 / w ! i) (1 / w ! j)"
proof -
  have pre: "length w = length d" "\<forall>i<length d. 0 < w ! i \<and> 0 \<le> d ! i" "0 \<le> l" using assms by auto
  obtain L where L: "0 \<le> L" "\<forall>i<length d. waterfillContinuous d w l ! i = min (d ! i) (w ! i * L)" "d \<noteq> [] \<longrightarrow> l / sum_list w \<le> L"
    using waterfill_level(2)[OF pre] by blast
  have a: "length alloc = length d" "\<And>i. i < length d \<Longrightarrow> alloc ! i = js_floor (min (d ! i) (w ! i * L))"
    using waterfill_level(1)[OF pre] L(2) by (simp_all add: alloc)
  have sum: "sum_list (waterfillContinuous d w l) = min l (sum_list d)" by (rule waterfill_level(3)[OF pre])
  then have "sum_list alloc \<le> js_floor l"
    using sum_list_floor_le[of "waterfillContinuous d w l"] js_floor_mono[of "min l (sum_list d)" l] by (simp add: alloc)
  moreover have "sum_list alloc \<in> \<int>" unfolding alloc by (rule sum_list_floor_Ints)
  moreover have "alloc ! i \<le> d ! i" "alloc ! i \<in> \<int>" "0 \<le> alloc ! i" if "i < length d" for i
    using a(2)[OF that] js_floor_le[of "min (d ! i) (w ! i * L)"] assms(2) that L(1) by (auto simp del: js_floor_nonneg_iff simp: js_floor_def)
  ultimately have drip: "dripped d w alloc (js_floor l - sum_list alloc) out"
    unfolding out using a(1) assms(2) by (intro drip_spec) auto
  then show "length out = length d" "sum_list out = min (sum_list d) (js_floor l)"
    using a(1) by (auto simp: dripped_def)
  have up: "alloc ! i \<le> out ! i" "out ! i \<in> \<int>" "out ! i \<le> d ! i" "0 < w ! i" "d ! i \<in> \<int>" if "i < length d" for i
    using drip that a(1) assms(2) by (auto simp: dripped_def)
  have "min (d ! i) (js_floor (w ! i * l / sum_list w)) \<le> out ! i" "0 \<le> out ! i" if "i < length d" for i
  proof -
    have "l / sum_list w \<le> L" using L(3) that by auto
    then have "w ! i * l / sum_list w \<le> w ! i * L" using up(4)[OF that] by (simp flip: times_divide_eq_right)
    then have "js_floor (min (d ! i) (w ! i * l / sum_list w)) \<le> js_floor (min (d ! i) (w ! i * L))" by (intro js_floor_mono) auto
    moreover have "js_floor (min (d ! i) x) = min (d ! i) (js_floor x)" for x
      using up(5)[OF that] by (metis js_floor_Ints js_floor_mono linear min.absorb1 min.absorb2)
    ultimately show "min (d ! i) (js_floor (w ! i * l / sum_list w)) \<le> out ! i" using a(2)[OF that] up(1)[OF that] by simp
    show "0 \<le> out ! i" using a(2)[OF that] up(1)[OF that] L(1) assms(2) that by (smt (verit) js_floor_nonneg_iff min_def mult_nonneg_nonneg)
  qed
  then show "\<forall>i<length d. out ! i \<in> \<int> \<and> 0 \<le> out ! i \<and> min (d ! i) (js_floor (w ! i * l / sum_list w)) \<le> out ! i \<and> out ! i \<le> d ! i"
    using up by blast
  show "\<forall>i<length d. \<forall>j<length d. out ! i < d ! i \<longrightarrow> out ! j / w ! j \<le> out ! i / w ! i + max (1 / w ! i) (1 / w ! j)"
  proof (intro allI impI)
    fix i j assume i: "i < length d" "out ! i < d ! i" and j: "j < length d"
    have "out ! j = alloc ! j \<or> (out ! j - 1) / w ! j \<le> out ! i / w ! i" using drip i j a(1) by (auto simp: dripped_def)
    then show "out ! j / w ! j \<le> out ! i / w ! i + max (1 / w ! i) (1 / w ! j)"
    proof
      assume "out ! j = alloc ! j"
      then have "out ! j / w ! j \<le> out ! i / w ! i + 1 / w ! i"
        using level_gap[of "w ! i" "w ! j" "d ! i" L "out ! i" "out ! j" "d ! j"] up[OF i(1)] up[OF j] a(2)[OF i(1)] a(2)[OF j] i(2) by simp
      then show ?thesis by linarith
    next
      assume "(out ! j - 1) / w ! j \<le> out ! i / w ! i"
      then show ?thesis by (simp add: diff_divide_distrib max_def)
    qed
  qed
qed

lemma guaranteed_shares_fit:
  assumes "guaranteedShares weights limit = Inr gs" "weights \<noteq> []"
  shows "\<exists>l. limit = Num l \<and> sum_list gs \<le> l"
proof -
  obtain l ws where l: "limit = Num l" "0 \<le> l" and ws: "require_all (requirePositive ''guaranteedShare.weight'') weights = Inr ws"
      and gs: "gs = map (\<lambda>w. js_floor (w * l / sum_list ws)) ws"
    using assms(1) by (auto simp: guaranteedShares_def result_simps)
  have "length ws = length weights" "\<forall>i<length ws. 0 < ws ! i" using require_all_Inr[OF ws] by (auto simp: result_simps)
  then have "\<forall>x\<in>set ws. 0 < x" "ws \<noteq> []" using assms(2) by (auto simp: in_set_conv_nth)
  then have W: "0 < sum_list ws" by (cases ws) (auto intro!: add_pos_nonneg sum_list_nonneg simp: less_imp_le)
  have "sum_list gs \<le> sum_list (map (\<lambda>w. w * (l / sum_list ws)) ws)" unfolding gs by (intro sum_list_mono) (metis js_floor_le times_divide_eq_right)
  also have "\<dots> = l" using W sum_list_mult_const[of "\<lambda>w. w" "l / sum_list ws" ws] by simp
  finally show ?thesis using l by blast
qed

text \<open>With a fractional demand the drip rounds up past it.\<close>

lemma fractional_demand_exceeded: "weightedMaxMin [Num (1 / 2)] [Num 1] (Num 1) = Inr [1]"
  by (simp add: weightedMaxMin_def validateAllocation_def waterfillContinuous_def fill_order_def js_floor_def drip.simps deserving_def Let_def)

section \<open>Properties\<close>

text \<open>
  C36. The weighted max-min allocation of whole demands, for positive weights and any budget: it hands out
  exactly the smaller of all that is demanded and the rounded-down budget, in whole credits, no tenant more than
  it demands and none less than the smaller of its demand and its rounded-down share of the budget by weight;
  and no other tenant's service per weight exceeds that of a tenant left wanting by more than one credit per weight,
  the larger of the two tenants'.
\<close>

theorem weighted_max_min:
  assumes made: "weightedMaxMin demands weights limit = Inr a"
    and d: "demands = map Num d" "\<forall>x\<in>set d. x \<in> \<int>" and w: "weights = map Num w" and l: "limit = Num l"
  shows "length a = length d \<and> sum_list a = min (sum_list d) (js_floor l) \<and>
    (\<forall>i<length d. a ! i \<in> \<int> \<and> 0 \<le> a ! i \<and> min (d ! i) (js_floor (w ! i * l / sum_list w)) \<le> a ! i \<and> a ! i \<le> d ! i \<and>
       (\<forall>j<length d. a ! i < d ! i \<longrightarrow> a ! j / w ! j \<le> a ! i / w ! i + max (1 / w ! i) (1 / w ! j)))"
proof -
  obtain d' w' l' where v: "validateAllocation demands weights limit = Inr (d', w', l')"
      "a = drip d' w' (map js_floor (waterfillContinuous d' w' l')) (js_floor l' - sum_list (map js_floor (waterfillContinuous d' w' l')))"
    using made by (auto simp: weightedMaxMin_def result_simps Let_def)
  note v' = validateAllocation_Inr[OF v(1)]
  have "d' = d" using v'(2,5) d(1) by (auto intro: nth_equalityI)
  moreover have "length w' = length w" using v'(1,2,7) w d(1) by simp
  then have "w' = w" using v'(1,5) w by (auto intro: nth_equalityI)
  moreover have "l' = l" using v'(6) l by simp
  ultimately have len: "length w = length d" "\<forall>i<length d. 0 < w ! i \<and> 0 \<le> d ! i \<and> d ! i \<in> \<int>" "0 \<le> l"
      "a = drip d w (map js_floor (waterfillContinuous d w l)) (js_floor l - sum_list (map js_floor (waterfillContinuous d w l)))"
    using v' v(2) d(2) by auto
  from weightedMaxMin_spec[OF len(1-3) refl len(4)] show ?thesis by blast
qed

theorem weighted_max_min_witness:
  "\<exists>a. weightedMaxMin [Num 10, Num 2, Num 10] [Num 1, Num 1, Num 2] (Num 10) = Inr a \<and> sum_list a = 10 \<and> a ! 1 \<le> 2 \<and> 2 \<le> a ! 0 \<and> 5 \<le> a ! 2"
proof -
  obtain a where a: "weightedMaxMin [Num 10, Num 2, Num 10] [Num 1, Num 1, Num 2] (Num 10) = Inr a"
    by (simp add: weightedMaxMin_def validateAllocation_def Let_def)
  note r = weighted_max_min[OF a, of "[10, 2, 10]" "[1, 1, 2]" 10, simplified]
  have "js_floor (5 / 2 :: num) = 2" by (simp add: js_floor_def)
  then have "sum_list a = 10" "a ! 1 \<le> 2" "2 \<le> a ! 0" "5 \<le> a ! 2" using r by (auto simp: All_less_Suc numeral_3_eq_3 numeral_2_eq_2)
  then show ?thesis using a by blast
qed

end
