(* ===== verification/Admission.thy ===== *)
theory Admission
  imports Contract Assoc
begin

text \<open>
  The admission primitives of \<open>src/admission/index.ts\<close> that sit in front of the limiters: the client-side
  adaptive throttle and the two equal-share splitters of a window budget. The lemmas: the reject
  probability is one and a healthy backend is never shed, the budget of a window holds, and the weighted
  splitter with equal weights is the plain one.
\<close>

section \<open>adaptiveThrottle\<close>

record throttle_options =
  to_k :: "js_number option"
  to_windowMs :: "js_number option"

record throttle_cfg =
  th_k :: num
  th_windowMs :: num

text \<open>\<open>curStart\<close> is \<open>-Infinity\<close> (here \<open>None\<close>) before the first call.\<close>

record throttle =
  th_curStart :: "num option"
  th_curRequests :: num
  th_curAccepts :: num
  th_prevRequests :: num
  th_prevAccepts :: num

definition adaptiveThrottle :: "throttle_options \<Rightarrow> throttle_cfg result" where
  "adaptiveThrottle o1 =
     rbind (requireAtLeast ''adaptiveThrottle.k'' (case to_k o1 of Some k \<Rightarrow> k | None \<Rightarrow> Num 2) 1) (\<lambda>k.
     rbind (requirePositive ''adaptiveThrottle.windowMs'' (case to_windowMs o1 of Some w \<Rightarrow> w | None \<Rightarrow> Num 10000)) (\<lambda>w.
     Inr \<lparr>th_k = k, th_windowMs = w\<rparr>))"

definition throttle_new :: throttle where
  "throttle_new = \<lparr>th_curStart = None, th_curRequests = 0, th_curAccepts = 0, th_prevRequests = 0, th_prevAccepts = 0\<rparr>"

definition throttle_roll :: "throttle_cfg \<Rightarrow> num \<Rightarrow> throttle \<Rightarrow> throttle" where
  "throttle_roll cfg now st =
     (let start = js_floor (now / th_windowMs cfg) * th_windowMs cfg
      in if th_curStart st = Some start then st
         else if (case th_curStart st of Some c \<Rightarrow> start = c + th_windowMs cfg | None \<Rightarrow> False)
         then \<lparr>th_curStart = Some start, th_curRequests = 0, th_curAccepts = 0,
               th_prevRequests = th_curRequests st, th_prevAccepts = th_curAccepts st\<rparr>
         else \<lparr>th_curStart = Some start, th_curRequests = 0, th_curAccepts = 0, th_prevRequests = 0, th_prevAccepts = 0\<rparr>)"

definition elapsedFraction :: "throttle_cfg \<Rightarrow> num \<Rightarrow> throttle \<Rightarrow> num" where
  "elapsedFraction cfg now st = (case th_curStart st of Some c \<Rightarrow> (now - c) / th_windowMs cfg | None \<Rightarrow> 0)"

definition rollingRequests :: "throttle_cfg \<Rightarrow> num \<Rightarrow> throttle \<Rightarrow> num" where
  "rollingRequests cfg now st = th_curRequests st + th_prevRequests st * (1 - elapsedFraction cfg now st)"

definition rollingAccepts :: "throttle_cfg \<Rightarrow> num \<Rightarrow> throttle \<Rightarrow> num" where
  "rollingAccepts cfg now st = th_curAccepts st + th_prevAccepts st * (1 - elapsedFraction cfg now st)"

definition probabilityAt :: "throttle_cfg \<Rightarrow> num \<Rightarrow> throttle \<Rightarrow> num" where
  "probabilityAt cfg now st =
     (let requests = rollingRequests cfg now st; accepts = rollingAccepts cfg now st
      in max 0 ((requests - th_k cfg * accepts) / (requests + 1)))"

text \<open>\<open>draw\<close> is what the random source returns to this request.\<close>

definition throttle_request :: "throttle_cfg \<Rightarrow> num \<Rightarrow> num \<Rightarrow> num \<Rightarrow> throttle \<Rightarrow> bool \<times> throttle" where
  "throttle_request cfg now priority draw st =
     (let st1 = throttle_roll cfg now st;
          p = probabilityAt cfg now st1;
          st2 = st1\<lparr>th_curRequests := th_curRequests st1 + 1\<rparr>;
          clampedPriority = (if priority \<le> 0 then 0 else if priority \<ge> 1 then 1 else priority);
          effectiveP = p * (1 - clampedPriority)
      in (\<not> draw < effectiveP, st2))"

definition throttle_record :: "throttle_cfg \<Rightarrow> num \<Rightarrow> bool \<Rightarrow> throttle \<Rightarrow> throttle" where
  "throttle_record cfg now accepted st =
     (let st1 = throttle_roll cfg now st
      in if accepted then st1\<lparr>th_curAccepts := th_curAccepts st1 + 1\<rparr> else st1)"

definition throttle_rejectProbability :: "throttle_cfg \<Rightarrow> num \<Rightarrow> throttle \<Rightarrow> num \<times> throttle" where
  "throttle_rejectProbability cfg now st = (let st1 = throttle_roll cfg now st in (probabilityAt cfg now st1, st1))"

definition throttle_stats :: "throttle_cfg \<Rightarrow> num \<Rightarrow> throttle \<Rightarrow> (num \<times> num \<times> num) \<times> throttle" where
  "throttle_stats cfg now st =
     (let st1 = throttle_roll cfg now st
      in ((rollingRequests cfg now st1, rollingAccepts cfg now st1, probabilityAt cfg now st1), st1))"

section \<open>fairShare and weightedFairShare\<close>

record share_options =
  so_limit :: js_number
  so_windowMs :: js_number
  so_weightOf :: "(string \<Rightarrow> js_number) option"

record share_cfg =
  sh_limit :: num
  sh_windowMs :: num
  sh_weightOf :: "string \<Rightarrow> js_number"

record fair_share =
  sh_windowStart :: "num option"
  sh_total :: num
  sh_used :: "(string \<times> num) list"

record weighted_share = fair_share +
  sh_weights :: "(string \<times> num) list"

definition fairShare :: "share_options \<Rightarrow> share_cfg result" where
  "fairShare o1 =
     rbind (requirePositive ''fairShare.limit'' (so_limit o1)) (\<lambda>limit.
     rbind (requirePositive ''fairShare.windowMs'' (so_windowMs o1)) (\<lambda>windowMs.
     Inr \<lparr>sh_limit = js_floor limit, sh_windowMs = windowMs, sh_weightOf = (\<lambda>_. Num 1)\<rparr>))"

definition weightedFairShare :: "share_options \<Rightarrow> share_cfg result" where
  "weightedFairShare o1 =
     rbind (requirePositive ''weightedFairShare.limit'' (so_limit o1)) (\<lambda>limit.
     rbind (requirePositive ''weightedFairShare.windowMs'' (so_windowMs o1)) (\<lambda>windowMs.
     Inr \<lparr>sh_limit = js_floor limit, sh_windowMs = windowMs,
          sh_weightOf = (case so_weightOf o1 of Some f \<Rightarrow> f | None \<Rightarrow> (\<lambda>_. Num 1))\<rparr>))"

definition share_new :: fair_share where
  "share_new = \<lparr>sh_windowStart = None, sh_total = 0, sh_used = []\<rparr>"

definition wshare_new :: weighted_share where
  "wshare_new = \<lparr>sh_windowStart = None, sh_total = 0, sh_used = [], sh_weights = []\<rparr>"

definition window_over :: "share_cfg \<Rightarrow> num \<Rightarrow> num option \<Rightarrow> bool" where
  "window_over cfg now ws = (case ws of None \<Rightarrow> True | Some s \<Rightarrow> now \<ge> s + sh_windowMs cfg)"

definition share_rollWindow :: "share_cfg \<Rightarrow> num \<Rightarrow> fair_share \<Rightarrow> fair_share" where
  "share_rollWindow cfg now st =
     (if window_over cfg now (sh_windowStart st)
      then st\<lparr>sh_windowStart := Some (js_floor (now / sh_windowMs cfg) * sh_windowMs cfg), sh_total := 0, sh_used := []\<rparr>
      else st)"

definition wshare_rollWindow :: "share_cfg \<Rightarrow> num \<Rightarrow> weighted_share \<Rightarrow> weighted_share" where
  "wshare_rollWindow cfg now st =
     (if window_over cfg now (sh_windowStart st)
      then st\<lparr>sh_windowStart := Some (js_floor (now / sh_windowMs cfg) * sh_windowMs cfg), sh_total := 0, sh_used := [],
              sh_weights := []\<rparr>
      else st)"

definition share_resetAt :: "share_cfg \<Rightarrow> num option \<Rightarrow> num" where
  "share_resetAt cfg ws = (case ws of Some s \<Rightarrow> js_ceil (s + sh_windowMs cfg) | None \<Rightarrow> 0)"

definition touch :: "string \<Rightarrow> (string \<times> num) list \<Rightarrow> (string \<times> num) list" where
  "touch tenant m = (if map_of m tenant = None then AList.update tenant 0 m else m)"

definition share_checkSync :: "share_cfg \<Rightarrow> num \<Rightarrow> string \<Rightarrow> js_number \<Rightarrow> fair_share \<Rightarrow> decision result \<times> fair_share" where
  "share_checkSync cfg now tenant cost st0 =
     (case requirePositive ''fairShare.cost'' cost of
        Inl e \<Rightarrow> (Inl e, st0)
      | Inr c \<Rightarrow>
          (let st1 = share_rollWindow cfg now st0;
               resetAt = share_resetAt cfg (sh_windowStart st1);
               st = st1\<lparr>sh_used := touch tenant (sh_used st1)\<rparr>;
               tenantUsed = at_key (\<lambda>x. x) (sh_used st) tenant;
               fairCap = max 1 (js_floor (sh_limit cfg / real (length (sh_used st))));
               fitsGlobal = (sh_total st + c \<le> sh_limit cfg);
               fitsFair = (tenantUsed + c \<le> fairCap)
           in if fitsGlobal \<and> fitsFair then
                (Inr \<lparr>d_allowed = True, d_limit = fairCap, d_remaining = max 0 (js_floor (fairCap - (tenantUsed + c))),
                      d_resetAt = resetAt, d_retryAfterMs = 0\<rparr>,
                 st\<lparr>sh_used := AList.update tenant (tenantUsed + c) (sh_used st), sh_total := sh_total st + c\<rparr>)
              else
                (Inr \<lparr>d_allowed = False, d_limit = fairCap, d_remaining = max 0 (js_floor (fairCap - tenantUsed)),
                      d_resetAt = resetAt, d_retryAfterMs = js_ceil (resetAt - now)\<rparr>, st)))"

definition wshare_checkSync ::
  "share_cfg \<Rightarrow> num \<Rightarrow> string \<Rightarrow> js_number \<Rightarrow> js_number option \<Rightarrow> weighted_share \<Rightarrow> decision result \<times> weighted_share" where
  "wshare_checkSync cfg now tenant cost weight st0 =
     (case rbind (requirePositive ''weightedFairShare.cost'' cost) (\<lambda>c.
           rbind (requirePositive ''weightedFairShare.weight'' (case weight of Some w \<Rightarrow> w | None \<Rightarrow> sh_weightOf cfg tenant)) (\<lambda>w.
           Inr (c, w))) of
        Inl e \<Rightarrow> (Inl e, st0)
      | Inr (c, w) \<Rightarrow>
          (let st1 = wshare_rollWindow cfg now st0;
               resetAt = share_resetAt cfg (sh_windowStart st1);
               st = st1\<lparr>sh_used := touch tenant (sh_used st1), sh_weights := AList.update tenant w (sh_weights st1)\<rparr>;
               tenantUsed = at_key (\<lambda>x. x) (sh_used st) tenant;
               activeWeight = map_sum (\<lambda>x. x) (sh_weights st);
               fairCap = max 1 (js_floor (w * sh_limit cfg / activeWeight))
           in if sh_total st + c \<le> sh_limit cfg \<and> tenantUsed + c \<le> fairCap then
                (Inr \<lparr>d_allowed = True, d_limit = fairCap, d_remaining = max 0 (js_floor (fairCap - (tenantUsed + c))),
                      d_resetAt = resetAt, d_retryAfterMs = 0\<rparr>,
                 st\<lparr>sh_used := AList.update tenant (tenantUsed + c) (sh_used st), sh_total := sh_total st + c\<rparr>)
              else
                (Inr \<lparr>d_allowed = False, d_limit = fairCap, d_remaining = max 0 (js_floor (fairCap - tenantUsed)),
                      d_resetAt = resetAt, d_retryAfterMs = js_ceil (resetAt - now)\<rparr>, st)))"

definition share_reset :: "string option \<Rightarrow> fair_share \<Rightarrow> fair_share" where
  "share_reset tenant st =
     (case tenant of
        None \<Rightarrow> share_new
      | Some k \<Rightarrow>
          (case map_of (sh_used st) k of
             Some u \<Rightarrow> st\<lparr>sh_total := sh_total st - u, sh_used := AList.delete k (sh_used st)\<rparr>
           | None \<Rightarrow> st))"

definition wshare_reset :: "string option \<Rightarrow> weighted_share \<Rightarrow> weighted_share" where
  "wshare_reset tenant st =
     (case tenant of
        None \<Rightarrow> wshare_new
      | Some k \<Rightarrow>
          (case map_of (sh_used st) k of
             Some u \<Rightarrow> st\<lparr>sh_total := sh_total st - u, sh_used := AList.delete k (sh_used st),
                          sh_weights := AList.delete k (sh_weights st)\<rparr>
           | None \<Rightarrow> st))"

section \<open>Runs\<close>

datatype throttle_op = TRequest num num num | TRecord num bool | TLook num

fun throttle_step :: "throttle_cfg \<Rightarrow> throttle_op \<Rightarrow> throttle \<Rightarrow> throttle" where
  "throttle_step cfg (TRequest now priority draw) st = snd (throttle_request cfg now priority draw st)"
| "throttle_step cfg (TRecord now accepted) st = throttle_record cfg now accepted st"
| "throttle_step cfg (TLook now) st = snd (throttle_rejectProbability cfg now st)"

text \<open>
  A healthy backend: every request that is sent is accepted, and its acceptance is recorded before the next
  request. An entry is the time, priority and draw of a request and the time its acceptance is recorded.
\<close>

fun healthy_run :: "throttle_cfg \<Rightarrow> throttle \<Rightarrow> (num \<times> num \<times> num \<times> num) list \<Rightarrow> bool list" where
  "healthy_run cfg st [] = []"
| "healthy_run cfg st ((now, priority, draw, answered) # rs) =
     (case throttle_request cfg now priority draw st of
        (True, st1) \<Rightarrow> True # healthy_run cfg (throttle_record cfg answered True st1) rs
      | (False, st1) \<Rightarrow> False # healthy_run cfg st1 rs)"

datatype share_op = SCheck num string js_number "js_number option" | SReset "string option"

fun share_step :: "share_cfg \<Rightarrow> share_op \<Rightarrow> fair_share \<Rightarrow> decision result option \<times> fair_share" where
  "share_step cfg (SCheck now k cost weight) st = (let r = share_checkSync cfg now k cost st in (Some (fst r), snd r))"
| "share_step cfg (SReset k) st = (None, share_reset k st)"

fun wshare_step :: "share_cfg \<Rightarrow> share_op \<Rightarrow> weighted_share \<Rightarrow> decision result option \<times> weighted_share" where
  "wshare_step cfg (SCheck now k cost weight) st = (let r = wshare_checkSync cfg now k cost weight st in (Some (fst r), snd r))"
| "wshare_step cfg (SReset k) st = (None, wshare_reset k st)"

fun run_steps :: "('o \<Rightarrow> 's \<Rightarrow> 'r \<times> 's) \<Rightarrow> 's \<Rightarrow> 'o list \<Rightarrow> 'r list \<times> 's" where
  "run_steps f st [] = ([], st)"
| "run_steps f st (x # xs) = (let (r, st1) = f x st; (rs, st2) = run_steps f st1 xs in (r # rs, st2))"

text \<open>What a run of checks admits.\<close>

fun share_admitted :: "share_op list \<Rightarrow> decision result option list \<Rightarrow> num" where
  "share_admitted (SCheck now k (Num c) weight # ops) (Some (Inr d) # rs) = (if d_allowed d then c else 0) + share_admitted ops rs"
| "share_admitted (_ # ops) (_ # rs) = share_admitted ops rs"
| "share_admitted _ _ = 0"

text \<open>A decision, or none when the arguments are refused (the two splitters word the error differently).\<close>

definition decided :: "decision result option \<Rightarrow> decision option" where
  "decided r = (case r of Some (Inr d) \<Rightarrow> Some d | _ \<Rightarrow> None)"

section \<open>The throttle\<close>

definition throttle_counts :: "throttle \<Rightarrow> bool" where
  "throttle_counts st \<longleftrightarrow> 0 \<le> th_curRequests st \<and> 0 \<le> th_curAccepts st \<and> 0 \<le> th_prevRequests st \<and> 0 \<le> th_prevAccepts st"

definition throttle_healthy :: "throttle \<Rightarrow> bool" where
  "throttle_healthy st \<longleftrightarrow> throttle_counts st \<and> th_curRequests st \<le> th_curAccepts st \<and>
     th_curRequests st + th_prevRequests st \<le> th_curAccepts st + th_prevAccepts st"

lemma throttle_roll_start: "th_curStart (throttle_roll cfg now st) = Some (js_floor (now / th_windowMs cfg) * th_windowMs cfg)"
  by (simp add: throttle_roll_def Let_def)

lemma throttle_roll_counts: "throttle_counts st \<Longrightarrow> throttle_counts (throttle_roll cfg now st)"
  by (simp add: throttle_roll_def throttle_counts_def Let_def)

lemma throttle_roll_healthy: "throttle_healthy st \<Longrightarrow> throttle_healthy (throttle_roll cfg now st)"
  by (auto simp: throttle_roll_def throttle_healthy_def throttle_counts_def Let_def)

lemma elapsed_bounds:
  assumes "0 < th_windowMs cfg"
  shows "0 \<le> elapsedFraction cfg now (throttle_roll cfg now st)" "elapsedFraction cfg now (throttle_roll cfg now st) < 1"
  using window_start_le[OF assms, of now] window_start_gt[OF assms, of now] assms
  by (simp_all add: elapsedFraction_def throttle_roll_start divide_less_eq)

lemma rolling_nonneg:
  assumes "0 < th_windowMs cfg" "throttle_counts st"
  shows "0 \<le> rollingRequests cfg now (throttle_roll cfg now st)" "0 \<le> rollingAccepts cfg now (throttle_roll cfg now st)"
  using elapsed_bounds[OF assms(1), of now st] throttle_roll_counts[OF assms(2), of cfg now]
  by (simp_all add: rollingRequests_def rollingAccepts_def throttle_counts_def)

lemma probability_range:
  assumes "0 < th_windowMs cfg" "0 \<le> th_k cfg" "throttle_counts st"
  shows "0 \<le> probabilityAt cfg now (throttle_roll cfg now st)" "probabilityAt cfg now (throttle_roll cfg now st) < 1"
proof -
  let ?R = "rollingRequests cfg now (throttle_roll cfg now st)" and ?A = "rollingAccepts cfg now (throttle_roll cfg now st)"
  have "0 \<le> ?R" "0 \<le> th_k cfg * ?A" using rolling_nonneg[OF assms(1,3), of now] assms(2) by simp_all
  then have "(?R - th_k cfg * ?A) / (?R + 1) < 1" by (simp add: divide_less_eq)
  then show "probabilityAt cfg now (throttle_roll cfg now st) < 1" by (simp add: probabilityAt_def Let_def)
qed (simp add: probabilityAt_def Let_def)

lemma healthy_probability:
  assumes "0 < th_windowMs cfg" "1 \<le> th_k cfg" "throttle_healthy st"
  shows "probabilityAt cfg now (throttle_roll cfg now st) = 0"
proof -
  let ?s = "throttle_roll cfg now st"
  let ?f = "elapsedFraction cfg now ?s"
  have h: "throttle_healthy ?s" by (rule throttle_roll_healthy[OF assms(3)])
  have "?f * (th_curRequests ?s - th_curAccepts ?s)
      + (1 - ?f) * (th_curRequests ?s + th_prevRequests ?s - th_curAccepts ?s - th_prevAccepts ?s) \<le> 0"
    using h elapsed_bounds[OF assms(1), of now st] by (intro add_nonpos_nonpos mult_nonneg_nonpos) (auto simp: throttle_healthy_def)
  then have le: "rollingRequests cfg now ?s \<le> rollingAccepts cfg now ?s"
    by (simp add: rollingRequests_def rollingAccepts_def algebra_simps)
  have nn: "0 \<le> rollingRequests cfg now ?s" "0 \<le> rollingAccepts cfg now ?s"
    using rolling_nonneg[OF assms(1)] assms(3) by (auto simp: throttle_healthy_def)
  then have "rollingAccepts cfg now ?s \<le> th_k cfg * rollingAccepts cfg now ?s" using assms(2) by (simp add: mult_le_cancel_right1)
  then have "(rollingRequests cfg now ?s - th_k cfg * rollingAccepts cfg now ?s) / (rollingRequests cfg now ?s + 1) \<le> 0"
    using le nn by (intro divide_nonpos_nonneg) auto
  then show ?thesis by (simp add: probabilityAt_def Let_def)
qed

lemma throttle_step_counts: "throttle_counts st \<Longrightarrow> throttle_counts (throttle_step cfg op st)"
  using throttle_roll_counts[of st cfg]
  by (cases op) (auto simp: throttle_request_def throttle_record_def throttle_rejectProbability_def throttle_counts_def Let_def)

lemma throttle_run_counts: "throttle_counts st \<Longrightarrow> throttle_counts (fold (throttle_step cfg) ops st)"
  by (induction ops arbitrary: st) (simp_all add: throttle_step_counts)

lemma healthy_pair:
  assumes "throttle_healthy st"
  shows "throttle_healthy (throttle_record cfg answered True (snd (throttle_request cfg now priority draw st)))"
proof -
  define s where "s = snd (throttle_request cfg now priority draw st)"
  have h: "throttle_healthy (throttle_roll cfg now st)" by (rule throttle_roll_healthy[OF assms])
  have s: "throttle_counts s" "th_curRequests s \<le> th_curAccepts s + 1"
      "th_curRequests s + th_prevRequests s \<le> th_curAccepts s + th_prevAccepts s + 1"
    using h by (auto simp: s_def throttle_request_def throttle_healthy_def throttle_counts_def Let_def)
  then show ?thesis unfolding s_def[symmetric]
    by (auto simp: throttle_record_def throttle_roll_def throttle_healthy_def throttle_counts_def Let_def)
qed

lemma healthy_sent:
  assumes "0 < th_windowMs cfg" "1 \<le> th_k cfg"
  shows "throttle_healthy st \<Longrightarrow> \<forall>r\<in>set rs. 0 \<le> fst (snd (snd r)) \<Longrightarrow> healthy_run cfg st rs = replicate (length rs) True"
proof (induction rs arbitrary: st)
  case (Cons r rs)
  obtain now priority draw answered where r: "r = (now, priority, draw, answered)" by (cases r)
  have "fst (throttle_request cfg now priority draw st)"
    using healthy_probability[OF assms Cons.prems(1), of now] Cons.prems(2) r by (simp add: throttle_request_def Let_def)
  then obtain st1 where st1: "throttle_request cfg now priority draw st = (True, st1)" by (metis (full_types) prod.collapse)
  have "throttle_healthy (throttle_record cfg answered True st1)" using healthy_pair[OF Cons.prems(1), of cfg answered now priority draw] st1 by simp
  then show ?case using Cons.IH Cons.prems(2) st1 by (simp add: r)
qed simp

section \<open>The splitters\<close>

text \<open>
  The invariant of the weighted splitter: one weight per active tenant, the total is the sum of the tenants'
  use, nothing is negative, and a window starts at a multiple of its width.
\<close>

definition wshare_ok :: "share_cfg \<Rightarrow> weighted_share \<Rightarrow> bool" where
  "wshare_ok cfg st \<longleftrightarrow> distinct_keys (sh_used st) \<and> map fst (sh_weights st) = map fst (sh_used st) \<and>
     (\<forall>e\<in>set (sh_used st). 0 \<le> snd e) \<and> sh_total st = map_sum (\<lambda>x. x) (sh_used st) \<and> sh_total st \<le> sh_limit cfg \<and>
     (\<forall>s. sh_windowStart st = Some s \<longrightarrow> (\<exists>j :: int. s = of_int j * sh_windowMs cfg))"

definition share_ok_cfg :: "share_cfg \<Rightarrow> bool" where
  "share_ok_cfg cfg \<longleftrightarrow> 0 \<le> sh_limit cfg \<and> 0 < sh_windowMs cfg"

lemma touch_facts:
  "map_sum (\<lambda>x. x) (touch k m) = map_sum (\<lambda>x. x) m"
  "distinct_keys m \<Longrightarrow> distinct_keys (touch k m)"
  "\<forall>e\<in>set m. 0 \<le> snd e \<Longrightarrow> \<forall>e\<in>set (touch k m). 0 \<le> snd e"
  "map_of (touch k m) k \<noteq> None"
  by (auto simp: touch_def map_sum_update at_key_None map_of_update dest: values_update)

lemma keys_update: "map fst (AList.update k v m) = (if map_of m k = None then map fst m @ [k] else map fst m)"
  by (induction m) (auto simp: map_of_eq_None_iff)

lemma keys_touch: "map fst (touch k m) = (if map_of m k = None then map fst m @ [k] else map fst m)"
  by (simp add: touch_def keys_update)

lemma same_keys_map_of: "map fst m = map fst m' \<Longrightarrow> (map_of m k = None) = (map_of m' k = None)"
  by (metis list.set_map map_of_eq_None_iff)

lemma delete_filter: "AList.delete k m = filter (\<lambda>e. fst e \<noteq> k) m"
  by (induction m) auto

lemma keys_delete: "map fst (AList.delete k m) = filter (\<lambda>x. x \<noteq> k) (map fst m)"
  by (induction m) auto

lemma at_key_nonneg: "\<forall>e\<in>set m. 0 \<le> snd e \<Longrightarrow> 0 \<le> at_key (\<lambda>x. x) m k"
  by (auto simp: at_key_def split: option.splits dest!: map_of_SomeD)

lemma wshare_new_ok: "share_ok_cfg cfg \<Longrightarrow> wshare_ok cfg wshare_new"
  by (simp add: wshare_ok_def wshare_new_def share_ok_cfg_def)

lemma wshare_roll_ok: "share_ok_cfg cfg \<Longrightarrow> wshare_ok cfg st \<Longrightarrow> wshare_ok cfg (wshare_rollWindow cfg now st)"
  unfolding wshare_rollWindow_def by (auto simp: wshare_ok_def share_ok_cfg_def js_floor_def)

text \<open>A check that is decided: the window is rolled, the tenant joins with its weight, and only an admission charges.\<close>

lemma wshare_check_cases:
  assumes "wshare_checkSync cfg now k cost weight st = (r, st')"
  obtains (refused) e where "r = Inl e" "st' = st"
  | (decided) c w d st1 where "cost = Num c" "0 < c" "0 < w" "r = Inr d"
      "st1 = wshare_rollWindow cfg now st\<lparr>sh_used := touch k (sh_used (wshare_rollWindow cfg now st)),
         sh_weights := AList.update k w (sh_weights (wshare_rollWindow cfg now st))\<rparr>"
      "st' = (if d_allowed d then st1\<lparr>sh_used := AList.update k (at_key (\<lambda>x. x) (sh_used st1) k + c) (sh_used st1),
         sh_total := sh_total st1 + c\<rparr> else st1)"
      "d_allowed d \<longrightarrow> sh_total st1 + c \<le> sh_limit cfg"
proof (cases "rbind (requirePositive ''weightedFairShare.cost'' cost) (\<lambda>c.
    rbind (requirePositive ''weightedFairShare.weight'' (case weight of Some w \<Rightarrow> w | None \<Rightarrow> sh_weightOf cfg k)) (\<lambda>w. Inr (c, w)))")
  case (Inl e)
  then have "r = Inl e" "st' = st" using assms by (simp_all add: wshare_checkSync_def)
  then show ?thesis by (rule refused)
next
  case (Inr cw)
  obtain c w where cw: "cw = (c, w)" by (cases cw)
  have v: "cost = Num c" "0 < c" "0 < w" using Inr by (auto simp: cw result_simps)
  let ?R = "wshare_rollWindow cfg now st"
  let ?s = "?R\<lparr>sh_used := touch k (sh_used ?R), sh_weights := AList.update k w (sh_weights ?R)\<rparr>"
  have "\<exists>d. r = Inr d \<and> (d_allowed d \<longrightarrow> sh_total ?s + c \<le> sh_limit cfg) \<and>
      st' = (if d_allowed d then ?s\<lparr>sh_used := AList.update k (at_key (\<lambda>x. x) (sh_used ?s) k + c) (sh_used ?s),
         sh_total := sh_total ?s + c\<rparr> else ?s)"
    using assms unfolding wshare_checkSync_def Inr cw sum.case prod.case Let_def
    by (intro exI[of _ "projr r"]) (split if_split_asm; clarsimp)
  then show ?thesis using decided[OF v _ refl] by blast
qed

lemma wshare_check_ok:
  assumes cfg: "share_ok_cfg cfg" and ok: "wshare_ok cfg st"
  shows "wshare_ok cfg (snd (wshare_checkSync cfg now k cost weight st))"
proof -
  obtain r st' where chk: "wshare_checkSync cfg now k cost weight st = (r, st')" by (cases "wshare_checkSync cfg now k cost weight st")
  from chk show ?thesis
  proof (cases rule: wshare_check_cases)
    case refused
    then show ?thesis using chk ok by simp
  next
    case (decided c w d st1)
    define R where "R = wshare_rollWindow cfg now st"
    have R: "wshare_ok cfg R" unfolding R_def by (rule wshare_roll_ok[OF cfg ok])
    then have "\<forall>e\<in>set (touch k (sh_used R)). 0 \<le> snd e" by (intro touch_facts) (simp add: wshare_ok_def)
    then have ok1: "wshare_ok cfg st1"
      using R same_keys_map_of[of "sh_weights R" "sh_used R" k]
      unfolding decided(5) R_def[symmetric] by (simp add: wshare_ok_def touch_facts keys_touch keys_update)
    have "map_of (sh_used st1) k \<noteq> None" by (simp add: decided(5) touch_facts)
    then have "wshare_ok cfg st'"
      using ok1 decided(2,6,7) at_key_nonneg[of "sh_used st1" k]
      by (auto simp: wshare_ok_def keys_update map_sum_update dest!: values_update)
    then show ?thesis using chk by simp
  qed
qed

lemma wshare_reset_ok:
  assumes "share_ok_cfg cfg" "wshare_ok cfg st"
  shows "wshare_ok cfg (wshare_reset k st)"
proof (cases k)
  case None
  then show ?thesis using wshare_new_ok[OF assms(1)] by (simp add: wshare_reset_def)
next
  case (Some j)
  have d: "map_sum (\<lambda>x. x) (AList.delete j (sh_used st)) = map_sum (\<lambda>x. x) (sh_used st) - at_key (\<lambda>x. x) (sh_used st) j"
    using assms(2) map_sum_others[of "sh_used st" "\<lambda>x. x" j] by (simp add: wshare_ok_def delete_filter)
  have "0 \<le> at_key (\<lambda>x. x) (sh_used st) j" using assms(2) by (intro at_key_nonneg) (simp add: wshare_ok_def)
  moreover have "set (AList.delete j (sh_used st)) \<subseteq> set (sh_used st)" by (auto simp: AList.delete_eq)
  ultimately show ?thesis
    using assms(2) Some d by (auto simp: wshare_reset_def wshare_ok_def keys_delete at_key_def split: option.splits)
qed

lemma wshare_step_ok: "share_ok_cfg cfg \<Longrightarrow> wshare_ok cfg st \<Longrightarrow> wshare_ok cfg (snd (wshare_step cfg op st))"
  by (cases op) (simp_all add: wshare_check_ok wshare_reset_ok Let_def)

lemma wshare_run_ok: "share_ok_cfg cfg \<Longrightarrow> wshare_ok cfg st \<Longrightarrow> wshare_ok cfg (snd (run_steps (wshare_step cfg) st ops))"
proof (induction ops arbitrary: st)
  case (Cons op ops)
  then show ?case using wshare_step_ok[OF Cons.prems, of op] by (simp add: Let_def case_prod_beta)
qed simp

text \<open>What counts against the window \<open>i\<close>: the total, unless the splitter is still in an earlier one.\<close>

definition held_in :: "share_cfg \<Rightarrow> int \<Rightarrow> weighted_share \<Rightarrow> num" where
  "held_in cfg i st = (case sh_windowStart st of Some s \<Rightarrow> if of_int i * sh_windowMs cfg \<le> s then sh_total st else 0 | None \<Rightarrow> 0)"

fun checks_within :: "share_cfg \<Rightarrow> int \<Rightarrow> share_op list \<Rightarrow> bool" where
  "checks_within cfg i [] = True"
| "checks_within cfg i (SCheck now k cost weight # ops) \<longleftrightarrow>
     of_int i * sh_windowMs cfg \<le> now \<and> now < (of_int i + 1) * sh_windowMs cfg \<and> checks_within cfg i ops"
| "checks_within cfg i (SReset k # ops) = False"

lemma held_roll:
  assumes cfg: "share_ok_cfg cfg" and ok: "wshare_ok cfg st" and now: "of_int i * sh_windowMs cfg \<le> now" "now < (of_int i + 1) * sh_windowMs cfg"
  shows "sh_total (wshare_rollWindow cfg now st) = held_in cfg i st"
    and "\<exists>s. sh_windowStart (wshare_rollWindow cfg now st) = Some s \<and> of_int i * sh_windowMs cfg \<le> s"
proof -
  have w: "0 < sh_windowMs cfg" using cfg by (simp add: share_ok_cfg_def)
  have fl: "js_floor (now / sh_windowMs cfg) = of_int i"
    using now w by (auto simp: js_floor_def floor_eq_iff divide_less_eq le_divide_eq)
  have early: "of_int i * sh_windowMs cfg \<le> s \<longleftrightarrow> \<not> now \<ge> s + sh_windowMs cfg" if start: "sh_windowStart st = Some s" for s
  proof -
    obtain j :: int where j: "s = of_int j * sh_windowMs cfg" using ok start by (auto simp: wshare_ok_def)
    show ?thesis
    proof (cases "i \<le> j")
      case True
      then have "of_int i * sh_windowMs cfg \<le> s" using w by (simp add: j)
      then show ?thesis using now w by (simp add: distrib_right)
    next
      case False
      then have "(of_int j + 1) * sh_windowMs cfg \<le> of_int i * sh_windowMs cfg" using w by (intro mult_right_mono) auto
      then show ?thesis using now w False by (simp add: j distrib_right)
    qed
  qed
  then show "sh_total (wshare_rollWindow cfg now st) = held_in cfg i st"
    by (auto simp: wshare_rollWindow_def held_in_def window_over_def split: option.splits)
  show "\<exists>s. sh_windowStart (wshare_rollWindow cfg now st) = Some s \<and> of_int i * sh_windowMs cfg \<le> s"
    using early by (auto simp: wshare_rollWindow_def window_over_def fl split: option.splits)
qed

lemma wshare_admitted_bound:
  assumes cfg: "share_ok_cfg cfg"
  shows "wshare_ok cfg st \<Longrightarrow> checks_within cfg i ops \<Longrightarrow>
    share_admitted ops (fst (run_steps (wshare_step cfg) st ops)) \<le> sh_limit cfg - held_in cfg i st"
proof (induction ops arbitrary: st)
  case Nil
  then show ?case using cfg by (auto simp: held_in_def wshare_ok_def share_ok_cfg_def split: option.splits)
next
  case (Cons op ops)
  from Cons.prems(2) obtain now k cost weight where op: "op = SCheck now k cost weight"
    and now: "of_int i * sh_windowMs cfg \<le> now" "now < (of_int i + 1) * sh_windowMs cfg" and rest: "checks_within cfg i ops"
    by (cases op) auto
  obtain r st' where chk: "wshare_checkSync cfg now k cost weight st = (r, st')" by (cases "wshare_checkSync cfg now k cost weight st")
  have ok': "wshare_ok cfg st'" using wshare_check_ok[OF cfg Cons.prems(1), of now k cost weight] chk by simp
  note IH = Cons.IH[OF ok' rest]
  from chk show ?case
  proof (cases rule: wshare_check_cases)
    case refused
    then show ?thesis using IH chk by (cases cost) (simp_all add: op Let_def case_prod_beta)
  next
    case (decided c w d st1)
    have "held_in cfg i st' = held_in cfg i st + (if d_allowed d then c else 0)"
      using held_roll[OF cfg Cons.prems(1) now] by (auto simp: decided(5,6) held_in_def)
    then show ?thesis using IH chk decided by (simp add: op Let_def case_prod_beta)
  qed
qed

text \<open>Equal weights: the weighted state is the plain one with a weight of one per active tenant.\<close>

definition equal_weights :: "fair_share \<Rightarrow> weighted_share \<Rightarrow> bool" where
  "equal_weights st ws \<longleftrightarrow> sh_windowStart ws = sh_windowStart st \<and> sh_total ws = sh_total st \<and> sh_used ws = sh_used st \<and>
     sh_weights ws = map (\<lambda>e. (fst e, 1)) (sh_used st)"

lemma ones_update:
  "AList.update k 1 (map (\<lambda>e. (fst e, 1)) m) = map (\<lambda>e. (fst e, 1 :: num)) (AList.update k u m)"
  by (induction m) auto

lemma ones_touch: "AList.update k 1 (map (\<lambda>e. (fst e, 1)) m) = map (\<lambda>e. (fst e, 1 :: num)) (touch k m)"
proof (cases "map_of m k")
  case (Some u)
  then have "AList.update k u m = m" by (induction m) (auto split: if_splits)
  then show ?thesis using ones_update[of k m u] Some by (simp add: touch_def)
qed (simp add: touch_def ones_update)

lemma ones_sum: "map_sum (\<lambda>x. x) (map (\<lambda>e. (fst e, 1)) m) = real (length m)"
  by (induction m) simp_all

lemma ones_delete: "AList.delete k (map (\<lambda>e. (fst e, 1)) m) = map (\<lambda>e. (fst e, 1 :: num)) (AList.delete k m)"
  by (induction m) auto

lemma equal_weights_check:
  assumes rel: "equal_weights st ws" and one: "sh_weightOf cfg = (\<lambda>_. Num 1)"
  shows "decided (Some (fst (share_checkSync cfg now k cost st))) = decided (Some (fst (wshare_checkSync cfg now k cost None ws)))"
    and "equal_weights (snd (share_checkSync cfg now k cost st)) (snd (wshare_checkSync cfg now k cost None ws))"
proof -
  have roll: "equal_weights (share_rollWindow cfg now st) (wshare_rollWindow cfg now ws)"
    using rel by (auto simp: equal_weights_def share_rollWindow_def wshare_rollWindow_def)
  have "decided (Some (fst (share_checkSync cfg now k cost st))) = decided (Some (fst (wshare_checkSync cfg now k cost None ws))) \<and>
    equal_weights (snd (share_checkSync cfg now k cost st)) (snd (wshare_checkSync cfg now k cost None ws))"
  proof (cases "\<exists>c. cost = Num c \<and> 0 < c")
    case True
    then obtain c where c: "cost = Num c" "0 < c" by blast
    show ?thesis
      using roll c one unfolding share_checkSync_def wshare_checkSync_def
      by (simp add: Let_def equal_weights_def decided_def ones_touch ones_sum ones_update)
        (simp add: ones_update[symmetric] ones_touch[symmetric])
  next
    case False
    then obtain e e' where "requirePositive ''fairShare.cost'' cost = Inl e" "requirePositive ''weightedFairShare.cost'' cost = Inl e'"
      by (cases cost) (auto split: if_splits)
    then show ?thesis using rel by (simp add: share_checkSync_def wshare_checkSync_def decided_def)
  qed
  then show "decided (Some (fst (share_checkSync cfg now k cost st))) = decided (Some (fst (wshare_checkSync cfg now k cost None ws)))"
    "equal_weights (snd (share_checkSync cfg now k cost st)) (snd (wshare_checkSync cfg now k cost None ws))" by blast+
qed

fun unweighted :: "share_op \<Rightarrow> bool" where
  "unweighted (SCheck now k cost weight) \<longleftrightarrow> weight = None"
| "unweighted (SReset k) = True"

lemma equal_weights_run:
  assumes one: "sh_weightOf cfg = (\<lambda>_. Num 1)"
  shows "equal_weights st ws \<Longrightarrow> list_all unweighted ops \<Longrightarrow>
    map decided (fst (run_steps (share_step cfg) st ops)) = map decided (fst (run_steps (wshare_step cfg) ws ops))"
proof (induction ops arbitrary: st ws)
  case (Cons op ops)
  have "decided (fst (share_step cfg op st)) = decided (fst (wshare_step cfg op ws)) \<and>
      equal_weights (snd (share_step cfg op st)) (snd (wshare_step cfg op ws))"
  proof (cases op)
    case (SCheck now k cost weight)
    then show ?thesis using equal_weights_check[OF Cons.prems(1) one] Cons.prems(2) by (simp add: Let_def)
  next
    case (SReset k)
    then show ?thesis using Cons.prems(1)
      by (auto simp: share_reset_def wshare_reset_def equal_weights_def share_new_def wshare_new_def ones_delete decided_def split: option.splits)
  qed
  then show ?case using Cons.IH[of "snd (share_step cfg op st)" "snd (wshare_step cfg op ws)"] Cons.prems(2) by (simp add: Let_def case_prod_beta)
qed simp

lemma adaptiveThrottle_made: "adaptiveThrottle o1 = Inr cfg \<Longrightarrow> 1 \<le> th_k cfg \<and> 0 < th_windowMs cfg"
  by (auto simp: adaptiveThrottle_def result_simps)

lemma share_made:
  "fairShare o1 = Inr cfg \<Longrightarrow> share_ok_cfg cfg \<and> sh_weightOf cfg = (\<lambda>_. Num 1)"
  "weightedFairShare o1 = Inr cfg \<Longrightarrow> share_ok_cfg cfg"
  by (auto simp: fairShare_def weightedFairShare_def share_ok_cfg_def result_simps)

text \<open>
  A tenant that comes first may take the whole budget: the next tenant is refused its very first request
  although its reported cap is half the budget.
\<close>

lemma fair_share_starves:
  assumes "cfg = \<lparr>sh_limit = 10, sh_windowMs = 1000, sh_weightOf = \<lambda>_. Num 1\<rparr>"
    and "st = \<lparr>sh_windowStart = Some 0, sh_total = 10, sh_used = [(''a'', 10)]\<rparr>"
  shows "share_checkSync cfg 0 ''a'' (Num 10) share_new
      = (Inr \<lparr>d_allowed = True, d_limit = 10, d_remaining = 0, d_resetAt = 1000, d_retryAfterMs = 0\<rparr>, st)"
    and "fst (share_checkSync cfg 1 ''b'' (Num 1) st)
      = Inr \<lparr>d_allowed = False, d_limit = 5, d_remaining = 5, d_resetAt = 1000, d_retryAfterMs = 999\<rparr>"
  by (simp_all add: assms share_checkSync_def share_rollWindow_def share_new_def window_over_def touch_def share_resetAt_def)

section \<open>Properties\<close>

text \<open>
  The adaptive throttle, after any history of requests, records and looks at any times: its reject
  probability is a probability below one, and a request of priority one is always sent. While the backend is
  healthy, every sent request accepted and recorded before the next one, no request is ever shed, whatever the
  times, priorities and draws, and however the window rolls between a request and its record.
\<close>

theorem adaptive_throttle:
  assumes "adaptiveThrottle o1 = Inr cfg" "st = fold (throttle_step cfg) ops throttle_new"
  shows "0 \<le> fst (throttle_rejectProbability cfg now st) \<and> fst (throttle_rejectProbability cfg now st) < 1 \<and>
    (1 \<le> priority \<and> 0 \<le> draw \<longrightarrow> fst (throttle_request cfg now priority draw st)) \<and>
    ((\<forall>r\<in>set rs. 0 \<le> fst (snd (snd r))) \<longrightarrow> healthy_run cfg throttle_new rs = replicate (length rs) True)"
proof -
  have c: "1 \<le> th_k cfg" "0 < th_windowMs cfg" using adaptiveThrottle_made[OF assms(1)] by auto
  have "throttle_counts st" unfolding assms(2) by (rule throttle_run_counts) (simp add: throttle_counts_def throttle_new_def)
  then have "0 \<le> fst (throttle_rejectProbability cfg now st) \<and> fst (throttle_rejectProbability cfg now st) < 1"
    using probability_range[OF c(2), of st now] c(1) by (simp add: throttle_rejectProbability_def Let_def)
  moreover have "throttle_healthy throttle_new" by (simp add: throttle_healthy_def throttle_counts_def throttle_new_def)
  ultimately show ?thesis using healthy_sent[OF c(2,1)] by (auto simp: throttle_request_def Let_def)
qed

theorem adaptive_throttle_witness:
  "\<exists>cfg. adaptiveThrottle \<lparr>to_k = None, to_windowMs = Some (Num 1000)\<rparr> = Inr cfg \<and>
     healthy_run cfg throttle_new [(100, 0, 0, 150), (990, 0, 0, 1010), (1500, 0, 1 / 2, 1501)] = [True, True, True] \<and>
     fst (throttle_rejectProbability cfg 20 (fold (throttle_step cfg) [TRequest 1 0 0, TRequest 2 0 (9 / 10)] throttle_new)) < 1"
proof -
  obtain cfg where cfg: "adaptiveThrottle \<lparr>to_k = None, to_windowMs = Some (Num 1000)\<rparr> = Inr cfg"
    by (simp add: adaptiveThrottle_def)
  show ?thesis
    using cfg adaptive_throttle[OF cfg refl, where rs = "[(100, 0, 0, 150), (990, 0, 0, 1010), (1500, 0, 1 / 2, 1501)]"
        and ops = "[TRequest 1 0 0, TRequest 2 0 (9 / 10)]" and now = 20 and priority = 0 and draw = 0]
    by (auto simp: numeral_3_eq_3 simp del: healthy_run.simps)
qed

text \<open>
  The window budget of the weighted splitter: after any history of checks and resets its total is the sum
  of its tenants' use and within the limit, and any sequence of checks within one window, by any tenants, for
  any costs and weights, admits in total at most the limit.
\<close>

theorem share_window_budget:
  assumes "weightedFairShare o1 = Inr cfg" "st = snd (run_steps (wshare_step cfg) wshare_new ops)" "checks_within cfg i checks"
  shows "sh_total st = map_sum (\<lambda>x. x) (sh_used st) \<and> sh_total st \<le> sh_limit cfg \<and>
    share_admitted checks (fst (run_steps (wshare_step cfg) st checks)) \<le> sh_limit cfg"
proof -
  have cfg: "share_ok_cfg cfg" by (rule share_made(2)[OF assms(1)])
  have ok: "wshare_ok cfg st" unfolding assms(2) by (rule wshare_run_ok[OF cfg wshare_new_ok[OF cfg]])
  then have "0 \<le> sh_total st" unfolding wshare_ok_def by (auto intro!: map_sum_nonneg)
  then have "0 \<le> held_in cfg i st" by (auto simp: held_in_def split: option.splits)
  then show ?thesis using wshare_admitted_bound[OF cfg ok assms(3)] ok by (auto simp: wshare_ok_def)
qed

theorem share_window_budget_witness:
  "\<exists>cfg. weightedFairShare \<lparr>so_limit = Num 10, so_windowMs = Num 1000, so_weightOf = None\<rparr> = Inr cfg \<and>
     share_admitted [SCheck 1000 ''a'' (Num 7) (Some (Num 3)), SCheck 1001 ''b'' (Num 3) None, SCheck 1002 ''a'' (Num 1) None]
       (fst (run_steps (wshare_step cfg) wshare_new [SCheck 1000 ''a'' (Num 7) (Some (Num 3)), SCheck 1001 ''b'' (Num 3) None, SCheck 1002 ''a'' (Num 1) None])) \<le> 10"
proof -
  define cfg where "cfg = \<lparr>sh_limit = 10, sh_windowMs = 1000, sh_weightOf = \<lambda>_. Num 1\<rparr>"
  have cfg: "weightedFairShare \<lparr>so_limit = Num 10, so_windowMs = Num 1000, so_weightOf = None\<rparr> = Inr cfg"
    by (simp add: weightedFairShare_def cfg_def)
  have "checks_within cfg 1 [SCheck 1000 ''a'' (Num 7) (Some (Num 3)), SCheck 1001 ''b'' (Num 3) None, SCheck 1002 ''a'' (Num 1) None]"
    by (simp add: cfg_def)
  from share_window_budget[OF cfg _ this, of wshare_new "[]"] cfg show ?thesis
    by (simp add: cfg_def del: share_admitted.simps run_steps.simps(2))
qed

text \<open>
  The plain splitter is the weighted one with equal weights: constructed with the same budget and window,
  the two make the same decisions on every sequence of checks and resets.
\<close>

theorem fair_share_is_weighted:
  assumes "fairShare o1 = Inr cfg" "so_weightOf o1 = None" "list_all unweighted ops"
  shows "\<exists>cfg'. weightedFairShare o1 = Inr cfg' \<and>
    map decided (fst (run_steps (share_step cfg) share_new ops)) = map decided (fst (run_steps (wshare_step cfg') wshare_new ops))"
proof -
  obtain l w where o1: "so_limit o1 = Num l" "so_windowMs o1 = Num w" "0 < l" "0 < w" "cfg = \<lparr>sh_limit = js_floor l, sh_windowMs = w, sh_weightOf = (\<lambda>_. Num 1)\<rparr>"
    using assms(1) by (auto simp: fairShare_def result_simps)
  have "weightedFairShare o1 = Inr cfg" using o1 assms(2) by (simp add: weightedFairShare_def)
  moreover have "equal_weights share_new wshare_new" by (simp add: equal_weights_def share_new_def wshare_new_def)
  ultimately show ?thesis using equal_weights_run[of cfg, OF _ _ assms(3)] o1(5) by simp
qed

theorem fair_share_is_weighted_witness:
  "\<exists>cfg cfg'. fairShare \<lparr>so_limit = Num 10, so_windowMs = Num 1000, so_weightOf = None\<rparr> = Inr cfg \<and>
     weightedFairShare \<lparr>so_limit = Num 10, so_windowMs = Num 1000, so_weightOf = None\<rparr> = Inr cfg' \<and>
     map decided (fst (run_steps (share_step cfg) share_new [SCheck 0 ''a'' (Num 10) None, SReset (Some ''a''), SCheck 1 ''b'' (Num 1) None]))
     = map decided (fst (run_steps (wshare_step cfg') wshare_new [SCheck 0 ''a'' (Num 10) None, SReset (Some ''a''), SCheck 1 ''b'' (Num 1) None]))"
proof -
  obtain cfg where cfg: "fairShare \<lparr>so_limit = Num 10, so_windowMs = Num 1000, so_weightOf = None\<rparr> = Inr cfg"
    by (simp add: fairShare_def)
  show ?thesis
    using cfg fair_share_is_weighted[OF cfg, of "[SCheck 0 ''a'' (Num 10) None, SReset (Some ''a''), SCheck 1 ''b'' (Num 1) None]"]
    by (auto simp del: run_steps.simps)
qed

end
