(* ===== verification/TokenMeter.thy ===== *)
theory TokenMeter
  imports FixedWindow Limiter
begin

text \<open>
  The streaming token budgets: \<open>tokenBudget\<close> of \<open>src/admission/index.ts\<close>, one process, and
  \<open>distributedTokenBudget\<close> of \<open>src/admission/distributed-budget.ts\<close>, a store transform with a script. A debit is
  admitted when anything of the budget is left before it. The lemmas: the transform keeps the contract of a
  strategy, over an expiring store it decides as the process-local meter does, the script agrees with it, and
  the overshoot of a window is at most the largest debit less one.
\<close>

section \<open>tokenBudget\<close>

record meter_cfg =
  mt_L :: num
  mt_windowMs :: num

record meter =
  mt_windowStart :: "num option"
  mt_served :: num

definition tokenBudget :: "js_number \<Rightarrow> js_number \<Rightarrow> meter_cfg result" where
  "tokenBudget budget windowMs =
     rbind (requirePositive ''tokenBudget.budget'' budget) (\<lambda>_.
     rbind (requireAtLeast ''tokenBudget.budget'' budget 1) (\<lambda>b.
     rbind (requirePositive ''tokenBudget.windowMs'' windowMs) (\<lambda>w.
     Inr \<lparr>mt_L = js_floor b, mt_windowMs = w\<rparr>)))"

definition meter_new :: meter where
  "meter_new = \<lparr>mt_windowStart = None, mt_served = 0\<rparr>"

definition meter_rollWindow :: "meter_cfg \<Rightarrow> num \<Rightarrow> meter \<Rightarrow> meter" where
  "meter_rollWindow cfg now st =
     (if (case mt_windowStart st of None \<Rightarrow> True | Some s \<Rightarrow> now \<ge> s + mt_windowMs cfg)
      then \<lparr>mt_windowStart = Some (js_floor (now / mt_windowMs cfg) * mt_windowMs cfg), mt_served = 0\<rparr>
      else st)"

definition validateTokens :: "string \<Rightarrow> js_number \<Rightarrow> num result" where
  "validateTokens name tokens = rbind (requirePositive name tokens) (\<lambda>_. requireInteger name tokens)"

definition meter_debitSync :: "meter_cfg \<Rightarrow> num \<Rightarrow> js_number \<Rightarrow> meter \<Rightarrow> decision result \<times> meter" where
  "meter_debitSync cfg now tokens st0 =
     (case validateTokens ''tokenBudget.tokens'' tokens of
        Inl e \<Rightarrow> (Inl e, st0)
      | Inr n \<Rightarrow>
          (let st = meter_rollWindow cfg now st0;
               L = mt_L cfg;
               resetAt = (case mt_windowStart st of Some s \<Rightarrow> js_ceil (s + mt_windowMs cfg) | None \<Rightarrow> 0)
           in if mt_served st \<ge> L then
                (Inr \<lparr>d_allowed = False, d_limit = L, d_remaining = 0, d_resetAt = resetAt,
                      d_retryAfterMs = max 0 (js_ceil (resetAt - now))\<rparr>, st)
              else
                (let served = mt_served st + n
                 in (Inr \<lparr>d_allowed = True, d_limit = L, d_remaining = max 0 (L - served), d_resetAt = resetAt,
                          d_retryAfterMs = 0\<rparr>,
                     st\<lparr>mt_served := served\<rparr>))))"

definition meter_remaining :: "meter_cfg \<Rightarrow> num \<Rightarrow> meter \<Rightarrow> num \<times> meter" where
  "meter_remaining cfg now st = (let st1 = meter_rollWindow cfg now st in (max 0 (mt_L cfg - mt_served st1), st1))"

definition meter_reset :: "meter \<Rightarrow> meter" where
  "meter_reset st = meter_new"

section \<open>distributedTokenBudget\<close>

record budget_state =
  bs_w :: num
  bs_s :: num

definition distributedTokenBudget :: "js_number \<Rightarrow> js_number \<Rightarrow> meter_cfg result" where
  "distributedTokenBudget budget windowMs =
     rbind (requirePositive ''distributedTokenBudget.budget'' budget) (\<lambda>_.
     rbind (requireAtLeast ''distributedTokenBudget.budget'' budget 1) (\<lambda>b.
     rbind (requirePositive ''distributedTokenBudget.windowMs'' windowMs) (\<lambda>w.
     Inr \<lparr>mt_L = js_floor b, mt_windowMs = w\<rparr>)))"

definition rolled :: "num \<Rightarrow> budget_state option \<Rightarrow> num \<Rightarrow> num \<times> num" where
  "rolled windowMs st now =
     (case st of
        Some s \<Rightarrow> if now \<ge> bs_w s + windowMs then (0, js_floor (now / windowMs) * windowMs) else (bs_s s, bs_w s)
      | None \<Rightarrow> (0, js_floor (now / windowMs) * windowMs))"

definition debitTransform :: "num \<Rightarrow> num \<Rightarrow> budget_state option \<Rightarrow> num \<Rightarrow> num \<Rightarrow> (budget_state, decision) apply_outcome" where
  "debitTransform L windowMs st now tokens =
     (let (served, windowStart) = rolled windowMs st now;
          resetAt = js_ceil (windowStart + windowMs)
      in if served \<ge> L then
           \<lparr>o_state = st,
            o_result = \<lparr>d_allowed = False, d_limit = L, d_remaining = 0, d_resetAt = resetAt,
                        d_retryAfterMs = max 0 (js_ceil (resetAt - now))\<rparr>,
            o_ttlMs = windowMs, o_persist = False\<rparr>
         else
           (let newServed = served + tokens
            in \<lparr>o_state = Some \<lparr>bs_w = windowStart, bs_s = newServed\<rparr>,
                o_result = \<lparr>d_allowed = True, d_limit = L, d_remaining = max 0 (L - newServed), d_resetAt = resetAt,
                            d_retryAfterMs = 0\<rparr>,
                o_ttlMs = max 1 (resetAt - now), o_persist = True\<rparr>))"

definition peekTransform :: "num \<Rightarrow> num \<Rightarrow> budget_state option \<Rightarrow> num \<Rightarrow> (budget_state, num) apply_outcome" where
  "peekTransform L windowMs st now =
     \<lparr>o_state = st, o_result = max 0 (L - fst (rolled windowMs st now)), o_ttlMs = windowMs, o_persist = False\<rparr>"

text \<open>The calls of the meter on its key: on an async-only store \<open>debitSync\<close> is refused.\<close>

definition db_debit ::
  "('st, budget_state, decision) sync_api \<Rightarrow> meter_cfg \<Rightarrow> string \<Rightarrow> 'st \<Rightarrow> num \<Rightarrow> js_number \<Rightarrow>
   ('st, budget_state, decision, decision) reply result" where
  "db_debit api cfg key st now tokens =
     rbind (validateTokens ''distributedTokenBudget.tokens'' tokens) (\<lambda>n.
     Inr (lm_apply api st key (\<lambda>s. debitTransform (mt_L cfg) (mt_windowMs cfg) s now n) now))"

definition db_debitSync ::
  "('st, budget_state, decision) sync_api \<Rightarrow> meter_cfg \<Rightarrow> string \<Rightarrow> 'st \<Rightarrow> num \<Rightarrow> js_number \<Rightarrow> (decision \<times> 'st) result" where
  "db_debitSync api cfg key st now tokens =
     rbind (validateTokens ''distributedTokenBudget.tokens'' tokens) (\<lambda>n.
     case api of
       None \<Rightarrow> Inl (ThrottleKitError ''debitSync requires a synchronous store'')
     | Some app \<Rightarrow> Inr (app st key (\<lambda>s. debitTransform (mt_L cfg) (mt_windowMs cfg) s now n) now))"

definition db_remaining ::
  "('st, budget_state, num) sync_api \<Rightarrow> meter_cfg \<Rightarrow> string \<Rightarrow> 'st \<Rightarrow> num \<Rightarrow> ('st, budget_state, num, num) reply" where
  "db_remaining api cfg key st now = lm_apply api st key (\<lambda>s. peekTransform (mt_L cfg) (mt_windowMs cfg) s now) now"

definition db_reset :: "string \<Rightarrow> budget_state memory_store \<Rightarrow> budget_state memory_store" where
  "db_reset key st = ms_resetSync st key"

text \<open>The scripts: the two fields of the hash, and the reply with what is written (served, window start, TTL).\<close>

definition token_budget_lua ::
  "num \<times> num \<Rightarrow> num \<Rightarrow> num \<Rightarrow> num \<Rightarrow> num \<Rightarrow> num option \<times> num option \<Rightarrow> lua_reply \<times> (num \<times> num \<times> num) option" where
  "token_budget_lua time argv windowMs L tokens h =
     (let now = lua_now argv time;
          (served, windowStart) =
            (case h of
               (Some s, Some w) \<Rightarrow> if now \<ge> w + windowMs then (0, js_floor (now / windowMs) * windowMs) else (s, w)
             | _ \<Rightarrow> (0, js_floor (now / windowMs) * windowMs));
          resetAt = js_ceil (windowStart + windowMs)
      in if served \<ge> L then
           (let retry = js_ceil (resetAt - now) in ((0, L, 0, resetAt, (if retry < 0 then 0 else retry)), None))
         else
           (let newServed = served + tokens;
                px = js_ceil (windowStart + windowMs - now);
                remaining = L - newServed
            in ((1, L, (if remaining < 0 then 0 else remaining), resetAt, 0),
                Some (newServed, windowStart, if px < 1 then 1 else px))))"

definition token_peek_lua :: "num \<times> num \<Rightarrow> num \<Rightarrow> num \<Rightarrow> num \<Rightarrow> num option \<times> num option \<Rightarrow> num" where
  "token_peek_lua time argv windowMs L h =
     (let now = lua_now argv time;
          served = (case h of (Some s, Some w) \<Rightarrow> if now \<ge> w + windowMs then 0 else s | _ \<Rightarrow> 0);
          remaining = L - served
      in redis_int (if remaining < 0 then 0 else remaining))"

section \<open>The transform is a strategy\<close>

text \<open>The store sees the debit as the check of a strategy.\<close>

definition budget_strategy :: "num \<times> num \<Rightarrow> budget_state strategy" where
  "budget_strategy p = \<lparr>st_name = ''tokenBudget'', st_limit = fst p, st_windowMs = Some (snd p), st_ttlMs = snd p,
     st_check = debitTransform (fst p) (snd p), st_peek = None, st_forecast = None\<rparr>"

definition budget_valid :: "num \<times> num \<Rightarrow> bool" where
  "budget_valid p \<longleftrightarrow> 1 \<le> fst p \<and> fst p \<in> \<int> \<and> 0 < snd p"

lemma budget_strategy_sel [simp]:
  "st_check (budget_strategy p) = debitTransform (fst p) (snd p)" "st_limit (budget_strategy p) = fst p"
  by (simp_all add: budget_strategy_def)

lemma debit_fields [simp]:
  "d_allowed (o_result (debitTransform L w st now c)) \<longleftrightarrow> fst (rolled w st now) < L"
  "o_persist (debitTransform L w st now c) \<longleftrightarrow> fst (rolled w st now) < L"
  "d_limit (o_result (debitTransform L w st now c)) = L"
  "0 \<le> d_remaining (o_result (debitTransform L w st now c))"
  by (auto simp: debitTransform_def Let_def split: prod.splits)

lemma debit_state:
  "fst (rolled w st now) < L \<Longrightarrow> o_state (debitTransform L w st now c) = Some \<lparr>bs_w = snd (rolled w st now), bs_s = fst (rolled w st now) + c\<rparr>"
  "\<not> fst (rolled w st now) < L \<Longrightarrow> o_state (debitTransform L w st now c) = st"
  by (auto simp: debitTransform_def Let_def split: prod.splits)

lemma debit_times:
  "fst (rolled w st now) < L \<Longrightarrow> d_retryAfterMs (o_result (debitTransform L w st now c)) = 0"
  "\<not> fst (rolled w st now) < L \<Longrightarrow> d_retryAfterMs (o_result (debitTransform L w st now c)) = max 0 (js_ceil (js_ceil (snd (rolled w st now) + w) - now))"
  "fst (rolled w st now) < L \<Longrightarrow> o_ttlMs (debitTransform L w st now c) = max 1 (js_ceil (snd (rolled w st now) + w) - now)"
  by (auto simp: debitTransform_def Let_def split: prod.splits)

lemma rolled_end: "0 < w \<Longrightarrow> now < snd (rolled w st now) + w"
  using window_start_gt[of w now] by (auto simp: rolled_def split: option.splits)

lemma debit_result_rolled:
  "rolled w a now = rolled w b now \<Longrightarrow> o_result (debitTransform L w a now c) = o_result (debitTransform L w b now c)"
  by (simp add: debitTransform_def Let_def split: prod.splits)

interpretation budget_c: strategy_contract budget_strategy budget_valid "\<lambda>_ _. True" "\<lambda>_ _ _. True" "\<lambda>p. rolled (snd p)"
proof
  fix p :: "num \<times> num" assume v: "budget_valid p"
  then have w: "0 < snd p" by (simp add: budget_valid_def)
  show "0 < d_retryAfterMs (o_result (st_check (budget_strategy p) st now c))"
    if "\<not> d_allowed (o_result (st_check (budget_strategy p) st now c))" for st now c
  proof -
    have "now < js_ceil (snd (rolled (snd p) st now) + snd p)"
      using rolled_end[OF w, of now st] js_ceil_ge[of "snd (rolled (snd p) st now) + snd p"] by linarith
    then have "0 < js_ceil (js_ceil (snd (rolled (snd p) st now) + snd p) - now)"
      using js_ceil_ge[of "js_ceil (snd (rolled (snd p) st now) + snd p) - now"] by linarith
    then show ?thesis using that by (simp add: debit_times)
  qed
  show "rolled (snd p) (o_state (st_check (budget_strategy p) a now c)) t' = rolled (snd p) None t'"
    if "d_allowed (o_result (st_check (budget_strategy p) a now c))" "now + o_ttlMs (st_check (budget_strategy p) a now c) \<le> t'" for a now c t'
  proof -
    have "js_ceil (snd (rolled (snd p) a now) + snd p) \<le> t'" using that by (simp add: debit_times)
    then have "snd (rolled (snd p) a now) + snd p \<le> t'" using js_ceil_ge order_trans by blast
    then show ?thesis using that by (simp add: debit_state rolled_def)
  qed
  show "o_result (st_check (budget_strategy p) a now c) = o_result (st_check (budget_strategy p) b now c)"
    if "rolled (snd p) a now = rolled (snd p) b now" for a b now c
    using debit_result_rolled[OF that] by simp
qed (auto simp: debit_state debit_times opt_inv_def split: option.splits)

section \<open>Local and shared meters\<close>

text \<open>A run of debits on the process-local meter.\<close>

fun meter_run :: "meter_cfg \<Rightarrow> meter \<Rightarrow> request list \<Rightarrow> decision list" where
  "meter_run cfg st [] = []"
| "meter_run cfg st ((now, c) # rs) =
     (case meter_debitSync cfg now (Num c) st of
        (Inr d, st1) \<Rightarrow> d # meter_run cfg st1 rs
      | (Inl e, st1) \<Rightarrow> meter_run cfg st1 rs)"

text \<open>The meter at a time as the stored state would be: what is served and the window it belongs to.\<close>

definition meter_rolled :: "num \<Rightarrow> meter \<Rightarrow> num \<Rightarrow> num \<times> num" where
  "meter_rolled w m now = rolled w (map_option (\<lambda>s. \<lparr>bs_w = s, bs_s = mt_served m\<rparr>) (mt_windowStart m)) now"

lemma meter_roll: "meter_rollWindow cfg now m = (let (s, ws) = meter_rolled (mt_windowMs cfg) m now in \<lparr>mt_windowStart = Some ws, mt_served = s\<rparr>)"
  by (cases m) (auto simp: meter_rollWindow_def meter_rolled_def rolled_def split: option.splits)

lemma meter_debit:
  assumes "0 < c" "c \<in> \<int>" "meter_rolled (mt_windowMs cfg) m now = rolled (mt_windowMs cfg) st now"
  shows "meter_debitSync cfg now (Num c) m =
    (Inr (o_result (debitTransform (mt_L cfg) (mt_windowMs cfg) st now c)),
     (let (s, ws) = rolled (mt_windowMs cfg) st now
      in \<lparr>mt_windowStart = Some ws, mt_served = (if s < mt_L cfg then s + c else s)\<rparr>))"
  using assms by (auto simp: meter_debitSync_def validateTokens_def meter_roll debitTransform_def Let_def split: prod.splits)

lemma window_start_gap: "0 < w \<Longrightarrow> window_start w u < window_start w t \<Longrightarrow> window_start w u + w \<le> window_start w t"
proof -
  assume w: "0 < w" and lt: "window_start w u < window_start w t"
  then have "\<lfloor>u / w\<rfloor> < \<lfloor>t / w\<rfloor>" by (simp add: window_start_def js_floor_def)
  then have "(real_of_int \<lfloor>u / w\<rfloor> + 1) * w \<le> of_int \<lfloor>t / w\<rfloor> * w" using w by (intro mult_right_mono) linarith+
  then show ?thesis by (simp add: window_start_def js_floor_def distrib_right)
qed

lemma meter_window_same:
  assumes "0 < w" "now \<le> t'" "t' < js_floor (now / w) * w + w"
  shows "js_floor (t' / w) * w = js_floor (now / w) * w"
  using window_start_gap[OF assms(1), of now t'] window_start_mono'[OF assms(1,2)] window_start_bounds(1)[OF assms(1), of t'] assms(3)
  unfolding window_start_def by linarith

lemma rolled_again:
  assumes "0 < w" "now \<le> t'" "rolled w st now = (s, ws)"
  shows "rolled w (Some \<lparr>bs_w = ws, bs_s = s\<rparr>) t' = rolled w st t'"
proof (cases st)
  case None
  have "js_floor (t' / w) * w = ws" if "t' < ws + w"
    using assms that None meter_window_same[of w now t'] by (auto simp: rolled_def)
  then show ?thesis using assms None by (auto simp: rolled_def not_le)
next
  case (Some b)
  show ?thesis
  proof (cases "now \<ge> bs_w b + w")
    case True
    then have ws: "ws = js_floor (now / w) * w" "s = 0" using assms Some by (auto simp: rolled_def)
    have "js_floor (t' / w) * w = ws" if "t' < ws + w"
      using assms(1,2) that ws meter_window_same[of w now t'] by auto
    then show ?thesis using assms True Some ws by (auto simp: rolled_def not_le)
  next
    case False
    then show ?thesis using assms Some by (auto simp: rolled_def)
  qed
qed

lemma meter_run_eq:
  assumes w: "0 < mt_windowMs cfg" and L: "1 \<le> mt_L cfg"
  shows "\<forall>t'\<ge>t. meter_rolled (mt_windowMs cfg) m t' = rolled (mt_windowMs cfg) st t' \<Longrightarrow> monotone_from t rs \<Longrightarrow> \<forall>r\<in>set rs. snd r \<in> \<int> \<Longrightarrow>
    run_strategy (budget_strategy (mt_L cfg, mt_windowMs cfg)) st rs = meter_run cfg m rs"
proof (induction rs arbitrary: t m st)
  case (Cons r rs)
  obtain now c where r: "r = (now, c)" by (cases r)
  have c: "t \<le> now" "0 < c" "monotone_from now rs" "c \<in> \<int>" using Cons.prems r by auto
  let ?w = "mt_windowMs cfg" and ?L = "mt_L cfg"
  obtain s ws where sw: "rolled ?w st now = (s, ws)" by (cases "rolled ?w st now")
  define m1 where "m1 = \<lparr>mt_windowStart = Some ws, mt_served = (if s < ?L then s + c else s)\<rparr>"
  define st1 where "st1 = next_state st (debitTransform ?L ?w st now c)"
  have debit: "meter_debitSync cfg now (Num c) m = (Inr (o_result (debitTransform ?L ?w st now c)), m1)"
    using meter_debit[OF c(2,4), of cfg m now st] Cons.prems(1) c(1) by (simp add: sw m1_def)
  have "\<forall>t'\<ge>now. meter_rolled ?w m1 t' = rolled ?w st1 t'"
  proof (intro allI impI)
    fix t' assume t': "now \<le> t'"
    show "meter_rolled ?w m1 t' = rolled ?w st1 t'"
    proof (cases "s < ?L")
      case True
      then show ?thesis by (simp add: m1_def st1_def meter_rolled_def next_state_def debit_state sw)
    next
      case False
      then show ?thesis using rolled_again[OF w t' sw] by (simp add: m1_def st1_def meter_rolled_def next_state_def sw)
    qed
  qed
  then have "run_strategy (budget_strategy (?L, ?w)) st1 rs = meter_run cfg m1 rs"
    using Cons.IH c(3) Cons.prems(3) by simp
  then show ?case using debit by (simp add: r Let_def st1_def)
qed simp

section \<open>The overshoot of a window\<close>

definition budget_in :: "num \<Rightarrow> budget_state option \<Rightarrow> num" where
  "budget_in W st = (case st of Some s \<Rightarrow> if bs_w s = W then bs_s s else 0 | None \<Rightarrow> 0)"

text \<open>A stored state at time \<open>t\<close>: a window that has begun, and whole tokens, overshooting by less than one debit.\<close>

definition budget_ok :: "num \<Rightarrow> num \<Rightarrow> num \<Rightarrow> num \<Rightarrow> budget_state \<Rightarrow> bool" where
  "budget_ok L w M t s \<longleftrightarrow> (\<exists>u\<le>t. bs_w s = window_start w u) \<and> bs_s s \<in> \<int> \<and> bs_s s \<le> L - 1 + M"

lemma rolled_in:
  assumes "0 < w" "opt_inv (budget_ok L w M) now st"
  shows "rolled w st now = (budget_in (window_start w now) st, window_start w now)"
proof (cases st)
  case (Some s)
  obtain u where u: "u \<le> now" "bs_w s = window_start w u" using assms(2) Some by (auto simp: budget_ok_def)
  show ?thesis
  proof (cases "window_start w u = window_start w now")
    case True
    then show ?thesis using Some u window_start_bounds(2)[OF assms(1), of now] by (simp add: rolled_def budget_in_def)
  next
    case False
    then have "window_start w u < window_start w now" using window_start_mono'[OF assms(1) u(1)] by simp
    then have "window_start w u + w \<le> now"
      using window_start_gap[OF assms(1)] window_start_bounds(1)[OF assms(1), of now] by force
    then show ?thesis using Some u False by (simp add: rolled_def budget_in_def window_start_def)
  qed
qed (simp add: rolled_def budget_in_def window_start_def)

lemma budget_overshoot:
  assumes v: "budget_valid (L, w)" and M: "1 \<le> M"
  shows "opt_inv (budget_ok L w M) t st \<Longrightarrow> monotone_from t rs \<Longrightarrow> \<forall>r\<in>set rs. snd r \<in> \<int> \<and> snd r \<le> M \<Longrightarrow>
    admitted_where (\<lambda>x. window_start w x = W) rs (run_strategy (budget_strategy (L, w)) st rs) \<le> L - 1 + M - budget_in W st"
proof (induction rs arbitrary: t st)
  case Nil
  then show ?case using v M by (cases st) (auto simp: budget_ok_def budget_in_def budget_valid_def)
next
  case (Cons r rs)
  obtain now c where r: "r = (now, c)" by (cases r)
  have c: "t \<le> now" "0 < c" "monotone_from now rs" "c \<in> \<int>" "c \<le> M" "\<forall>r\<in>set rs. snd r \<in> \<int> \<and> snd r \<le> M"
    using Cons.prems r by auto
  have w: "0 < w" "L \<in> \<int>" "1 \<le> L" using v by (auto simp: budget_valid_def)
  let ?n = "budget_in (window_start w now) st"
  let ?st = "next_state st (debitTransform L w st now c)"
  have ok: "opt_inv (budget_ok L w M) now st" using Cons.prems(1) c(1) by (cases st) (auto simp: budget_ok_def intro: order_trans)
  have n: "rolled w st now = (?n, window_start w now)" by (rule rolled_in[OF w(1) ok])
  have nI: "?n \<in> \<int>" using ok by (cases st) (auto simp: budget_ok_def budget_in_def)
  have st: "?st = (if ?n < L then Some \<lparr>bs_w = window_start w now, bs_s = ?n + c\<rparr> else st)"
    by (simp add: next_state_def debit_state n)
  have "?n \<le> L - 1" if "?n < L" using that nI w(2) by (auto elim!: Ints_cases)
  then have ok1: "opt_inv (budget_ok L w M) now ?st" unfolding st using ok nI c(4,5) by (auto simp: budget_ok_def)
  note IH = Cons.IH[OF ok1 c(3,6)]
  consider "window_start w now < W" | "window_start w now = W" | "W < window_start w now" by linarith
  then show ?case
  proof cases
    case 1
    then have "budget_in W st = 0" "budget_in W ?st = 0"
      using ok window_start_mono'[OF w(1)] unfolding st by (cases st; fastforce simp: budget_in_def budget_ok_def)+
    then show ?thesis using IH 1 by (simp add: r Let_def)
  next
    case 2
    then have "budget_in W ?st = ?n + (if ?n < L then c else 0)" unfolding st by (simp add: budget_in_def)
    then show ?thesis using IH 2 by (simp add: r Let_def n)
  next
    case 3
    have "\<forall>q\<in>set rs. window_start w (fst q) \<noteq> W"
      using monotone_from_ge[OF c(3)] window_start_mono'[OF w(1)] 3 by fastforce
    then have "admitted_where (\<lambda>x. window_start w x = W) rs (run_strategy (budget_strategy (L, w)) ?st rs) = 0"
      by (intro admitted_where_none) auto
    moreover have "budget_in W st \<le> L - 1 + M" using ok w M by (auto simp: budget_in_def budget_ok_def split: option.splits)
    ultimately show ?thesis using 3 by (simp add: r Let_def)
  qed
qed

definition budget_hash :: "budget_state option \<Rightarrow> num option \<times> num option" where
  "budget_hash st = (map_option bs_s st, map_option bs_w st)"

lemma tokenBudget_made:
  "tokenBudget b w = Inr cfg \<Longrightarrow> budget_valid (mt_L cfg, mt_windowMs cfg)"
  "distributedTokenBudget b w = Inr cfg \<Longrightarrow> budget_valid (mt_L cfg, mt_windowMs cfg)"
  by (auto simp: tokenBudget_def distributedTokenBudget_def budget_valid_def result_simps)

section \<open>Properties\<close>

text \<open>
  The overshoot of a shared token budget: over a store that forgets the counter at its TTL, however the debits
  of the gateways interleave in time and wherever the windows fall, a window admits at most the budget and the
  largest debit less one. Debiting one token at a time, it never exceeds the budget.
\<close>

theorem token_budget_overshoot:
  assumes "distributedTokenBudget b w = Inr cfg" "monotone_from t rs" "\<forall>r\<in>set rs. snd r \<in> \<int> \<and> snd r \<le> M" "1 \<le> M"
  shows "admitted_where (\<lambda>x. window_start (mt_windowMs cfg) x = W) rs
      (run_cell (budget_strategy (mt_L cfg, mt_windowMs cfg)) None rs) \<le> mt_L cfg + (M - 1)"
proof -
  have v: "budget_valid (mt_L cfg, mt_windowMs cfg)" by (rule tokenBudget_made(2)[OF assms(1)])
  show ?thesis
    using budget_overshoot[OF v assms(4) _ assms(2,3), of None W] budget_c.run_cell_eq_run_strategy[OF v TrueI assms(2)]
    by (simp add: budget_in_def)
qed

theorem token_budget_overshoot_witness:
  "\<exists>cfg. distributedTokenBudget (Num 3) (Num 1000) = Inr cfg \<and>
     admitted_where (\<lambda>x. window_start (mt_windowMs cfg) x = 1000) [(1000, 2), (1001, 5), (1002, 1), (2000, 5)]
       (run_cell (budget_strategy (mt_L cfg, mt_windowMs cfg)) None [(1000, 2), (1001, 5), (1002, 1), (2000, 5)]) \<le> 3 + (5 - 1)"
proof -
  obtain cfg where cfg: "distributedTokenBudget (Num 3) (Num 1000) = Inr cfg" "mt_L cfg = 3"
    by (simp add: distributedTokenBudget_def)
  show ?thesis
    using cfg token_budget_overshoot[OF cfg(1), of 0 "[(1000, 2), (1001, 5), (1002, 1), (2000, 5)]" 5 1000]
    by (auto simp del: admitted_where.simps run_cell.simps)
qed

text \<open>
  The shared budget is the local one: over a store that forgets the counter at its TTL a run of debits of whole
  tokens is decided as the process-local meter of the same budget and window decides it.
\<close>

theorem distributed_budget_is_local:
  assumes "distributedTokenBudget b w = Inr cfg" "tokenBudget b w = Inr cfg'" "monotone_from t rs" "\<forall>r\<in>set rs. snd r \<in> \<int>"
  shows "run_cell (budget_strategy (mt_L cfg, mt_windowMs cfg)) None rs = meter_run cfg' meter_new rs"
proof -
  have cfg: "cfg' = cfg" using assms(1,2) by (auto simp: distributedTokenBudget_def tokenBudget_def result_simps)
  have v: "budget_valid (mt_L cfg, mt_windowMs cfg)" by (rule tokenBudget_made(2)[OF assms(1)])
  have "run_strategy (budget_strategy (mt_L cfg, mt_windowMs cfg)) None rs = meter_run cfg meter_new rs"
    using v assms(3,4) by (intro meter_run_eq[of cfg t]) (auto simp: budget_valid_def meter_rolled_def meter_new_def)
  then show ?thesis using budget_c.run_cell_eq_run_strategy[OF v TrueI assms(3)] cfg by simp
qed

theorem distributed_budget_is_local_witness:
  "\<exists>cfg. distributedTokenBudget (Num 3) (Num 1000) = Inr cfg \<and> tokenBudget (Num 3) (Num 1000) = Inr cfg \<and>
     run_cell (budget_strategy (mt_L cfg, mt_windowMs cfg)) None [(1000, 2), (1001, 5), (2000, 1)] = meter_run cfg meter_new [(1000, 2), (1001, 5), (2000, 1)]"
proof -
  obtain cfg where cfg: "distributedTokenBudget (Num 3) (Num 1000) = Inr cfg" "tokenBudget (Num 3) (Num 1000) = Inr cfg"
    by (simp add: distributedTokenBudget_def tokenBudget_def)
  show ?thesis
    using cfg distributed_budget_is_local[OF cfg, of 0 "[(1000, 2), (1001, 5), (2000, 1)]"]
    by (auto simp del: run_cell.simps meter_run.simps)
qed

text \<open>
  The scripts of the shared budget: for whole numbers, the decoded reply of the debit script is the decision of
  the transform and it writes exactly when the transform persists, the same served tokens, window and TTL; the
  script of the peek answers what the read-only transform does.
\<close>

theorem token_budget_lua_equiv:
  assumes "L \<in> \<int>" "windowMs \<in> \<int>" "tokens \<in> \<int>" "lua_now argv time \<in> \<int>" "0 < windowMs"
    and "opt_inv (\<lambda>_ s. bs_s s \<in> \<int> \<and> bs_w s \<in> \<int>) 0 st"
  shows "let out = debitTransform L windowMs st (lua_now argv time) tokens;
             lua = token_budget_lua time argv windowMs L tokens (budget_hash st)
         in decodeDecision (redis_reply (fst lua)) = o_result out \<and>
            snd lua = (if o_persist out then Some (bs_s (the (o_state out)), bs_w (the (o_state out)), o_ttlMs out) else None) \<and>
            token_peek_lua time argv windowMs L (budget_hash st) = o_result (peekTransform L windowMs st (lua_now argv time))"
proof -
  let ?now = "lua_now argv time"
  obtain s ws where sw: "rolled windowMs st ?now = (s, ws)" by (cases "rolled windowMs st ?now")
  have I: "s \<in> \<int>" "ws \<in> \<int>" using sw assms by (auto simp: rolled_def split: option.splits if_splits)
  have read: "(case budget_hash st of
               (Some s, Some w) \<Rightarrow> if ?now \<ge> w + windowMs then (0, js_floor (?now / windowMs) * windowMs) else (s, w)
             | _ \<Rightarrow> (0, js_floor (?now / windowMs) * windowMs)) = (s, ws)"
    using sw by (cases st) (auto simp: budget_hash_def rolled_def)
  have peek: "(case budget_hash st of (Some s, Some w) \<Rightarrow> if ?now \<ge> w + windowMs then 0 else s | _ \<Rightarrow> 0) = s"
    using sw by (cases st) (auto simp: budget_hash_def rolled_def split: if_splits)
  have "decodeDecision (redis_reply (fst (token_budget_lua time argv windowMs L tokens (budget_hash st)))) = o_result (debitTransform L windowMs st ?now tokens)"
    "snd (token_budget_lua time argv windowMs L tokens (budget_hash st)) = (if o_persist (debitTransform L windowMs st ?now tokens)
       then Some (bs_s (the (o_state (debitTransform L windowMs st ?now tokens))), bs_w (the (o_state (debitTransform L windowMs st ?now tokens))),
         o_ttlMs (debitTransform L windowMs st ?now tokens)) else None)"
    unfolding token_budget_lua_def debitTransform_def read sw Let_def prod.case
    using assms I by (auto simp: decodeDecision_def redis_reply_def max_def)
  moreover have "token_peek_lua time argv windowMs L (budget_hash st) = o_result (peekTransform L windowMs st ?now)"
    unfolding token_peek_lua_def peek Let_def using assms I by (auto simp: peekTransform_def sw max_def)
  ultimately show ?thesis by (simp add: Let_def)
qed

theorem token_budget_lua_equiv_witness:
  "decodeDecision (redis_reply (fst (token_budget_lua (0, 0) 1500 1000 3 5 (budget_hash (Some \<lparr>bs_w = 1000, bs_s = 2\<rparr>)))))
     = o_result (debitTransform 3 1000 (Some \<lparr>bs_w = 1000, bs_s = 2\<rparr>) 1500 5)"
  using token_budget_lua_equiv[of 3 1000 5 1500 "(0, 0)" "Some \<lparr>bs_w = 1000, bs_s = 2\<rparr>"]
  by (simp add: lua_now_def Let_def)

end
