(* ===== verification/FluidLp.thy ===== *)
theory FluidLp
  imports Core
begin

text \<open>
  The fluid linear program behind the joint policy of unified admission, \<open>src/admission/fluid-lp.ts\<close>: bid prices
  for a rate and a cost budget, or a third budget of concurrency, by enumerating the vertices of the dual. The
  lemmas: a convex piecewise-linear function of one variable is least at an end or a kink, hence some enumerated
  vertex of the two-budget dual is optimal; weak duality; and the range of the admit plan.
\<close>

section \<open>Inputs\<close>

record workload_type =
  wt_cost :: js_number
  wt_value :: js_number
  wt_weight :: js_number
  wt_hold :: "js_number option"

record fluid_input =
  fi_types :: "workload_type list"
  fi_rateBudget :: js_number
  fi_costBudget :: js_number
  fi_concBudget :: "js_number option"

text \<open>A type once validated; \<open>lp_h\<close> is zero where there is no hold time.\<close>

record lp_type =
  lp_w :: num
  lp_v :: num
  lp_c :: num
  lp_h :: num

record fluid_solution =
  fs_rate :: num
  fs_cost :: num
  fs_conc :: "num option"
  fs_admitFractions :: "num list"
  fs_objective :: num

definition lp_field :: "js_number \<Rightarrow> num result" where
  "lp_field v = (case v of Num x \<Rightarrow> if x < 0 then Inl (ThrottleKitError ''solveFluidLp'') else Inr x | _ \<Rightarrow> Inl (ThrottleKitError ''solveFluidLp''))"

definition lp_budget :: "js_number \<Rightarrow> num result" where
  "lp_budget v = (case v of Num x \<Rightarrow> if x \<le> 0 then Inl (ThrottleKitError ''solveFluidLp'') else Inr x | _ \<Rightarrow> Inl (ThrottleKitError ''solveFluidLp''))"

fun lp_types :: "workload_type list \<Rightarrow> lp_type list result" where
  "lp_types [] = Inr []"
| "lp_types (t # ts) =
     rbind (lp_field (wt_cost t)) (\<lambda>c.
     rbind (lp_field (wt_value t)) (\<lambda>v.
     rbind (lp_field (wt_weight t)) (\<lambda>w.
     rbind (lp_types ts) (\<lambda>us. Inr (\<lparr>lp_w = w, lp_v = v, lp_c = c, lp_h = 0\<rparr> # us)))))"

fun lp_holds :: "workload_type list \<Rightarrow> lp_type list \<Rightarrow> lp_type list result" where
  "lp_holds (t # ts) (u # us) =
     rbind (case wt_hold t of Some h \<Rightarrow> lp_field h | None \<Rightarrow> Inl (ThrottleKitError ''solveFluidLp'')) (\<lambda>h.
     rbind (lp_holds ts us) (\<lambda>vs. Inr (u\<lparr>lp_h := h\<rparr> # vs)))"
| "lp_holds _ _ = Inr []"

definition lp_validate :: "fluid_input \<Rightarrow> (lp_type list \<times> num \<times> num \<times> num option) result" where
  "lp_validate inp =
     (if fi_types inp = [] then Inl (ThrottleKitError ''solveFluidLp'')
      else
        rbind (lp_types (fi_types inp)) (\<lambda>ts.
        rbind (lp_budget (fi_rateBudget inp)) (\<lambda>R.
        rbind (lp_budget (fi_costBudget inp)) (\<lambda>C.
        if (fi_concBudget inp \<noteq> None) \<noteq> (\<exists>t\<in>set (fi_types inp). wt_hold t \<noteq> None) then Inl (ThrottleKitError ''solveFluidLp'')
        else
          (case fi_concBudget inp of
             None \<Rightarrow> Inr (ts, R, C, None)
           | Some k \<Rightarrow> rbind (lp_budget k) (\<lambda>K. rbind (lp_holds (fi_types inp) ts) (\<lambda>us. Inr (us, R, C, Some K))))))))"

section \<open>The dual of two budgets\<close>

definition EPS :: num where "EPS = 1 / 1000000000"

definition RED_TOL :: num where "RED_TOL = 1 / 10000000"

definition reduced :: "num \<Rightarrow> num \<Rightarrow> lp_type \<Rightarrow> num" where
  "reduced pR pC t = lp_v t - pR - pC * lp_c t"

definition dualObjective :: "num \<Rightarrow> num \<Rightarrow> lp_type list \<Rightarrow> num \<Rightarrow> num \<Rightarrow> num" where
  "dualObjective R C ts pR pC = R * pR + C * pC + (\<Sum>t\<leftarrow>ts. lp_w t * max 0 (reduced pR pC t))"

fun bid_intersections :: "lp_type list \<Rightarrow> (num \<times> num) list" where
  "bid_intersections [] = []"
| "bid_intersections (t # ts) =
     concat (map (\<lambda>u. let dc = lp_c u - lp_c t
                      in if \<bar>dc\<bar> \<le> EPS then []
                         else (let pC = (lp_v u - lp_v t) / dc in [(lp_v t - pC * lp_c t, pC)])) ts)
     @ bid_intersections ts"

definition dual_candidates :: "lp_type list \<Rightarrow> (num \<times> num) list" where
  "dual_candidates ts =
     (0, 0) # concat (map (\<lambda>t. (lp_v t, 0) # (if lp_c t > EPS then [(0, lp_v t / lp_c t)] else [])) ts) @ bid_intersections ts"

definition dual_feasible :: "num \<Rightarrow> num \<Rightarrow> lp_type list \<Rightarrow> (num \<times> num \<times> num) list" where
  "dual_feasible R C ts =
     map (\<lambda>(a, b). (max 0 a, max 0 b, dualObjective R C ts (max 0 a) (max 0 b)))
       (filter (\<lambda>(a, b). \<not> (a < - EPS \<or> b < - EPS)) (dual_candidates ts))"

text \<open>The running minimum; \<open>None\<close> is \<open>Infinity\<close>.\<close>

definition least_dual :: "num option \<Rightarrow> num list \<Rightarrow> num option" where
  "least_dual = foldl (\<lambda>m d. case m of None \<Rightarrow> Some d | Some m' \<Rightarrow> if d < m' then Some d else m)"

definition more_selective :: "num \<times> num \<times> num \<Rightarrow> num \<times> num \<times> num \<Rightarrow> bool" where
  "more_selective s b =
     (case (s, b) of ((s0, s1, s2), (b0, b1, b2)) \<Rightarrow>
        s0 > b0 \<or> (s0 = b0 \<and> s1 > b1 + EPS) \<or> (s0 = b0 \<and> \<bar>s1 - b1\<bar> \<le> EPS \<and> s2 > b2))"

definition dual_best :: "lp_type list \<Rightarrow> num \<Rightarrow> (num \<times> num \<times> num) list \<Rightarrow> num \<times> num" where
  "dual_best ts minD feasible =
     fst (foldl (\<lambda>(best, bestScore) (pR, pC, d).
            if d > minD + RED_TOL then (best, bestScore)
            else
              (let score = (real (length (filter (\<lambda>t. reduced pR pC t < - RED_TOL) ts)), pC, pR)
               in if more_selective score bestScore then ((pR, pC), score) else (best, bestScore)))
          ((0, 0), (-1, -1, -1)) feasible)"

section \<open>The admit plan of two budgets\<close>

definition unit_clamp :: "num \<Rightarrow> num" where
  "unit_clamp x = max 0 (min 1 x)"

fun fill_rate :: "lp_type list \<Rightarrow> num \<Rightarrow> nat list \<Rightarrow> num \<Rightarrow> num list \<Rightarrow> num list" where
  "fill_rate ts remR [] r x = x"
| "fill_rate ts remR (i # is') r x =
     (let need = lp_w (ts ! i)
      in if need \<le> EPS then fill_rate ts remR is' r (x[i := 1])
         else if r + need \<le> remR + EPS then fill_rate ts remR is' (r + need) (x[i := 1])
         else fill_rate ts remR is' remR (x[i := unit_clamp ((remR - r) / need)]))"

fun fill_cost :: "lp_type list \<Rightarrow> num \<Rightarrow> nat list \<Rightarrow> num \<Rightarrow> num list \<Rightarrow> num list" where
  "fill_cost ts remC [] k x = x"
| "fill_cost ts remC (i # is') k x =
     (let need = lp_w (ts ! i) * lp_c (ts ! i)
      in if need \<le> EPS then fill_cost ts remC is' k x
         else if k + need \<le> remC + EPS then fill_cost ts remC is' (k + need) (x[i := 1])
         else fill_cost ts remC is' remC (x[i := unit_clamp ((remC - k) / need)]))"

text \<open>The pairs of positions \<open>ai < bi\<close> of the marginal set, in the order of the two loops.\<close>

definition position_pairs :: "nat \<Rightarrow> (nat \<times> nat) list" where
  "position_pairs m = concat (map (\<lambda>a. map (Pair a) [Suc a..<m]) [0..<m])"

definition both_tight_try :: "lp_type list \<Rightarrow> nat list \<Rightarrow> num \<Rightarrow> num \<Rightarrow> nat \<times> nat \<Rightarrow> nat \<Rightarrow> (nat \<times> num) list option" where
  "both_tight_try ts M remR remC ab combo =
     (let a = M ! fst ab; b = M ! snd ab;
          wa = lp_w (ts ! a); wb = lp_w (ts ! b); ca = lp_c (ts ! a); cb = lp_c (ts ! b);
          det = wa * (wb * cb) - wb * (wa * ca)
      in if \<bar>det\<bar> \<le> EPS then None
         else
           (let others = map ((!) M) (filter (\<lambda>i. i \<noteq> fst ab \<and> i \<noteq> snd ab) [0..<length M]);
                bit = (\<lambda>i. if odd (combo div 2 ^ i) then 1 else 0);
                fr = (\<Sum>i\<leftarrow>[0..<length others]. bit i * lp_w (ts ! (others ! i)));
                fc = (\<Sum>i\<leftarrow>[0..<length others]. bit i * (lp_w (ts ! (others ! i)) * lp_c (ts ! (others ! i))));
                b1 = remR - fr; b2 = remC - fc;
                xa = (b1 * (wb * cb) - wb * b2) / det;
                xb = (wa * b2 - b1 * (wa * ca)) / det
            in if xa \<ge> - EPS \<and> xa \<le> 1 + EPS \<and> xb \<ge> - EPS \<and> xb \<le> 1 + EPS
               then Some ((a, unit_clamp xa) # (b, unit_clamp xb) # map (\<lambda>i. (others ! i, bit i)) [0..<length others])
               else None))"

definition assign :: "(nat \<times> num) list \<Rightarrow> num list \<Rightarrow> num list" where
  "assign ps x = foldl (\<lambda>x (i, v). x[i := v]) x ps"

definition fillBothTight :: "lp_type list \<Rightarrow> nat list \<Rightarrow> num \<Rightarrow> num \<Rightarrow> num list \<Rightarrow> num list" where
  "fillBothTight ts M remR remC x =
     (let m = length M;
          combos = (if m \<le> 12 then 2 ^ (m - 2) else 1);
          tries = concat (map (\<lambda>ab. map (both_tight_try ts M remR remC ab) [0..<combos]) (position_pairs m))
      in case find (\<lambda>t. t \<noteq> None) tries of
           Some (Some ps) \<Rightarrow> assign ps x
         | _ \<Rightarrow> assign (map (\<lambda>i. (i, 1)) M) x)"

definition fillMarginal :: "lp_type list \<Rightarrow> nat list \<Rightarrow> num \<Rightarrow> num \<Rightarrow> bool \<Rightarrow> bool \<Rightarrow> num list \<Rightarrow> num list" where
  "fillMarginal ts M remR remC rateTight costTight x =
     (if M = [] then x
      else if \<not> rateTight \<and> \<not> costTight then x
      else if rateTight \<and> \<not> costTight then fill_rate ts remR (sort_key (\<lambda>i. lp_c (ts ! i)) M) 0 x
      else if costTight \<and> \<not> rateTight then fill_cost ts remC (sort_key (\<lambda>i. - lp_c (ts ! i)) M) 0 x
      else fillBothTight ts M remR remC x)"

definition marginal_of :: "(lp_type \<Rightarrow> num) \<Rightarrow> lp_type list \<Rightarrow> nat list" where
  "marginal_of red ts = filter (\<lambda>i. \<not> red (ts ! i) > RED_TOL \<and> red (ts ! i) \<ge> - RED_TOL) [0..<length ts]"

definition solve_two :: "lp_type list \<Rightarrow> num \<Rightarrow> num \<Rightarrow> fluid_solution" where
  "solve_two ts R C =
     (let feasible = dual_feasible R C ts;
          minD = the (least_dual None (map (\<lambda>(pR, pC, d). d) feasible));
          (pR, pC) = dual_best ts minD feasible;
          red = reduced pR pC;
          x = map (\<lambda>t. if red t > RED_TOL then 1 else 0) ts;
          forcedRate = (\<Sum>t\<leftarrow>filter (\<lambda>t. red t > RED_TOL) ts. lp_w t);
          forcedCost = (\<Sum>t\<leftarrow>filter (\<lambda>t. red t > RED_TOL) ts. lp_w t * lp_c t);
          x1 = fillMarginal ts (marginal_of red ts) (max 0 (R - forcedRate)) (max 0 (C - forcedCost)) (pR > RED_TOL) (pC > RED_TOL) x
      in \<lparr>fs_rate = pR, fs_cost = pC, fs_conc = None, fs_admitFractions = x1,
          fs_objective = (\<Sum>(t, f)\<leftarrow>zip ts x1. lp_w t * lp_v t * f)\<rparr>)"

section \<open>Three budgets\<close>

type_synonym row3 = "num \<times> num \<times> num"

definition det3 :: "row3 \<Rightarrow> row3 \<Rightarrow> row3 \<Rightarrow> num" where
  "det3 r0 r1 r2 =
     (case (r0, r1, r2) of ((a, b, c), (d, e, f), (g, h, i)) \<Rightarrow>
        a * (e * i - f * h) - b * (d * i - f * g) + c * (d * h - e * g))"

definition with_col :: "nat \<Rightarrow> num \<Rightarrow> row3 \<Rightarrow> row3" where
  "with_col j v r = (case r of (a, b, c) \<Rightarrow> (if j = 0 then v else a, if j = 1 then v else b, if j = 2 then v else c))"

definition solve3x3 :: "row3 \<times> num \<Rightarrow> row3 \<times> num \<Rightarrow> row3 \<times> num \<Rightarrow> row3 option" where
  "solve3x3 p q r =
     (let D = det3 (fst p) (fst q) (fst r);
          col = (\<lambda>j. det3 (with_col j (snd p) (fst p)) (with_col j (snd q) (fst q)) (with_col j (snd r) (fst r)))
      in if \<bar>D\<bar> < 1 / 1000000000000 then None else Some (col 0 / D, col 1 / D, col 2 / D))"

definition reduced3 :: "num \<Rightarrow> num \<Rightarrow> num \<Rightarrow> lp_type \<Rightarrow> num" where
  "reduced3 pR pC pK t = lp_v t - pR - pC * lp_c t - pK * lp_h t"

definition dualObjective3 :: "num \<Rightarrow> num \<Rightarrow> num \<Rightarrow> lp_type list \<Rightarrow> num \<Rightarrow> num \<Rightarrow> num \<Rightarrow> num" where
  "dualObjective3 R C K ts pR pC pK = R * pR + C * pC + K * pK + (\<Sum>t\<leftarrow>ts. lp_w t * max 0 (reduced3 pR pC pK t))"

definition lp_planes :: "lp_type list \<Rightarrow> (row3 \<times> num) list" where
  "lp_planes ts = [((1, 0, 0), 0), ((0, 1, 0), 0), ((0, 0, 1), 0)] @ map (\<lambda>t. ((1, lp_c t, lp_h t), lp_v t)) ts"

definition plane_triples :: "nat \<Rightarrow> (nat \<times> nat \<times> nat) list" where
  "plane_triples n = concat (map (\<lambda>i. concat (map (\<lambda>j. map (\<lambda>k. (i, j, k)) [Suc j..<n]) [Suc i..<n])) [0..<n])"

definition dual_feasible3 :: "num \<Rightarrow> num \<Rightarrow> num \<Rightarrow> lp_type list \<Rightarrow> (row3 \<times> num) list" where
  "dual_feasible3 R C K ts =
     ((0, 0, 0), dualObjective3 R C K ts 0 0 0) #
     concat (map (\<lambda>(i, j, k).
       let ps = lp_planes ts
       in case solve3x3 (ps ! i) (ps ! j) (ps ! k) of
            None \<Rightarrow> []
          | Some (a, b, c) \<Rightarrow>
              if a < - EPS \<or> b < - EPS \<or> c < - EPS then []
              else [((max 0 a, max 0 b, max 0 c), dualObjective3 R C K ts (max 0 a) (max 0 b) (max 0 c))])
       (plane_triples (length (lp_planes ts))))"

fun lexGreater :: "num list \<Rightarrow> num list \<Rightarrow> bool" where
  "lexGreater (a # as) (b # bs) = (if a > b + EPS then True else if a < b - EPS then False else lexGreater as bs)"
| "lexGreater _ _ = False"

definition dual_best3 :: "lp_type list \<Rightarrow> num \<Rightarrow> (row3 \<times> num) list \<Rightarrow> row3" where
  "dual_best3 ts minD feasible =
     fst (foldl (\<lambda>(best, bestScore) (p, d).
            if d > minD + RED_TOL then (best, bestScore)
            else
              (case p of (pR, pC, pK) \<Rightarrow>
                 let score = [real (length (filter (\<lambda>t. reduced3 pR pC pK t < - RED_TOL) ts)), pK, pC, pR]
                 in if lexGreater score bestScore then (p, score) else (best, bestScore)))
          ((0, 0, 0), [-1, -1, -1, -1]) feasible)"

fun fill_three :: "lp_type list \<Rightarrow> nat list \<Rightarrow> num \<Rightarrow> num \<Rightarrow> num \<Rightarrow> num list \<Rightarrow> num list" where
  "fill_three ts [] remR remC remK x = x"
| "fill_three ts (i # is') remR remC remK x =
     (let t = ts ! i;
          w = lp_w t;
          f0 = (1 :: num);
          f1 = (if w > 0 then min f0 (max 0 remR / w) else f0);
          f2 = (if w * lp_c t > 0 then min f1 (max 0 remC / (w * lp_c t)) else f1);
          f3 = (if w * lp_h t > 0 then min f2 (max 0 remK / (w * lp_h t)) else f2);
          frac = unit_clamp f3
      in fill_three ts is' (remR - frac * w) (remC - frac * w * lp_c t) (remK - frac * w * lp_h t) (x[i := frac]))"

definition solveThreeBudget :: "lp_type list \<Rightarrow> num \<Rightarrow> num \<Rightarrow> num \<Rightarrow> fluid_solution" where
  "solveThreeBudget ts R C K =
     (let feasible = dual_feasible3 R C K ts;
          minD = foldl (\<lambda>m d. if d < m then d else m) (dualObjective3 R C K ts 0 0 0) (map snd feasible);
          (pR, pC, pK) = dual_best3 ts minD feasible;
          red = reduced3 pR pC pK;
          x = map (\<lambda>t. if red t > RED_TOL then 1 else (0 :: num)) ts;
          remR = R - (\<Sum>(t, f)\<leftarrow>zip ts x. f * lp_w t);
          remC = C - (\<Sum>(t, f)\<leftarrow>zip ts x. f * lp_w t * lp_c t);
          remK = K - (\<Sum>(t, f)\<leftarrow>zip ts x. f * lp_w t * lp_h t);
          x1 = (if pR > RED_TOL \<or> pC > RED_TOL \<or> pK > RED_TOL
                then fill_three ts (marginal_of red ts) remR remC remK x else x)
      in \<lparr>fs_rate = pR, fs_cost = pC, fs_conc = Some pK, fs_admitFractions = x1, fs_objective = minD\<rparr>)"

definition solveFluidLp :: "fluid_input \<Rightarrow> fluid_solution result" where
  "solveFluidLp inp =
     rbind (lp_validate inp) (\<lambda>(ts, R, C, conc).
     case conc of
       None \<Rightarrow> Inr (solve_two ts R C)
     | Some K \<Rightarrow> Inr (solveThreeBudget ts R C K))"

section \<open>Piecewise-linear functions of one variable\<close>

definition affine_on :: "num \<Rightarrow> num \<Rightarrow> (num \<Rightarrow> num) \<Rightarrow> bool" where
  "affine_on l u f \<longleftrightarrow> (\<exists>A B. \<forall>x. l \<le> x \<and> x \<le> u \<longrightarrow> f x = A * x + B)"

lemma affine_on_add: "affine_on l u f \<Longrightarrow> affine_on l u g \<Longrightarrow> affine_on l u (\<lambda>x. f x + g x)"
proof -
  assume "affine_on l u f" "affine_on l u g"
  then obtain A B A' B' where "\<forall>x. l \<le> x \<and> x \<le> u \<longrightarrow> f x = A * x + B" "\<forall>x. l \<le> x \<and> x \<le> u \<longrightarrow> g x = A' * x + B'"
    unfolding affine_on_def by metis
  then have "\<forall>x. l \<le> x \<and> x \<le> u \<longrightarrow> f x + g x = (A + A') * x + (B + B')" by (simp add: algebra_simps)
  then show ?thesis unfolding affine_on_def by blast
qed

lemma affine_on_scale: "affine_on l u f \<Longrightarrow> affine_on l u (\<lambda>x. w * f x)"
  unfolding affine_on_def by (metis distrib_left mult.assoc)

lemma affine_on_linear: "affine_on l u (\<lambda>x. a * x + b)"
  unfolding affine_on_def by blast

lemma affine_on_sum: "(\<And>t. t \<in> set ts \<Longrightarrow> affine_on l u (f t)) \<Longrightarrow> affine_on l u (\<lambda>x. \<Sum>t\<leftarrow>ts. f t x)"
proof (induction ts)
  case Nil
  show ?case using affine_on_linear[of l u 0 0] by simp
qed (simp add: affine_on_add)

lemma affine_on_end:
  assumes "affine_on l u f" "l \<le> t" "t \<le> u"
  shows "f l \<le> f t \<or> f u \<le> f t"
proof -
  obtain A B where f: "\<forall>x. l \<le> x \<and> x \<le> u \<longrightarrow> f x = A * x + B" using assms(1) by (auto simp: affine_on_def)
  have "A * l \<le> A * t \<or> A * u \<le> A * t" using assms(2,3) by (cases "0 \<le> A") (auto intro: mult_left_mono mult_left_mono_neg)
  then show ?thesis using f assms(2,3) by auto
qed

text \<open>A kink is weight, offset and slope; the function adds a line.\<close>

definition pwl :: "num \<Rightarrow> num \<Rightarrow> (num \<times> num \<times> num) list \<Rightarrow> num \<Rightarrow> num" where
  "pwl a b ks x = a * x + b + (\<Sum>(w, \<beta>, \<gamma>)\<leftarrow>ks. w * max 0 (\<beta> + \<gamma> * x))"

definition root_of :: "(num \<times> num \<times> num) list \<Rightarrow> num \<Rightarrow> bool" where
  "root_of ks s \<longleftrightarrow> (\<exists>(w, \<beta>, \<gamma>)\<in>set ks. \<gamma> \<noteq> 0 \<and> \<beta> + \<gamma> * s = 0)"

lemma max_affine:
  assumes "\<And>s. l < s \<Longrightarrow> s < u \<Longrightarrow> \<gamma> \<noteq> 0 \<Longrightarrow> \<beta> + \<gamma> * s \<noteq> 0"
  shows "affine_on l u (\<lambda>x. max 0 (\<beta> + \<gamma> * x))"
proof -
  consider "\<forall>x. l \<le> x \<and> x \<le> u \<longrightarrow> 0 \<le> \<beta> + \<gamma> * x" | "\<forall>x. l \<le> x \<and> x \<le> u \<longrightarrow> \<beta> + \<gamma> * x \<le> 0"
    | x y where "l \<le> x" "x \<le> u" "\<beta> + \<gamma> * x < 0" "l \<le> y" "y \<le> u" "0 < \<beta> + \<gamma> * y" by (meson not_le)
  then show ?thesis
  proof cases
    case 1
    then have "\<forall>x. l \<le> x \<and> x \<le> u \<longrightarrow> max 0 (\<beta> + \<gamma> * x) = \<gamma> * x + \<beta>" by auto
    then show ?thesis unfolding affine_on_def by blast
  next
    case 2
    then have "\<forall>x. l \<le> x \<and> x \<le> u \<longrightarrow> max 0 (\<beta> + \<gamma> * x) = 0 * x + 0" by (auto simp: max_def)
    then show ?thesis unfolding affine_on_def by blast
  next
    case 3
    have g: "\<gamma> \<noteq> 0" using 3(3,6) by (cases "\<gamma> = 0") auto
    define s where "s = - \<beta> / \<gamma>"
    have s: "\<beta> + \<gamma> * s = 0" using g by (simp add: s_def)
    have "\<gamma> * x < \<gamma> * s" "\<gamma> * s < \<gamma> * y" using 3(3,6) s by linarith+
    then have "(x < s \<and> s < y) \<or> (y < s \<and> s < x)" by (auto simp: mult_less_cancel_left)
    then show ?thesis using assms[of s] g s 3 by auto
  qed
qed

lemma pwl_affine:
  assumes "\<And>s. l < s \<Longrightarrow> s < u \<Longrightarrow> \<not> root_of ks s"
  shows "affine_on l u (pwl a b ks)"
proof -
  have "affine_on l u (\<lambda>x. \<Sum>k\<leftarrow>ks. (case k of (w, \<beta>, \<gamma>) \<Rightarrow> w * max 0 (\<beta> + \<gamma> * x)))"
    using assms by (intro affine_on_sum) (force simp: root_of_def intro!: affine_on_scale max_affine)
  then show ?thesis unfolding pwl_def by (intro affine_on_add affine_on_linear)
qed

lemma finite_roots: "finite {s. root_of ks s}"
proof -
  have "{s. root_of ks s} \<subseteq> (\<lambda>(w, \<beta>, \<gamma>). - \<beta> / \<gamma>) ` set ks"
    by (force simp: root_of_def image_iff field_simps eq_neg_iff_add_eq_0)
  then show ?thesis using finite_surj by blast
qed

text \<open>On an interval the least value is at an end or a root of a kink.\<close>

lemma pwl_interval:
  assumes "lo \<le> t" "t \<le> hi"
  shows "\<exists>s. lo \<le> s \<and> s \<le> hi \<and> (s = lo \<or> s = hi \<or> root_of ks s) \<and> pwl a b ks s \<le> pwl a b ks t"
proof -
  define P where "P = insert lo (insert hi {s. root_of ks s \<and> lo \<le> s \<and> s \<le> hi})"
  have P: "finite P" unfolding P_def using finite_subset[OF _ finite_roots[of ks], of "{s. root_of ks s \<and> lo \<le> s \<and> s \<le> hi}"] by auto
  have lo: "lo \<in> {s\<in>P. s \<le> t}" "finite {s\<in>P. s \<le> t}" and hi: "hi \<in> {s\<in>P. t \<le> s}" "finite {s\<in>P. t \<le> s}"
    using P assms by (auto simp: P_def)
  define l where "l = Max {s\<in>P. s \<le> t}"
  define u where "u = Min {s\<in>P. t \<le> s}"
  have "l \<in> {s\<in>P. s \<le> t}" unfolding l_def by (rule Max_in[OF lo(2)]) (use lo(1) in blast)
  moreover have "u \<in> {s\<in>P. t \<le> s}" unfolding u_def by (rule Min_in[OF hi(2)]) (use hi(1) in blast)
  ultimately have l: "l \<in> P" "l \<le> t" and u: "u \<in> P" "t \<le> u" by simp_all
  have l3: "s \<le> l" if "s \<in> P" "s \<le> t" for s unfolding l_def using that lo(2) by (intro Max_ge) simp_all
  have u3: "u \<le> s" if "s \<in> P" "t \<le> s" for s unfolding u_def using that hi(2) by (intro Min_le) simp_all
  have "affine_on l u (pwl a b ks)"
  proof (rule pwl_affine)
    fix s assume s: "l < s" "s < u"
    have "lo \<le> l" "u \<le> hi" using l(1) u(1) assms by (auto simp: P_def)
    then have "s \<in> P" if "root_of ks s" using that s by (auto simp: P_def)
    then show "\<not> root_of ks s" using l3[of s] u3[of s] s by force
  qed
  then have "pwl a b ks l \<le> pwl a b ks t \<or> pwl a b ks u \<le> pwl a b ks t" by (rule affine_on_end[OF _ l(2) u(2)])
  moreover have "lo \<le> l \<and> l \<le> hi \<and> (l = lo \<or> l = hi \<or> root_of ks l)" "lo \<le> u \<and> u \<le> hi \<and> (u = lo \<or> u = hi \<or> root_of ks u)"
    using l(1) u(1) assms by (auto simp: P_def)
  ultimately show ?thesis by blast
qed

text \<open>With no negative slope of the line and no rising kink, the same holds on a half-line.\<close>

lemma pwl_halfline:
  assumes "lo \<le> t" "0 \<le> a" "\<forall>(w, \<beta>, \<gamma>)\<in>set ks. \<gamma> \<le> 0"
  shows "\<exists>s\<ge>lo. (s = lo \<or> root_of ks s) \<and> pwl a b ks s \<le> pwl a b ks t"
proof -
  define P where "P = insert lo {s. root_of ks s \<and> lo \<le> s}"
  have P: "finite P" unfolding P_def using finite_subset[OF _ finite_roots[of ks], of "{s. root_of ks s \<and> lo \<le> s}"] by auto
  define m where "m = Max P"
  have m: "m \<in> P" "\<And>s. s \<in> P \<Longrightarrow> s \<le> m" using P Max_in[OF P] Max_ge[OF P] by (auto simp: m_def P_def)
  show ?thesis
  proof (cases "t \<le> m")
    case True
    then obtain s where "lo \<le> s" "s = lo \<or> s = m \<or> root_of ks s" "pwl a b ks s \<le> pwl a b ks t"
      using pwl_interval[OF assms(1) True, of ks a b] by blast
    then show ?thesis using m(1) by (auto simp: P_def)
  next
    case False
    have "w * max 0 (\<beta> + \<gamma> * m) = w * max 0 (\<beta> + \<gamma> * t)" if k: "(w, \<beta>, \<gamma>) \<in> set ks" for w \<beta> \<gamma>
    proof (cases "\<gamma> = 0")
      case g: False
      then have g: "\<gamma> < 0" using assms(3) k by force
      define s where "s = - \<beta> / \<gamma>"
      have s: "\<beta> + \<gamma> * s = 0" using g by (simp add: s_def)
      have "s \<le> m"
      proof (cases "lo \<le> s")
        case True
        then have "s \<in> P" using k s g by (force simp: P_def root_of_def)
        then show ?thesis by (rule m(2))
      next
        case False
        then show ?thesis using m(1) by (auto simp: P_def)
      qed
      then have "\<gamma> * m \<le> \<gamma> * s" "\<gamma> * t \<le> \<gamma> * s" using g False by (auto intro: mult_left_mono_neg)
      then have "\<beta> + \<gamma> * m \<le> 0" "\<beta> + \<gamma> * t \<le> 0" using s by linarith+
      then show ?thesis by (simp add: max_absorb1)
    qed simp
    then have "(\<Sum>(w, \<beta>, \<gamma>)\<leftarrow>ks. w * max 0 (\<beta> + \<gamma> * m)) = (\<Sum>(w, \<beta>, \<gamma>)\<leftarrow>ks. w * max 0 (\<beta> + \<gamma> * t))"
      by (intro arg_cong[where f = sum_list] map_cong) auto
    moreover have "a * m \<le> a * t" using False assms(2) by (intro mult_left_mono) auto
    ultimately have "pwl a b ks m \<le> pwl a b ks t" by (simp add: pwl_def)
    then show ?thesis using m(1) by (auto simp: P_def)
  qed
qed

section \<open>The enumeration finds an optimum\<close>

text \<open>Costs are zero or told apart from zero and from each other by the tolerance.\<close>

definition separated :: "lp_type list \<Rightarrow> bool" where
  "separated ts \<longleftrightarrow> (\<forall>t\<in>set ts. 0 \<le> lp_v t \<and> 0 \<le> lp_w t \<and> (lp_c t = 0 \<or> EPS < lp_c t)) \<and>
     (\<forall>t\<in>set ts. \<forall>u\<in>set ts. lp_c t = lp_c u \<or> EPS < \<bar>lp_c t - lp_c u\<bar>)"

lemma candidate_origin: "(0, 0) \<in> set (dual_candidates ts)"
  by (simp add: dual_candidates_def)

lemma candidate_rate: "t \<in> set ts \<Longrightarrow> (lp_v t, 0) \<in> set (dual_candidates ts)"
  by (auto simp: dual_candidates_def)

lemma candidate_cost: "t \<in> set ts \<Longrightarrow> EPS < lp_c t \<Longrightarrow> (0, lp_v t / lp_c t) \<in> set (dual_candidates ts)"
  by (auto simp: dual_candidates_def intro!: bexI[of _ t])

text \<open>The intersection of two bid lines, from either of them.\<close>

definition crossing :: "lp_type \<Rightarrow> lp_type \<Rightarrow> num \<times> num" where
  "crossing t u = (let pC = (lp_v u - lp_v t) / (lp_c u - lp_c t) in (lp_v t - pC * lp_c t, pC))"

lemma crossing_symmetric:
  assumes "lp_c u \<noteq> lp_c t"
  shows "crossing u t = crossing t u"
proof -
  define q where "q = (lp_v u - lp_v t) / (lp_c u - lp_c t)"
  have "(lp_v t - lp_v u) / (lp_c t - lp_c u) = q" unfolding q_def by (metis minus_diff_eq minus_divide_divide)
  moreover have "q * (lp_c u - lp_c t) = lp_v u - lp_v t" using assms by (simp add: q_def)
  then have "lp_v u - q * lp_c u = lp_v t - q * lp_c t" by (simp add: right_diff_distrib)
  ultimately show ?thesis by (simp add: crossing_def Let_def q_def[symmetric])
qed

lemma bid_intersections_Cons:
  "set (bid_intersections (t # ts)) = {crossing t u | u. u \<in> set ts \<and> EPS < \<bar>lp_c u - lp_c t\<bar>} \<union> set (bid_intersections ts)"
  by (auto simp: crossing_def Let_def not_le split: if_splits)

lemma bid_intersection:
  "t \<in> set ts \<Longrightarrow> u \<in> set ts \<Longrightarrow> EPS < \<bar>lp_c u - lp_c t\<bar> \<Longrightarrow> crossing t u \<in> set (bid_intersections ts)"
proof (induction ts)
  case (Cons s ts)
  have ne: "lp_c u \<noteq> lp_c t" using Cons.prems(3) by (auto simp: EPS_def)
  consider "t = s" "u = s" | "t = s" "u \<in> set ts" | "t \<in> set ts" "u = s" | "t \<in> set ts" "u \<in> set ts" using Cons.prems by auto
  then show ?case
  proof cases
    case 3
    have "EPS < \<bar>lp_c t - lp_c s\<bar>" using Cons.prems(3) 3 by (simp add: abs_minus_commute)
    then have "crossing s t \<in> set (bid_intersections (s # ts))" unfolding bid_intersections_Cons using 3 by blast
    then show ?thesis using crossing_symmetric[OF ne] 3 by metis
  qed (use Cons ne in \<open>auto simp: bid_intersections_Cons simp del: bid_intersections.simps\<close>)
qed simp

text \<open>The dual along a line of the plane, as a function of one variable.\<close>

lemma dual_along:
  assumes "\<And>x. pR x = r0 + r1 * x" "\<And>x. pC x = c0 + c1 * x"
  shows "dualObjective R C ts (pR x) (pC x)
    = pwl (R * r1 + C * c1) (R * r0 + C * c0) (map (\<lambda>t. (lp_w t, lp_v t - r0 - c0 * lp_c t, - r1 - c1 * lp_c t)) ts) x"
  by (simp add: dualObjective_def pwl_def reduced_def assms comp_def algebra_simps)

lemma root_along:
  "root_of (map (\<lambda>t. (lp_w t, lp_v t - r0 - c0 * lp_c t, - r1 - c1 * lp_c t)) ts) s \<longleftrightarrow>
   (\<exists>t\<in>set ts. r1 + c1 * lp_c t \<noteq> 0 \<and> lp_v t = (r0 + r1 * s) + (c0 + c1 * s) * lp_c t)"
  unfolding root_of_def by (auto simp: algebra_simps add_eq_0_iff2) (metis add.commute add_eq_0_iff2 neg_eq_iff_add_eq_0)+

lemma dual_vertex:
  assumes sep: "separated ts" and p: "0 \<le> pR" "0 \<le> pC" and RC: "0 \<le> R" "0 \<le> C"
  shows "\<exists>(a, b)\<in>set (dual_candidates ts). 0 \<le> a \<and> 0 \<le> b \<and> dualObjective R C ts a b \<le> dualObjective R C ts pR pC"
proof -
  let ?D = "dualObjective R C ts"
  have found: ?thesis if "(a, b) \<in> set (dual_candidates ts)" "0 \<le> a" "0 \<le> b" "?D a b \<le> ?D pR pC" for a b
    using that by blast
  obtain s where s: "0 \<le> s" "?D s pC \<le> ?D pR pC" "s = 0 \<or> (\<exists>t\<in>set ts. lp_v t = s + pC * lp_c t)"
    using pwl_halfline[OF p(1), of "R * 1 + C * 0" "map (\<lambda>t. (lp_w t, lp_v t - 0 - pC * lp_c t, - 1 - 0 * lp_c t)) ts" "R * 0 + C * pC"]
      dual_along[of "\<lambda>x. x" 0 1 "\<lambda>_. pC" pC 0 R C ts] RC root_along[of 0 pC 1 0 ts] by auto
  have axis: ?thesis if dq: "?D 0 q \<le> ?D pR pC" "0 \<le> q" for q
  proof -
    have "\<forall>(w, \<beta>, \<gamma>)\<in>set (map (\<lambda>t. (lp_w t, lp_v t - 0 - 0 * lp_c t, - 0 - 1 * lp_c t)) ts). \<gamma> \<le> 0"
      using sep by (force simp: separated_def EPS_def)
    then obtain x where x: "0 \<le> x" "?D 0 x \<le> ?D 0 q" "x = 0 \<or> (\<exists>t\<in>set ts. lp_c t \<noteq> 0 \<and> lp_v t = x * lp_c t)"
      using pwl_halfline[OF dq(2), of "R * 0 + C * 1" "map (\<lambda>t. (lp_w t, lp_v t - 0 - 0 * lp_c t, - 0 - 1 * lp_c t)) ts" "R * 0 + C * 0"]
        dual_along[of "\<lambda>_. 0" 0 0 "\<lambda>x. x" 0 1 R C ts] RC root_along[of 0 0 0 1 ts] by auto
    from x(3) show ?thesis
    proof
      assume "x = 0"
      then show ?thesis using found[OF candidate_origin] x(2) dq(1) by simp
    next
      assume "\<exists>t\<in>set ts. lp_c t \<noteq> 0 \<and> lp_v t = x * lp_c t"
      then obtain t where t: "t \<in> set ts" "lp_c t \<noteq> 0" "x = lp_v t / lp_c t" by auto
      have "EPS < lp_c t" using sep t by (auto simp: separated_def)
      from found[OF candidate_cost[OF t(1) this]] show ?thesis using x(1,2) dq(1) t(3) by simp
    qed
  qed
  from s(3) show ?thesis
  proof
    assume "s = 0"
    then show ?thesis using axis s(2) p(2) by blast
  next
    assume "\<exists>t\<in>set ts. lp_v t = s + pC * lp_c t"
    then obtain t where t: "t \<in> set ts" "lp_v t = s + pC * lp_c t" by blast
    define line where "line = (\<lambda>x. lp_v t + (- lp_c t) * x)"
    have start: "?D (line pC) pC \<le> ?D pR pC" using t(2) s(2) by (simp add: line_def mult.commute)
    have along: "?D (line x) x = pwl (R * (- lp_c t) + C * 1) (R * lp_v t + C * 0)
        (map (\<lambda>u. (lp_w u, lp_v u - lp_v t - 0 * lp_c u, - (- lp_c t) - 1 * lp_c u)) ts) x" for x
      by (rule dual_along) (simp_all add: line_def)
    have cross: ?thesis if x: "0 \<le> x" "0 \<le> line x" "?D (line x) x \<le> ?D (line pC) pC"
      and u: "u \<in> set ts" "lp_c u \<noteq> lp_c t" "lp_v u = line x + x * lp_c u" for x u
    proof -
      have "x * (lp_c u - lp_c t) = lp_v u - lp_v t" using u(3) by (simp add: line_def algebra_simps)
      then have xe: "x = (lp_v u - lp_v t) / (lp_c u - lp_c t)" using u(2) by (simp add: eq_divide_eq)
      have "EPS < \<bar>lp_c u - lp_c t\<bar>" using sep t(1) u(1,2) by (auto simp: separated_def)
      moreover have "crossing t u = (line x, x)" unfolding crossing_def Let_def xe[symmetric] by (simp add: line_def mult.commute)
      ultimately have "(line x, x) \<in> set (bid_intersections ts)" using bid_intersection[OF t(1) u(1)] by metis
      then have "(line x, x) \<in> set (dual_candidates ts)" by (simp add: dual_candidates_def)
      from found[OF this] show ?thesis using x start by simp
    qed
    have zero: ?thesis if "?D (line 0) 0 \<le> ?D (line pC) pC"
      using found[OF candidate_rate[OF t(1)]] that start sep t(1) by (simp add: line_def separated_def)
    have root: "\<exists>u\<in>set ts. lp_c u \<noteq> lp_c t \<and> lp_v u = line x + x * lp_c u"
      if "root_of (map (\<lambda>u. (lp_w u, lp_v u - lp_v t - 0 * lp_c u, - (- lp_c t) - 1 * lp_c u)) ts) x" for x
      using that unfolding root_along by (auto simp: line_def)
    show ?thesis
    proof (cases "lp_c t = 0")
      case True
      have "\<forall>(w, \<beta>, \<gamma>)\<in>set (map (\<lambda>u. (lp_w u, lp_v u - lp_v t - 0 * lp_c u, - (- lp_c t) - 1 * lp_c u)) ts). \<gamma> \<le> 0"
        using sep True by (force simp: separated_def EPS_def)
      from pwl_halfline[OF p(2) _ this, of "R * (- lp_c t) + C * 1" "R * lp_v t + C * 0"]
      obtain x where x: "0 \<le> x" "?D (line x) x \<le> ?D (line pC) pC" "x = 0 \<or> (\<exists>u\<in>set ts. lp_c u \<noteq> lp_c t \<and> lp_v u = line x + x * lp_c u)"
        using RC True root unfolding along[symmetric] by auto
      have "0 \<le> line x" using sep t(1) True by (simp add: line_def separated_def)
      then show ?thesis using x zero cross by blast
    next
      case False
      then have c: "EPS < lp_c t" "0 < lp_c t" using sep t(1) by (auto simp: separated_def EPS_def)
      have "pC \<le> lp_v t / lp_c t" using t(2) s(1) c(2) by (simp add: pos_le_divide_eq)
      from pwl_interval[OF p(2) this]
      obtain x where x: "0 \<le> x" "x \<le> lp_v t / lp_c t" "?D (line x) x \<le> ?D (line pC) pC"
          "x = 0 \<or> x = lp_v t / lp_c t \<or> (\<exists>u\<in>set ts. lp_c u \<noteq> lp_c t \<and> lp_v u = line x + x * lp_c u)"
        using root unfolding along by blast
      have nn: "0 \<le> line x" using x(2) c(2) by (simp add: line_def pos_le_divide_eq mult.commute)
      from x(4) show ?thesis
      proof (elim disjE bexE conjE)
        assume "x = lp_v t / lp_c t"
        moreover from this have "line x = 0" using c(2) by (simp add: line_def)
        ultimately show ?thesis using axis[of x] x(1,3) start by simp
      qed (use x zero cross[OF x(1) nn x(3)] in simp_all)
    qed
  qed
qed

section \<open>The chosen duals\<close>

lemma least_dual_spec:
  "least_dual m ds = Some d \<Longrightarrow> (\<forall>x\<in>set ds. d \<le> x) \<and> (\<forall>x. m = Some x \<longrightarrow> d \<le> x) \<and> (m = Some d \<or> d \<in> set ds)"
proof (induction ds arbitrary: m)
  case (Cons x ds)
  define m1 where "m1 = (case m of None \<Rightarrow> Some x | Some m' \<Rightarrow> if x < m' then Some x else m)"
  have "least_dual m1 ds = Some d" using Cons.prems by (simp add: least_dual_def m1_def)
  from Cons.IH[OF this] show ?case by (auto simp: m1_def split: option.splits if_splits)
qed (simp add: least_dual_def)

lemma least_dual_some: "m \<noteq> None \<or> ds \<noteq> [] \<Longrightarrow> \<exists>d. least_dual m ds = Some d"
proof (induction ds arbitrary: m)
  case (Cons x ds)
  have "least_dual m (x # ds) = least_dual (case m of None \<Rightarrow> Some x | Some m' \<Rightarrow> if x < m' then Some x else m) ds"
    by (simp add: least_dual_def)
  then show ?case using Cons.IH[of "case m of None \<Rightarrow> Some x | Some m' \<Rightarrow> if x < m' then Some x else m"] by (auto split: option.splits)
qed (auto simp: least_dual_def)

text \<open>The scan holds its initial value until it meets an eligible vertex, and an eligible vertex from then on.\<close>

definition scan_ok :: "num \<Rightarrow> (num \<times> num \<times> num) set \<Rightarrow> (num \<times> num) \<times> (num \<times> num \<times> num) \<Rightarrow> bool" where
  "scan_ok bound seen acc \<longleftrightarrow>
     (snd acc = (-1, -1, -1) \<and> (\<forall>(a, b, d)\<in>seen. bound < d)) \<or>
     (\<exists>d\<le>bound. (fst (fst acc), snd (fst acc), d) \<in> seen)"

lemma dual_best_spec:
  assumes "(a, b, d) \<in> set feasible" "d \<le> minD + RED_TOL" "dual_best ts minD feasible = (pR, pC)"
  shows "\<exists>d\<le>minD + RED_TOL. (pR, pC, d) \<in> set feasible"
proof -
  let ?f = "\<lambda>(best, bestScore) (pR, pC, d).
      if d > minD + RED_TOL then (best, bestScore)
      else (let score = (real (length (filter (\<lambda>t. reduced pR pC t < - RED_TOL) ts)), pC, pR)
            in if more_selective score bestScore then ((pR, pC), score) else (best, bestScore))"
  have "scan_ok (minD + RED_TOL) (seen \<union> set fs) (foldl ?f acc fs)" if "scan_ok (minD + RED_TOL) seen acc" for seen acc fs
    using that
  proof (induction fs arbitrary: seen acc)
    case (Cons f fs)
    obtain p q d where f: "f = (p, q, d)" by (cases f)
    obtain best s0 s1 s2 where acc: "acc = (best, (s0, s1, s2))" by (cases acc)
    have "scan_ok (minD + RED_TOL) (insert f seen) (?f acc f)"
    proof (cases "d > minD + RED_TOL")
      case True
      then show ?thesis using Cons.prems by (auto simp: scan_ok_def f acc)
    next
      case False
      show ?thesis
      proof (cases "more_selective (real (length (filter (\<lambda>t. reduced p q t < - RED_TOL) ts)), q, p) (s0, s1, s2)")
        case True
        then show ?thesis using False by (auto simp: scan_ok_def f acc Let_def intro!: exI[of _ d])
      next
        case no: False
        have "\<not> (s0 = - 1 \<and> s1 = - 1 \<and> s2 = - 1)" using no by (auto simp: more_selective_def)
        then show ?thesis using False no Cons.prems by (auto simp: scan_ok_def f acc Let_def)
      qed
    qed
    from Cons.IH[OF this] show ?case by simp
  qed simp
  from this[of "{}" "((0, 0), (-1, -1, -1))" feasible]
  have "scan_ok (minD + RED_TOL) (set feasible) (foldl ?f ((0, 0), (-1, -1, -1)) feasible)" by (simp add: scan_ok_def)
  moreover have "fst (foldl ?f ((0, 0), (-1, -1, -1)) feasible) = (pR, pC)" using assms(3) by (simp add: dual_best_def)
  ultimately show ?thesis using assms(1,2) unfolding scan_ok_def by (fastforce simp: not_le)
qed

lemma feasible_member:
  assumes "(a, b, d) \<in> set (dual_feasible R C ts)"
  shows "0 \<le> a \<and> 0 \<le> b \<and> d = dualObjective R C ts a b"
  using assms by (auto simp: dual_feasible_def)

lemma feasible_candidate:
  "(a, b) \<in> set (dual_candidates ts) \<Longrightarrow> 0 \<le> a \<Longrightarrow> 0 \<le> b \<Longrightarrow> (a, b, dualObjective R C ts a b) \<in> set (dual_feasible R C ts)"
  unfolding dual_feasible_def by (force simp: EPS_def max_def)

lemma chosen_duals:
  assumes sol: "solve_two ts R C = sol"
  shows "0 \<le> fs_rate sol \<and> 0 \<le> fs_cost sol \<and>
    (\<forall>(a, b)\<in>set (dual_candidates ts). 0 \<le> a \<and> 0 \<le> b \<longrightarrow>
       dualObjective R C ts (fs_rate sol) (fs_cost sol) \<le> dualObjective R C ts a b + RED_TOL)"
proof -
  define fs where "fs = dual_feasible R C ts"
  have ne: "(0, 0, dualObjective R C ts 0 0) \<in> set fs" unfolding fs_def by (rule feasible_candidate[OF candidate_origin]) simp_all
  then have "map (\<lambda>(pR, pC, d). d) fs \<noteq> []" by auto
  then obtain m where m: "least_dual None (map (\<lambda>(pR, pC, d). d) fs) = Some m" using least_dual_some by blast
  then have mm: "\<forall>x\<in>set fs. m \<le> snd (snd x)" "\<exists>a b. (a, b, m) \<in> set fs" using least_dual_spec[OF m] by force+
  obtain pR pC where p: "dual_best ts m fs = (pR, pC)" by (cases "dual_best ts m fs")
  have sel: "fs_rate sol = pR" "fs_cost sol = pC"
    using sol p m by (auto simp: solve_two_def fs_def Let_def)
  obtain d where d: "d \<le> m + RED_TOL" "(pR, pC, d) \<in> set fs"
    using mm(2) dual_best_spec[OF _ _ p, of _ _ m] by (auto simp: RED_TOL_def)
  then have "0 \<le> pR" "0 \<le> pC" "dualObjective R C ts pR pC \<le> m + RED_TOL" using feasible_member unfolding fs_def by blast+
  moreover have "m \<le> dualObjective R C ts a b" if "(a, b) \<in> set (dual_candidates ts)" "0 \<le> a" "0 \<le> b" for a b
    using mm(1) feasible_candidate[OF that, of R C] unfolding fs_def by force
  ultimately show ?thesis unfolding sel by force
qed

section \<open>Weak duality and the range of the plan\<close>

lemma weak_duality:
  assumes "length y = length ts" "\<forall>f\<in>set y. 0 \<le> f \<and> f \<le> 1" "\<forall>t\<in>set ts. 0 \<le> lp_w t" "0 \<le> pR" "0 \<le> pC"
    and "(\<Sum>(t, f)\<leftarrow>zip ts y. lp_w t * f) \<le> R" "(\<Sum>(t, f)\<leftarrow>zip ts y. lp_w t * lp_c t * f) \<le> C"
  shows "(\<Sum>(t, f)\<leftarrow>zip ts y. lp_w t * lp_v t * f) \<le> dualObjective R C ts pR pC"
proof -
  have "(\<Sum>(t, f)\<leftarrow>zip ts y. lp_w t * lp_v t * f)
      \<le> pR * (\<Sum>(t, f)\<leftarrow>zip ts y. lp_w t * f) + pC * (\<Sum>(t, f)\<leftarrow>zip ts y. lp_w t * lp_c t * f) + (\<Sum>t\<leftarrow>ts. lp_w t * max 0 (reduced pR pC t))"
    using assms(1-3)
  proof (induction ts y rule: list_induct2')
    case (4 t ts f y)
    have "reduced pR pC t * f \<le> max 0 (reduced pR pC t)"
    proof -
      have "reduced pR pC t * f \<le> max 0 (reduced pR pC t) * f" using 4(3) by (intro mult_right_mono) auto
      also have "\<dots> \<le> max 0 (reduced pR pC t) * 1" using 4(3) by (intro mult_left_mono) auto
      finally show ?thesis by simp
    qed
    then have "lp_w t * (reduced pR pC t * f) \<le> lp_w t * max 0 (reduced pR pC t)" using 4(4) by (intro mult_left_mono) auto
    moreover have "lp_w t * (reduced pR pC t * f) = lp_w t * lp_v t * f - pR * (lp_w t * f) - pC * (lp_w t * lp_c t * f)"
      by (simp add: reduced_def algebra_simps)
    ultimately show ?case using 4 by (simp add: distrib_left)
  qed simp_all
  moreover have "pR * (\<Sum>(t, f)\<leftarrow>zip ts y. lp_w t * f) \<le> R * pR"
    using mult_left_mono[OF assms(6) assms(4)] by (simp add: mult.commute[of R pR])
  moreover have "pC * (\<Sum>(t, f)\<leftarrow>zip ts y. lp_w t * lp_c t * f) \<le> C * pC"
    using mult_left_mono[OF assms(7) assms(5)] by (simp add: mult.commute[of C pC])
  ultimately show ?thesis by (simp add: dualObjective_def)
qed

definition fractions :: "num list \<Rightarrow> bool" where
  "fractions xs \<longleftrightarrow> (\<forall>x\<in>set xs. 0 \<le> x \<and> x \<le> 1)"

lemma unit_clamp_range: "0 \<le> unit_clamp x \<and> unit_clamp x \<le> 1"
  by (auto simp: unit_clamp_def)

lemma fractions_update: "fractions xs \<Longrightarrow> 0 \<le> v \<Longrightarrow> v \<le> 1 \<Longrightarrow> fractions (xs[i := v])"
  unfolding fractions_def using set_update_subset_insert[of xs i v] by blast

lemma fill_rate_range: "fractions x \<Longrightarrow> fractions (fill_rate ts remR is' r x) \<and> length (fill_rate ts remR is' r x) = length x"
  by (induction ts remR is' r x rule: fill_rate.induct) (simp_all add: Let_def fractions_update unit_clamp_range)

lemma fill_cost_range: "fractions x \<Longrightarrow> fractions (fill_cost ts remC is' k x) \<and> length (fill_cost ts remC is' k x) = length x"
  by (induction ts remC is' k x rule: fill_cost.induct) (simp_all add: Let_def fractions_update unit_clamp_range)

lemma fill_three_range: "fractions x \<Longrightarrow> fractions (fill_three ts is' a b c x) \<and> length (fill_three ts is' a b c x) = length x"
  by (induction ts is' a b c x rule: fill_three.induct) (simp_all add: Let_def fractions_update unit_clamp_range)

lemma assign_range: "fractions x \<Longrightarrow> \<forall>p\<in>set ps. 0 \<le> snd p \<and> snd p \<le> 1 \<Longrightarrow> fractions (assign ps x) \<and> length (assign ps x) = length x"
  unfolding assign_def by (induction ps arbitrary: x) (auto simp: fractions_update)

lemma both_tight_try_range: "both_tight_try ts M remR remC ab combo = Some ps \<Longrightarrow> \<forall>p\<in>set ps. 0 \<le> snd p \<and> snd p \<le> 1"
  unfolding both_tight_try_def Let_def by (auto simp: unit_clamp_range split: if_splits)

lemma fillMarginal_range:
  assumes "fractions x"
  shows "fractions (fillMarginal ts M remR remC rt ct x) \<and> length (fillMarginal ts M remR remC rt ct x) = length x"
proof -
  have "fractions (fillBothTight ts M remR remC x) \<and> length (fillBothTight ts M remR remC x) = length x"
  proof -
    define tries where "tries = concat (map (\<lambda>ab. map (both_tight_try ts M remR remC ab) [0..<(if length M \<le> 12 then 2 ^ (length M - 2) else 1)]) (position_pairs (length M)))"
    have "\<forall>p\<in>set ps. 0 \<le> snd p \<and> snd p \<le> 1" if "find (\<lambda>t. t \<noteq> None) tries = Some (Some ps)" for ps
    proof -
      have "Some ps \<in> set tries" using that unfolding find_Some_iff by (metis nth_mem)
      then have "\<exists>ab combo. Some ps = both_tight_try ts M remR remC ab combo" unfolding tries_def by fastforce
      then obtain ab combo where "both_tight_try ts M remR remC ab combo = Some ps" by metis
      then show ?thesis by (rule both_tight_try_range)
    qed
    then have chosen: "fractions (case find (\<lambda>t. t \<noteq> None) tries of Some (Some ps) \<Rightarrow> assign ps x | _ \<Rightarrow> assign (map (\<lambda>i. (i, 1)) M) x) \<and>
        length (case find (\<lambda>t. t \<noteq> None) tries of Some (Some ps) \<Rightarrow> assign ps x | _ \<Rightarrow> assign (map (\<lambda>i. (i, 1)) M) x) = length x"
      using assign_range[OF assms] by (simp split: option.split)
    show ?thesis using chosen unfolding fillBothTight_def Let_def tries_def .
  qed
  then show ?thesis using assms by (simp add: fillMarginal_def fill_rate_range fill_cost_range)
qed

section \<open>The solver\<close>

lemma lp_field_range: "lp_field v = Inr x \<Longrightarrow> 0 \<le> x"
  by (auto simp: lp_field_def split: js_number.splits if_splits)

lemma lp_types_range: "lp_types us = Inr ts \<Longrightarrow> length ts = length us \<and> (\<forall>t\<in>set ts. 0 \<le> lp_w t \<and> 0 \<le> lp_v t \<and> 0 \<le> lp_c t)"
  by (induction us arbitrary: ts) (fastforce simp: rbind_def split: sum.splits dest: lp_field_range)+

lemma lp_validate_two:
  assumes "lp_validate inp = Inr (ts, R, C, None)"
  shows "(\<forall>t\<in>set ts. 0 \<le> lp_w t \<and> 0 \<le> lp_v t \<and> 0 \<le> lp_c t) \<and> solveFluidLp inp = Inr (solve_two ts R C)"
  using assms lp_types_range[of "fi_types inp" ts]
  by (auto simp: lp_validate_def solveFluidLp_def rbind_def split: sum.splits if_splits option.splits)

lemma solve_two_plan:
  "fractions (fs_admitFractions (solve_two ts R C)) \<and> length (fs_admitFractions (solve_two ts R C)) = length ts"
proof -
  obtain pR pC where p: "dual_best ts (the (least_dual None (map (\<lambda>(pR, pC, d). d) (dual_feasible R C ts)))) (dual_feasible R C ts) = (pR, pC)"
    by (cases "dual_best ts (the (least_dual None (map (\<lambda>(pR, pC, d). d) (dual_feasible R C ts)))) (dual_feasible R C ts)")
  have "fractions (map (\<lambda>t. if reduced pR pC t > RED_TOL then 1 else 0) ts)" by (auto simp: fractions_def)
  from fillMarginal_range[OF this] show ?thesis by (simp add: solve_two_def p Let_def)
qed

section \<open>A plan moves only the marginal types\<close>

lemma fill_rate_other: "j \<notin> set is' \<Longrightarrow> fill_rate ts remR is' r x ! j = x ! j"
  by (induction ts remR is' r x rule: fill_rate.induct) (simp_all add: Let_def)

lemma fill_cost_other: "j \<notin> set is' \<Longrightarrow> fill_cost ts remC is' k x ! j = x ! j"
  by (induction ts remC is' k x rule: fill_cost.induct) (simp_all add: Let_def)

lemma assign_other: "j \<notin> fst ` set ps \<Longrightarrow> assign ps x ! j = x ! j"
  unfolding assign_def by (induction ps arbitrary: x) auto

lemma position_pairs_bound: "ab \<in> set (position_pairs m) \<Longrightarrow> fst ab < m \<and> snd ab < m"
  by (auto simp: position_pairs_def)

lemma both_tight_try_support:
  assumes "both_tight_try ts M remR remC ab combo = Some ps" "fst ab < length M" "snd ab < length M"
  shows "fst ` set ps \<subseteq> set M"
proof -
  define others where "others = map ((!) M) (filter (\<lambda>i. i \<noteq> fst ab \<and> i \<noteq> snd ab) [0..<length M])"
  have "set others \<subseteq> set M" by (auto simp: others_def)
  then have "others ! i \<in> set M" if "i < length others" for i using that nth_mem by blast
  then show ?thesis using assms unfolding both_tight_try_def Let_def others_def[symmetric] by (auto split: if_splits)
qed

lemma fillBothTight_other:
  assumes "j \<notin> set M"
  shows "fillBothTight ts M remR remC x ! j = x ! j"
proof -
  define tries where "tries = concat (map (\<lambda>ab. map (both_tight_try ts M remR remC ab) [0..<(if length M \<le> 12 then 2 ^ (length M - 2) else 1)]) (position_pairs (length M)))"
  have "fst ` set ps \<subseteq> set M" if "find (\<lambda>t. t \<noteq> None) tries = Some (Some ps)" for ps
  proof -
    have "Some ps \<in> set tries" using that unfolding find_Some_iff by (metis nth_mem)
    then have "\<exists>ab\<in>set (position_pairs (length M)). \<exists>combo. Some ps = both_tight_try ts M remR remC ab combo"
      unfolding tries_def by fastforce
    then obtain ab combo where "ab \<in> set (position_pairs (length M))" "both_tight_try ts M remR remC ab combo = Some ps" by metis
    then show ?thesis using both_tight_try_support position_pairs_bound by blast
  qed
  then have solved: "assign ps x ! j = x ! j" if "find (\<lambda>t. t \<noteq> None) tries = Some (Some ps)" for ps
    using that assms by (blast intro: assign_other)
  have "assign (map (\<lambda>i. (i, 1)) M) x ! j = x ! j" using assms by (intro assign_other) auto
  then have "(case find (\<lambda>t. t \<noteq> None) tries of Some (Some ps) \<Rightarrow> assign ps x | _ \<Rightarrow> assign (map (\<lambda>i. (i, 1)) M) x) ! j = x ! j"
    using solved by (simp split: option.split)
  then show ?thesis unfolding fillBothTight_def Let_def tries_def .
qed

lemma fillMarginal_other: "j \<notin> set M \<Longrightarrow> fillMarginal ts M remR remC rt ct x ! j = x ! j"
  by (simp add: fillMarginal_def fill_rate_other fill_cost_other fillBothTight_other)

lemma solve_two_forced:
  assumes "i < length ts" and sol: "sol = solve_two ts R C"
  shows "(RED_TOL < reduced (fs_rate sol) (fs_cost sol) (ts ! i) \<longrightarrow> fs_admitFractions sol ! i = 1) \<and>
         (reduced (fs_rate sol) (fs_cost sol) (ts ! i) < - RED_TOL \<longrightarrow> fs_admitFractions sol ! i = 0)"
proof -
  obtain pR pC where p: "dual_best ts (the (least_dual None (map (\<lambda>(pR, pC, d). d) (dual_feasible R C ts)))) (dual_feasible R C ts) = (pR, pC)"
    by (cases "dual_best ts (the (least_dual None (map (\<lambda>(pR, pC, d). d) (dual_feasible R C ts)))) (dual_feasible R C ts)")
  have "i \<notin> set (marginal_of (reduced pR pC) ts)" if "RED_TOL < reduced pR pC (ts ! i) \<or> reduced pR pC (ts ! i) < - RED_TOL"
    using that by (auto simp: marginal_of_def)
  moreover have "- RED_TOL < RED_TOL" by (simp add: RED_TOL_def)
  ultimately show ?thesis using assms(1) by (auto simp: sol solve_two_def p Let_def fillMarginal_other)
qed

lemma lp_validate_budgets: "lp_validate inp = Inr (ts, R, C, None) \<Longrightarrow> 0 \<le> R \<and> 0 \<le> C"
  by (auto simp: lp_validate_def lp_budget_def rbind_def split: sum.splits if_splits option.splits js_number.splits)

text \<open>
  C34. The bid prices the two-budget solver returns are dual optimal, for types whose costs and whose pairwise cost
  differences are either zero or above the solver's threshold \<open>EPS\<close> (\<open>separated\<close>; below it the enumeration skips
  vertices): they are non-negative, and their dual value is within \<open>RED_TOL\<close> of that of every other pair of prices, not
  only of the enumerated vertices. That value bounds the revenue of every plan that keeps both budgets. The admit plan
  has one fraction in [0, 1] per type, admits in full each type worth more than its bid price by over \<open>RED_TOL\<close>, and
  rejects in full each type worth less by over \<open>RED_TOL\<close>.
\<close>

theorem fluid_lp_duals:
  assumes "lp_validate inp = Inr (ts, R, C, None)" "separated ts" "solveFluidLp inp = Inr sol"
  shows "0 \<le> fs_rate sol \<and> 0 \<le> fs_cost sol \<and>
    (\<forall>pR\<ge>0. \<forall>pC\<ge>0. dualObjective R C ts (fs_rate sol) (fs_cost sol) \<le> dualObjective R C ts pR pC + RED_TOL) \<and>
    (\<forall>y. length y = length ts \<and> (\<forall>f\<in>set y. 0 \<le> f \<and> f \<le> 1) \<and>
       (\<Sum>(t, f)\<leftarrow>zip ts y. lp_w t * f) \<le> R \<and> (\<Sum>(t, f)\<leftarrow>zip ts y. lp_w t * lp_c t * f) \<le> C \<longrightarrow>
       (\<Sum>(t, f)\<leftarrow>zip ts y. lp_w t * lp_v t * f) \<le> dualObjective R C ts (fs_rate sol) (fs_cost sol)) \<and>
    length (fs_admitFractions sol) = length ts \<and>
    (\<forall>i<length ts. 0 \<le> fs_admitFractions sol ! i \<and> fs_admitFractions sol ! i \<le> 1 \<and>
       (RED_TOL < reduced (fs_rate sol) (fs_cost sol) (ts ! i) \<longrightarrow> fs_admitFractions sol ! i = 1) \<and>
       (reduced (fs_rate sol) (fs_cost sol) (ts ! i) < - RED_TOL \<longrightarrow> fs_admitFractions sol ! i = 0))"
proof -
  have valid: "\<forall>t\<in>set ts. 0 \<le> lp_w t" and sol: "sol = solve_two ts R C" and RC: "0 \<le> R" "0 \<le> C"
    using lp_validate_two[OF assms(1)] assms(3) lp_validate_budgets[OF assms(1)] by auto
  have duals: "0 \<le> fs_rate sol" "0 \<le> fs_cost sol" using chosen_duals[of ts R C sol] sol by auto
  have "dualObjective R C ts (fs_rate sol) (fs_cost sol) \<le> dualObjective R C ts pR pC + RED_TOL" if "0 \<le> pR" "0 \<le> pC" for pR pC
    using dual_vertex[OF assms(2) that RC] chosen_duals[of ts R C sol] sol by fastforce
  moreover have "0 \<le> fs_admitFractions sol ! i \<and> fs_admitFractions sol ! i \<le> 1" if "i < length ts" for i
    using solve_two_plan[of ts R C] that unfolding sol fractions_def by (metis nth_mem)
  moreover have "(\<Sum>(t, f)\<leftarrow>zip ts y. lp_w t * lp_v t * f) \<le> dualObjective R C ts (fs_rate sol) (fs_cost sol)"
    if "length y = length ts \<and> (\<forall>f\<in>set y. 0 \<le> f \<and> f \<le> 1) \<and>
       (\<Sum>(t, f)\<leftarrow>zip ts y. lp_w t * f) \<le> R \<and> (\<Sum>(t, f)\<leftarrow>zip ts y. lp_w t * lp_c t * f) \<le> C" for y
    using that by (intro weak_duality valid duals) blast+
  moreover have "length (fs_admitFractions sol) = length ts" using solve_two_plan[of ts R C] unfolding sol by blast
  ultimately show ?thesis using duals solve_two_forced[OF _ sol] by blast
qed

definition two_tiers :: fluid_input where
  "two_tiers = \<lparr>fi_types = [\<lparr>wt_cost = Num 1, wt_value = Num 4, wt_weight = Num 10, wt_hold = None\<rparr>,
       \<lparr>wt_cost = Num 5, wt_value = Num 6, wt_weight = Num 10, wt_hold = None\<rparr>],
     fi_rateBudget = Num 12, fi_costBudget = Num 20, fi_concBudget = None\<rparr>"

definition two_tiers_lp :: "lp_type list" where
  "two_tiers_lp = [\<lparr>lp_w = 10, lp_v = 4, lp_c = 1, lp_h = 0\<rparr>, \<lparr>lp_w = 10, lp_v = 6, lp_c = 5, lp_h = 0\<rparr>]"

lemma two_tiers_valid: "lp_validate two_tiers = Inr (two_tiers_lp, 12, 20, None) \<and> separated two_tiers_lp"
  by (simp add: lp_validate_def two_tiers_def two_tiers_lp_def rbind_def lp_field_def lp_budget_def separated_def EPS_def)

lemma two_tiers_feasible:
  "dual_feasible 12 20 two_tiers_lp = [(0, 0, 100), (4, 0, 68), (0, 4, 80), (6, 0, 72), (0, 6 / 5, 52), (7 / 2, 1 / 2, 52)]"
  by (simp add: dual_feasible_def dual_candidates_def two_tiers_lp_def EPS_def Let_def dualObjective_def reduced_def)

lemma two_tiers_duals:
  "least_dual None (map (\<lambda>(pR, pC, d). d) (dual_feasible 12 20 two_tiers_lp)) = Some 52 \<and>
   dual_best two_tiers_lp 52 (dual_feasible 12 20 two_tiers_lp) = (0, 6 / 5)"
  unfolding two_tiers_feasible
  by (simp add: least_dual_def dual_best_def two_tiers_lp_def reduced_def RED_TOL_def EPS_def Let_def more_selective_def)

lemma two_tiers_solution:
  "solveFluidLp two_tiers = Inr \<lparr>fs_rate = 0, fs_cost = 6 / 5, fs_conc = None, fs_admitFractions = [1, 1 / 5], fs_objective = 52\<rparr>"
proof -
  have "marginal_of (reduced 0 (6 / 5)) two_tiers_lp = [1]"
    by (simp add: marginal_of_def two_tiers_lp_def reduced_def RED_TOL_def upt_rec)
  then have "solve_two two_tiers_lp 12 20 = \<lparr>fs_rate = 0, fs_cost = 6 / 5, fs_conc = None, fs_admitFractions = [1, 1 / 5], fs_objective = 52\<rparr>"
    using two_tiers_duals
    by (simp add: solve_two_def Let_def fillMarginal_def RED_TOL_def)
       (simp add: two_tiers_lp_def reduced_def EPS_def unit_clamp_def Let_def)
  then show ?thesis using two_tiers_valid by (simp add: solveFluidLp_def rbind_def)
qed

theorem fluid_lp_duals_witness:
  "solveFluidLp two_tiers = Inr \<lparr>fs_rate = 0, fs_cost = 6 / 5, fs_conc = None, fs_admitFractions = [1, 1 / 5], fs_objective = 52\<rparr> \<and>
   52 \<le> dualObjective 12 20 two_tiers_lp 3 1 + RED_TOL"
proof -
  have "dualObjective 12 20 two_tiers_lp 0 (6 / 5) = 52" by (simp add: dualObjective_def two_tiers_lp_def reduced_def)
  then show ?thesis
    using two_tiers_solution fluid_lp_duals[OF two_tiers_valid[THEN conjunct1] two_tiers_valid[THEN conjunct2] two_tiers_solution] by simp
qed

text \<open>
  With weights that are small probabilities the determinant test takes a regular pair for a singular one, and the
  fallback then admits every marginal type in full, whatever the remaining budgets.
\<close>

lemma fill_fallback_overspends:
  fixes w :: num
  assumes "w = 1 / 100000" "ts = [\<lparr>lp_w = w, lp_v = 4, lp_c = 1, lp_h = 0\<rparr>, \<lparr>lp_w = w, lp_v = 6, lp_c = 5, lp_h = 0\<rparr>]"
  shows "fillBothTight ts [0, 1] w (3 * w) [0, 0] = [1, 1] \<and> (\<Sum>(t, f)\<leftarrow>zip ts [1, 1]. lp_w t * f) = 2 * w \<and>
    (\<Sum>(t, f)\<leftarrow>zip ts [1 / 2, 1 / 2]. lp_w t * f) = w \<and> (\<Sum>(t, f)\<leftarrow>zip ts [1 / 2, 1 / 2]. lp_w t * lp_c t * f) = 3 * w"
proof -
  have "position_pairs 2 = [(0, 1)]" by (simp add: position_pairs_def upt_rec)
  moreover have "both_tight_try ts [0, 1] w (3 * w) (0, 1) 0 = None" by (simp add: both_tight_try_def Let_def assms EPS_def)
  ultimately have "fillBothTight ts [0, 1] w (3 * w) [0, 0] = [1, 1]"
    by (simp add: fillBothTight_def Let_def assign_def numeral_2_eq_2)
  then show ?thesis by (simp add: assms)
qed

text \<open>
  The threshold also drops vertices: a type that is cheap in cost but of great weight has no vertex on the cost axis,
  and the prices \<open>(0, 0)\<close> that are left have twice the dual value of the best pair.
\<close>

lemma tiny_costs_mispriced:
  assumes "ts = [\<lparr>lp_w = 10 ^ 12, lp_v = 10, lp_c = 1 / 10 ^ 10, lp_h = 0\<rparr>]" "R = 10 ^ 13" "C = 50"
  shows "dual_feasible R C ts = [(0, 0, 10 ^ 13), (10, 0, 10 ^ 14)] \<and> dualObjective R C ts 0 0 = 10 ^ 13 \<and>
    dualObjective R C ts 0 (10 ^ 11) = 5 * 10 ^ 12"
  by (simp add: assms dual_feasible_def dual_candidates_def EPS_def Let_def dualObjective_def reduced_def)

end
