(* ===== verification/FusedLua.thy ===== *)
theory FusedLua
  imports Gcra TokenBucket
begin

text \<open>
  The fused rate-and-cost script of unified admission and its dispatcher, \<open>src/admission/fused-lua.ts\<close>, over a
  Redis keyspace whose values are typed and expire. The lemmas: on two keys the script is the GCRA script and the
  token-bucket script run on their own keys, whatever either decides, and its combined reply is
  \<open>combineDecisions\<close>; on one key for both axes it fails after the rate was charged.
\<close>

section \<open>The keyspace\<close>

text \<open>A value with its expiry. A command on a value of another type raises \<open>WRONGTYPE\<close>.\<close>

datatype redis_value = RString num num | RHash num num num

fun expires_at :: "redis_value \<Rightarrow> num" where
  "expires_at (RString v e) = e"
| "expires_at (RHash a b e) = e"

definition db_live :: "num \<Rightarrow> (string \<Rightarrow> redis_value option) \<Rightarrow> string \<Rightarrow> redis_value option" where
  "db_live t db k = (case db k of Some v \<Rightarrow> if t < expires_at v then Some v else None | None \<Rightarrow> None)"

section \<open>The script (FUSED\_GCRA\_TOKEN\_BUCKET\_LUA)\<close>

type_synonym axis_reply = "num \<times> num \<times> num \<times> num"

text \<open>The rate axis: its reply and what \<open>SET\<close> writes, the value and \<open>PX\<close>.\<close>

definition fused_rate :: "num \<Rightarrow> num \<Rightarrow> num \<Rightarrow> num \<Rightarrow> num \<Rightarrow> num \<Rightarrow> num option \<Rightarrow> axis_reply \<times> (num \<times> num) option" where
  "fused_rate now rate_cost rate_period rate_limit rate_burst ttl_floor stored =
     (let rate_T = rate_period / rate_limit;
          rate_tau = rate_T * rate_burst;
          rate_inc = rate_T * rate_cost;
          tat0 = (case stored of Some x \<Rightarrow> x | None \<Rightarrow> now);
          rate_tat = (if tat0 < now then now else tat0);
          rate_new_tat = rate_tat + rate_inc;
          rate_allow_at = rate_new_tat - rate_tau
      in if now < rate_allow_at then
           (let r = js_floor ((rate_tau - (rate_tat - now)) / rate_T)
            in ((0, (if r < 0 then 0 else r), js_ceil rate_tat, js_ceil (rate_allow_at - now)), None))
         else
           (let r = js_floor ((rate_tau - (rate_new_tat - now)) / rate_T);
                px0 = js_ceil (rate_new_tat - now);
                px1 = (if px0 < 1 then 1 else px0);
                rate_px = (if px1 < ttl_floor then ttl_floor else px1)
            in ((1, (if r < 0 then 0 else r), js_ceil rate_new_tat, 0), Some (rate_new_tat, rate_px))))"

text \<open>The cost axis: its reply and the two fields and time to live it writes.\<close>

definition fused_cost :: "num \<Rightarrow> num \<Rightarrow> num \<Rightarrow> num \<Rightarrow> num \<Rightarrow> num option \<times> num option \<Rightarrow> axis_reply \<times> (num \<times> num \<times> num) option" where
  "fused_cost now cost_cost cost_capacity cost_refill_per_sec ttl_floor cost_h =
     (let cost_refill_per_ms = cost_refill_per_sec / 1000;
          tokens0 = (case fst cost_h of None \<Rightarrow> cost_capacity | Some x \<Rightarrow> x);
          cost_last = (case snd cost_h of None \<Rightarrow> now | Some x \<Rightarrow> x);
          elapsed0 = now - cost_last;
          cost_elapsed = (if elapsed0 < 0 then 0 else elapsed0);
          tokens1 = tokens0 + cost_elapsed * cost_refill_per_ms;
          cost_tokens = (if tokens1 > cost_capacity then cost_capacity else tokens1);
          ttl0 = js_ceil (cost_capacity / cost_refill_per_ms);
          ttl1 = (if ttl0 < 1 then 1 else ttl0);
          cost_ttl = (if ttl1 < ttl_floor then ttl_floor else ttl1)
      in if cost_tokens \<ge> cost_cost then
           (let cost_new_tokens = cost_tokens - cost_cost;
                r = js_floor cost_new_tokens
            in ((1, (if r < 0 then 0 else r), now + js_ceil ((cost_capacity - cost_new_tokens) / cost_refill_per_ms), 0),
                Some (cost_new_tokens, now, cost_ttl)))
         else
           (let r = js_floor cost_tokens
            in ((0, (if r < 0 then 0 else r), now + js_ceil ((cost_capacity - cost_tokens) / cost_refill_per_ms),
                 js_ceil ((cost_cost - cost_tokens) / cost_refill_per_ms)), None)))"

type_synonym fused_tuple = "(num \<times> num \<times> num \<times> num \<times> num) \<times> axis_reply \<times> axis_reply"

definition fused_combine :: "num \<Rightarrow> num \<Rightarrow> axis_reply \<Rightarrow> axis_reply \<Rightarrow> fused_tuple" where
  "fused_combine rate_burst cost_capacity r c =
     (case (r, c) of ((ra, rr, rs, rw), (ca, cr, cs, cw)) \<Rightarrow>
        ((if ra = 1 \<and> ca = 1 then 1 else 0,
          (if cost_capacity < rate_burst then cost_capacity else rate_burst),
          (if cr < rr then cr else rr),
          (if cs > rs then cs else rs),
          (if cw > rw then cw else rw)), r, c))"

record fused_argv =
  fv_now :: num
  fv_rateCost :: num
  fv_period :: num
  fv_limit :: num
  fv_burst :: num
  fv_cost :: num
  fv_capacity :: num
  fv_refill :: num
  fv_ttlFloor :: num

text \<open>
  The script on the keyspace. \<open>None\<close> is the error reply of a command on a value of the wrong type; what was written
  before it stays. Expiry follows the clock of the server, whatever \<open>now\<close> is.
\<close>

definition fused_lua ::
  "num \<times> num \<Rightarrow> string \<Rightarrow> string \<Rightarrow> fused_argv \<Rightarrow> (string \<Rightarrow> redis_value option) \<Rightarrow>
   fused_tuple option \<times> (string \<Rightarrow> redis_value option)" where
  "fused_lua time k1 k2 v db =
     (let now = lua_now (fv_now v) time; t = fst time * 1000 + snd time / 1000
      in case db_live t db k1 of
           Some (RHash a b e) \<Rightarrow> (None, db)
         | got \<Rightarrow>
             (let (r, rate_write) = fused_rate now (fv_rateCost v) (fv_period v) (fv_limit v) (fv_burst v) (fv_ttlFloor v)
                                      (case got of Some (RString x e) \<Rightarrow> Some x | _ \<Rightarrow> None);
                  db1 = (case rate_write of Some (tat, px) \<Rightarrow> db(k1 \<mapsto> RString tat (t + px)) | None \<Rightarrow> db)
              in case db_live t db1 k2 of
                   Some (RString x e) \<Rightarrow> (None, db1)
                 | h \<Rightarrow>
                     (let (c, cost_write) = fused_cost now (fv_cost v) (fv_capacity v) (fv_refill v) (fv_ttlFloor v)
                                              (case h of Some (RHash a b e) \<Rightarrow> (Some a, Some b) | _ \<Rightarrow> (None, None));
                          db2 = (case cost_write of Some (tk, l, ttl) \<Rightarrow> db1(k2 \<mapsto> RHash tk l (t + ttl)) | None \<Rightarrow> db1)
                      in (Some (fused_combine (fv_burst v) (fv_capacity v) r c), db2))))"

section \<open>The dispatcher\<close>

record fused_options =
  fo_rateStrategy :: string
  fo_limit :: js_number
  fo_periodMs :: js_number
  fo_burst :: "num option"
  fo_ratePrefix :: "string option"
  fo_costStrategy :: string
  fo_capacity :: js_number
  fo_refillPerSec :: js_number
  fo_costPrefix :: "string option"
  fo_useServerTime :: "bool option"
  fo_ttlFloorMs :: "num option"

record fused_dispatcher =
  fd_periodMs :: num
  fd_limit :: num
  fd_burst :: num
  fd_capacity :: num
  fd_refillPerSec :: num
  fd_ratePrefix :: "string option"
  fd_costPrefix :: "string option"
  fd_useServerTime :: bool
  fd_ttlFloorMs :: num

definition fusedDispatcher :: "fused_options \<Rightarrow> fused_dispatcher result" where
  "fusedDispatcher fo =
     (if fo_rateStrategy fo \<noteq> ''gcra'' then Inl (RangeError ''rate.strategy'')
      else if fo_costStrategy fo \<noteq> ''tokenBucket'' then Inl (RangeError ''cost.strategy'')
      else
        rbind (requirePositive ''rate.limit'' (fo_limit fo)) (\<lambda>limit.
        rbind (requirePositive ''rate.periodMs'' (fo_periodMs fo)) (\<lambda>period.
        rbind (requirePositive ''cost.capacity'' (fo_capacity fo)) (\<lambda>cap.
        rbind (requirePositive ''cost.refillPerSec'' (fo_refillPerSec fo)) (\<lambda>refill.
        Inr \<lparr>fd_periodMs = period, fd_limit = limit, fd_burst = (case fo_burst fo of Some b \<Rightarrow> b | None \<Rightarrow> limit),
             fd_capacity = cap, fd_refillPerSec = refill, fd_ratePrefix = fo_ratePrefix fo,
             fd_costPrefix = fo_costPrefix fo, fd_useServerTime = (case fo_useServerTime fo of Some b \<Rightarrow> b | None \<Rightarrow> True),
             fd_ttlFloorMs = max 0 (js_floor (case fo_ttlFloorMs fo of Some f \<Rightarrow> f | None \<Rightarrow> 0))\<rparr>)))))"

definition decode_axis :: "num \<Rightarrow> axis_reply \<Rightarrow> decision" where
  "decode_axis axisLimit a =
     (case a of (ok, rm, rs, rw) \<Rightarrow>
        \<lparr>d_allowed = (redis_int ok = 1), d_limit = axisLimit, d_remaining = redis_int rm, d_resetAt = redis_int rs,
         d_retryAfterMs = redis_int rw\<rparr>)"

record fused_result =
  fr_combined :: decision
  fr_rate :: decision
  fr_cost :: decision

definition fused_decode :: "fused_tuple \<Rightarrow> num \<Rightarrow> num \<Rightarrow> fused_result" where
  "fused_decode raw rateLimit costLimit =
     (case raw of (c, r, k) \<Rightarrow>
        \<lparr>fr_combined = decodeDecision (redis_reply c), fr_rate = decode_axis rateLimit r, fr_cost = decode_axis costLimit k\<rparr>)"

text \<open>\<open>EVALSHA\<close>, or \<open>EVAL\<close> when the cache was flushed, runs the script once; an error reply of the server is
  rethrown as it is, here under its name.\<close>

definition dispatchAt ::
  "fused_dispatcher \<Rightarrow> num \<times> num \<Rightarrow> (string \<Rightarrow> redis_value option) \<Rightarrow> string \<Rightarrow> js_number \<Rightarrow> num \<Rightarrow>
   fused_result result \<times> (string \<Rightarrow> redis_value option)" where
  "dispatchAt d time db key costTokens now =
     (case requirePositive ''costTokens'' costTokens of
        Inl e \<Rightarrow> (Inl e, db)
      | Inr c \<Rightarrow>
          (case fused_lua time (prefixer (fd_ratePrefix d) key) (prefixer (fd_costPrefix d) key)
                  \<lparr>fv_now = now, fv_rateCost = 1, fv_period = fd_periodMs d, fv_limit = fd_limit d, fv_burst = fd_burst d,
                   fv_cost = c, fv_capacity = fd_capacity d, fv_refill = fd_refillPerSec d, fv_ttlFloor = fd_ttlFloorMs d\<rparr> db of
             (None, db') \<Rightarrow> (Inl (ThrottleKitError ''WRONGTYPE''), db')
           | (Some raw, db') \<Rightarrow> (Inr (fused_decode raw (fd_burst d) (fd_capacity d)), db')))"

definition dispatch ::
  "fused_dispatcher \<Rightarrow> num \<times> num \<Rightarrow> num \<Rightarrow> (string \<Rightarrow> redis_value option) \<Rightarrow> string \<Rightarrow> js_number \<Rightarrow>
   fused_result result \<times> (string \<Rightarrow> redis_value option)" where
  "dispatch d time date_now db key costTokens =
     dispatchAt d time db key costTokens (if fd_useServerTime d then 0 else date_now)"

section \<open>The script is the two scripts\<close>

lemma fused_rate_gcra:
  "fused_rate (lua_now argv time) cost period limit burst ttlf stored =
   (case gcra_lua time argv period limit burst cost stored of
      ((a, l, m, s, w), wr) \<Rightarrow> ((a, m, s, w), map_option (\<lambda>(tat, px). (tat, max px ttlf)) wr))"
  by (simp add: fused_rate_def gcra_lua_def Let_def max_def)

lemma fused_cost_bucket:
  "fused_cost (lua_now argv time) cost capacity refill ttlf h =
   (case token_bucket_lua time argv capacity refill cost h of
      ((a, l, m, s, w), wr) \<Rightarrow> ((a, m, s, w), map_option (\<lambda>(tk, la, ttl). (tk, la, max ttl ttlf)) wr))"
  by (simp add: fused_cost_def token_bucket_lua_def Let_def max_def)

text \<open>What a reply is made of: a flag, the axis limit and whole numbers.\<close>

definition whole_reply :: "num \<Rightarrow> lua_reply \<Rightarrow> bool" where
  "whole_reply lm r = (case r of (a, l, m, s, w) \<Rightarrow> (a = 0 \<or> a = 1) \<and> l = lm \<and> m \<in> \<int> \<and> s \<in> \<int> \<and> w \<in> \<int>)"

lemma whole_gcra: "whole_reply burst (fst (gcra_lua time argv period limit burst cost stored))"
  by (simp add: whole_reply_def gcra_lua_def Let_def)

lemma whole_bucket: "lua_now argv time \<in> \<int> \<Longrightarrow> whole_reply capacity (fst (token_bucket_lua time argv capacity refill cost h))"
  by (simp add: whole_reply_def token_bucket_lua_def Let_def)

lemma decode_whole:
  assumes "whole_reply lm (a, l, m, s, w)" "lm \<in> \<int>"
  shows "decode_axis lm (a, m, s, w) = decodeDecision (redis_reply (a, l, m, s, w))"
  using assms by (simp add: whole_reply_def decode_axis_def decodeDecision_def redis_reply_def)

lemma combine_whole:
  assumes "whole_reply lm (a, l, m, s, w)" "whole_reply lm' (a', l', m', s', w')" "lm \<in> \<int>" "lm' \<in> \<int>"
  shows "fused_decode (fused_combine lm lm' (a, m, s, w) (a', m', s', w')) lm lm' =
    \<lparr>fr_combined = combineDecisions (decodeDecision (redis_reply (a, l, m, s, w))) (decodeDecision (redis_reply (a', l', m', s', w'))),
     fr_rate = decodeDecision (redis_reply (a, l, m, s, w)), fr_cost = decodeDecision (redis_reply (a', l', m', s', w'))\<rparr>"
proof -
  have "decodeDecision (redis_reply (fst (fused_combine lm lm' (a, m, s, w) (a', m', s', w')))) =
      combineDecisions (decodeDecision (redis_reply (a, l, m, s, w))) (decodeDecision (redis_reply (a', l', m', s', w')))"
    using assms by (auto simp: whole_reply_def fused_combine_def decodeDecision_def redis_reply_def combineDecisions_def min_def max_def)
  moreover have "snd (fused_combine lm lm' (a, m, s, w) (a', m', s', w')) = ((a, m, s, w), (a', m', s', w'))"
    by (simp add: fused_combine_def)
  ultimately show ?thesis using assms(3,4) decode_whole[OF assms(1)] decode_whole[OF assms(2)]
    by (simp add: fused_decode_def case_prod_beta)
qed

definition stored_tat :: "redis_value option \<Rightarrow> num option" where
  "stored_tat v = (case v of Some (RString x e) \<Rightarrow> Some x | _ \<Rightarrow> None)"

definition stored_bucket :: "redis_value option \<Rightarrow> num option \<times> num option" where
  "stored_bucket v = (case v of Some (RHash a b e) \<Rightarrow> (Some a, Some b) | _ \<Rightarrow> (None, None))"

definition write_tat :: "num \<Rightarrow> num \<Rightarrow> string \<Rightarrow> (num \<times> num) option \<Rightarrow> (string \<Rightarrow> redis_value option) \<Rightarrow> (string \<Rightarrow> redis_value option)" where
  "write_tat t ttlf k wr db = (case wr of Some (tat, px) \<Rightarrow> db(k \<mapsto> RString tat (t + max px ttlf)) | None \<Rightarrow> db)"

definition write_bucket :: "num \<Rightarrow> num \<Rightarrow> string \<Rightarrow> (num \<times> num \<times> num) option \<Rightarrow> (string \<Rightarrow> redis_value option) \<Rightarrow> (string \<Rightarrow> redis_value option)" where
  "write_bucket t ttlf k wr db = (case wr of Some (tk, la, ttl) \<Rightarrow> db(k \<mapsto> RHash tk la (t + max ttl ttlf)) | None \<Rightarrow> db)"

text \<open>
  C33. The fused script is the two scripts of the axes in one: with whole-number limits and a whole-number clock, and
  the two keys distinct and of the types the axes write, one dispatch answers for the rate axis what \<open>GCRA_LUA\<close>
  answers, for the cost axis what \<open>TOKEN_BUCKET_LUA\<close> answers, and for the whole the combination of the two
  decisions; each axis writes what its own script writes, whatever the other decided, its time to live raised to the
  configured floor and nothing else changed.
\<close>

theorem fused_dispatch_is_both_scripts:
  assumes keys: "k1 = prefixer (fd_ratePrefix d) key" "k2 = prefixer (fd_costPrefix d) key" "k1 \<noteq> k2"
    and types: "\<And>a b e. db_live t db k1 \<noteq> Some (RHash a b e)" "\<And>x e. db_live t db k2 \<noteq> Some (RString x e)"
    and whole: "fd_burst d \<in> \<int>" "fd_capacity d \<in> \<int>" "lua_now now time \<in> \<int>"
    and args: "0 < c" "t = fst time * 1000 + snd time / 1000"
    and rate: "gcra_lua time now (fd_periodMs d) (fd_limit d) (fd_burst d) 1 (stored_tat (db_live t db k1)) = (r, wr)"
    and cost: "token_bucket_lua time now (fd_capacity d) (fd_refillPerSec d) c (stored_bucket (db_live t db k2)) = (q, wq)"
  shows "dispatchAt d time db key (Num c) now =
    (Inr \<lparr>fr_combined = combineDecisions (decodeDecision (redis_reply r)) (decodeDecision (redis_reply q)),
          fr_rate = decodeDecision (redis_reply r), fr_cost = decodeDecision (redis_reply q)\<rparr>,
     write_bucket t (fd_ttlFloorMs d) k2 wq (write_tat t (fd_ttlFloorMs d) k1 wr db))"
proof -
  obtain a l m s w where r: "r = (a, l, m, s, w)" by (cases r)
  obtain a' l' m' s' w' where q: "q = (a', l', m', s', w')" by (cases q)
  have wh: "whole_reply (fd_burst d) (a, l, m, s, w)" "whole_reply (fd_capacity d) (a', l', m', s', w')"
    using whole_gcra[of "fd_burst d" time now "fd_periodMs d" "fd_limit d" 1 "stored_tat (db_live t db k1)"]
      whole_bucket[OF whole(3), of "fd_capacity d" "fd_refillPerSec d" c "stored_bucket (db_live t db k2)"] rate cost r q by simp_all
  have fr: "fused_rate (lua_now now time) 1 (fd_periodMs d) (fd_limit d) (fd_burst d) (fd_ttlFloorMs d) (stored_tat (db_live t db k1))
      = ((a, m, s, w), map_option (\<lambda>(tat, px). (tat, max px (fd_ttlFloorMs d))) wr)"
    by (simp add: fused_rate_gcra rate r)
  have fc: "fused_cost (lua_now now time) c (fd_capacity d) (fd_refillPerSec d) (fd_ttlFloorMs d) (stored_bucket (db_live t db k2))
      = ((a', m', s', w'), map_option (\<lambda>(tk, la, ttl). (tk, la, max ttl (fd_ttlFloorMs d))) wq)"
    by (simp add: fused_cost_bucket cost q)
  define db1 where "db1 = write_tat t (fd_ttlFloorMs d) k1 wr db"
  have db1: "(case map_option (\<lambda>(tat, px). (tat, max px (fd_ttlFloorMs d))) wr of Some (tat, px) \<Rightarrow> db(k1 \<mapsto> RString tat (t + px)) | None \<Rightarrow> db) = db1"
    by (simp add: db1_def write_tat_def split: option.split)
  have same: "db_live t db1 k2 = db_live t db k2" using keys(3) by (auto simp: db_live_def db1_def write_tat_def split: option.splits)
  let ?v = "\<lparr>fv_now = now, fv_rateCost = 1, fv_period = fd_periodMs d, fv_limit = fd_limit d, fv_burst = fd_burst d,
        fv_cost = c, fv_capacity = fd_capacity d, fv_refill = fd_refillPerSec d, fv_ttlFloor = fd_ttlFloorMs d\<rparr>"
  have v: "fv_now ?v = now" "fv_rateCost ?v = 1" "fv_period ?v = fd_periodMs d" "fv_limit ?v = fd_limit d" "fv_burst ?v = fd_burst d"
    "fv_cost ?v = c" "fv_capacity ?v = fd_capacity d" "fv_refill ?v = fd_refillPerSec d" "fv_ttlFloor ?v = fd_ttlFloorMs d" by simp_all
  have l1: "db_live t db k1 = None \<or> (\<exists>x e. db_live t db k1 = Some (RString x e))"
    using types(1) by (metis option.exhaust redis_value.exhaust)
  have l2: "db_live t db1 k2 = None \<or> (\<exists>a b e. db_live t db1 k2 = Some (RHash a b e))"
    using types(2) unfolding same by (metis option.exhaust redis_value.exhaust)
  have fin: "(case map_option (\<lambda>(tk, la, ttl). (tk, la, max ttl (fd_ttlFloorMs d))) wq of Some (tk, l, ttl) \<Rightarrow> db1(k2 \<mapsto> RHash tk l (t + ttl)) | None \<Rightarrow> db1)
      = write_bucket t (fd_ttlFloorMs d) k2 wq db1"
    by (simp add: write_bucket_def split: option.split)
  have "fused_lua time k1 k2 ?v db
      = (Some (fused_combine (fd_burst d) (fd_capacity d) (a, m, s, w) (a', m', s', w')), write_bucket t (fd_ttlFloorMs d) k2 wq db1)"
    using l1 l2
  proof (elim disjE exE, goal_cases)
    case 1
    then show ?case using fr fc db1 fin unfolding fused_lua_def Let_def args(2)[symmetric] v by (simp add: same stored_tat_def stored_bucket_def del: case_map_option cong: option.case_cong)
  next
    case (2 y b e)
    then show ?case using fr fc db1 fin unfolding fused_lua_def Let_def args(2)[symmetric] v by (simp add: same stored_tat_def stored_bucket_def del: case_map_option cong: option.case_cong)
  next
    case (3 x e)
    then show ?case using fr fc db1 fin unfolding fused_lua_def Let_def args(2)[symmetric] v by (simp add: same stored_tat_def stored_bucket_def del: case_map_option cong: option.case_cong)
  next
    case (4 x e y b f)
    then show ?case using fr fc db1 fin unfolding fused_lua_def Let_def args(2)[symmetric] v by (simp add: same stored_tat_def stored_bucket_def del: case_map_option cong: option.case_cong)
  qed
  then show ?thesis
    using args(1) combine_whole[OF wh whole(1,2)]
    by (simp add: dispatchAt_def keys(1)[symmetric] keys(2)[symmetric] r q db1_def)
qed

theorem fused_dispatch_is_both_scripts_witness:
  "let d = \<lparr>fd_periodMs = 1000, fd_limit = 2, fd_burst = 2, fd_capacity = 10, fd_refillPerSec = 1000, fd_ratePrefix = Some ''r'',
            fd_costPrefix = Some ''c'', fd_useServerTime = False, fd_ttlFloorMs = 5000\<rparr>;
       db = (\<lambda>k. if k = ''r:u'' then Some (RString 2000 3000) else None)
   in dispatchAt d (1, 0) db ''u'' (Num 4) 1000 =
      (Inr \<lparr>fr_combined = \<lparr>d_allowed = False, d_limit = 2, d_remaining = 0, d_resetAt = 2000, d_retryAfterMs = 500\<rparr>,
            fr_rate = \<lparr>d_allowed = False, d_limit = 2, d_remaining = 0, d_resetAt = 2000, d_retryAfterMs = 500\<rparr>,
            fr_cost = \<lparr>d_allowed = True, d_limit = 10, d_remaining = 6, d_resetAt = 1004, d_retryAfterMs = 0\<rparr>\<rparr>,
       db(''c:u'' \<mapsto> RHash 6 1000 6000))"
proof -
  define d where "d = \<lparr>fd_periodMs = 1000, fd_limit = 2, fd_burst = 2, fd_capacity = 10, fd_refillPerSec = 1000, fd_ratePrefix = Some ''r'',
            fd_costPrefix = Some ''c'', fd_useServerTime = False, fd_ttlFloorMs = (5000::num)\<rparr>"
  define db where "db = (\<lambda>k. if k = ''r:u'' then Some (RString 2000 3000) else None)"
  have live: "db_live 1000 db ''r:u'' = Some (RString 2000 3000)" "db_live 1000 db ''c:u'' = None" by (simp_all add: db_live_def db_def)
  have r: "gcra_lua (1, 0) 1000 (fd_periodMs d) (fd_limit d) (fd_burst d) 1 (stored_tat (db_live 1000 db ''r:u'')) = ((0, 2, 0, 2000, 500), None)"
    by (simp add: live stored_tat_def gcra_lua_def lua_now_def d_def Let_def)
  have q: "token_bucket_lua (1, 0) 1000 (fd_capacity d) (fd_refillPerSec d) 4 (stored_bucket (db_live 1000 db ''c:u'')) = ((1, 10, 6, 1004, 0), Some (6, 1000, 10))"
    by (simp add: live stored_bucket_def token_bucket_lua_def lua_now_def d_def Let_def)
  have "dispatchAt d (1, 0) db ''u'' (Num 4) 1000 =
    (Inr \<lparr>fr_combined = combineDecisions (decodeDecision (redis_reply (0, 2, 0, 2000, 500))) (decodeDecision (redis_reply (1, 10, 6, 1004, 0))),
          fr_rate = decodeDecision (redis_reply (0, 2, 0, 2000, 500)), fr_cost = decodeDecision (redis_reply (1, 10, 6, 1004, 0))\<rparr>,
     write_bucket 1000 (fd_ttlFloorMs d) ''c:u'' (Some (6, 1000, 10)) (write_tat 1000 (fd_ttlFloorMs d) ''r:u'' None db))"
  proof (rule fused_dispatch_is_both_scripts[where c = 4 and t = 1000])
    show "''r:u'' = prefixer (fd_ratePrefix d) ''u''" "''c:u'' = prefixer (fd_costPrefix d) ''u''" by (simp_all add: d_def prefixer_def)
    show "fd_burst d \<in> \<int>" "fd_capacity d \<in> \<int>" "lua_now 1000 (1, 0) \<in> \<int>" by (simp_all add: d_def lua_now_def)
  qed (use live r q in simp_all)
  then show ?thesis
    by (simp add: Let_def d_def[symmetric] db_def[symmetric] write_bucket_def write_tat_def combineDecisions_def decodeDecision_def redis_reply_def)
       (simp add: d_def)
qed

text \<open>
  Without the optional prefixes both axes use the caller's key itself: the script stores the rate axis as a string,
  reads it as a hash and fails, on every call, after the rate was charged.
\<close>

lemma unprefixed_dispatch_fails:
  assumes "fd_ratePrefix d = None" "fd_costPrefix d = None" "db_live t db key = None" "t = fst time * 1000 + snd time / 1000"
    and "0 < fd_periodMs d" "0 < fd_limit d" "1 \<le> fd_burst d" "0 < c"
  shows "\<exists>db' tat e. dispatchAt d time db key (Num c) now = (Inl (ThrottleKitError ''WRONGTYPE''), db') \<and> db' key = Some (RString tat e)"
proof -
  define T where "T = fd_periodMs d / fd_limit d"
  have T: "0 < T" using assms(5,6) by (simp add: T_def)
  have fits: "T \<le> T * fd_burst d" using mult_left_mono[OF assms(7), of T] T by simp
  define n where "n = lua_now now time"
  define px where "px = (let x = js_ceil (n + T - n); y = (if x < 1 then 1 else x) in if y < fd_ttlFloorMs d then fd_ttlFloorMs d else y)"
  define r where "r = fst (fused_rate n 1 (fd_periodMs d) (fd_limit d) (fd_burst d) (fd_ttlFloorMs d) None)"
  have f: "fused_rate n 1 (fd_periodMs d) (fd_limit d) (fd_burst d) (fd_ttlFloorMs d) None = (r, Some (n + T, px))"
    using fits by (simp add: fused_rate_def Let_def T_def[symmetric] r_def px_def)
  have "1 \<le> px" using T by (simp add: px_def Let_def)
  then have "db_live t (db(key \<mapsto> RString (n + T) (t + px))) key = Some (RString (n + T) (t + px))" by (simp add: db_live_def)
  then have "fused_lua time key key \<lparr>fv_now = now, fv_rateCost = 1, fv_period = fd_periodMs d, fv_limit = fd_limit d, fv_burst = fd_burst d,
      fv_cost = c, fv_capacity = fd_capacity d, fv_refill = fd_refillPerSec d, fv_ttlFloor = fd_ttlFloorMs d\<rparr> db = (None, db(key \<mapsto> RString (n + T) (t + px)))"
    using assms(3) f by (simp add: fused_lua_def Let_def assms(4)[symmetric] n_def[symmetric])
  then show ?thesis using assms(1,2,8) by (simp add: dispatchAt_def prefixer_def)
qed

end
