(* ===== verification/Unified.thy ===== *)
theory Unified
  imports Limiter Adaptive FluidLp FusedLua "HOL-Library.AList"
begin

text \<open>
  Unified admission, \<open>src/admission/unified.ts\<close> with \<open>lease-shim.ts\<close>: a rate limiter, a concurrency guard and
  a cost limiter behind one call, with the bid-price filter of the joint policy and its warm-up. An admission runs in
  steps between which other admissions may run. The lemmas: under any interleaving no concurrency slot leaks; what one
  call answers and which axes it charges; the joint policy only removes admissions; the warm-up never does worse than
  its prior on what it observed.
\<close>

section \<open>Numbers that were not validated\<close>

fun js_neg :: "js_number \<Rightarrow> js_number" where
  "js_neg (Num x) = Num (- x)"
| "js_neg Infinity = NegInfinity"
| "js_neg NegInfinity = Infinity"
| "js_neg NaN = NaN"

fun js_add :: "js_number \<Rightarrow> js_number \<Rightarrow> js_number" where
  "js_add (Num x) (Num y) = Num (x + y)"
| "js_add NaN _ = NaN"
| "js_add _ NaN = NaN"
| "js_add Infinity NegInfinity = NaN"
| "js_add NegInfinity Infinity = NaN"
| "js_add Infinity _ = Infinity"
| "js_add _ Infinity = Infinity"
| "js_add NegInfinity _ = NegInfinity"
| "js_add _ NegInfinity = NegInfinity"

text \<open>A validated price times a number.\<close>

fun js_price :: "num \<Rightarrow> js_number \<Rightarrow> js_number" where
  "js_price p (Num x) = Num (p * x)"
| "js_price p NaN = NaN"
| "js_price p Infinity = (if p = 0 then NaN else if p > 0 then Infinity else NegInfinity)"
| "js_price p NegInfinity = (if p = 0 then NaN else if p > 0 then NegInfinity else Infinity)"

fun js_ge :: "js_number \<Rightarrow> js_number \<Rightarrow> bool" where
  "js_ge (Num x) (Num y) = (y \<le> x)"
| "js_ge NaN _ = False"
| "js_ge _ NaN = False"
| "js_ge Infinity _ = True"
| "js_ge _ NegInfinity = True"
| "js_ge _ _ = False"

definition js_gt :: "js_number \<Rightarrow> js_number \<Rightarrow> bool" where
  "js_gt a b = (js_ge a b \<and> \<not> js_ge b a)"

section \<open>The concurrency axis (lease-shim.ts)\<close>

text \<open>The guard and the shim read their own clocks, \<open>gnow\<close> and \<open>now\<close>.\<close>

definition shim_acquire :: "guard_cfg \<Rightarrow> guard \<Rightarrow> num \<Rightarrow> num \<Rightarrow> (decision \<times> lease option) \<times> guard" where
  "shim_acquire cfg g gnow now =
     (case ag_acquire cfg g gnow of
        (Some (s, n), g') \<Rightarrow>
          ((\<lparr>d_allowed = True, d_limit = ag_limit g', d_remaining = max 0 (ag_limit g' - of_int (ag_inflight g')),
             d_resetAt = now, d_retryAfterMs = 0\<rparr>,
            Some \<lparr>le_start = s, le_inflight = n, le_released = False\<rparr>), g')
      | (None, g') \<Rightarrow>
          ((\<lparr>d_allowed = False, d_limit = ag_limit g', d_remaining = 0, d_resetAt = now,
             d_retryAfterMs = max 1 (js_round (if ag_lastRtt g' = 0 then 1 else ag_lastRtt g'))\<rparr>, None), g'))"

section \<open>Bid prices and the warm-up\<close>

record bid_prices =
  bp_rate :: num
  bp_cost :: num
  bp_conc :: "num option"

text \<open>An observed arrival: its cost and its value.\<close>

type_synonym arrival = "js_number \<times> js_number"

record adaptive_state =
  as_window :: nat
  as_perArrivalRate :: num
  as_perArrivalCost :: num
  as_prior :: bid_prices
  as_active :: bid_prices
  as_seen :: nat
  as_frozen :: bool
  as_buf :: "arrival list"
  as_buckets :: "(arrival \<times> nat) list"

definition MAX_OBSERVED_TYPES :: nat where
  "MAX_OBSERVED_TYPES = 64"

fun replay :: "bid_prices \<Rightarrow> arrival list \<Rightarrow> num \<Rightarrow> js_number \<Rightarrow> js_number \<Rightarrow> js_number" where
  "replay duals [] rateRem costRem acc = acc"
| "replay duals ((c, v) # buf) rateRem costRem acc =
     (if rateRem \<ge> 1 \<and> js_ge costRem c \<and> js_ge v (js_add (Num (bp_rate duals)) (js_price (bp_cost duals) c))
      then replay duals buf (rateRem - 1) (js_add costRem (js_neg c)) (js_add acc v)
      else replay duals buf rateRem costRem acc)"

definition replaySampleRevenue :: "arrival list \<Rightarrow> bid_prices \<Rightarrow> num \<Rightarrow> num \<Rightarrow> js_number" where
  "replaySampleRevenue buf duals rateBudget costBudget = replay duals buf rateBudget (Num costBudget) (Num 0)"

definition observe_bucket :: "arrival \<Rightarrow> (arrival \<times> nat) list \<Rightarrow> (arrival \<times> nat) list" where
  "observe_bucket a bs =
     (case map_of bs a of
        Some n \<Rightarrow> AList.update a (n + 1) bs
      | None \<Rightarrow> if length bs < MAX_OBSERVED_TYPES then AList.update a 1 bs else bs)"

text \<open>The workload re-solved at the end of the window; a throw of the solver keeps the prior.\<close>

definition learned_input :: "adaptive_state \<Rightarrow> fluid_input" where
  "learned_input st =
     \<lparr>fi_types = map (\<lambda>((c, v), n). \<lparr>wt_cost = c, wt_value = v, wt_weight = Num (real n / real (as_seen st)), wt_hold = None\<rparr>) (as_buckets st),
      fi_rateBudget = Num (as_perArrivalRate st), fi_costBudget = Num (as_perArrivalCost st), fi_concBudget = None\<rparr>"

definition choose_prices :: "adaptive_state \<Rightarrow> bid_prices" where
  "choose_prices st =
     (case solveFluidLp (learned_input st) of
        Inl e \<Rightarrow> as_prior st
      | Inr sol \<Rightarrow>
          (let learned = \<lparr>bp_rate = fs_rate sol, bp_cost = fs_cost sol, bp_conc = fs_conc sol\<rparr>;
               scaledR = as_perArrivalRate st * real (length (as_buf st));
               scaledC = as_perArrivalCost st * real (length (as_buf st))
           in if js_gt (replaySampleRevenue (as_buf st) learned scaledR scaledC)
                       (replaySampleRevenue (as_buf st) (as_prior st) scaledR scaledC)
              then learned else as_prior st))"

definition refineWarmup :: "adaptive_state \<Rightarrow> js_number \<Rightarrow> js_number \<Rightarrow> adaptive_state" where
  "refineWarmup st value requestCost =
     (let st1 = st\<lparr>as_seen := as_seen st + 1,
                   as_buf := (if length (as_buf st) < as_window st then as_buf st @ [(requestCost, value)] else as_buf st),
                   as_buckets := observe_bucket (requestCost, value) (as_buckets st)\<rparr>
      in if as_seen st1 < as_window st1 then st1
         else st1\<lparr>as_active := choose_prices st1, as_frozen := True, as_buf := [], as_buckets := []\<rparr>)"

definition observe :: "adaptive_state \<Rightarrow> js_number \<Rightarrow> js_number \<Rightarrow> adaptive_state" where
  "observe st value requestCost = (if as_frozen st then st else refineWarmup st value requestCost)"

section \<open>Construction\<close>

record joint_lp_options =
  jl_duals :: "(js_number \<times> js_number \<times> js_number option) option"
  jl_workload :: "fluid_input option"
  jl_sampleWindow :: "js_number option"

text \<open>Of the limiters only their presence matters here; the guard comes with its configuration.\<close>

record unified_options =
  uo_rate :: bool
  uo_concurrency :: "guard_cfg option"
  uo_cost :: bool
  uo_backend :: "string option"
  uo_fused :: "fused_options option"
  uo_policy :: "string option"
  uo_jointLp :: "joint_lp_options option"

record unified =
  un_rate :: bool
  un_concurrency :: "guard_cfg option"
  un_cost :: bool
  un_fused :: "fused_dispatcher option"
  un_duals :: "bid_prices option"

abbreviation unified_error :: error where
  "unified_error \<equiv> ThrottleKitError ''unifiedAdmission''"

definition require_price :: "js_number \<Rightarrow> num result" where
  "require_price v = (case v of Num x \<Rightarrow> if x < 0 then Inl unified_error else Inr x | _ \<Rightarrow> Inl unified_error)"

definition js_value :: "js_number \<Rightarrow> num" where
  "js_value v = (case v of Num x \<Rightarrow> x | _ \<Rightarrow> 0)"

definition price_source :: "joint_lp_options option \<Rightarrow> (js_number \<times> js_number \<times> js_number option) result" where
  "price_source jl =
     (case jl of
        None \<Rightarrow> Inl unified_error
      | Some j \<Rightarrow>
          (case (jl_duals j, jl_workload j) of
             (Some d, None) \<Rightarrow> Inr d
           | (None, Some w) \<Rightarrow> rbind (solveFluidLp w) (\<lambda>sol. Inr (Num (fs_rate sol), Num (fs_cost sol), map_option Num (fs_conc sol)))
           | _ \<Rightarrow> Inl unified_error))"

definition per_arrival :: "fluid_input \<Rightarrow> num \<Rightarrow> num" where
  "per_arrival w budget =
     (let totalWeight = (\<Sum>t\<leftarrow>fi_types w. js_value (wt_weight t)) in if totalWeight > 0 then budget / totalWeight else budget)"

definition warmup_of :: "joint_lp_options option \<Rightarrow> bid_prices \<Rightarrow> adaptive_state option result" where
  "warmup_of jl duals =
     (case jl of
        None \<Rightarrow> Inr None
      | Some j \<Rightarrow>
          (case (jl_sampleWindow j, jl_workload j) of
             (None, _) \<Rightarrow> Inr None
           | (Some x, None) \<Rightarrow> Inl unified_error
           | (Some (Num x), Some w) \<Rightarrow>
               if js_floor x \<noteq> x \<or> x < 1 then Inl unified_error
               else if bp_conc duals \<noteq> None then Inl unified_error
               else Inr (Some \<lparr>as_window = nat \<lfloor>x\<rfloor>, as_perArrivalRate = per_arrival w (js_value (fi_rateBudget w)),
                               as_perArrivalCost = per_arrival w (js_value (fi_costBudget w)), as_prior = duals, as_active = duals,
                               as_seen = 0, as_frozen = False, as_buf = [], as_buckets = []\<rparr>)
           | _ \<Rightarrow> Inl unified_error))"

definition policy_of :: "unified_options \<Rightarrow> (bid_prices option \<times> adaptive_state option) result" where
  "policy_of opts =
     (let policy = (case uo_policy opts of Some p \<Rightarrow> p | None \<Rightarrow> ''marginal'')
      in if policy = ''joint-lp'' then
           (if \<not> uo_cost opts \<and> uo_fused opts = None then Inl unified_error
            else
              rbind (price_source (uo_jointLp opts)) (\<lambda>(pr, pc, pk).
              rbind (require_price pr) (\<lambda>r.
              rbind (require_price pc) (\<lambda>c.
              rbind (case pk of None \<Rightarrow> Inr None | Some k \<Rightarrow> rbind (require_price k) (\<lambda>x. Inr (Some x))) (\<lambda>k.
              let duals = \<lparr>bp_rate = r, bp_cost = c, bp_conc = k\<rparr>
              in rbind (warmup_of (uo_jointLp opts) duals) (\<lambda>ad. Inr (Some duals, ad)))))))
         else if policy \<noteq> ''marginal'' then Inl (RangeError ''unifiedAdmission.policy'')
         else if uo_jointLp opts \<noteq> None then Inl unified_error
         else Inr (None, None))"

definition fused_of :: "unified_options \<Rightarrow> string \<Rightarrow> fused_dispatcher option result" where
  "fused_of opts backend =
     (if backend = ''lua-fused'' then
        (case uo_fused opts of None \<Rightarrow> Inl unified_error | Some fo \<Rightarrow> rbind (fusedDispatcher fo) (\<lambda>d. Inr (Some d)))
      else if uo_fused opts \<noteq> None then Inl unified_error
      else Inr None)"

definition unifiedAdmission :: "unified_options \<Rightarrow> (unified \<times> adaptive_state option) result" where
  "unifiedAdmission opts =
     (let backend = (case uo_backend opts of Some b \<Rightarrow> b | None \<Rightarrow> ''sequential'')
      in if backend = ''sequential'' \<and> \<not> uo_rate opts \<and> uo_concurrency opts = None \<and> \<not> uo_cost opts then Inl unified_error
         else if backend \<noteq> ''sequential'' \<and> backend \<noteq> ''lua-fused'' then Inl (RangeError ''unifiedAdmission.backend'')
         else
           rbind (fused_of opts backend) (\<lambda>fd.
           rbind (policy_of opts) (\<lambda>(duals, ad).
           Inr (\<lparr>un_rate = uo_rate opts, un_concurrency = uo_concurrency opts, un_cost = uo_cost opts, un_fused = fd,
                 un_duals = duals\<rparr>, ad))))"

section \<open>The steps of one admission\<close>

datatype unified_axis = Rate_Axis | Concurrency_Axis | Cost_Axis

record axis_snap =
  sn_rate :: "decision option"
  sn_conc :: "decision option"
  sn_cost :: "decision option"

text \<open>\<open>ad_release\<close> is the lease behind the \<open>release\<close> of the answer; \<open>None\<close> is the shared no-op.\<close>

record admission =
  ad_decision :: decision
  ad_release :: "lease option"
  ad_bindingAxis :: "unified_axis option"
  ad_policyDenied :: bool

text \<open>What a running admission waits for, and what it carries across the wait.\<close>

datatype phase = At_Rate | At_Cost | At_Fused

record job =
  jb_phase :: phase
  jb_snap :: axis_snap
  jb_lease :: "lease option"

datatype progress = Settled admission | Raised error | Waiting job

text \<open>The state an admitter shares between calls; the guard's part is idle when there is no concurrency axis.\<close>

record unified_state =
  us_guard :: guard
  us_adaptive :: "adaptive_state option"
  us_last :: axis_snap

definition empty_snap :: axis_snap where
  "empty_snap = \<lparr>sn_rate = None, sn_conc = None, sn_cost = None\<rparr>"

definition full_or :: "decision option \<Rightarrow> decision" where
  "full_or d = (case d of Some x \<Rightarrow> x | None \<Rightarrow> ALLOW_FULL)"

definition combineSnapshot :: "axis_snap \<Rightarrow> decision" where
  "combineSnapshot snap = combineDecisions (combineDecisions (full_or (sn_conc snap)) (full_or (sn_rate snap))) (full_or (sn_cost snap))"

definition denied :: "decision option \<Rightarrow> bool" where
  "denied d = (case d of Some x \<Rightarrow> \<not> d_allowed x | None \<Rightarrow> False)"

definition deriveBindingAxis :: "axis_snap \<Rightarrow> unified_axis option" where
  "deriveBindingAxis snap =
     (if denied (sn_conc snap) then Some Concurrency_Axis
      else if denied (sn_rate snap) then Some Rate_Axis
      else if denied (sn_cost snap) then Some Cost_Axis
      else None)"

definition denyResult :: "decision \<Rightarrow> axis_snap \<Rightarrow> admission" where
  "denyResult d snap = \<lparr>ad_decision = d, ad_release = None, ad_bindingAxis = deriveBindingAxis snap, ad_policyDenied = False\<rparr>"

definition finalize :: "lease option \<Rightarrow> axis_snap \<Rightarrow> admission" where
  "finalize le snap = \<lparr>ad_decision = combineSnapshot snap, ad_release = le, ad_bindingAxis = None, ad_policyDenied = False\<rparr>"

definition denyByPolicy :: "decision \<Rightarrow> decision" where
  "denyByPolicy d = d\<lparr>d_allowed := False, d_remaining := 0, d_retryAfterMs := 0\<rparr>"

text \<open>\<open>leaseRelease?.({dropped: false})\<close>\<close>

definition drop_slot :: "unified \<Rightarrow> unified_state \<Rightarrow> num \<Rightarrow> lease option \<Rightarrow> unified_state" where
  "drop_slot U st gnow le =
     (case (un_concurrency U, le) of
        (Some cfg, Some l) \<Rightarrow> st\<lparr>us_guard := snd (lease_release cfg (us_guard st) gnow l False)\<rparr>
      | _ \<Rightarrow> st)"

definition startWithConcurrency ::
  "unified \<Rightarrow> unified_state \<Rightarrow> num \<Rightarrow> num \<Rightarrow> (decision option \<times> lease option) \<times> unified_state" where
  "startWithConcurrency U st gnow now =
     (case un_concurrency U of
        None \<Rightarrow> ((None, None), st)
      | Some cfg \<Rightarrow>
          (case shim_acquire cfg (us_guard st) gnow now of
             ((d, le), g) \<Rightarrow> ((Some d, if d_allowed d then le else None), st\<lparr>us_guard := g\<rparr>)))"

text \<open>The bid of the filter, and the filter: the new state and whether it denies.\<close>

definition bid_of :: "bid_prices \<Rightarrow> js_number \<Rightarrow> js_number \<Rightarrow> js_number" where
  "bid_of p requestCost hold =
     (let bid = js_add (Num (bp_rate p)) (js_price (bp_cost p) requestCost)
      in case (bp_conc p, hold) of
           (Some k, Num h) \<Rightarrow> if h > 0 then js_add bid (Num (k * h)) else bid
         | _ \<Rightarrow> bid)"

definition policy_gate :: "unified \<Rightarrow> unified_state \<Rightarrow> js_number \<Rightarrow> js_number \<Rightarrow> js_number \<Rightarrow> bool \<times> unified_state" where
  "policy_gate U st value requestCost hold =
     (case un_duals U of
        None \<Rightarrow> (False, st)
      | Some duals \<Rightarrow>
          (case us_adaptive st of
             None \<Rightarrow> (\<not> js_ge value (bid_of duals requestCost hold), st)
           | Some ad \<Rightarrow>
               (let ad' = observe ad value requestCost
                in (\<not> js_ge value (bid_of (as_active ad') requestCost hold), st\<lparr>us_adaptive := Some ad'\<rparr>))))"

record admit_args =
  aa_key :: string
  aa_cost :: js_number
  aa_value :: js_number
  aa_hold :: js_number

text \<open>Up to the first wait.\<close>

definition settle_as :: "unified_state \<Rightarrow> axis_snap \<Rightarrow> admission \<Rightarrow> progress \<times> unified_state" where
  "settle_as st snap adm = (Settled adm, st\<lparr>us_last := snap\<rparr>)"

definition after_rate :: "unified \<Rightarrow> unified_state \<Rightarrow> axis_snap \<Rightarrow> lease option \<Rightarrow> progress \<times> unified_state" where
  "after_rate U st snap le =
     (if un_cost U then (Waiting \<lparr>jb_phase = At_Cost, jb_snap = snap, jb_lease = le\<rparr>, st)
      else settle_as st snap (finalize le snap))"

definition admit_gate :: "unified \<Rightarrow> unified_state \<Rightarrow> num \<Rightarrow> admit_args \<Rightarrow> axis_snap \<Rightarrow> lease option \<Rightarrow> progress \<times> unified_state" where
  "admit_gate U st gnow args snap le =
     (case policy_gate U st (aa_value args) (aa_cost args) (aa_hold args) of
        (True, st1) \<Rightarrow>
          settle_as (drop_slot U st1 gnow le) snap
            \<lparr>ad_decision = denyByPolicy (combineSnapshot snap), ad_release = None, ad_bindingAxis = None, ad_policyDenied = True\<rparr>
      | (False, st1) \<Rightarrow>
          if un_fused U \<noteq> None then (Waiting \<lparr>jb_phase = At_Fused, jb_snap = snap, jb_lease = le\<rparr>, st1)
          else if un_rate U then (Waiting \<lparr>jb_phase = At_Rate, jb_snap = snap, jb_lease = le\<rparr>, st1)
          else after_rate U st1 snap le)"

definition admit_begin :: "unified \<Rightarrow> unified_state \<Rightarrow> num \<Rightarrow> num \<Rightarrow> admit_args \<Rightarrow> progress \<times> unified_state" where
  "admit_begin U st gnow now args =
     (case startWithConcurrency U st gnow now of
        ((conc, le), st1) \<Rightarrow>
          (let snap = empty_snap\<lparr>sn_conc := conc\<rparr>
           in case conc of
                Some d \<Rightarrow> if \<not> d_allowed d then settle_as st1 snap (denyResult d snap) else admit_gate U st1 gnow args snap le
              | None \<Rightarrow> admit_gate U st1 gnow args snap le))"

text \<open>The resumption with what the axis answered or threw.\<close>

definition axis_deny :: "unified \<Rightarrow> unified_state \<Rightarrow> num \<Rightarrow> axis_snap \<Rightarrow> lease option \<Rightarrow> progress \<times> unified_state" where
  "axis_deny U st gnow snap le = settle_as (drop_slot U st gnow le) snap (denyResult (combineSnapshot snap) snap)"

definition resume_rate :: "unified \<Rightarrow> unified_state \<Rightarrow> num \<Rightarrow> job \<Rightarrow> decision result \<Rightarrow> progress \<times> unified_state" where
  "resume_rate U st gnow j r =
     (case r of
        Inl e \<Rightarrow> (Raised e, drop_slot U st gnow (jb_lease j))
      | Inr d \<Rightarrow>
          (let snap = (jb_snap j)\<lparr>sn_rate := Some d\<rparr>
           in if \<not> d_allowed d then axis_deny U st gnow snap (jb_lease j) else after_rate U st snap (jb_lease j)))"

definition resume_cost :: "unified \<Rightarrow> unified_state \<Rightarrow> num \<Rightarrow> job \<Rightarrow> decision result \<Rightarrow> progress \<times> unified_state" where
  "resume_cost U st gnow j r =
     (case r of
        Inl e \<Rightarrow> (Raised e, drop_slot U st gnow (jb_lease j))
      | Inr d \<Rightarrow>
          (let snap = (jb_snap j)\<lparr>sn_cost := Some d\<rparr>
           in if \<not> d_allowed d then axis_deny U st gnow snap (jb_lease j)
              else settle_as st snap (finalize (jb_lease j) snap)))"

definition resume_fused :: "unified \<Rightarrow> unified_state \<Rightarrow> num \<Rightarrow> job \<Rightarrow> fused_result result \<Rightarrow> progress \<times> unified_state" where
  "resume_fused U st gnow j r =
     (case r of
        Inl e \<Rightarrow> (Raised e, drop_slot U st gnow (jb_lease j))
      | Inr f \<Rightarrow>
          (let snap = (jb_snap j)\<lparr>sn_rate := Some (fr_rate f), sn_cost := Some (fr_cost f)\<rparr>
           in if \<not> d_allowed (fr_combined f) then axis_deny U st gnow snap (jb_lease j)
              else settle_as st snap (finalize (jb_lease j) snap)))"

definition release_admission :: "unified \<Rightarrow> unified_state \<Rightarrow> num \<Rightarrow> admission \<Rightarrow> bool \<Rightarrow> admission \<times> unified_state" where
  "release_admission U st gnow adm dropped =
     (case (un_concurrency U, ad_release adm) of
        (Some cfg, Some l) \<Rightarrow>
          (case lease_release cfg (us_guard st) gnow l dropped of
             (l', g) \<Rightarrow> (adm\<lparr>ad_release := Some l'\<rparr>, st\<lparr>us_guard := g\<rparr>))
      | _ \<Rightarrow> (adm, st))"

section \<open>The synchronous call\<close>

text \<open>
  \<open>admitSync\<close> goes through the same steps at one instant. An axis is its limiter's \<open>checkSync\<close>: what it answers or
  throws, and the store after it.
\<close>

type_synonym 'w axis = "'w \<Rightarrow> num \<Rightarrow> string \<Rightarrow> js_number \<Rightarrow> decision result \<times> 'w"

definition limiter_axis :: "'s limiter \<Rightarrow> 's memory_store axis" where
  "limiter_axis L st now key cost =
     (case lm_checkSync (Some ms_applySync) L st now key cost of Inl e \<Rightarrow> (Inl e, st) | Inr (d, st') \<Rightarrow> (Inr d, st'))"

definition sync_cost :: "unified \<Rightarrow> 'w axis \<Rightarrow> num \<Rightarrow> num \<Rightarrow> admit_args \<Rightarrow> progress \<times> unified_state \<Rightarrow> 'w \<Rightarrow> progress \<times> unified_state \<times> 'w" where
  "sync_cost U cost gnow now args ps w =
     (case ps of
        (Waiting j, st) \<Rightarrow> (case cost w now (aa_key args) (aa_cost args) of (r, w') \<Rightarrow> (case resume_cost U st gnow j r of (p, st') \<Rightarrow> (p, st', w')))
      | (p, st) \<Rightarrow> (p, st, w))"

definition admitSync ::
  "unified \<Rightarrow> 'w axis \<Rightarrow> 'w axis \<Rightarrow> unified_state \<Rightarrow> 'w \<Rightarrow> num \<Rightarrow> num \<Rightarrow> admit_args \<Rightarrow> progress \<times> unified_state \<times> 'w" where
  "admitSync U rate cost st w gnow now args =
     (if un_fused U \<noteq> None then (Raised (ThrottleKitError ''unifiedAdmission.admitSync''), st, w)
      else
        (case admit_begin U st gnow now args of
           (Waiting j, st1) \<Rightarrow>
             (case jb_phase j of
                At_Rate \<Rightarrow>
                  (case rate w now (aa_key args) (Num 1) of
                     (r, w') \<Rightarrow> sync_cost U cost gnow now args (resume_rate U st1 gnow j r) w')
              | _ \<Rightarrow> sync_cost U cost gnow now args (Waiting j, st1) w)
         | (p, st1) \<Rightarrow> (p, st1, w)))"

definition lastDecisions :: "unified_state \<Rightarrow> unified_axis \<Rightarrow> decision option" where
  "lastDecisions st a = (case a of Rate_Axis \<Rightarrow> sn_rate (us_last st) | Concurrency_Axis \<Rightarrow> sn_conc (us_last st) | Cost_Axis \<Rightarrow> sn_cost (us_last st))"

section \<open>Interleaved admissions\<close>

text \<open>
  The admissions in progress (\<open>None\<close> once settled), and those answered. Between its steps an admission waits for an
  axis, whose answer may be anything, an error included; a fused answer is consistent, as \<open>dispatchAt_consistent\<close>
  shows of the script.
\<close>

type_synonym unified_sys = "unified_state \<times> job option list \<times> admission list"

fun absorb :: "progress \<Rightarrow> nat \<Rightarrow> job option list \<Rightarrow> admission list \<Rightarrow> job option list \<times> admission list" where
  "absorb (Waiting j) i jobs adms = (jobs[i := Some j], adms)"
| "absorb (Settled adm) i jobs adms = (jobs[i := None], adms @ [adm])"
| "absorb (Raised e) i jobs adms = (jobs[i := None], adms)"

definition consistent :: "fused_result \<Rightarrow> bool" where
  "consistent f \<longleftrightarrow> d_allowed (fr_combined f) = (d_allowed (fr_rate f) \<and> d_allowed (fr_cost f))"

inductive uni_step :: "unified \<Rightarrow> unified_sys \<Rightarrow> unified_sys \<Rightarrow> bool" for U where
  Begin: "admit_begin U st gnow now args = (p, st') \<Longrightarrow>
    uni_step U (st, jobs, adms) (st', absorb p (length jobs) (jobs @ [None]) adms)"
| Rate: "i < length jobs \<Longrightarrow> jobs ! i = Some j \<Longrightarrow> jb_phase j = At_Rate \<Longrightarrow> resume_rate U st gnow j r = (p, st') \<Longrightarrow>
    uni_step U (st, jobs, adms) (st', absorb p i jobs adms)"
| Cost: "i < length jobs \<Longrightarrow> jobs ! i = Some j \<Longrightarrow> jb_phase j = At_Cost \<Longrightarrow> resume_cost U st gnow j r = (p, st') \<Longrightarrow>
    uni_step U (st, jobs, adms) (st', absorb p i jobs adms)"
| Fused: "i < length jobs \<Longrightarrow> jobs ! i = Some j \<Longrightarrow> jb_phase j = At_Fused \<Longrightarrow> \<forall>f. r = Inr f \<longrightarrow> consistent f \<Longrightarrow>
    resume_fused U st gnow j r = (p, st') \<Longrightarrow> uni_step U (st, jobs, adms) (st', absorb p i jobs adms)"
| Release: "i < length adms \<Longrightarrow> release_admission U st gnow (adms ! i) dropped = (adm, st') \<Longrightarrow>
    uni_step U (st, jobs, adms) (st', jobs, adms[i := adm])"

lemma decode_axis_flag: "d_allowed (decode_axis n (a, m, s, w)) \<longleftrightarrow> redis_int a = 1"
  by (simp add: decode_axis_def)

lemma fused_flags: "fst (fst (fused_rate n c p l b t s)) \<in> {0, 1} \<and> fst (fst (fused_cost n c k q t h)) \<in> {0, 1}"
  by (simp add: fused_rate_def fused_cost_def Let_def)

lemma redis_cases:
  obtains (missing) "v = None" | (string) x e where "v = Some (RString x e)" | (hash) a b e where "v = Some (RHash a b e)"
  by (metis option.exhaust redis_value.exhaust)

lemma fused_lua_reply:
  assumes "fused_lua time k1 k2 v db = (Some raw, db')"
  shows "\<exists>b k r c. raw = fused_combine b k r c \<and> fst r \<in> {0, 1} \<and> fst c \<in> {0, 1}"
proof -
  let ?now = "lua_now (fv_now v) time" and ?t = "fst time * 1000 + snd time / 1000"
  let ?rate = "fused_rate ?now (fv_rateCost v) (fv_period v) (fv_limit v) (fv_burst v) (fv_ttlFloor v)"
  let ?cost = "fused_cost ?now (fv_cost v) (fv_capacity v) (fv_refill v) (fv_ttlFloor v)"
  obtain stored where "fused_lua time k1 k2 v db = (Some raw, db') \<Longrightarrow>
      \<exists>h db1. db_live ?t (case snd (?rate stored) of Some (tat, px) \<Rightarrow> db(k1 \<mapsto> RString tat (?t + px)) | None \<Rightarrow> db) k2 = h \<and>
        (\<forall>x e. h \<noteq> Some (RString x e)) \<and>
        raw = fused_combine (fv_burst v) (fv_capacity v) (fst (?rate stored))
          (fst (?cost (case h of Some (RHash a b e) \<Rightarrow> (Some a, Some b) | _ \<Rightarrow> (None, None))))"
  proof (cases "db_live ?t db k1" rule: redis_cases)
    case missing
    show ?thesis
      by (rule that[of None]; cases "db_live ?t (case snd (?rate None) of Some (tat, px) \<Rightarrow> db(k1 \<mapsto> RString tat (?t + px)) | None \<Rightarrow> db) k2" rule: redis_cases)
         (simp_all add: fused_lua_def Let_def missing case_prod_beta)
  next
    case (string x e)
    show ?thesis
      by (rule that[of "Some x"]; cases "db_live ?t (case snd (?rate (Some x)) of Some (tat, px) \<Rightarrow> db(k1 \<mapsto> RString tat (?t + px)) | None \<Rightarrow> db) k2" rule: redis_cases)
         (simp_all add: fused_lua_def Let_def string case_prod_beta)
  next
    case (hash a b e)
    then show ?thesis using assms that by (simp add: fused_lua_def Let_def)
  qed
  then show ?thesis using assms fused_flags by metis
qed

lemma dispatchAt_consistent: "dispatchAt d time db key cost now = (Inr f, db') \<Longrightarrow> consistent f"
proof -
  assume d: "dispatchAt d time db key cost now = (Inr f, db')"
  then obtain v raw where raw: "fused_lua time (prefixer (fd_ratePrefix d) key) (prefixer (fd_costPrefix d) key) v db = (Some raw, db')"
    and f: "f = fused_decode raw (fd_burst d) (fd_capacity d)"
    by (auto simp: dispatchAt_def split: sum.splits option.splits prod.splits)
  from fused_lua_reply[OF raw] obtain b k r c where rc: "raw = fused_combine b k r c" "fst r \<in> {0, 1}" "fst c \<in> {0, 1}" by blast
  then show ?thesis
    by (cases r; cases c) (auto simp: f consistent_def fused_decode_def fused_combine_def decodeDecision_def redis_reply_def decode_axis_flag)
qed

lemma length_filter_update:
  "i < length xs \<Longrightarrow> length (filter P (xs[i := x])) + (if P (xs ! i) then 1 else 0) = length (filter P xs) + (if P x then 1 else 0)"
proof (induction xs arbitrary: i)
  case (Cons y ys)
  then show ?case by (cases i) auto
qed simp

text \<open>The slots in use: a waiting admission holds one, and an answered one until its release.\<close>

definition open_lease :: "lease option \<Rightarrow> bool" where
  "open_lease le = (case le of Some l \<Rightarrow> \<not> le_released l | None \<Rightarrow> False)"

definition slots :: "job option list \<Rightarrow> admission list \<Rightarrow> nat" where
  "slots jobs adms = length (filter (\<lambda>j. j \<noteq> None) jobs) + length (filter (\<lambda>a. open_lease (ad_release a)) adms)"

text \<open>What an admission in progress and an answered one are, when there is a concurrency axis.\<close>

definition granted :: "decision option \<Rightarrow> bool" where
  "granted d = (case d of Some x \<Rightarrow> d_allowed x | None \<Rightarrow> True)"

definition job_ok :: "job \<Rightarrow> bool" where
  "job_ok j \<longleftrightarrow> open_lease (jb_lease j) \<and> granted (sn_conc (jb_snap j)) \<and> granted (sn_rate (jb_snap j)) \<and> granted (sn_cost (jb_snap j))"

definition adm_ok :: "admission \<Rightarrow> bool" where
  "adm_ok a \<longleftrightarrow> (d_allowed (ad_decision a) \<longleftrightarrow> ad_release a \<noteq> None)"

definition progress_ok :: "progress \<Rightarrow> bool" where
  "progress_ok p = (case p of Waiting j \<Rightarrow> job_ok j | Settled a \<Rightarrow> adm_ok a \<and> (d_allowed (ad_decision a) \<longrightarrow> open_lease (ad_release a)) | Raised e \<Rightarrow> True)"

definition progress_holds :: "progress \<Rightarrow> bool" where
  "progress_holds p = (case p of Waiting j \<Rightarrow> True | Settled a \<Rightarrow> open_lease (ad_release a) | Raised e \<Rightarrow> False)"

definition bounded :: "guard_cfg \<Rightarrow> unified_state \<Rightarrow> bool" where
  "bounded cfg st \<longleftrightarrow> gc_minLimit cfg \<le> ag_estimate (us_guard st) \<and> ag_estimate (us_guard st) \<le> gc_maxLimit cfg"

definition uni_inv :: "guard_cfg \<Rightarrow> unified_sys \<Rightarrow> bool" where
  "uni_inv cfg s = (case s of (st, jobs, adms) \<Rightarrow>
     bounded cfg st \<and> ag_inflight (us_guard st) = int (slots jobs adms) \<and>
     (\<forall>j. Some j \<in> set jobs \<longrightarrow> job_ok j) \<and> (\<forall>a\<in>set adms. adm_ok a))"

lemma combineSnapshot_allowed: "d_allowed (combineSnapshot s) \<longleftrightarrow> granted (sn_conc s) \<and> granted (sn_rate s) \<and> granted (sn_cost s)"
  by (auto simp: combineSnapshot_def combineDecisions_def full_or_def granted_def ALLOW_FULL_def split: option.splits)

text \<open>A step that starts with \<open>n\<close> slots of its own leaves one if it holds one, and none otherwise.\<close>

definition step_ok :: "guard_cfg \<Rightarrow> int \<Rightarrow> unified_state \<Rightarrow> progress \<times> unified_state \<Rightarrow> bool" where
  "step_ok cfg n st r = (case r of (p, st') \<Rightarrow>
     progress_ok p \<and> bounded cfg st' \<and> ag_inflight (us_guard st') = ag_inflight (us_guard st) - n + (if progress_holds p then 1 else 0))"

lemma drop_slot_ok:
  assumes "un_concurrency U = Some cfg" "cfg_ok cfg" "bounded cfg st" "open_lease le"
  shows "bounded cfg (drop_slot U st gnow le) \<and> ag_inflight (us_guard (drop_slot U st gnow le)) = ag_inflight (us_guard st) - 1"
  using assms ag_settle_bounds[OF assms(2), of "us_guard st"]
  by (auto simp: drop_slot_def open_lease_def lease_release_def bounded_def split: option.splits)

lemma deny_ok:
  assumes "un_concurrency U = Some cfg" "cfg_ok cfg" "bounded cfg st" "open_lease le" "\<not> d_allowed (ad_decision a)" "ad_release a = None"
  shows "step_ok cfg 1 st (settle_as (drop_slot U st gnow le) snap a)"
  using drop_slot_ok[OF assms(1-4)] assms(5,6)
  by (simp add: step_ok_def settle_as_def progress_ok_def progress_holds_def adm_ok_def open_lease_def bounded_def)

lemma finalize_ok:
  assumes "bounded cfg st" "open_lease le" "granted (sn_conc snap)" "granted (sn_rate snap)" "granted (sn_cost snap)"
  shows "step_ok cfg 1 st (settle_as st snap (finalize le snap))"
  using assms by (auto simp: step_ok_def settle_as_def finalize_def progress_ok_def progress_holds_def adm_ok_def
    combineSnapshot_allowed bounded_def open_lease_def split: option.splits)

lemma wait_ok: "bounded cfg st \<Longrightarrow> job_ok j \<Longrightarrow> step_ok cfg 1 st (Waiting j, st)"
  by (simp add: step_ok_def progress_ok_def progress_holds_def)

lemma after_rate_ok:
  assumes "bounded cfg st" "open_lease le" "granted (sn_conc snap)" "granted (sn_rate snap)" "granted (sn_cost snap)"
  shows "step_ok cfg 1 st (after_rate U st snap le)"
  using assms finalize_ok[OF assms] by (simp add: after_rate_def wait_ok job_ok_def)

lemma axis_deny_ok:
  assumes "un_concurrency U = Some cfg" "cfg_ok cfg" "bounded cfg st" "open_lease le" "\<not> d_allowed (combineSnapshot snap)"
  shows "step_ok cfg 1 st (axis_deny U st gnow snap le)"
  unfolding axis_deny_def by (rule deny_ok[OF assms(1-4)]) (use assms(5) in \<open>simp_all add: denyResult_def\<close>)

lemma raise_ok:
  assumes "un_concurrency U = Some cfg" "cfg_ok cfg" "bounded cfg st" "open_lease le"
  shows "step_ok cfg 1 st (Raised e, drop_slot U st gnow le)"
  using drop_slot_ok[OF assms] by (simp add: step_ok_def progress_ok_def progress_holds_def)

lemma resume_ok:
  assumes "un_concurrency U = Some cfg" "cfg_ok cfg" "bounded cfg st" "job_ok j"
  shows "step_ok cfg 1 st (resume_rate U st gnow j r)" "step_ok cfg 1 st (resume_cost U st gnow j r)"
    "\<forall>f. rf = Inr f \<longrightarrow> consistent f \<Longrightarrow> step_ok cfg 1 st (resume_fused U st gnow j rf)"
proof -
  have j: "open_lease (jb_lease j)" "granted (sn_conc (jb_snap j))" "granted (sn_rate (jb_snap j))" "granted (sn_cost (jb_snap j))"
    using assms(4) by (auto simp: job_ok_def)
  note rules = raise_ok[OF assms(1-3) j(1)] axis_deny_ok[OF assms(1-3) j(1)] after_rate_ok[OF assms(3) j(1)] finalize_ok[OF assms(3) j(1)]
  show "step_ok cfg 1 st (resume_rate U st gnow j r)"
    using j by (auto simp: resume_rate_def Let_def combineSnapshot_allowed granted_def intro!: rules split: sum.split)
  show "step_ok cfg 1 st (resume_cost U st gnow j r)"
    using j by (auto simp: resume_cost_def Let_def combineSnapshot_allowed granted_def intro!: rules split: sum.split)
  show "step_ok cfg 1 st (resume_fused U st gnow j rf)" if "\<forall>f. rf = Inr f \<longrightarrow> consistent f"
    using j that by (auto simp: resume_fused_def Let_def combineSnapshot_allowed granted_def consistent_def intro!: rules split: sum.split)
qed

lemma gate_state: "policy_gate U st v c h = (b, st1) \<Longrightarrow> us_guard st1 = us_guard st \<and> us_last st1 = us_last st"
  by (auto simp: policy_gate_def Let_def split: option.splits)

lemma step_ok_guard: "us_guard st1 = us_guard st \<Longrightarrow> step_ok cfg n st1 r \<Longrightarrow> step_ok cfg n st r"
  by (simp add: step_ok_def)

lemma gate_ok:
  assumes "un_concurrency U = Some cfg" "cfg_ok cfg" "bounded cfg st" "open_lease le"
    "granted (sn_conc snap)" "granted (sn_rate snap)" "granted (sn_cost snap)"
  shows "step_ok cfg 1 st (admit_gate U st gnow args snap le)"
proof -
  obtain b st1 where g: "policy_gate U st (aa_value args) (aa_cost args) (aa_hold args) = (b, st1)"
    by (cases "policy_gate U st (aa_value args) (aa_cost args) (aa_hold args)")
  have b: "bounded cfg st1" using assms(3) gate_state[OF g] by (simp add: bounded_def)
  have "step_ok cfg 1 st1 (admit_gate U st gnow args snap le)"
    unfolding admit_gate_def g using after_rate_ok[OF b assms(4-7)] assms(4-7)
    by (auto intro!: deny_ok[OF assms(1,2) b assms(4)] wait_ok[OF b] simp: denyByPolicy_def job_ok_def split: bool.split)
  then show ?thesis using gate_state[OF g] by (auto intro: step_ok_guard)
qed

lemma begin_ok:
  assumes "un_concurrency U = Some cfg" "cfg_ok cfg" "bounded cfg st"
  shows "step_ok cfg 0 st (admit_begin U st gnow now args)"
proof (cases "ag_acquire cfg (us_guard st) gnow")
  case (Pair got g)
  show ?thesis
  proof (cases got)
    case None
    then have "g = us_guard st" using Pair by (auto simp: ag_acquire_def Let_def split: if_splits)
    then show ?thesis using assms(3)
      by (simp add: admit_begin_def startWithConcurrency_def assms(1) shim_acquire_def Pair None step_ok_def settle_as_def denyResult_def Let_def
          progress_ok_def progress_holds_def adm_ok_def open_lease_def bounded_def)
  next
    case (Some sn)
    obtain s n where sn: "sn = (s, n)" by (cases sn)
    have g: "ag_estimate g = ag_estimate (us_guard st)" "ag_inflight g = ag_inflight (us_guard st) + 1"
      using Pair Some by (auto simp: ag_acquire_def Let_def split: if_splits)
    let ?st = "st\<lparr>us_guard := g\<rparr>"
    let ?le = "Some \<lparr>le_start = s, le_inflight = n, le_released = False\<rparr>"
    let ?d = "\<lparr>d_allowed = True, d_limit = ag_limit g, d_remaining = max 0 (ag_limit g - of_int (ag_inflight g)), d_resetAt = now, d_retryAfterMs = 0\<rparr>"
    have "step_ok cfg 1 ?st (admit_gate U ?st gnow args (empty_snap\<lparr>sn_conc := Some ?d\<rparr>) ?le)"
      using assms(3) g(1) by (intro gate_ok[OF assms(1,2)]) (simp_all add: bounded_def open_lease_def granted_def empty_snap_def)
    then have "step_ok cfg 0 st (admit_gate U ?st gnow args (empty_snap\<lparr>sn_conc := Some ?d\<rparr>) ?le)"
      by (simp add: step_ok_def g(2) case_prod_beta)
    then show ?thesis
      by (simp add: admit_begin_def startWithConcurrency_def assms(1) shim_acquire_def Pair Some sn)
  qed
qed

lemma absorb_inv:
  assumes inv: "uni_inv cfg (st, jobs, adms)" and i: "i < length jobs"
    and step: "step_ok cfg (if jobs ! i \<noteq> None then 1 else 0) st (p, st')"
  shows "uni_inv cfg (st', absorb p i jobs adms)"
proof (cases p)
  case (Waiting j)
  have "\<forall>k. Some k \<in> set (jobs[i := Some j]) \<longrightarrow> job_ok k"
    using inv step set_update_subset_insert[of jobs i "Some j"] by (auto simp: uni_inv_def step_ok_def progress_ok_def Waiting)
  then show ?thesis using inv step length_filter_update[OF i, of "\<lambda>j. j \<noteq> None" "Some j"]
    by (auto simp: uni_inv_def step_ok_def progress_holds_def slots_def Waiting split: if_splits)
next
  case (Settled a)
  have "\<forall>k. Some k \<in> set (jobs[i := None]) \<longrightarrow> job_ok k"
    using inv set_update_subset_insert[of jobs i None] by (auto simp: uni_inv_def)
  then show ?thesis using inv step length_filter_update[OF i, of "\<lambda>j. j \<noteq> None" None]
    by (auto simp: uni_inv_def step_ok_def progress_holds_def progress_ok_def slots_def Settled split: if_splits)
next
  case (Raised e)
  have "\<forall>k. Some k \<in> set (jobs[i := None]) \<longrightarrow> job_ok k"
    using inv set_update_subset_insert[of jobs i None] by (auto simp: uni_inv_def)
  then show ?thesis using inv step length_filter_update[OF i, of "\<lambda>j. j \<noteq> None" None]
    by (auto simp: uni_inv_def step_ok_def progress_holds_def slots_def Raised split: if_splits)
qed

lemma release_inv:
  assumes "un_concurrency U = Some cfg" "cfg_ok cfg" and inv: "uni_inv cfg (st, jobs, adms)" and i: "i < length adms"
    and rel: "release_admission U st gnow (adms ! i) dropped = (adm, st')"
  shows "uni_inv cfg (st', jobs, adms[i := adm])"
proof (cases "open_lease (ad_release (adms ! i))")
  case True
  then obtain l where l: "ad_release (adms ! i) = Some l" "\<not> le_released l" by (auto simp: open_lease_def split: option.splits)
  have ok: "adm_ok (adms ! i)" using inv i by (auto simp: uni_inv_def)
  have adm: "adm = (adms ! i)\<lparr>ad_release := Some (l\<lparr>le_released := True\<rparr>)\<rparr>"
    "us_guard st' = ag_settle cfg (us_guard st) gnow (le_start l) (le_inflight l) dropped"
    using rel l by (auto simp: release_admission_def assms(1) lease_release_def)
  have "adm_ok adm" "\<not> open_lease (ad_release adm)" using ok l by (auto simp: adm_ok_def adm(1) open_lease_def)
  then show ?thesis
    using inv True length_filter_update[OF i, of "\<lambda>a. open_lease (ad_release a)" adm] set_update_subset_insert[of adms i adm]
      ag_settle_bounds[OF assms(2), of "us_guard st" gnow "le_start l" "le_inflight l" dropped]
    by (auto simp: uni_inv_def bounded_def slots_def adm(2))
next
  case False
  then have "adm = adms ! i \<and> us_guard st' = us_guard st"
    using rel by (auto simp: release_admission_def assms(1) lease_release_def open_lease_def split: option.splits if_splits)
  then show ?thesis using inv by (simp add: uni_inv_def bounded_def)
qed

lemma waiting_job: "uni_inv cfg (st, jobs, adms) \<Longrightarrow> i < length jobs \<Longrightarrow> jobs ! i = Some j \<Longrightarrow> bounded cfg st"
    "uni_inv cfg (st, jobs, adms) \<Longrightarrow> i < length jobs \<Longrightarrow> jobs ! i = Some j \<Longrightarrow> job_ok j"
  by (auto simp: uni_inv_def dest: nth_mem)

lemma uni_step_inv:
  assumes "un_concurrency U = Some cfg" "cfg_ok cfg" "uni_step U s s'" "uni_inv cfg s"
  shows "uni_inv cfg s'"
  using assms(3,4)
proof (cases rule: uni_step.cases)
  case (Begin st gnow now args p st' jobs adms)
  have "uni_inv cfg (st, jobs @ [None], adms)" using assms(4) by (auto simp: Begin(1) uni_inv_def slots_def)
  then show ?thesis unfolding Begin(2)
    using begin_ok[OF assms(1,2), of st gnow now args] assms(4) Begin(3)
    by (intro absorb_inv) (auto simp: Begin(1) uni_inv_def)
next
  case (Rate i jobs j st gnow r p st' adms)
  note inv = assms(4)[unfolded Rate(1)] and job = waiting_job[OF assms(4)[unfolded Rate(1)] Rate(3,4)]
  show ?thesis unfolding Rate(2)
    by (rule absorb_inv[OF inv Rate(3)]) (use resume_ok(1)[OF assms(1,2) job, of gnow r] Rate(4,6) in simp)
next
  case (Cost i jobs j st gnow r p st' adms)
  note inv = assms(4)[unfolded Cost(1)] and job = waiting_job[OF assms(4)[unfolded Cost(1)] Cost(3,4)]
  show ?thesis unfolding Cost(2)
    by (rule absorb_inv[OF inv Cost(3)]) (use resume_ok(2)[OF assms(1,2) job, of gnow r] Cost(4,6) in simp)
next
  case (Fused i jobs j r st gnow p st' adms)
  note inv = assms(4)[unfolded Fused(1)] and job = waiting_job[OF assms(4)[unfolded Fused(1)] Fused(3,4)]
  show ?thesis unfolding Fused(2)
    by (rule absorb_inv[OF inv Fused(3)]) (use resume_ok(3)[OF assms(1,2) job Fused(6), of gnow] Fused(4,7) in simp)
next
  case (Release i adms st gnow dropped adm st' jobs)
  then show ?thesis using assms(4) release_inv[OF assms(1,2)] by blast
qed

text \<open>
  C20. No interleaving of unified admissions leaks a concurrency slot: from an idle guard of an accepted configuration,
  after any admissions begun, resumed with any answers or errors of the rate and cost axes, fused or not, and any
  releases by callers, repeated ones included, the guard counts exactly the admissions still waiting and the admitted
  ones not yet released; a denied admission holds no slot; and when none is waiting or unreleased a slot is granted.
\<close>

theorem unified_slots_never_leak:
  assumes "adaptiveConcurrency opts = Inr cfg" "un_concurrency U = Some cfg" "us_guard st0 = ag_new cfg start"
    and run: "(uni_step U)\<^sup>*\<^sup>* (st0, [], []) (st, jobs, adms)"
  shows "ag_inflight (us_guard st) =
      int (length (filter (\<lambda>j. j \<noteq> None) jobs) + length (filter (\<lambda>a. open_lease (ad_release a)) adms)) \<and>
    (\<forall>a\<in>set adms. \<not> d_allowed (ad_decision a) \<longrightarrow> ad_release a = None) \<and>
    (\<forall>a\<in>set adms. d_allowed (ad_decision a) \<longrightarrow> ad_release a \<noteq> None) \<and>
    ((\<forall>j\<in>set jobs. j = None) \<and> (\<forall>a\<in>set adms. \<not> open_lease (ad_release a)) \<longrightarrow> fst (ag_acquire cfg (us_guard st) now) \<noteq> None)"
proof -
  have cfg: "cfg_ok cfg" by (rule adaptiveConcurrency_ok[OF assms(1)])
  have "uni_inv cfg (st0, [], [])"
    using ag_new_ok[OF cfg, of start] by (simp add: uni_inv_def bounded_def slots_def ag_ok_def assms(3) outstanding_def)
  with run have inv: "uni_inv cfg (st, jobs, adms)"
    by (induction rule: rtranclp_induct) (auto intro: uni_step_inv[OF assms(2) cfg])
  have "fst (ag_acquire cfg (us_guard st) now) \<noteq> None" if "\<forall>j\<in>set jobs. j = None" "\<forall>a\<in>set adms. \<not> open_lease (ad_release a)"
  proof -
    have "slots jobs adms = 0" using that by (simp add: slots_def filter_empty_conv)
    then have ok: "ag_ok cfg (us_guard st, [])" using inv by (simp add: uni_inv_def bounded_def ag_ok_def outstanding_def)
    from ok have "ag_inflight (us_guard st) = 0" by (simp add: ag_ok_def outstanding_def)
    then show ?thesis using ag_ceiling_bounds(1)[OF cfg ok] by (auto simp: ag_acquire_def Let_def)
  qed
  then show ?thesis using inv by (auto simp: uni_inv_def slots_def adm_ok_def)
qed

section \<open>The warm-up\<close>

abbreviation observe_all :: "arrival list \<Rightarrow> adaptive_state \<Rightarrow> adaptive_state" where
  "observe_all \<equiv> fold (\<lambda>(c, v) st. observe st v c)"

lemma observe_frozen: "as_frozen st \<Longrightarrow> observe_all xs st = st"
  by (induction xs) (auto simp: observe_def)

text \<open>While the window fills, the buffer is the arrivals so far and the prices are the prior.\<close>

definition warming :: "adaptive_state \<Rightarrow> arrival list \<Rightarrow> adaptive_state \<Rightarrow> bool" where
  "warming st0 xs st \<longleftrightarrow>
     \<not> as_frozen st \<and> as_buf st = xs \<and> as_seen st = length xs \<and> as_active st = as_prior st \<and> as_prior st = as_prior st0 \<and>
     as_window st = as_window st0 \<and> as_perArrivalRate st = as_perArrivalRate st0 \<and> as_perArrivalCost st = as_perArrivalCost st0"

definition chosen :: "adaptive_state \<Rightarrow> arrival list \<Rightarrow> bid_prices \<Rightarrow> bool" where
  "chosen st0 xs p \<longleftrightarrow> p = as_prior st0 \<or>
     js_gt (replaySampleRevenue xs p (as_perArrivalRate st0 * real (length xs)) (as_perArrivalCost st0 * real (length xs)))
           (replaySampleRevenue xs (as_prior st0) (as_perArrivalRate st0 * real (length xs)) (as_perArrivalCost st0 * real (length xs)))"

lemma warming_step:
  assumes "warming st0 xs st" "length xs < as_window st0"
  shows "if Suc (length xs) < as_window st0 then warming st0 (xs @ [(c, v)]) (observe st v c)
    else as_frozen (observe st v c) \<and> chosen st0 (xs @ [(c, v)]) (as_active (observe st v c))"
proof -
  define st1 where "st1 = st\<lparr>as_seen := as_seen st + 1,
      as_buf := (if length (as_buf st) < as_window st then as_buf st @ [(c, v)] else as_buf st),
      as_buckets := observe_bucket (c, v) (as_buckets st)\<rparr>"
  have w1: "warming st0 (xs @ [(c, v)]) st1" using assms by (simp add: warming_def st1_def)
  have o: "observe st v c = (if as_seen st1 < as_window st1 then st1
      else st1\<lparr>as_active := choose_prices st1, as_frozen := True, as_buf := [], as_buckets := []\<rparr>)"
    using assms(1) by (simp add: observe_def refineWarmup_def st1_def Let_def warming_def)
  have "chosen st0 (xs @ [(c, v)]) (choose_prices st1)"
    using w1 by (auto simp: chosen_def choose_prices_def warming_def Let_def split: sum.split)
  then show ?thesis using w1 by (auto simp: o warming_def)
qed

lemma warming_run:
  assumes "warming st0 [] st0" "length xs < as_window st0"
  shows "warming st0 xs (observe_all xs st0)"
  using assms(2)
proof (induction xs rule: rev_induct)
  case (snoc x xs)
  obtain c v where "x = (c, v)" by (cases x)
  then show ?case using warming_step[OF snoc.IH, of c v] snoc.prems by simp
qed (use assms(1) in simp)

text \<open>
  The warm-up of the joint policy, from its construction, over any arrivals: until the sample window is full the
  live prices are the prior; from then on they are frozen, depend on the first window of arrivals only, and are the
  prior or earn strictly more than the prior when that window is replayed under the budgets scaled to it.
\<close>

theorem warmup_never_worse:
  assumes "warmup_of jl duals = Inr (Some st0)"
  defines "W \<equiv> as_window st0"
  shows "1 \<le> W \<and>
    (length xs < W \<longrightarrow> \<not> as_frozen (observe_all xs st0) \<and> as_active (observe_all xs st0) = duals) \<and>
    (W \<le> length xs \<longrightarrow> as_frozen (observe_all xs st0) \<and> observe_all xs st0 = observe_all (take W xs) st0 \<and>
       (as_active (observe_all xs st0) = duals \<or>
        js_gt (replaySampleRevenue (take W xs) (as_active (observe_all xs st0)) (as_perArrivalRate st0 * real W) (as_perArrivalCost st0 * real W))
              (replaySampleRevenue (take W xs) duals (as_perArrivalRate st0 * real W) (as_perArrivalCost st0 * real W))))"
proof -
  have new: "warming st0 [] st0 \<and> as_prior st0 = duals \<and> 1 \<le> W"
    using assms by (auto simp: warmup_of_def warming_def le_nat_iff le_floor_iff split: option.splits js_number.splits if_splits)
  have full: "as_frozen (observe_all (take W xs) st0) \<and> chosen st0 (take W xs) (as_active (observe_all (take W xs) st0))" if "W \<le> length xs"
  proof -
    obtain c v where x: "xs ! (W - 1) = (c, v)" by (cases "xs ! (W - 1)")
    have t: "take W xs = take (W - 1) xs @ [(c, v)]" 
    proof -
      have "W - 1 < length xs" "Suc (W - 1) = W" using that new by linarith+
      then show ?thesis using take_Suc_conv_app_nth[of "W - 1" xs] x by simp
    qed
    show ?thesis unfolding t
      using warming_step[OF warming_run[of st0 "take (W - 1) xs"], of c v] new that by (simp add: W_def)
  qed
  have split: "observe_all xs st0 = observe_all (drop W xs) (observe_all (take W xs) st0)"
    by (metis append_take_drop_id comp_apply fold_append)
  have early: "\<not> as_frozen (observe_all xs st0) \<and> as_active (observe_all xs st0) = duals" if "length xs < W"
    using new warming_run[of st0 xs] that by (simp add: warming_def W_def)
  have late: "observe_all xs st0 = observe_all (take W xs) st0" if "W \<le> length xs"
    using full[OF that] split observe_frozen by metis
  have len: "length (take W xs) = W" if "W \<le> length xs" using that by simp
  have gain: "as_frozen (observe_all xs st0) \<and> (as_active (observe_all xs st0) = duals \<or>
        js_gt (replaySampleRevenue (take W xs) (as_active (observe_all xs st0)) (as_perArrivalRate st0 * real W) (as_perArrivalCost st0 * real W))
              (replaySampleRevenue (take W xs) duals (as_perArrivalRate st0 * real W) (as_perArrivalCost st0 * real W)))" if "W \<le> length xs"
    using full[OF that] new unfolding late[OF that] chosen_def len[OF that] by metis
  show ?thesis using new early late gain by blast
qed

section \<open>One synchronous call\<close>

text \<open>What the steps before the rate and cost axes leave: a denial, an admission without those axes, or a wait.\<close>

definition plain_deny :: "admission \<Rightarrow> unified_axis option \<Rightarrow> bool \<Rightarrow> bool" where
  "plain_deny a axis policy \<longleftrightarrow> \<not> d_allowed (ad_decision a) \<and> ad_bindingAxis a = axis \<and> ad_policyDenied a = policy"

definition plain_grant :: "admission \<Rightarrow> bool" where
  "plain_grant a \<longleftrightarrow> d_allowed (ad_decision a) \<and> ad_bindingAxis a = None \<and> \<not> ad_policyDenied a"

definition fresh_snap :: "axis_snap \<Rightarrow> bool" where
  "fresh_snap s \<longleftrightarrow> granted (sn_conc s) \<and> sn_rate s = None \<and> sn_cost s = None"

lemma fresh_rate: "fresh_snap s \<Longrightarrow> d_allowed d \<Longrightarrow> granted (sn_conc s) \<and> granted (sn_rate (s\<lparr>sn_rate := Some d\<rparr>))"
  by (simp add: fresh_snap_def granted_def)

lemma binding_axis:
  "granted (sn_conc s) \<Longrightarrow> granted (sn_rate s) \<Longrightarrow> sn_cost s = Some d \<Longrightarrow> \<not> d_allowed d \<Longrightarrow> deriveBindingAxis s = Some Cost_Axis"
  "granted (sn_conc s) \<Longrightarrow> sn_rate s = Some d \<Longrightarrow> \<not> d_allowed d \<Longrightarrow> deriveBindingAxis s = Some Rate_Axis"
  by (auto simp: deriveBindingAxis_def denied_def granted_def split: option.splits)

text \<open>What the guard and the bid prices answer, before any limiter is asked.\<close>

definition no_slot :: "unified \<Rightarrow> unified_state \<Rightarrow> num \<Rightarrow> bool" where
  "no_slot U st gnow \<longleftrightarrow> (\<exists>cfg. un_concurrency U = Some cfg \<and> fst (ag_acquire cfg (us_guard st) gnow) = None)"

definition priced_out :: "unified \<Rightarrow> unified_state \<Rightarrow> admit_args \<Rightarrow> bool" where
  "priced_out U st args \<longleftrightarrow> (\<exists>duals. un_duals U = Some duals \<and>
     \<not> js_ge (aa_value args)
         (bid_of (case us_adaptive st of None \<Rightarrow> duals | Some ad \<Rightarrow> as_active (observe ad (aa_value args) (aa_cost args)))
            (aa_cost args) (aa_hold args)))"

lemma gate_decides: "fst (policy_gate U st (aa_value args) (aa_cost args) (aa_hold args)) = priced_out U st args"
  by (auto simp: policy_gate_def priced_out_def Let_def split: option.splits)

lemma gate_cases:
  assumes "un_fused U = None" "fresh_snap snap" "admit_gate U st gnow args snap le = (q, st1)"
  shows "if priced_out U st args then \<exists>a. q = Settled a \<and> plain_deny a None True
    else if un_rate U \<or> un_cost U then \<exists>j. q = Waiting j \<and> fresh_snap (jb_snap j) \<and> jb_phase j = (if un_rate U then At_Rate else At_Cost)
    else \<exists>a. q = Settled a \<and> plain_grant a"
proof (cases "policy_gate U st (aa_value args) (aa_cost args) (aa_hold args)")
  case (Pair b st2)
  then have b: "priced_out U st args = b" using gate_decides[of U st args] by simp
  show ?thesis
  proof (cases b)
    case True
    then show ?thesis using assms(3) by (auto simp: b admit_gate_def Pair settle_as_def plain_deny_def denyByPolicy_def)
  next
    case False
    have "granted (sn_conc snap)" "granted (sn_rate snap)" "granted (sn_cost snap)" using assms(2) by (simp_all add: fresh_snap_def granted_def)
    then show ?thesis using assms False
      by (auto simp: b admit_gate_def Pair settle_as_def after_rate_def finalize_def plain_grant_def combineSnapshot_allowed split: if_splits)
  qed
qed

lemma start_cases:
  "startWithConcurrency U st gnow now = ((cd, le), st2) \<Longrightarrow> granted cd = (\<not> no_slot U st gnow) \<and> us_adaptive st2 = us_adaptive st"
  by (auto simp: startWithConcurrency_def shim_acquire_def no_slot_def granted_def split: option.splits prod.splits)

lemma begin_cases:
  assumes "un_fused U = None" "admit_begin U st gnow now args = (q, st1)"
  shows "if no_slot U st gnow then \<exists>a. q = Settled a \<and> plain_deny a (Some Concurrency_Axis) False
    else if priced_out U st args then \<exists>a. q = Settled a \<and> plain_deny a None True
    else if un_rate U \<or> un_cost U then \<exists>j. q = Waiting j \<and> fresh_snap (jb_snap j) \<and> jb_phase j = (if un_rate U then At_Rate else At_Cost)
    else \<exists>a. q = Settled a \<and> plain_grant a"
proof (cases "startWithConcurrency U st gnow now")
  case (Pair cl st2)
  obtain cd le where cl: "cl = (cd, le)" by (cases cl)
  note start = start_cases[OF Pair[unfolded cl]]
  have "priced_out U st2 args = priced_out U st args" using start by (simp add: priced_out_def)
  show ?thesis
  proof (cases "granted cd")
    case True
    have "fresh_snap (empty_snap\<lparr>sn_conc := cd\<rparr>)" using True by (simp add: fresh_snap_def empty_snap_def)
    moreover have "admit_gate U st2 gnow args (empty_snap\<lparr>sn_conc := cd\<rparr>) le = (q, st1)"
      using assms(2) True by (auto simp: admit_begin_def Pair cl granted_def Let_def split: option.splits)
    ultimately show ?thesis using gate_cases[OF assms(1), of _ st2 gnow args le q st1] start True
      by (simp add: \<open>priced_out U st2 args = priced_out U st args\<close>)
  next
    case False
    then show ?thesis using assms(2) start
      by (auto simp: admit_begin_def Pair cl granted_def Let_def settle_as_def plain_deny_def denyResult_def deriveBindingAxis_def denied_def
          split: option.splits)
  qed
qed

text \<open>The cost axis ends the call.\<close>

lemma sync_cost_cases:
  assumes "granted (sn_conc (jb_snap j))" "granted (sn_rate (jb_snap j))" "cost w now (aa_key args) (aa_cost args) = (r, w')"
  shows "\<exists>p st'. sync_cost U cost gnow now args (Waiting j, st) w = (p, st', w') \<and>
    (case r of Inl e \<Rightarrow> p = Raised e
     | Inr d \<Rightarrow> \<exists>a. p = Settled a \<and> (if d_allowed d then plain_grant a else plain_deny a (Some Cost_Axis) False))"
proof (cases r)
  case (Inr d)
  let ?snap = "(jb_snap j)\<lparr>sn_cost := Some d\<rparr>"
  have "d_allowed (combineSnapshot ?snap) = d_allowed d" using assms(1,2) by (simp add: combineSnapshot_allowed granted_def)
  moreover have "deriveBindingAxis ?snap = Some Cost_Axis" if "\<not> d_allowed d" using binding_axis(1)[of ?snap d] assms(1,2) that by simp
  ultimately show ?thesis using assms(3) Inr
    by (simp add: sync_cost_def resume_cost_def Let_def axis_deny_def settle_as_def denyResult_def finalize_def plain_grant_def plain_deny_def)
qed (use assms in \<open>simp add: sync_cost_def resume_cost_def\<close>)

text \<open>The rate axis, where there is one, and what follows it.\<close>

lemma resume_rate_cases:
  assumes "fresh_snap (jb_snap j)"
  shows "case r of
      Inl e \<Rightarrow> fst (resume_rate U st gnow j r) = Raised e
    | Inr d \<Rightarrow>
        if \<not> d_allowed d then \<exists>a. fst (resume_rate U st gnow j r) = Settled a \<and> plain_deny a (Some Rate_Axis) False
        else if un_cost U then \<exists>k. fst (resume_rate U st gnow j r) = Waiting k \<and> granted (sn_conc (jb_snap k)) \<and> granted (sn_rate (jb_snap k))
        else \<exists>a. fst (resume_rate U st gnow j r) = Settled a \<and> plain_grant a"
proof (cases r)
  case (Inr d)
  let ?snap = "(jb_snap j)\<lparr>sn_rate := Some d\<rparr>"
  have g: "granted (sn_conc ?snap)" "sn_rate ?snap = Some d" "granted (sn_cost ?snap)" using assms by (simp_all add: fresh_snap_def granted_def)
  have "d_allowed (combineSnapshot ?snap) = d_allowed d" using g by (simp add: combineSnapshot_allowed granted_def)
  moreover have "deriveBindingAxis ?snap = Some Rate_Axis" if "\<not> d_allowed d" using binding_axis(2)[OF g(1,2) that] .
  ultimately show ?thesis using Inr g
    by (simp add: resume_rate_def Let_def axis_deny_def settle_as_def after_rate_def denyResult_def finalize_def plain_grant_def plain_deny_def
        granted_def)
qed (simp add: resume_rate_def)

lemma sync_cost_settled: "fst ps = Settled a \<or> fst ps = Raised e \<Longrightarrow> sync_cost U cost gnow now args ps w = (fst ps, snd ps, w)"
  by (cases ps) (auto simp: sync_cost_def)

text \<open>
  C21. What one synchronous admission answers and charges. On the Lua backend it throws the library's own error and touches
  nothing. Otherwise it asks in order and stops at the first that refuses. No free slot in the guard: denied by
  the concurrency axis. The offered value below the bid at the prices in force: denied by the policy, with no
  binding axis. In both cases neither limiter is consulted. Then the rate limiter for one unit: its error is
  thrown, its denial is the answer with the rate axis, and the cost limiter is not consulted. Then the cost limiter for the
  requested cost, on the store the rate limiter left, likewise. Only when every configured axis allowed is it admitted.
\<close>

theorem admit_sync_outcome:
  assumes run: "admitSync U rate cost st w gnow now args = (p, st', w')"
  defines "R \<equiv> rate w now (aa_key args) (Num 1)"
  defines "w1 \<equiv> (if un_rate U then snd R else w)"
  defines "K \<equiv> cost w1 now (aa_key args) (aa_cost args)"
  shows "if un_fused U \<noteq> None then p = Raised (ThrottleKitError ''unifiedAdmission.admitSync'') \<and> st' = st \<and> w' = w
    else if no_slot U st gnow then w' = w \<and> (\<exists>a. p = Settled a \<and> plain_deny a (Some Concurrency_Axis) False)
    else if priced_out U st args then w' = w \<and> (\<exists>a. p = Settled a \<and> plain_deny a None True)
    else if un_rate U \<and> (case fst R of Inl e \<Rightarrow> True | Inr d \<Rightarrow> \<not> d_allowed d)
      then w' = snd R \<and> (case fst R of Inl e \<Rightarrow> p = Raised e | Inr d \<Rightarrow> \<exists>a. p = Settled a \<and> plain_deny a (Some Rate_Axis) False)
    else if un_cost U
      then w' = snd K \<and>
        (case fst K of Inl e \<Rightarrow> p = Raised e
         | Inr d \<Rightarrow> \<exists>a. p = Settled a \<and> (if d_allowed d then plain_grant a else plain_deny a (Some Cost_Axis) False))
    else w' = w1 \<and> (\<exists>a. p = Settled a \<and> plain_grant a)"
proof (cases "un_fused U")
  case None
  obtain q st1 where b: "admit_begin U st gnow now args = (q, st1)" by (cases "admit_begin U st gnow now args")
  note start = begin_cases[OF None b]
  show ?thesis
  proof (cases "no_slot U st gnow \<or> priced_out U st args \<or> \<not> (un_rate U \<or> un_cost U)")
    case True
    then obtain a where "q = Settled a" using start by (auto split: if_splits)
    then have "p = q \<and> w' = w" using run None b by (simp add: admitSync_def)
    then show ?thesis using start True None by (auto simp: w1_def)
  next
    case False
    then obtain j where j: "q = Waiting j" "fresh_snap (jb_snap j)" "jb_phase j = (if un_rate U then At_Rate else At_Cost)"
      using start by auto
    have cost: "w' = snd K \<and> (case fst K of Inl e \<Rightarrow> p = Raised e
         | Inr d \<Rightarrow> \<exists>a. p = Settled a \<and> (if d_allowed d then plain_grant a else plain_deny a (Some Cost_Axis) False))"
      if k: "granted (sn_conc (jb_snap k))" "granted (sn_rate (jb_snap k))"
      and sc: "sync_cost U cost gnow now args (Waiting k, s) w1 = (p, st', w')" for k s
      using sync_cost_cases[OF k, where cost = cost and w = w1 and now = now and args = args and r = "fst K" and w' = "snd K" and U = U and gnow = gnow and st = s] sc by (simp add: K_def)
    show ?thesis
    proof (cases "un_rate U")
      case rate: False
      then have "sync_cost U cost gnow now args (Waiting j, st1) w1 = (p, st', w')"
        using run b j None by (simp add: admitSync_def w1_def)
      then show ?thesis using cost[of j st1] j(2) False rate None by (simp add: fresh_snap_def granted_def)
    next
      case rate: True
      obtain q2 st2 where q2: "resume_rate U st1 gnow j (fst R) = (q2, st2)" by (cases "resume_rate U st1 gnow j (fst R)")
      have run1: "sync_cost U cost gnow now args (q2, st2) w1 = (p, st', w')"
        using run b j rate None q2 by (simp add: admitSync_def R_def w1_def split: prod.splits)
      note c = resume_rate_cases[OF j(2), where r = "fst R" and U = U and st = st1 and gnow = gnow, unfolded q2 fst_conv]
      show ?thesis
      proof (cases "un_cost U \<and> (\<exists>d. fst R = Inr d \<and> d_allowed d)")
        case True
        then obtain d k where k: "fst R = Inr d" "d_allowed d" "q2 = Waiting k" "granted (sn_conc (jb_snap k))" "granted (sn_rate (jb_snap k))"
          using c by auto
        have "sync_cost U cost gnow now args (Waiting k, st2) w1 = (p, st', w')" using run1 k(3) by simp
        note this[THEN cost[OF k(4,5)]]
        then show ?thesis using k(1,2) False rate None True by simp
      next
        case no_cost: False
        then have "fst R = Inr d \<Longrightarrow> d_allowed d \<Longrightarrow> \<not> un_cost U" for d by blast
        then show ?thesis using c run1 False rate None by (auto simp: w1_def sync_cost_def split: sum.splits if_splits)
      qed
    qed
  qed
qed (use run in \<open>simp add: admitSync_def\<close>)

section \<open>The joint policy only removes\<close>

text \<open>Past the filter an admission depends on the guard alone: neither the prices nor the warm-up matter.\<close>

abbreviation marginal :: "unified \<Rightarrow> unified" where
  "marginal U \<equiv> U\<lparr>un_duals := None\<rparr>"

definition alike :: "'a \<times> unified_state \<Rightarrow> 'a \<times> unified_state \<Rightarrow> bool" where
  "alike a b \<longleftrightarrow> fst a = fst b \<and> us_guard (snd a) = us_guard (snd b)"

lemma drop_slot_alike: "us_guard s = us_guard t \<Longrightarrow> us_guard (drop_slot U s gnow le) = us_guard (drop_slot (marginal U) t gnow le)"
  by (simp add: drop_slot_def split: option.split)

lemma settle_alike: "us_guard s = us_guard t \<Longrightarrow> alike (settle_as s snap a) (settle_as t snap a)"
  by (simp add: alike_def settle_as_def)

lemma after_rate_alike: "us_guard s = us_guard t \<Longrightarrow> alike (after_rate U s snap le) (after_rate (marginal U) t snap le)"
  by (simp add: alike_def settle_as_def after_rate_def)

lemma axis_deny_alike: "us_guard s = us_guard t \<Longrightarrow> alike (axis_deny U s gnow snap le) (axis_deny (marginal U) t gnow snap le)"
  unfolding axis_deny_def by (intro settle_alike drop_slot_alike)

lemma resume_alike:
  assumes "us_guard s = us_guard t"
  shows "alike (resume_rate U s gnow j r) (resume_rate (marginal U) t gnow j r)"
    and "alike (resume_cost U s gnow j r) (resume_cost (marginal U) t gnow j r)"
  using assms axis_deny_alike[OF assms] after_rate_alike[OF assms] settle_alike[OF assms] drop_slot_alike[OF assms]
  by (auto simp: resume_rate_def resume_cost_def Let_def split: sum.split) (auto simp: alike_def)

lemma sync_cost_alike:
  assumes "alike a b" "sync_cost U cost gnow now args a w = (p, s, w')"
  shows "\<exists>t. sync_cost (marginal U) cost gnow now args b w = (p, t, w') \<and> us_guard t = us_guard s"
proof -
  obtain q s0 t0 where ab: "a = (q, s0)" "b = (q, t0)" "us_guard s0 = us_guard t0"
    using assms(1) by (cases a; cases b) (auto simp: alike_def)
  show ?thesis
  proof (cases q)
    case (Waiting j)
    obtain r x where c: "cost w now (aa_key args) (aa_cost args) = (r, x)" by (cases "cost w now (aa_key args) (aa_cost args)")
    show ?thesis using assms(2) resume_alike(2)[OF ab(3), of U gnow j r]
      by (auto simp: sync_cost_def ab Waiting c alike_def split: prod.splits)
  qed (use assms(2) ab in \<open>auto simp: sync_cost_def\<close>)
qed

lemma gate_alike:
  assumes "admit_gate U st gnow args snap le = (q, st1)" "\<forall>a. q = Settled a \<longrightarrow> \<not> ad_policyDenied a"
  shows "alike (q, st1) (admit_gate (marginal U) st gnow args snap le)"
proof (cases "policy_gate U st (aa_value args) (aa_cost args) (aa_hold args)")
  case (Pair b st2)
  have "\<not> b" using assms by (auto simp: admit_gate_def Pair settle_as_def)
  moreover have "policy_gate (marginal U) st (aa_value args) (aa_cost args) (aa_hold args) = (False, st)" by (simp add: policy_gate_def)
  ultimately show ?thesis
    using assms(1) gate_state[OF Pair] after_rate_alike[of st2 st U snap le] by (auto simp: admit_gate_def Pair alike_def)
qed

lemma begin_alike:
  assumes "admit_begin U st gnow now args = (q, st1)" "\<forall>a. q = Settled a \<longrightarrow> \<not> ad_policyDenied a"
  shows "alike (q, st1) (admit_begin (marginal U) st gnow now args)"
proof (cases "startWithConcurrency U st gnow now")
  case (Pair cl st2)
  obtain cd le where cl: "cl = (cd, le)" by (cases cl)
  have same: "startWithConcurrency (marginal U) st gnow now = ((cd, le), st2)" using Pair cl by (simp add: startWithConcurrency_def)
  show ?thesis
  proof (cases "denied cd")
    case True
    then show ?thesis using assms(1) by (auto simp: admit_begin_def Pair cl same denied_def Let_def alike_def split: option.splits)
  next
    case False
    have go: "admit_begin V st gnow now args = admit_gate V st2 gnow args (empty_snap\<lparr>sn_conc := cd\<rparr>) le"
      if "startWithConcurrency V st gnow now = ((cd, le), st2)" for V
      using False that by (auto simp: admit_begin_def denied_def Let_def split: option.splits)
    show ?thesis using assms unfolding go[OF same] go[OF Pair[unfolded cl]] by (rule gate_alike)
  qed
qed

text \<open>
  The joint policy only ever removes admissions: whatever the bid prices and the warm-up, a synchronous admission
  that the filter itself does not deny has under the marginal policy, from the same state, the same answer and release,
  the same debits of both limiters and the same effect on the guard.
\<close>

theorem joint_policy_only_removes:
  assumes run: "admitSync U rate cost st w gnow now args = (Settled a, st', w')" and ok: "\<not> ad_policyDenied a"
  shows "\<exists>st0. admitSync (U\<lparr>un_duals := None\<rparr>) rate cost st w gnow now args = (Settled a, st0, w') \<and> us_guard st0 = us_guard st'"
proof -
  have f: "un_fused U = None" using run by (auto simp: admitSync_def split: if_splits)
  obtain q s1 where b: "admit_begin U st gnow now args = (q, s1)" by (cases "admit_begin U st gnow now args")
  have "\<forall>c. q = Settled c \<longrightarrow> \<not> ad_policyDenied c" using run b f ok by (auto simp: admitSync_def)
  from begin_alike[OF b this] obtain t1 where t: "admit_begin (marginal U) st gnow now args = (q, t1)" "us_guard s1 = us_guard t1"
    by (cases "admit_begin (marginal U) st gnow now args") (auto simp: alike_def)
  show ?thesis
  proof (cases q)
    case (Waiting j)
    obtain r x where R: "rate w now (aa_key args) (Num 1) = (r, x)" by (cases "rate w now (aa_key args) (Num 1)")
    have "alike (Waiting j, s1) (Waiting j, t1)" using t(2) by (simp add: alike_def)
    note s0 = sync_cost_alike[OF this, where cost = cost and gnow = gnow and now = now and args = args and U = U]
    note s1 = sync_cost_alike[OF resume_alike(1)[OF t(2)], where cost = cost and gnow = gnow and now = now and args = args and U = U]
    show ?thesis
      using run f b t(1) R s0 s1 by (auto simp: admitSync_def Waiting split: phase.splits)
  qed (use run f b t in \<open>auto simp: admitSync_def\<close>)
qed

section \<open>Witnesses\<close>

definition gateway_guard :: guard_cfg where
  "gateway_guard = \<lparr>gc_minLimit = 4, gc_maxLimit = 512, gc_initialLimit = 100, gc_algorithm = Aimd,
     gc_window = 2, gc_smoothing = 1 / 5, gc_tolerance = 2, gc_backoffRatio = 9 / 10, gc_recal = None\<rparr>"

lemma gateway_guard_accepted:
  "adaptiveConcurrency \<lparr>ao_minLimit = None, ao_maxLimit = None, ao_initialLimit = Some (Num 100), ao_algorithm = Some Aimd,
     ao_rttWindow = Some (Num 2), ao_smoothing = None, ao_tolerance = None, ao_backoffRatio = None, ao_recalibration = None\<rparr>
   = Inr gateway_guard"
  by (simp add: adaptiveConcurrency_def js_default_def recal_of_def Let_def gateway_guard_def)

definition gateway :: unified where
  "gateway = \<lparr>un_rate = True, un_concurrency = Some gateway_guard, un_cost = True, un_fused = None,
     un_duals = Some \<lparr>bp_rate = 2, bp_cost = 1, bp_conc = None\<rparr>\<rparr>"

definition gateway_start :: unified_state where
  "gateway_start = \<lparr>us_guard = ag_new gateway_guard 0, us_adaptive = None, us_last = empty_snap\<rparr>"

definition request :: "num \<Rightarrow> num \<Rightarrow> admit_args" where
  "request c v = \<lparr>aa_key = ''u'', aa_cost = Num c, aa_value = Num v, aa_hold = Num 0\<rparr>"

lemma gateway_simps [simp]:
  "un_rate gateway" "un_cost gateway" "un_concurrency gateway = Some gateway_guard" "un_fused gateway = None"
  "un_duals gateway = Some \<lparr>bp_rate = 2, bp_cost = 1, bp_conc = None\<rparr>" "us_adaptive gateway_start = None"
  "us_guard gateway_start = ag_new gateway_guard 0"
  by (simp_all add: gateway_def gateway_start_def)

lemma gateway_acquire:
  "shim_acquire gateway_guard (ag_new gateway_guard 0) t t =
     ((\<lparr>d_allowed = True, d_limit = 100, d_remaining = 99, d_resetAt = t, d_retryAfterMs = 0\<rparr>,
       Some \<lparr>le_start = t, le_inflight = 1, le_released = False\<rparr>), (ag_new gateway_guard 0)\<lparr>ag_inflight := 1\<rparr>)"
  by (simp add: shim_acquire_def ag_acquire_def ag_new_def ag_ceiling_def ag_limit_def gateway_guard_def Let_def)

text \<open>A request worth its bid waits for the rate axis with one slot; one that is not is denied at once.\<close>

definition gateway_job :: "num \<Rightarrow> job" where
  "gateway_job t = \<lparr>jb_phase = At_Rate,
     jb_snap = empty_snap\<lparr>sn_conc := Some \<lparr>d_allowed = True, d_limit = 100, d_remaining = 99, d_resetAt = t, d_retryAfterMs = 0\<rparr>\<rparr>,
     jb_lease = Some \<lparr>le_start = t, le_inflight = 1, le_released = False\<rparr>\<rparr>"

lemma gateway_begin:
  "2 + c \<le> v \<Longrightarrow> admit_begin gateway gateway_start t t (request c v) =
     (Waiting (gateway_job t), gateway_start\<lparr>us_guard := (ag_new gateway_guard 0)\<lparr>ag_inflight := 1\<rparr>\<rparr>)"
  by (simp add: admit_begin_def startWithConcurrency_def gateway_acquire admit_gate_def policy_gate_def bid_of_def request_def Let_def
      gateway_job_def)

theorem unified_slots_never_leak_witness:
  "\<exists>st. (uni_step gateway)\<^sup>*\<^sup>* (gateway_start, [], []) (st, [Some (gateway_job 5)], []) \<and> ag_inflight (us_guard st) = 1"
proof -
  define st where "st = gateway_start\<lparr>us_guard := (ag_new gateway_guard 0)\<lparr>ag_inflight := 1\<rparr>\<rparr>"
  have "uni_step gateway (gateway_start, [], []) (st, absorb (Waiting (gateway_job 5)) (length ([] :: job option list)) ([] @ [None]) [])"
    by (rule Begin) (use gateway_begin[of 1 3 5] in \<open>simp add: st_def\<close>)
  then have run: "(uni_step gateway)\<^sup>*\<^sup>* (gateway_start, [], []) (st, [Some (gateway_job 5)], [])" by simp
  have "ag_inflight (us_guard st) = 1"
    using unified_slots_never_leak[OF gateway_guard_accepted _ _ run, of 0] by simp
  with run show ?thesis by blast
qed

text \<open>Two limiters over one store: the first admits, the second counts what it was asked for and refuses above ten.\<close>

definition open_axis :: "num axis" where
  "open_axis w now key c = (Inr ALLOW_FULL, w + 1)"

definition ten_axis :: "num axis" where
  "ten_axis w now key c = (Inr (ALLOW_FULL\<lparr>d_allowed := js_ge (Num 10) c\<rparr>), w + js_value c)"

lemma gateway_denied:
  assumes "2 + c \<le> v" "10 < c"
  shows "\<exists>a st. admitSync gateway open_axis ten_axis gateway_start 0 t t (request c v) = (Settled a, st, 1 + c) \<and> \<not> ad_policyDenied a"
  using assms gateway_begin[OF assms(1), of t]
  by (simp add: admitSync_def gateway_job_def open_axis_def resume_rate_def Let_def ALLOW_FULL_def after_rate_def sync_cost_def
      ten_axis_def request_def resume_cost_def axis_deny_def settle_as_def denyResult_def js_value_def)

theorem admit_sync_outcome_witness:
  "\<exists>a st. admitSync gateway open_axis ten_axis gateway_start 0 5 5 (request 20 30) = (Settled a, st, 21) \<and>
     plain_deny a (Some Cost_Axis) False"
proof -
  obtain a st where r: "admitSync gateway open_axis ten_axis gateway_start 0 5 5 (request 20 30) = (Settled a, st, 1 + 20)"
    using gateway_denied[of 20 30 5] by auto
  have "\<not> no_slot gateway gateway_start 5" by (simp add: no_slot_def ag_acquire_def ag_new_def ag_ceiling_def ag_limit_def gateway_guard_def Let_def)
  moreover have "\<not> priced_out gateway gateway_start (request 20 30)" by (simp add: priced_out_def request_def bid_of_def)
  ultimately show ?thesis
    using admit_sync_outcome[OF r] r by (auto simp: open_axis_def ten_axis_def request_def js_value_def ALLOW_FULL_def)
qed

theorem joint_policy_only_removes_witness:
  "\<exists>a st. admitSync (gateway\<lparr>un_duals := None\<rparr>) open_axis ten_axis gateway_start 0 5 5 (request 20 30) = (Settled a, st, 21)"
proof -
  obtain a st where r: "admitSync gateway open_axis ten_axis gateway_start 0 5 5 (request 20 30) = (Settled a, st, 1 + 20)" "\<not> ad_policyDenied a"
    using gateway_denied[of 20 30 5] by auto
  show ?thesis using joint_policy_only_removes[OF r] by auto
qed

text \<open>
  The slot of a denied admission is given back as a request of no duration that was not dropped, so the guard takes the
  denial for its fastest sample: the baseline falls to zero and the next ordinary request, alone in flight, is taken for
  an overload, which it is not without the denial.
\<close>

lemma gateway_new:
  "ag_new gateway_guard 0 = \<lparr>ag_estimate = 100, ag_inflight = 0, ag_rttNoload = 0, ag_lastRtt = 0, ag_nextSeq = 0,
     ag_dqSeq = [0, 0, 0], ag_dqVal = [0, 0, 0], ag_head = 0, ag_tail = 0, ag_probing = False, ag_probeMin = None,
     ag_probeCount = 0, ag_lastRecalEnd = 0\<rparr>"
  by (simp add: ag_new_def ag_cap_def gateway_guard_def numeral_3_eq_3)

lemma gateway_settle_denied:
  "ag_settle gateway_guard ((ag_new gateway_guard 0)\<lparr>ag_inflight := 1\<rparr>) 5 5 1 False =
     (ag_new gateway_guard 0)\<lparr>ag_nextSeq := 1, ag_tail := 1\<rparr>"
  unfolding gateway_new by (simp add: ag_settle_def ag_recordRtt_def ag_updateAimd_def ag_cap_def gateway_guard_def Let_def)

lemma gateway_next:
  "ag_limit (ag_settle gateway_guard ((ag_new gateway_guard 0)\<lparr>ag_nextSeq := 1, ag_tail := 1, ag_inflight := 1\<rparr>) 70 20 1 False) = 90"
  unfolding gateway_new by (simp add: ag_limit_def ag_settle_def ag_recordRtt_def ag_updateAimd_def ag_cap_def gateway_guard_def Let_def)

lemma gateway_first: "ag_limit (ag_settle gateway_guard ((ag_new gateway_guard 0)\<lparr>ag_inflight := 1\<rparr>) 70 20 1 False) = 100"
  unfolding gateway_new by (simp add: ag_limit_def ag_settle_def ag_recordRtt_def ag_updateAimd_def ag_cap_def gateway_guard_def Let_def)

lemma denial_lowers_the_ceiling:
  defines "g1 \<equiv> (ag_new gateway_guard 0)\<lparr>ag_inflight := 1\<rparr>"
  shows "\<exists>a st. resume_rate gateway (gateway_start\<lparr>us_guard := g1\<rparr>) 5 (gateway_job 5) (Inr (ALLOW_FULL\<lparr>d_allowed := False\<rparr>)) = (Settled a, st) \<and>
    us_guard st = (ag_new gateway_guard 0)\<lparr>ag_nextSeq := 1, ag_tail := 1\<rparr> \<and>
    ag_limit (ag_settle gateway_guard ((us_guard st)\<lparr>ag_inflight := 1\<rparr>) 70 20 1 False) = 90 \<and>
    ag_limit (ag_settle gateway_guard g1 70 20 1 False) = 100"
  using gateway_settle_denied gateway_next gateway_first
  by (simp add: g1_def resume_rate_def Let_def axis_deny_def settle_as_def drop_slot_def gateway_job_def lease_release_def)

theorem warmup_never_worse_witness:
  "\<exists>st0. warmup_of (Some \<lparr>jl_duals = None, jl_workload = Some two_tiers, jl_sampleWindow = Some (Num 2)\<rparr>) \<lparr>bp_rate = 0, bp_cost = 6 / 5, bp_conc = None\<rparr>
      = Inr (Some st0) \<and> as_active (observe_all [(Num 1, Num 5)] st0) = \<lparr>bp_rate = 0, bp_cost = 6 / 5, bp_conc = None\<rparr> \<and>
    as_frozen (observe_all [(Num 1, Num 5), (Num 2, Num 1), (Num 1, Num 1)] st0)"
proof -
  let ?jl = "Some \<lparr>jl_duals = None, jl_workload = Some two_tiers, jl_sampleWindow = Some (Num 2)\<rparr>"
  let ?p = "\<lparr>bp_rate = 0, bp_cost = 6 / 5, bp_conc = None\<rparr>"
  obtain st0 where st0: "warmup_of ?jl ?p = Inr (Some st0)" "as_window st0 = 2"
    by (simp add: warmup_of_def)
  show ?thesis
    using st0 warmup_never_worse[OF st0(1), of "[(Num 1, Num 5)]"] warmup_never_worse[OF st0(1), of "[(Num 1, Num 5), (Num 2, Num 1), (Num 1, Num 1)]"]
    by auto
qed

end
