(* ===== verification/CasStores.thy ===== *)
theory CasStores
  imports StoreContract
begin

text \<open>
  The stores that build the atomic read-modify-write of \<open>Store.apply\<close> from a conditional write: Cloudflare D1
  (\<open>src/cloudflare/d1.ts\<close>), DynamoDB (\<open>src/dynamodb/store.ts\<close>) and Deno KV (\<open>src/deno/store.ts\<close>). The loop is
  written once, over the two statements each database offers. The lemmas: under any interleaving of any number of
  processes, with lost races and lost replies, the applications are the sequential ones in the order of their commits;
  the coalescing of one process never retries; and a row that is deleted and written again defeats the version check.
\<close>

section \<open>The databases\<close>

text \<open>D1: a row per key. \<open>None\<close> from the write is \<open>meta.changes = 0\<close>.\<close>

record 's d1_row =
  d1_state :: "'s option"
  d1_expires_at :: num
  d1_version :: nat

type_synonym 's d1_db = "string \<Rightarrow> 's d1_row option"

definition d1_select :: "'s d1_db \<Rightarrow> string \<Rightarrow> ('s option \<times> num \<times> nat) option" where
  "d1_select db k = (case db k of Some r \<Rightarrow> Some (d1_state r, d1_expires_at r, d1_version r) | None \<Rightarrow> None)"

definition d1_write :: "'s d1_db \<Rightarrow> string \<Rightarrow> nat option \<Rightarrow> 's option \<Rightarrow> num \<Rightarrow> 's d1_db option" where
  "d1_write db k version encoded expiresAt =
     (case version of
        Some v \<Rightarrow>
          (case db k of
             Some r \<Rightarrow> if d1_version r = v then Some (db(k \<mapsto> \<lparr>d1_state = encoded, d1_expires_at = expiresAt, d1_version = v + 1\<rparr>)) else None
           | None \<Rightarrow> None)
      | None \<Rightarrow>
          (case db k of
             Some r \<Rightarrow> None
           | None \<Rightarrow> Some (db(k \<mapsto> \<lparr>d1_state = encoded, d1_expires_at = expiresAt, d1_version = 0\<rparr>))))"

definition d1_reset :: "'s d1_db \<Rightarrow> string \<Rightarrow> 's d1_db" where
  "d1_reset db k = db(k := None)"

definition d1_sweep :: "'s d1_db \<Rightarrow> num \<Rightarrow> 's d1_db" where
  "d1_sweep db clock = (\<lambda>k. case db k of Some r \<Rightarrow> if d1_expires_at r \<le> js_floor clock then None else Some r | None \<Rightarrow> None)"

text \<open>DynamoDB: an item per key, with the deadline in seconds for the table's own reclaim and in milliseconds for reads.\<close>

record 's dynamo_item =
  dy_state :: "'s option"
  dy_expires_at :: num
  dy_expires_at_ms :: "num option"
  dy_version :: nat

type_synonym 's dynamo_db = "string \<Rightarrow> 's dynamo_item option"

definition dynamo_get :: "'s dynamo_db \<Rightarrow> string \<Rightarrow> ('s option \<times> num \<times> nat) option" where
  "dynamo_get db k =
     (case db k of
        Some it \<Rightarrow> Some (dy_state it, (case dy_expires_at_ms it of Some ms \<Rightarrow> ms | None \<Rightarrow> dy_expires_at it * 1000), dy_version it)
      | None \<Rightarrow> None)"

text \<open>\<open>None\<close> is the rejection with \<open>ConditionalCheckFailedException\<close>.\<close>

definition dynamo_put :: "'s dynamo_db \<Rightarrow> string \<Rightarrow> nat option \<Rightarrow> 's option \<Rightarrow> num \<Rightarrow> 's dynamo_db option" where
  "dynamo_put db k version encoded liveUntilMs =
     (let item = (\<lambda>v. \<lparr>dy_state = encoded, dy_expires_at = js_ceil (liveUntilMs / 1000), dy_expires_at_ms = Some liveUntilMs, dy_version = v\<rparr>)
      in case version of
           Some v \<Rightarrow> if (\<exists>it. db k = Some it \<and> dy_version it = v) then Some (db(k \<mapsto> item (v + 1))) else None
         | None \<Rightarrow> if db k = None then Some (db(k \<mapsto> item 0)) else None)"

definition dynamo_reset :: "'s dynamo_db \<Rightarrow> string \<Rightarrow> 's dynamo_db" where
  "dynamo_reset db k = db(k := None)"

text \<open>
  Deno KV: every commit takes a new versionstamp from the database, here its counter; a delete leaves none. The key is
  the array of the prefix, if any, and the caller's key.
\<close>

record 's deno_kv =
  dk_entries :: "string list \<Rightarrow> ('s option \<times> num \<times> nat) option"
  dk_next :: nat

definition deno_key :: "string option \<Rightarrow> string \<Rightarrow> string list" where
  "deno_key prefix key = (case prefix of Some p \<Rightarrow> [p, key] | None \<Rightarrow> [key])"

definition deno_commit :: "'s deno_kv \<Rightarrow> string list \<Rightarrow> nat option \<Rightarrow> 's option \<Rightarrow> num \<Rightarrow> 's deno_kv option" where
  "deno_commit kv k versionstamp s e =
     (if versionstamp = (case dk_entries kv k of Some (s', e', v) \<Rightarrow> Some v | None \<Rightarrow> None)
      then Some (kv\<lparr>dk_entries := (dk_entries kv)(k \<mapsto> (s, e, dk_next kv)), dk_next := dk_next kv + 1\<rparr>)
      else None)"

definition deno_reset :: "'s deno_kv \<Rightarrow> string list \<Rightarrow> 's deno_kv" where
  "deno_reset kv k = kv\<lparr>dk_entries := (dk_entries kv)(k := None)\<rparr>"

section \<open>The loop (\#applyCas)\<close>

text \<open>
  An application waits for its read (with the number of its attempt) or for its conditional write (with the time and
  version it read and the outcome of its transform), or has ended. \<open>tick\<close> is what the store makes of its clock.
\<close>

datatype ('s, 'r) cas_phase =
    At_Get nat
  | At_Put nat num "nat option" "('s, 'r) apply_outcome"
  | Returned 'r
  | Exhausted
  | Thrown

record ('k, 's, 'r) cas_proc =
  cp_store :: nat
  cp_key :: 'k
  cp_f :: "('s, 'r) transform"
  cp_phase :: "('s, 'r) cas_phase"

definition cas_start :: "nat \<Rightarrow> 'k \<Rightarrow> ('s, 'r) transform \<Rightarrow> ('k, 's, 'r) cas_proc" where
  "cas_start store fullKey f = \<lparr>cp_store = store, cp_key = fullKey, cp_f = f, cp_phase = At_Get 0\<rparr>"

definition live_state :: "num \<Rightarrow> ('s option \<times> num) option \<Rightarrow> 's option" where
  "live_state now entry = (case entry of Some (s, e) \<Rightarrow> if e > now then s else None | None \<Rightarrow> None)"

definition entry_of :: "('s option \<times> num \<times> nat) option \<Rightarrow> ('s option \<times> num) option" where
  "entry_of row = (case row of Some (s, e, v) \<Rightarrow> Some (s, e) | None \<Rightarrow> None)"

definition version_of :: "('s option \<times> num \<times> nat) option \<Rightarrow> nat option" where
  "version_of row = (case row of Some (s, e, v) \<Rightarrow> Some v | None \<Rightarrow> None)"

definition expiry_of :: "num \<Rightarrow> ('s, 'r) apply_outcome \<Rightarrow> num" where
  "expiry_of now out = now + max 1 (js_ceil (o_ttlMs out))"

definition cas_get :: "('db \<Rightarrow> 'k \<Rightarrow> ('s option \<times> num \<times> nat) option) \<Rightarrow> (num \<Rightarrow> num) \<Rightarrow> num \<Rightarrow> 'db \<Rightarrow> nat \<Rightarrow> ('k, 's, 'r) cas_proc \<Rightarrow> ('s, 'r) cas_phase" where
  "cas_get get tick clock db attempt p =
     (let now = tick clock;
          row = get db (cp_key p);
          out = cp_f p (live_state now (entry_of row))
      in if \<not> o_persist out then Returned (o_result out) else At_Put attempt now (version_of row) out)"

definition cas_put ::
  "('db \<Rightarrow> 'k \<Rightarrow> nat option \<Rightarrow> 's option \<Rightarrow> num \<Rightarrow> 'db option) \<Rightarrow> nat \<Rightarrow> 'db \<Rightarrow> 'k \<Rightarrow> nat \<Rightarrow> num \<Rightarrow> nat option \<Rightarrow> ('s, 'r) apply_outcome \<Rightarrow>
   ('s, 'r) cas_phase \<times> 'db" where
  "cas_put put maxRetries db k attempt now version out =
     (case put db k version (o_state out) (expiry_of now out) of
        Some db' \<Rightarrow> (Returned (o_result out), db')
      | None \<Rightarrow> (if attempt < maxRetries then At_Get (attempt + 1) else Exhausted, db))"

text \<open>
  \<open>#withKeyLock\<close>: an application runs when those that the same store began before it on the same key have ended.
\<close>

definition ended :: "('k, 's, 'r) cas_proc \<Rightarrow> bool" where
  "ended p = (case cp_phase p of At_Get a \<Rightarrow> False | At_Put a now v out \<Rightarrow> False | _ \<Rightarrow> True)"

definition unlocked :: "('k, 's, 'r) cas_proc list \<Rightarrow> nat \<Rightarrow> bool" where
  "unlocked ps i \<longleftrightarrow> (\<forall>j<i. cp_store (ps ! j) = cp_store (ps ! i) \<and> cp_key (ps ! j) = cp_key (ps ! i) \<longrightarrow> ended (ps ! j))"

section \<open>Any number of processes\<close>

text \<open>
  The steps of all processes on one database, with the history of what took effect. A client may throw before or after
  its write took effect. Where keys may be deleted (\<open>reset\<close>, or the database reclaiming storage), \<open>del\<close> says how.
\<close>

datatype ('k, 's, 'r) cas_event = Applied nat 'k "('s, 'r) transform" num 'r | Forgot 'k

abbreviation phase_set :: "('k, 's, 'r) cas_proc list \<Rightarrow> nat \<Rightarrow> ('s, 'r) cas_phase \<Rightarrow> ('k, 's, 'r) cas_proc list" where
  "phase_set ps i ph \<equiv> ps[i := (ps ! i)\<lparr>cp_phase := ph\<rparr>]"

inductive cas_step ::
  "('db \<Rightarrow> 'k \<Rightarrow> ('s option \<times> num \<times> nat) option) \<Rightarrow> ('db \<Rightarrow> 'k \<Rightarrow> nat option \<Rightarrow> 's option \<Rightarrow> num \<Rightarrow> 'db option) \<Rightarrow>
   ('db \<Rightarrow> 'k \<Rightarrow> 'db) option \<Rightarrow> (num \<Rightarrow> num) \<Rightarrow> nat \<Rightarrow>
   'db \<times> ('k, 's, 'r) cas_proc list \<times> ('k, 's, 'r) cas_event list \<Rightarrow>
   'db \<times> ('k, 's, 'r) cas_proc list \<times> ('k, 's, 'r) cas_event list \<Rightarrow> bool"
  for get put del tick maxRetries where
  Start: "cas_step get put del tick maxRetries (db, ps, h) (db, ps @ [cas_start sid k f], h)"
| Read_Only: "i < length ps \<Longrightarrow> unlocked ps i \<Longrightarrow> cp_phase (ps ! i) = At_Get a \<Longrightarrow> cas_get get tick clock db a (ps ! i) = Returned r \<Longrightarrow>
    cas_step get put del tick maxRetries (db, ps, h)
      (db, phase_set ps i (Returned r), h @ [Applied i (cp_key (ps ! i)) (cp_f (ps ! i)) (tick clock) r])"
| Read: "i < length ps \<Longrightarrow> unlocked ps i \<Longrightarrow> cp_phase (ps ! i) = At_Get a \<Longrightarrow> cas_get get tick clock db a (ps ! i) = At_Put a now v out \<Longrightarrow>
    cas_step get put del tick maxRetries (db, ps, h) (db, phase_set ps i (At_Put a now v out), h)"
| Commit: "i < length ps \<Longrightarrow> cp_phase (ps ! i) = At_Put a now v out \<Longrightarrow>
    cas_put put maxRetries db (cp_key (ps ! i)) a now v out = (Returned r, db') \<Longrightarrow>
    cas_step get put del tick maxRetries (db, ps, h)
      (db', phase_set ps i (Returned r), h @ [Applied i (cp_key (ps ! i)) (cp_f (ps ! i)) now r])"
| Conflict: "i < length ps \<Longrightarrow> cp_phase (ps ! i) = At_Put a now v out \<Longrightarrow>
    cas_put put maxRetries db (cp_key (ps ! i)) a now v out = (ph, db') \<Longrightarrow> \<forall>r. ph \<noteq> Returned r \<Longrightarrow>
    cas_step get put del tick maxRetries (db, ps, h) (db', phase_set ps i ph, h)"
| Throw: "i < length ps \<Longrightarrow> \<not> ended (ps ! i) \<Longrightarrow> cas_step get put del tick maxRetries (db, ps, h) (db, phase_set ps i Thrown, h)"
| Lost_Reply: "i < length ps \<Longrightarrow> cp_phase (ps ! i) = At_Put a now v out \<Longrightarrow>
    cas_put put maxRetries db (cp_key (ps ! i)) a now v out = (Returned r, db') \<Longrightarrow>
    cas_step get put del tick maxRetries (db, ps, h)
      (db', phase_set ps i Thrown, h @ [Applied i (cp_key (ps ! i)) (cp_f (ps ! i)) now r])"
| Delete: "del = Some d \<Longrightarrow> cas_step get put del tick maxRetries (db, ps, h) (d db k, ps, h @ [Forgot k])"

text \<open>The specification: one entry per key, each application atomic.\<close>

definition spec_apply :: "('k \<Rightarrow> ('s option \<times> num) option) \<Rightarrow> 'k \<Rightarrow> ('s, 'r) transform \<Rightarrow> num \<Rightarrow> 'r \<times> ('k \<Rightarrow> ('s option \<times> num) option)" where
  "spec_apply c k f now =
     (let out = f (live_state now (c k))
      in (o_result out, if o_persist out then c(k \<mapsto> (o_state out, expiry_of now out)) else c))"

fun sequential :: "('k \<Rightarrow> ('s option \<times> num) option) \<Rightarrow> ('k, 's, 'r) cas_event list \<Rightarrow> ('k \<Rightarrow> ('s option \<times> num) option) \<Rightarrow> bool" where
  "sequential c [] c' = (c' = c)"
| "sequential c (Applied i k f now r # es) c' = (fst (spec_apply c k f now) = r \<and> sequential (snd (spec_apply c k f now)) es c')"
| "sequential c (Forgot k # es) c' = sequential (c(k := None)) es c'"

definition effects_of :: "nat \<Rightarrow> ('k, 's, 'r) cas_event list \<Rightarrow> ('k, 's, 'r) cas_event list" where
  "effects_of i h = filter (\<lambda>e. case e of Applied j k f now r \<Rightarrow> j = i | Forgot k \<Rightarrow> False) h"

text \<open>A returned application took effect once, with the result it returned; an exhausted one never; a thrown one at most once.\<close>

definition effects_right :: "('k, 's, 'r) cas_event list \<Rightarrow> nat \<Rightarrow> ('k, 's, 'r) cas_proc \<Rightarrow> bool" where
  "effects_right h i p =
     (case cp_phase p of
        Returned r \<Rightarrow> \<exists>now. effects_of i h = [Applied i (cp_key p) (cp_f p) now r]
      | Thrown \<Rightarrow> effects_of i h = [] \<or> (\<exists>now r. effects_of i h = [Applied i (cp_key p) (cp_f p) now r])
      | _ \<Rightarrow> effects_of i h = [])"

lemma sequential_append: "sequential c (xs @ ys) c'' \<longleftrightarrow> (\<exists>c'. sequential c xs c' \<and> sequential c' ys c'')"
proof (induction xs arbitrary: c)
  case (Cons e es)
  then show ?case by (cases e) (simp_all del: fun_upd_apply)
qed simp

lemma effects_of_snoc [simp]:
  "effects_of i (h @ [Applied j k f now r]) = effects_of i h @ (if j = i then [Applied j k f now r] else [])"
  "effects_of i (h @ [Forgot k']) = effects_of i h"
  by (simp_all add: effects_of_def)

lemma effects_right_frame: "j \<noteq> i \<Longrightarrow> effects_right (h @ [Applied i k f now r]) j p = effects_right h j p"
  by (cases "cp_phase p") (simp_all add: effects_right_def)

lemma effects_right_forgot: "effects_right (h @ [Forgot k]) j p = effects_right h j p"
  by (cases "cp_phase p") (simp_all add: effects_right_def)

lemma store_kept: "j < length ps \<Longrightarrow> cp_store (phase_set ps i ph ! j) = cp_store (ps ! j)"
  by (cases "i = j") simp_all

lemma stores_kept:
  assumes "\<forall>p\<in>set (phase_set ps i ph). cp_store p = sid"
  shows "\<forall>p\<in>set ps. cp_store p = sid"
proof
  fix p assume "p \<in> set ps"
  then obtain j where "j < length ps" "p = ps ! j" by (metis in_set_conv_nth)
  then show "cp_store p = sid" using assms store_kept[of j ps i ph] by (metis length_list_update nth_mem)
qed

lemma step_stores:
  assumes "cas_step get put del tick m s s'" "\<forall>p\<in>set (fst (snd s')). cp_store p = sid"
  shows "\<forall>p\<in>set (fst (snd s)). cp_store p = sid"
  using assms by (cases rule: cas_step.cases) (auto dest: stores_kept)

section \<open>The contract of a conditional write\<close>

text \<open>
  What the loop needs of a database: a write is accepted exactly when the version is the current one, and a version
  once seen at a key (\<open>seen\<close>) is not given out there again.
\<close>

locale cas_table =
  fixes get :: "'db \<Rightarrow> 'k \<Rightarrow> ('s option \<times> num \<times> nat) option"
    and put :: "'db \<Rightarrow> 'k \<Rightarrow> nat option \<Rightarrow> 's option \<Rightarrow> num \<Rightarrow> 'db option"
    and del :: "('db \<Rightarrow> 'k \<Rightarrow> 'db) option"
    and seen :: "'db \<Rightarrow> 'k \<Rightarrow> nat \<Rightarrow> bool"
    and ok :: "'db \<Rightarrow> bool"
  assumes put_current: "ok db \<Longrightarrow> put db k v s e \<noteq> None \<longleftrightarrow> v = version_of (get db k)"
    and put_ok: "ok db \<Longrightarrow> put db k v s e = Some db' \<Longrightarrow> ok db'"
    and put_key: "ok db \<Longrightarrow> put db k v s e = Some db' \<Longrightarrow> entry_of (get db' k) = Some (s, e)"
    and put_frame: "ok db \<Longrightarrow> put db k v s e = Some db' \<Longrightarrow> k' \<noteq> k \<Longrightarrow> get db' k' = get db k'"
    and put_new: "ok db \<Longrightarrow> put db k v s e = Some db' \<Longrightarrow> version_of (get db' k) = Some w \<Longrightarrow> \<not> seen db k w"
    and put_seen: "ok db \<Longrightarrow> put db k' v s e = Some db' \<Longrightarrow> seen db k w \<Longrightarrow> seen db' k w"
    and current_seen: "ok db \<Longrightarrow> version_of (get db k) = Some w \<Longrightarrow> seen db k w"
    and del_ok: "del = Some d \<Longrightarrow> ok db \<Longrightarrow> ok (d db k)"
    and del_get: "del = Some d \<Longrightarrow> ok db \<Longrightarrow> get (d db k) = (get db)(k := None)"
    and del_seen: "del = Some d \<Longrightarrow> ok db \<Longrightarrow> seen db k w \<Longrightarrow> seen (d db k') k w"
begin

definition cells :: "'db \<Rightarrow> 'k \<Rightarrow> ('s option \<times> num) option" where
  "cells db k = entry_of (get db k)"

lemma cells_put: "ok db \<Longrightarrow> put db k v s e = Some db' \<Longrightarrow> cells db' = (cells db)(k \<mapsto> (s, e))"
  by (auto simp: cells_def fun_eq_iff put_key put_frame)

lemma cells_del: "ok db \<Longrightarrow> del = Some d \<Longrightarrow> cells (d db k) = (cells db)(k := None)"
  by (auto simp: cells_def fun_eq_iff del_get entry_of_def)

text \<open>An outcome that waits for its write stands on what its version still is, if that version is current.\<close>

definition stands :: "'db \<Rightarrow> 'k \<Rightarrow> ('s, 'r) transform \<Rightarrow> num \<Rightarrow> nat option \<Rightarrow> ('s, 'r) apply_outcome \<Rightarrow> bool" where
  "stands db k f now v out \<longleftrightarrow> o_persist out \<and>
     (case v of
        None \<Rightarrow> out = f None
      | Some w \<Rightarrow> seen db k w \<and> (version_of (get db k) = Some w \<longrightarrow> out = f (live_state now (cells db k))))"

lemma no_row: "version_of (get db k) = None \<Longrightarrow> live_state now (cells db k) = None"
  by (auto simp: version_of_def cells_def entry_of_def live_state_def split: option.splits)

lemma stands_read: "ok db \<Longrightarrow> o_persist (f (live_state now (cells db k))) \<Longrightarrow> stands db k f now (version_of (get db k)) (f (live_state now (cells db k)))"
  by (auto simp: stands_def current_seen no_row split: option.split)

lemma stands_current: "stands db k f now (version_of (get db k)) out \<Longrightarrow> o_persist out \<and> out = f (live_state now (cells db k))"
  by (auto simp: stands_def no_row split: option.splits)

lemma stands_put: "ok db \<Longrightarrow> put db k' v' s e = Some db' \<Longrightarrow> stands db k f now v out \<Longrightarrow> stands db' k f now v out"
  by (cases "k' = k") (auto simp: stands_def put_frame cells_def put_seen dest: put_new split: option.splits)

lemma stands_del: "ok db \<Longrightarrow> del = Some d \<Longrightarrow> stands db k f now v out \<Longrightarrow> stands (d db k') k f now v out"
  by (auto simp: stands_def del_get cells_def del_seen version_of_def split: option.splits)

text \<open>The history explains the database, and every application is where the history says.\<close>

definition waits_right :: "'db \<Rightarrow> ('k, 's, 'r) cas_proc \<Rightarrow> bool" where
  "waits_right db p \<longleftrightarrow> (case cp_phase p of At_Put a now v out \<Rightarrow> stands db (cp_key p) (cp_f p) now v out | _ \<Rightarrow> True)"

definition explained :: "('k \<Rightarrow> ('s option \<times> num) option) \<Rightarrow> 'db \<times> ('k, 's, 'r) cas_proc list \<times> ('k, 's, 'r) cas_event list \<Rightarrow> bool" where
  "explained c0 s \<longleftrightarrow> (case s of (db, ps, h) \<Rightarrow>
     ok db \<and> sequential c0 h (cells db) \<and> (\<forall>i<length ps. effects_right h i (ps ! i) \<and> waits_right db (ps ! i)) \<and>
     (\<forall>i\<ge>length ps. effects_of i h = []))"

lemma explained_put:
  assumes "explained c0 (db, ps, h)" "i < length ps" "cp_phase (ps ! i) = At_Put a now v out"
    "cas_put put m db (cp_key (ps ! i)) a now v out = (Returned r, db')"
    "ph = Returned r \<or> ph = Thrown"
  shows "explained c0 (db', phase_set ps i ph, h @ [Applied i (cp_key (ps ! i)) (cp_f (ps ! i)) now r])"
proof -
  let ?k = "cp_key (ps ! i)" and ?f = "cp_f (ps ! i)"
  have db: "ok db" using assms(1) by (simp add: explained_def)
  have w: "put db ?k v (o_state out) (expiry_of now out) = Some db'" "r = o_result out"
    using assms(4) by (auto simp: cas_put_def split: option.splits if_splits)
  have "v = version_of (get db ?k)" using put_current[OF db, of ?k v "o_state out" "expiry_of now out"] w(1) by simp
  have here: "effects_right h i (ps ! i)" "waits_right db (ps ! i)" using assms(1,2) by (auto simp: explained_def)
  have out: "o_persist out" "out = ?f (live_state now (cells db ?k))"
    using here(2) stands_current[of db ?k ?f now out] \<open>v = version_of (get db ?k)\<close> assms(3) by (auto simp: waits_right_def)
  have "spec_apply (cells db) ?k ?f now = (r, cells db')"
    using cells_put[OF db w(1)] out w(2) by (simp add: spec_apply_def Let_def)
  then have seq: "sequential c0 (h @ [Applied i ?k ?f now r]) (cells db')"
    using assms(1) by (auto simp: explained_def sequential_append)
  have none: "effects_of i h = []" using here(1) assms(3) by (simp add: effects_right_def)
  have "effects_right (h @ [Applied i ?k ?f now r]) j (phase_set ps i ph ! j) \<and> waits_right db' (phase_set ps i ph ! j)"
    if "j < length ps" for j
  proof (cases "j = i")
    case True
    then show ?thesis using assms(2,5) none by (auto simp: effects_right_def waits_right_def)
  next
    case False
    then have "effects_right h j (ps ! j)" "waits_right db (ps ! j)" using assms(1) that by (auto simp: explained_def)
    then show ?thesis using False stands_put[OF db w(1)]
      by (auto simp: effects_right_frame waits_right_def split: cas_phase.splits)
  qed
  then show ?thesis using seq assms(1,2) put_ok[OF db w(1)] by (auto simp: explained_def)
qed

lemma explained_phase:
  assumes "explained c0 (db, ps, h)" "i < length ps" "effects_right h i ((ps ! i)\<lparr>cp_phase := ph\<rparr>)"
    "waits_right db ((ps ! i)\<lparr>cp_phase := ph\<rparr>)"
  shows "explained c0 (db, phase_set ps i ph, h)"
  using assms by (auto simp: explained_def nth_list_update)

lemma explained_step:
  assumes "cas_step get put del tick m s s'" "explained c0 s"
  shows "explained c0 s'"
  using assms
proof (cases rule: cas_step.cases)
  case (Start db ps h sid k f)
  let ?p = "cas_start sid k f"
  have new: "effects_right h (length ps) ?p \<and> waits_right db ?p"
    using assms(2) Start(1) by (auto simp: explained_def effects_right_def waits_right_def cas_start_def)
  have "effects_right h i ((ps @ [?p]) ! i) \<and> waits_right db ((ps @ [?p]) ! i)" if "i < length (ps @ [?p])" for i
  proof (cases "i = length ps")
    case True
    then show ?thesis using new by simp
  next
    case False
    then show ?thesis using assms(2) Start(1) that by (auto simp: explained_def nth_append)
  qed
  then show ?thesis using assms(2) Start(1,2) by (auto simp: explained_def)
next
  case (Read_Only i ps a clock db r h)
  let ?k = "cp_key (ps ! i)" and ?f = "cp_f (ps ! i)" and ?now = "tick clock"
  have here: "effects_of i h = []" using assms(2) Read_Only by (auto simp: explained_def effects_right_def)
  have "spec_apply (cells db) ?k ?f ?now = (r, cells db)"
    using Read_Only(6) by (auto simp: cas_get_def Let_def spec_apply_def cells_def split: if_splits)
  then have seq: "sequential c0 (h @ [Applied i ?k ?f ?now r]) (cells db)"
    using assms(2) Read_Only(1) by (auto simp: explained_def sequential_append)
  have "effects_right (h @ [Applied i ?k ?f ?now r]) j (phase_set ps i (Returned r) ! j) \<and> waits_right db (phase_set ps i (Returned r) ! j)"
    if "j < length ps" for j
  proof (cases "j = i")
    case True
    then show ?thesis using Read_Only(3) here by (auto simp: effects_right_def waits_right_def)
  next
    case False
    then show ?thesis using assms(2) that Read_Only(1) by (auto simp: explained_def effects_right_frame)
  qed
  then show ?thesis using seq assms(2) Read_Only(1-3) by (auto simp: explained_def)
next
  case (Read i ps a clock db now v out h)
  have "waits_right db ((ps ! i)\<lparr>cp_phase := At_Put a now v out\<rparr>)"
    using Read(6) stands_read[of db "cp_f (ps ! i)" "tick clock" "cp_key (ps ! i)"] assms(2) Read(1)
    by (auto simp: waits_right_def cas_get_def Let_def cells_def explained_def split: if_splits)
  moreover have "effects_right h i ((ps ! i)\<lparr>cp_phase := At_Put a now v out\<rparr>)"
    using assms(2) Read by (auto simp: explained_def effects_right_def)
  ultimately show ?thesis using explained_phase assms(2) Read(1-3) by blast
next
  case (Commit i ps a now v out db r db' h)
  then show ?thesis using explained_put[of c0 db ps h i a now v out m r db' "Returned r"] assms(2) by blast
next
  case (Conflict i ps a now v out db ph db' h)
  have "db' = db" "\<forall>b t w q. ph \<noteq> At_Put b t w q" "ph \<noteq> Thrown"
    using Conflict(5,6) by (auto simp: cas_put_def split: option.splits if_splits)
  moreover have "effects_of i h = []" using assms(2) Conflict(1,3,4) by (auto simp: explained_def effects_right_def)
  ultimately show ?thesis using explained_phase[of c0 db ps h i ph] assms(2) Conflict(1,2,3,6)
    by (auto simp: effects_right_def waits_right_def split: cas_phase.splits)
next
  case (Throw i ps db h)
  have "effects_of i h = []" using assms(2) Throw(1,3,4) by (auto simp: explained_def effects_right_def ended_def split: cas_phase.splits)
  then show ?thesis using explained_phase[of c0 db ps h i Thrown] assms(2) Throw(1-3) by (auto simp: effects_right_def waits_right_def)
next
  case (Lost_Reply i ps a now v out db r db' h)
  then show ?thesis using explained_put[of c0 db ps h i a now v out m r db' Thrown] assms(2) by blast
next
  case (Delete d db ps h k)
  have db: "ok db" using assms(2) Delete(1) by (simp add: explained_def)
  have "waits_right (d db k) p" if "waits_right db p" for p :: "('k, 's, 'r) cas_proc"
    using that stands_del[OF db Delete(3)] by (auto simp: waits_right_def split: cas_phase.splits)
  then show ?thesis using assms(2) Delete(1,2) cells_del[OF db Delete(3)] del_ok[OF Delete(3) db]
    by (auto simp: explained_def sequential_append effects_right_forgot)
qed

lemma explained_run:
  assumes "ok db0" "(cas_step get put del tick m)\<^sup>*\<^sup>* (db0, [], []) s"
  shows "explained (cells db0) s"
proof -
  have "explained (cells db0) (db0, [], [])" using assms(1) by (simp add: explained_def effects_of_def)
  with assms(2) show ?thesis by (induction rule: rtranclp_induct) (auto intro: explained_step)
qed

text \<open>One process alone, where nothing is deleted: the lock leaves each version as it was read.\<close>

definition calm_proc :: "'db \<Rightarrow> ('k, 's, 'r) cas_proc list \<Rightarrow> nat \<Rightarrow> bool" where
  "calm_proc db ps i \<longleftrightarrow> (case cp_phase (ps ! i) of
        At_Get a \<Rightarrow> a = 0
      | At_Put a now v out \<Rightarrow> a = 0 \<and> unlocked ps i \<and> v = version_of (get db (cp_key (ps ! i)))
      | Exhausted \<Rightarrow> False
      | _ \<Rightarrow> True)"

definition calm :: "nat \<Rightarrow> 'db \<times> ('k, 's, 'r) cas_proc list \<times> ('k, 's, 'r) cas_event list \<Rightarrow> bool" where
  "calm sid s \<longleftrightarrow> (case s of (db, ps, h) \<Rightarrow> ok db \<and> (\<forall>p\<in>set ps. cp_store p = sid) \<and> (\<forall>i<length ps. calm_proc db ps i))"

lemma unlocked_phase:
  assumes "unlocked ps i" "\<not> ended (ps ! j)" "j < length ps" "i < length ps"
  shows "unlocked (phase_set ps j ph) i"
  using assms by (auto simp: unlocked_def nth_list_update)

lemma one_unlocked:
  assumes "unlocked ps i" "unlocked ps j" "\<not> ended (ps ! i)" "\<not> ended (ps ! j)"
    "cp_store (ps ! i) = cp_store (ps ! j)" "cp_key (ps ! i) = cp_key (ps ! j)"
  shows "i = j"
  using assms by (metis linorder_neqE_nat unlocked_def)

text \<open>A step of one application keeps the calm when its own new phase is calm.\<close>

lemma calm_phase:
  assumes inv: "calm sid (db, ps, h)" and j: "j < length ps" "\<not> ended (ps ! j)"
    and new: "case ph of At_Get a \<Rightarrow> a = 0 | At_Put a now v out \<Rightarrow> a = 0 \<and> unlocked ps j \<and> v = version_of (get db' (cp_key (ps ! j)))
      | Exhausted \<Rightarrow> False | _ \<Rightarrow> True"
    and db: "db' = db \<or> (unlocked ps j \<and> (\<forall>k. k \<noteq> cp_key (ps ! j) \<longrightarrow> get db' k = get db k))" and ok: "ok db'"
  shows "calm sid (db', phase_set ps j ph, h')"
proof -
  have "calm_proc db' (phase_set ps j ph) i" if i: "i < length ps" for i
  proof (cases "i = j")
    case True
    then show ?thesis using new j unlocked_phase[OF _ j(2,1), of j ph] by (auto simp: calm_proc_def split: cas_phase.splits)
  next
    case False
    have old: "calm_proc db ps i" using inv i by (simp add: calm_def)
    show ?thesis
    proof (cases "cp_phase (ps ! i)")
      case (At_Put a now v out)
      have o: "a = 0" "unlocked ps i" "v = version_of (get db (cp_key (ps ! i)))"
        using old by (auto simp: calm_proc_def At_Put)
      have "\<not> ended (ps ! i)" "cp_store (ps ! i) = cp_store (ps ! j)" using inv i j(1) by (auto simp: ended_def At_Put calm_def)
      then have "db' = db \<or> cp_key (ps ! i) \<noteq> cp_key (ps ! j)"
        using db one_unlocked[OF o(2) _ _ j(2)] False by auto
      then have "get db' (cp_key (ps ! i)) = get db (cp_key (ps ! i))" using db by auto
      then show ?thesis using False At_Put o unlocked_phase[OF o(2) j(2,1) i, of ph] by (simp add: calm_proc_def)
    qed (use old False in \<open>auto simp: calm_proc_def\<close>)
  qed
  moreover have "cp_store (phase_set ps j ph ! i) = sid" if "i < length ps" for i
    using inv that store_kept[OF that, of j ph] by (simp add: calm_def)
  ultimately show ?thesis using ok by (auto simp: calm_def in_set_conv_nth)
qed

lemma calm_write:
  assumes "calm sid (db, ps, h)" "i < length ps" "cp_phase (ps ! i) = At_Put a now v out"
    "cas_put put m db (cp_key (ps ! i)) a now v out = (q, db')"
  shows "(\<exists>r. q = Returned r) \<and> (\<forall>k. k \<noteq> cp_key (ps ! i) \<longrightarrow> get db' k = get db k) \<and> ok db' \<and> unlocked ps i"
proof -
  have db: "ok db" and c: "calm_proc db ps i" using assms(1,2) by (auto simp: calm_def)
  have "v = version_of (get db (cp_key (ps ! i)))" "unlocked ps i" using c by (auto simp: calm_proc_def assms(3))
  moreover obtain db1 where "put db (cp_key (ps ! i)) v (o_state out) (expiry_of now out) = Some db1"
    using put_current[OF db, of "cp_key (ps ! i)" v "o_state out" "expiry_of now out"] calculation(1) by auto
  ultimately show ?thesis using assms(4) put_frame[OF db] put_ok[OF db] by (auto simp: cas_put_def)
qed

lemma calm_step:
  assumes "cas_step get put None tick m s s'" "calm sid s" "\<forall>p\<in>set (fst (snd s')). cp_store p = sid"
  shows "calm sid s'"
  using assms(1)
proof (cases rule: cas_step.cases)
  case (Start db ps h sid' k f)
  have "calm_proc db (ps @ [cas_start sid' k f]) i" if "i < Suc (length ps)" for i
  proof (cases "i < length ps")
    case True
    then have "calm_proc db ps i" "unlocked (ps @ [cas_start sid' k f]) i = unlocked ps i"
      using assms(2) Start(1) by (auto simp: calm_def unlocked_def nth_append)
    then show ?thesis using True by (simp add: calm_proc_def nth_append split: cas_phase.splits)
  next
    case False
    then show ?thesis using that by (simp add: calm_proc_def cas_start_def less_Suc_eq)
  qed
  then show ?thesis using assms(2,3) Start(1,2) by (auto simp: calm_def)
next
  case (Read_Only i ps a clock db r h)
  have "\<not> ended (ps ! i)" by (simp add: ended_def Read_Only(5))
  then show ?thesis using calm_phase[where sid = sid and db = db and ps = ps and h = h and j = i and ph = "Returned r" and db' = db] assms(2) Read_Only(1-3) by (auto simp: calm_def)
next
  case (Read i ps a clock db now v out h)
  have "\<not> ended (ps ! i)" by (simp add: ended_def Read(5))
  moreover have "a = 0" using assms(2) Read(1,3,5) by (auto simp: calm_def calm_proc_def)
  moreover have "v = version_of (get db (cp_key (ps ! i)))" using Read(6) by (auto simp: cas_get_def Let_def split: if_splits)
  ultimately show ?thesis using calm_phase[where sid = sid and db = db and ps = ps and h = h and j = i and ph = "At_Put a now v out" and db' = db] assms(2) Read(1-4) by (auto simp: calm_def)
next
  case (Commit i ps a now v out db r db' h)
  have "\<not> ended (ps ! i)" by (simp add: ended_def Commit(4))
  then show ?thesis using calm_phase[where sid = sid and db = db and ps = ps and h = h and j = i and ph = "Returned r" and db' = db'] calm_write[where sid = sid and db = db and ps = ps and h = h and i = i and a = a and now = now and v = v and out = out and m = m and q = "Returned r" and db' = db'] assms(2) Commit
    by auto
next
  case (Conflict i ps a now v out db ph db' h)
  then show ?thesis using calm_write[where sid = sid and db = db and ps = ps and h = h and i = i and a = a and now = now and v = v and out = out and m = m and q = ph and db' = db'] assms(2) by auto
next
  case (Throw i ps db h)
  then show ?thesis using calm_phase[where sid = sid and db = db and ps = ps and h = h and j = i and ph = Thrown and db' = db] assms(2) by (auto simp: calm_def)
next
  case (Lost_Reply i ps a now v out db r db' h)
  have "\<not> ended (ps ! i)" by (simp add: ended_def Lost_Reply(4))
  then show ?thesis using calm_phase[where sid = sid and db = db and ps = ps and h = h and j = i and ph = Thrown and db' = db'] calm_write[where sid = sid and db = db and ps = ps and h = h and i = i and a = a and now = now and v = v and out = out and m = m and q = "Returned r" and db' = db'] assms(2) Lost_Reply
    by auto
next
  case (Delete d db ps h k)
  then show ?thesis by simp
qed

lemma calm_run:
  assumes "ok db0" "(cas_step get put None tick m)\<^sup>*\<^sup>* (db0, [], []) s" "\<forall>p\<in>set (fst (snd s)). cp_store p = sid"
  shows "calm sid s"
  using assms(2,3)
proof (induction rule: rtranclp_induct)
  case base
  then show ?case using assms(1) by (simp add: calm_def)
next
  case (step s t)
  show ?case by (rule calm_step[OF step.hyps(2) step.IH[OF step_stores[OF step.hyps(2) step.prems]] step.prems])
qed

text \<open>Two processes race for an absent key: the second loses its write, reads again, and lands on top of the first.\<close>

lemma race_writes:
  fixes f :: "('s, 'r) transform"
  assumes "ok db" "get db k = None" "o_persist (f None)" "o_persist (f (Some s1))" "o_state (f None) = Some s1"
  obtains db1 w db2 where "put db k None (Some s1) (expiry_of now (f None)) = Some db1"
    "put db1 k None (Some s1) (expiry_of now (f None)) = None"
    "put db1 k (Some w) (o_state (f (Some s1))) (expiry_of now (f (Some s1))) = Some db2"
    "live_state now (entry_of (get db1 k)) = Some s1" "version_of (get db1 k) = Some w"
proof -
  have none: "version_of (get db k) = None" by (simp add: assms(2) version_of_def)
  obtain db1 where p1: "put db k None (Some s1) (expiry_of now (f None)) = Some db1"
    using put_current[OF assms(1), of k None "Some s1" "expiry_of now (f None)"] none by auto
  have ok1: "ok db1" by (rule put_ok[OF assms(1) p1])
  have e1: "entry_of (get db1 k) = Some (Some s1, expiry_of now (f None))" by (rule put_key[OF assms(1) p1])
  then obtain w where w: "version_of (get db1 k) = Some w" by (auto simp: entry_of_def version_of_def split: option.splits)
  moreover have "put db1 k None (Some s1) (expiry_of now (f None)) = None"
    using put_current[OF ok1, of k None "Some s1" "expiry_of now (f None)"] w by auto
  moreover obtain db2 where "put db1 k (Some w) (o_state (f (Some s1))) (expiry_of now (f (Some s1))) = Some db2"
    using put_current[OF ok1, of k "Some w" "o_state (f (Some s1))" "expiry_of now (f (Some s1))"] w by auto
  moreover have "live_state now (entry_of (get db1 k)) = Some s1" using e1 by (simp add: live_state_def expiry_of_def)
  ultimately show ?thesis using that p1 by blast
qed

lemma race_runs:
  fixes f :: "('s, 'r) transform"
  assumes "ok db" "get db k = None" and
    f: "o_persist (f None)" "o_persist (f (Some s1))" "o_state (f None) = Some s1" "o_result (f None) = r1" "o_result (f (Some s1)) = r2"
    and m: "0 < m"
  shows "\<exists>db'. (cas_step get put del tick m)\<^sup>*\<^sup>* (db, [], [])
    (db', [\<lparr>cp_store = 0, cp_key = k, cp_f = f, cp_phase = Returned r1\<rparr>, \<lparr>cp_store = 1, cp_key = k, cp_f = f, cp_phase = Returned r2\<rparr>],
     [Applied 0 k f (tick c) r1, Applied 1 k f (tick c) r2])"
proof -
  define proc :: "nat \<Rightarrow> ('s, 'r) cas_phase \<Rightarrow> ('k, 's, 'r) cas_proc" where
    "proc n ph = \<lparr>cp_store = n, cp_key = k, cp_f = f, cp_phase = ph\<rparr>" for n ph
  have proc [simp]: "cp_phase (proc n ph) = ph" "cp_key (proc n ph) = k" "cp_f (proc n ph) = f" "cp_store (proc n ph) = n"
    "(proc n ph)\<lparr>cp_phase := ph'\<rparr> = proc n ph'" for n ph ph' by (simp_all add: proc_def)
  obtain db1 w db2 where p: "put db k None (Some s1) (expiry_of (tick c) (f None)) = Some db1"
    "put db1 k None (Some s1) (expiry_of (tick c) (f None)) = None"
    "put db1 k (Some w) (o_state (f (Some s1))) (expiry_of (tick c) (f (Some s1))) = Some db2"
    and r: "live_state (tick c) (entry_of (get db1 k)) = Some s1" "version_of (get db1 k) = Some w"
    using race_writes[OF assms(1,2) f(1,2,3), of "tick c"] by blast
  let ?W = "At_Put 0 (tick c) None (f None)" and ?V = "At_Put 1 (tick c) (Some w) (f (Some s1))"
  let ?a = "Applied 0 k f (tick c) r1" and ?run = "(cas_step get put del tick m)\<^sup>*\<^sup>* (db, [], [])"
  note step = rtranclp.rtrancl_into_rtrancl
  have free: "unlocked [proc 0 x, proc 1 y] 0" "unlocked [proc 0 x, proc 1 y] 1" for x y
    by (simp_all add: unlocked_def less_Suc_eq)
  have read: "cas_get get tick c db 0 (proc n x) = ?W" "cas_get get tick c db1 1 (proc n x) = ?V" for n x
    using assms(2) f r by (simp_all add: cas_get_def entry_of_def version_of_def live_state_def)
  have "?run (db, [proc 0 (At_Get 0)], [])"
    using Start[of get put del tick m db "[]" "[]" 0 k f] by (simp add: cas_start_def proc_def)
  then have "?run (db, [proc 0 (At_Get 0), proc 1 (At_Get 0)], [])"
    by (rule step) (use Start[of get put del tick m db "[proc 0 (At_Get 0)]" "[]" 1 k f] in \<open>simp add: cas_start_def proc_def\<close>)
  then have "?run (db, [proc 0 ?W, proc 1 (At_Get 0)], [])"
    by (rule step) (use Read[where i = 0 and ps = "[proc 0 (At_Get 0), proc 1 (At_Get 0)]" and get = get and clock = c] free read in \<open>simp\<close>)
  then have "?run (db, [proc 0 ?W, proc 1 ?W], [])"
    by (rule step) (use Read[where i = 1 and ps = "[proc 0 ?W, proc 1 (At_Get 0)]" and get = get and clock = c] free read in \<open>simp\<close>)
  then have "?run (db1, [proc 0 (Returned r1), proc 1 ?W], [?a])"
    by (rule step) (use Commit[where i = 0 and ps = "[proc 0 ?W, proc 1 ?W]" and put = put and db = db and db' = db1 and h = "[]"] p f
        in \<open>simp add: cas_put_def\<close>)
  then have "?run (db1, [proc 0 (Returned r1), proc 1 (At_Get 1)], [?a])"
    by (rule step) (use Conflict[where i = 1 and ps = "[proc 0 (Returned r1), proc 1 ?W]" and put = put and db = db1 and db' = db1] p m f
        in \<open>simp add: cas_put_def\<close>)
  then have "?run (db1, [proc 0 (Returned r1), proc 1 ?V], [?a])"
    by (rule step) (use Read[where i = 1 and ps = "[proc 0 (Returned r1), proc 1 (At_Get 1)]" and get = get and clock = c and db = db1 and a = 1] free read
        in \<open>simp\<close>)
  then have "?run (db2, [proc 0 (Returned r1), proc 1 (Returned r2)], [?a, Applied 1 k f (tick c) r2])"
    by (rule step) (use Commit[where i = 1 and ps = "[proc 0 (Returned r1), proc 1 ?V]" and put = put and db = db1 and db' = db2 and h = "[?a]" and a = 1] p f
        in \<open>simp add: cas_put_def\<close>)
  then show ?thesis by (auto simp: proc_def)
qed

end

section \<open>The three databases keep the contract\<close>

definition d1_seen :: "'s d1_db \<Rightarrow> string \<Rightarrow> nat \<Rightarrow> bool" where
  "d1_seen db k w \<longleftrightarrow> (\<exists>r. db k = Some r \<and> w \<le> d1_version r)"

interpretation d1: cas_table d1_select d1_write None d1_seen "\<lambda>_. True"
  by unfold_locales
     (auto simp: d1_select_def d1_write_def d1_seen_def version_of_def entry_of_def split: option.splits if_splits)

definition dynamo_seen :: "'s dynamo_db \<Rightarrow> string \<Rightarrow> nat \<Rightarrow> bool" where
  "dynamo_seen db k w \<longleftrightarrow> (\<exists>it. db k = Some it \<and> w \<le> dy_version it)"

interpretation dynamo: cas_table dynamo_get dynamo_put None dynamo_seen "\<lambda>_. True"
  by unfold_locales
     (auto simp: dynamo_get_def dynamo_put_def dynamo_seen_def version_of_def entry_of_def Let_def split: option.splits if_splits)

text \<open>The versionstamps given out are below the counter.\<close>

definition deno_ok :: "'s deno_kv \<Rightarrow> bool" where
  "deno_ok kv \<longleftrightarrow> (\<forall>k s e v. dk_entries kv k = Some (s, e, v) \<longrightarrow> v < dk_next kv)"

definition deno_seen :: "'s deno_kv \<Rightarrow> string list \<Rightarrow> nat \<Rightarrow> bool" where
  "deno_seen kv k w \<longleftrightarrow> w < dk_next kv"

interpretation deno: cas_table dk_entries deno_commit "Some deno_reset" deno_seen deno_ok
  by unfold_locales
     (auto simp: deno_commit_def deno_reset_def deno_ok_def deno_seen_def version_of_def entry_of_def less_Suc_eq split: option.splits if_splits)

section \<open>What the stores promise\<close>

text \<open>The history explains what the database holds and what every application returned.\<close>

definition linearized :: "('k \<Rightarrow> ('s option \<times> num) option) \<Rightarrow> ('k \<Rightarrow> ('s option \<times> num) option) \<Rightarrow> ('k, 's, 'r) cas_proc list \<Rightarrow> ('k, 's, 'r) cas_event list \<Rightarrow> bool" where
  "linearized c0 c ps h \<longleftrightarrow> sequential c0 h c \<and> (\<forall>i<length ps. effects_right h i (ps ! i))"

lemma d1_linearized:
  "(cas_step d1_select d1_write None tick m)\<^sup>*\<^sup>* (db0, [], []) (db, ps, h) \<Longrightarrow>
   linearized (\<lambda>k. entry_of (d1_select db0 k)) (\<lambda>k. entry_of (d1_select db k)) ps h"
  using d1.explained_run[where ?db0.0 = db0 and tick = tick and m = m and s = "(db, ps, h)"] by (simp add: d1.explained_def linearized_def d1.cells_def[abs_def])

lemma dynamo_linearized:
  "(cas_step dynamo_get dynamo_put None tick m)\<^sup>*\<^sup>* (db0, [], []) (db, ps, h) \<Longrightarrow>
   linearized (\<lambda>k. entry_of (dynamo_get db0 k)) (\<lambda>k. entry_of (dynamo_get db k)) ps h"
  using dynamo.explained_run[where ?db0.0 = db0 and tick = tick and m = m and s = "(db, ps, h)"] by (simp add: dynamo.explained_def linearized_def dynamo.cells_def[abs_def])

lemma deno_linearized:
  "deno_ok db0 \<Longrightarrow> (cas_step dk_entries deno_commit (Some deno_reset) tick m)\<^sup>*\<^sup>* (db0, [], []) (db, ps, h) \<Longrightarrow>
   linearized (\<lambda>k. entry_of (dk_entries db0 k)) (\<lambda>k. entry_of (dk_entries db k)) ps h"
  using deno.explained_run[where ?db0.0 = db0 and tick = tick and m = m and s = "(db, ps, h)"] by (simp add: deno.explained_def linearized_def deno.cells_def[abs_def])

text \<open>A transform that counts its applications, for the runs below.\<close>

definition count_up :: "(nat, nat) transform" where
  "count_up s = (let n = (case s of Some n \<Rightarrow> n + 1 | None \<Rightarrow> 1) in \<lparr>o_state = Some n, o_result = n, o_ttlMs = 1000, o_persist = True\<rparr>)"

lemma count_up_outcome [simp]:
  "o_persist (count_up s)" "o_state (count_up None) = Some 1" "o_result (count_up None) = 1" "o_result (count_up (Some 1)) = 2"
  by (simp_all add: count_up_def Let_def)

definition deno_fresh :: "'s deno_kv" where
  "deno_fresh = \<lparr>dk_entries = (\<lambda>k. None), dk_next = 0\<rparr>"

lemma empty_table: "d1_select Map.empty k = None" "dynamo_get Map.empty k = None"
  by (simp_all add: d1_select_def dynamo_get_def)

lemma empty_cells:
  "(\<lambda>k. entry_of (d1_select Map.empty k)) = (\<lambda>k. None)" "(\<lambda>k. entry_of (dynamo_get Map.empty k)) = (\<lambda>k. None)"
  "(\<lambda>k. entry_of (dk_entries deno_fresh k)) = (\<lambda>k. None)"
  by (simp_all add: empty_table entry_of_def deno_fresh_def)

lemma deno_fresh_ok: "deno_ok deno_fresh"
  by (simp add: deno_ok_def deno_fresh_def)

text \<open>
  C16. The optimistic loop linearizes on all three databases. However many processes share a D1 or a DynamoDB table whose rows
  nobody deletes, or a Deno database with resets at any moment, whatever the interleaving of their reads and conditional writes,
  the clocks and the failures of the client, the history of commits is a sequential history of atomic applications that leads
  from the first content to the present one; every application that returned took effect exactly once, with the result it
  returned, one that ran out of retries never did, and one that threw did at most once.
\<close>

theorem optimistic_stores_linearize:
  "((cas_step d1_select d1_write None js_floor m)\<^sup>*\<^sup>* (d0, [], []) (d, dps, dh) \<longrightarrow>
      linearized (\<lambda>k. entry_of (d1_select d0 k)) (\<lambda>k. entry_of (d1_select d k)) dps dh) \<and>
   ((cas_step dynamo_get dynamo_put None js_floor m)\<^sup>*\<^sup>* (y0, [], []) (y, yps, yh) \<longrightarrow>
      linearized (\<lambda>k. entry_of (dynamo_get y0 k)) (\<lambda>k. entry_of (dynamo_get y k)) yps yh) \<and>
   (deno_ok kv0 \<and> (cas_step dk_entries deno_commit (Some deno_reset) (\<lambda>clock. clock) m)\<^sup>*\<^sup>* (kv0, [], []) (kv, kps, kh) \<longrightarrow>
      linearized (\<lambda>k. entry_of (dk_entries kv0 k)) (\<lambda>k. entry_of (dk_entries kv k)) kps kh)"
  using d1_linearized dynamo_linearized deno_linearized by blast

theorem optimistic_stores_linearize_witness:
  "\<exists>d y (kv :: nat deno_kv). linearized (\<lambda>k. None) (\<lambda>k. entry_of (d1_select d k))
       [\<lparr>cp_store = 0, cp_key = ''k'', cp_f = count_up, cp_phase = Returned 1\<rparr>, \<lparr>cp_store = 1, cp_key = ''k'', cp_f = count_up, cp_phase = Returned 2\<rparr>]
       [Applied 0 ''k'' count_up 7 1, Applied 1 ''k'' count_up 7 2] \<and>
     linearized (\<lambda>k. None) (\<lambda>k. entry_of (dynamo_get y k))
       [\<lparr>cp_store = 0, cp_key = ''k'', cp_f = count_up, cp_phase = Returned 1\<rparr>, \<lparr>cp_store = 1, cp_key = ''k'', cp_f = count_up, cp_phase = Returned 2\<rparr>]
       [Applied 0 ''k'' count_up 7 1, Applied 1 ''k'' count_up 7 2] \<and>
     linearized (\<lambda>k. None) (\<lambda>k. entry_of (dk_entries kv k))
       [\<lparr>cp_store = 0, cp_key = deno_key (Some ''rl'') ''k'', cp_f = count_up, cp_phase = Returned 1\<rparr>,
        \<lparr>cp_store = 1, cp_key = deno_key (Some ''rl'') ''k'', cp_f = count_up, cp_phase = Returned 2\<rparr>]
       [Applied 0 (deno_key (Some ''rl'') ''k'') count_up 7 1, Applied 1 (deno_key (Some ''rl'') ''k'') count_up 7 2]"
proof -
  have seven: "js_floor 7 = 7" by (simp add: js_floor_def)
  obtain d where d: "(cas_step d1_select d1_write None js_floor 16)\<^sup>*\<^sup>* (Map.empty, [], [])
      (d, [\<lparr>cp_store = 0, cp_key = ''k'', cp_f = count_up, cp_phase = Returned 1\<rparr>, \<lparr>cp_store = 1, cp_key = ''k'', cp_f = count_up, cp_phase = Returned 2\<rparr>],
       [Applied 0 ''k'' count_up 7 1, Applied 1 ''k'' count_up 7 2])"
    using d1.race_runs[where db = Map.empty and k = "''k''" and f = count_up and ?s1.0 = 1 and ?r1.0 = 1 and ?r2.0 = 2 and m = 16 and tick = js_floor and c = 7] seven
    by (auto simp: empty_table simp del: One_nat_def)
  obtain y where y: "(cas_step dynamo_get dynamo_put None js_floor 16)\<^sup>*\<^sup>* (Map.empty, [], [])
      (y, [\<lparr>cp_store = 0, cp_key = ''k'', cp_f = count_up, cp_phase = Returned 1\<rparr>, \<lparr>cp_store = 1, cp_key = ''k'', cp_f = count_up, cp_phase = Returned 2\<rparr>],
       [Applied 0 ''k'' count_up 7 1, Applied 1 ''k'' count_up 7 2])"
    using dynamo.race_runs[where db = Map.empty and k = "''k''" and f = count_up and ?s1.0 = 1 and ?r1.0 = 1 and ?r2.0 = 2 and m = 16 and tick = js_floor and c = 7] seven
    by (auto simp: empty_table simp del: One_nat_def)
  let ?k = "deno_key (Some ''rl'') ''k''"
  obtain kv where kv: "(cas_step dk_entries deno_commit (Some deno_reset) (\<lambda>clock. clock) 16)\<^sup>*\<^sup>* (deno_fresh, [], [])
      (kv, [\<lparr>cp_store = 0, cp_key = ?k, cp_f = count_up, cp_phase = Returned 1\<rparr>, \<lparr>cp_store = 1, cp_key = ?k, cp_f = count_up, cp_phase = Returned 2\<rparr>],
       [Applied 0 ?k count_up 7 1, Applied 1 ?k count_up 7 2])"
    using deno.race_runs[where db = deno_fresh and k = ?k and f = count_up and ?s1.0 = 1 and ?r1.0 = 1 and ?r2.0 = 2 and m = 16 and tick = "\<lambda>clock. clock" and c = 7] deno_fresh_ok
    by (auto simp: deno_fresh_def simp del: One_nat_def)
  note all = optimistic_stores_linearize[where ?d0.0 = Map.empty and ?y0.0 = Map.empty and ?kv0.0 = deno_fresh and m = 16 and d = d and y = y and kv = kv]
  note D = all[THEN conjunct1, THEN mp, OF d] and Y = all[THEN conjunct2, THEN conjunct1, THEN mp, OF y]
    and K = all[THEN conjunct2, THEN conjunct2, THEN mp, OF conjI[OF deno_fresh_ok kv]]
  show ?thesis by (intro exI conjI) (rule D[unfolded empty_cells] Y[unfolded empty_cells] K[unfolded empty_cells])+
qed

text \<open>
  What the coalescing is for: if all applications come from one process, and nothing is deleted, every write commits at the
  first attempt.
\<close>

lemma d1_coalesced:
  "(cas_step d1_select d1_write None tick m)\<^sup>*\<^sup>* (db0, [], []) (db, ps, h) \<Longrightarrow> \<forall>p\<in>set ps. cp_store p = sid \<Longrightarrow> i < length ps \<Longrightarrow>
   cp_phase (ps ! i) \<noteq> Exhausted \<and> cp_phase (ps ! i) \<noteq> At_Get (Suc a)"
  using d1.calm_run[where ?db0.0 = db0 and tick = tick and m = m and s = "(db, ps, h)" and sid = sid]
  by (auto simp: d1.calm_def d1.calm_proc_def split: cas_phase.splits)

lemma dynamo_coalesced:
  "(cas_step dynamo_get dynamo_put None tick m)\<^sup>*\<^sup>* (db0, [], []) (db, ps, h) \<Longrightarrow> \<forall>p\<in>set ps. cp_store p = sid \<Longrightarrow> i < length ps \<Longrightarrow>
   cp_phase (ps ! i) \<noteq> Exhausted \<and> cp_phase (ps ! i) \<noteq> At_Get (Suc a)"
  using dynamo.calm_run[where ?db0.0 = db0 and tick = tick and m = m and s = "(db, ps, h)" and sid = sid]
  by (auto simp: dynamo.calm_def dynamo.calm_proc_def split: cas_phase.splits)

text \<open>
  Where rows are deleted, a version of D1 and of DynamoDB starts again at zero. Here an application has read an expired row of
  version 0 when the sweep reclaims it; another application inserts the key and returns 1; the write of the first still finds
  version 0, and returns 1 too. The same happens when DynamoDB reclaims the item by its TTL.
\<close>

definition expired_row :: "nat d1_db" where
  "expired_row = [''k'' \<mapsto> \<lparr>d1_state = Some 5, d1_expires_at = 100, d1_version = 0\<rparr>]"

lemma sweep_loses_an_update:
  fixes p q :: "(string, nat, nat) cas_proc"
  defines "p \<equiv> cas_start 0 ''k'' count_up" and "q \<equiv> cas_start 1 ''k'' count_up"
  shows "cas_get d1_select js_floor 200 expired_row 0 p = At_Put 0 200 (Some 0) (count_up None) \<and>
    cas_get d1_select js_floor 200 (d1_sweep expired_row 200) 0 q = At_Put 0 200 None (count_up None) \<and>
    (\<exists>db db'. cas_put d1_write 16 (d1_sweep expired_row 200) ''k'' 0 200 None (count_up None) = (Returned 1, db) \<and>
       cas_put d1_write 16 db ''k'' 0 200 (Some 0) (count_up None) = (Returned 1, db'))"
proof -
  have now: "js_floor 200 = 200" by (simp add: js_floor_def)
  have gone: "d1_sweep expired_row 200 ''k'' = None" by (simp add: d1_sweep_def expired_row_def now)
  show ?thesis
    using gone by (simp add: p_def q_def cas_start_def cas_get_def cas_put_def now Let_def d1_select_def d1_write_def expired_row_def
        entry_of_def version_of_def live_state_def)
qed

lemma reclaim_loses_an_update:
  "\<exists>db db' db''. cas_put dynamo_put 16 Map.empty ''k'' 0 t None (count_up None) = (Returned 1, db) \<and>
     cas_get dynamo_get (\<lambda>c. c) (t + 5000) db 0 (cas_start 0 ''k'' count_up) = At_Put 0 (t + 5000) (Some 0) (count_up None) \<and>
     cas_put dynamo_put 16 (dynamo_reset db ''k'') ''k'' 0 (t + 5000) None (count_up None) = (Returned 1, db') \<and>
     cas_put dynamo_put 16 db' ''k'' 0 (t + 5000) (Some 0) (count_up None) = (Returned 1, db'')"
  by (simp add: cas_start_def cas_get_def cas_put_def Let_def dynamo_get_def dynamo_put_def dynamo_reset_def entry_of_def version_of_def
      live_state_def expiry_of_def count_up_def js_ceil_def)

end
