(* ===== verification/Spec2Isabelle.thy ===== *)
theory Spec2Isabelle
  imports Gcra TokenBucket FixedWindow SlidingLog SlidingWindow LeakyBucket Quota Limiter MultiLua Adaptive Wfe LeaseSpender Ip Sketch HeartbeatStores Fleet RegionFleet Federation RegionalEscrow Decisions Reservation MaxMin Admission TokenMeter FluidLp FusedLua Unified CasStores
begin

text \<open>
  Verification development of ThrottleKit, a rate-limiting and admission library in TypeScript. Paths are
  relative to the package root: \<open>algorithms/gcra.ts\<close> is \<open>src/algorithms/gcra.ts\<close> there.

  \<^bold>\<open>The program.\<close> A limiter (\<open>core/limiter.ts\<close>) runs a \<^emph>\<open>strategy\<close> over a \<^emph>\<open>store\<close>. A strategy is a record of
  pure functions from a stored state, a time and a cost to an outcome: the next state, a decision, a time to
  live. A store performs one such transition atomically per key and forgets a key when its time to live has
  passed. Every strategy exists twice, in TypeScript and as a Lua script that a Redis server runs. On
  top of this core sit limits on several dimensions at once, local tiers that lease credits from a
  distributed store, limits on concurrency with a coordinator for a fleet, federations of regions that
  share one budget, fair sharing among tenants, budgets of tokens, and one call that combines rate, concurrency
  and cost.

  \<^bold>\<open>Numbers and effects.\<close> A number that passed validation is an exact real (\<open>num\<close> of Prelude); a number that
  reaches a validator is a \<open>js_number\<close>, with \<open>NaN\<close> and the infinities. The rounding of doubles is not modelled.
  Hashes, counters of sketches and addresses are machine words of the width the code masks them to. A throw is the
  left injection of a sum. A clock is an argument. Where the code awaits, its function is split there: one
  definition per stretch of code between two awaits, and the theorems let other stretches run in between in any
  order. What the code calls and this repository does not contain (a coordinator in another process, a callback,
  a network) is an argument or a nondeterministic step.

  \<^bold>\<open>Shared theories.\<close>
  \<^item> Prelude: the number model, sums as results, generic lemmas and the named collections.
  \<^item> Core: \<open>core/types.ts\<close>, \<open>validate.ts\<close>, \<open>combine.ts\<close>, \<open>math.ts\<close>, \<open>key.ts\<close>, \<open>clock.ts\<close>, \<open>lua.ts\<close>, \<open>errors.ts\<close>.
  \<^item> Contract: the locale of what a strategy promises. The \<open>view\<close> of a state is what a transition can see of it; the
    locale says that a state expired by its time to live has the view of no state. Each strategy interprets it.
  \<^item> StoreContract: the locale of an atomic store with expiry, interpreted by the memory store; a client of a
    strategy and a store sees independent keys that never expire.
  \<^item> Assoc, JsText: \<open>Map\<close>s in insertion order; the string functions of the parsers, and \<open>core/duration.ts\<close>.

  \<^bold>\<open>Strategies\<close> (\<open>algorithms\<close>). Gcra, TokenBucket, FixedWindow, SlidingLog, SlidingWindow, LeakyBucket, Calendar and
  Quota, one theory per file: the factory with its validation, \<open>check\<close>, \<open>peek\<close>, \<open>forecast\<close> and the script. Each shows the
  bound the strategy is named for, over arbitrary runs, the exactness or sufficiency of \<open>retryAfterMs\<close>, and that
  the script computes what the function does. Decisions collects that every strategy answers with a well-formed
  decision.

  \<^bold>\<open>Stores and limiters.\<close>
  \<^item> TimingWheel (\<open>stores/timing-wheel.ts\<close>) refines a map with deadlines; MemoryStore (\<open>stores/memory.ts\<close>) refines cells with
    deadlines, keeps its capacity, and evicts by second chance after a bounded scan.
  \<^item> Limiter (\<open>core/limiter.ts\<close>, \<open>core/transform.ts\<close>): every method, composed with any store that keeps the contract.
  \<^item> CasStores (\<open>cloudflare/d1.ts\<close>, \<open>dynamodb/store.ts\<close>, \<open>deno/store.ts\<close>): the compare-and-set loop over the locale of a
    conditional write, interpreted by the three databases: it linearizes under any interleaving.
  \<^item> Multi and MultiLua (\<open>multi/index.ts\<close>): several dimensions, all or any of which must allow; no partial
    consumption, and the one-trip script agrees.
  \<^item> Sketch (\<open>sketch/index.ts\<close>): Count-Min with FNV-1a on 32-bit words, and the limiter over it. Ip
    (\<open>security/ip.ts\<close>): the client address under a trust policy.

  \<^bold>\<open>Leasing.\<close> Wfe (\<open>twotier/weighted-fair-escrow.ts\<close>), TwoTier (\<open>twotier/index.ts\<close>), LeaseSpender, Sizing: credits leased in batches
  are conserved whatever the interleaving; a tenant's guarantee survives borrowing; the sizes stay in range.

  \<^bold>\<open>Concurrency.\<close> Adaptive (\<open>concurrency/adaptive.ts\<close>): the guard and its two control laws. Heartbeat, HeartbeatStores: the
  coordinator that parcels out one limit, in memory, in Redis, where the key expires with the longest lease in it, and in Postgres. DistGuard, Fleet: the
  guard of a node under a coordinator, and a whole fleet over a network that delays and loses messages.

  \<^bold>\<open>Federation.\<close> RegionPool and FedWfe: regions leasing from one pool in their process. RegionFleet: regions in separate
  processes on the Redis pool, whose calls, replies, resets and releases interleave. FedCoordinator: three global coordinators
  against one reference; the bounds assume that all callers share a clock with the server, or take its clock. Federation: the engine of a region with its ledger. RegionalEscrow: the balance the processes of a
  region share. The theorems bound what all regions admit in a window, whatever fails; each states which clocks it takes to
  agree and which calls it takes not to straddle the end of a window.

  \<^bold>\<open>Admission.\<close> Admission, Reservation, MaxMin, TokenMeter (\<open>admission/index.ts\<close>, \<open>admission/distributed-budget.ts\<close>): the throttle
  and the splitters, learned reservations with regret bounds, weighted max-min allocation, token budgets. FluidLp
  (\<open>admission/fluid-lp.ts\<close>): bid prices by vertex enumeration are optimal. FusedLua (\<open>admission/fused-lua.ts\<close>): one script is two.
  Unified (\<open>admission/unified.ts\<close>): the combined call; no slot leaks, and the filter only removes.

  \<^bold>\<open>Bounds and fuel.\<close> Loops are structural recursions or functions with a termination proof, over the size the
  code's own loop counts down: the slots of a wheel, the entries of a ring, the scan of an eviction (two rounds of
  the ring, which is proved to be enough), the rounds of a spender. A retry loop whose length depends on other
  processes is a step relation, so that no fuel is needed. Constants of the code, such as the 64 leases of one federated check, the 64 types the
  warm-up observes or the longest sleep of the timers, are definitions with their value.

  \<^bold>\<open>Not modelled.\<close> The web adapters and headers, configuration and command line, policy tooling, observability and
  analytics, the test kit and the daemon under \<open>server\<close>: they read decisions or carry them, and decide nothing. The clients
  of Redis and Postgres, connection handling and timers: a call is a step that happens, fails or loses its reply. The
  JSON text of a state, which is taken to read back as written. Key hashing, which is a call of the platform.
  Rounding, as said above; where a script prints a number with fewer digits, the theory says so.
\<close>

end
